(* ===== verification/Mongo_Prelude.thy ===== *)
theory Mongo_Prelude
  imports Main "HOL-Library.Word" "HOL-Library.Char_ord" "HOL-Library.List_Lexorder"
begin

text \<open>
  The shared layer of the development: fixed-width integer types, the error type of an
  operation that aborts the process or leaves the language's defined behaviour, the sequencing
  of such operations, and generic lemmas on vectors (lists) that several components use.

  Strings are byte strings (\<^typ>\<open>string\<close> is a list of 8-bit characters) and \<open>HOL-Library.Char_ord\<close>
  with \<open>HOL-Library.List_Lexorder\<close> gives them the order of \<open>memcmp\<close> on unsigned bytes
  followed by the length, which is what \<open>std::string\<close> and \<open>StringData\<close> compare by.
\<close>

named_theorems result_simps \<open>sequencing of operations that can abort\<close>
named_theorems vector_simps \<open>searching and erasing in a vector\<close>

type_synonym int8 = "8 word"
type_synonym int32 = "32 word"
type_synonym int64 = "64 word"
type_synonym uint64 = "64 word"
type_synonym byte = "8 word"

subsection \<open>Aborting operations\<close>

text \<open>
  \<open>FAssert n\<close> is a failed \<open>fassert(n, ...)\<close>, \<open>UAssert n\<close> the exception of a failed
  \<open>uassert(n, ...)\<close> or \<open>massert\<close>, \<open>Verify\<close> a failed \<open>verify\<close>, \<open>OutOfRange\<close> the \<open>std::out_of_range\<close> exception,
  \<open>SignedOverflow\<close> a signed addition or subtraction that leaves its type, and \<open>UndefinedBehaviour\<close> any
  other step whose behaviour the C++ standard does not define (erasing the
  past-the-end iterator, reading behind a buffer).
\<close>

datatype fatal = FAssert nat | UAssert nat | Verify | OutOfRange | SignedOverflow | UndefinedBehaviour

type_synonym 'a result = "fatal + 'a"

definition bindE :: "'a result \<Rightarrow> ('a \<Rightarrow> 'b result) \<Rightarrow> 'b result" where
  "bindE m f = (case m of Inl e \<Rightarrow> Inl e | Inr x \<Rightarrow> f x)"

lemma bindE_Inl [simp]: "bindE (Inl e) f = Inl e"
  by (simp add: bindE_def)

lemma bindE_Inr [simp]: "bindE (Inr x) f = f x"
  by (simp add: bindE_def)

lemma bindE_eq_Inr_iff [result_simps]:
  "bindE m f = Inr y \<longleftrightarrow> (\<exists>x. m = Inr x \<and> f x = Inr y)"
  by (cases m) simp_all

lemma bindE_assoc: "bindE (bindE m f) g = bindE m (\<lambda>x. bindE (f x) g)"
  by (cases m) simp_all

lemma bindE_cong [fundef_cong]:
  "m = m' \<Longrightarrow> (\<And>x. m' = Inr x \<Longrightarrow> f x = g x) \<Longrightarrow> bindE m f = bindE m' g"
  by (cases m') simp_all

text \<open>\<open>fassert(code, ok)\<close>: the process aborts when \<open>ok\<close> is false.\<close>

definition fassert :: "nat \<Rightarrow> bool \<Rightarrow> unit result" where
  "fassert code ok = (if ok then Inr () else Inl (FAssert code))"

lemma fassert_eq_Inr [simp]: "fassert n b = Inr u \<longleftrightarrow> b"
  by (simp add: fassert_def)

lemma fassert_True [simp]: "fassert n True = Inr ()"
  by (simp add: fassert_def)

text \<open>The result of an \<open>int\<close> addition or subtraction: leaving the type is undefined.\<close>

definition checked32 :: "int \<Rightarrow> int result" where
  "checked32 x = (if - (2 ^ 31) \<le> x \<and> x < 2 ^ 31 then Inr x else Inl SignedOverflow)"

lemma checked32_Inr [simp]: "- (2 ^ 31) \<le> x \<Longrightarrow> x < 2 ^ 31 \<Longrightarrow> checked32 x = Inr x"
  by (simp add: checked32_def)

text \<open>A loop over a vector whose body updates a state and may abort.\<close>

fun foldE :: "('a \<Rightarrow> 's \<Rightarrow> 's result) \<Rightarrow> 'a list \<Rightarrow> 's \<Rightarrow> 's result" where
  "foldE f [] s = Inr s"
| "foldE f (x # xs) s = bindE (f x s) (foldE f xs)"

lemma foldE_append: "foldE f (xs @ ys) s = bindE (foldE f xs s) (foldE f ys)"
  by (induction xs arbitrary: s) (simp_all add: bindE_assoc, metis (lifting) bindE_cong)

lemma foldE_invariant:
  assumes "\<And>x s. x \<in> set xs \<Longrightarrow> P s \<Longrightarrow> \<exists>s'. f x s = Inr s' \<and> P s'"
    and "P s"
  shows "\<exists>s'. foldE f xs s = Inr s' \<and> P s'"
  using assms
proof (induction xs arbitrary: s)
  case Nil
  then show ?case by simp
next
  case (Cons x xs)
  from Cons.prems obtain s1 where "f x s = Inr s1" and s1: "P s1" by fastforce
  moreover have "\<exists>s'. foldE f xs s1 = Inr s' \<and> P s'"
    by (rule Cons.IH [OF _ s1]) (use Cons.prems in auto)
  ultimately show ?case by simp
qed

subsection \<open>Vectors: std::find and erase\<close>

text \<open>
  \<open>erase_found p v\<close> is \<open>v.erase(std::find_if(v.begin(), v.end(), p))\<close>: the first element that
  satisfies \<open>p\<close> is removed; with no such element \<open>erase\<close> receives the end iterator, which is
  undefined.
\<close>

fun erase_found :: "('a \<Rightarrow> bool) \<Rightarrow> 'a list \<Rightarrow> 'a list result" where
  "erase_found p [] = Inl UndefinedBehaviour"
| "erase_found p (x # xs) =
     (if p x then Inr xs else bindE (erase_found p xs) (\<lambda>ys. Inr (x # ys)))"

lemma erase_found_defined [vector_simps]:
  "\<exists>x \<in> set xs. p x \<Longrightarrow> \<exists>ys. erase_found p xs = Inr ys"
  by (induction xs) (auto simp: result_simps)

lemma erase_found_remove1 [vector_simps]:
  "erase_found (\<lambda>x. f x = k) xs = Inr ys \<Longrightarrow> map f ys = remove1 k (map f xs)"
  by (induction xs arbitrary: ys) (auto simp: result_simps split: if_splits)

lemma erase_found_subset:
  "erase_found p xs = Inr ys \<Longrightarrow> set ys \<subseteq> set xs"
  by (induction xs arbitrary: ys) (auto simp: result_simps split: if_splits)

lemma erase_found_Inr_iff: "(\<exists>ys. erase_found p xs = Inr ys) \<longleftrightarrow> (\<exists>x \<in> set xs. p x)"
  by (induction xs) (auto simp: result_simps)

subsection \<open>Operations that refine a specification\<close>

text \<open>
  \<open>run_spec\<close> runs a list of operations of a partial specification; \<open>along env\<close> says that a side
  condition on the environment (a fresh address, a free slot) holds before each operation.
\<close>

fun run_spec :: "('o \<Rightarrow> 'a \<Rightarrow> 'a option) \<Rightarrow> 'o list \<Rightarrow> 'a \<Rightarrow> 'a option" where
  "run_spec spec [] a = Some a"
| "run_spec spec (x # xs) a = (case spec x a of None \<Rightarrow> None | Some a' \<Rightarrow> run_spec spec xs a')"

fun along :: "('o \<Rightarrow> 'c \<Rightarrow> bool) \<Rightarrow> ('o \<Rightarrow> 'c \<Rightarrow> 'c result) \<Rightarrow> 'o list \<Rightarrow> 'c \<Rightarrow> bool" where
  "along env step [] c \<longleftrightarrow> True"
| "along env step (x # xs) c \<longleftrightarrow>
     env x c \<and> (case step x c of Inl _ \<Rightarrow> True | Inr c' \<Rightarrow> along env step xs c')"

locale simulation =
  fixes step :: "'o \<Rightarrow> 'c \<Rightarrow> 'c result"
    and spec :: "'o \<Rightarrow> 'a \<Rightarrow> 'a option"
    and rel :: "'c \<Rightarrow> 'a \<Rightarrow> bool"
    and env :: "'o \<Rightarrow> 'c \<Rightarrow> bool"
  assumes simulates:
    "rel c a \<Longrightarrow> env x c \<Longrightarrow> spec x a = Some a' \<Longrightarrow> \<exists>c'. step x c = Inr c' \<and> rel c' a'"
begin

lemma run_simulates:
  "rel c a \<Longrightarrow> along env step xs c \<Longrightarrow> run_spec spec xs a = Some a' \<Longrightarrow>
   \<exists>c'. foldE step xs c = Inr c' \<and> rel c' a'"
proof (induction xs arbitrary: c a)
  case Nil
  then show ?case by simp
next
  case (Cons x xs)
  from Cons.prems(3) obtain a1 where a1: "spec x a = Some a1" "run_spec spec xs a1 = Some a'"
    by (auto split: option.splits)
  from Cons.prems(2) have "env x c" by simp
  with Cons.prems(1) a1(1) obtain c1 where c1: "step x c = Inr c1" "rel c1 a1"
    using simulates by blast
  with Cons.prems(2) have "along env step xs c1" by simp
  from Cons.IH [OF c1(2) this a1(2)] c1(1) show ?case by simp
qed

end

subsection \<open>Three-way comparisons\<close>

text \<open>
  The contract of a \<open>compare\<close> function that returns a negative, zero or positive number. What its
  clients (ordered containers, sorting) need is that \<open>cmp x y < 0\<close> is a strict weak order.
\<close>

locale three_way =
  fixes cmp :: "'a \<Rightarrow> 'a \<Rightarrow> int"
  assumes cmp_anti: "sgn (cmp x y) = - sgn (cmp y x)"
    and cmp_less_trans: "cmp x y < 0 \<Longrightarrow> cmp y z < 0 \<Longrightarrow> cmp x z < 0"
    and cmp_eq_less: "cmp x y = 0 \<Longrightarrow> cmp y z < 0 \<Longrightarrow> cmp x z < 0"
    and cmp_eq_trans: "cmp x y = 0 \<Longrightarrow> cmp y z = 0 \<Longrightarrow> cmp x z = 0"
begin

lemma cmp_refl: "cmp x x = 0"
  using cmp_anti [of x x] by (simp add: sgn_if split: if_splits)

lemma cmp_zero_sym: "cmp x y = 0 \<longleftrightarrow> cmp y x = 0"
  using cmp_anti [of x y] by (auto simp: sgn_if split: if_splits)

lemma cmp_neg_iff_pos: "cmp x y < 0 \<longleftrightarrow> 0 < cmp y x"
  using cmp_anti [of x y] by (auto simp: sgn_if split: if_splits)

lemma cmp_less_eq: "cmp x y < 0 \<Longrightarrow> cmp y z = 0 \<Longrightarrow> cmp x z < 0"
  using cmp_eq_trans [of y z x] cmp_eq_less [of y z x] cmp_zero_sym [of x z] cmp_zero_sym [of x y]
    cmp_neg_iff_pos [of z x] cmp_neg_iff_pos [of y x] by linarith

lemma strict_weak_order:
  shows "\<not> cmp x x < 0"
    and "cmp x y < 0 \<Longrightarrow> \<not> cmp y x < 0"
    and "\<not> cmp x y < 0 \<Longrightarrow> \<not> cmp y z < 0 \<Longrightarrow> \<not> cmp x z < 0"
proof -
  show "\<not> cmp x x < 0" by (simp add: cmp_refl)
  show "cmp x y < 0 \<Longrightarrow> \<not> cmp y x < 0" using cmp_neg_iff_pos [of y x] by simp
  assume "\<not> cmp x y < 0" "\<not> cmp y z < 0"
  then show "\<not> cmp x z < 0"
    using cmp_less_trans [of x z y] cmp_less_eq [of x z y] cmp_neg_iff_pos [of z y]
      cmp_zero_sym [of z y] by linarith
qed

end

text \<open>Decimal notation, as the stream operators print it.\<close>

fun decimal_digits :: "nat \<Rightarrow> string" where
  "decimal_digits n = (if n < 10 then [char_of (48 + n)] else decimal_digits (n div 10) @ [char_of (48 + n mod 10)])"

declare decimal_digits.simps [simp del]

text \<open>Sequencing of operations that may also not return (\<open>None\<close>).\<close>

definition bindO :: "'a result option \<Rightarrow> ('a \<Rightarrow> 'b result option) \<Rightarrow> 'b result option" where
  "bindO x f = (case x of None \<Rightarrow> None | Some (Inl e) \<Rightarrow> Some (Inl e) | Some (Inr y) \<Rightarrow> f y)"

lemma bindO_simps [simp]:
  "bindO None f = None" "bindO (Some (Inl e)) f = Some (Inl e)" "bindO (Some (Inr x)) f = f x"
  by (simp_all add: bindO_def)

end
