(* ===== verification/Status.thy ===== *)
theory Status
  imports Mongo_Prelude
begin

text \<open>
  \<open>src/mongo/base/status.{h,cpp}\<close> and \<open>status-inl.h\<close>: the result object of fallible operations.

  A \<open>Status\<close> is a pointer to a shared, reference counted \<open>ErrorInfo\<close>, null for plain success.
  The first part models its value: the components of the library return it. The second part
  models the sharing: a heap of \<open>ErrorInfo\<close> objects with their 32-bit counters and the copy
  constructor, assignment and destructor that maintain them. The invariant is that the counter
  of every live object is the number of handles to it; the refinement lemma says that under the
  invariant handles behave as plain values.
\<close>

subsection \<open>The value of a status\<close>

text \<open>
  The codes of \<open>base/error_codes.err\<close> that the modelled components return; every other code of
  that file is \<open>OtherCode\<close> with its number.
\<close>

datatype error_code =
    OK
  | InternalError
  | BadValue
  | GraphContainsCycle
  | FailedToParse
  | UserNotFound
  | Unauthorized
  | TypeMismatch
  | InvalidBSON
  | RoleNotFound
  | RolesNotRelated
  | PrivilegeNotFound
  | InvalidRoleModification
  | OplogOperationUnsupported
  | DuplicateKey
  | OtherCode int

record error_info =
  ei_code :: error_code
  ei_reason :: string
  ei_location :: int

type_synonym status = "error_info option"

definition ErrorInfo_create :: "error_code \<Rightarrow> string \<Rightarrow> int \<Rightarrow> error_info option" where
  "ErrorInfo_create c r l =
     (let needRep = (c \<noteq> OK \<or> r \<noteq> [] \<or> l \<noteq> 0)
      in if needRep then Some \<lparr>ei_code = c, ei_reason = r, ei_location = l\<rparr> else None)"

definition Status :: "error_code \<Rightarrow> string \<Rightarrow> int \<Rightarrow> status" where
  "Status code reason location = ErrorInfo_create code reason location"

definition Status_OK :: status where
  "Status_OK = None"

definition status_code :: "status \<Rightarrow> error_code" where
  "status_code s = (case s of None \<Rightarrow> OK | Some e \<Rightarrow> ei_code e)"

definition status_reason :: "status \<Rightarrow> string" where
  "status_reason s = (case s of None \<Rightarrow> [] | Some e \<Rightarrow> ei_reason e)"

definition status_location :: "status \<Rightarrow> int" where
  "status_location s = (case s of None \<Rightarrow> 0 | Some e \<Rightarrow> ei_location e)"

definition isOK :: "status \<Rightarrow> bool" where
  "isOK s \<longleftrightarrow> status_code s = OK"

definition status_compare :: "status \<Rightarrow> status \<Rightarrow> bool" where
  "status_compare s t \<longleftrightarrow>
     status_code s = status_code t \<and> status_location s = status_location t"

definition status_compareCode :: "status \<Rightarrow> error_code \<Rightarrow> bool" where
  "status_compareCode s c \<longleftrightarrow> status_code s = c"

lemma status_code_Status [simp]: "status_code (Status c r l) = c"
  by (simp add: Status_def ErrorInfo_create_def status_code_def)

lemma status_reason_Status [simp]: "status_reason (Status c r l) = r"
  by (simp add: Status_def ErrorInfo_create_def status_reason_def)

lemma status_location_Status [simp]: "status_location (Status c r l) = l"
  by (simp add: Status_def ErrorInfo_create_def status_location_def)

lemma status_code_OK [simp]: "status_code Status_OK = OK"
  by (simp add: Status_OK_def status_code_def)

lemma isOK_Status_OK [simp]: "isOK Status_OK"
  by (simp add: isOK_def)

lemma isOK_Status [simp]: "isOK (Status c r l) \<longleftrightarrow> c = OK"
  by (simp add: isOK_def)

lemma Status_eq_OK_iff [simp]: "Status c r l = Status_OK \<longleftrightarrow> c = OK \<and> r = [] \<and> l = 0"
  by (simp add: Status_def ErrorInfo_create_def Status_OK_def)

lemma Status_neq_OK [simp]: "c \<noteq> OK \<Longrightarrow> Status c r l \<noteq> Status_OK"
  by simp

subsection \<open>Sharing: the reference counted heap\<close>

record refd_info =
  ri_info :: error_info
  ri_refs :: "32 word"

text \<open>\<open>infos\<close> is the heap of \<open>ErrorInfo\<close> objects, \<open>handles\<close> the live \<open>Status\<close> objects with their
  \<open>_error\<close> pointer (\<open>None\<close> is the null pointer).\<close>

record status_heap =
  infos :: "nat \<rightharpoonup> refd_info"
  handles :: "nat \<rightharpoonup> nat option"

definition ref :: "nat option \<Rightarrow> status_heap \<Rightarrow> status_heap result" where
  "ref error h =
     (case error of
        None \<Rightarrow> Inr h
      | Some a \<Rightarrow>
          (case infos h a of
             None \<Rightarrow> Inl UndefinedBehaviour
           | Some i \<Rightarrow> Inr (h\<lparr>infos := (infos h)(a \<mapsto> i\<lparr>ri_refs := ri_refs i + 1\<rparr>)\<rparr>)))"

definition unref :: "nat option \<Rightarrow> status_heap \<Rightarrow> status_heap result" where
  "unref error h =
     (case error of
        None \<Rightarrow> Inr h
      | Some a \<Rightarrow>
          (case infos h a of
             None \<Rightarrow> Inl UndefinedBehaviour
           | Some i \<Rightarrow>
               (if ri_refs i - 1 = 0 then Inr (h\<lparr>infos := (infos h)(a := None)\<rparr>)
                else Inr (h\<lparr>infos := (infos h)(a \<mapsto> i\<lparr>ri_refs := ri_refs i - 1\<rparr>)\<rparr>))))"

text \<open>\<open>Status(code, reason, location)\<close> at the free address \<open>a\<close> the allocator returns.\<close>

definition status_construct ::
    "nat \<Rightarrow> nat \<Rightarrow> error_code \<Rightarrow> string \<Rightarrow> int \<Rightarrow> status_heap \<Rightarrow> status_heap result" where
  "status_construct x a c r l h =
     (case ErrorInfo_create c r l of
        None \<Rightarrow> ref None (h\<lparr>handles := (handles h)(x \<mapsto> None)\<rparr>)
      | Some e \<Rightarrow>
          ref (Some a) (h\<lparr>infos := (infos h)(a \<mapsto> \<lparr>ri_info = e, ri_refs = 0\<rparr>),
                          handles := (handles h)(x \<mapsto> Some a)\<rparr>))"

definition status_copy :: "nat \<Rightarrow> nat \<Rightarrow> status_heap \<Rightarrow> status_heap result" where
  "status_copy x other h =
     (case handles h other of
        None \<Rightarrow> Inl UndefinedBehaviour
      | Some e \<Rightarrow> ref e (h\<lparr>handles := (handles h)(x \<mapsto> e)\<rparr>))"

text \<open>\<open>operator=\<close> takes its reference to the right hand side before it drops its own.\<close>

definition status_assign :: "nat \<Rightarrow> nat \<Rightarrow> status_heap \<Rightarrow> status_heap result" where
  "status_assign x other h =
     (case (handles h x, handles h other) of
        (Some self_error, Some other_error) \<Rightarrow>
          bindE (ref other_error h) (\<lambda>h1.
          bindE (unref self_error h1) (\<lambda>h2.
          Inr (h2\<lparr>handles := (handles h2)(x \<mapsto> other_error)\<rparr>)))
      | _ \<Rightarrow> Inl UndefinedBehaviour)"

definition status_destroy :: "nat \<Rightarrow> status_heap \<Rightarrow> status_heap result" where
  "status_destroy x h =
     (case handles h x of
        None \<Rightarrow> Inl UndefinedBehaviour
      | Some e \<Rightarrow> bindE (unref e h) (\<lambda>h1. Inr (h1\<lparr>handles := (handles h1)(x := None)\<rparr>)))"

subsubsection \<open>The invariant and the value view\<close>

definition holders :: "nat \<Rightarrow> status_heap \<Rightarrow> nat set" where
  "holders a h = {x. handles h x = Some (Some a)}"

text \<open>
  Every handle points to a live object, the counter of a live object is the number of its
  handles and not zero, and fewer than \<open>2 ^ 32\<close> handles exist.
\<close>

definition refcount_ok :: "status_heap \<Rightarrow> bool" where
  "refcount_ok h \<longleftrightarrow>
     finite (dom (handles h)) \<and> card (dom (handles h)) < 2 ^ 32 \<and>
     (\<forall>x a. handles h x = Some (Some a) \<longrightarrow> a \<in> dom (infos h)) \<and>
     (\<forall>a i. infos h a = Some i \<longrightarrow> holders a h \<noteq> {} \<and> unat (ri_refs i) = card (holders a h))"

text \<open>What a client sees of the heap: the value each handle denotes.\<close>

definition status_value :: "status_heap \<Rightarrow> nat \<rightharpoonup> status" where
  "status_value h x =
     (case handles h x of
        None \<Rightarrow> None
      | Some None \<Rightarrow> Some None
      | Some (Some a) \<Rightarrow> Some (map_option ri_info (infos h a)))"

lemma holders_subset: "holders a h \<subseteq> dom (handles h)"
  by (auto simp: holders_def)

lemma finite_holders: "refcount_ok h \<Longrightarrow> finite (holders a h)"
  using holders_subset by (auto simp: refcount_ok_def intro: finite_subset)

lemma card_holders_bound: "refcount_ok h \<Longrightarrow> card (holders a h) < 2 ^ 32"
  using card_mono [OF _ holders_subset, of h a] by (auto simp: refcount_ok_def)

subsubsection \<open>One counter update\<close>

text \<open>
  The proofs follow the counters through the middle of an operation, where they are off by one:
  \<open>counted f h\<close> says that the heap counts \<open>f a\<close> references to address \<open>a\<close>.
\<close>

definition counted :: "(nat \<Rightarrow> nat) \<Rightarrow> status_heap \<Rightarrow> bool" where
  "counted f h \<longleftrightarrow>
     (\<forall>a. infos h a = None \<longrightarrow> f a = 0) \<and>
     (\<forall>a i. infos h a = Some i \<longrightarrow> f a \<noteq> 0 \<and> ri_refs i = of_nat (f a))"

definition info_at :: "status_heap \<Rightarrow> nat \<rightharpoonup> error_info" where
  "info_at h a = map_option ri_info (infos h a)"

fun count_up :: "nat option \<Rightarrow> (nat \<Rightarrow> nat) \<Rightarrow> nat \<Rightarrow> nat" where
  "count_up None f = f"
| "count_up (Some a) f = f(a := f a + 1)"

fun count_down :: "nat option \<Rightarrow> (nat \<Rightarrow> nat) \<Rightarrow> nat \<Rightarrow> nat" where
  "count_down None f = f"
| "count_down (Some a) f = f(a := f a - 1)"

lemma refcount_ok_counted:
  "refcount_ok h \<longleftrightarrow>
     finite (dom (handles h)) \<and> card (dom (handles h)) < 2 ^ 32 \<and>
     counted (\<lambda>a. card (holders a h)) h"
  (is "?L \<longleftrightarrow> ?R")
proof
  assume L: ?L
  have "card (holders a h) \<noteq> 0 \<longleftrightarrow> holders a h \<noteq> {}" for a
    using finite_holders [OF L] by simp
  moreover have "ri_refs i = of_nat (unat (ri_refs i))" for i :: refd_info
    by (simp add: of_nat_unat)
  moreover have "infos h a = None \<Longrightarrow> holders a h = {}" for a
    using L by (fastforce simp: refcount_ok_def holders_def dom_def)
  ultimately show ?R
    using L unfolding refcount_ok_def counted_def by (metis card.empty)
next
  assume R: ?R
  then have fin: "finite (holders a h)" for a
    using holders_subset finite_subset by metis
  have bnd: "card (holders a h) < 2 ^ 32" for a
    using R card_mono [OF _ holders_subset, of h a] by auto
  have "unat (of_nat (card (holders a h)) :: 32 word) = card (holders a h)" for a
    using bnd [of a] by (simp add: unat_of_nat)
  with R fin show ?L
    by (force simp: refcount_ok_def counted_def holders_def dom_def split: option.splits)
qed

lemma ref_counted:
  assumes "counted f h" and "case p of None \<Rightarrow> True | Some a \<Rightarrow> f a \<noteq> 0"
  shows "\<exists>h'. ref p h = Inr h' \<and> counted (count_up p f) h' \<and> handles h' = handles h \<and>
           info_at h' = info_at h"
  using assms
  by (cases p) (auto simp: ref_def counted_def info_at_def fun_eq_iff split: option.splits)

lemma unref_counted:
  assumes "counted f h" and "case p of None \<Rightarrow> True | Some a \<Rightarrow> f a \<noteq> 0 \<and> f a < 2 ^ 32"
  shows "\<exists>h'. unref p h = Inr h' \<and> counted (count_down p f) h' \<and> handles h' = handles h \<and>
           (\<forall>b. count_down p f b \<noteq> 0 \<longrightarrow> info_at h' b = info_at h b)"
proof (cases p)
  case None
  with assms show ?thesis by (simp add: unref_def)
next
  case (Some a)
  with assms(2) have a: "f a \<noteq> 0" "f a < 2 ^ 32" by simp_all
  with assms(1) obtain i where i: "infos h a = Some i" "ri_refs i = of_nat (f a)"
    by (cases "infos h a") (auto simp: counted_def)
  from a obtain m where m: "f a = Suc m" "m < 2 ^ 32"
    by (cases "f a") simp_all
  have zero: "(of_nat m :: 32 word) = 0 \<longleftrightarrow> m = 0"
    using m(2) by (auto simp: word_of_nat_eq_0_iff dest: dvd_imp_le)
  from Some i m(1) assms(1) show ?thesis
    by (auto simp: unref_def counted_def info_at_def zero split: option.splits)
qed

subsubsection \<open>The operations keep the invariant and act as on values\<close>

lemma holders_upd:
  "holders a (h\<lparr>handles := (handles h)(x \<mapsto> p)\<rparr>) =
     (if p = Some a then insert x (holders a h) else holders a h - {x})"
  by (auto simp: holders_def)

lemma holders_del:
  "holders a (h\<lparr>handles := (handles h)(x := None)\<rparr>) = holders a h - {x}"
  by (auto simp: holders_def)

lemma holders_cong: "handles h' = handles h \<Longrightarrow> holders a h' = holders a h"
  by (simp add: holders_def)

lemma counted_handles [simp]: "counted f (h\<lparr>handles := m\<rparr>) = counted f h"
  by (simp add: counted_def)

lemma counted_cong: "counted f h \<Longrightarrow> (\<And>a. f a = g a) \<Longrightarrow> counted g h"
  by (simp add: counted_def)

lemma info_at_handles [simp]: "info_at (h\<lparr>handles := m\<rparr>) = info_at h"
  by (simp add: info_at_def fun_eq_iff)

lemma status_value_info_at:
  "status_value h x =
     (case handles h x of None \<Rightarrow> None | Some None \<Rightarrow> Some None
      | Some (Some a) \<Rightarrow> Some (info_at h a))"
  by (simp add: status_value_def info_at_def split: option.splits)

lemma refcount_ok_pointer:
  assumes "refcount_ok h" and "handles h x = Some p"
  shows "case p of None \<Rightarrow> True | Some a \<Rightarrow> card (holders a h) \<noteq> 0 \<and> card (holders a h) < 2 ^ 32"
  using assms finite_holders [OF assms(1)] card_holders_bound [OF assms(1)]
  by (auto simp: holders_def split: option.splits)

lemma handle_mem_holders: "handles h x = Some p \<Longrightarrow> x \<in> holders a h \<longleftrightarrow> p = Some a"
  by (simp add: holders_def)

lemma status_copy_ok:
  assumes ok: "refcount_ok h" and y: "handles h y = Some p" and x: "handles h x = None"
    and room: "card (dom (handles h)) + 1 < 2 ^ 32"
  shows "\<exists>h'. status_copy x y h = Inr h' \<and> refcount_ok h' \<and>
           status_value h' = (status_value h)(x := status_value h y)"
proof -
  let ?h1 = "h\<lparr>handles := (handles h)(x \<mapsto> p)\<rparr>"
  have c: "counted (\<lambda>a. card (holders a h)) ?h1"
    using ok by (simp add: refcount_ok_counted)
  obtain h' where h': "ref p ?h1 = Inr h'" "counted (count_up p (\<lambda>a. card (holders a h))) h'"
    "handles h' = handles ?h1" "info_at h' = info_at ?h1"
    using ref_counted [OF c, of p] refcount_ok_pointer [OF ok y] by (auto split: option.splits)
  have "x \<notin> holders a h" for a
    using x by (simp add: holders_def)
  then have "count_up p (\<lambda>a. card (holders a h)) a = card (holders a h')" for a
    using finite_holders [OF ok, of a] holders_cong [OF h'(3), of a]
    by (cases p) (auto simp: holders_upd)
  with h'(2) have "counted (\<lambda>a. card (holders a h')) h'"
    by (rule counted_cong)
  moreover have "finite (dom (handles h'))" "card (dom (handles h')) < 2 ^ 32"
    using ok room x h'(3) by (simp_all add: refcount_ok_def domIff)
  moreover have "status_value h' = (status_value h)(x := status_value h y)"
    using h'(3,4) y by (auto simp: fun_eq_iff status_value_info_at split: option.splits)
  ultimately show ?thesis
    using h'(1) y by (simp add: status_copy_def refcount_ok_counted)
qed

lemma status_destroy_ok:
  assumes ok: "refcount_ok h" and x: "handles h x = Some p"
  shows "\<exists>h'. status_destroy x h = Inr h' \<and> refcount_ok h' \<and>
           status_value h' = (status_value h)(x := None)"
proof -
  have c: "counted (\<lambda>a. card (holders a h)) h"
    using ok by (simp add: refcount_ok_counted)
  obtain h1 where h1: "unref p h = Inr h1" "counted (count_down p (\<lambda>a. card (holders a h))) h1"
    "handles h1 = handles h"
    "\<forall>b. count_down p (\<lambda>a. card (holders a h)) b \<noteq> 0 \<longrightarrow> info_at h1 b = info_at h b"
    using unref_counted [OF c, of p] refcount_ok_pointer [OF ok x] by (auto split: option.splits)
  let ?h' = "h1\<lparr>handles := (handles h1)(x := None)\<rparr>"
  have hold: "holders a ?h' = holders a h - {x}" for a
    by (simp add: holders_del holders_cong [OF h1(3)])
  have cnt: "count_down p (\<lambda>a. card (holders a h)) a = card (holders a ?h')" for a
    unfolding hold using handle_mem_holders [of h x p a, OF x]
    by (cases p) (auto simp: card_Diff_singleton_if)
  with h1(2) have "counted (\<lambda>a. card (holders a ?h')) ?h'"
    by (auto intro: counted_cong)
  moreover have "finite (dom (handles ?h'))" "card (dom (handles ?h')) < 2 ^ 32"
    using ok h1(3) card_Diff1_le [of "dom (handles h)" x] by (simp_all add: refcount_ok_def)
  moreover have "handles h z = Some (Some a) \<Longrightarrow> z \<noteq> x \<Longrightarrow> info_at h1 a = info_at h a" for z a
  proof -
    assume "handles h z = Some (Some a)" "z \<noteq> x"
    then have "z \<in> holders a ?h'" by (simp add: hold) (simp add: holders_def)
    moreover have "finite (holders a ?h')"
      using finite_holders [OF ok, of a] unfolding hold by simp
    ultimately have "card (holders a ?h') \<noteq> 0" by auto
    then show ?thesis using h1(4) cnt [of a] by simp
  qed
  then have "status_value ?h' = (status_value h)(x := None)"
    using h1(3) by (auto simp: fun_eq_iff status_value_info_at split: option.splits)
  ultimately show ?thesis
    using h1(1) x by (auto simp: status_destroy_def refcount_ok_counted)
qed

lemma status_assign_ok:
  assumes ok: "refcount_ok h" and x: "handles h x = Some p" and y: "handles h y = Some q"
    and room: "card (dom (handles h)) + 1 < 2 ^ 32"
  shows "\<exists>h'. status_assign x y h = Inr h' \<and> refcount_ok h' \<and>
           status_value h' = (status_value h)(x := status_value h y)"
proof -
  let ?f = "\<lambda>a. card (holders a h)"
  have c: "counted ?f h"
    using ok by (simp add: refcount_ok_counted)
  have lt: "?f a + 1 < 2 ^ 32" for a
    using ok room card_mono [OF _ holders_subset, of h a] by (auto simp: refcount_ok_def)
  obtain h1 where h1: "ref q h = Inr h1" "counted (count_up q ?f) h1"
    "handles h1 = handles h" "info_at h1 = info_at h"
    using ref_counted [OF c, of q] refcount_ok_pointer [OF ok y] by (auto split: option.splits)
  have "case p of None \<Rightarrow> True | Some a \<Rightarrow> count_up q ?f a \<noteq> 0 \<and> count_up q ?f a < 2 ^ 32"
    using refcount_ok_pointer [OF ok x] lt by (cases q) (auto split: option.splits)
  then obtain h2 where h2: "unref p h1 = Inr h2" "counted (count_down p (count_up q ?f)) h2"
    "handles h2 = handles h"
    "\<forall>b. count_down p (count_up q ?f) b \<noteq> 0 \<longrightarrow> info_at h2 b = info_at h b"
    using unref_counted [OF h1(2), of p] h1(3,4) by auto
  let ?h' = "h2\<lparr>handles := (handles h2)(x \<mapsto> q)\<rparr>"
  have hold: "holders a ?h' = (if q = Some a then insert x (holders a h) else holders a h - {x})" for a
    by (simp add: holders_upd holders_cong [OF h2(3)])
  have cnt: "count_down p (count_up q ?f) a = card (holders a ?h')" for a
    unfolding hold using handle_mem_holders [of h x p a, OF x] finite_holders [OF ok, of a]
    by (cases p; cases q) (auto simp: card_Diff_singleton_if card_insert_if)
  with h2(2) have "counted (\<lambda>a. card (holders a ?h')) ?h'"
    by (auto intro: counted_cong)
  moreover have "finite (dom (handles ?h'))" "card (dom (handles ?h')) < 2 ^ 32"
    using ok h2(3) x by (simp_all add: refcount_ok_def insert_absorb domI)
  moreover have live: "handles ?h' z = Some (Some a) \<Longrightarrow> info_at h2 a = info_at h a" for z a
  proof -
    assume "handles ?h' z = Some (Some a)"
    then have "z \<in> holders a ?h'" by (simp add: holders_def)
    moreover have "finite (holders a ?h')"
      using finite_holders [OF ok, of a] unfolding hold by simp
    ultimately have "card (holders a ?h') \<noteq> 0" by auto
    then show ?thesis using h2(4) cnt [of a] by simp
  qed
  have "status_value ?h' z = ((status_value h)(x := status_value h y)) z" for z
    using h2(3) live [of z] y by (auto simp: status_value_info_at split: option.splits)
  ultimately show ?thesis
    using h1(1) h2(1) x y by (auto simp: status_assign_def refcount_ok_counted)
qed

lemma status_construct_ok:
  assumes ok: "refcount_ok h" and x: "handles h x = None" and a: "infos h a = None"
    and room: "card (dom (handles h)) + 1 < 2 ^ 32"
  shows "\<exists>h'. status_construct x a c r l h = Inr h' \<and> refcount_ok h' \<and>
           status_value h' = (status_value h)(x \<mapsto> Status c r l)"
proof -
  have dead: "handles h z \<noteq> Some (Some a)" for z
    using ok a by (fastforce simp: refcount_ok_def dom_def)
  then have none: "holders a h = {}" by (simp add: holders_def)
  have dom: "finite (insert x (dom (handles h)))" "card (insert x (dom (handles h))) < 2 ^ 32"
    using ok room x by (simp_all add: refcount_ok_def domIff)
  have notin: "x \<notin> holders b h" for b
    using x by (simp add: holders_def)
  show ?thesis
  proof (cases "ErrorInfo_create c r l")
    case None
    have "refcount_ok (h\<lparr>handles := (handles h)(x \<mapsto> None)\<rparr>)"
      using ok dom notin by (auto simp: refcount_ok_def holders_upd)
    with None show ?thesis
      by (auto simp: status_construct_def ref_def Status_def fun_eq_iff status_value_info_at
          split: option.splits)
  next
    case (Some e)
    let ?h' = "h\<lparr>handles := (handles h)(x \<mapsto> Some a),
                 infos := (infos h)(a \<mapsto> \<lparr>ri_info = e, ri_refs = 1\<rparr>)\<rparr>"
    have "holders b ?h' = (if b = a then {x} else holders b h)" for b
      using none notin by (auto simp: holders_def)
    then have "refcount_ok ?h'"
      using ok dom by (auto simp: refcount_ok_def)
    moreover have "status_value ?h' = (status_value h)(x \<mapsto> Status c r l)"
      using Some dead by (auto simp: fun_eq_iff status_value_def Status_def split: option.splits)
    ultimately show ?thesis
      using Some by (simp add: status_construct_def ref_def)
  qed
qed

subsubsection \<open>Programs over handles\<close>

datatype handle_op =
    Construct nat nat error_code string int
  | Copy nat nat
  | Assign nat nat
  | Destroy nat

fun handle_exec :: "handle_op \<Rightarrow> status_heap \<Rightarrow> status_heap result" where
  "handle_exec (Construct x a c r l) h = status_construct x a c r l h"
| "handle_exec (Copy x y) h = status_copy x y h"
| "handle_exec (Assign x y) h = status_assign x y h"
| "handle_exec (Destroy x) h = status_destroy x h"

text \<open>The specification: a store of independent status values; only live objects are used.\<close>

fun value_exec :: "handle_op \<Rightarrow> (nat \<rightharpoonup> status) \<Rightarrow> (nat \<rightharpoonup> status) option" where
  "value_exec (Construct x a c r l) v = (if v x = None then Some (v(x \<mapsto> Status c r l)) else None)"
| "value_exec (Copy x y) v = (if v x = None \<and> v y \<noteq> None then Some (v(x := v y)) else None)"
| "value_exec (Assign x y) v = (if v x \<noteq> None \<and> v y \<noteq> None then Some (v(x := v y)) else None)"
| "value_exec (Destroy x) v = (if v x \<noteq> None then Some (v(x := None)) else None)"

text \<open>The environment: the allocator returns a free address and there is room for one more handle.\<close>

fun handle_env :: "handle_op \<Rightarrow> status_heap \<Rightarrow> bool" where
  "handle_env (Construct x a c r l) h \<longleftrightarrow> infos h a = None \<and> card (dom (handles h)) + 1 < 2 ^ 32"
| "handle_env _ h \<longleftrightarrow> card (dom (handles h)) + 1 < 2 ^ 32"

definition handle_rel :: "status_heap \<Rightarrow> (nat \<rightharpoonup> status) \<Rightarrow> bool" where
  "handle_rel h v \<longleftrightarrow> refcount_ok h \<and> status_value h = v"

lemma status_value_None_iff [simp]: "status_value h x = None \<longleftrightarrow> handles h x = None"
  by (auto simp: status_value_def split: option.splits)

lemma status_value_SomeD: "status_value h x = Some s \<Longrightarrow> \<exists>p. handles h x = Some p"
  by (auto simp: status_value_def split: option.splits)

interpretation handle_sim: simulation handle_exec value_exec handle_rel handle_env
proof
  fix h v p v'
  assume rel: "handle_rel h v" and env: "handle_env p h" and spec: "value_exec p v = Some v'"
  show "\<exists>h'. handle_exec p h = Inr h' \<and> handle_rel h' v'"
  proof (cases p)
    case (Construct x a c r l)
    with rel env spec show ?thesis
      using status_construct_ok [of h x a c r l] by (auto simp: handle_rel_def split: if_splits)
  next
    case (Copy x y)
    with rel env spec show ?thesis
      using status_copy_ok [of h y _ x]
      by (auto simp: handle_rel_def dest!: status_value_SomeD split: if_splits)
  next
    case (Assign x y)
    with rel env spec show ?thesis
      using status_assign_ok [of h x _ y]
      by (auto simp: handle_rel_def dest!: status_value_SomeD split: if_splits)
  next
    case (Destroy x)
    with rel env spec show ?thesis
      using status_destroy_ok [of h x]
      by (auto simp: handle_rel_def dest!: status_value_SomeD split: if_splits)
  qed
qed

definition empty_status_heap :: status_heap where
  "empty_status_heap = \<lparr>infos = Map.empty, handles = Map.empty\<rparr>"

lemma empty_status_heap_rel: "handle_rel empty_status_heap Map.empty"
  by (simp add: handle_rel_def refcount_ok_def empty_status_heap_def status_value_def fun_eq_iff)

text \<open>
  (C19) Reference counting is transparent: any program of constructions, copies, assignments
  (self-assignment included) and destructions that uses only live objects runs without touching a
  freed \<open>ErrorInfo\<close>, every handle then denotes the value that independent copies would have, and
  an \<open>ErrorInfo\<close> is still allocated only while a handle refers to it (no leak).
\<close>

theorem status_handles_are_values:
  assumes "along handle_env handle_exec ops empty_status_heap"
    and "run_spec value_exec ops Map.empty = Some v"
  shows "\<exists>h. foldE handle_exec ops empty_status_heap = Inr h \<and> status_value h = v \<and>
    (\<forall>a. infos h a \<noteq> None \<longleftrightarrow> holders a h \<noteq> {})"
proof -
  from handle_sim.run_simulates [OF empty_status_heap_rel assms]
  obtain h where h: "foldE handle_exec ops empty_status_heap = Inr h" "refcount_ok h" "status_value h = v"
    by (auto simp: handle_rel_def)
  then have "infos h a \<noteq> None \<longleftrightarrow> holders a h \<noteq> {}" for a
    by (fastforce simp: refcount_ok_def holders_def)
  with h show ?thesis by blast
qed

lemma status_handles_are_values_witness:
  "\<exists>h. foldE handle_exec
         [Construct 0 7 BadValue ''x'' 3, Copy 1 0, Assign 0 0, Destroy 0, Copy 2 1, Destroy 1]
         empty_status_heap = Inr h \<and>
     status_value h = [2 \<mapsto> Status BadValue ''x'' 3] \<and>
     (\<forall>a. infos h a \<noteq> None \<longleftrightarrow> holders a h \<noteq> {})"
  by (rule status_handles_are_values)
     (simp_all add: empty_status_heap_def status_construct_def status_copy_def status_assign_def
       status_destroy_def ref_def unref_def ErrorInfo_create_def fun_eq_iff)

end
