(* ===== verification/String_Data.thy ===== *)
theory String_Data
  imports Mongo_Prelude
begin

text \<open>
  \<open>src/mongo/base/string_data.h\<close> and \<open>string_data-inl.h\<close>: views of byte strings. A view is
  modelled by the bytes it shows; \<open>npos\<close> is \<open>None\<close>.
\<close>

text \<open>\<open>memcmp\<close> on two blocks of the same length: bytes compare unsigned.\<close>

fun memcmp :: "string \<Rightarrow> string \<Rightarrow> int" where
  "memcmp (x # xs) (y # ys) = (if x = y then memcmp xs ys else if x < y then -1 else 1)"
| "memcmp _ _ = 0"

text \<open>\<open>memchr\<close>: the offset of the first occurrence.\<close>

fun memchr :: "string \<Rightarrow> char \<Rightarrow> nat option" where
  "memchr [] c = None"
| "memchr (x # xs) c = (if x = c then Some 0 else map_option Suc (memchr xs c))"

definition StringData_compare :: "string \<Rightarrow> string \<Rightarrow> int" where
  "StringData_compare a b =
     (let m = min (length a) (length b); res = memcmp (take m a) (take m b)
      in if res \<noteq> 0 then (if res > 0 then 1 else -1)
         else if length a = length b then 0
         else if length a > length b then 1 else -1)"

definition StringData_eq :: "string \<Rightarrow> string \<Rightarrow> bool" where
  "StringData_eq a b \<longleftrightarrow> StringData_compare a b = 0"

definition StringData_less :: "string \<Rightarrow> string \<Rightarrow> bool" where
  "StringData_less a b \<longleftrightarrow> StringData_compare a b < 0"

definition StringData_find_char :: "string \<Rightarrow> char \<Rightarrow> nat \<Rightarrow> nat option" where
  "StringData_find_char s c fromPos =
     (if fromPos \<ge> length s then None
      else map_option (\<lambda>x. fromPos + x) (memchr (drop fromPos s) c))"

fun find_needle :: "string \<Rightarrow> string \<Rightarrow> nat list \<Rightarrow> nat option" where
  "find_needle s needle [] = None"
| "find_needle s needle (i # is) =
     (if memcmp (take (length needle) (drop i s)) needle = 0 then Some i else find_needle s needle is)"

definition StringData_find :: "string \<Rightarrow> string \<Rightarrow> nat option" where
  "StringData_find s needle =
     (let mx = length s; needleSize = length needle
      in if needleSize = 0 then Some 0
         else if needleSize > mx then None
         else find_needle s needle [0..<mx - needleSize + 1])"

fun rfind_loop :: "string \<Rightarrow> char \<Rightarrow> nat \<Rightarrow> nat option" where
  "rfind_loop s c 0 = None"
| "rfind_loop s c (Suc cur) = (if s ! cur = c then Some cur else rfind_loop s c cur)"

text \<open>The default \<open>fromPos\<close> is \<open>npos\<close>, which is larger than every size.\<close>

definition StringData_rfind :: "string \<Rightarrow> char \<Rightarrow> nat option \<Rightarrow> nat option" where
  "StringData_rfind s c fromPos =
     (let sz = length s;
          from = (case fromPos of None \<Rightarrow> sz | Some p \<Rightarrow> if p > sz then sz else p)
      in rfind_loop s c from)"

text \<open>The default length is the largest \<open>size_t\<close>, here \<open>None\<close>.\<close>

definition StringData_substr :: "string \<Rightarrow> nat \<Rightarrow> nat option \<Rightarrow> string result" where
  "StringData_substr s pos n =
     (if pos > length s then Inl OutOfRange
      else let k = (case n of None \<Rightarrow> length s - pos
                     | Some n \<Rightarrow> if n > length s - pos then length s - pos else n)
           in Inr (take k (drop pos s)))"

definition StringData_startsWith :: "string \<Rightarrow> string \<Rightarrow> bool" where
  "StringData_startsWith s p =
     (case StringData_substr s 0 (Some (length p)) of Inl _ \<Rightarrow> False | Inr t \<Rightarrow> StringData_eq t p)"

definition StringData_endsWith :: "string \<Rightarrow> string \<Rightarrow> bool" where
  "StringData_endsWith s suffix =
     (let thisSize = length s; suffixSize = length suffix
      in if suffixSize > thisSize then False
         else case StringData_substr s (thisSize - suffixSize) None of
                Inl _ \<Rightarrow> False | Inr t \<Rightarrow> StringData_eq t suffix)"

subsection \<open>Comparison is the lexicographic order\<close>

lemma memcmp_zero_iff: "length a = length b \<Longrightarrow> memcmp a b = 0 \<longleftrightarrow> a = b"
  by (induction a b rule: memcmp.induct) auto

lemma memcmp_cases: "memcmp a b = -1 \<or> memcmp a b = 0 \<or> memcmp a b = 1"
  by (induction a b rule: memcmp.induct) auto

lemma StringData_compare_Nil [simp]:
  "StringData_compare [] b = (if b = [] then 0 else -1)"
  "StringData_compare a [] = (if a = [] then 0 else 1)"
  by (auto simp: StringData_compare_def)

lemma StringData_compare_Cons [simp]:
  "StringData_compare (x # xs) (y # ys) =
     (if x = y then StringData_compare xs ys else if x < y then -1 else 1)"
  by (simp add: StringData_compare_def Let_def)

lemma StringData_compare_lex:
  "StringData_compare a b = (if a < b then -1 else if a = b then 0 else 1)"
proof (induction a arbitrary: b)
  case Nil
  then show ?case by (cases b) auto
next
  case (Cons x xs)
  then show ?case by (cases b) auto
qed

lemma StringData_eq_iff [simp]: "StringData_eq a b \<longleftrightarrow> a = b"
  by (simp add: StringData_eq_def StringData_compare_lex)

lemma StringData_less_iff [simp]: "StringData_less a b \<longleftrightarrow> a < b"
  by (simp add: StringData_less_def StringData_compare_lex)

interpretation string_cmp: three_way StringData_compare
  by unfold_locales (auto simp: StringData_compare_lex split: if_splits)

subsection \<open>Searching\<close>

lemma memchr_None_iff: "memchr s c = None \<longleftrightarrow> c \<notin> set s"
  by (induction s) auto

lemma memchr_Some_iff:
  "memchr s c = Some i \<longleftrightarrow> i < length s \<and> s ! i = c \<and> c \<notin> set (take i s)"
proof (induction s arbitrary: i)
  case Nil
  then show ?case by simp
next
  case (Cons x xs)
  then show ?case by (cases i) auto
qed

lemma memchr_append: "c \<notin> set u \<Longrightarrow> memchr (u @ c # v) c = Some (length u)"
  by (induction u) auto

lemma StringData_find_char_0 [simp]: "StringData_find_char s c 0 = memchr s c"
  by (cases s) (auto simp: StringData_find_char_def option.map_comp comp_def)

lemma find_needle_Some_iff:
  assumes "\<forall>i \<in> set is. i + length needle \<le> length s" and "sorted is" and "distinct is"
  shows "find_needle s needle is = Some i \<longleftrightarrow>
     i \<in> set is \<and> take (length needle) (drop i s) = needle \<and>
     (\<forall>j \<in> set is. j < i \<longrightarrow> take (length needle) (drop j s) \<noteq> needle)"
  using assms
proof (induction "is")
  case Nil
  then show ?case by simp
next
  case (Cons k ks)
  have len: "length (take (length needle) (drop k s)) = length needle"
    using Cons.prems(1) by auto
  from Cons show ?case
    by (auto simp: memcmp_zero_iff [OF len] order.strict_iff_order)
qed

lemma rfind_loop_Some_iff:
  "n \<le> length s \<Longrightarrow> rfind_loop s c n = Some i \<longleftrightarrow>
     i < n \<and> s ! i = c \<and> (\<forall>j. i < j \<and> j < n \<longrightarrow> s ! j \<noteq> c)"
proof (induction n)
  case 0
  then show ?case by simp
next
  case (Suc n)
  then show ?case by (auto simp: less_Suc_eq)
qed

lemma StringData_substr_all [simp]: "StringData_substr s 0 None = Inr s"
  by (simp add: StringData_substr_def)

lemma StringData_substr_prefix:
  "StringData_substr s 0 (Some n) = Inr (take n s)"
  by (simp add: StringData_substr_def)

lemma StringData_substr_rest:
  "pos \<le> length s \<Longrightarrow> StringData_substr s pos None = Inr (drop pos s)"
  by (simp add: StringData_substr_def)

lemma StringData_startsWith_iff [simp]:
  "StringData_startsWith s p \<longleftrightarrow> take (length p) s = p"
  by (simp add: StringData_startsWith_def StringData_substr_prefix)

lemma StringData_endsWith_iff [simp]:
  "StringData_endsWith s p \<longleftrightarrow> (\<exists>u. s = u @ p)"
proof (cases "length p \<le> length s")
  case True
  then have "drop (length s - length p) s = p \<longleftrightarrow> (\<exists>u. s = u @ p)"
    by (metis append_take_drop_id append_eq_conv_conj diff_add_inverse2 length_append)
  with True show ?thesis
    by (simp add: StringData_endsWith_def StringData_substr_rest)
next
  case False
  then show ?thesis by (auto simp: StringData_endsWith_def)
qed

end
