(* ===== verification/Parse_Number.thy ===== *)
theory Parse_Number
  imports Status String_Data "HOL-Library.Signed_Division"
begin

text \<open>
  \<open>src/mongo/base/parse_number.cpp\<close>: \<open>parseNumberFromStringWithBase\<close> for the integral types.
  A number type is given by its width and signedness; conversions to it are written out
  (\<open>num_cast\<close>), the comparisons are on the mathematical values, which none of the intermediate
  results leaves. The specialisation for \<open>double\<close> rests on \<open>strtod\<close> and is not modelled.
\<close>

record num_type =
  num_bits :: nat
  num_signed :: bool

definition num_min :: "num_type \<Rightarrow> int" where
  "num_min t = (if num_signed t then - (2 ^ (num_bits t - 1)) else 0)"

definition num_max :: "num_type \<Rightarrow> int" where
  "num_max t = (if num_signed t then 2 ^ (num_bits t - 1) - 1 else 2 ^ num_bits t - 1)"

definition num_cast :: "num_type \<Rightarrow> int \<Rightarrow> int" where
  "num_cast t x =
     (if num_signed t then (x + 2 ^ (num_bits t - 1)) mod 2 ^ num_bits t - 2 ^ (num_bits t - 1)
      else x mod 2 ^ num_bits t)"

definition digitValue :: "char \<Rightarrow> int" where
  "digitValue c =
     (if c \<ge> CHR ''0'' \<and> c \<le> CHR ''9'' then int (of_char c) - int (of_char CHR ''0'')
      else if c \<ge> CHR ''a'' \<and> c \<le> CHR ''z'' then int (of_char c) - int (of_char CHR ''a'') + 10
      else if c \<ge> CHR ''A'' \<and> c \<le> CHR ''Z'' then int (of_char c) - int (of_char CHR ''A'') + 10
      else 36)"

definition extractSign :: "string \<Rightarrow> bool \<times> string" where
  "extractSign s =
     (if s = [] then (False, s)
      else if s ! 0 = CHR ''-'' then (True, drop 1 s)
      else if s ! 0 = CHR ''+'' then (False, drop 1 s)
      else (False, s))"

definition extractBase :: "string \<Rightarrow> int \<Rightarrow> int \<times> string" where
  "extractBase s inputBase =
     (if inputBase = 0 then
        (if length s > 2 \<and> (StringData_startsWith s ''0x'' \<or> StringData_startsWith s ''0X'')
         then (16, drop 2 s)
         else if length s > 1 \<and> s ! 0 = CHR ''0'' then (8, s)
         else (10, s))
      else
        (if inputBase = 16 \<and> (StringData_startsWith s ''0x'' \<or> StringData_startsWith s ''0X'')
         then (inputBase, drop 2 s)
         else (inputBase, s)))"

text \<open>The loop for negative numbers counts downwards so that the smallest value is reached.\<close>

fun parse_negative :: "num_type \<Rightarrow> int \<Rightarrow> string \<Rightarrow> int \<Rightarrow> status \<times> int option" where
  "parse_negative t base [] n = (Status_OK, Some n)"
| "parse_negative t base (c # cs) n =
     (let d = num_cast t (digitValue c)
      in if d \<ge> base then (Status FailedToParse ''Bad digit'' 0, None)
         else if num_cast t (num_min t sdiv base) > n \<or>
                 num_min t - num_cast t (n * base) > - d
         then (Status FailedToParse ''Underflow'' 0, None)
         else parse_negative t base cs
                (num_cast t (num_cast t (n * num_cast t base) - d)))"

fun parse_positive :: "num_type \<Rightarrow> int \<Rightarrow> string \<Rightarrow> int \<Rightarrow> status \<times> int option" where
  "parse_positive t base [] n = (Status_OK, Some n)"
| "parse_positive t base (c # cs) n =
     (let d = num_cast t (digitValue c)
      in if d \<ge> base then (Status FailedToParse ''Bad digit'' 0, None)
         else if num_cast t (num_max t sdiv base) < n \<or>
                 num_cast t (num_max t - n * base) < d
         then (Status FailedToParse ''Overflow'' 0, None)
         else parse_positive t base cs
                (num_cast t (num_cast t (n * num_cast t base) + d)))"

text \<open>The second component is what is stored to \<open>*result\<close>: nothing on failure.\<close>

definition parseNumberFromStringWithBase ::
    "num_type \<Rightarrow> string \<Rightarrow> int \<Rightarrow> status \<times> int option" where
  "parseNumberFromStringWithBase t stringValue base =
     (if base = 1 \<or> base < 0 \<or> base > 36 then (Status BadValue ''Invalid base'' 0, None)
      else
        let (isNegative, unsigned) = extractSign stringValue;
            (outBase, str) = extractBase unsigned base
        in if str = [] then (Status FailedToParse ''No digits'' 0, None)
           else if isNegative then
             (if num_signed t then parse_negative t outBase str 0
              else (Status FailedToParse ''Negative value'' 0, None))
           else parse_positive t outBase str 0)"

subsection \<open>What the digits denote\<close>

definition digits_value :: "int \<Rightarrow> int \<Rightarrow> string \<Rightarrow> int" where
  "digits_value base n cs = foldl (\<lambda>n c. n * base + digitValue c) n cs"

definition in_range :: "num_type \<Rightarrow> int \<Rightarrow> bool" where
  "in_range t x \<longleftrightarrow> num_min t \<le> x \<and> x \<le> num_max t"

lemma digitValue_bounds: "0 \<le> digitValue c \<and> digitValue c \<le> 36"
proof -
  have "of_char CHR ''0'' = (48::nat)" "of_char CHR ''9'' = (57::nat)" "of_char CHR ''a'' = (97::nat)"
    "of_char CHR ''z'' = (122::nat)" "of_char CHR ''A'' = (65::nat)" "of_char CHR ''Z'' = (90::nat)"
    by simp_all
  then show ?thesis by (auto simp: digitValue_def less_eq_char_def)
qed

lemma num_cast_in_range [simp]:
  assumes "in_range t x" "0 < num_bits t"
  shows "num_cast t x = x"
proof -
  have "(2::int) ^ num_bits t = 2 * 2 ^ (num_bits t - 1)"
    using assms(2) by (cases "num_bits t") simp_all
  then show ?thesis
    using assms(1) by (auto simp: num_cast_def in_range_def num_min_def num_max_def)
qed

lemma num_max_ge: "8 \<le> num_bits t \<Longrightarrow> 127 \<le> num_max t"
proof -
  assume "8 \<le> num_bits t"
  then have "(2::int) ^ 7 \<le> 2 ^ (num_bits t - 1)" "(2::int) ^ 8 \<le> 2 ^ num_bits t"
    by (intro power_increasing; simp)+
  then show ?thesis by (auto simp: num_max_def)
qed

lemma num_min_le: "num_min t \<le> 0"
  by (simp add: num_min_def)

lemma small_in_range: "8 \<le> num_bits t \<Longrightarrow> 0 \<le> x \<Longrightarrow> x \<le> 36 \<Longrightarrow> in_range t x"
  using num_max_ge [of t] num_min_le [of t] by (simp add: in_range_def)

lemma digits_value_Cons [simp]:
  "digits_value base n (c # cs) = digits_value base (n * base + digitValue c) cs"
  by (simp add: digits_value_def)

lemma digits_value_Nil [simp]: "digits_value base n [] = n"
  by (simp add: digits_value_def)

lemma digits_value_mono: "0 < base \<Longrightarrow> 0 \<le> n \<Longrightarrow> n \<le> digits_value base n cs"
proof (induction cs arbitrary: n)
  case Nil
  then show ?case by simp
next
  case (Cons c cs)
  have "0 \<le> n * (base - 1)" using Cons.prems by simp
  then have "n \<le> n * base + digitValue c"
    using digitValue_bounds [of c] by (simp add: algebra_simps)
  moreover have "n * base + digitValue c \<le> digits_value base (n * base + digitValue c) cs"
    using Cons.prems digitValue_bounds [of c] by (intro Cons.IH) auto
  ultimately show ?case by simp
qed

subsection \<open>The overflow guards are exact\<close>

lemma zdiv_less_iff:
  assumes "0 < (base::int)"
  shows "m div base < n \<longleftrightarrow> m < n * base"
proof
  assume "m div base < n"
  then have "base * (m div base + 1) \<le> base * n" using assms by (intro mult_left_mono) simp_all
  moreover have "m < base * (m div base) + base"
    using pos_mod_bound [OF assms, of m] mult_div_mod_eq [of base m] by linarith
  ultimately show "m < n * base" by (simp add: algebra_simps)
next
  assume "m < n * base"
  moreover have "base * (m div base) \<le> m"
    using pos_mod_sign [OF assms, of m] mult_div_mod_eq [of base m] by linarith
  ultimately have "(m div base) * base < n * base" by (simp add: mult.commute)
  then show "m div base < n" using assms by simp
qed

lemma overflow_guard:
  assumes "0 < (base::int)" "0 \<le> m" "0 \<le> n" "0 \<le> d"
  shows "(m div base < n \<or> m - n * base < d) \<longleftrightarrow> m < n * base + d"
  using assms by (auto simp: zdiv_less_iff)

lemma div_le_self: "0 < (b::int) \<Longrightarrow> 0 \<le> m \<Longrightarrow> m div b \<le> m"
  using zdiv_mono2 [of m 1 b] by simp

lemma parse_positive_correct:
  assumes "8 \<le> num_bits t" "2 \<le> base" "base \<le> 36" "0 \<le> n" "n \<le> num_max t"
  shows "parse_positive t base cs n = (Status_OK, Some r) \<longleftrightarrow>
     (\<forall>c \<in> set cs. digitValue c < base) \<and> r = digits_value base n cs \<and> r \<le> num_max t"
  using assms(4,5)
proof (induction cs arbitrary: n)
  case Nil
  then show ?case by auto
next
  case (Cons c cs)
  let ?n = "n * base + digitValue c"
  have d: "0 \<le> digitValue c" "digitValue c \<le> 36" using digitValue_bounds by auto
  have dc: "num_cast t (digitValue c) = digitValue c"
    using small_in_range [OF assms(1) d] assms(1) by simp
  have bc: "num_cast t base = base"
    using small_in_range [OF assms(1), of base] assms by simp
  have sd: "num_max t sdiv base = num_max t div base"
    using assms(2) num_max_ge [OF assms(1)] by (simp add: signed_divide_int_def)
  have rng: "in_range t x" if "0 \<le> x" "x \<le> num_max t" for x
    using that num_min_le [of t] by (simp add: in_range_def)
  have "num_max t div base \<le> num_max t"
    using assms(2) num_max_ge [OF assms(1)] by (simp add: div_le_self)
  then have divc: "num_cast t (num_max t div base) = num_max t div base"
    using rng [of "num_max t div base"] assms num_max_ge [OF assms(1)] by (simp add: pos_imp_zdiv_nonneg_iff)
  have guard: "(num_cast t (num_max t sdiv base) < n \<or> num_cast t (num_max t - n * base) < digitValue c)
      \<longleftrightarrow> num_max t < ?n"
  proof (cases "num_max t div base < n")
    case True
    then show ?thesis
      using overflow_guard [of base "num_max t" n "digitValue c"] assms Cons.prems d
        num_max_ge [OF assms(1)] by (simp add: sd divc)
  next
    case False
    then have "n * base \<le> num_max t"
      using zdiv_less_iff [of base "num_max t" n] assms by simp
    then have "num_cast t (num_max t - n * base) = num_max t - n * base"
      using rng [of "num_max t - n * base"] assms Cons.prems by simp
    with False show ?thesis by (auto simp: sd divc)
  qed
  show ?case
  proof (cases "base \<le> digitValue c \<or> num_max t < ?n")
    case True
    have "num_max t < ?n \<Longrightarrow> num_max t < digits_value base ?n cs"
      using digits_value_mono [of base ?n cs] assms Cons.prems d by fastforce
    with True guard show ?thesis by (auto simp: Let_def dc)
  next
    case False
    then have "n * base \<le> num_max t" using d by simp
    moreover have "0 \<le> n * base" using Cons.prems assms by simp
    ultimately have "num_cast t (num_cast t (n * num_cast t base) + digitValue c) = ?n"
      using rng [of "n * base"] rng [of ?n] False d assms by (simp add: bc)
    with False guard Cons.IH [of ?n] \<open>0 \<le> n * base\<close> d show ?thesis
      by (auto simp: Let_def dc)
  qed
qed

lemma parse_negative_correct:
  assumes "8 \<le> num_bits t" "num_signed t" "2 \<le> base" "base \<le> 36" "0 \<le> m" "m \<le> - num_min t"
  shows "parse_negative t base cs (- m) = (Status_OK, Some r) \<longleftrightarrow>
     (\<forall>c \<in> set cs. digitValue c < base) \<and> r = - digits_value base m cs \<and> num_min t \<le> r"
  using assms(5,6)
proof (induction cs arbitrary: m)
  case Nil
  then show ?case by auto
next
  case (Cons c cs)
  let ?m = "m * base + digitValue c" and ?M = "- num_min t"
  have d: "0 \<le> digitValue c" "digitValue c \<le> 36" using digitValue_bounds by auto
  have dc: "num_cast t (digitValue c) = digitValue c"
    using small_in_range [OF assms(1) d] assms(1) by simp
  have bc: "num_cast t base = base"
    using small_in_range [OF assms(1), of base] assms by simp
  have M: "0 < ?M" using assms(2) by (simp add: num_min_def)
  have rng: "in_range t (- x)" if "0 \<le> x" "x \<le> ?M" for x
    using that num_max_ge [OF assms(1)] by (simp add: in_range_def)
  have sd: "num_min t sdiv base = - (?M div base)"
    using assms(3) M by (simp add: signed_divide_int_def sgn_if)
  have "?M div base \<le> ?M" using assms(3) M by (simp add: div_le_self)
  then have divc: "num_cast t (- (?M div base)) = - (?M div base)"
    using rng [of "?M div base"] assms M by (simp add: pos_imp_zdiv_nonneg_iff)
  have guard: "(num_cast t (num_min t sdiv base) > - m \<or>
       num_min t - num_cast t (- m * base) > - digitValue c) \<longleftrightarrow> ?M < ?m"
  proof (cases "?M div base < m")
    case True
    then show ?thesis
      using overflow_guard [of base ?M m "digitValue c"] assms Cons.prems d M by (simp add: sd divc)
  next
    case False
    then have "m * base \<le> ?M"
      using zdiv_less_iff [of base ?M m] assms by simp
    then have "num_cast t (- m * base) = - (m * base)"
      using rng [of "m * base"] assms Cons.prems by simp
    with False show ?thesis by (auto simp: sd divc)
  qed
  show ?case
  proof (cases "base \<le> digitValue c \<or> ?M < ?m")
    case True
    have "?M < ?m \<Longrightarrow> ?M < digits_value base ?m cs"
      using digits_value_mono [of base ?m cs] assms Cons.prems d by fastforce
    with True guard show ?thesis by (auto simp: Let_def dc)
  next
    case False
    then have "m * base \<le> ?M" using d by simp
    moreover have "0 \<le> m * base" using Cons.prems assms by simp
    ultimately have "num_cast t (num_cast t (- m * num_cast t base) - digitValue c) = - ?m"
      using rng [of "m * base"] rng [of ?m] False d assms by (simp add: bc)
    with False guard Cons.IH [of ?m] \<open>0 \<le> m * base\<close> d show ?thesis
      by (auto simp: Let_def dc)
  qed
qed

lemma extractBase_range:
  "extractBase s b = (base, str) \<Longrightarrow> b = 0 \<or> 2 \<le> b \<and> b \<le> 36 \<Longrightarrow> 2 \<le> base \<and> base \<le> 36"
  by (auto simp: extractBase_def split: if_splits)

lemma parse_number_iff:
  assumes "8 \<le> num_bits t"
  shows "parseNumberFromStringWithBase t s base = (Status_OK, Some r) \<longleftrightarrow>
    (base = 0 \<or> 2 \<le> base \<and> base \<le> 36) \<and>
    (let (neg, u) = extractSign s; (b, ds) = extractBase u base
     in ds \<noteq> [] \<and> (\<forall>c \<in> set ds. digitValue c < b) \<and> (neg \<longrightarrow> num_signed t) \<and>
        r = (if neg then - digits_value b 0 ds else digits_value b 0 ds) \<and> in_range t r)"
proof (cases "base = 0 \<or> 2 \<le> base \<and> base \<le> 36")
  case False
  then have "base = 1 \<or> base < 0 \<or> base > 36" by auto
  with False show ?thesis
    by (simp only: parseNumberFromStringWithBase_def if_True) simp
next
  case True
  obtain neg u where u: "extractSign s = (neg, u)" by fastforce
  obtain b ds where ds: "extractBase u base = (b, ds)" by fastforce
  from extractBase_range [OF ds True] have b: "2 \<le> b" "b \<le> 36" by auto
  have min: "num_min t \<le> 0" "0 \<le> num_max t"
    using num_min_le [of t] num_max_ge [OF assms] by auto
  have nn: "0 \<le> digits_value b 0 ds" using digits_value_mono [of b 0 ds] b by simp
  from True u ds show ?thesis
    using parse_positive_correct [OF assms b, of 0 ds r] parse_negative_correct [OF assms _ b, of 0 ds r]
      min nn by (auto simp: parseNumberFromStringWithBase_def in_range_def)
qed

text \<open>
  (C17) \<open>parseNumberFromStringWithBase\<close> succeeds exactly on the numerals of the base (given, or
  derived from the prefix) whose value, with its sign, the target type can hold, and then stores
  that value; the guards against overflow and underflow reject nothing else.
\<close>

theorem parse_number_exact:
  assumes "8 \<le> num_bits t"
  shows "parseNumberFromStringWithBase t s base = (Status_OK, Some r) \<longleftrightarrow>
    (base = 0 \<or> 2 \<le> base \<and> base \<le> 36) \<and>
    (let (neg, u) = extractSign s; (b, ds) = extractBase u base
     in ds \<noteq> [] \<and> (\<forall>c \<in> set ds. digitValue c < b) \<and> (neg \<longrightarrow> num_signed t) \<and>
        r = (if neg then - digits_value b 0 ds else digits_value b 0 ds) \<and> in_range t r)"
  by (rule parse_number_iff [OF assms])

lemma parse_number_exact_witness:
  "parseNumberFromStringWithBase \<lparr>num_bits = 32, num_signed = True\<rparr> ''-0x80000000'' 0 =
     (Status_OK, Some (- 2147483648))"
  by (subst parse_number_exact)
     (simp_all add: extractSign_def extractBase_def digits_value_def digitValue_def in_range_def
       num_min_def num_max_def less_eq_char_def)

subsection \<open>Printing and parsing\<close>

definition digit_char :: "nat \<Rightarrow> char" where
  "digit_char d = (if d < 10 then char_of (48 + d) else char_of (87 + d))"

fun show_nat :: "nat \<Rightarrow> nat \<Rightarrow> string" where
  "show_nat b n =
     (if n < b \<or> b < 2 then [digit_char n]
      else show_nat b (n div b) @ [digit_char (n mod b)])"

declare show_nat.simps [simp del]

definition show_int :: "nat \<Rightarrow> int \<Rightarrow> string" where
  "show_int b x = (if x < 0 then ''-'' @ show_nat b (nat (- x)) else show_nat b (nat x))"

lemma digitValue_digit_char: "d < 36 \<Longrightarrow> digitValue (digit_char d) = int d"
  by (auto simp: digit_char_def digitValue_def less_eq_char_def)

lemma digits_value_snoc [simp]:
  "digits_value b n (cs @ [c]) = digits_value b n cs * b + digitValue c"
  by (simp add: digits_value_def)

lemma show_nat_value:
  assumes "2 \<le> b" "b \<le> 36"
  shows "digits_value (int b) 0 (show_nat b n) = int n"
proof (induction n rule: less_induct)
  case (less n)
  show ?case
  proof (cases "n < b")
    case True
    with assms show ?thesis by (subst show_nat.simps) (simp add: digitValue_digit_char)
  next
    case False
    then have "n div b < n" using assms by simp
    from less.IH [OF this] False assms show ?thesis
      by (subst show_nat.simps)
         (simp add: digitValue_digit_char order.strict_trans2 [OF mod_less_divisor]
            flip: of_nat_mult of_nat_add)
  qed
qed

lemma show_nat_digits:
  assumes "2 \<le> b" "b \<le> 36"
  shows "c \<in> set (show_nat b n) \<Longrightarrow> digitValue c < int b"
proof (induction n rule: less_induct)
  case (less n)
  have "n mod b < b" "n mod b < 36" using assms mod_less_divisor [of b n] by linarith+
  then have d: "digitValue (digit_char (n mod b)) < int b"
    using digitValue_digit_char [of "n mod b"] by simp
  show ?case
  proof (cases "n < b")
    case True
    with less.prems d assms show ?thesis by (subst (asm) show_nat.simps) simp
  next
    case False
    with less.prems have "c \<in> set (show_nat b (n div b)) \<or> c = digit_char (n mod b)"
      by (subst (asm) show_nat.simps) (use assms in auto)
    with less.IH [of "n div b"] False d assms show ?thesis by auto
  qed
qed

lemma show_nat_nonempty [simp]: "show_nat b n \<noteq> []"
  by (subst show_nat.simps) simp

lemma sign_not_digit: "digitValue c < 36 \<Longrightarrow> c \<noteq> CHR ''-'' \<and> c \<noteq> CHR ''+''"
  by (auto simp: digitValue_def less_eq_char_def)

lemma extractBase_show_nat:
  assumes "2 \<le> b" "b \<le> 36"
  shows "extractBase (show_nat b n) (int b) = (int b, show_nat b n)"
proof -
  have "\<not> (b = 16 \<and> (take 2 (show_nat b n) = ''0x'' \<or> take 2 (show_nat b n) = ''0X''))"
  proof
    assume *: "b = 16 \<and> (take 2 (show_nat b n) = ''0x'' \<or> take 2 (show_nat b n) = ''0X'')"
    then have "CHR ''x'' \<in> set (take 2 (show_nat b n)) \<or> CHR ''X'' \<in> set (take 2 (show_nat b n))"
      by auto
    then have "CHR ''x'' \<in> set (show_nat b n) \<or> CHR ''X'' \<in> set (show_nat b n)"
      by (auto dest: in_set_takeD)
    with show_nat_digits [OF assms] * show False
      by (fastforce simp: digitValue_def less_eq_char_def)
  qed
  then show ?thesis using assms by (auto simp: extractBase_def numeral_2_eq_2)
qed

text \<open>
  (C18) Printing a number that the type holds, in any base from 2 to 36, and parsing the numeral
  with that base gives the number back, the extreme values of the type included.
\<close>

theorem parse_show_roundtrip:
  assumes "8 \<le> num_bits t" "2 \<le> b" "b \<le> 36" "in_range t x"
  shows "parseNumberFromStringWithBase t (show_int b x) (int b) = (Status_OK, Some x)"
proof -
  have sgn: "x < 0 \<Longrightarrow> num_signed t" using assms(4) by (auto simp: in_range_def num_min_def split: if_splits)
  obtain c cs where cs: "show_nat b (nat x) = c # cs"
    by (cases "show_nat b (nat x)") auto
  then have "digitValue c < 36" using show_nat_digits [OF assms(2,3), of c "nat x"] assms(3) by simp
  then have "extractSign (show_nat b (nat x)) = (False, show_nat b (nat x))"
    using sign_not_digit [of c] by (simp add: extractSign_def cs)
  then show ?thesis
    using assms sgn
    by (subst parse_number_iff)
       (auto simp: show_int_def extractSign_def extractBase_show_nat show_nat_value show_nat_digits)
qed

lemma parse_show_roundtrip_witness:
  "parseNumberFromStringWithBase \<lparr>num_bits = 64, num_signed = True\<rparr>
     (show_int 10 (- 9223372036854775808)) 10 = (Status_OK, Some (- 9223372036854775808))"
  using parse_show_roundtrip [of "\<lparr>num_bits = 64, num_signed = True\<rparr>" 10 "- 9223372036854775808"]
  by (simp add: in_range_def num_min_def num_max_def)

end
