(* ===== verification/Init_Graph.thy ===== *)
theory Init_Graph
  imports Status "HOL-Library.AList"
begin

text \<open>
  \<open>src/mongo/base/initializer_dependency_graph.{h,cpp}\<close> and \<open>initializer.cpp\<close>: the dependency
  graph of start-up operations, its topological sort by depth-first traversal, and the execution
  of the operations in that order.

  The \<open>unordered_map\<close> of nodes and the \<open>unordered_set\<close> of prerequisites are lists whose order is
  the containers' iteration order. C++ leaves that order open, and nothing below depends on it:
  the theorems hold for every list with distinct keys.

  The recursion of \<open>recursiveTopSort\<close> is bounded by fuel; \<open>topSort\<close> starts with one unit more than
  there are nodes and that is always enough, because the nodes in progress are pairwise different.
\<close>

record 'f node_data =
  nd_fn :: "'f option"
  nd_prerequisites :: "string list"

type_synonym 'f node_map = "(string \<times> 'f node_data) list"

definition empty_node :: "'f node_data" where
  "empty_node = \<lparr>nd_fn = None, nd_prerequisites = []\<rparr>"

text \<open>\<open>_nodes[name]\<close>: a missing entry springs into existence.\<close>

definition node_at :: "'f node_map \<Rightarrow> string \<Rightarrow> 'f node_data" where
  "node_at m k = (case map_of m k of None \<Rightarrow> empty_node | Some d \<Rightarrow> d)"

definition insert_prerequisite :: "string \<Rightarrow> 'f node_data \<Rightarrow> 'f node_data" where
  "insert_prerequisite p d = d\<lparr>nd_prerequisites := List.insert p (nd_prerequisites d)\<rparr>"

definition addInitializer ::
    "string \<Rightarrow> 'f option \<Rightarrow> string list \<Rightarrow> string list \<Rightarrow> 'f node_map \<Rightarrow> status \<times> 'f node_map" where
  "addInitializer name fn prerequisites dependents m =
     (if fn = None then (Status BadValue ''Illegal to supply a NULL function'' 0, m)
      else
        let newNode = node_at m name
        in if nd_fn newNode \<noteq> None then (Status DuplicateKey name 0, m)
           else
             let node1 = newNode\<lparr>nd_fn := fn\<rparr>;
                 m1 = AList.update name (fold insert_prerequisite prerequisites node1) m;
                 m2 = fold (\<lambda>d m. AList.update d (insert_prerequisite name (node_at m d)) m)
                        dependents m1
             in (Status_OK, m2))"

definition getInitializerFunction :: "'f node_map \<Rightarrow> string \<Rightarrow> 'f option" where
  "getInitializerFunction m name =
     (case map_of m name of None \<Rightarrow> None | Some d \<Rightarrow> nd_fn d)"

subsection \<open>The topological sort\<close>

record top_state =
  inProgress :: "string list"
  visited :: "string list"
  sortedNames :: "string list"

text \<open>\<open>A -> B -> C\<close>, as the error message of a cycle spells it.\<close>

fun arrow_join :: "string list \<Rightarrow> string" where
  "arrow_join [] = []"
| "arrow_join [x] = x"
| "arrow_join (x # xs) = x @ '' -> '' @ arrow_join xs"

fun recursiveTopSort ::
      "nat \<Rightarrow> 'f node_map \<Rightarrow> string \<Rightarrow> top_state \<Rightarrow> (status \<times> top_state) option"
  and topSort_loop ::
      "nat \<Rightarrow> 'f node_map \<Rightarrow> string list \<Rightarrow> top_state \<Rightarrow> (status \<times> top_state) option"
where
  "recursiveTopSort 0 m cur st = None"
| "recursiveTopSort (Suc fuel) m cur st =
     (if cur \<in> set (visited st) then Some (Status_OK, st)
      else if nd_fn (node_at m cur) = None then Some (Status BadValue cur 0, st)
      else
        let st1 = st\<lparr>inProgress := inProgress st @ [cur]\<rparr>;
            fromFirst = dropWhile (\<lambda>n. n \<noteq> cur) (inProgress st1)
        in if fromFirst \<noteq> [cur] then
             Some (Status GraphContainsCycle (''Cycle in dependendcy graph: '' @ arrow_join fromFirst) 0,
                   st1\<lparr>sortedNames := fromFirst\<rparr>)
           else
             (case topSort_loop fuel m (nd_prerequisites (node_at m cur)) st1 of
                None \<Rightarrow> None
              | Some (status, st2) \<Rightarrow>
                  if \<not> status_compare Status_OK status then Some (status, st2)
                  else
                    let st3 = st2\<lparr>sortedNames := sortedNames st2 @ [cur]\<rparr>
                    in if last (inProgress st3) \<noteq> cur
                       then Some (Status InternalError ''inProgressNodeNames stack corrupt'' 0, st3)
                       else Some (Status_OK, st3\<lparr>inProgress := butlast (inProgress st3),
                                               visited := List.insert cur (visited st3)\<rparr>)))"
| "topSort_loop fuel m [] st = Some (Status_OK, st)"
| "topSort_loop fuel m (p # ps) st =
     (case map_of m p of
        None \<Rightarrow> Some (Status BadValue p 0, st)
      | Some _ \<Rightarrow>
          (case recursiveTopSort fuel m p st of
             None \<Rightarrow> None
           | Some (status, st') \<Rightarrow>
               if \<not> status_compare Status_OK status then Some (status, st')
               else topSort_loop fuel m ps st'))"

text \<open>
  \<open>topSort\<close> visits every node of the map; the loop over the nodes is the loop over prerequisites
  applied to all names, whose lookups succeed.
\<close>

definition topSort :: "'f node_map \<Rightarrow> (status \<times> string list) option" where
  "topSort m =
     map_option (\<lambda>(s, st). (s, sortedNames st))
       (topSort_loop (Suc (length m)) m (map fst m)
          \<lparr>inProgress = [], visited = [], sortedNames = []\<rparr>)"

subsection \<open>Execution\<close>

text \<open>
  An initializer function maps the context to a status and the context it leaves; \<open>Threw s\<close> is a
  \<open>DBException\<close> whose \<open>toStatus()\<close> is \<open>s\<close>.
\<close>

datatype init_outcome = Returned status | Threw status

type_synonym 'c init_fn = "'c \<Rightarrow> init_outcome \<times> 'c"

text \<open>The second component of the result records the names whose function was called.\<close>

fun execute_loop ::
    "'c init_fn node_map \<Rightarrow> string list \<Rightarrow> 'c \<Rightarrow> string list \<Rightarrow> status \<times> string list \<times> 'c" where
  "execute_loop m [] ctx called = (Status_OK, called, ctx)"
| "execute_loop m (n # ns) ctx called =
     (case getInitializerFunction m n of
        None \<Rightarrow>
          (Status InternalError
             (''topSort returned a node that has no associated function: '' @ [CHR 0x22] @ n @ [CHR 0x22]) 0,
           called, ctx)
      | Some fn \<Rightarrow>
          (case fn ctx of
             (Threw s, ctx') \<Rightarrow> (s, called @ [n], ctx')
           | (Returned s, ctx') \<Rightarrow>
               if \<not> status_compare Status_OK s then (s, called @ [n], ctx')
               else execute_loop m ns ctx' (called @ [n])))"

definition Initializer_execute ::
    "'c init_fn node_map \<Rightarrow> 'c \<Rightarrow> (status \<times> string list \<times> 'c) option" where
  "Initializer_execute m ctx =
     (case topSort m of
        None \<Rightarrow> None
      | Some (status, names) \<Rightarrow>
          if \<not> status_compare Status_OK status then Some (status, [], ctx)
          else Some (execute_loop m names ctx []))"

subsection \<open>Graph notions\<close>

definition prereqs :: "'f node_map \<Rightarrow> string \<Rightarrow> string set" where
  "prereqs m n = set (nd_prerequisites (node_at m n))"

definition dep_edges :: "'f node_map \<Rightarrow> (string \<times> string) set" where
  "dep_edges m = {(a, b). b \<in> prereqs m a}"

text \<open>A list in which every node stands behind all of its prerequisites.\<close>

definition dep_ordered :: "'f node_map \<Rightarrow> string list \<Rightarrow> bool" where
  "dep_ordered m ns \<longleftrightarrow> (\<forall>xs y zs. ns = xs @ y # zs \<longrightarrow> prereqs m y \<subseteq> set xs)"

definition has_fn :: "'f node_map \<Rightarrow> string \<Rightarrow> bool" where
  "has_fn m n \<longleftrightarrow> getInitializerFunction m n \<noteq> None"

fun dep_path :: "'f node_map \<Rightarrow> string list \<Rightarrow> bool" where
  "dep_path m (a # b # ns) \<longleftrightarrow> b \<in> prereqs m a \<and> dep_path m (b # ns)"
| "dep_path m _ \<longleftrightarrow> True"

definition dep_cycle :: "'f node_map \<Rightarrow> string list \<Rightarrow> bool" where
  "dep_cycle m ns \<longleftrightarrow> 2 \<le> length ns \<and> hd ns = last ns \<and> dep_path m ns"

lemma has_fn_node_at: "has_fn m n \<longleftrightarrow> nd_fn (node_at m n) \<noteq> None"
  by (auto simp: has_fn_def getInitializerFunction_def node_at_def empty_node_def split: option.splits)

lemma dep_ordered_Nil [simp]: "dep_ordered m []"
  by (simp add: dep_ordered_def)

lemma dep_ordered_snoc [simp]:
  "dep_ordered m (ns @ [n]) \<longleftrightarrow> dep_ordered m ns \<and> prereqs m n \<subseteq> set ns"
proof
  assume L: "dep_ordered m (ns @ [n])"
  then have "prereqs m y \<subseteq> set xs" if "ns = xs @ y # zs" for xs y zs
    using that by (auto simp: dep_ordered_def)
  with L show "dep_ordered m ns \<and> prereqs m n \<subseteq> set ns"
    by (auto simp: dep_ordered_def)
next
  assume R: "dep_ordered m ns \<and> prereqs m n \<subseteq> set ns"
  then show "dep_ordered m (ns @ [n])"
    unfolding dep_ordered_def
    by (metis append_butlast_last_id butlast_append butlast_snoc last_snoc last_append
        list.distinct(1) butlast.simps(2) last.simps append_Nil2)
qed

lemma dep_path_append:
  "dep_path m (xs @ [y]) \<Longrightarrow> b \<in> prereqs m y \<Longrightarrow> dep_path m (xs @ [y, b])"
  by (induction m xs rule: dep_path.induct) auto

lemma dep_path_drop: "dep_path m (xs @ ys) \<Longrightarrow> dep_path m ys"
proof (induction xs)
  case Nil
  then show ?case by simp
next
  case (Cons x xs)
  then show ?case by (cases "xs @ ys") auto
qed

lemma dep_path_trancl:
  "dep_path m ns \<Longrightarrow> 2 \<le> length ns \<Longrightarrow> (hd ns, last ns) \<in> (dep_edges m)\<^sup>+"
proof (induction m ns rule: dep_path.induct)
  case (1 m a b ns)
  then have e: "(a, b) \<in> dep_edges m" by (simp add: dep_edges_def)
  show ?case
  proof (cases ns)
    case Nil
    with e show ?thesis by auto
  next
    case (Cons c cs)
    with 1 have "(b, last (b # ns)) \<in> (dep_edges m)\<^sup>+" by simp
    with e show ?thesis using Cons by (auto intro: trancl_into_trancl2)
  qed
qed simp_all

lemma dep_cycle_not_acyclic: "dep_cycle m ns \<Longrightarrow> \<not> acyclic (dep_edges m)"
  unfolding dep_cycle_def acyclic_def by (metis dep_path_trancl)

subsection \<open>Correctness of the sort\<close>

text \<open>
  Between calls the nodes in progress form a path of the graph without repetition, the nodes
  sorted so far are the visited ones, and each stands behind its prerequisites.
\<close>

definition top_inv :: "'f node_map \<Rightarrow> top_state \<Rightarrow> bool" where
  "top_inv m st \<longleftrightarrow>
     dep_ordered m (sortedNames st) \<and> distinct (sortedNames st) \<and>
     set (visited st) = set (sortedNames st) \<and>
     distinct (inProgress st) \<and> dep_path m (inProgress st) \<and>
     set (inProgress st) \<inter> set (sortedNames st) = {} \<and>
     (\<forall>n \<in> set (sortedNames st) \<union> set (inProgress st). has_fn m n)"

definition extends :: "top_state \<Rightarrow> top_state \<Rightarrow> bool" where
  "extends st st' \<longleftrightarrow>
     inProgress st' = inProgress st \<and> (\<exists>ns. sortedNames st' = sortedNames st @ ns)"

definition linked :: "'f node_map \<Rightarrow> top_state \<Rightarrow> string \<Rightarrow> bool" where
  "linked m st n \<longleftrightarrow> inProgress st = [] \<or> n \<in> prereqs m (last (inProgress st))"

text \<open>The two ways in which the sort fails, with the evidence it returns.\<close>

definition justified :: "'f node_map \<Rightarrow> status \<Rightarrow> string list \<Rightarrow> bool" where
  "justified m s ns \<longleftrightarrow>
     (\<exists>n. s = Status BadValue n 0 \<and> \<not> has_fn m n \<and>
          (n \<in> fst ` set m \<or> (\<exists>k \<in> fst ` set m. n \<in> prereqs m k))) \<or>
     status_code s = GraphContainsCycle \<and> dep_cycle m ns"

lemma justified_not_OK: "justified m s ns \<Longrightarrow> \<not> status_compare Status_OK s"
  by (auto simp: justified_def status_compare_def)

lemma status_compare_OK [simp]: "status_compare Status_OK Status_OK"
  by (simp add: status_compare_def)

lemma has_fn_key: "has_fn m n \<Longrightarrow> n \<in> fst ` set m"
  unfolding has_fn_def getInitializerFunction_def
  by (metis map_of_eq_None_iff option.case(1))

lemma inProgress_bound: "top_inv m st \<Longrightarrow> length (inProgress st) \<le> length m"
proof -
  assume inv: "top_inv m st"
  then have "set (inProgress st) \<subseteq> fst ` set m"
    by (auto simp: top_inv_def intro: has_fn_key)
  then have "card (set (inProgress st)) \<le> card (fst ` set m)"
    by (intro card_mono) simp_all
  also have "\<dots> \<le> length m"
    by (metis card_length length_map set_map)
  finally show ?thesis using inv by (simp add: top_inv_def distinct_card)
qed

lemma cycle_found:
  assumes inv: "top_inv m st" and link: "linked m st cur" and mem: "cur \<in> set (inProgress st)"
  shows "dep_cycle m (dropWhile (\<lambda>n. n \<noteq> cur) (inProgress st @ [cur]))"
proof -
  from mem obtain xs ys where split: "inProgress st = xs @ cur # ys" "cur \<notin> set xs"
    by (metis split_list_first)
  then have "\<And>x. x \<in> set xs \<Longrightarrow> x \<noteq> cur" by auto
  then have drop: "dropWhile (\<lambda>n. n \<noteq> cur) (inProgress st @ [cur]) = (cur # ys) @ [cur]"
    using dropWhile_append2 [of xs "\<lambda>n. n \<noteq> cur" "cur # ys @ [cur]"] split(1) by simp
  have "dep_path m (cur # ys)"
    using inv split dep_path_drop [of m xs "cur # ys"] by (simp add: top_inv_def)
  moreover obtain us u where u: "cur # ys = us @ [u]" by (metis list.distinct(1) rev_exhaust)
  moreover have "cur \<in> prereqs m u"
  proof -
    have "last (inProgress st) = u" using split(1) u by simp
    then show ?thesis using link split(1) by (simp add: linked_def)
  qed
  ultimately have "dep_path m ((cur # ys) @ [cur])"
    using dep_path_append [of m us u cur] by simp
  then show ?thesis unfolding drop dep_cycle_def by simp
qed

lemma push_inv:
  assumes "top_inv m st" "linked m st cur" "has_fn m cur"
    "cur \<notin> set (inProgress st)" "cur \<notin> set (visited st)"
  shows "top_inv m (st\<lparr>inProgress := inProgress st @ [cur]\<rparr>)"
proof -
  have "dep_path m (inProgress st @ [cur])"
  proof (cases "inProgress st = []")
    case False
    then obtain us u where "inProgress st = us @ [u]" by (metis rev_exhaust)
    with assms(1,2) show ?thesis
      using dep_path_append [of m us u cur] by (simp add: top_inv_def linked_def)
  qed simp
  with assms show ?thesis by (auto simp: top_inv_def)
qed

lemma topSort_correct:
  shows "top_inv m st \<Longrightarrow> linked m st cur \<Longrightarrow> cur \<in> fst ` set m \<Longrightarrow>
      length m < fuel + length (inProgress st) \<Longrightarrow>
      \<exists>s st'. recursiveTopSort fuel m cur st = Some (s, st') \<and>
        (s = Status_OK \<and> top_inv m st' \<and> extends st st' \<and> cur \<in> set (sortedNames st') \<or>
         justified m s (sortedNames st'))"
    and "top_inv m st \<Longrightarrow> \<forall>p \<in> set ps. linked m st p \<and> (p \<in> fst ` set m \<or> (\<exists>k \<in> fst ` set m. p \<in> prereqs m k)) \<Longrightarrow>
      length m < fuel + length (inProgress st) \<Longrightarrow>
      \<exists>s st'. topSort_loop fuel m ps st = Some (s, st') \<and>
        (s = Status_OK \<and> top_inv m st' \<and> extends st st' \<and> set ps \<subseteq> set (sortedNames st') \<or>
         justified m s (sortedNames st'))"
proof (induction fuel m cur st and fuel m ps st rule: recursiveTopSort_topSort_loop.induct)
  case (1 m cur st)
  then show ?case using inProgress_bound [of m st] by simp
next
  case (2 fuel m cur st)
  let ?st1 = "st\<lparr>inProgress := inProgress st @ [cur]\<rparr>"
  let ?first = "dropWhile (\<lambda>n. n \<noteq> cur) (inProgress ?st1)"
  consider (seen) "cur \<in> set (visited st)"
    | (nofn) "cur \<notin> set (visited st)" "nd_fn (node_at m cur) = None"
    | (cycle) "cur \<notin> set (visited st)" "nd_fn (node_at m cur) \<noteq> None" "cur \<in> set (inProgress st)"
    | (go) "cur \<notin> set (visited st)" "nd_fn (node_at m cur) \<noteq> None" "cur \<notin> set (inProgress st)"
    by blast
  then show ?case
  proof cases
    case seen
    with 2 show ?thesis by (auto simp: top_inv_def extends_def)
  next
    case nofn
    with 2 show ?thesis by (auto simp: justified_def has_fn_node_at)
  next
    case cycle
    have c: "dep_cycle m ?first" using cycle_found [OF "2.prems"(1,2) cycle(3)] by simp
    then have "?first \<noteq> [cur]" by (auto simp: dep_cycle_def)
    with cycle c show ?thesis by (auto simp: justified_def Let_def)
  next
    case go
    then have first: "?first = [cur]" by (auto simp: dropWhile_append)
    have inv1: "top_inv m ?st1"
      using push_inv [OF "2.prems"(1,2)] go by (simp add: has_fn_node_at)
    have links: "\<forall>p \<in> set (nd_prerequisites (node_at m cur)). linked m ?st1 p \<and>
        (p \<in> fst ` set m \<or> (\<exists>k \<in> fst ` set m. p \<in> prereqs m k))"
      using "2.prems"(3) by (auto simp: linked_def prereqs_def)
    have len: "length m < fuel + length (inProgress ?st1)"
      using "2.prems"(4) by simp
    obtain s st2 where loop: "topSort_loop fuel m (nd_prerequisites (node_at m cur)) ?st1 = Some (s, st2)"
      and res: "s = Status_OK \<and> top_inv m st2 \<and> extends ?st1 st2 \<and>
            set (nd_prerequisites (node_at m cur)) \<subseteq> set (sortedNames st2) \<or>
          justified m s (sortedNames st2)"
      using "2.IH" [OF go(1,2) refl refl _ inv1 links len] first by auto
    from res show ?thesis
    proof
      assume ok: "s = Status_OK \<and> top_inv m st2 \<and> extends ?st1 st2 \<and>
            set (nd_prerequisites (node_at m cur)) \<subseteq> set (sortedNames st2)"
      then have ip: "inProgress st2 = inProgress st @ [cur]" by (simp add: extends_def)
      let ?st' = "st2\<lparr>sortedNames := sortedNames st2 @ [cur], inProgress := inProgress st,
                     visited := List.insert cur (visited st2)\<rparr>"
      have "recursiveTopSort (Suc fuel) m cur st = Some (Status_OK, ?st')"
        using go first loop ok ip by (simp add: Let_def)
      moreover have "top_inv m ?st'"
        using ok ip "2.prems"(1) by (auto simp: top_inv_def prereqs_def)
      moreover have "extends st ?st'"
        using ok by (auto simp: extends_def)
      ultimately show ?thesis by auto
    next
      assume "justified m s (sortedNames st2)"
      with go first loop show ?thesis by (auto simp: Let_def dest: justified_not_OK)
    qed
  qed
next
  case (3 fuel m st)
  then show ?case by (simp add: extends_def)
next
  case (4 fuel m p ps st)
  show ?case
  proof (cases "map_of m p")
    case None
    then have "\<not> has_fn m p" by (simp add: has_fn_def getInitializerFunction_def)
    with None "4.prems"(2) show ?thesis by (auto simp: justified_def)
  next
    case (Some d)
    then have key: "p \<in> fst ` set m" by (metis map_of_eq_None_iff option.distinct(1))
    obtain s st1 where visit: "recursiveTopSort fuel m p st = Some (s, st1)"
      and res: "s = Status_OK \<and> top_inv m st1 \<and> extends st st1 \<and> p \<in> set (sortedNames st1) \<or>
          justified m s (sortedNames st1)"
      using "4.IH"(1) [OF Some "4.prems"(1) _ key "4.prems"(3)] "4.prems"(2) by auto
    from res show ?thesis
    proof
      assume ok: "s = Status_OK \<and> top_inv m st1 \<and> extends st st1 \<and> p \<in> set (sortedNames st1)"
      have "\<forall>q \<in> set ps. linked m st1 q \<and> (q \<in> fst ` set m \<or> (\<exists>k \<in> fst ` set m. q \<in> prereqs m k))"
        using "4.prems"(2) ok by (simp add: linked_def extends_def)
      then obtain s2 st2 where "topSort_loop fuel m ps st1 = Some (s2, st2)"
        "s2 = Status_OK \<and> top_inv m st2 \<and> extends st1 st2 \<and> set ps \<subseteq> set (sortedNames st2) \<or>
          justified m s2 (sortedNames st2)"
        using "4.IH"(2) [OF Some visit refl] ok "4.prems"(3) by (auto simp: extends_def)
      with Some visit ok show ?thesis by (auto simp: extends_def)
    next
      assume "justified m s (sortedNames st1)"
      with Some visit show ?thesis by (auto dest: justified_not_OK)
    qed
  qed
qed

lemma topSort_cases:
  "\<exists>s ns. topSort m = Some (s, ns) \<and>
     (s = Status_OK \<and> dep_ordered m ns \<and> distinct ns \<and> set ns = fst ` set m \<and>
        (\<forall>n \<in> set ns. has_fn m n) \<or>
      justified m s ns)"
proof -
  let ?st = "\<lparr>inProgress = [], visited = [], sortedNames = []\<rparr>"
  have inv: "top_inv m ?st" by (simp add: top_inv_def)
  have "\<forall>p \<in> set (map fst m). linked m ?st p \<and> (p \<in> fst ` set m \<or> (\<exists>k \<in> fst ` set m. p \<in> prereqs m k))"
    by (simp add: linked_def)
  from topSort_correct(2) [OF inv this, of "Suc (length m)"]
  obtain s st' where "topSort_loop (Suc (length m)) m (map fst m) ?st = Some (s, st')"
    "s = Status_OK \<and> top_inv m st' \<and> extends ?st st' \<and> set (map fst m) \<subseteq> set (sortedNames st') \<or>
      justified m s (sortedNames st')"
    by auto
  moreover have "top_inv m st' \<Longrightarrow> set (sortedNames st') \<subseteq> fst ` set m"
    by (auto simp: top_inv_def intro: has_fn_key)
  ultimately show ?thesis
    by (auto simp: topSort_def top_inv_def)
qed

subsection \<open>Execution follows the order\<close>

lemma execute_loop_prefix:
  "execute_loop m ns ctx called = (s, called', ctx') \<Longrightarrow> \<exists>k. called' = called @ take k ns"
proof (induction m ns ctx called rule: execute_loop.induct)
  case (1 m ctx called)
  then show ?case by auto
next
  case (2 m n ns ctx called)
  show ?case
  proof (cases "\<exists>k. called' = called @ take k [n]")
    case True
    then obtain k where "called' = called @ take k [n]" ..
    then have "called' = called @ take (min k 1) (n # ns)" by (cases k) simp_all
    then show ?thesis ..
  next
    case False
    then have no: "called' \<noteq> called" "called' \<noteq> called @ [n]"
      by (metis append_Nil2 take_0) (metis False take_Suc_Cons take_Nil)
    with "2.prems" obtain fn s1 ctx1 where
      fn: "getInitializerFunction m n = Some fn" "fn ctx = (Returned s1, ctx1)"
        "status_compare Status_OK s1"
        "execute_loop m ns ctx1 (called @ [n]) = (s, called', ctx')"
      by (auto split: option.splits prod.splits init_outcome.splits if_splits)
    from "2.IH" [OF fn(1) fn(2) [symmetric] refl] fn(3,4)
    obtain k where "called' = (called @ [n]) @ take k ns" by auto
    then have "called' = called @ take (Suc k) (n # ns)" by simp
    then show ?thesis ..
  qed
qed

lemma dep_ordered_take: "dep_ordered m ns \<Longrightarrow> dep_ordered m (take k ns)"
  unfolding dep_ordered_def by (metis append_take_drop_id append.assoc append_Cons)

subsection \<open>Adding an initializer\<close>

lemma nd_fn_insert_prerequisite [simp]: "nd_fn (insert_prerequisite p d) = nd_fn d"
  by (simp add: insert_prerequisite_def)

lemma prerequisites_fold:
  "set (nd_prerequisites (fold insert_prerequisite ps d)) = set ps \<union> set (nd_prerequisites d)"
  by (induction ps arbitrary: d) (auto simp: insert_prerequisite_def)

lemma nd_fn_fold [simp]: "nd_fn (fold insert_prerequisite ps d) = nd_fn d"
  by (induction ps arbitrary: d) simp_all

lemma node_at_update [simp]:
  "node_at (AList.update k d m) n = (if n = k then d else node_at m n)"
  by (simp add: node_at_def update_conv')

lemma dependents_fold:
  "nd_fn (node_at (fold (\<lambda>d m. AList.update d (insert_prerequisite name (node_at m d)) m) ds m) n) =
     nd_fn (node_at m n)"
  "prereqs (fold (\<lambda>d m. AList.update d (insert_prerequisite name (node_at m d)) m) ds m) n =
     prereqs m n \<union> (if n \<in> set ds then {name} else {})"
proof (induction ds arbitrary: m)
  case Nil
  {
    case 1
    then show ?case by simp
  next
    case 2
    then show ?case by simp
  }
next
  case (Cons d ds)
  {
    case 1
    then show ?case using Cons.IH(1) by simp
  next
    case 2
    then show ?case
      using Cons.IH(2) by (auto simp: prereqs_def insert_prerequisite_def)
  }
qed

text \<open>
  A successful \<open>addInitializer\<close> gives the new node its function and exactly the listed
  prerequisites on top of those other nodes had declared for it, makes it a prerequisite of each
  listed dependent, and changes nothing else; it fails, without changing the graph, exactly for a
  missing function or a name that already has one.
\<close>

theorem addInitializer_effect:
  "addInitializer name fn pres deps m = (s, m') \<Longrightarrow>
   (if fn = None \<or> has_fn m name then \<not> isOK s \<and> m' = m
    else s = Status_OK \<and>
      (\<forall>n. nd_fn (node_at m' n) = (if n = name then fn else nd_fn (node_at m n))) \<and>
      (\<forall>n. prereqs m' n =
         prereqs m n \<union> (if n = name then set pres else {}) \<union> (if n \<in> set deps then {name} else {})))"
  by (auto simp: addInitializer_def Let_def has_fn_node_at dependents_fold prereqs_def [of "AList.update k d l" for k d l]
      prerequisites_fold, auto simp: prereqs_def split: if_splits)

lemma addInitializer_effect_witness:
  "isOK (fst (addInitializer ''b'' (Some ()) [''a''] [''c''] [])) \<and>
   prereqs (snd (addInitializer ''b'' (Some ()) [''a''] [''c''] [])) ''c'' = {''b''}"
  using addInitializer_effect [of "''b''" "Some ()" "[''a'']" "[''c'']" "[]"
      "fst (addInitializer ''b'' (Some ()) [''a''] [''c''] [])"
      "snd (addInitializer ''b'' (Some ()) [''a''] [''c''] [])"]
  by (simp add: has_fn_def getInitializerFunction_def prereqs_def [of "[]"] node_at_def [of "[]"] empty_node_def)

subsection \<open>When the sort succeeds\<close>

lemma prereqs_key: "b \<in> prereqs m a \<Longrightarrow> a \<in> fst ` set m"
  by (cases "map_of m a")
     (auto simp: prereqs_def node_at_def empty_node_def dest!: map_of_SomeD intro: rev_image_eqI)

lemma dep_ordered_acyclic:
  assumes "dep_ordered m ns" "set ns = fst ` set m"
  shows "acyclic (dep_edges m)"
proof (rule acyclicI_order)
  let ?pos = "\<lambda>a. length (takeWhile (\<lambda>x. x \<noteq> a) ns)"
  fix a b assume "(a, b) \<in> dep_edges m"
  then have b: "b \<in> prereqs m a" by (simp add: dep_edges_def)
  then have "a \<in> set ns" using prereqs_key assms(2) by simp
  then obtain xs zs where ns: "ns = xs @ a # zs" "a \<notin> set xs" by (meson split_list_first)
  with assms(1) b have "b \<in> set xs" by (auto simp: dep_ordered_def)
  then obtain us vs where "xs = us @ b # vs" "b \<notin> set us" by (meson split_list_first)
  with ns show "?pos b < ?pos a" by (auto simp: takeWhile_append)
qed

lemma prereqs_have_fn:
  "dep_ordered m ns \<Longrightarrow> \<forall>n \<in> set ns. has_fn m n \<Longrightarrow> k \<in> set ns \<Longrightarrow> p \<in> prereqs m k \<Longrightarrow> has_fn m p"
proof -
  assume "dep_ordered m ns" "\<forall>n \<in> set ns. has_fn m n" "p \<in> prereqs m k"
  moreover assume "k \<in> set ns"
  then obtain xs zs where "ns = xs @ k # zs" by (meson split_list)
  ultimately show "has_fn m p" by (fastforce simp: dep_ordered_def)
qed

lemma justified_failure:
  assumes "justified m s ns"
  shows "\<not> isOK s"
    and "\<not> (acyclic (dep_edges m) \<and>
            (\<forall>k \<in> fst ` set m. has_fn m k \<and> (\<forall>p \<in> prereqs m k. has_fn m p)))"
  using assms unfolding justified_def
  by (auto simp: isOK_def) (metis dep_cycle_not_acyclic image_eqI fst_conv)+

text \<open>
  (C20) The sort always returns. It returns success exactly when every name in the graph, as a node
  or as a prerequisite, has a function and the dependencies have no cycle; the names are then
  listed once each, every one behind all its prerequisites. Otherwise it names a node without a
  function, or returns the names along a real cycle.
\<close>

theorem topSort_decides:
  "\<exists>s ns. topSort m = Some (s, ns) \<and>
     (isOK s \<longleftrightarrow> acyclic (dep_edges m) \<and>
        (\<forall>k \<in> fst ` set m. has_fn m k \<and> (\<forall>p \<in> prereqs m k. has_fn m p))) \<and>
     (isOK s \<longrightarrow> dep_ordered m ns \<and> distinct ns \<and> set ns = fst ` set m) \<and>
     (\<not> isOK s \<longrightarrow> justified m s ns)"
proof -
  obtain s ns where top: "topSort m = Some (s, ns)"
    "s = Status_OK \<and> dep_ordered m ns \<and> distinct ns \<and> set ns = fst ` set m \<and>
       (\<forall>n \<in> set ns. has_fn m n) \<or> justified m s ns"
    using topSort_cases [of m] by (elim exE conjE) (rule that)
  then show ?thesis
  proof (elim disjE)
    assume "justified m s ns"
    then show ?thesis
      by (intro exI [of _ s] exI [of _ ns]) (use top(1) justified_failure [of m s ns] in simp)
  next
    assume ok: "s = Status_OK \<and> dep_ordered m ns \<and> distinct ns \<and> set ns = fst ` set m \<and>
       (\<forall>n \<in> set ns. has_fn m n)"
    then have "\<forall>k \<in> fst ` set m. has_fn m k \<and> (\<forall>p \<in> prereqs m k. has_fn m p)"
      using prereqs_have_fn [of m ns] by metis
    moreover have "acyclic (dep_edges m)" "isOK s" using ok dep_ordered_acyclic [of m ns] by simp_all
    ultimately show ?thesis
      by (intro exI [of _ s] exI [of _ ns]) (use top(1) ok in simp)
  qed
qed

lemma topSort_decides_witness:
  "\<exists>s ns. topSort [(''a'', \<lparr>nd_fn = Some (), nd_prerequisites = [''b'']\<rparr>),
                    (''b'', \<lparr>nd_fn = Some (), nd_prerequisites = [''a'']\<rparr>)] = Some (s, ns) \<and>
     \<not> isOK s"
proof -
  let ?m = "[(''a'', \<lparr>nd_fn = Some (), nd_prerequisites = [''b'']\<rparr>),
             (''b'', \<lparr>nd_fn = Some (), nd_prerequisites = [''a'']\<rparr>)]"
  have "(''a'', ''b'') \<in> dep_edges ?m" "(''b'', ''a'') \<in> dep_edges ?m"
    by (simp_all add: dep_edges_def prereqs_def node_at_def)
  then have "(''a'', ''a'') \<in> (dep_edges ?m)\<^sup>+" by (meson r_into_trancl' trancl_into_trancl)
  then have "\<not> acyclic (dep_edges ?m)" by (auto simp: acyclic_def)
  with topSort_decides [of ?m] show ?thesis by blast
qed

lemma execute_loop_all:
  "execute_loop m ns ctx called = (s, called', ctx') \<Longrightarrow>
   \<forall>n \<in> set ns. has_fn m n \<Longrightarrow> status_compare Status_OK s \<Longrightarrow>
   (\<And>n fn c s' c'. getInitializerFunction m n = Some fn \<Longrightarrow> fn c = (Threw s', c') \<Longrightarrow> \<not> isOK s') \<Longrightarrow>
   called' = called @ ns"
proof (induction m ns ctx called rule: execute_loop.induct)
  case (1 m ctx called)
  then show ?case by simp
next
  case (2 m n ns ctx called)
  from "2.prems"(2) obtain fn where fn: "getInitializerFunction m n = Some fn"
    by (auto simp: has_fn_def)
  obtain r ctx1 where r: "fn ctx = (r, ctx1)" by fastforce
  have ok: "isOK s" using "2.prems"(3) by (simp add: status_compare_def isOK_def)
  show ?case
  proof (cases r)
    case (Threw s1)
    with "2.prems"(1,4) fn r ok show ?thesis by auto
  next
    case (Returned s1)
    with "2.prems"(1,3) fn r have ok1: "status_compare Status_OK s1"
      and go: "execute_loop m ns ctx1 (called @ [n]) = (s, called', ctx')"
      by (auto split: if_splits)
    have "called' = (called @ [n]) @ ns"
      using "2.IH" [OF fn r [symmetric] Returned] ok1 go "2.prems"(2,3,4) by auto
    then show ?thesis by simp
  qed
qed

text \<open>
  (C21) \<open>Initializer::execute\<close> always returns; it calls the functions of distinct nodes, each after
  all its prerequisites, and none when the graph has a cycle or a missing node. When it reports
  success, and a thrown exception never carries the code OK, it has called every node.
\<close>

theorem Initializer_execute_order:
  "\<exists>s called ctx'. Initializer_execute m ctx = Some (s, called, ctx') \<and>
     dep_ordered m called \<and> distinct called \<and> set called \<subseteq> fst ` set m \<and>
     (\<not> acyclic (dep_edges m) \<longrightarrow> called = [] \<and> \<not> isOK s) \<and>
     (status_compare Status_OK s \<and>
      (\<forall>n fn c s' c'. getInitializerFunction m n = Some fn \<and> fn c = (Threw s', c') \<longrightarrow> \<not> isOK s')
      \<longrightarrow> set called = fst ` set m)"
proof -
  obtain s ns where top: "topSort m = Some (s, ns)"
    "s = Status_OK \<and> dep_ordered m ns \<and> distinct ns \<and> set ns = fst ` set m \<and>
       (\<forall>n \<in> set ns. has_fn m n) \<or> justified m s ns"
    using topSort_cases [of m] by (elim exE conjE) (rule that)
  from top(2) show ?thesis
  proof (elim disjE)
    assume "justified m s ns"
    then show ?thesis
      by (intro exI [of _ s] exI [of _ "[]"] exI [of _ ctx])
         (use top(1) justified_not_OK [of m s ns] justified_failure(1) [of m s ns]
          in \<open>simp add: Initializer_execute_def\<close>)
  next
    assume ok: "s = Status_OK \<and> dep_ordered m ns \<and> distinct ns \<and> set ns = fst ` set m \<and>
       (\<forall>n \<in> set ns. has_fn m n)"
    obtain s1 called ctx1 where ex: "execute_loop m ns ctx [] = (s1, called, ctx1)"
      by (metis prod_cases3)
    from execute_loop_prefix [OF this] obtain k where "called = take k ns" by auto
    with ok have "dep_ordered m called" "distinct called" "set called \<subseteq> fst ` set m"
      using dep_ordered_take [of m ns k] set_take_subset [of k ns] by auto
    moreover have "acyclic (dep_edges m)" using ok dep_ordered_acyclic by blast
    moreover have "Initializer_execute m ctx = Some (s1, called, ctx1)"
      using ok top(1) ex by (simp add: Initializer_execute_def)
    moreover have "set called = fst ` set m" if "status_compare Status_OK s1"
      "\<forall>n fn c s' c'. getInitializerFunction m n = Some fn \<and> fn c = (Threw s', c') \<longrightarrow> \<not> isOK s'"
      using execute_loop_all [OF ex _ that(1)] that(2) ok by auto
    ultimately show ?thesis
      by (intro exI [of _ s1] exI [of _ called] exI [of _ ctx1]) blast
  qed
qed

lemma Initializer_execute_order_witness:
  "\<exists>s called ctx'.
     Initializer_execute [(''a'', \<lparr>nd_fn = Some (\<lambda>c. (Returned Status_OK, Suc c)), nd_prerequisites = [''a'']\<rparr>)] 0 =
       Some (s, called, ctx') \<and> called = [] \<and> \<not> isOK s"
proof -
  let ?m = "[(''a'', \<lparr>nd_fn = Some (\<lambda>c. (Returned Status_OK, Suc c)), nd_prerequisites = [''a'']\<rparr>)]"
  have "(''a'', ''a'') \<in> dep_edges ?m" by (simp add: dep_edges_def prereqs_def node_at_def)
  then have "\<not> acyclic (dep_edges ?m)" by (auto simp: acyclic_def)
  with Initializer_execute_order [of ?m 0] show ?thesis by blast
qed

end
