(* ===== verification/Bson_Types.thy ===== *)
theory Bson_Types
  imports Mongo_Prelude
begin

text \<open>
  The BSON data format: the element types of \<open>src/mongo/bson/bsontypes.h\<close> with their sort order,
  the little-endian byte image of numbers in memory, and an abstract syntax of documents with the
  byte string that denotes each document (\<open>encode\<close>, after bsonspec.org). The builder, the
  reader and the validator of the following theories are related to this encoding.
\<close>

subsection \<open>Element types\<close>

datatype BSONType =
    MinKey
  | EOO
  | NumberDouble
  | String
  | Object
  | Array
  | BinData
  | Undefined
  | jstOID
  | Bool
  | Date
  | jstNULL
  | RegEx
  | DBRef
  | Code
  | Symbol
  | CodeWScope
  | NumberInt
  | Timestamp
  | NumberLong
  | MaxKey

definition BSONType_table :: "(int \<times> BSONType) list" where
  "BSONType_table =
     [(-1, MinKey), (0, EOO), (1, NumberDouble), (2, String), (3, Object), (4, Array), (5, BinData),
      (6, Undefined), (7, jstOID), (8, Bool), (9, Date), (10, jstNULL), (11, RegEx), (12, DBRef),
      (13, Code), (14, Symbol), (15, CodeWScope), (16, NumberInt), (17, Timestamp),
      (18, NumberLong), (127, MaxKey)]"

definition BSONType_of_int :: "int \<Rightarrow> BSONType option" where
  "BSONType_of_int i = map_of BSONType_table i"

definition BSONType_to_int :: "BSONType \<Rightarrow> int" where
  "BSONType_to_int t = the (map_of (map prod.swap BSONType_table) t)"

definition canonicalizeBSONType :: "BSONType \<Rightarrow> int" where
  "canonicalizeBSONType t =
     (case t of
        MinKey \<Rightarrow> BSONType_to_int MinKey
      | MaxKey \<Rightarrow> BSONType_to_int MaxKey
      | EOO \<Rightarrow> 0
      | Undefined \<Rightarrow> 0
      | jstNULL \<Rightarrow> 5
      | NumberDouble \<Rightarrow> 10
      | NumberInt \<Rightarrow> 10
      | NumberLong \<Rightarrow> 10
      | String \<Rightarrow> 15
      | Symbol \<Rightarrow> 15
      | Object \<Rightarrow> 20
      | Array \<Rightarrow> 25
      | BinData \<Rightarrow> 30
      | jstOID \<Rightarrow> 35
      | Bool \<Rightarrow> 40
      | Date \<Rightarrow> 45
      | Timestamp \<Rightarrow> 45
      | RegEx \<Rightarrow> 50
      | DBRef \<Rightarrow> 55
      | Code \<Rightarrow> 60
      | CodeWScope \<Rightarrow> 65)"

lemma BSONType_of_int_to_int [simp]: "BSONType_of_int (BSONType_to_int t) = Some t"
  by (cases t) (simp_all add: BSONType_of_int_def BSONType_to_int_def BSONType_table_def)

lemma BSONType_to_int_eq [simp]: "BSONType_to_int s = BSONType_to_int t \<longleftrightarrow> s = t"
  by (metis BSONType_of_int_to_int option.inject)

lemma BSONType_to_int_eq_0 [simp]: "BSONType_to_int t = 0 \<longleftrightarrow> t = EOO"
  by (cases t) (simp_all add: BSONType_to_int_def BSONType_table_def)

lemma BSONType_to_int_EOO [simp]: "BSONType_to_int EOO = 0"
  by simp

lemma BSONType_to_int_range: "-1 \<le> BSONType_to_int t \<and> BSONType_to_int t \<le> 127"
  by (cases t) (simp_all add: BSONType_to_int_def BSONType_table_def)

text \<open>The type byte, a \<open>signed char\<close>.\<close>

definition type_byte :: "BSONType \<Rightarrow> char" where
  "type_byte t = char_of (nat (BSONType_to_int t mod 256))"

definition signed_char :: "char \<Rightarrow> int" where
  "signed_char c =
     (let n = (of_char c :: nat) in if n < 128 then int n else int n - 256)"

lemma signed_char_type_byte [simp]: "signed_char (type_byte t) = BSONType_to_int t"
  by (cases t)
     (simp_all add: signed_char_def type_byte_def BSONType_to_int_def BSONType_table_def Let_def
       of_char_of)

lemma of_char_less [simp]: "(of_char c :: nat) < 256"
  using of_char_mod_256 [of c, where ?'a = nat] mod_less_divisor [of 256 "of_char c"] by simp

lemma signed_char_zero [simp]: "signed_char c = 0 \<longleftrightarrow> c = CHR 0x00"
proof -
  have "(of_char c :: nat) = 0 \<longleftrightarrow> c = CHR 0x00"
    using of_char_eq_iff [of c "CHR 0x00", where ?'a = nat] by simp
  moreover have "(of_char c :: nat) \<noteq> 256" by (rule less_imp_neq [OF of_char_less])
  ultimately show ?thesis by (auto simp: signed_char_def Let_def)
qed

subsection \<open>Numbers in memory\<close>

text \<open>The host is little-endian, as the code requires (it stores integers through casts).\<close>

fun le_bytes :: "nat \<Rightarrow> nat \<Rightarrow> string" where
  "le_bytes 0 v = []"
| "le_bytes (Suc n) v = char_of v # le_bytes n (v div 256)"

fun le_value :: "string \<Rightarrow> nat" where
  "le_value [] = 0"
| "le_value (c # cs) = of_char c + 256 * le_value cs"

lemma length_le_bytes [simp]: "length (le_bytes n v) = n"
  by (induction n arbitrary: v) simp_all

lemma le_bytes_4:
  "le_bytes 4 v = [char_of v, char_of (v div 256), char_of (v div 256 div 256),
     char_of (v div 256 div 256 div 256)]"
proof -
  have "(4::nat) = Suc (Suc (Suc (Suc 0)))" by simp
  then show ?thesis by (simp only: le_bytes.simps)
qed

lemma le_value_le_bytes [simp]: "le_value (le_bytes n v) = v mod 256 ^ n"
  by (induction n arbitrary: v) (simp_all add: of_char_of mod_mult2_eq add.commute)

lemma le_value_bound: "le_value cs < 256 ^ length cs"
proof (induction cs)
  case Nil
  then show ?case by simp
next
  case (Cons c cs)
  have "of_char c + 256 * le_value cs < 256 + 256 * le_value cs"
    by (rule add_strict_right_mono [OF of_char_less])
  also have "256 + 256 * le_value cs = 256 * (le_value cs + 1)" by simp
  also have "\<dots> \<le> 256 * 256 ^ length cs" using Cons by (intro mult_le_mono2) simp
  finally show ?case by simp
qed

lemma le_bytes_le_value [simp]: "le_bytes (length cs) (le_value cs) = cs"
proof (induction cs)
  case Nil
  then show ?case by simp
next
  case (Cons c cs)
  have "char_of (of_char c + 256 * le_value cs) = c"
    by (rule of_char_eqI [where ?'a = nat]) simp
  moreover have "(of_char c + 256 * le_value cs) div 256 = le_value cs"
    using of_char_less [of c] by simp
  ultimately show ?case using Cons by simp
qed

subsection \<open>Documents and their encoding\<close>

text \<open>
  Doubles, dates, timestamps and integers are their bit patterns; an array is a document whose
  names are, by convention, the decimal numbers, which no code below depends on.
\<close>

datatype bson_value =
    VDouble uint64
  | VString string
  | VObject "(string \<times> bson_value) list"
  | VArray "(string \<times> bson_value) list"
  | VBinData char string
  | VUndefined
  | VOID string
  | VBool bool
  | VDate uint64
  | VNull
  | VRegEx string string
  | VDBRef string string
  | VCode string
  | VSymbol string
  | VCodeWScope string "(string \<times> bson_value) list"
  | VInt int32
  | VTimestamp uint64
  | VLong int64
  | VMinKey
  | VMaxKey

type_synonym bson_elem = "string \<times> bson_value"

fun value_type :: "bson_value \<Rightarrow> BSONType" where
  "value_type (VDouble _) = NumberDouble"
| "value_type (VString _) = String"
| "value_type (VObject _) = Object"
| "value_type (VArray _) = Array"
| "value_type (VBinData _ _) = BinData"
| "value_type VUndefined = Undefined"
| "value_type (VOID _) = jstOID"
| "value_type (VBool _) = Bool"
| "value_type (VDate _) = Date"
| "value_type VNull = jstNULL"
| "value_type (VRegEx _ _) = RegEx"
| "value_type (VDBRef _ _) = DBRef"
| "value_type (VCode _) = Code"
| "value_type (VSymbol _) = Symbol"
| "value_type (VCodeWScope _ _) = CodeWScope"
| "value_type (VInt _) = NumberInt"
| "value_type (VTimestamp _) = Timestamp"
| "value_type (VLong _) = NumberLong"
| "value_type VMinKey = MinKey"
| "value_type VMaxKey = MaxKey"

lemma value_type_not_EOO [simp]: "value_type v \<noteq> EOO"
  by (cases v) simp_all

definition nul :: char where
  "nul = CHR 0x00"

definition int_bytes :: "nat \<Rightarrow> string" where
  "int_bytes n = le_bytes 4 n"

definition cstring :: "string \<Rightarrow> string" where
  "cstring s = s @ [nul]"

definition sized_string :: "string \<Rightarrow> string" where
  "sized_string s = int_bytes (length s + 1) @ cstring s"

definition frame :: "string \<Rightarrow> string" where
  "frame body = int_bytes (length body + 5) @ body @ [nul]"

fun encode_value :: "bson_value \<Rightarrow> string"
  and encode_elems :: "bson_elem list \<Rightarrow> string"
where
  "encode_value (VDouble d) = le_bytes 8 (unat d)"
| "encode_value (VString s) = sized_string s"
| "encode_value (VObject es) = frame (encode_elems es)"
| "encode_value (VArray es) = frame (encode_elems es)"
| "encode_value (VBinData t bs) = int_bytes (length bs) @ t # bs"
| "encode_value VUndefined = []"
| "encode_value (VOID bs) = bs"
| "encode_value (VBool b) = [if b then CHR 0x01 else nul]"
| "encode_value (VDate d) = le_bytes 8 (unat d)"
| "encode_value VNull = []"
| "encode_value (VRegEx r f) = cstring r @ cstring f"
| "encode_value (VDBRef ns bs) = sized_string ns @ bs"
| "encode_value (VCode s) = sized_string s"
| "encode_value (VSymbol s) = sized_string s"
| "encode_value (VCodeWScope c es) =
     int_bytes (4 + 4 + length c + 1 + length (frame (encode_elems es))) @
     sized_string c @ frame (encode_elems es)"
| "encode_value (VInt n) = int_bytes (unat n)"
| "encode_value (VTimestamp d) = le_bytes 8 (unat d)"
| "encode_value (VLong d) = le_bytes 8 (unat d)"
| "encode_value VMinKey = []"
| "encode_value VMaxKey = []"
| "encode_elems [] = []"
| "encode_elems ((n, v) # es) =
     type_byte (value_type v) # cstring n @ encode_value v @ encode_elems es"

definition encode_elem :: "bson_elem \<Rightarrow> string" where
  "encode_elem e = type_byte (value_type (snd e)) # cstring (fst e) @ encode_value (snd e)"

definition encode :: "bson_elem list \<Rightarrow> string" where
  "encode es = frame (encode_elems es)"

text \<open>
  What the format requires of a value beside its length: field names and the parts of a regular
  expression contain no NUL, and an object id has twelve bytes.
\<close>

fun wf_value :: "bson_value \<Rightarrow> bool"
  and wf_elems :: "bson_elem list \<Rightarrow> bool"
where
  "wf_value (VObject es) = wf_elems es"
| "wf_value (VArray es) = wf_elems es"
| "wf_value (VOID bs) = (length bs = 12)"
| "wf_value (VRegEx r f) = (nul \<notin> set r \<and> nul \<notin> set f)"
| "wf_value (VDBRef ns bs) = (length bs = 12)"
| "wf_value (VCodeWScope c es) = wf_elems es"
| "wf_value _ = True"
| "wf_elems [] = True"
| "wf_elems ((n, v) # es) = (nul \<notin> set n \<and> wf_value v \<and> wf_elems es)"

lemma length_frame [simp]: "length (frame bs) = length bs + 5"
  by (simp add: frame_def int_bytes_def)

lemma length_int_bytes [simp]: "length (int_bytes n) = 4"
  by (simp add: int_bytes_def)

lemma length_cstring [simp]: "length (cstring s) = length s + 1"
  by (simp add: cstring_def)

lemma length_sized_string [simp]: "length (sized_string s) = length s + 5"
  by (simp add: sized_string_def)

lemma le_value_int_bytes [simp]: "n < 2 ^ 32 \<Longrightarrow> le_value (int_bytes n) = n"
  by (simp add: int_bytes_def)

lemma encode_elems_append [simp]: "encode_elems (es @ fs) = encode_elems es @ encode_elems fs"
  by (induction es) auto

lemma wf_elems_append [simp]: "wf_elems (es @ fs) \<longleftrightarrow> wf_elems es \<and> wf_elems fs"
  by (induction es) auto

lemma encode_elems_Cons: "encode_elems (e # es) = encode_elem e @ encode_elems es"
  by (cases e) (simp add: encode_elem_def)

end
