(* ===== verification/Bson_Validate.thy ===== *)
theory Bson_Validate
  imports Status String_Data Bson_Types
begin

unbundle bit_operations_syntax

text \<open>
  \<open>src/mongo/bson/bson_validate.cpp\<close>: the validator that runs over bytes from the network before
  anything else reads them.

  The buffer keeps its 64-bit position and length, so positions wrap as in the code: a string
  length is an \<open>int\<close> that \<open>skip\<close> receives sign-extended to 64 bits. Every byte the code reads
  behind the buffer and every signed overflow is an \<open>Inl\<close>. The out-parameters of \<open>readCString\<close>
  and \<open>readUTF8String\<close>, which no caller uses, are left out. The loop is a partial function: the
  value \<open>None\<close> means that the loop never ends.
\<close>

record bson_buffer =
  bb_bytes :: string
  bb_position :: uint64
  bb_maxLength :: uint64

definition invalid_bson :: status where
  "invalid_bson = Status InvalidBSON ''invalid bson'' 0"

definition readNumber :: "nat \<Rightarrow> bson_buffer \<Rightarrow> (string option \<times> bson_buffer) result" where
  "readNumber n b =
     (if bb_position b + of_nat n > bb_maxLength b then Inr (None, b)
      else if unat (bb_position b) + n > length (bb_bytes b) then Inl UndefinedBehaviour
      else Inr (Some (take n (drop (unat (bb_position b)) (bb_bytes b))),
                b\<lparr>bb_position := bb_position b + of_nat n\<rparr>))"

definition readCString :: "bson_buffer \<Rightarrow> (status \<times> bson_buffer) result" where
  "readCString b =
     (let n = unat (bb_maxLength b - bb_position b)
      in case memchr (take n (drop (unat (bb_position b)) (bb_bytes b))) nul of
           None \<Rightarrow>
             (if unat (bb_position b) + n > length (bb_bytes b) then Inl UndefinedBehaviour
              else Inr (Status InvalidBSON ''no end of c-string'' 0, b))
         | Some len \<Rightarrow> Inr (Status_OK, b\<lparr>bb_position := bb_position b + of_nat len + 1\<rparr>))"

definition skip :: "uint64 \<Rightarrow> bson_buffer \<Rightarrow> bool \<times> bson_buffer" where
  "skip sz b =
     (bb_position b + sz < bb_maxLength b, b\<lparr>bb_position := bb_position b + sz\<rparr>)"

text \<open>The value of an \<open>int\<close> with the given bytes.\<close>

definition int_of_bytes :: "string \<Rightarrow> int" where
  "int_of_bytes bs =
     (let n = le_value bs in if n < 2 ^ 31 then int n else int n - 2 ^ 32)"

definition readUTF8String :: "bson_buffer \<Rightarrow> (status \<times> bson_buffer) result" where
  "readUTF8String b =
     bindE (readNumber 4 b) (\<lambda>(r, b1).
       case r of
         None \<Rightarrow> Inr (invalid_bson, b1)
       | Some bs \<Rightarrow>
           bindE (checked32 (int_of_bytes bs - 1)) (\<lambda>n.
             let (ok, b2) = skip (word_of_int n) b1
             in if \<not> ok then Inr (invalid_bson, b2)
                else bindE (readNumber 1 b2) (\<lambda>(c, b3).
                  case c of
                    None \<Rightarrow> Inr (invalid_bson, b3)
                  | Some cs \<Rightarrow>
                      if cs \<noteq> [nul] then Inr (Status InvalidBSON ''not null terminate string'' 0, b3)
                      else Inr (Status_OK, b3))))"

datatype validation_state = BeginObj | WithinObj | EndObj | BeginCodeWScope | EndCodeWScope | Done

subsection \<open>Object frames\<close>

text \<open>The top bit of the start position says that the frame is a CodeWScope.\<close>

record validation_frame =
  vf_expectedSize :: int32
  vf_startPosition :: int32

definition top_bit :: int32 where
  "top_bit = push_bit 31 1"

definition startPosition :: "validation_frame \<Rightarrow> int32" where
  "startPosition f = vf_startPosition f AND NOT top_bit"

definition isCodeWithScope :: "validation_frame \<Rightarrow> bool" where
  "isCodeWithScope f \<longleftrightarrow> vf_startPosition f AND top_bit \<noteq> 0"

definition setStartPosition :: "int32 \<Rightarrow> validation_frame \<Rightarrow> validation_frame" where
  "setStartPosition pos f =
     f\<lparr>vf_startPosition := (vf_startPosition f AND top_bit) OR (pos AND NOT top_bit)\<rparr>"

definition setIsCodeWithScope :: "bool \<Rightarrow> validation_frame \<Rightarrow> validation_frame" where
  "setIsCodeWithScope c f =
     (if c then f\<lparr>vf_startPosition := vf_startPosition f OR top_bit\<rparr>
      else f\<lparr>vf_startPosition := vf_startPosition f AND NOT top_bit\<rparr>)"

definition empty_frame :: validation_frame where
  "empty_frame = \<lparr>vf_expectedSize = 0, vf_startPosition = 0\<rparr>"

subsection \<open>One element\<close>

type_synonym element_result = "(status \<times> validation_state \<times> bson_buffer) result"

definition skip_fixed :: "nat \<Rightarrow> validation_state \<Rightarrow> bson_buffer \<Rightarrow> element_result" where
  "skip_fixed n next b =
     (let (ok, b1) = skip (of_nat n) b in Inr (if ok then Status_OK else invalid_bson, next, b1))"

definition validate_value ::
    "BSONType option \<Rightarrow> validation_state \<Rightarrow> bson_buffer \<Rightarrow> element_result" where
  "validate_value type next b =
     (case type of
        None \<Rightarrow> Inr (Status InvalidBSON ''invalid bson type'' 0, next, b)
      | Some t \<Rightarrow>
          if t \<in> {MinKey, MaxKey, jstNULL, Undefined} then Inr (Status_OK, next, b)
          else if t = jstOID then skip_fixed 12 next b
          else if t = NumberInt then skip_fixed 4 next b
          else if t = Bool then skip_fixed 1 next b
          else if t \<in> {NumberDouble, NumberLong, Timestamp, Date} then skip_fixed 8 next b
          else if t = DBRef then
            bindE (readUTF8String b) (\<lambda>(s, b1).
              if \<not> isOK s then Inr (s, next, b1)
              else Inr (Status_OK, next, snd (skip 12 b1)))
          else if t = RegEx then
            bindE (readCString b) (\<lambda>(s, b1).
              if \<not> isOK s then Inr (s, next, b1)
              else bindE (readCString b1) (\<lambda>(s, b2). Inr (s, next, b2)))
          else if t \<in> {Code, Symbol, String} then
            bindE (readUTF8String b) (\<lambda>(s, b1). Inr (s, next, b1))
          else if t = BinData then
            bindE (readNumber 4 b) (\<lambda>(r, b1).
              case r of
                None \<Rightarrow> Inr (invalid_bson, next, b1)
              | Some bs \<Rightarrow>
                  bindE (checked32 (1 + int_of_bytes bs)) (\<lambda>n.
                    let (ok, b2) = skip (word_of_int n) b1
                    in Inr (if ok then Status_OK else invalid_bson, next, b2)))
          else if t = CodeWScope then Inr (Status_OK, BeginCodeWScope, b)
          else if t \<in> {Object, Array} then Inr (Status_OK, BeginObj, b)
          else Inr (Status InvalidBSON ''invalid bson type'' 0, next, b))"

definition validateElementInfo :: "validation_state \<Rightarrow> bson_buffer \<Rightarrow> element_result" where
  "validateElementInfo next b =
     bindE (readNumber 1 b) (\<lambda>(r, b1).
       case r of
         None \<Rightarrow> Inr (invalid_bson, next, b1)
       | Some cs \<Rightarrow>
           let type = signed_char (hd cs)
           in if type = BSONType_to_int EOO then Inr (Status_OK, EndObj, b1)
              else bindE (readCString b1) (\<lambda>(s, b2).
                if \<not> isOK s then Inr (s, next, b2)
                else validate_value (BSONType_of_int type) next b2))"

subsection \<open>The loop\<close>

record validation =
  v_buffer :: bson_buffer
  v_frames :: "validation_frame list"
  v_state :: validation_state

definition push_frame :: "bool \<Rightarrow> validation \<Rightarrow> validation" where
  "push_frame code v =
     v\<lparr>v_frames :=
        setIsCodeWithScope code
          (setStartPosition (ucast (bb_position (v_buffer v))) empty_frame) # v_frames v\<rparr>"

definition set_expectedSize :: "string \<Rightarrow> validation \<Rightarrow> validation" where
  "set_expectedSize bs v =
     v\<lparr>v_frames :=
        (hd (v_frames v))\<lparr>vf_expectedSize := word_of_nat (le_value bs)\<rparr> # tl (v_frames v)\<rparr>"

definition actualLength :: "validation \<Rightarrow> int32" where
  "actualLength v =
     ucast (bb_position (v_buffer v) - scast (startPosition (hd (v_frames v))))"

text \<open>Case \<open>WithinObj\<close> of the switch; \<open>Inl\<close> of the inner sum is a return from the function.\<close>

definition within_obj :: "validation \<Rightarrow> (status + validation) result" where
  "within_obj v =
     bindE (validateElementInfo (v_state v) (v_buffer v)) (\<lambda>(s, next, b).
       if \<not> isOK s then Inr (Inl s) else Inr (Inr (v\<lparr>v_buffer := b, v_state := next\<rparr>)))"

definition validate_step :: "validation \<Rightarrow> (status + validation) result" where
  "validate_step v =
     (case v_state v of
        BeginObj \<Rightarrow>
          let v1 = push_frame False v
          in bindE (readNumber 4 (v_buffer v1)) (\<lambda>(r, b).
               case r of
                 None \<Rightarrow> Inr (Inl (Status InvalidBSON ''bson size is larger than buffer size'' 0))
               | Some bs \<Rightarrow> within_obj ((set_expectedSize bs v1)\<lparr>v_buffer := b, v_state := WithinObj\<rparr>))
      | WithinObj \<Rightarrow> within_obj v
      | EndObj \<Rightarrow>
          (case v_frames v of
             [] \<Rightarrow> Inl UndefinedBehaviour
           | cur # frames \<Rightarrow>
               if actualLength v \<noteq> vf_expectedSize cur then
                 Inr (Inl (Status InvalidBSON ''bson length doesn't match what we found'' 0))
               else if frames = [] then Inr (Inr (v\<lparr>v_frames := frames, v_state := Done\<rparr>))
               else if isCodeWithScope (hd frames)
               then Inr (Inr (v\<lparr>v_frames := frames, v_state := EndCodeWScope\<rparr>))
               else Inr (Inr (v\<lparr>v_frames := frames, v_state := WithinObj\<rparr>)))
      | BeginCodeWScope \<Rightarrow>
          let v1 = push_frame True v
          in bindE (readNumber 4 (v_buffer v1)) (\<lambda>(r, b).
               case r of
                 None \<Rightarrow> Inr (Inl (Status InvalidBSON ''invalid bson CodeWScope size'' 0))
               | Some bs \<Rightarrow>
                   bindE (readUTF8String b) (\<lambda>(s, b1).
                     if \<not> isOK s then Inr (Inl s)
                     else Inr (Inr ((set_expectedSize bs v1)\<lparr>v_buffer := b1, v_state := BeginObj\<rparr>))))
      | EndCodeWScope \<Rightarrow>
          (case v_frames v of
             [] \<Rightarrow> Inl UndefinedBehaviour
           | cur # frames \<Rightarrow>
               if actualLength v \<noteq> vf_expectedSize cur then
                 Inr (Inl (Status InvalidBSON
                        ''bson length for CodeWScope doesn't match what we found'' 0))
               else if frames = [] then Inr (Inl (Status InvalidBSON ''unnested CodeWScope'' 0))
               else Inr (Inr (v\<lparr>v_frames := frames, v_state := WithinObj\<rparr>)))
      | Done \<Rightarrow> Inr (Inr v))"

partial_function (option) validate_loop :: "validation \<Rightarrow> status result option" where
  "validate_loop v =
     (if v_state v = Done then Some (Inr Status_OK)
      else case validate_step v of
             Inl e \<Rightarrow> Some (Inl e)
           | Inr r \<Rightarrow> (case r of Inl s \<Rightarrow> Some (Inr s) | Inr v' \<Rightarrow> validate_loop v'))"

definition validateBSONIterative :: "bson_buffer \<Rightarrow> status result option" where
  "validateBSONIterative b =
     validate_loop \<lparr>v_buffer = b, v_frames = [], v_state = BeginObj\<rparr>"

definition validateBSON :: "string \<Rightarrow> uint64 \<Rightarrow> status result option" where
  "validateBSON originalBuffer maxLength =
     (if maxLength < 5 then
        Some (Inr (Status InvalidBSON ''bson data has to be at least 5 bytes'' 0))
      else validateBSONIterative
             \<lparr>bb_bytes = originalBuffer, bb_position = 0, bb_maxLength = maxLength\<rparr>)"

end
