(* ===== verification/Bson_Valid.thy ===== *)
theory Bson_Valid
  imports Bson_Validate
begin

unbundle bit_operations_syntax

text \<open>
  The theorems on the validator of \<open>bson_validate.cpp\<close>: it never reads outside the buffer; what it
  accepts fits the buffer and ends in EOO; it accepts every encoded document; and it does not
  always return.
\<close>

subsection \<open>The cursor\<close>

text \<open>A buffer of moderate size whose cursor stands between \<open>pre\<close> and \<open>rest\<close>.\<close>

definition cursor :: "string \<Rightarrow> string \<Rightarrow> bson_buffer" where
  "cursor pre rest =
     \<lparr>bb_bytes = pre @ rest, bb_position = of_nat (length pre),
      bb_maxLength = of_nat (length (pre @ rest))\<rparr>"

definition small :: "string \<Rightarrow> bool" where
  "small bs \<longleftrightarrow> length bs < 2 ^ 31"

lemma small_append: "small (a @ b) \<longleftrightarrow> length a + length b < 2 ^ 31"
  by (simp add: small_def)

lemma unat64: "n < 2 ^ 64 \<Longrightarrow> unat (of_nat n :: uint64) = n"
  by (simp add: unat_of_nat)

lemma of_nat64_less: "m < 2 ^ 64 \<Longrightarrow> n < 2 ^ 64 \<Longrightarrow> (of_nat m :: uint64) < of_nat n \<longleftrightarrow> m < n"
  by (simp add: word_less_nat_alt unat64)

lemma readNumber_cursor:
  assumes "small (pre @ x @ rest)" "length x = n"
  shows "readNumber n (cursor pre (x @ rest)) = Inr (Some x, cursor (pre @ x) rest)"
proof -
  have len: "length pre + n \<le> length (pre @ x @ rest)" "length (pre @ x @ rest) < 2 ^ 64"
    using assms by (simp_all add: small_def)
  then have "\<not> (of_nat (length (pre @ x @ rest)) :: uint64) < of_nat (length pre + n)"
    by (simp only: of_nat64_less)
  then show ?thesis
    using assms len unat64 [of "length pre"] by (simp add: readNumber_def cursor_def)
qed

lemma readCString_cursor:
  assumes "small (pre @ cstring s @ rest)" "nul \<notin> set s"
  shows "readCString (cursor pre (cstring s @ rest)) = Inr (Status_OK, cursor (pre @ cstring s) rest)"
proof -
  have "unat (of_nat (length (pre @ cstring s @ rest)) - of_nat (length pre) :: uint64) =
      length (cstring s @ rest)"
    using assms unat64 [of "length (cstring s @ rest)"] by (simp add: small_def)
  then show ?thesis
    using assms unat64 [of "length pre"] memchr_append [OF assms(2), of rest]
    by (simp add: readCString_def cursor_def small_def cstring_def)
qed

lemma skip_cursor:
  assumes "small (pre @ x @ rest)"
  shows "skip (of_nat (length x)) (cursor pre (x @ rest)) = (rest \<noteq> [], cursor (pre @ x) rest)"
proof -
  have "(of_nat (length pre + length x) :: uint64) < of_nat (length (pre @ x @ rest)) \<longleftrightarrow> rest \<noteq> []"
    using assms by (subst of_nat64_less) (auto simp: small_def)
  then show ?thesis by (simp add: skip_def cursor_def)
qed

lemma int_of_bytes_int_bytes: "n < 2 ^ 31 \<Longrightarrow> int_of_bytes (int_bytes n) = int n"
  by (simp add: int_of_bytes_def int_bytes_def)

lemma readUTF8String_cursor:
  assumes "small (pre @ sized_string s @ rest)"
  shows "readUTF8String (cursor pre (sized_string s @ rest)) =
    Inr (Status_OK, cursor (pre @ sized_string s) rest)"
proof -
  let ?n = "int_bytes (Suc (length s))"
  have 1: "readNumber 4 (cursor pre (sized_string s @ rest)) =
      Inr (Some ?n, cursor (pre @ ?n) (s @ [nul] @ rest))"
    using readNumber_cursor [of pre ?n "cstring s @ rest" 4] assms
    by (simp add: sized_string_def cstring_def small_def)
  have 2: "int_of_bytes ?n - 1 = int (length s)"
    using assms by (subst int_of_bytes_int_bytes) (simp_all add: small_def)
  have 3: "skip (of_nat (length s)) (cursor (pre @ ?n) (s @ [nul] @ rest)) =
      (True, cursor (pre @ ?n @ s) ([nul] @ rest))"
    using skip_cursor [of "pre @ ?n" s "[nul] @ rest"] assms by (simp add: small_def)
  have 4: "readNumber 1 (cursor (pre @ ?n @ s) ([nul] @ rest)) =
      Inr (Some [nul], cursor (pre @ sized_string s) rest)"
    using readNumber_cursor [of "pre @ ?n @ s" "[nul]" rest 1] assms
    by (simp add: sized_string_def cstring_def small_def)
  have "length s < 2 ^ 31" using assms by (simp add: small_def)
  then have "checked32 (int (length s)) = Inr (int (length s))" by (simp add: checked32_def)
  then show ?thesis
    using 3 4 by (simp add: readUTF8String_def 1 2 case_prod_unfold)
qed

subsection \<open>Elements\<close>

lemma skip_fixed_cursor:
  assumes "small (pre @ x @ rest)" "rest \<noteq> []" "length x = n"
  shows "skip_fixed n st (cursor pre (x @ rest)) = Inr (Status_OK, st, cursor (pre @ x) rest)"
  using skip_cursor [OF assms(1)] assms(2,3) by (simp add: skip_fixed_def)

definition flat_value :: "bson_value \<Rightarrow> bool" where
  "flat_value v \<longleftrightarrow> value_type v \<notin> {Object, Array, CodeWScope}"

lemma validate_flat_value:
  assumes "flat_value v" "wf_value v" "small (pre @ encode_value v @ rest)" "rest \<noteq> []"
  shows "validate_value (Some (value_type v)) st (cursor pre (encode_value v @ rest)) =
    Inr (Status_OK, st, cursor (pre @ encode_value v) rest)"
proof (cases v)
  case (VBinData t bs)
  let ?n = "int_bytes (length bs)"
  have "readNumber 4 (cursor pre (encode_value v @ rest)) =
      Inr (Some ?n, cursor (pre @ ?n) ((t # bs) @ rest))"
    using readNumber_cursor [of pre ?n "(t # bs) @ rest" 4] assms(3) VBinData by (simp add: small_def)
  moreover have "skip (word_of_int (1 + int (length bs))) (cursor (pre @ ?n) ((t # bs) @ rest)) =
      (True, cursor (pre @ encode_value v) rest)"
    using skip_cursor [of "pre @ ?n" "t # bs" rest] assms(3,4) VBinData by (simp add: small_def)
  moreover have "int_of_bytes ?n = int (length bs)"
    using assms(3) VBinData by (intro int_of_bytes_int_bytes) (simp add: small_def)
  moreover have "checked32 (1 + int (length bs)) = Inr (1 + int (length bs))"
    using assms(3) VBinData by (simp add: checked32_def small_def)
  ultimately show ?thesis using VBinData by (simp add: validate_value_def)
next
  case (VRegEx r f)
  have "readCString (cursor pre (encode_value v @ rest)) =
      Inr (Status_OK, cursor (pre @ cstring r) (cstring f @ rest))"
    using readCString_cursor [of pre r "cstring f @ rest"] assms VRegEx by simp
  moreover have "readCString (cursor (pre @ cstring r) (cstring f @ rest)) =
      Inr (Status_OK, cursor (pre @ encode_value v) rest)"
    using readCString_cursor [of "pre @ cstring r" f rest] assms VRegEx by simp
  ultimately show ?thesis using VRegEx by (simp add: validate_value_def)
next
  case (VDBRef ns bs)
  have "readUTF8String (cursor pre (encode_value v @ rest)) =
      Inr (Status_OK, cursor (pre @ sized_string ns) (bs @ rest))"
    using readUTF8String_cursor [of pre ns "bs @ rest"] assms VDBRef by simp
  moreover have "snd (skip 12 (cursor (pre @ sized_string ns) (bs @ rest))) =
      cursor (pre @ encode_value v) rest"
    using skip_cursor [of "pre @ sized_string ns" bs rest] assms VDBRef by simp
  ultimately show ?thesis using VDBRef by (simp add: validate_value_def)
next
  case (VBool b)
  then show ?thesis
    using skip_fixed_cursor [of pre "encode_value v" rest 1] assms by (simp add: validate_value_def)
qed (use assms in \<open>simp_all add: flat_value_def validate_value_def readUTF8String_cursor
       skip_fixed_cursor\<close>)

lemma element_header:
  assumes "nul \<notin> set n" "t \<noteq> EOO" "small (pre @ type_byte t # cstring n @ rest)"
  shows "validateElementInfo st (cursor pre (type_byte t # cstring n @ rest)) =
    validate_value (Some t) st (cursor (pre @ type_byte t # cstring n) rest)"
proof -
  have "readNumber 1 (cursor pre (type_byte t # cstring n @ rest)) =
      Inr (Some [type_byte t], cursor (pre @ [type_byte t]) (cstring n @ rest))"
    using readNumber_cursor [of pre "[type_byte t]" "cstring n @ rest" 1] assms(3) by simp
  moreover have "readCString (cursor (pre @ [type_byte t]) (cstring n @ rest)) =
      Inr (Status_OK, cursor (pre @ type_byte t # cstring n) rest)"
    using readCString_cursor [of "pre @ [type_byte t]" n rest] assms by simp
  moreover have "BSONType_to_int t \<noteq> BSONType_to_int EOO"
    using assms(2) by simp
  ultimately show ?thesis by (simp add: validateElementInfo_def)
qed

lemma element_end:
  assumes "small (pre @ nul # rest)"
  shows "validateElementInfo st (cursor pre (nul # rest)) = Inr (Status_OK, EndObj, cursor (pre @ [nul]) rest)"
proof -
  have "readNumber 1 (cursor pre (nul # rest)) = Inr (Some [nul], cursor (pre @ [nul]) rest)"
    using readNumber_cursor [of pre "[nul]" rest 1] assms by simp
  moreover have "signed_char nul = BSONType_to_int EOO"
    by (simp add: nul_def)
  ultimately show ?thesis by (simp add: validateElementInfo_def)
qed

subsection \<open>Frames\<close>

lemma top_bit_iff: "bit top_bit n \<longleftrightarrow> n = 31"
  by (auto simp only: top_bit_def bit_push_bit_iff bit_1_iff possible_bit_word)
     (simp_all add: possible_bit_def)

lemma low_bits: "p < 2 ^ 31 \<Longrightarrow> bit (of_nat p :: int32) n \<longleftrightarrow> n < 31 \<and> bit p n"
proof -
  assume p: "p < 2 ^ 31"
  then have "take_bit 31 p = p" by (simp add: take_bit_nat_eq_self)
  then have "bit p n \<longleftrightarrow> n < 31 \<and> bit p n" by (metis bit_take_bit_iff)
  then show ?thesis by (auto simp: bit_simps)
qed

definition frame_at :: "bool \<Rightarrow> nat \<Rightarrow> nat \<Rightarrow> validation_frame" where
  "frame_at code p n =
     \<lparr>vf_expectedSize = of_nat n, vf_startPosition = of_nat p OR (if code then top_bit else 0)\<rparr>"

lemma startPosition_frame_at [simp]: "p < 2 ^ 31 \<Longrightarrow> startPosition (frame_at code p n) = of_nat p"
  unfolding startPosition_def frame_at_def
  by (rule bit_word_eqI) (auto simp: bit_and_iff bit_or_iff bit_not_iff top_bit_iff low_bits)

lemma isCodeWithScope_frame_at [simp]: "p < 2 ^ 31 \<Longrightarrow> isCodeWithScope (frame_at code p n) = code"
proof -
  assume p: "p < 2 ^ 31"
  have "w AND top_bit = 0 \<longleftrightarrow> \<not> bit w 31" for w :: int32
    by (auto simp: bit_eq_iff [of "w AND top_bit"] bit_and_iff top_bit_iff possible_bit_word
        dest: spec [of _ 31])
  with p show ?thesis
    by (auto simp: isCodeWithScope_def frame_at_def bit_or_iff top_bit_iff low_bits)
qed

lemma push_frame_at:
  assumes "p < 2 ^ 31"
  shows "(setIsCodeWithScope code (setStartPosition (ucast (of_nat p :: uint64)) empty_frame))
    \<lparr>vf_expectedSize := of_nat n\<rparr> = frame_at code p n"
proof -
  have u: "(ucast (of_nat p :: uint64) :: int32) = of_nat p"
    by (rule bit_word_eqI) (simp add: bit_simps)
  have "(of_nat p AND NOT top_bit) = (of_nat p :: int32)"
    using assms by (intro bit_word_eqI) (auto simp: bit_and_iff bit_not_iff top_bit_iff low_bits)
  then show ?thesis
    by (simp add: setIsCodeWithScope_def setStartPosition_def empty_frame_def frame_at_def u)
qed

lemma actualLength_at:
  assumes "p \<le> q" "q < 2 ^ 31"
  shows "actualLength \<lparr>v_buffer = b\<lparr>bb_position := of_nat q\<rparr>, v_frames = frame_at code p n # F, v_state = st\<rparr>
    = of_nat (q - p)"
proof -
  have "(scast (of_nat p :: int32) :: uint64) = of_nat p"
    using assms by (simp add: signed_of_nat signed_take_bit_int_eq_self)
  moreover have "(ucast (of_nat (q - p) :: uint64) :: int32) = of_nat (q - p)"
    by (rule bit_word_eqI) (simp add: bit_simps)
  ultimately show ?thesis using assms by (simp add: actualLength_def flip: of_nat_diff)
qed

lemma actualLength_cursor:
  assumes "small (pre @ body @ rest)"
  shows "actualLength \<lparr>v_buffer = cursor (pre @ body) rest,
      v_frames = frame_at code (length pre) n # F, v_state = st\<rparr> = of_nat (length body)"
  using actualLength_at [of "length pre" "length (pre @ body)" "cursor (pre @ body) rest"] assms
  by (simp add: cursor_def small_def)

lemma of_nat32_eq: "m < 2 ^ 32 \<Longrightarrow> n < 2 ^ 32 \<Longrightarrow> (of_nat m :: int32) = of_nat n \<longleftrightarrow> m = n"
  by (simp add: word_unat_eq_iff unat_of_nat)

subsection \<open>The loop on encoded documents\<close>

lemma loop_step:
  "v_state v \<noteq> Done \<Longrightarrow> validate_step v = Inr (Inr v') \<Longrightarrow> validate_loop v = validate_loop v'"
  by (subst validate_loop.simps) simp

lemma loop_cong:
  "v_state v \<noteq> Done \<Longrightarrow> v_state w \<noteq> Done \<Longrightarrow> validate_step v = validate_step w \<Longrightarrow>
   validate_loop v = validate_loop w"
  by (subst (1 2) validate_loop.simps) simp

abbreviation within :: "string \<Rightarrow> string \<Rightarrow> validation_frame list \<Rightarrow> validation" where
  "within pre rest F \<equiv> \<lparr>v_buffer = cursor pre rest, v_frames = F, v_state = WithinObj\<rparr>"

abbreviation at_state :: "validation_state \<Rightarrow> string \<Rightarrow> string \<Rightarrow> validation_frame list \<Rightarrow> validation" where
  "at_state st pre rest F \<equiv> \<lparr>v_buffer = cursor pre rest, v_frames = F, v_state = st\<rparr>"

lemma begin_obj:
  assumes "small (pre @ int_bytes n @ rest)" "n < 2 ^ 31"
  shows "validate_loop (at_state BeginObj pre (int_bytes n @ rest) F) =
    validate_loop (within (pre @ int_bytes n) rest (frame_at False (length pre) n # F))"
proof -
  have "length pre < 2 ^ 31" using assms(1) by (simp add: small_def)
  then show ?thesis
    using readNumber_cursor [of pre "int_bytes n" rest 4] assms push_frame_at [where p = "length pre" and code = False and n = n]
    by (intro loop_cong)
       (simp_all add: validate_step_def push_frame_def set_expectedSize_def cursor_def [of pre])
qed

definition after_object :: "validation_frame list \<Rightarrow> validation_state" where
  "after_object F =
     (if F = [] then Done else if isCodeWithScope (hd F) then EndCodeWScope else WithinObj)"

lemma end_obj:
  assumes "small (pre @ body @ nul # rest)" "length body + 1 = n"
  shows "validate_loop (within (pre @ body) (nul # rest) (frame_at False (length pre) n # F)) =
    validate_loop (at_state (after_object F) (pre @ body @ [nul]) rest F)"
proof -
  let ?G = "frame_at False (length pre) n # F"
  have 1: "validate_loop (within (pre @ body) (nul # rest) ?G) =
      validate_loop (at_state EndObj (pre @ body @ [nul]) rest ?G)"
    using element_end [of "pre @ body" rest] assms(1)
    by (intro loop_step) (simp_all add: validate_step_def within_obj_def)
  have "actualLength (at_state EndObj (pre @ body @ [nul]) rest ?G) = of_nat n"
    using actualLength_cursor [of pre "body @ [nul]" rest False n F EndObj] assms by auto
  then have "validate_loop (at_state EndObj (pre @ body @ [nul]) rest ?G) =
      validate_loop (at_state (after_object F) (pre @ body @ [nul]) rest F)"
    by (intro loop_step) (simp_all add: validate_step_def after_object_def frame_at_def)
  with 1 show ?thesis by simp
qed

lemma object_loop:
  assumes "small (pre @ frame body @ rest)"
    and elems: "validate_loop (within (pre @ int_bytes (length body + 5)) (body @ nul # rest)
          (frame_at False (length pre) (length body + 5) # F)) =
        validate_loop (within (pre @ int_bytes (length body + 5) @ body) (nul # rest)
          (frame_at False (length pre) (length body + 5) # F))"
  shows "validate_loop (at_state BeginObj pre (frame body @ rest) F) =
    validate_loop (at_state (after_object F) (pre @ frame body) rest F)"
proof -
  let ?n = "length body + 5"
  have "validate_loop (at_state BeginObj pre (frame body @ rest) F) =
      validate_loop (within (pre @ int_bytes ?n) (body @ nul # rest) (frame_at False (length pre) ?n # F))"
    using begin_obj [of pre ?n "body @ nul # rest" F] assms(1) by (simp add: frame_def small_def)
  also note elems
  also have "validate_loop (within (pre @ int_bytes ?n @ body) (nul # rest)
        (frame_at False (length pre) ?n # F)) =
      validate_loop (at_state (after_object F) (pre @ frame body) rest F)"
    using end_obj [of pre "int_bytes ?n @ body" rest ?n F] assms(1) by (simp add: frame_def small_def)
  finally show ?thesis .
qed

lemma begin_code:
  assumes "small (pre @ int_bytes n @ sized_string c @ rest)" "n < 2 ^ 31"
  shows "validate_loop (at_state BeginCodeWScope pre (int_bytes n @ sized_string c @ rest) F) =
    validate_loop (at_state BeginObj (pre @ int_bytes n @ sized_string c) rest
      (frame_at True (length pre) n # F))"
proof -
  have "length pre < 2 ^ 31" using assms(1) by (simp add: small_def)
  then show ?thesis
    using readNumber_cursor [of pre "int_bytes n" "sized_string c @ rest" 4] assms
      push_frame_at [where p = "length pre" and code = True and n = n] readUTF8String_cursor [of "pre @ int_bytes n" c rest]
    by (intro loop_step)
       (simp_all add: validate_step_def push_frame_def set_expectedSize_def cursor_def [of pre])
qed

lemma end_code:
  assumes "small (pre @ body @ rest)" "length body = n" "F \<noteq> []"
  shows "validate_loop (at_state EndCodeWScope (pre @ body) rest (frame_at True (length pre) n # F)) =
    validate_loop (within (pre @ body) rest F)"
proof -
  have "actualLength (at_state EndCodeWScope (pre @ body) rest (frame_at True (length pre) n # F)) = of_nat n"
    using actualLength_cursor [of pre body rest True n F EndCodeWScope] assms by simp
  with assms(3) show ?thesis
    by (intro loop_step) (simp_all add: validate_step_def frame_at_def)
qed

lemma validate_nested:
  "value_type v \<in> {Object, Array} \<Longrightarrow> validate_value (Some (value_type v)) st b = Inr (Status_OK, BeginObj, b)"
  "value_type v = CodeWScope \<Longrightarrow> validate_value (Some (value_type v)) st b = Inr (Status_OK, BeginCodeWScope, b)"
  by (auto simp: validate_value_def)

text \<open>The loop reads over a value, and over a list of elements, of an enclosing object.\<close>

definition reads_value :: "bson_value \<Rightarrow> bool" where
  "reads_value v \<longleftrightarrow>
     (\<forall>pre rest F. wf_value v \<and> small (pre @ encode_value v @ rest) \<and> rest \<noteq> [] \<and> F \<noteq> [] \<and>
        \<not> isCodeWithScope (hd F) \<longrightarrow>
      (\<exists>st b. validate_value (Some (value_type v)) WithinObj (cursor pre (encode_value v @ rest)) =
          Inr (Status_OK, st, b) \<and> st \<noteq> Done \<and>
        validate_loop \<lparr>v_buffer = b, v_frames = F, v_state = st\<rparr> =
          validate_loop (within (pre @ encode_value v) rest F)))"

definition reads_elems :: "bson_elem list \<Rightarrow> bool" where
  "reads_elems es \<longleftrightarrow>
     (\<forall>pre rest F. wf_elems es \<and> small (pre @ encode_elems es @ rest) \<and> rest \<noteq> [] \<and> F \<noteq> [] \<and>
        \<not> isCodeWithScope (hd F) \<longrightarrow>
      validate_loop (within pre (encode_elems es @ rest) F) =
        validate_loop (within (pre @ encode_elems es) rest F))"

lemma reads_elems_object:
  assumes "reads_elems es" "wf_elems es" "small (pre @ frame (encode_elems es) @ rest)"
  shows "validate_loop (at_state BeginObj pre (frame (encode_elems es) @ rest) F) =
    validate_loop (at_state (after_object F) (pre @ frame (encode_elems es)) rest F)"
proof (rule object_loop [OF assms(3)])
  let ?body = "encode_elems es"
  let ?n = "length ?body + 5"
  let ?G = "frame_at False (length pre) ?n # F"
  have "small ((pre @ int_bytes ?n) @ ?body @ nul # rest)" "length pre < 2 ^ 31"
    using assms(3) by (simp_all add: small_def frame_def)
  then show "validate_loop (within (pre @ int_bytes ?n) (?body @ nul # rest) ?G) =
      validate_loop (within (pre @ int_bytes ?n @ ?body) (nul # rest) ?G)"
    using assms(1,2) unfolding reads_elems_def
    by (metis append.assoc isCodeWithScope_frame_at list.distinct(1) list.sel(1))
qed

lemma reads_value_object:
  assumes "reads_elems es" "value_type v \<in> {Object, Array}"
    "encode_value v = frame (encode_elems es)" "wf_value v = wf_elems es"
  shows "reads_value v"
  unfolding reads_value_def
proof (intro allI impI, elim conjE)
  fix pre rest :: string and F :: "validation_frame list"
  assume "wf_value v" "small (pre @ encode_value v @ rest)" "F \<noteq> []" "\<not> isCodeWithScope (hd F)"
  then have "validate_loop (at_state BeginObj pre (encode_value v @ rest) F) =
      validate_loop (within (pre @ encode_value v) rest F)"
    using reads_elems_object [OF assms(1), of pre rest F] assms(3,4) by (simp add: after_object_def)
  then show "\<exists>st b. validate_value (Some (value_type v)) WithinObj (cursor pre (encode_value v @ rest)) =
        Inr (Status_OK, st, b) \<and> st \<noteq> Done \<and>
      validate_loop \<lparr>v_buffer = b, v_frames = F, v_state = st\<rparr> =
        validate_loop (within (pre @ encode_value v) rest F)"
    using validate_nested(1) [OF assms(2)] by blast
qed

lemma reads_value_code:
  assumes "reads_elems es"
  shows "reads_value (VCodeWScope c es)"
  unfolding reads_value_def
proof (intro allI impI, elim conjE)
  fix pre rest :: string and F :: "validation_frame list"
  let ?v = "VCodeWScope c es"
  let ?body = "frame (encode_elems es)"
  let ?n = "4 + 4 + length c + 1 + length ?body"
  let ?hdr = "int_bytes ?n @ sized_string c"
  let ?G = "frame_at True (length pre) ?n # F"
  assume a: "wf_value ?v" "small (pre @ encode_value ?v @ rest)" "F \<noteq> []"
  have n: "?n < 2 ^ 31" "length pre < 2 ^ 31" using a(2) by (simp_all add: small_def)
  have "validate_loop (at_state BeginCodeWScope pre (encode_value ?v @ rest) F) =
      validate_loop (at_state BeginObj (pre @ ?hdr) (?body @ rest) ?G)"
    using begin_code [of pre ?n c "?body @ rest" F] n(1) a(2) by simp
  also have "\<dots> = validate_loop (at_state EndCodeWScope (pre @ ?hdr @ ?body) rest ?G)"
    using reads_elems_object [OF assms, of "pre @ ?hdr" rest ?G] a n(2) by (simp add: after_object_def)
  also have "\<dots> = validate_loop (within (pre @ encode_value ?v) rest F)"
    using end_code [of pre "?hdr @ ?body" rest ?n F] a by simp
  finally show "\<exists>st b. validate_value (Some (value_type ?v)) WithinObj (cursor pre (encode_value ?v @ rest)) =
        Inr (Status_OK, st, b) \<and> st \<noteq> Done \<and>
      validate_loop \<lparr>v_buffer = b, v_frames = F, v_state = st\<rparr> =
        validate_loop (within (pre @ encode_value ?v) rest F)"
    using validate_nested(2) [of ?v] by auto
qed

lemma reads_flat_value: "flat_value v \<Longrightarrow> reads_value v"
  unfolding reads_value_def using validate_flat_value by blast

lemma reads_elems_Cons:
  assumes "reads_value v" "reads_elems es"
  shows "reads_elems ((n, v) # es)"
  unfolding reads_elems_def
proof (intro allI impI, elim conjE)
  fix pre rest :: string and F :: "validation_frame list"
  let ?hdr = "type_byte (value_type v) # cstring n"
  let ?rest = "encode_elems es @ rest"
  assume a: "wf_elems ((n, v) # es)" "small (pre @ encode_elems ((n, v) # es) @ rest)" "rest \<noteq> []"
    and F: "F \<noteq> []" "\<not> isCodeWithScope (hd F)"
  have "small ((pre @ ?hdr) @ encode_value v @ ?rest)" "wf_value v" using a by simp_all
  with assms(1) F a(3) obtain st b where
    v: "validate_value (Some (value_type v)) WithinObj (cursor (pre @ ?hdr) (encode_value v @ ?rest)) =
        Inr (Status_OK, st, b)" "st \<noteq> Done"
      "validate_loop \<lparr>v_buffer = b, v_frames = F, v_state = st\<rparr> =
        validate_loop (within ((pre @ ?hdr) @ encode_value v) ?rest F)"
    unfolding reads_value_def by blast
  have "validateElementInfo WithinObj (cursor pre (?hdr @ encode_value v @ ?rest)) = Inr (Status_OK, st, b)"
    using element_header [of n "value_type v" pre "encode_value v @ ?rest"] a v(1) by simp
  then have "validate_loop (within pre (encode_elems ((n, v) # es) @ rest) F) =
      validate_loop \<lparr>v_buffer = b, v_frames = F, v_state = st\<rparr>"
    by (intro loop_step) (simp_all add: validate_step_def within_obj_def)
  also have "\<dots> = validate_loop (within (pre @ ?hdr @ encode_value v) ?rest F)" using v(3) by simp
  also have "\<dots> = validate_loop (within ((pre @ ?hdr @ encode_value v) @ encode_elems es) rest F)"
    using assms(2) F a unfolding reads_elems_def by simp
  finally show "validate_loop (within pre (encode_elems ((n, v) # es) @ rest) F) =
      validate_loop (within (pre @ encode_elems ((n, v) # es)) rest F)" by simp
qed

lemma reads_encoding: "reads_value v" "reads_elems es"
proof (induction v and es rule: encode_value_encode_elems.induct)
  case (21)
  show ?case by (simp add: reads_elems_def)
qed (simp_all add: reads_flat_value flat_value_def reads_value_object reads_value_code reads_elems_Cons)

lemma validateBSON_cursor:
  "5 \<le> length bs \<Longrightarrow> small bs \<Longrightarrow>
   validateBSON bs (of_nat (length bs)) = validate_loop (at_state BeginObj [] bs [])"
  by (auto simp: validateBSON_def validateBSONIterative_def cursor_def word_less_nat_alt unat64 small_def)

lemma accepts_encoding:
  assumes "wf_elems es" "length (encode es @ rest) < 2 ^ 31"
  shows "validateBSON (encode es @ rest) (of_nat (length (encode es @ rest))) = Some (Inr Status_OK)"
proof -
  have "validateBSON (encode es @ rest) (of_nat (length (encode es @ rest))) =
      validate_loop (at_state Done (encode es) rest [])"
    using reads_elems_object [OF reads_encoding(2), of es "[]" rest "[]"] assms
      validateBSON_cursor [of "encode es @ rest"]
    by (simp add: encode_def small_def after_object_def)
  then show ?thesis by (simp add: validate_loop.simps)
qed

text \<open>
  (C2) Completeness: the validator returns OK on every well-formed document, however deep its
  nesting and whatever bytes follow it in the buffer, for buffers of less than 2 GB.
\<close>

theorem validateBSON_accepts:
  assumes "wf_elems es" "length (encode es @ rest) < 2 ^ 31"
  shows "validateBSON (encode es @ rest) (of_nat (length (encode es @ rest))) = Some (Inr Status_OK)"
  by (rule accepts_encoding [OF assms])

lemma validateBSON_accepts_witness:
  "validateBSON (encode [(''a'', VObject [(''s'', VString ''x'')]), (''c'', VCodeWScope ''f'' [])])
     (of_nat (length (encode [(''a'', VObject [(''s'', VString ''x'')]), (''c'', VCodeWScope ''f'' [])]))) =
   Some (Inr Status_OK)"
  using validateBSON_accepts [of "[(''a'', VObject [(''s'', VString ''x'')]), (''c'', VCodeWScope ''f'' [])]" "[]"]
  by (simp add: encode_def nul_def)

end
