(* ===== verification/Bson_Safety.thy ===== *)
theory Bson_Safety
  imports Bson_Valid
begin

text \<open>
  Memory safety of the validator on arbitrary bytes, what acceptance guarantees, and the inputs on
  which it misbehaves: a negative string length moves the cursor backwards.
\<close>

subsection \<open>The buffer\<close>

text \<open>
  The caller's contract: \<open>maxLength\<close> bytes can be read. The cursor may stand up to twelve bytes
  behind the end, because the skip over the object id of a DBRef is not checked.
\<close>

definition buffer_ok :: "string \<Rightarrow> bson_buffer \<Rightarrow> bool" where
  "buffer_ok bs b \<longleftrightarrow>
     bb_bytes b = bs \<and> unat (bb_maxLength b) = length bs \<and> length bs < 2 ^ 31 \<and>
     unat (bb_position b) \<le> length bs + 12"

definition inside :: "string \<Rightarrow> bson_buffer \<Rightarrow> bool" where
  "inside bs b \<longleftrightarrow> buffer_ok bs b \<and> unat (bb_position b) \<le> length bs"

lemma unat_add_small: "unat (x :: uint64) < 2 ^ 32 \<Longrightarrow> n < 2 ^ 32 \<Longrightarrow> unat (x + of_nat n) = unat x + n"
  using unat64 [of "unat x + n"] by (simp add: word_unat_eq_iff)

lemma readNumber_safe:
  assumes "buffer_ok bs b" "n \<le> 4"
  shows "readNumber n b = Inr (None, b) \<or>
    (unat (bb_position b) + n \<le> length bs \<and>
     readNumber n b = Inr (Some (take n (drop (unat (bb_position b)) bs)),
       b\<lparr>bb_position := bb_position b + of_nat n\<rparr>) \<and>
     inside bs (b\<lparr>bb_position := bb_position b + of_nat n\<rparr>) \<and>
     unat (bb_position b + of_nat n) = unat (bb_position b) + n)"
proof -
  have u: "unat (bb_position b + of_nat n) = unat (bb_position b) + n"
    using assms by (intro unat_add_small) (auto simp: buffer_ok_def)
  show ?thesis
    using assms u by (auto simp: readNumber_def inside_def buffer_ok_def word_less_nat_alt)
qed

lemma readCString_safe:
  assumes "inside bs b"
  shows "\<exists>s b'. readCString b = Inr (s, b') \<and> inside bs b'"
proof -
  let ?p = "unat (bb_position b)"
  have n: "unat (bb_maxLength b - bb_position b) = length bs - ?p"
    using assms by (subst unat_sub) (auto simp: inside_def buffer_ok_def word_le_nat_alt)
  have mem: "bb_bytes b = bs" "?p \<le> length bs" using assms by (auto simp: inside_def buffer_ok_def)
  then have win: "take (length bs - ?p) (drop ?p (bb_bytes b)) = drop ?p bs" by simp
  show ?thesis
  proof (cases "memchr (drop ?p bs) nul")
    case None
    then have "readCString b = Inr (Status InvalidBSON ''no end of c-string'' 0, b)"
      using mem by (simp add: readCString_def n win)
    with assms show ?thesis by blast
  next
    case (Some len)
    then have len: "len < length bs - ?p" by (auto simp: memchr_Some_iff)
    let ?b = "b\<lparr>bb_position := bb_position b + of_nat (Suc len)\<rparr>"
    have "unat (bb_position b + of_nat (Suc len)) = ?p + Suc len"
      using len assms by (intro unat_add_small) (auto simp: inside_def buffer_ok_def)
    then have "inside bs ?b" using assms len by (auto simp: inside_def buffer_ok_def)
    moreover have "readCString b = Inr (Status_OK, ?b)"
      using Some by (simp add: readCString_def n win ac_simps)
    ultimately show ?thesis by blast
  qed
qed

lemma skip_safe: "buffer_ok bs b \<Longrightarrow> skip n b = (True, b') \<Longrightarrow> inside bs b' \<and> unat (bb_position b') < length bs"
  by (auto simp: skip_def inside_def buffer_ok_def word_less_nat_alt)

lemma readUTF8String_safe:
  assumes "buffer_ok bs b"
  shows "readUTF8String b = Inl SignedOverflow \<or>
    (\<exists>s b'. readUTF8String b = Inr (s, b') \<and> (isOK s \<longrightarrow> inside bs b'))"
proof -
  have inv: "\<not> isOK invalid_bson" by (simp add: invalid_bson_def)
  from readNumber_safe [OF assms, of 4, OF order_refl] show ?thesis
  proof (elim disjE conjE)
    let ?b1 = "b\<lparr>bb_position := bb_position b + of_nat 4\<rparr>"
    let ?bs = "take 4 (drop (unat (bb_position b)) bs)"
    assume r1: "readNumber 4 b = Inr (Some ?bs, ?b1)" "inside bs ?b1"
    show ?thesis
    proof (cases "checked32 (int_of_bytes ?bs - 1)")
      case (Inl e)
      with r1 show ?thesis by (auto simp: readUTF8String_def checked32_def split: if_splits)
    next
      case (Inr n)
      obtain ok b2 where b2: "skip (word_of_int n) ?b1 = (ok, b2)" by fastforce
      show ?thesis
      proof (cases ok)
        case False
        with r1 Inr b2 inv show ?thesis by (simp add: readUTF8String_def)
      next
        case True
        with b2 r1 have "buffer_ok bs b2" using skip_safe [of bs ?b1] by (auto simp: inside_def)
        from readNumber_safe [OF this, of 1] True r1 Inr b2 inv show ?thesis
          by (cases "take 1 (drop (unat (bb_position b2)) bs) = [nul]") (auto simp: readUTF8String_def)
      qed
    qed
  qed (use inv in \<open>simp add: readUTF8String_def\<close>)
qed

subsection \<open>One element\<close>

text \<open>The outcomes of an element that keep the loop safe.\<close>

fun element_ok :: "string \<Rightarrow> validation_state set \<Rightarrow> element_result \<Rightarrow> bool" where
  "element_ok bs S (Inl e) \<longleftrightarrow> e = SignedOverflow"
| "element_ok bs S (Inr (s, next, b)) \<longleftrightarrow> isOK s \<longrightarrow> buffer_ok bs b \<and> next \<in> S"

lemma skip_fixed_ok: "buffer_ok bs b \<Longrightarrow> st \<in> S \<Longrightarrow> element_ok bs S (skip_fixed n st b)"
  using skip_safe [of bs b "of_nat n"]
  by (cases "skip (of_nat n) b") (auto simp: skip_fixed_def inside_def invalid_bson_def)

lemma validate_value_ok:
  assumes "inside bs b"
  shows "element_ok bs {WithinObj, BeginObj, BeginCodeWScope} (validate_value t WithinObj b)"
proof (cases t)
  case None
  then show ?thesis by (simp add: validate_value_def)
next
  case (Some ty)
  have b: "buffer_ok bs b" using assms by (simp add: inside_def)
  note utf8 = readUTF8String_safe [OF b]
  show ?thesis
  proof (cases "ty \<in> {DBRef, RegEx, BinData}")
    case False
    with Some b utf8 show ?thesis
      by (cases ty) (auto simp: validate_value_def skip_fixed_ok inside_def)
  next
    case True
    then consider "ty = DBRef" | "ty = RegEx" | "ty = BinData" by auto
    then show ?thesis
    proof cases
      case 1
      have "isOK s \<Longrightarrow> inside bs b1 \<Longrightarrow> buffer_ok bs (snd (skip 12 b1))" for s b1
        using unat_add_small [of "bb_position b1" 12] by (auto simp: skip_def inside_def buffer_ok_def)
      with 1 Some utf8 show ?thesis by (auto simp: validate_value_def)
    next
      case 2
      from readCString_safe [OF assms] obtain s b1 where
        1: "readCString b = Inr (s, b1)" "inside bs b1" by blast
      from readCString_safe [OF this(2)] obtain s2 b2 where
        "readCString b1 = Inr (s2, b2)" "inside bs b2" by blast
      with 1 2 Some show ?thesis by (auto simp: validate_value_def inside_def)
    next
      case 3
      let ?b1 = "b\<lparr>bb_position := bb_position b + of_nat 4\<rparr>"
      have skips: "element_ok bs {WithinObj, BeginObj, BeginCodeWScope}
          (case skip n ?b1 of (ok, b2) \<Rightarrow> Inr (if ok then Status_OK else invalid_bson, WithinObj, b2))"
        if "inside bs ?b1" for n
        using that skip_safe [of bs ?b1 n] by (auto simp: inside_def invalid_bson_def split: prod.splits)
      from readNumber_safe [OF b, of 4, OF order_refl] show ?thesis
      proof (elim disjE conjE)
        let ?bs = "take 4 (drop (unat (bb_position b)) bs)"
        assume r: "readNumber 4 b = Inr (Some ?bs, ?b1)" "inside bs ?b1"
        show ?thesis
          by (cases "checked32 (1 + int_of_bytes ?bs)")
             (use 3 Some r skips in \<open>auto simp: validate_value_def checked32_def split: if_splits\<close>)
      qed (use 3 Some in \<open>simp add: validate_value_def invalid_bson_def\<close>)
    qed
  qed
qed

lemma validateElementInfo_ok:
  assumes "buffer_ok bs b"
  shows "element_ok bs {WithinObj, BeginObj, BeginCodeWScope, EndObj} (validateElementInfo WithinObj b)"
    and "validateElementInfo WithinObj b = Inr (s, EndObj, b') \<Longrightarrow>
      isOK s \<and> inside bs b' \<and> 0 < unat (bb_position b') \<and> bs ! (unat (bb_position b') - 1) = nul"
proof -
  let ?p = "unat (bb_position b)"
  let ?b1 = "b\<lparr>bb_position := bb_position b + of_nat 1\<rparr>"
  have inv: "\<not> isOK invalid_bson" by (simp add: invalid_bson_def)
  have "element_ok bs {WithinObj, BeginObj, BeginCodeWScope, EndObj} (validateElementInfo WithinObj b) \<and>
    (validateElementInfo WithinObj b = Inr (s, EndObj, b') \<longrightarrow>
      isOK s \<and> inside bs b' \<and> 0 < unat (bb_position b') \<and> bs ! (unat (bb_position b') - 1) = nul)"
    using readNumber_safe [OF assms, of 1, OF one_le_numeral]
  proof (elim disjE conjE)
    let ?cs = "take 1 (drop ?p bs)"
    assume r: "readNumber 1 b = Inr (Some ?cs, ?b1)" "inside bs ?b1" "?p + 1 \<le> length bs"
      "unat (bb_position b + of_nat 1) = ?p + 1"
    then have cs: "hd ?cs = bs ! ?p" by (simp add: hd_drop_conv_nth take_Suc)
    show ?thesis
    proof (cases "signed_char (bs ! ?p) = 0")
      case True
      with r cs show ?thesis by (auto simp: validateElementInfo_def inside_def nul_def)
    next
      case False
      from readCString_safe [OF r(2)] obtain s1 b2 where
        c: "readCString ?b1 = Inr (s1, b2)" "inside bs b2" by blast
      from validate_value_ok [OF this(2), of "BSONType_of_int (signed_char (bs ! ?p))"]
      have v: "element_ok bs {WithinObj, BeginObj, BeginCodeWScope}
          (validate_value (BSONType_of_int (signed_char (bs ! ?p))) WithinObj b2)" .
      have e: "validateElementInfo WithinObj b = (if \<not> isOK s1 then Inr (s1, WithinObj, b2)
          else validate_value (BSONType_of_int (signed_char (bs ! ?p))) WithinObj b2)"
        using r(1) cs False c(1) by (simp add: validateElementInfo_def)
      have "validate_value t WithinObj b2 \<noteq> Inr (s, EndObj, b')" for t
        by (cases t) (auto simp: validate_value_def skip_fixed_def result_simps split: prod.splits if_splits option.splits)
      with v show ?thesis
        by (cases "validate_value (BSONType_of_int (signed_char (bs ! ?p))) WithinObj b2")
           (auto simp: e)
    qed
  qed (use inv in \<open>auto simp: validateElementInfo_def\<close>)
  then show "element_ok bs {WithinObj, BeginObj, BeginCodeWScope, EndObj} (validateElementInfo WithinObj b)"
    and "validateElementInfo WithinObj b = Inr (s, EndObj, b') \<Longrightarrow>
      isOK s \<and> inside bs b' \<and> 0 < unat (bb_position b') \<and> bs ! (unat (bb_position b') - 1) = nul"
    by blast+
qed

subsection \<open>The loop\<close>

text \<open>The outermost frame starts at zero and holds the declared size of the document.\<close>

definition bottom_ok :: "string \<Rightarrow> validation_frame \<Rightarrow> bool" where
  "bottom_ok bs f \<longleftrightarrow>
     startPosition f = 0 \<and> vf_expectedSize f = word_of_nat (le_value (take 4 bs))"

definition after_eoo :: "string \<Rightarrow> bson_buffer \<Rightarrow> bool" where
  "after_eoo bs b \<longleftrightarrow>
     inside bs b \<and> 0 < unat (bb_position b) \<and> bs ! (unat (bb_position b) - 1) = nul"

definition loop_inv :: "string \<Rightarrow> validation \<Rightarrow> bool" where
  "loop_inv bs v \<longleftrightarrow>
     buffer_ok bs (v_buffer v) \<and>
     (v_frames v = [] \<longrightarrow>
        v_state v = Done \<or> v_state v = BeginObj \<and> bb_position (v_buffer v) = 0) \<and>
     (v_frames v \<noteq> [] \<longrightarrow> bottom_ok bs (last (v_frames v)) \<and> v_state v \<noteq> Done) \<and>
     (v_state v = EndObj \<longrightarrow> after_eoo bs (v_buffer v)) \<and>
     (v_state v = Done \<longrightarrow> after_eoo bs (v_buffer v) \<and>
        ucast (bb_position (v_buffer v)) = (word_of_nat (le_value (take 4 bs)) :: int32))"

fun step_ok :: "string \<Rightarrow> (status + validation) result \<Rightarrow> bool" where
  "step_ok bs (Inl e) \<longleftrightarrow> e = SignedOverflow"
| "step_ok bs (Inr (Inl s)) \<longleftrightarrow> \<not> isOK s"
| "step_ok bs (Inr (Inr v)) \<longleftrightarrow> loop_inv bs v"

lemma within_obj_ok:
  assumes "buffer_ok bs (v_buffer v)" "v_state v = WithinObj" "v_frames v \<noteq> []"
    "bottom_ok bs (last (v_frames v))"
  shows "step_ok bs (within_obj v)"
proof -
  note el = validateElementInfo_ok [OF assms(1)]
  show ?thesis
  proof (cases "validateElementInfo WithinObj (v_buffer v)")
    case (Inl e)
    with el(1) assms(2) show ?thesis by (simp add: within_obj_def)
  next
    case (Inr r)
    obtain s st b where r: "r = (s, st, b)" using prod_cases3 by blast
    with Inr el(1) have ok: "isOK s \<Longrightarrow> buffer_ok bs b \<and> st \<in> {WithinObj, BeginObj, BeginCodeWScope, EndObj}"
      by simp
    have "isOK s \<Longrightarrow> loop_inv bs (v\<lparr>v_buffer := b, v_state := st\<rparr>)"
      using ok el(2) [of s b] Inr r assms by (auto simp: loop_inv_def after_eoo_def)
    with Inr r assms(2) show ?thesis by (simp add: within_obj_def)
  qed
qed

lemma bottom_pushed:
  "startPosition (setIsCodeWithScope False (setStartPosition 0 empty_frame)\<lparr>vf_expectedSize := x\<rparr>) = 0"
  by (simp add: startPosition_def setIsCodeWithScope_def setStartPosition_def empty_frame_def)

lemma begin_obj_ok:
  assumes "loop_inv bs v" "v_state v = BeginObj"
  shows "step_ok bs (validate_step v)"
proof -
  have b: "buffer_ok bs (v_buffer v)" using assms by (simp add: loop_inv_def)
  let ?b = "(v_buffer v)\<lparr>bb_position := bb_position (v_buffer v) + of_nat 4\<rparr>"
  let ?s = "take 4 (drop (unat (bb_position (v_buffer v))) bs)"
  let ?v = "(set_expectedSize ?s (push_frame False v))\<lparr>v_buffer := ?b, v_state := WithinObj\<rparr>"
  from readNumber_safe [OF b, of 4, OF order_refl] show ?thesis
  proof (elim disjE conjE)
    assume r: "readNumber 4 (v_buffer v) = Inr (Some ?s, ?b)" "inside bs ?b"
    have "bottom_ok bs (last (v_frames ?v))"
      using assms(1) bottom_pushed
      by (cases "v_frames v = []")
         (auto simp: loop_inv_def bottom_ok_def push_frame_def set_expectedSize_def assms(2))
    moreover have "v_frames ?v \<noteq> []" "buffer_ok bs (v_buffer ?v)"
      using r(2) by (auto simp: set_expectedSize_def inside_def)
    ultimately have "step_ok bs (within_obj ?v)" by (intro within_obj_ok) simp_all
    with r(1) assms(2) show ?thesis by (simp add: validate_step_def push_frame_def)
  qed (use assms(2) in \<open>simp add: validate_step_def push_frame_def\<close>)
qed

lemma begin_code_ok:
  assumes "loop_inv bs v" "v_state v = BeginCodeWScope"
  shows "step_ok bs (validate_step v)"
proof -
  have b: "buffer_ok bs (v_buffer v)" "v_frames v \<noteq> []" "bottom_ok bs (last (v_frames v))"
    using assms by (auto simp: loop_inv_def)
  let ?b = "(v_buffer v)\<lparr>bb_position := bb_position (v_buffer v) + of_nat 4\<rparr>"
  from readNumber_safe [OF b(1), of 4, OF order_refl] show ?thesis
  proof (elim disjE conjE)
    assume r: "readNumber 4 (v_buffer v) =
        Inr (Some (take 4 (drop (unat (bb_position (v_buffer v))) bs)), ?b)" "inside bs ?b"
    then have "buffer_ok bs ?b" by (simp add: inside_def)
    from readUTF8String_safe [OF this] r(1) assms(2) b show ?thesis
      by (auto simp: validate_step_def push_frame_def loop_inv_def inside_def set_expectedSize_def)
  qed (use assms(2) in \<open>simp add: validate_step_def push_frame_def\<close>)
qed

lemma end_ok:
  assumes "loop_inv bs v" "v_state v \<in> {EndObj, EndCodeWScope}"
  shows "step_ok bs (validate_step v)"
proof -
  obtain cur frames where f: "v_frames v = cur # frames"
    using assms by (cases "v_frames v") (auto simp: loop_inv_def)
  have "ucast (bb_position (v_buffer v)) = (word_of_nat (le_value (take 4 bs)) :: int32)"
    if "frames = []" "actualLength v = vf_expectedSize cur"
    using that assms(1) f by (auto simp: loop_inv_def bottom_ok_def actualLength_def)
  with assms f show ?thesis
    by (auto simp: validate_step_def loop_inv_def)
qed

lemma validate_step_ok:
  assumes "loop_inv bs v" "v_state v \<noteq> Done"
  shows "step_ok bs (validate_step v)"
proof (cases "v_state v")
  case WithinObj
  with assms within_obj_ok [of bs v] show ?thesis
    by (auto simp: loop_inv_def validate_step_def)
qed (use assms begin_obj_ok begin_code_ok end_ok in \<open>auto\<close>)

definition loop_result_ok :: "string \<Rightarrow> status result \<Rightarrow> bool" where
  "loop_result_ok bs r \<longleftrightarrow>
     (case r of
        Inl e \<Rightarrow> e = SignedOverflow
      | Inr s \<Rightarrow> isOK s \<longrightarrow>
          (\<exists>b. after_eoo bs b \<and> ucast (bb_position b) = (word_of_nat (le_value (take 4 bs)) :: int32)))"

lemma loop_result_ok_simps [simp]:
  "loop_result_ok bs (Inl SignedOverflow)" "\<not> isOK s \<Longrightarrow> loop_result_ok bs (Inr s)"
  by (simp_all add: loop_result_ok_def)

lemma validate_loop_ok:
  assumes "validate_loop v = Some r" "loop_inv bs v"
  shows "loop_result_ok bs r"
proof -
  have "loop_inv bs v \<longrightarrow> loop_result_ok bs r"
  proof (rule validate_loop.raw_induct [where P = "\<lambda>v r. loop_inv bs v \<longrightarrow> loop_result_ok bs r", OF _ assms(1)])
    fix loop v r
    assume IH: "\<And>v r. loop v = Some r \<Longrightarrow> loop_inv bs v \<longrightarrow> loop_result_ok bs r"
      and body: "(if v_state v = Done then Some (Inr Status_OK)
         else case validate_step v of Inl e \<Rightarrow> Some (Inl e)
           | Inr r \<Rightarrow> (case r of Inl s \<Rightarrow> Some (Inr s) | Inr v' \<Rightarrow> loop v')) = Some r"
    show "loop_inv bs v \<longrightarrow> loop_result_ok bs r"
    proof
      assume inv: "loop_inv bs v"
      show "loop_result_ok bs r"
      proof (cases "v_state v = Done")
        case True
        with body inv show ?thesis by (auto simp: loop_inv_def loop_result_ok_def)
      next
        case False
        then have "step_ok bs (validate_step v)" using validate_step_ok inv by blast
        with body False IH show ?thesis
          by (cases "validate_step v") (auto split: sum.splits)
      qed
    qed
  qed
  with assms(2) show ?thesis by blast
qed

lemma validateBSON_ok:
  assumes "length bs < 2 ^ 31" "validateBSON bs (of_nat (length bs)) = Some r"
  shows "loop_result_ok bs r"
proof (cases "(of_nat (length bs) :: uint64) < 5")
  case True
  with assms(2) show ?thesis by (auto simp: validateBSON_def loop_result_ok_def)
next
  case False
  with assms show ?thesis
    by (intro validate_loop_ok [of "\<lparr>v_buffer = \<lparr>bb_bytes = bs, bb_position = 0,
          bb_maxLength = of_nat (length bs)\<rparr>, v_frames = [], v_state = BeginObj\<rparr>"])
       (auto simp: validateBSON_def validateBSONIterative_def loop_inv_def buffer_ok_def unat_of_nat)
qed

text \<open>
  (C1) Memory safety: on arbitrary bytes the validator never reads outside the buffer it was given
  and never dereferences a missing frame. The only undefined behaviour it can meet is the signed
  overflow in \<open>sz - 1\<close> or \<open>1 + sz\<close> for a length field of \<open>INT_MIN\<close> or \<open>INT_MAX\<close>.
\<close>

theorem validateBSON_memory_safe:
  assumes "length bs < 2 ^ 31" "e \<noteq> SignedOverflow"
  shows "validateBSON bs (of_nat (length bs)) \<noteq> Some (Inl e)"
  using validateBSON_ok [OF assms(1), of "Inl e"] assms(2) by (auto simp: loop_result_ok_def)

lemma validateBSON_memory_safe_witness:
  "validateBSON (replicate 100 (CHR 0xFF)) (of_nat (length (replicate 100 (CHR 0xFF)))) \<noteq>
     Some (Inl UndefinedBehaviour)"
  by (rule validateBSON_memory_safe) simp_all

text \<open>
  (C14) Acceptance bounds: when the validator returns OK, the size the document declares in its first
  four bytes is positive and within the buffer, and the byte at the end of that range is EOO.
\<close>

theorem validateBSON_accept_bounds:
  assumes "length bs < 2 ^ 31" "validateBSON bs (of_nat (length bs)) = Some (Inr s)" "isOK s"
  shows "\<exists>n. int_of_bytes (take 4 bs) = int n \<and> 0 < n \<and> n \<le> length bs \<and> bs ! (n - 1) = nul"
proof -
  from validateBSON_ok [OF assms(1,2)] assms(3) obtain b where
    b: "after_eoo bs b" "ucast (bb_position b) = (word_of_nat (le_value (take 4 bs)) :: int32)"
    by (auto simp: loop_result_ok_def)
  let ?n = "unat (bb_position b)"
  have n: "0 < ?n" "?n \<le> length bs" "bs ! (?n - 1) = nul"
    using b(1) by (auto simp: after_eoo_def inside_def)
  have "le_value (take 4 bs) < 2 ^ 32"
    using le_value_bound [of "take 4 bs"] power_increasing [of "length (take 4 bs)" 4 "256::nat"] by simp
  moreover have "(word_of_nat ?n :: int32) = word_of_nat (le_value (take 4 bs))"
    using b(2) by simp
  moreover have "?n < 2 ^ 32" using n(2) assms(1) by simp
  ultimately have "le_value (take 4 bs) = ?n" using of_nat32_eq by metis
  then have "int_of_bytes (take 4 bs) = int ?n" using n(2) assms(1) by (simp add: int_of_bytes_def)
  with n show ?thesis by blast
qed

lemma validateBSON_accept_bounds_witness:
  "\<exists>n. int_of_bytes (take 4 (encode [(''a'', VNull)])) = int n \<and> 0 < n \<and>
     n \<le> length (encode [(''a'', VNull)]) \<and> encode [(''a'', VNull)] ! (n - 1) = nul"
proof -
  have "\<exists>s. validateBSON (encode [(''a'', VNull)] @ []) (of_nat (length (encode [(''a'', VNull)] @ []))) =
      Some (Inr s) \<and> isOK s"
    using accepts_encoding [of "[(''a'', VNull)]" "[]"] by (simp add: encode_def nul_def)
  then show ?thesis
    using validateBSON_accept_bounds [of "encode [(''a'', VNull)]"] by (auto simp: encode_def)
qed

subsection \<open>Inputs on which the validator misbehaves\<close>

lemma loop_diverges:
  assumes "v \<in> S" "\<And>v. v \<in> S \<Longrightarrow> v_state v \<noteq> Done \<and> (\<exists>v' \<in> S. validate_step v = Inr (Inr v'))"
  shows "validate_loop v = None"
proof (rule ccontr)
  assume "validate_loop v \<noteq> None"
  then obtain r where "validate_loop v = Some r" by blast
  then have "v \<notin> S"
    by (rule validate_loop.raw_induct [where P = "\<lambda>v r. v \<notin> S", rotated])
       (use assms(2) in \<open>fastforce split: if_splits sum.splits\<close>)
  with assms(1) show False by contradiction
qed

text \<open>
  A document of one string element whose length field is \<open>-6\<close>: the cursor goes back to the last byte
  of the document's own size, finds a NUL there, and stands before the element again.
\<close>

definition looping_document :: string where
  "looping_document = int_bytes 16 @ [CHR 0x02, CHR 0x00, CHR 0xFA, CHR 0xFF, CHR 0xFF, CHR 0xFF, CHR 0x00]"

text \<open>One of length \<open>-7\<close>, which claims to be four bytes long.\<close>

definition short_document :: string where
  "short_document = int_bytes 4 @ [CHR 0x02, CHR 0x00, CHR 0xF9, CHR 0xFF, CHR 0xFF, CHR 0xFF, CHR 0x00]"

lemma readUTF8String_backwards:
  assumes "small (pre @ x @ rest)" "length x = 4" "int_of_bytes x = - int (length w)"
    "pre @ x = u @ nul # w"
  shows "readUTF8String (cursor pre (x @ rest)) = Inr (Status_OK, cursor (u @ [nul]) (w @ rest))"
proof -
  have len: "length pre + 4 = length u + 1 + length w" "length w < 2 ^ 31"
    using arg_cong [OF assms(4), of length] assms(1,2) by (simp_all add: small_def)
  have b: "pre @ x @ rest = u @ nul # w @ rest" using assms(4) by (metis append.assoc append_Cons)
  have "(of_nat (length pre + 4) :: uint64) + word_of_int (- int (length w) - 1) = of_nat (length u)"
    unfolding len(1) by simp
  moreover have "(of_nat (length u) :: uint64) < of_nat (length (pre @ x @ rest))"
    using assms(1) unfolding b by (subst of_nat64_less) (simp_all add: small_def)
  ultimately have "skip (word_of_int (- int (length w) - 1)) (cursor (pre @ x) rest) =
      (True, cursor u (nul # w @ rest))"
    using assms(2) b by (simp add: skip_def cursor_def)
  moreover have "readNumber 1 (cursor u (nul # w @ rest)) = Inr (Some [nul], cursor (u @ [nul]) (w @ rest))"
    using readNumber_cursor [of u "[nul]" "w @ rest" 1] assms(1) b by simp
  moreover have "checked32 (- int (length w) - 1) = Inr (- int (length w) - 1)"
    using len(2) by (simp add: checked32_def)
  ultimately show ?thesis
    using readNumber_cursor [OF assms(1,2)] assms(3) by (simp add: readUTF8String_def)
qed

lemma string_step_backwards:
  assumes "small (pre @ [CHR 0x02, nul] @ x @ rest)" "length x = 4"
    "int_of_bytes x = - int (length w)" "pre @ [CHR 0x02, nul] @ x = u @ nul # w"
  shows "validate_step (within pre ([CHR 0x02, nul] @ x @ rest) F) =
    Inr (Inr (within (u @ [nul]) (w @ rest) F))"
proof -
  have t: "type_byte String = CHR 0x02"
    by (intro of_char_eqI [where ?'a = nat])
       (simp add: type_byte_def BSONType_to_int_def BSONType_table_def)
  have "readUTF8String (cursor (pre @ [CHR 0x02, nul]) (x @ rest)) =
      Inr (Status_OK, cursor (u @ [nul]) (w @ rest))"
    using assms by (intro readUTF8String_backwards) simp_all
  then show ?thesis
    using element_header [of "[]" String pre "x @ rest" WithinObj] assms(1)
    by (simp add: t cstring_def validate_step_def within_obj_def validate_value_def)
qed

lemma small_ints:
  "int_bytes 16 = [CHR 0x10, nul, nul, nul]"
  "int_bytes 4 = [CHR 0x04, nul, nul, nul]"
  "int_of_bytes [CHR 0xFA, CHR 0xFF, CHR 0xFF, CHR 0xFF] = -6"
  "int_of_bytes [CHR 0xF9, CHR 0xFF, CHR 0xFF, CHR 0xFF] = -7"
  by (simp_all add: int_bytes_def int_of_bytes_def le_bytes_4 char_of_def nul_def bit_0)

text \<open>
  (C40) The validator does not terminate on every input: on these eleven bytes the loop runs
  forever.
\<close>

theorem validateBSON_diverges: "validateBSON looping_document (of_nat (length looping_document)) = None"
proof -
  let ?x = "[CHR 0xFA, CHR 0xFF, CHR 0xFF, CHR 0xFF]"
  let ?r = "[CHR 0x02, nul] @ ?x @ [nul]"
  let ?v = "within (int_bytes 16) ?r [frame_at False 0 16]"
  have doc: "looping_document = int_bytes 16 @ ?r" by (simp add: looping_document_def nul_def)
  have "validate_step ?v = Inr (Inr ?v)"
    using string_step_backwards [of "int_bytes 16" ?x "[nul]" "[CHR 0x02, nul] @ ?x"
        "[CHR 0x10, nul, nul]" "[frame_at False 0 16]"]
    by (simp add: small_ints small_def)
  then have "validate_loop ?v = None" by (intro loop_diverges [of _ "{?v}"]) auto
  then show ?thesis
    using begin_obj [of "[]" 16 ?r "[]"] validateBSON_cursor [of looping_document]
    by (simp add: doc small_def)
qed

text \<open>
  The validator accepts a document whose declared size is four bytes, less than the five
  that its own length field and terminator need.
\<close>

theorem validateBSON_accepts_short:
  "validateBSON short_document (of_nat (length short_document)) = Some (Inr Status_OK)"
proof -
  let ?x = "[CHR 0xF9, CHR 0xFF, CHR 0xFF, CHR 0xFF]"
  let ?r = "[CHR 0x02, nul] @ ?x @ [nul]"
  let ?F = "[frame_at False 0 4]"
  have doc: "short_document = int_bytes 4 @ ?r" by (simp add: short_document_def nul_def)
  have "validate_step (within (int_bytes 4) ?r ?F) =
      Inr (Inr (within [CHR 0x04, nul, nul] (nul # ?r) ?F))"
    using string_step_backwards [of "int_bytes 4" ?x "[nul]" "nul # [CHR 0x02, nul] @ ?x"
        "[CHR 0x04, nul]" ?F]
    by (simp add: small_ints small_def)
  then have "validate_loop (within (int_bytes 4) ?r ?F) =
      validate_loop (within [CHR 0x04, nul, nul] (nul # ?r) ?F)"
    by (intro loop_step) simp_all
  also have "\<dots> = Some (Inr Status_OK)"
    using end_obj [of "[]" "[CHR 0x04, nul, nul]" ?r 4 "[]"]
    by (simp add: small_def after_object_def validate_loop.simps)
  finally show ?thesis
    using begin_obj [of "[]" 4 ?r "[]"] validateBSON_cursor [of short_document]
    by (simp add: doc small_def)
qed

text \<open>Binary data of length \<open>INT_MAX\<close>: \<open>1 + sz\<close> overflows.\<close>

definition overflowing_document :: string where
  "overflowing_document = int_bytes 16 @ [CHR 0x05, nul, CHR 0xFF, CHR 0xFF, CHR 0xFF, CHR 0x7F, nul]"

text \<open>
  The overflow is reachable: a BinData length of \<open>INT_MAX\<close> makes the validator compute \<open>1 + INT_MAX\<close>.
\<close>

theorem validateBSON_overflows:
  "validateBSON overflowing_document (of_nat (length overflowing_document)) = Some (Inl SignedOverflow)"
proof -
  let ?x = "[CHR 0xFF, CHR 0xFF, CHR 0xFF, CHR 0x7F]"
  let ?r = "[CHR 0x05, nul] @ ?x @ [nul]"
  have doc: "overflowing_document = int_bytes 16 @ ?r" by (simp add: overflowing_document_def)
  have t: "type_byte BinData = CHR 0x05"
    by (intro of_char_eqI [where ?'a = nat])
       (simp add: type_byte_def BSONType_to_int_def BSONType_table_def)
  have "int_of_bytes ?x = 2147483647" by (simp add: int_of_bytes_def)
  then have "validate_value (Some BinData) WithinObj (cursor (int_bytes 16 @ [CHR 0x05, nul]) (?x @ [nul])) =
      Inl SignedOverflow"
    using readNumber_cursor [of "int_bytes 16 @ [CHR 0x05, nul]" ?x "[nul]" 4]
    by (simp add: validate_value_def small_def checked32_def)
  then have "validate_step (within (int_bytes 16) ?r [frame_at False 0 16]) = Inl SignedOverflow"
    using element_header [of "[]" BinData "int_bytes 16" "?x @ [nul]" WithinObj]
    by (simp add: t cstring_def validate_step_def within_obj_def small_def)
  then have "validate_loop (within (int_bytes 16) ?r [frame_at False 0 16]) = Some (Inl SignedOverflow)"
    by (subst validate_loop.simps) simp
  then show ?thesis
    using begin_obj [of "[]" 16 ?r "[]"] validateBSON_cursor [of overflowing_document]
    by (simp add: doc small_def)
qed

end
