(* ===== verification/Buf_Builder.thy ===== *)
theory Buf_Builder
  imports Bson_Types
begin

text \<open>
  \<open>src/mongo/bson/util/builder.h\<close>: \<open>_BufBuilder\<close>, the growing byte buffer behind every document
  and message the client builds.

  The state is the bytes written so far (\<open>l\<close> is their number) and the capacity \<open>size\<close>. Lengths are
  C++ \<open>int\<close>: sums that leave the type are undefined. Writing more bytes than the capacity admits
  would be undefined too. Allocation is assumed to succeed. The bytes that \<open>skip\<close> reserves are
  indeterminate until they are written; the model receives them as an argument.
\<close>

definition BufferMaxSize :: int where
  "BufferMaxSize = 64 * 1024 * 1024"

definition BSONObjMaxUserSize :: int where
  "BSONObjMaxUserSize = 16 * 1024 * 1024"

definition BSONObjMaxInternalSize :: int where
  "BSONObjMaxInternalSize = BSONObjMaxUserSize + 16 * 1024"

record buf_builder =
  bld_data :: string
  bld_size :: int

definition bld_len :: "buf_builder \<Rightarrow> int" where
  "bld_len b = int (length (bld_data b))"

definition BufBuilder :: "int \<Rightarrow> buf_builder" where
  "BufBuilder initsize = \<lparr>bld_data = [], bld_size = initsize\<rparr>"

definition bld_reset :: "buf_builder \<Rightarrow> buf_builder" where
  "bld_reset b = b\<lparr>bld_data := []\<rparr>"

definition bld_reset_max :: "int \<Rightarrow> buf_builder \<Rightarrow> buf_builder" where
  "bld_reset_max maxSize b =
     (let b1 = b\<lparr>bld_data := []\<rparr>
      in if maxSize \<noteq> 0 \<and> bld_size b1 > maxSize then b1\<lparr>bld_size := maxSize\<rparr> else b1)"

text \<open>The doubling loop of \<open>grow_reallocate\<close>.\<close>

function grow_capacity :: "int \<Rightarrow> int \<Rightarrow> int result" where
  "grow_capacity a newLen =
     (if a < newLen then
        (if 0 < a \<and> a * 2 < 2 ^ 31 then grow_capacity (a * 2) newLen else Inl SignedOverflow)
      else Inr a)"
  by auto
termination
  by (relation "measure (\<lambda>(a, newLen). nat (newLen - a))") auto

declare grow_capacity.simps [simp del]

definition grow_reallocate :: "int \<Rightarrow> int result" where
  "grow_reallocate newLen =
     bindE (grow_capacity 64 newLen) (\<lambda>a.
       if a > BufferMaxSize then Inl (UAssert 13548) else Inr a)"

text \<open>\<open>grow(by)\<close>: the new length and the new capacity.\<close>

definition grow :: "int \<Rightarrow> buf_builder \<Rightarrow> (int \<times> int) result" where
  "grow by b =
     bindE (checked32 (bld_len b + by)) (\<lambda>newLen.
       if newLen > bld_size b then bindE (grow_reallocate newLen) (\<lambda>a. Inr (newLen, a))
       else Inr (newLen, bld_size b))"

text \<open>The conversion of a \<open>size_t\<close> to \<open>int\<close>.\<close>

definition int_cast :: "nat \<Rightarrow> int" where
  "int_cast n = sint (word_of_nat n :: int32)"

text \<open>Growing by the (converted) number of bytes and copying them to the write position.\<close>

definition appendBuf :: "string \<Rightarrow> buf_builder \<Rightarrow> buf_builder result" where
  "appendBuf src b =
     bindE (grow (int_cast (length src)) b) (\<lambda>(newLen, size).
       if newLen \<noteq> bld_len b + int (length src) \<or> newLen > size then Inl UndefinedBehaviour
       else Inr \<lparr>bld_data = bld_data b @ src, bld_size = size\<rparr>)"

definition bld_skip :: "string \<Rightarrow> buf_builder \<Rightarrow> buf_builder result" where
  "bld_skip junk b = appendBuf junk b"

definition appendChar :: "char \<Rightarrow> buf_builder \<Rightarrow> buf_builder result" where
  "appendChar c = appendBuf [c]"

definition appendNum_short :: "16 word \<Rightarrow> buf_builder \<Rightarrow> buf_builder result" where
  "appendNum_short j = appendBuf (le_bytes 2 (unat j))"

definition appendNum_int :: "int32 \<Rightarrow> buf_builder \<Rightarrow> buf_builder result" where
  "appendNum_int j = appendBuf (le_bytes 4 (unat j))"

definition appendNum_bool :: "bool \<Rightarrow> buf_builder \<Rightarrow> buf_builder result" where
  "appendNum_bool j = appendBuf [if j then CHR 0x01 else CHR 0x00]"

text \<open>\<open>double\<close>, \<open>long long\<close> and \<open>unsigned long long\<close> are given by their 64 bits.\<close>

definition appendNum_64 :: "64 word \<Rightarrow> buf_builder \<Rightarrow> buf_builder result" where
  "appendNum_64 j = appendBuf (le_bytes 8 (unat j))"

definition appendStr :: "string \<Rightarrow> bool \<Rightarrow> buf_builder \<Rightarrow> buf_builder result" where
  "appendStr str includeEndingNull =
     appendBuf (str @ (if includeEndingNull then [nul] else []))"

subsection \<open>Growth\<close>

lemma grow_capacity_64:
  assumes "newLen \<le> 2 ^ 30"
  shows "\<exists>k \<ge> 6. grow_capacity 64 newLen = Inr (2 ^ k) \<and> newLen \<le> 2 ^ k \<and> (64 < newLen \<longrightarrow> 2 ^ (k - 1) < newLen) \<and> (newLen \<le> 64 \<longrightarrow> k = 6)"
proof -
  have "\<exists>k \<ge> j. grow_capacity (2 ^ j) newLen = Inr (2 ^ k) \<and> newLen \<le> 2 ^ k \<and>
      (2 ^ j < newLen \<longrightarrow> 2 ^ (k - 1) < newLen) \<and> (newLen \<le> 2 ^ j \<longrightarrow> k = j)"
    if "j \<le> 30" for j :: nat
    using that
  proof (induction "30 - j" arbitrary: j)
    case 0
    then have "newLen \<le> 2 ^ j" using assms by simp
    then have "grow_capacity (2 ^ j) newLen = Inr (2 ^ j)" by (subst grow_capacity.simps) simp
    with \<open>newLen \<le> 2 ^ j\<close> show ?case by (intro exI [of _ j]) simp
  next
    case (Suc n)
    show ?case
    proof (cases "newLen \<le> 2 ^ j")
      case True
      then have "grow_capacity (2 ^ j) newLen = Inr (2 ^ j)" by (subst grow_capacity.simps) simp
      with True show ?thesis by (intro exI [of _ j]) simp
    next
      case False
      have j: "Suc j \<le> 30" "n = 30 - Suc j" using Suc.hyps(2) by simp_all
      have "(2::int) ^ j * 2 \<le> 2 ^ 30" using power_increasing [OF j(1), of "2::int"] by (simp add: mult.commute)
      then have step: "grow_capacity (2 ^ j) newLen = grow_capacity (2 ^ Suc j) newLen"
        using False by (subst grow_capacity.simps) (simp add: mult.commute)
      from Suc.hyps(1) [OF j(2) j(1)] obtain k where
        k: "k \<ge> Suc j" "grow_capacity (2 ^ Suc j) newLen = Inr (2 ^ k)" "newLen \<le> 2 ^ k"
          "2 ^ Suc j < newLen \<longrightarrow> 2 ^ (k - 1) < newLen" "newLen \<le> 2 ^ Suc j \<longrightarrow> k = Suc j" by blast
      from k(4,5) False have "2 ^ (k - 1) < newLen" by (cases "2 ^ Suc j < newLen") auto
      with k step False show ?thesis by (intro exI [of _ k]) simp
    qed
  qed
  from this [of 6] show ?thesis by simp
qed

definition builder_ok :: "buf_builder \<Rightarrow> bool" where
  "builder_ok b \<longleftrightarrow> bld_len b \<le> bld_size b \<and> bld_size b \<le> BufferMaxSize"

lemma grow_reallocate_cases:
  assumes "newLen \<le> 2 ^ 30"
  shows "newLen \<le> BufferMaxSize \<Longrightarrow> \<exists>a. grow_reallocate newLen = Inr a \<and> newLen \<le> a \<and> a \<le> BufferMaxSize"
    and "newLen > BufferMaxSize \<Longrightarrow> grow_reallocate newLen = Inl (UAssert 13548)"
proof -
  obtain k where k: "k \<ge> 6" "grow_capacity 64 newLen = Inr (2 ^ k)" "newLen \<le> 2 ^ k"
    "64 < newLen \<longrightarrow> 2 ^ (k - 1) < newLen" "newLen \<le> 64 \<longrightarrow> k = 6"
    using grow_capacity_64 [OF assms] by blast
  have max: "BufferMaxSize = 2 ^ 26" by (simp add: BufferMaxSize_def)
  {
    assume "newLen \<le> BufferMaxSize"
    with k(4,5) have "(2::int) ^ (k - 1) < 2 ^ 26" by (cases "64 < newLen") (auto simp: max)
    then have "k - 1 < 26" by (rule power_less_imp_less_exp [rotated]) simp
    then have "(2::int) ^ k \<le> 2 ^ 26" by (intro power_increasing) simp_all
    with k(2,3) show "\<exists>a. grow_reallocate newLen = Inr a \<and> newLen \<le> a \<and> a \<le> BufferMaxSize"
      by (auto simp: grow_reallocate_def max)
  next
    assume "newLen > BufferMaxSize"
    with k(2,3) show "grow_reallocate newLen = Inl (UAssert 13548)"
      by (auto simp: grow_reallocate_def max)
  }
qed

lemma int_cast_small: "n < 2 ^ 31 \<Longrightarrow> int_cast n = int n"
  by (simp add: int_cast_def signed_of_nat signed_take_bit_int_eq_self)

text \<open>
  \<open>appends f bs\<close>: on every well-formed builder, \<open>f\<close> appends the bytes \<open>bs\<close> when the result is
  within the 64 MB limit, and otherwise fails with assertion 13548.
\<close>

definition appends :: "(buf_builder \<Rightarrow> buf_builder result) \<Rightarrow> string \<Rightarrow> bool" where
  "appends f bs \<longleftrightarrow>
     (\<forall>b. builder_ok b \<and> length (bld_data b) + length bs \<le> 2 ^ 30 \<longrightarrow>
        (if bld_len b + int (length bs) \<le> BufferMaxSize
         then \<exists>size. f b = Inr \<lparr>bld_data = bld_data b @ bs, bld_size = size\<rparr> \<and>
                     builder_ok \<lparr>bld_data = bld_data b @ bs, bld_size = size\<rparr>
         else f b = Inl (UAssert 13548)))"

lemma appendsD:
  assumes "appends f bs" "builder_ok b" "length (bld_data b) + length bs \<le> 2 ^ 30"
  shows "bld_len b + int (length bs) \<le> BufferMaxSize \<Longrightarrow>
      \<exists>size. f b = Inr \<lparr>bld_data = bld_data b @ bs, bld_size = size\<rparr> \<and>
        builder_ok \<lparr>bld_data = bld_data b @ bs, bld_size = size\<rparr>"
    and "\<not> bld_len b + int (length bs) \<le> BufferMaxSize \<Longrightarrow> f b = Inl (UAssert 13548)"
  using assms by (auto simp: appends_def)

lemma appendBuf_appends: "appends (appendBuf bs) bs"
  unfolding appends_def
proof (intro allI impI, elim conjE)
  fix b
  assume b: "builder_ok b" "length (bld_data b) + length bs \<le> 2 ^ 30"
  let ?n = "bld_len b + int (length bs)"
  have n: "?n \<le> 2 ^ 30" "0 \<le> ?n" "int_cast (length bs) = int (length bs)"
    using b(2) by (simp_all add: bld_len_def int_cast_small)
  then have g: "grow (int_cast (length bs)) b =
      (if ?n > bld_size b then bindE (grow_reallocate ?n) (\<lambda>a. Inr (?n, a)) else Inr (?n, bld_size b))"
    by (simp add: grow_def checked32_def)
  show "if ?n \<le> BufferMaxSize
      then \<exists>size. appendBuf bs b = Inr \<lparr>bld_data = bld_data b @ bs, bld_size = size\<rparr> \<and>
                  builder_ok \<lparr>bld_data = bld_data b @ bs, bld_size = size\<rparr>
      else appendBuf bs b = Inl (UAssert 13548)"
  proof (cases "?n \<le> BufferMaxSize")
    case True
    then have "\<exists>a. grow (int_cast (length bs)) b = Inr (?n, a) \<and> ?n \<le> a \<and> a \<le> BufferMaxSize"
      using grow_reallocate_cases(1) [OF n(1)] b(1) by (auto simp: g builder_ok_def)
    with True show ?thesis by (auto simp: appendBuf_def builder_ok_def bld_len_def)
  next
    case False
    then have "grow (int_cast (length bs)) b = Inl (UAssert 13548)"
      using grow_reallocate_cases(2) [OF n(1)] b(1) by (auto simp: g builder_ok_def)
    with False show ?thesis by (simp add: appendBuf_def)
  qed
qed

lemma appends_seq:
  assumes "appends f xs" "appends g ys"
  shows "appends (\<lambda>b. bindE (f b) g) (xs @ ys)"
  unfolding appends_def
proof (intro allI impI, elim conjE)
  fix b
  assume b: "builder_ok b" "length (bld_data b) + length (xs @ ys) \<le> 2 ^ 30"
  show "if bld_len b + int (length (xs @ ys)) \<le> BufferMaxSize
      then \<exists>size. bindE (f b) g = Inr \<lparr>bld_data = bld_data b @ xs @ ys, bld_size = size\<rparr> \<and>
                  builder_ok \<lparr>bld_data = bld_data b @ xs @ ys, bld_size = size\<rparr>
      else bindE (f b) g = Inl (UAssert 13548)"
  proof (cases "bld_len b + int (length xs) \<le> BufferMaxSize")
    case True
    then obtain size where f: "f b = Inr \<lparr>bld_data = bld_data b @ xs, bld_size = size\<rparr>"
      "builder_ok \<lparr>bld_data = bld_data b @ xs, bld_size = size\<rparr>"
      using appendsD(1) [OF assms(1) b(1)] b(2) by auto
    show ?thesis
      using appendsD [OF assms(2) f(2)] b(2) f(1) by (auto simp: bld_len_def ac_simps)
  next
    case False
    then have "f b = Inl (UAssert 13548)" using appendsD(2) [OF assms(1) b(1)] b(2) by simp
    with False show ?thesis by (simp add: bld_len_def)
  qed
qed

lemma appends_basic:
  "appends (appendChar c) [c]"
  "appends (appendNum_int j) (le_bytes 4 (unat j))"
  "appends (appendNum_64 k) (le_bytes 8 (unat k))"
  "appends (appendStr s True) (cstring s)"
  by (simp_all add: appendChar_def appendNum_int_def appendNum_64_def appendStr_def cstring_def
      appendBuf_appends)

end
