(* ===== verification/Bson_Builder.thy ===== *)
theory Bson_Builder
  imports Buf_Builder Bson_Valid
begin

text \<open>
  \<open>src/mongo/bson/bsonobjbuilder.h\<close>: \<open>BSONObjBuilder\<close>, which writes a document element by element
  into a \<open>BufBuilder\<close>, with nested documents written in place by sub-builders that share the buffer.

  Each \<open>append\<close> overload is a function on the shared buffer. A document held in memory is the
  byte string that starts at its address; \<open>objsize\<close> reads its length field. The conversion from an
  integer to the bits of a \<open>double\<close> is a parameter. The streaming operators, which pass through the
  same functions, and the size tracker, a hint for initial capacities, are not modelled.
\<close>

subsection \<open>Appending elements\<close>

definition append_header :: "BSONType \<Rightarrow> string \<Rightarrow> buf_builder \<Rightarrow> buf_builder result" where
  "append_header t fieldName b =
     bindE (appendChar (type_byte t) b) (appendStr fieldName True)"

definition objsize :: "string \<Rightarrow> int result" where
  "objsize objdata =
     (if length objdata < 4 then Inl UndefinedBehaviour else Inr (int_of_bytes (take 4 objdata)))"

text \<open>\<open>appendBuf(p, n)\<close> for a memory area and a signed length.\<close>

definition appendArea :: "string \<Rightarrow> int \<Rightarrow> buf_builder \<Rightarrow> buf_builder result" where
  "appendArea area n b =
     (if n < 0 \<or> n > int (length area) then Inl UndefinedBehaviour else appendBuf (take (nat n) area) b)"

definition append_BSONObj :: "string \<Rightarrow> string \<Rightarrow> buf_builder \<Rightarrow> buf_builder result" where
  "append_BSONObj fieldName subObj b =
     bindE (append_header Object fieldName b) (\<lambda>b.
     bindE (objsize subObj) (\<lambda>n. appendArea subObj n b))"

definition appendObject :: "string \<Rightarrow> string \<Rightarrow> int \<Rightarrow> buf_builder \<Rightarrow> buf_builder result" where
  "appendObject fieldName objdata sz b =
     bindE (if sz = 0 then objsize objdata else Inr sz) (\<lambda>sz.
       if \<not> (sz > 4 \<and> sz < 100000000) then Inl Verify
       else bindE (append_header Object fieldName b) (appendArea objdata sz))"

definition subobjStart :: "string \<Rightarrow> buf_builder \<Rightarrow> buf_builder result" where
  "subobjStart fieldName b = append_header Object fieldName b"

definition appendArray :: "string \<Rightarrow> string \<Rightarrow> buf_builder \<Rightarrow> buf_builder result" where
  "appendArray fieldName subObj b =
     bindE (append_header Array fieldName b) (\<lambda>b.
     bindE (objsize subObj) (\<lambda>n. appendArea subObj n b))"

definition subarrayStart :: "string \<Rightarrow> buf_builder \<Rightarrow> buf_builder result" where
  "subarrayStart fieldName b = append_header Array fieldName b"

definition appendBool :: "string \<Rightarrow> int \<Rightarrow> buf_builder \<Rightarrow> buf_builder result" where
  "appendBool fieldName val b =
     bindE (append_header Bool fieldName b) (appendChar (if val \<noteq> 0 then CHR 0x01 else CHR 0x00))"

definition append_bool :: "string \<Rightarrow> bool \<Rightarrow> buf_builder \<Rightarrow> buf_builder result" where
  "append_bool fieldName val b =
     bindE (append_header Bool fieldName b) (appendChar (if val then CHR 0x01 else CHR 0x00))"

definition append_int :: "string \<Rightarrow> int32 \<Rightarrow> buf_builder \<Rightarrow> buf_builder result" where
  "append_int fieldName n b = bindE (append_header NumberInt fieldName b) (appendNum_int n)"

definition append_unsigned :: "string \<Rightarrow> 32 word \<Rightarrow> buf_builder \<Rightarrow> buf_builder result" where
  "append_unsigned fieldName n b = append_int fieldName n b"

definition append_long :: "string \<Rightarrow> int64 \<Rightarrow> buf_builder \<Rightarrow> buf_builder result" where
  "append_long fieldName n b = bindE (append_header NumberLong fieldName b) (appendNum_64 n)"

definition appendIntOrLL :: "string \<Rightarrow> int64 \<Rightarrow> buf_builder \<Rightarrow> buf_builder result" where
  "appendIntOrLL fieldName n b =
     (let maxInt = (2 ^ 31 - 1) div 2; minInt = - maxInt
      in if minInt < sint n \<and> sint n < maxInt then append_int fieldName (ucast n) b
         else append_long fieldName n b)"

definition append_double :: "string \<Rightarrow> uint64 \<Rightarrow> buf_builder \<Rightarrow> buf_builder result" where
  "append_double fieldName n b = bindE (append_header NumberDouble fieldName b) (appendNum_64 n)"

definition appendNumber_size_t :: "string \<Rightarrow> uint64 \<Rightarrow> buf_builder \<Rightarrow> buf_builder result" where
  "appendNumber_size_t fieldName n b =
     (if n < 2 ^ 30 then append_int fieldName (ucast n) b else append_long fieldName n b)"

definition appendNumber_ll ::
    "(int \<Rightarrow> uint64) \<Rightarrow> string \<Rightarrow> int64 \<Rightarrow> buf_builder \<Rightarrow> buf_builder result" where
  "appendNumber_ll double_of_int fieldName llNumber b =
     (let maxInt = 2 ^ 30; minInt = - maxInt; maxDouble = 2 ^ 40; minDouble = - maxDouble
      in if minInt < sint llNumber \<and> sint llNumber < maxInt
         then append_int fieldName (ucast llNumber) b
         else if minDouble < sint llNumber \<and> sint llNumber < maxDouble
         then append_double fieldName (double_of_int (sint llNumber)) b
         else append_long fieldName llNumber b)"

text \<open>\<open>generated\<close> is the fresh object id of \<open>tmp.init()\<close>.\<close>

definition appendOID ::
    "string \<Rightarrow> string \<Rightarrow> string option \<Rightarrow> bool \<Rightarrow> buf_builder \<Rightarrow> buf_builder result" where
  "appendOID generated fieldName oid generateIfBlank b =
     bindE (append_header jstOID fieldName b)
       (case oid of
          Some bytes \<Rightarrow> appendArea bytes 12
        | None \<Rightarrow> if generateIfBlank then appendArea generated 12 else appendBuf (replicate 12 nul))"

definition append_OID :: "string \<Rightarrow> string \<Rightarrow> buf_builder \<Rightarrow> buf_builder result" where
  "append_OID fieldName oid b = bindE (append_header jstOID fieldName b) (appendArea oid 12)"

definition genOID :: "string \<Rightarrow> buf_builder \<Rightarrow> buf_builder result" where
  "genOID generated b = append_OID ''_id'' generated b"

definition appendTimeT :: "string \<Rightarrow> uint64 \<Rightarrow> buf_builder \<Rightarrow> buf_builder result" where
  "appendTimeT fieldName dt b = bindE (append_header Date fieldName b) (appendNum_64 (dt * 1000))"

definition appendDate :: "string \<Rightarrow> uint64 \<Rightarrow> buf_builder \<Rightarrow> buf_builder result" where
  "appendDate fieldName dt b = bindE (append_header Date fieldName b) (appendNum_64 dt)"

definition appendRegex :: "string \<Rightarrow> string \<Rightarrow> string \<Rightarrow> buf_builder \<Rightarrow> buf_builder result" where
  "appendRegex fieldName regex options b =
     bindE (append_header RegEx fieldName b) (\<lambda>b.
     bindE (appendStr regex True b) (appendStr options True))"

text \<open>\<open>appendNum((int) s.size()+1); appendStr(s)\<close>\<close>

definition append_sized_string :: "string \<Rightarrow> buf_builder \<Rightarrow> buf_builder result" where
  "append_sized_string s b =
     bindE (checked32 (int_cast (length s) + 1)) (\<lambda>n.
     bindE (appendNum_int (word_of_int n) b) (appendStr s True))"

definition appendCode :: "string \<Rightarrow> string \<Rightarrow> buf_builder \<Rightarrow> buf_builder result" where
  "appendCode fieldName code b = bindE (append_header Code fieldName b) (append_sized_string code)"

definition append_str_sz :: "string \<Rightarrow> string \<Rightarrow> int32 \<Rightarrow> buf_builder \<Rightarrow> buf_builder result" where
  "append_str_sz fieldName str sz b =
     bindE (append_header String fieldName b) (\<lambda>b.
     bindE (appendNum_int sz b) (appendArea str (sint sz)))"

text \<open>A \<open>std::string\<close> is followed by a NUL in memory; \<open>append(name, const char*)\<close> takes the part up
  to the first NUL.\<close>

definition append_string :: "string \<Rightarrow> string \<Rightarrow> buf_builder \<Rightarrow> buf_builder result" where
  "append_string fieldName str b =
     bindE (checked32 (int_cast (length str) + 1)) (\<lambda>n.
       append_str_sz fieldName (str @ [nul]) (word_of_int n) b)"

definition append_cstring :: "string \<Rightarrow> string \<Rightarrow> buf_builder \<Rightarrow> buf_builder result" where
  "append_cstring fieldName str b = append_string fieldName (takeWhile (\<lambda>c. c \<noteq> nul) str) b"

definition append_StringData :: "string \<Rightarrow> string \<Rightarrow> buf_builder \<Rightarrow> buf_builder result" where
  "append_StringData fieldName str b = bindE (append_header String fieldName b) (append_sized_string str)"

definition appendSymbol :: "string \<Rightarrow> string \<Rightarrow> buf_builder \<Rightarrow> buf_builder result" where
  "appendSymbol fieldName symbol b = bindE (append_header Symbol fieldName b) (append_sized_string symbol)"

definition appendNull :: "string \<Rightarrow> buf_builder \<Rightarrow> buf_builder result" where
  "appendNull fieldName b = append_header jstNULL fieldName b"

definition appendMinKey :: "string \<Rightarrow> buf_builder \<Rightarrow> buf_builder result" where
  "appendMinKey fieldName b = append_header MinKey fieldName b"

definition appendMaxKey :: "string \<Rightarrow> buf_builder \<Rightarrow> buf_builder result" where
  "appendMaxKey fieldName b = append_header MaxKey fieldName b"

definition appendTimestamp :: "string \<Rightarrow> uint64 \<Rightarrow> buf_builder \<Rightarrow> buf_builder result" where
  "appendTimestamp fieldName val b = bindE (append_header Timestamp fieldName b) (appendNum_64 val)"

definition appendDBRef :: "string \<Rightarrow> string \<Rightarrow> string \<Rightarrow> buf_builder \<Rightarrow> buf_builder result" where
  "appendDBRef fieldName ns oid b =
     bindE (append_header DBRef fieldName b) (\<lambda>b.
     bindE (append_sized_string ns b) (appendArea oid 12))"

definition appendBinData ::
    "string \<Rightarrow> int32 \<Rightarrow> char \<Rightarrow> string \<Rightarrow> buf_builder \<Rightarrow> buf_builder result" where
  "appendBinData fieldName len type data b =
     bindE (append_header BinData fieldName b) (\<lambda>b.
     bindE (appendNum_int len b) (\<lambda>b.
     bindE (appendChar type b) (appendArea data (sint len))))"

definition appendBinDataArrayDeprecated ::
    "string \<Rightarrow> string \<Rightarrow> int32 \<Rightarrow> buf_builder \<Rightarrow> buf_builder result" where
  "appendBinDataArrayDeprecated fieldName data len b =
     bindE (append_header BinData fieldName b) (\<lambda>b.
     bindE (checked32 (sint len + 4)) (\<lambda>n.
     bindE (appendNum_int (word_of_int n) b) (\<lambda>b.
     bindE (appendChar (CHR 0x02) b) (\<lambda>b.
     bindE (appendNum_int len b) (appendArea data (sint len))))))"

definition appendCodeWScope :: "string \<Rightarrow> string \<Rightarrow> string \<Rightarrow> buf_builder \<Rightarrow> buf_builder result" where
  "appendCodeWScope fieldName code scope b =
     bindE (append_header CodeWScope fieldName b) (\<lambda>b.
     bindE (objsize scope) (\<lambda>n.
     bindE (appendNum_int (word_of_int (4 + 4 + int (length code) + 1 + n)) b) (\<lambda>b.
     bindE (append_sized_string code b) (appendArea scope n))))"

definition appendUndefined :: "string \<Rightarrow> buf_builder \<Rightarrow> buf_builder result" where
  "appendUndefined fieldName b = append_header Undefined fieldName b"

definition appendWhere :: "string \<Rightarrow> string \<Rightarrow> buf_builder \<Rightarrow> buf_builder result" where
  "appendWhere code scope b = appendCodeWScope ''$where'' code scope b"

subsection \<open>The life of a builder\<close>

record obj_builder =
  ob_offset :: nat
  ob_doneCalled :: bool

text \<open>A builder with its own buffer: four bytes for a reference count, four for the size.\<close>

definition BSONObjBuilder :: "string \<Rightarrow> int \<Rightarrow> (obj_builder \<times> buf_builder) result" where
  "BSONObjBuilder junk initsize =
     bindE (appendNum_int 0 (BufBuilder (initsize + 4))) (\<lambda>b.
     bindE (bld_skip junk b) (\<lambda>b. Inr (\<lparr>ob_offset = 4, ob_doneCalled = False\<rparr>, b)))"

definition BSONObjBuilder_sub :: "string \<Rightarrow> buf_builder \<Rightarrow> (obj_builder \<times> buf_builder) result" where
  "BSONObjBuilder_sub junk b =
     bindE (bld_skip junk b) (\<lambda>b'.
       Inr (\<lparr>ob_offset = length (bld_data b), ob_doneCalled = False\<rparr>, b'))"

definition store :: "nat \<Rightarrow> string \<Rightarrow> string \<Rightarrow> string" where
  "store pos new data = take pos data @ new @ drop (pos + length new) data"

definition obj_done :: "obj_builder \<Rightarrow> buf_builder \<Rightarrow> (obj_builder \<times> buf_builder) result" where
  "obj_done ob b =
     (if ob_doneCalled ob then Inr (ob, b)
      else bindE (appendChar nul b) (\<lambda>b1.
        let size = length (bld_data b1) - ob_offset ob
        in Inr (ob\<lparr>ob_doneCalled := True\<rparr>,
                b1\<lparr>bld_data := store (ob_offset ob) (le_bytes 4 size) (bld_data b1)\<rparr>)))"

text \<open>\<open>asTempObj\<close>: the finished bytes are seen, then the terminator is given up again.\<close>

definition asTempObj :: "obj_builder \<Rightarrow> buf_builder \<Rightarrow> (string \<times> obj_builder \<times> buf_builder) result" where
  "asTempObj ob b =
     bindE (obj_done ob b) (\<lambda>(ob1, b1).
       Inr (drop (ob_offset ob) (bld_data b1), ob1\<lparr>ob_doneCalled := False\<rparr>,
            b1\<lparr>bld_data := butlast (bld_data b1)\<rparr>))"

text \<open>A sub-builder on the shared buffer, filled by \<open>body\<close> and finished.\<close>

definition with_subobj :: "string \<Rightarrow> (buf_builder \<Rightarrow> buf_builder result) \<Rightarrow> buf_builder \<Rightarrow> buf_builder result" where
  "with_subobj junk body b =
     bindE (BSONObjBuilder_sub junk b) (\<lambda>(ob, b).
     bindE (body b) (\<lambda>b.
     bindE (obj_done ob b) (\<lambda>(_, b). Inr b)))"

subsection \<open>Building a document\<close>

text \<open>The program that builds an abstract document with the functions above.\<close>

fun append_value :: "string \<Rightarrow> string \<Rightarrow> bson_value \<Rightarrow> buf_builder \<Rightarrow> buf_builder result"
  and append_elems :: "string \<Rightarrow> bson_elem list \<Rightarrow> buf_builder \<Rightarrow> buf_builder result"
where
  "append_value junk name (VDouble d) = append_double name d"
| "append_value junk name (VString s) = append_StringData name s"
| "append_value junk name (VObject es) =
     (\<lambda>b. bindE (subobjStart name b) (with_subobj junk (append_elems junk es)))"
| "append_value junk name (VArray es) =
     (\<lambda>b. bindE (subarrayStart name b) (with_subobj junk (append_elems junk es)))"
| "append_value junk name (VBinData t bs) = appendBinData name (of_nat (length bs)) t bs"
| "append_value junk name VUndefined = appendUndefined name"
| "append_value junk name (VOID bs) = append_OID name bs"
| "append_value junk name (VBool x) = append_bool name x"
| "append_value junk name (VDate d) = appendDate name d"
| "append_value junk name VNull = appendNull name"
| "append_value junk name (VRegEx r f) = appendRegex name r f"
| "append_value junk name (VDBRef ns bs) = appendDBRef name ns bs"
| "append_value junk name (VCode s) = appendCode name s"
| "append_value junk name (VSymbol s) = appendSymbol name s"
| "append_value junk name (VCodeWScope c es) = appendCodeWScope name c (encode es)"
| "append_value junk name (VInt n) = append_int name n"
| "append_value junk name (VTimestamp d) = appendTimestamp name d"
| "append_value junk name (VLong d) = append_long name d"
| "append_value junk name VMinKey = appendMinKey name"
| "append_value junk name VMaxKey = appendMaxKey name"
| "append_elems junk [] = Inr"
| "append_elems junk ((n, v) # es) = (\<lambda>b. bindE (append_value junk n v b) (append_elems junk es))"

text \<open>The constructor of \<open>BSONObj\<close> checks the size it finds.\<close>

definition BSONObj_init :: "string \<Rightarrow> string result" where
  "BSONObj_init objdata =
     bindE (objsize objdata) (\<lambda>n.
       if n > 0 \<and> n \<le> BSONObjMaxInternalSize then Inr objdata else Inl (UAssert 10334))"

text \<open>\<open>BSONObjBuilder b; ... ; b.obj()\<close>: the \<open>BSONObj\<close> made of the document behind the reference count.\<close>

definition build_document :: "string \<Rightarrow> bson_elem list \<Rightarrow> string result" where
  "build_document junk es =
     bindE (BSONObjBuilder junk 512) (\<lambda>(ob, b).
     bindE (append_elems junk es b) (\<lambda>b.
     bindE (obj_done ob b) (\<lambda>(ob, b). BSONObj_init (drop (ob_offset ob) (bld_data b)))))"

subsection \<open>The builder writes the encoding\<close>

lemma append_header_appends: "appends (append_header t n) (type_byte t # cstring n)"
  using appends_seq [OF appends_basic(1) appends_basic(4), of "type_byte t" n]
  by (simp add: append_header_def [abs_def])

lemma appends_header:
  assumes "appends g ys"
  shows "appends (\<lambda>b. bindE (append_header t n b) g) (type_byte t # cstring n @ ys)"
  using appends_seq [OF append_header_appends assms] by simp

lemma appends_large: "2 ^ 30 < length bs \<Longrightarrow> appends f bs"
  by (simp add: appends_def)

lemma append_sized_string_appends: "appends (append_sized_string s) (sized_string s)"
proof (cases "2 ^ 30 < length (sized_string s)")
  case True
  then show ?thesis by (rule appends_large)
next
  case False
  then have n: "int_cast (length s) = int (length s)" "length s + 1 < 2 ^ 31"
    by (simp_all add: int_cast_small)
  then have "append_sized_string s = (\<lambda>b. bindE (appendNum_int (of_nat (length s + 1)) b) (appendStr s True))"
    by (intro ext) (simp add: append_sized_string_def checked32_def add.commute)
  moreover have "unat (of_nat (length s + 1) :: int32) = length s + 1"
    using n(2) by (simp only: unat_of_nat) simp
  ultimately show ?thesis
    using appends_seq [OF appends_basic(2) appends_basic(4), of "of_nat (length s + 1)" s]
    by (simp add: sized_string_def int_bytes_def)
qed

lemma appendArea_all: "appendArea bs (int (length bs)) = appendBuf bs"
  by (simp add: appendArea_def fun_eq_iff)

lemma objsize_frame: "length (frame bs @ rest) < 2 ^ 31 \<Longrightarrow> objsize (frame bs @ rest) = Inr (int (length (frame bs)))"
  using int_of_bytes_int_bytes [of "length bs + 5"] by (simp add: objsize_def frame_def)

lemma appendCodeWScope_appends:
  "appends (appendCodeWScope n c (frame bs))
     (type_byte CodeWScope # cstring n @ int_bytes (4 + 4 + length c + 1 + length (frame bs)) @
       sized_string c @ frame bs)"
proof (cases "2 ^ 30 < 4 + 4 + length c + 1 + length (frame bs)")
  case True
  then show ?thesis by (intro appends_large) simp
next
  case False
  let ?n = "4 + 4 + length c + 1 + length (frame bs)"
  let ?tail = "\<lambda>b. bindE (appendNum_int (of_nat ?n) b) (\<lambda>b. bindE (append_sized_string c b) (appendBuf (frame bs)))"
  have "unat (of_nat ?n :: int32) = ?n" using False by (simp only: unat_of_nat) simp
  then have "appends ?tail (int_bytes ?n @ sized_string c @ frame bs)"
    using appends_seq [OF appends_basic(2) appends_seq [OF append_sized_string_appends appendBuf_appends],
        of "of_nat ?n" c "frame bs"] by (simp add: int_bytes_def)
  moreover have "appendCodeWScope n c (frame bs) = (\<lambda>b. bindE (append_header CodeWScope n b) ?tail)"
    using objsize_frame [of bs "[]"] appendArea_all [of "frame bs"] False
    by (intro ext) (simp add: appendCodeWScope_def ac_simps)
  ultimately show ?thesis using appends_header by simp
qed

lemma appendBinData_appends:
  "appends (appendBinData n (of_nat (length bs)) t bs)
     (type_byte BinData # cstring n @ int_bytes (length bs) @ t # bs)"
proof (cases "2 ^ 30 < length bs")
  case True
  then show ?thesis by (intro appends_large) simp
next
  case False
  let ?tail = "\<lambda>b. bindE (appendNum_int (of_nat (length bs)) b) (\<lambda>b. bindE (appendChar t b) (appendBuf bs))"
  have u: "unat (of_nat (length bs) :: int32) = length bs" using False by (simp only: unat_of_nat) simp
  have s: "sint (of_nat (length bs) :: int32) = int (length bs)"
    using int_cast_small [of "length bs"] False by (simp add: int_cast_def)
  have "appends ?tail (int_bytes (length bs) @ t # bs)"
    using appends_seq [OF appends_basic(2) appends_seq [OF appends_basic(1) appendBuf_appends],
        of "of_nat (length bs)" t bs] u by (simp add: int_bytes_def)
  moreover have "appendBinData n (of_nat (length bs)) t bs = (\<lambda>b. bindE (append_header BinData n b) ?tail)"
    by (intro ext) (simp add: appendBinData_def s appendArea_all)
  ultimately show ?thesis using appends_header by simp
qed

subsubsection \<open>Sub-builders\<close>

lemma store_at: "length new = length old \<Longrightarrow> store (length pre) new (pre @ old @ post) = pre @ new @ post"
  by (simp add: store_def)

lemma with_subobj_appends:
  assumes "appends body bs" "length junk = 4"
  shows "appends (with_subobj junk body) (frame bs)"
  unfolding appends_def
proof (intro allI impI, elim conjE)
  fix b
  assume b: "builder_ok b" "length (bld_data b) + length (frame bs) \<le> 2 ^ 30"
  let ?all = "\<lambda>b. bindE (bld_skip junk b) (\<lambda>b. bindE (body b) (appendChar nul))"
  have "appends ?all (junk @ bs @ [nul])"
    unfolding bld_skip_def
    by (rule appends_seq [OF appendBuf_appends appends_seq [OF assms(1) appends_basic(1)]])
  then have all: "if bld_len b + int (length (junk @ bs @ [nul])) \<le> BufferMaxSize
      then \<exists>size. ?all b = Inr \<lparr>bld_data = bld_data b @ junk @ bs @ [nul], bld_size = size\<rparr> \<and>
             builder_ok \<lparr>bld_data = bld_data b @ junk @ bs @ [nul], bld_size = size\<rparr>
      else ?all b = Inl (UAssert 13548)"
    using b assms(2) by (simp add: appends_def)
  have eq: "with_subobj junk body b = bindE (?all b) (\<lambda>b1.
      Inr (b1\<lparr>bld_data := store (length (bld_data b))
        (le_bytes 4 (length (bld_data b1) - length (bld_data b))) (bld_data b1)\<rparr>))"
    by (cases "bld_skip junk b"; simp add: with_subobj_def BSONObjBuilder_sub_def obj_done_def Let_def bindE_assoc)
  have len: "length (junk @ bs @ [nul]) = length (frame bs)" using assms(2) by simp
  have st: "store (length (bld_data b)) (le_bytes 4 (length (frame bs))) (bld_data b @ junk @ bs @ [nul]) =
      bld_data b @ frame bs"
    using assms(2) store_at [of "le_bytes 4 (length (frame bs))" junk "bld_data b" "bs @ [nul]"]
    by (simp add: frame_def int_bytes_def add.commute)
  show "if bld_len b + int (length (frame bs)) \<le> BufferMaxSize
      then \<exists>size. with_subobj junk body b = Inr \<lparr>bld_data = bld_data b @ frame bs, bld_size = size\<rparr> \<and>
                  builder_ok \<lparr>bld_data = bld_data b @ frame bs, bld_size = size\<rparr>
      else with_subobj junk body b = Inl (UAssert 13548)"
    using all len st unfolding eq by (auto simp: builder_ok_def bld_len_def add.commute split: if_splits)
qed

lemma appends_id: "appends Inr []"
  unfolding appends_def
proof (intro allI impI, elim conjE)
  fix b assume "builder_ok b"
  then show "if bld_len b + int (length []) \<le> BufferMaxSize
      then \<exists>size. Inr b = (Inr \<lparr>bld_data = bld_data b @ [], bld_size = size\<rparr> :: buf_builder result) \<and>
             builder_ok \<lparr>bld_data = bld_data b @ [], bld_size = size\<rparr>
      else Inr b = Inl (UAssert 13548)"
    by (cases b) (auto simp: builder_ok_def)
qed

lemma append_area_12: "length bs = 12 \<Longrightarrow> appendArea bs 12 = appendBuf bs"
  using appendArea_all [of bs] by simp

lemma append_flat_value:
  assumes "flat_value v" "wf_value v"
  shows "appends (append_value junk n v) (encode_elem (n, v))"
proof (cases v)
  case (VBool x)
  then show ?thesis
    using appends_header [OF appends_basic(1), of Bool n] by (simp add: encode_elem_def append_bool_def [abs_def] nul_def)
next
  case (VRegEx r f)
  then show ?thesis
    using appends_header [OF appends_seq [OF appends_basic(4) appends_basic(4)], of RegEx n r f]
    by (simp add: encode_elem_def appendRegex_def [abs_def])
next
  case (VDBRef ns bs)
  then show ?thesis
    using appends_header [OF appends_seq [OF append_sized_string_appends appendBuf_appends], of DBRef n ns bs]
      assms(2)
    by (simp add: encode_elem_def appendDBRef_def [abs_def] append_area_12)
next
  case (VOID bs)
  then show ?thesis
    using appends_header [OF appendBuf_appends, of jstOID n bs] assms(2)
    by (simp add: encode_elem_def append_OID_def [abs_def] append_area_12)
next
  case (VBinData t bs)
  then show ?thesis using appendBinData_appends by (simp add: encode_elem_def)
next
  case (VInt i)
  then show ?thesis
    using appends_header [OF appends_basic(2)] by (simp add: encode_elem_def append_int_def [abs_def] int_bytes_def)
qed (use assms(1) in \<open>simp_all add: flat_value_def encode_elem_def append_header_appends
       append_double_def [abs_def] append_StringData_def [abs_def] appendUndefined_def [abs_def]
       appendDate_def [abs_def] appendNull_def [abs_def] appendCode_def [abs_def]
       appendSymbol_def [abs_def] appendTimestamp_def [abs_def] append_long_def [abs_def]
       appendMinKey_def [abs_def] appendMaxKey_def [abs_def] appends_header appends_basic
       append_sized_string_appends\<close>)

lemma append_encoding:
  assumes "length junk = 4"
  shows "wf_value v \<Longrightarrow> appends (append_value junk n v) (encode_elem (n, v))"
    and "wf_elems es \<Longrightarrow> appends (append_elems junk es) (encode_elems es)"
proof (induction v and es arbitrary: n rule: encode_value_encode_elems.induct)
  case (3 es)
  then show ?case
    using appends_header [OF with_subobj_appends [OF _ assms], of _ _ Object n]
    by (simp add: encode_elem_def subobjStart_def [abs_def])
next
  case (4 es)
  then show ?case
    using appends_header [OF with_subobj_appends [OF _ assms], of _ _ Array n]
    by (simp add: encode_elem_def subarrayStart_def [abs_def])
next
  case (15 c es)
  then show ?case
    using appendCodeWScope_appends [of n c "encode_elems es"] by (simp add: encode_elem_def encode_def)
next
  case (22 m v es)
  then show ?case
    using appends_seq [of "append_value junk m v" "encode_elem (m, v)" "append_elems junk es" "encode_elems es"]
    by (simp add: encode_elem_def)
next
  case 21
  then show ?case by (simp add: appends_id)
qed (rule append_flat_value, simp add: flat_value_def, assumption)+

lemma BSONObj_init_built:
  assumes "length (encode es) + 4 \<le> 2 ^ 30"
  shows "BSONObj_init (encode es) =
    (if int (length (encode es)) \<le> BSONObjMaxInternalSize then Inr (encode es) else Inl (UAssert 10334))"
  using objsize_frame [of "encode_elems es" "[]"] assms by (simp add: BSONObj_init_def encode_def)

lemma build_document_cases:
  assumes "length junk = 4" "wf_elems es" "length (encode es) + 4 \<le> 2 ^ 30"
  shows "build_document junk es =
    (if int (length (encode es)) \<le> BSONObjMaxInternalSize then Inr (encode es)
     else if int (length (encode es)) + 4 \<le> BufferMaxSize then Inl (UAssert 10334) else Inl (UAssert 13548))"
proof -
  let ?b0 = "BufBuilder 516"
  have b0: "builder_ok ?b0" by (simp add: builder_ok_def BufBuilder_def bld_len_def BufferMaxSize_def)
  let ?all = "\<lambda>b. bindE (appendNum_int 0 b) (with_subobj junk (append_elems junk es))"
  have "appends ?all (le_bytes 4 (unat (0 :: int32)) @ frame (encode_elems es))"
    using append_encoding(2) [OF assms(1,2)] assms(1)
    by (intro appends_seq appends_basic with_subobj_appends)
  from appendsD [OF this b0]
  have all: "int (length (encode es)) + 4 \<le> BufferMaxSize \<Longrightarrow>
      \<exists>size. ?all ?b0 = Inr \<lparr>bld_data = le_bytes 4 0 @ encode es, bld_size = size\<rparr>"
    "\<not> int (length (encode es)) + 4 \<le> BufferMaxSize \<Longrightarrow> ?all ?b0 = Inl (UAssert 13548)"
    using assms(3) by (auto simp: BufBuilder_def bld_len_def encode_def)
  obtain size0 where b1: "appendNum_int 0 ?b0 = Inr \<lparr>bld_data = le_bytes 4 0, bld_size = size0\<rparr>"
    using appendsD(1) [OF appends_basic(2) b0, of 0]
    by (auto simp: BufBuilder_def bld_len_def BufferMaxSize_def)
  have "build_document junk es = bindE (?all ?b0) (\<lambda>b. BSONObj_init (drop 4 (bld_data b)))"
    using b1 by (simp add: build_document_def BSONObjBuilder_def with_subobj_def BSONObjBuilder_sub_def
        obj_done_def bindE_assoc Let_def case_prod_unfold)
  with all BSONObj_init_built [OF assms(3)] show ?thesis
    by (auto simp: BSONObjMaxInternalSize_def BSONObjMaxUserSize_def BufferMaxSize_def)
qed

lemma built_bytes:
  "length junk = 4 \<Longrightarrow> wf_elems es \<Longrightarrow> length (encode es) + 4 \<le> 2 ^ 30 \<Longrightarrow>
   build_document junk es = Inr doc \<Longrightarrow> doc = encode es"
  by (simp add: build_document_cases split: if_splits)

text \<open>
  (C3) Building a document with \<open>obj()\<close>: for every well-formed document of up to 1 GB, whatever bytes the reserved space held, the
  result is exactly its BSON encoding, nested documents included, when that is no longer than
  \<open>BSONObjMaxInternalSize\<close> (16 MB and 16 KB). A longer document is written too as long as it and its reference count fit 64 MB, and the
  constructor of \<open>BSONObj\<close> then fails with assertion 10334; beyond that the buffer fails with 13548.
\<close>

theorem build_document_encodes:
  assumes "length junk = 4" "wf_elems es" "length (encode es) + 4 \<le> 2 ^ 30"
  shows "build_document junk es =
    (if int (length (encode es)) \<le> BSONObjMaxInternalSize then Inr (encode es)
     else if int (length (encode es)) + 4 \<le> BufferMaxSize then Inl (UAssert 10334) else Inl (UAssert 13548))"
  by (rule build_document_cases [OF assms])

lemma build_document_encodes_witness:
  "build_document ''junk'' [(''a'', VObject [(''b'', VInt 7)])] = Inr (encode [(''a'', VObject [(''b'', VInt 7)])])"
  by (subst build_document_encodes) (simp_all add: nul_def encode_def BSONObjMaxInternalSize_def BSONObjMaxUserSize_def)

text \<open>
  End to end: whatever the builder finishes, the validator accepts.
\<close>

theorem built_documents_validate:
  assumes "length junk = 4" "wf_elems es" "length (encode es) + 4 \<le> 2 ^ 30"
    "build_document junk es = Inr doc"
  shows "validateBSON doc (of_nat (length doc)) = Some (Inr Status_OK)"
proof -
  have "doc = encode es" using built_bytes [OF assms] .
  with accepts_encoding [OF assms(2), of "[]"] assms(3) show ?thesis by simp
qed

lemma built_documents_validate_witness:
  "\<exists>doc. build_document ''junk'' [(''a'', VNull)] = Inr doc \<and>
     validateBSON doc (of_nat (length doc)) = Some (Inr Status_OK)"
proof -
  have "build_document ''junk'' [(''a'', VNull)] = Inr (encode [(''a'', VNull)])"
    by (subst build_document_cases) (simp_all add: nul_def encode_def BSONObjMaxInternalSize_def BSONObjMaxUserSize_def)
  with built_documents_validate [OF _ _ _ this] show ?thesis by (simp add: nul_def encode_def)
qed

end
