(* ===== verification/Bson_Element.thy ===== *)
theory Bson_Element
  imports Bson_Builder
begin

text \<open>
  \<open>src/mongo/bson/bsonelement.h\<close>, \<open>bsonobjiterator.h\<close> and the readers of \<open>bson-inl.h\<close>: how code
  walks over a document in memory.

  A pointer into a document is the byte string from its target to the end of the readable memory;
  reading past that is undefined. The readers trust the lengths they find, so their loops are
  partial functions. The theorems say that on encoded documents they compute what the abstract
  syntax says.
\<close>

definition read_int :: "string \<Rightarrow> int result" where
  "read_int p = (if length p < 4 then Inl UndefinedBehaviour else Inr (int_of_bytes (take 4 p)))"

definition strlen :: "string \<Rightarrow> nat result" where
  "strlen p = (case memchr p nul of None \<Rightarrow> Inl UndefinedBehaviour | Some n \<Rightarrow> Inr n)"

text \<open>\<open>mongo::strnlen\<close>: the length up to the first NUL among \<open>n\<close> bytes, or \<open>-1\<close>.\<close>

definition strnlen :: "string \<Rightarrow> int \<Rightarrow> int result" where
  "strnlen p n =
     (case memchr (take (nat n) p) nul of
        Some k \<Rightarrow> Inr (int k)
      | None \<Rightarrow> if nat n > length p then Inl UndefinedBehaviour else Inr (-1))"

subsection \<open>An element\<close>

definition elem_type :: "string \<Rightarrow> int result" where
  "elem_type e = (case e of [] \<Rightarrow> Inl UndefinedBehaviour | c # _ \<Rightarrow> Inr (signed_char c))"

definition elem_eoo :: "string \<Rightarrow> bool result" where
  "elem_eoo e = bindE (elem_type e) (\<lambda>t. Inr (t = BSONType_to_int EOO))"

definition fieldNameSize :: "string \<Rightarrow> int result" where
  "fieldNameSize e =
     bindE (elem_eoo e) (\<lambda>z.
       if z then Inr 0 else bindE (strlen (tl e)) (\<lambda>n. Inr (int_cast n + 1)))"

definition fieldName :: "string \<Rightarrow> string result" where
  "fieldName e =
     bindE (elem_eoo e) (\<lambda>z.
       if z then Inr [] else bindE (strlen (tl e)) (\<lambda>n. Inr (take n (tl e))))"

definition elem_value :: "string \<Rightarrow> string result" where
  "elem_value e = bindE (fieldNameSize e) (\<lambda>n. Inr (drop (nat n + 1) e))"

text \<open>The size of a value, by type; \<open>Inl\<close> also stands for a failed \<open>massert\<close>.\<close>

definition value_size :: "BSONType option \<Rightarrow> string \<Rightarrow> int result" where
  "value_size t p =
     (case t of
        None \<Rightarrow> Inl (UAssert 10320)
      | Some t \<Rightarrow>
          if t \<in> {EOO, Undefined, jstNULL, MaxKey, MinKey} then Inr 0
          else if t = Bool then Inr 1
          else if t = NumberInt then Inr 4
          else if t \<in> {Timestamp, Date, NumberDouble, NumberLong} then Inr 8
          else if t = jstOID then Inr 12
          else if t \<in> {Symbol, Code, String} then bindE (read_int p) (\<lambda>n. checked32 (n + 4))
          else if t = DBRef then
            bindE (read_int p) (\<lambda>n. bindE (checked32 (n + 4)) (\<lambda>m. checked32 (m + 12)))
          else if t \<in> {CodeWScope, Object, Array} then read_int p
          else if t = BinData then
            bindE (read_int p) (\<lambda>n. bindE (checked32 (n + 4)) (\<lambda>m. checked32 (m + 1)))
          else
            bindE (strlen p) (\<lambda>len1.
            bindE (strlen (drop (len1 + 1) p)) (\<lambda>len2. Inr (int_cast (len1 + 1 + len2 + 1)))))"

definition elem_size :: "string \<Rightarrow> int result" where
  "elem_size e =
     bindE (elem_type e) (\<lambda>t.
       if t = BSONType_to_int EOO then Inr 1
       else
         bindE (elem_value e) (\<lambda>p.
         bindE (value_size (BSONType_of_int t) p) (\<lambda>x.
         bindE (fieldNameSize e) (\<lambda>n.
         bindE (checked32 (x + n)) (\<lambda>y. checked32 (y + 1))))))"

definition elem_valuesize :: "string \<Rightarrow> int result" where
  "elem_valuesize e =
     bindE (elem_size e) (\<lambda>s. bindE (fieldNameSize e) (\<lambda>n. Inr (s - n - 1)))"

subsection \<open>The iterator\<close>

record bson_iter =
  it_mem :: string
  it_pos :: int
  it_end :: int

definition BSONObjIterator :: "string \<Rightarrow> bson_iter result" where
  "BSONObjIterator obj =
     bindE (read_int obj) (\<lambda>sz.
       if sz = 0 then Inr \<lparr>it_mem = obj, it_pos = 0, it_end = 0\<rparr>
       else Inr \<lparr>it_mem = obj, it_pos = 4, it_end = sz - 1\<rparr>)"

definition iter_more :: "bson_iter \<Rightarrow> bool" where
  "iter_more it \<longleftrightarrow> it_pos it < it_end it"

definition iter_moreWithEOO :: "bson_iter \<Rightarrow> bool" where
  "iter_moreWithEOO it \<longleftrightarrow> it_pos it \<le> it_end it"

definition iter_next :: "bson_iter \<Rightarrow> (string \<times> bson_iter) result" where
  "iter_next it =
     (if \<not> it_pos it \<le> it_end it then Inl Verify
      else if it_pos it < 0 then Inl UndefinedBehaviour
      else
        let e = drop (nat (it_pos it)) (it_mem it)
        in bindE (elem_size e) (\<lambda>n. Inr (e, it\<lparr>it_pos := it_pos it + n\<rparr>)))"

subsection \<open>Readers of a document\<close>

text \<open>The element returned when nothing is found: the default \<open>BSONElement()\<close>, of type EOO.\<close>

definition eoo_element :: string where
  "eoo_element = [nul]"

partial_function (option) getField_loop :: "string \<Rightarrow> bson_iter \<Rightarrow> string result option" where
  "getField_loop name it =
     (if \<not> iter_more it then Some (Inr eoo_element)
      else case iter_next it of
             Inl err \<Rightarrow> Some (Inl err)
           | Inr r \<Rightarrow>
               (case fieldName (fst r) of
                  Inl err \<Rightarrow> Some (Inl err)
                | Inr n \<Rightarrow>
                    if name = n then Some (Inr (fst r)) else getField_loop name (snd r)))"

definition getField :: "string \<Rightarrow> string \<Rightarrow> string result option" where
  "getField obj name =
     (case BSONObjIterator obj of Inl e \<Rightarrow> Some (Inl e) | Inr it \<Rightarrow> getField_loop name it)"

partial_function (option) nFields_loop :: "int \<Rightarrow> bson_iter \<Rightarrow> int result option" where
  "nFields_loop n it =
     (if \<not> iter_moreWithEOO it then Some (Inr n)
      else case iter_next it of
             Inl err \<Rightarrow> Some (Inl err)
           | Inr r \<Rightarrow>
               (case elem_eoo (fst r) of
                  Inl err \<Rightarrow> Some (Inl err)
                | Inr z \<Rightarrow> if z then Some (Inr n) else nFields_loop (n + 1) (snd r)))"

definition nFields :: "string \<Rightarrow> int result option" where
  "nFields obj =
     (case BSONObjIterator obj of Inl e \<Rightarrow> Some (Inl e) | Inr it \<Rightarrow> nFields_loop 0 it)"

subsection \<open>Reading an encoded element\<close>

lemma strlen_cstring: "nul \<notin> set s \<Longrightarrow> strlen (cstring s @ rest) = Inr (length s)"
  using memchr_append [of nul s rest] by (simp add: strlen_def cstring_def)

lemma read_int_bytes: "n < 2 ^ 31 \<Longrightarrow> read_int (int_bytes n @ rest) = Inr (int n)"
  using int_of_bytes_int_bytes [of n] by (simp add: read_int_def)

lemma encode_elem_simp: "encode_elem (n, v) @ rest = type_byte (value_type v) # cstring n @ encode_value v @ rest"
  by (simp add: encode_elem_def)

lemma value_type_int [simp]: "BSONType_to_int (value_type v) \<noteq> 0"
  by simp

lemma elem_eoo_encoded [simp]: "elem_eoo (encode_elem (n, v) @ rest) = Inr False"
  by (simp add: elem_eoo_def elem_type_def encode_elem_simp)

lemma elem_type_encoded [simp]: "elem_type (encode_elem (n, v) @ rest) = Inr (BSONType_to_int (value_type v))"
  by (simp add: elem_type_def encode_elem_simp)

lemma fieldName_encoded: "nul \<notin> set n \<Longrightarrow> fieldName (encode_elem (n, v) @ rest) = Inr n"
  using strlen_cstring [of n "encode_value v @ rest"]
  by (simp add: fieldName_def) (simp add: encode_elem_simp cstring_def)

lemma fieldNameSize_encoded:
  assumes "nul \<notin> set n" "length n + 1 < 2 ^ 31"
  shows "fieldNameSize (encode_elem (n, v) @ rest) = Inr (int (length n) + 1)"
  using strlen_cstring [OF assms(1), of "encode_value v @ rest"] assms(2)
  by (simp add: fieldNameSize_def) (simp add: encode_elem_simp int_cast_small)

lemma elem_value_encoded:
  assumes "nul \<notin> set n" "length n + 1 < 2 ^ 31"
  shows "elem_value (encode_elem (n, v) @ rest) = Inr (encode_value v @ rest)"
proof -
  have "nat (int (length n) + 1) + 1 = Suc (length (cstring n))" by simp
  then show ?thesis
    using fieldNameSize_encoded [OF assms]
    by (simp add: elem_value_def) (simp add: encode_elem_def)
qed

lemma value_size_encoded:
  assumes "wf_value v" "length (encode_value v) < 2 ^ 31"
  shows "value_size (Some (value_type v)) (encode_value v @ rest) = Inr (int (length (encode_value v)))"
proof (cases v)
  case (VRegEx r f)
  then show ?thesis
    using strlen_cstring [of r "cstring f @ rest"] strlen_cstring [of f rest] assms
    by (simp add: value_size_def int_cast_small)
qed (use assms in \<open>auto simp: value_size_def read_int_bytes sized_string_def frame_def checked32_def\<close>)

lemma elem_size_encoded:
  assumes "wf_value v" "nul \<notin> set n" "length (encode_elem (n, v)) < 2 ^ 31"
  shows "elem_size (encode_elem (n, v) @ rest) = Inr (int (length (encode_elem (n, v))))"
proof -
  have len: "length (encode_value v) < 2 ^ 31" "length n + 1 < 2 ^ 31"
    "length (encode_elem (n, v)) = length (encode_value v) + length n + 2"
    using assms(3) by (simp_all add: encode_elem_def)
  show ?thesis
    using elem_value_encoded [OF assms(2) len(2)] fieldNameSize_encoded [OF assms(2) len(2)]
      value_size_encoded [OF assms(1) len(1)] assms(3) len(3)
    by (simp add: elem_size_def checked32_def)
qed

subsection \<open>Walking over an encoded document\<close>

text \<open>The iterator of the document \<open>us @ vs\<close> that stands before \<open>vs\<close>.\<close>

definition iter_at :: "bson_elem list \<Rightarrow> bson_elem list \<Rightarrow> string \<Rightarrow> bson_iter" where
  "iter_at us vs rest =
     \<lparr>it_mem = encode (us @ vs) @ rest, it_pos = 4 + int (length (encode_elems us)),
      it_end = int (length (encode (us @ vs))) - 1\<rparr>"

lemma iter_start:
  assumes "length (encode es @ rest) < 2 ^ 31"
  shows "BSONObjIterator (encode es @ rest) = Inr (iter_at [] es rest)"
proof -
  have "read_int (encode es @ rest) = Inr (int (length (encode es)))"
    using read_int_bytes [of "length (encode_elems es) + 5"] assms by (simp add: encode_def frame_def)
  then show ?thesis by (auto simp: BSONObjIterator_def iter_at_def encode_def)
qed

lemma iter_mem_at:
  "drop (nat (it_pos (iter_at us vs rest))) (it_mem (iter_at us vs rest)) = encode_elems vs @ nul # rest"
proof -
  have "nat (4 + int (length (encode_elems us))) = length (int_bytes (length (encode_elems us @ encode_elems vs) + 5) @ encode_elems us)"
    by simp
  then show ?thesis by (simp add: iter_at_def encode_def frame_def nat_add_distrib)
qed

lemma iter_more_at [simp]: "iter_more (iter_at us vs rest) \<longleftrightarrow> vs \<noteq> []"
  by (cases vs) (auto simp: iter_more_def iter_at_def encode_def encode_elems_Cons encode_elem_def)

lemma iter_next_at:
  assumes "wf_elems (us @ (n, v) # vs)" "length (encode (us @ (n, v) # vs) @ rest) < 2 ^ 31"
  shows "iter_next (iter_at us ((n, v) # vs) rest) =
    Inr (encode_elem (n, v) @ encode_elems vs @ nul # rest, iter_at (us @ [(n, v)]) vs rest)"
proof -
  let ?it = "iter_at us ((n, v) # vs) rest"
  have e: "drop (nat (it_pos ?it)) (it_mem ?it) = encode_elem (n, v) @ encode_elems vs @ nul # rest"
    using iter_mem_at [of us "(n, v) # vs" rest] by (simp add: encode_elem_def)
  have "elem_size (encode_elem (n, v) @ encode_elems vs @ nul # rest) = Inr (int (length (encode_elem (n, v))))"
    using assms by (intro elem_size_encoded) (auto simp: encode_def encode_elem_def)
  moreover have "it_pos ?it \<le> it_end ?it" "\<not> it_pos ?it < 0" by (simp_all add: iter_at_def encode_def)
  moreover have "?it\<lparr>it_pos := it_pos ?it + int (length (encode_elem (n, v)))\<rparr> = iter_at (us @ [(n, v)]) vs rest"
    by (simp add: iter_at_def encode_elem_def)
  ultimately show ?thesis using e by (simp add: iter_next_def)
qed

lemma getField_loop_at:
  assumes "wf_elems (us @ vs)" "length (encode (us @ vs) @ rest) < 2 ^ 31"
  shows "case find (\<lambda>e. fst e = name) vs of
      None \<Rightarrow> getField_loop name (iter_at us vs rest) = Some (Inr eoo_element)
    | Some e \<Rightarrow> \<exists>post. length (encode_elem e @ post) < 2 ^ 31 \<and>
        getField_loop name (iter_at us vs rest) = Some (Inr (encode_elem e @ post))"
  using assms
proof (induction vs arbitrary: us)
  case Nil
  then show ?case by (simp add: getField_loop.simps)
next
  case (Cons p vs)
  obtain n v where p: "p = (n, v)" by fastforce
  let ?e = "encode_elem (n, v) @ encode_elems vs @ nul # rest"
  have next': "iter_next (iter_at us ((n, v) # vs) rest) = Inr (?e, iter_at (us @ [(n, v)]) vs rest)"
    using Cons.prems p by (intro iter_next_at) simp_all
  have name': "fieldName ?e = Inr n" using Cons.prems p by (intro fieldName_encoded) simp
  show ?case
  proof (cases "n = name")
    case True
    have "getField_loop name (iter_at us (p # vs) rest) = Some (Inr ?e)"
      using next' name' p True by (simp add: getField_loop.simps)
    moreover have "length ?e < 2 ^ 31" using Cons.prems p by (simp add: encode_def encode_elem_def)
    ultimately show ?thesis using p True by auto
  next
    case False
    then have "getField_loop name (iter_at us (p # vs) rest) =
        getField_loop name (iter_at (us @ [(n, v)]) vs rest)"
      using next' name' p by (subst getField_loop.simps) auto
    with Cons.IH [of "us @ [(n, v)]"] Cons.prems p False show ?thesis
      by (auto split: option.splits)
  qed
qed

lemma nFields_loop_at:
  assumes "wf_elems (us @ vs)" "length (encode (us @ vs) @ rest) < 2 ^ 31"
  shows "nFields_loop k (iter_at us vs rest) = Some (Inr (k + int (length vs)))"
  using assms
proof (induction vs arbitrary: us k)
  case Nil
  have m: "drop (nat (it_pos (iter_at us [] rest))) (it_mem (iter_at us [] rest)) = nul # rest"
    using iter_mem_at [of us "[]" rest] by simp
  have "iter_next (iter_at us [] rest) =
      Inr (nul # rest, (iter_at us [] rest)\<lparr>it_pos := it_pos (iter_at us [] rest) + 1\<rparr>)"
    using m by (simp add: iter_next_def elem_size_def elem_type_def nul_def)
       (simp add: iter_at_def encode_def)
  moreover have "iter_moreWithEOO (iter_at us [] rest)"
    by (simp add: iter_moreWithEOO_def iter_at_def encode_def)
  moreover have "elem_eoo (nul # rest) = Inr True" by (simp add: elem_eoo_def elem_type_def nul_def)
  ultimately show ?case by (subst nFields_loop.simps) simp
next
  case (Cons p vs)
  obtain n v where p: "p = (n, v)" by fastforce
  have "iter_next (iter_at us ((n, v) # vs) rest) =
      Inr (encode_elem (n, v) @ encode_elems vs @ nul # rest, iter_at (us @ [(n, v)]) vs rest)"
    using Cons.prems p by (intro iter_next_at) simp_all
  moreover have "iter_moreWithEOO (iter_at us ((n, v) # vs) rest)"
    by (simp add: iter_moreWithEOO_def iter_at_def encode_def)
  ultimately have "nFields_loop k (iter_at us (p # vs) rest) =
      nFields_loop (k + 1) (iter_at (us @ [(n, v)]) vs rest)"
    using p by (subst nFields_loop.simps) auto
  with Cons.IH [of "us @ [(n, v)]" "k + 1"] Cons.prems p show ?case by simp
qed

text \<open>
  Counting: \<open>nFields\<close> of an encoded document is the number of its elements, so the sizes the
  iterator computes element by element lead exactly to the terminator.
\<close>

theorem nFields_encoded:
  assumes "wf_elems es" "length (encode es @ rest) < 2 ^ 31"
  shows "nFields (encode es @ rest) = Some (Inr (int (length es)))"
  using iter_start [OF assms(2)] nFields_loop_at [of "[]" es rest 0] assms by (simp add: nFields_def)

lemma nFields_encoded_witness:
  "nFields (encode [(''a'', VRegEx ''x'' ''i''), (''b'', VDBRef ''ns'' ''123456789012'')] @ ''tail'') = Some (Inr 2)"
  using nFields_encoded [of "[(''a'', VRegEx ''x'' ''i''), (''b'', VDBRef ''ns'' ''123456789012'')]" "''tail''"]
  by (simp add: nul_def encode_def)

subsection \<open>Looking up fields\<close>

lemma getField_encoded:
  assumes "wf_elems es" "length (encode es @ rest) < 2 ^ 31"
  shows "case find (\<lambda>e. fst e = name) es of
      None \<Rightarrow> getField (encode es @ rest) name = Some (Inr eoo_element)
    | Some e \<Rightarrow> \<exists>post. length (encode_elem e @ post) < 2 ^ 31 \<and>
        getField (encode es @ rest) name = Some (Inr (encode_elem e @ post))"
  using getField_loop_at [of "[]" es rest name] iter_start [OF assms(2)] assms
  by (auto simp: getField_def split: option.splits)

end
