(* ===== verification/String_Utils.thy ===== *)
theory String_Utils
  imports String_Data
begin

text \<open>
  \<open>src/mongo/util/stringutils.cpp\<close>: splitting and joining at a delimiter, the comparison of dotted
  field names with embedded numbers (\<open>LexNumCmp\<close>), and the comparison of version strings.
\<close>

text \<open>The loop of \<open>splitStringDelim\<close>, on the rest of the string from \<open>beg\<close> on.\<close>

function split_loop :: "char \<Rightarrow> string \<Rightarrow> string list" where
  "split_loop delim str =
     (case memchr str delim of
        None \<Rightarrow> [str]
      | Some pos \<Rightarrow> take pos str # split_loop delim (drop (pos + 1) str))"
  by pat_completeness auto
termination
  by (relation "measure (\<lambda>(delim, str). length str)") (auto simp: memchr_Some_iff)

declare split_loop.simps [simp del]

definition splitStringDelim :: "string \<Rightarrow> char \<Rightarrow> string list" where
  "splitStringDelim str delim = (if str = [] then [] else split_loop delim str)"

fun join_loop :: "char \<Rightarrow> bool \<Rightarrow> string list \<Rightarrow> string" where
  "join_loop delim first [] = []"
| "join_loop delim first (s # ss) = (if first then [] else [delim]) @ s @ join_loop delim False ss"

definition joinStringDelim :: "string list \<Rightarrow> char \<Rightarrow> string" where
  "joinStringDelim strs delim = join_loop delim True strs"

lemma split_loop_not_Nil [simp]: "split_loop d s \<noteq> []"
  by (subst split_loop.simps) (simp split: option.splits)

lemma memchr_split: "memchr s d = Some p \<Longrightarrow> s = take p s @ d # drop (p + 1) s \<and> d \<notin> set (take p s)"
  by (auto simp: memchr_Some_iff id_take_nth_drop in_set_conv_nth)

lemma join_split: "join_loop d True (split_loop d s) = s"
proof (induction d s rule: split_loop.induct)
  case (1 d s)
  show ?case
  proof (cases "memchr s d")
    case None
    then show ?thesis by (subst split_loop.simps) simp
  next
    case (Some p)
    obtain t ts where ts: "split_loop d (drop (p + 1) s) = t # ts"
      by (cases "split_loop d (drop (p + 1) s)") auto
    with 1 [OF Some] have "t @ join_loop d False ts = drop (p + 1) s" by simp
    with Some ts memchr_split [OF Some] show ?thesis by (subst split_loop.simps) simp
  qed
qed

lemma split_join:
  "d \<notin> set s \<Longrightarrow> \<forall>t \<in> set ss. d \<notin> set t \<Longrightarrow> split_loop d (s @ join_loop d False ss) = s # ss"
proof (induction ss arbitrary: s)
  case Nil
  then show ?case by (subst split_loop.simps) (simp add: memchr_None_iff [THEN iffD2])
next
  case (Cons t ss)
  have "memchr (s @ d # t @ join_loop d False ss) d = Some (length s)"
    using Cons.prems(1) by (rule memchr_append)
  with Cons.IH [of t] Cons.prems show ?case by (subst split_loop.simps) simp
qed

lemma join_of_split: "joinStringDelim (splitStringDelim s d) d = s"
  using join_split [of d s] by (auto simp: joinStringDelim_def splitStringDelim_def)

lemma split_of_join:
  assumes "\<forall>t \<in> set ss. d \<notin> set t" "ss \<noteq> [[]]"
  shows "splitStringDelim (joinStringDelim ss d) d = ss"
proof (cases ss)
  case Nil
  then show ?thesis by (simp add: joinStringDelim_def splitStringDelim_def)
next
  case (Cons t ts)
  have "t @ join_loop d False ts \<noteq> []" using assms(2) Cons by (cases ts) auto
  then show ?thesis
    using split_join [of d t ts] assms(1) Cons by (simp add: joinStringDelim_def splitStringDelim_def)
qed

text \<open>
  Splitting and joining are inverse: joining the parts of any string gives it back, and
  splitting the join of parts that do not contain the delimiter gives the parts back, unless the
  join is the empty string (one empty part).
\<close>

theorem split_join_roundtrip:
  "joinStringDelim (splitStringDelim s d) d = s \<and>
   ((\<forall>t \<in> set ss. d \<notin> set t) \<and> ss \<noteq> [[]] \<longrightarrow> splitStringDelim (joinStringDelim ss d) d = ss)"
  using join_of_split split_of_join by blast

lemma split_join_roundtrip_witness:
  "splitStringDelim (joinStringDelim [''a'', [], ''b''] CHR '','') CHR '','' = [''a'', [], ''b'']"
  using split_join_roundtrip [of _ "CHR '',''" "[''a'', [], ''b'']"] by simp

subsection \<open>LexNumCmp\<close>

definition isdigit :: "char \<Rightarrow> bool" where
  "isdigit c \<longleftrightarrow> CHR ''0'' \<le> c \<and> c \<le> CHR ''9''"

text \<open>The order of (signed) \<open>char\<close> values.\<close>

definition char_value :: "char \<Rightarrow> int" where
  "char_value c = (let n = (of_char c :: nat) in if n < 128 then int n else int n - 256)"

text \<open>What remains of both strings; the final tests look at the first character left.\<close>

definition lexnum_end :: "string \<Rightarrow> string \<Rightarrow> int" where
  "lexnum_end s1 s2 =
     (if s1 \<noteq> [] \<and> hd s1 \<noteq> CHR 0x00 then 1
      else if s2 \<noteq> [] \<and> hd s2 \<noteq> CHR 0x00 then -1
      else 0)"

definition strip_zeros :: "bool \<Rightarrow> string \<Rightarrow> string" where
  "strip_zeros startWord s = (if startWord then dropWhile (\<lambda>c. c = CHR ''0'') s else s)"

lemma strip_digits_shorter:
  "isdigit c \<Longrightarrow> length (dropWhile isdigit (strip_zeros w (c # cs))) < length (c # cs)"
proof -
  assume c: "isdigit c"
  show ?thesis
  proof (cases "w \<and> c = CHR ''0''")
    case True
    have "length (dropWhile isdigit (dropWhile (\<lambda>c. c = CHR ''0'') cs)) \<le> length cs"
      by (meson le_trans length_dropWhile_le)
    with True show ?thesis by (simp add: strip_zeros_def)
  next
    case False
    then have "strip_zeros w (c # cs) = c # cs" by (auto simp: strip_zeros_def)
    with c show ?thesis by (simp add: le_imp_less_Suc length_dropWhile_le)
  qed
qed

text \<open>
  One round of the loop on two non-empty rests: a result, or the word flag and the rests for the
  next round.
\<close>

definition lexnum_numbers :: "string \<Rightarrow> string \<Rightarrow> int + bool \<times> string \<times> string" where
  "lexnum_numbers t1 t2 =
     (let num1 = takeWhile isdigit t1; num2 = takeWhile isdigit t2
      in if length num1 > length num2 then Inl 1
         else if length num2 > length num1 then Inl (-1)
         else if memcmp num1 num2 \<noteq> 0 then Inl (memcmp num1 num2)
         else Inr (False, dropWhile isdigit t1, dropWhile isdigit t2))"

definition lexnum_round ::
    "bool \<Rightarrow> bool \<Rightarrow> char \<Rightarrow> string \<Rightarrow> char \<Rightarrow> string \<Rightarrow> int + bool \<times> string \<times> string" where
  "lexnum_round lexOnly startWord c1 r1 c2 r2 =
     (if c1 = CHR ''.'' \<and> c2 \<noteq> CHR ''.'' then Inl (-1)
      else if c2 = CHR ''.'' \<and> c1 \<noteq> CHR ''.'' then Inl 1
      else if c1 = CHR ''.'' \<and> c2 = CHR ''.'' then Inr (True, r1, r2)
      else if c1 = CHR 0xFF \<and> c2 \<noteq> CHR 0xFF then Inl 1
      else if c2 = CHR 0xFF \<and> c1 \<noteq> CHR 0xFF then Inl (-1)
      else if \<not> lexOnly \<and> isdigit c1 \<and> isdigit c2 then
        lexnum_numbers (strip_zeros startWord (c1 # r1)) (strip_zeros startWord (c2 # r2))
      else if \<not> lexOnly \<and> isdigit c1 then Inl 1
      else if \<not> lexOnly \<and> isdigit c2 then Inl (-1)
      else if char_value c1 > char_value c2 then Inl 1
      else if char_value c2 > char_value c1 then Inl (-1)
      else Inr (False, r1, r2))"

lemma lexnum_round_shorter:
  "lexnum_round l w c1 r1 c2 r2 = Inr (w', t1, t2) \<Longrightarrow> length t1 < length (c1 # r1)"
  using strip_digits_shorter [of c1 w r1]
  by (auto simp: lexnum_round_def lexnum_numbers_def Let_def split: if_splits)

function LexNumCmp_cmp :: "bool \<Rightarrow> bool \<Rightarrow> string \<Rightarrow> string \<Rightarrow> int" where
  "LexNumCmp_cmp lexOnly startWord [] s2 = lexnum_end [] s2"
| "LexNumCmp_cmp lexOnly startWord (c1 # r1) [] = lexnum_end (c1 # r1) []"
| "LexNumCmp_cmp lexOnly startWord (c1 # r1) (c2 # r2) =
     (case lexnum_round lexOnly startWord c1 r1 c2 r2 of
        Inl result \<Rightarrow> result
      | Inr (startWord', t1, t2) \<Rightarrow> LexNumCmp_cmp lexOnly startWord' t1 t2)"
  by pat_completeness auto
termination
  by (relation "measure (\<lambda>(lexOnly, startWord, s1, s2). length s1)")
     (auto dest: lexnum_round_shorter)

definition LexNumCmp_less :: "bool \<Rightarrow> string \<Rightarrow> string \<Rightarrow> bool" where
  "LexNumCmp_less lexOnly s1 s2 \<longleftrightarrow> LexNumCmp_cmp lexOnly True s1 s2 < 0"

definition versionCmp :: "string \<Rightarrow> string \<Rightarrow> int" where
  "versionCmp rhs lhs =
     (if rhs = lhs then 0
      else if length rhs < length lhs \<and>
              memcmp rhs (take (length rhs) lhs) = 0 \<and> lhs ! length rhs = CHR ''-'' then 1
      else if length rhs > length lhs \<and>
              memcmp (take (length lhs) rhs) lhs = 0 \<and> rhs ! length lhs = CHR ''-'' then -1
      else LexNumCmp_cmp False True rhs lhs)"

lemma memcmp_swap: "length a = length b \<Longrightarrow> memcmp b a = - memcmp a b"
  by (induction a b rule: list_induct2) auto

fun swapped :: "int + bool \<times> string \<times> string \<Rightarrow> int + bool \<times> string \<times> string" where
  "swapped (Inl r) = Inl (- r)"
| "swapped (Inr (w, a, b)) = Inr (w, b, a)"

lemma lexnum_numbers_swap: "lexnum_numbers t2 t1 = swapped (lexnum_numbers t1 t2)"
proof (cases "length (takeWhile isdigit t1)" "length (takeWhile isdigit t2)" rule: linorder_cases)
  case equal
  then have m: "memcmp (takeWhile isdigit t2) (takeWhile isdigit t1) =
      - memcmp (takeWhile isdigit t1) (takeWhile isdigit t2)" by (rule memcmp_swap)
  show ?thesis
    by (cases "memcmp (takeWhile isdigit t1) (takeWhile isdigit t2) = 0")
       (simp_all add: lexnum_numbers_def m equal)
qed (simp_all add: lexnum_numbers_def)

lemma lexnum_round_swap: "lexnum_round l w c2 r2 c1 r1 = swapped (lexnum_round l w c1 r1 c2 r2)"
proof -
  note n = lexnum_numbers_swap [of "strip_zeros w (c2 # r2)" "strip_zeros w (c1 # r1)"]
  consider "c1 = CHR ''.'' \<or> c2 = CHR ''.''" | "c1 = CHR 0xFF \<or> c2 = CHR 0xFF" "c1 \<noteq> CHR ''.''" "c2 \<noteq> CHR ''.''"
    | "c1 \<noteq> CHR ''.''" "c2 \<noteq> CHR ''.''" "c1 \<noteq> CHR 0xFF" "c2 \<noteq> CHR 0xFF" by blast
  then show ?thesis
  proof cases
    case 1
    then show ?thesis by (cases "c1 = CHR ''.''"; cases "c2 = CHR ''.''"; simp add: lexnum_round_def)
  next
    case 2
    then show ?thesis
      by (cases "c1 = CHR 0xFF"; cases "c2 = CHR 0xFF"; simp add: lexnum_round_def isdigit_def less_eq_char_def)
  next
    case 3
    then show ?thesis
      by (cases l; cases "isdigit c1"; cases "isdigit c2"; cases "char_value c1" "char_value c2" rule: linorder_cases)
         (simp_all add: lexnum_round_def n)
  qed
qed

lemma LexNumCmp_swap: "LexNumCmp_cmp l w b a = - LexNumCmp_cmp l w a b"
proof (induction l w a b rule: LexNumCmp_cmp.induct)
  case (1 l w s2)
  then show ?case by (cases s2) (simp_all add: lexnum_end_def)
next
  case (2 l w c1 r1)
  then show ?case by (simp add: lexnum_end_def)
next
  case (3 l w c1 r1 c2 r2)
  then show ?case
    using lexnum_round_swap [of l w c2 r2 c1 r1]
    by (cases "lexnum_round l w c1 r1 c2 r2") auto
qed

lemma versionCmp_swap: "versionCmp b a = - versionCmp a b"
proof -
  have "memcmp b (take (length b) a) = - memcmp (take (length b) a) b" if "length b < length a"
    using that by (intro memcmp_swap) simp
  moreover have "memcmp a (take (length a) b) = - memcmp (take (length a) b) a" if "length a < length b"
    using that by (intro memcmp_swap) simp
  ultimately show ?thesis
    unfolding versionCmp_def using LexNumCmp_swap [of False True b a] by auto
qed

text \<open>
  The comparisons are antisymmetric: exchanging the operands negates the result, of
  \<open>LexNumCmp\<close> in both modes and of \<open>versionCmp\<close>; so equal operands compare as equal and at most one
  of two names is less than the other.
\<close>

theorem lexnum_antisymmetric:
  "LexNumCmp_cmp l w b a = - LexNumCmp_cmp l w a b \<and> versionCmp b a = - versionCmp a b \<and>
   LexNumCmp_cmp l w a a = 0"
  using LexNumCmp_swap [of l w b a] LexNumCmp_swap [of l w a a] versionCmp_swap [of b a] by simp

end
