(* ===== verification/Namespace_String.thy ===== *)
theory Namespace_String
  imports String_Data Status
begin

text \<open>
  \<open>src/mongo/db/namespace_string.h\<close> and \<open>namespace_string-inl.h\<close>: a fully qualified collection name
  \<open>db.coll\<close> with the position of its first dot, the rules for database and collection names, and
  the comparison of two namespaces by database.
\<close>

record namespace_string =
  ns_ns :: string
  ns_dotIndex :: "nat option"

definition NamespaceString_default :: namespace_string where
  "NamespaceString_default = \<lparr>ns_ns = [], ns_dotIndex = Some 0\<rparr>"

definition NamespaceString :: "string \<Rightarrow> namespace_string" where
  "NamespaceString ns = \<lparr>ns_ns = ns, ns_dotIndex = memchr ns CHR ''.''\<rparr>"

definition NamespaceString_of :: "string \<Rightarrow> string \<Rightarrow> namespace_string result" where
  "NamespaceString_of dbName collectionName =
     (if StringData_find_char dbName CHR ''.'' 0 \<noteq> None then Inl (UAssert 17235)
      else if \<not> (collectionName = [] \<or> collectionName ! 0 \<noteq> CHR ''.'') then Inl (UAssert 17246)
      else
        let ns = dbName @ CHR ''.'' # collectionName
        in if memchr ns (CHR 0x00) \<noteq> None then Inl (UAssert 17295)
           else Inr \<lparr>ns_ns = ns, ns_dotIndex = Some (length dbName)\<rparr>)"

definition ns_db :: "namespace_string \<Rightarrow> string" where
  "ns_db n = (case ns_dotIndex n of None \<Rightarrow> [] | Some i \<Rightarrow> take i (ns_ns n))"

text \<open>
  With no byte behind the dot position the length \<open>_ns.size() - 1 - _dotIndex\<close> wraps to \<open>npos\<close>, and
  the string starts behind its terminator.
\<close>

definition ns_coll :: "namespace_string \<Rightarrow> string result" where
  "ns_coll n =
     (case ns_dotIndex n of
        None \<Rightarrow> Inr []
      | Some i \<Rightarrow>
          if length (ns_ns n) < i + 1 then Inl UndefinedBehaviour else Inr (drop (i + 1) (ns_ns n)))"

definition ns_eq :: "namespace_string \<Rightarrow> namespace_string \<Rightarrow> bool" where
  "ns_eq a b \<longleftrightarrow> ns_ns a = ns_ns b"

definition ns_less :: "namespace_string \<Rightarrow> namespace_string \<Rightarrow> bool" where
  "ns_less a b \<longleftrightarrow> ns_ns a < ns_ns b"

definition ns_isSystem :: "namespace_string \<Rightarrow> bool result" where
  "ns_isSystem n = bindE (ns_coll n) (\<lambda>c. Inr (StringData_startsWith c ''system.''))"

definition ns_isSystemDotIndexes :: "namespace_string \<Rightarrow> bool result" where
  "ns_isSystemDotIndexes n = bindE (ns_coll n) (\<lambda>c. Inr (c = ''system.indexes''))"

definition ns_isConfigDB :: "namespace_string \<Rightarrow> bool" where
  "ns_isConfigDB n \<longleftrightarrow> ns_db n = ''config''"

definition ns_isCommand :: "namespace_string \<Rightarrow> bool result" where
  "ns_isCommand n = bindE (ns_coll n) (\<lambda>c. Inr (c = ''$cmd''))"

definition ns_isSpecialCommand :: "namespace_string \<Rightarrow> bool result" where
  "ns_isSpecialCommand n = bindE (ns_coll n) (\<lambda>c. Inr (StringData_startsWith c ''$cmd.sys''))"

subsection \<open>Names\<close>

definition oplog :: "string \<Rightarrow> bool" where
  "oplog ns \<longleftrightarrow> ns = ''local.oplog.rs'' \<or> ns = ''local.oplog.$main''"

definition normal :: "string \<Rightarrow> bool" where
  "normal ns = (if StringData_find_char ns CHR ''$'' 0 = None then True else oplog ns)"

text \<open>\<open>substr\<close> of \<open>npos\<close>, for a name without a dot, raises \<open>std::out_of_range\<close>.\<close>

definition special :: "string \<Rightarrow> bool result" where
  "special ns =
     (if \<not> normal ns then Inr True
      else
        case StringData_find_char ns CHR ''.'' 0 of
          None \<Rightarrow> Inl OutOfRange
        | Some i \<Rightarrow> bindE (StringData_substr ns i None) (\<lambda>s. Inr (StringData_startsWith s ''.system.'')))"

definition bad_db_char :: "char \<Rightarrow> bool" where
  "bad_db_char c \<longleftrightarrow>
     c = CHR 0x00 \<or> c = CHR ''/'' \<or> c = CHR 0x5C \<or> c = CHR ''.'' \<or> c = CHR '' '' \<or> c = CHR 0x22"

fun no_bad_char :: "(char \<Rightarrow> bool) \<Rightarrow> string \<Rightarrow> bool" where
  "no_bad_char bad [] = True"
| "no_bad_char bad (c # cs) = (if bad c then False else no_bad_char bad cs)"

definition validDBName :: "string \<Rightarrow> bool" where
  "validDBName db = (if length db = 0 \<or> length db > 64 then False else no_bad_char bad_db_char db)"

definition validCollectionName :: "string \<Rightarrow> bool" where
  "validCollectionName coll =
     (if coll = [] then False else no_bad_char (\<lambda>c. c = CHR 0x00 \<or> c = CHR ''$'') coll)"

definition validCollectionComponent :: "string \<Rightarrow> bool result" where
  "validCollectionComponent ns =
     (case StringData_find_char ns CHR ''.'' 0 of
        None \<Rightarrow> Inr False
      | Some idx \<Rightarrow>
          bindE (StringData_substr ns (idx + 1) None) (\<lambda>c. Inr (validCollectionName c \<or> oplog ns)))"

definition ns_isValid :: "namespace_string \<Rightarrow> bool result" where
  "ns_isValid n = (if validDBName (ns_db n) then bindE (ns_coll n) (\<lambda>c. Inr (c \<noteq> [])) else Inr False)"

definition getSisterNS :: "namespace_string \<Rightarrow> string \<Rightarrow> string result" where
  "getSisterNS n local =
     (if \<not> (length local \<noteq> 0 \<and> local ! 0 \<noteq> CHR ''.'') then Inl Verify
      else Inr (ns_db n @ ''.'' @ local))"

definition getSystemIndexesCollection :: "namespace_string \<Rightarrow> string" where
  "getSystemIndexesCollection n = ns_db n @ ''.system.indexes''"

definition getCommandNS :: "namespace_string \<Rightarrow> string" where
  "getCommandNS n = ns_db n @ ''.$cmd''"

definition nsToDatabaseSubstring :: "string \<Rightarrow> string result" where
  "nsToDatabaseSubstring ns =
     (case StringData_find_char ns CHR ''.'' 0 of
        None \<Rightarrow> if length ns < 128 then Inr ns else Inl (UAssert 10078)
      | Some i \<Rightarrow> if i < 128 then StringData_substr ns 0 (Some i) else Inl (UAssert 10088))"

definition nsToCollectionSubstring :: "string \<Rightarrow> string result" where
  "nsToCollectionSubstring ns =
     (case StringData_find_char ns CHR ''.'' 0 of
        None \<Rightarrow> Inl (UAssert 16886)
      | Some i \<Rightarrow> StringData_substr ns (i + 1) None)"

subsection \<open>Comparison by database\<close>

text \<open>\<open>char\<close> is signed.\<close>

definition schar :: "char \<Rightarrow> int" where
  "schar c = (let n = (of_char c :: nat) in if n < 128 then int n else int n - 256)"

fun nsDBHash_loop :: "int \<Rightarrow> string \<Rightarrow> int result" where
  "nsDBHash_loop hash [] = Inr hash"
| "nsDBHash_loop hash (c # cs) =
     (if c = CHR ''.'' then Inr hash
      else bindE (checked32 (hash + 11 * schar c)) (\<lambda>h. bindE (checked32 (h * 3)) (\<lambda>h. nsDBHash_loop h cs)))"

definition nsDBHash :: "string \<Rightarrow> int result" where
  "nsDBHash ns = nsDBHash_loop 7 ns"

text \<open>The loop over \<open>a\<close>, with the rest of \<open>b\<close> from position \<open>i\<close> on.\<close>

fun nsDBEquals :: "string \<Rightarrow> string \<Rightarrow> bool" where
  "nsDBEquals [] b = (b = [] \<or> hd b = CHR ''.'')"
| "nsDBEquals (x # a) b =
     (if x = CHR ''.'' then (if b = [] then True else if hd b = CHR ''.'' then True else False)
      else if b = [] then False
      else if hd b \<noteq> x then False
      else nsDBEquals a (tl b))"

subsection \<open>Properties\<close>

definition db_part :: "string \<Rightarrow> string" where
  "db_part ns = takeWhile (\<lambda>c. c \<noteq> CHR ''.'') ns"

lemma no_bad_char_iff [simp]: "no_bad_char bad s \<longleftrightarrow> (\<forall>c \<in> set s. \<not> bad c)"
  by (induction s) auto

lemma nsDBEquals_db_part: "nsDBEquals a b \<longleftrightarrow> db_part a = db_part b"
proof (induction a b rule: nsDBEquals.induct)
  case (1 b)
  then show ?case by (cases b) (auto simp: db_part_def)
next
  case (2 x a b)
  then show ?case by (cases b) (auto simp: db_part_def)
qed

lemma nsDBHash_loop_db_part: "nsDBHash_loop h ns = nsDBHash_loop h (db_part ns)"
  by (induction ns arbitrary: h) (auto simp: db_part_def intro!: bindE_cong)

text \<open>
  Namespaces compare equal by database exactly when the parts before their first dots agree,
  and then they have the same hash, as a hash table keyed by database needs.
\<close>

theorem nsDBEquals_correct:
  "(nsDBEquals a b \<longleftrightarrow> db_part a = db_part b) \<and> (nsDBEquals a b \<longrightarrow> nsDBHash a = nsDBHash b)"
  using nsDBEquals_db_part nsDBHash_loop_db_part by (metis nsDBHash_def)

lemma nsDBEquals_correct_witness:
  "nsDBEquals ''db.a'' ''db.b.c'' \<and> nsDBHash ''db.a'' = nsDBHash ''db.b.c''"
  using nsDBEquals_correct [of "''db.a''" "''db.b.c''"] by simp

lemma memchr_0_split: "memchr (a @ c # b) c = Some i \<Longrightarrow> c \<notin> set a \<Longrightarrow> i = length a"
  using memchr_append [of c a b] by simp

text \<open>
  Taking a namespace apart: the two-part constructor accepts exactly a database name without
  a dot, a collection name that does not start with one and no NUL; then \<open>db\<close> and \<open>coll\<close> give the
  parts back, and parsing the full name again gives the same object.
\<close>

theorem NamespaceString_parts:
  "(case NamespaceString_of db coll of
      Inl _ \<Rightarrow> CHR ''.'' \<in> set db \<or> (\<exists>c. coll = CHR ''.'' # c) \<or> CHR 0x00 \<in> set (db @ coll)
    | Inr n \<Rightarrow> CHR ''.'' \<notin> set db \<and> ns_db n = db \<and> ns_coll n = Inr coll \<and>
        NamespaceString (ns_ns n) = n)"
proof (cases "CHR ''.'' \<in> set db \<or> (\<exists>c. coll = CHR ''.'' # c) \<or> CHR 0x00 \<in> set (db @ coll)")
  case True
  then show ?thesis
    by (cases coll)
       (auto simp: NamespaceString_of_def Let_def memchr_None_iff split: sum.splits if_splits)
next
  case False
  then have "NamespaceString_of db coll =
      Inr \<lparr>ns_ns = db @ CHR ''.'' # coll, ns_dotIndex = Some (length db)\<rparr>"
    by (cases coll) (auto simp: NamespaceString_of_def Let_def memchr_None_iff)
  with False show ?thesis
    using memchr_append [of "CHR ''.''" db coll]
    by (auto simp: ns_db_def ns_coll_def NamespaceString_def)
qed

text \<open>
  The default constructor leaves the dot position at zero in an empty string, so \<open>coll()\<close> of a
  default namespace reads behind the string's terminator.
\<close>

theorem default_namespace_coll: "ns_coll NamespaceString_default = Inl UndefinedBehaviour"
  by (simp add: ns_coll_def NamespaceString_default_def)

end
