(* ===== verification/Action_Set.thy ===== *)
theory Action_Set
  imports Status String_Utils Namespace_String
begin

unbundle bit_operations_syntax

text \<open>
  \<open>src/mongo/db/auth\<close>: action types (\<open>action_types.txt\<close> and the class that
  \<open>utils/generate_action_types.cpp\<close> writes from it), sets of actions as bit sets
  (\<open>action_set.{h,cpp}\<close>), resource patterns (\<open>resource_pattern.{h,cpp}\<close>) and privileges
  (\<open>privilege.{h,cpp}\<close>).
\<close>

subsection \<open>Action types\<close>

text \<open>The identifier of an action is its position in the list.\<close>

type_synonym action_type = nat

definition action_names :: "string list" where
  "action_names =
     [''addShard'', ''anyAction'', ''applicationMessage'', ''auditLogRotate'', ''authCheck'',
      ''authSchemaUpgrade'', ''authenticate'', ''captrunc'', ''changeCustomData'',
      ''changePassword'', ''changeOwnPassword'', ''changeOwnCustomData'', ''clean'',
      ''cleanupOrphaned'', ''closeAllDatabases'', ''collMod'', ''collStats'', ''compact'',
      ''connPoolStats'', ''connPoolSync'', ''convertToCapped'', ''cpuProfiler'',
      ''createCollection'', ''createDatabase'', ''createIndex'', ''createRole'',
      ''createUser'', ''cursorInfo'', ''dbHash'', ''dbStats'', ''diagLogging'',
      ''dropAllRolesFromDatabase'', ''dropAllUsersFromDatabase'', ''dropCollection'',
      ''dropDatabase'', ''dropIndex'', ''dropRole'', ''dropUser'', ''emptycapped'',
      ''enableProfiler'', ''enableSharding'', ''find'', ''flushRouterConfig'', ''fsync'',
      ''getCmdLineOpts'', ''getLog'', ''getParameter'', ''getShardMap'', ''getShardVersion'',
      ''grantRole'', ''grantPrivilegesToRole'', ''grantRolesToRole'', ''grantRolesToUser'',
      ''handshake'', ''hostInfo'', ''indexStats'', ''inprog'', ''insert'',
      ''invalidateUserCache'', ''killCursors'', ''killop'', ''listDatabases'', ''listShards'',
      ''logRotate'', ''mapReduceShardedFinish'', ''moveChunk'', ''netstat'', ''reIndex'',
      ''remove'', ''removeShard'', ''renameCollection'', ''renameCollectionSameDB'',
      ''repairDatabase'', ''replSetConfigure'', ''replSetElect'', ''replSetFresh'',
      ''replSetGetRBID'', ''replSetGetStatus'', ''replSetHeartbeat'', ''replSetReconfig'',
      ''replSetStateChange'', ''replSetUpdatePosition'', ''resync'', ''revokeRole'',
      ''revokePrivilegesFromRole'', ''revokeRolesFromRole'', ''revokeRolesFromUser'',
      ''serverStatus'', ''setParameter'', ''setShardVersion'', ''shardCollection'',
      ''shardingState'', ''shutdown'', ''splitChunk'', ''splitVector'', ''storageDetails'',
      ''top'', ''touch'', ''unlock'', ''unsetSharding'', ''update'', ''updateRole'',
      ''updateUser'', ''validate'', ''viewRole'', ''viewUser'', ''writebacklisten'',
      ''writeBacksQueued'', ''_migrateClone'', ''_recvChunkAbort'', ''_recvChunkCommit'',
      ''_recvChunkStart'', ''_recvChunkStatus'', ''_transferMods'']"

definition NUM_ACTION_TYPES :: nat where
  "NUM_ACTION_TYPES = 114"

fun index_of :: "string \<Rightarrow> nat \<Rightarrow> string list \<Rightarrow> nat option" where
  "index_of name i [] = None"
| "index_of name i (x # xs) = (if name = x then Some i else index_of name (Suc i) xs)"

definition action :: "string \<Rightarrow> action_type" where
  "action name = the (index_of name 0 action_names)"

definition anyAction :: action_type where
  "anyAction = 1"

definition parseActionFromString :: "string \<Rightarrow> status \<times> action_type option" where
  "parseActionFromString name =
     (case index_of name 0 action_names of
        Some i \<Rightarrow> (Status_OK, Some i)
      | None \<Rightarrow> (Status FailedToParse (''Unrecognized action privilege string: '' @ name) 0, None))"

definition actionToString :: "action_type \<Rightarrow> string" where
  "actionToString a = (if a < length action_names then action_names ! a else [])"

subsection \<open>Action sets\<close>

type_synonym action_set = "114 word"

definition set_action :: "action_type \<Rightarrow> bool \<Rightarrow> action_set \<Rightarrow> action_set" where
  "set_action a b s = (if b then s OR push_bit a 1 else s AND NOT (push_bit a 1))"

definition emptyActionSet :: action_set where
  "emptyActionSet = 0"

definition addAllActions :: "action_set \<Rightarrow> action_set" where
  "addAllActions s = NOT 0"

definition contains :: "action_set \<Rightarrow> action_type \<Rightarrow> bool" where
  "contains s a \<longleftrightarrow> bit s a"

definition addAction :: "action_type \<Rightarrow> action_set \<Rightarrow> action_set" where
  "addAction a s = (if a = anyAction then addAllActions s else set_action a True s)"

definition addAllActionsFromSet :: "action_set \<Rightarrow> action_set \<Rightarrow> action_set" where
  "addAllActionsFromSet other s = (if contains other anyAction then addAllActions s else s OR other)"

definition removeAction :: "action_type \<Rightarrow> action_set \<Rightarrow> action_set" where
  "removeAction a s = set_action anyAction False (set_action a False s)"

definition removeAllActionsFromSet :: "action_set \<Rightarrow> action_set \<Rightarrow> action_set" where
  "removeAllActionsFromSet other s =
     (let s1 = s AND NOT other in if other \<noteq> 0 then set_action anyAction False s1 else s1)"

definition removeAllActions :: "action_set \<Rightarrow> action_set" where
  "removeAllActions s = 0"

definition isSupersetOf :: "action_set \<Rightarrow> action_set \<Rightarrow> bool" where
  "isSupersetOf s other \<longleftrightarrow> s AND other = other"

definition actions_equals :: "action_set \<Rightarrow> action_set \<Rightarrow> bool" where
  "actions_equals s other \<longleftrightarrow> s = other"

fun parse_actions_loop :: "string list \<Rightarrow> action_set \<Rightarrow> status \<times> action_set" where
  "parse_actions_loop [] s = (Status_OK, s)"
| "parse_actions_loop (n # ns) s =
     (case parseActionFromString n of
        (status, None) \<Rightarrow> (status, emptyActionSet)
      | (status, Some a) \<Rightarrow>
          if a = anyAction then (Status_OK, addAllActions s) else parse_actions_loop ns (addAction a s))"

definition parseActionSetFromStringVector :: "string list \<Rightarrow> status \<times> action_set" where
  "parseActionSetFromStringVector v = parse_actions_loop v emptyActionSet"

definition parseActionSetFromString :: "string \<Rightarrow> status \<times> action_set" where
  "parseActionSetFromString s = parseActionSetFromStringVector (splitStringDelim s CHR '','')"

definition getActionsAsStrings :: "action_set \<Rightarrow> string list" where
  "getActionsAsStrings s =
     (if contains s anyAction then [actionToString anyAction]
      else map actionToString (filter (contains s) [0..<NUM_ACTION_TYPES]))"

definition ActionSet_toString :: "action_set \<Rightarrow> string" where
  "ActionSet_toString s =
     (if contains s anyAction then actionToString anyAction
      else joinStringDelim (map actionToString (filter (contains s) [0..<NUM_ACTION_TYPES])) CHR '','')"

subsubsection \<open>The sets the bits stand for\<close>

text \<open>A set that contains \<open>anyAction\<close> contains every action.\<close>

definition action_set_ok :: "action_set \<Rightarrow> bool" where
  "action_set_ok s \<longleftrightarrow> (contains s anyAction \<longrightarrow> s = NOT 0)"

definition actions_of :: "action_set \<Rightarrow> action_type set" where
  "actions_of s = {a. contains s a}"

lemma contains_bound: "contains s a \<Longrightarrow> a < NUM_ACTION_TYPES"
  unfolding contains_def NUM_ACTION_TYPES_def using bit_imp_le_length [of s a] by simp

lemma contains_simps [simp]:
  "\<not> contains 0 a"
  "contains (NOT 0) a \<longleftrightarrow> a < NUM_ACTION_TYPES"
  "contains (addAllActions s) a \<longleftrightarrow> a < NUM_ACTION_TYPES"
  "contains (s OR t) a \<longleftrightarrow> contains s a \<or> contains t a"
  "contains (s AND t) a \<longleftrightarrow> contains s a \<and> contains t a"
  "contains (NOT t) a \<longleftrightarrow> a < NUM_ACTION_TYPES \<and> \<not> contains t a"
  "contains (- 1) a \<longleftrightarrow> a < NUM_ACTION_TYPES"
  by (auto simp: contains_def addAllActions_def NUM_ACTION_TYPES_def bit_simps dest: bit_imp_le_length)

lemma contains_set_action [simp]:
  "i < NUM_ACTION_TYPES \<Longrightarrow> contains (set_action i b s) a \<longleftrightarrow> (if a = i then b else contains s a)"
  by (auto simp: contains_def set_action_def NUM_ACTION_TYPES_def bit_simps dest: bit_imp_le_length)

lemma actions_eqI: "(\<And>a. contains s a \<longleftrightarrow> contains t a) \<Longrightarrow> s = t"
  by (rule bit_eqI) (simp add: contains_def)

lemma anyAction_valid [simp]: "anyAction < NUM_ACTION_TYPES"
  by (simp add: anyAction_def NUM_ACTION_TYPES_def)

lemma action_set_ok_all [simp]: "action_set_ok (addAllActions s)" "action_set_ok 0"
  by (simp_all add: action_set_ok_def addAllActions_def)

lemma action_set_ok_addAction: "action_set_ok s \<Longrightarrow> a < NUM_ACTION_TYPES \<Longrightarrow> action_set_ok (addAction a s)"
  by (auto simp: addAction_def action_set_ok_def addAllActions_def intro!: actions_eqI split: if_splits)

lemma action_set_ok_union: "action_set_ok s \<Longrightarrow> action_set_ok t \<Longrightarrow> action_set_ok (addAllActionsFromSet t s)"
  by (auto simp: addAllActionsFromSet_def action_set_ok_def addAllActions_def intro!: actions_eqI)

lemma actions_of_union:
  "action_set_ok t \<Longrightarrow> actions_of (addAllActionsFromSet t s) = actions_of s \<union> actions_of t"
  by (auto simp: addAllActionsFromSet_def actions_of_def action_set_ok_def dest: contains_bound)

lemma isSupersetOf_iff: "isSupersetOf s t \<longleftrightarrow> actions_of t \<subseteq> actions_of s"
proof
  assume "isSupersetOf s t"
  then show "actions_of t \<subseteq> actions_of s"
    by (auto simp: isSupersetOf_def actions_of_def) (metis contains_simps(5))
next
  assume "actions_of t \<subseteq> actions_of s"
  then show "isSupersetOf s t"
    unfolding isSupersetOf_def by (intro actions_eqI) (auto simp: actions_of_def)
qed

lemma actions_of_empty: "actions_of t = {} \<longleftrightarrow> t = 0"
  using actions_eqI [of t 0] by (auto simp: actions_of_def)

lemma actions_of_addAction:
  "a < NUM_ACTION_TYPES \<Longrightarrow>
   actions_of (addAction a s) = (if a = anyAction then {..<NUM_ACTION_TYPES} else insert a (actions_of s))"
  by (auto simp: addAction_def actions_of_def)

lemma removeAction_props:
  "a < NUM_ACTION_TYPES \<Longrightarrow> action_set_ok (removeAction a s)"
  "a < NUM_ACTION_TYPES \<Longrightarrow> actions_of (removeAction a s) = actions_of s - {a, anyAction}"
  by (auto simp: action_set_ok_def removeAction_def actions_of_def)

lemma action_set_ok_difference: "action_set_ok s \<Longrightarrow> action_set_ok (removeAllActionsFromSet t s)"
  by (cases "t = 0") (simp_all add: action_set_ok_def removeAllActionsFromSet_def)

lemma actions_of_difference:
  "actions_of (removeAllActionsFromSet t s) =
     actions_of s - actions_of t - (if actions_of t = {} then {} else {anyAction})"
  unfolding actions_of_empty
  by (auto simp: removeAllActionsFromSet_def actions_of_def Let_def dest: contains_bound)

text \<open>
  The bit set operations are the set operations, and every one of them keeps the meaning of
  \<open>anyAction\<close>: a set that has it has all actions. Adding \<open>anyAction\<close>, alone or in a set, adds
  everything; removing any action takes \<open>anyAction\<close> out too, and nothing else.
\<close>

theorem action_set_operations:
  assumes "action_set_ok s" "action_set_ok t" "a < NUM_ACTION_TYPES"
  shows "action_set_ok (addAction a s) \<and> action_set_ok (addAllActionsFromSet t s) \<and>
    action_set_ok (removeAction a s) \<and> action_set_ok (removeAllActionsFromSet t s) \<and>
    actions_of (addAction a s) =
      (if a = anyAction then {..<NUM_ACTION_TYPES} else insert a (actions_of s)) \<and>
    actions_of (addAllActionsFromSet t s) = actions_of s \<union> actions_of t \<and>
    actions_of (removeAction a s) = actions_of s - {a, anyAction} \<and>
    actions_of (removeAllActionsFromSet t s) =
      actions_of s - actions_of t - (if actions_of t = {} then {} else {anyAction}) \<and>
    (isSupersetOf s t \<longleftrightarrow> actions_of t \<subseteq> actions_of s)"
  using action_set_ok_addAction [OF assms(1,3)] action_set_ok_union [OF assms(1,2)]
    removeAction_props [OF assms(3), of s] action_set_ok_difference [OF assms(1), of t]
    actions_of_addAction [OF assms(3), of s] actions_of_union [OF assms(2), of s]
    actions_of_difference [of t s] isSupersetOf_iff [of s t]
  by (intro conjI)

lemma action_set_operations_witness:
  "actions_of (removeAction 41 (addAction anyAction 0)) = {..<NUM_ACTION_TYPES} - {41, anyAction}"
proof -
  have "(41::nat) < NUM_ACTION_TYPES" by (simp add: NUM_ACTION_TYPES_def)
  then show ?thesis
    using action_set_operations [of 0 0 anyAction]
      action_set_operations [of "addAction anyAction 0" 0 41] by simp
qed

subsubsection \<open>Parsing and printing\<close>

lemma distinct_action_names: "distinct action_names"
  by (simp add: action_names_def)

lemma length_action_names: "length action_names = NUM_ACTION_TYPES"
  by (simp add: action_names_def NUM_ACTION_TYPES_def)

lemma action_names_plain: "\<forall>n \<in> set action_names. n \<noteq> [] \<and> CHR '','' \<notin> set n"
  by (simp add: action_names_def)

lemma index_of_nth: "distinct xs \<Longrightarrow> i < length xs \<Longrightarrow> index_of (xs ! i) k xs = Some (k + i)"
proof (induction xs arbitrary: i k)
  case Nil
  then show ?case by simp
next
  case (Cons x xs)
  then show ?case by (cases i) (auto simp: nth_mem)
qed

lemma parse_actionToString: "i < NUM_ACTION_TYPES \<Longrightarrow> parseActionFromString (actionToString i) = (Status_OK, Some i)"
  using index_of_nth [OF distinct_action_names, of i 0] length_action_names
  by (simp add: parseActionFromString_def actionToString_def)

lemma parse_actions_loop_names:
  "\<forall>i \<in> set is. i < NUM_ACTION_TYPES \<and> i \<noteq> anyAction \<Longrightarrow>
   \<exists>t. parse_actions_loop (map actionToString is) s = (Status_OK, t) \<and> actions_of t = actions_of s \<union> set is"
proof (induction "is" arbitrary: s)
  case Nil
  then show ?case by simp
next
  case (Cons i "is")
  then have i: "i < NUM_ACTION_TYPES" "i \<noteq> anyAction" by auto
  have "actions_of (addAction i s) = insert i (actions_of s)"
    using i by (auto simp: addAction_def actions_of_def)
  with Cons.IH [of "addAction i s"] Cons.prems i show ?case by (simp add: parse_actionToString)
qed

lemma parse_getActionsAsStrings:
  assumes "action_set_ok s"
  shows "parseActionSetFromStringVector (getActionsAsStrings s) = (Status_OK, s)"
proof (cases "contains s anyAction")
  case True
  then have "s = NOT 0" using assms by (simp add: action_set_ok_def)
  with True show ?thesis
    using parse_actionToString [of anyAction]
    by (simp add: parseActionSetFromStringVector_def getActionsAsStrings_def addAllActions_def)
next
  case False
  let ?is = "filter (contains s) [0..<NUM_ACTION_TYPES]"
  from False obtain t where t: "parse_actions_loop (map actionToString ?is) 0 = (Status_OK, t)"
    "actions_of t = actions_of 0 \<union> set ?is"
    using parse_actions_loop_names [of ?is 0] by auto
  have "t = s"
    using t(2) by (intro actions_eqI) (auto simp: actions_of_def set_eq_iff dest: contains_bound)
  with t(1) False show ?thesis
    by (simp add: parseActionSetFromStringVector_def getActionsAsStrings_def emptyActionSet_def)
qed

lemma split_ActionSet_toString: "splitStringDelim (ActionSet_toString s) CHR '','' = getActionsAsStrings s"
proof -
  have plain: "actionToString i \<noteq> [] \<and> CHR '','' \<notin> set (actionToString i)" if "i < NUM_ACTION_TYPES" for i
    using that action_names_plain length_action_names by (simp add: actionToString_def)
  have eq: "ActionSet_toString s = joinStringDelim (getActionsAsStrings s) CHR '',''"
    by (simp add: ActionSet_toString_def getActionsAsStrings_def joinStringDelim_def)
  have "\<forall>t \<in> set (getActionsAsStrings s). t \<noteq> [] \<and> CHR '','' \<notin> set t"
    using plain by (auto simp: getActionsAsStrings_def)
  then show ?thesis
    unfolding eq by (intro split_of_join) auto
qed

text \<open>
  Printing and parsing an action set, as a list of names or as one comma-separated string,
  gives the set back.
\<close>

theorem action_set_roundtrip:
  assumes "action_set_ok s"
  shows "parseActionSetFromStringVector (getActionsAsStrings s) = (Status_OK, s) \<and>
    parseActionSetFromString (ActionSet_toString s) = (Status_OK, s)"
  using parse_getActionsAsStrings [OF assms]
  by (simp_all add: parseActionSetFromString_def split_ActionSet_toString)

lemma action_set_roundtrip_witness:
  "parseActionSetFromString (ActionSet_toString (addAction 41 (addAction 57 0))) =
     (Status_OK, addAction 41 (addAction 57 0))"
proof -
  have "action_set_ok (addAction 41 (addAction 57 0))"
    by (intro action_set_ok_addAction; simp add: NUM_ACTION_TYPES_def)
  from action_set_roundtrip [OF this] show ?thesis by blast
qed

end
