(* ===== verification/Privilege.thy ===== *)
theory Privilege
  imports Action_Set
begin

text \<open>
  \<open>src/mongo/db/auth/resource_pattern.{h,cpp}\<close>, \<open>privilege.{h,cpp}\<close> and \<open>role_name.{h,cpp}\<close>:
  patterns of resources, privileges (a pattern with the actions granted on it), vectors of
  privileges with at most one entry per pattern, and the names of roles.
\<close>

subsection \<open>Resource patterns\<close>

datatype match_type =
    matchNever
  | matchClusterResource
  | matchDatabaseName
  | matchCollectionName
  | matchExactNamespace
  | matchAnyNormalResource
  | matchAnyResource

record resource_pattern =
  rp_matchType :: match_type
  rp_ns :: namespace_string

definition simple_pattern :: "match_type \<Rightarrow> resource_pattern" where
  "simple_pattern t = \<lparr>rp_matchType = t, rp_ns = NamespaceString_default\<rparr>"

definition forAnyResource :: resource_pattern where
  "forAnyResource = simple_pattern matchAnyResource"

definition forAnyNormalResource :: resource_pattern where
  "forAnyNormalResource = simple_pattern matchAnyNormalResource"

definition forClusterResource :: resource_pattern where
  "forClusterResource = simple_pattern matchClusterResource"

definition forDatabaseName :: "string \<Rightarrow> resource_pattern result" where
  "forDatabaseName dbName =
     bindE (NamespaceString_of dbName []) (\<lambda>n. Inr \<lparr>rp_matchType = matchDatabaseName, rp_ns = n\<rparr>)"

definition forCollectionName :: "string \<Rightarrow> resource_pattern result" where
  "forCollectionName collectionName =
     bindE (NamespaceString_of [] collectionName)
       (\<lambda>n. Inr \<lparr>rp_matchType = matchCollectionName, rp_ns = n\<rparr>)"

definition forExactNamespace :: "namespace_string \<Rightarrow> resource_pattern" where
  "forExactNamespace n = \<lparr>rp_matchType = matchExactNamespace, rp_ns = n\<rparr>"

definition pattern_eq :: "resource_pattern \<Rightarrow> resource_pattern \<Rightarrow> bool" where
  "pattern_eq p q =
     (if rp_matchType p \<noteq> rp_matchType q then False
      else if \<not> ns_eq (rp_ns p) (rp_ns q) then False
      else True)"

definition pattern_toString :: "resource_pattern \<Rightarrow> string result" where
  "pattern_toString p =
     (case rp_matchType p of
        matchNever \<Rightarrow> Inr ''<no resources>''
      | matchClusterResource \<Rightarrow> Inr ''<system resource>''
      | matchDatabaseName \<Rightarrow> Inr (''<database '' @ ns_db (rp_ns p) @ ''>'')
      | matchCollectionName \<Rightarrow>
          bindE (ns_coll (rp_ns p)) (\<lambda>c. Inr (''<collection '' @ c @ '' in any database>''))
      | matchExactNamespace \<Rightarrow> Inr (''<'' @ ns_ns (rp_ns p) @ ''>'')
      | matchAnyNormalResource \<Rightarrow> Inr ''<all normal resources>''
      | matchAnyResource \<Rightarrow> Inr ''<all resources>'')"

lemma pattern_eq_iff:
  "pattern_eq p q \<longleftrightarrow> rp_matchType p = rp_matchType q \<and> ns_ns (rp_ns p) = ns_ns (rp_ns q)"
  by (simp add: pattern_eq_def ns_eq_def)

lemma pattern_eq_equiv:
  "pattern_eq p p" "pattern_eq p q \<longleftrightarrow> pattern_eq q p"
  "pattern_eq p q \<Longrightarrow> pattern_eq q r \<Longrightarrow> pattern_eq p r"
  by (auto simp: pattern_eq_iff)

subsection \<open>Privileges\<close>

record privilege =
  pv_resource :: resource_pattern
  pv_actions :: action_set

definition Privilege_action :: "resource_pattern \<Rightarrow> action_type \<Rightarrow> privilege" where
  "Privilege_action r a = \<lparr>pv_resource = r, pv_actions = addAction a 0\<rparr>"

definition Privilege :: "resource_pattern \<Rightarrow> action_set \<Rightarrow> privilege" where
  "Privilege r s = \<lparr>pv_resource = r, pv_actions = s\<rparr>"

definition addActions :: "action_set \<Rightarrow> privilege \<Rightarrow> privilege" where
  "addActions s p = p\<lparr>pv_actions := addAllActionsFromSet s (pv_actions p)\<rparr>"

definition removeActions :: "action_set \<Rightarrow> privilege \<Rightarrow> privilege" where
  "removeActions s p = p\<lparr>pv_actions := removeAllActionsFromSet s (pv_actions p)\<rparr>"

definition includesAction :: "privilege \<Rightarrow> action_type \<Rightarrow> bool" where
  "includesAction p a \<longleftrightarrow> contains (pv_actions p) a"

definition includesActions :: "privilege \<Rightarrow> action_set \<Rightarrow> bool" where
  "includesActions p s \<longleftrightarrow> isSupersetOf (pv_actions p) s"

fun addPrivilegeToPrivilegeVector :: "privilege \<Rightarrow> privilege list \<Rightarrow> privilege list" where
  "addPrivilegeToPrivilegeVector new [] = [new]"
| "addPrivilegeToPrivilegeVector new (p # ps) =
     (if pattern_eq (pv_resource p) (pv_resource new) then addActions (pv_actions new) p # ps
      else p # addPrivilegeToPrivilegeVector new ps)"

subsubsection \<open>What a vector grants\<close>

definition vector_ok :: "privilege list \<Rightarrow> bool" where
  "vector_ok ps \<longleftrightarrow> (\<forall>p \<in> set ps. action_set_ok (pv_actions p))"

definition granted :: "privilege list \<Rightarrow> resource_pattern \<Rightarrow> action_type set" where
  "granted ps r = (\<Union>p \<in> {p \<in> set ps. pattern_eq (pv_resource p) r}. actions_of (pv_actions p))"

lemma granted_Nil [simp]: "granted [] r = {}"
  by (simp add: granted_def)

lemma granted_Cons [simp]:
  "granted (p # ps) r = (if pattern_eq (pv_resource p) r then actions_of (pv_actions p) else {}) \<union> granted ps r"
  by (auto simp: granted_def)

lemma granted_append [simp]: "granted (ps @ qs) r = granted ps r \<union> granted qs r"
  by (induction ps) auto

lemma granted_add:
  assumes "action_set_ok (pv_actions new)"
  shows "granted (addPrivilegeToPrivilegeVector new ps) r = granted ps r \<union> granted [new] r"
proof (induction ps)
  case Nil
  then show ?case by simp
next
  case (Cons p ps)
  show ?case
  proof (cases "pattern_eq (pv_resource p) (pv_resource new)")
    case True
    then have "pattern_eq (pv_resource p) r \<longleftrightarrow> pattern_eq (pv_resource new) r"
      by (auto simp: pattern_eq_iff)
    with True assms show ?thesis by (auto simp: addActions_def actions_of_union)
  next
    case False
    with Cons show ?thesis by auto
  qed
qed

lemma vector_ok_add:
  "vector_ok ps \<Longrightarrow> action_set_ok (pv_actions new) \<Longrightarrow> vector_ok (addPrivilegeToPrivilegeVector new ps)"
  by (induction ps) (auto simp: vector_ok_def addActions_def intro: action_set_ok_union)

text \<open>No two entries of a vector are on the same resource.\<close>

definition unique_resources :: "privilege list \<Rightarrow> bool" where
  "unique_resources ps \<longleftrightarrow> distinct (map (\<lambda>p. (rp_matchType (pv_resource p), ns_ns (rp_ns (pv_resource p)))) ps)"

lemma add_resources:
  "(\<lambda>p. (rp_matchType (pv_resource p), ns_ns (rp_ns (pv_resource p)))) ` set (addPrivilegeToPrivilegeVector new ps) =
   insert (rp_matchType (pv_resource new), ns_ns (rp_ns (pv_resource new)))
     ((\<lambda>p. (rp_matchType (pv_resource p), ns_ns (rp_ns (pv_resource p)))) ` set ps)"
  by (induction ps) (auto simp: pattern_eq_iff addActions_def)

lemma unique_resources_add: "unique_resources ps \<Longrightarrow> unique_resources (addPrivilegeToPrivilegeVector new ps)"
proof (induction ps)
  case Nil
  then show ?case by (simp add: unique_resources_def)
next
  case (Cons p ps)
  show ?case
  proof (cases "pattern_eq (pv_resource p) (pv_resource new)")
    case True
    with Cons.prems show ?thesis by (simp add: unique_resources_def addActions_def)
  next
    case False
    with Cons show ?thesis
      using add_resources [of new ps] by (auto simp: unique_resources_def pattern_eq_iff)
  qed
qed

text \<open>
  Adding a privilege to a vector grants exactly what the vector granted before and what the
  new privilege grants, on every resource; it keeps one entry per resource and the meaning of
  \<open>anyAction\<close> in every entry.
\<close>

theorem addPrivilege_grants:
  assumes "vector_ok ps" "action_set_ok (pv_actions new)" "unique_resources ps"
  shows "granted (addPrivilegeToPrivilegeVector new ps) r =
      granted ps r \<union> (if pattern_eq (pv_resource new) r then actions_of (pv_actions new) else {}) \<and>
    vector_ok (addPrivilegeToPrivilegeVector new ps) \<and>
    unique_resources (addPrivilegeToPrivilegeVector new ps)"
  using granted_add [OF assms(2), of ps r] vector_ok_add [OF assms(1,2)] unique_resources_add [OF assms(3)]
  by simp

lemma addPrivilege_grants_witness:
  "granted (addPrivilegeToPrivilegeVector (Privilege_action forClusterResource 2) [Privilege_action forClusterResource 3])
     forClusterResource = {2, 3}"
proof -
  have ok: "action_set_ok (addAction a 0)" "actions_of (addAction a 0) = {a}" if "a \<in> {2, 3}" for a
    using that action_set_ok_addAction [of 0 a] actions_of_addAction [of a 0] actions_of_empty [of 0]
    by (auto simp: anyAction_def NUM_ACTION_TYPES_def)
  show ?thesis
    using addPrivilege_grants [of "[Privilege_action forClusterResource 3]" "Privilege_action forClusterResource 2"
        forClusterResource] ok
    by (auto simp: Privilege_action_def vector_ok_def unique_resources_def pattern_eq_equiv)
qed

subsection \<open>Role names\<close>

record role_name =
  rn_fullName :: string
  rn_splitPoint :: nat

definition RoleName :: "string \<Rightarrow> string \<Rightarrow> role_name" where
  "RoleName role dbname = \<lparr>rn_fullName = role @ CHR ''@'' # dbname, rn_splitPoint = length role\<rparr>"

definition getRole :: "role_name \<Rightarrow> string" where
  "getRole n = take (rn_splitPoint n) (rn_fullName n)"

definition getDB :: "role_name \<Rightarrow> string" where
  "getDB n = drop (rn_splitPoint n + 1) (rn_fullName n)"

definition role_eq :: "role_name \<Rightarrow> role_name \<Rightarrow> bool" where
  "role_eq a b \<longleftrightarrow> rn_fullName a = rn_fullName b"

definition role_less :: "role_name \<Rightarrow> role_name \<Rightarrow> bool" where
  "role_less a b = (if getDB a = getDB b then getRole a < getRole b else getDB a < getDB b)"

lemma RoleName_parts [simp]: "getRole (RoleName r d) = r" "getDB (RoleName r d) = d"
  by (simp_all add: getRole_def getDB_def RoleName_def)

lemma RoleName_fullName: "rn_fullName (RoleName r d) = r @ CHR ''@'' # d"
  by (simp add: RoleName_def)

text \<open>
  Role names are compared as full names \<open>role@db\<close>, but ordered by database and role. When
  database names contain no at sign the two agree: equal names have equal parts, and the order is
  total on different names. With an at sign in a database name they do not: the role \<open>read\<close> of the
  database \<open>x@y\<close> equals the role \<open>read@x\<close> of the database \<open>y\<close>.
\<close>

theorem role_name_identity:
  "(CHR ''@'' \<notin> set d \<and> CHR ''@'' \<notin> set d' \<longrightarrow>
     (role_eq (RoleName r d) (RoleName r' d') \<longleftrightarrow> r = r' \<and> d = d') \<and>
     (role_eq (RoleName r d) (RoleName r' d') \<or>
      role_less (RoleName r d) (RoleName r' d') \<or> role_less (RoleName r' d') (RoleName r d))) \<and>
   role_eq (RoleName ''read'' ''x@y'') (RoleName ''read@x'' ''y'') \<and>
   role_less (RoleName ''read'' ''x@y'') (RoleName ''read@x'' ''y'')"
proof -
  have "r = r' \<and> d = d'"
    if "CHR ''@'' \<notin> set d" "CHR ''@'' \<notin> set d'" "r @ CHR ''@'' # d = r' @ CHR ''@'' # d'"
  proof -
    from that(3) obtain us where
      us: "r = r' @ us \<and> us @ CHR ''@'' # d = CHR ''@'' # d' \<or> r @ us = r' \<and> CHR ''@'' # d = us @ CHR ''@'' # d'"
      by (auto simp: append_eq_append_conv2)
    then have "us = []" using that(1,2) by (cases us) auto
    with us show ?thesis by auto
  qed
  then show ?thesis
    by (auto simp: role_eq_def RoleName_fullName role_less_def)
qed

lemma role_name_identity_witness:
  "\<not> role_eq (RoleName ''read'' ''x'') (RoleName ''read'' ''y'')"
  using role_name_identity [of "''x''" "''y''" "''read''" "''read''"] by simp

end
