(* ===== verification/Builtin_Roles.thy ===== *)
theory Builtin_Roles
  imports Privilege
begin

text \<open>
  \<open>src/mongo/db/auth/role_graph_builtin_roles.cpp\<close>: the tables of actions of the builtin roles, the
  functions that add their privileges to a vector, and the recognition of builtin role names. The
  operations of the role graph that create builtin roles are in \<open>Role_Graph\<close>.
\<close>

subsection \<open>Action tables\<close>

text \<open>The chains \<open>target << a << b\<close> that add actions one by one.\<close>

definition add_named :: "string list \<Rightarrow> action_set \<Rightarrow> action_set" where
  "add_named names s = fold (\<lambda>n. addAction (action n)) names s"

definition readRoleActions :: action_set where
  "readRoleActions =
     add_named [''collStats'', ''dbHash'', ''dbStats'', ''find'', ''killCursors''] emptyActionSet"

definition readWriteRoleActions :: action_set where
  "readWriteRoleActions =
     add_named [''convertToCapped'', ''createCollection'', ''dropCollection'', ''dropIndex'',
       ''emptycapped'', ''createIndex'', ''insert'', ''remove'', ''renameCollectionSameDB'', ''update'']
       (addAllActionsFromSet readRoleActions emptyActionSet)"

definition userAdminRoleActions :: action_set where
  "userAdminRoleActions =
     add_named [''changeCustomData'', ''changePassword'', ''createUser'', ''createRole'', ''dropUser'',
       ''dropRole'', ''grantRole'', ''revokeRole'', ''viewUser'', ''viewRole''] emptyActionSet"

definition dbAdminRoleActions :: action_set where
  "dbAdminRoleActions =
     add_named [''clean'', ''collMod'', ''collStats'', ''compact'', ''convertToCapped'', ''createCollection'',
       ''dbStats'', ''dropCollection'', ''dropDatabase'', ''dropIndex'', ''createIndex'', ''indexStats'',
       ''enableProfiler'', ''reIndex'', ''renameCollectionSameDB'', ''repairDatabase'',
       ''storageDetails'', ''validate''] emptyActionSet"

definition clusterMonitorRoleClusterActions :: action_set where
  "clusterMonitorRoleClusterActions =
     add_named [''connPoolStats'', ''getCmdLineOpts'', ''getLog'', ''getParameter'', ''getShardMap'',
       ''hostInfo'', ''listDatabases'', ''listShards'', ''netstat'', ''replSetGetStatus'',
       ''serverStatus'', ''top'', ''writeBacksQueued'', ''cursorInfo'', ''inprog'', ''shardingState'']
       emptyActionSet"

definition clusterMonitorRoleDatabaseActions :: action_set where
  "clusterMonitorRoleDatabaseActions =
     add_named [''collStats'', ''dbStats'', ''getShardVersion''] emptyActionSet"

definition hostManagerRoleClusterActions :: action_set where
  "hostManagerRoleClusterActions =
     add_named [''applicationMessage'', ''connPoolSync'', ''closeAllDatabases'', ''cpuProfiler'',
       ''logRotate'', ''setParameter'', ''shutdown'', ''touch'', ''unlock'', ''diagLogging'',
       ''flushRouterConfig'', ''fsync'', ''invalidateUserCache'', ''killop'', ''resync''] emptyActionSet"

definition hostManagerRoleDatabaseActions :: action_set where
  "hostManagerRoleDatabaseActions = add_named [''killCursors'', ''repairDatabase''] emptyActionSet"

definition clusterManagerRoleClusterActions :: action_set where
  "clusterManagerRoleClusterActions =
     add_named [''applicationMessage'', ''replSetConfigure'', ''replSetGetStatus'',
       ''replSetStateChange'', ''resync'', ''addShard'', ''removeShard'', ''listShards'',
       ''flushRouterConfig'', ''cleanupOrphaned''] emptyActionSet"

definition clusterManagerRoleDatabaseActions :: action_set where
  "clusterManagerRoleDatabaseActions =
     add_named [''splitChunk'', ''moveChunk'', ''enableSharding'', ''splitVector''] emptyActionSet"

definition dbOwnerRoleActions :: action_set where
  "dbOwnerRoleActions =
     addAllActionsFromSet userAdminRoleActions
       (addAllActionsFromSet dbAdminRoleActions (addAllActionsFromSet readWriteRoleActions emptyActionSet))"

lemmas action_table_defs =
  readRoleActions_def readWriteRoleActions_def userAdminRoleActions_def dbAdminRoleActions_def
  clusterMonitorRoleClusterActions_def clusterMonitorRoleDatabaseActions_def
  hostManagerRoleClusterActions_def hostManagerRoleDatabaseActions_def
  clusterManagerRoleClusterActions_def clusterManagerRoleDatabaseActions_def dbOwnerRoleActions_def

subsection \<open>Privileges of the builtin roles\<close>

text \<open>
  A function that adds privileges changes the vector it is given, or ends with the exception of
  \<open>NamespaceString\<close> when a name is not one. \<open>grant\<close> is one call of
  \<open>Privilege::addPrivilegeToPrivilegeVector\<close>, \<open>push_privilege\<close> one \<open>push_back\<close>.
\<close>

type_synonym vector_update = "privilege list \<Rightarrow> privilege list result"

definition grant :: "resource_pattern result \<Rightarrow> action_set \<Rightarrow> vector_update" where
  "grant pattern acts privileges =
     bindE pattern (\<lambda>r. Inr (addPrivilegeToPrivilegeVector (Privilege r acts) privileges))"

definition grant_action :: "resource_pattern result \<Rightarrow> string \<Rightarrow> vector_update" where
  "grant_action pattern name privileges =
     bindE pattern (\<lambda>r. Inr (addPrivilegeToPrivilegeVector (Privilege_action r (action name)) privileges))"

definition push_privilege :: "resource_pattern result \<Rightarrow> action_set \<Rightarrow> vector_update" where
  "push_privilege pattern acts privileges = bindE pattern (\<lambda>r. Inr (privileges @ [Privilege r acts]))"

fun in_order :: "vector_update list \<Rightarrow> vector_update" where
  "in_order [] privileges = Inr privileges"
| "in_order (f # fs) privileges = bindE (f privileges) (in_order fs)"

definition exact :: "string \<Rightarrow> string \<Rightarrow> resource_pattern result" where
  "exact db coll = bindE (NamespaceString_of db coll) (\<lambda>n. Inr (forExactNamespace n))"

definition rolesCollectionNamespace :: namespace_string where
  "rolesCollectionNamespace = NamespaceString ''admin.system.roles''"

definition usersAltCollectionNamespace :: namespace_string where
  "usersAltCollectionNamespace = NamespaceString ''admin.system.new_users''"

definition usersBackupCollectionNamespace :: namespace_string where
  "usersBackupCollectionNamespace = NamespaceString ''admin.system.backup_users''"

definition usersCollectionNamespace :: namespace_string where
  "usersCollectionNamespace = NamespaceString ''admin.system.users''"

definition versionCollectionNamespace :: namespace_string where
  "versionCollectionNamespace = NamespaceString ''admin.system.version''"

definition addReadOnlyDbPrivileges :: "string \<Rightarrow> vector_update" where
  "addReadOnlyDbPrivileges dbName = in_order
     [grant (forDatabaseName dbName) readRoleActions,
      grant (exact dbName ''system.indexes'') readRoleActions,
      grant (exact dbName ''system.js'') readRoleActions,
      grant (exact dbName ''system.namespaces'') readRoleActions]"

definition addReadWriteDbPrivileges :: "string \<Rightarrow> vector_update" where
  "addReadWriteDbPrivileges dbName = in_order
     [addReadOnlyDbPrivileges dbName,
      grant (forDatabaseName dbName) readWriteRoleActions,
      grant (exact dbName ''system.js'') readWriteRoleActions]"

definition addUserAdminDbPrivileges :: "string \<Rightarrow> vector_update" where
  "addUserAdminDbPrivileges dbName = push_privilege (forDatabaseName dbName) userAdminRoleActions"

definition addDbAdminDbPrivileges :: "string \<Rightarrow> vector_update" where
  "addDbAdminDbPrivileges dbName = in_order
     [grant (forDatabaseName dbName) dbAdminRoleActions,
      grant (exact dbName ''system.indexes'') readRoleActions,
      grant (exact dbName ''system.namespaces'') readRoleActions,
      (let profileActions = addAction (action ''dropCollection'') readRoleActions
       in grant (exact dbName ''system.profile'') profileActions)]"

definition addDbOwnerPrivileges :: "string \<Rightarrow> vector_update" where
  "addDbOwnerPrivileges dbName = in_order
     [addReadWriteDbPrivileges dbName,
      addDbAdminDbPrivileges dbName,
      addUserAdminDbPrivileges dbName,
      grant (forDatabaseName dbName) dbOwnerRoleActions]"

definition addReadOnlyAnyDbPrivileges :: vector_update where
  "addReadOnlyAnyDbPrivileges = in_order
     [grant (Inr forAnyNormalResource) readRoleActions,
      grant_action (Inr forClusterResource) ''listDatabases'',
      grant (forCollectionName ''system.indexes'') readRoleActions,
      grant (forCollectionName ''system.js'') readRoleActions,
      grant (forCollectionName ''system.namespaces'') readRoleActions]"

definition addReadWriteAnyDbPrivileges :: vector_update where
  "addReadWriteAnyDbPrivileges = in_order
     [addReadOnlyAnyDbPrivileges,
      grant (Inr forAnyNormalResource) readWriteRoleActions,
      grant (forCollectionName ''system.js'') readWriteRoleActions]"

definition addUserAdminAnyDbPrivileges :: vector_update where
  "addUserAdminAnyDbPrivileges = in_order
     [grant (Inr forAnyNormalResource) userAdminRoleActions,
      grant_action (Inr forClusterResource) ''listDatabases'',
      grant_action (Inr forClusterResource) ''authSchemaUpgrade'',
      grant_action (Inr forClusterResource) ''invalidateUserCache'',
      grant (forCollectionName ''system.users'') readRoleActions,
      grant (Inr (forExactNamespace usersCollectionNamespace)) readRoleActions,
      grant (Inr (forExactNamespace rolesCollectionNamespace)) readRoleActions,
      grant (Inr (forExactNamespace versionCollectionNamespace)) readRoleActions,
      grant (Inr (forExactNamespace usersAltCollectionNamespace)) readRoleActions,
      grant (Inr (forExactNamespace usersBackupCollectionNamespace)) readRoleActions]"

definition addDbAdminAnyDbPrivileges :: vector_update where
  "addDbAdminAnyDbPrivileges = in_order
     [grant_action (Inr forClusterResource) ''listDatabases'',
      grant (Inr forAnyNormalResource) dbAdminRoleActions,
      grant (forCollectionName ''system.indexes'') readRoleActions,
      grant (forCollectionName ''system.namespaces'') readRoleActions,
      (let profileActions = addAction (action ''dropCollection'') readRoleActions
       in grant (forCollectionName ''system.profile'') profileActions)]"

definition addClusterMonitorPrivileges :: vector_update where
  "addClusterMonitorPrivileges = in_order
     [grant (Inr forClusterResource) clusterMonitorRoleClusterActions,
      grant (Inr forAnyNormalResource) clusterMonitorRoleDatabaseActions,
      addReadOnlyDbPrivileges ''config'',
      grant_action (forCollectionName ''system.profile'') ''find'']"

definition addHostManagerPrivileges :: vector_update where
  "addHostManagerPrivileges = in_order
     [grant (Inr forClusterResource) hostManagerRoleClusterActions,
      grant (Inr forAnyNormalResource) hostManagerRoleDatabaseActions]"

definition addClusterManagerPrivileges :: vector_update where
  "addClusterManagerPrivileges = in_order
     [grant (Inr forClusterResource) clusterManagerRoleClusterActions,
      grant (Inr forAnyNormalResource) clusterManagerRoleDatabaseActions,
      addReadOnlyDbPrivileges ''config'',
      (let configSettingsActions = add_named [''insert'', ''update'', ''remove''] emptyActionSet
       in grant (exact ''config'' ''settings'') configSettingsActions),
      grant (exact ''local'' ''system.replset'') readRoleActions]"

definition addClusterAdminPrivileges :: vector_update where
  "addClusterAdminPrivileges = in_order
     [addClusterMonitorPrivileges,
      addHostManagerPrivileges,
      addClusterManagerPrivileges,
      grant_action (Inr forAnyNormalResource) ''dropDatabase'']"

definition addBackupPrivileges :: vector_update where
  "addBackupPrivileges = in_order
     [grant_action (Inr forAnyNormalResource) ''find'',
      grant_action (Inr forClusterResource) ''listDatabases'',
      grant_action (forCollectionName ''system.indexes'') ''find'',
      grant_action (forCollectionName ''system.namespaces'') ''find'',
      grant_action (forCollectionName ''system.js'') ''find'',
      grant_action (forCollectionName ''system.users'') ''find'',
      grant_action (Inr (forExactNamespace usersAltCollectionNamespace)) ''find'',
      grant_action (Inr (forExactNamespace usersBackupCollectionNamespace)) ''find'',
      grant_action (Inr (forExactNamespace rolesCollectionNamespace)) ''find'',
      grant_action (Inr (forExactNamespace versionCollectionNamespace)) ''find'',
      (let backupCollectionActions = add_named [''insert'', ''update''] emptyActionSet
       in grant (Inr (forExactNamespace (NamespaceString ''admin.mms.backup''))) backupCollectionActions)]"

definition addRestorePrivileges :: vector_update where
  "addRestorePrivileges =
     (let actions = add_named [''insert'', ''dropCollection'', ''createIndex'', ''createCollection'',
            ''collMod''] emptyActionSet;
          more_actions = add_named [''find'', ''update'', ''remove''] actions
      in in_order
     [grant (Inr forAnyNormalResource) actions,
      grant (forCollectionName ''system.js'') actions,
      grant (Inr (forExactNamespace usersAltCollectionNamespace)) actions,
      grant (Inr (forExactNamespace usersBackupCollectionNamespace)) actions,
      grant (Inr (forExactNamespace rolesCollectionNamespace)) actions,
      grant (Inr (forExactNamespace versionCollectionNamespace)) actions,
      grant (forCollectionName ''system.users'') more_actions,
      grant_action (forCollectionName ''system.namespaces'') ''find''])"

definition addRootRolePrivileges :: vector_update where
  "addRootRolePrivileges = in_order
     [addClusterAdminPrivileges,
      addUserAdminAnyDbPrivileges,
      addDbAdminAnyDbPrivileges,
      addReadWriteAnyDbPrivileges,
      grant (Inr forAnyNormalResource) dbOwnerRoleActions]"

definition generateUniversalPrivileges :: vector_update where
  "generateUniversalPrivileges =
     (let allActions = addAllActions emptyActionSet in push_privilege (Inr forAnyResource) allActions)"

definition addInternalRolePrivileges :: vector_update where
  "addInternalRolePrivileges = generateUniversalPrivileges"

text \<open>The boolean the function returns comes with the changed vector.\<close>

definition addPrivilegesForBuiltinRole :: "role_name \<Rightarrow> privilege list \<Rightarrow> (bool \<times> privilege list) result" where
  "addPrivilegesForBuiltinRole roleName result =
     (let isAdminDB = (getDB roleName = ''admin'');
          role = getRole roleName;
          yes = (\<lambda>f. bindE (f result) (\<lambda>ps. Inr (True, ps)))
      in if role = ''read'' then yes (addReadOnlyDbPrivileges (getDB roleName))
         else if role = ''readWrite'' then yes (addReadWriteDbPrivileges (getDB roleName))
         else if role = ''userAdmin'' then yes (addUserAdminDbPrivileges (getDB roleName))
         else if role = ''dbAdmin'' then yes (addDbAdminDbPrivileges (getDB roleName))
         else if role = ''dbOwner'' then yes (addDbOwnerPrivileges (getDB roleName))
         else if isAdminDB \<and> role = ''readAnyDatabase'' then yes addReadOnlyAnyDbPrivileges
         else if isAdminDB \<and> role = ''readWriteAnyDatabase'' then yes addReadWriteAnyDbPrivileges
         else if isAdminDB \<and> role = ''userAdminAnyDatabase'' then yes addUserAdminAnyDbPrivileges
         else if isAdminDB \<and> role = ''dbAdminAnyDatabase'' then yes addDbAdminAnyDbPrivileges
         else if isAdminDB \<and> role = ''clusterMonitor'' then yes addClusterMonitorPrivileges
         else if isAdminDB \<and> role = ''hostManager'' then yes addHostManagerPrivileges
         else if isAdminDB \<and> role = ''clusterManager'' then yes addClusterManagerPrivileges
         else if isAdminDB \<and> role = ''clusterAdmin'' then yes addClusterAdminPrivileges
         else if isAdminDB \<and> role = ''backup'' then yes addBackupPrivileges
         else if isAdminDB \<and> role = ''restore'' then yes addRestorePrivileges
         else if isAdminDB \<and> role = ''root'' then yes addRootRolePrivileges
         else if isAdminDB \<and> role = ''__system'' then yes addInternalRolePrivileges
         else Inr (False, result))"

definition isBuiltinRole :: "role_name \<Rightarrow> bool" where
  "isBuiltinRole roleName =
     (if \<not> validDBName (getDB roleName) \<or> getDB roleName = ''$external'' then False
      else
      let isAdminDB = (getDB roleName = ''admin''); role = getRole roleName
      in if role = ''read'' then True
         else if role = ''readWrite'' then True
         else if role = ''userAdmin'' then True
         else if role = ''dbAdmin'' then True
         else if role = ''dbOwner'' then True
         else if isAdminDB \<and> role = ''readAnyDatabase'' then True
         else if isAdminDB \<and> role = ''readWriteAnyDatabase'' then True
         else if isAdminDB \<and> role = ''userAdminAnyDatabase'' then True
         else if isAdminDB \<and> role = ''dbAdminAnyDatabase'' then True
         else if isAdminDB \<and> role = ''clusterMonitor'' then True
         else if isAdminDB \<and> role = ''hostManager'' then True
         else if isAdminDB \<and> role = ''clusterManager'' then True
         else if isAdminDB \<and> role = ''clusterAdmin'' then True
         else if isAdminDB \<and> role = ''backup'' then True
         else if isAdminDB \<and> role = ''restore'' then True
         else if isAdminDB \<and> role = ''root'' then True
         else if isAdminDB \<and> role = ''__system'' then True
         else False)"

subsection \<open>What the tables contain\<close>

definition known_action :: "string \<Rightarrow> bool" where
  "known_action n \<longleftrightarrow> n \<in> set action_names \<and> n \<noteq> ''anyAction''"

lemma index_of_Some: "index_of n k xs = Some i \<Longrightarrow> k \<le> i \<and> i - k < length xs \<and> xs ! (i - k) = n"
proof (induction xs arbitrary: k)
  case Nil
  then show ?case by simp
next
  case (Cons x xs)
  then show ?case by (cases "n = x") (fastforce simp: nth_Cons' Suc_diff_Suc)+
qed

lemma index_of_None: "index_of n k xs = None \<longleftrightarrow> n \<notin> set xs"
  by (induction xs arbitrary: k) auto

lemma action_known:
  assumes "known_action n"
  shows "action n < NUM_ACTION_TYPES" "action n \<noteq> anyAction"
proof -
  obtain i where i: "index_of n 0 action_names = Some i"
    using assms index_of_None [of n 0 action_names] by (auto simp: known_action_def)
  with index_of_Some [OF i] have "action n = i" "i < NUM_ACTION_TYPES" "action_names ! i = n"
    by (simp_all add: action_def length_action_names)
  moreover have "action_names ! anyAction = ''anyAction''"
    by (simp add: action_names_def anyAction_def)
  ultimately show "action n < NUM_ACTION_TYPES" "action n \<noteq> anyAction"
    using assms by (auto simp: known_action_def)
qed

lemma known_actionsI:
  assumes "list_all (\<lambda>n. n \<in> set action_names) xs" "list_all (\<lambda>n. n \<noteq> ''anyAction'') xs"
  shows "list_all known_action xs"
  using assms by (simp add: list_all_iff known_action_def)

lemma known_actions:
  "list_all known_action
    [''collStats'', ''dbHash'', ''dbStats'', ''find'', ''killCursors'',
     ''convertToCapped'', ''createCollection'', ''dropCollection'', ''dropIndex'', ''emptycapped'',
     ''createIndex'', ''insert'', ''remove'', ''renameCollectionSameDB'', ''update'',
     ''changeCustomData'', ''changePassword'', ''createUser'', ''createRole'', ''dropUser'',
     ''dropRole'', ''grantRole'', ''revokeRole'', ''viewUser'', ''viewRole'',
     ''clean'', ''collMod'', ''compact'', ''dropDatabase'', ''indexStats'', ''enableProfiler'',
     ''reIndex'', ''repairDatabase'', ''storageDetails'', ''validate'']"
  "list_all known_action
    [''connPoolStats'', ''getCmdLineOpts'', ''getLog'', ''getParameter'', ''getShardMap'',
     ''hostInfo'', ''listDatabases'', ''listShards'', ''netstat'', ''replSetGetStatus'',
     ''serverStatus'', ''top'', ''writeBacksQueued'', ''cursorInfo'', ''inprog'', ''shardingState'',
     ''getShardVersion'', ''applicationMessage'', ''connPoolSync'', ''closeAllDatabases'',
     ''cpuProfiler'', ''logRotate'', ''setParameter'', ''shutdown'', ''touch'', ''unlock'',
     ''diagLogging'', ''flushRouterConfig'', ''fsync'', ''invalidateUserCache'', ''killop'',
     ''resync'', ''replSetConfigure'', ''replSetStateChange'', ''addShard'', ''removeShard'',
     ''cleanupOrphaned'', ''splitChunk'', ''moveChunk'', ''enableSharding'', ''splitVector'',
     ''authSchemaUpgrade'']"
  by (rule known_actionsI, simp only: list.pred_inject action_names_def list.set insert_iff simp_thms, simp)+

text \<open>A set without \<open>anyAction\<close>.\<close>

definition ordinary :: "action_set \<Rightarrow> bool" where
  "ordinary s \<longleftrightarrow> anyAction \<notin> actions_of s"

lemma ordinary_ok [simp]: "ordinary s \<Longrightarrow> action_set_ok s"
  by (simp add: ordinary_def action_set_ok_def actions_of_def)

lemma ordinary_add [simp]: "known_action n \<Longrightarrow> ordinary s \<Longrightarrow> ordinary (addAction (action n) s)"
  using action_known [of n] by (simp add: ordinary_def actions_of_addAction)

lemma ordinary_union [simp]: "ordinary s \<Longrightarrow> ordinary t \<Longrightarrow> ordinary (addAllActionsFromSet t s)"
  using actions_of_union [of t s] by (simp add: ordinary_def ordinary_ok)

lemma ordinary_empty [simp]: "ordinary emptyActionSet" "ordinary 0"
  by (simp_all add: ordinary_def emptyActionSet_def actions_of_def)

lemma ordinary_add_named [simp]: "list_all known_action names \<Longrightarrow> ordinary s \<Longrightarrow> ordinary (add_named names s)"
  by (induction names arbitrary: s) (simp_all add: add_named_def)

lemma ordinary_tables [simp]:
  "ordinary readRoleActions" "ordinary readWriteRoleActions" "ordinary userAdminRoleActions"
  "ordinary dbAdminRoleActions" "ordinary clusterMonitorRoleClusterActions"
  "ordinary clusterMonitorRoleDatabaseActions" "ordinary hostManagerRoleClusterActions"
  "ordinary hostManagerRoleDatabaseActions" "ordinary clusterManagerRoleClusterActions"
  "ordinary clusterManagerRoleDatabaseActions" "ordinary dbOwnerRoleActions"
  using known_actions by (simp_all add: action_table_defs)

subsection \<open>What a function grants\<close>

definition grants :: "vector_update \<Rightarrow> resource_pattern \<Rightarrow> action_type set" where
  "grants f r = (case f [] of Inl _ \<Rightarrow> {} | Inr ps \<Rightarrow> granted ps r)"

text \<open>
  A function that succeeds, adds the same grants to every vector and keeps the meaning of
  \<open>anyAction\<close> in its entries.
\<close>

definition additive :: "vector_update \<Rightarrow> bool" where
  "additive f \<longleftrightarrow> (\<forall>ps. \<exists>qs. f ps = Inr qs \<and> (vector_ok ps \<longrightarrow> vector_ok qs) \<and>
     (\<forall>r. granted qs r = granted ps r \<union> grants f r))"

lemma additiveI:
  assumes "\<And>ps. \<exists>qs. f ps = Inr qs \<and> (vector_ok ps \<longrightarrow> vector_ok qs) \<and>
      (\<forall>r. granted qs r = granted ps r \<union> G r)"
  shows "additive f \<and> grants f = G"
proof -
  have "grants f = G"
    using assms [of "[]"] by (auto simp: grants_def fun_eq_iff)
  with assms show ?thesis by (simp add: additive_def)
qed

lemma additive_grant [simp]:
  assumes "ordinary acts"
  shows "additive (grant (Inr p) acts)"
    "grants (grant (Inr p) acts) r = (if pattern_eq p r then actions_of acts else {})"
proof -
  have "additive (grant (Inr p) acts) \<and>
      grants (grant (Inr p) acts) = (\<lambda>r. if pattern_eq p r then actions_of acts else {})"
    by (rule additiveI) (simp add: grant_def granted_add assms Privilege_def vector_ok_add)
  then show "additive (grant (Inr p) acts)"
    "grants (grant (Inr p) acts) r = (if pattern_eq p r then actions_of acts else {})" by auto
qed

lemma grant_action_eq: "grant_action p n = grant p (addAction (action n) emptyActionSet)"
  by (simp add: fun_eq_iff grant_action_def grant_def Privilege_action_def Privilege_def emptyActionSet_def)

lemma additive_push [simp]:
  assumes "action_set_ok acts"
  shows "additive (push_privilege (Inr p) acts)"
    "grants (push_privilege (Inr p) acts) r = (if pattern_eq p r then actions_of acts else {})"
proof -
  have "additive (push_privilege (Inr p) acts) \<and>
      grants (push_privilege (Inr p) acts) = (\<lambda>r. if pattern_eq p r then actions_of acts else {})"
    by (rule additiveI) (use assms in \<open>auto simp: push_privilege_def Privilege_def vector_ok_def\<close>)
  then show "additive (push_privilege (Inr p) acts)"
    "grants (push_privilege (Inr p) acts) r = (if pattern_eq p r then actions_of acts else {})" by auto
qed

lemma additive_in_order:
  "list_all additive fs \<Longrightarrow> additive (in_order fs) \<and> grants (in_order fs) = (\<lambda>r. \<Union>f \<in> set fs. grants f r)"
proof (induction fs)
  case Nil
  show ?case by (rule additiveI) simp
next
  case (Cons f fs)
  then have IH: "additive (in_order fs)" "grants (in_order fs) = (\<lambda>r. \<Union>f \<in> set fs. grants f r)" "additive f"
    by auto
  show ?case
  proof (rule additiveI)
    fix ps
    obtain qs where qs: "f ps = Inr qs" "vector_ok ps \<longrightarrow> vector_ok qs" "\<forall>r. granted qs r = granted ps r \<union> grants f r"
      using IH(3) unfolding additive_def by blast
    moreover obtain rs where "in_order fs qs = Inr rs" "vector_ok qs \<longrightarrow> vector_ok rs"
        "\<forall>r. granted rs r = granted qs r \<union> grants (in_order fs) r"
      using IH(1) unfolding additive_def by blast
    ultimately show "\<exists>qs. in_order (f # fs) ps = Inr qs \<and> (vector_ok ps \<longrightarrow> vector_ok qs) \<and>
        (\<forall>r. granted qs r = granted ps r \<union> (\<Union>f \<in> set (f # fs). grants f r))"
      using IH(2) by (simp add: Un_assoc)
  qed
qed

lemma additive_in_order_simps [simp]:
  "list_all additive fs \<Longrightarrow> additive (in_order fs)"
  "list_all additive fs \<Longrightarrow> grants (in_order fs) r = (\<Union>f \<in> set fs. grants f r)"
  using additive_in_order [of fs] by simp_all


subsubsection \<open>Patterns of valid names\<close>

definition db_pattern :: "string \<Rightarrow> resource_pattern" where
  "db_pattern db = \<lparr>rp_matchType = matchDatabaseName, rp_ns = \<lparr>ns_ns = db @ ''.'', ns_dotIndex = Some (length db)\<rparr>\<rparr>"

definition exact_pattern :: "string \<Rightarrow> string \<Rightarrow> resource_pattern" where
  "exact_pattern db coll =
     \<lparr>rp_matchType = matchExactNamespace, rp_ns = \<lparr>ns_ns = db @ CHR ''.'' # coll, ns_dotIndex = Some (length db)\<rparr>\<rparr>"

lemma NamespaceString_of_valid:
  assumes "validDBName db" "CHR 0x00 \<notin> set coll" "coll = [] \<or> hd coll \<noteq> CHR ''.''"
  shows "NamespaceString_of db coll = Inr \<lparr>ns_ns = db @ CHR ''.'' # coll, ns_dotIndex = Some (length db)\<rparr>"
proof -
  have "CHR ''.'' \<notin> set db \<and> CHR 0x00 \<notin> set db"
    using assms(1) by (auto simp: validDBName_def bad_db_char_def split: if_splits)
  with assms(2,3) show ?thesis
    by (cases coll) (auto simp: NamespaceString_of_def Let_def memchr_None_iff)
qed

lemma forDatabaseName_valid [simp]: "validDBName db \<Longrightarrow> forDatabaseName db = Inr (db_pattern db)"
  by (simp add: forDatabaseName_def NamespaceString_of_valid db_pattern_def)

lemma exact_valid [simp]:
  "validDBName db \<Longrightarrow> CHR 0x00 \<notin> set coll \<Longrightarrow> coll = [] \<or> hd coll \<noteq> CHR ''.'' \<Longrightarrow>
   exact db coll = Inr (exact_pattern db coll)"
  by (simp add: exact_def NamespaceString_of_valid exact_pattern_def forExactNamespace_def)

definition collection_pattern :: "string \<Rightarrow> resource_pattern" where
  "collection_pattern coll =
     \<lparr>rp_matchType = matchCollectionName, rp_ns = \<lparr>ns_ns = CHR ''.'' # coll, ns_dotIndex = Some 0\<rparr>\<rparr>"

lemma forCollectionName_valid [simp]:
  "CHR 0x00 \<notin> set coll \<Longrightarrow> coll = [] \<or> hd coll \<noteq> CHR ''.'' \<Longrightarrow>
   forCollectionName coll = Inr (collection_pattern coll)"
  by (cases coll) (auto simp: forCollectionName_def NamespaceString_of_def Let_def memchr_None_iff collection_pattern_def)

lemma valid_config [simp]: "validDBName ''config''" "validDBName ''local''" "validDBName ''admin''"
  by (simp_all add: validDBName_def bad_db_char_def)

subsubsection \<open>What the roles grant\<close>

lemmas grant_simps = grant_action_eq Let_def

lemma db_roles_additive [simp]:
  assumes "validDBName db"
  shows "additive (addReadOnlyDbPrivileges db)" "additive (addReadWriteDbPrivileges db)"
    "additive (addUserAdminDbPrivileges db)" "additive (addDbAdminDbPrivileges db)"
    "additive (addDbOwnerPrivileges db)"
proof -
  note k = known_actions
  show r: "additive (addReadOnlyDbPrivileges db)" using assms by (simp add: addReadOnlyDbPrivileges_def)
  show rw: "additive (addReadWriteDbPrivileges db)" using assms r by (simp add: addReadWriteDbPrivileges_def)
  show u: "additive (addUserAdminDbPrivileges db)" using assms by (simp add: addUserAdminDbPrivileges_def)
  show a: "additive (addDbAdminDbPrivileges db)" using assms k by (simp add: addDbAdminDbPrivileges_def)
  show "additive (addDbOwnerPrivileges db)" using assms rw u a by (simp add: addDbOwnerPrivileges_def)
qed

lemma any_db_roles_additive [simp]:
  "additive addReadOnlyAnyDbPrivileges" "additive addReadWriteAnyDbPrivileges"
  "additive addUserAdminAnyDbPrivileges" "additive addDbAdminAnyDbPrivileges"
proof -
  note k = known_actions
  show r: "additive addReadOnlyAnyDbPrivileges"
    using k by (simp add: addReadOnlyAnyDbPrivileges_def grant_simps)
  show rw: "additive addReadWriteAnyDbPrivileges" using r by (simp add: addReadWriteAnyDbPrivileges_def)
  show u: "additive addUserAdminAnyDbPrivileges"
    using k by (simp add: addUserAdminAnyDbPrivileges_def grant_simps)
  show a: "additive addDbAdminAnyDbPrivileges"
    using k by (simp add: addDbAdminAnyDbPrivileges_def grant_simps)
qed

lemma cluster_roles_additive [simp]:
  "additive addClusterMonitorPrivileges" "additive addHostManagerPrivileges"
  "additive addClusterManagerPrivileges" "additive addClusterAdminPrivileges"
  "additive addBackupPrivileges" "additive addRestorePrivileges" "additive addRootRolePrivileges"
  "additive addInternalRolePrivileges"
proof -
  note k = known_actions
  show m: "additive addClusterMonitorPrivileges"
    using k by (simp add: addClusterMonitorPrivileges_def grant_simps)
  show h: "additive addHostManagerPrivileges" by (simp add: addHostManagerPrivileges_def)
  show c: "additive addClusterManagerPrivileges"
    using k by (simp add: addClusterManagerPrivileges_def grant_simps)
  show a: "additive addClusterAdminPrivileges"
    using m h c k by (simp add: addClusterAdminPrivileges_def grant_simps)
  show "additive addBackupPrivileges" using k by (simp add: addBackupPrivileges_def grant_simps)
  show "additive addRestorePrivileges" using k by (simp add: addRestorePrivileges_def grant_simps)
  show "additive addRootRolePrivileges" using a by (simp add: addRootRolePrivileges_def)
  show "additive addInternalRolePrivileges"
    by (simp add: addInternalRolePrivileges_def generateUniversalPrivileges_def)
qed


lemma isBuiltinRole_iff:
  "isBuiltinRole rn \<longleftrightarrow> validDBName (getDB rn) \<and> getDB rn \<noteq> ''$external'' \<and>
     (getRole rn \<in> {''read'', ''readWrite'', ''userAdmin'', ''dbAdmin'', ''dbOwner''} \<or>
      getDB rn = ''admin'' \<and> getRole rn \<in> {''readAnyDatabase'', ''readWriteAnyDatabase'',
        ''userAdminAnyDatabase'', ''dbAdminAnyDatabase'', ''clusterMonitor'', ''hostManager'',
        ''clusterManager'', ''clusterAdmin'', ''backup'', ''restore'', ''root'', ''__system''})"
  by (simp add: isBuiltinRole_def Let_def)

text \<open>The function that \<open>addPrivilegesForBuiltinRole\<close> calls for a role.\<close>

definition calls :: "role_name \<Rightarrow> vector_update \<Rightarrow> bool" where
  "calls rn f \<longleftrightarrow> (\<forall>ps. addPrivilegesForBuiltinRole rn ps = bindE (f ps) (\<lambda>ps. Inr (True, ps)))"

lemma calls_db:
  "getRole rn = ''read'' \<Longrightarrow> calls rn (addReadOnlyDbPrivileges (getDB rn))"
  "getRole rn = ''readWrite'' \<Longrightarrow> calls rn (addReadWriteDbPrivileges (getDB rn))"
  "getRole rn = ''userAdmin'' \<Longrightarrow> calls rn (addUserAdminDbPrivileges (getDB rn))"
  "getRole rn = ''dbAdmin'' \<Longrightarrow> calls rn (addDbAdminDbPrivileges (getDB rn))"
  "getRole rn = ''dbOwner'' \<Longrightarrow> calls rn (addDbOwnerPrivileges (getDB rn))"
  by (simp_all add: calls_def addPrivilegesForBuiltinRole_def)

lemma calls_admin:
  assumes "getDB rn = ''admin''"
  shows "getRole rn = ''readAnyDatabase'' \<Longrightarrow> calls rn addReadOnlyAnyDbPrivileges"
    "getRole rn = ''readWriteAnyDatabase'' \<Longrightarrow> calls rn addReadWriteAnyDbPrivileges"
    "getRole rn = ''userAdminAnyDatabase'' \<Longrightarrow> calls rn addUserAdminAnyDbPrivileges"
    "getRole rn = ''dbAdminAnyDatabase'' \<Longrightarrow> calls rn addDbAdminAnyDbPrivileges"
    "getRole rn = ''clusterMonitor'' \<Longrightarrow> calls rn addClusterMonitorPrivileges"
    "getRole rn = ''hostManager'' \<Longrightarrow> calls rn addHostManagerPrivileges"
    "getRole rn = ''clusterManager'' \<Longrightarrow> calls rn addClusterManagerPrivileges"
    "getRole rn = ''clusterAdmin'' \<Longrightarrow> calls rn addClusterAdminPrivileges"
    "getRole rn = ''backup'' \<Longrightarrow> calls rn addBackupPrivileges"
    "getRole rn = ''restore'' \<Longrightarrow> calls rn addRestorePrivileges"
    "getRole rn = ''root'' \<Longrightarrow> calls rn addRootRolePrivileges"
    "getRole rn = ''__system'' \<Longrightarrow> calls rn addInternalRolePrivileges"
  using assms by (simp_all add: calls_def addPrivilegesForBuiltinRole_def)

lemma not_builtin_unchanged:
  "validDBName (getDB rn) \<Longrightarrow> getDB rn \<noteq> ''$external'' \<Longrightarrow> \<not> isBuiltinRole rn \<Longrightarrow>
   addPrivilegesForBuiltinRole rn ps = Inr (False, ps)"
  by (cases "getDB rn = ''admin''") (simp_all add: isBuiltinRole_iff addPrivilegesForBuiltinRole_def)

subsubsection \<open>The reach of a role\<close>

definition within :: "(match_type \<Rightarrow> string \<Rightarrow> bool) \<Rightarrow> vector_update \<Rightarrow> bool" where
  "within Q f \<longleftrightarrow> (\<forall>r. anyAction \<notin> grants f r \<and>
     (grants f r \<noteq> {} \<longrightarrow> Q (rp_matchType r) (ns_ns (rp_ns r))))"

lemma within_grant [simp]:
  "ordinary acts \<Longrightarrow> Q (rp_matchType p) (ns_ns (rp_ns p)) \<Longrightarrow> within Q (grant (Inr p) acts)"
  by (auto simp: within_def ordinary_def pattern_eq_iff)

lemma within_push [simp]:
  "ordinary acts \<Longrightarrow> Q (rp_matchType p) (ns_ns (rp_ns p)) \<Longrightarrow> within Q (push_privilege (Inr p) acts)"
  by (auto simp: within_def ordinary_def pattern_eq_iff)

lemma within_in_order [simp]:
  "list_all additive fs \<Longrightarrow> list_all (within Q) fs \<Longrightarrow> within Q (in_order fs)"
  by (auto simp: within_def list_all_iff)

definition of_database :: "string \<Rightarrow> match_type \<Rightarrow> string \<Rightarrow> bool" where
  "of_database db t ns \<longleftrightarrow>
     t = matchDatabaseName \<and> ns = db @ ''.'' \<or>
     t = matchExactNamespace \<and> take (length db + 1) ns = db @ ''.''"

definition not_everything :: "match_type \<Rightarrow> string \<Rightarrow> bool" where
  "not_everything t ns \<longleftrightarrow> t \<noteq> matchAnyResource"

lemma of_database_patterns [simp]:
  "of_database db (rp_matchType (db_pattern db)) (ns_ns (rp_ns (db_pattern db)))"
  "of_database db (rp_matchType (exact_pattern db c)) (ns_ns (rp_ns (exact_pattern db c)))"
  by (simp_all add: of_database_def db_pattern_def exact_pattern_def)

lemma not_everything_patterns [simp]:
  "not_everything (rp_matchType (db_pattern db)) n"
  "not_everything (rp_matchType (exact_pattern db c)) n"
  "not_everything (rp_matchType (collection_pattern c)) n"
  "not_everything (rp_matchType (forExactNamespace m)) n"
  "not_everything (rp_matchType forAnyNormalResource) n"
  "not_everything (rp_matchType forClusterResource) n"
  by (simp_all add: not_everything_def db_pattern_def exact_pattern_def collection_pattern_def
      forExactNamespace_def forAnyNormalResource_def forClusterResource_def simple_pattern_def)

lemma of_database_not_everything: "within (of_database db) f \<Longrightarrow> within not_everything f"
  by (auto simp: within_def of_database_def not_everything_def)

lemma db_roles_within:
  assumes "validDBName db"
  shows "within (of_database db) (addReadOnlyDbPrivileges db)"
    "within (of_database db) (addReadWriteDbPrivileges db)"
    "within (of_database db) (addUserAdminDbPrivileges db)"
    "within (of_database db) (addDbAdminDbPrivileges db)"
    "within (of_database db) (addDbOwnerPrivileges db)"
proof -
  note k = known_actions
  show r: "within (of_database db) (addReadOnlyDbPrivileges db)"
    using assms by (simp add: addReadOnlyDbPrivileges_def)
  show rw: "within (of_database db) (addReadWriteDbPrivileges db)"
    using assms r by (simp add: addReadWriteDbPrivileges_def)
  show u: "within (of_database db) (addUserAdminDbPrivileges db)"
    using assms by (simp add: addUserAdminDbPrivileges_def)
  show a: "within (of_database db) (addDbAdminDbPrivileges db)"
    using assms k by (simp add: addDbAdminDbPrivileges_def)
  show "within (of_database db) (addDbOwnerPrivileges db)"
    using assms rw u a by (simp add: addDbOwnerPrivileges_def)
qed

lemma admin_roles_within:
  "within not_everything addReadOnlyAnyDbPrivileges" "within not_everything addReadWriteAnyDbPrivileges"
  "within not_everything addUserAdminAnyDbPrivileges" "within not_everything addDbAdminAnyDbPrivileges"
  "within not_everything addClusterMonitorPrivileges" "within not_everything addHostManagerPrivileges"
  "within not_everything addClusterManagerPrivileges" "within not_everything addClusterAdminPrivileges"
  "within not_everything addBackupPrivileges" "within not_everything addRestorePrivileges"
  "within not_everything addRootRolePrivileges"
proof -
  note k = known_actions
  note config = of_database_not_everything [OF db_roles_within(1) [OF valid_config(1)]]
  show r: "within not_everything addReadOnlyAnyDbPrivileges"
    using k by (simp add: addReadOnlyAnyDbPrivileges_def grant_simps)
  show rw: "within not_everything addReadWriteAnyDbPrivileges"
    using r by (simp add: addReadWriteAnyDbPrivileges_def)
  show u: "within not_everything addUserAdminAnyDbPrivileges"
    using k by (simp add: addUserAdminAnyDbPrivileges_def grant_simps)
  show d: "within not_everything addDbAdminAnyDbPrivileges"
    using k by (simp add: addDbAdminAnyDbPrivileges_def grant_simps)
  show m: "within not_everything addClusterMonitorPrivileges"
    using k config by (simp add: addClusterMonitorPrivileges_def grant_simps)
  show h: "within not_everything addHostManagerPrivileges" by (simp add: addHostManagerPrivileges_def)
  show c: "within not_everything addClusterManagerPrivileges"
    using k config by (simp add: addClusterManagerPrivileges_def grant_simps)
  show a: "within not_everything addClusterAdminPrivileges"
    using m h c k by (simp add: addClusterAdminPrivileges_def grant_simps)
  show "within not_everything addBackupPrivileges" using k by (simp add: addBackupPrivileges_def grant_simps)
  show "within not_everything addRestorePrivileges" using k by (simp add: addRestorePrivileges_def grant_simps)
  show "within not_everything addRootRolePrivileges"
    using a u d rw by (simp add: addRootRolePrivileges_def)
qed


lemma builtin_role_cases:
  assumes "isBuiltinRole rn"
  obtains (db) f where "calls rn f" "additive f" "within (of_database (getDB rn)) f" "getRole rn \<noteq> ''__system''"
  | (admin) f where "calls rn f" "additive f" "getDB rn = ''admin''" "within not_everything f"
      "getRole rn \<noteq> ''__system''"
  | (system) "calls rn addInternalRolePrivileges" "getDB rn = ''admin''" "getRole rn = ''__system''"
proof (cases "getRole rn \<in> {''read'', ''readWrite'', ''userAdmin'', ''dbAdmin'', ''dbOwner''}")
  case True
  have v: "validDBName (getDB rn)" using assms by (simp add: isBuiltinRole_iff)
  have "\<exists>f. calls rn f \<and> additive f \<and> within (of_database (getDB rn)) f"
    using True calls_db [of rn] db_roles_additive [OF v] db_roles_within [OF v] by auto
  moreover have "getRole rn \<noteq> ''__system''" using True by auto
  ultimately show thesis using db by blast
next
  case False
  then have a: "getDB rn = ''admin''" and r: "getRole rn \<in> {''readAnyDatabase'', ''readWriteAnyDatabase'',
        ''userAdminAnyDatabase'', ''dbAdminAnyDatabase'', ''clusterMonitor'', ''hostManager'',
        ''clusterManager'', ''clusterAdmin'', ''backup'', ''restore'', ''root'', ''__system''}"
    using assms unfolding isBuiltinRole_iff by blast+
  show thesis
  proof (cases "getRole rn = ''__system''")
    case True
    then show thesis using system a calls_admin [OF a] by simp
  next
    case False
    have "\<exists>f. calls rn f \<and> additive f \<and> within not_everything f"
      using False r calls_admin [OF a] any_db_roles_additive cluster_roles_additive admin_roles_within by auto
    then show thesis using admin a False by blast
  qed
qed

definition builtin_grants :: "role_name \<Rightarrow> resource_pattern \<Rightarrow> action_type set" where
  "builtin_grants rn r =
     (case addPrivilegesForBuiltinRole rn [] of Inr (b, ps) \<Rightarrow> granted ps r | Inl _ \<Rightarrow> {})"

lemma builtin_grants_calls: "calls rn f \<Longrightarrow> builtin_grants rn r = grants f r"
  by (auto simp: builtin_grants_def calls_def grants_def bindE_def split: sum.splits)

lemma additive_run:
  "additive f \<Longrightarrow> \<exists>qs. f ps = Inr qs \<and> (vector_ok ps \<longrightarrow> vector_ok qs) \<and>
     (\<forall>r. granted qs r = granted ps r \<union> grants f r)"
  by (simp add: additive_def)

lemma calls_additive:
  assumes "calls rn f" "additive f"
  shows "\<exists>qs. addPrivilegesForBuiltinRole rn ps = Inr (True, qs) \<and> (vector_ok ps \<longrightarrow> vector_ok qs) \<and>
    (\<forall>r. granted qs r = granted ps r \<union> builtin_grants rn r)"
  using additive_run [OF assms(2), of ps] assms(1) builtin_grants_calls [OF assms(1)]
  by (auto simp: calls_def)

lemma builtin_role_added:
  "isBuiltinRole rn \<Longrightarrow> \<exists>qs. addPrivilegesForBuiltinRole rn ps = Inr (True, qs) \<and> (vector_ok ps \<longrightarrow> vector_ok qs) \<and>
    (\<forall>r. granted qs r = granted ps r \<union> builtin_grants rn r)"
  by (erule builtin_role_cases) (erule calls_additive, simp)+

lemma internal_grants:
  "grants addInternalRolePrivileges r = (if pattern_eq forAnyResource r then {..<NUM_ACTION_TYPES} else {})"
  by (simp add: addInternalRolePrivileges_def generateUniversalPrivileges_def actions_of_def lessThan_def)

text \<open>
  The two lists of builtin roles agree: in a valid database other than \<open>$external\<close> the function
  that adds the privileges of a builtin role returns normally and says yes exactly for the names that
  \<open>isBuiltinRole\<close> recognises, so the assertion 17145 in the role graph cannot fail. On yes it grants,
  beside what the vector granted before, the role's own grants; on no it leaves the vector alone.
\<close>

theorem builtin_roles_recognised:
  assumes "validDBName (getDB rn)" "getDB rn \<noteq> ''$external''"
  shows "\<exists>qs. addPrivilegesForBuiltinRole rn ps = Inr (isBuiltinRole rn, qs) \<and>
    (if isBuiltinRole rn then \<forall>r. granted qs r = granted ps r \<union> builtin_grants rn r else qs = ps)"
  using builtin_role_added [of rn ps] not_builtin_unchanged [OF assms, of ps]
  by (cases "isBuiltinRole rn") auto

lemma builtin_roles_recognised_witness:
  "addPrivilegesForBuiltinRole (RoleName ''root'' ''test'') [] = Inr (False, [])"
  using builtin_roles_recognised [of "RoleName ''root'' ''test''" "[]"]
  by (simp add: isBuiltinRole_def validDBName_def bad_db_char_def)

text \<open>
  (C37) The reach of the builtin roles. A builtin role of a database other than \<open>admin\<close> grants actions
  only on that database and on single collections of it. No builtin role but \<open>__system\<close> grants
  \<open>anyAction\<close>, or anything on the pattern of all resources; \<open>__system\<close> grants every action on that
  pattern.
\<close>

theorem builtin_roles_reach:
  assumes "isBuiltinRole rn" "a \<in> builtin_grants rn r"
  shows "(getDB rn \<noteq> ''admin'' \<longrightarrow> of_database (getDB rn) (rp_matchType r) (ns_ns (rp_ns r))) \<and>
    (getRole rn \<noteq> ''__system'' \<longrightarrow> a \<noteq> anyAction \<and> rp_matchType r \<noteq> matchAnyResource) \<and>
    (getRole rn = ''__system'' \<longrightarrow> builtin_grants rn forAnyResource = {..<NUM_ACTION_TYPES})"
  using assms(1)
proof (cases rule: builtin_role_cases)
  case (db f)
  then have "within not_everything f" by (blast intro: of_database_not_everything)
  with db assms(2) builtin_grants_calls [OF db(1)] show ?thesis
    by (auto simp: within_def not_everything_def)
next
  case (admin f)
  with assms(2) builtin_grants_calls [OF admin(1)] show ?thesis
    by (auto simp: within_def not_everything_def)
next
  case system
  with builtin_grants_calls [OF system(1)] show ?thesis
    by (simp add: internal_grants pattern_eq_equiv)
qed

lemma builtin_roles_reach_witness:
  "builtin_grants (RoleName ''readWrite'' ''test'') forAnyNormalResource = {}"
proof -
  have v: "validDBName ''test''" by (simp add: validDBName_def bad_db_char_def)
  then have "isBuiltinRole (RoleName ''readWrite'' ''test'')" by (simp add: isBuiltinRole_iff)
  then show ?thesis
    using builtin_roles_reach [of "RoleName ''readWrite'' ''test''" _ forAnyNormalResource]
    by (auto simp: of_database_def forAnyNormalResource_def simple_pattern_def)
qed

lemma builtin_grants_db:
  assumes "validDBName db"
  shows "builtin_grants (RoleName ''read'' db) = grants (addReadOnlyDbPrivileges db)"
    "builtin_grants (RoleName ''readWrite'' db) = grants (addReadWriteDbPrivileges db)"
    "builtin_grants (RoleName ''userAdmin'' db) = grants (addUserAdminDbPrivileges db)"
    "builtin_grants (RoleName ''dbAdmin'' db) = grants (addDbAdminDbPrivileges db)"
    "builtin_grants (RoleName ''dbOwner'' db) = grants (addDbOwnerPrivileges db)"
  by (rule ext, rule builtin_grants_calls, use calls_db [of "RoleName _ db"] in simp)+

lemma builtin_grants_admin:
  "builtin_grants (RoleName ''readAnyDatabase'' ''admin'') = grants addReadOnlyAnyDbPrivileges"
  "builtin_grants (RoleName ''readWriteAnyDatabase'' ''admin'') = grants addReadWriteAnyDbPrivileges"
  "builtin_grants (RoleName ''userAdminAnyDatabase'' ''admin'') = grants addUserAdminAnyDbPrivileges"
  "builtin_grants (RoleName ''dbAdminAnyDatabase'' ''admin'') = grants addDbAdminAnyDbPrivileges"
  "builtin_grants (RoleName ''clusterMonitor'' ''admin'') = grants addClusterMonitorPrivileges"
  "builtin_grants (RoleName ''hostManager'' ''admin'') = grants addHostManagerPrivileges"
  "builtin_grants (RoleName ''clusterManager'' ''admin'') = grants addClusterManagerPrivileges"
  "builtin_grants (RoleName ''clusterAdmin'' ''admin'') = grants addClusterAdminPrivileges"
  "builtin_grants (RoleName ''root'' ''admin'') = grants addRootRolePrivileges"
  by (rule ext, rule builtin_grants_calls, use calls_admin [of "RoleName _ ''admin''"] in simp)+

text \<open>
  (C38) The builtin roles contain each other as their names promise: \<open>readWrite\<close> contains \<open>read\<close>;
  \<open>dbOwner\<close> contains \<open>readWrite\<close>, \<open>dbAdmin\<close> and \<open>userAdmin\<close>; \<open>clusterAdmin\<close> contains
  \<open>clusterMonitor\<close>, \<open>hostManager\<close> and \<open>clusterManager\<close>; \<open>root\<close> contains \<open>clusterAdmin\<close> and the
  roles for any database.
\<close>

theorem builtin_roles_inclusion:
  assumes "validDBName db"
  shows "builtin_grants (RoleName ''read'' db) r \<subseteq> builtin_grants (RoleName ''readWrite'' db) r \<and>
    builtin_grants (RoleName ''readWrite'' db) r \<union> builtin_grants (RoleName ''dbAdmin'' db) r \<union>
      builtin_grants (RoleName ''userAdmin'' db) r \<subseteq> builtin_grants (RoleName ''dbOwner'' db) r \<and>
    builtin_grants (RoleName ''readAnyDatabase'' ''admin'') r \<subseteq>
      builtin_grants (RoleName ''readWriteAnyDatabase'' ''admin'') r \<and>
    builtin_grants (RoleName ''clusterMonitor'' ''admin'') r \<union> builtin_grants (RoleName ''hostManager'' ''admin'') r \<union>
      builtin_grants (RoleName ''clusterManager'' ''admin'') r \<subseteq> builtin_grants (RoleName ''clusterAdmin'' ''admin'') r \<and>
    builtin_grants (RoleName ''clusterAdmin'' ''admin'') r \<union>
      builtin_grants (RoleName ''userAdminAnyDatabase'' ''admin'') r \<union>
      builtin_grants (RoleName ''dbAdminAnyDatabase'' ''admin'') r \<union>
      builtin_grants (RoleName ''readWriteAnyDatabase'' ''admin'') r \<subseteq> builtin_grants (RoleName ''root'' ''admin'') r"
proof -
  note k = known_actions
  have "grants (addReadOnlyDbPrivileges db) r \<subseteq> grants (addReadWriteDbPrivileges db) r"
    using assms by (auto simp: addReadWriteDbPrivileges_def)
  moreover have "grants (addReadWriteDbPrivileges db) r \<union> grants (addDbAdminDbPrivileges db) r \<union>
      grants (addUserAdminDbPrivileges db) r \<subseteq> grants (addDbOwnerPrivileges db) r"
    using assms by (auto simp: addDbOwnerPrivileges_def)
  moreover have "grants addReadOnlyAnyDbPrivileges r \<subseteq> grants addReadWriteAnyDbPrivileges r"
    by (auto simp: addReadWriteAnyDbPrivileges_def)
  moreover have "grants addClusterMonitorPrivileges r \<union> grants addHostManagerPrivileges r \<union>
      grants addClusterManagerPrivileges r \<subseteq> grants addClusterAdminPrivileges r"
    using k by (auto simp: addClusterAdminPrivileges_def grant_simps)
  moreover have "grants addClusterAdminPrivileges r \<union> grants addUserAdminAnyDbPrivileges r \<union>
      grants addDbAdminAnyDbPrivileges r \<union> grants addReadWriteAnyDbPrivileges r \<subseteq> grants addRootRolePrivileges r"
    by (auto simp: addRootRolePrivileges_def)
  ultimately show ?thesis
    using assms by (simp only: builtin_grants_db builtin_grants_admin)
qed

lemma builtin_roles_inclusion_witness:
  "\<forall>r. builtin_grants (RoleName ''read'' ''config'') r \<subseteq> builtin_grants (RoleName ''dbOwner'' ''config'') r"
  using builtin_roles_inclusion [OF valid_config(1)] by blast

end
