(* ===== verification/Role_Graph.thy ===== *)
theory Role_Graph
  imports Builtin_Roles
begin

text \<open>
  \<open>src/mongo/db/auth/role_graph.{h,cpp}\<close>: the graph of roles. Its maps are hash maps keyed by role
  name, and two role names are the same key when their full names are equal, so a map is a partial
  function of the full name. \<open>operator[]\<close> on a missing key creates an empty entry (\<open>set_at\<close> with
  the value \<open>at\<close> reads). Sets and vectors are lists; the order of an \<open>unordered_set\<close> is not
  specified and no statement depends on it.

  The first part are the operations, the second the invariant: the maps have the same keys, and the
  edges to subordinates and to members mirror each other. The recomputation of the transitive
  privileges is in \<open>Role_Graph_Recompute\<close>.
\<close>

type_synonym edge_set = "string \<rightharpoonup> role_name list"
type_synonym role_privilege_map = "string \<rightharpoonup> privilege list"

record role_graph =
  roleToSubordinates :: edge_set
  roleToIndirectSubordinates :: edge_set
  roleToMembers :: edge_set
  directPrivilegesForRole :: role_privilege_map
  allPrivilegesForRole :: role_privilege_map
  allRoles :: "role_name list"

definition RoleGraph :: role_graph where
  "RoleGraph = \<lparr>roleToSubordinates = Map.empty, roleToIndirectSubordinates = Map.empty,
     roleToMembers = Map.empty, directPrivilegesForRole = Map.empty,
     allPrivilegesForRole = Map.empty, allRoles = []\<rparr>"

definition swap :: "role_graph \<times> role_graph \<Rightarrow> role_graph \<times> role_graph" where
  "swap p = (let this = fst p; other = snd p in
     (\<lparr>roleToSubordinates = roleToSubordinates other,
       roleToIndirectSubordinates = roleToIndirectSubordinates other,
       roleToMembers = roleToMembers other, directPrivilegesForRole = directPrivilegesForRole other,
       allPrivilegesForRole = allPrivilegesForRole other, allRoles = allRoles other\<rparr>,
      \<lparr>roleToSubordinates = roleToSubordinates this,
       roleToIndirectSubordinates = roleToIndirectSubordinates this,
       roleToMembers = roleToMembers this, directPrivilegesForRole = directPrivilegesForRole this,
       allPrivilegesForRole = allPrivilegesForRole this, allRoles = allRoles this\<rparr>))"

definition at :: "(string \<rightharpoonup> 'a list) \<Rightarrow> role_name \<Rightarrow> 'a list" where
  "at m r = (case m (rn_fullName r) of None \<Rightarrow> [] | Some v \<Rightarrow> v)"

definition set_at :: "(string \<rightharpoonup> 'a list) \<Rightarrow> role_name \<Rightarrow> 'a list \<Rightarrow> string \<rightharpoonup> 'a list" where
  "set_at m r v = m(rn_fullName r \<mapsto> v)"

definition erase_at :: "(string \<rightharpoonup> 'a list) \<Rightarrow> role_name \<Rightarrow> string \<rightharpoonup> 'a list" where
  "erase_at m r = m(rn_fullName r := None)"

definition in_vector :: "role_name \<Rightarrow> role_name list \<Rightarrow> bool" where
  "in_vector r v = list_ex (\<lambda>x. role_eq x r) v"

text \<open>\<open>std::set<RoleName>\<close> as the list of its elements in order.\<close>

fun set_insert :: "role_name \<Rightarrow> role_name list \<Rightarrow> role_name list" where
  "set_insert r [] = [r]"
| "set_insert r (x # xs) =
     (if role_less r x then r # x # xs else if role_less x r then x # set_insert r xs else x # xs)"

definition set_erase :: "role_name \<Rightarrow> role_name list \<Rightarrow> role_name list" where
  "set_erase r xs = filter (\<lambda>x. role_less r x \<or> role_less x r) xs"

definition lower_bound :: "role_name \<Rightarrow> role_name list \<Rightarrow> role_name list" where
  "lower_bound r xs = dropWhile (\<lambda>x. role_less x r) xs"

subsection \<open>Existence and creation\<close>

definition roleExistsDontCreateBuiltin :: "role_name \<Rightarrow> role_graph \<Rightarrow> bool result" where
  "roleExistsDontCreateBuiltin role g =
     (if roleToSubordinates g (rn_fullName role) = None then Inr False
      else bindE (fassert 16825 (roleToMembers g (rn_fullName role) \<noteq> None)) (\<lambda>_.
        if directPrivilegesForRole g (rn_fullName role) = None then Inr False
        else bindE (fassert 16826 (allPrivilegesForRole g (rn_fullName role) \<noteq> None)) (\<lambda>_. Inr True)))"

definition createRoleDontCheckIfRoleExists :: "role_name \<Rightarrow> role_graph \<Rightarrow> role_graph" where
  "createRoleDontCheckIfRoleExists role g =
     \<lparr>roleToSubordinates = set_at (roleToSubordinates g) role (at (roleToSubordinates g) role),
      roleToIndirectSubordinates =
        set_at (roleToIndirectSubordinates g) role (at (roleToIndirectSubordinates g) role),
      roleToMembers = set_at (roleToMembers g) role (at (roleToMembers g) role),
      directPrivilegesForRole = set_at (directPrivilegesForRole g) role (at (directPrivilegesForRole g) role),
      allPrivilegesForRole = set_at (allPrivilegesForRole g) role (at (allPrivilegesForRole g) role),
      allRoles = set_insert role (allRoles g)\<rparr>"

definition addPrivilegeToRoleNoChecks :: "role_name \<Rightarrow> privilege \<Rightarrow> role_graph \<Rightarrow> role_graph" where
  "addPrivilegeToRoleNoChecks role p g =
     g\<lparr>directPrivilegesForRole :=
         set_at (directPrivilegesForRole g) role
           (addPrivilegeToPrivilegeVector p (at (directPrivilegesForRole g) role))\<rparr>"

definition push_all_privilege :: "role_name \<Rightarrow> privilege \<Rightarrow> role_graph \<Rightarrow> role_graph" where
  "push_all_privilege role p g =
     g\<lparr>allPrivilegesForRole :=
         set_at (allPrivilegesForRole g) role (at (allPrivilegesForRole g) role @ [p])\<rparr>"

definition createBuiltinRoleIfNeeded :: "role_name \<Rightarrow> role_graph \<Rightarrow> role_graph result" where
  "createBuiltinRoleIfNeeded role g =
     (if \<not> isBuiltinRole role then Inr g
      else bindE (roleExistsDontCreateBuiltin role g) (\<lambda>e.
        if e then Inr g
        else
          let g = createRoleDontCheckIfRoleExists role g
          in bindE (addPrivilegesForBuiltinRole role []) (\<lambda>(ok, privileges).
             bindE (fassert 17145 ok) (\<lambda>_.
               Inr (fold (\<lambda>p g. push_all_privilege role p (addPrivilegeToRoleNoChecks role p g))
                 privileges g)))))"

definition createBuiltinRolesForDBIfNeeded :: "string \<Rightarrow> role_graph \<Rightarrow> role_graph result" where
  "createBuiltinRolesForDBIfNeeded dbname g =
     bindE (foldE (\<lambda>r. createBuiltinRoleIfNeeded (RoleName r dbname))
              [''read'', ''readWrite'', ''userAdmin'', ''dbAdmin'', ''dbOwner''] g) (\<lambda>g.
       if dbname = ''admin''
       then foldE (\<lambda>r. createBuiltinRoleIfNeeded (RoleName r dbname))
              [''readAnyDatabase'', ''readWriteAnyDatabase'', ''userAdminAnyDatabase'',
               ''dbAdminAnyDatabase'', ''clusterMonitor'', ''hostManager'', ''clusterManager'',
               ''clusterAdmin'', ''backup'', ''restore'', ''root'', ''__system''] g
       else Inr g)"

definition roleExists :: "role_name \<Rightarrow> role_graph \<Rightarrow> (role_graph \<times> bool) result" where
  "roleExists role g =
     bindE (createBuiltinRoleIfNeeded role g) (\<lambda>g.
       bindE (roleExistsDontCreateBuiltin role g) (\<lambda>e. Inr (g, e)))"

definition role_message :: "string \<Rightarrow> role_name \<Rightarrow> string \<Rightarrow> string" where
  "role_message before role after = before @ rn_fullName role @ after"

text \<open>The first guard of most operations: a missing role ends them with \<open>RoleNotFound\<close>.\<close>

definition if_exists :: "role_name \<Rightarrow> role_graph \<Rightarrow> (role_graph \<Rightarrow> (role_graph \<times> status) result) \<Rightarrow>
    (role_graph \<times> status) result" where
  "if_exists role g k =
     bindE (roleExists role g) (\<lambda>(g, e).
       if \<not> e then Inr (g, Status RoleNotFound (role_message ''Role: '' role '' does not exist'') 0)
       else k g)"

definition createRole :: "role_name \<Rightarrow> role_graph \<Rightarrow> (role_graph \<times> status) result" where
  "createRole role g =
     bindE (roleExists role g) (\<lambda>(g, e).
       if e then Inr (g, Status DuplicateKey (role_message ''Role: '' role '' already exists'') 0)
       else Inr (createRoleDontCheckIfRoleExists role g, Status_OK))"

subsection \<open>Edges\<close>

definition erase_role_at :: "role_name \<Rightarrow> role_name \<Rightarrow> edge_set \<Rightarrow> edge_set result" where
  "erase_role_at role r m =
     bindE (erase_found (\<lambda>x. role_eq x role) (at m r)) (\<lambda>v. Inr (set_at m r v))"

definition deleteRole :: "role_name \<Rightarrow> role_graph \<Rightarrow> (role_graph \<times> status) result" where
  "deleteRole role g =
     if_exists role g (\<lambda>g.
       if isBuiltinRole role
       then Inr (g, Status InvalidRoleModification (role_message ''Cannot delete built-in role: '' role []) 0)
       else
         bindE (foldE (erase_role_at role) (at (roleToSubordinates g) role) (roleToMembers g)) (\<lambda>mem.
         bindE (foldE (erase_role_at role) (at mem role) (roleToSubordinates g)) (\<lambda>sub.
           Inr (\<lparr>roleToSubordinates = erase_at sub role,
                 roleToIndirectSubordinates = erase_at (roleToIndirectSubordinates g) role,
                 roleToMembers = erase_at mem role,
                 directPrivilegesForRole = erase_at (directPrivilegesForRole g) role,
                 allPrivilegesForRole = erase_at (allPrivilegesForRole g) role,
                 allRoles = set_erase role (allRoles g)\<rparr>, Status_OK))))"

definition addRoleToRole :: "role_name \<Rightarrow> role_name \<Rightarrow> role_graph \<Rightarrow> (role_graph \<times> status) result" where
  "addRoleToRole recipient role g =
     if_exists recipient g (\<lambda>g.
       if isBuiltinRole recipient
       then Inr (g, Status InvalidRoleModification
              (role_message ''Cannot grant roles to built-in role: '' role []) 0)
       else if_exists role g (\<lambda>g.
         if \<not> in_vector role (at (roleToSubordinates g) recipient)
         then Inr (g\<lparr>roleToSubordinates :=
                       set_at (roleToSubordinates g) recipient (at (roleToSubordinates g) recipient @ [role]),
                     roleToMembers := set_at (roleToMembers g) role (at (roleToMembers g) role @ [recipient])\<rparr>,
                   Status_OK)
         else Inr (g, Status_OK)))"

definition removeRoleFromRole :: "role_name \<Rightarrow> role_name \<Rightarrow> role_graph \<Rightarrow> (role_graph \<times> status) result" where
  "removeRoleFromRole recipient role g =
     if_exists recipient g (\<lambda>g.
       if isBuiltinRole recipient
       then Inr (g, Status InvalidRoleModification
              (role_message ''Cannot remove roles from built-in role: '' role []) 0)
       else if_exists role g (\<lambda>g.
         if in_vector recipient (at (roleToMembers g) role)
         then
           bindE (erase_role_at recipient role (roleToMembers g)) (\<lambda>mem.
           bindE (fassert 16827 (in_vector role (at (roleToSubordinates g) recipient))) (\<lambda>_.
           bindE (erase_role_at role recipient (roleToSubordinates g)) (\<lambda>sub.
             Inr (g\<lparr>roleToSubordinates := sub, roleToMembers := mem\<rparr>, Status_OK))))
         else Inr (g, Status RolesNotRelated
                (rn_fullName recipient @ '' is not a member of '' @ rn_fullName role) 0)))"

text \<open>One round of the loop in \<open>removeAllRolesFromRole\<close>.\<close>

definition forget_member :: "role_name \<Rightarrow> role_name \<Rightarrow> edge_set \<Rightarrow> edge_set result" where
  "forget_member victim r m =
     bindE (fassert 17173 (in_vector victim (at m r))) (\<lambda>_. erase_role_at victim r m)"

definition removeAllRolesFromRole :: "role_name \<Rightarrow> role_graph \<Rightarrow> (role_graph \<times> status) result" where
  "removeAllRolesFromRole victim g =
     if_exists victim g (\<lambda>g.
       if isBuiltinRole victim
       then Inr (g, Status InvalidRoleModification
              (role_message ''Cannot remove roles from built-in role: '' victim []) 0)
       else
         bindE (foldE (forget_member victim) (at (roleToSubordinates g) victim) (roleToMembers g)) (\<lambda>mem.
           Inr (g\<lparr>roleToSubordinates := set_at (roleToSubordinates g) victim [], roleToMembers := mem\<rparr>,
                Status_OK)))"

subsection \<open>Privileges\<close>

definition addPrivilegeToRole :: "role_name \<Rightarrow> privilege \<Rightarrow> role_graph \<Rightarrow> (role_graph \<times> status) result" where
  "addPrivilegeToRole role p g =
     if_exists role g (\<lambda>g.
       if isBuiltinRole role
       then Inr (g, Status InvalidRoleModification
              (role_message ''Cannot grant privileges to built-in role: '' role []) 0)
       else Inr (addPrivilegeToRoleNoChecks role p g, Status_OK))"

definition addPrivilegesToRole :: "role_name \<Rightarrow> privilege list \<Rightarrow> role_graph \<Rightarrow> (role_graph \<times> status) result" where
  "addPrivilegesToRole role ps g =
     if_exists role g (\<lambda>g.
       if isBuiltinRole role
       then Inr (g, Status InvalidRoleModification
              (role_message ''Cannot grant privileges to built-in role: '' role []) 0)
       else Inr (fold (addPrivilegeToRoleNoChecks role) ps g, Status_OK))"

text \<open>
  The loop over the current privileges: the new vector after the first entry on the resource lost
  the actions, \<open>Inl True\<close> when that entry does not have them all, \<open>Inl False\<close> when there is none.
\<close>

fun remove_privilege :: "privilege \<Rightarrow> privilege list \<Rightarrow> bool + privilege list" where
  "remove_privilege toRemove [] = Inl False"
| "remove_privilege toRemove (cur # rest) =
     (if pattern_eq (pv_resource cur) (pv_resource toRemove) then
        if \<not> isSupersetOf (pv_actions cur) (pv_actions toRemove) then Inl True
        else
          let cur = removeActions (pv_actions toRemove) cur
          in if pv_actions cur = 0 then Inr rest else Inr (cur # rest)
      else
        case remove_privilege toRemove rest of Inl b \<Rightarrow> Inl b | Inr rest' \<Rightarrow> Inr (cur # rest'))"

definition removePrivilegeFromRole :: "role_name \<Rightarrow> privilege \<Rightarrow> role_graph \<Rightarrow> (role_graph \<times> status) result" where
  "removePrivilegeFromRole role toRemove g =
     if_exists role g (\<lambda>g.
       if isBuiltinRole role
       then Inr (g, Status InvalidRoleModification
              (role_message ''Cannot remove privileges from built-in role: '' role []) 0)
       else case remove_privilege toRemove (at (directPrivilegesForRole g) role) of
         Inr v \<Rightarrow>
           Inr (g\<lparr>directPrivilegesForRole := set_at (directPrivilegesForRole g) role v\<rparr>, Status_OK)
       | Inl partial \<Rightarrow>
           bindE (pattern_toString (pv_resource toRemove)) (\<lambda>pattern.
             Inr (g, Status PrivilegeNotFound
               (if partial
                then role_message ''Role: '' role '' does not contain a privilege on '' @ pattern @
                  '' with actions: '' @ ActionSet_toString (pv_actions toRemove)
                else role_message ''Role: '' role '' does not contain any privileges on '' @ pattern) 0)))"

fun removePrivilegesFromRole :: "role_name \<Rightarrow> privilege list \<Rightarrow> role_graph \<Rightarrow> (role_graph \<times> status) result" where
  "removePrivilegesFromRole role [] g = Inr (g, Status_OK)"
| "removePrivilegesFromRole role (p # ps) g =
     bindE (removePrivilegeFromRole role p g) (\<lambda>(g, status).
       if \<not> isOK status then Inr (g, status) else removePrivilegesFromRole role ps g)"

definition removeAllPrivilegesFromRole :: "role_name \<Rightarrow> role_graph \<Rightarrow> (role_graph \<times> status) result" where
  "removeAllPrivilegesFromRole role g =
     if_exists role g (\<lambda>g.
       if isBuiltinRole role
       then Inr (g, Status InvalidRoleModification
              (role_message ''Cannot remove privileges from built-in role: '' role []) 0)
       else Inr (g\<lparr>directPrivilegesForRole := set_at (directPrivilegesForRole g) role []\<rparr>, Status_OK))"

text \<open>\<open>fassert\<close> of a status: the process aborts unless it is OK.\<close>

definition fassert_status :: "nat \<Rightarrow> (role_graph \<times> status) result \<Rightarrow> role_graph result" where
  "fassert_status code m = bindE m (\<lambda>(g, status). bindE (fassert code (isOK status)) (\<lambda>_. Inr g))"

definition replace_grant :: "role_name \<Rightarrow> role_name \<Rightarrow> role_graph \<Rightarrow> role_graph result" where
  "replace_grant roleName grantedRole g =
     bindE (createRole grantedRole g) (\<lambda>(g, status).
     bindE (fassert 17170 (isOK status \<or> status_compareCode status DuplicateKey)) (\<lambda>_.
       fassert_status 17171 (addRoleToRole roleName grantedRole g)))"

definition replaceRole :: "role_name \<Rightarrow> role_name list \<Rightarrow> privilege list \<Rightarrow> role_graph \<Rightarrow>
    (role_graph \<times> status) result" where
  "replaceRole roleName roles privileges g =
     bindE (removeAllPrivilegesFromRole roleName g) (\<lambda>(g, status).
       if \<not> status_compareCode status RoleNotFound \<and> \<not> isOK status then Inr (g, status)
       else
         bindE (if status_compareCode status RoleNotFound
                then fassert_status 17168 (createRole roleName g) else Inr g) (\<lambda>g.
         bindE (fassert_status 17169 (removeAllRolesFromRole roleName g)) (\<lambda>g.
         bindE (foldE (replace_grant roleName) roles g) (\<lambda>g.
         bindE (fassert_status 17172 (addPrivilegesToRole roleName privileges g)) (\<lambda>g.
           Inr (g, Status_OK))))))"

subsection \<open>Queries\<close>

text \<open>Iterators are the lists of what they yield; the null iterator yields nothing.\<close>

definition getDirectSubordinates :: "role_name \<Rightarrow> role_graph \<Rightarrow> (role_graph \<times> role_name list) result" where
  "getDirectSubordinates role g =
     bindE (roleExists role g) (\<lambda>(g, e). Inr (g, if \<not> e then [] else at (roleToSubordinates g) role))"

definition getIndirectSubordinates :: "role_name \<Rightarrow> role_graph \<Rightarrow> (role_graph \<times> role_name list) result" where
  "getIndirectSubordinates role g =
     bindE (roleExists role g) (\<lambda>(g, e). Inr (g, if \<not> e then [] else at (roleToIndirectSubordinates g) role))"

definition getDirectMembers :: "role_name \<Rightarrow> role_graph \<Rightarrow> (role_graph \<times> role_name list) result" where
  "getDirectMembers role g =
     bindE (roleExists role g) (\<lambda>(g, e). Inr (g, if \<not> e then [] else at (roleToMembers g) role))"

definition getDirectPrivileges :: "role_name \<Rightarrow> role_graph \<Rightarrow> (role_graph \<times> privilege list) result" where
  "getDirectPrivileges role g =
     bindE (roleExists role g) (\<lambda>(g, e).
       if \<not> e then Inr (g, [])
       else case directPrivilegesForRole g (rn_fullName role) of
         None \<Rightarrow> Inl UndefinedBehaviour | Some v \<Rightarrow> Inr (g, v))"

definition getAllPrivileges :: "role_name \<Rightarrow> role_graph \<Rightarrow> (role_graph \<times> privilege list) result" where
  "getAllPrivileges role g =
     bindE (roleExists role g) (\<lambda>(g, e).
       if \<not> e then Inr (g, [])
       else case allPrivilegesForRole g (rn_fullName role) of
         None \<Rightarrow> Inl UndefinedBehaviour | Some v \<Rightarrow> Inr (g, v))"

definition getRolesForDatabase :: "string \<Rightarrow> role_graph \<Rightarrow> (role_graph \<times> role_name list) result" where
  "getRolesForDatabase dbname g =
     bindE (createBuiltinRolesForDBIfNeeded dbname g) (\<lambda>g.
       let lower = lower_bound (RoleName [] dbname) (allRoles g);
           afterDB = dbname @ [CHR 0x00];
           upper = lower_bound (RoleName [] afterDB) (allRoles g)
       in Inr (g, take (length lower - length upper) lower))"

end
