(* ===== verification/Role_Graph_Invariant.thy ===== *)
theory Role_Graph_Invariant
  imports Role_Graph
begin

text \<open>
  The invariant of the role graph and the effect of the operations on roles and edges (the privileges
  and the statements over whole operations are in \<open>Role_Graph_Effects\<close>). Under the invariant no
  assertion of the operations can fail, no erased iterator is invalid, and each operation changes
  exactly the roles, edges and privileges it is about. \<open>edges\<close> is the abstract graph: the relation
  of direct subordination on full names.
\<close>

subsection \<open>The invariant\<close>

definition names_at :: "edge_set \<Rightarrow> string \<Rightarrow> string list" where
  "names_at m k = (case m k of None \<Rightarrow> [] | Some v \<Rightarrow> map rn_fullName v)"

abbreviation roles :: "role_graph \<Rightarrow> string set" where
  "roles g \<equiv> dom (roleToSubordinates g)"

abbreviation subs :: "role_graph \<Rightarrow> string \<Rightarrow> string list" where
  "subs g \<equiv> names_at (roleToSubordinates g)"

abbreviation mems :: "role_graph \<Rightarrow> string \<Rightarrow> string list" where
  "mems g \<equiv> names_at (roleToMembers g)"

definition maps_ok :: "(privilege list \<Rightarrow> bool) \<Rightarrow> role_privilege_map \<Rightarrow> bool" where
  "maps_ok P m \<longleftrightarrow> (\<forall>v \<in> ran m. P v)"

definition direct_ok :: "privilege list \<Rightarrow> bool" where
  "direct_ok v \<longleftrightarrow> vector_ok v \<and> unique_resources v"

definition graph_ok :: "role_graph \<Rightarrow> bool" where
  "graph_ok g \<longleftrightarrow>
     finite (roles g) \<and>
     dom (roleToMembers g) = roles g \<and> dom (roleToIndirectSubordinates g) = roles g \<and>
     dom (directPrivilegesForRole g) = roles g \<and> dom (allPrivilegesForRole g) = roles g \<and>
     maps_ok direct_ok (directPrivilegesForRole g) \<and> maps_ok vector_ok (allPrivilegesForRole g) \<and>
     (\<forall>k. distinct (subs g k)) \<and> (\<forall>k. distinct (mems g k)) \<and>
     (\<forall>a b. b \<in> set (subs g a) \<longleftrightarrow> a \<in> set (mems g b))"

text \<open>The relation of direct subordination, on full names.\<close>

definition edges :: "role_graph \<Rightarrow> (string \<times> string) set" where
  "edges g = {(a, b). b \<in> set (subs g a)}"

lemma graph_okD:
  assumes "graph_ok g"
  shows "finite (roles g)" "dom (roleToMembers g) = roles g" "dom (roleToIndirectSubordinates g) = roles g"
    "dom (directPrivilegesForRole g) = roles g" "dom (allPrivilegesForRole g) = roles g"
    "maps_ok direct_ok (directPrivilegesForRole g)" "maps_ok vector_ok (allPrivilegesForRole g)"
    "distinct (subs g k)" "distinct (mems g k)" "b \<in> set (subs g a) \<longleftrightarrow> a \<in> set (mems g b)"
  using assms unfolding graph_ok_def by blast+

lemma names_at_dom: "x \<in> set (names_at m k) \<Longrightarrow> k \<in> dom m"
  by (cases "m k") (auto simp: names_at_def)

lemma edges_in_roles: "graph_ok g \<Longrightarrow> (a, b) \<in> edges g \<Longrightarrow> a \<in> roles g \<and> b \<in> roles g"
  using names_at_dom graph_okD(2,10) unfolding edges_def by blast

lemma names_at_at [simp]: "map rn_fullName (at m r) = names_at m (rn_fullName r)"
  by (simp add: at_def names_at_def split: option.splits)

lemma at_names: "rn_fullName ` set (at m r) = set (names_at m (rn_fullName r))"
  by (metis names_at_at list.set_map)

lemma names_at_set_at [simp]: "names_at (set_at m r v) = (names_at m)(rn_fullName r := map rn_fullName v)"
  by (auto simp: set_at_def names_at_def)

lemma dom_set_at [simp]: "dom (set_at m r v) = insert (rn_fullName r) (dom m)"
  by (simp add: set_at_def)

lemma set_at_names_same [simp]: "(names_at m)(rn_fullName r := names_at m (rn_fullName r)) = names_at m"
  by simp

lemma set_at_other [simp]: "k \<noteq> rn_fullName r \<Longrightarrow> set_at m r v k = m k"
  by (simp add: set_at_def)

lemma maps_ok_set_at: "maps_ok P m \<Longrightarrow> P v \<Longrightarrow> maps_ok P (set_at m r v)"
  by (auto simp: maps_ok_def set_at_def ran_def)

lemma maps_ok_at: "maps_ok P m \<Longrightarrow> P [] \<Longrightarrow> P (at m r)"
  by (cases "m (rn_fullName r)") (auto simp: maps_ok_def at_def ran_def)

lemma empty_vector_ok [simp]: "vector_ok []" "direct_ok []"
  by (simp_all add: vector_ok_def direct_ok_def unique_resources_def)

lemma direct_ok_add: "direct_ok v \<Longrightarrow> action_set_ok (pv_actions p) \<Longrightarrow> direct_ok (addPrivilegeToPrivilegeVector p v)"
  by (simp add: direct_ok_def vector_ok_add unique_resources_add)

lemma in_vector_iff: "in_vector r v \<longleftrightarrow> rn_fullName r \<in> set (map rn_fullName v)"
  by (induction v) (auto simp: in_vector_def role_eq_def)

subsubsection \<open>Creation\<close>

lemma create_ok:
  assumes "graph_ok g"
  shows "graph_ok (createRoleDontCheckIfRoleExists r g)"
    "roles (createRoleDontCheckIfRoleExists r g) = insert (rn_fullName r) (roles g)"
    "subs (createRoleDontCheckIfRoleExists r g) = subs g"
    "mems (createRoleDontCheckIfRoleExists r g) = mems g"
proof -
  note g = graph_okD [OF assms]
  show "roles (createRoleDontCheckIfRoleExists r g) = insert (rn_fullName r) (roles g)"
    and s: "subs (createRoleDontCheckIfRoleExists r g) = subs g"
    and m: "mems (createRoleDontCheckIfRoleExists r g) = mems g"
    by (simp_all add: createRoleDontCheckIfRoleExists_def)
  then show "graph_ok (createRoleDontCheckIfRoleExists r g)"
    unfolding graph_ok_def s m using g
    by (simp add: createRoleDontCheckIfRoleExists_def maps_ok_set_at maps_ok_at)
qed

text \<open>\<open>adds_role b g g'\<close>: the roles of \<open>g'\<close> are those of \<open>g\<close> and \<open>b\<close>, in the maps and in the ordered list.\<close>

definition adds_role :: "role_name \<Rightarrow> role_graph \<Rightarrow> role_graph \<Rightarrow> bool" where
  "adds_role b g g' \<longleftrightarrow> roles g' = insert (rn_fullName b) (roles g) \<and>
     allRoles g' = (if rn_fullName b \<in> roles g then allRoles g else set_insert b (allRoles g))"

text \<open>\<open>grown r g g'\<close>: the graph after the builtin role of that name, if it is one, was created.\<close>

definition grown :: "role_name \<Rightarrow> role_graph \<Rightarrow> role_graph \<Rightarrow> bool" where
  "grown r g g' \<longleftrightarrow>
     graph_ok g' \<and> roles g' = roles g \<union> (if isBuiltinRole r then {rn_fullName r} else {}) \<and>
     subs g' = subs g \<and> mems g' = mems g \<and>
     (\<forall>k \<in> roles g. directPrivilegesForRole g' k = directPrivilegesForRole g k \<and>
        allPrivilegesForRole g' k = allPrivilegesForRole g k \<and>
        roleToIndirectSubordinates g' k = roleToIndirectSubordinates g k) \<and>
     (if rn_fullName r \<in> roles g' - roles g then allRoles g' = set_insert r (allRoles g) else g' = g)"

lemma roleExistsDont_ok:
  assumes "graph_ok g"
  shows "roleExistsDontCreateBuiltin r g = Inr (rn_fullName r \<in> roles g)"
proof -
  have "roleToMembers g (rn_fullName r) \<noteq> None \<longleftrightarrow> roleToSubordinates g (rn_fullName r) \<noteq> None"
    "directPrivilegesForRole g (rn_fullName r) \<noteq> None \<longleftrightarrow> roleToSubordinates g (rn_fullName r) \<noteq> None"
    "allPrivilegesForRole g (rn_fullName r) \<noteq> None \<longleftrightarrow> roleToSubordinates g (rn_fullName r) \<noteq> None"
    using graph_okD(2,4,5) [OF assms] by (metis domIff)+
  then show ?thesis
    by (cases "roleToSubordinates g (rn_fullName r) = None")
       (auto simp: roleExistsDontCreateBuiltin_def domIff)
qed

lemma fold_privileges:
  "fold (\<lambda>p g. push_all_privilege r p (addPrivilegeToRoleNoChecks r p g)) ps g =
   g\<lparr>directPrivilegesForRole := fold (\<lambda>p m. set_at m r (addPrivilegeToPrivilegeVector p (at m r))) ps (directPrivilegesForRole g),
     allPrivilegesForRole := fold (\<lambda>p m. set_at m r (at m r @ [p])) ps (allPrivilegesForRole g)\<rparr>"
  by (induction ps arbitrary: g) (simp_all add: push_all_privilege_def addPrivilegeToRoleNoChecks_def)

lemma fold_set_at:
  assumes "maps_ok P m" "vector_ok ps" "rn_fullName r \<in> dom m" and Nil: "P []"
    and f: "\<And>p v. P v \<Longrightarrow> action_set_ok (pv_actions p) \<Longrightarrow> P (f p v)"
  shows "maps_ok P (fold (\<lambda>p m. set_at m r (f p (at m r))) ps m) \<and>
    dom (fold (\<lambda>p m. set_at m r (f p (at m r))) ps m) = dom m \<and>
    (\<forall>k. k \<noteq> rn_fullName r \<longrightarrow> fold (\<lambda>p m. set_at m r (f p (at m r))) ps m k = m k)"
  using assms(1-3)
proof (induction ps arbitrary: m)
  case Nil
  then show ?case by simp
next
  case (Cons p ps)
  let ?m = "set_at m r (f p (at m r))"
  have p: "action_set_ok (pv_actions p)" "vector_ok ps" using Cons.prems(2) by (auto simp: vector_ok_def)
  moreover have "maps_ok P ?m"
    using f [OF maps_ok_at [OF Cons.prems(1) Nil] p(1)] Cons.prems(1) by (blast intro: maps_ok_set_at)
  moreover have "dom ?m = dom m" using Cons.prems(3) by auto
  ultimately show ?case
    using Cons.IH [of ?m] Cons.prems(3) by simp
qed

lemma createBuiltin_ok:
  assumes "graph_ok g"
  shows "\<exists>g'. createBuiltinRoleIfNeeded r g = Inr g' \<and> grown r g g'"
proof (cases "isBuiltinRole r \<and> rn_fullName r \<notin> roles g")
  case False
  then show ?thesis
    using assms roleExistsDont_ok [OF assms, of r]
    by (auto simp: createBuiltinRoleIfNeeded_def grown_def)
next
  case True
  let ?g = "createRoleDontCheckIfRoleExists r g"
  note c = create_ok [OF assms, of r]
  note o = graph_okD [OF c(1)]
  obtain ps where ps: "addPrivilegesForBuiltinRole r [] = Inr (True, ps)" "vector_ok ps"
    using builtin_role_added [of r "[]"] True by (auto simp: vector_ok_def)
  let ?d = "fold (\<lambda>p m. set_at m r (addPrivilegeToPrivilegeVector p (at m r))) ps (directPrivilegesForRole ?g)"
  let ?a = "fold (\<lambda>p m. set_at m r (at m r @ [p])) ps (allPrivilegesForRole ?g)"
  let ?g' = "?g\<lparr>directPrivilegesForRole := ?d, allPrivilegesForRole := ?a\<rparr>"
  have dom: "rn_fullName r \<in> dom (directPrivilegesForRole ?g)" "rn_fullName r \<in> dom (allPrivilegesForRole ?g)"
    using c(2) o(4,5) by simp_all
  have d: "maps_ok direct_ok ?d \<and> dom ?d = dom (directPrivilegesForRole ?g) \<and>
      (\<forall>k. k \<noteq> rn_fullName r \<longrightarrow> ?d k = directPrivilegesForRole ?g k)"
    by (rule fold_set_at [OF o(6) ps(2) dom(1)]) (simp_all add: direct_ok_add)
  have a: "maps_ok vector_ok ?a \<and> dom ?a = dom (allPrivilegesForRole ?g) \<and>
      (\<forall>k. k \<noteq> rn_fullName r \<longrightarrow> ?a k = allPrivilegesForRole ?g k)"
    by (rule fold_set_at [OF o(7) ps(2) dom(2)]) (auto simp: vector_ok_def)
  have "createBuiltinRoleIfNeeded r g = Inr ?g'"
    using True ps(1) roleExistsDont_ok [OF assms, of r]
    by (simp add: createBuiltinRoleIfNeeded_def fold_privileges Let_def)
  moreover have "graph_ok ?g'"
    using o d a unfolding graph_ok_def by simp
  then have "grown r g ?g'"
    using True c d a by (auto simp: grown_def createRoleDontCheckIfRoleExists_def set_at_def)
  ultimately show ?thesis by blast
qed

lemma roleExists_ok:
  assumes "graph_ok g"
  shows "\<exists>g'. roleExists r g = Inr (g', rn_fullName r \<in> roles g') \<and> grown r g g'"
  using createBuiltin_ok [OF assms, of r] roleExistsDont_ok
  by (fastforce simp: roleExists_def grown_def)

lemma if_exists_ok:
  assumes "graph_ok g"
  obtains g' where "grown r g g'"
    "if_exists r g k = (if rn_fullName r \<in> roles g' then k g'
       else Inr (g', Status RoleNotFound (role_message ''Role: '' r '' does not exist'') 0))"
  using roleExists_ok [OF assms, of r] by (auto simp: if_exists_def)

lemma grown_adds_role: "grown r g g' \<Longrightarrow> rn_fullName r \<in> roles g' \<Longrightarrow> adds_role r g g'"
  by (cases "rn_fullName r \<in> roles g") (auto simp: grown_def adds_role_def insert_absorb split: if_splits)

lemma grown_edges: "grown r g g' \<Longrightarrow> edges g' = edges g"
  by (simp add: grown_def edges_def)

subsubsection \<open>The ordered list of roles\<close>

text \<open>
  A name built by the constructor for a database without an at sign. For such names the order
  agrees with equality of full names, and the list of all roles is sorted and complete.
\<close>

definition plain_name :: "role_name \<Rightarrow> bool" where
  "plain_name r \<longleftrightarrow> r = RoleName (getRole r) (getDB r) \<and> CHR ''@'' \<notin> set (getDB r)"

definition listed :: "role_graph \<Rightarrow> bool" where
  "listed g \<longleftrightarrow> sorted_wrt role_less (allRoles g) \<and> (\<forall>r \<in> set (allRoles g). plain_name r) \<and>
     rn_fullName ` set (allRoles g) = roles g"

lemma plain_RoleName [simp]: "plain_name (RoleName r d) \<longleftrightarrow> CHR ''@'' \<notin> set d"
  by (simp add: plain_name_def)

lemma role_less_trans: "role_less a b \<Longrightarrow> role_less b c \<Longrightarrow> role_less a c"
  by (auto simp: role_less_def split: if_splits)

lemma role_less_irrefl [simp]: "\<not> role_less a a"
  by (simp add: role_less_def)

lemma plain_parts_eq: "plain_name a \<Longrightarrow> plain_name b \<Longrightarrow> getRole a = getRole b \<Longrightarrow> getDB a = getDB b \<Longrightarrow> a = b"
  unfolding plain_name_def by metis

lemma role_less_total:
  "plain_name a \<Longrightarrow> plain_name b \<Longrightarrow> a = b \<or> role_less a b \<or> role_less b a"
  by (auto simp: role_less_def intro: plain_parts_eq)

lemma full_name_split:
  assumes "CHR ''@'' \<notin> set d" "CHR ''@'' \<notin> set d'" "r @ CHR ''@'' # d = r' @ CHR ''@'' # d'"
  shows "r = r' \<and> d = d'"
proof -
  from assms(3) obtain us where
    us: "r = r' @ us \<and> us @ CHR ''@'' # d = CHR ''@'' # d' \<or> r @ us = r' \<and> CHR ''@'' # d = us @ CHR ''@'' # d'"
    by (auto simp: append_eq_append_conv2)
  then have "us = []" using assms(1,2) by (cases us) auto
  with us show ?thesis by auto
qed

lemma plain_fullName_eq:
  assumes "plain_name a" "plain_name b"
  shows "rn_fullName a = rn_fullName b \<longleftrightarrow> a = b"
proof
  assume e: "rn_fullName a = rn_fullName b"
  obtain r d r' d' where a: "a = RoleName r d" "CHR ''@'' \<notin> set d" and b: "b = RoleName r' d'" "CHR ''@'' \<notin> set d'"
    using assms unfolding plain_name_def by metis
  with e full_name_split [of d d' r r'] show "a = b" by (simp add: RoleName_fullName)
qed simp

lemma set_insert_ok:
  assumes "sorted_wrt role_less xs" "\<forall>x \<in> set xs. plain_name x" "plain_name r"
  shows "sorted_wrt role_less (set_insert r xs) \<and> set (set_insert r xs) = insert r (set xs)"
  using assms(1,2)
proof (induction xs)
  case Nil
  then show ?case by simp
next
  case (Cons x xs)
  then consider "role_less r x" | "role_less x r" "\<not> role_less r x" | "x = r"
    using role_less_total [of r x] assms(3) by auto
  then show ?case
  proof cases
    case 1
    with Cons.prems show ?thesis by (auto intro: role_less_trans)
  next
    case 2
    with Cons show ?thesis by auto
  next
    case 3
    with Cons.prems show ?thesis by auto
  qed
qed

lemma set_erase_ok:
  assumes "sorted_wrt role_less xs" "\<forall>x \<in> set xs. plain_name x" "plain_name r"
  shows "sorted_wrt role_less (set_erase r xs) \<and> set (set_erase r xs) = set xs - {r}"
  using assms role_less_total [of r] by (auto simp: set_erase_def sorted_wrt_filter)

lemma listed_cong: "roles g = roles g' \<Longrightarrow> allRoles g = allRoles g' \<Longrightarrow> listed g \<longleftrightarrow> listed g'"
  by (simp only: listed_def)

lemma adds_role_listed:
  assumes "adds_role b g g'" "plain_name b" "listed g"
  shows "listed g'"
  using assms set_insert_ok [of "allRoles g" b]
  by (cases "rn_fullName b \<in> roles g") (simp_all add: adds_role_def listed_def insert_absorb)

subsubsection \<open>The guards of the operations\<close>

lemma if_exists_either:
  assumes "graph_ok g"
  shows "\<exists>g'. grown r g g' \<and> if_exists r g k = (if rn_fullName r \<in> roles g' then k g'
       else Inr (g', Status RoleNotFound (role_message ''Role: '' r '' does not exist'') 0))"
proof -
  obtain g' where "roleExists r g = Inr (g', rn_fullName r \<in> roles g')" "grown r g g'"
    using roleExists_ok [OF assms] by blast
  then show ?thesis by (intro exI [of _ g']) (simp add: if_exists_def)
qed

lemma grown_custom: "grown r g g' \<Longrightarrow> \<not> isBuiltinRole r \<Longrightarrow> g' = g"
  by (simp add: grown_def)

lemma grown_existing: "grown r g g' \<Longrightarrow> rn_fullName r \<in> roles g \<Longrightarrow> g' = g"
  by (simp add: grown_def)

lemma grown_roles: "grown r g g' \<Longrightarrow> rn_fullName r \<in> roles g' \<longleftrightarrow> rn_fullName r \<in> roles g \<or> isBuiltinRole r"
  by (simp add: grown_def)

lemma if_exists_custom:
  assumes "graph_ok g" "\<not> isBuiltinRole r"
  shows "if_exists r g k = (if rn_fullName r \<in> roles g then k g
       else Inr (g, Status RoleNotFound (role_message ''Role: '' r '' does not exist'') 0))"
  using if_exists_either [OF assms(1), of r k] grown_custom assms(2) by metis

lemma if_exists_present:
  assumes "graph_ok g" "rn_fullName r \<in> roles g \<or> isBuiltinRole r"
  obtains g' where "grown r g g'" "if_exists r g k = k g'"
  using if_exists_either [OF assms(1), of r k] grown_roles [of r g] assms(2) by metis

lemma if_exists_absent:
  assumes "graph_ok g" "rn_fullName r \<notin> roles g" "\<not> isBuiltinRole r"
  shows "if_exists r g k = Inr (g, Status RoleNotFound (role_message ''Role: '' r '' does not exist'') 0)"
  using if_exists_custom [OF assms(1,3)] assms(2) by simp

subsubsection \<open>Erasing edges\<close>

lemma names_at_erase_at [simp]: "names_at (erase_at m r) = (names_at m)(rn_fullName r := [])"
  by (auto simp: erase_at_def names_at_def)

lemma dom_erase_at [simp]: "dom (erase_at m r) = dom m - {rn_fullName r}"
  by (simp add: erase_at_def)

lemma maps_ok_erase_at: "maps_ok P m \<Longrightarrow> maps_ok P (erase_at m r)"
  by (auto simp: maps_ok_def erase_at_def ran_def)

lemma erase_role_at_ok:
  assumes "rn_fullName v \<in> set (names_at m (rn_fullName r))"
  shows "\<exists>m'. erase_role_at v r m = Inr m' \<and> dom m' = dom m \<and>
    names_at m' = (names_at m)(rn_fullName r := remove1 (rn_fullName v) (names_at m (rn_fullName r)))"
proof -
  have "rn_fullName v \<in> rn_fullName ` set (at m r)" using assms by (simp only: at_names)
  then obtain x where "rn_fullName v = rn_fullName x" "x \<in> set (at m r)" by (rule imageE)
  then have "\<exists>x \<in> set (at m r). role_eq x v" by (intro bexI [of _ x]) (simp_all add: role_eq_def)
  then have "\<exists>ys. erase_found (\<lambda>x. role_eq x v) (at m r) = Inr ys" by (rule erase_found_defined)
  then obtain ys where ys: "erase_found (\<lambda>x. role_eq x v) (at m r) = Inr ys"
    by (elim exE)
  then have "map rn_fullName ys = remove1 (rn_fullName v) (names_at m (rn_fullName r))"
    using erase_found_remove1 [of rn_fullName "rn_fullName v" "at m r" ys] by (simp add: role_eq_def)
  moreover have "insert (rn_fullName r) (dom m) = dom m"
    using names_at_dom [OF assms] by (rule insert_absorb)
  ultimately show ?thesis using ys by (simp add: erase_role_at_def)
qed

lemma foldE_erase_ok:
  assumes step: "\<And>r m. rn_fullName v \<in> set (names_at m (rn_fullName r)) \<Longrightarrow> f r m = erase_role_at v r m"
  shows "distinct (map rn_fullName rs) \<Longrightarrow> \<forall>r \<in> set rs. rn_fullName v \<in> set (names_at m (rn_fullName r)) \<Longrightarrow>
    \<exists>m'. foldE f rs m = Inr m' \<and> dom m' = dom m \<and>
      names_at m' = (\<lambda>k. if k \<in> rn_fullName ` set rs then remove1 (rn_fullName v) (names_at m k) else names_at m k)"
proof (induction rs arbitrary: m)
  case Nil
  then show ?case by simp
next
  case (Cons r rs)
  obtain m1 where m1: "erase_role_at v r m = Inr m1" "dom m1 = dom m"
      "names_at m1 = (names_at m)(rn_fullName r := remove1 (rn_fullName v) (names_at m (rn_fullName r)))"
    using erase_role_at_ok [of v m r] Cons.prems(2) by auto
  have "\<forall>r' \<in> set rs. rn_fullName v \<in> set (names_at m1 (rn_fullName r'))"
    using Cons.prems m1(3) by (auto simp: image_iff)
  then obtain m2 where m2: "foldE f rs m1 = Inr m2" "dom m2 = dom m1"
      "names_at m2 = (\<lambda>k. if k \<in> rn_fullName ` set rs then remove1 (rn_fullName v) (names_at m1 k) else names_at m1 k)"
    using Cons.IH [of m1] Cons.prems(1) by auto
  have "f r m = Inr m1" using step [of m r] Cons.prems(2) m1(1) by simp
  moreover have "names_at m2 = (\<lambda>k. if k \<in> rn_fullName ` set (r # rs)
      then remove1 (rn_fullName v) (names_at m k) else names_at m k)"
    using m2(3) m1(3) Cons.prems(1) by (auto simp: fun_eq_iff)
  ultimately show ?case using m2 m1(2) by simp
qed

text \<open>Erasing a role from the members of its subordinates, or the other way round.\<close>

lemma foldE_erase_all:
  assumes "\<And>r m. rn_fullName v \<in> set (names_at m (rn_fullName r)) \<Longrightarrow> f r m = erase_role_at v r m"
    and "distinct (map rn_fullName rs)"
    and "\<And>k. rn_fullName v \<in> set (names_at m k) \<longleftrightarrow> k \<in> rn_fullName ` set rs"
  shows "\<exists>m'. foldE f rs m = Inr m' \<and> dom m' = dom m \<and>
    names_at m' = (\<lambda>k. remove1 (rn_fullName v) (names_at m k))"
proof -
  obtain m' where m': "foldE f rs m = Inr m'" "dom m' = dom m"
    "names_at m' = (\<lambda>k. if k \<in> rn_fullName ` set rs then remove1 (rn_fullName v) (names_at m k) else names_at m k)"
    using foldE_erase_ok [OF assms(1,2), of m] assms(3) by auto
  have "names_at m' = (\<lambda>k. remove1 (rn_fullName v) (names_at m k))"
    using m'(3) assms(3) by (auto simp: fun_eq_iff remove1_idem)
  with m' show ?thesis by blast
qed

subsubsection \<open>Effects of the operations on roles and edges\<close>

lemma graph_ok_edges:
  assumes "graph_ok g" "dom sub = roles g" "dom mem = roles g"
    "\<And>k. distinct (names_at sub k)" "\<And>k. distinct (names_at mem k)"
    "\<And>a b. b \<in> set (names_at sub a) \<longleftrightarrow> a \<in> set (names_at mem b)"
  shows "graph_ok (g\<lparr>roleToSubordinates := sub, roleToMembers := mem\<rparr>)"
  using assms graph_okD [OF assms(1)] unfolding graph_ok_def by simp

lemma createRole_ok:
  assumes "graph_ok g"
  shows "\<exists>g' s. createRole r g = Inr (g', s) \<and> graph_ok g' \<and> edges g' = edges g \<and> adds_role r g g' \<and>
    (if rn_fullName r \<in> roles g \<or> isBuiltinRole r then status_code s = DuplicateKey else s = Status_OK)"
proof -
  obtain g' where g': "roleExists r g = Inr (g', rn_fullName r \<in> roles g')" "grown r g g'"
    using roleExists_ok [OF assms] by blast
  have ok: "graph_ok g'" using g'(2) by (simp add: grown_def)
  show ?thesis
  proof (cases "rn_fullName r \<in> roles g'")
    case True
    then have "adds_role r g g'" by (rule grown_adds_role [OF g'(2)])
    moreover have "rn_fullName r \<in> roles g \<or> isBuiltinRole r" using grown_roles [OF g'(2)] True by blast
    ultimately show ?thesis
      using True g'(1) ok grown_edges [OF g'(2)] unfolding createRole_def by simp
  next
    case False
    then have "\<not> (rn_fullName r \<in> roles g \<or> isBuiltinRole r)" "g' = g"
      using grown_roles [OF g'(2)] grown_custom [OF g'(2)] by blast+
    moreover from this have "adds_role r g (createRoleDontCheckIfRoleExists r g)"
      using create_ok(2) [OF assms, of r] by (simp add: adds_role_def createRoleDontCheckIfRoleExists_def)
    ultimately show ?thesis
      using False g'(1) create_ok [OF assms, of r] unfolding createRole_def edges_def by simp
  qed
qed

lemma deleteRole_custom:
  assumes "graph_ok g" "\<not> isBuiltinRole r" "rn_fullName r \<in> roles g"
  shows "\<exists>g'. deleteRole r g = Inr (g', Status_OK) \<and> graph_ok g' \<and>
    roles g' = roles g - {rn_fullName r} \<and> allRoles g' = set_erase r (allRoles g) \<and>
    edges g' = {(a, b) \<in> edges g. a \<noteq> rn_fullName r \<and> b \<noteq> rn_fullName r}"
proof -
  note g = graph_okD [OF assms(1)]
  let ?v = "rn_fullName r"
  obtain mem where mem: "foldE (erase_role_at r) (at (roleToSubordinates g) r) (roleToMembers g) = Inr mem"
      "dom mem = roles g" "names_at mem = (\<lambda>k. remove1 ?v (mems g k))"
    using foldE_erase_all [of r "erase_role_at r" "at (roleToSubordinates g) r" "roleToMembers g"] g
    by (auto simp: at_names)
  have "distinct (map rn_fullName (at mem r))" using mem(3) g(9) by simp
  moreover have "\<forall>x \<in> set (at mem r). ?v \<in> set (subs g (rn_fullName x))"
  proof
    fix x assume "x \<in> set (at mem r)"
    then have "rn_fullName x \<in> set (names_at mem ?v)" unfolding at_names [symmetric] by (rule imageI)
    then show "?v \<in> set (subs g (rn_fullName x))" using mem(3) g(10) notin_set_remove1 by fastforce
  qed
  ultimately obtain sub where sub: "foldE (erase_role_at r) (at mem r) (roleToSubordinates g) = Inr sub"
      "dom sub = roles g" "names_at sub = (\<lambda>k. if k \<in> set (names_at mem ?v) then remove1 ?v (subs g k) else subs g k)"
    using foldE_erase_ok [of r "erase_role_at r" "at mem r" "roleToSubordinates g"] unfolding at_names by auto
  have m: "(names_at mem)(?v := []) = (\<lambda>k. if k = ?v then [] else remove1 ?v (mems g k))"
    using mem(3) by (simp add: fun_eq_iff)
  have s: "(names_at sub)(?v := []) = (\<lambda>k. if k = ?v then [] else remove1 ?v (subs g k))"
    using sub(3) mem(3) g by (auto simp: fun_eq_iff remove1_idem)
  let ?g = "\<lparr>roleToSubordinates = erase_at sub r,
     roleToIndirectSubordinates = erase_at (roleToIndirectSubordinates g) r,
     roleToMembers = erase_at mem r, directPrivilegesForRole = erase_at (directPrivilegesForRole g) r,
     allPrivilegesForRole = erase_at (allPrivilegesForRole g) r, allRoles = set_erase r (allRoles g)\<rparr>"
  have "deleteRole r g = Inr (?g, Status_OK)"
    using assms(2,3) mem(1) sub(1) by (simp add: deleteRole_def if_exists_custom [OF assms(1,2)])
  moreover have "subs ?g = (\<lambda>k. if k = ?v then [] else remove1 ?v (subs g k))"
    "mems ?g = (\<lambda>k. if k = ?v then [] else remove1 ?v (mems g k))"
    using m s by simp_all
  moreover from this have "graph_ok ?g"
    unfolding graph_ok_def using g mem(2) sub(2) by (simp add: maps_ok_erase_at)
  moreover from calculation(2) have "edges ?g = {(a, b) \<in> edges g. a \<noteq> ?v \<and> b \<noteq> ?v}"
    using g(8) by (auto simp: edges_def split: if_splits)
  ultimately show ?thesis using sub(2) by auto
qed

lemma role_in: "graph_ok g \<Longrightarrow> in_vector b (at (roleToSubordinates g) a) \<longleftrightarrow> (rn_fullName a, rn_fullName b) \<in> edges g"
  by (simp only: in_vector_iff names_at_at edges_def mem_Collect_eq prod.case)

lemma addRoleToRole_custom:
  assumes "graph_ok g" "\<not> isBuiltinRole a" "rn_fullName a \<in> roles g" "rn_fullName b \<in> roles g \<or> isBuiltinRole b"
  shows "\<exists>g'. addRoleToRole a b g = Inr (g', Status_OK) \<and> graph_ok g' \<and> adds_role b g g' \<and> edges g' = insert (rn_fullName a, rn_fullName b) (edges g)"
proof -
  let ?k = "\<lambda>g. if \<not> in_vector b (at (roleToSubordinates g) a)
         then Inr (g\<lparr>roleToSubordinates :=
                       set_at (roleToSubordinates g) a (at (roleToSubordinates g) a @ [b]),
                     roleToMembers := set_at (roleToMembers g) b (at (roleToMembers g) b @ [a])\<rparr>,
                   Status_OK)
         else Inr (g, Status_OK)"
  have "addRoleToRole a b g = if_exists b g ?k"
    using assms(2,3) by (simp add: addRoleToRole_def if_exists_custom [OF assms(1,2)])
  then obtain g1 where g1: "grown b g g1" "addRoleToRole a b g = ?k g1"
    using if_exists_present [OF assms(1,4), of ?k] by auto
  have ok: "graph_ok g1" and ar: "adds_role b g g1"
    using g1(1) assms(4) grown_roles [OF g1(1)] grown_adds_role [OF g1(1)] by (auto simp: grown_def)
  then have r: "roles g1 = insert (rn_fullName b) (roles g)" by (simp add: adds_role_def)
  note g = graph_okD [OF ok]
  show ?thesis
  proof (cases "in_vector b (at (roleToSubordinates g1) a)")
    case True
    then have "(rn_fullName a, rn_fullName b) \<in> edges g1" by (simp add: role_in [OF ok])
    then show ?thesis using True g1(2) ar ok grown_edges [OF g1(1)] by auto
  next
    case False
    let ?sub = "set_at (roleToSubordinates g1) a (at (roleToSubordinates g1) a @ [b])"
    let ?mem = "set_at (roleToMembers g1) b (at (roleToMembers g1) b @ [a])"
    have new: "rn_fullName b \<notin> set (subs g1 (rn_fullName a))" "rn_fullName a \<notin> set (mems g1 (rn_fullName b))"
      using False g(10) by (simp_all only: in_vector_iff names_at_at not_False_eq_True)
    have d: "dom ?sub = roles g1" "dom ?mem = roles g1" using r assms(3) g(2) by auto
    have "graph_ok (g1\<lparr>roleToSubordinates := ?sub, roleToMembers := ?mem\<rparr>)"
      by (rule graph_ok_edges [OF ok d]) (use new g in auto)
    moreover have "edges (g1\<lparr>roleToSubordinates := ?sub, roleToMembers := ?mem\<rparr>) =
        insert (rn_fullName a, rn_fullName b) (edges g)"
      unfolding grown_edges [OF g1(1), symmetric] by (auto simp: edges_def split: if_splits)
    moreover have "adds_role b g (g1\<lparr>roleToSubordinates := ?sub, roleToMembers := ?mem\<rparr>)"
      using ar d(1) by (simp add: adds_role_def)
    ultimately show ?thesis using False g1(2) by simp
  qed
qed


lemma removeRoleFromRole_custom:
  assumes "graph_ok g" "\<not> isBuiltinRole a" "rn_fullName a \<in> roles g" "rn_fullName b \<in> roles g \<or> isBuiltinRole b"
  shows "\<exists>g' s. removeRoleFromRole a b g = Inr (g', s) \<and> graph_ok g' \<and> adds_role b g g' \<and>
    (if (rn_fullName a, rn_fullName b) \<in> edges g
     then s = Status_OK \<and> edges g' = edges g - {(rn_fullName a, rn_fullName b)}
     else status_code s = RolesNotRelated \<and> edges g' = edges g)"
proof -
  let ?k = "\<lambda>g. if in_vector a (at (roleToMembers g) b)
     then bindE (erase_role_at a b (roleToMembers g)) (\<lambda>mem.
          bindE (fassert 16827 (in_vector b (at (roleToSubordinates g) a))) (\<lambda>_.
          bindE (erase_role_at b a (roleToSubordinates g)) (\<lambda>sub.
            Inr (g\<lparr>roleToSubordinates := sub, roleToMembers := mem\<rparr>, Status_OK))))
     else Inr (g, Status RolesNotRelated (rn_fullName a @ '' is not a member of '' @ rn_fullName b) 0)"
  have "removeRoleFromRole a b g = if_exists b g ?k"
    using assms(2,3) by (simp add: removeRoleFromRole_def if_exists_custom [OF assms(1,2)])
  then obtain g1 where g1: "grown b g g1" "removeRoleFromRole a b g = ?k g1"
    using if_exists_present [OF assms(1,4), of ?k] by auto
  have ok: "graph_ok g1" and ar: "adds_role b g g1" and e: "edges g1 = edges g"
    using g1(1) assms(4) grown_edges [OF g1(1)] grown_roles [OF g1(1)] grown_adds_role [OF g1(1)]
    by (auto simp: grown_def)
  note g = graph_okD [OF ok]
  have in_b: "in_vector a (at (roleToMembers g1) b) \<longleftrightarrow> (rn_fullName a, rn_fullName b) \<in> edges g"
    unfolding e [symmetric] by (simp only: in_vector_iff names_at_at edges_def mem_Collect_eq prod.case g(10))
  show ?thesis
  proof (cases "(rn_fullName a, rn_fullName b) \<in> edges g")
    case False
    with in_b g1(2) ok ar e show ?thesis by simp
  next
    case True
    then have s: "rn_fullName b \<in> set (subs g1 (rn_fullName a))" unfolding e [symmetric] by (simp add: edges_def)
    then have m: "rn_fullName a \<in> set (mems g1 (rn_fullName b))" using g(10) by blast
    obtain sub mem where sub: "erase_role_at b a (roleToSubordinates g1) = Inr sub" "dom sub = roles g1"
        "names_at sub = (subs g1)(rn_fullName a := remove1 (rn_fullName b) (subs g1 (rn_fullName a)))"
      and mem: "erase_role_at a b (roleToMembers g1) = Inr mem" "dom mem = roles g1"
        "names_at mem = (mems g1)(rn_fullName b := remove1 (rn_fullName a) (mems g1 (rn_fullName b)))"
      using erase_role_at_ok [OF s] erase_role_at_ok [OF m] g(2) by auto
    have "graph_ok (g1\<lparr>roleToSubordinates := sub, roleToMembers := mem\<rparr>)"
      by (rule graph_ok_edges [OF ok sub(2) mem(2)]) (use g sub(3) mem(3) in auto)
    moreover have "edges (g1\<lparr>roleToSubordinates := sub, roleToMembers := mem\<rparr>) =
        edges g - {(rn_fullName a, rn_fullName b)}"
      unfolding e [symmetric] using g(8) sub(3) by (auto simp: edges_def split: if_splits)
    moreover have "in_vector b (at (roleToSubordinates g1) a)" using True e by (simp add: role_in [OF ok])
    moreover have "adds_role b g (g1\<lparr>roleToSubordinates := sub, roleToMembers := mem\<rparr>)"
      using ar sub(2) by (simp add: adds_role_def)
    ultimately show ?thesis using True in_b g1(2) sub(1) mem(1) by simp
  qed
qed

lemma removeAllRolesFromRole_custom:
  assumes "graph_ok g" "\<not> isBuiltinRole v" "rn_fullName v \<in> roles g"
  shows "\<exists>g'. removeAllRolesFromRole v g = Inr (g', Status_OK) \<and> graph_ok g' \<and>
    roles g' = roles g \<and> allRoles g' = allRoles g \<and>
    edges g' = {(a, b) \<in> edges g. a \<noteq> rn_fullName v} \<and> directPrivilegesForRole g' = directPrivilegesForRole g"
proof -
  note g = graph_okD [OF assms(1)]
  let ?v = "rn_fullName v"
  have f: "forget_member v r m = erase_role_at v r m" if "?v \<in> set (names_at m (rn_fullName r))" for r m
    using that unfolding forget_member_def in_vector_iff names_at_at by simp
  obtain mem where mem: "foldE (forget_member v) (at (roleToSubordinates g) v) (roleToMembers g) = Inr mem"
      "dom mem = roles g" "names_at mem = (\<lambda>k. remove1 ?v (mems g k))"
    using foldE_erase_all [OF f, of "at (roleToSubordinates g) v" "roleToMembers g"] g by (auto simp: at_names)
  let ?sub = "set_at (roleToSubordinates g) v []"
  have "dom ?sub = roles g" using assms(3) by auto
  then have "graph_ok (g\<lparr>roleToSubordinates := ?sub, roleToMembers := mem\<rparr>)"
    by (rule graph_ok_edges [OF assms(1) _ mem(2)]) (use g mem(3) in auto)
  moreover have "edges (g\<lparr>roleToSubordinates := ?sub, roleToMembers := mem\<rparr>) = {(a, b) \<in> edges g. a \<noteq> ?v}"
    by (auto simp: edges_def split: if_splits)
  ultimately show ?thesis
    using assms mem(1) \<open>dom ?sub = roles g\<close>
    by (simp add: removeAllRolesFromRole_def if_exists_custom [OF assms(1,2)])
qed

text \<open>A builtin role cannot be modified: after its creation the operation ends with a status.\<close>

lemma if_exists_builtin_status:
  assumes "graph_ok g" "isBuiltinRole r"
  shows "\<exists>g'. if_exists r g (\<lambda>g. if isBuiltinRole r then Inr (g, s) else k g) = Inr (g', s) \<and>
    grown r g g'"
  using if_exists_present [OF assms(1) disjI2 [OF assms(2)], of "\<lambda>g. if isBuiltinRole r then Inr (g, s) else k g"]
    assms(2) by auto

end
