(* ===== verification/Role_Graph_Effects.thy ===== *)
theory Role_Graph_Effects
  imports Role_Graph_Invariant
begin

text \<open>
  What the operations of the role graph do: their effect on privileges (\<open>direct_grants\<close>, what a role
  grants by itself), on edges and on the set of roles, for every outcome; the listing of the roles
  of a database; and the invariant over sequences of operations.
\<close>

subsection \<open>Effects of the operations on privileges\<close>

definition direct_grants :: "role_graph \<Rightarrow> string \<Rightarrow> resource_pattern \<Rightarrow> action_type set" where
  "direct_grants g k r = (case directPrivilegesForRole g k of None \<Rightarrow> {} | Some v \<Rightarrow> granted v r)"

lemma direct_grants_at: "direct_grants g (rn_fullName role) r = granted (at (directPrivilegesForRole g) role) r"
  by (simp add: direct_grants_def at_def split: option.splits)

lemma graph_ok_direct:
  assumes "graph_ok g" "rn_fullName r \<in> roles g" "direct_ok v"
  shows "graph_ok (g\<lparr>directPrivilegesForRole := set_at (directPrivilegesForRole g) r v\<rparr>)"
proof -
  have "dom (set_at (directPrivilegesForRole g) r v) = roles g"
    using graph_okD(4) [OF assms(1)] assms(2) by auto
  then show ?thesis
    using graph_okD [OF assms(1)] maps_ok_set_at [where P = direct_ok, OF _ assms(3)]
    unfolding graph_ok_def by simp
qed

lemma direct_ok_at: "graph_ok g \<Longrightarrow> direct_ok (at (directPrivilegesForRole g) r)"
  using maps_ok_at graph_okD(6) empty_vector_ok(2) by blast

lemma direct_grants_set_at:
  "direct_grants (g\<lparr>directPrivilegesForRole := set_at (directPrivilegesForRole g) role v\<rparr>) k r =
   (if k = rn_fullName role then granted v r else direct_grants g k r)"
  by (simp add: direct_grants_def set_at_def)

lemma edges_direct [simp]: "edges (g\<lparr>directPrivilegesForRole := m\<rparr>) = edges g"
  by (simp add: edges_def)

lemma addNoChecks_ok:
  assumes "graph_ok g" "rn_fullName role \<in> roles g" "action_set_ok (pv_actions p)"
  shows "graph_ok (addPrivilegeToRoleNoChecks role p g)" "roles (addPrivilegeToRoleNoChecks role p g) = roles g"
    "edges (addPrivilegeToRoleNoChecks role p g) = edges g"
    "direct_grants (addPrivilegeToRoleNoChecks role p g) k r =
       direct_grants g k r \<union> (if k = rn_fullName role then granted [p] r else {})"
  using graph_ok_direct [OF assms(1,2) direct_ok_add [OF direct_ok_at [OF assms(1)] assms(3)]]
  by (simp_all add: addPrivilegeToRoleNoChecks_def direct_grants_set_at direct_grants_at
      granted_add [OF assms(3)] del: granted_Cons)

lemma fold_addNoChecks_ok:
  "graph_ok g \<Longrightarrow> rn_fullName role \<in> roles g \<Longrightarrow> vector_ok ps \<Longrightarrow>
   graph_ok (fold (addPrivilegeToRoleNoChecks role) ps g) \<and>
   roles (fold (addPrivilegeToRoleNoChecks role) ps g) = roles g \<and>
   allRoles (fold (addPrivilegeToRoleNoChecks role) ps g) = allRoles g \<and>
   edges (fold (addPrivilegeToRoleNoChecks role) ps g) = edges g \<and>
   (\<forall>k r. direct_grants (fold (addPrivilegeToRoleNoChecks role) ps g) k r =
      direct_grants g k r \<union> (if k = rn_fullName role then granted ps r else {}))"
proof (induction ps arbitrary: g)
  case Nil
  then show ?case by simp
next
  case (Cons p ps)
  then have p: "action_set_ok (pv_actions p)" "vector_ok ps" by (simp_all add: vector_ok_def)
  note a = addNoChecks_ok [OF Cons.prems(1,2) p(1)]
  have "rn_fullName role \<in> roles (addPrivilegeToRoleNoChecks role p g)" using a(2) Cons.prems(2) by blast
  from Cons.IH [OF a(1) this p(2)] a(2,3,4) show ?case by (auto simp: addPrivilegeToRoleNoChecks_def)
qed

lemma unique_rest:
  assumes "unique_resources (c # rest)" "pattern_eq (pv_resource c) r"
  shows "granted rest r = {}"
proof -
  have "\<not> pattern_eq (pv_resource p) r" if "p \<in> set rest" for p
    using that assms by (force simp: unique_resources_def pattern_eq_iff)
  then show ?thesis by (auto simp: granted_def)
qed

lemma unique_resources_Cons:
  "unique_resources (c # v) \<longleftrightarrow> (\<forall>p \<in> set v. \<not> pattern_eq (pv_resource p) (pv_resource c)) \<and> unique_resources v"
  by (auto simp: unique_resources_def pattern_eq_iff image_iff)

lemma remove_privilege_resources:
  "remove_privilege p v = Inr v' \<Longrightarrow> pv_resource ` set v' \<subseteq> pv_resource ` set v"
proof (induction v arbitrary: v')
  case Nil
  then show ?case by simp
next
  case (Cons c v)
  show ?case
  proof (cases "pattern_eq (pv_resource c) (pv_resource p)")
    case True
    with Cons.prems show ?thesis
      by (auto simp: Let_def removeActions_def split: if_splits)
  next
    case False
    with Cons.prems obtain w where "remove_privilege p v = Inr w" "v' = c # w" by (auto split: sum.splits)
    with Cons.IH [of w] show ?thesis by auto
  qed
qed

lemma direct_ok_Cons:
  "direct_ok (c # v) \<longleftrightarrow> action_set_ok (pv_actions c) \<and> direct_ok v \<and>
     (\<forall>p \<in> set v. \<not> pattern_eq (pv_resource p) (pv_resource c))"
  unfolding direct_ok_def unique_resources_Cons by (auto simp: vector_ok_def)

definition without :: "action_type set \<Rightarrow> action_type set \<Rightarrow> action_type set" where
  "without s t = s - t - (if t = {} then {} else {anyAction})"

lemma removeActions_ok:
  "pv_resource (removeActions s c) = pv_resource c"
  "action_set_ok (pv_actions c) \<Longrightarrow> action_set_ok (pv_actions (removeActions s c))"
  "actions_of (pv_actions (removeActions s c)) = without (actions_of (pv_actions c)) (actions_of s)"
  by (simp_all add: removeActions_def action_set_ok_difference actions_of_difference without_def)

lemma remove_privilege_ok:
  "direct_ok v \<Longrightarrow>
   (case remove_privilege p v of
      Inl _ \<Rightarrow> actions_of (pv_actions p) = {} \<or> \<not> actions_of (pv_actions p) \<subseteq> granted v (pv_resource p)
    | Inr v' \<Rightarrow> direct_ok v' \<and> actions_of (pv_actions p) \<subseteq> granted v (pv_resource p) \<and>
        (\<forall>r. granted v' r = (if pattern_eq (pv_resource p) r then without (granted v r) (actions_of (pv_actions p))
           else granted v r)))"
proof (induction v)
  case Nil
  then show ?case by simp
next
  case (Cons c v)
  have c: "action_set_ok (pv_actions c)" "direct_ok v" "\<forall>q \<in> set v. \<not> pattern_eq (pv_resource q) (pv_resource c)"
    and u: "unique_resources (c # v)"
    using Cons.prems unfolding direct_ok_Cons by (blast, blast, blast) (use Cons.prems in \<open>simp add: direct_ok_def\<close>)
  show ?case
  proof (cases "pattern_eq (pv_resource c) (pv_resource p)")
    case eq: True
    note rest = unique_rest [OF u eq]
    have eq_iff: "pattern_eq (pv_resource c) r \<longleftrightarrow> pattern_eq (pv_resource p) r" for r
      using eq by (simp add: pattern_eq_iff)
    show ?thesis
    proof (cases "isSupersetOf (pv_actions c) (pv_actions p)")
      case False
      then show ?thesis using eq rest by (simp add: isSupersetOf_iff)
    next
      case sup: True
      let ?c = "removeActions (pv_actions p) c"
      have res: "remove_privilege p (c # v) = Inr (if pv_actions ?c = 0 then v else ?c # v)"
        using eq sup by (simp add: Let_def)
      have ok: "direct_ok (if pv_actions ?c = 0 then v else ?c # v)"
        using c by (simp add: direct_ok_Cons removeActions_ok)
      have "granted (if pv_actions ?c = 0 then v else ?c # v) r =
          (if pattern_eq (pv_resource c) r then actions_of (pv_actions ?c) else {}) \<union> granted v r" for r
        using actions_of_empty [of 0] by (simp add: removeActions_ok(1))
      moreover have "granted v r = {}" if "pattern_eq (pv_resource c) r" for r
        using unique_rest [OF u that] .
      ultimately show ?thesis
        using res ok sup eq rest by (simp add: eq_iff removeActions_ok(3) isSupersetOf_iff)
    qed
  next
    case False
    show ?thesis
    proof (cases "remove_privilege p v")
      case (Inl b)
      with Cons.IH [OF c(2)] False show ?thesis by simp
    next
      case (Inr w)
      have w: "direct_ok w" "actions_of (pv_actions p) \<subseteq> granted v (pv_resource p)"
        "\<forall>r. granted w r = (if pattern_eq (pv_resource p) r then without (granted v r) (actions_of (pv_actions p))
           else granted v r)"
        using Cons.IH [OF c(2)] Inr by simp_all
      have "\<forall>q \<in> set w. \<not> pattern_eq (pv_resource q) (pv_resource c)"
        using remove_privilege_resources [OF Inr] c(3) by auto
      with w False Inr c(1) show ?thesis
        by (auto simp: direct_ok_Cons pattern_eq_iff)
    qed
  qed
qed

lemma addPrivilegesToRole_custom:
  assumes "graph_ok g" "\<not> isBuiltinRole role" "rn_fullName role \<in> roles g" "vector_ok ps"
  shows "\<exists>g'. addPrivilegesToRole role ps g = Inr (g', Status_OK) \<and> graph_ok g' \<and> roles g' = roles g \<and>
    allRoles g' = allRoles g \<and> edges g' = edges g \<and>
    (\<forall>k r. direct_grants g' k r = direct_grants g k r \<union> (if k = rn_fullName role then granted ps r else {}))"
  using fold_addNoChecks_ok [OF assms(1,3,4)] assms(2,3)
  by (simp add: addPrivilegesToRole_def if_exists_custom [OF assms(1,2)])

lemma addPrivilegeToRole_one: "addPrivilegeToRole role p g = addPrivilegesToRole role [p] g"
  by (simp add: addPrivilegeToRole_def addPrivilegesToRole_def cong: if_cong)

definition printable :: "privilege \<Rightarrow> bool" where
  "printable p \<longleftrightarrow> \<not> isl (pattern_toString (pv_resource p))"

lemma removePrivilegeFromRole_custom:
  assumes "graph_ok g" "\<not> isBuiltinRole role" "rn_fullName role \<in> roles g" "printable p"
  shows "\<exists>g' s. removePrivilegeFromRole role p g = Inr (g', s) \<and> graph_ok g' \<and> roles g' = roles g \<and>
    allRoles g' = allRoles g \<and> edges g' = edges g \<and>
    (if s = Status_OK
     then actions_of (pv_actions p) \<subseteq> direct_grants g (rn_fullName role) (pv_resource p) \<and>
       (\<forall>k r. direct_grants g' k r =
          (if k = rn_fullName role \<and> pattern_eq (pv_resource p) r
           then without (direct_grants g k r) (actions_of (pv_actions p)) else direct_grants g k r))
     else status_code s = PrivilegeNotFound \<and> g' = g \<and>
       (actions_of (pv_actions p) = {} \<or>
        \<not> actions_of (pv_actions p) \<subseteq> direct_grants g (rn_fullName role) (pv_resource p)))"
proof -
  let ?v = "at (directPrivilegesForRole g) role"
  have ok: "direct_ok ?v" using direct_ok_at [OF assms(1)] .
  obtain t where t: "pattern_toString (pv_resource p) = Inr t"
    using assms(4) by (cases "pattern_toString (pv_resource p)") (auto simp: printable_def)
  show ?thesis
  proof (cases "remove_privilege p ?v")
    case (Inl b)
    then have "actions_of (pv_actions p) = {} \<or> \<not> actions_of (pv_actions p) \<subseteq> granted ?v (pv_resource p)"
      using remove_privilege_ok [OF ok, of p] by simp
    with Inl t assms show ?thesis
      by (simp add: removePrivilegeFromRole_def if_exists_custom [OF assms(1,2)] direct_grants_at)
  next
    case (Inr w)
    then have w: "direct_ok w" "actions_of (pv_actions p) \<subseteq> granted ?v (pv_resource p)"
        "\<forall>r. granted w r = (if pattern_eq (pv_resource p) r then without (granted ?v r) (actions_of (pv_actions p))
           else granted ?v r)"
      using remove_privilege_ok [OF ok, of p] by simp_all
    with Inr assms show ?thesis
      by (simp add: removePrivilegeFromRole_def if_exists_custom [OF assms(1,2)] graph_ok_direct
          direct_grants_set_at direct_grants_at)
  qed
qed

lemma removeAllPrivilegesFromRole_custom:
  assumes "graph_ok g" "\<not> isBuiltinRole role" "rn_fullName role \<in> roles g"
  shows "\<exists>g'. removeAllPrivilegesFromRole role g = Inr (g', Status_OK) \<and> graph_ok g' \<and> roles g' = roles g \<and>
    allRoles g' = allRoles g \<and> edges g' = edges g \<and>
    (\<forall>k r. direct_grants g' k r = (if k = rn_fullName role then {} else direct_grants g k r))"
  using assms graph_ok_direct [OF assms(1,3) empty_vector_ok(2)]
  by (simp add: removeAllPrivilegesFromRole_def if_exists_custom [OF assms(1,2)] direct_grants_set_at)

subsubsection \<open>Replacing a role\<close>

text \<open>What the direct grants of the roles other than a new one keep.\<close>

lemma grown_direct:
  assumes "grown r g g'"
  shows "k \<in> roles g \<Longrightarrow> direct_grants g' k = direct_grants g k"
  using assms by (simp add: grown_def direct_grants_def fun_eq_iff)

lemma createRole_direct:
  assumes "graph_ok g" "createRole r g = Inr (g', s)" "k \<in> roles g"
  shows "direct_grants g' k = direct_grants g k"
proof -
  obtain g1 where g1: "roleExists r g = Inr (g1, rn_fullName r \<in> roles g1)" "grown r g g1"
    using roleExists_ok [OF assms(1)] by blast
  show ?thesis
  proof (cases "rn_fullName r \<in> roles g1")
    case True
    then have "g' = g1" using assms(2) g1(1) by (simp add: createRole_def)
    then show ?thesis using grown_direct [OF g1(2) assms(3)] by simp
  next
    case False
    then have "g1 = g" "rn_fullName r \<notin> roles g"
      using g1(2) by (auto simp: grown_def split: if_splits)
    then have "g' = createRoleDontCheckIfRoleExists r g" "k \<noteq> rn_fullName r"
      using False assms(2,3) g1(1) by (auto simp: createRole_def)
    then show ?thesis by (simp add: direct_grants_def createRoleDontCheckIfRoleExists_def fun_eq_iff)
  qed
qed

lemma addRoleToRole_direct:
  assumes "graph_ok g" "\<not> isBuiltinRole a" "rn_fullName b \<in> roles g" "addRoleToRole a b g = Inr (g', s)"
  shows "direct_grants g' = direct_grants g"
proof -
  have b: "if_exists b g k = k g" for k
  proof -
    obtain g1 where "grown b g g1" "if_exists b g k = k g1"
      using if_exists_present [OF assms(1) disjI1 [OF assms(3)], of k] by blast
    then show ?thesis using grown_existing assms(3) by metis
  qed
  show ?thesis
    using assms(4) unfolding addRoleToRole_def if_exists_custom [OF assms(1,2)] b
    by (auto simp: direct_grants_def fun_eq_iff assms(2) split: if_splits)
qed

lemma replace_grant_ok:
  assumes "graph_ok g" "\<not> isBuiltinRole a" "rn_fullName a \<in> roles g"
  shows "\<exists>g'. replace_grant a b g = Inr g' \<and> graph_ok g' \<and> adds_role b g g' \<and>
    edges g' = insert (rn_fullName a, rn_fullName b) (edges g) \<and>
    (\<forall>k \<in> roles g. direct_grants g' k = direct_grants g k)"
proof -
  obtain g1 s where g1: "createRole b g = Inr (g1, s)" "graph_ok g1" "edges g1 = edges g"
      "adds_role b g g1" "isOK s \<or> status_compareCode s DuplicateKey"
    using createRole_ok [OF assms(1), of b] by (auto simp: status_compareCode_def split: if_splits)
  have a1: "rn_fullName a \<in> roles g1" and b1: "rn_fullName b \<in> roles g1"
    using g1(4) assms(3) by (simp_all add: adds_role_def)
  then obtain g2 where g2: "addRoleToRole a b g1 = Inr (g2, Status_OK)" "graph_ok g2"
      "adds_role b g1 g2" "edges g2 = insert (rn_fullName a, rn_fullName b) (edges g1)"
    using addRoleToRole_custom [OF g1(2) assms(2) a1 disjI1 [OF b1]] by blast
  have "direct_grants g2 k = direct_grants g k" if "k \<in> roles g" for k
    using createRole_direct [OF assms(1) g1(1) that] addRoleToRole_direct [OF g1(2) assms(2) b1 g2(1)] by simp
  moreover have "adds_role b g g2" using g1(4) g2(3) by (auto simp: adds_role_def)
  ultimately show ?thesis using g1 g2 by (simp add: replace_grant_def fassert_status_def)
qed

lemma replace_grants_ok:
  "graph_ok g \<Longrightarrow> \<not> isBuiltinRole a \<Longrightarrow> rn_fullName a \<in> roles g \<Longrightarrow>
   \<exists>g'. foldE (replace_grant a) bs g = Inr g' \<and> graph_ok g' \<and> roles g' = rn_fullName ` set bs \<union> roles g \<and>
     ((\<forall>b \<in> set bs. plain_name b) \<longrightarrow> listed g \<longrightarrow> listed g') \<and>
     edges g' = (\<lambda>b. (rn_fullName a, rn_fullName b)) ` set bs \<union> edges g \<and>
     (\<forall>k \<in> roles g. direct_grants g' k = direct_grants g k)"
proof (induction bs arbitrary: g)
  case Nil
  then show ?case by simp
next
  case (Cons b bs)
  obtain g1 where g1: "replace_grant a b g = Inr g1" "graph_ok g1" "adds_role b g g1"
      "edges g1 = insert (rn_fullName a, rn_fullName b) (edges g)" "\<forall>k \<in> roles g. direct_grants g1 k = direct_grants g k"
    using replace_grant_ok [OF Cons.prems, of b] by blast
  have r1: "roles g1 = insert (rn_fullName b) (roles g)" using g1(3) by (simp add: adds_role_def)
  then have a1: "rn_fullName a \<in> roles g1" using Cons.prems(3) by blast
  obtain g2 where g2: "foldE (replace_grant a) bs g1 = Inr g2" "graph_ok g2"
      "roles g2 = rn_fullName ` set bs \<union> roles g1" "(\<forall>b \<in> set bs. plain_name b) \<longrightarrow> listed g1 \<longrightarrow> listed g2"
      "edges g2 = (\<lambda>b. (rn_fullName a, rn_fullName b)) ` set bs \<union> edges g1"
      "\<forall>k \<in> roles g1. direct_grants g2 k = direct_grants g1 k"
    using Cons.IH [OF g1(2) Cons.prems(2) a1] by (elim exE conjE) (rule that)
  have "\<forall>k \<in> roles g. direct_grants g2 k = direct_grants g k" using r1 g1(5) g2(6) by simp
  moreover have "(\<forall>b \<in> set (b # bs). plain_name b) \<longrightarrow> listed g \<longrightarrow> listed g2"
    using adds_role_listed [OF g1(3)] g2(4) by simp
  ultimately show ?case using g1 g2 r1 by simp
qed

lemma replace_start:
  assumes "graph_ok g" "\<not> isBuiltinRole a"
  shows "\<exists>g1 s g2. removeAllPrivilegesFromRole a g = Inr (g1, s) \<and>
    (status_compareCode s RoleNotFound \<or> isOK s) \<and>
    (if status_compareCode s RoleNotFound then fassert_status 17168 (createRole a g1) else Inr g1) = Inr g2 \<and>
    graph_ok g2 \<and> adds_role a g g2 \<and> edges g2 = edges g \<and>
    direct_grants g2 (rn_fullName a) = (\<lambda>r. {}) \<and>
    (\<forall>k \<in> roles g - {rn_fullName a}. direct_grants g2 k = direct_grants g k)"
proof (cases "rn_fullName a \<in> roles g")
  case True
  obtain g1 where "removeAllPrivilegesFromRole a g = Inr (g1, Status_OK)" "graph_ok g1" "roles g1 = roles g"
      "allRoles g1 = allRoles g" "edges g1 = edges g" "\<forall>k r. direct_grants g1 k r = (if k = rn_fullName a then {} else direct_grants g k r)"
    using removeAllPrivilegesFromRole_custom [OF assms True] by (elim exE conjE) (rule that)
  with True show ?thesis by (auto simp: status_compareCode_def fun_eq_iff adds_role_def insert_absorb)
next
  case False
  obtain g2 where g2: "createRole a g = Inr (g2, Status_OK)" "graph_ok g2" "edges g2 = edges g"
      "adds_role a g g2"
    using createRole_ok [OF assms(1), of a] assms(2) False by auto
  have c: "g2 = createRoleDontCheckIfRoleExists a g"
    using g2(1) roleExists_ok [OF assms(1), of a] False assms(2)
    by (auto simp: createRole_def grown_def split: if_splits)
  have "directPrivilegesForRole g (rn_fullName a) = None"
    using False graph_okD(4) [OF assms(1)] by (metis domIff)
  then have "direct_grants g2 (rn_fullName a) = (\<lambda>r. {})"
    by (simp add: c fun_eq_iff direct_grants_def createRoleDontCheckIfRoleExists_def set_at_def at_def)
  moreover have "\<forall>k \<in> roles g. direct_grants g2 k = direct_grants g k"
    using createRole_direct [OF assms(1) g2(1)] by blast
  moreover have "removeAllPrivilegesFromRole a g =
      Inr (g, Status RoleNotFound (role_message ''Role: '' a '' does not exist'') 0)"
    unfolding removeAllPrivilegesFromRole_def by (rule if_exists_absent [OF assms(1) False assms(2)])
  ultimately show ?thesis using g2 by (simp add: status_compareCode_def fassert_status_def)
qed

lemma replaceRole_custom:
  assumes "graph_ok g" "\<not> isBuiltinRole a" "vector_ok ps"
  shows "\<exists>g'. replaceRole a bs ps g = Inr (g', Status_OK) \<and> graph_ok g' \<and>
    roles g' = insert (rn_fullName a) (rn_fullName ` set bs \<union> roles g) \<and>
    ((\<forall>b \<in> set (a # bs). plain_name b) \<longrightarrow> listed g \<longrightarrow> listed g') \<and>
    edges g' = (\<lambda>b. (rn_fullName a, rn_fullName b)) ` set bs \<union> {(x, y) \<in> edges g. x \<noteq> rn_fullName a} \<and>
    direct_grants g' (rn_fullName a) = granted ps \<and>
    (\<forall>k \<in> roles g - {rn_fullName a}. direct_grants g' k = direct_grants g k)"
proof -
  let ?a = "rn_fullName a"
  obtain g1 s g2 where g1: "removeAllPrivilegesFromRole a g = Inr (g1, s)"
      "status_compareCode s RoleNotFound \<or> isOK s"
      "(if status_compareCode s RoleNotFound then fassert_status 17168 (createRole a g1) else Inr g1) = Inr g2"
    and g2: "graph_ok g2" "adds_role a g g2" "edges g2 = edges g"
      "direct_grants g2 ?a = (\<lambda>r. {})" "\<forall>k \<in> roles g - {?a}. direct_grants g2 k = direct_grants g k"
    using replace_start [OF assms(1,2)] by (elim exE conjE) (rule that)
  have r2: "roles g2 = insert ?a (roles g)" using g2(2) by (simp add: adds_role_def)
  then have a2: "?a \<in> roles g2" by simp
  obtain g3 where g3: "removeAllRolesFromRole a g2 = Inr (g3, Status_OK)" "graph_ok g3" "roles g3 = roles g2"
      "allRoles g3 = allRoles g2"
      "edges g3 = {(x, y) \<in> edges g2. x \<noteq> ?a}" "directPrivilegesForRole g3 = directPrivilegesForRole g2"
    using removeAllRolesFromRole_custom [OF g2(1) assms(2) a2] by (elim exE conjE) (rule that)
  have d3: "direct_grants g3 = direct_grants g2" using g3(6) by (simp add: direct_grants_def fun_eq_iff)
  have a3: "?a \<in> roles g3" using g3(3) a2 by simp
  obtain g4 where g4: "foldE (replace_grant a) bs g3 = Inr g4" "graph_ok g4"
      "roles g4 = rn_fullName ` set bs \<union> roles g3" "(\<forall>b \<in> set bs. plain_name b) \<longrightarrow> listed g3 \<longrightarrow> listed g4"
      "edges g4 = (\<lambda>b. (?a, rn_fullName b)) ` set bs \<union> edges g3"
      "\<forall>k \<in> roles g3. direct_grants g4 k = direct_grants g3 k"
    using replace_grants_ok [OF g3(2) assms(2) a3, of bs] by (elim exE conjE) (rule that)
  have a4: "?a \<in> roles g4" using g4(3) a3 by simp
  obtain g5 where g5: "addPrivilegesToRole a ps g4 = Inr (g5, Status_OK)" "graph_ok g5" "roles g5 = roles g4"
      "allRoles g5 = allRoles g4" "edges g5 = edges g4"
      "\<forall>k r. direct_grants g5 k r = direct_grants g4 k r \<union> (if k = ?a then granted ps r else {})"
    using addPrivilegesToRole_custom [OF g4(2) assms(2) a4 assms(3)] by (elim exE conjE) (rule that)
  have "replaceRole a bs ps g = Inr (g5, Status_OK)"
    using g1 g3(1) g4(1) g5(1) unfolding replaceRole_def by (auto simp: fassert_status_def)
  moreover have "roles g5 = insert ?a (rn_fullName ` set bs \<union> roles g)"
    using g5(3) g4(3) g3(3) r2 by simp
  moreover have "(\<forall>b \<in> set (a # bs). plain_name b) \<longrightarrow> listed g \<longrightarrow> listed g5"
    using adds_role_listed [OF g2(2)] listed_cong [OF g3(3,4)] listed_cong [OF g5(3,4)] g4(4) by simp
  moreover have "edges g5 = (\<lambda>b. (?a, rn_fullName b)) ` set bs \<union> {(x, y) \<in> edges g. x \<noteq> ?a}"
    using g5(5) g4(5) g3(5) g2(3) by simp
  moreover have "direct_grants g5 ?a = granted ps"
    using g5(6) g4(6) a3 d3 g2(4) by (simp add: fun_eq_iff)
  moreover have "\<forall>k \<in> roles g - {?a}. direct_grants g5 k = direct_grants g k"
    using g5(6) g4(6) g3(3) r2 g2(5) d3 by (simp add: fun_eq_iff)
  ultimately show ?thesis using g5(2) by (intro exI conjI)
qed

lemma replaceRole_builtin:
  assumes "graph_ok g" "isBuiltinRole a"
  shows "\<exists>g'. replaceRole a bs ps g = Inr (g', Status InvalidRoleModification
      (role_message ''Cannot remove privileges from built-in role: '' a []) 0) \<and> grown a g g'"
  using if_exists_builtin_status [OF assms, of "Status InvalidRoleModification
      (role_message ''Cannot remove privileges from built-in role: '' a []) 0"
      "\<lambda>g. Inr (g\<lparr>directPrivilegesForRole := set_at (directPrivilegesForRole g) a []\<rparr>, Status_OK)"]
  by (auto simp: replaceRole_def removeAllPrivilegesFromRole_def status_compareCode_def)

subsection \<open>Properties\<close>

text \<open>
  The shape of an operation that modifies a role: it returns normally and keeps the invariant; a
  builtin role is refused, a missing one is reported, and otherwise \<open>Q\<close> holds of the new graph and
  the status.
\<close>

definition modifies :: "role_name \<Rightarrow> role_graph \<Rightarrow> (role_graph \<times> status) result \<Rightarrow>
    (role_graph \<Rightarrow> status \<Rightarrow> bool) \<Rightarrow> bool" where
  "modifies a g op Q \<longleftrightarrow> (\<exists>g' s. op = Inr (g', s) \<and> graph_ok g' \<and>
     (if isBuiltinRole a then status_code s = InvalidRoleModification \<and> grown a g g'
      else if rn_fullName a \<notin> roles g then status_code s = RoleNotFound \<and> g' = g
      else Q g' s))"

lemma modifiesI:
  assumes "graph_ok g"
    and "op = if_exists a g (\<lambda>g. if isBuiltinRole a then Inr (g, Status InvalidRoleModification m 0) else k g)"
    and "\<not> isBuiltinRole a \<Longrightarrow> rn_fullName a \<in> roles g \<Longrightarrow> \<exists>g' s. op = Inr (g', s) \<and> graph_ok g' \<and> Q g' s"
  shows "modifies a g op Q"
proof (cases "isBuiltinRole a")
  case True
  then obtain g' where "op = Inr (g', Status InvalidRoleModification m 0)" "grown a g g'"
    using if_exists_builtin_status [OF assms(1) True, of "Status InvalidRoleModification m 0" k] assms(2)
    by (elim exE conjE) (rule that, simp_all)
  then show ?thesis using True unfolding modifies_def by (auto simp: grown_def)
next
  case custom: False
  show ?thesis
  proof (cases "rn_fullName a \<in> roles g")
    case True
    then obtain g' s where "op = Inr (g', s)" "graph_ok g'" "Q g' s" using assms(3) custom by blast
    then show ?thesis using True custom unfolding modifies_def by auto
  next
    case False
    have "op = Inr (g, Status RoleNotFound (role_message ''Role: '' a '' does not exist'') 0)"
      unfolding assms(2) by (rule if_exists_absent [OF assms(1) False custom])
    then show ?thesis using False custom assms(1) unfolding modifies_def by simp
  qed
qed

lemma present_role_cases:
  assumes "graph_ok g" "\<not> isBuiltinRole a" "rn_fullName a \<in> roles g"
    and "op = if_exists a g (\<lambda>g. if isBuiltinRole a then X g else if_exists b g k)"
    and "rn_fullName b \<in> roles g \<or> isBuiltinRole b \<Longrightarrow> \<exists>g' s. op = Inr (g', s) \<and> graph_ok g' \<and> Q g' s"
  shows "\<exists>g' s. op = Inr (g', s) \<and> graph_ok g' \<and>
    (if rn_fullName b \<in> roles g \<or> isBuiltinRole b then Q g' s else status_code s = RoleNotFound \<and> g' = g)"
proof (cases "rn_fullName b \<in> roles g \<or> isBuiltinRole b")
  case True
  then show ?thesis using assms(5) by auto
next
  case False
  then have "op = Inr (g, Status RoleNotFound (role_message ''Role: '' b '' does not exist'') 0)"
    unfolding assms(4) if_exists_custom [OF assms(1,2)]
    using assms(2,3) if_exists_absent [OF assms(1), of b k] by simp
  with False assms(1) show ?thesis by simp
qed

text \<open>
  (C35) Granting and revoking a role. On a graph that satisfies the invariant both operations return
  normally and keep it. A builtin recipient is refused and a missing recipient or role is reported,
  without a change of the edges; otherwise granting adds exactly the one edge, and revoking removes
  exactly that edge, or reports that the roles are not related.
\<close>

theorem role_edges_effect:
  assumes "graph_ok g"
  shows "modifies a g (addRoleToRole a b g) (\<lambda>g' s.
      if rn_fullName b \<in> roles g \<or> isBuiltinRole b
      then s = Status_OK \<and> adds_role b g g' \<and>
        edges g' = insert (rn_fullName a, rn_fullName b) (edges g)
      else status_code s = RoleNotFound \<and> g' = g) \<and>
    modifies a g (removeRoleFromRole a b g) (\<lambda>g' s.
      if rn_fullName b \<in> roles g \<or> isBuiltinRole b
      then adds_role b g g' \<and>
        (if (rn_fullName a, rn_fullName b) \<in> edges g
         then s = Status_OK \<and> edges g' = edges g - {(rn_fullName a, rn_fullName b)}
         else status_code s = RolesNotRelated \<and> edges g' = edges g)
      else status_code s = RoleNotFound \<and> g' = g)"
proof
  show "modifies a g (addRoleToRole a b g) (\<lambda>g' s.
      if rn_fullName b \<in> roles g \<or> isBuiltinRole b
      then s = Status_OK \<and> adds_role b g g' \<and>
        edges g' = insert (rn_fullName a, rn_fullName b) (edges g)
      else status_code s = RoleNotFound \<and> g' = g)"
    by (rule modifiesI [OF assms addRoleToRole_def], rule present_role_cases [OF assms _ _ addRoleToRole_def])
       (use addRoleToRole_custom [OF assms] in auto)
next
  show "modifies a g (removeRoleFromRole a b g) (\<lambda>g' s.
      if rn_fullName b \<in> roles g \<or> isBuiltinRole b
      then adds_role b g g' \<and>
        (if (rn_fullName a, rn_fullName b) \<in> edges g
         then s = Status_OK \<and> edges g' = edges g - {(rn_fullName a, rn_fullName b)}
         else status_code s = RolesNotRelated \<and> edges g' = edges g)
      else status_code s = RoleNotFound \<and> g' = g)"
    by (rule modifiesI [OF assms removeRoleFromRole_def], rule present_role_cases [OF assms _ _ removeRoleFromRole_def])
       (use removeRoleFromRole_custom [OF assms] in auto)
qed

lemma graph_ok_empty [simp]: "graph_ok RoleGraph"
  by (simp add: graph_ok_def RoleGraph_def names_at_def maps_ok_def)

lemma role_edges_effect_witness:
  "\<exists>g' s. addRoleToRole (RoleName ''app'' ''db'') (RoleName ''read'' ''db'')
       (createRoleDontCheckIfRoleExists (RoleName ''app'' ''db'') RoleGraph) = Inr (g', s) \<and>
     isOK s \<and> edges g' = {(''app@db'', ''read@db'')}"
proof -
  let ?a = "RoleName ''app'' ''db''" and ?b = "RoleName ''read'' ''db''"
  let ?g = "createRoleDontCheckIfRoleExists ?a RoleGraph"
  have b: "\<not> isBuiltinRole ?a" "isBuiltinRole ?b"
    by (simp_all add: isBuiltinRole_iff validDBName_def bad_db_char_def)
  have e: "edges ?g = {}"
    using create_ok(3) [OF graph_ok_empty, of ?a] by (auto simp: edges_def RoleGraph_def names_at_def)
  have n: "rn_fullName ?a = ''app@db''" "rn_fullName ?b = ''read@db''" by (simp_all add: RoleName_def)
  have r: "rn_fullName ?a \<in> roles ?g" using create_ok(2) [OF graph_ok_empty, of ?a] by simp
  show ?thesis
    using role_edges_effect [OF create_ok(1) [OF graph_ok_empty, of ?a], of ?a ?b] b r e n
    unfolding modifies_def by auto
qed

text \<open>
  Creating, deleting and emptying a role. A new role has no edges; creating an existing or a
  builtin role reports a duplicate. Deleting a role removes it and exactly the edges it has a part
  in, and \<open>removeAllRolesFromRole\<close> removes exactly the edges to its subordinates.
\<close>

theorem role_lifecycle_effect:
  assumes "graph_ok g"
  shows "(\<exists>g' s. createRole a g = Inr (g', s) \<and> graph_ok g' \<and> edges g' = edges g \<and>
      adds_role a g g' \<and>
      (if rn_fullName a \<in> roles g \<or> isBuiltinRole a then status_code s = DuplicateKey else s = Status_OK)) \<and>
    modifies a g (deleteRole a g) (\<lambda>g' s. s = Status_OK \<and> roles g' = roles g - {rn_fullName a} \<and>
      edges g' = {(x, y) \<in> edges g. x \<noteq> rn_fullName a \<and> y \<noteq> rn_fullName a}) \<and>
    modifies a g (removeAllRolesFromRole a g) (\<lambda>g' s. s = Status_OK \<and> roles g' = roles g \<and>
      edges g' = {(x, y) \<in> edges g. x \<noteq> rn_fullName a})"
proof (intro conjI)
  show "modifies a g (deleteRole a g) (\<lambda>g' s. s = Status_OK \<and> roles g' = roles g - {rn_fullName a} \<and>
      edges g' = {(x, y) \<in> edges g. x \<noteq> rn_fullName a \<and> y \<noteq> rn_fullName a})"
    by (rule modifiesI [OF assms deleteRole_def]) (use deleteRole_custom [OF assms] in blast)
  show "modifies a g (removeAllRolesFromRole a g) (\<lambda>g' s. s = Status_OK \<and> roles g' = roles g \<and>
      edges g' = {(x, y) \<in> edges g. x \<noteq> rn_fullName a})"
    by (rule modifiesI [OF assms removeAllRolesFromRole_def]) (use removeAllRolesFromRole_custom [OF assms] in blast)
qed (rule createRole_ok [OF assms])

lemma role_lifecycle_effect_witness:
  "\<exists>g' s. createRole (RoleName ''app'' ''db'') RoleGraph = Inr (g', s) \<and> isOK s \<and> roles g' = {''app@db''}"
proof -
  have "\<not> isBuiltinRole (RoleName ''app'' ''db'')" by (simp add: isBuiltinRole_iff)
  then show ?thesis
    using role_lifecycle_effect [OF graph_ok_empty, of "RoleName ''app'' ''db''"]
    by (auto simp: RoleGraph_def RoleName_def adds_role_def)
qed

text \<open>
  Privileges of a role. Adding privileges grants exactly them beside the old ones. Removing one
  succeeds only when the role has all its actions on the resource; then the role loses exactly those
  actions on that resource, and \<open>anyAction\<close> with them, and otherwise the graph does not change.
  The privileges of every other role stay.
\<close>

theorem role_privileges_effect:
  assumes "graph_ok g" "vector_ok ps" "printable p"
  shows "modifies a g (addPrivilegesToRole a ps g) (\<lambda>g' s. s = Status_OK \<and> edges g' = edges g \<and>
      (\<forall>k r. direct_grants g' k r =
        direct_grants g k r \<union> (if k = rn_fullName a then granted ps r else {}))) \<and>
    modifies a g (removePrivilegeFromRole a p g) (\<lambda>g' s. edges g' = edges g \<and>
      (if s = Status_OK
       then actions_of (pv_actions p) \<subseteq> direct_grants g (rn_fullName a) (pv_resource p) \<and>
         (\<forall>k r. direct_grants g' k r =
           (if k = rn_fullName a \<and> pattern_eq (pv_resource p) r
            then without (direct_grants g k r) (actions_of (pv_actions p)) else direct_grants g k r))
       else status_code s = PrivilegeNotFound \<and> g' = g \<and>
         (actions_of (pv_actions p) = {} \<or>
          \<not> actions_of (pv_actions p) \<subseteq> direct_grants g (rn_fullName a) (pv_resource p)))) \<and>
    modifies a g (removeAllPrivilegesFromRole a g) (\<lambda>g' s. s = Status_OK \<and> edges g' = edges g \<and>
      (\<forall>k r. direct_grants g' k r = (if k = rn_fullName a then {} else direct_grants g k r)))"
proof (intro conjI)
  show "modifies a g (addPrivilegesToRole a ps g) (\<lambda>g' s. s = Status_OK \<and> edges g' = edges g \<and>
      (\<forall>k r. direct_grants g' k r =
        direct_grants g k r \<union> (if k = rn_fullName a then granted ps r else {})))"
    by (rule modifiesI [OF assms(1) addPrivilegesToRole_def])
       (use addPrivilegesToRole_custom [OF assms(1) _ _ assms(2)] in blast)
  show "modifies a g (removePrivilegeFromRole a p g) (\<lambda>g' s. edges g' = edges g \<and>
      (if s = Status_OK
       then actions_of (pv_actions p) \<subseteq> direct_grants g (rn_fullName a) (pv_resource p) \<and>
         (\<forall>k r. direct_grants g' k r =
           (if k = rn_fullName a \<and> pattern_eq (pv_resource p) r
            then without (direct_grants g k r) (actions_of (pv_actions p)) else direct_grants g k r))
       else status_code s = PrivilegeNotFound \<and> g' = g \<and>
         (actions_of (pv_actions p) = {} \<or>
          \<not> actions_of (pv_actions p) \<subseteq> direct_grants g (rn_fullName a) (pv_resource p))))"
    by (rule modifiesI [OF assms(1) removePrivilegeFromRole_def])
       (use removePrivilegeFromRole_custom [OF assms(1) _ _ assms(3)] in blast)
  show "modifies a g (removeAllPrivilegesFromRole a g) (\<lambda>g' s. s = Status_OK \<and> edges g' = edges g \<and>
      (\<forall>k r. direct_grants g' k r = (if k = rn_fullName a then {} else direct_grants g k r)))"
    by (rule modifiesI [OF assms(1) removeAllPrivilegesFromRole_def])
       (use removeAllPrivilegesFromRole_custom [OF assms(1)] in blast)
qed

lemma role_privileges_effect_witness:
  "modifies (RoleName ''app'' ''db'') RoleGraph
     (addPrivilegesToRole (RoleName ''app'' ''db'') [Privilege forAnyResource (addAllActions 0)] RoleGraph)
     (\<lambda>g' s. s = Status_OK \<and> edges g' = edges RoleGraph \<and>
       (\<forall>k r. direct_grants g' k r = direct_grants RoleGraph k r \<union>
          (if k = rn_fullName (RoleName ''app'' ''db'') then granted [Privilege forAnyResource (addAllActions 0)] r else {})))"
proof -
  have "vector_ok [Privilege forAnyResource (addAllActions 0)]"
    "printable (Privilege forAnyResource (addAllActions 0))"
    by (simp_all add: vector_ok_def Privilege_def printable_def pattern_toString_def forAnyResource_def simple_pattern_def)
  from role_privileges_effect [OF graph_ok_empty this] show ?thesis by blast
qed

text \<open>
  (C36) \<open>replaceRole\<close> fails only for a builtin role, with \<open>InvalidRoleModification\<close>; none of its five
  assertions can fail. Otherwise the role exists afterwards, it has exactly the given subordinates
  and grants exactly the given privileges, the subordinates exist, and the edges and privileges of
  the other roles are as before.
\<close>

theorem replaceRole_effect:
  assumes "graph_ok g" "vector_ok ps"
  shows "\<exists>g' s. replaceRole a bs ps g = Inr (g', s) \<and> graph_ok g' \<and>
    (if isBuiltinRole a then status_code s = InvalidRoleModification \<and> edges g' = edges g
     else s = Status_OK \<and>
       roles g' = insert (rn_fullName a) (rn_fullName ` set bs \<union> roles g) \<and>
       edges g' = (\<lambda>b. (rn_fullName a, rn_fullName b)) ` set bs \<union> {(x, y) \<in> edges g. x \<noteq> rn_fullName a} \<and>
       direct_grants g' (rn_fullName a) = granted ps \<and>
       (\<forall>k \<in> roles g - {rn_fullName a}. direct_grants g' k = direct_grants g k))"
proof (cases "isBuiltinRole a")
  case True
  obtain g' s where "replaceRole a bs ps g = Inr (g', s)" "status_code s = InvalidRoleModification" "grown a g g'"
    using replaceRole_builtin [OF assms(1) True, of bs ps] by auto
  then show ?thesis using True grown_edges [of a g g'] by (auto simp: grown_def)
next
  case False
  then show ?thesis using replaceRole_custom [OF assms(1) False assms(2), of bs] by auto
qed

lemma replaceRole_effect_witness:
  "\<exists>g' s. replaceRole (RoleName ''app'' ''db'') [RoleName ''read'' ''db'', RoleName ''x'' ''db''] [] RoleGraph = Inr (g', s) \<and>
     isOK s \<and> edges g' = {(''app@db'', ''read@db''), (''app@db'', ''x@db'')}"
proof -
  have b: "\<not> isBuiltinRole (RoleName ''app'' ''db'')" by (simp add: isBuiltinRole_iff)
  have "edges RoleGraph = {}" by (simp add: edges_def RoleGraph_def names_at_def)
  with b show ?thesis
    using replaceRole_effect [OF graph_ok_empty empty_vector_ok(1), of "RoleName ''app'' ''db''"
        "[RoleName ''read'' ''db'', RoleName ''x'' ''db'']"]
    by (auto simp: RoleName_def)
qed

subsection \<open>Sequences of operations\<close>

definition consistent :: "role_graph \<Rightarrow> bool" where
  "consistent g \<longleftrightarrow> graph_ok g \<and> listed g"

lemma consistent_empty: "consistent RoleGraph"
proof -
  have "listed RoleGraph" by (simp add: listed_def RoleGraph_def)
  then show ?thesis by (simp add: consistent_def)
qed

lemma grown_consistent:
  assumes "grown r g g'" "plain_name r" "listed g"
  shows "consistent g'"
proof -
  have "listed g'"
    using grown_adds_role [OF assms(1)] adds_role_listed [OF _ assms(2,3)] grown_custom [OF assms(1)]
      grown_roles [OF assms(1)] assms(3) by (cases "isBuiltinRole r") blast+
  with assms(1) show ?thesis by (simp add: consistent_def grown_def)
qed

lemma modifies_consistent:
  assumes "modifies a g op (\<lambda>g' s. listed g')" "plain_name a" "consistent g"
  shows "\<exists>g' s. op = Inr (g', s) \<and> consistent g'"
  using assms grown_consistent [of a g] unfolding modifies_def consistent_def by (metis (full_types))

lemma deleteRole_consistent:
  assumes "consistent g" "plain_name r"
  shows "\<exists>g' s. deleteRole r g = Inr (g', s) \<and> consistent g'"
proof (rule modifies_consistent [OF modifiesI [OF _ deleteRole_def] assms(2,1)])
  show ok: "graph_ok g" using assms(1) by (simp add: consistent_def)
  assume r: "\<not> isBuiltinRole r" "rn_fullName r \<in> roles g"
  obtain g' where g': "deleteRole r g = Inr (g', Status_OK)" "graph_ok g'"
      "roles g' = roles g - {rn_fullName r}" "allRoles g' = set_erase r (allRoles g)"
    using deleteRole_custom [OF ok r] by (elim exE conjE) (rule that)
  have l: "sorted_wrt role_less (allRoles g)" "\<forall>x \<in> set (allRoles g). plain_name x"
      "rn_fullName ` set (allRoles g) = roles g"
    using assms(1) by (simp_all add: consistent_def listed_def)
  have "rn_fullName ` (set (allRoles g) - {r}) = roles g - {rn_fullName r}"
    unfolding l(3) [symmetric] using l(2) assms(2) plain_fullName_eq by auto
  then have "listed g'"
    using set_erase_ok [OF l(1,2) assms(2)] l(2) g'(3,4) by (simp add: listed_def)
  with g' show "\<exists>g' s. deleteRole r g = Inr (g', s) \<and> graph_ok g' \<and> listed g'" by blast
qed

lemma present_role_keeps:
  assumes "graph_ok g" "\<not> isBuiltinRole a" "rn_fullName a \<in> roles g"
    and "op = if_exists a g (\<lambda>g. if isBuiltinRole a then X g else if_exists b g k)"
    and "listed g"
    and "rn_fullName b \<in> roles g \<or> isBuiltinRole b \<Longrightarrow> \<exists>g' s. op = Inr (g', s) \<and> graph_ok g' \<and> listed g'"
  shows "\<exists>g' s. op = Inr (g', s) \<and> graph_ok g' \<and> listed g'"
proof -
  have "\<exists>g' s. op = Inr (g', s) \<and> graph_ok g' \<and>
      (if rn_fullName b \<in> roles g \<or> isBuiltinRole b then listed g' else status_code s = RoleNotFound \<and> g' = g)"
    by (rule present_role_cases [OF assms(1-4)]) (rule assms(6))
  with assms(5) show ?thesis by (auto split: if_splits)
qed

lemma edge_ops_consistent:
  assumes "consistent g" "plain_name a" "plain_name b"
  shows "\<exists>g' s. addRoleToRole a b g = Inr (g', s) \<and> consistent g'"
    "\<exists>g' s. removeRoleFromRole a b g = Inr (g', s) \<and> consistent g'"
    "\<exists>g' s. removeAllRolesFromRole a g = Inr (g', s) \<and> consistent g'"
proof -
  have ok: "graph_ok g" and l: "listed g" using assms(1) by (simp_all add: consistent_def)
  note b = adds_role_listed [OF _ assms(3) l]
  have "modifies a g (addRoleToRole a b g) (\<lambda>g' s. listed g')"
  proof (rule modifiesI [OF ok addRoleToRole_def])
    assume "\<not> isBuiltinRole a" "rn_fullName a \<in> roles g"
    then show "\<exists>g' s. addRoleToRole a b g = Inr (g', s) \<and> graph_ok g' \<and> listed g'"
      using present_role_keeps [OF ok _ _ addRoleToRole_def l] addRoleToRole_custom [OF ok, of a b] b by blast
  qed
  then show "\<exists>g' s. addRoleToRole a b g = Inr (g', s) \<and> consistent g'"
    by (rule modifies_consistent [OF _ assms(2,1)])
  have "modifies a g (removeRoleFromRole a b g) (\<lambda>g' s. listed g')"
  proof (rule modifiesI [OF ok removeRoleFromRole_def])
    assume "\<not> isBuiltinRole a" "rn_fullName a \<in> roles g"
    then show "\<exists>g' s. removeRoleFromRole a b g = Inr (g', s) \<and> graph_ok g' \<and> listed g'"
      using present_role_keeps [OF ok _ _ removeRoleFromRole_def l] removeRoleFromRole_custom [OF ok, of a b] b by blast
  qed
  then show "\<exists>g' s. removeRoleFromRole a b g = Inr (g', s) \<and> consistent g'"
    by (rule modifies_consistent [OF _ assms(2,1)])
  have "modifies a g (removeAllRolesFromRole a g) (\<lambda>g' s. listed g')"
  proof (rule modifiesI [OF ok removeAllRolesFromRole_def])
    assume "\<not> isBuiltinRole a" "rn_fullName a \<in> roles g"
    from removeAllRolesFromRole_custom [OF ok this] listed_cong l
    show "\<exists>g' s. removeAllRolesFromRole a g = Inr (g', s) \<and> graph_ok g' \<and> listed g'" by (metis (full_types))
  qed
  then show "\<exists>g' s. removeAllRolesFromRole a g = Inr (g', s) \<and> consistent g'"
    by (rule modifies_consistent [OF _ assms(2,1)])
qed


lemma privilege_ops_consistent:
  assumes "consistent g" "plain_name a"
  shows "vector_ok ps \<Longrightarrow> \<exists>g' s. addPrivilegesToRole a ps g = Inr (g', s) \<and> consistent g'"
    "printable p \<Longrightarrow> \<exists>g' s. removePrivilegeFromRole a p g = Inr (g', s) \<and> consistent g'"
    "\<exists>g' s. removeAllPrivilegesFromRole a g = Inr (g', s) \<and> consistent g'"
proof -
  have ok: "graph_ok g" and l: "listed g" using assms(1) by (simp_all add: consistent_def)
  show "\<exists>g' s. addPrivilegesToRole a ps g = Inr (g', s) \<and> consistent g'" if ps: "vector_ok ps"
  proof (rule modifies_consistent [OF modifiesI [OF ok addPrivilegesToRole_def] assms(2,1)])
    assume "\<not> isBuiltinRole a" "rn_fullName a \<in> roles g"
    from addPrivilegesToRole_custom [OF ok this ps] listed_cong l
    show "\<exists>g' s. addPrivilegesToRole a ps g = Inr (g', s) \<and> graph_ok g' \<and> listed g'" by (metis (full_types))
  qed
  show "\<exists>g' s. removePrivilegeFromRole a p g = Inr (g', s) \<and> consistent g'" if p: "printable p"
  proof (rule modifies_consistent [OF modifiesI [OF ok removePrivilegeFromRole_def] assms(2,1)])
    assume "\<not> isBuiltinRole a" "rn_fullName a \<in> roles g"
    from removePrivilegeFromRole_custom [OF ok this p] listed_cong l
    show "\<exists>g' s. removePrivilegeFromRole a p g = Inr (g', s) \<and> graph_ok g' \<and> listed g'" by (metis (full_types))
  qed
  show "\<exists>g' s. removeAllPrivilegesFromRole a g = Inr (g', s) \<and> consistent g'"
  proof (rule modifies_consistent [OF modifiesI [OF ok removeAllPrivilegesFromRole_def] assms(2,1)])
    assume "\<not> isBuiltinRole a" "rn_fullName a \<in> roles g"
    from removeAllPrivilegesFromRole_custom [OF ok this] listed_cong l
    show "\<exists>g' s. removeAllPrivilegesFromRole a g = Inr (g', s) \<and> graph_ok g' \<and> listed g'" by (metis (full_types))
  qed
qed

lemma removePrivileges_consistent:
  "consistent g \<Longrightarrow> plain_name a \<Longrightarrow> \<forall>p \<in> set ps. printable p \<Longrightarrow>
   \<exists>g' s. removePrivilegesFromRole a ps g = Inr (g', s) \<and> consistent g'"
proof (induction ps arbitrary: g)
  case Nil
  then show ?case by simp
next
  case (Cons p ps)
  obtain g1 s where g1: "removePrivilegeFromRole a p g = Inr (g1, s)" "consistent g1"
    using privilege_ops_consistent(2) [OF Cons.prems(1,2), of p] Cons.prems(3) by auto
  show ?case
    using Cons.IH [OF g1(2) Cons.prems(2)] Cons.prems(3) g1 by (cases "isOK s") simp_all
qed

lemma createRole_consistent:
  assumes "consistent g" "plain_name a"
  shows "\<exists>g' s. createRole a g = Inr (g', s) \<and> consistent g'"
proof -
  have ok: "graph_ok g" and l: "listed g" using assms(1) by (simp_all add: consistent_def)
  obtain g' s where "createRole a g = Inr (g', s)" "graph_ok g'" "adds_role a g g'"
    using createRole_ok [OF ok, of a] by (elim exE conjE) (rule that)
  then show ?thesis using adds_role_listed [OF _ assms(2) l] by (simp add: consistent_def)
qed

lemma replaceRole_consistent:
  assumes "consistent g" "plain_name a" "\<forall>b \<in> set bs. plain_name b" "vector_ok ps"
  shows "\<exists>g' s. replaceRole a bs ps g = Inr (g', s) \<and> consistent g'"
proof -
  have ok: "graph_ok g" and l: "listed g" using assms(1) by (simp_all add: consistent_def)
  show ?thesis
  proof (cases "isBuiltinRole a")
    case True
    then obtain g' s where "replaceRole a bs ps g = Inr (g', s)" "grown a g g'"
      using replaceRole_builtin [OF ok, of a bs ps] by blast
    then show ?thesis using grown_consistent [OF _ assms(2) l] by blast
  next
    case False
    obtain g' where "replaceRole a bs ps g = Inr (g', Status_OK)" "graph_ok g'"
        "(\<forall>b \<in> set (a # bs). plain_name b) \<longrightarrow> listed g \<longrightarrow> listed g'"
      using replaceRole_custom [OF ok False assms(4), of bs] by (elim exE conjE) (rule that)
    then show ?thesis using assms(2,3) l by (simp add: consistent_def)
  qed
qed

lemma createBuiltin_consistent:
  assumes "consistent g" "plain_name r"
  shows "\<exists>g'. createBuiltinRoleIfNeeded r g = Inr g' \<and> consistent g' \<and> roles g \<subseteq> roles g' \<and>
    (isBuiltinRole r \<longrightarrow> rn_fullName r \<in> roles g')"
proof -
  have ok: "graph_ok g" and l: "listed g" using assms(1) by (simp_all add: consistent_def)
  obtain g' where g': "createBuiltinRoleIfNeeded r g = Inr g'" "grown r g g'"
    using createBuiltin_ok [OF ok] by blast
  then have "roles g' = roles g \<union> (if isBuiltinRole r then {rn_fullName r} else {})" by (simp add: grown_def)
  with g' grown_consistent [OF g'(2) assms(2) l] show ?thesis by simp
qed

lemma foldE_createBuiltin:
  "consistent g \<Longrightarrow> CHR ''@'' \<notin> set db \<Longrightarrow>
   \<exists>g'. foldE (\<lambda>r. createBuiltinRoleIfNeeded (RoleName r db)) rs g = Inr g' \<and> consistent g' \<and> roles g \<subseteq> roles g' \<and>
     (\<forall>r \<in> set rs. isBuiltinRole (RoleName r db) \<longrightarrow> rn_fullName (RoleName r db) \<in> roles g')"
proof (induction rs arbitrary: g)
  case Nil
  then show ?case by simp
next
  case (Cons r rs)
  obtain g1 where g1: "createBuiltinRoleIfNeeded (RoleName r db) g = Inr g1" "consistent g1" "roles g \<subseteq> roles g1"
      "isBuiltinRole (RoleName r db) \<longrightarrow> rn_fullName (RoleName r db) \<in> roles g1"
    using createBuiltin_consistent [OF Cons.prems(1), of "RoleName r db"] Cons.prems(2) by auto
  obtain g2 where g2: "foldE (\<lambda>r. createBuiltinRoleIfNeeded (RoleName r db)) rs g1 = Inr g2" "consistent g2"
      "roles g1 \<subseteq> roles g2" "\<forall>r \<in> set rs. isBuiltinRole (RoleName r db) \<longrightarrow> rn_fullName (RoleName r db) \<in> roles g2"
    using Cons.IH [OF g1(2) Cons.prems(2)] by (elim exE conjE) (rule that)
  have "roles g \<subseteq> roles g2" using g1(3) g2(3) by (rule subset_trans)
  moreover have "\<forall>x \<in> set (r # rs). isBuiltinRole (RoleName x db) \<longrightarrow> rn_fullName (RoleName x db) \<in> roles g2"
    using g1(4) g2(3,4) subsetD [OF g2(3)] by simp
  ultimately show ?case using g1(1) g2(1,2) by (intro exI conjI) simp_all
qed

subsubsection \<open>Roles of a database\<close>

lemma CHR_0_least: "CHR 0x00 \<le> (c :: char)"
  by (simp add: less_eq_char_def)

lemma string_less_NUL: "(s :: string) < d @ [CHR 0x00] \<longleftrightarrow> s \<le> d"
proof (induction d arbitrary: s)
  case Nil
  then show ?case using CHR_0_least by (cases s) (auto simp: not_less)
next
  case (Cons x d)
  then show ?case by (cases s) (auto simp: less_le)
qed

lemma dropWhile_downward:
  assumes "sorted_wrt R xs" "\<And>x y. R x y \<Longrightarrow> P y \<Longrightarrow> P x"
  shows "dropWhile P xs = filter (\<lambda>x. \<not> P x) xs"
  using assms(1)
proof (induction xs)
  case Nil
  then show ?case by simp
next
  case (Cons x xs)
  show ?case
  proof (cases "P x")
    case False
    then have "\<forall>y \<in> set xs. \<not> P y" using Cons.prems assms(2) by auto
    with False show ?thesis by (simp add: filter_id_conv)
  qed (use Cons in simp)
qed

lemma lower_bound_db:
  assumes "sorted_wrt role_less xs"
  shows "lower_bound (RoleName [] d) xs = filter (\<lambda>x. d \<le> getDB x) xs"
proof -
  have less: "role_less x (RoleName [] d) \<longleftrightarrow> getDB x < d" for x
    by (auto simp: role_less_def)
  have "dropWhile (\<lambda>x. getDB x < d) xs = filter (\<lambda>x. \<not> getDB x < d) xs"
    by (rule dropWhile_downward [OF assms]) (auto simp: role_less_def split: if_splits)
  then show ?thesis by (simp add: lower_bound_def less not_less)
qed

lemma filter_ge_split:
  assumes "sorted_wrt role_less xs"
  shows "filter (\<lambda>x. d \<le> getDB x) xs = filter (\<lambda>x. getDB x = d) xs @ filter (\<lambda>x. d < getDB x) xs"
  using assms
proof (induction xs)
  case Nil
  then show ?case by simp
next
  case (Cons x xs)
  show ?case
  proof (cases "d < getDB x")
    case True
    then have "\<forall>y \<in> set xs. getDB y \<noteq> d"
      using Cons.prems by (auto simp: role_less_def split: if_splits)
    then have "filter (\<lambda>x. getDB x = d) xs = []" by simp
    with True Cons show ?thesis by auto
  next
    case False
    with Cons show ?thesis by auto
  qed
qed

lemma roles_range:
  assumes "sorted_wrt role_less xs"
  shows "take (length (lower_bound (RoleName [] d) xs) - length (lower_bound (RoleName [] (d @ [CHR 0x00])) xs))
      (lower_bound (RoleName [] d) xs) = filter (\<lambda>x. getDB x = d) xs"
proof -
  have "lower_bound (RoleName [] (d @ [CHR 0x00])) xs = filter (\<lambda>x. d < getDB x) xs"
    using lower_bound_db [OF assms, of "d @ [CHR 0x00]"] string_less_NUL [of _ d]
    by (simp add: not_less [symmetric])
  then show ?thesis using lower_bound_db [OF assms, of d] filter_ge_split [OF assms, of d] by simp
qed

lemma getRolesForDatabase_ok:
  assumes "consistent g" "CHR ''@'' \<notin> set db"
  shows "\<exists>g' rs. getRolesForDatabase db g = Inr (g', rs) \<and> consistent g' \<and> roles g \<subseteq> roles g' \<and>
    rs = filter (\<lambda>r. getDB r = db) (allRoles g') \<and>
    (\<forall>r. isBuiltinRole (RoleName r db) \<longrightarrow> rn_fullName (RoleName r db) \<in> roles g')"
proof -
  let ?five = "[''read'', ''readWrite'', ''userAdmin'', ''dbAdmin'', ''dbOwner'']"
  let ?twelve = "[''readAnyDatabase'', ''readWriteAnyDatabase'', ''userAdminAnyDatabase'',
     ''dbAdminAnyDatabase'', ''clusterMonitor'', ''hostManager'', ''clusterManager'',
     ''clusterAdmin'', ''backup'', ''restore'', ''root'', ''__system'']"
  let ?add = "\<lambda>r. createBuiltinRoleIfNeeded (RoleName r db)"
  obtain g1 where g1: "foldE ?add ?five g = Inr g1" "consistent g1" "roles g \<subseteq> roles g1"
      "\<forall>r \<in> set ?five. isBuiltinRole (RoleName r db) \<longrightarrow> rn_fullName (RoleName r db) \<in> roles g1"
    using foldE_createBuiltin [OF assms, of ?five] by (elim exE conjE) (rule that)
  obtain g2 where g2: "foldE ?add ?twelve g1 = Inr g2" "consistent g2" "roles g1 \<subseteq> roles g2"
      "\<forall>r \<in> set ?twelve. isBuiltinRole (RoleName r db) \<longrightarrow> rn_fullName (RoleName r db) \<in> roles g2"
    using foldE_createBuiltin [OF g1(2) assms(2), of ?twelve] by (elim exE conjE) (rule that)
  let ?g = "if db = ''admin'' then g2 else g1"
  have "createBuiltinRolesForDBIfNeeded db g = Inr ?g"
    unfolding createBuiltinRolesForDBIfNeeded_def g1(1) bindE_Inr g2(1) by simp
  moreover have c: "consistent ?g" using g1(2) g2(2) by simp
  then have "sorted_wrt role_less (allRoles ?g)" by (simp add: consistent_def listed_def)
  note roles_range [OF this, of db]
  moreover have "roles g \<subseteq> roles ?g" using g1(3) subset_trans [OF g1(3) g2(3)] by simp
  moreover have "rn_fullName (RoleName r db) \<in> roles ?g" if b: "isBuiltinRole (RoleName r db)" for r
  proof (cases "r \<in> set ?five")
    case True
    then have "rn_fullName (RoleName r db) \<in> roles g1" using g1(4) b by blast
    then show ?thesis using g2(3) by auto
  next
    case False
    then have "db = ''admin''" and r: "r \<in> set ?twelve" using b unfolding isBuiltinRole_iff by auto
    moreover have "rn_fullName (RoleName r db) \<in> roles g2" using bspec [OF g2(4) r] b by blast
    ultimately show ?thesis by simp
  qed
  ultimately show ?thesis using c by (simp add: getRolesForDatabase_def Let_def)
qed

text \<open>
  Listing the roles of a database. On a consistent graph, and for a database name without an
  at sign, \<open>getRolesForDatabase\<close> returns exactly the roles of that database, in ascending order, the
  builtin roles of the database among them.
\<close>

theorem getRolesForDatabase_exact:
  assumes "consistent g" "CHR ''@'' \<notin> set db"
  shows "\<exists>g' rs. getRolesForDatabase db g = Inr (g', rs) \<and> consistent g' \<and> sorted_wrt role_less rs \<and>
    (\<forall>r. RoleName r db \<in> set rs \<longleftrightarrow> rn_fullName (RoleName r db) \<in> roles g') \<and>
    (\<forall>r \<in> set rs. getDB r = db) \<and>
    (\<forall>r. isBuiltinRole (RoleName r db) \<longrightarrow> RoleName r db \<in> set rs)"
proof -
  obtain g' rs where g': "getRolesForDatabase db g = Inr (g', rs)" "consistent g'"
      "rs = filter (\<lambda>r. getDB r = db) (allRoles g')"
      "\<forall>r. isBuiltinRole (RoleName r db) \<longrightarrow> rn_fullName (RoleName r db) \<in> roles g'"
    using getRolesForDatabase_ok [OF assms] by (elim exE conjE) (rule that)
  have l: "sorted_wrt role_less (allRoles g')" "\<forall>x \<in> set (allRoles g'). plain_name x"
      "rn_fullName ` set (allRoles g') = roles g'"
    using g'(2) by (simp_all add: consistent_def listed_def)
  have "RoleName r db \<in> set (allRoles g')" if "rn_fullName (RoleName r db) \<in> roles g'" for r
    using that l(2,3) plain_fullName_eq [of _ "RoleName r db"] assms(2)
    by (metis imageE plain_RoleName)
  then have in_rs: "RoleName r db \<in> set rs \<longleftrightarrow> rn_fullName (RoleName r db) \<in> roles g'" for r
    using g'(3) l(3) by auto
  have "sorted_wrt role_less rs" "\<forall>r \<in> set rs. getDB r = db"
    using l(1) g'(3) by (simp_all add: sorted_wrt_filter)
  with g'(1,2,4) in_rs show ?thesis by (intro exI [of _ g'] exI [of _ rs] conjI) simp_all
qed

lemma getRolesForDatabase_exact_witness:
  "\<exists>g' rs. getRolesForDatabase ''test'' RoleGraph = Inr (g', rs) \<and> RoleName ''read'' ''test'' \<in> set rs"
proof -
  have "isBuiltinRole (RoleName ''read'' ''test'')"
    by (simp add: isBuiltinRole_iff validDBName_def bad_db_char_def)
  then show ?thesis
    using getRolesForDatabase_exact [OF consistent_empty, of "''test''"] by auto
qed

subsubsection \<open>All operations\<close>

datatype graph_op =
    CreateRole role_name
  | DeleteRole role_name
  | AddRoleToRole role_name role_name
  | RemoveRoleFromRole role_name role_name
  | RemoveAllRolesFromRole role_name
  | AddPrivilegesToRole role_name "privilege list"
  | RemovePrivilegesFromRole role_name "privilege list"
  | RemoveAllPrivilegesFromRole role_name
  | ReplaceRole role_name "role_name list" "privilege list"
  | GetRolesForDatabase string

fun run_op :: "graph_op \<Rightarrow> role_graph \<Rightarrow> role_graph result" where
  "run_op (CreateRole r) g = bindE (createRole r g) (\<lambda>(g, _). Inr g)"
| "run_op (DeleteRole r) g = bindE (deleteRole r g) (\<lambda>(g, _). Inr g)"
| "run_op (AddRoleToRole a b) g = bindE (addRoleToRole a b g) (\<lambda>(g, _). Inr g)"
| "run_op (RemoveRoleFromRole a b) g = bindE (removeRoleFromRole a b g) (\<lambda>(g, _). Inr g)"
| "run_op (RemoveAllRolesFromRole a) g = bindE (removeAllRolesFromRole a g) (\<lambda>(g, _). Inr g)"
| "run_op (AddPrivilegesToRole a ps) g = bindE (addPrivilegesToRole a ps g) (\<lambda>(g, _). Inr g)"
| "run_op (RemovePrivilegesFromRole a ps) g = bindE (removePrivilegesFromRole a ps g) (\<lambda>(g, _). Inr g)"
| "run_op (RemoveAllPrivilegesFromRole a) g = bindE (removeAllPrivilegesFromRole a g) (\<lambda>(g, _). Inr g)"
| "run_op (ReplaceRole a bs ps) g = bindE (replaceRole a bs ps g) (\<lambda>(g, _). Inr g)"
| "run_op (GetRolesForDatabase db) g = bindE (getRolesForDatabase db g) (\<lambda>(g, _). Inr g)"

fun op_ok :: "graph_op \<Rightarrow> bool" where
  "op_ok (CreateRole r) = plain_name r"
| "op_ok (DeleteRole r) = plain_name r"
| "op_ok (AddRoleToRole a b) = (plain_name a \<and> plain_name b)"
| "op_ok (RemoveRoleFromRole a b) = (plain_name a \<and> plain_name b)"
| "op_ok (RemoveAllRolesFromRole a) = plain_name a"
| "op_ok (AddPrivilegesToRole a ps) = (plain_name a \<and> vector_ok ps)"
| "op_ok (RemovePrivilegesFromRole a ps) = (plain_name a \<and> (\<forall>p \<in> set ps. printable p))"
| "op_ok (RemoveAllPrivilegesFromRole a) = plain_name a"
| "op_ok (ReplaceRole a bs ps) = (plain_name a \<and> (\<forall>b \<in> set bs. plain_name b) \<and> vector_ok ps)"
| "op_ok (GetRolesForDatabase db) = (CHR ''@'' \<notin> set db)"

lemma bindE_fst:
  assumes "\<exists>g' s. m = Inr (g', s) \<and> consistent g'"
  shows "\<exists>g'. bindE m (\<lambda>(g, _). Inr g) = Inr g' \<and> consistent g'"
  using assms by auto

lemma run_op_consistent:
  assumes "consistent g" "op_ok x"
  shows "\<exists>g'. run_op x g = Inr g' \<and> consistent g'"
proof (cases x)
  case (GetRolesForDatabase db)
  then show ?thesis using getRolesForDatabase_ok [OF assms(1), of db] assms(2) by auto
qed (use assms createRole_consistent deleteRole_consistent edge_ops_consistent privilege_ops_consistent
       removePrivileges_consistent replaceRole_consistent in \<open>simp_all add: bindE_fst\<close>)

text \<open>
  (C22) The invariant of the role graph. From the empty graph, no sequence of operations on names
  without an at sign in the database aborts the process or erases an invalid iterator, and after it
  the six containers agree: the same roles in all maps and, in order, in the list; edges to
  subordinates and to members that mirror each other, without duplicates; at most one direct
  privilege per resource.
\<close>

theorem role_graph_invariant:
  assumes "\<forall>x \<in> set ops. op_ok x"
  shows "\<exists>g. foldE run_op ops RoleGraph = Inr g \<and> consistent g"
  by (rule foldE_invariant [OF run_op_consistent consistent_empty]) (use assms in auto)

lemma role_graph_invariant_witness:
  "\<exists>g. foldE run_op [CreateRole (RoleName ''app'' ''db''), AddRoleToRole (RoleName ''app'' ''db'') (RoleName ''read'' ''db''),
      DeleteRole (RoleName ''app'' ''db'')] RoleGraph = Inr g \<and> consistent g"
  by (rule role_graph_invariant) simp

end
