(* ===== verification/Role_Graph_Recompute.thy ===== *)
theory Role_Graph_Recompute
  imports Role_Graph_Effects
begin

text \<open>
  \<open>RoleGraph::recomputePrivilegeData\<close>: the depth-first traversal that computes, for every role, the
  roles it inherits from and all its privileges, and that finds cycles. The loop is a partial
  function over an explicit stack; that it always returns is proved. The traversal starts from the
  keys of a hash map, whose order is not specified: it is the argument \<open>order\<close>, and the statements
  hold for every order.
\<close>

subsection \<open>The traversal\<close>

definition set_add :: "role_name \<Rightarrow> role_name list \<Rightarrow> role_name list" where
  "set_add r xs = (if in_vector r xs then xs else xs @ [r])"

text \<open>The loop over the direct roles once they are all visited: their entries exist by then.\<close>

definition absorb_child :: "role_name \<Rightarrow> role_name \<Rightarrow> role_graph \<Rightarrow> role_graph" where
  "absorb_child currentRole childRole g =
     g\<lparr>roleToIndirectSubordinates :=
         set_at (roleToIndirectSubordinates g) currentRole
           (fold set_add (at (roleToIndirectSubordinates g) childRole)
             (at (roleToIndirectSubordinates g) currentRole)),
       allPrivilegesForRole :=
         set_at (allPrivilegesForRole g) currentRole
           (fold addPrivilegeToPrivilegeVector (at (allPrivilegesForRole g) childRole)
             (at (allPrivilegesForRole g) currentRole))\<rparr>"

definition finish_role :: "role_name \<Rightarrow> role_graph \<Rightarrow> role_graph" where
  "finish_role currentRole g =
     (let direct = at (roleToSubordinates g) currentRole;
          g = g\<lparr>roleToIndirectSubordinates :=
                  set_at (roleToIndirectSubordinates g) currentRole (fold set_add direct []),
                allPrivilegesForRole :=
                  set_at (allPrivilegesForRole g) currentRole (at (directPrivilegesForRole g) currentRole)\<rparr>
      in fold (absorb_child currentRole) direct g)"

definition cycle_message :: "role_name \<Rightarrow> role_name list \<Rightarrow> string" where
  "cycle_message currentRole below =
     ''Cycle in dependency graph: '' @
     concat (map (\<lambda>r. rn_fullName r @ '' -> '') (dropWhile (\<lambda>r. \<not> role_eq r currentRole) (rev below))) @
     rn_fullName currentRole"

text \<open>
  One round of the loop, with the back of \<open>inProgressRoles\<close> as the head of the list: the graph, the
  visited roles, and either the status it returns or the new stack.
\<close>

definition recompute_step :: "role_graph \<Rightarrow> string list \<Rightarrow> role_name \<Rightarrow> role_name list \<Rightarrow>
    (role_graph \<times> string list \<times> (status + role_name list)) result" where
  "recompute_step g visitedRoles currentRole below =
     bindE (fassert 17277 (rn_fullName currentRole \<notin> set visitedRoles)) (\<lambda>_.
     bindE (roleExists currentRole g) (\<lambda>(g, e).
       if \<not> e
       then Inr (g, visitedRoles,
              Inl (Status RoleNotFound (role_message ''Role: '' currentRole '' does not exist'') 0))
       else if in_vector currentRole below
       then Inr (g, visitedRoles, Inl (Status GraphContainsCycle (cycle_message currentRole below) 0))
       else case find (\<lambda>c. rn_fullName c \<notin> set visitedRoles) (at (roleToSubordinates g) currentRole) of
              Some childRole \<Rightarrow> Inr (g, visitedRoles, Inr (childRole # currentRole # below))
            | None \<Rightarrow> Inr (finish_role currentRole g, rn_fullName currentRole # visitedRoles, Inr below)))"

partial_function (option) recompute_loop ::
    "role_graph \<Rightarrow> string list \<Rightarrow> role_name list \<Rightarrow> (role_graph \<times> string list \<times> status) result option" where
  "recompute_loop g visitedRoles inProgressRoles =
     (case inProgressRoles of
        [] \<Rightarrow> Some (Inr (g, visitedRoles, Status_OK))
      | currentRole # below \<Rightarrow>
          (case recompute_step g visitedRoles currentRole below of
             Inl e \<Rightarrow> Some (Inl e)
           | Inr (g', visited', Inl status) \<Rightarrow> Some (Inr (g', visited', status))
           | Inr (g', visited', Inr stack) \<Rightarrow> recompute_loop g' visited' stack))"

definition recomputePrivilegeDataHelper ::
    "role_name \<Rightarrow> string list \<Rightarrow> role_graph \<Rightarrow> (role_graph \<times> string list \<times> status) result option" where
  "recomputePrivilegeDataHelper startingRole visitedRoles g =
     (if rn_fullName startingRole \<in> set visitedRoles then Some (Inr (g, visitedRoles, Status_OK))
      else recompute_loop g visitedRoles [startingRole])"

fun recompute_all :: "role_name list \<Rightarrow> string list \<Rightarrow> role_graph \<Rightarrow> (role_graph \<times> status) result option" where
  "recompute_all [] visitedRoles g = Some (Inr (g, Status_OK))"
| "recompute_all (r # rs) visitedRoles g =
     (case recomputePrivilegeDataHelper r visitedRoles g of
        None \<Rightarrow> None
      | Some (Inl e) \<Rightarrow> Some (Inl e)
      | Some (Inr (g', visited', status)) \<Rightarrow>
          if \<not> isOK status then Some (Inr (g', status)) else recompute_all rs visited' g')"

definition recomputePrivilegeData :: "role_name list \<Rightarrow> role_graph \<Rightarrow> (role_graph \<times> status) result option" where
  "recomputePrivilegeData order g = recompute_all order [] g"

subsection \<open>What a finished role holds\<close>

definition all_grants :: "role_graph \<Rightarrow> string \<Rightarrow> resource_pattern \<Rightarrow> action_type set" where
  "all_grants g k r = (case allPrivilegesForRole g k of None \<Rightarrow> {} | Some v \<Rightarrow> granted v r)"

abbreviation indirect :: "role_graph \<Rightarrow> string \<Rightarrow> string set" where
  "indirect g k \<equiv> set (names_at (roleToIndirectSubordinates g) k)"

lemma all_grants_at: "all_grants g (rn_fullName role) r = granted (at (allPrivilegesForRole g) role) r"
  by (simp add: all_grants_def at_def split: option.splits)

lemma granted_fold_add:
  "vector_ok ps \<Longrightarrow> granted (fold addPrivilegeToPrivilegeVector ps v) r = granted v r \<union> granted ps r"
proof (induction ps arbitrary: v)
  case Nil
  then show ?case by simp
next
  case (Cons p ps)
  then show ?case by (auto simp: vector_ok_def granted_add)
qed

lemma vector_ok_fold_add: "vector_ok ps \<Longrightarrow> vector_ok v \<Longrightarrow> vector_ok (fold addPrivilegeToPrivilegeVector ps v)"
proof (induction ps arbitrary: v)
  case Nil
  then show ?case by simp
next
  case (Cons p ps)
  from Cons.prems(1) have "action_set_ok (pv_actions p)" "vector_ok ps" by (simp_all add: vector_ok_def)
  then show ?case using Cons.IH Cons.prems(2) vector_ok_add by simp
qed

lemma names_set_add: "set (map rn_fullName (set_add r xs)) = insert (rn_fullName r) (set (map rn_fullName xs))"
  unfolding set_add_def in_vector_iff by auto

lemma names_fold_set_add:
  "set (map rn_fullName (fold set_add rs xs)) = set (map rn_fullName rs) \<union> set (map rn_fullName xs)"
  by (induction rs arbitrary: xs) (simp_all add: names_set_add [simplified])

text \<open>The parts of the graph the traversal does not touch.\<close>

definition same_graph :: "role_graph \<Rightarrow> role_graph \<Rightarrow> bool" where
  "same_graph g g' \<longleftrightarrow> roleToSubordinates g' = roleToSubordinates g \<and> roleToMembers g' = roleToMembers g \<and>
     directPrivilegesForRole g' = directPrivilegesForRole g \<and> allRoles g' = allRoles g"

lemma same_graph_refl [simp]: "same_graph g g"
  by (simp add: same_graph_def)

lemma same_graph_trans: "same_graph g1 g2 \<Longrightarrow> same_graph g2 g3 \<Longrightarrow> same_graph g1 g3"
  by (simp add: same_graph_def)

lemma same_graph_views:
  assumes "same_graph g g'"
  shows "edges g' = edges g" "roles g' = roles g" "subs g' = subs g" "direct_grants g' = direct_grants g"
proof -
  show "edges g' = edges g" "roles g' = roles g" "subs g' = subs g"
    using assms by (simp_all add: same_graph_def edges_def)
  show "direct_grants g' = direct_grants g"
    using assms by (intro ext) (simp add: same_graph_def direct_grants_def)
qed

lemma absorb_child_effect:
  assumes "graph_ok g" "rn_fullName c \<in> roles g"
  shows "graph_ok (absorb_child c d g)" "same_graph g (absorb_child c d g)"
    "all_grants (absorb_child c d g) k r =
       all_grants g k r \<union> (if k = rn_fullName c then all_grants g (rn_fullName d) r else {})"
    "indirect (absorb_child c d g) k =
       indirect g k \<union> (if k = rn_fullName c then indirect g (rn_fullName d) else {})"
proof -
  note g = graph_okD [OF assms(1)]
  have v: "vector_ok (at (allPrivilegesForRole g) x)" for x using maps_ok_at [OF g(7) empty_vector_ok(1)] .
  show "same_graph g (absorb_child c d g)" by (simp add: absorb_child_def same_graph_def)
  show "graph_ok (absorb_child c d g)"
    using g assms(2) maps_ok_set_at [OF g(7) vector_ok_fold_add [OF v v]] unfolding graph_ok_def absorb_child_def
    by (simp add: insert_absorb)
  show "all_grants (absorb_child c d g) k r =
      all_grants g k r \<union> (if k = rn_fullName c then all_grants g (rn_fullName d) r else {})"
    using granted_fold_add [OF v] all_grants_at [of g c r] all_grants_at [of g d r]
    by (simp add: absorb_child_def all_grants_def set_at_def)
  show "indirect (absorb_child c d g) k =
      indirect g k \<union> (if k = rn_fullName c then indirect g (rn_fullName d) else {})"
    using names_fold_set_add [of "at (roleToIndirectSubordinates g) d" "at (roleToIndirectSubordinates g) c"]
    unfolding names_at_at by (simp add: absorb_child_def Un_commute del: set_map)
qed

lemma fold_absorb_effect:
  "graph_ok g \<Longrightarrow> rn_fullName c \<in> roles g \<Longrightarrow> \<forall>d \<in> set ds. rn_fullName d \<noteq> rn_fullName c \<Longrightarrow>
   graph_ok (fold (absorb_child c) ds g) \<and> same_graph g (fold (absorb_child c) ds g) \<and>
   (\<forall>k r. all_grants (fold (absorb_child c) ds g) k r =
      all_grants g k r \<union> (if k = rn_fullName c then \<Union>d \<in> set ds. all_grants g (rn_fullName d) r else {})) \<and>
   (\<forall>k. indirect (fold (absorb_child c) ds g) k =
      indirect g k \<union> (if k = rn_fullName c then \<Union>d \<in> set ds. indirect g (rn_fullName d) else {}))"
proof (induction ds arbitrary: g)
  case Nil
  then show ?case by simp
next
  case (Cons d ds)
  note a = absorb_child_effect [OF Cons.prems(1,2)]
  have c: "rn_fullName c \<in> roles (absorb_child c d g)"
    using Cons.prems(2) same_graph_views(2) [OF a(2)] by simp
  have other: "all_grants (absorb_child c d g) (rn_fullName e) r = all_grants g (rn_fullName e) r"
    "indirect (absorb_child c d g) (rn_fullName e) = indirect g (rn_fullName e)" if "e \<in> set ds" for e r
    using that Cons.prems(3) by (simp_all add: a(3,4))
  have IH: "graph_ok (fold (absorb_child c) (d # ds) g)"
    "same_graph (absorb_child c d g) (fold (absorb_child c) (d # ds) g)"
    "\<forall>k r. all_grants (fold (absorb_child c) (d # ds) g) k r = all_grants (absorb_child c d g) k r \<union>
       (if k = rn_fullName c then \<Union>d \<in> set ds. all_grants g (rn_fullName d) r else {})"
    "\<forall>k. indirect (fold (absorb_child c) (d # ds) g) k = indirect (absorb_child c d g) k \<union>
       (if k = rn_fullName c then \<Union>d \<in> set ds. indirect g (rn_fullName d) else {})"
    using Cons.IH [OF a(1) c] Cons.prems(3) other by simp_all
  show ?case
  proof (intro conjI allI)
    show "graph_ok (fold (absorb_child c) (d # ds) g)" by (rule IH(1))
    show "same_graph g (fold (absorb_child c) (d # ds) g)" by (rule same_graph_trans [OF a(2) IH(2)])
  next
    fix k r
    show "all_grants (fold (absorb_child c) (d # ds) g) k r = all_grants g k r \<union>
        (if k = rn_fullName c then \<Union>d \<in> set (d # ds). all_grants g (rn_fullName d) r else {})"
      using IH(3) a(3) by (auto split: if_splits)
    show "indirect (fold (absorb_child c) (d # ds) g) k = indirect g k \<union>
        (if k = rn_fullName c then \<Union>d \<in> set (d # ds). indirect g (rn_fullName d) else {})"
      using IH(4) a(4) by (auto split: if_splits)
  qed
qed

lemma finish_role_effect:
  assumes "graph_ok g" "rn_fullName c \<in> roles g" "rn_fullName c \<notin> set (subs g (rn_fullName c))"
  shows "graph_ok (finish_role c g)" "same_graph g (finish_role c g)"
    "all_grants (finish_role c g) k r =
       (if k = rn_fullName c then direct_grants g k r \<union> (\<Union>d \<in> set (subs g k). all_grants g d r) else all_grants g k r)"
    "indirect (finish_role c g) k =
       (if k = rn_fullName c then set (subs g k) \<union> (\<Union>d \<in> set (subs g k). indirect g d) else indirect g k)"
proof -
  note g = graph_okD [OF assms(1)]
  let ?ds = "at (roleToSubordinates g) c" and ?c = "rn_fullName c"
  let ?i = "set_at (roleToIndirectSubordinates g) c (fold set_add ?ds [])"
  let ?a = "set_at (allPrivilegesForRole g) c (at (directPrivilegesForRole g) c)"
  let ?g = "g\<lparr>roleToIndirectSubordinates := ?i, allPrivilegesForRole := ?a\<rparr>"
  have v: "vector_ok (at (directPrivilegesForRole g) c)"
    using direct_ok_at [OF assms(1), of c] by (simp add: direct_ok_def)
  have g1: "graph_ok ?g"
    using g assms(2) maps_ok_set_at [OF g(7) v] unfolding graph_ok_def by (simp add: insert_absorb)
  have sub: "set (subs g ?c) = rn_fullName ` set ?ds" by (simp add: at_names)
  have ag: "all_grants ?g k r = (if k = ?c then direct_grants g k r else all_grants g k r)" for k r
    by (simp add: all_grants_def direct_grants_def set_at_def at_def split: option.splits)
  have ai: "indirect ?g k = (if k = ?c then set (subs g k) else indirect g k)" for k
    using names_fold_set_add [of ?ds "[]"] by (simp add: sub)
  have ne: "\<forall>d \<in> set ?ds. rn_fullName d \<noteq> ?c" using assms(3) unfolding sub by (metis imageI)
  have f: "finish_role c g = fold (absorb_child c) ?ds ?g" by (simp add: finish_role_def Let_def)
  have "?c \<in> roles ?g" using assms(2) by simp
  note e = fold_absorb_effect [OF g1 this ne]
  have same: "same_graph g ?g" by (simp add: same_graph_def)
  show "graph_ok (finish_role c g)" unfolding f using e assms(2) by simp
  show "same_graph g (finish_role c g)"
    unfolding f using e assms(2) by (intro same_graph_trans [OF same]) simp
  show "all_grants (finish_role c g) k r =
      (if k = ?c then direct_grants g k r \<union> (\<Union>d \<in> set (subs g k). all_grants g d r) else all_grants g k r)"
    unfolding f using e assms(2) ne by (simp add: ag sub)
  show "indirect (finish_role c g) k =
      (if k = ?c then set (subs g k) \<union> (\<Union>d \<in> set (subs g k). indirect g d) else indirect g k)"
  proof -
    have "indirect (fold (absorb_child c) ?ds ?g) k =
        indirect ?g k \<union> (if k = ?c then \<Union>d \<in> set ?ds. indirect ?g (rn_fullName d) else {})"
      using e by blast
    then show ?thesis unfolding f ai using ne by (auto simp: sub)
  qed
qed

subsection \<open>The traversal is correct and returns\<close>

definition role_correct :: "role_graph \<Rightarrow> string \<Rightarrow> bool" where
  "role_correct g k \<longleftrightarrow>
     (\<forall>r. all_grants g k r = (\<Union>j \<in> {j. (k, j) \<in> (edges g)\<^sup>*}. direct_grants g j r)) \<and>
     indirect g k = {j. (k, j) \<in> (edges g)\<^sup>+}"

text \<open>
  The invariant of the visited roles: they are closed under subordination, no cycle goes through
  them, and their inherited data are final.
\<close>

definition visited_ok :: "role_graph \<Rightarrow> string list \<Rightarrow> bool" where
  "visited_ok g vis \<longleftrightarrow> set vis \<subseteq> roles g \<and>
     (\<forall>v \<in> set vis. set (subs g v) \<subseteq> set vis \<and> (v, v) \<notin> (edges g)\<^sup>+ \<and> role_correct g v)"

text \<open>The stack is a path of the graph of roles not visited; only its head may occur a second time.\<close>

fun stack_path :: "role_graph \<Rightarrow> role_name list \<Rightarrow> bool" where
  "stack_path g [] = True"
| "stack_path g [x] = True"
| "stack_path g (x # y # ys) = ((rn_fullName y, rn_fullName x) \<in> edges g \<and> stack_path g (y # ys))"

definition stack_ok :: "role_graph \<Rightarrow> string list \<Rightarrow> role_name list \<Rightarrow> bool" where
  "stack_ok g vis st \<longleftrightarrow> stack_path g st \<and> rn_fullName ` set st \<subseteq> roles g - set vis \<and>
     distinct (map rn_fullName (tl st))"

lemma edges_subs: "(a, b) \<in> edges g \<longleftrightarrow> b \<in> set (subs g a)"
  by (simp add: edges_def)

lemma visited_closed:
  assumes "visited_ok g vis" "(v, w) \<in> (edges g)\<^sup>*" "v \<in> set vis"
  shows "w \<in> set vis"
  using assms(2,3)
proof (induction rule: rtrancl_induct)
  case (step y z)
  then show ?case using assms(1) by (auto simp: visited_ok_def edges_subs)
qed

lemma rtrancl_unfold_image: "{j. (k, j) \<in> E\<^sup>*} = insert k (\<Union>d \<in> {d. (k, d) \<in> E}. {j. (d, j) \<in> E\<^sup>*})"
  by (auto intro: converse_rtrancl_into_rtrancl elim: converse_rtranclE)

lemma trancl_unfold_image: "{j. (k, j) \<in> E\<^sup>+} = {d. (k, d) \<in> E} \<union> (\<Union>d \<in> {d. (k, d) \<in> E}. {j. (d, j) \<in> E\<^sup>+})"
  by (auto intro: trancl_into_trancl2 elim: converse_tranclE)

lemma role_correct_step:
  assumes "same_graph g g'" "\<forall>d \<in> set (subs g k). role_correct g d"
    and "\<And>r. all_grants g' k r = direct_grants g k r \<union> (\<Union>d \<in> set (subs g k). all_grants g d r)"
    and "indirect g' k = set (subs g k) \<union> (\<Union>d \<in> set (subs g k). indirect g d)"
  shows "role_correct g' k"
proof -
  have s: "{d. (k, d) \<in> edges g} = set (subs g k)" by (simp add: edges_subs)
  have "(\<Union>j \<in> {j. (k, j) \<in> (edges g)\<^sup>*}. direct_grants g j r) =
      direct_grants g k r \<union> (\<Union>d \<in> set (subs g k). \<Union>j \<in> {j. (d, j) \<in> (edges g)\<^sup>*}. direct_grants g j r)" for r
    by (subst rtrancl_unfold_image) (simp add: s)
  moreover have "{j. (k, j) \<in> (edges g)\<^sup>+} = set (subs g k) \<union> (\<Union>d \<in> set (subs g k). {j. (d, j) \<in> (edges g)\<^sup>+})"
    by (subst trancl_unfold_image) (simp add: s)
  ultimately show ?thesis
    using assms(2-4) unfolding role_correct_def same_graph_views(1,4) [OF assms(1)] by simp
qed

lemma role_correct_frame:
  assumes "same_graph g g'" "\<And>r. all_grants g' k r = all_grants g k r" "indirect g' k = indirect g k"
    "role_correct g k"
  shows "role_correct g' k"
  using assms(2-4) unfolding role_correct_def same_graph_views(1,4) [OF assms(1)] by simp

lemma finish_role_visited:
  assumes "graph_ok g" "visited_ok g vis" "rn_fullName c \<in> roles g" "rn_fullName c \<notin> set vis"
    "set (subs g (rn_fullName c)) \<subseteq> set vis"
  shows "graph_ok (finish_role c g)" "same_graph g (finish_role c g)"
    "visited_ok (finish_role c g) (rn_fullName c # vis)"
proof -
  let ?c = "rn_fullName c"
  have c: "?c \<notin> set (subs g ?c)" using assms(4,5) by blast
  note f = finish_role_effect [OF assms(1,3) c]
  show "graph_ok (finish_role c g)" and same: "same_graph g (finish_role c g)" by (rule f)+
  have "(?c, ?c) \<notin> (edges g)\<^sup>+"
  proof
    assume "(?c, ?c) \<in> (edges g)\<^sup>+"
    then obtain d where "(?c, d) \<in> edges g" "(d, ?c) \<in> (edges g)\<^sup>*" by (blast dest: tranclD)
    then show False
      using visited_closed [OF assms(2)] assms(4,5) by (auto simp: edges_subs)
  qed
  moreover have "role_correct (finish_role c g) ?c"
    by (rule role_correct_step [OF same]) (use assms(2,5) f in \<open>auto simp: visited_ok_def\<close>)
  moreover have "role_correct (finish_role c g) v" if "v \<in> set vis" for v
    by (rule role_correct_frame [OF same]) (use that assms(2,4) f in \<open>auto simp: visited_ok_def\<close>)
  ultimately show "visited_ok (finish_role c g) (?c # vis)"
    using assms(2,3,5) unfolding visited_ok_def same_graph_views [OF same] by auto
qed

lemma stack_path_cong: "same_graph g g' \<Longrightarrow> stack_path g' st \<longleftrightarrow> stack_path g st"
  by (induction g st rule: stack_path.induct) (simp_all add: same_graph_views(1))

lemma stack_reaches:
  "stack_path g (x # st) \<Longrightarrow> y \<in> set st \<Longrightarrow> (rn_fullName y, rn_fullName x) \<in> (edges g)\<^sup>+"
proof (induction st arbitrary: x)
  case Nil
  then show ?case by simp
next
  case (Cons z st)
  then have e: "(rn_fullName z, rn_fullName x) \<in> edges g" "stack_path g (z # st)" by auto
  show ?case
  proof (cases "y = z")
    case True
    then show ?thesis using e(1) by blast
  next
    case False
    then have "(rn_fullName y, rn_fullName z) \<in> (edges g)\<^sup>+" using Cons.IH [OF e(2)] Cons.prems(2) by simp
    then show ?thesis using e(1) by (rule trancl_into_trancl)
  qed
qed

lemma roleExists_present:
  assumes "graph_ok g" "rn_fullName r \<in> roles g"
  shows "roleExists r g = Inr (g, True)"
proof -
  obtain g' where "roleExists r g = Inr (g', rn_fullName r \<in> roles g')" "grown r g g'"
    using roleExists_ok [OF assms(1)] by blast
  then show ?thesis using grown_existing [of r g g'] assms(2) by simp
qed

lemma recompute_step_cases:
  assumes "graph_ok g" "visited_ok g vis" "stack_ok g vis (c # below)"
  obtains (cycle) s where "recompute_step g vis c below = Inr (g, vis, Inl s)"
      "status_code s = GraphContainsCycle" "(rn_fullName c, rn_fullName c) \<in> (edges g)\<^sup>+"
    | (push) d where "recompute_step g vis c below = Inr (g, vis, Inr (d # c # below))"
      "stack_ok g vis (d # c # below)"
    | (finish) g' where "recompute_step g vis c below = Inr (g', rn_fullName c # vis, Inr below)"
      "graph_ok g'" "same_graph g g'" "visited_ok g' (rn_fullName c # vis)"
      "stack_ok g' (rn_fullName c # vis) below" "rn_fullName c \<in> roles g - set vis"
proof -
  let ?c = "rn_fullName c"
  have c: "?c \<in> roles g" "?c \<notin> set vis" using assms(3) by (auto simp: stack_ok_def)
  have below: "rn_fullName ` set below \<subseteq> roles g - set vis" "distinct (map rn_fullName below)"
      "stack_path g (c # below)"
    using assms(3) by (auto simp: stack_ok_def)
  have step: "recompute_step g vis c below =
      (if in_vector c below
       then Inr (g, vis, Inl (Status GraphContainsCycle (cycle_message c below) 0))
       else case find (\<lambda>d. rn_fullName d \<notin> set vis) (at (roleToSubordinates g) c) of
              Some d \<Rightarrow> Inr (g, vis, Inr (d # c # below))
            | None \<Rightarrow> Inr (finish_role c g, ?c # vis, Inr below))"
    using c by (simp add: recompute_step_def roleExists_present [OF assms(1) c(1)])
  show thesis
  proof (cases "in_vector c below")
    case True
    then obtain y where "y \<in> set below" "rn_fullName y = ?c" by (auto simp: in_vector_iff)
    then have "(?c, ?c) \<in> (edges g)\<^sup>+" using stack_reaches [OF below(3)] by metis
    then show thesis using cycle step True by simp
  next
    case False
    then have nb: "?c \<notin> rn_fullName ` set below" by (simp add: in_vector_iff)
    show thesis
    proof (cases "find (\<lambda>d. rn_fullName d \<notin> set vis) (at (roleToSubordinates g) c)")
      case (Some d)
      then have d: "d \<in> set (at (roleToSubordinates g) c)" "rn_fullName d \<notin> set vis"
        by (auto simp: find_Some_iff)
      then have e: "(?c, rn_fullName d) \<in> edges g" unfolding edges_subs at_names [symmetric] by blast
      then have "rn_fullName d \<in> roles g" using edges_in_roles [OF assms(1)] by blast
      then have "stack_ok g vis (d # c # below)"
        using e d(2) c below nb by (auto simp: stack_ok_def)
      then show thesis using push step False Some by simp
    next
      case None
      then have "set (subs g ?c) \<subseteq> set vis"
        unfolding at_names [symmetric] by (auto simp: find_None_iff)
      note f = finish_role_visited [OF assms(1,2) c this]
      have "stack_path (finish_role c g) below"
        using below(3) by (cases below) (auto simp: stack_path_cong [OF f(2)])
      then have "stack_ok (finish_role c g) (?c # vis) below"
        using below(1,2) nb unfolding stack_ok_def same_graph_views(2) [OF f(2)] by (auto simp: distinct_tl map_tl image_iff)
      then show thesis using finish [of "finish_role c g"] step False None f c by simp
    qed
  qed
qed

definition loop_measure :: "role_graph \<Rightarrow> string list \<Rightarrow> role_name list \<Rightarrow> nat" where
  "loop_measure g vis st =
     card (roles g - set vis) * (card (roles g) + 2) + (card (roles g) + 1 - length st)"

lemma stack_length:
  assumes "graph_ok g" "stack_ok g vis st"
  shows "length st \<le> card (roles g) + 1"
proof -
  have "distinct (map rn_fullName (tl st))" "set (map rn_fullName (tl st)) \<subseteq> roles g"
    using assms(2) by (cases st; auto simp: stack_ok_def)+
  then have "length (map rn_fullName (tl st)) \<le> card (roles g)"
    using distinct_card card_mono graph_okD(1) [OF assms(1)] by metis
  then show ?thesis by simp
qed

definition loop_result :: "role_graph \<Rightarrow> string list \<Rightarrow> role_name list \<Rightarrow> role_graph \<Rightarrow> string list \<Rightarrow> status \<Rightarrow> bool" where
  "loop_result g vis st g' vis' s \<longleftrightarrow> graph_ok g' \<and> same_graph g g' \<and>
     (s = Status_OK \<and> visited_ok g' vis' \<and> set vis \<union> rn_fullName ` set st \<subseteq> set vis' \<or>
      status_code s = GraphContainsCycle \<and> (\<exists>v. (v, v) \<in> (edges g)\<^sup>+))"

lemma recompute_loop_ok:
  "graph_ok g \<Longrightarrow> visited_ok g vis \<Longrightarrow> stack_ok g vis st \<Longrightarrow>
   \<exists>g' vis' s. recompute_loop g vis st = Some (Inr (g', vis', s)) \<and> loop_result g vis st g' vis' s"
proof (induction "loop_measure g vis st" arbitrary: g vis st rule: less_induct)
  case less
  note len = stack_length [OF less.prems(1,3)]
  show ?case
  proof (cases st)
    case Nil
    then show ?thesis
      using less.prems by (simp add: recompute_loop.simps loop_result_def)
  next
    case (Cons c below)
    have prems: "graph_ok g" "visited_ok g vis" "stack_ok g vis (c # below)" using less.prems Cons by auto
    from prems show ?thesis
    proof (cases rule: recompute_step_cases)
      case (cycle s)
      then show ?thesis
        using less.prems(1) Cons by (auto simp: recompute_loop.simps loop_result_def)
    next
      case (push d)
      have "loop_measure g vis (d # c # below) < loop_measure g vis st"
        using stack_length [OF prems(1) push(2)] Cons by (simp add: loop_measure_def)
      from less.hyps [OF this prems(1,2) push(2)] obtain g' vis' s
        where "recompute_loop g vis (d # c # below) = Some (Inr (g', vis', s))"
          "loop_result g vis (d # c # below) g' vis' s" by blast
      moreover from this(2) have "loop_result g vis st g' vis' s" using Cons by (auto simp: loop_result_def)
      moreover have "recompute_loop g vis st = recompute_loop g vis (d # c # below)"
        using push(1) Cons by (simp add: recompute_loop.simps [of g vis "c # below"])
      ultimately show ?thesis by auto
    next
      case (finish g1)
      have "card (roles g - set (rn_fullName c # vis)) < card (roles g - set vis)"
        by (rule psubset_card_mono) (use finish(6) graph_okD(1) [OF prems(1)] in auto)
      then have "Suc (card (roles g - set (rn_fullName c # vis))) * (card (roles g) + 2) \<le>
          card (roles g - set vis) * (card (roles g) + 2)" by (intro mult_le_mono1) simp
      then have "loop_measure g1 (rn_fullName c # vis) below < loop_measure g vis st"
        using same_graph_views(2) [OF finish(3)] by (simp add: loop_measure_def)
      from less.hyps [OF this finish(2,4,5)] obtain g' vis' s
        where l: "recompute_loop g1 (rn_fullName c # vis) below = Some (Inr (g', vis', s))"
          "loop_result g1 (rn_fullName c # vis) below g' vis' s" by blast
      have "loop_result g vis st g' vis' s"
        using l(2) Cons same_graph_trans [OF finish(3)] same_graph_views(1) [OF finish(3)]
        by (auto simp: loop_result_def)
      moreover have "recompute_loop g vis st = recompute_loop g1 (rn_fullName c # vis) below"
        using finish(1) Cons by (simp add: recompute_loop.simps [of g vis "c # below"])
      ultimately show ?thesis using l(1) by auto
    qed
  qed
qed

lemma visited_ok_Nil: "visited_ok g []"
  by (simp add: visited_ok_def)

lemma helper_ok:
  assumes "graph_ok g" "visited_ok g vis" "rn_fullName r \<in> roles g"
  shows "\<exists>g' vis' s. recomputePrivilegeDataHelper r vis g = Some (Inr (g', vis', s)) \<and>
    loop_result g vis [r] g' vis' s"
proof (cases "rn_fullName r \<in> set vis")
  case True
  then show ?thesis using assms by (simp add: recomputePrivilegeDataHelper_def loop_result_def)
next
  case False
  then have "stack_ok g vis [r]" using assms(3) by (simp add: stack_ok_def)
  from recompute_loop_ok [OF assms(1,2) this] False show ?thesis
    by (simp add: recomputePrivilegeDataHelper_def)
qed

lemma recompute_all_ok:
  "graph_ok g \<Longrightarrow> visited_ok g vis \<Longrightarrow> rn_fullName ` set order \<subseteq> roles g \<Longrightarrow>
   \<exists>g' s. recompute_all order vis g = Some (Inr (g', s)) \<and> graph_ok g' \<and> same_graph g g' \<and>
     (s = Status_OK \<and> (\<exists>vis'. visited_ok g' vis' \<and> set vis \<union> rn_fullName ` set order \<subseteq> set vis') \<or>
      status_code s = GraphContainsCycle \<and> (\<exists>v. (v, v) \<in> (edges g)\<^sup>+))"
proof (induction order arbitrary: g vis)
  case Nil
  then show ?case by auto
next
  case (Cons r rs)
  obtain g1 vis1 s1 where h: "recomputePrivilegeDataHelper r vis g = Some (Inr (g1, vis1, s1))"
      "loop_result g vis [r] g1 vis1 s1"
    using helper_ok [OF Cons.prems(1,2), of r] Cons.prems(3) by auto
  have ok: "graph_ok g1" "same_graph g g1" using h(2) by (simp_all add: loop_result_def)
  show ?case
  proof (cases "s1 = Status_OK")
    case True
    then have v: "visited_ok g1 vis1" "set vis \<union> {rn_fullName r} \<subseteq> set vis1"
      using h(2) by (auto simp: loop_result_def)
    have "rn_fullName ` set rs \<subseteq> roles g1" using Cons.prems(3) same_graph_views(2) [OF ok(2)] by simp
    from Cons.IH [OF ok(1) v(1) this] obtain g' s where
      r: "recompute_all rs vis1 g1 = Some (Inr (g', s))" "graph_ok g'" "same_graph g1 g'"
        "s = Status_OK \<and> (\<exists>vis'. visited_ok g' vis' \<and> set vis1 \<union> rn_fullName ` set rs \<subseteq> set vis') \<or>
         status_code s = GraphContainsCycle \<and> (\<exists>v. (v, v) \<in> (edges g)\<^sup>+)"
      unfolding same_graph_views(1) [OF ok(2)] by (elim exE conjE) (rule that)
    have "recompute_all (r # rs) vis g = Some (Inr (g', s))" using h(1) True r(1) by simp
    moreover have "set vis \<union> rn_fullName ` set (r # rs) \<subseteq> set vis'"
      if "set vis1 \<union> rn_fullName ` set rs \<subseteq> set vis'" for vis' using that v(2) by auto
    then have "s = Status_OK \<and> (\<exists>vis'. visited_ok g' vis' \<and> set vis \<union> rn_fullName ` set (r # rs) \<subseteq> set vis') \<or>
         status_code s = GraphContainsCycle \<and> (\<exists>v. (v, v) \<in> (edges g)\<^sup>+)"
      using r(4) by blast
    ultimately show ?thesis using r(2) same_graph_trans [OF ok(2) r(3)] by blast
  next
    case False
    then have c: "status_code s1 = GraphContainsCycle" "\<exists>v. (v, v) \<in> (edges g)\<^sup>+"
      using h(2) by (auto simp: loop_result_def)
    then have "recompute_all (r # rs) vis g = Some (Inr (g1, s1))" using h(1) by (simp add: isOK_def)
    with c ok show ?thesis by blast
  qed
qed

lemma recompute_correct:
  assumes "graph_ok g" "rn_fullName ` set order = roles g"
  shows "\<exists>g' s. recomputePrivilegeData order g = Some (Inr (g', s)) \<and> graph_ok g' \<and> same_graph g g' \<and>
    (if acyclic (edges g) then s = Status_OK \<and> (\<forall>k \<in> roles g. role_correct g' k)
     else status_code s = GraphContainsCycle)"
proof -
  obtain g' s where r: "recomputePrivilegeData order g = Some (Inr (g', s))" "graph_ok g'" "same_graph g g'"
      "s = Status_OK \<and> (\<exists>vis'. visited_ok g' vis' \<and> set [] \<union> rn_fullName ` set order \<subseteq> set vis') \<or>
       status_code s = GraphContainsCycle \<and> (\<exists>v. (v, v) \<in> (edges g)\<^sup>+)"
    using recompute_all_ok [OF assms(1) visited_ok_Nil, of order] assms(2)
    unfolding recomputePrivilegeData_def by blast
  have visited: "acyclic (edges g) \<and> (\<forall>k \<in> roles g. role_correct g' k)"
    if "visited_ok g' vis'" "roles g \<subseteq> set vis'" for vis'
  proof -
    have "(v, v) \<notin> (edges g)\<^sup>+" for v
    proof
      assume v: "(v, v) \<in> (edges g)\<^sup>+"
      then have "v \<in> roles g" using edges_in_roles [OF assms(1)] by (blast dest: tranclD)
      with v that show False unfolding visited_ok_def same_graph_views(1) [OF r(3)] by blast
    qed
    with that show ?thesis by (auto simp: acyclic_def visited_ok_def)
  qed
  show ?thesis
  proof (cases "s = Status_OK")
    case True
    then obtain vis' where "visited_ok g' vis'" "roles g \<subseteq> set vis'" using r(4) assms(2) by auto
    from visited [OF this] True r(1-3) show ?thesis by auto
  next
    case False
    then have "status_code s = GraphContainsCycle" "\<not> acyclic (edges g)" using r(4) by (auto simp: acyclic_def)
    with r(1-3) show ?thesis by auto
  qed
qed

text \<open>
  (C23) The recomputation always returns, whatever the order of the hash map: no assertion fails, no
  role is missing, and the map it iterates over is not changed. It reports a cycle exactly when the
  graph has one; on an acyclic graph it succeeds.
\<close>

theorem recompute_returns:
  assumes "graph_ok g" "rn_fullName ` set order = roles g"
  shows "\<exists>g' s. recomputePrivilegeData order g = Some (Inr (g', s)) \<and> graph_ok g' \<and>
    roleToSubordinates g' = roleToSubordinates g \<and> directPrivilegesForRole g' = directPrivilegesForRole g \<and>
    (if acyclic (edges g) then s = Status_OK else status_code s = GraphContainsCycle)"
  using recompute_correct [OF assms] unfolding same_graph_def by (metis (full_types))

text \<open>
  (C24) After a successful recomputation every role holds, as all privileges, exactly the direct
  privileges of itself and of every role it inherits from, and its indirect subordinates are exactly
  the roles reachable over one or more edges.
\<close>

theorem recompute_privileges:
  assumes "graph_ok g" "rn_fullName ` set order = roles g" "acyclic (edges g)" "k \<in> roles g"
  shows "\<exists>g'. recomputePrivilegeData order g = Some (Inr (g', Status_OK)) \<and>
    all_grants g' k r = (\<Union>j \<in> {j. (k, j) \<in> (edges g)\<^sup>*}. direct_grants g j r) \<and>
    set (names_at (roleToIndirectSubordinates g') k) = {j. (k, j) \<in> (edges g)\<^sup>+}"
proof -
  obtain g' s where g': "recomputePrivilegeData order g = Some (Inr (g', s))" and same: "same_graph g g'"
    and s: "if acyclic (edges g) then s = Status_OK \<and> (\<forall>k \<in> roles g. role_correct g' k)
       else status_code s = GraphContainsCycle"
    using recompute_correct [OF assms(1,2)] by (elim exE conjE) (rule that)
  have "s = Status_OK" "role_correct g' k" using s assms(3,4) by simp_all
  then show ?thesis
    using g' unfolding role_correct_def same_graph_views(1,4) [OF same] by (intro exI [of _ g']) simp
qed

text \<open>A role with one subordinate, for the witnesses.\<close>

definition sample_graph :: role_graph where
  "sample_graph =
     (case replaceRole (RoleName ''app'' ''db'') [RoleName ''x'' ''db''] [Privilege_action forClusterResource 2] RoleGraph of
        Inr (g, _) \<Rightarrow> g | Inl _ \<Rightarrow> RoleGraph)"

lemma sample_graph:
  "graph_ok sample_graph" "roles sample_graph = {''app@db'', ''x@db''}"
  "edges sample_graph = {(''app@db'', ''x@db'')}"
  "direct_grants sample_graph ''app@db'' = granted [Privilege_action forClusterResource 2]"
proof -
  have b: "\<not> isBuiltinRole (RoleName ''app'' ''db'')" by (simp add: isBuiltinRole_iff)
  have v: "vector_ok [Privilege_action forClusterResource 2]"
    using action_set_ok_addAction [of 0 2] by (simp add: vector_ok_def Privilege_action_def NUM_ACTION_TYPES_def)
  have e: "edges RoleGraph = {}" "roles RoleGraph = {}" by (simp_all add: edges_def RoleGraph_def names_at_def)
  obtain g' where g': "replaceRole (RoleName ''app'' ''db'') [RoleName ''x'' ''db''] [Privilege_action forClusterResource 2] RoleGraph =
        Inr (g', Status_OK)" "graph_ok g'"
      "roles g' = insert (rn_fullName (RoleName ''app'' ''db'')) (rn_fullName ` set [RoleName ''x'' ''db''] \<union> roles RoleGraph)"
      "edges g' = (\<lambda>b. (rn_fullName (RoleName ''app'' ''db''), rn_fullName b)) ` set [RoleName ''x'' ''db''] \<union>
         {(x, y) \<in> edges RoleGraph. x \<noteq> rn_fullName (RoleName ''app'' ''db'')}"
      "direct_grants g' (rn_fullName (RoleName ''app'' ''db'')) = granted [Privilege_action forClusterResource 2]"
    using replaceRole_custom [OF graph_ok_empty b v, of "[RoleName ''x'' ''db'']"] by (elim exE conjE) (rule that)
  have g: "sample_graph = g'" by (simp add: sample_graph_def g'(1))
  show "graph_ok sample_graph" unfolding g by (rule g'(2))
  show "roles sample_graph = {''app@db'', ''x@db''}" unfolding g g'(3) e by (simp add: RoleName_fullName)
  show "edges sample_graph = {(''app@db'', ''x@db'')}" unfolding g g'(4) e by (simp add: RoleName_fullName)
  show "direct_grants sample_graph ''app@db'' = granted [Privilege_action forClusterResource 2]"
    using g'(5) unfolding g by (simp add: RoleName_fullName del: granted_Cons)
qed

lemma sample_acyclic: "acyclic (edges sample_graph)"
  by (simp add: sample_graph(3) acyclic_insert) (simp add: acyclic_def)

lemma recompute_returns_witness:
  "\<exists>g' s. recomputePrivilegeData [RoleName ''app'' ''db'', RoleName ''x'' ''db''] sample_graph = Some (Inr (g', s)) \<and> isOK s"
  using recompute_returns [OF sample_graph(1), of "[RoleName ''app'' ''db'', RoleName ''x'' ''db'']"] sample_acyclic
  by (auto simp: sample_graph(2) RoleName_fullName)

lemma recompute_privileges_witness:
  "\<exists>g'. recomputePrivilegeData [RoleName ''app'' ''db'', RoleName ''x'' ''db''] sample_graph = Some (Inr (g', Status_OK)) \<and>
     ''x@db'' \<in> set (names_at (roleToIndirectSubordinates g') ''app@db'')"
proof -
  have "(''app@db'', ''x@db'') \<in> (edges sample_graph)\<^sup>+" by (simp add: sample_graph(3) r_into_trancl)
  then show ?thesis
    using recompute_privileges [OF sample_graph(1), of "[RoleName ''app'' ''db'', RoleName ''x'' ''db'']" "''app@db''" forClusterResource]
      sample_acyclic by (auto simp: sample_graph(2) RoleName_fullName)
qed

end
