(* ===== verification/Q_Lock.thy ===== *)
theory Q_Lock
  imports Mongo_Prelude
begin

text \<open>
  \<open>src/mongo/util/concurrency/qlock.h\<close>: the "quad lock" behind the global lock of the server, with
  the states \<open>r\<close>, \<open>w\<close> (granular reader and writer), \<open>R\<close>, \<open>W\<close> (global reader and writer) and \<open>X\<close>.

  Every operation runs under the mutex of the lock, so the part of an operation up to its next wait
  is one atomic function on the counters. Threads are the positions of a list; a thread is idle,
  holds the lock in a mode, or waits on one of the condition variables, asleep or woken. A woken
  thread re-evaluates its loop condition; condition variables may also wake threads for no reason,
  which is a step of its own.
\<close>

subsection \<open>The counters\<close>

record qlock =
  r_n :: int
  w_n :: int
  R_n :: int
  W_n :: int
  U_n :: int
  X_n :: int
  numPendingGlobalWrites :: int
  generationX :: int
  generationXExit :: int

definition QLock :: qlock where
  "QLock = \<lparr>r_n = 0, w_n = 0, R_n = 0, W_n = 0, U_n = 0, X_n = 0,
     numPendingGlobalWrites = 0, generationX = 0, generationXExit = 0\<rparr>"

definition areQueueJumpingGlobalWritesPending :: "qlock \<Rightarrow> bool" where
  "areQueueJumpingGlobalWritesPending q \<longleftrightarrow> numPendingGlobalWrites q > 0"

definition W_legal :: "qlock \<Rightarrow> bool" where
  "W_legal q \<longleftrightarrow> r_n q + w_n q + R_n q + W_n q + X_n q = 0"

definition R_legal_ignore_greed :: "qlock \<Rightarrow> bool" where
  "R_legal_ignore_greed q \<longleftrightarrow> w_n q + W_n q + X_n q = 0"

definition r_legal_ignore_greed :: "qlock \<Rightarrow> bool" where
  "r_legal_ignore_greed q \<longleftrightarrow> W_n q + X_n q = 0"

definition w_legal_ignore_greed :: "qlock \<Rightarrow> bool" where
  "w_legal_ignore_greed q \<longleftrightarrow> R_n q + W_n q + X_n q = 0"

definition R_legal :: "qlock \<Rightarrow> bool" where
  "R_legal q \<longleftrightarrow> \<not> areQueueJumpingGlobalWritesPending q \<and> R_legal_ignore_greed q"

definition w_legal :: "qlock \<Rightarrow> bool" where
  "w_legal q \<longleftrightarrow> \<not> areQueueJumpingGlobalWritesPending q \<and> w_legal_ignore_greed q"

definition r_legal :: "qlock \<Rightarrow> bool" where
  "r_legal q \<longleftrightarrow> \<not> areQueueJumpingGlobalWritesPending q \<and> r_legal_ignore_greed q"

definition X_legal :: "qlock \<Rightarrow> bool" where
  "X_legal q \<longleftrightarrow> w_n q + r_n q + R_n q + W_n q = 0"

lemmas legal_defs = areQueueJumpingGlobalWritesPending_def W_legal_def R_legal_ignore_greed_def
  r_legal_ignore_greed_def w_legal_ignore_greed_def R_legal_def w_legal_def r_legal_def X_legal_def

definition i_block :: "char \<Rightarrow> char \<Rightarrow> bool result" where
  "i_block me them =
     (if me = CHR ''W'' then Inr True
      else if me = CHR ''R'' then Inr (them = CHR ''W'' \<or> them = CHR ''w'' \<or> them = CHR ''X'')
      else if me = CHR ''w'' then Inr (them = CHR ''W'' \<or> them = CHR ''R'' \<or> them = CHR ''X'')
      else if me = CHR ''r'' then Inr (them = CHR ''W'' \<or> them = CHR ''X'')
      else if me = CHR ''X'' then Inr True
      else Inl (FAssert 16200))"

text \<open>Condition variables, and the notifications an operation sends to them.\<close>

datatype cond = Cr | Cw | CR | CW | CU | CX

datatype notification = NotifyOne cond | NotifyAll cond

definition notify_if :: "bool \<Rightarrow> char \<Rightarrow> char \<Rightarrow> notification \<Rightarrow> notification list result" where
  "notify_if legal me them n =
     (if legal then bindE (i_block me them) (\<lambda>b. Inr (if b then [n] else [])) else Inr [])"

definition notifyWeUnlocked :: "char \<Rightarrow> qlock \<Rightarrow> notification list result" where
  "notifyWeUnlocked me q =
     bindE (fassert 16201 (W_n q = 0)) (\<lambda>_.
     let x0 = (if me = CHR ''X'' then [NotifyAll CX] else [])
     in if U_n q \<noteq> 0 \<and> r_n q + w_n q + W_n q + X_n q = 0 \<and> R_n q = 1 then Inr (x0 @ [NotifyOne CU])
        else
          bindE (notify_if (X_legal q) me CHR ''X'' (NotifyOne CX)) (\<lambda>x1.
          bindE (notify_if (W_legal q) me CHR ''W'' (NotifyOne CW)) (\<lambda>x2.
            if x2 \<noteq> [] \<and> areQueueJumpingGlobalWritesPending q then Inr (x0 @ x1 @ x2)
            else
              bindE (notify_if (R_legal_ignore_greed q) me CHR ''R'' (NotifyAll CR)) (\<lambda>x3.
              bindE (notify_if (w_legal_ignore_greed q) me CHR ''w'' (NotifyAll Cw)) (\<lambda>x4.
              bindE (notify_if (r_legal_ignore_greed q) me CHR ''r'' (NotifyAll Cr)) (\<lambda>x5.
                Inr (x0 @ x1 @ x2 @ x3 @ x4 @ x5)))))))"

subsection \<open>Threads\<close>

datatype mode = Mode_r | Mode_w | Mode_R | Mode_W | Mode_X

text \<open>
  Where a thread waits: in \<open>lock_r\<close>, \<open>lock_w\<close>, \<open>lock_R\<close>, \<open>lock_R_try\<close>, \<open>lock_W\<close>, \<open>lock_W_try\<close>,
  \<open>R_to_W\<close>, or in the first or second loop of \<open>w_to_X\<close> with \<open>myGeneration\<close>.
\<close>

datatype wait_point =
  Wait_r | Wait_w | Wait_R | Wait_R_try | Wait_W | Wait_W_try | Wait_U | Wait_X int | Wait_X_exit int

fun cond_of :: "wait_point \<Rightarrow> cond" where
  "cond_of Wait_r = Cr"
| "cond_of Wait_w = Cw"
| "cond_of Wait_R = CR"
| "cond_of Wait_R_try = CR"
| "cond_of Wait_W = CW"
| "cond_of Wait_W_try = CW"
| "cond_of Wait_U = CU"
| "cond_of (Wait_X g) = CX"
| "cond_of (Wait_X_exit g) = CX"

datatype thread_state = Idle | Holding mode | Asleep wait_point | Woken wait_point

text \<open>What a thread does after the atomic part of an operation, and the notifications it sends.\<close>

type_synonym outcome = "qlock \<times> thread_state \<times> notification list"

subsection \<open>The operations, up to the next wait\<close>

text \<open>The loops \<open>while (!legal()) c.wait(m)\<close> from their test on; every operation starts with it.\<close>

definition lock_r :: "qlock \<Rightarrow> outcome result" where
  "lock_r q = Inr (if r_legal q then (q\<lparr>r_n := r_n q + 1\<rparr>, Holding Mode_r, []) else (q, Asleep Wait_r, []))"

definition lock_w :: "qlock \<Rightarrow> outcome result" where
  "lock_w q = Inr (if w_legal q then (q\<lparr>w_n := w_n q + 1\<rparr>, Holding Mode_w, []) else (q, Asleep Wait_w, []))"

definition lock_R :: "qlock \<Rightarrow> outcome result" where
  "lock_R q = Inr (if R_legal q then (q\<lparr>R_n := R_n q + 1\<rparr>, Holding Mode_R, []) else (q, Asleep Wait_R, []))"

text \<open>\<open>expired\<close>: the time is over. A timed wait also wakes up then.\<close>

definition lock_R_try :: "bool \<Rightarrow> qlock \<Rightarrow> outcome result" where
  "lock_R_try expired q =
     Inr (if \<not> R_legal q \<and> \<not> expired then (q, Asleep Wait_R_try, [])
          else if R_legal q then (q\<lparr>R_n := R_n q + 1\<rparr>, Holding Mode_R, []) else (q, Idle, []))"

definition lock_W_try_loop :: "bool \<Rightarrow> qlock \<Rightarrow> outcome result" where
  "lock_W_try_loop expired q =
     (if \<not> W_legal q \<and> \<not> expired then Inr (q, Asleep Wait_W_try, [])
      else
        let q = q\<lparr>numPendingGlobalWrites := numPendingGlobalWrites q - 1\<rparr>
        in if W_legal q then
             let q = q\<lparr>W_n := W_n q + 1\<rparr>
             in bindE (fassert 16202 (W_n q = 1)) (\<lambda>_. Inr (q, Holding Mode_W, []))
           else Inr (q, Idle, []))"

definition lock_W_try :: "bool \<Rightarrow> qlock \<Rightarrow> outcome result" where
  "lock_W_try expired q =
     lock_W_try_loop expired (q\<lparr>numPendingGlobalWrites := numPendingGlobalWrites q + 1\<rparr>)"

definition W_to_R :: "qlock \<Rightarrow> outcome result" where
  "W_to_R q =
     bindE (fassert 16203 (W_n q = 1)) (\<lambda>_.
     bindE (fassert 16204 (R_n q = 0)) (\<lambda>_.
     bindE (fassert 16205 (U_n q = 0)) (\<lambda>_.
       let q = q\<lparr>W_n := 0, R_n := 1\<rparr>
       in bindE (notifyWeUnlocked CHR ''W'' q) (\<lambda>ns. Inr (q, Holding Mode_R, ns)))))"

definition R_to_W_loop :: "qlock \<Rightarrow> outcome result" where
  "R_to_W_loop q =
     (if W_n q + R_n q + w_n q + r_n q > 1 then Inr (q, Asleep Wait_U, [])
      else
        let q = q\<lparr>numPendingGlobalWrites := numPendingGlobalWrites q - 1\<rparr>
        in bindE (fassert 16209 (R_n q = 1)) (\<lambda>_.
           bindE (fassert 16210 (W_n q = 0)) (\<lambda>_.
           bindE (fassert 16211 (U_n q = 1)) (\<lambda>_.
             Inr (q\<lparr>R_n := 0, W_n := 1, U_n := 0\<rparr>, Holding Mode_W, [])))))"

definition R_to_W :: "qlock \<Rightarrow> outcome result" where
  "R_to_W q =
     bindE (fassert 16206 (R_n q > 0)) (\<lambda>_.
     bindE (fassert 16207 (W_n q = 0)) (\<lambda>_.
     bindE (fassert 16208 (U_n q = 0)) (\<lambda>_.
       R_to_W_loop (q\<lparr>U_n := 1, numPendingGlobalWrites := numPendingGlobalWrites q + 1\<rparr>))))"

definition w_to_X_exit_loop :: "int \<Rightarrow> qlock \<Rightarrow> outcome result" where
  "w_to_X_exit_loop myGeneration q =
     (if myGeneration = generationXExit q then Inr (q, Asleep (Wait_X_exit myGeneration), [])
      else
        bindE (fassert 16216 (R_n q = 0)) (\<lambda>_.
        bindE (fassert 16217 (w_n q > 0)) (\<lambda>_. Inr (q, Holding Mode_w, []))))"

definition w_to_X_loop :: "int \<Rightarrow> qlock \<Rightarrow> outcome result" where
  "w_to_X_loop myGeneration q =
     (if \<not> X_legal q \<and> myGeneration = generationX q then Inr (q, Asleep (Wait_X myGeneration), [])
      else if myGeneration = generationX q then
        bindE (fassert 16214 (X_legal q)) (\<lambda>_.
        bindE (fassert 16215 (w_n q = 0)) (\<lambda>_.
          let q = q\<lparr>generationX := generationX q + 1\<rparr>
          in bindE (notifyWeUnlocked CHR ''w'' q) (\<lambda>ns. Inr (q, Holding Mode_X, ns))))
      else w_to_X_exit_loop myGeneration q)"

definition w_to_X :: "qlock \<Rightarrow> outcome result" where
  "w_to_X q =
     bindE (fassert 16212 (w_n q > 0)) (\<lambda>_.
       let q = q\<lparr>X_n := X_n q + 1, w_n := w_n q - 1\<rparr>
       in w_to_X_loop (generationX q) q)"

definition X_to_w :: "qlock \<Rightarrow> outcome result" where
  "X_to_w q =
     bindE (fassert 16219 (W_n q = 0)) (\<lambda>_.
     bindE (fassert 16220 (R_n q = 0)) (\<lambda>_.
     bindE (fassert 16221 (w_n q = 0)) (\<lambda>_.
     bindE (fassert 16222 (X_n q > 0)) (\<lambda>_.
       let q = q\<lparr>w_n := X_n q, X_n := 0, generationXExit := generationXExit q + 1\<rparr>
       in bindE (notifyWeUnlocked CHR ''X'' q) (\<lambda>ns. Inr (q, Holding Mode_w, ns))))))"

definition lock_W_loop :: "qlock \<Rightarrow> outcome result" where
  "lock_W_loop q =
     (if \<not> W_legal q then Inr (q, Asleep Wait_W, [])
      else Inr (q\<lparr>numPendingGlobalWrites := numPendingGlobalWrites q - 1, W_n := W_n q + 1\<rparr>,
                Holding Mode_W, []))"

definition lock_W :: "qlock \<Rightarrow> outcome result" where
  "lock_W q = lock_W_loop (q\<lparr>numPendingGlobalWrites := numPendingGlobalWrites q + 1\<rparr>)"

definition unlock_r :: "qlock \<Rightarrow> outcome result" where
  "unlock_r q =
     bindE (fassert 16137 (r_n q > 0)) (\<lambda>_.
       let q = q\<lparr>r_n := r_n q - 1\<rparr>
       in bindE (notifyWeUnlocked CHR ''r'' q) (\<lambda>ns. Inr (q, Idle, ns)))"

definition unlock_w :: "qlock \<Rightarrow> outcome result" where
  "unlock_w q =
     bindE (fassert 16138 (w_n q > 0)) (\<lambda>_.
       let q = q\<lparr>w_n := w_n q - 1\<rparr>
       in bindE (notifyWeUnlocked CHR ''w'' q) (\<lambda>ns. Inr (q, Idle, ns)))"

definition unlock_R :: "qlock \<Rightarrow> outcome result" where
  "unlock_R q =
     bindE (fassert 16139 (R_n q > 0)) (\<lambda>_.
       let q = q\<lparr>R_n := R_n q - 1\<rparr>
       in bindE (notifyWeUnlocked CHR ''R'' q) (\<lambda>ns. Inr (q, Idle, ns)))"

definition unlock_W :: "qlock \<Rightarrow> outcome result" where
  "unlock_W q =
     bindE (fassert 16140 (W_n q = 1)) (\<lambda>_.
       let q = q\<lparr>W_n := W_n q - 1\<rparr>
       in bindE (notifyWeUnlocked CHR ''W'' q) (\<lambda>ns. Inr (q, Idle, ns)))"

subsection \<open>Threads running the operations\<close>

record lock_system =
  lk :: qlock
  threads :: "thread_state list"

datatype call =
    Lock_r | Lock_w | Lock_R | Lock_W | Lock_R_try bool | Lock_W_try bool
  | Unlock | Downgrade | Upgrade | To_X | From_X | Resume bool

text \<open>
  The operation a thread may run in its state: a client locks when it holds nothing, gives back the
  mode it holds and changes modes as the names say. \<open>Resume\<close> continues a woken thread; its flag
  says whether a timed wait has expired.
\<close>

fun call_idle :: "call \<Rightarrow> qlock \<Rightarrow> outcome result option" where
  "call_idle Lock_r q = Some (lock_r q)"
| "call_idle Lock_w q = Some (lock_w q)"
| "call_idle Lock_R q = Some (lock_R q)"
| "call_idle Lock_W q = Some (lock_W q)"
| "call_idle (Lock_R_try e) q = Some (lock_R_try e q)"
| "call_idle (Lock_W_try e) q = Some (lock_W_try e q)"
| "call_idle _ q = None"

fun unlock :: "mode \<Rightarrow> qlock \<Rightarrow> outcome result option" where
  "unlock Mode_r q = Some (unlock_r q)"
| "unlock Mode_w q = Some (unlock_w q)"
| "unlock Mode_R q = Some (unlock_R q)"
| "unlock Mode_W q = Some (unlock_W q)"
| "unlock Mode_X q = None"

fun call_holding :: "call \<Rightarrow> mode \<Rightarrow> qlock \<Rightarrow> outcome result option" where
  "call_holding Unlock m q = unlock m q"
| "call_holding Downgrade m q = (if m = Mode_W then Some (W_to_R q) else None)"
| "call_holding Upgrade m q = (if m = Mode_R then Some (R_to_W q) else None)"
| "call_holding To_X m q = (if m = Mode_w then Some (w_to_X q) else None)"
| "call_holding From_X m q = (if m = Mode_X then Some (X_to_w q) else None)"
| "call_holding _ m q = None"

fun resume :: "bool \<Rightarrow> wait_point \<Rightarrow> qlock \<Rightarrow> outcome result" where
  "resume e Wait_r q = lock_r q"
| "resume e Wait_w q = lock_w q"
| "resume e Wait_R q = lock_R q"
| "resume e Wait_R_try q = lock_R_try e q"
| "resume e Wait_W q = lock_W_loop q"
| "resume e Wait_W_try q = lock_W_try_loop e q"
| "resume e Wait_U q = R_to_W_loop q"
| "resume e (Wait_X g) q = w_to_X_loop g q"
| "resume e (Wait_X_exit g) q = w_to_X_exit_loop g q"

definition run_call :: "call \<Rightarrow> thread_state \<Rightarrow> qlock \<Rightarrow> outcome result option" where
  "run_call c s q =
     (case s of
        Idle \<Rightarrow> call_idle c q
      | Holding m \<Rightarrow> call_holding c m q
      | Woken p \<Rightarrow> (case c of Resume e \<Rightarrow> Some (resume e p q) | _ \<Rightarrow> None)
      | Asleep p \<Rightarrow> None)"

fun wake :: "cond \<Rightarrow> thread_state \<Rightarrow> thread_state" where
  "wake c (Asleep p) = (if cond_of p = c then Woken p else Asleep p)"
| "wake c s = s"

text \<open>
  \<open>notify_one\<close> wakes one of the threads that wait, and nothing says which: \<open>pick\<close> chooses for each
  condition variable. No operation notifies one variable twice through \<open>notify_one\<close>.
\<close>

definition sleepers :: "cond \<Rightarrow> thread_state list \<Rightarrow> nat list" where
  "sleepers c ts = filter (\<lambda>i. wake c (ts ! i) \<noteq> ts ! i) [0..<length ts]"

definition wake_one :: "nat \<Rightarrow> cond \<Rightarrow> thread_state list \<Rightarrow> thread_state list" where
  "wake_one k c ts =
     (let waiting = sleepers c ts
      in if waiting = [] then ts
         else let i = waiting ! (k mod length waiting) in ts[i := wake c (ts ! i)])"

fun deliver :: "(cond \<Rightarrow> nat) \<Rightarrow> notification \<Rightarrow> thread_state list \<Rightarrow> thread_state list" where
  "deliver pick (NotifyOne c) ts = wake_one (pick c) c ts"
| "deliver pick (NotifyAll c) ts = map (wake c) ts"

text \<open>A step of thread \<open>t\<close>; \<open>None\<close> when the call is not one it may make.\<close>

definition thread_step :: "(cond \<Rightarrow> nat) \<Rightarrow> nat \<Rightarrow> call \<Rightarrow> lock_system \<Rightarrow> lock_system result option" where
  "thread_step pick t c s =
     (if t < length (threads s) then
        case run_call c (threads s ! t) (lk s) of
          None \<Rightarrow> None
        | Some m \<Rightarrow> Some (bindE m (\<lambda>(q, st, ns).
            Inr \<lparr>lk = q, threads = fold (deliver pick) ns ((threads s)[t := st])\<rparr>))
      else None)"

definition initial :: "nat \<Rightarrow> lock_system" where
  "initial n = \<lparr>lk = QLock, threads = replicate n Idle\<rparr>"

text \<open>
  The reachable states: steps of threads in any interleaving, and waits that end for no reason or by
  a timeout.
\<close>

inductive reachable :: "nat \<Rightarrow> lock_system \<Rightarrow> bool" for n where
  start: "reachable n (initial n)"
| step: "reachable n s \<Longrightarrow> thread_step pick t c s = Some (Inr s') \<Longrightarrow> reachable n s'"
| wakeup: "reachable n s \<Longrightarrow> t < length (threads s) \<Longrightarrow> threads s ! t = Asleep p \<Longrightarrow>
    reachable n (s\<lparr>threads := (threads s)[t := Woken p]\<rparr>)"

end
