(* ===== verification/Q_Lock_Safety.thy ===== *)
theory Q_Lock_Safety
  imports Q_Lock
begin

text \<open>
  The safety of the quad lock of \<open>qlock.h\<close>: what each counter counts among the threads, which modes
  exclude each other, that every operation keeps both and that no assertion fails but one.
\<close>

subsection \<open>Counting threads\<close>

fun holds :: "mode \<Rightarrow> thread_state \<Rightarrow> bool" where
  "holds m (Holding m') = (m = m')"
| "holds m _ = False"

text \<open>Waiting at a point that satisfies \<open>P\<close>, asleep or woken.\<close>

fun waits :: "(wait_point \<Rightarrow> bool) \<Rightarrow> thread_state \<Rightarrow> bool" where
  "waits P (Asleep p) = P p"
| "waits P (Woken p) = P p"
| "waits P _ = False"

fun pending_write :: "wait_point \<Rightarrow> bool" where
  "pending_write Wait_W = True"
| "pending_write Wait_W_try = True"
| "pending_write Wait_U = True"
| "pending_write _ = False"

fun at_generation :: "(int \<Rightarrow> bool) \<Rightarrow> wait_point \<Rightarrow> bool" where
  "at_generation P (Wait_X g) = P g"
| "at_generation P (Wait_X_exit g) = P g"
| "at_generation P _ = False"

definition num :: "(thread_state \<Rightarrow> bool) \<Rightarrow> thread_state list \<Rightarrow> int" where
  "num P ts = int (length (filter P ts))"

lemma num_nonneg: "0 \<le> num P ts"
  by (simp add: num_def)

lemma num_update:
  "t < length ts \<Longrightarrow> num P (ts[t := s]) = num P ts - of_bool (P (ts ! t)) + of_bool (P s)"
proof (induction ts arbitrary: t)
  case Nil
  then show ?case by simp
next
  case (Cons x ts)
  then show ?case by (cases t) (simp_all add: num_def)
qed

lemma num_pos: "t < length ts \<Longrightarrow> of_bool (P (ts ! t)) \<le> num P ts"
proof (induction ts arbitrary: t)
  case Nil
  then show ?case by simp
next
  case (Cons x ts)
  from Cons.prems Cons.IH [of "t - 1"] show ?case
    by (cases t) (auto simp: num_def split: if_splits)
qed

lemma num_Cons: "num P (s # ts) = of_bool (P s) + num P ts"
  by (simp add: num_def)

lemma num_split: "num (waits (at_generation (\<lambda>g. g < e + 1))) ts =
    num (waits (at_generation (\<lambda>g. g < e))) ts + num (waits (at_generation (\<lambda>g. g = e))) ts"
proof (induction ts)
  case Nil
  then show ?case by (simp add: num_def)
next
  case (Cons s ts)
  have "of_bool (waits (at_generation (\<lambda>g. g < e + 1)) s) =
      of_bool (waits (at_generation (\<lambda>g. g < e)) s) + (of_bool (waits (at_generation (\<lambda>g. g = e)) s) :: int)"
  proof (cases s)
    case (Asleep p)
    then show ?thesis by (cases p) auto
  next
    case (Woken p)
    then show ?thesis by (cases p) auto
  qed simp_all
  with Cons show ?case by (simp add: num_Cons del: zle_add1_eq_le)
qed

text \<open>The invariant: what the counters count, and which modes exclude each other.\<close>

definition counted :: "qlock \<Rightarrow> thread_state list \<Rightarrow> bool" where
  "counted q ts \<longleftrightarrow>
     r_n q = num (holds Mode_r) ts \<and>
     R_n q = num (holds Mode_R) ts + num (waits (\<lambda>p. p = Wait_U)) ts \<and>
     W_n q = num (holds Mode_W) ts \<and>
     w_n q = num (holds Mode_w) ts + num (waits (at_generation (\<lambda>g. g < generationXExit q))) ts \<and>
     X_n q = num (holds Mode_X) ts + num (waits (at_generation (\<lambda>g. g = generationXExit q))) ts \<and>
     U_n q = num (waits (\<lambda>p. p = Wait_U)) ts \<and>
     numPendingGlobalWrites q = num (waits pending_write) ts \<and>
     num (waits (at_generation (\<lambda>g. generationXExit q < g))) ts = 0 \<and>
     generationX q = generationXExit q + num (holds Mode_X) ts"

definition exclusive :: "qlock \<Rightarrow> int \<Rightarrow> bool" where
  "exclusive q x \<longleftrightarrow> x \<le> 1 \<and> U_n q \<le> 1 \<and>
     (W_n q \<noteq> 0 \<longrightarrow> W_n q = 1 \<and> r_n q = 0 \<and> w_n q = 0 \<and> R_n q = 0 \<and> X_n q = 0) \<and>
     (R_n q \<noteq> 0 \<longrightarrow> w_n q = 0 \<and> X_n q = 0) \<and>
     (x \<noteq> 0 \<longrightarrow> r_n q = 0 \<and> w_n q = 0)"

definition lock_inv :: "qlock \<Rightarrow> thread_state list \<Rightarrow> bool" where
  "lock_inv q ts \<longleftrightarrow> counted q ts \<and> exclusive q (num (holds Mode_X) ts)"

lemma counted_nonneg:
  assumes "counted q ts"
  shows "0 \<le> r_n q" "0 \<le> w_n q" "0 \<le> R_n q" "0 \<le> W_n q" "0 \<le> X_n q" "0 \<le> U_n q" "U_n q \<le> R_n q"
    "0 \<le> num (holds Mode_X) ts" "num (holds Mode_X) ts \<le> X_n q"
  using assms num_nonneg [of _ ts] by (simp_all add: counted_def)

text \<open>Waking threads up does not change what is counted.\<close>

lemma wake_counts [simp]: "holds m (wake c s) = holds m s" "waits P (wake c s) = waits P s"
  by (cases s; simp)+

lemma sleepers_less: "i \<in> set (sleepers c ts) \<Longrightarrow> i < length ts"
  by (simp add: sleepers_def)

lemma wake_oneE:
  obtains "sleepers c ts = []" "wake_one k c ts = ts"
  | i where "i \<in> set (sleepers c ts)" "wake_one k c ts = ts[i := wake c (ts ! i)]"
proof (cases "sleepers c ts = []")
  case True
  then show ?thesis by (intro that(1)) (simp_all add: wake_one_def)
next
  case False
  then show ?thesis
    by (intro that(2) [of "sleepers c ts ! (k mod length (sleepers c ts))"]) (simp_all add: wake_one_def Let_def)
qed

lemma num_deliver: "num P (deliver pick n ts) = num P ts" if P: "\<And>c s. P (wake c s) = P s"
proof -
  have "num P (wake_one k c ts) = num P ts" for k c
    by (rule wake_oneE [of c ts k]) (simp_all add: num_update [OF sleepers_less] P)
  moreover have "num P (map (wake c) ts) = num P ts" for c
    by (induction ts) (simp_all add: num_def P)
  ultimately show ?thesis by (cases n) simp_all
qed

lemma num_fold_deliver:
  "num (holds m) (fold (deliver pick) ns ts) = num (holds m) ts"
  "num (waits P) (fold (deliver pick) ns ts) = num (waits P) ts"
  by (induction ns arbitrary: ts) (simp_all add: num_deliver)

lemma lock_inv_deliver: "lock_inv q (fold (deliver pick) ns ts) = lock_inv q ts"
  by (simp add: lock_inv_def counted_def num_fold_deliver)

lemma notify_returns: "me \<in> {CHR ''r'', CHR ''w'', CHR ''R'', CHR ''W'', CHR ''X''} \<Longrightarrow> W_n q = 0 \<Longrightarrow>
    \<exists>ns. notifyWeUnlocked me q = Inr ns"
  by (auto simp: notifyWeUnlocked_def notify_if_def i_block_def Let_def)

lemma lock_inv_initial: "lock_inv QLock (replicate n Idle)"
proof -
  have "num (holds m) (replicate n Idle) = 0" "num (waits P) (replicate n Idle) = 0" for m P
    by (simp_all add: num_def)
  then show ?thesis by (simp add: lock_inv_def counted_def exclusive_def QLock_def)
qed

text \<open>A thread that counts nowhere.\<close>

definition neutral :: "thread_state \<Rightarrow> bool" where
  "neutral s \<longleftrightarrow> s = Idle \<or> s = Woken Wait_r \<or> s = Woken Wait_w \<or> s = Woken Wait_R \<or> s = Woken Wait_R_try"

lemma neutral_counts:
  assumes "neutral s"
  shows "\<not> holds m s" "\<not> waits (\<lambda>p. p = Wait_U) s" "\<not> waits pending_write s" "\<not> waits (at_generation P) s"
  using assms by (auto simp: neutral_def)

text \<open>The conclusion of every case: the operation returns and the invariant holds with the new state of the thread.\<close>

definition safe :: "outcome result \<Rightarrow> nat \<Rightarrow> thread_state list \<Rightarrow> bool" where
  "safe m t ts \<longleftrightarrow> (\<exists>q' st ns. m = Inr (q', st, ns) \<and> lock_inv q' (ts[t := st]))"

lemma safeI: "m = Inr (q', st, ns) \<Longrightarrow> lock_inv q' (ts[t := st]) \<Longrightarrow> safe m t ts"
  by (auto simp: safe_def)

lemma lock_inv_neutral:
  assumes "lock_inv q ts" "t < length ts" "neutral (ts ! t)" "neutral s \<or> s = Asleep Wait_r \<or> s = Asleep Wait_w \<or> s = Asleep Wait_R \<or> s = Asleep Wait_R_try"
  shows "lock_inv q (ts[t := s])"
proof -
  have "\<not> holds m s" "\<not> waits (\<lambda>p. p = Wait_U) s" "\<not> waits pending_write s" "\<not> waits (at_generation P) s" for m P
    using assms(4) by (auto simp: neutral_def)
  with neutral_counts [OF assms(3)] have n: "num (holds m) (ts[t := s]) = num (holds m) ts"
    "num (waits (\<lambda>p. p = Wait_U)) (ts[t := s]) = num (waits (\<lambda>p. p = Wait_U)) ts"
    "num (waits pending_write) (ts[t := s]) = num (waits pending_write) ts"
    "num (waits (at_generation P)) (ts[t := s]) = num (waits (at_generation P)) ts" for m P
    by (simp_all add: num_update [OF assms(2)])
  show ?thesis using assms(1) unfolding lock_inv_def counted_def n .
qed

lemma acquire_safe:
  assumes "lock_inv q ts" "t < length ts" "neutral (ts ! t)"
  shows "r_legal q \<Longrightarrow> lock_inv (q\<lparr>r_n := r_n q + 1\<rparr>) (ts[t := Holding Mode_r])"
    "w_legal q \<Longrightarrow> lock_inv (q\<lparr>w_n := w_n q + 1\<rparr>) (ts[t := Holding Mode_w])"
    "R_legal q \<Longrightarrow> lock_inv (q\<lparr>R_n := R_n q + 1\<rparr>) (ts[t := Holding Mode_R])"
proof -
  have c: "counted q ts" and e: "exclusive q (num (holds Mode_X) ts)" using assms(1) by (simp_all add: lock_inv_def)
  have "counted (q\<lparr>r_n := r_n q + 1\<rparr>) (ts[t := Holding Mode_r])" "counted (q\<lparr>w_n := w_n q + 1\<rparr>) (ts[t := Holding Mode_w])"
    "counted (q\<lparr>R_n := R_n q + 1\<rparr>) (ts[t := Holding Mode_R])"
    using c neutral_counts [OF assms(3)] by (simp_all add: counted_def num_update [OF assms(2)])
  moreover have "num (holds Mode_X) (ts[t := Holding m]) = num (holds Mode_X) ts" if "m \<noteq> Mode_X" for m
    using neutral_counts(1) [OF assms(3)] that by (simp add: num_update [OF assms(2)])
  ultimately show "r_legal q \<Longrightarrow> lock_inv (q\<lparr>r_n := r_n q + 1\<rparr>) (ts[t := Holding Mode_r])"
    "w_legal q \<Longrightarrow> lock_inv (q\<lparr>w_n := w_n q + 1\<rparr>) (ts[t := Holding Mode_w])"
    "R_legal q \<Longrightarrow> lock_inv (q\<lparr>R_n := R_n q + 1\<rparr>) (ts[t := Holding Mode_R])"
    using e counted_nonneg [OF c] by (auto simp: lock_inv_def exclusive_def legal_defs)
qed

lemma acquire_ops_safe:
  assumes "lock_inv q ts" "t < length ts" "neutral (ts ! t)"
  shows "safe (lock_r q) t ts" "safe (lock_w q) t ts" "safe (lock_R q) t ts" "safe (lock_R_try e q) t ts"
proof -
  have sleep: "lock_inv q (ts[t := Asleep Wait_r])" "lock_inv q (ts[t := Asleep Wait_w])"
    "lock_inv q (ts[t := Asleep Wait_R])" "lock_inv q (ts[t := Asleep Wait_R_try])" "lock_inv q (ts[t := Idle])"
    using lock_inv_neutral [OF assms] by (simp_all add: neutral_def)
  show "safe (lock_r q) t ts" "safe (lock_w q) t ts" "safe (lock_R q) t ts"
    using acquire_safe [OF assms] sleep by (auto simp: safe_def lock_r_def lock_w_def lock_R_def)
  show "safe (lock_R_try e q) t ts"
    using acquire_safe [OF assms] sleep by (auto simp: safe_def lock_R_try_def)
qed

text \<open>A thread that waits for \<open>W\<close>: it counts as a pending write, and only there.\<close>

lemma lock_W_loop_safe:
  assumes "lock_inv q ts" "t < length ts" "ts ! t = Woken p" "p = Wait_W \<or> p = Wait_W_try"
  shows "safe (lock_W_loop q) t ts" "safe (lock_W_try_loop e q) t ts"
proof -
  have own: "waits pending_write (ts ! t)" "\<not> holds m (ts ! t)" "\<not> waits (\<lambda>p. p = Wait_U) (ts ! t)"
    "\<not> waits (at_generation P) (ts ! t)" for m P
    using assms(3,4) by auto
  have c: "counted q ts" and e: "exclusive q (num (holds Mode_X) ts)" using assms(1) by (simp_all add: lock_inv_def)
  note nn = counted_nonneg [OF c]
  have x: "num (holds Mode_X) (ts[t := s]) = num (holds Mode_X) ts" if "\<not> holds Mode_X s" for s
    using own(2) that by (simp add: num_update [OF assms(2)])
  have W: "W_n q = 0" if "W_legal q" using nn that by (auto simp: legal_defs)
  have get: "lock_inv (q\<lparr>numPendingGlobalWrites := numPendingGlobalWrites q - 1, W_n := W_n q + 1\<rparr>) (ts[t := Holding Mode_W])"
    if l: "W_legal q"
  proof -
    have "counted (q\<lparr>numPendingGlobalWrites := numPendingGlobalWrites q - 1, W_n := W_n q + 1\<rparr>) (ts[t := Holding Mode_W])"
      using c own by (simp add: counted_def num_update [OF assms(2)])
    moreover have "exclusive (q\<lparr>numPendingGlobalWrites := n, W_n := W_n q + 1\<rparr>) (num (holds Mode_X) ts)" for n
      using e nn l by (auto simp: exclusive_def legal_defs)
    ultimately show ?thesis by (simp add: lock_inv_def x)
  qed
  have same: "exclusive (q\<lparr>numPendingGlobalWrites := n\<rparr>) y = exclusive q y" for n y by (simp add: exclusive_def)
  have fail: "lock_inv (q\<lparr>numPendingGlobalWrites := numPendingGlobalWrites q - 1\<rparr>) (ts[t := Idle])"
    using c e own by (simp add: lock_inv_def same x) (simp add: counted_def num_update [OF assms(2)])
  have sleep: "lock_inv q (ts[t := Asleep Wait_W])" "lock_inv q (ts[t := Asleep Wait_W_try])"
    using c e own by (simp_all add: lock_inv_def x) (simp_all add: counted_def num_update [OF assms(2)])
  show "safe (lock_W_loop q) t ts"
    using get sleep by (auto simp: safe_def lock_W_loop_def)
  have "W_legal (q\<lparr>numPendingGlobalWrites := n\<rparr>) = W_legal q" for n by (simp add: W_legal_def)
  then show "safe (lock_W_try_loop e q) t ts"
    using get W fail sleep by (auto simp: safe_def lock_W_try_loop_def Let_def fassert_def)
qed


lemma lock_inv_Woken:
  assumes "lock_inv q ts" "t < length ts" "ts ! t = Asleep p"
  shows "lock_inv q (ts[t := Woken p])"
proof -
  have n: "num (holds m) (ts[t := Woken p]) = num (holds m) ts" "num (waits P) (ts[t := Woken p]) = num (waits P) ts" for m P
    by (simp_all add: num_update [OF assms(2)] assms(3))
  show ?thesis using assms(1) unfolding lock_inv_def counted_def n .
qed

lemma safe_update: "safe m t (ts[t := s]) \<Longrightarrow> safe m t ts"
  by (simp add: safe_def)

lemma lock_W_safe:
  assumes "lock_inv q ts" "t < length ts" "ts ! t = Idle"
  shows "safe (lock_W q) t ts" "safe (lock_W_try e q) t ts"
proof -
  let ?q = "q\<lparr>numPendingGlobalWrites := numPendingGlobalWrites q + 1\<rparr>"
  have c: "counted q ts" and e: "exclusive q (num (holds Mode_X) ts)" using assms(1) by (simp_all add: lock_inv_def)
  have "counted ?q (ts[t := Woken Wait_W])" using c assms(3) by (simp add: counted_def num_update [OF assms(2)])
  moreover have "exclusive ?q (num (holds Mode_X) (ts[t := Woken Wait_W]))"
    using e assms(3) by (simp add: exclusive_def num_update [OF assms(2)])
  ultimately have inv: "lock_inv ?q (ts[t := Woken Wait_W])" by (simp add: lock_inv_def)
  have "safe (lock_W_loop ?q) t (ts[t := Woken Wait_W])" "safe (lock_W_try_loop e ?q) t (ts[t := Woken Wait_W])"
    using lock_W_loop_safe [OF inv, of t Wait_W] assms(2) by simp_all
  then show "safe (lock_W q) t ts" "safe (lock_W_try e q) t ts"
    unfolding lock_W_def lock_W_try_def by (simp_all add: safe_update)
qed

subsubsection \<open>Giving the lock back\<close>

lemma release_counts:
  assumes "lock_inv q ts" "t < length ts" "ts ! t = Holding m"
  shows "1 \<le> num (holds m) ts" "\<not> waits P (ts ! t)" "holds m' (ts ! t) \<longleftrightarrow> m' = m"
  using num_pos [OF assms(2), of "holds m"] assms(3) by auto

lemma unlock_safe:
  assumes "lock_inv q ts" "t < length ts" "ts ! t = Holding m" "unlock m q = Some res"
  shows "safe res t ts"
proof -
  have c: "counted q ts" and e: "exclusive q (num (holds Mode_X) ts)" using assms(1) by (simp_all add: lock_inv_def)
  note rc = release_counts [OF assms(1-3)] and nn = counted_nonneg [OF c]
  have x: "num (holds Mode_X) (ts[t := Idle]) = num (holds Mode_X) ts" if "m \<noteq> Mode_X"
    using rc(3) that by (simp add: num_update [OF assms(2)])
  have finish: "safe (bindE (notifyWeUnlocked me q') (\<lambda>ns. Inr (q', Idle, ns))) t ts"
    if "me \<in> {CHR ''r'', CHR ''w'', CHR ''R'', CHR ''W'', CHR ''X''}" "W_n q' = 0" "lock_inv q' (ts[t := Idle])" for me q'
    using notify_returns [OF that(1,2)] that(3) by (auto simp: safe_def)
  show ?thesis
  proof (cases m)
    case Mode_r
    let ?q = "q\<lparr>r_n := r_n q - 1\<rparr>"
    have pos: "r_n q \<ge> 1" using c rc(1) num_nonneg [of _ ts] Mode_r by (simp add: counted_def add_increasing2)
    have "counted ?q (ts[t := Idle])" using c rc(2,3) Mode_r by (simp add: counted_def num_update [OF assms(2)])
    moreover have "exclusive ?q (num (holds Mode_X) ts)" "W_n ?q = 0" "r_n q > 0"
      using e nn pos by (auto simp: exclusive_def)
    ultimately have "r_n q > 0" "W_n ?q = 0" "lock_inv ?q (ts[t := Idle])"
      using x Mode_r by (simp_all add: lock_inv_def)
    then show ?thesis using finish [of "CHR ''r''" ?q] assms(4) Mode_r by (auto simp: unlock_r_def Let_def)
  next
    case Mode_w
    let ?q = "q\<lparr>w_n := w_n q - 1\<rparr>"
    have pos: "w_n q \<ge> 1" using c rc(1) num_nonneg [of _ ts] Mode_w by (simp add: counted_def add_increasing2)
    have "counted ?q (ts[t := Idle])" using c rc(2,3) Mode_w by (simp add: counted_def num_update [OF assms(2)])
    moreover have "exclusive ?q (num (holds Mode_X) ts)" "W_n ?q = 0" "w_n q > 0"
      using e nn pos by (auto simp: exclusive_def)
    ultimately have "w_n q > 0" "W_n ?q = 0" "lock_inv ?q (ts[t := Idle])"
      using x Mode_w by (simp_all add: lock_inv_def)
    then show ?thesis using finish [of "CHR ''w''" ?q] assms(4) Mode_w by (auto simp: unlock_w_def Let_def)
  next
    case Mode_R
    let ?q = "q\<lparr>R_n := R_n q - 1\<rparr>"
    have pos: "R_n q \<ge> 1" using c rc(1) num_nonneg [of _ ts] Mode_R by (simp add: counted_def add_increasing2)
    have "counted ?q (ts[t := Idle])" using c rc(2,3) Mode_R by (simp add: counted_def num_update [OF assms(2)])
    moreover have "exclusive ?q (num (holds Mode_X) ts)" "W_n ?q = 0" "R_n q > 0"
      using e nn pos by (auto simp: exclusive_def)
    ultimately have "R_n q > 0" "W_n ?q = 0" "lock_inv ?q (ts[t := Idle])"
      using x Mode_R by (simp_all add: lock_inv_def)
    then show ?thesis using finish [of "CHR ''R''" ?q] assms(4) Mode_R by (auto simp: unlock_R_def Let_def)
  next
    case Mode_W
    let ?q = "q\<lparr>W_n := W_n q - 1\<rparr>"
    have pos: "W_n q \<ge> 1" using c rc(1) num_nonneg [of _ ts] Mode_W by (simp add: counted_def add_increasing2)
    have "counted ?q (ts[t := Idle])" using c rc(2,3) Mode_W by (simp add: counted_def num_update [OF assms(2)])
    moreover have "exclusive ?q (num (holds Mode_X) ts)" "W_n ?q = 0" "W_n q = 1"
      using e nn pos by (auto simp: exclusive_def)
    ultimately have "W_n q = 1" "W_n ?q = 0" "lock_inv ?q (ts[t := Idle])"
      using x Mode_W by (simp_all add: lock_inv_def)
    then show ?thesis using finish [of "CHR ''W''" ?q] assms(4) Mode_W by (auto simp: unlock_W_def Let_def)
  qed (use assms(4) in simp)
qed

subsubsection \<open>Changing modes\<close>

lemma W_to_R_safe:
  assumes "lock_inv q ts" "t < length ts" "ts ! t = Holding Mode_W"
  shows "safe (W_to_R q) t ts"
proof -
  have c: "counted q ts" and e: "exclusive q (num (holds Mode_X) ts)" using assms(1) by (simp_all add: lock_inv_def)
  note rc = release_counts [OF assms] and nn = counted_nonneg [OF c]
  let ?q = "q\<lparr>W_n := 0, R_n := 1\<rparr>"
  have "W_n q \<ge> 1" using c rc(1) by (simp add: counted_def)
  with e nn have z: "W_n q = 1" "R_n q = 0" "U_n q = 0" "w_n q = 0" "X_n q = 0" by (auto simp: exclusive_def)
  have "counted ?q (ts[t := Holding Mode_R])"
    using c rc(2,3) z by (simp add: counted_def num_update [OF assms(2)])
  moreover have "exclusive ?q (num (holds Mode_X) (ts[t := Holding Mode_R]))"
    using e rc(3) z by (simp add: exclusive_def num_update [OF assms(2)])
  ultimately have "lock_inv ?q (ts[t := Holding Mode_R])" by (simp add: lock_inv_def)
  with notify_returns [of "CHR ''W''" ?q] z show ?thesis by (auto simp: safe_def W_to_R_def Let_def)
qed

lemma R_to_W_loop_safe:
  assumes "lock_inv q ts" "t < length ts" "ts ! t = Woken Wait_U"
  shows "safe (R_to_W_loop q) t ts"
proof -
  have c: "counted q ts" and e: "exclusive q (num (holds Mode_X) ts)" using assms(1) by (simp_all add: lock_inv_def)
  note nn = counted_nonneg [OF c]
  have U: "U_n q = 1" using c e num_pos [OF assms(2), of "waits (\<lambda>p. p = Wait_U)"] assms(3)
    by (simp add: counted_def exclusive_def)
  with e nn have z: "W_n q = 0" "w_n q = 0" "X_n q = 0" "R_n q \<ge> 1" by (auto simp: exclusive_def)
  let ?q = "q\<lparr>numPendingGlobalWrites := numPendingGlobalWrites q - 1, R_n := 0, W_n := 1, U_n := 0\<rparr>"
  have sleep: "lock_inv q (ts[t := Asleep Wait_U])"
  proof -
    have n: "num (holds m) (ts[t := Asleep Wait_U]) = num (holds m) ts"
      "num (waits P) (ts[t := Asleep Wait_U]) = num (waits P) ts" for m P
      by (simp_all add: num_update [OF assms(2)] assms(3))
    show ?thesis using assms(1) unfolding lock_inv_def counted_def n .
  qed
  have up: "lock_inv ?q (ts[t := Holding Mode_W])" if R: "R_n q = 1" "r_n q = 0"
  proof -
    have "counted ?q (ts[t := Holding Mode_W])"
      using c assms(3) z U R by (simp add: counted_def num_update [OF assms(2)])
    moreover have "exclusive ?q (num (holds Mode_X) (ts[t := Holding Mode_W]))"
      using e nn assms(3) z R by (simp add: exclusive_def num_update [OF assms(2)])
    ultimately show ?thesis by (simp add: lock_inv_def)
  qed
  show ?thesis
  proof (cases "W_n q + R_n q + w_n q + r_n q > 1")
    case True
    with sleep show ?thesis by (simp add: safe_def R_to_W_loop_def)
  next
    case False
    with z nn have "R_n q = 1" "r_n q = 0" by simp_all
    with up z U show ?thesis by (simp add: safe_def R_to_W_loop_def fassert_def)
  qed
qed

lemma R_to_W_safe:
  assumes "lock_inv q ts" "t < length ts" "ts ! t = Holding Mode_R"
  shows "safe (R_to_W q) t ts \<or> R_to_W q = Inl (FAssert 16208) \<and> U_n q = 1"
proof (cases "U_n q = 0")
  case True
  have c: "counted q ts" and e: "exclusive q (num (holds Mode_X) ts)" using assms(1) by (simp_all add: lock_inv_def)
  note rc = release_counts [OF assms] and nn = counted_nonneg [OF c]
  let ?q = "q\<lparr>U_n := 1, numPendingGlobalWrites := numPendingGlobalWrites q + 1\<rparr>"
  have "R_n q \<ge> 1" using c rc(1) num_nonneg [of "waits (\<lambda>p. p = Wait_U)" ts] by (simp add: counted_def)
  with e have z: "R_n q > 0" "W_n q = 0" by (auto simp: exclusive_def)
  have "counted ?q (ts[t := Woken Wait_U])"
    using c rc(2,3) True by (simp add: counted_def num_update [OF assms(2)])
  moreover have "exclusive ?q (num (holds Mode_X) (ts[t := Woken Wait_U]))"
    using e rc(3) by (simp add: exclusive_def num_update [OF assms(2)])
  ultimately have "safe (R_to_W_loop ?q) t (ts[t := Woken Wait_U])"
    using R_to_W_loop_safe [of ?q "ts[t := Woken Wait_U]" t] assms(2) by (simp add: lock_inv_def)
  then show ?thesis using z True by (simp add: safe_update R_to_W_def fassert_def)
next
  case False
  have c: "counted q ts" and e: "exclusive q (num (holds Mode_X) ts)" using assms(1) by (simp_all add: lock_inv_def)
  with False counted_nonneg [OF c] have "U_n q = 1" "R_n q > 0" "W_n q = 0" by (auto simp: exclusive_def)
  then show ?thesis by (simp add: R_to_W_def fassert_def)
qed

subsubsection \<open>The mode \<open>X\<close>\<close>

lemma num_mono: "(\<And>s. P s \<Longrightarrow> Q s) \<Longrightarrow> num P ts \<le> num Q ts"
  by (induction ts) (auto simp: num_def)

lemma num_later_zero:
  assumes "num (waits (at_generation (\<lambda>g. e < g))) ts = 0" "\<And>g. P g \<Longrightarrow> e < g"
  shows "num (waits (at_generation P)) ts = 0"
proof -
  have "at_generation P p \<Longrightarrow> at_generation (\<lambda>g. e < g) p" for p by (cases p) (auto dest: assms(2))
  then have "waits (at_generation P) s \<Longrightarrow> waits (at_generation (\<lambda>g. e < g)) s" for s by (cases s) auto
  then have "num (waits (at_generation P)) ts \<le> num (waits (at_generation (\<lambda>g. e < g))) ts" by (rule num_mono)
  with assms(1) num_nonneg [of "waits (at_generation P)" ts] show ?thesis by simp
qed

lemma generation_bound:
  assumes "counted q ts" "t < length ts" "\<And>P. waits (at_generation P) (ts ! t) = P g"
  shows "g \<le> generationXExit q"
proof (rule ccontr)
  assume "\<not> g \<le> generationXExit q"
  then have "waits (at_generation (\<lambda>g. generationXExit q < g)) (ts ! t)" unfolding assms(3) by simp
  with num_pos [OF assms(2), of "waits (at_generation (\<lambda>g. generationXExit q < g))"]
  have "1 \<le> num (waits (at_generation (\<lambda>g. generationXExit q < g))) ts" by simp
  moreover have "num (waits (at_generation (\<lambda>g. generationXExit q < g))) ts = 0"
    using assms(1) by (simp only: counted_def)
  ultimately show False by simp
qed

lemma X_to_w_safe:
  assumes "lock_inv q ts" "t < length ts" "ts ! t = Holding Mode_X"
  shows "safe (X_to_w q) t ts"
proof -
  have c: "counted q ts" and e: "exclusive q (num (holds Mode_X) ts)" using assms(1) by (simp_all add: lock_inv_def)
  note rc = release_counts [OF assms] and nn = counted_nonneg [OF c]
  let ?q = "q\<lparr>w_n := X_n q, X_n := 0, generationXExit := generationXExit q + 1\<rparr>"
  let ?ts = "ts[t := Holding Mode_w]"
  have x: "num (holds Mode_X) ts = 1" using rc(1) e by (simp add: exclusive_def)
  then have z: "X_n q > 0" "w_n q = 0" "r_n q = 0" "W_n q = 0" "R_n q = 0" using e nn by (auto simp: exclusive_def)
  have far: "num (waits (at_generation (\<lambda>g. generationXExit q < g))) ts = 0" using c by (simp add: counted_def)
  have later: "num (waits (at_generation (\<lambda>g. g = generationXExit q + 1))) ts = 0"
    "num (waits (at_generation (\<lambda>g. generationXExit q + 1 < g))) ts = 0"
    by (rule num_later_zero [OF far], simp)+
  have "counted ?q ?ts"
    using c rc(2,3) x z later num_split [of "generationXExit q" ts]
    by (simp add: counted_def num_update [OF assms(2)] del: zle_add1_eq_le)
  moreover have "exclusive ?q (num (holds Mode_X) ?ts)"
    using e rc(3) x z by (simp add: exclusive_def num_update [OF assms(2)])
  ultimately have "lock_inv ?q ?ts" by (simp add: lock_inv_def)
  with notify_returns [of "CHR ''X''" ?q] z show ?thesis by (auto simp: safe_def X_to_w_def Let_def fassert_def)
qed

lemma w_to_X_exit_loop_safe:
  assumes "lock_inv q ts" "t < length ts" "ts ! t = Woken p" "p = Wait_X g \<or> p = Wait_X_exit g"
  shows "safe (w_to_X_exit_loop g q) t ts"
proof -
  have c: "counted q ts" and e: "exclusive q (num (holds Mode_X) ts)" using assms(1) by (simp_all add: lock_inv_def)
  note nn = counted_nonneg [OF c]
  have own: "\<not> holds m (ts ! t)" "\<not> waits (\<lambda>p. p = Wait_U) (ts ! t)" "\<not> waits pending_write (ts ! t)"
    "waits (at_generation P) (ts ! t) = P g" for m P
    using assms(3,4) by auto
  show ?thesis
  proof (cases "g = generationXExit q")
    case True
    have n: "num (holds m) (ts[t := Asleep (Wait_X_exit g)]) = num (holds m) ts"
      "num (waits (\<lambda>p. p = Wait_U)) (ts[t := Asleep (Wait_X_exit g)]) = num (waits (\<lambda>p. p = Wait_U)) ts"
      "num (waits pending_write) (ts[t := Asleep (Wait_X_exit g)]) = num (waits pending_write) ts"
      "num (waits (at_generation P)) (ts[t := Asleep (Wait_X_exit g)]) = num (waits (at_generation P)) ts" for m P
      using own by (simp_all add: num_update [OF assms(2)])
    have "lock_inv q (ts[t := Asleep (Wait_X_exit g)])"
      using assms(1) unfolding lock_inv_def counted_def n .
    with True show ?thesis by (simp add: safe_def w_to_X_exit_loop_def)
  next
    case False
    with generation_bound [OF c assms(2) own(4)] have g: "g < generationXExit q" by simp
    then have "1 \<le> num (waits (at_generation (\<lambda>g. g < generationXExit q))) ts"
      using num_pos [OF assms(2), of "waits (at_generation (\<lambda>g. g < generationXExit q))"] own(4) by simp
    then have "w_n q \<ge> 1"
      using c num_nonneg [of "holds Mode_w" ts] by (simp add: counted_def)
    with e nn have z: "R_n q = 0" "w_n q > 0" by (auto simp: exclusive_def)
    have "counted q (ts[t := Holding Mode_w])"
      using c own g by (simp add: counted_def num_update [OF assms(2)])
    moreover have "num (holds Mode_X) (ts[t := Holding Mode_w]) = num (holds Mode_X) ts"
      using own by (simp add: num_update [OF assms(2)])
    ultimately have "lock_inv q (ts[t := Holding Mode_w])" using e by (simp add: lock_inv_def)
    with False z show ?thesis by (simp add: safe_def w_to_X_exit_loop_def fassert_def)
  qed
qed

lemma w_to_X_loop_safe:
  assumes "lock_inv q ts" "t < length ts" "ts ! t = Woken (Wait_X g)"
  shows "safe (w_to_X_loop g q) t ts"
proof -
  have c: "counted q ts" and e: "exclusive q (num (holds Mode_X) ts)" using assms(1) by (simp_all add: lock_inv_def)
  note nn = counted_nonneg [OF c]
  consider "g \<noteq> generationX q" | "g = generationX q" "\<not> X_legal q" | "g = generationX q" "X_legal q" by blast
  then show ?thesis
  proof cases
    case 1
    then show ?thesis using w_to_X_exit_loop_safe [OF assms] by (simp add: w_to_X_loop_def)
  next
    case 2
    have n: "num (holds m) (ts[t := Asleep (Wait_X g)]) = num (holds m) ts"
      "num (waits P) (ts[t := Asleep (Wait_X g)]) = num (waits P) ts" for m P
      by (simp_all add: num_update [OF assms(2)] assms(3))
    have "lock_inv q (ts[t := Asleep (Wait_X g)])" using assms(1) unfolding lock_inv_def counted_def n .
    with 2 show ?thesis by (simp add: safe_def w_to_X_loop_def)
  next
    case 3
    let ?q = "q\<lparr>generationX := generationX q + 1\<rparr>" and ?ts = "ts[t := Holding Mode_X]"
    have z: "w_n q = 0" "r_n q = 0" "W_n q = 0" "R_n q = 0" using 3(2) nn by (simp_all add: X_legal_def)
    have "g \<le> generationXExit q" using generation_bound [OF c assms(2)] assms(3) by simp
    moreover have "generationX q = generationXExit q + num (holds Mode_X) ts" using c by (simp only: counted_def)
    ultimately have x: "num (holds Mode_X) ts = 0" and g: "g = generationXExit q"
      using 3(1) num_nonneg [of "holds Mode_X" ts] by simp_all
    have "counted ?q ?ts" using c x g 3(1) assms(3) by (simp add: counted_def num_update [OF assms(2)])
    moreover have "exclusive ?q (num (holds Mode_X) ?ts)"
      using e x z assms(3) by (simp add: exclusive_def num_update [OF assms(2)])
    ultimately have "lock_inv ?q ?ts" by (simp add: lock_inv_def)
    with notify_returns [of "CHR ''w''" ?q] 3 z show ?thesis
      by (auto simp: safe_def w_to_X_loop_def Let_def fassert_def)
  qed
qed

lemma w_to_X_safe:
  assumes "lock_inv q ts" "t < length ts" "ts ! t = Holding Mode_w"
  shows "safe (w_to_X q) t ts"
proof -
  have c: "counted q ts" and e: "exclusive q (num (holds Mode_X) ts)" using assms(1) by (simp_all add: lock_inv_def)
  note rc = release_counts [OF assms] and nn = counted_nonneg [OF c]
  let ?q = "q\<lparr>X_n := X_n q + 1, w_n := w_n q - 1\<rparr>"
  let ?ts = "ts[t := Woken (Wait_X (generationX q))]"
  have "w_n q \<ge> 1" using c rc(1) num_nonneg [of "waits (at_generation (\<lambda>g. g < generationXExit q))" ts]
    by (simp add: counted_def)
  with e nn have z: "w_n q > 0" "R_n q = 0" "W_n q = 0" "num (holds Mode_X) ts = 0" by (auto simp: exclusive_def)
  then have g: "generationX q = generationXExit q" using c by (simp add: counted_def)
  have "counted ?q ?ts" using c rc(2,3) g by (simp add: counted_def num_update [OF assms(2)])
  moreover have "exclusive ?q (num (holds Mode_X) ?ts)"
    using e rc(3) z by (simp add: exclusive_def num_update [OF assms(2)])
  ultimately have "safe (w_to_X_loop (generationX q) ?q) t ?ts"
    using w_to_X_loop_safe [of ?q ?ts t "generationX q"] assms(2) by (simp add: lock_inv_def)
  then show ?thesis using z by (simp add: safe_update w_to_X_def Let_def fassert_def)
qed

subsection \<open>Every reachable state\<close>

lemma resume_safe:
  assumes "lock_inv q ts" "t < length ts" "ts ! t = Woken p"
  shows "safe (resume e p q) t ts"
proof (cases p)
  case Wait_r
  with acquire_ops_safe [OF assms(1,2)] assms(3) show ?thesis by (simp add: neutral_def)
next
  case Wait_w
  with acquire_ops_safe [OF assms(1,2)] assms(3) show ?thesis by (simp add: neutral_def)
next
  case Wait_R
  with acquire_ops_safe [OF assms(1,2)] assms(3) show ?thesis by (simp add: neutral_def)
next
  case Wait_R_try
  with acquire_ops_safe [OF assms(1,2)] assms(3) show ?thesis by (simp add: neutral_def)
next
  case Wait_W
  with lock_W_loop_safe [OF assms] show ?thesis by simp
next
  case Wait_W_try
  with lock_W_loop_safe [OF assms] show ?thesis by simp
next
  case Wait_U
  with R_to_W_loop_safe [OF assms(1,2)] assms(3) show ?thesis by simp
next
  case (Wait_X g)
  with w_to_X_loop_safe [OF assms(1,2)] assms(3) show ?thesis by simp
next
  case (Wait_X_exit g)
  with w_to_X_exit_loop_safe [OF assms] show ?thesis by simp
qed

lemma call_idle_safe:
  assumes "lock_inv q ts" "t < length ts" "ts ! t = Idle" "call_idle c q = Some m"
  shows "safe m t ts"
  using assms(4) acquire_ops_safe [OF assms(1,2)] lock_W_safe [OF assms(1-3)] assms(3)
  by (cases c) (auto simp: neutral_def)

lemma call_holding_safe:
  assumes "lock_inv q ts" "t < length ts" "ts ! t = Holding h" "call_holding c h q = Some m"
  shows "safe m t ts \<or> m = Inl (FAssert 16208) \<and> c = Upgrade \<and> h = Mode_R \<and> U_n q = 1"
proof (cases c)
  case Unlock
  with unlock_safe [OF assms(1-3)] assms(4) show ?thesis by simp
next
  case Downgrade
  with W_to_R_safe [OF assms(1,2)] assms(3,4) show ?thesis by (auto split: if_splits)
next
  case Upgrade
  with R_to_W_safe [OF assms(1,2)] assms(3,4) show ?thesis by (auto split: if_splits)
next
  case To_X
  with w_to_X_safe [OF assms(1,2)] assms(3,4) show ?thesis by (auto split: if_splits)
next
  case From_X
  with X_to_w_safe [OF assms(1,2)] assms(3,4) show ?thesis by (auto split: if_splits)
qed (use assms(4) in simp_all)

lemma run_call_safe:
  assumes "lock_inv q ts" "t < length ts" "run_call c (ts ! t) q = Some m"
  shows "safe m t ts \<or> m = Inl (FAssert 16208) \<and> c = Upgrade \<and> ts ! t = Holding Mode_R \<and> U_n q = 1"
proof (cases "ts ! t")
  case Idle
  with call_idle_safe [OF assms(1,2)] assms(3) show ?thesis by (simp add: run_call_def)
next
  case (Holding h)
  with call_holding_safe [OF assms(1,2)] assms(3) show ?thesis by (simp add: run_call_def)
next
  case (Asleep p)
  with assms(3) show ?thesis by (simp add: run_call_def)
next
  case (Woken p)
  with resume_safe [OF assms(1,2)] assms(3) show ?thesis by (auto simp: run_call_def split: call.splits)
qed

text \<open>A step of a thread that returns: the atomic part of the call, then the notifications.\<close>

lemma thread_stepE:
  assumes "thread_step pick t c s = Some (Inr s')"
  obtains q st ns where "t < length (threads s)" "run_call c (threads s ! t) (lk s) = Some (Inr (q, st, ns))"
    "s' = \<lparr>lk = q, threads = fold (deliver pick) ns ((threads s)[t := st])\<rparr>"
proof -
  from assms have t: "t < length (threads s)" by (simp add: thread_step_def split: if_splits)
  from assms t obtain m where m: "run_call c (threads s ! t) (lk s) = Some m"
    by (cases "run_call c (threads s ! t) (lk s)") (simp_all add: thread_step_def)
  show ?thesis
  proof (cases m)
    case (Inl e)
    with assms t m show ?thesis by (simp add: thread_step_def)
  next
    case (Inr o')
    obtain q st ns where "o' = (q, st, ns)" by (cases o')
    with assms t m Inr show ?thesis by (intro that [of q st ns]) (simp_all add: thread_step_def)
  qed
qed

lemma lock_inv_step:
  assumes "lock_inv (lk s) (threads s)" "thread_step pick t c s = Some (Inr s')"
  shows "lock_inv (lk s') (threads s')"
proof -
  from thread_stepE [OF assms(2)] obtain q st ns where s: "t < length (threads s)"
    "run_call c (threads s ! t) (lk s) = Some (Inr (q, st, ns))"
    "s' = \<lparr>lk = q, threads = fold (deliver pick) ns ((threads s)[t := st])\<rparr>" .
  from run_call_safe [OF assms(1) s(1,2)] have "lock_inv q ((threads s)[t := st])" by (simp add: safe_def)
  then show ?thesis by (simp add: s(3) lock_inv_deliver)
qed

lemma reachable_lock_inv: "reachable n s \<Longrightarrow> lock_inv (lk s) (threads s)"
proof (induction rule: reachable.induct)
  case start
  show ?case by (simp add: initial_def lock_inv_initial)
next
  case (step s pick t c s')
  then show ?case by (blast intro: lock_inv_step)
next
  case (wakeup s t p)
  then show ?case by (simp add: lock_inv_Woken)
qed

text \<open>The matrix of the comment at the head of \<open>qlock.h\<close>: the modes two threads may hold together.\<close>

fun compatible :: "mode \<Rightarrow> mode \<Rightarrow> bool" where
  "compatible Mode_r m = (m = Mode_r \<or> m = Mode_w \<or> m = Mode_R)"
| "compatible Mode_w m = (m = Mode_r \<or> m = Mode_w)"
| "compatible Mode_R m = (m = Mode_r \<or> m = Mode_R)"
| "compatible Mode_W m = False"
| "compatible Mode_X m = False"

lemma num_ge_two: "i < length ts \<Longrightarrow> j < length ts \<Longrightarrow> i \<noteq> j \<Longrightarrow> P (ts ! i) \<Longrightarrow> P (ts ! j) \<Longrightarrow> 2 \<le> num P ts"
proof -
  assume *: "i < length ts" "j < length ts" "i \<noteq> j" "P (ts ! i)" "P (ts ! j)"
  show ?thesis
  proof (cases "\<exists>s. \<not> P s")
    case True
    then obtain s where "\<not> P s" by blast
    with * num_update [of i ts P s] num_pos [of j "ts[i := s]" P] show ?thesis by simp
  next
    case False
    then have "filter P ts = ts" by simp
    with * show ?thesis by (auto simp: num_def)
  qed
qed

lemma held_counts:
  assumes "counted q ts" "t < length ts" "ts ! t = Holding m"
  shows "m = Mode_r \<Longrightarrow> 1 \<le> r_n q" "m = Mode_w \<Longrightarrow> 1 \<le> w_n q" "m = Mode_R \<Longrightarrow> 1 \<le> R_n q"
    "m = Mode_W \<Longrightarrow> 1 \<le> W_n q" "m = Mode_X \<Longrightarrow> 1 \<le> num (holds Mode_X) ts"
proof -
  have "1 \<le> num (holds m) ts" using num_pos [OF assms(2), of "holds m"] assms(3) by simp
  then show "m = Mode_r \<Longrightarrow> 1 \<le> r_n q" "m = Mode_w \<Longrightarrow> 1 \<le> w_n q" "m = Mode_R \<Longrightarrow> 1 \<le> R_n q"
    "m = Mode_W \<Longrightarrow> 1 \<le> W_n q" "m = Mode_X \<Longrightarrow> 1 \<le> num (holds Mode_X) ts"
    using assms(1) num_nonneg [of "waits (\<lambda>p. p = Wait_U)" ts]
      num_nonneg [of "waits (at_generation (\<lambda>g. g < generationXExit q))" ts]
    by (simp_all add: counted_def)
qed

lemma held_compatible:
  assumes "lock_inv q ts" "i < length ts" "j < length ts" "i \<noteq> j" "ts ! i = Holding a" "ts ! j = Holding b"
  shows "compatible a b"
proof -
  have c: "counted q ts" and e: "exclusive q (num (holds Mode_X) ts)" using assms(1) by (simp_all add: lock_inv_def)
  have two: "a = b \<Longrightarrow> 2 \<le> num (holds a) ts"
    using num_ge_two [OF assms(2-4), of "holds a"] assms(5,6) by simp
  have W: "\<not> (a = Mode_W \<and> b = Mode_W)" "\<not> (a = Mode_X \<and> b = Mode_X)"
    using two c e by (auto simp: counted_def exclusive_def)
  show ?thesis
    using W e counted_nonneg [OF c] held_counts [OF c assms(2,5)] held_counts [OF c assms(3,6)]
    by (cases a; cases b) (auto simp: exclusive_def)
qed

text \<open>
  (C25) Mutual exclusion of the quad lock: in every state that any number of threads can reach, with any
  interleaving of the operations, upgrades and spurious wake-ups, two threads hold the lock together
  only in modes the table of \<open>qlock.h\<close> allows; in particular \<open>W\<close> and \<open>X\<close> exclude everything.
\<close>

theorem qlock_mutual_exclusion:
  assumes "reachable n s" "i < length (threads s)" "j < length (threads s)" "i \<noteq> j"
    "threads s ! i = Holding a" "threads s ! j = Holding b"
  shows "compatible a b"
  by (rule held_compatible [OF reachable_lock_inv [OF assms(1)] assms(2-6)])

text \<open>Concrete runs: one step each, \<open>notify_one\<close> waking the first waiting thread.\<close>

lemmas run_simps = thread_step_def run_call_def initial_def QLock_def legal_defs fassert_def Let_def
  lock_r_def lock_w_def lock_R_def lock_W_def lock_W_loop_def lock_W_try_def lock_W_try_loop_def
  unlock_r_def unlock_W_def R_to_W_def R_to_W_loop_def notifyWeUnlocked_def notify_if_def i_block_def
  wake_one_def sleepers_def

definition first_pick :: "cond \<Rightarrow> nat" where
  "first_pick c = 0"

theorem qlock_mutual_exclusion_witness:
  "reachable 2 \<lparr>lk = QLock\<lparr>r_n := 1, w_n := 1\<rparr>, threads = [Holding Mode_r, Holding Mode_w]\<rparr> \<and> compatible Mode_r Mode_w"
proof -
  have s1: "thread_step first_pick 0 Lock_r (initial 2) = Some (Inr \<lparr>lk = QLock\<lparr>r_n := 1\<rparr>, threads = [Holding Mode_r, Idle]\<rparr>)"
    by (simp add: run_simps numeral_2_eq_2)
  have s2: "thread_step first_pick 1 Lock_w \<lparr>lk = QLock\<lparr>r_n := 1\<rparr>, threads = [Holding Mode_r, Idle]\<rparr> =
      Some (Inr \<lparr>lk = QLock\<lparr>r_n := 1, w_n := 1\<rparr>, threads = [Holding Mode_r, Holding Mode_w]\<rparr>)"
    by (simp add: run_simps)
  from reachable.step [OF reachable.step [OF reachable.start s1] s2]
  have r: "reachable 2 \<lparr>lk = QLock\<lparr>r_n := 1, w_n := 1\<rparr>, threads = [Holding Mode_r, Holding Mode_w]\<rparr>" .
  with qlock_mutual_exclusion [OF r, of 0 1 Mode_r Mode_w] show ?thesis by simp
qed

text \<open>
  (C27) No assertion of \<open>qlock.h\<close> fails, with one exception: \<open>R_to_W\<close> aborts with code 16208 when another
  thread is upgrading already. In every reachable state a call that ends in a failed assertion is an
  upgrade of a global reader while a different thread waits for its own upgrade.
\<close>

theorem qlock_assertions_hold:
  assumes "reachable n s" "thread_step pick t c s = Some (Inl err)"
  shows "err = FAssert 16208 \<and> c = Upgrade \<and> threads s ! t = Holding Mode_R \<and>
    (\<exists>u < length (threads s). u \<noteq> t \<and> (threads s ! u = Asleep Wait_U \<or> threads s ! u = Woken Wait_U))"
proof -
  note inv = reachable_lock_inv [OF assms(1)]
  from assms(2) obtain m where m: "t < length (threads s)" "run_call c (threads s ! t) (lk s) = Some m" "m = Inl err"
    by (cases "run_call c (threads s ! t) (lk s)"; cases "run_call c (threads s ! t) (lk s)")
      (auto simp: thread_step_def bindE_def split: if_splits option.splits sum.splits)
  have r: "err = FAssert 16208" "c = Upgrade" "threads s ! t = Holding Mode_R" "U_n (lk s) = 1"
    using run_call_safe [OF inv m(1,2)] m(3) by (auto simp: safe_def)
  then have "num (waits (\<lambda>p. p = Wait_U)) (threads s) \<noteq> 0" using inv by (simp add: lock_inv_def counted_def)
  then obtain u where u: "u < length (threads s)" "waits (\<lambda>p. p = Wait_U) (threads s ! u)"
    by (auto simp: num_def filter_empty_conv in_set_conv_nth)
  then have "threads s ! u = Asleep Wait_U \<or> threads s ! u = Woken Wait_U" by (cases "threads s ! u") auto
  with u(1) r show ?thesis by (metis thread_state.distinct(7) thread_state.distinct(9))
qed

theorem qlock_assertions_hold_witness:
  "\<exists>s. reachable 2 s \<and> thread_step first_pick 1 Upgrade s = Some (Inl (FAssert 16208)) \<and>
    (\<exists>u < length (threads s). u \<noteq> 1 \<and> (threads s ! u = Asleep Wait_U \<or> threads s ! u = Woken Wait_U))"
proof -
  let ?s = "\<lparr>lk = QLock\<lparr>R_n := 2, U_n := 1, numPendingGlobalWrites := 1\<rparr>, threads = [Asleep Wait_U, Holding Mode_R]\<rparr>"
  have s1: "thread_step first_pick 0 Lock_R (initial 2) = Some (Inr \<lparr>lk = QLock\<lparr>R_n := 1\<rparr>, threads = [Holding Mode_R, Idle]\<rparr>)"
    by (simp add: run_simps numeral_2_eq_2)
  have s2: "thread_step first_pick 1 Lock_R \<lparr>lk = QLock\<lparr>R_n := 1\<rparr>, threads = [Holding Mode_R, Idle]\<rparr> =
      Some (Inr \<lparr>lk = QLock\<lparr>R_n := 2\<rparr>, threads = [Holding Mode_R, Holding Mode_R]\<rparr>)"
    by (simp add: run_simps)
  have s3: "thread_step first_pick 0 Upgrade \<lparr>lk = QLock\<lparr>R_n := 2\<rparr>, threads = [Holding Mode_R, Holding Mode_R]\<rparr> = Some (Inr ?s)"
    by (simp add: run_simps)
  have r: "reachable 2 ?s"
    by (rule reachable.step [OF reachable.step [OF reachable.step [OF reachable.start s1] s2] s3])
  have f: "thread_step first_pick 1 Upgrade ?s = Some (Inl (FAssert 16208))" by (simp add: run_simps)
  from qlock_assertions_hold [OF r f] r f show ?thesis by blast
qed

end
