(* ===== verification/Q_Lock_Progress.thy ===== *)
theory Q_Lock_Progress
  imports Q_Lock_Safety
begin

text \<open>
  The progress of the quad lock of \<open>qlock.h\<close>. Every sleeping thread has a reason: what it waits for is
  not allowed, or another thread has been woken for it. All operations keep that, except a
  \<open>lock_W_try\<close> that gives up; so without those there is no deadlock, and with them a wake-up is lost.
\<close>

subsection \<open>Why a thread sleeps\<close>

lemma wake_cases: "wake c s = s \<or> (\<exists>p. s = Asleep p \<and> cond_of p = c \<and> wake c s = Woken p)"
  by (cases s) auto

text \<open>A notification leaves each thread alone or wakes it.\<close>

lemma length_deliver [simp]: "length (deliver pick n ts) = length ts"
  by (cases n) (simp_all add: wake_one_def Let_def)

lemma deliver_nth:
  assumes "j < length ts"
  shows "deliver pick n ts ! j = ts ! j \<or> (\<exists>p. ts ! j = Asleep p \<and> deliver pick n ts ! j = Woken p)"
proof (cases n)
  case (NotifyOne c)
  show ?thesis
  proof (rule wake_oneE [of c ts "pick c"])
    fix i assume "wake_one (pick c) c ts = ts[i := wake c (ts ! i)]"
    with assms NotifyOne wake_cases [of c "ts ! j"] show ?thesis by (cases "i = j") auto
  qed (simp add: NotifyOne)
next
  case (NotifyAll c)
  with assms wake_cases [of c "ts ! j"] show ?thesis by auto
qed

lemma set_deliver:
  "Asleep p \<in> set (deliver pick n ts) \<Longrightarrow> Asleep p \<in> set ts"
  "Woken p \<in> set ts \<Longrightarrow> Woken p \<in> set (deliver pick n ts)"
proof -
  assume "Asleep p \<in> set (deliver pick n ts)"
  then obtain j where j: "j < length ts" "deliver pick n ts ! j = Asleep p" by (auto simp: in_set_conv_nth)
  with deliver_nth [OF j(1), of pick n] have "ts ! j = Asleep p" by auto
  with j(1) show "Asleep p \<in> set ts" by (metis nth_mem)
next
  assume "Woken p \<in> set ts"
  then obtain j where j: "j < length ts" "ts ! j = Woken p" by (auto simp: in_set_conv_nth)
  with deliver_nth [OF j(1), of pick n] have "deliver pick n ts ! j = Woken p" by auto
  with j(1) show "Woken p \<in> set (deliver pick n ts)" by (metis nth_mem length_deliver)
qed

lemma wake_one_wakes:
  assumes "Asleep p \<in> set ts" "cond_of p = c"
  shows "\<exists>p'. cond_of p' = c \<and> Woken p' \<in> set (wake_one k c ts)"
proof -
  from assms(1) obtain j where "j < length ts" "ts ! j = Asleep p" by (auto simp: in_set_conv_nth)
  with assms(2) have j: "j \<in> set (sleepers c ts)" by (auto simp: sleepers_def)
  show ?thesis
  proof (rule wake_oneE [of c ts k])
    fix i assume i: "i \<in> set (sleepers c ts)" "wake_one k c ts = ts[i := wake c (ts ! i)]"
    then have "wake c (ts ! i) \<noteq> ts ! i" by (simp add: sleepers_def)
    with wake_cases [of c "ts ! i"] obtain p' where p': "cond_of p' = c" "wake c (ts ! i) = Woken p'" by blast
    have "Woken p' \<in> set (ts[i := Woken p'])" using sleepers_less [OF i(1)] by (rule set_update_memI)
    with p' i(2) show ?thesis by auto
  qed (use j in simp)
qed

lemma set_fold_deliver:
  "Asleep p \<in> set (fold (deliver pick) ns ts) \<Longrightarrow> Asleep p \<in> set ts"
  "Woken p \<in> set ts \<Longrightarrow> Woken p \<in> set (fold (deliver pick) ns ts)"
  by (induction ns arbitrary: ts) (auto dest: set_deliver)

lemma notify_all_wakes:
  "NotifyAll (cond_of p) \<in> set ns \<Longrightarrow> Asleep p \<notin> set (fold (deliver pick) ns ts)"
proof (induction ns arbitrary: ts)
  case Nil
  then show ?case by simp
next
  case (Cons n ns)
  have "Asleep p \<notin> set (map (wake (cond_of p)) ts)"
  proof
    assume "Asleep p \<in> set (map (wake (cond_of p)) ts)"
    then obtain s where "wake (cond_of p) s = Asleep p" by auto
    then show False by (cases s) (auto split: if_splits)
  qed
  then have "Asleep p \<notin> set (fold (deliver pick) ns (map (wake (cond_of p)) ts))"
    using set_fold_deliver(1) by blast
  then show ?case using Cons by (cases "NotifyAll (cond_of p) \<in> set ns") auto
qed

lemma notify_one_wakes:
  assumes "NotifyOne c \<in> set ns" "Asleep p \<in> set ts" "cond_of p = c"
  shows "\<exists>p'. cond_of p' = c \<and> Woken p' \<in> set (fold (deliver pick) ns ts)"
  using assms(1,2)
proof (induction ns arbitrary: ts)
  case Nil
  then show ?case by simp
next
  case (Cons n ns)
  show ?case
  proof (cases "Asleep p \<in> set (deliver pick n ts)")
    case True
    show ?thesis
    proof (cases "n = NotifyOne c")
      case True
      with wake_one_wakes [OF Cons.prems(2) assms(3), of "pick c"] show ?thesis
        using set_fold_deliver(2) by auto
    next
      case False
      with Cons.prems(1) Cons.IH [OF _ True] show ?thesis by simp
    qed
  next
    case False
    have "Woken p \<in> set (deliver pick n ts)"
    proof -
      from Cons.prems(2) obtain j where j: "j < length ts" "ts ! j = Asleep p" by (auto simp: in_set_conv_nth)
      with deliver_nth [OF j(1), of pick n]
      have "deliver pick n ts ! j = Asleep p \<or> deliver pick n ts ! j = Woken p" by auto
      with False j show ?thesis by (metis nth_mem length_deliver)
    qed
    with assms(3) show ?thesis using set_fold_deliver(2) by auto
  qed
qed

text \<open>
  The reason each sleeping thread has: the condition it waits for is false, or another thread is
  already on its way. \<open>me\<close> is a mode about to be given back: threads it blocks need no reason yet.
\<close>

definition blocks :: "char \<Rightarrow> char \<Rightarrow> bool" where
  "blocks me them \<longleftrightarrow> i_block me them = Inr True"

definition ready_or_blocked :: "(char \<Rightarrow> bool) \<Rightarrow> qlock \<Rightarrow> thread_state list \<Rightarrow> bool" where
  "ready_or_blocked B q ts \<longleftrightarrow>
     (Asleep Wait_r \<in> set ts \<longrightarrow> \<not> r_legal q \<or> B CHR ''r'') \<and>
     (Asleep Wait_w \<in> set ts \<longrightarrow> \<not> w_legal q \<or> B CHR ''w'') \<and>
     (Asleep Wait_R \<in> set ts \<or> Asleep Wait_R_try \<in> set ts \<longrightarrow> \<not> R_legal q \<or> B CHR ''R'')"

definition generations_ok :: "qlock \<Rightarrow> thread_state list \<Rightarrow> bool" where
  "generations_ok q ts \<longleftrightarrow>
     (\<forall>g. Asleep (Wait_X g) \<in> set ts \<longrightarrow> g = generationXExit q) \<and>
     (\<forall>g. Asleep (Wait_X_exit g) \<in> set ts \<longrightarrow> g = generationXExit q)"

definition exits_ok :: "qlock \<Rightarrow> thread_state list \<Rightarrow> bool" where
  "exits_ok q ts \<longleftrightarrow>
     (\<forall>g. Asleep (Wait_X_exit g) \<in> set ts \<or> Woken (Wait_X_exit g) \<in> set ts \<longrightarrow> g < generationX q)"

definition writer_reason :: "qlock \<Rightarrow> thread_state list \<Rightarrow> bool" where
  "writer_reason q ts \<longleftrightarrow> (Asleep Wait_W \<in> set ts \<or> Asleep Wait_W_try \<in> set ts \<longrightarrow>
     \<not> W_legal q \<or> Woken Wait_W \<in> set ts \<or> Woken Wait_W_try \<in> set ts)"

definition upgrade_reason :: "qlock \<Rightarrow> thread_state list \<Rightarrow> bool" where
  "upgrade_reason q ts \<longleftrightarrow> (Asleep Wait_U \<in> set ts \<longrightarrow> W_n q + R_n q + w_n q + r_n q > 1)"

definition X_reason :: "qlock \<Rightarrow> thread_state list \<Rightarrow> bool" where
  "X_reason q ts \<longleftrightarrow> (\<forall>g. Asleep (Wait_X g) \<in> set ts \<longrightarrow>
     \<not> X_legal q \<or> g < generationX q \<or> Woken (Wait_X g) \<in> set ts)"

definition reasons :: "qlock \<Rightarrow> thread_state list \<Rightarrow> bool" where
  "reasons q ts \<longleftrightarrow> ready_or_blocked (\<lambda>_. False) q ts \<and> generations_ok q ts \<and> exits_ok q ts \<and>
     writer_reason q ts \<and> upgrade_reason q ts \<and> X_reason q ts"

lemma notify_if_returns:
  assumes "me \<in> {CHR ''r'', CHR ''w'', CHR ''R'', CHR ''W'', CHR ''X''}"
  shows "notify_if l me them n = Inr (if l \<and> blocks me them then [n] else [])"
proof -
  have "\<exists>b. i_block me them = Inr b" using assms by (auto simp: i_block_def)
  then show ?thesis by (auto simp: notify_if_def blocks_def)
qed

text \<open>What \<open>notifyWeUnlocked\<close> sends.\<close>

lemma notifyWeUnlocked_sends:
  assumes "notifyWeUnlocked me q = Inr ns" "me \<in> {CHR ''r'', CHR ''w'', CHR ''R'', CHR ''W'', CHR ''X''}"
    and upg: "U_n q \<noteq> 0 \<longrightarrow> areQueueJumpingGlobalWritesPending q"
    and nonneg: "0 \<le> r_n q" "0 \<le> w_n q" "0 \<le> R_n q" "0 \<le> W_n q" "0 \<le> X_n q"
  shows "me = CHR ''X'' \<Longrightarrow> NotifyAll CX \<in> set ns"
    "U_n q \<noteq> 0 \<Longrightarrow> r_n q + w_n q + W_n q + X_n q = 0 \<Longrightarrow> R_n q = 1 \<Longrightarrow> NotifyOne CU \<in> set ns"
    "X_legal q \<Longrightarrow> NotifyOne CX \<in> set ns"
    "W_legal q \<Longrightarrow> NotifyOne CW \<in> set ns"
    "r_legal q \<Longrightarrow> blocks me CHR ''r'' \<Longrightarrow> NotifyAll Cr \<in> set ns"
    "w_legal q \<Longrightarrow> blocks me CHR ''w'' \<Longrightarrow> NotifyAll Cw \<in> set ns"
    "R_legal q \<Longrightarrow> blocks me CHR ''R'' \<Longrightarrow> NotifyAll CR \<in> set ns"
proof -
  let ?up = "U_n q \<noteq> 0 \<and> r_n q + w_n q + W_n q + X_n q = 0 \<and> R_n q = 1"
  have W0: "W_n q = 0" using assms(1) by (simp add: notifyWeUnlocked_def fassert_def split: if_splits)
  have all: "i_block me CHR ''X'' = Inr True" "i_block me CHR ''W'' = Inr True"
    using assms(2) by (auto simp: i_block_def)
  have split: "?up \<and> ns = (if me = CHR ''X'' then [NotifyAll CX] else []) @ [NotifyOne CU] \<or>
    \<not> ?up \<and> (X_legal q \<longrightarrow> NotifyOne CX \<in> set ns) \<and> (W_legal q \<longrightarrow> NotifyOne CW \<in> set ns) \<and>
    (me = CHR ''X'' \<longrightarrow> NotifyAll CX \<in> set ns) \<and>
    (areQueueJumpingGlobalWritesPending q \<or>
      (R_legal_ignore_greed q \<longrightarrow> blocks me CHR ''R'' \<longrightarrow> NotifyAll CR \<in> set ns) \<and>
      (w_legal_ignore_greed q \<longrightarrow> blocks me CHR ''w'' \<longrightarrow> NotifyAll Cw \<in> set ns) \<and>
      (r_legal_ignore_greed q \<longrightarrow> blocks me CHR ''r'' \<longrightarrow> NotifyAll Cr \<in> set ns))"
  proof (cases ?up)
    case True
    with assms(1) W0 show ?thesis by (simp add: notifyWeUnlocked_def fassert_def Let_def)
  next
    case False
    define x3 where "x3 = (if R_legal_ignore_greed q \<and> blocks me CHR ''R'' then [NotifyAll CR] else [])"
    define x4 where "x4 = (if w_legal_ignore_greed q \<and> blocks me CHR ''w'' then [NotifyAll Cw] else [])"
    define x5 where "x5 = (if r_legal_ignore_greed q \<and> blocks me CHR ''r'' then [NotifyAll Cr] else [])"
    define x1 where "x1 = (if X_legal q then [NotifyOne CX] else [])"
    define x2 where "x2 = (if W_legal q then [NotifyOne CW] else [])"
    define x0 where "x0 = (if me = CHR ''X'' then [NotifyAll CX] else [])"
    have ns: "ns = (if x2 \<noteq> [] \<and> areQueueJumpingGlobalWritesPending q then x0 @ x1 @ x2 else x0 @ x1 @ x2 @ x3 @ x4 @ x5)"
    proof -
      have "notifyWeUnlocked me q = Inr (if x2 \<noteq> [] \<and> areQueueJumpingGlobalWritesPending q then x0 @ x1 @ x2 else x0 @ x1 @ x2 @ x3 @ x4 @ x5)"
        unfolding notifyWeUnlocked_def Let_def if_not_P [OF False] notify_if_returns [OF assms(2)]
          x0_def [symmetric] x3_def [symmetric] x4_def [symmetric] x5_def [symmetric]
        by (simp add: W0 fassert_def blocks_def all x1_def x2_def)
      with assms(1) show ?thesis by simp
    qed
    show ?thesis unfolding ns using False by (auto simp: x0_def x1_def x2_def x3_def x4_def x5_def)
  qed
  have up_ill: "\<not> X_legal q" "\<not> W_legal q" "\<not> r_legal q" "\<not> w_legal q" "\<not> R_legal q" if ?up
    using that upg nonneg by (auto simp: legal_defs)
  show "me = CHR ''X'' \<Longrightarrow> NotifyAll CX \<in> set ns"
    "U_n q \<noteq> 0 \<Longrightarrow> r_n q + w_n q + W_n q + X_n q = 0 \<Longrightarrow> R_n q = 1 \<Longrightarrow> NotifyOne CU \<in> set ns"
    using split by auto
  show "X_legal q \<Longrightarrow> NotifyOne CX \<in> set ns" "W_legal q \<Longrightarrow> NotifyOne CW \<in> set ns"
    using split up_ill by auto
  show "r_legal q \<Longrightarrow> blocks me CHR ''r'' \<Longrightarrow> NotifyAll Cr \<in> set ns"
    "w_legal q \<Longrightarrow> blocks me CHR ''w'' \<Longrightarrow> NotifyAll Cw \<in> set ns"
    "R_legal q \<Longrightarrow> blocks me CHR ''R'' \<Longrightarrow> NotifyAll CR \<in> set ns"
    using split up_ill by (auto simp: r_legal_def w_legal_def R_legal_def)
qed

lemma cond_of_iff [simp]:
  "cond_of p = CU \<longleftrightarrow> p = Wait_U" "cond_of p = CW \<longleftrightarrow> p = Wait_W \<or> p = Wait_W_try"
  "cond_of p = CX \<longleftrightarrow> (\<exists>g. p = Wait_X g \<or> p = Wait_X_exit g)"
  by (cases p; simp)+

lemma woken_fold_deliver:
  "Woken p \<in> set (fold (deliver pick) ns ts) \<Longrightarrow> Woken p \<in> set ts \<or> Asleep p \<in> set ts"
proof (induction ns arbitrary: ts)
  case Nil
  then show ?case by simp
next
  case (Cons n ns)
  then have "Woken p \<in> set (deliver pick n ts) \<or> Asleep p \<in> set (deliver pick n ts)" by simp
  moreover have "Woken p \<in> set ts \<or> Asleep p \<in> set ts" if w: "Woken p \<in> set (deliver pick n ts)"
  proof -
    from w obtain j where j: "j < length ts" "deliver pick n ts ! j = Woken p" by (auto simp: in_set_conv_nth)
    with deliver_nth [OF j(1), of pick n] have "ts ! j = Woken p \<or> ts ! j = Asleep p" by auto
    with j(1) show ?thesis by (metis nth_mem)
  qed
  ultimately show ?case using set_deliver(1) by blast
qed

lemma two_waiters:
  assumes "Asleep p \<in> set ts" "Woken p \<in> set ts"
  shows "2 \<le> num (waits (\<lambda>x. x = p)) ts"
proof -
  from assms obtain i j where "i < length ts" "ts ! i = Asleep p" "j < length ts" "ts ! j = Woken p"
    by (auto simp: in_set_conv_nth)
  then show ?thesis by (intro num_ge_two [of i ts j]) auto
qed

lemma one_waiter: "s \<in> set ts \<Longrightarrow> P s \<Longrightarrow> 1 \<le> num P ts"
  using num_pos [of _ ts P] by (fastforce simp: in_set_conv_nth)

lemma upgrade_pending: "counted q ts \<Longrightarrow> U_n q \<noteq> 0 \<longrightarrow> areQueueJumpingGlobalWritesPending q"
proof -
  assume c: "counted q ts"
  have "num (waits (\<lambda>p. p = Wait_U)) ts \<le> num (waits pending_write) ts"
  proof (rule num_mono)
    fix s show "waits (\<lambda>p. p = Wait_U) s \<Longrightarrow> waits pending_write s" by (cases s) auto
  qed
  moreover have "U_n q = num (waits (\<lambda>p. p = Wait_U)) ts" "numPendingGlobalWrites q = num (waits pending_write) ts"
    using c by (simp_all only: counted_def)
  ultimately show ?thesis using num_nonneg [of "waits (\<lambda>p. p = Wait_U)" ts]
    by (simp add: areQueueJumpingGlobalWritesPending_def)
qed

lemma notified_ready:
  assumes "lock_inv q ts" "notifyWeUnlocked me q = Inr ns" "me \<in> {CHR ''r'', CHR ''w'', CHR ''R'', CHR ''W'', CHR ''X''}"
    "ready_or_blocked (blocks me) q ts"
  shows "ready_or_blocked (\<lambda>_. False) q (fold (deliver pick) ns ts)"
proof -
  have c: "counted q ts" using assms(1) by (simp add: lock_inv_def)
  note sends = notifyWeUnlocked_sends [OF assms(2,3) upgrade_pending [OF c] counted_nonneg(1-5) [OF c]]
  note all = notify_all_wakes [of _ ns pick ts]
  have "\<not> r_legal q" if "Asleep Wait_r \<in> set (fold (deliver pick) ns ts)"
    using that sends(5) all [of Wait_r] set_fold_deliver(1) [OF that] assms(4) by (auto simp: ready_or_blocked_def)
  moreover have "\<not> w_legal q" if "Asleep Wait_w \<in> set (fold (deliver pick) ns ts)"
    using that sends(6) all [of Wait_w] set_fold_deliver(1) [OF that] assms(4) by (auto simp: ready_or_blocked_def)
  moreover have "\<not> R_legal q" if "Asleep p \<in> set (fold (deliver pick) ns ts)" "p = Wait_R \<or> p = Wait_R_try" for p
    using that sends(7) all [of p] set_fold_deliver(1) [OF that(1)] assms(4) by (auto simp: ready_or_blocked_def)
  ultimately show ?thesis by (auto simp: ready_or_blocked_def)
qed

lemma notified_writer_upgrade:
  assumes "lock_inv q ts" "notifyWeUnlocked me q = Inr ns" "me \<in> {CHR ''r'', CHR ''w'', CHR ''R'', CHR ''W'', CHR ''X''}"
  shows "writer_reason q (fold (deliver pick) ns ts)" "upgrade_reason q (fold (deliver pick) ns ts)"
proof -
  let ?ts = "fold (deliver pick) ns ts"
  have c: "counted q ts" and e: "exclusive q (num (holds Mode_X) ts)" using assms(1) by (simp_all add: lock_inv_def)
  note nn = counted_nonneg [OF c]
  note sends = notifyWeUnlocked_sends [OF assms(2,3) upgrade_pending [OF c] nn(1-5)]
  have "\<not> W_legal q \<or> Woken Wait_W \<in> set ?ts \<or> Woken Wait_W_try \<in> set ?ts"
    if a: "Asleep p \<in> set ?ts" "p = Wait_W \<or> p = Wait_W_try" for p
  proof (cases "W_legal q")
    case True
    from notify_one_wakes [OF sends(4) [OF True] set_fold_deliver(1) [OF a(1)], of pick] a(2) show ?thesis by auto
  qed simp
  then show "writer_reason q ?ts" by (auto simp: writer_reason_def)
  have "W_n q + R_n q + w_n q + r_n q > 1" if a: "Asleep Wait_U \<in> set ?ts"
  proof (rule ccontr)
    assume less: "\<not> W_n q + R_n q + w_n q + r_n q > 1"
    have "1 \<le> num (waits (\<lambda>p. p = Wait_U)) ts" using set_fold_deliver(1) [OF a] by (intro one_waiter) auto
    then have U: "U_n q \<ge> 1" using c by (simp add: counted_def)
    with less nn e have "U_n q \<noteq> 0" "R_n q = 1" "r_n q + w_n q + W_n q + X_n q = 0" by (auto simp: exclusive_def)
    with sends(2) have "NotifyOne CU \<in> set ns" by simp
    from notify_one_wakes [OF this set_fold_deliver(1) [OF a], of pick] have "Woken Wait_U \<in> set ?ts" by auto
    with two_waiters [OF a] have "2 \<le> num (waits (\<lambda>p. p = Wait_U)) ts" by (simp add: num_fold_deliver)
    with c e show False by (simp add: counted_def exclusive_def)
  qed
  then show "upgrade_reason q ?ts" by (simp add: upgrade_reason_def)
qed

lemma notified_X:
  assumes "lock_inv q ts" "notifyWeUnlocked me q = Inr ns" "me \<in> {CHR ''r'', CHR ''w'', CHR ''R'', CHR ''W'', CHR ''X''}"
    "me = CHR ''X'' \<or> generations_ok q ts" "exits_ok q ts"
  shows "generations_ok q (fold (deliver pick) ns ts)" "exits_ok q (fold (deliver pick) ns ts)"
    "X_reason q (fold (deliver pick) ns ts)"
proof -
  let ?ts = "fold (deliver pick) ns ts"
  have c: "counted q ts" using assms(1) by (simp add: lock_inv_def)
  have c': "counted q ?ts" using assms(1) lock_inv_deliver [of q pick ns ts] by (simp add: lock_inv_def)
  note nn = counted_nonneg [OF c]
  note sends = notifyWeUnlocked_sends [OF assms(2,3) upgrade_pending [OF c] nn(1-5)]
  show ex: "exits_ok q ?ts"
    using assms(5) set_fold_deliver(1) [of _ pick ns ts] woken_fold_deliver [of _ pick ns ts]
    unfolding exits_ok_def by blast
  show gen: "generations_ok q ?ts"
  proof (cases "me = CHR ''X''")
    case True
    with sends(1) notify_all_wakes [of _ ns pick ts] show ?thesis by (simp add: generations_ok_def)
  next
    case False
    with assms(4) show ?thesis using set_fold_deliver(1) [of _ pick ns ts] by (auto simp: generations_ok_def)
  qed
  show "X_reason q ?ts" unfolding X_reason_def
  proof (intro allI impI)
    fix g assume a: "Asleep (Wait_X g) \<in> set ?ts"
    show "\<not> X_legal q \<or> g < generationX q \<or> Woken (Wait_X g) \<in> set ?ts"
    proof (cases "X_legal q \<and> \<not> g < generationX q")
      case True
      from gen a have g: "g = generationXExit q" by (simp add: generations_ok_def)
      from notify_one_wakes [OF sends(3) set_fold_deliver(1) [OF a], of pick] True
      obtain p' where p': "cond_of p' = CX" "Woken p' \<in> set ?ts" by auto
      then obtain g' where g': "p' = Wait_X g' \<or> p' = Wait_X_exit g'" by auto
      then have at: "waits (at_generation P) (Woken p') = P g'" for P by auto
      from p'(2) obtain j where j: "j < length ?ts" "?ts ! j = Woken p'" by (auto simp: in_set_conv_nth)
      have "g' \<le> generationXExit q" using generation_bound [OF c' j(1)] at j(2) by simp
      moreover have "\<not> g' < generationXExit q"
      proof
        assume "g' < generationXExit q"
        then have "waits (at_generation (\<lambda>g. g < generationXExit q)) (Woken p')" unfolding at .
        from one_waiter [of _ _ "waits (at_generation (\<lambda>g. g < generationXExit q))", OF p'(2) this]
        have "1 \<le> w_n q" using c' num_nonneg [of "holds Mode_w" ?ts] by (simp add: counted_def)
        with True nn show False by (simp add: X_legal_def)
      qed
      ultimately have "g' = g" using g by simp
      moreover have "p' \<noteq> Wait_X_exit g'" using ex p'(2) True \<open>g' = g\<close> by (auto simp: exits_ok_def)
      ultimately show ?thesis using g' p'(2) by auto
    qed auto
  qed
qed

lemma notify_reasons:
  assumes "lock_inv q ts" "notifyWeUnlocked me q = Inr ns" "me \<in> {CHR ''r'', CHR ''w'', CHR ''R'', CHR ''W'', CHR ''X''}"
    "ready_or_blocked (blocks me) q ts" "me = CHR ''X'' \<or> generations_ok q ts" "exits_ok q ts"
  shows "reasons q (fold (deliver pick) ns ts)"
  unfolding reasons_def
  using notified_ready [OF assms(1-4)] notified_writer_upgrade [OF assms(1-3)] notified_X [OF assms(1-3,5,6)]
  by simp

definition explained :: "outcome result \<Rightarrow> nat \<Rightarrow> thread_state list \<Rightarrow> bool" where
  "explained m t ts \<longleftrightarrow> (\<forall>q' st ns pick. m = Inr (q', st, ns) \<longrightarrow> reasons q' (fold (deliver pick) ns (ts[t := st])))"

text \<open>\<open>q'\<close> allows nothing that \<open>q\<close> does not.\<close>

definition stricter :: "qlock \<Rightarrow> qlock \<Rightarrow> bool" where
  "stricter q' q \<longleftrightarrow> (r_legal q' \<longrightarrow> r_legal q) \<and> (w_legal q' \<longrightarrow> w_legal q) \<and> (R_legal q' \<longrightarrow> R_legal q) \<and>
     (W_legal q' \<longrightarrow> W_legal q) \<and> (X_legal q' \<longrightarrow> X_legal q) \<and>
     (W_n q + R_n q + w_n q + r_n q > 1 \<longrightarrow> W_n q' + R_n q' + w_n q' + r_n q' > 1 \<or> U_n q' = 0) \<and>
     generationXExit q' = generationXExit q \<and> generationX q \<le> generationX q'"

fun justified :: "qlock \<Rightarrow> thread_state \<Rightarrow> bool" where
  "justified q (Asleep Wait_r) = (\<not> r_legal q)"
| "justified q (Asleep Wait_w) = (\<not> w_legal q)"
| "justified q (Asleep Wait_R) = (\<not> R_legal q)"
| "justified q (Asleep Wait_R_try) = (\<not> R_legal q)"
| "justified q (Asleep Wait_W) = (\<not> W_legal q)"
| "justified q (Asleep Wait_W_try) = (\<not> W_legal q)"
| "justified q (Asleep Wait_U) = (W_n q + R_n q + w_n q + r_n q > 1)"
| "justified q (Asleep (Wait_X g)) = (g = generationXExit q \<and> \<not> X_legal q)"
| "justified q (Asleep (Wait_X_exit g)) = (g = generationXExit q \<and> g < generationX q)"
| "justified q (Woken p) = False"
| "justified q s = True"

lemma asleep_update: "Asleep p \<in> set (ts[t := st]) \<Longrightarrow> Asleep p \<in> set ts \<or> st = Asleep p"
  using set_update_subset_insert [of ts t st] by auto

lemma woken_update:
  "Woken p \<in> set ts \<Longrightarrow> t < length ts \<Longrightarrow> ts ! t \<noteq> Woken p \<Longrightarrow> Woken p \<in> set (ts[t := st])"
  by (metis in_set_conv_nth length_list_update nth_list_update_neq)

lemma quiet_reasons:
  assumes "reasons q ts" "lock_inv q' (ts[t := st])" "stricter q' q" "t < length ts" "justified q' st"
    and leave: "\<And>p. ts ! t = Woken p \<Longrightarrow> p = Wait_W \<or> p = Wait_W_try \<Longrightarrow> \<not> W_legal q'"
      "\<And>g. ts ! t = Woken (Wait_X g) \<Longrightarrow> \<not> X_legal q' \<or> g < generationX q'"
  shows "reasons q' (ts[t := st])"
proof -
  note r = assms(1) [unfolded reasons_def] and up = asleep_update [of _ ts t st]
  have s: "r_legal q' \<Longrightarrow> r_legal q" "w_legal q' \<Longrightarrow> w_legal q" "R_legal q' \<Longrightarrow> R_legal q"
    "W_legal q' \<Longrightarrow> W_legal q" "X_legal q' \<Longrightarrow> X_legal q"
    "W_n q + R_n q + w_n q + r_n q > 1 \<Longrightarrow> W_n q' + R_n q' + w_n q' + r_n q' > 1 \<or> U_n q' = 0"
    "generationXExit q' = generationXExit q" "generationX q \<le> generationX q'"
    using assms(3) unfolding stricter_def by blast+
  have "ready_or_blocked (\<lambda>_. False) q' (ts[t := st])"
    using r up assms(5) s(1-3) unfolding ready_or_blocked_def by (metis justified.simps(1-4))
  moreover have "generations_ok q' (ts[t := st])"
    using r up assms(5) s(7) unfolding generations_ok_def by (metis justified.simps(8,9))
  moreover have "exits_ok q' (ts[t := st])"
  proof -
    have "Woken p \<in> set (ts[t := st]) \<Longrightarrow> Woken p \<in> set ts" for p
      using set_update_subset_insert [of ts t st] assms(5) by auto
    then show ?thesis using r up assms(5) s(8) unfolding exits_ok_def by (metis justified.simps(9) less_le_trans)
  qed
  moreover have "writer_reason q' (ts[t := st])"
    using r up assms(5) s(4) leave(1) woken_update [OF _ assms(4)] unfolding writer_reason_def
    by (metis justified.simps(5,6))
  moreover have "upgrade_reason q' (ts[t := st])"
    unfolding upgrade_reason_def
  proof
    assume a: "Asleep Wait_U \<in> set (ts[t := st])"
    have "1 \<le> num (waits (\<lambda>p. p = Wait_U)) (ts[t := st])" using a by (intro one_waiter) auto
    then have "U_n q' \<noteq> 0" using assms(2) by (simp add: lock_inv_def counted_def)
    then show "W_n q' + R_n q' + w_n q' + r_n q' > 1"
      using r up [OF a] assms(5) s(6) unfolding upgrade_reason_def by auto
  qed
  moreover have "X_reason q' (ts[t := st])"
    unfolding X_reason_def
  proof (intro allI impI)
    fix g assume a: "Asleep (Wait_X g) \<in> set (ts[t := st])"
    from up [OF a] show "\<not> X_legal q' \<or> g < generationX q' \<or> Woken (Wait_X g) \<in> set (ts[t := st])"
    proof
      assume "Asleep (Wait_X g) \<in> set ts"
      then have "\<not> X_legal q \<or> g < generationX q \<or> Woken (Wait_X g) \<in> set ts" using r by (simp add: X_reason_def)
      then show ?thesis using s(5,8) leave(2) woken_update [OF _ assms(4), of "Wait_X g" st] by fastforce
    next
      assume "st = Asleep (Wait_X g)"
      then show ?thesis using assms(5) by simp
    qed
  qed
  ultimately show ?thesis by (simp add: reasons_def)
qed

lemma notify_explained:
  assumes "reasons q ts" "t < length ts" "notifyWeUnlocked me q' = Inr ns"
    "me \<in> {CHR ''r'', CHR ''w'', CHR ''R'', CHR ''W'', CHR ''X''}"
    and legal: "r_legal q' \<Longrightarrow> r_legal q \<or> blocks me CHR ''r''" "w_legal q' \<Longrightarrow> w_legal q \<or> blocks me CHR ''w''"
      "R_legal q' \<Longrightarrow> R_legal q \<or> blocks me CHR ''R''"
    and gen: "me = CHR ''X'' \<or> generationXExit q' = generationXExit q" "generationX q \<le> generationX q'"
    and st: "lock_inv q' (ts[t := st])" "st = Idle \<or> (\<exists>m. st = Holding m)"
  shows "reasons q' (fold (deliver pick) ns (ts[t := st]))"
proof (rule notify_reasons [OF st(1) assms(3,4)])
  note r = assms(1) [unfolded reasons_def]
  have a: "Asleep p \<in> set (ts[t := st]) \<Longrightarrow> Asleep p \<in> set ts" "Woken p \<in> set (ts[t := st]) \<Longrightarrow> Woken p \<in> set ts" for p
    using set_update_subset_insert [of ts t st] st(2) by auto
  show "ready_or_blocked (blocks me) q' (ts[t := st])"
    using r a legal unfolding ready_or_blocked_def by blast
  show "me = CHR ''X'' \<or> generations_ok q' (ts[t := st])"
    using r a gen(1) unfolding generations_ok_def by auto
  show "exits_ok q' (ts[t := st])"
    using r a gen(2) unfolding exits_ok_def by (meson less_le_trans)
qed

lemma safeD: "safe m t ts \<Longrightarrow> m = Inr (q', st, ns) \<Longrightarrow> lock_inv q' (ts[t := st])"
  by (auto simp: safe_def)

lemma quiet_explained:
  assumes "safe m t ts" "reasons q ts" "t < length ts"
    and quiet: "\<And>q' st ns. m = Inr (q', st, ns) \<Longrightarrow> ns = [] \<and> stricter q' q \<and> justified q' st \<and>
      ((ts ! t = Woken Wait_W \<or> ts ! t = Woken Wait_W_try) \<longrightarrow> \<not> W_legal q') \<and>
      (\<forall>g. ts ! t = Woken (Wait_X g) \<longrightarrow> \<not> X_legal q' \<or> g < generationX q')"
  shows "explained m t ts"
  unfolding explained_def
proof (intro allI impI)
  fix q' st ns pick assume m: "m = Inr (q', st, ns)"
  from quiet [OF m] have "reasons q' (ts[t := st])"
    by (intro quiet_reasons [OF assms(2) safeD [OF assms(1) m] _ assms(3)]) auto
  with quiet [OF m] show "reasons q' (fold (deliver pick) ns (ts[t := st]))" by simp
qed

lemma stricter_refl: "stricter q q"
  by (simp add: stricter_def)

text \<open>The counters that \<open>stricter\<close> reads, grown.\<close>

lemma stricter_acquire:
  assumes "counted q ts"
  shows "stricter (q\<lparr>r_n := r_n q + 1\<rparr>) q" "stricter (q\<lparr>w_n := w_n q + 1\<rparr>) q" "stricter (q\<lparr>R_n := R_n q + 1\<rparr>) q"
    "stricter (q\<lparr>numPendingGlobalWrites := numPendingGlobalWrites q + 1\<rparr>) q"
  using counted_nonneg [OF assms] by (auto simp: stricter_def legal_defs)

lemma acquire_explained:
  assumes "lock_inv q ts" "reasons q ts" "t < length ts" "neutral (ts ! t)"
  shows "explained (lock_r q) t ts" "explained (lock_w q) t ts" "explained (lock_R q) t ts" "explained (lock_R_try e q) t ts"
proof -
  have c: "counted q ts" using assms(1) by (simp add: lock_inv_def)
  note s = acquire_ops_safe [OF assms(1,3,4)] and a = stricter_acquire [OF c] stricter_refl
  note q = quiet_explained [OF _ assms(2,3)]
  have no: "ts ! t = Woken p \<Longrightarrow> \<not> (p = Wait_W \<or> p = Wait_W_try) \<and> p \<noteq> Wait_X g" for p g
    using assms(4) by (auto simp: neutral_def)
  show "explained (lock_r q) t ts"
    by (rule q [OF s(1)]) (use a no in \<open>auto simp: lock_r_def split: if_splits\<close>)
  show "explained (lock_w q) t ts"
    by (rule q [OF s(2)]) (use a no in \<open>auto simp: lock_w_def split: if_splits\<close>)
  show "explained (lock_R q) t ts"
    by (rule q [OF s(3)]) (use a no in \<open>auto simp: lock_R_def split: if_splits\<close>)
  show "explained (lock_R_try e q) t ts"
    by (rule q [OF s(4)]) (use a no in \<open>auto simp: lock_R_try_def split: if_splits\<close>)
qed

lemma stricter_W:
  assumes "counted q ts" "W_legal q"
  shows "stricter (q\<lparr>numPendingGlobalWrites := n, W_n := W_n q + 1\<rparr>) q" "stricter (q\<lparr>W_n := W_n q + 1\<rparr>) q"
    "\<not> W_legal (q\<lparr>numPendingGlobalWrites := n, W_n := W_n q + 1\<rparr>)"
  using counted_nonneg [OF assms(1)] assms(2) by (auto simp: stricter_def legal_defs)

lemma lock_W_loop_explained:
  assumes "lock_inv q ts" "reasons q ts" "t < length ts" "ts ! t = Woken p" "p = Wait_W \<or> p = Wait_W_try"
  shows "explained (lock_W_loop q) t ts" "e \<longrightarrow> W_legal q \<Longrightarrow> explained (lock_W_try_loop e q) t ts"
proof -
  have c: "counted q ts" using assms(1) by (simp add: lock_inv_def)
  note s = lock_W_loop_safe [OF assms(1,3-5)] and a = stricter_W [OF c]
  note q = quiet_explained [OF _ assms(2,3)]
  have no: "ts ! t \<noteq> Woken (Wait_X g)" for g using assms(4,5) by auto
  show "explained (lock_W_loop q) t ts"
    by (rule q [OF s(1)]) (use a stricter_refl no in \<open>auto simp: lock_W_loop_def split: if_splits\<close>)
  have W: "W_n q = 0" if "W_legal q" using counted_nonneg [OF c] that by (auto simp: legal_defs)
  have p: "W_legal (q\<lparr>numPendingGlobalWrites := n\<rparr>) = W_legal q" for n by (simp add: W_legal_def)
  assume e: "e \<longrightarrow> W_legal q"
  show "explained (lock_W_try_loop e q) t ts"
    by (rule q [OF s(2)])
      (use a stricter_refl no e W p in \<open>auto simp: lock_W_try_loop_def Let_def fassert_def split: if_splits\<close>)
qed

text \<open>A new writer queues first, which allows nobody anything.\<close>

lemma explained_update:
  "explained m t (ts[t := s]) = explained m t ts"
  by (simp add: explained_def)

lemma lock_W_explained:
  assumes "lock_inv q ts" "reasons q ts" "t < length ts" "ts ! t = Idle"
  shows "explained (lock_W q) t ts" "explained (lock_W_try e q) t ts"
proof -
  have c: "counted q ts" using assms(1) by (simp add: lock_inv_def)
  let ?q = "q\<lparr>numPendingGlobalWrites := numPendingGlobalWrites q + 1\<rparr>"
  note s = lock_W_safe [OF assms(1,3,4)] and a = stricter_W [OF c] stricter_acquire(4) [OF c] stricter_refl
  note q = quiet_explained [OF _ assms(2,3)]
  have p: "W_legal (q\<lparr>numPendingGlobalWrites := n\<rparr>) = W_legal q" for n by (simp add: W_legal_def)
  have W: "W_n q = 0" if "W_legal q" using counted_nonneg [OF c] that by (auto simp: legal_defs)
  show "explained (lock_W q) t ts"
    by (rule q [OF s(1)]) (use a assms(4) p in \<open>auto simp: lock_W_def lock_W_loop_def split: if_splits\<close>)
  show "explained (lock_W_try e q) t ts"
    by (rule q [OF s(2)])
      (use a assms(4) p W in \<open>auto simp: lock_W_try_def lock_W_try_loop_def Let_def fassert_def split: if_splits\<close>)
qed

text \<open>Operations that end with \<open>notifyWeUnlocked\<close>.\<close>

lemma loud_explained:
  assumes "safe m t ts" "reasons q ts" "t < length ts"
    "m = bindE (notifyWeUnlocked me q') (\<lambda>ns. Inr (q', st, ns))"
    "me \<in> {CHR ''r'', CHR ''w'', CHR ''R'', CHR ''W'', CHR ''X''}" "st = Idle \<or> (\<exists>m. st = Holding m)"
    and legal: "r_legal q' \<Longrightarrow> r_legal q \<or> blocks me CHR ''r''" "w_legal q' \<Longrightarrow> w_legal q \<or> blocks me CHR ''w''"
      "R_legal q' \<Longrightarrow> R_legal q \<or> blocks me CHR ''R''"
    and gen: "me = CHR ''X'' \<or> generationXExit q' = generationXExit q" "generationX q \<le> generationX q'"
  shows "explained m t ts"
  unfolding explained_def
proof (intro allI impI)
  fix q'' st' ns pick assume m: "m = Inr (q'', st', ns)"
  then have eq: "q'' = q'" "st' = st" "notifyWeUnlocked me q' = Inr ns"
    unfolding assms(4) by (cases "notifyWeUnlocked me q'"; simp)+
  from safeD [OF assms(1) m] have "lock_inv q' (ts[t := st])" by (simp add: eq)
  from notify_explained [OF assms(2,3) eq(3) assms(5) legal gen this assms(6)]
  show "reasons q'' (fold (deliver pick) ns (ts[t := st']))" by (simp add: eq)
qed

lemma blocks_simps [simp]:
  "blocks CHR ''W'' c" "blocks CHR ''X'' c" "blocks CHR ''R'' CHR ''w''" "blocks CHR ''w'' CHR ''R''"
  by (simp_all add: blocks_def i_block_def)

lemma unlock_explained:
  assumes "lock_inv q ts" "reasons q ts" "t < length ts" "ts ! t = Holding m" "unlock m q = Some res"
  shows "explained res t ts"
proof -
  note s = unlock_safe [OF assms(1,3-5)]
  have c: "counted q ts" and e: "exclusive q (num (holds Mode_X) ts)" using assms(1) by (simp_all add: lock_inv_def)
  note nn = counted_nonneg [OF c] and h = held_counts [OF c assms(3,4)]
  note loud = loud_explained [OF s assms(2,3)]
  show ?thesis
  proof (cases m)
    case Mode_r
    show ?thesis by (rule loud [of "CHR ''r''" "q\<lparr>r_n := r_n q - 1\<rparr>" Idle])
      (use Mode_r h(1) assms(5) in \<open>auto simp: unlock_r_def Let_def fassert_def legal_defs\<close>)
  next
    case Mode_w
    show ?thesis by (rule loud [of "CHR ''w''" "q\<lparr>w_n := w_n q - 1\<rparr>" Idle])
      (use Mode_w h(2) assms(5) in \<open>auto simp: unlock_w_def Let_def fassert_def legal_defs\<close>)
  next
    case Mode_R
    show ?thesis by (rule loud [of "CHR ''R''" "q\<lparr>R_n := R_n q - 1\<rparr>" Idle])
      (use Mode_R h(3) assms(5) in \<open>auto simp: unlock_R_def Let_def fassert_def legal_defs\<close>)
  next
    case Mode_W
    then have "W_n q = 1" using h(4) e by (auto simp: exclusive_def)
    then show ?thesis by (intro loud [of "CHR ''W''" "q\<lparr>W_n := W_n q - 1\<rparr>" Idle])
      (use Mode_W assms(5) in \<open>auto simp: unlock_W_def Let_def fassert_def\<close>)
  qed (use assms(5) in simp)
qed

lemma W_to_R_explained:
  assumes "lock_inv q ts" "reasons q ts" "t < length ts" "ts ! t = Holding Mode_W"
  shows "explained (W_to_R q) t ts"
proof -
  have c: "counted q ts" and e: "exclusive q (num (holds Mode_X) ts)" using assms(1) by (simp_all add: lock_inv_def)
  have z: "W_n q = 1" "R_n q = 0" "U_n q = 0"
    using held_counts(4) [OF c assms(3,4)] e counted_nonneg [OF c] by (auto simp: exclusive_def)
  show ?thesis
    by (rule loud_explained [OF W_to_R_safe [OF assms(1,3,4)] assms(2,3), of "CHR ''W''" "q\<lparr>W_n := 0, R_n := 1\<rparr>" "Holding Mode_R"])
      (simp_all add: W_to_R_def fassert_def z Let_def)
qed

lemma X_to_w_explained:
  assumes "lock_inv q ts" "reasons q ts" "t < length ts" "ts ! t = Holding Mode_X"
  shows "explained (X_to_w q) t ts"
proof -
  have c: "counted q ts" and e: "exclusive q (num (holds Mode_X) ts)" using assms(1) by (simp_all add: lock_inv_def)
  have z: "X_n q > 0" "w_n q = 0" "W_n q = 0" "R_n q = 0"
    using held_counts(5) [OF c assms(3,4)] e counted_nonneg [OF c] by (auto simp: exclusive_def)
  show ?thesis
    by (rule loud_explained [OF X_to_w_safe [OF assms(1,3,4)] assms(2,3), of "CHR ''X''"
          "q\<lparr>w_n := X_n q, X_n := 0, generationXExit := generationXExit q + 1\<rparr>" "Holding Mode_w"])
      (simp_all add: X_to_w_def fassert_def z Let_def)
qed

lemma R_to_W_loop_explained:
  assumes "lock_inv q ts" "reasons q ts" "t < length ts" "ts ! t = Woken Wait_U"
  shows "explained (R_to_W_loop q) t ts"
proof -
  have c: "counted q ts" using assms(1) by (simp add: lock_inv_def)
  show ?thesis
  proof (rule quiet_explained [OF R_to_W_loop_safe [OF assms(1,3,4)] assms(2,3)])
    fix q' st ns assume m: "R_to_W_loop q = Inr (q', st, ns)"
    show "ns = [] \<and> stricter q' q \<and> justified q' st \<and>
      ((ts ! t = Woken Wait_W \<or> ts ! t = Woken Wait_W_try) \<longrightarrow> \<not> W_legal q') \<and>
      (\<forall>g. ts ! t = Woken (Wait_X g) \<longrightarrow> \<not> X_legal q' \<or> g < generationX q')"
    proof (cases "W_n q + R_n q + w_n q + r_n q > 1")
      case True
      with m assms(4) show ?thesis by (auto simp: R_to_W_loop_def stricter_refl)
    next
      case False
      with m counted_nonneg [OF c] assms(4) show ?thesis
        by (auto simp: R_to_W_loop_def Let_def fassert_def stricter_def legal_defs split: if_splits)
    qed
  qed
qed

lemma R_to_W_explained:
  assumes "lock_inv q ts" "reasons q ts" "t < length ts" "ts ! t = Holding Mode_R"
  shows "explained (R_to_W q) t ts"
proof (cases "safe (R_to_W q) t ts")
  case True
  have c: "counted q ts" using assms(1) by (simp add: lock_inv_def)
  show ?thesis
  proof (rule quiet_explained [OF True assms(2,3)])
    fix q' st ns assume m: "R_to_W q = Inr (q', st, ns)"
    then have z: "R_n q > 0" "W_n q = 0" "U_n q = 0" by (simp_all add: R_to_W_def fassert_def split: if_splits)
    show "ns = [] \<and> stricter q' q \<and> justified q' st \<and>
      ((ts ! t = Woken Wait_W \<or> ts ! t = Woken Wait_W_try) \<longrightarrow> \<not> W_legal q') \<and>
      (\<forall>g. ts ! t = Woken (Wait_X g) \<longrightarrow> \<not> X_legal q' \<or> g < generationX q')"
      using m z counted_nonneg [OF c] assms(4)
      by (cases "W_n q + R_n q + w_n q + r_n q > 1")
        (auto simp: R_to_W_def R_to_W_loop_def Let_def fassert_def stricter_def legal_defs split: if_splits)
  qed
next
  case False
  with R_to_W_safe [OF assms(1,3,4)] show ?thesis by (simp add: explained_def)
qed

lemma w_to_X_exit_loop_explained:
  assumes "lock_inv q ts" "reasons q ts" "t < length ts" "ts ! t = Woken p" "p = Wait_X_exit g \<or> p = Wait_X g \<and> g < generationX q"
  shows "explained (w_to_X_exit_loop g q) t ts"
proof -
  have p: "p = Wait_X g \<or> p = Wait_X_exit g" using assms(5) by blast
  have "Woken p \<in> set ts" using assms(3,4) by (metis nth_mem)
  then have g: "g < generationX q" using assms(2,5) by (auto simp: reasons_def exits_ok_def)
  show ?thesis
    by (rule quiet_explained [OF w_to_X_exit_loop_safe [OF assms(1,3,4) p] assms(2,3)])
      (use g p assms(4) stricter_refl in \<open>auto simp: w_to_X_exit_loop_def fassert_def split: if_splits\<close>)
qed

lemma w_to_X_loop_explained:
  assumes "lock_inv q ts" "reasons q ts" "t < length ts" "ts ! t = Woken (Wait_X g)"
  shows "explained (w_to_X_loop g q) t ts"
proof -
  have c: "counted q ts" using assms(1) by (simp add: lock_inv_def)
  have gx: "generationX q = generationXExit q + num (holds Mode_X) ts" using c by (simp only: counted_def)
  have le: "g \<le> generationXExit q" using generation_bound [OF c assms(3)] assms(4) by simp
  note s = w_to_X_loop_safe [OF assms(1,3,4)]
  consider "g \<noteq> generationX q" | "g = generationX q" "\<not> X_legal q" | "g = generationX q" "X_legal q" by blast
  then show ?thesis
  proof cases
    case 1
    with le gx num_nonneg [of "holds Mode_X" ts] have "g < generationX q" by simp
    with w_to_X_exit_loop_explained [OF assms, of g] 1 show ?thesis by (simp add: w_to_X_loop_def)
  next
    case 2
    with le gx num_nonneg [of "holds Mode_X" ts] have "g = generationXExit q" by simp
    with 2 s assms(2-4) show ?thesis
      by (intro quiet_explained [OF s assms(2,3)]) (auto simp: w_to_X_loop_def stricter_refl)
  next
    case 3
    have "w_n q = 0" using 3(2) counted_nonneg [OF c] by (simp add: X_legal_def)
    with 3 show ?thesis
      by (intro loud_explained [OF s assms(2,3), of "CHR ''w''" "q\<lparr>generationX := generationX q + 1\<rparr>" "Holding Mode_X"])
        (simp_all add: w_to_X_loop_def Let_def fassert_def legal_defs)
  qed
qed

lemma w_to_X_explained:
  assumes "lock_inv q ts" "reasons q ts" "t < length ts" "ts ! t = Holding Mode_w"
  shows "explained (w_to_X q) t ts"
proof -
  have c: "counted q ts" and e: "exclusive q (num (holds Mode_X) ts)" using assms(1) by (simp_all add: lock_inv_def)
  note nn = counted_nonneg [OF c]
  have z: "w_n q > 0" "R_n q = 0" "W_n q = 0" "U_n q = 0" "num (holds Mode_X) ts = 0"
    using held_counts(2) [OF c assms(3,4)] e nn by (auto simp: exclusive_def)
  then have g: "generationX q = generationXExit q" using c by (simp add: counted_def)
  let ?q = "q\<lparr>X_n := X_n q + 1, w_n := w_n q - 1\<rparr>"
  note s = w_to_X_safe [OF assms(1,3,4)]
  show ?thesis
  proof (cases "X_legal ?q")
    case True
    then have "w_n q = 1" using z nn by (simp add: X_legal_def)
    with True z nn show ?thesis
      by (intro loud_explained [OF s assms(2,3), of "CHR ''w''" "?q\<lparr>generationX := generationX q + 1\<rparr>" "Holding Mode_X"])
        (simp_all add: w_to_X_def w_to_X_loop_def Let_def fassert_def legal_defs)
  next
    case False
    have "stricter ?q q" using z nn False by (auto simp: stricter_def legal_defs)
    with False z g assms(4) show ?thesis
      by (intro quiet_explained [OF s assms(2,3)]) (auto simp: w_to_X_def w_to_X_loop_def Let_def fassert_def)
  qed
qed

text \<open>A waiting \<open>lock_W_try\<close> that gives up.\<close>

definition gives_up :: "call \<Rightarrow> thread_state \<Rightarrow> bool" where
  "gives_up c s \<longleftrightarrow> c = Resume True \<and> s = Woken Wait_W_try"

lemma resume_explained:
  assumes "lock_inv q ts" "reasons q ts" "t < length ts" "ts ! t = Woken p" "\<not> gives_up (Resume e) (Woken p)"
  shows "explained (resume e p q) t ts"
proof (cases p)
  case Wait_r
  with acquire_explained [OF assms(1-3)] assms(4) show ?thesis by (simp add: neutral_def)
next
  case Wait_w
  with acquire_explained [OF assms(1-3)] assms(4) show ?thesis by (simp add: neutral_def)
next
  case Wait_R
  with acquire_explained [OF assms(1-3)] assms(4) show ?thesis by (simp add: neutral_def)
next
  case Wait_R_try
  with acquire_explained [OF assms(1-3)] assms(4) show ?thesis by (simp add: neutral_def)
next
  case Wait_W
  with lock_W_loop_explained [OF assms(1-4)] show ?thesis by simp
next
  case Wait_W_try
  with lock_W_loop_explained [OF assms(1-4)] assms(5) show ?thesis by (simp add: gives_up_def)
next
  case Wait_U
  with R_to_W_loop_explained [OF assms(1-3)] assms(4) show ?thesis by simp
next
  case (Wait_X g)
  with w_to_X_loop_explained [OF assms(1-3)] assms(4) show ?thesis by simp
next
  case (Wait_X_exit g)
  with w_to_X_exit_loop_explained [OF assms(1-4)] show ?thesis by simp
qed

lemma call_idle_explained:
  assumes "lock_inv q ts" "reasons q ts" "t < length ts" "ts ! t = Idle" "call_idle c q = Some m"
  shows "explained m t ts"
  using assms(5) acquire_explained [OF assms(1-3)] lock_W_explained [OF assms(1-4)] assms(4)
  by (cases c) (auto simp: neutral_def)

lemma call_holding_explained:
  assumes "lock_inv q ts" "reasons q ts" "t < length ts" "ts ! t = Holding h" "call_holding c h q = Some m"
  shows "explained m t ts"
proof (cases c)
  case Unlock
  with unlock_explained [OF assms(1-4)] assms(5) show ?thesis by simp
next
  case Downgrade
  with W_to_R_explained [OF assms(1-3)] assms(4,5) show ?thesis by (auto split: if_splits)
next
  case Upgrade
  with R_to_W_explained [OF assms(1-3)] assms(4,5) show ?thesis by (auto split: if_splits)
next
  case To_X
  with w_to_X_explained [OF assms(1-3)] assms(4,5) show ?thesis by (auto split: if_splits)
next
  case From_X
  with X_to_w_explained [OF assms(1-3)] assms(4,5) show ?thesis by (auto split: if_splits)
qed (use assms(5) in simp_all)

lemma run_call_explained:
  assumes "lock_inv q ts" "reasons q ts" "t < length ts" "run_call c (ts ! t) q = Some m" "\<not> gives_up c (ts ! t)"
  shows "explained m t ts"
proof (cases "ts ! t")
  case Idle
  with call_idle_explained [OF assms(1-3)] assms(4) show ?thesis by (simp add: run_call_def)
next
  case (Holding h)
  with call_holding_explained [OF assms(1-3)] assms(4) show ?thesis by (simp add: run_call_def)
next
  case (Asleep p)
  with assms(4) show ?thesis by (simp add: run_call_def)
next
  case (Woken p)
  with resume_explained [OF assms(1-3)] assms(4,5) show ?thesis by (auto simp: run_call_def split: call.splits)
qed

text \<open>The states reached when no waiting \<open>lock_W_try\<close> gives up.\<close>

inductive reachable_patient :: "nat \<Rightarrow> lock_system \<Rightarrow> bool" for n where
  patient_start: "reachable_patient n (initial n)"
| patient_step: "reachable_patient n s \<Longrightarrow> thread_step pick t c s = Some (Inr s') \<Longrightarrow>
    \<not> gives_up c (threads s ! t) \<Longrightarrow> reachable_patient n s'"
| patient_wakeup: "reachable_patient n s \<Longrightarrow> t < length (threads s) \<Longrightarrow> threads s ! t = Asleep p \<Longrightarrow>
    reachable_patient n (s\<lparr>threads := (threads s)[t := Woken p]\<rparr>)"

lemma reasons_Woken:
  assumes "reasons q ts" "lock_inv q ts" "t < length ts" "ts ! t = Asleep p"
  shows "reasons q (ts[t := Woken p])"
proof -
  note r = assms(1) [unfolded reasons_def]
  have a: "Asleep x \<in> set (ts[t := Woken p]) \<Longrightarrow> Asleep x \<in> set ts" for x
    using set_update_subset_insert [of ts t "Woken p"] by auto
  have w: "Woken x \<in> set ts \<Longrightarrow> Woken x \<in> set (ts[t := Woken p])" for x
    using woken_update [OF _ assms(3)] assms(4) by simp
  have w': "Woken x \<in> set (ts[t := Woken p]) \<Longrightarrow> Woken x \<in> set ts \<or> Asleep x \<in> set ts" for x
    using set_update_subset_insert [of ts t "Woken p"] nth_mem [OF assms(3)] assms(4) by auto
  have "exits_ok q (ts[t := Woken p])" using r w' a unfolding exits_ok_def by blast
  moreover have "ready_or_blocked (\<lambda>_. False) q (ts[t := Woken p])" "generations_ok q (ts[t := Woken p])"
    "writer_reason q (ts[t := Woken p])" "upgrade_reason q (ts[t := Woken p])" "X_reason q (ts[t := Woken p])"
    using r a w unfolding ready_or_blocked_def generations_ok_def writer_reason_def upgrade_reason_def X_reason_def
    by blast+
  ultimately show ?thesis by (simp add: reasons_def)
qed

lemma reachable_patient_inv:
  "reachable_patient n s \<Longrightarrow> lock_inv (lk s) (threads s) \<and> reasons (lk s) (threads s)"
proof (induction rule: reachable_patient.induct)
  case patient_start
  show ?case by (simp add: initial_def lock_inv_initial reasons_def ready_or_blocked_def generations_ok_def
        exits_ok_def writer_reason_def upgrade_reason_def X_reason_def)
next
  case (patient_step s pick t c s')
  from thread_stepE [OF patient_step.hyps(2)] obtain q st ns where s: "t < length (threads s)"
    "run_call c (threads s ! t) (lk s) = Some (Inr (q, st, ns))"
    "s' = \<lparr>lk = q, threads = fold (deliver pick) ns ((threads s)[t := st])\<rparr>" .
  from run_call_explained [OF _ _ s(1,2) patient_step.hyps(3)] patient_step.IH
  have "reasons q (fold (deliver pick) ns ((threads s)[t := st]))" by (simp add: explained_def)
  moreover have "lock_inv (lk s') (threads s')" using lock_inv_step [OF _ patient_step.hyps(2)] patient_step.IH by blast
  ultimately show ?case by (simp add: s(3))
next
  case (patient_wakeup s t p)
  then show ?case by (simp add: lock_inv_Woken reasons_Woken)
qed

definition can_go :: "qlock \<Rightarrow> thread_state list \<Rightarrow> bool" where
  "can_go q ts \<longleftrightarrow> (\<exists>p q' m ns. Woken p \<in> set ts \<and> resume False p q = Inr (q', Holding m, ns))"

lemma can_goI: "Woken p \<in> set ts \<Longrightarrow> resume False p q = Inr (q', Holding m, ns) \<Longrightarrow> can_go q ts"
  by (auto simp: can_go_def)

lemma num_zero: "num P ts = 0 \<longleftrightarrow> (\<forall>s \<in> set ts. \<not> P s)"
  by (auto simp: num_def filter_empty_conv)

lemma waiting_set: "num (waits P) ts \<noteq> 0 \<Longrightarrow> \<exists>p. P p \<and> (Asleep p \<in> set ts \<or> Woken p \<in> set ts)"
proof -
  assume "num (waits P) ts \<noteq> 0"
  then obtain s where s: "s \<in> set ts" "waits P s" by (auto simp: num_zero)
  show ?thesis by (rule thread_state.exhaust [of s]) (use s in auto)
qed

lemma at_generationE:
  assumes "at_generation P p"
  obtains g where "p = Wait_X g" "P g" | g where "p = Wait_X_exit g" "P g"
  using assms by (cases p) auto

text \<open>While nobody holds the lock, the first of these groups that is not empty can go on.\<close>

lemma leaving_X_goes:
  assumes "lock_inv q ts" "reasons q ts" "num (holds Mode_X) ts = 0" "num (waits (at_generation (\<lambda>g. g < generationXExit q))) ts \<noteq> 0"
  shows "can_go q ts"
proof -
  have c: "counted q ts" and e: "exclusive q (num (holds Mode_X) ts)" using assms(1) by (simp_all add: lock_inv_def)
  have gx: "generationX q = generationXExit q" using c assms(3) by (simp add: counted_def)
  have "w_n q > 0" using c assms(4) num_nonneg [of "waits (at_generation (\<lambda>g. g < generationXExit q))" ts]
      num_nonneg [of "holds Mode_w" ts] by (simp add: counted_def)
  with e have z: "w_n q > 0" "R_n q = 0" by (auto simp: exclusive_def)
  from waiting_set [OF assms(4)] obtain p
    where p: "at_generation (\<lambda>g. g < generationXExit q) p" "Asleep p \<in> set ts \<or> Woken p \<in> set ts" by blast
  from p(1) obtain g where g: "g < generationXExit q" "p = Wait_X g \<or> p = Wait_X_exit g" by (auto elim: at_generationE)
  have "Asleep p \<notin> set ts" using g assms(2) by (auto simp: reasons_def generations_ok_def)
  then have "Woken p \<in> set ts" using p(2) by simp
  moreover have "resume False p q = Inr (q, Holding Mode_w, [])"
    using g z gx by (auto simp: w_to_X_loop_def w_to_X_exit_loop_def fassert_def)
  ultimately show ?thesis by (rule can_goI)
qed

lemma upgrade_goes:
  assumes "lock_inv q ts" "reasons q ts" "r_n q = 0" "R_n q = U_n q" "U_n q \<noteq> 0"
  shows "can_go q ts"
proof -
  have c: "counted q ts" and e: "exclusive q (num (holds Mode_X) ts)" using assms(1) by (simp_all add: lock_inv_def)
  have z: "R_n q = 1" "U_n q = 1" "w_n q = 0" "W_n q = 0"
    using e counted_nonneg [OF c] assms(4,5) by (auto simp: exclusive_def)
  have "num (waits (\<lambda>p. p = Wait_U)) ts \<noteq> 0" using c assms(5) by (simp add: counted_def)
  from waiting_set [OF this] have "Asleep Wait_U \<in> set ts \<or> Woken Wait_U \<in> set ts" by auto
  moreover have "Asleep Wait_U \<notin> set ts" using assms(2,3) z by (auto simp: reasons_def upgrade_reason_def)
  ultimately have "Woken Wait_U \<in> set ts" by simp
  then show ?thesis by (rule can_goI) (simp add: R_to_W_loop_def Let_def fassert_def z assms(3))
qed

lemma entering_X_goes:
  assumes "lock_inv q ts" "reasons q ts" "X_legal q" "num (holds Mode_X) ts = 0" "X_n q \<noteq> 0"
  shows "can_go q ts"
proof -
  have c: "counted q ts" using assms(1) by (simp add: lock_inv_def)
  have gx: "generationX q = generationXExit q" using c assms(4) by (simp add: counted_def)
  have z: "w_n q = 0" "W_n q = 0" using assms(3) counted_nonneg [OF c] by (simp_all add: X_legal_def)
  have "num (waits (at_generation (\<lambda>g. g = generationXExit q))) ts \<noteq> 0" using c assms(4,5) by (simp add: counted_def)
  from waiting_set [OF this] obtain p
    where p: "at_generation (\<lambda>g. g = generationXExit q) p" "Asleep p \<in> set ts \<or> Woken p \<in> set ts" by blast
  have "p \<noteq> Wait_X_exit g" for g using p assms(2) gx by (auto simp: reasons_def exits_ok_def)
  with p(1) have "p = Wait_X (generationX q)" using gx by (auto elim: at_generationE)
  with p(2) assms(2,3) have w: "Woken (Wait_X (generationX q)) \<in> set ts"
    by (auto simp: reasons_def X_reason_def)
  obtain ns where "notifyWeUnlocked CHR ''w'' (q\<lparr>generationX := generationX q + 1\<rparr>) = Inr ns"
    using notify_returns [of "CHR ''w''" "q\<lparr>generationX := generationX q + 1\<rparr>"] z by auto
  with z assms(3) have "resume False (Wait_X (generationX q)) q = Inr (q\<lparr>generationX := generationX q + 1\<rparr>, Holding Mode_X, ns)"
    by (simp add: w_to_X_loop_def Let_def fassert_def)
  with w show ?thesis by (rule can_goI)
qed

lemma writer_goes:
  assumes "lock_inv q ts" "reasons q ts" "W_legal q" "U_n q = 0" "numPendingGlobalWrites q \<noteq> 0"
  shows "can_go q ts"
proof -
  have c: "counted q ts" using assms(1) by (simp add: lock_inv_def)
  have W: "W_n q = 0" using assms(3) counted_nonneg [OF c] by (simp add: W_legal_def)
  have "num (waits pending_write) ts \<noteq> 0" using c assms(5) by (simp add: counted_def)
  from waiting_set [OF this] obtain p where p: "pending_write p" "Asleep p \<in> set ts \<or> Woken p \<in> set ts" by blast
  have "num (waits (\<lambda>p. p = Wait_U)) ts = 0" using c assms(4) by (simp add: counted_def)
  with p(2) have "p \<noteq> Wait_U" by (auto simp: num_zero)
  with p(1) have "p = Wait_W \<or> p = Wait_W_try" by (cases p) auto
  with p(2) assms(2,3) have "Woken Wait_W \<in> set ts \<or> Woken Wait_W_try \<in> set ts"
    by (auto simp: reasons_def writer_reason_def)
  moreover have "resume False Wait_W q =
      Inr (q\<lparr>numPendingGlobalWrites := numPendingGlobalWrites q - 1, W_n := W_n q + 1\<rparr>, Holding Mode_W, [])"
    using assms(3) by (simp add: lock_W_loop_def)
  moreover have "W_legal (q\<lparr>numPendingGlobalWrites := n\<rparr>)" for n using assms(3) by (simp add: W_legal_def)
  then have "resume False Wait_W_try q =
      Inr (q\<lparr>numPendingGlobalWrites := numPendingGlobalWrites q - 1, W_n := W_n q + 1\<rparr>, Holding Mode_W, [])"
    using assms(3) W by (simp add: lock_W_try_loop_def Let_def fassert_def)
  ultimately show ?thesis by (auto intro: can_goI)
qed

lemma others_go:
  assumes "reasons q ts" "r_legal q" "w_legal q" "R_legal q" "Asleep p \<in> set ts \<or> Woken p \<in> set ts"
    "\<not> pending_write p" "\<not> at_generation (\<lambda>_. True) p"
  shows "can_go q ts"
proof -
  have p: "p = Wait_r \<or> p = Wait_w \<or> p = Wait_R \<or> p = Wait_R_try" using assms(6,7) by (cases p) auto
  then have "Asleep p \<notin> set ts" using assms(1-4) by (auto simp: reasons_def ready_or_blocked_def)
  then have "Woken p \<in> set ts" using assms(5) by simp
  moreover have "\<exists>q' m. resume False p q = Inr (q', Holding m, [])"
    using p assms(2-4) by (auto simp: lock_r_def lock_w_def lock_R_def lock_R_try_def)
  ultimately show ?thesis by (auto intro: can_goI)
qed

lemma progress:
  assumes "lock_inv q ts" "reasons q ts" "\<And>m. Holding m \<notin> set ts" "Asleep p \<in> set ts \<or> Woken p \<in> set ts"
  shows "can_go q ts"
proof -
  have c: "counted q ts" and e: "exclusive q (num (holds Mode_X) ts)" using assms(1) by (simp_all add: lock_inv_def)
  have h: "num (holds m) ts = 0" for m
  proof -
    have "\<not> holds m s" if "s \<in> set ts" for s using assms(3) that by (cases s) auto
    then show ?thesis by (simp add: num_zero)
  qed
  have z: "r_n q = 0" "W_n q = 0" "R_n q = U_n q" using c h by (simp_all add: counted_def)
  note nn = counted_nonneg [OF c]
  consider "num (waits (at_generation (\<lambda>g. g < generationXExit q))) ts \<noteq> 0" | "U_n q \<noteq> 0"
    | "num (waits (at_generation (\<lambda>g. g < generationXExit q))) ts = 0" "U_n q = 0" "X_n q \<noteq> 0"
    | "num (waits (at_generation (\<lambda>g. g < generationXExit q))) ts = 0" "U_n q = 0" "X_n q = 0" by blast
  then show ?thesis
  proof cases
    case 1
    with leaving_X_goes [OF assms(1,2) h] show ?thesis by simp
  next
    case 2
    with upgrade_goes [OF assms(1,2) z(1,3)] show ?thesis by simp
  next
    case 3
    then have "w_n q = 0" using c h by (simp add: counted_def)
    then have "X_legal q" using z 3 by (simp add: X_legal_def)
    with entering_X_goes [OF assms(1,2) _ h] 3 show ?thesis by simp
  next
    case 4
    then have w: "w_n q = 0" using c h by (simp add: counted_def)
    then have W: "W_legal q" using z 4 by (simp add: W_legal_def)
    show ?thesis
    proof (cases "numPendingGlobalWrites q = 0")
      case True
      then have legal: "r_legal q" "w_legal q" "R_legal q" using z w 4 by (simp_all add: legal_defs)
      have "num (waits pending_write) ts = 0" using c True by (simp add: counted_def)
      with assms(4) have np: "\<not> pending_write p" by (auto simp: num_zero)
      have "num (waits (at_generation (\<lambda>g. g = generationXExit q))) ts = 0"
        "num (waits (at_generation (\<lambda>g. generationXExit q < g))) ts = 0" using c h 4 by (simp_all add: counted_def)
      with 4(1) assms(4) have "\<not> at_generation (\<lambda>g. g < generationXExit q) p" "\<not> at_generation (\<lambda>g. g = generationXExit q) p"
        "\<not> at_generation (\<lambda>g. generationXExit q < g) p" by (auto simp: num_zero)
      then have "\<not> at_generation (\<lambda>_. True) p" by (cases p) auto
      with others_go [OF assms(2) legal assms(4) np] show ?thesis .
    next
      case False
      with writer_goes [OF assms(1,2) W 4(2)] show ?thesis .
    qed
  qed
qed

lemma fold_deliver_Holding:
  "t < length ts \<Longrightarrow> ts ! t = Holding m \<Longrightarrow> fold (deliver pick) ns ts ! t = Holding m"
proof (induction ns arbitrary: ts)
  case Nil
  then show ?case by simp
next
  case (Cons n ns)
  from deliver_nth [OF Cons.prems(1), of pick n] Cons.prems(2) have "deliver pick n ts ! t = Holding m" by auto
  with Cons.IH [of "deliver pick n ts"] Cons.prems(1) show ?case by simp
qed

text \<open>
  (C26) The quad lock has no deadlock as long as no waiting \<open>lock_W_try\<close> gives up: whenever no thread
  holds the lock and some thread waits for it, a thread that has been woken takes the lock with its
  next step, whichever way the operations interleaved before, spurious wake-ups included.
\<close>

theorem qlock_no_deadlock:
  assumes "reachable_patient n s" "\<forall>m. Holding m \<notin> set (threads s)"
    "\<exists>p. Asleep p \<in> set (threads s) \<or> Woken p \<in> set (threads s)"
  shows "\<exists>t p m s'. t < length (threads s) \<and> threads s ! t = Woken p \<and>
    thread_step pick t (Resume False) s = Some (Inr s') \<and> threads s' ! t = Holding m"
proof -
  from reachable_patient_inv [OF assms(1)] have i: "lock_inv (lk s) (threads s)" "reasons (lk s) (threads s)" by simp_all
  from assms(3) obtain p where "Asleep p \<in> set (threads s) \<or> Woken p \<in> set (threads s)" by blast
  from progress [OF i _ this] assms(2) obtain p q' m ns
    where p: "Woken p \<in> set (threads s)" "resume False p (lk s) = Inr (q', Holding m, ns)" by (auto simp: can_go_def)
  from p(1) obtain t where t: "t < length (threads s)" "threads s ! t = Woken p" by (auto simp: in_set_conv_nth)
  let ?s = "\<lparr>lk = q', threads = fold (deliver pick) ns ((threads s)[t := Holding m])\<rparr>"
  have "thread_step pick t (Resume False) s = Some (Inr ?s)"
    using t p(2) by (simp add: thread_step_def run_call_def)
  moreover have "threads ?s ! t = Holding m" using t(1) by (simp add: fold_deliver_Holding)
  ultimately show ?thesis using t by blast
qed

theorem qlock_no_deadlock_witness:
  "\<exists>s. reachable_patient 2 s \<and> threads s = [Idle, Woken Wait_r] \<and>
    (\<exists>t p m s'. t < length (threads s) \<and> threads s ! t = Woken p \<and>
      thread_step first_pick t (Resume False) s = Some (Inr s') \<and> threads s' ! t = Holding m)"
proof -
  let ?s = "\<lparr>lk = QLock, threads = [Idle, Woken Wait_r]\<rparr>"
  have s1: "thread_step first_pick 0 Lock_W (initial 2) = Some (Inr \<lparr>lk = QLock\<lparr>W_n := 1\<rparr>, threads = [Holding Mode_W, Idle]\<rparr>)"
    by (simp add: run_simps numeral_2_eq_2)
  have s2: "thread_step first_pick 1 Lock_r \<lparr>lk = QLock\<lparr>W_n := 1\<rparr>, threads = [Holding Mode_W, Idle]\<rparr> =
      Some (Inr \<lparr>lk = QLock\<lparr>W_n := 1\<rparr>, threads = [Holding Mode_W, Asleep Wait_r]\<rparr>)"
    by (simp add: run_simps)
  have s3: "thread_step first_pick 0 Unlock \<lparr>lk = QLock\<lparr>W_n := 1\<rparr>, threads = [Holding Mode_W, Asleep Wait_r]\<rparr> = Some (Inr ?s)"
    by (simp add: run_simps)
  have "reachable_patient 2 \<lparr>lk = QLock\<lparr>W_n := 1\<rparr>, threads = [Holding Mode_W, Idle]\<rparr>"
    by (rule patient_step [OF patient_start s1]) (simp add: gives_up_def)
  then have "reachable_patient 2 \<lparr>lk = QLock\<lparr>W_n := 1\<rparr>, threads = [Holding Mode_W, Asleep Wait_r]\<rparr>"
    by (rule patient_step [OF _ s2]) (simp add: gives_up_def)
  then have r: "reachable_patient 2 ?s" by (rule patient_step [OF _ s3]) (simp add: gives_up_def)
  have "\<exists>t p m s'. t < length (threads ?s) \<and> threads ?s ! t = Woken p \<and>
      thread_step first_pick t (Resume False) ?s = Some (Inr s') \<and> threads s' ! t = Holding m"
    by (rule qlock_no_deadlock [OF r]) auto
  with r show ?thesis by (intro exI [of _ ?s]) simp
qed

text \<open>
  (C39) Giving up is what the progress of the lock does not survive. When a \<open>lock_W_try\<close> that made
  readers wait times out, it takes back its claim without a notification, and the reader that gives
  the lock back later notifies no readers: the lock is free, nobody waits for it in another mode,
  and a thread is still asleep in \<open>lock_r\<close> with no thread left to wake it.
\<close>

theorem qlock_lost_wakeup:
  "\<exists>s. reachable 3 s \<and> lk s = QLock \<and> r_legal (lk s) \<and> threads s = [Idle, Idle, Asleep Wait_r]"
proof -
  let ?q = "QLock\<lparr>r_n := 1, numPendingGlobalWrites := 1\<rparr>"
  let ?s = "\<lparr>lk = QLock, threads = [Idle, Idle, Asleep Wait_r]\<rparr>"
  have s1: "thread_step first_pick 0 Lock_r (initial 3) = Some (Inr \<lparr>lk = QLock\<lparr>r_n := 1\<rparr>, threads = [Holding Mode_r, Idle, Idle]\<rparr>)"
    by (simp add: run_simps numeral_3_eq_3)
  have s2: "thread_step first_pick 1 (Lock_W_try False) \<lparr>lk = QLock\<lparr>r_n := 1\<rparr>, threads = [Holding Mode_r, Idle, Idle]\<rparr> =
      Some (Inr \<lparr>lk = ?q, threads = [Holding Mode_r, Asleep Wait_W_try, Idle]\<rparr>)"
    by (simp add: run_simps)
  have s3: "thread_step first_pick 2 Lock_r \<lparr>lk = ?q, threads = [Holding Mode_r, Asleep Wait_W_try, Idle]\<rparr> =
      Some (Inr \<lparr>lk = ?q, threads = [Holding Mode_r, Asleep Wait_W_try, Asleep Wait_r]\<rparr>)"
    by (simp add: run_simps)
  have s5: "thread_step first_pick 1 (Resume True) \<lparr>lk = ?q, threads = [Holding Mode_r, Woken Wait_W_try, Asleep Wait_r]\<rparr> =
      Some (Inr \<lparr>lk = QLock\<lparr>r_n := 1\<rparr>, threads = [Holding Mode_r, Idle, Asleep Wait_r]\<rparr>)"
    by (simp add: run_simps)
  have s6: "thread_step first_pick 0 Unlock \<lparr>lk = QLock\<lparr>r_n := 1\<rparr>, threads = [Holding Mode_r, Idle, Asleep Wait_r]\<rparr> = Some (Inr ?s)"
    by (simp add: run_simps)
  have "reachable 3 \<lparr>lk = ?q, threads = [Holding Mode_r, Asleep Wait_W_try, Asleep Wait_r]\<rparr>"
    by (rule reachable.step [OF reachable.step [OF reachable.step [OF reachable.start s1] s2] s3])
  from reachable.wakeup [OF this, of 1 Wait_W_try]
  have "reachable 3 \<lparr>lk = ?q, threads = [Holding Mode_r, Woken Wait_W_try, Asleep Wait_r]\<rparr>" by simp
  from reachable.step [OF reachable.step [OF this s5] s6] have "reachable 3 ?s" .
  then show ?thesis by (intro exI [of _ ?s]) (simp add: legal_defs QLock_def)
qed

end
