(* ===== verification/Auth_User.thy ===== *)
theory Auth_User
  imports Privilege "HOL-Library.Multiset"
begin

text \<open>
  \<open>src/mongo/db/auth/user_name.{h,cpp}\<close>, \<open>user.{h,cpp}\<close> and \<open>user_set.{h,cpp}\<close>: a user with the
  privileges and roles granted to it, and the set of users authenticated in a session, which has at
  most one user of each database. Hash maps and sets are partial functions of what their equality
  compares: the full name of a role, the kind and namespace of a resource pattern. The reference count of
  a user is an unsigned integer of 32 bits, which wraps around.
\<close>

subsection \<open>Lists with a key\<close>

definition keyed :: "('a \<Rightarrow> 'k) \<Rightarrow> 'a list \<Rightarrow> 'k \<rightharpoonup> 'a" where
  "keyed f xs = map_of (map (\<lambda>x. (f x, x)) xs)"

lemma map_eqI: "(\<And>k v. m k = Some v \<longleftrightarrow> m' k = Some v) \<Longrightarrow> m = m'"
  by (rule ext) (metis option.exhaust)

lemma keyed_iff: "distinct (map f xs) \<Longrightarrow> keyed f xs k = Some x \<longleftrightarrow> x \<in> set xs \<and> f x = k"
  unfolding keyed_def by (subst map_of_eq_Some_iff) (auto simp: comp_def)

lemma keyed_None: "keyed f xs k = None \<longleftrightarrow> k \<notin> f ` set xs"
  by (auto simp: keyed_def map_of_eq_None_iff image_iff)

lemma keyed_snoc:
  "distinct (map f xs) \<Longrightarrow> f x \<notin> f ` set xs \<Longrightarrow> keyed f (xs @ [x]) = (keyed f xs)(f x \<mapsto> x)"
  by (intro map_eqI) (auto simp: keyed_iff, metis imageI)

lemma distinct_map_update:
  "distinct (map f xs) \<Longrightarrow> i < length xs \<Longrightarrow> f (xs ! i) = f x \<Longrightarrow> distinct (map f (xs[i := x]))"
  by (metis list_update_id map_update nth_map)

lemma keyed_update:
  assumes "distinct (map f xs)" "i < length xs" "f (xs ! i) = f x"
  shows "keyed f (xs[i := x]) = (keyed f xs)(f x \<mapsto> x)"
proof (rule map_eqI)
  fix k v
  have inj: "j < length xs \<Longrightarrow> f (xs ! j) = f x \<Longrightarrow> j = i" for j
    using assms by (metis distinct_conv_nth length_map nth_map)
  have "v \<in> set (xs[i := x]) \<longleftrightarrow> v = x \<or> v \<in> set xs \<and> f v \<noteq> f x"
  proof
    assume "v \<in> set (xs[i := x])"
    then obtain j where j: "j < length xs" "xs[i := x] ! j = v" by (auto simp: in_set_conv_nth)
    then show "v = x \<or> v \<in> set xs \<and> f v \<noteq> f x" using inj [OF j(1)] by (cases "j = i") auto
  next
    assume "v = x \<or> v \<in> set xs \<and> f v \<noteq> f x"
    then show "v \<in> set (xs[i := x])"
    proof
      assume v: "v \<in> set xs \<and> f v \<noteq> f x"
      then obtain j where j: "j < length xs" "xs ! j = v" by (auto simp: in_set_conv_nth)
      with v assms(3) have "xs[i := x] ! j = v" by (cases "j = i") auto
      with j(1) show ?thesis by (metis length_list_update nth_mem)
    qed (simp add: set_update_memI assms(2))
  qed
  then show "keyed f (xs[i := x]) k = Some v \<longleftrightarrow> ((keyed f xs)(f x \<mapsto> x)) k = Some v"
    using distinct_map_update [OF assms] assms(1) by (auto simp: keyed_iff)
qed

text \<open>Removal by moving the last element into the gap.\<close>

lemma mset_move_last:
  assumes "i < length xs" "length xs = Suc e"
  shows "mset (take e (xs[i := xs ! e])) = mset xs - {#xs ! i#}"
proof -
  have xs: "xs = take e xs @ [xs ! e]" using assms(2) by (metis lessI take_Suc_conv_app_nth take_all_iff order_refl)
  have m: "mset xs = add_mset (xs ! e) (mset (take e xs))" by (subst xs) simp
  show ?thesis
  proof (cases "i = e")
    case True
    with m show ?thesis by simp
  next
    case False
    with assms have i: "i < length (take e xs)" by simp
    have "mset (take e (xs[i := xs ! e])) = mset ((take e xs)[i := xs ! e])" by (simp add: take_update_swap)
    also have "\<dots> = add_mset (xs ! e) (mset (take e xs) - {#take e xs ! i#})" using i by (rule mset_update)
    also have "\<dots> = mset xs - {#xs ! i#}"
      using i nth_mem [OF i] by (simp add: m add_mset_remove_trivial_eq in_multiset_in_set)
    finally show ?thesis .
  qed
qed

lemma keyed_move_last:
  assumes "distinct (map f xs)" "i < length xs" "length xs = Suc e"
  shows "distinct (map f (take e (xs[i := xs ! e])))"
    "keyed f (take e (xs[i := xs ! e])) = (keyed f xs)(f (xs ! i) := None)"
proof -
  let ?ys = "take e (xs[i := xs ! e])"
  note m = mset_move_last [OF assms(2,3)]
  have xs: "mset xs = add_mset (xs ! i) (mset ?ys)" using m nth_mem [OF assms(2)] by simp
  then have "mset (map f xs) = mset (map f (xs ! i # ?ys))" by simp
  then have "distinct (map f (xs ! i # ?ys))" using assms(1) by (metis mset_eq_imp_distinct_iff)
  then show d: "distinct (map f ?ys)" by simp
  have s: "set xs = insert (xs ! i) (set ?ys)" using arg_cong [OF xs, of set_mset] by simp
  have "f (xs ! i) \<notin> f ` set ?ys" using \<open>distinct (map f (xs ! i # ?ys))\<close> by simp
  then show "keyed f ?ys = (keyed f xs)(f (xs ! i) := None)"
    using d assms(1) by (intro map_eqI) (auto simp: keyed_iff s, metis imageI)
qed

subsection \<open>User names\<close>

record user_name =
  un_fullName :: string
  un_splitPoint :: nat

definition UserName :: "string \<Rightarrow> string \<Rightarrow> user_name" where
  "UserName user dbname = \<lparr>un_fullName = user @ CHR ''@'' # dbname, un_splitPoint = length user\<rparr>"

definition un_getUser :: "user_name \<Rightarrow> string" where
  "un_getUser n = take (un_splitPoint n) (un_fullName n)"

definition un_getDB :: "user_name \<Rightarrow> string" where
  "un_getDB n = drop (un_splitPoint n + 1) (un_fullName n)"

definition un_eq :: "user_name \<Rightarrow> user_name \<Rightarrow> bool" where
  "un_eq a b \<longleftrightarrow> un_fullName a = un_fullName b"

lemma UserName_parts [simp]: "un_getUser (UserName u d) = u" "un_getDB (UserName u d) = d"
  by (simp_all add: un_getUser_def un_getDB_def UserName_def)

subsection \<open>Users\<close>

definition schemaVersionInvalid :: int where "schemaVersionInvalid = 0"
definition schemaVersion24 :: int where "schemaVersion24 = 1"
definition schemaVersion26Upgrade :: int where "schemaVersion26Upgrade = 2"
definition schemaVersion26Final :: int where "schemaVersion26Final = 3"

lemmas schema_versions = schemaVersionInvalid_def schemaVersion24_def schemaVersion26Upgrade_def schemaVersion26Final_def

record credential_data =
  cd_password :: string
  cd_isExternal :: bool

type_synonym pattern_key = "match_type \<times> string"

definition pattern_key :: "resource_pattern \<Rightarrow> pattern_key" where
  "pattern_key r = (rp_matchType r, ns_ns (rp_ns r))"

lemma pattern_key_eq: "pattern_key p = pattern_key q \<longleftrightarrow> pattern_eq p q"
  by (simp add: pattern_key_def pattern_eq_iff)

record user =
  us_name :: user_name
  us_privileges :: "pattern_key \<rightharpoonup> privilege"
  us_roles :: "string \<rightharpoonup> role_name"
  us_probedDatabases :: "string list"
  us_credentials :: credential_data
  us_schemaVersion :: int
  us_refCount :: "32 word"
  us_isValid :: bool

definition User :: "user_name \<Rightarrow> user" where
  "User name = \<lparr>us_name = name, us_privileges = Map.empty, us_roles = Map.empty,
     us_probedDatabases = [], us_credentials = \<lparr>cd_password = [], cd_isExternal = False\<rparr>,
     us_schemaVersion = schemaVersion26Final, us_refCount = 0, us_isValid = True\<rparr>"

definition hasRole :: "role_name \<Rightarrow> user \<Rightarrow> bool" where
  "hasRole roleName u \<longleftrightarrow> us_roles u (rn_fullName roleName) \<noteq> None"

definition getActionsForResource :: "user \<Rightarrow> resource_pattern \<Rightarrow> action_set" where
  "getActionsForResource u resource =
     (case us_privileges u (pattern_key resource) of None \<Rightarrow> emptyActionSet | Some p \<Rightarrow> pv_actions p)"

definition clone :: "user \<Rightarrow> user" where
  "clone u = (User (us_name u))\<lparr>us_privileges := us_privileges u, us_roles := us_roles u,
     us_probedDatabases := us_probedDatabases u, us_credentials := us_credentials u,
     us_schemaVersion := us_schemaVersion u\<rparr>"

definition setCredentials :: "credential_data \<Rightarrow> user \<Rightarrow> user" where
  "setCredentials c u = u\<lparr>us_credentials := c\<rparr>"

text \<open>\<open>unordered_set::insert\<close> keeps the element it has.\<close>

definition addRole :: "role_name \<Rightarrow> user \<Rightarrow> user" where
  "addRole r u =
     u\<lparr>us_roles := (if us_roles u (rn_fullName r) = None then (us_roles u)(rn_fullName r \<mapsto> r) else us_roles u)\<rparr>"

definition addRoles :: "role_name list \<Rightarrow> user \<Rightarrow> user" where
  "addRoles roles u = fold addRole roles u"

definition setRoles :: "role_name list \<Rightarrow> user \<Rightarrow> user" where
  "setRoles roles u = addRoles roles (u\<lparr>us_roles := Map.empty\<rparr>)"

definition setPrivileges :: "privilege list \<Rightarrow> user \<Rightarrow> user" where
  "setPrivileges privileges u =
     u\<lparr>us_privileges := fold (\<lambda>p m. m(pattern_key (pv_resource p) \<mapsto> p)) privileges Map.empty\<rparr>"

definition addPrivilege :: "privilege \<Rightarrow> user \<Rightarrow> user" where
  "addPrivilege p u =
     (case us_privileges u (pattern_key (pv_resource p)) of
        None \<Rightarrow> u\<lparr>us_privileges := (us_privileges u)(pattern_key (pv_resource p) \<mapsto> p)\<rparr>
      | Some q \<Rightarrow> u\<lparr>us_privileges := (us_privileges u)(pattern_key (pv_resource p) \<mapsto> addActions (pv_actions p) q)\<rparr>)"

definition addPrivileges :: "privilege list \<Rightarrow> user \<Rightarrow> user" where
  "addPrivileges privileges u = fold addPrivilege privileges u"

definition setSchemaVersion1 :: "user \<Rightarrow> user" where
  "setSchemaVersion1 u = u\<lparr>us_schemaVersion := schemaVersion24\<rparr>"

definition hasProbedV1 :: "string \<Rightarrow> user \<Rightarrow> bool" where
  "hasProbedV1 dbname u \<longleftrightarrow> dbname \<in> set (us_probedDatabases u)"

definition markProbedV1 :: "string \<Rightarrow> user \<Rightarrow> user" where
  "markProbedV1 dbname u =
     (if \<not> hasProbedV1 dbname u then u\<lparr>us_probedDatabases := us_probedDatabases u @ [dbname]\<rparr> else u)"

definition invalidate :: "user \<Rightarrow> user" where
  "invalidate u = u\<lparr>us_isValid := False\<rparr>"

definition incrementRefCount :: "user \<Rightarrow> user" where
  "incrementRefCount u = u\<lparr>us_refCount := us_refCount u + 1\<rparr>"

definition decrementRefCount :: "user \<Rightarrow> user" where
  "decrementRefCount u = u\<lparr>us_refCount := us_refCount u - 1\<rparr>"

subsection \<open>The set of authenticated users\<close>

text \<open>A vector of pointers, \<open>NULL\<close> behind the position \<open>_usersEnd\<close>. \<open>nm\<close> gives the names of the users.\<close>

type_synonym user_ptr = nat

record user_set =
  uset_users :: "user_ptr option list"
  uset_end :: nat

definition UserSet :: user_set where
  "UserSet = \<lparr>uset_users = [], uset_end = 0\<rparr>"

definition uset_range :: "user_set \<Rightarrow> user_ptr option list" where
  "uset_range s = take (uset_end s) (uset_users s)"

fun find_db :: "(user_ptr \<Rightarrow> user_name) \<Rightarrow> string \<Rightarrow> user_ptr option list \<Rightarrow> nat option result" where
  "find_db nm db [] = Inr None"
| "find_db nm db (None # ps) = Inl UndefinedBehaviour"
| "find_db nm db (Some p # ps) =
     (if un_getDB (nm p) = db then Inr (Some 0)
      else bindE (find_db nm db ps) (\<lambda>r. Inr (map_option Suc r)))"

definition uset_add :: "(user_ptr \<Rightarrow> user_name) \<Rightarrow> user_ptr \<Rightarrow> user_set \<Rightarrow> (user_set \<times> user_ptr option) result" where
  "uset_add nm user s =
     bindE (find_db nm (un_getDB (nm user)) (uset_range s)) (\<lambda>r.
       case r of
         Some i \<Rightarrow> Inr (s\<lparr>uset_users := (uset_users s)[i := Some user]\<rparr>, uset_users s ! i)
       | None \<Rightarrow>
           if uset_end s = length (uset_users s)
           then Inr (\<lparr>uset_users = uset_users s @ [Some user], uset_end = length (uset_users s) + 1\<rparr>, None)
           else Inr (\<lparr>uset_users = (uset_users s)[uset_end s := Some user], uset_end = uset_end s + 1\<rparr>, None))"

definition uset_replaceAt :: "nat \<Rightarrow> user_ptr \<Rightarrow> user_set \<Rightarrow> (user_set \<times> user_ptr option) result" where
  "uset_replaceAt offset replacement s =
     (if offset < length (uset_users s)
      then Inr (s\<lparr>uset_users := (uset_users s)[offset := Some replacement]\<rparr>, uset_users s ! offset)
      else Inl UndefinedBehaviour)"

definition uset_removeAt :: "nat \<Rightarrow> user_set \<Rightarrow> (user_set \<times> user_ptr option) result" where
  "uset_removeAt offset s =
     (if offset < length (uset_users s) \<and> 0 < uset_end s \<and> uset_end s \<le> length (uset_users s)
      then
        let old = uset_users s ! offset;
            e = uset_end s - 1;
            v = (uset_users s)[offset := uset_users s ! e]
        in Inr (\<lparr>uset_users = v[e := None], uset_end = e\<rparr>, old)
      else Inl UndefinedBehaviour)"

definition uset_removeByDBName :: "(user_ptr \<Rightarrow> user_name) \<Rightarrow> string \<Rightarrow> user_set \<Rightarrow> (user_set \<times> user_ptr option) result" where
  "uset_removeByDBName nm dbname s =
     bindE (find_db nm dbname (uset_range s)) (\<lambda>r.
       case r of Some i \<Rightarrow> uset_removeAt i s | None \<Rightarrow> Inr (s, None))"

definition uset_lookupByDBName :: "(user_ptr \<Rightarrow> user_name) \<Rightarrow> string \<Rightarrow> user_set \<Rightarrow> user_ptr option result" where
  "uset_lookupByDBName nm dbname s =
     bindE (find_db nm dbname (uset_range s)) (\<lambda>r.
       Inr (case r of Some i \<Rightarrow> uset_users s ! i | None \<Rightarrow> None))"

definition uset_lookup :: "(user_ptr \<Rightarrow> user_name) \<Rightarrow> user_name \<Rightarrow> user_set \<Rightarrow> user_ptr option result" where
  "uset_lookup nm name s =
     bindE (uset_lookupByDBName nm (un_getDB name) s) (\<lambda>r.
       Inr (case r of Some p \<Rightarrow> if un_eq (nm p) name then Some p else None | None \<Rightarrow> None))"

definition uset_size :: "user_set \<Rightarrow> nat" where
  "uset_size s = length (uset_users s)"

definition uset_getNames :: "(user_ptr \<Rightarrow> user_name) \<Rightarrow> user_set \<Rightarrow> user_name list" where
  "uset_getNames nm s = map (\<lambda>p. nm (the p)) (uset_range s)"

subsubsection \<open>As a map from databases to users\<close>

definition uset_contents :: "user_set \<Rightarrow> user_ptr list" where
  "uset_contents s = map the (uset_range s)"

text \<open>The vector is well formed, whatever the names of the users; and there is one user of a database.\<close>

definition uset_shape :: "user_set \<Rightarrow> bool" where
  "uset_shape s \<longleftrightarrow> uset_end s \<le> length (uset_users s) \<and> None \<notin> set (uset_range s)"

definition uset_ok :: "(user_ptr \<Rightarrow> user_name) \<Rightarrow> user_set \<Rightarrow> bool" where
  "uset_ok nm s \<longleftrightarrow> uset_shape s \<and> distinct (map (\<lambda>p. un_getDB (nm p)) (uset_contents s))"

abbreviation db_map :: "(user_ptr \<Rightarrow> user_name) \<Rightarrow> user_ptr list \<Rightarrow> string \<rightharpoonup> user_ptr" where
  "db_map nm \<equiv> keyed (\<lambda>p. un_getDB (nm p))"

lemma uset_shapeI:
  assumes "uset_range s = map Some ps" "uset_end s \<le> length (uset_users s)"
  shows "uset_shape s" "uset_contents s = ps"
  using assms by (auto simp: uset_shape_def uset_contents_def comp_def)

lemma uset_shapeD:
  assumes "uset_shape s"
  shows "uset_range s = map Some (uset_contents s)" "uset_end s \<le> length (uset_users s)"
    "length (uset_contents s) = uset_end s"
    "i < uset_end s \<Longrightarrow> uset_users s ! i = Some (uset_contents s ! i)"
proof -
  have "\<forall>x \<in> set (uset_range s). x = Some (the x)" using assms unfolding uset_shape_def by (metis option.collapse)
  then show r: "uset_range s = map Some (uset_contents s)" unfolding uset_contents_def by (simp add: map_idI)
  show "uset_end s \<le> length (uset_users s)" using assms by (simp add: uset_shape_def)
  then show l: "length (uset_contents s) = uset_end s" by (simp add: uset_contents_def uset_range_def)
  show "i < uset_end s \<Longrightarrow> uset_users s ! i = Some (uset_contents s ! i)"
    using arg_cong [OF r, of "\<lambda>xs. xs ! i"] l by (simp add: uset_range_def)
qed

lemma uset_update_shape:
  assumes "uset_shape s"
  shows "uset_shape (s\<lparr>uset_users := (uset_users s)[i := Some p]\<rparr>)"
    "uset_contents (s\<lparr>uset_users := (uset_users s)[i := Some p]\<rparr>) = (uset_contents s)[i := p]"
proof -
  have "uset_range (s\<lparr>uset_users := (uset_users s)[i := Some p]\<rparr>) = map Some ((uset_contents s)[i := p])"
    using uset_shapeD(1) [OF assms] by (simp add: uset_range_def take_update_swap map_update)
  from uset_shapeI [OF this] uset_shapeD(2) [OF assms]
  show "uset_shape (s\<lparr>uset_users := (uset_users s)[i := Some p]\<rparr>)"
    "uset_contents (s\<lparr>uset_users := (uset_users s)[i := Some p]\<rparr>) = (uset_contents s)[i := p]" by simp_all
qed

lemma find_db_spec:
  obtains "find_db nm db (map Some ps) = Inr None" "db_map nm ps db = None"
  | i where "find_db nm db (map Some ps) = Inr (Some i)" "i < length ps" "un_getDB (nm (ps ! i)) = db"
      "db_map nm ps db = Some (ps ! i)"
proof -
  have "find_db nm db (map Some ps) = Inr None \<and> db_map nm ps db = None \<or>
    (\<exists>i. find_db nm db (map Some ps) = Inr (Some i) \<and> i < length ps \<and> un_getDB (nm (ps ! i)) = db \<and>
      db_map nm ps db = Some (ps ! i))"
  proof (induction ps)
    case Nil
    then show ?case by (simp add: keyed_def)
  next
    case (Cons p ps)
    then show ?case by (cases "un_getDB (nm p) = db") (auto simp: keyed_def)
  qed
  then show ?thesis by (elim disjE exE conjE) (rule that; assumption)+
qed

lemma uset_append_shape:
  assumes "uset_shape s" "find_db nm (un_getDB (nm p)) (map Some (uset_contents s)) = Inr None"
  obtains s' where "uset_add nm p s = Inr (s', None)" "uset_shape s'" "uset_contents s' = uset_contents s @ [p]"
proof -
  note d = uset_shapeD [OF assms(1)]
  have f: "find_db nm (un_getDB (nm p)) (uset_range s) = Inr None" using assms(2) d(1) by simp
  have r: "take (uset_end s) (uset_users s) = map Some (uset_contents s)" using d(1) by (simp add: uset_range_def)
  show ?thesis
  proof (cases "uset_end s = length (uset_users s)")
    case True
    let ?s = "\<lparr>uset_users = uset_users s @ [Some p], uset_end = length (uset_users s) + 1\<rparr>"
    have "uset_range ?s = map Some (uset_contents s @ [p])" using r True by (simp add: uset_range_def)
    from uset_shapeI [OF this] show ?thesis by (intro that [of ?s]) (simp_all add: uset_add_def f True)
  next
    case False
    with d(2) have l: "uset_end s < length (uset_users s)" by simp
    let ?s = "\<lparr>uset_users = (uset_users s)[uset_end s := Some p], uset_end = uset_end s + 1\<rparr>"
    have "uset_range ?s = map Some (uset_contents s @ [p])" using r l by (simp add: uset_range_def take_Suc_conv_app_nth)
    from uset_shapeI [OF this] l show ?thesis by (intro that [of ?s]) (simp_all add: uset_add_def f False)
  qed
qed

text \<open>Adding a user appends it, or replaces the first user of its database.\<close>

lemma uset_add_shape:
  assumes "uset_shape s"
  obtains (append) s' where "uset_add nm p s = Inr (s', None)" "uset_shape s'" "uset_contents s' = uset_contents s @ [p]"
      "db_map nm (uset_contents s) (un_getDB (nm p)) = None"
  | (replace) s' i where "uset_add nm p s = Inr (s', Some (uset_contents s ! i))" "uset_shape s'"
      "uset_contents s' = (uset_contents s)[i := p]" "i < length (uset_contents s)"
      "un_getDB (nm (uset_contents s ! i)) = un_getDB (nm p)"
      "db_map nm (uset_contents s) (un_getDB (nm p)) = Some (uset_contents s ! i)"
proof (rule find_db_spec [of nm "un_getDB (nm p)" "uset_contents s"])
  assume f: "find_db nm (un_getDB (nm p)) (map Some (uset_contents s)) = Inr None"
    "db_map nm (uset_contents s) (un_getDB (nm p)) = None"
  show ?thesis by (rule uset_append_shape [OF assms f(1)]) (rule append [OF _ _ _ f(2)])
next
  note d = uset_shapeD [OF assms]
  fix i assume f: "find_db nm (un_getDB (nm p)) (map Some (uset_contents s)) = Inr (Some i)" "i < length (uset_contents s)"
    "un_getDB (nm (uset_contents s ! i)) = un_getDB (nm p)"
    "db_map nm (uset_contents s) (un_getDB (nm p)) = Some (uset_contents s ! i)"
  have "uset_add nm p s = Inr (s\<lparr>uset_users := (uset_users s)[i := Some p]\<rparr>, Some (uset_contents s ! i))"
    using f(1,2) d(1,3) d(4) [of i] by (simp add: uset_add_def)
  from replace [OF this uset_update_shape [OF assms] f(2-4)] show ?thesis .
qed

lemma uset_replaceAt_shape:
  assumes "uset_shape s" "i < uset_end s"
  obtains s' where "uset_replaceAt i p s = Inr (s', Some (uset_contents s ! i))" "uset_shape s'"
    "uset_contents s' = (uset_contents s)[i := p]" "uset_end s' = uset_end s"
proof (rule that [OF _ uset_update_shape [OF assms(1)]])
  show "uset_replaceAt i p s = Inr (s\<lparr>uset_users := (uset_users s)[i := Some p]\<rparr>, Some (uset_contents s ! i))"
    using assms uset_shapeD(2,4) [OF assms(1)] by (simp add: uset_replaceAt_def)
qed simp

lemma uset_removeAt_shape:
  assumes "uset_shape s" "i < uset_end s"
  obtains s' where "uset_removeAt i s = Inr (s', Some (uset_contents s ! i))" "uset_shape s'"
    "uset_contents s' = take (uset_end s - 1) ((uset_contents s)[i := uset_contents s ! (uset_end s - 1)])"
    "uset_end s' = uset_end s - 1"
proof -
  note d = uset_shapeD [OF assms(1)]
  let ?e = "uset_end s - 1" and ?c = "uset_contents s"
  let ?s = "\<lparr>uset_users = (uset_users s)[i := uset_users s ! ?e, ?e := None], uset_end = ?e\<rparr>"
  have u: "uset_users s ! i = Some (?c ! i)" "uset_users s ! ?e = Some (?c ! ?e)" using d(4) assms(2) by simp_all
  have r': "take ?e (uset_users s) = map Some (take ?e ?c)"
    using arg_cong [OF d(1), of "take ?e"] by (simp add: take_map uset_range_def min_def)
  have "uset_range ?s = take ?e ((uset_users s)[i := uset_users s ! ?e])" by (simp add: uset_range_def)
  also have "\<dots> = (take ?e (uset_users s))[i := uset_users s ! ?e]" by (rule take_update_swap)
  also have "\<dots> = map Some (take ?e (?c[i := ?c ! ?e]))"
    unfolding r' u(2) by (simp add: take_update_swap map_update)
  finally have range: "uset_range ?s = map Some (take ?e (?c[i := ?c ! ?e]))" .
  from uset_shapeI [OF range] d(2) show ?thesis
    by (intro that [of ?s]) (use assms(2) u in \<open>simp_all add: uset_removeAt_def Let_def\<close>)
qed

lemma uset_removeByDBName_shape:
  assumes "uset_shape s"
  obtains (none) "uset_removeByDBName nm db s = Inr (s, None)" "db_map nm (uset_contents s) db = None"
  | (some) s' i where "uset_removeByDBName nm db s = Inr (s', Some (uset_contents s ! i))" "uset_shape s'"
      "uset_contents s' = take (uset_end s - 1) ((uset_contents s)[i := uset_contents s ! (uset_end s - 1)])"
      "i < length (uset_contents s)" "un_getDB (nm (uset_contents s ! i)) = db"
      "db_map nm (uset_contents s) db = Some (uset_contents s ! i)"
proof (rule find_db_spec [of nm db "uset_contents s"])
  assume f: "find_db nm db (map Some (uset_contents s)) = Inr None" "db_map nm (uset_contents s) db = None"
  show ?thesis by (rule none) (use f uset_shapeD(1) [OF assms] in \<open>simp_all add: uset_removeByDBName_def\<close>)
next
  fix i assume f: "find_db nm db (map Some (uset_contents s)) = Inr (Some i)" "i < length (uset_contents s)"
    "un_getDB (nm (uset_contents s ! i)) = db" "db_map nm (uset_contents s) db = Some (uset_contents s ! i)"
  have "i < uset_end s" using f(2) uset_shapeD(3) [OF assms] by simp
  show ?thesis
  proof (rule uset_removeAt_shape [OF assms \<open>i < uset_end s\<close>])
    fix s' assume s': "uset_removeAt i s = Inr (s', Some (uset_contents s ! i))" "uset_shape s'"
      "uset_contents s' = take (uset_end s - 1) ((uset_contents s)[i := uset_contents s ! (uset_end s - 1)])"
    show ?thesis
      by (rule some [OF _ s'(2,3) f(2-4)]) (use f(1) s'(1) uset_shapeD(1) [OF assms] in \<open>simp add: uset_removeByDBName_def\<close>)
  qed
qed

lemma uset_okD:
  assumes "uset_ok nm s"
  shows "uset_shape s" "distinct (map (\<lambda>p. un_getDB (nm p)) (uset_contents s))"
  using assms by (simp_all add: uset_ok_def)

lemma uset_add_ok:
  assumes "uset_ok nm s"
  shows "\<exists>s'. uset_add nm p s = Inr (s', db_map nm (uset_contents s) (un_getDB (nm p))) \<and> uset_ok nm s' \<and>
    db_map nm (uset_contents s') = (db_map nm (uset_contents s))(un_getDB (nm p) \<mapsto> p)"
proof (rule uset_add_shape [OF uset_okD(1) [OF assms], of nm p])
  note d = uset_okD(2) [OF assms]
  fix s' assume s': "uset_add nm p s = Inr (s', None)" "uset_shape s'" "uset_contents s' = uset_contents s @ [p]"
    "db_map nm (uset_contents s) (un_getDB (nm p)) = None"
  then have new: "un_getDB (nm p) \<notin> (\<lambda>p. un_getDB (nm p)) ` set (uset_contents s)" by (simp add: keyed_None)
  with s' keyed_snoc [OF d new] d show ?thesis by (simp add: uset_ok_def)
next
  note d = uset_okD(2) [OF assms]
  fix s' i assume s': "uset_add nm p s = Inr (s', Some (uset_contents s ! i))" "uset_shape s'"
    "uset_contents s' = (uset_contents s)[i := p]" and i: "i < length (uset_contents s)"
    "un_getDB (nm (uset_contents s ! i)) = un_getDB (nm p)"
    "db_map nm (uset_contents s) (un_getDB (nm p)) = Some (uset_contents s ! i)"
  with keyed_update [OF d i(1,2)] distinct_map_update [OF d i(1,2)] show ?thesis by (simp add: uset_ok_def)
qed

lemma uset_removeByDBName_ok:
  assumes "uset_ok nm s"
  shows "\<exists>s'. uset_removeByDBName nm db s = Inr (s', db_map nm (uset_contents s) db) \<and> uset_ok nm s' \<and>
    db_map nm (uset_contents s') = (db_map nm (uset_contents s))(db := None)"
proof (rule uset_removeByDBName_shape [OF uset_okD(1) [OF assms], of nm db])
  assume "uset_removeByDBName nm db s = Inr (s, None)" "db_map nm (uset_contents s) db = None"
  with assms show ?thesis by (simp add: fun_upd_idem)
next
  note d = uset_okD(2) [OF assms]
  fix s' i assume s': "uset_removeByDBName nm db s = Inr (s', Some (uset_contents s ! i))" "uset_shape s'"
    "uset_contents s' = take (uset_end s - 1) ((uset_contents s)[i := uset_contents s ! (uset_end s - 1)])"
    and i: "i < length (uset_contents s)" "un_getDB (nm (uset_contents s ! i)) = db"
      "db_map nm (uset_contents s) db = Some (uset_contents s ! i)"
  have "length (uset_contents s) = Suc (uset_end s - 1)" using i(1) uset_shapeD(3) [OF uset_okD(1) [OF assms]] by simp
  from keyed_move_last [OF d i(1) this] s' i show ?thesis by (simp add: uset_ok_def)
qed

lemma uset_lookup_ok:
  assumes "uset_ok nm s"
  shows "uset_lookupByDBName nm db s = Inr (db_map nm (uset_contents s) db)"
proof (rule find_db_spec [of nm db "uset_contents s"])
  note d = uset_shapeD [OF uset_okD(1) [OF assms]]
  {
    assume "find_db nm db (map Some (uset_contents s)) = Inr None" "db_map nm (uset_contents s) db = None"
    then show ?thesis by (simp add: uset_lookupByDBName_def d(1))
  next
    fix i assume "find_db nm db (map Some (uset_contents s)) = Inr (Some i)" "i < length (uset_contents s)"
      "db_map nm (uset_contents s) db = Some (uset_contents s ! i)"
    then show ?thesis using d(4) [of i] d(3) by (simp add: uset_lookupByDBName_def d(1))
  }
qed

text \<open>
  (C33) The set of authenticated users implements a map from databases to users: adding a user
  replaces the user of its database and returns the one replaced, removing by database returns the
  user removed, looking up finds it, and no operation reads behind the end. The size it reports is
  not the number of users, though: removed users still count.
\<close>

theorem user_set_refines_map:
  "(uset_ok nm s \<longrightarrow>
     (\<exists>s'. uset_add nm p s = Inr (s', db_map nm (uset_contents s) (un_getDB (nm p))) \<and> uset_ok nm s' \<and>
       db_map nm (uset_contents s') = (db_map nm (uset_contents s))(un_getDB (nm p) \<mapsto> p)) \<and>
     (\<exists>s'. uset_removeByDBName nm db s = Inr (s', db_map nm (uset_contents s) db) \<and> uset_ok nm s' \<and>
       db_map nm (uset_contents s') = (db_map nm (uset_contents s))(db := None)) \<and>
     uset_lookupByDBName nm db s = Inr (db_map nm (uset_contents s) db)) \<and>
   uset_ok nm UserSet \<and> db_map nm (uset_contents UserSet) = Map.empty \<and>
   (\<exists>s1 s2. uset_add nm p UserSet = Inr (s1, None) \<and> uset_removeByDBName nm (un_getDB (nm p)) s1 = Inr (s2, Some p) \<and>
     uset_contents s2 = [] \<and> uset_size s2 = 1)"
proof -
  have "uset_ok nm UserSet" "uset_contents UserSet = []"
    by (simp_all add: uset_ok_def uset_shape_def uset_contents_def uset_range_def UserSet_def)
  moreover have "\<exists>s1 s2. uset_add nm p UserSet = Inr (s1, None) \<and> uset_removeByDBName nm (un_getDB (nm p)) s1 = Inr (s2, Some p) \<and>
     uset_contents s2 = [] \<and> uset_size s2 = 1"
    by (simp add: uset_add_def UserSet_def uset_range_def uset_removeByDBName_def uset_removeAt_def uset_contents_def uset_size_def)
  ultimately show ?thesis
    using uset_add_ok [of nm s p] uset_removeByDBName_ok [of nm s db] uset_lookup_ok [of nm s db]
    by (simp add: keyed_def)
qed

theorem user_set_refines_map_witness:
  "uset_lookupByDBName (\<lambda>p. UserName ''u'' (if p = 1 then ''a'' else ''b'')) ''b''
     \<lparr>uset_users = [Some 1, Some 2, None], uset_end = 2\<rparr> = Inr (Some 2)"
proof -
  let ?nm = "\<lambda>p. UserName ''u'' (if p = 1 then ''a'' else ''b'')"
  let ?s = "\<lparr>uset_users = [Some 1, Some 2, None], uset_end = 2\<rparr>"
  have "uset_ok ?nm ?s" by (simp add: uset_ok_def uset_shape_def uset_range_def uset_contents_def numeral_2_eq_2)
  with user_set_refines_map [of ?nm ?s 1 "''b''"] have
    "uset_lookupByDBName ?nm ''b'' ?s = Inr (db_map ?nm (uset_contents ?s) ''b'')" by blast
  then show ?thesis by (simp add: uset_range_def uset_contents_def keyed_def numeral_2_eq_2)
qed

end
