(* ===== verification/Authz_Session.thy ===== *)
theory Authz_Session
  imports Auth_User Bson_Element Builtin_Roles
begin

text \<open>
  \<open>src/mongo/db/auth/authorization_session.cpp\<close>: the users authenticated in a client session and
  the decisions what the session may do. The authorization manager, which owns the user objects, is
  seen through the operations the session calls; what they promise is a locale below.
\<close>

subsection \<open>The session and its manager\<close>

text \<open>
  \<open>ao_user m p\<close> is the object behind the pointer \<open>p\<close> in the state \<open>m\<close> of the manager. An acquisition
  returns a status and a pointer that means something when the status is OK.
\<close>

record 'm authz_ops =
  ao_user :: "'m \<Rightarrow> user_ptr \<Rightarrow> user"
  ao_acquireUser :: "user_name \<Rightarrow> 'm \<Rightarrow> (status \<times> user_ptr) \<times> 'm"
  ao_acquireV1UserProbedForDb :: "user_name \<Rightarrow> string \<Rightarrow> 'm \<Rightarrow> (status \<times> user_ptr) \<times> 'm"
  ao_releaseUser :: "user_ptr \<Rightarrow> 'm \<Rightarrow> 'm"
  ao_internalUser :: user_ptr

record 'm session =
  ss_users :: user_set
  ss_manager :: 'm

definition names :: "'m authz_ops \<Rightarrow> 'm \<Rightarrow> user_ptr \<Rightarrow> user_name" where
  "names ops m p = us_name (ao_user ops m p)"

definition AuthorizationSession :: "'m \<Rightarrow> 'm session" where
  "AuthorizationSession m = \<lparr>ss_users = UserSet, ss_manager = m\<rparr>"

definition release_users :: "'m authz_ops \<Rightarrow> 'm session \<Rightarrow> 'm" where
  "release_users ops ss = fold (ao_releaseUser ops) (uset_contents (ss_users ss)) (ss_manager ss)"

definition release_if :: "'m authz_ops \<Rightarrow> user_ptr option \<Rightarrow> 'm \<Rightarrow> 'm" where
  "release_if ops p m = (case p of None \<Rightarrow> m | Some q \<Rightarrow> ao_releaseUser ops q m)"

definition addAndAuthorizeUser :: "'m authz_ops \<Rightarrow> user_name \<Rightarrow> 'm session \<Rightarrow> (status \<times> 'm session) result" where
  "addAndAuthorizeUser ops userName ss =
     (let ((st, user), m) = ao_acquireUser ops userName (ss_manager ss)
      in if \<not> isOK st then Inr (st, ss\<lparr>ss_manager := m\<rparr>)
         else bindE (uset_add (names ops m) user (ss_users ss)) (\<lambda>(us, replaced).
           Inr (Status_OK, \<lparr>ss_users = us, ss_manager = release_if ops replaced m\<rparr>)))"

definition lookupUser :: "'m authz_ops \<Rightarrow> user_name \<Rightarrow> 'm session \<Rightarrow> user_ptr option result" where
  "lookupUser ops name ss = uset_lookup (names ops (ss_manager ss)) name (ss_users ss)"

definition getNumAuthenticatedUsers :: "'m session \<Rightarrow> nat" where
  "getNumAuthenticatedUsers ss = uset_size (ss_users ss)"

definition logoutDatabase :: "'m authz_ops \<Rightarrow> string \<Rightarrow> 'm session \<Rightarrow> 'm session result" where
  "logoutDatabase ops dbname ss =
     bindE (uset_removeByDBName (names ops (ss_manager ss)) dbname (ss_users ss)) (\<lambda>(us, removed).
       Inr \<lparr>ss_users = us, ss_manager = release_if ops removed (ss_manager ss)\<rparr>)"

definition getAuthenticatedUserNames :: "'m authz_ops \<Rightarrow> 'm session \<Rightarrow> user_name list" where
  "getAuthenticatedUserNames ops ss = uset_getNames (names ops (ss_manager ss)) (ss_users ss)"

definition getAuthenticatedUserNamesToken :: "'m authz_ops \<Rightarrow> 'm session \<Rightarrow> string" where
  "getAuthenticatedUserNamesToken ops ss =
     concat (map (\<lambda>n. CHR 0x00 # un_fullName n) (getAuthenticatedUserNames ops ss))"

definition grantInternalAuthorization :: "'m authz_ops \<Rightarrow> 'm session \<Rightarrow> 'm session result" where
  "grantInternalAuthorization ops ss =
     bindE (uset_add (names ops (ss_manager ss)) (ao_internalUser ops) (ss_users ss)) (\<lambda>(us, _).
       Inr (ss\<lparr>ss_users := us\<rparr>))"

subsection \<open>Which privileges apply to a target\<close>

definition isExactNamespacePattern :: "resource_pattern \<Rightarrow> bool" where
  "isExactNamespacePattern r \<longleftrightarrow> rp_matchType r = matchExactNamespace"

definition isDatabasePattern :: "resource_pattern \<Rightarrow> bool" where
  "isDatabasePattern r \<longleftrightarrow> rp_matchType r = matchDatabaseName"

definition databaseToMatch :: "resource_pattern \<Rightarrow> string" where
  "databaseToMatch r = ns_db (rp_ns r)"

definition buildResourceSearchList :: "resource_pattern \<Rightarrow> resource_pattern list result" where
  "buildResourceSearchList target =
     bindE
       (if isExactNamespacePattern target then
          bindE (ns_isSystem (rp_ns target)) (\<lambda>system.
          bindE (if \<not> system
                 then bindE (forDatabaseName (ns_db (rp_ns target))) (\<lambda>d. Inr [forAnyNormalResource, d])
                 else Inr []) (\<lambda>l.
          bindE (ns_coll (rp_ns target)) (\<lambda>c.
          bindE (forCollectionName c) (\<lambda>cp. Inr (l @ [cp])))))
        else if isDatabasePattern target then Inr [forAnyNormalResource]
        else Inr [])
       (\<lambda>l. Inr (forAnyResource # l @ [target]))"

subsection \<open>Decisions\<close>

fun meet_requirements :: "user \<Rightarrow> resource_pattern list \<Rightarrow> action_set \<Rightarrow> bool \<times> action_set" where
  "meet_requirements u [] unmet = (False, unmet)"
| "meet_requirements u (r # rs) unmet =
     (let unmet' = removeAllActionsFromSet (getActionsForResource u r) unmet
      in if unmet' = emptyActionSet then (True, unmet') else meet_requirements u rs unmet')"

text \<open>A version 1 user whose privileges on the database of the target are not known yet is probed.\<close>

definition needs_probe :: "user \<Rightarrow> resource_pattern \<Rightarrow> bool" where
  "needs_probe u target \<longleftrightarrow> us_schemaVersion u = schemaVersion24 \<and>
     (isDatabasePattern target \<or> isExactNamespacePattern target) \<and> \<not> hasProbedV1 (databaseToMatch target) u"

definition probe_user :: "'m authz_ops \<Rightarrow> resource_pattern \<Rightarrow> nat \<Rightarrow> user_ptr \<Rightarrow> 'm session \<Rightarrow> (user_ptr \<times> 'm session) result" where
  "probe_user ops target i user ss =
     (if needs_probe (ao_user ops (ss_manager ss) user) target then
        let ((st, updated), m) = ao_acquireV1UserProbedForDb ops (names ops (ss_manager ss) user)
              (databaseToMatch target) (ss_manager ss)
        in if isOK st then
             bindE (if user \<noteq> updated
                    then bindE (uset_replaceAt i updated (ss_users ss)) (\<lambda>(us, old).
                      bindE (fassert 17226 (old = Some user)) (\<lambda>_. Inr us))
                    else Inr (ss_users ss)) (\<lambda>us.
               Inr (updated, \<lparr>ss_users = us, ss_manager = ao_releaseUser ops user m\<rparr>))
           else Inr (user, ss\<lparr>ss_manager := m\<rparr>)
      else Inr (user, ss))"

text \<open>The loop over the authenticated users: \<open>n\<close> users from position \<open>i\<close> on are left.\<close>

fun authorize_loop :: "'m authz_ops \<Rightarrow> resource_pattern \<Rightarrow> resource_pattern list \<Rightarrow> nat \<Rightarrow> nat \<Rightarrow> action_set \<Rightarrow> 'm session \<Rightarrow> (bool \<times> 'm session) result" where
  "authorize_loop ops target searchList 0 i unmet ss = Inr (False, ss)"
| "authorize_loop ops target searchList (Suc n) i unmet ss =
     (if length (uset_users (ss_users ss)) \<le> i then Inl UndefinedBehaviour
      else case uset_users (ss_users ss) ! i of
        None \<Rightarrow> Inl UndefinedBehaviour
      | Some user \<Rightarrow>
          bindE (probe_user ops target i user ss) (\<lambda>(user', ss').
            let (met, unmet') = meet_requirements (ao_user ops (ss_manager ss') user') searchList unmet
            in if met then Inr (True, ss')
               else authorize_loop ops target searchList n (Suc i) unmet' ss'))"

definition isAuthorizedForPrivilege_impl :: "'m authz_ops \<Rightarrow> privilege \<Rightarrow> 'm session \<Rightarrow> (bool \<times> 'm session) result" where
  "isAuthorizedForPrivilege_impl ops p ss =
     bindE (buildResourceSearchList (pv_resource p)) (\<lambda>searchList.
       authorize_loop ops (pv_resource p) searchList (uset_end (ss_users ss)) 0 (pv_actions p) ss)"

text \<open>\<open>ignore\<close>: what \<open>shouldIgnoreAuthChecks\<close> of the external state says.\<close>

definition isAuthorizedForPrivilege :: "'m authz_ops \<Rightarrow> bool \<Rightarrow> privilege \<Rightarrow> 'm session \<Rightarrow> (bool \<times> 'm session) result" where
  "isAuthorizedForPrivilege ops ignore p ss =
     (if ignore then Inr (True, ss) else isAuthorizedForPrivilege_impl ops p ss)"

fun authorize_all :: "'m authz_ops \<Rightarrow> privilege list \<Rightarrow> 'm session \<Rightarrow> (bool \<times> 'm session) result" where
  "authorize_all ops [] ss = Inr (True, ss)"
| "authorize_all ops (p # ps) ss =
     bindE (isAuthorizedForPrivilege_impl ops p ss) (\<lambda>(ok, ss').
       if \<not> ok then Inr (False, ss') else authorize_all ops ps ss')"

definition isAuthorizedForPrivileges :: "'m authz_ops \<Rightarrow> bool \<Rightarrow> privilege list \<Rightarrow> 'm session \<Rightarrow> (bool \<times> 'm session) result" where
  "isAuthorizedForPrivileges ops ignore ps ss =
     (if ignore then Inr (True, ss) else authorize_all ops ps ss)"

definition isAuthorizedForActionsOnResource :: "'m authz_ops \<Rightarrow> bool \<Rightarrow> resource_pattern \<Rightarrow> action_set \<Rightarrow> 'm session \<Rightarrow> (bool \<times> 'm session) result" where
  "isAuthorizedForActionsOnResource ops ignore r actions ss = isAuthorizedForPrivilege ops ignore (Privilege r actions) ss"

definition isAuthorizedForActionOnResource :: "'m authz_ops \<Rightarrow> bool \<Rightarrow> resource_pattern \<Rightarrow> action_type \<Rightarrow> 'm session \<Rightarrow> (bool \<times> 'm session) result" where
  "isAuthorizedForActionOnResource ops ignore r a ss = isAuthorizedForPrivilege ops ignore (Privilege_action r a) ss"

definition isAuthorizedForActionsOnNamespace :: "'m authz_ops \<Rightarrow> bool \<Rightarrow> namespace_string \<Rightarrow> action_set \<Rightarrow> 'm session \<Rightarrow> (bool \<times> 'm session) result" where
  "isAuthorizedForActionsOnNamespace ops ignore ns actions ss =
     isAuthorizedForPrivilege ops ignore (Privilege (forExactNamespace ns) actions) ss"

definition isAuthorizedForActionOnNamespace :: "'m authz_ops \<Rightarrow> bool \<Rightarrow> namespace_string \<Rightarrow> action_type \<Rightarrow> 'm session \<Rightarrow> (bool \<times> 'm session) result" where
  "isAuthorizedForActionOnNamespace ops ignore ns a ss =
     isAuthorizedForPrivilege ops ignore (Privilege_action (forExactNamespace ns) a) ss"

definition check_status :: "error_code \<Rightarrow> string \<Rightarrow> (bool \<times> 'm session) result \<Rightarrow> (status \<times> 'm session) result" where
  "check_status code msg r =
     bindE r (\<lambda>(ok, ss). Inr (if \<not> ok then Status code msg 0 else Status_OK, ss))"

definition checkAuthForQuery :: "'m authz_ops \<Rightarrow> bool \<Rightarrow> namespace_string \<Rightarrow> 'm session \<Rightarrow> (status \<times> 'm session) result" where
  "checkAuthForQuery ops ignore ns ss =
     bindE (ns_isCommand ns) (\<lambda>cmd.
       if cmd then Inr (Status InternalError (''Checking query auth on command namespace '' @ ns_ns ns) 0, ss)
       else check_status Unauthorized (''not authorized for query on '' @ ns_ns ns)
              (isAuthorizedForActionOnNamespace ops ignore ns (action ''find'') ss))"

definition checkAuthForGetMore :: "'m authz_ops \<Rightarrow> bool \<Rightarrow> namespace_string \<Rightarrow> 'm session \<Rightarrow> (status \<times> 'm session) result" where
  "checkAuthForGetMore ops ignore ns ss =
     check_status Unauthorized (''not authorized for getmore on '' @ ns_ns ns)
       (isAuthorizedForActionOnNamespace ops ignore ns (action ''find'') ss)"

definition checkAuthForUpdate :: "'m authz_ops \<Rightarrow> bool \<Rightarrow> namespace_string \<Rightarrow> bool \<Rightarrow> 'm session \<Rightarrow> (status \<times> 'm session) result" where
  "checkAuthForUpdate ops ignore ns upsert ss =
     (if \<not> upsert
      then check_status Unauthorized (''not authorized for update on '' @ ns_ns ns)
             (isAuthorizedForActionOnNamespace ops ignore ns (action ''update'') ss)
      else
        let required = addAction (action ''insert'') (addAction (action ''update'') emptyActionSet)
        in check_status Unauthorized (''not authorized for upsert on '' @ ns_ns ns)
             (isAuthorizedForActionsOnNamespace ops ignore ns required ss))"

definition checkAuthForDelete :: "'m authz_ops \<Rightarrow> bool \<Rightarrow> namespace_string \<Rightarrow> 'm session \<Rightarrow> (status \<times> 'm session) result" where
  "checkAuthForDelete ops ignore ns ss =
     check_status Unauthorized (''not authorized to remove from '' @ ns_ns ns)
       (isAuthorizedForActionOnNamespace ops ignore ns (action ''remove'') ss)"

text \<open>
  The value of a string element: \<open>std::string(valuestr(), valuestrsize() - 1)\<close>; a negative length is
  the exception \<open>std::length_error\<close>.
\<close>

definition elem_str :: "string \<Rightarrow> string result" where
  "elem_str e =
     bindE (elem_type e) (\<lambda>t.
       if t \<noteq> BSONType_to_int String then Inr []
       else bindE (elem_value e) (\<lambda>v.
            bindE (read_int v) (\<lambda>size.
            bindE (checked32 (size - 1)) (\<lambda>n.
              if n < 0 then Inl OutOfRange
              else if length v < 4 + nat n then Inl UndefinedBehaviour
              else Inr (take (nat n) (drop 4 v))))))"

definition check_insert_index :: "'m authz_ops \<Rightarrow> bool \<Rightarrow> string \<Rightarrow> 'm session \<Rightarrow> (status \<times> 'm session) result" where
  "check_insert_index ops ignore nsElement ss =
     bindE (elem_type nsElement) (\<lambda>t.
       if t \<noteq> BSONType_to_int String
       then Inr (Status Unauthorized
         (''Cannot authorize inserting into system.indexes documents without a string-typed '' @
          [CHR 0x22] @ ''ns'' @ [CHR 0x22] @ '' field.'') 0, ss)
       else bindE (elem_str nsElement) (\<lambda>str.
         let indexNS = NamespaceString str
         in check_status Unauthorized (''not authorized to create index on '' @ ns_ns indexNS)
              (isAuthorizedForActionOnNamespace ops ignore indexNS (action ''createIndex'') ss)))"

text \<open>\<open>None\<close>: the search for the field \<open>ns\<close> in the document does not end (see \<open>Bson_Element\<close>).\<close>

definition checkAuthForInsert :: "'m authz_ops \<Rightarrow> bool \<Rightarrow> namespace_string \<Rightarrow> string \<Rightarrow> 'm session \<Rightarrow> (status \<times> 'm session) result option" where
  "checkAuthForInsert ops ignore ns document ss =
     (case ns_coll ns of
        Inl e \<Rightarrow> Some (Inl e)
      | Inr coll \<Rightarrow>
          if coll = ''system.indexes'' then
            map_option (\<lambda>r. bindE r (\<lambda>nsElement. check_insert_index ops ignore nsElement ss)) (getField document ''ns'')
          else
            Some (check_status Unauthorized (''not authorized for insert on '' @ ns_ns ns)
              (isAuthorizedForActionOnNamespace ops ignore ns (action ''insert'') ss)))"

definition check_grant :: "'m authz_ops \<Rightarrow> bool \<Rightarrow> string \<Rightarrow> string \<Rightarrow> string \<Rightarrow> privilege \<Rightarrow> 'm session \<Rightarrow> (status \<times> 'm session) result" where
  "check_grant ops ignore act on_db on_many p ss =
     (if isDatabasePattern (pv_resource p) \<or> isExactNamespacePattern (pv_resource p) then
        bindE (forDatabaseName (databaseToMatch (pv_resource p))) (\<lambda>r.
          check_status Unauthorized (on_db @ databaseToMatch (pv_resource p) @ ''database'')
            (isAuthorizedForActionOnResource ops ignore r (action act) ss))
      else
        bindE (forDatabaseName ''admin'') (\<lambda>r.
          check_status Unauthorized on_many (isAuthorizedForActionOnResource ops ignore r (action act) ss)))"

definition checkAuthorizedToGrantPrivilege :: "'m authz_ops \<Rightarrow> bool \<Rightarrow> privilege \<Rightarrow> 'm session \<Rightarrow> (status \<times> 'm session) result" where
  "checkAuthorizedToGrantPrivilege ops ignore =
     check_grant ops ignore ''grantRole'' ''Not authorized to grant privileges on the ''
       ''To grant privileges affecting multiple databases or the cluster, must be authorized to grant roles from the admin database''"

definition checkAuthorizedToRevokePrivilege :: "'m authz_ops \<Rightarrow> bool \<Rightarrow> privilege \<Rightarrow> 'm session \<Rightarrow> (status \<times> 'm session) result" where
  "checkAuthorizedToRevokePrivilege ops ignore =
     check_grant ops ignore ''revokeRole'' ''Not authorized to revoke privileges on the ''
       ''To revoke privileges affecting multiple databases or the cluster, must be authorized to revoke roles from the admin database''"

definition isAuthorizedToGrantRole :: "'m authz_ops \<Rightarrow> bool \<Rightarrow> role_name \<Rightarrow> 'm session \<Rightarrow> (bool \<times> 'm session) result" where
  "isAuthorizedToGrantRole ops ignore role ss =
     bindE (forDatabaseName (getDB role)) (\<lambda>r. isAuthorizedForActionOnResource ops ignore r (action ''grantRole'') ss)"

definition isAuthorizedToRevokeRole :: "'m authz_ops \<Rightarrow> bool \<Rightarrow> role_name \<Rightarrow> 'm session \<Rightarrow> (bool \<times> 'm session) result" where
  "isAuthorizedToRevokeRole ops ignore role ss =
     bindE (forDatabaseName (getDB role)) (\<lambda>r. isAuthorizedForActionOnResource ops ignore r (action ''revokeRole'') ss)"

definition own_actions :: "user \<Rightarrow> resource_pattern list \<Rightarrow> action_set" where
  "own_actions u searchList =
     fold (\<lambda>r actions. addAllActionsFromSet (getActionsForResource u r) actions) searchList emptyActionSet"

definition isAuthorizedToChangeOwn :: "'m authz_ops \<Rightarrow> string \<Rightarrow> user_name \<Rightarrow> 'm session \<Rightarrow> bool result" where
  "isAuthorizedToChangeOwn ops act userName ss =
     bindE (lookupUser ops userName ss) (\<lambda>user.
       case user of
         None \<Rightarrow> Inr False
       | Some p \<Rightarrow>
           bindE (forDatabaseName (un_getDB userName)) (\<lambda>r.
           bindE (buildResourceSearchList r) (\<lambda>searchList.
             Inr (contains (own_actions (ao_user ops (ss_manager ss) p) searchList) (action act)))))"

definition isAuthorizedToChangeOwnPasswordAsUser :: "'m authz_ops \<Rightarrow> user_name \<Rightarrow> 'm session \<Rightarrow> bool result" where
  "isAuthorizedToChangeOwnPasswordAsUser ops = isAuthorizedToChangeOwn ops ''changeOwnPassword''"

definition isAuthorizedToChangeOwnCustomDataAsUser :: "'m authz_ops \<Rightarrow> user_name \<Rightarrow> 'm session \<Rightarrow> bool result" where
  "isAuthorizedToChangeOwnCustomDataAsUser ops = isAuthorizedToChangeOwn ops ''changeOwnCustomData''"

definition isAuthenticatedAsUserWithRole :: "'m authz_ops \<Rightarrow> role_name \<Rightarrow> 'm session \<Rightarrow> bool" where
  "isAuthenticatedAsUserWithRole ops roleName ss =
     list_ex (\<lambda>p. hasRole roleName (ao_user ops (ss_manager ss) p)) (uset_contents (ss_users ss))"

subsection \<open>Refreshing invalidated users\<close>

text \<open>\<open>n\<close> users from position \<open>i\<close> on are left; a removal moves the last one to position \<open>i\<close>.\<close>

fun refresh_loop :: "'m authz_ops \<Rightarrow> nat \<Rightarrow> nat \<Rightarrow> 'm session \<Rightarrow> 'm session result" where
  "refresh_loop ops 0 i ss = Inr ss"
| "refresh_loop ops (Suc n) i ss =
     (if length (uset_users (ss_users ss)) \<le> i then Inl UndefinedBehaviour
      else case uset_users (ss_users ss) ! i of
        None \<Rightarrow> Inl UndefinedBehaviour
      | Some user \<Rightarrow>
          if us_isValid (ao_user ops (ss_manager ss) user) then refresh_loop ops n (Suc i) ss
          else
            let ((st, updated), m) = ao_acquireUser ops (names ops (ss_manager ss) user) (ss_manager ss)
            in if status_code st = OK then
                 bindE (uset_replaceAt i updated (ss_users ss)) (\<lambda>(us, old).
                 bindE (fassert 17067 (old = Some user)) (\<lambda>_.
                   refresh_loop ops n (Suc i) \<lparr>ss_users = us, ss_manager = ao_releaseUser ops user m\<rparr>))
               else if status_code st = UserNotFound then
                 bindE (uset_removeAt i (ss_users ss)) (\<lambda>(us, old).
                 bindE (fassert 17068 (old = Some user)) (\<lambda>_.
                   refresh_loop ops n i \<lparr>ss_users = us, ss_manager = ao_releaseUser ops user m\<rparr>))
               else refresh_loop ops n (Suc i) (ss\<lparr>ss_manager := m\<rparr>))"

definition refreshUserInfoAsNeeded :: "'m authz_ops \<Rightarrow> 'm session \<Rightarrow> 'm session result" where
  "refreshUserInfoAsNeeded ops ss = refresh_loop ops (uset_end (ss_users ss)) 0 ss"

subsection \<open>The decision is exact\<close>

text \<open>What removing a set of granted actions leaves of the required ones.\<close>

definition left_over :: "action_type set \<Rightarrow> action_type set \<Rightarrow> action_type set" where
  "left_over R A = A - R - (if R = {} then {} else {anyAction})"

lemma left_over_union: "left_over R2 (left_over R1 A) = left_over (R1 \<union> R2) A"
  by (auto simp: left_over_def)

lemma left_over_empty [simp]: "left_over {} A = A"
  by (simp add: left_over_def)

lemma left_over_mono: "left_over R A = {} \<Longrightarrow> R \<subseteq> R' \<Longrightarrow> left_over R' A = {}"
  by (auto simp: left_over_def split: if_splits)

definition user_grants :: "user \<Rightarrow> resource_pattern list \<Rightarrow> action_type set" where
  "user_grants u rs = (\<Union>r \<in> set rs. actions_of (getActionsForResource u r))"

lemma actions_of_left_over: "actions_of (removeAllActionsFromSet t s) = left_over (actions_of t) (actions_of s)"
  by (simp add: actions_of_difference left_over_def)

lemma meet_requirements_both:
  "(rs \<noteq> [] \<longrightarrow> fst (meet_requirements u rs s) = (left_over (user_grants u rs) (actions_of s) = {})) \<and>
   (\<not> fst (meet_requirements u rs s) \<longrightarrow>
     actions_of (snd (meet_requirements u rs s)) = left_over (user_grants u rs) (actions_of s))"
proof (induction rs arbitrary: s)
  case Nil
  then show ?case by (simp add: user_grants_def)
next
  case (Cons r rs)
  let ?s = "removeAllActionsFromSet (getActionsForResource u r) s"
  let ?g = "actions_of (getActionsForResource u r)"
  have g: "user_grants u (r # rs) = ?g \<union> user_grants u rs" by (simp add: user_grants_def)
  have e: "?s = emptyActionSet \<longleftrightarrow> left_over ?g (actions_of s) = {}"
    using actions_of_empty [of ?s] by (simp add: emptyActionSet_def actions_of_left_over)
  show ?case
  proof (cases "?s = emptyActionSet")
    case True
    then have "left_over (user_grants u (r # rs)) (actions_of s) = {}"
      unfolding g using left_over_mono [of ?g "actions_of s" "?g \<union> user_grants u rs"] e by simp
    with True show ?thesis by (simp add: Let_def)
  next
    case False
    show ?thesis
    proof (cases "rs = []")
      case True
      with False e show ?thesis by (simp add: Let_def user_grants_def actions_of_left_over)
    next
      case ne: False
      with Cons.IH [of ?s] False show ?thesis by (simp add: Let_def g actions_of_left_over left_over_union)
    qed
  qed
qed

lemma meet_requirements_exact:
  assumes "meet_requirements u rs s = (met, s')" "rs \<noteq> []"
  shows "met \<longleftrightarrow> left_over (user_grants u rs) (actions_of s) = {}"
    "\<not> met \<Longrightarrow> actions_of s' = left_over (user_grants u rs) (actions_of s)"
  using meet_requirements_both [of rs u s] assms by auto

text \<open>The loop over users that need no probing.\<close>

definition session_user :: "'m authz_ops \<Rightarrow> 'm session \<Rightarrow> user_ptr \<Rightarrow> user" where
  "session_user ops ss p = ao_user ops (ss_manager ss) p"

lemma authorize_loop_exact:
  assumes "uset_range (ss_users ss) = map Some ps" "uset_end (ss_users ss) \<le> length (uset_users (ss_users ss))"
    "\<forall>p \<in> set ps. \<not> needs_probe (session_user ops ss p) target" "rs \<noteq> []"
    "i + n = length ps"
  shows "authorize_loop ops target rs n i s ss =
    Inr (n \<noteq> 0 \<and> left_over (\<Union>p \<in> set (drop i ps). user_grants (session_user ops ss p) rs) (actions_of s) = {}, ss)"
  using assms(5)
proof (induction n arbitrary: i s)
  case 0
  then show ?case by simp
next
  case (Suc n)
  then have i: "i < length ps" by simp
  have l: "length ps = uset_end (ss_users ss)"
    using arg_cong [OF assms(1), of length] assms(2) by (simp add: uset_range_def)
  have at: "uset_users (ss_users ss) ! i = Some (ps ! i)"
    using arg_cong [OF assms(1), of "\<lambda>xs. xs ! i"] i l by (simp add: uset_range_def)
  have "\<not> needs_probe (ao_user ops (ss_manager ss) (ps ! i)) target"
    using assms(3) nth_mem [OF i] by (simp add: session_user_def)
  then have probe: "probe_user ops target i (ps ! i) ss = Inr (ps ! i, ss)" by (simp add: probe_user_def)
  let ?u = "session_user ops ss (ps ! i)"
  let ?G = "\<lambda>j. \<Union>p \<in> set (drop j ps). user_grants (session_user ops ss p) rs"
  have G: "?G i = user_grants ?u rs \<union> ?G (Suc i)" using i by (simp add: Cons_nth_drop_Suc [symmetric])
  obtain met s' where m: "meet_requirements ?u rs s = (met, s')" by fastforce
  note ex = meet_requirements_exact [OF m assms(4)]
  have unf: "authorize_loop ops target rs (Suc n) i s ss =
      (if met then Inr (True, ss) else authorize_loop ops target rs n (Suc i) s' ss)"
    using i l assms(2) at probe m by (simp add: session_user_def)
  show ?case
  proof (cases met)
    case True
    then have "left_over (user_grants ?u rs) (actions_of s) = {}" using ex(1) assms(4) by simp
    then have "left_over (?G i) (actions_of s) = {}" unfolding G by (rule left_over_mono) simp
    with True unf show ?thesis by simp
  next
    case False
    then have s': "actions_of s' = left_over (user_grants ?u rs) (actions_of s)" "actions_of s' \<noteq> {}"
      using ex assms(4) by auto
    then have lo: "left_over (?G i) (actions_of s) = left_over (?G (Suc i)) (actions_of s')"
      unfolding G s'(1) by (simp add: left_over_union)
    show ?thesis
    proof (cases "n = 0")
      case True
      then have "?G (Suc i) = {}" using Suc.prems by simp
      with True False unf lo s'(2) show ?thesis by simp
    next
      case n: False
      with Suc.IH [of "Suc i" s'] Suc.prems False unf lo show ?thesis by simp
    qed
  qed
qed

text \<open>
  The keys of the privileges that apply to a target: on everything; on a collection that is not a
  system collection, those on all normal resources and on its database; on any collection, those on
  its name in all databases; on a database, those on all normal resources; and those on the target.
\<close>

definition matching_keys :: "resource_pattern \<Rightarrow> pattern_key set" where
  "matching_keys target = {(matchAnyResource, []), pattern_key target} \<union>
     (if rp_matchType target = matchExactNamespace then
        (if ns_isSystem (rp_ns target) = Inr True then {}
         else {(matchAnyNormalResource, []), (matchDatabaseName, ns_db (rp_ns target) @ ''.'')}) \<union>
        {(matchCollectionName, CHR ''.'' # c) | c. ns_coll (rp_ns target) = Inr c}
      else if rp_matchType target = matchDatabaseName then {(matchAnyNormalResource, [])} else {})"

lemma simple_keys [simp]:
  "pattern_key forAnyResource = (matchAnyResource, [])"
  "pattern_key forAnyNormalResource = (matchAnyNormalResource, [])"
  by (simp_all add: pattern_key_def forAnyResource_def forAnyNormalResource_def simple_pattern_def NamespaceString_default_def)

lemma NamespaceString_of_ns: "NamespaceString_of d c = Inr n \<Longrightarrow> ns_ns n = d @ CHR ''.'' # c"
  by (auto simp: NamespaceString_of_def Let_def split: if_splits)

lemma name_keys:
  "forDatabaseName d = Inr r \<Longrightarrow> pattern_key r = (matchDatabaseName, d @ ''.'')"
  "forCollectionName c = Inr r \<Longrightarrow> pattern_key r = (matchCollectionName, CHR ''.'' # c)"
  by (auto simp: forDatabaseName_def forCollectionName_def result_simps pattern_key_def dest: NamespaceString_of_ns)

lemma search_list_keys:
  assumes "buildResourceSearchList target = Inr l"
  shows "l \<noteq> []" "pattern_key ` set l = matching_keys target"
proof -
  show "l \<noteq> []" using assms by (auto simp: buildResourceSearchList_def result_simps)
  show "pattern_key ` set l = matching_keys target"
  proof (cases "rp_matchType target = matchExactNamespace")
    case True
    let ?l0 = "\<lambda>system. if \<not> system then bindE (forDatabaseName (ns_db (rp_ns target))) (\<lambda>d. Inr [forAnyNormalResource, d]) else Inr []"
    have "bindE (bindE (ns_isSystem (rp_ns target)) (\<lambda>system. bindE (?l0 system) (\<lambda>l. bindE (ns_coll (rp_ns target)) (\<lambda>c.
        bindE (forCollectionName c) (\<lambda>cp. Inr (l @ [cp])))))) (\<lambda>l. Inr (forAnyResource # l @ [target])) = Inr l"
      using assms True by (simp add: buildResourceSearchList_def isExactNamespacePattern_def)
    then obtain system l0 c cp where
      sys: "ns_isSystem (rp_ns target) = Inr system" and l0: "?l0 system = Inr l0" and
      c: "ns_coll (rp_ns target) = Inr c" and cp: "forCollectionName c = Inr cp" and
      l: "l = forAnyResource # (l0 @ [cp]) @ [target]"
      unfolding bindE_eq_Inr_iff by (elim exE conjE) (rule that, assumption, assumption, assumption, assumption, auto)
    have "pattern_key ` set l0 = (if system then {} else {(matchAnyNormalResource, []), (matchDatabaseName, ns_db (rp_ns target) @ ''.'')})"
      using l0 by (cases system) (auto simp: result_simps name_keys)
    then show ?thesis unfolding l using True sys c name_keys(2) [OF cp] by (auto simp: matching_keys_def)
  next
    case False
    then show ?thesis using assms
      by (auto simp: buildResourceSearchList_def isExactNamespacePattern_def isDatabasePattern_def result_simps matching_keys_def split: if_splits)
  qed
qed

lemma user_grants_keys:
  "user_grants u rs = {a. \<exists>k \<in> pattern_key ` set rs. \<exists>q. us_privileges u k = Some q \<and> contains (pv_actions q) a}"
  by (auto simp: user_grants_def getActionsForResource_def emptyActionSet_def actions_of_def split: option.splits)
    (metis option.exhaust contains_simps(1))

lemma left_over_covered:
  assumes "action_set_ok s"
  shows "left_over R (actions_of s) = {} \<longleftrightarrow> actions_of s - {anyAction} \<subseteq> R"
proof (cases "R = {} \<and> anyAction \<in> actions_of s")
  case True
  then have "actions_of s = {..<NUM_ACTION_TYPES}" using assms
    by (auto simp: action_set_ok_def actions_of_def)
  moreover have "(0::nat) \<in> {..<NUM_ACTION_TYPES} - {anyAction}" by (simp add: NUM_ACTION_TYPES_def anyAction_def)
  ultimately show ?thesis using True by (auto simp: left_over_def)
next
  case False
  then show ?thesis by (auto simp: left_over_def split: if_splits)
qed

text \<open>
  (C28) The authorization decision is exact. When no user of the session is a version 1 user that has
  to be probed first, \<open>isAuthorizedForPrivilege\<close> answers without changing the session, and it
  answers yes exactly when somebody is authenticated and every required action is granted to some
  authenticated user by a privilege that applies to the target: on everything, on all normal
  resources or on its database (for databases and for collections that are not system collections),
  on its collection name in any database, or on the target itself.
\<close>

theorem authorization_exact:
  assumes "uset_ok (names ops (ss_manager ss)) (ss_users ss)"
    "\<forall>p \<in> set (uset_contents (ss_users ss)). \<not> needs_probe (ao_user ops (ss_manager ss) p) (pv_resource required)"
    "action_set_ok (pv_actions required)" "buildResourceSearchList (pv_resource required) = Inr l"
  shows "isAuthorizedForPrivilege ops False required ss =
    Inr (uset_contents (ss_users ss) \<noteq> [] \<and>
      (\<forall>a \<in> actions_of (pv_actions required) - {anyAction}. \<exists>p \<in> set (uset_contents (ss_users ss)).
        \<exists>k \<in> matching_keys (pv_resource required). \<exists>q.
          us_privileges (ao_user ops (ss_manager ss) p) k = Some q \<and> contains (pv_actions q) a), ss)"
proof -
  let ?ps = "uset_contents (ss_users ss)"
  let ?G = "\<Union>p \<in> set ?ps. user_grants (session_user ops ss p) l"
  note d = uset_shapeD [OF uset_okD(1) [OF assms(1)]]
  have "authorize_loop ops (pv_resource required) l (uset_end (ss_users ss)) 0 (pv_actions required) ss =
      Inr (uset_end (ss_users ss) \<noteq> 0 \<and> left_over (\<Union>p \<in> set (drop 0 ?ps). user_grants (session_user ops ss p) l) (actions_of (pv_actions required)) = {}, ss)"
    by (rule authorize_loop_exact [OF d(1,2) _ search_list_keys(1) [OF assms(4)]])
      (use assms(2) d(3) in \<open>simp_all add: session_user_def\<close>)
  moreover have "uset_end (ss_users ss) \<noteq> 0 \<longleftrightarrow> ?ps \<noteq> []" using d(3) by (metis length_0_conv)
  moreover have "left_over ?G (actions_of (pv_actions required)) = {} \<longleftrightarrow>
    (\<forall>a \<in> actions_of (pv_actions required) - {anyAction}. \<exists>p \<in> set ?ps. \<exists>k \<in> matching_keys (pv_resource required). \<exists>q.
      us_privileges (ao_user ops (ss_manager ss) p) k = Some q \<and> contains (pv_actions q) a)"
    unfolding left_over_covered [OF assms(3)] user_grants_keys search_list_keys(2) [OF assms(4)] session_user_def
    by auto
  ultimately show ?thesis
    by (simp add: isAuthorizedForPrivilege_def isAuthorizedForPrivilege_impl_def assms(4))
qed

text \<open>A session with one user, who may read the database \<open>db\<close>.\<close>

definition example_ops :: "unit authz_ops" where
  "example_ops = \<lparr>ao_user = (\<lambda>_ _. addPrivileges
       [Privilege_action \<lparr>rp_matchType = matchDatabaseName, rp_ns = \<lparr>ns_ns = ''db.'', ns_dotIndex = Some 2\<rparr>\<rparr> 41]
       (User (UserName ''u'' ''db''))),
     ao_acquireUser = (\<lambda>_ m. ((Status_OK, 1), m)), ao_acquireV1UserProbedForDb = (\<lambda>_ _ m. ((Status_OK, 1), m)),
     ao_releaseUser = (\<lambda>_ m. m), ao_internalUser = 0\<rparr>"

theorem authorization_exact_witness:
  "isAuthorizedForPrivilege example_ops False (Privilege_action (forExactNamespace (NamespaceString ''db.c'')) 41)
     \<lparr>ss_users = \<lparr>uset_users = [Some 1], uset_end = 1\<rparr>, ss_manager = ()\<rparr> =
   Inr (True, \<lparr>ss_users = \<lparr>uset_users = [Some 1], uset_end = 1\<rparr>, ss_manager = ()\<rparr>)"
proof -
  let ?ss = "\<lparr>ss_users = \<lparr>uset_users = [Some (1 :: nat)], uset_end = 1\<rparr>, ss_manager = ()\<rparr>"
  let ?t = "forExactNamespace (NamespaceString ''db.c'')"
  let ?d = "\<lparr>rp_matchType = matchDatabaseName, rp_ns = \<lparr>ns_ns = ''db.'', ns_dotIndex = Some 2\<rparr>\<rparr>"
  have c: "uset_contents (ss_users ?ss) = [1]" by (simp add: uset_contents_def uset_range_def)
  have ok: "uset_ok (names example_ops (ss_manager ?ss)) (ss_users ?ss)"
    by (simp add: uset_ok_def uset_shape_def uset_contents_def uset_range_def)
  have np: "\<not> needs_probe (ao_user example_ops () 1) ?t"
    by (simp add: needs_probe_def example_ops_def addPrivileges_def addPrivilege_def User_def schema_versions)
  have a: "action_set_ok (addAction 41 0)" "actions_of (addAction 41 0) = {41}"
    using action_set_ok_addAction [of 0 41] actions_of_addAction [of 41 0] actions_of_empty [of 0]
    by (simp_all add: NUM_ACTION_TYPES_def anyAction_def)
  obtain l where l: "buildResourceSearchList ?t = Inr l"
    by (simp add: buildResourceSearchList_def forExactNamespace_def NamespaceString_def isExactNamespacePattern_def
        ns_isSystem_def ns_coll_def ns_db_def forDatabaseName_def forCollectionName_def NamespaceString_of_def)
  have k: "(matchDatabaseName, ''db.'') \<in> matching_keys ?t"
    by (simp add: matching_keys_def forExactNamespace_def NamespaceString_def ns_isSystem_def ns_coll_def ns_db_def)
  have u: "us_privileges (ao_user example_ops () 1) (matchDatabaseName, ''db.'') = Some (Privilege_action ?d 41)"
    by (simp add: example_ops_def addPrivileges_def addPrivilege_def User_def pattern_key_def Privilege_action_def)
  have g: "contains (pv_actions (Privilege_action ?d 41)) 41" using a(2) by (auto simp: Privilege_action_def actions_of_def)
  have ex: "\<exists>k \<in> matching_keys ?t. \<exists>q. us_privileges (ao_user example_ops () 1) k = Some q \<and> contains (pv_actions q) 41"
    by (rule bexI [OF _ k], rule exI, rule conjI, rule u, rule g)
  from authorization_exact [OF ok, of "Privilege_action ?t 41" l] np a l c ex show ?thesis
    by (simp add: Privilege_action_def)
qed

end
