(* ===== verification/Authz_References.thy ===== *)
theory Authz_References
  imports Authz_Session
begin

text \<open>
  The references to user objects that a session (\<open>src/mongo/db/auth/authorization_session.cpp\<close>) takes and gives
  back. What a session relies on is the locale \<open>user_manager\<close>; the user cache of \<open>Authz_Cache\<close> provides it
  (the interpretation is in \<open>Authz_World\<close>).
\<close>

subsection \<open>References\<close>

text \<open>
  \<open>consistent m refs\<close>: the manager is in a consistent state in which \<open>refs p\<close> references to the user \<open>p\<close> are
  handed out. A session owns one reference for each of its users, next to those of others (\<open>ext\<close>); there are
  fewer of them than \<open>limit\<close>, the number at which a reference count wraps around.
\<close>

definition refs_of :: "(user_ptr \<Rightarrow> nat) \<Rightarrow> user_ptr list \<Rightarrow> user_ptr \<Rightarrow> nat" where
  "refs_of ext ps p = ext p + count (mset ps) p"

definition room_for :: "nat \<Rightarrow> (user_ptr \<Rightarrow> nat) \<Rightarrow> user_ptr list \<Rightarrow> bool" where
  "room_for limit ext ps \<longleftrightarrow> (\<forall>p. ext p + length ps < limit)"

definition owning :: "('m \<Rightarrow> (user_ptr \<Rightarrow> nat) \<Rightarrow> bool) \<Rightarrow> nat \<Rightarrow> (user_ptr \<Rightarrow> nat) \<Rightarrow> 'm session \<Rightarrow> bool" where
  "owning consistent limit ext ss \<longleftrightarrow> uset_shape (ss_users ss) \<and>
     consistent (ss_manager ss) (refs_of ext (uset_contents (ss_users ss))) \<and> room_for limit ext (uset_contents (ss_users ss))"

lemma owningD:
  assumes "owning consistent limit ext ss"
  shows "uset_shape (ss_users ss)" "consistent (ss_manager ss) (refs_of ext (uset_contents (ss_users ss)))"
    "room_for limit ext (uset_contents (ss_users ss))"
  using assms by (simp_all add: owning_def)

lemma refs_of_room: "room_for limit ext ps \<Longrightarrow> refs_of ext ps p < limit"
proof -
  assume "room_for limit ext ps"
  then have "ext p + length ps < limit" by (simp add: room_for_def)
  moreover have "count (mset ps) p \<le> length ps" by (metis count_le_size size_mset)
  ultimately show ?thesis by (simp add: refs_of_def)
qed

lemma room_for_update [simp]: "room_for limit ext (ps[i := p]) = room_for limit ext ps"
  by (simp add: room_for_def)

lemma room_for_take: "room_for limit ext ps \<Longrightarrow> room_for limit ext (take e (ps[i := p]))"
  unfolding room_for_def by (metis add_le_cancel_left le_less_trans length_list_update length_take min.cobounded1)

lemma room_for_Suc: "room_for limit ext ps \<Longrightarrow> room_for (Suc limit) ext ps"
  by (simp add: room_for_def less_SucI)

lemma room_for_snoc: "room_for limit ext ps \<Longrightarrow> room_for (Suc limit) ext (ps @ [p])"
  by (simp add: room_for_def)

lemma owning_Suc: "owning consistent limit ext ss \<Longrightarrow> owning consistent (Suc limit) ext ss"
  by (simp add: owning_def room_for_Suc)

lemmas room_for_intros = room_for_take room_for_Suc room_for_snoc

lemma refs_of_snoc: "refs_of ext (ps @ [p]) = (refs_of ext ps)(p := refs_of ext ps p + 1)"
  by (rule HOL.ext) (simp add: refs_of_def)

lemma refs_of_update:
  assumes "i < length ps"
  shows "refs_of ext (ps[i := p]) =
    (let r = (refs_of ext ps)(p := refs_of ext ps p + 1) in r(ps ! i := r (ps ! i) - 1))"
proof (rule HOL.ext)
  fix x
  have "ps ! i \<in># mset ps" using assms by simp
  then have "count (mset ps) (ps ! i) \<ge> 1" by (simp add: Suc_leI)
  then show "refs_of ext (ps[i := p]) x =
    (let r = (refs_of ext ps)(p := refs_of ext ps p + 1) in r(ps ! i := r (ps ! i) - 1)) x"
    using mset_update [OF assms, of p] by (simp add: refs_of_def Let_def)
qed

lemma refs_of_pos: "i < length ps \<Longrightarrow> 0 < refs_of ext ps (ps ! i)"
  by (simp add: refs_of_def)

lemma refs_of_move_last:
  assumes "i < length ps" "length ps = Suc e"
  shows "refs_of ext (take e (ps[i := ps ! e])) = (refs_of ext ps)(ps ! i := refs_of ext ps (ps ! i) - 1)"
proof (rule HOL.ext)
  fix x
  have "ps ! i \<in># mset ps" using assms(1) by simp
  then have "count (mset ps) (ps ! i) \<ge> 1" by (simp add: Suc_leI)
  then show "refs_of ext (take e (ps[i := ps ! e])) x = ((refs_of ext ps)(ps ! i := refs_of ext ps (ps ! i) - 1)) x"
    using mset_move_last [OF assms] by (simp add: refs_of_def)
qed

text \<open>The user whose place the internal user takes.\<close>

definition replaced_by_internal :: "'m authz_ops \<Rightarrow> 'm session \<Rightarrow> user_ptr option" where
  "replaced_by_internal ops ss =
     (case uset_add (names ops (ss_manager ss)) (ao_internalUser ops) (ss_users ss) of Inl _ \<Rightarrow> None | Inr (_, old) \<Rightarrow> old)"

definition add_ref :: "user_ptr option \<Rightarrow> (user_ptr \<Rightarrow> nat) \<Rightarrow> user_ptr \<Rightarrow> nat" where
  "add_ref q refs = (case q of None \<Rightarrow> refs | Some p \<Rightarrow> refs(p := refs p + 1))"

text \<open>What a session relies on: acquiring hands out a reference exactly on success, releasing takes one back, as long as fewer than
  \<open>limit\<close> references to each user are out, and the internal user is not counted.\<close>

locale user_manager =
  fixes ops :: "'m authz_ops"
    and consistent :: "'m \<Rightarrow> (user_ptr \<Rightarrow> nat) \<Rightarrow> bool"
    and limit :: nat
  assumes acquire: "consistent m refs \<Longrightarrow> (\<And>q. refs q < limit) \<Longrightarrow> ao_acquireUser ops name m = ((st, p), m') \<Longrightarrow>
      consistent m' (if isOK st then refs(p := refs p + 1) else refs)"
    and acquireV1: "consistent m refs \<Longrightarrow> (\<And>q. refs q < limit) \<Longrightarrow> ao_acquireV1UserProbedForDb ops name db m = ((st, p), m') \<Longrightarrow>
      consistent m' (if isOK st then refs(p := refs p + 1) else refs)"
    and release: "consistent m refs \<Longrightarrow> 0 < refs p \<Longrightarrow> refs p \<le> limit \<Longrightarrow> consistent (ao_releaseUser ops p m) (refs(p := refs p - 1))"
    and internal: "consistent m refs \<Longrightarrow> consistent m (refs(ao_internalUser ops := k))"
begin

lemma swap_user:
  assumes "consistent m refs" "refs = (refs_of ext ps)(p := refs_of ext ps p + 1)" "i < length ps" "room_for limit ext ps"
  shows "consistent (ao_releaseUser ops (ps ! i) m) (refs_of ext (ps[i := p]))"
proof -
  have "0 < refs (ps ! i)" "refs (ps ! i) \<le> limit"
    using refs_of_pos [OF assms(3), of ext] refs_of_room [OF assms(4), of "ps ! i"] by (auto simp: assms(2))
  from release [OF assms(1) this] show ?thesis unfolding refs_of_update [OF assms(3)] Let_def assms(2) .
qed

lemma drop_user:
  assumes "consistent m (refs_of ext ps)" "i < length ps" "length ps = Suc e" "room_for limit ext ps"
  shows "consistent (ao_releaseUser ops (ps ! i) m) (refs_of ext (take e (ps[i := ps ! e])))"
  using release [OF assms(1) refs_of_pos [OF assms(2)] less_imp_le [OF refs_of_room [OF assms(4)]]] refs_of_move_last [OF assms(2,3), of ext] by simp

lemma addAndAuthorizeUser_owning:
  assumes "owning consistent limit ext ss"
  shows "\<exists>st ss'. addAndAuthorizeUser ops name ss = Inr (st, ss') \<and> owning consistent (Suc limit) ext ss'"
proof -
  obtain st p m where acq: "ao_acquireUser ops name (ss_manager ss) = ((st, p), m)" by (metis surj_pair)
  note o = owningD [OF assms]
  note i = acquire [OF o(2) refs_of_room [OF o(3)] acq]
  show ?thesis
  proof (cases "isOK st")
    case False
    with i o(1,3) show ?thesis by (simp add: addAndAuthorizeUser_def acq owning_def room_for_intros)
  next
    case True
    show ?thesis
    proof (rule uset_add_shape [OF o(1), of "names ops m" p])
      fix s' assume s': "uset_add (names ops m) p (ss_users ss) = Inr (s', None)" "uset_shape s'"
        "uset_contents s' = uset_contents (ss_users ss) @ [p]"
      with True i o(3) show ?thesis
        by (simp add: addAndAuthorizeUser_def acq owning_def refs_of_snoc release_if_def room_for_intros)
    next
      fix s' j assume s': "uset_add (names ops m) p (ss_users ss) = Inr (s', Some (uset_contents (ss_users ss) ! j))"
        "uset_shape s'" "uset_contents s' = (uset_contents (ss_users ss))[j := p]" and j: "j < length (uset_contents (ss_users ss))"
      from i True have "consistent m ((refs_of ext (uset_contents (ss_users ss)))(p := refs_of ext (uset_contents (ss_users ss)) p + 1))"
        by simp
      from swap_user [OF this refl j o(3)] s' True o(3) show ?thesis
        by (simp add: addAndAuthorizeUser_def acq owning_def release_if_def room_for_intros)
    qed
  qed
qed

lemma logoutDatabase_owning:
  assumes "owning consistent limit ext ss"
  shows "\<exists>ss'. logoutDatabase ops db ss = Inr ss' \<and> owning consistent limit ext ss'"
proof -
  note o = owningD [OF assms]
  show ?thesis
  proof (rule uset_removeByDBName_shape [OF o(1), of "names ops (ss_manager ss)" db])
    assume "uset_removeByDBName (names ops (ss_manager ss)) db (ss_users ss) = Inr (ss_users ss, None)"
    with o show ?thesis by (simp add: logoutDatabase_def release_if_def owning_def)
  next
    fix s' i assume s': "uset_removeByDBName (names ops (ss_manager ss)) db (ss_users ss) = Inr (s', Some (uset_contents (ss_users ss) ! i))"
      "uset_shape s'" "uset_contents s' = take (uset_end (ss_users ss) - 1) ((uset_contents (ss_users ss))[i := uset_contents (ss_users ss) ! (uset_end (ss_users ss) - 1)])"
      and i: "i < length (uset_contents (ss_users ss))"
    have "length (uset_contents (ss_users ss)) = Suc (uset_end (ss_users ss) - 1)"
      using i uset_shapeD(3) [OF o(1)] by simp
    from drop_user [OF o(2) i this o(3)] s' o(3) show ?thesis
      by (simp add: logoutDatabase_def release_if_def owning_def room_for_take)
  qed
qed

lemma probe_user_owning:
  assumes "owning consistent limit ext ss" "i < uset_end (ss_users ss)" "u = uset_contents (ss_users ss) ! i"
  shows "\<exists>u' ss'. probe_user ops target i u ss = Inr (u', ss') \<and> owning consistent limit ext ss' \<and>
    uset_end (ss_users ss') = uset_end (ss_users ss)"
proof (cases "needs_probe (ao_user ops (ss_manager ss) u) target")
  case True
  note o = owningD [OF assms(1)]
  have i: "i < length (uset_contents (ss_users ss))" using assms(2) uset_shapeD(3) [OF o(1)] by simp
  obtain st p m where acq: "ao_acquireV1UserProbedForDb ops (names ops (ss_manager ss) u) (databaseToMatch target) (ss_manager ss) = ((st, p), m)"
    by (metis surj_pair)
  note consistent = acquireV1 [OF o(2) refs_of_room [OF o(3)] acq]
  show ?thesis
  proof (cases "isOK st")
    case False
    with consistent o(1,3) True show ?thesis by (simp add: probe_user_def acq owning_def)
  next
    case ok: True
    with consistent have "consistent m ((refs_of ext (uset_contents (ss_users ss)))(p := refs_of ext (uset_contents (ss_users ss)) p + 1))" by simp
    note sw = swap_user [OF this refl i o(3), folded assms(3)]
    show ?thesis
    proof (cases "u = p")
      case True
      then have "(uset_contents (ss_users ss))[i := p] = uset_contents (ss_users ss)" using assms(3) by (metis list_update_id)
      with sw True ok \<open>needs_probe (ao_user ops (ss_manager ss) u) target\<close> acq o(1,3) show ?thesis
        by (simp add: probe_user_def owning_def)
    next
      case False
      show ?thesis
      proof (rule uset_replaceAt_shape [OF o(1) assms(2), of p])
        fix s' assume "uset_replaceAt i p (ss_users ss) = Inr (s', Some (uset_contents (ss_users ss) ! i))" "uset_shape s'"
          "uset_contents s' = (uset_contents (ss_users ss))[i := p]" "uset_end s' = uset_end (ss_users ss)"
        with sw False ok True acq assms(3) o(3) show ?thesis by (simp add: probe_user_def owning_def)
      qed
    qed
  qed
next
  case False
  with assms(1) show ?thesis by (simp add: probe_user_def)
qed

lemma authorize_loop_owning:
  "owning consistent limit ext ss \<Longrightarrow> i + n \<le> uset_end (ss_users ss) \<Longrightarrow>
   \<exists>b ss'. authorize_loop ops target rs n i s ss = Inr (b, ss') \<and> owning consistent limit ext ss'"
proof (induction n arbitrary: i s ss)
  case 0
  then show ?case by auto
next
  case (Suc n)
  from Suc.prems(1) have sh: "uset_shape (ss_users ss)" by (simp add: owning_def)
  have i: "i < uset_end (ss_users ss)" using Suc.prems(2) by simp
  note d = uset_shapeD [OF sh]
  from probe_user_owning [OF Suc.prems(1) i refl, of target] obtain u' ss' where
    p: "probe_user ops target i (uset_contents (ss_users ss) ! i) ss = Inr (u', ss')" "owning consistent limit ext ss'"
    "uset_end (ss_users ss') = uset_end (ss_users ss)" by (elim exE conjE)
  obtain met s' where m: "meet_requirements (ao_user ops (ss_manager ss') u') rs s = (met, s')" by fastforce
  have eq: "authorize_loop ops target rs (Suc n) i s ss =
      (if met then Inr (True, ss') else authorize_loop ops target rs n (Suc i) s' ss')"
    using i d(2) d(4) [OF i] p(1) m by simp
  show ?case
  proof (cases met)
    case True
    with eq p(2) show ?thesis by auto
  next
    case False
    from Suc.IH [OF p(2), of "Suc i" s'] Suc.prems(2) p(3) eq False show ?thesis by simp
  qed
qed

text \<open>A decision fails only when the list of patterns to search for cannot be built from the target.\<close>

lemma isAuthorizedForPrivilege_owning:
  assumes "owning consistent limit ext ss" "buildResourceSearchList (pv_resource priv) = Inr l"
  shows "\<exists>b ss'. isAuthorizedForPrivilege ops ignore priv ss = Inr (b, ss') \<and> owning consistent limit ext ss'"
proof (cases ignore)
  case True
  with assms show ?thesis by (auto simp: isAuthorizedForPrivilege_def)
next
  case False
  with authorize_loop_owning [OF assms(1), of 0 "uset_end (ss_users ss)" "pv_resource priv" l "pv_actions priv"] assms(2)
  show ?thesis by (auto simp: isAuthorizedForPrivilege_def isAuthorizedForPrivilege_impl_def)
qed

lemma refresh_loop_owning:
  "owning consistent limit ext ss \<Longrightarrow> i + n = uset_end (ss_users ss) \<Longrightarrow>
   \<exists>ss'. refresh_loop ops n i ss = Inr ss' \<and> owning consistent limit ext ss'"
proof (induction n arbitrary: i ss)
  case 0
  then show ?case by simp
next
  case (Suc n)
  note o = owningD [OF Suc.prems(1)]
  have i: "i < uset_end (ss_users ss)" using Suc.prems(2) by simp
  note d = uset_shapeD [OF o(1)]
  let ?c = "uset_contents (ss_users ss)"
  have il: "i < length ?c" using i d(3) by simp
  let ?u = "?c ! i"
  obtain st p m where acq: "ao_acquireUser ops (names ops (ss_manager ss) ?u) (ss_manager ss) = ((st, p), m)" by (metis surj_pair)
  note consistent = acquire [OF o(2) refs_of_room [OF o(3)] acq]
  have unf: "refresh_loop ops (Suc n) i ss =
    (if us_isValid (ao_user ops (ss_manager ss) ?u) then refresh_loop ops n (Suc i) ss
     else if status_code st = OK then
       bindE (uset_replaceAt i p (ss_users ss)) (\<lambda>(us, old). bindE (fassert 17067 (old = Some ?u)) (\<lambda>_.
         refresh_loop ops n (Suc i) \<lparr>ss_users = us, ss_manager = ao_releaseUser ops ?u m\<rparr>))
     else if status_code st = UserNotFound then
       bindE (uset_removeAt i (ss_users ss)) (\<lambda>(us, old). bindE (fassert 17068 (old = Some ?u)) (\<lambda>_.
         refresh_loop ops n i \<lparr>ss_users = us, ss_manager = ao_releaseUser ops ?u m\<rparr>))
     else refresh_loop ops n (Suc i) (ss\<lparr>ss_manager := m\<rparr>))"
    using i d(2) d(4) [OF i] acq by simp
  consider "us_isValid (ao_user ops (ss_manager ss) ?u)"
    | "\<not> us_isValid (ao_user ops (ss_manager ss) ?u)" "status_code st = OK"
    | "\<not> us_isValid (ao_user ops (ss_manager ss) ?u)" "status_code st = UserNotFound"
    | "\<not> us_isValid (ao_user ops (ss_manager ss) ?u)" "status_code st \<noteq> OK" "status_code st \<noteq> UserNotFound" by auto
  then show ?case
  proof cases
    case 1
    with unf Suc.IH [OF Suc.prems(1), of "Suc i"] Suc.prems(2) show ?thesis by simp
  next
    case 2
    from 2(2) consistent have "consistent m ((refs_of ext ?c)(p := refs_of ext ?c p + 1))" by (simp add: isOK_def)
    note sw = swap_user [OF this refl il o(3)]
    show ?thesis
    proof (rule uset_replaceAt_shape [OF o(1) i, of p])
      fix s' assume s': "uset_replaceAt i p (ss_users ss) = Inr (s', Some ?u)" "uset_shape s'"
        "uset_contents s' = ?c[i := p]" "uset_end s' = uset_end (ss_users ss)"
      let ?ss = "\<lparr>ss_users = s', ss_manager = ao_releaseUser ops ?u m\<rparr>"
      have "owning consistent limit ext ?ss" using sw s' o(3) by (simp add: owning_def)
      from Suc.IH [OF this, of "Suc i"] unf 2 s' Suc.prems(2) show ?thesis by simp
    qed
  next
    case 3
    then have "\<not> isOK st" by (simp add: isOK_def)
    with consistent have "consistent m (refs_of ext ?c)" by simp
    note dr = drop_user [OF this il _ o(3), of "uset_end (ss_users ss) - 1"]
    show ?thesis
    proof (rule uset_removeAt_shape [OF o(1) i])
      fix s' assume s': "uset_removeAt i (ss_users ss) = Inr (s', Some ?u)" "uset_shape s'"
        "uset_contents s' = take (uset_end (ss_users ss) - 1) (?c[i := ?c ! (uset_end (ss_users ss) - 1)])"
        "uset_end s' = uset_end (ss_users ss) - 1"
      let ?ss = "\<lparr>ss_users = s', ss_manager = ao_releaseUser ops ?u m\<rparr>"
      have "owning consistent limit ext ?ss" using dr s' i d(3) o(3) by (simp add: owning_def room_for_take)
      from Suc.IH [OF this, of i] unf 3 s' Suc.prems(2) show ?thesis by simp
    qed
  next
    case 4
    then have "\<not> isOK st" by (simp add: isOK_def)
    with consistent o(1,3) have "owning consistent limit ext (ss\<lparr>ss_manager := m\<rparr>)" by (simp add: owning_def)
    from Suc.IH [OF this, of "Suc i"] unf 4 Suc.prems(2) show ?thesis by simp
  qed
qed

lemma refresh_owning:
  "owning consistent limit ext ss \<Longrightarrow> \<exists>ss'. refreshUserInfoAsNeeded ops ss = Inr ss' \<and> owning consistent limit ext ss'"
  unfolding refreshUserInfoAsNeeded_def by (rule refresh_loop_owning) simp_all

text \<open>The destructor gives all references back.\<close>

lemma release_all:
  "consistent m (refs_of ext ps) \<Longrightarrow> room_for (Suc limit) ext ps \<Longrightarrow> consistent (fold (ao_releaseUser ops) ps m) ext"
proof (induction ps arbitrary: m)
  case Nil
  then show ?case by (simp add: refs_of_def)
next
  case (Cons p ps)
  have "(refs_of ext (p # ps))(p := refs_of ext (p # ps) p - 1) = refs_of ext ps" by (rule HOL.ext) (simp add: refs_of_def)
  moreover have "refs_of ext (p # ps) p \<le> limit" using refs_of_room [OF Cons.prems(2), of p] by simp
  ultimately have "consistent (ao_releaseUser ops p m) (refs_of ext ps)"
    using release [OF Cons.prems(1), of p] by (simp add: refs_of_def [of ext "p # ps" p])
  moreover have "room_for (Suc limit) ext ps" using Cons.prems(2) by (simp add: room_for_def Suc_lessD)
  ultimately show ?case by (simp add: Cons.IH)
qed

lemma release_users_owning: "owning consistent (Suc limit) ext ss \<Longrightarrow> consistent (release_users ops ss) ext"
  by (simp add: release_users_def owning_def release_all)

text \<open>The internal user is added without a reference; the one of the user it replaces is given up.\<close>

lemma grantInternalAuthorization_owning:
  assumes "owning consistent limit ext ss"
  shows "\<exists>ss'. grantInternalAuthorization ops ss = Inr ss' \<and>
    owning consistent (Suc limit) (add_ref (replaced_by_internal ops ss) ext) ss'"
proof -
  note o = owningD [OF assms]
  let ?c = "uset_contents (ss_users ss)" and ?p = "ao_internalUser ops"
  note int = internal [OF o(2), of "refs_of ext ?c ?p + 1"]
  show ?thesis
  proof (rule uset_add_shape [OF o(1), of "names ops (ss_manager ss)" ?p])
    fix s' assume "uset_add (names ops (ss_manager ss)) ?p (ss_users ss) = Inr (s', None)" "uset_shape s'"
      "uset_contents s' = ?c @ [?p]"
    with int o(3) show ?thesis
      by (simp add: grantInternalAuthorization_def replaced_by_internal_def add_ref_def owning_def refs_of_snoc room_for_def)
  next
    fix s' i assume s': "uset_add (names ops (ss_manager ss)) ?p (ss_users ss) = Inr (s', Some (?c ! i))" "uset_shape s'"
      "uset_contents s' = ?c[i := ?p]" and i: "i < length ?c"
    have "?c ! i \<in># mset ?c" using i by simp
    then obtain k where "count (mset ?c) (?c ! i) = Suc k" by (metis Suc_pred count_greater_zero_iff)
    then have "refs_of (ext(?c ! i := ext (?c ! i) + 1)) (?c[i := ?p]) = (refs_of ext ?c)(?p := refs_of ext ?c ?p + 1)"
      using mset_update [OF i, of ?p] by (intro HOL.ext) (auto simp: refs_of_def)
    moreover have "room_for (Suc limit) (ext(?c ! i := ext (?c ! i) + 1)) (?c[i := ?p])"
      using o(3) by (simp add: room_for_def less_SucI)
    ultimately have "owning consistent (Suc limit) (ext(?c ! i := ext (?c ! i) + 1)) (ss\<lparr>ss_users := s'\<rparr>)"
      using int s' by (simp add: owning_def)
    with s'(1) show ?thesis by (simp add: grantInternalAuthorization_def replaced_by_internal_def add_ref_def)
  qed
qed

end

end
