(* ===== verification/Authz_Cache.thy ===== *)
theory Authz_Cache
  imports Authz_References "HOL-Library.AList"
begin

text \<open>
  The user cache of \<open>src/mongo/db/auth/authorization_manager.cpp\<close>: reference counted \<open>User\<close> objects,
  found by name, fetched outside the mutex by one thread at a time (the fetch phase of \<open>CacheGuard\<close>)
  and invalidated by any thread at any time. Each definition is the part of an operation that runs
  under the mutex: up to a wait, up to the beginning of the fetch phase, or from its end. The condition
  variable \<open>_fetchPhaseIsReady\<close> is the list of the threads asleep on it. The storage that documents come from and the parsing of documents are parameters; the objects live in a heap, in which
  a dead address is a use after free.
\<close>

subsection \<open>The manager\<close>

record authz_manager =
  am_users :: "user_ptr \<Rightarrow> user option"
  am_userCache :: "(string \<times> user_ptr) list"
  am_version :: int
  am_cacheGeneration :: uint64
  am_isFetchPhaseBusy :: bool
  am_fetchPhaseIsReady :: "nat list"

definition internal_ptr :: user_ptr where
  "internal_ptr = 0"

definition internal_name :: user_name where
  "internal_name = UserName ''__system'' ''local''"

definition AuthorizationManager :: "privilege list \<Rightarrow> authz_manager" where
  "AuthorizationManager universal =
     \<lparr>am_users = (\<lambda>_. None)(internal_ptr := Some (addPrivileges universal (incrementRefCount (User internal_name)))),
      am_userCache = [], am_version = schemaVersionInvalid, am_cacheGeneration = 0, am_isFetchPhaseBusy = False,
      am_fetchPhaseIsReady = []\<rparr>"

definition deref :: "user_ptr \<Rightarrow> authz_manager \<Rightarrow> user result" where
  "deref p m = (case am_users m p of None \<Rightarrow> Inl UndefinedBehaviour | Some u \<Rightarrow> Inr u)"

definition update_user :: "user_ptr \<Rightarrow> (user \<Rightarrow> user) \<Rightarrow> authz_manager \<Rightarrow> authz_manager" where
  "update_user p f m = m\<lparr>am_users := (am_users m)(p := map_option f (am_users m p))\<rparr>"

definition beginFetchPhase :: "authz_manager \<Rightarrow> (uint64 \<times> authz_manager) result" where
  "beginFetchPhase m =
     bindE (fassert 17191 (\<not> am_isFetchPhaseBusy m)) (\<lambda>_.
       Inr (am_cacheGeneration m, m\<lparr>am_isFetchPhaseBusy := True\<rparr>))"

text \<open>The destructor of a guard that has entered the fetch phase; \<open>notify_all\<close> wakes all the threads asleep.\<close>

definition leaveFetchPhase :: "authz_manager \<Rightarrow> authz_manager result" where
  "leaveFetchPhase m =
     bindE (fassert 17190 (am_isFetchPhaseBusy m)) (\<lambda>_.
       Inr (m\<lparr>am_isFetchPhaseBusy := False, am_fetchPhaseIsReady := []\<rparr>))"

text \<open>\<open>CacheGuard::wait\<close>: the thread \<open>t\<close> goes to sleep; a guard waits only before its own fetch phase. A wait may
  end without a notification.\<close>

definition guard_wait :: "nat \<Rightarrow> authz_manager \<Rightarrow> authz_manager" where
  "guard_wait t m = m\<lparr>am_fetchPhaseIsReady := t # am_fetchPhaseIsReady m\<rparr>"

definition wake_up :: "nat \<Rightarrow> authz_manager \<Rightarrow> authz_manager" where
  "wake_up t m = m\<lparr>am_fetchPhaseIsReady := removeAll t (am_fetchPhaseIsReady m)\<rparr>"

definition isSameCacheGeneration :: "uint64 \<Rightarrow> authz_manager \<Rightarrow> bool" where
  "isSameCacheGeneration start m \<longleftrightarrow> start = am_cacheGeneration m"

subsection \<open>Invalidation and release\<close>

definition invalidateUserByName :: "user_name \<Rightarrow> authz_manager \<Rightarrow> authz_manager result" where
  "invalidateUserByName userName m =
     (let m = m\<lparr>am_cacheGeneration := am_cacheGeneration m + 1\<rparr>
      in case map_of (am_userCache m) (un_fullName userName) of
           None \<Rightarrow> Inr m
         | Some p \<Rightarrow>
             let m = m\<lparr>am_userCache := AList.delete (un_fullName userName) (am_userCache m)\<rparr>
             in bindE (deref p m) (\<lambda>_. Inr (update_user p invalidate m)))"

definition invalidate_in_db :: "string \<Rightarrow> string \<times> user_ptr \<Rightarrow> authz_manager \<Rightarrow> authz_manager result" where
  "invalidate_in_db dbname entry m =
     bindE (deref (snd entry) m) (\<lambda>u.
       if un_getDB (us_name u) = dbname
       then Inr (update_user (snd entry) invalidate (m\<lparr>am_userCache := AList.delete (fst entry) (am_userCache m)\<rparr>))
       else Inr m)"

definition invalidateUsersFromDB :: "string \<Rightarrow> authz_manager \<Rightarrow> authz_manager result" where
  "invalidateUsersFromDB dbname m =
     (let m = m\<lparr>am_cacheGeneration := am_cacheGeneration m + 1\<rparr>
      in foldE (invalidate_in_db dbname) (am_userCache m) m)"

definition invalidate_entry :: "string \<times> user_ptr \<Rightarrow> authz_manager \<Rightarrow> authz_manager result" where
  "invalidate_entry entry m =
     bindE (fassert 17266 (snd entry \<noteq> internal_ptr)) (\<lambda>_.
     bindE (deref (snd entry) m) (\<lambda>_. Inr (update_user (snd entry) invalidate m)))"

definition invalidateUserCache :: "authz_manager \<Rightarrow> authz_manager result" where
  "invalidateUserCache m =
     (let m = m\<lparr>am_cacheGeneration := am_cacheGeneration m + 1\<rparr>
      in bindE (foldE invalidate_entry (am_userCache m) m) (\<lambda>m.
           Inr (m\<lparr>am_userCache := [], am_version := schemaVersionInvalid\<rparr>)))"

definition releaseUser :: "user_ptr \<Rightarrow> authz_manager \<Rightarrow> authz_manager result" where
  "releaseUser user m =
     (if user = internal_ptr then Inr m
      else
        bindE (deref user m) (\<lambda>u.
          let u = decrementRefCount u
          in if us_refCount u = 0 then
               let cache = (if us_isValid u then AList.delete (un_fullName (us_name u)) (am_userCache m) else am_userCache m)
               in Inr (m\<lparr>am_users := (am_users m)(user := None), am_userCache := cache\<rparr>)
             else Inr (m\<lparr>am_users := (am_users m)(user := Some u)\<rparr>)))"

subsection \<open>Fetching a user\<close>

text \<open>What the parsers find in a version 2 and in a version 1 user document.\<close>

record user_document =
  ud_userName :: string
  ud_credentials :: "status \<times> credential_data"
  ud_roles :: "status \<times> role_name list"
  ud_privileges :: "status \<times> privilege list"

record v1_document =
  vd_roles :: "status \<times> role_name list"
  vd_credentials :: "status \<times> credential_data"

text \<open>
  The answers of the storage, by the number of the attempt, and the privileges that
  \<open>_initializeUserPrivilegesFromRolesV1\<close> collects for a set of roles.
\<close>

record fetch_env =
  fe_storedVersion :: "nat \<Rightarrow> status \<times> int"
  fe_userDescription :: "nat \<Rightarrow> status \<times> user_document"
  fe_privilegeDocumentV1 :: "nat \<Rightarrow> string \<Rightarrow> status \<times> v1_document"
  fe_privilegesV1 :: "(string \<Rightarrow> role_name option) \<Rightarrow> privilege list"

definition initializeUserFromPrivilegeDocument :: "user_document \<Rightarrow> user \<Rightarrow> status \<times> user" where
  "initializeUserFromPrivilegeDocument doc u =
     (if ud_userName doc \<noteq> un_getUser (us_name u)
      then (Status BadValue (''User name from privilege document '' @ [CHR 0x22] @ ud_userName doc @ [CHR 0x22] @
              '' doesn'' @ [CHR 0x27] @ ''t match name of provided User '' @ [CHR 0x22] @ un_getUser (us_name u) @ [CHR 0x22]) 0, u)
      else if \<not> isOK (fst (ud_credentials doc)) then (fst (ud_credentials doc), u)
      else
        let u = setCredentials (snd (ud_credentials doc)) u
        in if \<not> isOK (fst (ud_roles doc)) then (fst (ud_roles doc), u)
           else
             let u = setRoles (snd (ud_roles doc)) u;
                 u = (if isOK (fst (ud_privileges doc)) then setPrivileges (snd (ud_privileges doc)) u else u)
             in (Status_OK, u))"

definition fetchUserV2 :: "fetch_env \<Rightarrow> nat \<Rightarrow> user_name \<Rightarrow> status \<times> user option" where
  "fetchUserV2 env i userName =
     (let (st, doc) = fe_userDescription env i
      in if \<not> isOK st then (st, None)
         else let (st, u) = initializeUserFromPrivilegeDocument doc (User userName)
              in if \<not> isOK st then (st, None) else (Status_OK, Some u))"

definition initializeUserPrivilegesFromRolesV1 :: "fetch_env \<Rightarrow> user \<Rightarrow> user" where
  "initializeUserPrivilegesFromRolesV1 env u = addPrivileges (fe_privilegesV1 env (us_roles u)) u"

definition probe_own_V1 :: "fetch_env \<Rightarrow> nat \<Rightarrow> user_name \<Rightarrow> user \<Rightarrow> status \<times> user" where
  "probe_own_V1 env i userName u =
     (if un_getDB userName = ''$external''
      then (Status_OK, setCredentials \<lparr>cd_password = [], cd_isExternal = True\<rparr> u)
      else
        let (st, doc) = fe_privilegeDocumentV1 env i (un_getDB userName)
        in if \<not> isOK st then (st, u)
           else if \<not> isOK (fst (vd_roles doc)) then (fst (vd_roles doc), u)
           else let u = addRoles (snd (vd_roles doc)) u
                in if \<not> isOK (fst (vd_credentials doc)) then (fst (vd_credentials doc), u)
                   else (Status_OK, markProbedV1 (un_getDB userName) (setCredentials (snd (vd_credentials doc)) u)))"

definition probe_admin_V1 :: "fetch_env \<Rightarrow> nat \<Rightarrow> user_name \<Rightarrow> user \<Rightarrow> status \<times> user" where
  "probe_admin_V1 env i userName u =
     (if un_getDB userName = ''admin'' then (Status_OK, u)
      else
        let (st, doc) = fe_privilegeDocumentV1 env i ''admin''
        in if isOK st then
             (if \<not> isOK (fst (vd_roles doc)) then (fst (vd_roles doc), u)
              else (Status_OK, markProbedV1 ''admin'' (addRoles (snd (vd_roles doc)) u)))
           else if status_code st \<noteq> UserNotFound then (st, u)
           else (Status_OK, markProbedV1 ''admin'' u))"

definition fetchUserV1 :: "fetch_env \<Rightarrow> nat \<Rightarrow> user_name \<Rightarrow> status \<times> user option" where
  "fetchUserV1 env i userName =
     (let u = markProbedV1 ''$external'' (setSchemaVersion1 (User userName));
          (st, u) = probe_own_V1 env i userName u
      in if \<not> isOK st then (st, None)
         else
           let (st, u) = probe_admin_V1 env i userName u
           in if \<not> isOK st then (st, None)
              else (Status_OK, Some (initializeUserPrivilegesFromRolesV1 env u)))"

definition AuthSchemaIncompatible :: error_code where
  "AuthSchemaIncompatible = OtherCode 69"

definition decimal :: "int \<Rightarrow> string" where
  "decimal i = (if i < 0 then CHR ''-'' # decimal_digits (nat (- i)) else decimal_digits (nat i))"

definition fetch_by_version :: "fetch_env \<Rightarrow> nat \<Rightarrow> user_name \<Rightarrow> int \<Rightarrow> status \<times> user option" where
  "fetch_by_version env i userName v =
     (if v = schemaVersion26Final \<or> v = schemaVersion26Upgrade then fetchUserV2 env i userName
      else if v = schemaVersion24 then fetchUserV1 env i userName
      else (Status BadValue (''Illegal value for authorization data schema version, '' @ decimal v) 0, None))"

text \<open>The loop of \<open>acquireUser\<close> in its fetch phase: \<open>n\<close> attempts are left.\<close>

fun fetch_attempts :: "fetch_env \<Rightarrow> user_name \<Rightarrow> nat \<Rightarrow> nat \<Rightarrow> int \<Rightarrow> status \<Rightarrow> status \<times> user option \<times> int" where
  "fetch_attempts env userName 0 i authzVersion status = (status, None, authzVersion)"
| "fetch_attempts env userName (Suc n) i authzVersion status =
     (let (vst, v) = (if authzVersion = schemaVersionInvalid then fe_storedVersion env i else (Status_OK, authzVersion))
      in if \<not> isOK vst then (vst, None, v)
         else
           let (st, u) = fetch_by_version env i userName v
           in if isOK st then (st, u, v)
              else if status_code st \<noteq> AuthSchemaIncompatible then (st, None, v)
              else fetch_attempts env userName n (Suc i) schemaVersionInvalid st)"

subsection \<open>Acquiring a user\<close>

text \<open>Where a thread is between the parts of its operation.\<close>

datatype pending =
    Wait_user user_name
  | Fetch_user user_name uint64 int
  | Wait_V1 user_name string
  | Wait_V1_fetch user_name string "user option"
  | Fetch_V1 user_name string "user option" uint64
  | Wait_version
  | Fetch_version uint64

fun fetching :: "pending \<Rightarrow> bool" where
  "fetching (Fetch_user _ _ _) = True"
| "fetching (Fetch_V1 _ _ _ _) = True"
| "fetching (Fetch_version _) = True"
| "fetching _ = False"

datatype acquire_outcome = Returned status user_ptr | Version int | Pending pending

definition acquireUser_enter :: "user_name \<Rightarrow> authz_manager \<Rightarrow> (acquire_outcome \<times> authz_manager) result" where
  "acquireUser_enter userName m =
     (if un_eq userName internal_name then Inr (Returned Status_OK internal_ptr, m)
      else case map_of (am_userCache m) (un_fullName userName) of
        None \<Rightarrow>
          if am_isFetchPhaseBusy m then Inr (Pending (Wait_user userName), m)
          else bindE (beginFetchPhase m) (\<lambda>(gen, m').
            Inr (Pending (Fetch_user userName gen (am_version m)), m'))
      | Some p \<Rightarrow>
          bindE (deref p m) (\<lambda>u.
          bindE (fassert 17003 (us_isValid u)) (\<lambda>_.
          bindE (fassert 17008 (us_refCount u > 0)) (\<lambda>_.
            Inr (Returned Status_OK p, update_user p incrementRefCount m)))))"

text \<open>\<open>p\<close> is the address of the new object.\<close>

definition acquireUser_finish :: "fetch_env \<Rightarrow> user_name \<Rightarrow> uint64 \<Rightarrow> int \<Rightarrow> user_ptr \<Rightarrow> authz_manager \<Rightarrow> (acquire_outcome \<times> authz_manager) result" where
  "acquireUser_finish env userName gen authzVersion p m =
     (case fetch_attempts env userName 2 0 authzVersion Status_OK of
        (st, u, v) \<Rightarrow>
          if \<not> isOK st then bindE (leaveFetchPhase m) (\<lambda>m. Inr (Returned st p, m))
          else case u of
            None \<Rightarrow> Inl UndefinedBehaviour
          | Some u \<Rightarrow>
              let u = incrementRefCount u;
                  m = (if isSameCacheGeneration gen m
                       then m\<lparr>am_users := (am_users m)(p := Some u),
                              am_userCache := (if map_of (am_userCache m) (un_fullName userName) = None
                                               then (un_fullName userName, p) # am_userCache m else am_userCache m),
                              am_version := (if am_version m = schemaVersionInvalid then v else am_version m)\<rparr>
                       else m\<lparr>am_users := (am_users m)(p := Some (invalidate u))\<rparr>)
              in bindE (leaveFetchPhase m) (\<lambda>m. Inr (Returned Status_OK p, m)))"

definition begin_V1 :: "user_name \<Rightarrow> string \<Rightarrow> user option \<Rightarrow> authz_manager \<Rightarrow> (acquire_outcome \<times> authz_manager) result" where
  "begin_V1 userName dbname user m =
     (if am_isFetchPhaseBusy m then Inr (Pending (Wait_V1_fetch userName dbname user), m)
      else bindE (beginFetchPhase m) (\<lambda>(gen, m). Inr (Pending (Fetch_V1 userName dbname user gen), m)))"

definition acquireV1_enter :: "user_name \<Rightarrow> string \<Rightarrow> authz_manager \<Rightarrow> (acquire_outcome \<times> authz_manager) result" where
  "acquireV1_enter userName dbname m =
     (if un_eq userName internal_name then Inr (Returned Status_OK internal_ptr, m)
      else case map_of (am_userCache m) (un_fullName userName) of
        None \<Rightarrow>
          if am_isFetchPhaseBusy m then Inr (Pending (Wait_V1 userName dbname), m)
          else begin_V1 userName dbname None m
      | Some p \<Rightarrow>
          bindE (deref p m) (\<lambda>u.
          bindE (fassert 17225 (us_isValid u)) (\<lambda>_.
            if us_schemaVersion u \<noteq> schemaVersion24 \<or> hasProbedV1 dbname u
            then Inr (Returned Status_OK p, update_user p incrementRefCount m)
            else begin_V1 userName dbname (Some (clone u)) m)))"

datatype v1_fetched = V1_failed status | V1_as_V2 status "user option" | V1_probed user

definition probe_V1 :: "fetch_env \<Rightarrow> string \<Rightarrow> user \<Rightarrow> v1_fetched" where
  "probe_V1 env dbname u =
     (if hasProbedV1 dbname u then V1_probed u
      else
        let (st, doc) = fe_privilegeDocumentV1 env 1 dbname
        in if isOK st then
             (if \<not> isOK (fst (vd_roles doc)) then V1_failed (fst (vd_roles doc))
              else V1_probed (markProbedV1 dbname (initializeUserPrivilegesFromRolesV1 env (addRoles (snd (vd_roles doc)) u))))
           else if status_code st \<noteq> UserNotFound then V1_failed st
           else V1_probed u)"

definition acquireV1_fetch :: "fetch_env \<Rightarrow> user_name \<Rightarrow> string \<Rightarrow> user option \<Rightarrow> v1_fetched" where
  "acquireV1_fetch env userName dbname user =
     (case user of
        Some u \<Rightarrow> probe_V1 env dbname u
      | None \<Rightarrow>
          let (st, u) = fetchUserV1 env 0 userName
          in if status_code st = AuthSchemaIncompatible
             then (case fetchUserV2 env 0 userName of (st, u) \<Rightarrow> V1_as_V2 st u)
             else if \<not> isOK st then V1_failed st
             else case u of None \<Rightarrow> V1_failed st | Some u \<Rightarrow> probe_V1 env dbname u)"

definition acquireV1_finish :: "fetch_env \<Rightarrow> user_name \<Rightarrow> string \<Rightarrow> user option \<Rightarrow> uint64 \<Rightarrow> user_ptr \<Rightarrow> authz_manager \<Rightarrow> (acquire_outcome \<times> authz_manager) result" where
  "acquireV1_finish env userName dbname user gen p m =
     (case acquireV1_fetch env userName dbname user of
        V1_failed st \<Rightarrow> bindE (leaveFetchPhase m) (\<lambda>m. Inr (Returned st p, m))
      | V1_as_V2 st u \<Rightarrow>
          if \<not> isOK st then bindE (leaveFetchPhase m) (\<lambda>m. Inr (Returned st p, m))
          else (case u of
            None \<Rightarrow> Inl UndefinedBehaviour
          | Some u \<Rightarrow>
              bindE (if isSameCacheGeneration gen m
                     then bindE (invalidateUserCache m) (\<lambda>m.
                       Inr (m\<lparr>am_users := (am_users m)(p := Some (incrementRefCount u)),
                              am_userCache := [(un_fullName userName, p)]\<rparr>))
                     else Inr (m\<lparr>am_users := (am_users m)(p := Some (incrementRefCount (invalidate u)))\<rparr>)) (\<lambda>m.
              bindE (leaveFetchPhase m) (\<lambda>m. Inr (Returned st p, m))))
      | V1_probed u \<Rightarrow>
          let u = incrementRefCount u
          in bindE (if isSameCacheGeneration gen m
                    then (case map_of (am_userCache m) (un_fullName userName) of
                            Some q \<Rightarrow>
                              bindE (deref q m) (\<lambda>_.
                                let m = update_user q invalidate m
                                in Inr (m\<lparr>am_users := (am_users m)(p := Some u),
                                          am_userCache := AList.update (un_fullName userName) p (am_userCache m)\<rparr>))
                          | None \<Rightarrow>
                              Inr (m\<lparr>am_users := (am_users m)(p := Some u),
                                     am_userCache := (un_fullName userName, p) # am_userCache m\<rparr>))
                    else Inr (m\<lparr>am_users := (am_users m)(p := Some (invalidate u))\<rparr>)) (\<lambda>m.
             bindE (leaveFetchPhase m) (\<lambda>m. Inr (Returned Status_OK p, m))))"

definition getAuthorizationVersion_enter :: "authz_manager \<Rightarrow> (acquire_outcome \<times> authz_manager) result" where
  "getAuthorizationVersion_enter m =
     (if am_version m \<noteq> schemaVersionInvalid then Inr (Version (am_version m), m)
      else if am_isFetchPhaseBusy m then Inr (Pending Wait_version, m)
      else bindE (beginFetchPhase m) (\<lambda>(gen, m). Inr (Pending (Fetch_version gen), m)))"

definition getAuthorizationVersion_finish :: "fetch_env \<Rightarrow> uint64 \<Rightarrow> authz_manager \<Rightarrow> (acquire_outcome \<times> authz_manager) result" where
  "getAuthorizationVersion_finish env gen m =
     (let (st, newVersion) = fe_storedVersion env 0;
          m = (if isOK st \<and> isSameCacheGeneration gen m then m\<lparr>am_version := newVersion\<rparr> else m)
      in bindE (leaveFetchPhase m) (\<lambda>m. Inr (Version newVersion, m)))"

subsection \<open>Threads using the cache\<close>

text \<open>
  The references handed out and, for each thread, the operation it is in the middle of.
\<close>

record cache_system =
  cs_manager :: authz_manager
  cs_refs :: "user_ptr \<Rightarrow> nat"
  cs_threads :: "pending option list"

datatype event =
    Acquire user_name
  | Acquire_V1 user_name string
  | Get_version
  | Resume_wait
  | Spurious_wakeup
  | Finish fetch_env user_ptr
  | Release user_ptr
  | Invalidate_user user_name
  | Invalidate_db string
  | Invalidate_all

fun resume_pending :: "pending \<Rightarrow> authz_manager \<Rightarrow> (acquire_outcome \<times> authz_manager) result option" where
  "resume_pending (Wait_user n) m = Some (acquireUser_enter n m)"
| "resume_pending (Wait_V1 n d) m = Some (acquireV1_enter n d m)"
| "resume_pending (Wait_V1_fetch n d u) m = Some (begin_V1 n d u m)"
| "resume_pending Wait_version m =
     Some (if am_isFetchPhaseBusy m then Inr (Pending Wait_version, m)
           else bindE (beginFetchPhase m) (\<lambda>(gen, m). Inr (Pending (Fetch_version gen), m)))"
| "resume_pending _ m = None"

fun finish_pending :: "fetch_env \<Rightarrow> user_ptr \<Rightarrow> pending \<Rightarrow> authz_manager \<Rightarrow> (acquire_outcome \<times> authz_manager) result option" where
  "finish_pending env p (Fetch_user n gen v) m = Some (acquireUser_finish env n gen v p m)"
| "finish_pending env p (Fetch_V1 n d u gen) m = Some (acquireV1_finish env n d u gen p m)"
| "finish_pending env p (Fetch_version gen) m = Some (getAuthorizationVersion_finish env gen m)"
| "finish_pending env p _ m = None"

text \<open>
  The caller of an acquisition holds a reference when the status is OK; a thread whose operation is pending outside the
  fetch phase has gone to sleep.
\<close>

definition after_outcome :: "nat \<Rightarrow> acquire_outcome \<Rightarrow> authz_manager \<Rightarrow> authz_manager" where
  "after_outcome t out m =
     (case out of Pending pd \<Rightarrow> if fetching pd then m else guard_wait t m | _ \<Rightarrow> m)"

definition record_outcome :: "nat \<Rightarrow> acquire_outcome \<times> authz_manager \<Rightarrow> cache_system \<Rightarrow> cache_system" where
  "record_outcome t om s =
     (case fst om of
        Returned st p \<Rightarrow>
          \<lparr>cs_manager = snd om,
           cs_refs = (if isOK st then (cs_refs s)(p := cs_refs s p + 1) else cs_refs s),
           cs_threads = (cs_threads s)[t := None]\<rparr>
      | Version v \<Rightarrow> s\<lparr>cs_manager := snd om, cs_threads := (cs_threads s)[t := None]\<rparr>
      | Pending pd \<Rightarrow> s\<lparr>cs_manager := after_outcome t (fst om) (snd om), cs_threads := (cs_threads s)[t := Some pd]\<rparr>)"

definition run_idle :: "event \<Rightarrow> cache_system \<Rightarrow> (acquire_outcome \<times> authz_manager) result option" where
  "run_idle ev s =
     (case ev of
        Acquire n \<Rightarrow> Some (acquireUser_enter n (cs_manager s))
      | Acquire_V1 n d \<Rightarrow> Some (acquireV1_enter n d (cs_manager s))
      | Get_version \<Rightarrow> Some (getAuthorizationVersion_enter (cs_manager s))
      | _ \<Rightarrow> None)"

text \<open>A thread goes on from a wait once it is awake.\<close>

definition run_thread :: "nat \<Rightarrow> event \<Rightarrow> cache_system \<Rightarrow> (acquire_outcome \<times> authz_manager) result option" where
  "run_thread t ev s =
     (case cs_threads s ! t of
        None \<Rightarrow> run_idle ev s
      | Some pd \<Rightarrow>
          (case ev of
             Resume_wait \<Rightarrow>
               if t \<in> set (am_fetchPhaseIsReady (cs_manager s)) then None else resume_pending pd (cs_manager s)
           | Finish env p \<Rightarrow>
               if am_users (cs_manager s) p = None \<and> p \<noteq> internal_ptr
               then finish_pending env p pd (cs_manager s) else None
           | _ \<Rightarrow> None))"

definition run_asleep :: "nat \<Rightarrow> event \<Rightarrow> cache_system \<Rightarrow> cache_system result option" where
  "run_asleep t ev s =
     (case ev of
        Spurious_wakeup \<Rightarrow>
          if t \<in> set (am_fetchPhaseIsReady (cs_manager s)) then Some (Inr (s\<lparr>cs_manager := wake_up t (cs_manager s)\<rparr>)) else None
      | _ \<Rightarrow> None)"

text \<open>Releasing and invalidating take one locked section; a client releases only what it holds.\<close>

definition run_simple :: "event \<Rightarrow> cache_system \<Rightarrow> cache_system result option" where
  "run_simple ev s =
     (case ev of
        Release p \<Rightarrow>
          if cs_refs s p = 0 then None
          else Some (bindE (releaseUser p (cs_manager s)) (\<lambda>m.
            Inr (s\<lparr>cs_manager := m, cs_refs := (cs_refs s)(p := cs_refs s p - 1)\<rparr>)))
      | Invalidate_user n \<Rightarrow> Some (bindE (invalidateUserByName n (cs_manager s)) (\<lambda>m. Inr (s\<lparr>cs_manager := m\<rparr>)))
      | Invalidate_db d \<Rightarrow> Some (bindE (invalidateUsersFromDB d (cs_manager s)) (\<lambda>m. Inr (s\<lparr>cs_manager := m\<rparr>)))
      | Invalidate_all \<Rightarrow> Some (bindE (invalidateUserCache (cs_manager s)) (\<lambda>m. Inr (s\<lparr>cs_manager := m\<rparr>)))
      | _ \<Rightarrow> None)"

definition cache_step :: "nat \<Rightarrow> event \<Rightarrow> cache_system \<Rightarrow> cache_system result option" where
  "cache_step t ev s =
     (if length (cs_threads s) \<le> t then None
      else case run_thread t ev s of
        Some r \<Rightarrow> Some (bindE r (\<lambda>om. Inr (record_outcome t om s)))
      | None \<Rightarrow> if cs_threads s ! t = None then run_simple ev s else run_asleep t ev s)"

definition cache_start :: "privilege list \<Rightarrow> nat \<Rightarrow> cache_system" where
  "cache_start universal n =
     \<lparr>cs_manager = AuthorizationManager universal, cs_refs = (\<lambda>_. 0), cs_threads = replicate n None\<rparr>"

text \<open>
  The reachable states in which no user is held by \<open>2 ^ 32\<close> clients at once: there the reference count, an unsigned integer
  of 32 bits, would wrap around.
\<close>

definition refs_bounded :: "(user_ptr \<Rightarrow> nat) \<Rightarrow> bool" where
  "refs_bounded refs \<longleftrightarrow> (\<forall>p. p \<noteq> internal_ptr \<longrightarrow> refs p < 2 ^ 32)"

inductive cache_reachable :: "privilege list \<Rightarrow> nat \<Rightarrow> cache_system \<Rightarrow> bool" for universal n where
  cache_init: "cache_reachable universal n (cache_start universal n)"
| cache_next: "cache_reachable universal n s \<Longrightarrow> cache_step t ev s = Some (Inr s') \<Longrightarrow> refs_bounded (cs_refs s') \<Longrightarrow>
    cache_reachable universal n s'"

subsection \<open>The invariant\<close>

text \<open>A user object that no one has a reference to yet.\<close>

definition fresh_user :: "user_name \<Rightarrow> user \<Rightarrow> bool" where
  "fresh_user n u \<longleftrightarrow> un_fullName (us_name u) = un_fullName n \<and> us_isValid u \<and> us_refCount u = 0"

fun pending_ok :: "authz_manager \<Rightarrow> pending \<Rightarrow> bool" where
  "pending_ok m (Fetch_user n _ _) = (map_of (am_userCache m) (un_fullName n) = None)"
| "pending_ok m (Wait_V1_fetch n _ u) = (\<forall>x. u = Some x \<longrightarrow> fresh_user n x)"
| "pending_ok m (Fetch_V1 n _ u _) = (\<forall>x. u = Some x \<longrightarrow> fresh_user n x)"
| "pending_ok m _ = True"

text \<open>
  The keys of the cache are distinct, and it holds exactly the valid users, each under its name.
\<close>

definition cache_ok :: "authz_manager \<Rightarrow> bool" where
  "cache_ok m \<longleftrightarrow> distinct (map fst (am_userCache m)) \<and> am_users m internal_ptr \<noteq> None \<and>
     (\<forall>k p. map_of (am_userCache m) k = Some p \<longrightarrow> p \<noteq> internal_ptr \<and>
        (\<exists>u. am_users m p = Some u \<and> us_isValid u \<and> un_fullName (us_name u) = k)) \<and>
     (\<forall>p u. p \<noteq> internal_ptr \<longrightarrow> am_users m p = Some u \<longrightarrow> us_isValid u \<longrightarrow>
        map_of (am_userCache m) (un_fullName (us_name u)) = Some p)"

text \<open>A live object is counted, modulo \<open>2 ^ 32\<close>, and held by somebody; a dead one is not.\<close>

definition count_ok :: "user option \<Rightarrow> nat \<Rightarrow> bool" where
  "count_ok x n \<longleftrightarrow> (case x of None \<Rightarrow> n = 0 | Some u \<Rightarrow> us_refCount u = of_nat n \<and> 0 < n)"

definition refs_ok :: "authz_manager \<Rightarrow> (user_ptr \<Rightarrow> nat) \<Rightarrow> bool" where
  "refs_ok m refs \<longleftrightarrow> (\<forall>p. p \<noteq> internal_ptr \<longrightarrow> count_ok (am_users m p) (refs p))"

definition num_fetching :: "pending option list \<Rightarrow> nat" where
  "num_fetching ts = length (filter (\<lambda>t. case t of None \<Rightarrow> False | Some pd \<Rightarrow> fetching pd) ts)"

definition threads_ok :: "authz_manager \<Rightarrow> pending option list \<Rightarrow> bool" where
  "threads_ok m ts \<longleftrightarrow> num_fetching ts = (if am_isFetchPhaseBusy m then 1 else 0) \<and>
     (\<forall>pd. Some pd \<in> set ts \<longrightarrow> pending_ok m pd)"

text \<open>A thread sleeps only as long as another is in the fetch phase.\<close>

definition sleepers_ok :: "authz_manager \<Rightarrow> bool" where
  "sleepers_ok m \<longleftrightarrow> (am_fetchPhaseIsReady m \<noteq> [] \<longrightarrow> am_isFetchPhaseBusy m)"

definition system_ok :: "cache_system \<Rightarrow> bool" where
  "system_ok s \<longleftrightarrow> cache_ok (cs_manager s) \<and> refs_ok (cs_manager s) (cs_refs s) \<and>
     threads_ok (cs_manager s) (cs_threads s) \<and> sleepers_ok (cs_manager s)"

end
