(* ===== verification/Authz_Cache_Invariant.thy ===== *)
theory Authz_Cache_Invariant
  imports Authz_Cache
begin

text \<open>
  Every operation on the user cache keeps its invariant (\<open>system_ok\<close> of \<open>Authz_Cache\<close>) and dereferences live
  objects only: the invalidations and the release, the two parts of each acquisition, and the steps of the
  threads.
\<close>

subsubsection \<open>Steps of the manager\<close>

lemma cache_okD:
  assumes "cache_ok m"
  shows "distinct (map fst (am_userCache m))" "am_users m internal_ptr \<noteq> None"
    "map_of (am_userCache m) k = Some p \<Longrightarrow> p \<noteq> internal_ptr \<and>
        (\<exists>u. am_users m p = Some u \<and> us_isValid u \<and> un_fullName (us_name u) = k)"
    "p \<noteq> internal_ptr \<Longrightarrow> am_users m p = Some u \<Longrightarrow> us_isValid u \<Longrightarrow>
        map_of (am_userCache m) (un_fullName (us_name u)) = Some p"
  using assms unfolding cache_ok_def by simp_all

lemma cache_okI:
  assumes "distinct (map fst (am_userCache m))" "am_users m internal_ptr \<noteq> None"
    "\<And>k p. map_of (am_userCache m) k = Some p \<Longrightarrow> p \<noteq> internal_ptr \<and>
        (\<exists>u. am_users m p = Some u \<and> us_isValid u \<and> un_fullName (us_name u) = k)"
    "\<And>p u. p \<noteq> internal_ptr \<Longrightarrow> am_users m p = Some u \<Longrightarrow> us_isValid u \<Longrightarrow>
        map_of (am_userCache m) (un_fullName (us_name u)) = Some p"
  shows "cache_ok m"
  using assms unfolding cache_ok_def by blast

lemma cache_ok_update [simp]:
  "cache_ok (m\<lparr>am_isFetchPhaseBusy := b\<rparr>) = cache_ok m"
  "cache_ok (m\<lparr>am_version := v\<rparr>) = cache_ok m"
  "cache_ok (m\<lparr>am_cacheGeneration := g\<rparr>) = cache_ok m"
  "refs_ok (m\<lparr>am_isFetchPhaseBusy := b\<rparr>) refs = refs_ok m refs"
  "refs_ok (m\<lparr>am_version := v\<rparr>) refs = refs_ok m refs"
  "refs_ok (m\<lparr>am_cacheGeneration := g\<rparr>) refs = refs_ok m refs"
  "refs_ok (m\<lparr>am_userCache := c\<rparr>) refs = refs_ok m refs"
  "cache_ok (m\<lparr>am_fetchPhaseIsReady := ts\<rparr>) = cache_ok m"
  "refs_ok (m\<lparr>am_fetchPhaseIsReady := ts\<rparr>) refs = refs_ok m refs"
  by (simp_all add: cache_ok_def refs_ok_def)

lemma invalidate_simps [simp]:
  "us_isValid (invalidate u) = False" "us_name (invalidate u) = us_name u" "us_refCount (invalidate u) = us_refCount u"
  "us_isValid (incrementRefCount u) = us_isValid u" "us_name (incrementRefCount u) = us_name u"
  "us_refCount (incrementRefCount u) = us_refCount u + 1"
  "us_isValid (decrementRefCount u) = us_isValid u" "us_name (decrementRefCount u) = us_name u"
  "us_refCount (decrementRefCount u) = us_refCount u - 1"
  by (simp_all add: invalidate_def incrementRefCount_def decrementRefCount_def)

lemma refs_okD:
  assumes "refs_ok m refs" "p \<noteq> internal_ptr"
  shows "am_users m p = Some u \<Longrightarrow> us_refCount u = of_nat (refs p) \<and> 0 < refs p" "am_users m p = None \<Longrightarrow> refs p = 0"
  using assms by (auto simp: refs_ok_def count_ok_def)

lemma count_ok_simps [simp]:
  "count_ok None n \<longleftrightarrow> n = 0" "count_ok (Some u) n \<longleftrightarrow> us_refCount u = of_nat n \<and> 0 < n"
  "count_ok (map_option invalidate x) n = count_ok x n"
  by (simp_all add: count_ok_def split: option.splits)

text \<open>Below the wrap-around a count is zero only when nobody holds the object.\<close>

lemma count_zero: "n < 2 ^ 32 \<Longrightarrow> (of_nat n :: 32 word) = 0 \<longleftrightarrow> n = 0"
  by (auto simp: word_of_nat_eq_0_iff dest: dvd_imp_le)

lemma count_pred: "0 < n \<Longrightarrow> (of_nat n :: 32 word) - 1 = of_nat (n - 1)"
  by (simp add: of_nat_diff)

lemma refs_ok_internal [simp]: "refs_ok m (refs(internal_ptr := n)) = refs_ok m refs"
  by (simp add: refs_ok_def)

lemma swap_updates: "m\<lparr>am_userCache := c, am_users := f\<rparr> = m\<lparr>am_users := f, am_userCache := c\<rparr>"
  by simp

text \<open>Changing one object that is alive, but not its name, its validity or the cache.\<close>

lemma cache_ok_touch:
  assumes "cache_ok m" "am_users m p = Some u" "us_isValid u' = us_isValid u" "us_name u' = us_name u"
  shows "cache_ok (m\<lparr>am_users := (am_users m)(p := Some u')\<rparr>)"
proof (rule cache_okI)
  note d = cache_okD [OF assms(1)]
  show "distinct (map fst (am_userCache (m\<lparr>am_users := (am_users m)(p := Some u')\<rparr>)))" using d(1) by simp
  show "am_users (m\<lparr>am_users := (am_users m)(p := Some u')\<rparr>) internal_ptr \<noteq> None" using d(2) by simp
next
  fix k q assume "map_of (am_userCache (m\<lparr>am_users := (am_users m)(p := Some u')\<rparr>)) k = Some q"
  with cache_okD(3) [OF assms(1), of k q] assms(2-4)
  show "q \<noteq> internal_ptr \<and> (\<exists>u. am_users (m\<lparr>am_users := (am_users m)(p := Some u')\<rparr>) q = Some u \<and> us_isValid u \<and> un_fullName (us_name u) = k)"
    by auto
next
  fix q v assume q: "q \<noteq> internal_ptr" "am_users (m\<lparr>am_users := (am_users m)(p := Some u')\<rparr>) q = Some v" "us_isValid v"
  show "map_of (am_userCache (m\<lparr>am_users := (am_users m)(p := Some u')\<rparr>)) (un_fullName (us_name v)) = Some q"
  proof (cases "q = p")
    case True
    with q assms(2-4) cache_okD(4) [OF assms(1), of p u] show ?thesis by simp
  next
    case False
    with q cache_okD(4) [OF assms(1), of q v] show ?thesis by simp
  qed
qed

text \<open>A new valid object enters the cache, replacing the one of its name.\<close>

lemma cache_ok_enter:
  assumes "cache_ok m" "am_users m p = None" "p \<noteq> internal_ptr" "us_isValid u" "un_fullName (us_name u) = k"
    "us' = (case map_of (am_userCache m) k of None \<Rightarrow> am_users m | Some q \<Rightarrow> (am_users m)(q := map_option invalidate (am_users m q)))"
    "map_of c = (map_of (am_userCache m))(k \<mapsto> p)" "distinct (map fst c)"
  shows "cache_ok (m\<lparr>am_users := us'(p := Some u), am_userCache := c\<rparr>)"
proof (rule cache_okI)
  note d = cache_okD [OF assms(1)]
  have old: "us' q = (if map_of (am_userCache m) k = Some q then map_option invalidate (am_users m q) else am_users m q)" for q
    by (auto simp: assms(6) split: option.splits)
  show "distinct (map fst (am_userCache (m\<lparr>am_users := us'(p := Some u), am_userCache := c\<rparr>)))" using assms(8) by simp
  show "am_users (m\<lparr>am_users := us'(p := Some u), am_userCache := c\<rparr>) internal_ptr \<noteq> None" using d(2) by (simp add: old)
  {
    fix k' q assume "map_of (am_userCache (m\<lparr>am_users := us'(p := Some u), am_userCache := c\<rparr>)) k' = Some q"
    then have q: "if k' = k then q = p else map_of (am_userCache m) k' = Some q" by (simp add: assms(7) split: if_splits)
    show "q \<noteq> internal_ptr \<and> (\<exists>v. am_users (m\<lparr>am_users := us'(p := Some u), am_userCache := c\<rparr>) q = Some v \<and> us_isValid v \<and> un_fullName (us_name v) = k')"
    proof (cases "k' = k")
      case True
      with q assms(3-5) show ?thesis by simp
    next
      case False
      with q have q': "map_of (am_userCache m) k' = Some q" by simp
      from d(3) [OF q'] obtain v where v: "q \<noteq> internal_ptr" "am_users m q = Some v" "us_isValid v" "un_fullName (us_name v) = k'" by blast
      have "map_of (am_userCache m) k \<noteq> Some q" using d(3) [of k q] v False by auto
      with v assms(2) show ?thesis by (auto simp: old)
    qed
  next
    fix q v assume q: "q \<noteq> internal_ptr" "am_users (m\<lparr>am_users := us'(p := Some u), am_userCache := c\<rparr>) q = Some v" "us_isValid v"
    show "map_of (am_userCache (m\<lparr>am_users := us'(p := Some u), am_userCache := c\<rparr>)) (un_fullName (us_name v)) = Some q"
    proof (cases "q = p")
      case True
      with q assms(5) show ?thesis by (simp add: assms(7))
    next
      case False
      with q(2,3) have v: "am_users m q = Some v" "map_of (am_userCache m) k \<noteq> Some q"
        by (auto simp: old split: if_splits)
      from d(4) [OF q(1) v(1) q(3)] v(2) show ?thesis by (auto simp: assms(7))
    qed
  }
qed

text \<open>A new invalid object does not enter the cache.\<close>

lemma cache_ok_outside:
  assumes "cache_ok m" "am_users m p = None" "\<not> us_isValid u"
  shows "cache_ok (m\<lparr>am_users := (am_users m)(p := Some u)\<rparr>)"
proof (rule cache_okI)
  note d = cache_okD [OF assms(1)]
  show "distinct (map fst (am_userCache (m\<lparr>am_users := (am_users m)(p := Some u)\<rparr>)))"
    "am_users (m\<lparr>am_users := (am_users m)(p := Some u)\<rparr>) internal_ptr \<noteq> None" using d(1,2) by simp_all
  {
    fix k q assume "map_of (am_userCache (m\<lparr>am_users := (am_users m)(p := Some u)\<rparr>)) k = Some q"
    with d(3) [of k q] assms(2)
    show "q \<noteq> internal_ptr \<and> (\<exists>v. am_users (m\<lparr>am_users := (am_users m)(p := Some u)\<rparr>) q = Some v \<and> us_isValid v \<and> un_fullName (us_name v) = k)"
      by auto
  next
    fix q v assume "q \<noteq> internal_ptr" "am_users (m\<lparr>am_users := (am_users m)(p := Some u)\<rparr>) q = Some v" "us_isValid v"
    with d(4) [of q v] assms(3) show "map_of (am_userCache (m\<lparr>am_users := (am_users m)(p := Some u)\<rparr>)) (un_fullName (us_name v)) = Some q"
      by (auto split: if_splits)
  }
qed

text \<open>An object leaves the cache, invalidated or deleted.\<close>

lemma cache_ok_leave:
  assumes "cache_ok m" "am_users m p = Some u" "p \<noteq> internal_ptr" "un_fullName (us_name u) = k"
    "\<And>q. map_of (am_userCache m) k = Some q \<Longrightarrow> q = p" "\<And>v. x = Some v \<Longrightarrow> \<not> us_isValid v"
  shows "cache_ok (m\<lparr>am_users := (am_users m)(p := x), am_userCache := AList.delete k (am_userCache m)\<rparr>)"
proof (rule cache_okI)
  note d = cache_okD [OF assms(1)]
  let ?m = "m\<lparr>am_users := (am_users m)(p := x), am_userCache := AList.delete k (am_userCache m)\<rparr>"
  show "distinct (map fst (am_userCache ?m))" using d(1) by (simp add: distinct_delete)
  show "am_users ?m internal_ptr \<noteq> None" using d(2) assms(3) by simp
  {
    fix k' q assume "map_of (am_userCache ?m) k' = Some q"
    then have k': "k' \<noteq> k" "map_of (am_userCache m) k' = Some q" by (auto simp: delete_conv' split: if_splits)
    from d(3) [OF k'(2)] obtain v where v: "q \<noteq> internal_ptr" "am_users m q = Some v" "us_isValid v" "un_fullName (us_name v) = k'" by blast
    then have "q \<noteq> p" using assms(2,4) k'(1) by auto
    with v show "q \<noteq> internal_ptr \<and> (\<exists>v. am_users ?m q = Some v \<and> us_isValid v \<and> un_fullName (us_name v) = k')" by simp
  next
    fix q v assume q: "q \<noteq> internal_ptr" "am_users ?m q = Some v" "us_isValid v"
    then have "q \<noteq> p" using assms(6) by auto
    with q have v: "am_users m q = Some v" by simp
    from d(4) [OF q(1) v q(3)] have "map_of (am_userCache m) (un_fullName (us_name v)) = Some q" .
    moreover from this \<open>q \<noteq> p\<close> have "un_fullName (us_name v) \<noteq> k" using assms(5) by auto
    ultimately show "map_of (am_userCache ?m) (un_fullName (us_name v)) = Some q" by (simp add: delete_conv')
  }
qed

text \<open>The counts, when one object changes.\<close>

lemma refs_ok_set:
  assumes "refs_ok m refs" "count_ok x n"
  shows "refs_ok (m\<lparr>am_users := (am_users m)(p := x)\<rparr>) (refs(p := n))"
  using assms by (simp add: refs_ok_def)

lemma refs_ok_same:
  assumes "refs_ok m refs" "am_users m p = Some u" "us_refCount u' = us_refCount u"
  shows "refs_ok (m\<lparr>am_users := (am_users m)(p := Some u')\<rparr>) refs"
proof (cases "p = internal_ptr")
  case True
  then show ?thesis using assms(1) unfolding refs_ok_def by simp
next
  case False
  with refs_ok_set [OF assms(1), of "Some u'" "refs p" p] refs_okD(1) [OF assms(1) False assms(2)] assms(3)
  show ?thesis by simp
qed

subsection \<open>The operations keep the invariant\<close>

lemma deref_live: "am_users m p = Some u \<Longrightarrow> deref p m = Inr u"
  by (simp add: deref_def)

text \<open>The cache only loses entries.\<close>

definition shrinks :: "authz_manager \<Rightarrow> authz_manager \<Rightarrow> bool" where
  "shrinks m m' \<longleftrightarrow> am_isFetchPhaseBusy m' = am_isFetchPhaseBusy m \<and> am_fetchPhaseIsReady m' = am_fetchPhaseIsReady m \<and>
     (\<forall>k. map_of (am_userCache m) k = None \<longrightarrow> map_of (am_userCache m') k = None)"

lemma shrinks_threads: "shrinks m m' \<Longrightarrow> threads_ok m ts \<Longrightarrow> threads_ok m' ts"
proof -
  assume s: "shrinks m m'" and t: "threads_ok m ts"
  have "pending_ok m pd \<Longrightarrow> pending_ok m' pd" for pd using s by (cases pd) (simp_all add: shrinks_def)
  with s t show ?thesis unfolding threads_ok_def shrinks_def by simp
qed

lemma shrinks_sleepers: "shrinks m m' \<Longrightarrow> sleepers_ok m \<Longrightarrow> sleepers_ok m'"
  by (simp add: shrinks_def sleepers_ok_def)

lemma invalidateUserByName_ok:
  assumes "cache_ok m" "refs_ok m refs"
  shows "\<exists>m'. invalidateUserByName n m = Inr m' \<and> cache_ok m' \<and> refs_ok m' refs \<and> shrinks m m'"
proof (cases "map_of (am_userCache m) (un_fullName n)")
  case None
  with assms show ?thesis by (simp add: invalidateUserByName_def Let_def shrinks_def)
next
  case (Some p)
  from cache_okD(3) [OF assms(1) Some] obtain u where u: "p \<noteq> internal_ptr" "am_users m p = Some u" "us_isValid u"
    "un_fullName (us_name u) = un_fullName n" by blast
  let ?m = "m\<lparr>am_users := (am_users m)(p := Some (invalidate u)), am_userCache := AList.delete (un_fullName n) (am_userCache m)\<rparr>"
  have "invalidateUserByName n m = Inr (?m\<lparr>am_cacheGeneration := am_cacheGeneration m + 1\<rparr>)"
    using Some u(2) by (simp add: invalidateUserByName_def Let_def deref_def update_user_def)
  moreover have "cache_ok ?m" using cache_ok_leave [OF assms(1) u(2,1,4), of "Some (invalidate u)"] Some by simp
  moreover have "refs_ok ?m refs" using refs_ok_same [OF assms(2) u(2), of "invalidate u"] by (simp add: refs_ok_def)
  ultimately show ?thesis by (auto simp: shrinks_def delete_conv')
qed

text \<open>The loop over the entries of one database: the entries left are alive and under their names.\<close>

definition entries_ok :: "(string \<times> user_ptr) list \<Rightarrow> authz_manager \<Rightarrow> bool" where
  "entries_ok es m \<longleftrightarrow> (\<forall>(k, p) \<in> set es. p \<noteq> internal_ptr \<and> (\<exists>u. am_users m p = Some u \<and> un_fullName (us_name u) = k) \<and>
     (\<forall>q. map_of (am_userCache m) k = Some q \<longrightarrow> q = p))"

lemma entries_ok_cache: "cache_ok m \<Longrightarrow> entries_ok (am_userCache m) m"
proof -
  assume c: "cache_ok m"
  have "map_of (am_userCache m) k = Some p" if "(k, p) \<in> set (am_userCache m)" for k p
    using that cache_okD(1) [OF c] by (simp add: map_of_eq_Some_iff)
  then show ?thesis using cache_okD(3) [OF c] unfolding entries_ok_def by fastforce
qed

lemma invalidate_in_db_ok:
  assumes "cache_ok m" "refs_ok m refs" "entries_ok es m" "(k, p) \<in> set es"
  shows "\<exists>m'. invalidate_in_db d (k, p) m = Inr m' \<and> cache_ok m' \<and> refs_ok m' refs \<and> entries_ok es m' \<and> shrinks m m'"
proof -
  from assms(3,4) obtain u where u: "p \<noteq> internal_ptr" "am_users m p = Some u" "un_fullName (us_name u) = k"
    "\<And>q. map_of (am_userCache m) k = Some q \<Longrightarrow> q = p" unfolding entries_ok_def by fastforce
  let ?m = "m\<lparr>am_users := (am_users m)(p := Some (invalidate u)), am_userCache := AList.delete k (am_userCache m)\<rparr>"
  have "cache_ok ?m" using cache_ok_leave [OF assms(1) u(2,1,3,4), of "Some (invalidate u)"] by simp
  moreover have "refs_ok ?m refs" using refs_ok_same [OF assms(2) u(2), of "invalidate u"] by (simp add: refs_ok_def)
  moreover have "entries_ok es ?m" unfolding entries_ok_def
  proof (clarify)
    fix k' q assume "(k', q) \<in> set es"
    with assms(3) have e: "q \<noteq> internal_ptr" "\<exists>v. am_users m q = Some v \<and> un_fullName (us_name v) = k'"
      "\<And>r. map_of (am_userCache m) k' = Some r \<Longrightarrow> r = q" unfolding entries_ok_def by auto
    show "q \<noteq> internal_ptr \<and> (\<exists>v. am_users ?m q = Some v \<and> un_fullName (us_name v) = k') \<and>
      (\<forall>r. map_of (am_userCache ?m) k' = Some r \<longrightarrow> r = q)"
      using e u(2) by (cases "q = p") (auto simp: delete_conv' split: if_splits)
  qed
  moreover have "shrinks m ?m" by (simp add: shrinks_def delete_conv')
  moreover have "shrinks m m" by (simp add: shrinks_def)
  ultimately show ?thesis using u(2) assms(1-3)
    by (cases "un_getDB (us_name u) = d") (simp_all add: invalidate_in_db_def deref_def update_user_def swap_updates)
qed

lemma invalidateUsersFromDB_ok:
  assumes "cache_ok m" "refs_ok m refs"
  shows "\<exists>m'. invalidateUsersFromDB d m = Inr m' \<and> cache_ok m' \<and> refs_ok m' refs \<and> shrinks m m'"
proof -
  let ?m = "m\<lparr>am_cacheGeneration := am_cacheGeneration m + 1\<rparr>"
  let ?P = "\<lambda>x. cache_ok x \<and> refs_ok x refs \<and> entries_ok (am_userCache m) x \<and> shrinks m x"
  have "\<exists>m'. foldE (invalidate_in_db d) (am_userCache m) ?m = Inr m' \<and> ?P m'"
  proof (rule foldE_invariant)
    show "?P ?m" using assms entries_ok_cache [OF assms(1)] by (simp add: entries_ok_def shrinks_def)
  next
    fix e x assume e: "e \<in> set (am_userCache m)" and P: "?P x"
    obtain k p where kp: "e = (k, p)" by (cases e)
    from invalidate_in_db_ok [of x refs "am_userCache m" k p d] P e kp obtain x' where
      "invalidate_in_db d e x = Inr x'" "cache_ok x'" "refs_ok x' refs" "entries_ok (am_userCache m) x'" "shrinks x x'" by auto
    moreover have "shrinks m x'" using P \<open>shrinks x x'\<close> by (simp add: shrinks_def)
    ultimately show "\<exists>x'. invalidate_in_db d e x = Inr x' \<and> ?P x'" by auto
  qed
  then show ?thesis by (auto simp: invalidateUsersFromDB_def Let_def)
qed

lemma invalidate_entries:
  assumes "\<forall>(k, p) \<in> set es. p \<noteq> internal_ptr \<and> am_users m p \<noteq> None"
  shows "foldE invalidate_entry es m =
    Inr (m\<lparr>am_users := \<lambda>q. if q \<in> snd ` set es then map_option invalidate (am_users m q) else am_users m q\<rparr>)"
  using assms
proof (induction es arbitrary: m)
  case Nil
  then show ?case by simp
next
  case (Cons e es)
  obtain k p where e: "e = (k, p)" by (cases e)
  from Cons.prems e obtain u where u: "p \<noteq> internal_ptr" "am_users m p = Some u" by auto
  let ?m = "m\<lparr>am_users := (am_users m)(p := Some (invalidate u))\<rparr>"
  have "invalidate_entry e m = Inr ?m" using u by (simp add: invalidate_entry_def e deref_def update_user_def)
  moreover have "foldE invalidate_entry es ?m =
      Inr (?m\<lparr>am_users := \<lambda>q. if q \<in> snd ` set es then map_option invalidate (am_users ?m q) else am_users ?m q\<rparr>)"
    by (rule Cons.IH) (use Cons.prems in auto)
  moreover have "invalidate (invalidate u) = invalidate u" by (simp add: invalidate_def)
  ultimately show ?case using u by (auto simp: e fun_eq_iff)
qed

lemma invalidateUserCache_ok:
  assumes "cache_ok m" "refs_ok m refs"
  shows "\<exists>m'. invalidateUserCache m = Inr m' \<and> cache_ok m' \<and> refs_ok m' refs \<and> shrinks m m' \<and> am_userCache m' = [] \<and>
    (\<forall>p. am_users m' p = None \<longleftrightarrow> am_users m p = None)"
proof -
  note d = cache_okD [OF assms(1)]
  let ?m = "m\<lparr>am_cacheGeneration := am_cacheGeneration m + 1\<rparr>"
  let ?us = "\<lambda>q. if q \<in> snd ` set (am_userCache m) then map_option invalidate (am_users m q) else am_users m q"
  have live: "\<forall>(k, p) \<in> set (am_userCache m). p \<noteq> internal_ptr \<and> am_users ?m p \<noteq> None"
    using entries_ok_cache [OF assms(1)] unfolding entries_ok_def by auto
  from invalidate_entries [OF live]
  have eq: "invalidateUserCache m = Inr (?m\<lparr>am_users := ?us, am_userCache := [], am_version := schemaVersionInvalid\<rparr>)"
    by (simp add: invalidateUserCache_def Let_def cong: if_cong)
  have "\<not> us_isValid u" if u: "p \<noteq> internal_ptr" "?us p = Some u" for p u
  proof
    assume v: "us_isValid u"
    with u(2) have "am_users m p = Some u" "p \<notin> snd ` set (am_userCache m)" by (auto split: if_splits)
    moreover from d(4) [OF u(1) this(1) v] have "p \<in> snd ` set (am_userCache m)" by (force dest: map_of_SomeD)
    ultimately show False by simp
  qed
  then have "cache_ok (?m\<lparr>am_users := ?us, am_userCache := [], am_version := schemaVersionInvalid\<rparr>)"
    using d(2) by (intro cache_okI) auto
  moreover have "refs_ok (?m\<lparr>am_users := ?us, am_userCache := [], am_version := schemaVersionInvalid\<rparr>) refs"
    using assms(2) by (simp add: refs_ok_def)
  ultimately show ?thesis unfolding eq by (auto simp: shrinks_def split: if_splits)
qed

lemma releaseUser_ok:
  assumes "cache_ok m" "refs_ok m refs" "0 < refs p" "p \<noteq> internal_ptr \<Longrightarrow> refs p \<le> 2 ^ 32"
  shows "\<exists>m'. releaseUser p m = Inr m' \<and> cache_ok m' \<and> refs_ok m' (refs(p := refs p - 1)) \<and> shrinks m m'"
proof (cases "p = internal_ptr")
  case True
  with assms(1,2) show ?thesis by (simp add: releaseUser_def shrinks_def)
next
  case False
  with refs_okD(2) [OF assms(2) False] assms(3) obtain u where u: "am_users m p = Some u" by (cases "am_users m p") auto
  with refs_okD(1) [OF assms(2) False u] have n: "us_refCount u - 1 = of_nat (refs p - 1)"
    using count_pred [OF assms(3)] by simp
  have zero: "us_refCount u - 1 = 0 \<longleftrightarrow> refs p = 1"
    using count_zero [of "refs p - 1"] assms(3) assms(4) [OF False] unfolding n by auto
  show ?thesis
  proof (cases "refs p = 1")
    case True
    let ?c = "if us_isValid u then AList.delete (un_fullName (us_name u)) (am_userCache m) else am_userCache m"
    let ?m = "m\<lparr>am_users := (am_users m)(p := None), am_userCache := ?c\<rparr>"
    have eq: "releaseUser p m = Inr ?m" using False u zero True by (simp add: releaseUser_def deref_def Let_def)
    have "cache_ok ?m"
    proof (cases "us_isValid u")
      case True
      from cache_okD(4) [OF assms(1) False u True] cache_ok_leave [OF assms(1) u False refl, of None] True
      show ?thesis by simp
    next
      case inv: False
      have "map_of (am_userCache m) k \<noteq> Some p" for k using cache_okD(3) [OF assms(1), of k p] u inv by auto
      then show ?thesis using assms(1) inv False unfolding cache_ok_def by (auto split: if_splits)
    qed
    moreover have "refs_ok ?m (refs(p := refs p - 1))"
      using refs_ok_set [OF assms(2), of None 0 p] True by (simp add: refs_ok_def)
    ultimately show ?thesis unfolding eq by (auto simp: shrinks_def delete_conv')
  next
    case more: False
    then have "us_refCount (decrementRefCount u) \<noteq> 0" using zero by simp
    then have eq: "releaseUser p m = Inr (m\<lparr>am_users := (am_users m)(p := Some (decrementRefCount u))\<rparr>)"
      using False u by (simp add: releaseUser_def deref_def Let_def)
    have "cache_ok (m\<lparr>am_users := (am_users m)(p := Some (decrementRefCount u))\<rparr>)"
      by (rule cache_ok_touch [OF assms(1) u]) simp_all
    moreover have "refs_ok (m\<lparr>am_users := (am_users m)(p := Some (decrementRefCount u))\<rparr>) (refs(p := refs p - 1))"
      by (rule refs_ok_set [OF assms(2)]) (use n more assms(3) in auto)
    ultimately show ?thesis unfolding eq by (simp add: shrinks_def)
  qed
qed

subsubsection \<open>Fetched users are new\<close>

definition same_identity :: "user \<Rightarrow> user \<Rightarrow> bool" where
  "same_identity u v \<longleftrightarrow> us_name u = us_name v \<and> us_isValid u = us_isValid v \<and> us_refCount u = us_refCount v"

lemma setters_identity [simp]:
  "same_identity u u" "same_identity (setCredentials c u) v = same_identity u v"
  "same_identity (addRole r u) v = same_identity u v" "same_identity (setSchemaVersion1 u) v = same_identity u v"
  "same_identity (markProbedV1 d u) v = same_identity u v" "same_identity (setPrivileges ps u) v = same_identity u v"
  "same_identity (addPrivilege p u) v = same_identity u v"
  by (simp_all add: same_identity_def setCredentials_def addRole_def setSchemaVersion1_def markProbedV1_def
      setPrivileges_def addPrivilege_def split: option.splits)

lemma lists_identity [simp]:
  "same_identity (addRoles rs u) v = same_identity u v" "same_identity (addPrivileges ps u) v = same_identity u v"
proof -
  show "same_identity (addRoles rs u) v = same_identity u v"
    unfolding addRoles_def by (induction rs arbitrary: u) simp_all
  show "same_identity (addPrivileges ps u) v = same_identity u v"
    unfolding addPrivileges_def by (induction ps arbitrary: u) simp_all
qed

lemma setRoles_identity [simp]: "same_identity (setRoles rs u) v = same_identity u v"
proof -
  have "same_identity (u\<lparr>us_roles := Map.empty\<rparr>) v = same_identity u v" by (simp add: same_identity_def)
  then show ?thesis by (simp add: setRoles_def)
qed

lemma initV1_identity [simp]: "same_identity (initializeUserPrivilegesFromRolesV1 env u) v = same_identity u v"
  by (simp add: initializeUserPrivilegesFromRolesV1_def)

lemma fresh_identity: "same_identity u v \<Longrightarrow> fresh_user n v \<Longrightarrow> fresh_user n u"
  by (simp add: same_identity_def fresh_user_def)

lemma fresh_User: "fresh_user n (User n)"
  by (simp add: fresh_user_def User_def)

lemma fresh_clone: "us_isValid u \<Longrightarrow> un_fullName (us_name u) = un_fullName n \<Longrightarrow> fresh_user n (clone u)"
  by (simp add: fresh_user_def clone_def User_def)

lemma fetchUserV2_fresh:
  assumes "fetchUserV2 env i n = (st, uo)" "isOK st"
  shows "\<exists>u. uo = Some u \<and> fresh_user n u"
proof -
  obtain st1 doc where d: "fe_userDescription env i = (st1, doc)" by fastforce
  obtain st2 u where i: "initializeUserFromPrivilegeDocument doc (User n) = (st2, u)" by fastforce
  from assms d i have "uo = Some u" by (auto simp: fetchUserV2_def Let_def split: if_splits)
  moreover have "same_identity u (User n)"
    using i by (auto simp: initializeUserFromPrivilegeDocument_def Let_def split: if_splits)
  ultimately show ?thesis using fresh_identity fresh_User by blast
qed

lemma fetchUserV1_fresh:
  assumes "fetchUserV1 env i n = (st, uo)" "isOK st"
  shows "\<exists>u. uo = Some u \<and> fresh_user n u"
proof -
  let ?u = "markProbedV1 ''$external'' (setSchemaVersion1 (User n))"
  obtain st1 u1 where 1: "probe_own_V1 env i n ?u = (st1, u1)" by fastforce
  obtain st2 u2 where 2: "probe_admin_V1 env i n u1 = (st2, u2)" by fastforce
  have "same_identity u1 (User n)"
    using 1 by (auto simp: probe_own_V1_def Let_def split: if_splits prod.splits)
  then have "same_identity u2 (User n)"
    using 2 by (auto simp: probe_admin_V1_def Let_def split: if_splits prod.splits)
  moreover from assms 1 2 have "uo = Some (initializeUserPrivilegesFromRolesV1 env u2)"
    by (auto simp: fetchUserV1_def Let_def split: if_splits)
  ultimately show ?thesis using fresh_identity [OF _ fresh_User] by simp
qed

lemma fetch_attempts_fresh:
  "fetch_attempts env n k i v st0 = (st, uo, v') \<Longrightarrow> isOK st \<Longrightarrow> k \<noteq> 0 \<or> \<not> isOK st0 \<Longrightarrow>
   \<exists>u. uo = Some u \<and> fresh_user n u"
proof (induction k arbitrary: i v st0)
  case 0
  then show ?case by simp
next
  case (Suc k)
  obtain vst v1 where 1: "(if v = schemaVersionInvalid then fe_storedVersion env i else (Status_OK, v)) = (vst, v1)" by fastforce
  obtain st1 u1 where 2: "fetch_by_version env i n v1 = (st1, u1)" by fastforce
  have f: "isOK st1 \<Longrightarrow> \<exists>u. u1 = Some u \<and> fresh_user n u"
    using 2 fetchUserV2_fresh [of env i n st1 u1] fetchUserV1_fresh [of env i n st1 u1]
    by (auto simp: fetch_by_version_def split: if_splits)
  have unf: "fetch_attempts env n (Suc k) i v st0 =
    (if \<not> isOK vst then (vst, None, v1) else if isOK st1 then (st1, u1, v1)
     else if status_code st1 \<noteq> AuthSchemaIncompatible then (st1, None, v1)
     else fetch_attempts env n k (Suc i) schemaVersionInvalid st1)"
    by (simp only: fetch_attempts.simps 1 2 Let_def case_prod_conv)
  show ?case
  proof (cases "isOK vst \<and> \<not> isOK st1 \<and> status_code st1 = AuthSchemaIncompatible")
    case True
    with Suc.prems(1) have "fetch_attempts env n k (Suc i) schemaVersionInvalid st1 = (st, uo, v')" by (simp only: unf) simp
    from Suc.IH [OF this Suc.prems(2)] True show ?thesis by simp
  next
    case False
    with Suc.prems f show ?thesis unfolding unf by (auto split: if_splits)
  qed
qed

lemma probe_V1_fresh: "probe_V1 env d u = V1_probed u' \<Longrightarrow> same_identity u' u"
  by (auto simp: probe_V1_def Let_def split: if_splits prod.splits)

lemma probe_V1_no_V2: "probe_V1 env d u \<noteq> V1_as_V2 st uo"
  by (auto simp: probe_V1_def Let_def split: if_splits prod.splits)

lemma probe_V1_failed: "probe_V1 env d u = V1_failed st \<Longrightarrow> \<not> isOK st"
  by (auto simp: probe_V1_def Let_def split: if_splits prod.splits)

lemma acquireV1_fetch_failed:
  assumes "acquireV1_fetch env n d c = V1_failed st"
  shows "\<not> isOK st"
proof -
  obtain st1 u1 where 1: "fetchUserV1 env 0 n = (st1, u1)" by fastforce
  obtain st2 u2 where 2: "fetchUserV2 env 0 n = (st2, u2)" by fastforce
  from assms 1 2 fetchUserV1_fresh [OF 1] show ?thesis
    by (cases c; cases u1) (auto simp: acquireV1_fetch_def Let_def dest: probe_V1_failed split: if_splits)
qed

lemma acquireV1_fetch_fresh:
  assumes "\<forall>x. c = Some x \<longrightarrow> fresh_user n x"
  shows "acquireV1_fetch env n d c = V1_probed u \<Longrightarrow> fresh_user n u"
    "acquireV1_fetch env n d c = V1_as_V2 st uo \<Longrightarrow> isOK st \<Longrightarrow> \<exists>u. uo = Some u \<and> fresh_user n u"
proof -
  obtain st1 u1 where 1: "fetchUserV1 env 0 n = (st1, u1)" by fastforce
  obtain st2 u2 where 2: "fetchUserV2 env 0 n = (st2, u2)" by fastforce
  note f1 = fetchUserV1_fresh [OF 1] and f2 = fetchUserV2_fresh [OF 2]
  show "fresh_user n u" if "acquireV1_fetch env n d c = V1_probed u"
  proof (cases c)
    case (Some x)
    with that assms probe_V1_fresh fresh_identity show ?thesis by (fastforce simp: acquireV1_fetch_def)
  next
    case None
    with that 1 2 f1 obtain x where "fresh_user n x" "probe_V1 env d x = V1_probed u"
      by (auto simp: acquireV1_fetch_def Let_def split: if_splits)
    with probe_V1_fresh fresh_identity show ?thesis by blast
  qed
  show "\<exists>u. uo = Some u \<and> fresh_user n u" if "acquireV1_fetch env n d c = V1_as_V2 st uo" "isOK st"
    using that 1 2 f2 by (cases c; cases u1) (auto simp: acquireV1_fetch_def Let_def probe_V1_no_V2 split: if_splits)
qed

subsubsection \<open>Entering and leaving an acquisition\<close>

definition outcome_refs :: "acquire_outcome \<Rightarrow> (user_ptr \<Rightarrow> nat) \<Rightarrow> user_ptr \<Rightarrow> nat" where
  "outcome_refs out refs = (case out of Returned st p \<Rightarrow> if isOK st then refs(p := refs p + 1) else refs | _ \<Rightarrow> refs)"

definition outcome_thread :: "acquire_outcome \<Rightarrow> pending option" where
  "outcome_thread out = (case out of Pending pd \<Rightarrow> Some pd | _ \<Rightarrow> None)"

definition in_fetch :: "pending option \<Rightarrow> bool" where
  "in_fetch th \<longleftrightarrow> (case th of None \<Rightarrow> False | Some pd \<Rightarrow> fetching pd)"

lemma outcome_simps [simp]:
  "outcome_refs (Version v) refs = refs" "outcome_refs (Pending pd) refs = refs"
  "outcome_refs (Returned st p) refs = (if isOK st then refs(p := refs p + 1) else refs)"
  "outcome_thread (Version v) = None" "outcome_thread (Pending pd) = Some pd" "outcome_thread (Returned st p) = None"
  "in_fetch None = False" "in_fetch (Some pd) = fetching pd"
  by (simp_all add: outcome_refs_def outcome_thread_def in_fetch_def)

definition entered :: "authz_manager \<Rightarrow> (user_ptr \<Rightarrow> nat) \<Rightarrow> acquire_outcome \<times> authz_manager \<Rightarrow> bool" where
  "entered m refs om \<longleftrightarrow> cache_ok (snd om) \<and> refs_ok (snd om) (outcome_refs (fst om) refs) \<and>
     am_userCache (snd om) = am_userCache m \<and> am_fetchPhaseIsReady (snd om) = am_fetchPhaseIsReady m \<and>
     (\<forall>pd. fst om = Pending pd \<longrightarrow> pending_ok m pd \<and> (\<not> fetching pd \<longrightarrow> am_isFetchPhaseBusy m)) \<and>
     (if in_fetch (outcome_thread (fst om)) then \<not> am_isFetchPhaseBusy m \<and> am_isFetchPhaseBusy (snd om)
      else am_isFetchPhaseBusy (snd om) = am_isFetchPhaseBusy m)"

definition finished :: "(user_ptr \<Rightarrow> nat) \<Rightarrow> acquire_outcome \<times> authz_manager \<Rightarrow> bool" where
  "finished refs om \<longleftrightarrow> cache_ok (snd om) \<and> refs_ok (snd om) (outcome_refs (fst om) refs) \<and>
     \<not> am_isFetchPhaseBusy (snd om) \<and> am_fetchPhaseIsReady (snd om) = [] \<and> outcome_thread (fst om) = None"

lemma share_entered:
  assumes "cache_ok m" "refs_ok m refs" "map_of (am_userCache m) k = Some p"
  shows "entered m refs (Returned Status_OK p, update_user p incrementRefCount m)"
proof -
  from cache_okD(3) [OF assms(1,3)] obtain u where u: "p \<noteq> internal_ptr" "am_users m p = Some u" by blast
  have "cache_ok (m\<lparr>am_users := (am_users m)(p := Some (incrementRefCount u))\<rparr>)"
    by (rule cache_ok_touch [OF assms(1) u(2)]) simp_all
  moreover have "refs_ok (m\<lparr>am_users := (am_users m)(p := Some (incrementRefCount u))\<rparr>) (refs(p := refs p + 1))"
    by (rule refs_ok_set [OF assms(2)]) (use refs_okD(1) [OF assms(2) u] in simp)
  ultimately show ?thesis using u(2) by (simp add: entered_def update_user_def)
qed

lemma internal_entered:
  "cache_ok m \<Longrightarrow> refs_ok m refs \<Longrightarrow> entered m refs (Returned Status_OK internal_ptr, m)"
  by (simp add: entered_def)

lemma begin_V1_ok:
  assumes "cache_ok m" "refs_ok m refs" "\<forall>x. u = Some x \<longrightarrow> fresh_user n x"
  shows "\<exists>om. begin_V1 n d u m = Inr om \<and> entered m refs om"
  using assms by (simp add: begin_V1_def beginFetchPhase_def entered_def)

lemma acquireUser_enter_ok:
  assumes "cache_ok m" "refs_ok m refs" "refs_bounded refs"
  shows "\<exists>om. acquireUser_enter n m = Inr om \<and> entered m refs om"
proof (cases "map_of (am_userCache m) (un_fullName n)")
  case None
  with assms internal_entered [OF assms(1,2)] show ?thesis
    by (simp add: acquireUser_enter_def beginFetchPhase_def entered_def)
next
  case (Some p)
  from cache_okD(3) [OF assms(1) Some] obtain u where u: "p \<noteq> internal_ptr" "am_users m p = Some u" "us_isValid u" by blast
  with refs_okD(1) [OF assms(2), of p u] assms(3) count_zero [of "refs p"] have "us_refCount u \<noteq> 0"
    by (auto simp: refs_bounded_def)
  then have "0 < us_refCount u" by (simp add: word_gt_0)
  with Some u share_entered [OF assms(1,2) Some] internal_entered [OF assms(1,2)] show ?thesis
    by (simp add: acquireUser_enter_def deref_def)
qed

lemma acquireV1_enter_ok:
  assumes "cache_ok m" "refs_ok m refs"
  shows "\<exists>om. acquireV1_enter n d m = Inr om \<and> entered m refs om"
proof (cases "map_of (am_userCache m) (un_fullName n)")
  case None
  with assms internal_entered [OF assms] begin_V1_ok [OF assms, of None n d] show ?thesis
    by (simp add: acquireV1_enter_def) (simp add: entered_def)
next
  case (Some p)
  from cache_okD(3) [OF assms(1) Some] obtain u where u: "p \<noteq> internal_ptr" "am_users m p = Some u" "us_isValid u"
    "un_fullName (us_name u) = un_fullName n" by blast
  with fresh_clone have "fresh_user n (clone u)" by blast
  with begin_V1_ok [OF assms, of "Some (clone u)" n d] Some u share_entered [OF assms Some] internal_entered [OF assms]
  show ?thesis by (simp add: acquireV1_enter_def deref_def)
qed

lemma version_wait_ok:
  assumes "cache_ok m" "refs_ok m refs"
  shows "\<exists>om. (if am_isFetchPhaseBusy m then Inr (Pending Wait_version, m)
      else bindE (beginFetchPhase m) (\<lambda>(gen, m). Inr (Pending (Fetch_version gen), m))) = Inr om \<and> entered m refs om"
  using assms by (simp add: beginFetchPhase_def entered_def)

lemma getAuthorizationVersion_enter_ok:
  assumes "cache_ok m" "refs_ok m refs"
  shows "\<exists>om. getAuthorizationVersion_enter m = Inr om \<and> entered m refs om"
  using version_wait_ok [OF assms] assms unfolding getAuthorizationVersion_enter_def
  by (cases "am_version m = schemaVersionInvalid") (simp_all add: entered_def)

lemma leave_finished:
  assumes "am_isFetchPhaseBusy m" "cache_ok m" "refs_ok m (outcome_refs out refs)" "outcome_thread out = None"
  shows "\<exists>om. bindE (leaveFetchPhase m) (\<lambda>m. Inr (out, m)) = Inr om \<and> finished refs om"
  using assms by (simp add: leaveFetchPhase_def finished_def)

text \<open>The object a fetch has made, counted once, in the cache or invalidated.\<close>

lemma counted_fresh: "fresh_user n u \<Longrightarrow> us_refCount (incrementRefCount u) = 1"
  by (simp add: fresh_user_def)

lemma new_in_cache:
  assumes "cache_ok m" "refs_ok m refs" "am_users m p = None" "p \<noteq> internal_ptr" "fresh_user n u"
    "us' = (case map_of (am_userCache m) (un_fullName n) of None \<Rightarrow> am_users m
            | Some q \<Rightarrow> (am_users m)(q := map_option invalidate (am_users m q)))"
    "map_of c = (map_of (am_userCache m))(un_fullName n \<mapsto> p)" "distinct (map fst c)"
  shows "cache_ok (m\<lparr>am_users := us'(p := Some (incrementRefCount u)), am_userCache := c\<rparr>)"
    "refs_ok (m\<lparr>am_users := us'(p := Some (incrementRefCount u)), am_userCache := c\<rparr>) (refs(p := refs p + 1))"
proof -
  show "cache_ok (m\<lparr>am_users := us'(p := Some (incrementRefCount u)), am_userCache := c\<rparr>)"
    by (rule cache_ok_enter [OF assms(1,3,4) _ _ assms(6-8)]) (use assms(5) in \<open>simp_all add: fresh_user_def\<close>)
  have "refs p = 0" using refs_okD(2) [OF assms(2,4,3)] .
  moreover have "refs_ok (m\<lparr>am_users := us'\<rparr>) refs"
    using assms(2) by (cases "map_of (am_userCache m) (un_fullName n)") (simp_all add: refs_ok_def assms(6))
  ultimately show "refs_ok (m\<lparr>am_users := us'(p := Some (incrementRefCount u)), am_userCache := c\<rparr>) (refs(p := refs p + 1))"
    using refs_ok_set [of "m\<lparr>am_users := us'\<rparr>" refs "Some (incrementRefCount u)" 1 p] counted_fresh [OF assms(5)]
    by simp
qed

lemma new_outside:
  assumes "cache_ok m" "refs_ok m refs" "am_users m p = None" "p \<noteq> internal_ptr" "\<not> us_isValid u" "us_refCount u = 1"
  shows "cache_ok (m\<lparr>am_users := (am_users m)(p := Some u)\<rparr>)"
    "refs_ok (m\<lparr>am_users := (am_users m)(p := Some u)\<rparr>) (refs(p := refs p + 1))"
proof -
  show "cache_ok (m\<lparr>am_users := (am_users m)(p := Some u)\<rparr>)" by (rule cache_ok_outside [OF assms(1,3,5)])
  have "refs p = 0" using refs_okD(2) [OF assms(2,4,3)] .
  with refs_ok_set [OF assms(2), of "Some u" 1 p] assms(6)
  show "refs_ok (m\<lparr>am_users := (am_users m)(p := Some u)\<rparr>) (refs(p := refs p + 1))" by simp
qed

lemmas new_outside_fresh = new_outside [where u = "invalidate (incrementRefCount u)" for u]

lemma acquireUser_finish_ok:
  assumes "cache_ok m" "refs_ok m refs" "am_isFetchPhaseBusy m" "am_users m p = None" "p \<noteq> internal_ptr"
    "map_of (am_userCache m) (un_fullName n) = None"
  shows "\<exists>om. acquireUser_finish env n gen v p m = Inr om \<and> finished refs om"
proof -
  obtain st uo v' where f: "fetch_attempts env n 2 0 v Status_OK = (st, uo, v')" using prod_cases3 by blast
  show ?thesis
  proof (cases "isOK st")
    case False
    with f leave_finished [OF assms(3,1), of "Returned st p" refs] assms(2) show ?thesis
      by (simp add: acquireUser_finish_def)
  next
    case True
    from fetch_attempts_fresh [OF f True] obtain u where u: "uo = Some u" "fresh_user n u" by auto
    let ?c = "(un_fullName n, p) # am_userCache m"
    let ?v = "if am_version m = schemaVersionInvalid then v' else am_version m"
    let ?in = "m\<lparr>am_users := (am_users m)(p := Some (incrementRefCount u)), am_userCache := ?c\<rparr>"
    let ?out = "m\<lparr>am_users := (am_users m)(p := Some (invalidate (incrementRefCount u)))\<rparr>"
    have "distinct (map fst ?c)" using cache_okD(1) [OF assms(1)] assms(6) by (auto simp: map_of_eq_None_iff)
    then have "cache_ok ?in" "refs_ok ?in (refs(p := refs p + 1))"
      using new_in_cache [OF assms(1,2,4,5) u(2), of "am_users m" ?c] assms(6) by simp_all
    with leave_finished [of "?in\<lparr>am_version := ?v\<rparr>" "Returned Status_OK p" refs] assms(3)
    have same: "\<exists>om. bindE (leaveFetchPhase (?in\<lparr>am_version := ?v\<rparr>)) (\<lambda>m. Inr (Returned Status_OK p, m)) = Inr om \<and> finished refs om"
      by simp
    have "cache_ok ?out" "refs_ok ?out (refs(p := refs p + 1))"
      using new_outside_fresh [OF assms(1,2,4,5), of u] u(2) by (simp_all add: fresh_user_def)
    with leave_finished [of ?out "Returned Status_OK p" refs] assms(3)
    have other: "\<exists>om. bindE (leaveFetchPhase ?out) (\<lambda>m. Inr (Returned Status_OK p, m)) = Inr om \<and> finished refs om"
      by simp
    have "acquireUser_finish env n gen v p m =
      bindE (leaveFetchPhase (if isSameCacheGeneration gen m then ?in\<lparr>am_version := ?v\<rparr> else ?out)) (\<lambda>m. Inr (Returned Status_OK p, m))"
      using f True u(1) assms(6) by (simp add: acquireUser_finish_def Let_def)
    with same other show ?thesis by (cases "isSameCacheGeneration gen m") simp_all
  qed
qed

lemma getAuthorizationVersion_finish_ok:
  assumes "cache_ok m" "refs_ok m refs" "am_isFetchPhaseBusy m"
  shows "\<exists>om. getAuthorizationVersion_finish env gen m = Inr om \<and> finished refs om"
proof -
  obtain st v where f: "fe_storedVersion env 0 = (st, v)" by fastforce
  let ?m = "if isOK st \<and> isSameCacheGeneration gen m then m\<lparr>am_version := v\<rparr> else m"
  have "\<exists>om. bindE (leaveFetchPhase ?m) (\<lambda>m. Inr (Version v, m)) = Inr om \<and> finished refs om"
    by (rule leave_finished) (use assms in simp_all)
  then show ?thesis by (simp add: getAuthorizationVersion_finish_def f Let_def)
qed

text \<open>Replacing a cached user by one probed for a further database.\<close>

lemma V1_probed_ok:
  assumes "cache_ok m" "refs_ok m refs" "am_isFetchPhaseBusy m" "am_users m p = None" "p \<noteq> internal_ptr" "fresh_user n u"
    "acquireV1_fetch env n d c = V1_probed u"
  shows "\<exists>om. acquireV1_finish env n d c gen p m = Inr om \<and> finished refs om"
proof -
  let ?us = "case map_of (am_userCache m) (un_fullName n) of None \<Rightarrow> am_users m
            | Some q \<Rightarrow> (am_users m)(q := map_option invalidate (am_users m q))"
  let ?c = "case map_of (am_userCache m) (un_fullName n) of None \<Rightarrow> (un_fullName n, p) # am_userCache m
            | Some q \<Rightarrow> AList.update (un_fullName n) p (am_userCache m)"
  let ?in = "m\<lparr>am_users := ?us(p := Some (incrementRefCount u)), am_userCache := ?c\<rparr>"
  let ?out = "m\<lparr>am_users := (am_users m)(p := Some (invalidate (incrementRefCount u)))\<rparr>"
  have "map_of ?c = (map_of (am_userCache m))(un_fullName n \<mapsto> p)"
    by (simp add: update_conv' split: option.splits)
  moreover have "distinct (map fst ?c)"
    using cache_okD(1) [OF assms(1)] by (auto simp: distinct_update map_of_eq_None_iff split: option.splits)
  ultimately have "cache_ok ?in" "refs_ok ?in (refs(p := refs p + 1))"
    using new_in_cache [OF assms(1,2,4,5,6) refl, of ?c] by blast+
  with leave_finished [of ?in "Returned Status_OK p" refs] assms(3)
  have same: "\<exists>om. bindE (leaveFetchPhase ?in) (\<lambda>m. Inr (Returned Status_OK p, m)) = Inr om \<and> finished refs om" by simp
  have "cache_ok ?out" "refs_ok ?out (refs(p := refs p + 1))"
    using new_outside_fresh [OF assms(1,2,4,5), of u] assms(6) by (simp_all add: fresh_user_def)
  with leave_finished [of ?out "Returned Status_OK p" refs] assms(3)
  have other: "\<exists>om. bindE (leaveFetchPhase ?out) (\<lambda>m. Inr (Returned Status_OK p, m)) = Inr om \<and> finished refs om" by simp
  have "acquireV1_finish env n d c gen p m =
    bindE (leaveFetchPhase (if isSameCacheGeneration gen m then ?in else ?out)) (\<lambda>m. Inr (Returned Status_OK p, m))"
  proof (cases "map_of (am_userCache m) (un_fullName n)")
    case None
    then show ?thesis by (simp add: acquireV1_finish_def assms(7) Let_def)
  next
    case (Some q)
    with cache_okD(3) [OF assms(1) Some] obtain w where "am_users m q = Some w" by blast
    with Some show ?thesis by (simp add: acquireV1_finish_def assms(7) Let_def deref_def update_user_def)
  qed
  with same other show ?thesis by (cases "isSameCacheGeneration gen m") simp_all
qed

text \<open>A user of schema version 2 found on the way: the whole cache is given up first.\<close>

lemma V1_as_V2_ok:
  assumes "cache_ok m" "refs_ok m refs" "am_isFetchPhaseBusy m" "am_users m p = None" "p \<noteq> internal_ptr" "fresh_user n u"
    "acquireV1_fetch env n d c = V1_as_V2 st (Some u)" "isOK st"
  shows "\<exists>om. acquireV1_finish env n d c gen p m = Inr om \<and> finished refs om"
proof (cases "isSameCacheGeneration gen m")
  case True
  from invalidateUserCache_ok [OF assms(1,2)] obtain m' where m': "invalidateUserCache m = Inr m'" "cache_ok m'"
    "refs_ok m' refs" "shrinks m m'" "am_userCache m' = []" "am_users m' p = None" using assms(4) by blast
  let ?in = "m'\<lparr>am_users := (am_users m')(p := Some (incrementRefCount u)), am_userCache := [(un_fullName n, p)]\<rparr>"
  have "cache_ok ?in" "refs_ok ?in (refs(p := refs p + 1))"
    using new_in_cache [OF m'(2,3,6) assms(5,6), of "am_users m'" "[(un_fullName n, p)]"] m'(5) by (simp_all add: fun_eq_iff)
  moreover have "am_isFetchPhaseBusy ?in" using m'(4) assms(3) by (simp add: shrinks_def)
  ultimately have "\<exists>om. bindE (leaveFetchPhase ?in) (\<lambda>m. Inr (Returned st p, m)) = Inr om \<and> finished refs om"
    by (intro leave_finished) (simp_all add: assms(8))
  then show ?thesis using True m'(1) by (simp add: acquireV1_finish_def assms(7,8))
next
  case False
  let ?out = "m\<lparr>am_users := (am_users m)(p := Some (incrementRefCount (invalidate u)))\<rparr>"
  have "cache_ok ?out" "refs_ok ?out (refs(p := refs p + 1))"
    using new_outside [OF assms(1,2,4,5), of "incrementRefCount (invalidate u)"] assms(6) by (simp_all add: fresh_user_def)
  then have "\<exists>om. bindE (leaveFetchPhase ?out) (\<lambda>m. Inr (Returned st p, m)) = Inr om \<and> finished refs om"
    using assms(3) by (intro leave_finished) (simp_all add: assms(8))
  then show ?thesis using False by (simp add: acquireV1_finish_def assms(7,8))
qed

lemma acquireV1_finish_ok:
  assumes "cache_ok m" "refs_ok m refs" "am_isFetchPhaseBusy m" "am_users m p = None" "p \<noteq> internal_ptr"
    "\<forall>x. c = Some x \<longrightarrow> fresh_user n x"
  shows "\<exists>om. acquireV1_finish env n d c gen p m = Inr om \<and> finished refs om"
proof (cases "acquireV1_fetch env n d c")
  case (V1_failed st)
  with acquireV1_fetch_failed have "\<not> isOK st" by blast
  with V1_failed leave_finished [OF assms(3,1), of "Returned st p" refs] assms(2) show ?thesis
    by (simp add: acquireV1_finish_def)
next
  case (V1_as_V2 st uo)
  show ?thesis
  proof (cases "isOK st")
    case True
    with acquireV1_fetch_fresh(2) [OF assms(6) V1_as_V2] obtain u where u: "uo = Some u" "fresh_user n u" by blast
    from V1_as_V2 u(1) V1_as_V2_ok [OF assms(1-5) u(2) _ True] show ?thesis by blast
  next
    case False
    with V1_as_V2 leave_finished [OF assms(3,1), of "Returned st p" refs] assms(2) show ?thesis
      by (simp add: acquireV1_finish_def)
  qed
next
  case (V1_probed u)
  with acquireV1_fetch_fresh(1) [OF assms(6)] have "fresh_user n u" by blast
  from V1_probed_ok [OF assms(1-5) this V1_probed] show ?thesis .
qed

subsubsection \<open>The threads\<close>

lemma num_fetching_update:
  assumes "t < length ts"
  shows "num_fetching (ts[t := x]) + of_bool (in_fetch (ts ! t)) = num_fetching ts + of_bool (in_fetch x)"
proof -
  have eq: "num_fetching ts = length (filter in_fetch ts)" for ts by (simp add: num_fetching_def in_fetch_def [abs_def])
  show ?thesis using assms unfolding eq
  proof (induction ts arbitrary: t)
    case (Cons a ts)
    then show ?case by (cases t) auto
  qed simp
qed

lemma pending_ok_cong: "am_userCache m = am_userCache m' \<Longrightarrow> pending_ok m pd = pending_ok m' pd"
  by (cases pd) simp_all

lemma pending_ok_waiting: "\<not> fetching pd \<Longrightarrow> pending_ok m pd = pending_ok m' pd"
  by (cases pd) simp_all

lemma threads_entered:
  assumes "threads_ok m ts" "t < length ts" "\<not> in_fetch (ts ! t)" "entered m refs om"
  shows "threads_ok (snd om) (ts[t := outcome_thread (fst om)])"
proof -
  from assms(4) have c: "am_userCache m = am_userCache (snd om)" by (simp add: entered_def)
  have "pending_ok (snd om) pd" if "Some pd \<in> set (ts[t := outcome_thread (fst om)])" for pd
  proof -
    from that have "Some pd \<in> set ts \<or> outcome_thread (fst om) = Some pd"
      using set_update_subset_insert by fastforce
    then have "pending_ok m pd"
      using assms(1,4) by (auto simp: threads_ok_def entered_def outcome_thread_def split: acquire_outcome.splits)
    then show ?thesis using pending_ok_cong [OF c] by simp
  qed
  moreover have "num_fetching (ts[t := outcome_thread (fst om)]) = (if am_isFetchPhaseBusy (snd om) then 1 else 0)"
    using num_fetching_update [OF assms(2), of "outcome_thread (fst om)"] assms(1,3,4)
    by (auto simp: threads_ok_def entered_def split: if_splits)
  ultimately show ?thesis by (simp add: threads_ok_def)
qed

lemma threads_finished:
  assumes "threads_ok m ts" "t < length ts" "in_fetch (ts ! t)" "finished refs om"
  shows "threads_ok (snd om) (ts[t := outcome_thread (fst om)])"
proof -
  from assms(4) have th: "outcome_thread (fst om) = None" by (simp add: finished_def)
  have n: "num_fetching (ts[t := None]) = 0"
    using num_fetching_update [OF assms(2), of None] assms(1,3) by (simp add: threads_ok_def split: if_splits)
  have "pending_ok (snd om) pd" if "Some pd \<in> set (ts[t := None])" for pd
  proof -
    from that n have "\<not> fetching pd" by (auto simp: num_fetching_def filter_empty_conv)
    moreover from that have "Some pd \<in> set ts" using set_update_subset_insert by fastforce
    ultimately show ?thesis using assms(1) pending_ok_waiting by (auto simp: threads_ok_def)
  qed
  with n assms(4) show ?thesis by (simp add: threads_ok_def th finished_def)
qed

lemma record_outcome_views [simp]:
  "cs_manager (record_outcome t om s) = after_outcome t (fst om) (snd om)"
  "cs_refs (record_outcome t om s) = outcome_refs (fst om) (cs_refs s)"
  "cs_threads (record_outcome t om s) = (cs_threads s)[t := outcome_thread (fst om)]"
  by (simp_all add: record_outcome_def after_outcome_def outcome_refs_def outcome_thread_def split: acquire_outcome.splits)

text \<open>Going to sleep changes the condition variable only.\<close>

lemma after_outcome_views [simp]:
  "cache_ok (after_outcome t out m) = cache_ok m" "refs_ok (after_outcome t out m) refs = refs_ok m refs"
  "am_isFetchPhaseBusy (after_outcome t out m) = am_isFetchPhaseBusy m"
  "am_userCache (after_outcome t out m) = am_userCache m" "am_users (after_outcome t out m) = am_users m"
  "am_version (after_outcome t out m) = am_version m" "am_cacheGeneration (after_outcome t out m) = am_cacheGeneration m"
  by (simp_all add: after_outcome_def guard_wait_def split: acquire_outcome.splits)

lemma wake_up_views [simp]:
  "cache_ok (wake_up t m) = cache_ok m" "refs_ok (wake_up t m) refs = refs_ok m refs"
  "am_isFetchPhaseBusy (wake_up t m) = am_isFetchPhaseBusy m"
  "am_userCache (wake_up t m) = am_userCache m" "am_users (wake_up t m) = am_users m"
  "am_version (wake_up t m) = am_version m" "am_cacheGeneration (wake_up t m) = am_cacheGeneration m"
  by (simp_all add: wake_up_def)

lemma threads_ok_cong:
  "am_userCache m = am_userCache m' \<Longrightarrow> am_isFetchPhaseBusy m = am_isFetchPhaseBusy m' \<Longrightarrow> threads_ok m ts = threads_ok m' ts"
  using pending_ok_cong [of m m'] by (simp add: threads_ok_def)

lemma entered_step:
  assumes "system_ok s" "t < length (cs_threads s)" "\<not> in_fetch (cs_threads s ! t)" "entered (cs_manager s) (cs_refs s) om"
  shows "system_ok (record_outcome t om s)"
proof -
  have "threads_ok (after_outcome t (fst om) (snd om)) ((cs_threads s)[t := outcome_thread (fst om)])"
    using threads_entered [OF _ assms(2-4)] assms(1) threads_ok_cong [of "after_outcome t (fst om) (snd om)" "snd om"]
    by (simp add: system_ok_def)
  moreover have "sleepers_ok (after_outcome t (fst om) (snd om))"
    using assms(1,4) by (auto simp: system_ok_def sleepers_ok_def entered_def after_outcome_def guard_wait_def
        split: acquire_outcome.splits if_splits)
  ultimately show ?thesis using assms(4) by (simp add: system_ok_def entered_def)
qed

lemma finished_step:
  assumes "system_ok s" "t < length (cs_threads s)" "in_fetch (cs_threads s ! t)" "finished (cs_refs s) om"
  shows "system_ok (record_outcome t om s)"
proof -
  have "after_outcome t (fst om) (snd om) = snd om"
    using assms(4) by (auto simp: finished_def after_outcome_def outcome_thread_def split: acquire_outcome.splits)
  with assms threads_finished [of "cs_manager s", OF _ assms(2-4)] show ?thesis
    by (simp add: system_ok_def finished_def sleepers_ok_def)
qed

lemma busy_while_fetching:
  assumes "threads_ok m ts" "t < length ts" "in_fetch (ts ! t)"
  shows "am_isFetchPhaseBusy m"
  using num_fetching_update [OF assms(2), of None] assms(1,3) by (auto simp: threads_ok_def split: if_splits)

lemma resume_pending_ok:
  assumes "cache_ok m" "refs_ok m refs" "refs_bounded refs" "pending_ok m pd" "resume_pending pd m = Some r"
  shows "\<exists>om. r = Inr om \<and> entered m refs om \<and> \<not> fetching pd"
proof (cases pd)
  case (Wait_user n)
  with assms(5) acquireUser_enter_ok [OF assms(1-3), of n] show ?thesis by auto
next
  case (Wait_V1 n d)
  with assms(5) acquireV1_enter_ok [OF assms(1,2), of n d] show ?thesis by auto
next
  case (Wait_V1_fetch n d u)
  with assms(4,5) begin_V1_ok [OF assms(1,2), of u n d] show ?thesis by auto
next
  case Wait_version
  from version_wait_ok [OF assms(1,2)] assms(5) Wait_version show ?thesis
    by (simp only: resume_pending.simps option.inject fetching.simps) blast
qed (use assms(5) in simp_all)

lemma finish_pending_ok:
  assumes "cache_ok m" "refs_ok m refs" "pending_ok m pd" "finish_pending env p pd m = Some r"
    "am_isFetchPhaseBusy m" "am_users m p = None" "p \<noteq> internal_ptr"
  shows "\<exists>om. r = Inr om \<and> finished refs om"
proof (cases pd)
  case (Fetch_user n gen v)
  with assms(3,4) acquireUser_finish_ok [OF assms(1,2,5-7), of n env gen v] show ?thesis by auto
next
  case (Fetch_V1 n d c gen)
  with assms(3,4) acquireV1_finish_ok [OF assms(1,2,5-7), of c n env d gen] show ?thesis by auto
next
  case (Fetch_version gen)
  with assms(4) getAuthorizationVersion_finish_ok [OF assms(1,2,5), of env gen] show ?thesis by auto
qed (use assms(4) in simp_all)

lemma finish_pending_fetching: "finish_pending env p pd m = Some r \<Longrightarrow> fetching pd"
  by (cases pd) simp_all

end
