(* ===== verification/Authz_Cache_Safety.thy ===== *)
theory Authz_Cache_Safety
  imports Authz_Cache_Invariant
begin

text \<open>
  What the invariant gives: safety and progress of the user cache under any interleaving, the exact reach of
  an invalidation and a race in which one is missed.
\<close>

lemma run_thread_ok:
  assumes "system_ok s" "refs_bounded (cs_refs s)" "t < length (cs_threads s)" "run_thread t ev s = Some r"
  shows "\<exists>om. r = Inr om \<and> system_ok (record_outcome t om s)"
proof -
  from assms(1) have c: "cache_ok (cs_manager s)" "refs_ok (cs_manager s) (cs_refs s)" "threads_ok (cs_manager s) (cs_threads s)"
    by (simp_all add: system_ok_def)
  show ?thesis
  proof (cases "cs_threads s ! t")
    case None
    then have idle: "\<not> in_fetch (cs_threads s ! t)" by simp
    from None assms(4) have "run_idle ev s = Some r" by (simp add: run_thread_def)
    then have "\<exists>om. r = Inr om \<and> entered (cs_manager s) (cs_refs s) om"
      using acquireUser_enter_ok [OF c(1,2) assms(2)] acquireV1_enter_ok [OF c(1,2)] getAuthorizationVersion_enter_ok [OF c(1,2)]
      by (cases ev) (auto simp: run_idle_def)
    with entered_step [OF assms(1,3) idle] show ?thesis by blast
  next
    case (Some pd)
    with assms(3) c(3) nth_mem [OF assms(3)] have ok: "pending_ok (cs_manager s) pd" by (simp add: threads_ok_def)
    from Some assms(4) consider "resume_pending pd (cs_manager s) = Some r"
      | env p where "finish_pending env p pd (cs_manager s) = Some r" "am_users (cs_manager s) p = None" "p \<noteq> internal_ptr"
      by (cases ev) (auto simp: run_thread_def split: if_splits)
    then show ?thesis
    proof cases
      case 1
      from resume_pending_ok [OF c(1,2) assms(2) ok 1] obtain om where "r = Inr om" "entered (cs_manager s) (cs_refs s) om" "\<not> fetching pd" by blast
      with entered_step [OF assms(1,3)] Some show ?thesis by simp
    next
      case 2
      have f: "in_fetch (cs_threads s ! t)" using Some finish_pending_fetching [OF 2(1)] by simp
      from finish_pending_ok [OF c(1,2) ok 2(1) busy_while_fetching [OF c(3) assms(3) f] 2(2,3)] obtain om where
        "r = Inr om" "finished (cs_refs s) om" by blast
      with finished_step [OF assms(1,3) f] show ?thesis by blast
    qed
  qed
qed

lemma system_ok_shrinks:
  assumes "system_ok s" "cache_ok m'" "refs_ok m' refs" "shrinks (cs_manager s) m'"
  shows "system_ok (s\<lparr>cs_manager := m', cs_refs := refs\<rparr>)"
  using assms shrinks_threads [OF assms(4)] shrinks_sleepers [OF assms(4)] by (simp add: system_ok_def)

lemma run_simple_ok:
  assumes "system_ok s" "refs_bounded (cs_refs s)" "run_simple ev s = Some r"
  shows "\<exists>s'. r = Inr s' \<and> system_ok s'"
proof -
  from assms(1) have c: "cache_ok (cs_manager s)" "refs_ok (cs_manager s) (cs_refs s)" by (simp_all add: system_ok_def)
  note sys = system_ok_shrinks [OF assms(1)] and sys' = system_ok_shrinks [OF assms(1), of _ "cs_refs s", simplified]
  show ?thesis
  proof (cases ev)
    case (Release p)
    with assms(3) have p: "0 < cs_refs s p" by (simp add: run_simple_def split: if_splits)
    have "p \<noteq> internal_ptr \<Longrightarrow> cs_refs s p \<le> 2 ^ 32" using assms(2) by (auto simp: refs_bounded_def less_imp_le)
    from releaseUser_ok [OF c p this] obtain m' where "releaseUser p (cs_manager s) = Inr m'" "cache_ok m'"
      "refs_ok m' ((cs_refs s)(p := cs_refs s p - 1))" "shrinks (cs_manager s) m'" by blast
    with Release assms(3) p sys show ?thesis by (auto simp: run_simple_def)
  next
    case (Invalidate_user n)
    from invalidateUserByName_ok [OF c, of n] Invalidate_user assms(3) sys' show ?thesis by (auto simp: run_simple_def)
  next
    case (Invalidate_db d)
    from invalidateUsersFromDB_ok [OF c, of d] Invalidate_db assms(3) sys' show ?thesis by (auto simp: run_simple_def)
  next
    case Invalidate_all
    from invalidateUserCache_ok [OF c] Invalidate_all assms(3) sys' show ?thesis by (auto simp: run_simple_def)
  qed (use assms(3) in \<open>simp_all add: run_simple_def\<close>)
qed

lemma run_asleep_ok:
  assumes "system_ok s" "run_asleep t ev s = Some r"
  shows "\<exists>s'. r = Inr s' \<and> system_ok s'"
proof -
  have "sleepers_ok (cs_manager s) \<Longrightarrow> sleepers_ok (wake_up t (cs_manager s))" by (auto simp: sleepers_ok_def wake_up_def)
  with assms threads_ok_cong [of "wake_up t (cs_manager s)" "cs_manager s"] show ?thesis
    by (cases ev) (auto simp: run_asleep_def system_ok_def split: if_splits)
qed

text \<open>A step is the one of an operation, of an idle thread, or a wake-up.\<close>

lemma cache_step_cases:
  assumes "cache_step t ev s = Some r"
  obtains x where "run_thread t ev s = Some x" "r = bindE x (\<lambda>om. Inr (record_outcome t om s))"
  | "cs_threads s ! t = None" "run_simple ev s = Some r"
  | "cs_threads s ! t \<noteq> None" "run_asleep t ev s = Some r"
proof (cases "run_thread t ev s")
  case None
  with assms that(2,3) show ?thesis by (cases "cs_threads s ! t = None") (simp_all add: cache_step_def split: if_splits)
next
  case (Some x)
  with assms that(1) show ?thesis by (simp add: cache_step_def split: if_splits)
qed

lemma cache_step_thread: "cache_step t ev s = Some r \<Longrightarrow> t < length (cs_threads s)"
  by (simp add: cache_step_def split: if_splits)

lemma cache_step_ok:
  assumes "system_ok s" "refs_bounded (cs_refs s)" "cache_step t ev s = Some r"
  shows "\<exists>s'. r = Inr s' \<and> system_ok s'"
  using assms(3)
proof (cases rule: cache_step_cases)
  case (1 x)
  from run_thread_ok [OF assms(1,2) cache_step_thread [OF assms(3)] 1(1)] 1(2) show ?thesis by auto
next
  case 2
  from run_simple_ok [OF assms(1,2) 2(2)] show ?thesis .
next
  case 3
  from run_asleep_ok [OF assms(1) 3(2)] show ?thesis .
qed

lemma system_ok_start: "system_ok (cache_start universal n)"
  by (simp add: system_ok_def cache_start_def AuthorizationManager_def cache_ok_def refs_ok_def threads_ok_def
      num_fetching_def sleepers_ok_def in_set_replicate)

lemma cache_reachable_ok: "cache_reachable universal n s \<Longrightarrow> system_ok s \<and> refs_bounded (cs_refs s)"
proof (induction rule: cache_reachable.induct)
  case cache_init
  show ?case using system_ok_start by (simp add: refs_bounded_def cache_start_def)
next
  case (cache_next s t ev s')
  with cache_step_ok [of s t ev "Inr s'"] show ?case by simp
qed

lemmas reachable_system = cache_reachable_ok [THEN conjunct1]
lemmas reachable_bounded = cache_reachable_ok [THEN conjunct2]

text \<open>A step hands out one reference at most.\<close>

lemma cache_step_refs:
  assumes "cache_step t ev s = Some (Inr s')"
  shows "cs_refs s' p \<le> cs_refs s p + 1"
  using assms
proof (cases rule: cache_step_cases)
  case (1 x)
  from 1(2) [symmetric] show ?thesis by (auto simp: bindE_eq_Inr_iff outcome_refs_def split: acquire_outcome.splits)
next
  case 2
  then show ?thesis by (cases ev) (auto simp: run_simple_def bindE_eq_Inr_iff split: if_splits)
next
  case 3
  then show ?thesis by (cases ev) (auto simp: run_asleep_def split: if_splits)
qed

fun run_events :: "(nat \<times> event) list \<Rightarrow> cache_system \<Rightarrow> cache_system result option" where
  "run_events [] s = Some (Inr s)"
| "run_events ((t, ev) # evs) s =
     (case cache_step t ev s of
        Some (Inr s') \<Rightarrow> run_events evs s'
      | r \<Rightarrow> r)"

lemma run_events_reachable:
  "cache_reachable universal n s \<Longrightarrow> run_events evs s = Some (Inr s') \<Longrightarrow> \<forall>p. cs_refs s p + length evs < 2 ^ 32 \<Longrightarrow>
   cache_reachable universal n s'"
proof (induction evs arbitrary: s)
  case (Cons e evs)
  obtain t ev where e: "e = (t, ev)" by (cases e)
  with Cons.prems(2) obtain s1 where s1: "cache_step t ev s = Some (Inr s1)" "run_events evs s1 = Some (Inr s')"
    by (auto split: option.splits sum.splits)
  have room: "cs_refs s1 p + length evs < 2 ^ 32" for p
  proof -
    have "cs_refs s1 p + length evs \<le> cs_refs s p + length (e # evs)" using cache_step_refs [OF s1(1), of p] by simp
    also have "\<dots> < 2 ^ 32" using Cons.prems(3) by blast
    finally show ?thesis .
  qed
  then have "refs_bounded (cs_refs s1)" unfolding refs_bounded_def by (metis add_lessD1)
  from Cons.IH [OF cache_next [OF Cons.prems(1) s1(1) this] s1(2)] room show ?case by blast
qed simp

lemma cache_states:
  assumes "system_ok s"
  shows "map_of (am_userCache (cs_manager s)) k = Some p \<longleftrightarrow>
      p \<noteq> internal_ptr \<and> (\<exists>u. am_users (cs_manager s) p = Some u \<and> us_isValid u \<and> un_fullName (us_name u) = k)"
  using assms cache_okD(3,4) [of "cs_manager s"] unfolding system_ok_def by blast

lemma counts_states:
  assumes "system_ok s" "p \<noteq> internal_ptr"
  shows "am_users (cs_manager s) p = Some u \<Longrightarrow> us_refCount u = of_nat (cs_refs s p)"
    "am_users (cs_manager s) p = None \<longleftrightarrow> cs_refs s p = 0"
  using assms refs_okD [of "cs_manager s" "cs_refs s" p] unfolding system_ok_def
  by (cases "am_users (cs_manager s) p"; simp)+

text \<open>
  (C29) Whatever acquisitions, releases and invalidations any number of threads interleave, as long as no user is held
  \<open>2 ^ 32\<close> times at once: no step dereferences a
  deleted user and no assertion fails; an object is alive exactly as long as somebody holds it, with
  the number of its holders as its 32-bit count; the cache holds exactly the valid users, each under its
  name.
\<close>

theorem user_cache_safe:
  assumes "cache_reachable universal n s"
  shows "(\<forall>t ev r. cache_step t ev s = Some r \<longrightarrow> (\<exists>s'. r = Inr s')) \<and>
    (\<forall>p. p \<noteq> internal_ptr \<longrightarrow> (am_users (cs_manager s) p = None \<longleftrightarrow> cs_refs s p = 0)) \<and>
    (\<forall>p u. p \<noteq> internal_ptr \<longrightarrow> am_users (cs_manager s) p = Some u \<longrightarrow> unat (us_refCount u) = cs_refs s p) \<and>
    (\<forall>k p. map_of (am_userCache (cs_manager s)) k = Some p \<longleftrightarrow>
      p \<noteq> internal_ptr \<and> (\<exists>u. am_users (cs_manager s) p = Some u \<and> us_isValid u \<and> un_fullName (us_name u) = k))"
proof (intro conjI allI impI)
  note ok = reachable_system [OF assms] and bounded = reachable_bounded [OF assms]
  show "\<exists>s'. r = Inr s'" if "cache_step t ev s = Some r" for t ev r using cache_step_ok [OF ok bounded that] by blast
  show "am_users (cs_manager s) p = None \<longleftrightarrow> cs_refs s p = 0" if "p \<noteq> internal_ptr" for p by (rule counts_states(2) [OF ok that])
  show "unat (us_refCount u) = cs_refs s p" if "p \<noteq> internal_ptr" "am_users (cs_manager s) p = Some u" for p u
    using counts_states(1) [OF ok that] bounded that(1) by (simp add: refs_bounded_def unat_of_nat)
  show "map_of (am_userCache (cs_manager s)) k = Some p \<longleftrightarrow>
      p \<noteq> internal_ptr \<and> (\<exists>u. am_users (cs_manager s) p = Some u \<and> us_isValid u \<and> un_fullName (us_name u) = k)" for k p
    by (rule cache_states [OF ok])
qed

subsection \<open>What an invalidation reaches\<close>

text \<open>The users that satisfy \<open>H\<close>, marked invalid.\<close>

definition marked :: "(user_name \<Rightarrow> bool) \<Rightarrow> (user_ptr \<Rightarrow> user option) \<Rightarrow> user_ptr \<Rightarrow> user option" where
  "marked H us p = (if p = internal_ptr then us p else map_option (\<lambda>u. if H (us_name u) then invalidate u else u) (us p))"

lemma invalidate_invalid: "\<not> us_isValid u \<Longrightarrow> invalidate u = u"
  by (simp add: invalidate_def)

lemma invalidate_in_db_users:
  assumes "\<forall>(k, p) \<in> set es. am_users m p \<noteq> None"
  shows "\<exists>m'. foldE (invalidate_in_db d) es m = Inr m' \<and> am_cacheGeneration m' = am_cacheGeneration m \<and>
    am_users m' = (\<lambda>p. map_option (\<lambda>u. if p \<in> snd ` set es \<and> un_getDB (us_name u) = d then invalidate u else u) (am_users m p))"
  using assms
proof (induction es arbitrary: m)
  case Nil
  then show ?case by (simp add: option.map_ident)
next
  case (Cons e es)
  obtain k p where e: "e = (k, p)" by (cases e)
  from Cons.prems e obtain u where u: "am_users m p = Some u" by auto
  let ?hit = "un_getDB (us_name u) = d"
  let ?us = "if ?hit then (am_users m)(p := Some (invalidate u)) else am_users m"
  obtain m1 where m1: "invalidate_in_db d e m = Inr m1" "am_users m1 = ?us" "am_cacheGeneration m1 = am_cacheGeneration m"
    using u by (cases ?hit) (simp_all add: invalidate_in_db_def e deref_def update_user_def)
  have "\<forall>(k, p) \<in> set es. am_users m1 p \<noteq> None" using Cons.prems m1(2) by (auto split: if_splits)
  from Cons.IH [OF this] obtain m' where m': "foldE (invalidate_in_db d) es m1 = Inr m'"
    "am_cacheGeneration m' = am_cacheGeneration m1"
    "am_users m' = (\<lambda>p. map_option (\<lambda>u. if p \<in> snd ` set es \<and> un_getDB (us_name u) = d then invalidate u else u) (am_users m1 p))"
    by blast
  have "am_users m' q = map_option (\<lambda>u. if q \<in> snd ` set (e # es) \<and> un_getDB (us_name u) = d then invalidate u else u) (am_users m q)" for q
    using u e invalidate_invalid [of "invalidate u"] unfolding m'(3) m1(2) by (cases "q = p"; cases "am_users m q") auto
  with m1 m' show ?case by (auto simp: fun_eq_iff)
qed

lemma not_cached_invalid:
  assumes "cache_ok m" "p \<noteq> internal_ptr" "am_users m p = Some u" "p \<notin> snd ` set (am_userCache m)"
  shows "invalidate u = u"
proof (rule invalidate_invalid, rule notI)
  assume "us_isValid u"
  from cache_okD(4) [OF assms(1-3) this] assms(4) show False by (force dest: map_of_SomeD)
qed

lemma cached_not_internal: "cache_ok m \<Longrightarrow> internal_ptr \<notin> snd ` set (am_userCache m)"
  using entries_ok_cache [of m] unfolding entries_ok_def by auto

lemma cached_live: "cache_ok m \<Longrightarrow> \<forall>(k, p) \<in> set (am_userCache m). p \<noteq> internal_ptr \<and> am_users m p \<noteq> None"
  using entries_ok_cache [of m] unfolding entries_ok_def by auto

text \<open>Marking the cached ones only is marking them all: the others are invalid already.\<close>

lemma marked_cached:
  assumes "cache_ok m"
  shows "(\<lambda>p. map_option (\<lambda>u. if p \<in> snd ` set (am_userCache m) \<and> H (us_name u) then invalidate u else u) (am_users m p)) =
    marked H (am_users m)"
proof
  fix p
  show "map_option (\<lambda>u. if p \<in> snd ` set (am_userCache m) \<and> H (us_name u) then invalidate u else u) (am_users m p) = marked H (am_users m) p"
    using not_cached_invalid [OF assms, of p] cached_not_internal [OF assms]
    by (cases "am_users m p") (auto simp: marked_def)
qed

lemma invalidateUsersFromDB_users:
  assumes "cache_ok m" "invalidateUsersFromDB d m = Inr m'"
  shows "am_users m' = marked (\<lambda>x. un_getDB x = d) (am_users m) \<and> am_cacheGeneration m' = am_cacheGeneration m + 1"
proof -
  have "\<forall>(k, p) \<in> set (am_userCache m). am_users (m\<lparr>am_cacheGeneration := am_cacheGeneration m + 1\<rparr>) p \<noteq> None"
    using cached_live [OF assms(1)] by auto
  from invalidate_in_db_users [OF this, of d] assms(2) marked_cached [OF assms(1), of "\<lambda>x. un_getDB x = d"]
  show ?thesis by (auto simp: invalidateUsersFromDB_def Let_def)
qed

lemma invalidateUserCache_users:
  assumes "cache_ok m" "invalidateUserCache m = Inr m'"
  shows "am_users m' = marked (\<lambda>_. True) (am_users m) \<and> am_cacheGeneration m' = am_cacheGeneration m + 1"
proof -
  let ?m = "m\<lparr>am_cacheGeneration := am_cacheGeneration m + 1\<rparr>"
  have live: "\<forall>(k, p) \<in> set (am_userCache m). p \<noteq> internal_ptr \<and> am_users ?m p \<noteq> None"
    using cached_live [OF assms(1)] by simp
  have eq: "(\<lambda>q. if q \<in> snd ` set (am_userCache m) then map_option invalidate (am_users m q) else am_users m q) = marked (\<lambda>_. True) (am_users m)"
    unfolding marked_cached [OF assms(1), of "\<lambda>_. True", symmetric] by (auto simp: option.map_ident)
  from invalidate_entries [OF live] eq assms(2) show ?thesis
    by (auto simp: invalidateUserCache_def Let_def cong: if_cong)
qed

lemma invalidateUserByName_users:
  assumes "cache_ok m" "invalidateUserByName n m = Inr m'"
  shows "am_users m' = marked (un_eq n) (am_users m) \<and> am_cacheGeneration m' = am_cacheGeneration m + 1"
proof -
  have other: "marked (un_eq n) (am_users m) q = am_users m q"
    if "map_of (am_userCache m) (un_fullName n) \<noteq> Some q" for q
  proof -
    have "invalidate u = u" if u: "q \<noteq> internal_ptr" "am_users m q = Some u" "un_eq n (us_name u)" for u
    proof (rule invalidate_invalid, rule notI)
      assume "us_isValid u"
      from cache_okD(4) [OF assms(1) u(1,2) this] u(3) \<open>map_of (am_userCache m) (un_fullName n) \<noteq> Some q\<close>
      show False by (simp add: un_eq_def)
    qed
    then show ?thesis by (cases "am_users m q") (auto simp: marked_def)
  qed
  show ?thesis
  proof (cases "map_of (am_userCache m) (un_fullName n)")
    case None
    with other assms(2) show ?thesis by (auto simp: invalidateUserByName_def Let_def)
  next
    case (Some p)
    from cache_okD(3) [OF assms(1) Some] obtain u where u: "p \<noteq> internal_ptr" "am_users m p = Some u"
      "un_fullName (us_name u) = un_fullName n" by blast
    then have "marked (un_eq n) (am_users m) p = Some (invalidate u)" by (simp add: marked_def un_eq_def)
    then have "marked (un_eq n) (am_users m) = (am_users m)(p := Some (invalidate u))"
      using other Some by (auto simp: fun_eq_iff)
    moreover have "am_users m' = (am_users m)(p := Some (invalidate u)) \<and> am_cacheGeneration m' = am_cacheGeneration m + 1"
      using assms(2) Some u(2) by (auto simp: invalidateUserByName_def Let_def deref_def update_user_def)
    ultimately show ?thesis by simp
  qed
qed

text \<open>The generation that a fetch phase began with.\<close>

fun fetch_generation :: "pending \<Rightarrow> uint64" where
  "fetch_generation (Fetch_user n gen v) = gen"
| "fetch_generation (Fetch_V1 n d u gen) = gen"
| "fetch_generation (Fetch_version gen) = gen"
| "fetch_generation _ = 0"

definition invalidating :: "event \<Rightarrow> bool" where
  "invalidating ev \<longleftrightarrow> (case ev of Invalidate_user _ \<Rightarrow> True | Invalidate_db _ \<Rightarrow> True | Invalidate_all \<Rightarrow> True | _ \<Rightarrow> False)"

text \<open>Steps of the threads other than \<open>t\<close>, \<open>k\<close> of them invalidations.\<close>

inductive others_run :: "nat \<Rightarrow> cache_system \<Rightarrow> nat \<Rightarrow> cache_system \<Rightarrow> bool" for t s where
  others_none: "others_run t s 0 s"
| others_next: "others_run t s k s' \<Longrightarrow> t' \<noteq> t \<Longrightarrow> cache_step t' ev s' = Some (Inr s'') \<Longrightarrow> refs_bounded (cs_refs s'') \<Longrightarrow>
    others_run t s (k + of_bool (invalidating ev)) s''"

text \<open>Entering an operation does not change the generation, and a fetch phase records it.\<close>

definition records :: "authz_manager \<Rightarrow> acquire_outcome \<times> authz_manager \<Rightarrow> bool" where
  "records m om \<longleftrightarrow> am_cacheGeneration (snd om) = am_cacheGeneration m \<and>
     (\<forall>pd. fst om = Pending pd \<longrightarrow> fetching pd \<longrightarrow> fetch_generation pd = am_cacheGeneration m)"

lemma enter_records:
  "acquireUser_enter n m = Inr om \<Longrightarrow> records m om"
  "begin_V1 n d u m = Inr om \<Longrightarrow> records m om"
  "acquireV1_enter n d m = Inr om \<Longrightarrow> records m om"
  "getAuthorizationVersion_enter m = Inr om \<Longrightarrow> records m om"
  by (auto simp: records_def acquireUser_enter_def acquireV1_enter_def getAuthorizationVersion_enter_def begin_V1_def
      beginFetchPhase_def update_user_def bindE_eq_Inr_iff split: if_splits option.splits)

lemma resume_records: "resume_pending pd m = Some (Inr om) \<Longrightarrow> records m om"
  by (cases pd) (auto simp: enter_records, auto simp: records_def beginFetchPhase_def bindE_eq_Inr_iff split: if_splits)

lemma run_thread_records:
  assumes "run_thread t ev s = Some (Inr om)" "\<not> in_fetch (cs_threads s ! t)"
  shows "records (cs_manager s) om \<and> \<not> invalidating ev"
proof (cases "cs_threads s ! t")
  case None
  with assms(1) show ?thesis
    by (cases ev) (auto simp: run_thread_def run_idle_def invalidating_def enter_records)
next
  case (Some pd)
  with assms show ?thesis
    by (cases ev) (auto simp: run_thread_def invalidating_def resume_records split: if_splits dest: finish_pending_fetching)
qed

lemma run_simple_generation:
  assumes "cache_ok (cs_manager s)" "run_simple ev s = Some (Inr s')"
  shows "am_cacheGeneration (cs_manager s') = am_cacheGeneration (cs_manager s) + of_bool (invalidating ev) \<and>
    cs_threads s' = cs_threads s"
proof (cases ev)
  case (Release p)
  with assms(2) show ?thesis
    by (auto simp: run_simple_def invalidating_def releaseUser_def bindE_eq_Inr_iff Let_def split: if_splits)
next
  case (Invalidate_user n)
  with assms(2) invalidateUserByName_users [OF assms(1), of n] show ?thesis
    by (auto simp: run_simple_def invalidating_def bindE_eq_Inr_iff)
next
  case (Invalidate_db d)
  with assms(2) invalidateUsersFromDB_users [OF assms(1), of d] show ?thesis
    by (auto simp: run_simple_def invalidating_def bindE_eq_Inr_iff)
next
  case Invalidate_all
  with assms(2) invalidateUserCache_users [OF assms(1)] show ?thesis
    by (auto simp: run_simple_def invalidating_def bindE_eq_Inr_iff)
qed (use assms(2) in \<open>simp_all add: run_simple_def\<close>)

lemma run_asleep_generation:
  "run_asleep t ev s = Some (Inr s') \<Longrightarrow>
   am_cacheGeneration (cs_manager s') = am_cacheGeneration (cs_manager s) \<and> cs_threads s' = cs_threads s \<and> \<not> invalidating ev"
  by (cases ev) (auto simp: run_asleep_def invalidating_def split: if_splits)

lemma others_step_generation:
  assumes "system_ok s" "cache_step t' ev s = Some (Inr s')" "\<not> in_fetch (cs_threads s ! t')" "t' \<noteq> t"
  shows "am_cacheGeneration (cs_manager s') = am_cacheGeneration (cs_manager s) + of_bool (invalidating ev) \<and>
    cs_threads s' ! t = cs_threads s ! t \<and> length (cs_threads s') = length (cs_threads s)"
  using assms(2)
proof (cases rule: cache_step_cases)
  case (1 x)
  from 1(2) [symmetric] obtain om where om: "x = Inr om" "s' = record_outcome t' om s" by (auto simp: bindE_eq_Inr_iff)
  with run_thread_records [of t' ev s om] 1(1) assms(3,4) show ?thesis by (simp add: records_def)
next
  case 2
  with run_simple_generation [of s ev s'] assms(1) show ?thesis by (simp add: system_ok_def)
next
  case 3
  from run_asleep_generation [OF 3(2)] show ?thesis by simp
qed

text \<open>Only one thread is in the fetch phase.\<close>

lemma one_fetching:
  assumes "threads_ok m ts" "t < length ts" "t' < length ts" "in_fetch (ts ! t)" "in_fetch (ts ! t')"
  shows "t' = t"
proof (rule ccontr)
  assume "t' \<noteq> t"
  then have "num_fetching (ts[t := None]) + 1 = num_fetching ts" "num_fetching (ts[t := None, t' := None]) + 1 = num_fetching (ts[t := None])"
    using num_fetching_update [OF assms(2), of None] num_fetching_update [of t' "ts[t := None]" None] assms(3-5) by simp_all
  with assms(1) show False by (simp add: threads_ok_def split: if_splits)
qed

lemma others_run_generation:
  assumes "others_run t s k s'" "system_ok s" "refs_bounded (cs_refs s)" "t < length (cs_threads s)" "in_fetch (cs_threads s ! t)"
  shows "system_ok s' \<and> refs_bounded (cs_refs s') \<and> cs_threads s' ! t = cs_threads s ! t \<and> t < length (cs_threads s') \<and>
    am_cacheGeneration (cs_manager s') = am_cacheGeneration (cs_manager s) + of_nat k"
  using assms(1)
proof induction
  case others_none
  then show ?case using assms(2-5) by simp
next
  case (others_next k s' t' ev s'')
  have "\<not> in_fetch (cs_threads s' ! t')"
    using one_fetching [of "cs_manager s'" "cs_threads s'" t t'] others_next cache_step_thread [of t' ev s'] assms(5)
    by (auto simp: system_ok_def)
  from others_step_generation [OF _ others_next.hyps(3) this others_next.hyps(2)] cache_step_ok [of s' t' ev "Inr s''"] others_next
  show ?case by auto
qed

text \<open>
  What the end of a fetch phase leaves in the heap and in the cache: the new object is valid exactly when the generation is still
  the one recorded.
\<close>

definition fetch_effect :: "bool \<Rightarrow> user_ptr \<Rightarrow> authz_manager \<Rightarrow> authz_manager \<Rightarrow> bool" where
  "fetch_effect same p m m' \<longleftrightarrow> (\<forall>u. am_users m' p = Some u \<longrightarrow> us_isValid u = same) \<and>
     (\<forall>q. q \<noteq> p \<longrightarrow> am_users m q = None \<longrightarrow> am_users m' q = None) \<and>
     (\<not> same \<longrightarrow> am_userCache m' = am_userCache m \<and> am_version m' = am_version m \<and> (\<forall>q. q \<noteq> p \<longrightarrow> am_users m' q = am_users m q))"

lemma acquireUser_finish_effect:
  assumes "am_users m p = None" "acquireUser_finish env n gen v p m = Inr (out, m')"
  shows "fetch_effect (gen = am_cacheGeneration m) p m m'"
proof -
  obtain st uo v' where f: "fetch_attempts env n 2 0 v Status_OK = (st, uo, v')" using prod_cases3 by blast
  have "isOK st \<Longrightarrow> \<exists>u. uo = Some u \<and> us_isValid u" using fetch_attempts_fresh [OF f] by (auto simp: fresh_user_def)
  with assms f show ?thesis
    by (auto simp: fetch_effect_def acquireUser_finish_def leaveFetchPhase_def isSameCacheGeneration_def Let_def bindE_eq_Inr_iff
        split: if_splits option.splits)
qed

lemma getAuthorizationVersion_finish_effect:
  assumes "am_users m p = None" "getAuthorizationVersion_finish env gen m = Inr (out, m')"
  shows "fetch_effect (gen = am_cacheGeneration m) p m m'"
  using assms
  by (auto simp: fetch_effect_def getAuthorizationVersion_finish_def leaveFetchPhase_def isSameCacheGeneration_def Let_def bindE_eq_Inr_iff
      split: if_splits prod.splits)

lemma acquireV1_finish_effect:
  assumes "cache_ok m" "am_users m p = None" "\<forall>x. c = Some x \<longrightarrow> fresh_user n x" "acquireV1_finish env n d c gen p m = Inr (out, m')"
  shows "fetch_effect (gen = am_cacheGeneration m) p m m'"
proof (cases "acquireV1_fetch env n d c")
  case (V1_failed st)
  with assms(2,4) show ?thesis by (auto simp: fetch_effect_def acquireV1_finish_def leaveFetchPhase_def bindE_eq_Inr_iff)
next
  case (V1_as_V2 st uo)
  have gone: "am_users x r = None" if "invalidateUserCache m = Inr x" "am_users m r = None" for x r
    using invalidateUserCache_users [OF assms(1) that(1)] that(2) by (auto simp: marked_def)
  have "isOK st \<Longrightarrow> \<exists>u. uo = Some u \<and> us_isValid u" using acquireV1_fetch_fresh(2) [OF assms(3) V1_as_V2] by (auto simp: fresh_user_def)
  with assms(2,4) V1_as_V2 gone show ?thesis
    by (auto simp: fetch_effect_def acquireV1_finish_def leaveFetchPhase_def isSameCacheGeneration_def bindE_eq_Inr_iff
        split: if_splits option.splits)
next
  case (V1_probed u)
  have "us_isValid u" using acquireV1_fetch_fresh(1) [OF assms(3) V1_probed] by (simp add: fresh_user_def)
  with assms(2,4) V1_probed show ?thesis
    by (auto simp: fetch_effect_def acquireV1_finish_def leaveFetchPhase_def isSameCacheGeneration_def update_user_def Let_def
        bindE_eq_Inr_iff split: if_splits option.splits)
qed

lemma finish_pending_effect:
  assumes "cache_ok m" "pending_ok m pd" "am_users m p = None" "finish_pending env p pd m = Some (Inr (out, m'))"
  shows "fetch_effect (fetch_generation pd = am_cacheGeneration m) p m m'"
  using assms acquireUser_finish_effect [OF assms(3)] acquireV1_finish_effect [OF assms(1,3)]
    getAuthorizationVersion_finish_effect [OF assms(3)] by (cases pd) auto

text \<open>A thread enters its fetch phase with the generation of the cache, and hands out nothing.\<close>

lemma enter_fetch:
  assumes "cache_step t ev s = Some (Inr s')" "\<not> in_fetch (cs_threads s ! t)" "in_fetch (cs_threads s' ! t)"
  shows "\<exists>pd. cs_threads s' ! t = Some pd \<and> fetch_generation pd = am_cacheGeneration (cs_manager s') \<and> cs_refs s' = cs_refs s \<and>
    t < length (cs_threads s')"
  using assms(1)
proof (cases rule: cache_step_cases)
  case (1 x)
  note t = cache_step_thread [OF assms(1)]
  from 1(2) [symmetric] obtain om where om: "x = Inr om" "s' = record_outcome t om s" by (auto simp: bindE_eq_Inr_iff)
  with assms(3) t obtain pd where "fst om = Pending pd" "fetching pd"
    by (auto simp: outcome_thread_def split: acquire_outcome.splits)
  with om t run_thread_records [of t ev s om] 1(1) assms(2) show ?thesis by (auto simp: records_def)
next
  case 2
  have "cs_threads s' = cs_threads s" using 2(2)
    by (cases ev) (auto simp: run_simple_def bindE_eq_Inr_iff split: if_splits)
  with assms(2,3) show ?thesis by simp
next
  case 3
  from run_asleep_generation [OF 3(2)] assms(2,3) show ?thesis by simp
qed

lemma finish_fetch_effect:
  assumes "system_ok s" "cache_step t (Finish env p) s = Some (Inr s')" "cs_threads s ! t = Some pd"
  shows "am_users (cs_manager s) p = None \<and>
    fetch_effect (fetch_generation pd = am_cacheGeneration (cs_manager s)) p (cs_manager s) (cs_manager s')"
proof -
  note t = cache_step_thread [OF assms(2)]
  have ok: "pending_ok (cs_manager s) pd" "cache_ok (cs_manager s)"
    using assms(1,3) nth_mem [OF t] by (simp_all add: system_ok_def threads_ok_def)
  from assms(2,3) t obtain om where om: "am_users (cs_manager s) p = None" "finish_pending env p pd (cs_manager s) = Some (Inr om)"
    "s' = record_outcome t om s"
    by (auto simp: cache_step_def run_thread_def run_asleep_def bindE_eq_Inr_iff split: if_splits option.splits)
  with finish_pending_effect [OF ok(2,1) om(1), of env "fst om" "snd om"] show ?thesis by (simp add: fetch_effect_def)
qed

lemma generation_moved: "0 < k \<Longrightarrow> k < 2 ^ 64 \<Longrightarrow> g \<noteq> g + (of_nat k :: uint64)"
  by (auto simp: word_of_nat_eq_0_iff dest: dvd_imp_le)

lemma fetch_after_others:
  assumes "cache_reachable universal j s" "\<not> in_fetch (cs_threads s ! t)" "cache_step t ev s = Some (Inr s1)"
    "in_fetch (cs_threads s1 ! t)" "others_run t s1 k s2" "k < 2 ^ 64" "cache_step t (Finish env p) s2 = Some (Inr s3)"
  shows "(\<forall>q u. am_users (cs_manager s2) q = None \<longrightarrow> am_users (cs_manager s3) q = Some u \<longrightarrow> q = p \<and> us_isValid u = (k = 0)) \<and>
      (0 < k \<longrightarrow> am_userCache (cs_manager s3) = am_userCache (cs_manager s2) \<and> am_version (cs_manager s3) = am_version (cs_manager s2) \<and>
        (\<forall>q. am_users (cs_manager s2) q \<noteq> None \<longrightarrow> am_users (cs_manager s3) q = am_users (cs_manager s2) q))"
proof -
  note ok = reachable_system [OF assms(1)] and bounded = reachable_bounded [OF assms(1)]
  from enter_fetch [OF assms(3,2,4)] obtain pd where pd: "cs_threads s1 ! t = Some pd"
    "fetch_generation pd = am_cacheGeneration (cs_manager s1)" "cs_refs s1 = cs_refs s" "t < length (cs_threads s1)" by blast
  have "system_ok s1" using cache_step_ok [OF ok bounded assms(3)] by simp
  from others_run_generation [OF assms(5) this _ pd(4) assms(4)] bounded pd(3) have s2: "system_ok s2"
    "cs_threads s2 ! t = Some pd" "am_cacheGeneration (cs_manager s2) = am_cacheGeneration (cs_manager s1) + of_nat k"
    by (simp_all add: pd(1))
  have "fetch_generation pd = am_cacheGeneration (cs_manager s2) \<longleftrightarrow> k = 0"
    using generation_moved [of k] assms(6) unfolding s2(3) pd(2) by (cases "k = 0") auto
  with finish_fetch_effect [OF s2(1) assms(7) s2(2)]
  have e: "am_users (cs_manager s2) p = None" "fetch_effect (k = 0) p (cs_manager s2) (cs_manager s3)" by simp_all
  have new: "q = p" if "am_users (cs_manager s2) q = None" "am_users (cs_manager s3) q = Some u" for q u
    using e(2) that by (cases "q = p") (auto simp: fetch_effect_def)
  have old: "q \<noteq> p" if "am_users (cs_manager s2) q \<noteq> None" for q using e(1) that by auto
  show ?thesis using e(2) new old unfolding fetch_effect_def by blast
qed

text \<open>
  (C31) The invalidations reach exactly the users they name: \<open>invalidateUserByName\<close> those of one name,
  \<open>invalidateUsersFromDB\<close> those of one database, \<open>invalidateUserCache\<close> all of them; no other object changes.
  They also reach the fetches in flight. A thread \<open>t\<close> goes from \<open>s\<close> to \<open>s1\<close> by a step that begins its fetch phase; the other threads
  take any steps up to \<open>s2\<close>, \<open>k\<close> of them invalidations (fewer than \<open>2 ^ 64\<close>); then \<open>t\<close> ends its fetch phase. The
  object it has made is valid exactly when there was no invalidation in between; when there was one,
  the fetch changes neither the cache nor the schema version nor any other object.
\<close>

theorem invalidation_exact:
  assumes "cache_reachable universal j s"
  shows "(\<forall>n m'. invalidateUserByName n (cs_manager s) = Inr m' \<longrightarrow> am_users m' = marked (un_eq n) (am_users (cs_manager s))) \<and>
    (\<forall>d m'. invalidateUsersFromDB d (cs_manager s) = Inr m' \<longrightarrow> am_users m' = marked (\<lambda>x. un_getDB x = d) (am_users (cs_manager s))) \<and>
    (\<forall>m'. invalidateUserCache (cs_manager s) = Inr m' \<longrightarrow> am_users m' = marked (\<lambda>_. True) (am_users (cs_manager s))) \<and>
    (\<forall>t ev s1 k s2 env p s3. \<not> in_fetch (cs_threads s ! t) \<and> cache_step t ev s = Some (Inr s1) \<and> in_fetch (cs_threads s1 ! t) \<and>
      others_run t s1 k s2 \<and> k < 2 ^ 64 \<and> cache_step t (Finish env p) s2 = Some (Inr s3) \<longrightarrow>
      (\<forall>q u. am_users (cs_manager s2) q = None \<longrightarrow> am_users (cs_manager s3) q = Some u \<longrightarrow> q = p \<and> us_isValid u = (k = 0)) \<and>
      (0 < k \<longrightarrow> am_userCache (cs_manager s3) = am_userCache (cs_manager s2) \<and> am_version (cs_manager s3) = am_version (cs_manager s2) \<and>
        (\<forall>q. am_users (cs_manager s2) q \<noteq> None \<longrightarrow> am_users (cs_manager s3) q = am_users (cs_manager s2) q)))"
proof (intro conjI)
  have ok: "cache_ok (cs_manager s)" using reachable_system [OF assms] by (simp add: system_ok_def)
  show "\<forall>n m'. invalidateUserByName n (cs_manager s) = Inr m' \<longrightarrow> am_users m' = marked (un_eq n) (am_users (cs_manager s))"
    using invalidateUserByName_users [OF ok] by blast
  show "\<forall>d m'. invalidateUsersFromDB d (cs_manager s) = Inr m' \<longrightarrow> am_users m' = marked (\<lambda>x. un_getDB x = d) (am_users (cs_manager s))"
    using invalidateUsersFromDB_users [OF ok] by blast
  show "\<forall>m'. invalidateUserCache (cs_manager s) = Inr m' \<longrightarrow> am_users m' = marked (\<lambda>_. True) (am_users (cs_manager s))"
    using invalidateUserCache_users [OF ok] by blast
qed (intro allI impI, elim conjE, rule fetch_after_others [OF assms])


subsection \<open>Progress\<close>

lemma resume_moves:
  assumes "\<not> am_isFetchPhaseBusy m" "resume_pending pd m = Some (Inr om)"
  shows "outcome_thread (fst om) = None \<or> in_fetch (outcome_thread (fst om))"
  using assms
  by (cases pd) (auto simp: acquireUser_enter_def acquireV1_enter_def begin_V1_def beginFetchPhase_def bindE_eq_Inr_iff
      fassert_eq_Inr split: if_splits option.splits)

lemma resume_defined: "\<not> fetching pd \<Longrightarrow> \<exists>r. resume_pending pd m = Some r"
  by (cases pd) simp_all

lemma finish_defined: "fetching pd \<Longrightarrow> \<exists>r. finish_pending env p pd m = Some r"
  by (cases pd) simp_all

lemma num_fetching_zero: "\<forall>t < length ts. \<not> in_fetch (ts ! t) \<Longrightarrow> num_fetching ts = 0"
proof -
  assume a: "\<forall>t < length ts. \<not> in_fetch (ts ! t)"
  have "\<not> in_fetch x" if "x \<in> set ts" for x using a that by (auto simp: in_set_conv_nth)
  then show ?thesis by (auto simp: num_fetching_def in_fetch_def filter_empty_conv)
qed

lemma busy_someone_fetching:
  assumes "threads_ok m ts" "am_isFetchPhaseBusy m"
  shows "\<exists>t < length ts. in_fetch (ts ! t)"
  using assms num_fetching_zero [of ts] by (auto simp: threads_ok_def)

text \<open>
  (C30) No operation on the cache is stuck: a thread in its fetch phase can end it, whatever the storage
  answers; as soon as no other is in the fetch phase, a waiting thread has been notified, is no longer asleep on the condition
  variable and can go on, to its result or to a fetch phase of its own; and while one is, some thread is there to end it.
\<close>

theorem user_cache_progress:
  assumes "cache_reachable universal k s" "t < length (cs_threads s)" "cs_threads s ! t = Some pd"
  shows "if fetching pd
    then \<forall>env p. am_users (cs_manager s) p = None \<and> p \<noteq> internal_ptr \<longrightarrow>
      (\<exists>s'. cache_step t (Finish env p) s = Some (Inr s') \<and> cs_threads s' ! t = None)
    else if am_isFetchPhaseBusy (cs_manager s)
    then \<exists>t' pd'. t' < length (cs_threads s) \<and> cs_threads s ! t' = Some pd' \<and> fetching pd'
    else t \<notin> set (am_fetchPhaseIsReady (cs_manager s)) \<and> (\<exists>s'. cache_step t Resume_wait s = Some (Inr s') \<and>
      (cs_threads s' ! t = None \<or> (\<exists>pd'. cs_threads s' ! t = Some pd' \<and> fetching pd')))"
proof -
  note sys = reachable_system [OF assms(1)]
  then have c: "cache_ok (cs_manager s)" "refs_ok (cs_manager s) (cs_refs s)" "threads_ok (cs_manager s) (cs_threads s)"
    "sleepers_ok (cs_manager s)" by (simp_all add: system_ok_def)
  have ok: "pending_ok (cs_manager s) pd" using c(3) nth_mem [OF assms(2)] assms(3) by (simp add: threads_ok_def)
  have fin: "\<exists>s'. cache_step t (Finish env p) s = Some (Inr s') \<and> cs_threads s' ! t = None"
    if "fetching pd" "am_users (cs_manager s) p = None" "p \<noteq> internal_ptr" for env p
  proof -
    from finish_defined [OF that(1)] obtain r where r: "finish_pending env p pd (cs_manager s) = Some r" by blast
    have "in_fetch (cs_threads s ! t)" using that(1) assms(3) by simp
    from finish_pending_ok [OF c(1,2) ok r busy_while_fetching [OF c(3) assms(2) this] that(2,3)] obtain om where
      "r = Inr om" "outcome_thread (fst om) = None" by (auto simp: finished_def)
    with r assms(2,3) that(2,3) show ?thesis by (simp add: cache_step_def run_thread_def)
  qed
  have awake: "am_fetchPhaseIsReady (cs_manager s) = []" if "\<not> am_isFetchPhaseBusy (cs_manager s)"
    using c(4) that by (auto simp: sleepers_ok_def)
  have res: "\<exists>s'. cache_step t Resume_wait s = Some (Inr s') \<and> (cs_threads s' ! t = None \<or> (\<exists>pd'. cs_threads s' ! t = Some pd' \<and> fetching pd'))"
    if "\<not> fetching pd" "\<not> am_isFetchPhaseBusy (cs_manager s)"
  proof -
    from resume_defined [OF that(1)] obtain r where r: "resume_pending pd (cs_manager s) = Some r" by blast
    from resume_pending_ok [OF c(1,2) reachable_bounded [OF assms(1)] ok r] obtain om where om: "r = Inr om" by blast
    have "outcome_thread (fst om) = None \<or> in_fetch (outcome_thread (fst om))"
      by (rule resume_moves [OF that(2)]) (use r om in simp)
    with r om assms(2,3) awake [OF that(2)] show ?thesis
      by (auto simp: cache_step_def run_thread_def in_fetch_def split: option.splits)
  qed
  from busy_someone_fetching [OF c(3)] have "\<exists>t' pd'. t' < length (cs_threads s) \<and> cs_threads s ! t' = Some pd' \<and> fetching pd'"
    if "am_isFetchPhaseBusy (cs_manager s)" using that by (auto simp: in_fetch_def split: option.splits)
  with fin res awake show ?thesis by simp
qed

subsection \<open>Runs\<close>

definition v1_doc :: "role_name list \<Rightarrow> v1_document" where
  "v1_doc roles = \<lparr>vd_roles = (Status_OK, roles), vd_credentials = (Status_OK, \<lparr>cd_password = [], cd_isExternal = False\<rparr>)\<rparr>"

text \<open>A storage in which every user has the given roles in its own database, and one without users.\<close>

definition storage_with :: "role_name list \<Rightarrow> fetch_env" where
  "storage_with roles =
     \<lparr>fe_storedVersion = (\<lambda>_. (Status_OK, schemaVersion24)),
      fe_userDescription = (\<lambda>_. (Status UserNotFound [] 0, \<lparr>ud_userName = [], ud_credentials = (Status_OK, \<lparr>cd_password = [], cd_isExternal = False\<rparr>),
        ud_roles = (Status_OK, []), ud_privileges = (Status_OK, [])\<rparr>)),
      fe_privilegeDocumentV1 = (\<lambda>_ d. if d = ''t'' then (Status_OK, v1_doc roles) else (Status UserNotFound [] 0, v1_doc [])),
      fe_privilegesV1 = (\<lambda>_. [])\<rparr>"

definition storage_without_users :: fetch_env where
  "storage_without_users = (storage_with [])\<lparr>fe_privilegeDocumentV1 := (\<lambda>_ _. (Status UserNotFound [] 0, v1_doc []))\<rparr>"

definition alice :: user_name where "alice = UserName ''a'' ''t''"
definition bob :: user_name where "bob = UserName ''b'' ''t''"
definition writer_role :: role_name where "writer_role = RoleName ''w'' ''t''"

text \<open>
  Thread 0 has fetched alice; thread 1 is fetching bob when thread 2 wants alice probed for another
  database; alice is then dropped and invalidated.
\<close>

definition stale_events :: "(nat \<times> event) list" where
  "stale_events =
     [(0, Acquire alice), (0, Finish (storage_with [writer_role]) 1), (1, Acquire bob), (2, Acquire_V1 alice ''o''),
      (0, Invalidate_user alice), (1, Finish storage_without_users 2), (2, Resume_wait), (2, Finish storage_without_users 3),
      (1, Acquire alice)]"

lemma stale_run:
  "case run_events stale_events (cache_start [] 3) of
     Some (Inr s) \<Rightarrow> map_of (am_userCache (cs_manager s)) (un_fullName alice) = Some 3 \<and>
       cs_refs s 1 = 1 \<and> cs_refs s 2 = 0 \<and> cs_refs s 3 = 2 \<and> list_all Option.is_none (cs_threads s) \<and>
       (case am_users (cs_manager s) 3 of Some u \<Rightarrow> us_isValid u \<and> hasRole writer_role u | None \<Rightarrow> False) \<and>
       (case am_users (cs_manager s) 1 of Some u \<Rightarrow> \<not> us_isValid u | None \<Rightarrow> False)
   | _ \<Rightarrow> False"
  by code_simp

lemma stale_run_state:
  "\<exists>s u v. run_events stale_events (cache_start [] 3) = Some (Inr s) \<and>
     map_of (am_userCache (cs_manager s)) (un_fullName alice) = Some 3 \<and> cs_refs s 3 = 2 \<and>
     am_users (cs_manager s) 3 = Some u \<and> us_isValid u \<and> hasRole writer_role u \<and>
     am_users (cs_manager s) 1 = Some v \<and> \<not> us_isValid v"
  using stale_run by (auto split: option.splits sum.splits)

text \<open>
  (C34) An invalidation can be missed. \<open>acquireV1UserProbedForDb\<close> copies the cached user, waits for the fetch
  phase of another thread, and records the generation of the cache only afterwards: here alice is removed from
  the storage and invalidated while thread 2 waits with its copy, and the copy, with the role
  alice no longer has, enters the cache as a valid user; the next thread that acquires alice
  is given it.
\<close>

theorem stale_clone_cached:
  "\<exists>s u. run_events stale_events (cache_start [] 3) = Some (Inr s) \<and>
     map_of (am_userCache (cs_manager s)) (un_fullName alice) = Some 3 \<and>
     am_users (cs_manager s) 3 = Some u \<and> us_isValid u \<and> hasRole writer_role u"
  using stale_run_state by blast

lemma stale_state_reachable: "run_events stale_events (cache_start [] 3) = Some (Inr s) \<Longrightarrow> cache_reachable [] 3 s"
  by (erule run_events_reachable [OF cache_init]) (simp add: stale_events_def cache_start_def)

theorem user_cache_safe_witness:
  "\<exists>s u. run_events stale_events (cache_start [] 3) = Some (Inr s) \<and> am_users (cs_manager s) 3 = Some u \<and> unat (us_refCount u) = 2 \<and>
     (\<forall>t ev r. cache_step t ev s = Some r \<longrightarrow> (\<exists>s'. r = Inr s'))"
proof -
  from stale_run_state obtain s u where s: "run_events stale_events (cache_start [] 3) = Some (Inr s)" "cs_refs s 3 = 2"
    "am_users (cs_manager s) 3 = Some u" by (elim exE conjE) (rule that; assumption)
  note safe = user_cache_safe [OF stale_state_reachable [OF s(1)]]
  have "unat (us_refCount u) = cs_refs s 3"
    using safe [THEN conjunct2, THEN conjunct2, THEN conjunct1, rule_format, of 3 u] s(3) by (simp add: internal_ptr_def)
  with safe s show ?thesis by auto
qed

lemma step_result: "(case x of Some (Inr s) \<Rightarrow> P s | _ \<Rightarrow> False) \<longleftrightarrow> (\<exists>s. x = Some (Inr s) \<and> P s)"
  by (auto split: option.splits sum.splits)

text \<open>Thread 1 invalidates alice while thread 0 fetches her.\<close>

lemma late_run:
  "case cache_step 0 (Acquire alice) (cache_start [] 2) of
     Some (Inr s1) \<Rightarrow> \<not> in_fetch (cs_threads (cache_start [] 2) ! 0) \<and> in_fetch (cs_threads s1 ! 0) \<and>
       (case cache_step 1 (Invalidate_user alice) s1 of
          Some (Inr s2) \<Rightarrow> am_users (cs_manager s2) 1 = None \<and> cs_refs s2 1 = 0 \<and>
            (case cache_step 0 (Finish (storage_with [writer_role]) 1) s2 of
               Some (Inr s3) \<Rightarrow> am_users (cs_manager s3) 1 \<noteq> None
             | _ \<Rightarrow> False)
        | _ \<Rightarrow> False)
   | _ \<Rightarrow> False"
  by code_simp

theorem invalidation_exact_witness:
  "\<exists>s1 s2 s3 u. cache_step 0 (Acquire alice) (cache_start [] 2) = Some (Inr s1) \<and> cache_step 1 (Invalidate_user alice) s1 = Some (Inr s2) \<and>
     cache_step 0 (Finish (storage_with [writer_role]) 1) s2 = Some (Inr s3) \<and> am_users (cs_manager s3) 1 = Some u \<and>
     \<not> us_isValid u \<and> am_userCache (cs_manager s3) = am_userCache (cs_manager s2)"
proof -
  from late_run obtain s1 s2 s3 u where
    s1: "cache_step 0 (Acquire alice) (cache_start [] 2) = Some (Inr s1)" "\<not> in_fetch (cs_threads (cache_start [] 2) ! 0)"
      "in_fetch (cs_threads s1 ! 0)" and
    s2: "cache_step 1 (Invalidate_user alice) s1 = Some (Inr s2)" "am_users (cs_manager s2) 1 = None" and
    s3: "cache_step 0 (Finish (storage_with [writer_role]) 1) s2 = Some (Inr s3)" "am_users (cs_manager s3) 1 = Some u"
    unfolding step_result by blast
  have "cs_refs s2 p \<le> 2" for p
    using cache_step_refs [OF s1(1), of p] cache_step_refs [OF s2(1), of p] by (simp add: cache_start_def)
  then have "cs_refs s2 p < 2 ^ 32" for p by (rule le_less_trans) simp
  then have "refs_bounded (cs_refs s2)" by (simp add: refs_bounded_def)
  from others_next [OF others_none _ s2(1) this] have run: "others_run 0 s1 1 s2" by (simp add: invalidating_def)
  have k: "(1 :: nat) < 2 ^ 64" by simp
  note late = invalidation_exact [OF cache_init, of "[]" 2, THEN conjunct2, THEN conjunct2, THEN conjunct2, THEN spec, THEN spec,
      THEN spec, THEN spec, THEN spec, THEN spec, THEN spec, THEN spec, THEN mp, OF conjI [OF s1(2) conjI [OF s1(1) conjI [OF s1(3)
      conjI [OF run conjI [OF k s3(1)]]]]]]
  have "\<not> us_isValid u" using late [THEN conjunct1, rule_format, OF s2(2) s3(2)] by simp
  moreover have "am_userCache (cs_manager s3) = am_userCache (cs_manager s2)" using late [THEN conjunct2] by simp
  ultimately show ?thesis using s1(1) s2(1) s3 by blast
qed


text \<open>Thread 1 has waited while thread 0 fetched alice.\<close>

definition waiting_events :: "(nat \<times> event) list" where
  "waiting_events = [(0, Acquire alice), (1, Acquire bob), (0, Finish (storage_with []) 1)]"

lemma waiting_run:
  "case run_events waiting_events (cache_start [] 2) of
     Some (Inr s) \<Rightarrow> (case cs_threads s ! 1 of Some pd \<Rightarrow> \<not> fetching pd | None \<Rightarrow> False) \<and>
       \<not> am_isFetchPhaseBusy (cs_manager s) \<and> 1 < length (cs_threads s)
   | _ \<Rightarrow> False"
  by code_simp

theorem user_cache_progress_witness:
  "\<exists>s s' pd. run_events waiting_events (cache_start [] 2) = Some (Inr s) \<and> cs_threads s ! 1 = Some pd \<and> \<not> fetching pd \<and>
     1 \<notin> set (am_fetchPhaseIsReady (cs_manager s)) \<and> cache_step 1 Resume_wait s = Some (Inr s')"
proof -
  from waiting_run obtain s pd where s: "run_events waiting_events (cache_start [] 2) = Some (Inr s)" "cs_threads s ! 1 = Some pd"
    "\<not> fetching pd" "\<not> am_isFetchPhaseBusy (cs_manager s)" "1 < length (cs_threads s)"
    unfolding step_result by (auto split: option.splits)
  have "cache_reachable [] 2 s"
    by (rule run_events_reachable [OF cache_init s(1)]) (simp add: waiting_events_def cache_start_def)
  from user_cache_progress [OF this s(5,2)] s show ?thesis by auto
qed

end
