(* ===== verification/Authz_World.thy ===== *)
theory Authz_World
  imports Authz_Cache_Safety
begin

text \<open>
  A session (\<open>src/mongo/db/auth/authorization_session.cpp\<close>) over the user cache, among other threads that
  acquire, release and invalidate users: the cache provides what the locale \<open>user_manager\<close> of \<open>Authz_References\<close> asks for,
  and the references of the session, those of the others and the leaked ones add up.
\<close>

subsection \<open>The manager as the sessions see it\<close>

text \<open>
  The process between the operations of its threads: the manager and the address
  of its next object, or \<open>Inl\<close> once it has aborted. An acquisition runs from its beginning to its end;
  during its fetch phase, outside the mutex, other threads invalidate users (\<open>invs\<close>).
\<close>

type_synonym lone_manager = "(authz_manager \<times> user_ptr) result"

datatype invalidation = Of_user user_name | Of_db string | Of_all

fun run_invalidation :: "invalidation \<Rightarrow> authz_manager \<Rightarrow> authz_manager result" where
  "run_invalidation (Of_user n) m = invalidateUserByName n m"
| "run_invalidation (Of_db d) m = invalidateUsersFromDB d m"
| "run_invalidation Of_all m = invalidateUserCache m"

definition acquire_alone :: "fetch_env \<Rightarrow> invalidation list \<Rightarrow> (authz_manager \<Rightarrow> (acquire_outcome \<times> authz_manager) result) \<Rightarrow> lone_manager \<Rightarrow> ((status \<times> user_ptr) \<times> authz_manager \<times> user_ptr) result" where
  "acquire_alone env invs enter lone =
     bindE lone (\<lambda>(m, a).
     bindE (enter m) (\<lambda>(out, m).
       case out of
         Returned st p \<Rightarrow> Inr ((st, p), m, a)
       | Version v \<Rightarrow> Inl UndefinedBehaviour
       | Pending pd \<Rightarrow>
           bindE (foldE run_invalidation invs m) (\<lambda>m.
             case finish_pending env a pd m of
               Some (Inr (Returned st p, m)) \<Rightarrow> Inr ((st, p), m, a + 1)
             | Some (Inl e) \<Rightarrow> Inl e
             | _ \<Rightarrow> Inl UndefinedBehaviour)))"

definition outcome_pair :: "((status \<times> user_ptr) \<times> authz_manager \<times> user_ptr) result \<Rightarrow> (status \<times> user_ptr) \<times> lone_manager" where
  "outcome_pair r = (case r of Inl e \<Rightarrow> ((Status_OK, internal_ptr), Inl e) | Inr (sp, ma) \<Rightarrow> (sp, Inr ma))"

definition user_at :: "lone_manager \<Rightarrow> user_ptr \<Rightarrow> user" where
  "user_at lone p =
     (case lone of
        Inl _ \<Rightarrow> User internal_name
      | Inr (m, _) \<Rightarrow> (case am_users m p of None \<Rightarrow> User internal_name | Some u \<Rightarrow> u))"

definition manager_ops :: "fetch_env \<Rightarrow> invalidation list \<Rightarrow> lone_manager authz_ops" where
  "manager_ops env invs =
     \<lparr>ao_user = user_at,
      ao_acquireUser = (\<lambda>n lone. outcome_pair (acquire_alone env invs (acquireUser_enter n) lone)),
      ao_acquireV1UserProbedForDb = (\<lambda>n d lone. outcome_pair (acquire_alone env invs (acquireV1_enter n d) lone)),
      ao_releaseUser = (\<lambda>p lone. bindE lone (\<lambda>(m, a). bindE (releaseUser p m) (\<lambda>m. Inr (m, a)))),
      ao_internalUser = internal_ptr\<rparr>"

definition lone_ok :: "lone_manager \<Rightarrow> (user_ptr \<Rightarrow> nat) \<Rightarrow> bool" where
  "lone_ok lone refs \<longleftrightarrow> (\<exists>m a. lone = Inr (m, a) \<and> cache_ok m \<and> refs_ok m refs \<and> \<not> am_isFetchPhaseBusy m \<and>
     internal_ptr < a \<and> (\<forall>q \<ge> a. am_users m q = None))"

subsubsection \<open>Which objects exist after an acquisition\<close>

definition same_objects :: "authz_manager \<Rightarrow> authz_manager \<Rightarrow> bool" where
  "same_objects m m' \<longleftrightarrow> (\<forall>q. am_users m' q = None \<longleftrightarrow> am_users m q = None)"

lemma same_objects_enter:
  "acquireUser_enter n m = Inr (out, m') \<Longrightarrow> same_objects m m'"
  "acquireV1_enter n d m = Inr (out, m') \<Longrightarrow> same_objects m m'"
  by (auto simp: same_objects_def acquireUser_enter_def acquireV1_enter_def begin_V1_def beginFetchPhase_def update_user_def
      bindE_eq_Inr_iff split: if_splits option.splits)

lemma run_invalidations_ok:
  assumes "cache_ok m" "refs_ok m refs"
  shows "\<exists>m'. foldE run_invalidation invs m = Inr m' \<and> cache_ok m' \<and> refs_ok m' refs \<and> shrinks m m' \<and> same_objects m m'"
proof (rule foldE_invariant)
  show "cache_ok m \<and> refs_ok m refs \<and> shrinks m m \<and> same_objects m m" using assms by (simp add: shrinks_def same_objects_def)
next
  fix i x assume x: "cache_ok x \<and> refs_ok x refs \<and> shrinks m x \<and> same_objects m x"
  then have c: "cache_ok x" "refs_ok x refs" by simp_all
  have marked: "am_users x' = marked H (am_users x) \<Longrightarrow> same_objects x x'" for x' H by (auto simp: same_objects_def marked_def)
  have "\<exists>x'. run_invalidation i x = Inr x' \<and> cache_ok x' \<and> refs_ok x' refs \<and> shrinks x x' \<and> same_objects x x'"
    using invalidateUserByName_ok [OF c] invalidateUsersFromDB_ok [OF c] invalidateUserCache_ok [OF c]
      invalidateUserByName_users [OF c(1)] invalidateUsersFromDB_users [OF c(1)] invalidateUserCache_users [OF c(1)] marked
    by (cases i) (simp; blast)+
  with x show "\<exists>x'. run_invalidation i x = Inr x' \<and> cache_ok x' \<and> refs_ok x' refs \<and> shrinks m x' \<and> same_objects m x'"
    by (auto simp: shrinks_def same_objects_def)
qed

lemma shrinks_pending: "shrinks m m' \<Longrightarrow> pending_ok m pd \<Longrightarrow> pending_ok m' pd"
  by (cases pd) (simp_all add: shrinks_def)

lemma same_objects_release: "releaseUser p m = Inr m' \<Longrightarrow> am_users m q = None \<Longrightarrow> am_users m' q = None"
  by (auto simp: releaseUser_def deref_def Let_def split: if_splits option.splits)

text \<open>Alone, an acquisition never waits.\<close>

lemma enter_not_waiting:
  "\<not> am_isFetchPhaseBusy m \<Longrightarrow> acquireUser_enter n m = Inr (out, m') \<Longrightarrow> (\<exists>st p. out = Returned st p) \<or> in_fetch (outcome_thread out)"
  "\<not> am_isFetchPhaseBusy m \<Longrightarrow> acquireV1_enter n d m = Inr (out, m') \<Longrightarrow> (\<exists>st p. out = Returned st p) \<or> in_fetch (outcome_thread out)"
  by (auto simp: acquireUser_enter_def acquireV1_enter_def begin_V1_def beginFetchPhase_def bindE_eq_Inr_iff
      split: if_splits option.splits)

lemma enter_not_version:
  "acquireUser_enter n m = Inr (Pending (Fetch_version g), m') \<Longrightarrow> False"
  "acquireV1_enter n d m = Inr (Pending (Fetch_version g), m') \<Longrightarrow> False"
  by (auto simp: acquireUser_enter_def acquireV1_enter_def begin_V1_def beginFetchPhase_def bindE_eq_Inr_iff
      split: if_splits option.splits)

lemma acquire_alone_ok:
  assumes lone: "lone_ok lone refs"
    and bounded: "refs_bounded refs"
    and enter: "\<And>m. cache_ok m \<Longrightarrow> refs_ok m refs \<Longrightarrow> refs_bounded refs \<Longrightarrow> \<exists>om. enter m = Inr om \<and> entered m refs om"
    and objects: "\<And>m out m'. enter m = Inr (out, m') \<Longrightarrow> same_objects m m'"
    and moving: "\<And>m out m'. \<not> am_isFetchPhaseBusy m \<Longrightarrow> enter m = Inr (out, m') \<Longrightarrow> (\<exists>st p. out = Returned st p) \<or> in_fetch (outcome_thread out)"
    and users: "\<And>m g m'. enter m \<noteq> Inr (Pending (Fetch_version g), m')"
  shows "\<exists>st p ma. acquire_alone env invs enter lone = Inr ((st, p), ma) \<and> lone_ok (Inr ma) (if isOK st then refs(p := refs p + 1) else refs)"
proof -
  from lone obtain m a where m: "lone = Inr (m, a)" "cache_ok m" "refs_ok m refs" "\<not> am_isFetchPhaseBusy m"
    "internal_ptr < a" "\<forall>q \<ge> a. am_users m q = None" by (auto simp: lone_ok_def)
  from enter [OF m(2,3) bounded] obtain out m1 where e: "enter m = Inr (out, m1)" "entered m refs (out, m1)" by auto
  have free: "\<forall>q \<ge> a. am_users m1 q = None" using objects [OF e(1)] m(6) by (simp add: same_objects_def)
  from moving [OF m(4) e(1)] show ?thesis
  proof
    assume "\<exists>st p. out = Returned st p"
    then obtain st p where "out = Returned st p" by blast
    with e m free show ?thesis by (auto simp: acquire_alone_def entered_def lone_ok_def)
  next
    assume f: "in_fetch (outcome_thread out)"
    then obtain pd where pd: "out = Pending pd" "fetching pd" by (cases out) auto
    from e(2) pd have m0: "cache_ok m1" "refs_ok m1 refs" "pending_ok m1 pd" "am_isFetchPhaseBusy m1"
      using pending_ok_cong [of m m1 pd] by (auto simp: entered_def)
    from run_invalidations_ok [OF m0(1,2), of invs] obtain mi where mi: "foldE run_invalidation invs m1 = Inr mi"
      "cache_ok mi" "refs_ok mi refs" "shrinks m1 mi" "same_objects m1 mi" by blast
    have ok: "pending_ok mi pd" "am_isFetchPhaseBusy mi" using shrinks_pending [OF mi(4) m0(3)] mi(4) m0(4) by (simp_all add: shrinks_def)
    from finish_defined [OF pd(2)] obtain r where r: "finish_pending env a pd mi = Some r" by blast
    have new: "am_users mi a = None" "a \<noteq> internal_ptr" and free': "\<forall>q \<ge> a. am_users mi q = None"
      using free m(5) mi(5) by (auto simp: same_objects_def)
    from finish_pending_ok [OF mi(2,3) ok(1) r ok(2) new] obtain out2 m2 where
      f2: "r = Inr (out2, m2)" "finished refs (out2, m2)" by auto
    have "\<exists>st p. out2 = Returned st p"
    proof (cases out2)
      case (Version v)
      with r f2(1) pd users [of m] e(1) show ?thesis
        by (cases pd) (auto simp: acquireUser_finish_def acquireV1_finish_def bindE_eq_Inr_iff Let_def
            split: prod.splits if_splits option.splits v1_fetched.splits)
    next
      case (Pending pd')
      with f2(2) show ?thesis by (simp add: finished_def)
    qed simp
    then obtain st p where st: "out2 = Returned st p" by blast
    have "fetch_effect (fetch_generation pd = am_cacheGeneration mi) a mi m2"
      using finish_pending_effect [OF mi(2) ok(1) new(1)] r f2(1) by blast
    with free' have "\<forall>q \<ge> a + 1. am_users m2 q = None" by (simp add: fetch_effect_def)
    with f2 st m(5) have "lone_ok (Inr (m2, a + 1)) (if isOK st then refs(p := refs p + 1) else refs)"
      by (simp add: finished_def lone_ok_def)
    moreover have "acquire_alone env invs enter lone = Inr ((st, p), m2, a + 1)"
      using m(1) e(1) pd(1) mi(1) r f2(1) st by (simp add: acquire_alone_def)
    ultimately show ?thesis by blast
  qed
qed

lemma bounded_below: "(\<And>q. refs q < 2 ^ 32) \<Longrightarrow> refs_bounded refs"
  by (simp add: refs_bounded_def)

interpretation user_cache: user_manager "manager_ops env invs" lone_ok "2 ^ 32" for env invs
proof
  fix m refs name st p m'
  assume ok: "lone_ok m refs" and small: "\<And>q. refs q < 2 ^ 32" and a: "ao_acquireUser (manager_ops env invs) name m = ((st, p), m')"
  have "\<exists>st p ma. acquire_alone env invs (acquireUser_enter name) m = Inr ((st, p), ma) \<and> lone_ok (Inr ma) (if isOK st then refs(p := refs p + 1) else refs)"
    by (rule acquire_alone_ok [OF ok bounded_below [OF small]]) (fact acquireUser_enter_ok | erule same_objects_enter(1) | erule (1) enter_not_waiting(1) | use enter_not_version(1) in blast)+
  with a
  show "lone_ok m' (if isOK st then refs(p := refs p + 1) else refs)"
    by (auto simp: manager_ops_def outcome_pair_def)
next
  fix m refs name db st p m'
  assume ok: "lone_ok m refs" and small: "\<And>q. refs q < 2 ^ 32" and a: "ao_acquireV1UserProbedForDb (manager_ops env invs) name db m = ((st, p), m')"
  have "\<exists>st p ma. acquire_alone env invs (acquireV1_enter name db) m = Inr ((st, p), ma) \<and> lone_ok (Inr ma) (if isOK st then refs(p := refs p + 1) else refs)"
    by (rule acquire_alone_ok [OF ok bounded_below [OF small]]) (erule (1) acquireV1_enter_ok | erule same_objects_enter(2) | erule (1) enter_not_waiting(2) | use enter_not_version(2) in blast)+
  with a
  show "lone_ok m' (if isOK st then refs(p := refs p + 1) else refs)"
    by (auto simp: manager_ops_def outcome_pair_def)
next
  fix m refs p assume ok: "lone_ok m refs" "0 < refs p" "refs p \<le> 2 ^ 32"
  then obtain x a where x: "m = Inr (x, a)" "cache_ok x" "refs_ok x refs" "\<not> am_isFetchPhaseBusy x" "internal_ptr < a"
    "\<forall>q \<ge> a. am_users x q = None" by (auto simp: lone_ok_def)
  from releaseUser_ok [OF x(2,3) ok(2,3)] obtain x' where x': "releaseUser p x = Inr x'" "cache_ok x'"
    "refs_ok x' (refs(p := refs p - 1))" "shrinks x x'" by blast
  from x' x same_objects_release [OF x'(1)] show "lone_ok (ao_releaseUser (manager_ops env invs) p m) (refs(p := refs p - 1))"
    by (auto simp: manager_ops_def lone_ok_def shrinks_def)
next
  fix m refs k assume "lone_ok m refs"
  then show "lone_ok m (refs(ao_internalUser (manager_ops env invs) := k))" by (auto simp: lone_ok_def manager_ops_def)
qed

subsection \<open>A session and the references it holds\<close>

text \<open>
  The session, the references that other threads hold, and those that nobody holds any longer and nobody has given back.
\<close>

record session_world =
  sw_session :: "lone_manager session"
  sw_others :: "user_ptr \<Rightarrow> nat"
  sw_leaked :: "user_ptr \<Rightarrow> nat"

datatype world_event =
    Add_user user_name
  | Logout_db string
  | Check_privilege bool privilege
  | Refresh_users
  | Grant_internal
  | Other_acquire user_name
  | Other_acquire_V1 user_name string
  | Other_release user_ptr
  | Other_invalidate invalidation

text \<open>The process goes on if it has not aborted.\<close>

definition settled :: "lone_manager session \<Rightarrow> session_world \<Rightarrow> session_world result" where
  "settled ss w = bindE (ss_manager ss) (\<lambda>_. Inr (w\<lparr>sw_session := ss\<rparr>))"

definition other_acquired :: "(status \<times> user_ptr) \<times> lone_manager \<Rightarrow> session_world \<Rightarrow> session_world result" where
  "other_acquired r w =
     (case r of ((st, p), lone) \<Rightarrow>
        settled ((sw_session w)\<lparr>ss_manager := lone\<rparr>)
          (if isOK st then w\<lparr>sw_others := (sw_others w)(p := sw_others w p + 1)\<rparr> else w))"

text \<open>
  One call of the session, or one operation of another thread between two calls; other threads release only what they
  hold. \<open>None\<close>: a target for which the patterns to search for cannot be built.
\<close>

definition world_step :: "fetch_env \<Rightarrow> invalidation list \<Rightarrow> world_event \<Rightarrow> session_world \<Rightarrow> session_world result option" where
  "world_step env invs ev w =
     (let ops = manager_ops env invs; ss = sw_session w
      in case ev of
           Add_user n \<Rightarrow> Some (bindE (addAndAuthorizeUser ops n ss) (\<lambda>(st, ss). settled ss w))
         | Logout_db d \<Rightarrow> Some (bindE (logoutDatabase ops d ss) (\<lambda>ss. settled ss w))
         | Check_privilege ignore p \<Rightarrow>
             (case buildResourceSearchList (pv_resource p) of
                Inl _ \<Rightarrow> None
              | Inr _ \<Rightarrow> Some (bindE (isAuthorizedForPrivilege ops ignore p ss) (\<lambda>(b, ss). settled ss w)))
         | Refresh_users \<Rightarrow> Some (bindE (refreshUserInfoAsNeeded ops ss) (\<lambda>ss. settled ss w))
         | Grant_internal \<Rightarrow>
             Some (bindE (grantInternalAuthorization ops ss) (\<lambda>ss'.
               settled ss' (w\<lparr>sw_leaked := add_ref (replaced_by_internal ops ss) (sw_leaked w)\<rparr>)))
         | Other_acquire n \<Rightarrow> Some (other_acquired (ao_acquireUser ops n (ss_manager ss)) w)
         | Other_acquire_V1 n d \<Rightarrow> Some (other_acquired (ao_acquireV1UserProbedForDb ops n d (ss_manager ss)) w)
         | Other_release p \<Rightarrow>
             if sw_others w p = 0 then None
             else Some (settled (ss\<lparr>ss_manager := ao_releaseUser ops p (ss_manager ss)\<rparr>)
                    (w\<lparr>sw_others := (sw_others w)(p := sw_others w p - 1)\<rparr>))
         | Other_invalidate i \<Rightarrow>
             Some (settled (ss\<lparr>ss_manager := bindE (ss_manager ss) (\<lambda>(m, a). bindE (run_invalidation i m) (\<lambda>m. Inr (m, a)))\<rparr>) w))"

definition other_refs :: "session_world \<Rightarrow> user_ptr \<Rightarrow> nat" where
  "other_refs w p = sw_others w p + sw_leaked w p"

definition world_start :: "privilege list \<Rightarrow> session_world" where
  "world_start universal =
     \<lparr>sw_session = AuthorizationSession (Inr (AuthorizationManager universal, 1)), sw_others = (\<lambda>_. 0), sw_leaked = (\<lambda>_. 0)\<rparr>"

text \<open>
  The worlds reached with fewer than \<open>2 ^ 32\<close> references to any user; \<open>internal\<close>: whether \<open>grantInternalAuthorization\<close> has been
  called.
\<close>

inductive world_reachable :: "privilege list \<Rightarrow> bool \<Rightarrow> session_world \<Rightarrow> bool" for universal where
  world_init: "world_reachable universal False (world_start universal)"
| world_next: "world_reachable universal internal w \<Longrightarrow> world_step env invs ev w = Some (Inr w') \<Longrightarrow>
    room_for (2 ^ 32) (other_refs w') (uset_contents (ss_users (sw_session w'))) \<Longrightarrow>
    world_reachable universal (internal \<or> ev = Grant_internal) w'"

abbreviation world_owning :: "nat \<Rightarrow> session_world \<Rightarrow> bool" where
  "world_owning limit w \<equiv> owning lone_ok limit (other_refs w) (sw_session w)"

lemma settled_owning:
  assumes "owning lone_ok limit (other_refs w) ss"
  shows "\<exists>w'. settled ss w = Inr w' \<and> world_owning limit w'"
  using assms by (auto simp: settled_def owning_def lone_ok_def other_refs_def [abs_def])

lemma other_refs_update:
  "other_refs (w\<lparr>sw_session := ss\<rparr>) = other_refs w"
  "other_refs (w\<lparr>sw_others := (sw_others w)(p := sw_others w p + 1)\<rparr>) = (other_refs w)(p := other_refs w p + 1)"
  "sw_others w p \<noteq> 0 \<Longrightarrow> other_refs (w\<lparr>sw_others := (sw_others w)(p := sw_others w p - 1)\<rparr>) = (other_refs w)(p := other_refs w p - 1)"
  "other_refs (w\<lparr>sw_leaked := add_ref q (sw_leaked w)\<rparr>) = add_ref q (other_refs w)"
  by (auto simp: other_refs_def add_ref_def fun_eq_iff split: option.splits)

lemma refs_of_others:
  "refs_of (ext(p := ext p + 1)) ps = (refs_of ext ps)(p := refs_of ext ps p + 1)"
  "ext p \<noteq> 0 \<Longrightarrow> refs_of (ext(p := ext p - 1)) ps = (refs_of ext ps)(p := refs_of ext ps p - 1)"
  by (auto simp: refs_of_def fun_eq_iff)

lemma room_for_others:
  "room_for limit ext ps \<Longrightarrow> room_for (Suc limit) (ext(p := ext p + 1)) ps"
  "room_for limit ext ps \<Longrightarrow> room_for limit (ext(p := ext p - 1)) ps"
  by (auto simp: room_for_def less_SucI intro: le_less_trans [OF add_le_mono1 [OF diff_le_self]])

text \<open>Operations of other threads change the manager and their own references only.\<close>

lemma other_acquired_owning:
  assumes "world_owning limit w"
    "lone_ok lone (if isOK st then (refs_of (other_refs w) (uset_contents (ss_users (sw_session w))))
       (p := refs_of (other_refs w) (uset_contents (ss_users (sw_session w))) p + 1)
     else refs_of (other_refs w) (uset_contents (ss_users (sw_session w))))"
  shows "\<exists>w'. other_acquired ((st, p), lone) w = Inr w' \<and> world_owning (Suc limit) w'"
proof -
  note o = owningD [OF assms(1)]
  let ?w = "if isOK st then w\<lparr>sw_others := (sw_others w)(p := sw_others w p + 1)\<rparr> else w"
  have "owning lone_ok (Suc limit) (other_refs ?w) ((sw_session w)\<lparr>ss_manager := lone\<rparr>)"
  proof (cases "isOK st")
    case True
    with assms(2) have "lone_ok lone (refs_of ((other_refs w)(p := other_refs w p + 1)) (uset_contents (ss_users (sw_session w))))"
      unfolding refs_of_others(1) by simp
    with True o(1) room_for_others(1) [OF o(3), of p] show ?thesis unfolding if_P [OF True] other_refs_update(2) owning_def by simp
  next
    case False
    with assms(2) o(1,3) show ?thesis by (simp add: owning_def room_for_Suc)
  qed
  from settled_owning [OF this] show ?thesis by (simp add: other_acquired_def)
qed

lemma other_release_owning:
  assumes "world_owning (2 ^ 32) w" "sw_others w p \<noteq> 0"
  shows "\<exists>w'. settled ((sw_session w)\<lparr>ss_manager := ao_releaseUser (manager_ops env invs) p (ss_manager (sw_session w))\<rparr>)
      (w\<lparr>sw_others := (sw_others w)(p := sw_others w p - 1)\<rparr>) = Inr w' \<and> world_owning (2 ^ 32) w'"
proof -
  note o = owningD [OF assms(1)]
  let ?refs = "refs_of (other_refs w) (uset_contents (ss_users (sw_session w)))"
  have p: "other_refs w p \<noteq> 0" using assms(2) by (simp add: other_refs_def)
  then have "0 < ?refs p" "?refs p \<le> 2 ^ 32" using refs_of_room [OF o(3), of p] by (simp_all add: refs_of_def)
  from user_cache.release [OF o(2) this, of env invs] refs_of_others(2) [of "other_refs w" p, OF p]
  have "lone_ok (ao_releaseUser (manager_ops env invs) p (ss_manager (sw_session w)))
      (refs_of ((other_refs w)(p := other_refs w p - 1)) (uset_contents (ss_users (sw_session w))))" by metis
  with o(1) room_for_others(2) [OF o(3), of p]
  have "owning lone_ok (2 ^ 32) (other_refs (w\<lparr>sw_others := (sw_others w)(p := sw_others w p - 1)\<rparr>))
      ((sw_session w)\<lparr>ss_manager := ao_releaseUser (manager_ops env invs) p (ss_manager (sw_session w))\<rparr>)"
    unfolding other_refs_update(3) [of w p, OF assms(2)] owning_def by simp
  from settled_owning [OF this] show ?thesis .
qed

lemma other_invalidate_owning:
  assumes "world_owning limit w"
  shows "\<exists>w'. settled ((sw_session w)\<lparr>ss_manager := bindE (ss_manager (sw_session w)) (\<lambda>(m, a). bindE (run_invalidation i m) (\<lambda>m. Inr (m, a)))\<rparr>) w =
      Inr w' \<and> world_owning limit w'"
proof -
  note o = owningD [OF assms]
  let ?refs = "refs_of (other_refs w) (uset_contents (ss_users (sw_session w)))"
  from o(2) obtain m a where m: "ss_manager (sw_session w) = Inr (m, a)" "cache_ok m" "refs_ok m ?refs" "\<not> am_isFetchPhaseBusy m"
    "internal_ptr < a" "\<forall>q \<ge> a. am_users m q = None" by (auto simp: lone_ok_def)
  from run_invalidations_ok [OF m(2,3), of "[i]"] obtain m' where m': "run_invalidation i m = Inr m'" "cache_ok m'" "refs_ok m' ?refs"
    "shrinks m m'" "same_objects m m'" by (auto simp: bindE_eq_Inr_iff)
  have "lone_ok (Inr (m', a)) ?refs" using m m' by (auto simp: lone_ok_def shrinks_def same_objects_def)
  with o(1,3) m(1) m'(1) have "owning lone_ok limit (other_refs w)
      ((sw_session w)\<lparr>ss_manager := bindE (ss_manager (sw_session w)) (\<lambda>(m, a). bindE (run_invalidation i m) (\<lambda>m. Inr (m, a)))\<rparr>)"
    by (simp add: owning_def)
  from settled_owning [OF this] show ?thesis .
qed

lemma world_step_ok:
  assumes "world_owning (2 ^ 32) w" "world_step env invs ev w = Some r"
  shows "\<exists>w'. r = Inr w' \<and> world_owning (Suc (2 ^ 32)) w'"
proof -
  note o = owningD [OF assms(1)] and set = settled_owning [OF owning_Suc]
  note acq = refs_of_room [OF o(3)]
  show ?thesis
  proof (cases ev)
    case (Add_user n)
    with user_cache.addAndAuthorizeUser_owning [OF assms(1), of env invs n] settled_owning assms(2) show ?thesis
      by (fastforce simp: world_step_def Let_def)
  next
    case (Logout_db d)
    with user_cache.logoutDatabase_owning [OF assms(1), of env invs d] set assms(2) show ?thesis
      by (fastforce simp: world_step_def Let_def)
  next
    case (Check_privilege ignore q)
    with assms(2) obtain l where "buildResourceSearchList (pv_resource q) = Inr l" by (auto simp: world_step_def Let_def split: sum.splits)
    with Check_privilege user_cache.isAuthorizedForPrivilege_owning [OF assms(1) this, of env invs ignore] set assms(2) show ?thesis
      by (fastforce simp: world_step_def Let_def)
  next
    case Refresh_users
    with user_cache.refresh_owning [OF assms(1), of env invs] set assms(2) show ?thesis
      by (fastforce simp: world_step_def Let_def)
  next
    case Grant_internal
    with user_cache.grantInternalAuthorization_owning [OF assms(1), of env invs] settled_owning assms(2) show ?thesis
      by (fastforce simp: world_step_def Let_def other_refs_update(4) [symmetric])
  next
    case (Other_acquire n)
    obtain st p lone where a: "ao_acquireUser (manager_ops env invs) n (ss_manager (sw_session w)) = ((st, p), lone)" by (metis surj_pair)
    from other_acquired_owning [OF assms(1) user_cache.acquire [OF o(2) acq a]] Other_acquire a assms(2) show ?thesis
      by (auto simp: world_step_def Let_def)
  next
    case (Other_acquire_V1 n d)
    obtain st p lone where a: "ao_acquireV1UserProbedForDb (manager_ops env invs) n d (ss_manager (sw_session w)) = ((st, p), lone)" by (metis surj_pair)
    from other_acquired_owning [OF assms(1) user_cache.acquireV1 [OF o(2) acq a]] Other_acquire_V1 a assms(2) show ?thesis
      by (auto simp: world_step_def Let_def)
  next
    case (Other_release p)
    with assms(2) have "sw_others w p \<noteq> 0" by (auto simp: world_step_def Let_def split: if_splits)
    from other_release_owning [OF assms(1) this, of env invs] Other_release this assms(2) owning_Suc show ?thesis
      by (fastforce simp: world_step_def Let_def)
  next
    case (Other_invalidate i)
    from other_invalidate_owning [OF assms(1), of i] Other_invalidate assms(2) owning_Suc show ?thesis
      by (fastforce simp: world_step_def Let_def)
  qed
qed

lemma world_start_owning: "world_owning (2 ^ 32) (world_start universal)"
proof -
  have "lone_ok (Inr (AuthorizationManager universal, 1)) (\<lambda>_. 0)"
    by (auto simp: lone_ok_def AuthorizationManager_def cache_ok_def refs_ok_def internal_ptr_def)
  moreover have "other_refs (world_start universal) = (\<lambda>_. 0)" "refs_of (\<lambda>_. 0) [] = (\<lambda>_. 0)"
    by (simp_all add: other_refs_def fun_eq_iff world_start_def refs_of_def)
  moreover have "uset_shape UserSet" "uset_contents UserSet = []"
    by (simp_all add: uset_shape_def UserSet_def uset_contents_def uset_range_def)
  ultimately show ?thesis by (simp add: owning_def world_start_def AuthorizationSession_def room_for_def)
qed

lemma world_step_leaked:
  assumes "world_step env invs ev w = Some (Inr w')" "ev \<noteq> Grant_internal"
  shows "sw_leaked w' = sw_leaked w"
  using assms
  by (cases ev) (auto simp: world_step_def Let_def settled_def other_acquired_def bindE_eq_Inr_iff split: sum.splits prod.splits if_splits)

lemma world_reachable_ok:
  "world_reachable universal internal w \<Longrightarrow> world_owning (2 ^ 32) w \<and> (\<not> internal \<longrightarrow> sw_leaked w = (\<lambda>_. 0))"
proof (induction rule: world_reachable.induct)
  case world_init
  show ?case using world_start_owning by (simp add: world_start_def)
next
  case (world_next internal w env invs ev w')
  with world_step_ok [of w env invs ev "Inr w'"] have "world_owning (Suc (2 ^ 32)) w'" by blast
  with world_next.hyps(3) have "world_owning (2 ^ 32) w'" by (simp add: owning_def)
  with world_next world_step_leaked [OF world_next.hyps(2)] show ?case by auto
qed

lemma owning_live:
  assumes "owning lone_ok limit ext ss" "p \<in> set (uset_contents (ss_users ss))"
  shows "\<exists>m a u. ss_manager ss = Inr (m, a) \<and> am_users m p = Some u"
proof -
  from assms(1) obtain m a where m: "ss_manager ss = Inr (m, a)" "cache_ok m" "refs_ok m (refs_of ext (uset_contents (ss_users ss)))"
    by (auto simp: owning_def lone_ok_def)
  have "0 < refs_of ext (uset_contents (ss_users ss)) p" using assms(2) by (auto simp: refs_of_def count_greater_zero_iff)
  then have "am_users m p \<noteq> None" using refs_okD(2) [OF m(3), of p] cache_okD(2) [OF m(2)] by (cases "p = internal_ptr") auto
  with m(1) show ?thesis by blast
qed

lemma destructor_leaves:
  assumes "world_owning (2 ^ 32) w"
  shows "\<exists>m a. release_users (manager_ops env invs) (sw_session w) = Inr (m, a) \<and>
    (\<forall>p. p \<noteq> internal_ptr \<longrightarrow> (am_users m p = None \<longleftrightarrow> other_refs w p = 0) \<and>
      (\<forall>u. am_users m p = Some u \<longrightarrow> unat (us_refCount u) = other_refs w p))"
proof -
  from user_cache.release_users_owning [OF owning_Suc [OF assms], of env invs] obtain m a where
    m: "release_users (manager_ops env invs) (sw_session w) = Inr (m, a)" "refs_ok m (other_refs w)" by (auto simp: lone_ok_def)
  have "other_refs w p < 2 ^ 32" for p
    using owningD(3) [OF assms] unfolding room_for_def by (metis add_lessD1)
  then have "unat (us_refCount u) = other_refs w p" if "p \<noteq> internal_ptr" "am_users m p = Some u" for p u
    using refs_okD(1) [OF m(2) that] by (simp add: unat_of_nat)
  moreover have "am_users m p = None \<longleftrightarrow> other_refs w p = 0" if "p \<noteq> internal_ptr" for p
    using refs_okD [OF m(2) that] by (cases "am_users m p") auto
  ultimately show ?thesis using m(1) by blast
qed

text \<open>
  (C32) A session over the user cache among other threads. Between the calls of the session the others acquire users, release what
  they hold and invalidate users, and they invalidate users during its fetch phases; the storage answers anything; fewer than \<open>2 ^ 32\<close>
  references to a user are out. Then the users of the session are alive, no call fails an assertion or aborts the
  process, and after the destructor the user objects have exactly the references of the others and the leaked ones as their counts, and are
  deleted when there are none. A reference is leaked only by
  \<open>grantInternalAuthorization\<close>, when the internal user takes the place of a user of the session: without such a call the session gives back
  exactly what it has taken.
\<close>

theorem session_references_safe:
  assumes "world_reachable universal internal w"
  shows "(\<forall>env invs ev r. world_step env invs ev w = Some r \<longrightarrow> (\<exists>w'. r = Inr w')) \<and>
    (\<forall>p \<in> set (uset_contents (ss_users (sw_session w))). \<exists>m a u. ss_manager (sw_session w) = Inr (m, a) \<and> am_users m p = Some u) \<and>
    (\<forall>env invs. \<exists>m a. release_users (manager_ops env invs) (sw_session w) = Inr (m, a) \<and>
      (\<forall>p. p \<noteq> internal_ptr \<longrightarrow> (am_users m p = None \<longleftrightarrow> sw_others w p + sw_leaked w p = 0) \<and>
        (\<forall>u. am_users m p = Some u \<longrightarrow> unat (us_refCount u) = sw_others w p + sw_leaked w p))) \<and>
    (\<not> internal \<longrightarrow> sw_leaked w = (\<lambda>_. 0))"
proof (intro conjI)
  from world_reachable_ok [OF assms] have own: "world_owning (2 ^ 32) w" and leak: "\<not> internal \<longrightarrow> sw_leaked w = (\<lambda>_. 0)" by blast+
  show "\<forall>env invs ev r. world_step env invs ev w = Some r \<longrightarrow> (\<exists>w'. r = Inr w')" using world_step_ok [OF own] by blast
  show "\<forall>p \<in> set (uset_contents (ss_users (sw_session w))). \<exists>m a u. ss_manager (sw_session w) = Inr (m, a) \<and> am_users m p = Some u"
    using owning_live [OF own] by blast
  show "\<forall>env invs. \<exists>m a. release_users (manager_ops env invs) (sw_session w) = Inr (m, a) \<and>
      (\<forall>p. p \<noteq> internal_ptr \<longrightarrow> (am_users m p = None \<longleftrightarrow> sw_others w p + sw_leaked w p = 0) \<and>
        (\<forall>u. am_users m p = Some u \<longrightarrow> unat (us_refCount u) = sw_others w p + sw_leaked w p))"
    using destructor_leaves [OF own] unfolding other_refs_def by blast
  show "\<not> internal \<longrightarrow> sw_leaked w = (\<lambda>_. 0)" by (rule leak)
qed

text \<open>The session logs in alice, another thread acquires her too and invalidates her.\<close>

lemma world_step_others:
  assumes "world_step env invs ev w = Some (Inr w')"
  shows "sw_others w' p \<le> sw_others w p + 1"
  using assms
  by (cases ev) (auto simp: world_step_def Let_def settled_def other_acquired_def bindE_eq_Inr_iff split: sum.splits prod.splits if_splits)

lemma world_next_small:
  assumes "world_reachable universal internal w" "world_step env invs ev w = Some (Inr w')" "ev \<noteq> Grant_internal"
    "\<forall>p. other_refs w p \<le> n" "n + 1 + length (uset_contents (ss_users (sw_session w'))) < 2 ^ 32"
  shows "world_reachable universal internal w' \<and> (\<forall>p. other_refs w' p \<le> n + 1)"
proof -
  have le: "other_refs w' p \<le> n + 1" for p
    using world_step_others [OF assms(2), of p] world_step_leaked [OF assms(2,3)] assms(4) [rule_format, of p] by (simp add: other_refs_def)
  have "other_refs w' p + length (uset_contents (ss_users (sw_session w'))) < 2 ^ 32" for p
    using le [of p] assms(5) by linarith
  then have "room_for (2 ^ 32) (other_refs w') (uset_contents (ss_users (sw_session w')))" by (simp add: room_for_def)
  from world_next [OF assms(1,2) this] le assms(3) show ?thesis by simp
qed

lemma shared_run:
  "case world_step (storage_with [writer_role]) [] (Add_user alice) (world_start []) of
     Some (Inr w1) \<Rightarrow> length (uset_contents (ss_users (sw_session w1))) = 1 \<and>
       (case world_step (storage_with []) [] (Other_acquire alice) w1 of
          Some (Inr w2) \<Rightarrow> length (uset_contents (ss_users (sw_session w2))) = 1 \<and>
            (case world_step (storage_with []) [] (Other_invalidate (Of_user alice)) w2 of
               Some (Inr w3) \<Rightarrow> uset_contents (ss_users (sw_session w3)) = [1] \<and> sw_others w3 1 = 1
             | _ \<Rightarrow> False)
        | _ \<Rightarrow> False)
   | _ \<Rightarrow> False"
  by code_simp

theorem session_references_safe_witness:
  "\<exists>w1 w2 w3 m a u. world_step (storage_with [writer_role]) [] (Add_user alice) (world_start []) = Some (Inr w1) \<and>
     world_step (storage_with []) [] (Other_acquire alice) w1 = Some (Inr w2) \<and>
     world_step (storage_with []) [] (Other_invalidate (Of_user alice)) w2 = Some (Inr w3) \<and>
     uset_contents (ss_users (sw_session w3)) = [1] \<and>
     release_users (manager_ops storage_without_users []) (sw_session w3) = Inr (m, a) \<and> am_users m 1 = Some u \<and> unat (us_refCount u) = 1"
proof -
  from shared_run obtain w1 w2 w3 where
    w1: "world_step (storage_with [writer_role]) [] (Add_user alice) (world_start []) = Some (Inr w1)" "length (uset_contents (ss_users (sw_session w1))) = 1" and
    w2: "world_step (storage_with []) [] (Other_acquire alice) w1 = Some (Inr w2)" "length (uset_contents (ss_users (sw_session w2))) = 1" and
    w3: "world_step (storage_with []) [] (Other_invalidate (Of_user alice)) w2 = Some (Inr w3)" "uset_contents (ss_users (sw_session w3)) = [1]" "sw_others w3 1 = 1"
    unfolding step_result by blast
  have "\<forall>p. other_refs (world_start []) p \<le> 0" by (simp add: other_refs_def world_start_def)
  from world_next_small [OF world_init w1(1) _ this] w1(2) have 1: "world_reachable [] False w1" "\<forall>p. other_refs w1 p \<le> 1" by simp_all
  from world_next_small [OF 1(1) w2(1) _ 1(2)] w2(2) have 2: "world_reachable [] False w2" "\<forall>p. other_refs w2 p \<le> 1 + 1" by simp_all
  from world_next_small [OF 2(1) w3(1) _ 2(2)] w3(2) have 3: "world_reachable [] False w3" by simp
  note safe = session_references_safe [OF 3]
  have leaked: "sw_leaked w3 = (\<lambda>_. 0)" using safe by blast
  from safe obtain m a where m: "release_users (manager_ops storage_without_users []) (sw_session w3) = Inr (m, a)"
    "\<forall>p. p \<noteq> internal_ptr \<longrightarrow> (am_users m p = None \<longleftrightarrow> sw_others w3 p + sw_leaked w3 p = 0) \<and>
        (\<forall>u. am_users m p = Some u \<longrightarrow> unat (us_refCount u) = sw_others w3 p + sw_leaked w3 p)" by metis
  from m(2) [rule_format, of 1] w3(3) leaked obtain u where "am_users m 1 = Some u" "unat (us_refCount u) = 1"
    by (auto simp: internal_ptr_def)
  with w1(1) w2(1) w3(1,2) m(1) show ?thesis by blast
qed

end
