(* ===== verification/Bson_Object.thy ===== *)
theory Bson_Object
  imports Bson_Element
begin

text \<open>
  Objects inside objects (\<open>bsonobj.h\<close>, \<open>bson-inl.h\<close>): embedded objects
  and first elements, on the bytes and on encoded values.
\<close>

definition isABSONObj :: "int \<Rightarrow> bool" where
  "isABSONObj t \<longleftrightarrow> t \<in> BSONType_to_int ` {Object, Array}"

definition embeddedObject :: "string \<Rightarrow> string result" where
  "embeddedObject e =
     bindE (elem_type e) (\<lambda>t.
       if \<not> isABSONObj t then Inl Verify else bindE (elem_value e) BSONObj_init)"

definition firstElement :: "string \<Rightarrow> string result" where
  "firstElement objdata = (if length objdata < 4 then Inl UndefinedBehaviour else Inr (drop 4 objdata))"

subsection \<open>Looking up fields by path\<close>

definition empty_object :: string where
  "empty_object = [CHR 0x05, CHR 0x00, CHR 0x00, CHR 0x00, CHR 0x00]"

text \<open>\<open>t == Object || t == Array ? e.embeddedObject() : BSONObj()\<close>\<close>

definition embedded_or_empty :: "string \<Rightarrow> string result" where
  "embedded_or_empty e =
     bindE (elem_type e) (\<lambda>t.
       if t = BSONType_to_int Object \<or> t = BSONType_to_int Array then embeddedObject e
       else Inr empty_object)"

definition getObjectField :: "string \<Rightarrow> string \<Rightarrow> string result option" where
  "getObjectField obj name =
     (case getField obj name of None \<Rightarrow> None | Some r \<Rightarrow> Some (bindE r embedded_or_empty))"

function getFieldDotted :: "string \<Rightarrow> string \<Rightarrow> string result option" where
  "getFieldDotted obj name =
     (case getField obj name of
        None \<Rightarrow> None
      | Some (Inl err) \<Rightarrow> Some (Inl err)
      | Some (Inr e) \<Rightarrow>
          (case elem_eoo e of
             Inl err \<Rightarrow> Some (Inl err)
           | Inr False \<Rightarrow> Some (Inr e)
           | Inr True \<Rightarrow>
               (case memchr name CHR ''.'' of
                  None \<Rightarrow> Some (Inr e)
                | Some dot_offset \<Rightarrow>
                    (case getObjectField obj (take dot_offset name) of
                       None \<Rightarrow> None
                     | Some (Inl err) \<Rightarrow> Some (Inl err)
                     | Some (Inr sub) \<Rightarrow>
                         (case read_int sub of
                            Inl err \<Rightarrow> Some (Inl err)
                          | Inr sz \<Rightarrow>
                              if sz \<le> 5 then Some (Inr eoo_element)
                              else getFieldDotted sub (drop (dot_offset + 1) name))))))"
  by pat_completeness auto
termination
  by (relation "measure (\<lambda>(obj, name). length name)") (auto simp: memchr_Some_iff)

declare getFieldDotted.simps [simp del]

subsection \<open>Values that contain elements\<close>

definition sub_elems :: "bson_value \<Rightarrow> bson_elem list" where
  "sub_elems v = (case v of VObject es \<Rightarrow> es | VArray es \<Rightarrow> es | _ \<Rightarrow> [])"

definition container :: "bson_value \<Rightarrow> bool" where
  "container v \<longleftrightarrow> value_type v \<in> {Object, Array}"

fun weight :: "bson_value \<Rightarrow> nat" and weights :: "bson_elem list \<Rightarrow> nat" where
  "weight (VObject es) = weights es"
| "weight (VArray es) = weights es"
| "weight v = 0"
| "weights [] = 0"
| "weights ((n, v) # es) = Suc (weight v + weights es)"

lemma weight_member: "e \<in> set es \<Longrightarrow> weight (snd e) < weights es"
  by (induction es) auto

lemma length_le_weights: "length es \<le> weights es"
  by (induction es) auto

lemma elem_type_nul [simp]: "elem_type (nul # p) = Inr 0"
  by (simp add: elem_type_def nul_def)

lemma weight_sub_elems: "weights (sub_elems v) = weight v"
  by (cases v) (simp_all add: sub_elems_def)

lemma not_container [simp]: "\<not> container v \<Longrightarrow> sub_elems v = []" "\<not> container v \<Longrightarrow> weight v = 0"
  by (cases v; simp add: container_def sub_elems_def)+

lemma isABSONObj_container [simp]: "isABSONObj (BSONType_to_int (value_type v)) \<longleftrightarrow> container v"
  by (cases v) (simp_all add: isABSONObj_def container_def BSONType_to_int_def BSONType_table_def)

lemma encode_container: "container v \<Longrightarrow> encode_value v = encode (sub_elems v)"
  by (cases v) (simp_all add: container_def encode_def sub_elems_def)

subsection \<open>Reading\<close>

lemma elem_eoo_nul [simp]: "elem_eoo (nul # post) = Inr True"
  by (simp add: elem_eoo_def elem_type_def nul_def)

lemma encode_elems_eoo: "elem_eoo (encode_elems es @ nul # post) = Inr (es = [])"
proof (cases es)
  case (Cons e es')
  then show ?thesis using elem_eoo_encoded [of "fst e" "snd e" "encode_elems es' @ nul # post"]
    by (simp add: encode_elems_Cons)
qed simp

lemma firstElement_encode: "firstElement (encode es @ post) = Inr (encode_elems es @ nul # post)"
  by (simp add: firstElement_def encode_def frame_def)

lemma max_sizes: "int n \<le> BSONObjMaxInternalSize \<Longrightarrow> n < 2 ^ 31"
  by (simp add: BSONObjMaxInternalSize_def BSONObjMaxUserSize_def)

lemma BSONObj_init_encode:
  assumes "int (length (encode es)) \<le> BSONObjMaxInternalSize"
  shows "BSONObj_init (encode es @ post) = Inr (encode es @ post)"
proof -
  have "length (encode_elems es) + 5 < 2 ^ 31" using max_sizes [OF assms] by (simp add: encode_def)
  then have "objsize (encode es @ post) = Inr (int (length (encode es)))"
    using int_of_bytes_int_bytes [of "length (encode_elems es) + 5"]
    by (simp add: objsize_def encode_def frame_def)
  with assms show ?thesis by (simp add: BSONObj_init_def encode_def)
qed

lemma embeddedObject_encoded:
  assumes "container v" "nul \<notin> set n" "int (length (encode_elem (n, v))) \<le> BSONObjMaxInternalSize"
  shows "embeddedObject (encode_elem (n, v) @ post) = Inr (encode (sub_elems v) @ post)"
proof -
  have len: "length n + 1 < 2 ^ 31" "int (length (encode_value v)) \<le> BSONObjMaxInternalSize"
    using max_sizes [OF assms(3)] assms(3) by (simp_all add: encode_elem_def)
  then show ?thesis
    using elem_value_encoded [OF assms(2) len(1)] BSONObj_init_encode [of "sub_elems v" post] assms(1)
    by (simp add: embeddedObject_def encode_container)
qed

lemma sub_elems_wf: "wf_value v \<Longrightarrow> wf_elems (sub_elems v)"
  by (cases v) (simp_all add: sub_elems_def)

subsection \<open>An iterator over a document in memory\<close>

text \<open>The iterator of the document \<open>us @ es\<close>, which is not too large and has \<open>p\<close> behind it, stands before \<open>es\<close>.\<close>

definition held :: "bson_elem list \<Rightarrow> bson_elem list \<Rightarrow> string \<Rightarrow> bool" where
  "held us es p \<longleftrightarrow>
     wf_elems (us @ es) \<and> int (length (encode (us @ es))) \<le> BSONObjMaxInternalSize \<and> length (encode (us @ es) @ p) < 2 ^ 31"

lemma held_elem:
  assumes "held us ((n, v) # es) p"
  shows "nul \<notin> set n" "wf_value v" "int (length (encode_elem (n, v))) \<le> BSONObjMaxInternalSize"
    "length (encode_elem (n, v) @ encode_elems es @ nul # p) < 2 ^ 31" "held (us @ [(n, v)]) es p"
  using assms by (auto simp: held_def encode_def encode_elems_Cons encode_elem_def)

lemma held_sub:
  assumes "wf_value v" "int (length (encode_elem (n, v))) \<le> BSONObjMaxInternalSize" "length (encode_elem (n, v) @ p) < 2 ^ 31" "container v"
  shows "held [] (sub_elems v) p"
  using assms sub_elems_wf [of v] by (auto simp: held_def encode_elem_def encode_container)

lemma held_start: "held [] es p \<Longrightarrow> BSONObjIterator (encode es @ p) = Inr (iter_at [] es p)"
  by (simp add: held_def iter_start)

lemma iter_next_end: "iter_next (iter_at us [] p) = Inr (nul # p, (iter_at us [] p)\<lparr>it_pos := it_end (iter_at us [] p) + 1\<rparr>)"
  using iter_mem_at [of us "[]" p]
  by (simp add: iter_next_def elem_size_def elem_type_def nul_def) (simp add: iter_at_def encode_def)

lemma iter_next_held:
  assumes "held us es p"
  shows "\<exists>it. iter_next (iter_at us es p) = Inr (encode_elems es @ nul # p, it) \<and>
    (\<forall>e es'. es = e # es' \<longrightarrow> it = iter_at (us @ [e]) es' p)"
proof (cases es)
  case Nil
  then show ?thesis using iter_next_end [of us p] by simp
next
  case (Cons e es')
  then show ?thesis using iter_next_at [of us "fst e" "snd e" es' p] assms
    by (auto simp: held_def encode_elems_Cons)
qed

subsection \<open>What a path denotes\<close>

text \<open>What \<open>getFieldDotted\<close> means on the abstract syntax.\<close>

function lookup_dotted :: "bson_elem list \<Rightarrow> string \<Rightarrow> bson_elem option" where
  "lookup_dotted es name =
     (case find (\<lambda>e. fst e = name) es of
        Some e \<Rightarrow> Some e
      | None \<Rightarrow>
          (case memchr name CHR ''.'' of
             None \<Rightarrow> None
           | Some dot \<Rightarrow>
               (case find (\<lambda>e. fst e = take dot name) es of
                  None \<Rightarrow> None
                | Some e \<Rightarrow>
                    if sub_elems (snd e) = [] then None
                    else lookup_dotted (sub_elems (snd e)) (drop (dot + 1) name))))"
  by pat_completeness auto
termination
  by (relation "measure (\<lambda>(es, name). length name)") (auto simp: memchr_Some_iff)

declare lookup_dotted.simps [simp del]

lemma wf_find: "wf_elems es \<Longrightarrow> find P es = Some (n, v) \<Longrightarrow> nul \<notin> set n \<and> wf_value v"
  by (induction es) (auto split: if_splits)

lemma elem_in_document: "e \<in> set es \<Longrightarrow> length (encode_elem e) < length (encode es)"
  by (induction es) (auto simp: encode_def encode_elems_Cons)

lemma find_in_set: "find P es = Some e \<Longrightarrow> e \<in> set es"
  by (auto simp: find_Some_iff)

lemma embedded_encoded:
  assumes "nul \<notin> set n" "int (length (encode_elem (n, v))) \<le> BSONObjMaxInternalSize"
  shows "embedded_or_empty (encode_elem (n, v) @ post) =
    Inr (if container v then encode (sub_elems v) @ post else empty_object)"
proof -
  have "BSONType_to_int (value_type v) = BSONType_to_int Object \<or> BSONType_to_int (value_type v) = BSONType_to_int Array \<longleftrightarrow> container v"
    using isABSONObj_container [of v] by (simp add: isABSONObj_def)
  then show ?thesis using embeddedObject_encoded [OF _ assms] by (simp add: embedded_or_empty_def)
qed

lemma elem_eoo_default [simp]: "elem_eoo eoo_element = Inr True"
  by (simp add: elem_eoo_def elem_type_def eoo_element_def nul_def)

lemma getObjectField_encoded:
  assumes "wf_elems es" "int (length (encode es)) \<le> BSONObjMaxInternalSize" "length (encode es @ rest) < 2 ^ 31"
  shows "case find (\<lambda>e. fst e = name) es of
      None \<Rightarrow> getObjectField (encode es @ rest) name = Some (Inr empty_object)
    | Some e \<Rightarrow>
        if container (snd e)
        then \<exists>post. int (length (encode (sub_elems (snd e)))) \<le> BSONObjMaxInternalSize \<and>
          length (encode (sub_elems (snd e)) @ post) < 2 ^ 31 \<and>
          getObjectField (encode es @ rest) name = Some (Inr (encode (sub_elems (snd e)) @ post))
        else getObjectField (encode es @ rest) name = Some (Inr empty_object)"
proof (cases "find (\<lambda>e. fst e = name) es")
  case None
  then show ?thesis
    using getField_encoded [OF assms(1,3), of name]
    by (simp add: getObjectField_def embedded_or_empty_def elem_type_def eoo_element_def nul_def
        BSONType_to_int_def BSONType_table_def signed_char_def)
next
  case (Some e)
  obtain n v where e: "e = (n, v)" by fastforce
  from Some getField_encoded [OF assms(1,3), of name] obtain post where
    post: "length (encode_elem e @ post) < 2 ^ 31"
      "getField (encode es @ rest) name = Some (Inr (encode_elem e @ post))" by auto
  have n: "nul \<notin> set n" "int (length (encode_elem (n, v))) \<le> BSONObjMaxInternalSize"
    using wf_find [OF assms(1)] Some e elem_in_document [OF find_in_set [OF Some]] assms(2) by auto
  from embedded_encoded [OF this, of post] post e
  have "getObjectField (encode es @ rest) name =
      Some (Inr (if container v then encode (sub_elems v) @ post else empty_object))"
    by (simp add: getObjectField_def)
  moreover have "container v \<Longrightarrow> length (encode (sub_elems v) @ post) < 2 ^ 31 \<and> int (length (encode (sub_elems v))) \<le> BSONObjMaxInternalSize"
    using post(1) n(2) e by (simp add: encode_elem_def encode_container)
  ultimately show ?thesis using Some e by auto
qed

lemma read_int_encode: "length (encode es @ rest) < 2 ^ 31 \<Longrightarrow> read_int (encode es @ rest) = Inr (int (length (encode es)))"
  using read_int_bytes [of "length (encode_elems es) + 5"] by (simp add: encode_def frame_def)

lemma encode_short: "int (length (encode es)) \<le> 5 \<longleftrightarrow> es = []"
  by (cases es) (auto simp: encode_def encode_elems_Cons encode_elem_def)

lemma read_int_empty: "read_int empty_object = Inr 5"
  by (simp add: read_int_def empty_object_def int_of_bytes_def)

lemma getFieldDotted_cases:
  assumes "wf_elems es" "int (length (encode es)) \<le> BSONObjMaxInternalSize" "length (encode es @ rest) < 2 ^ 31"
  shows "case lookup_dotted es name of
      None \<Rightarrow> getFieldDotted (encode es @ rest) name = Some (Inr eoo_element)
    | Some e \<Rightarrow> \<exists>post. length (encode_elem e @ post) < 2 ^ 31 \<and> int (length (encode_elem e)) \<le> BSONObjMaxInternalSize \<and>
        nul \<notin> set (fst e) \<and> wf_value (snd e) \<and> getFieldDotted (encode es @ rest) name = Some (Inr (encode_elem e @ post))"
  using assms
proof (induction es name arbitrary: rest rule: lookup_dotted.induct)
  case (1 es name)
  note get = getField_encoded [OF "1.prems"(1,3), of name]
  show ?case
  proof (cases "find (\<lambda>e. fst e = name) es")
    case (Some e)
    with get obtain post where "getField (encode es @ rest) name = Some (Inr (encode_elem e @ post))"
      "length (encode_elem e @ post) < 2 ^ 31" by auto
    with Some show ?thesis using elem_in_document [OF find_in_set [OF Some]] wf_find [OF "1.prems"(1)] "1.prems"(2)
      by (cases e) (auto simp: lookup_dotted.simps [of es name] getFieldDotted.simps [of "encode es @ rest" name])
  next
    case None
    with get have g: "getField (encode es @ rest) name = Some (Inr eoo_element)" by simp
    show ?thesis
    proof (cases "memchr name CHR ''.''")
      assume "memchr name CHR ''.'' = None"
      with None g show ?thesis
        by (simp add: lookup_dotted.simps [of es name] getFieldDotted.simps [of "encode es @ rest" name])
    next
      fix dot assume dot: "memchr name CHR ''.'' = Some dot"
      note obj = getObjectField_encoded [OF "1.prems", of "take dot name"]
      note unf = lookup_dotted.simps [of es name] getFieldDotted.simps [of "encode es @ rest" name]
      show ?thesis
      proof (cases "\<exists>e. find (\<lambda>e. fst e = take dot name) es = Some e \<and> container (snd e)")
        case False
        then have "getObjectField (encode es @ rest) (take dot name) = Some (Inr empty_object)"
          using obj by (auto split: option.splits)
        moreover have "lookup_dotted es name = None"
          using False not_container(1) None dot by (auto simp: unf(1) split: option.splits)
        ultimately show ?thesis using g dot by (simp add: unf(2) read_int_empty)
      next
        case True
        then obtain n v where e: "find (\<lambda>e. fst e = take dot name) es = Some (n, v)" "container v"
          by auto
        with obj obtain post where
          sub: "length (encode (sub_elems v) @ post) < 2 ^ 31" "int (length (encode (sub_elems v))) \<le> BSONObjMaxInternalSize"
            "getObjectField (encode es @ rest) (take dot name) = Some (Inr (encode (sub_elems v) @ post))" by auto
        have wf: "wf_elems (sub_elems v)" using wf_find [OF "1.prems"(1) e(1)] sub_elems_wf by blast
        show ?thesis
        proof (cases "sub_elems v = []")
          case True
          with sub(3) read_int_encode [OF sub(1)] g dot e None encode_short [of "[]"] show ?thesis
            by (simp add: unf)
        next
          case False
          with sub(3) read_int_encode [OF sub(1)] g dot e None encode_short [of "sub_elems v"]
          have eq: "getFieldDotted (encode es @ rest) name =
              getFieldDotted (encode (sub_elems v) @ post) (drop (dot + 1) name)"
            "lookup_dotted es name = lookup_dotted (sub_elems v) (drop (dot + 1) name)"
            by (simp_all add: unf)
          show ?thesis
            using "1.IH" [OF None dot e(1), unfolded snd_conv, OF False wf sub(2) sub(1)] unfolding eq .
        qed
      qed
    qed
  qed
qed

text \<open>
  (C4) Field lookup: on an encoded document \<open>getFieldDotted\<close> returns the element that the dotted
  path denotes (the first field of the full name, else the first field of the part before the first
  dot, entered when it is a non-empty object or array), and the EOO element when there is none; it
  always returns and never reads outside the document. Objects larger than the largest size are refused
  by the constructor, so the document has at most that size.
\<close>

theorem getFieldDotted_encoded:
  assumes "wf_elems es" "int (length (encode es)) \<le> BSONObjMaxInternalSize" "length (encode es @ rest) < 2 ^ 31"
  shows "case lookup_dotted es name of
      None \<Rightarrow> getFieldDotted (encode es @ rest) name = Some (Inr eoo_element)
    | Some e \<Rightarrow> \<exists>post. getFieldDotted (encode es @ rest) name = Some (Inr (encode_elem e @ post))"
  using getFieldDotted_cases [OF assms, of name] by (auto split: option.splits)

lemma getFieldDotted_encoded_witness:
  "\<exists>post. getFieldDotted (encode [(''x'', VNull), (''a'', VObject [(''b'', VInt 7)])] @ []) ''a.b'' =
     Some (Inr (encode_elem (''b'', VInt 7) @ post))"
proof -
  let ?es = "[(''x'', VNull), (''a'', VObject [(''b'', VInt 7)])]"
  have "lookup_dotted ?es ''a.b'' = Some (''b'', VInt 7)"
    by (simp add: lookup_dotted.simps sub_elems_def)
  with getFieldDotted_encoded [of ?es "[]" "''a.b''"] show ?thesis
    by (simp add: nul_def encode_def BSONObjMaxInternalSize_def BSONObjMaxUserSize_def)
qed

end
