(* ===== verification/Bson_Append.thy ===== *)
theory Bson_Append
  imports Bson_Object
begin

text \<open>
  Copying elements into a builder (\<open>bsonobjbuilder.h\<close>), under their own name or a new one, and what it means that
  bytes fit into a builder and have been appended to it.
\<close>

text \<open>\<open>BSONObjBuilder::append(e)\<close> and \<open>appendAs(e, name)\<close>\<close>

definition append_element :: "string \<Rightarrow> buf_builder \<Rightarrow> buf_builder result" where
  "append_element e b =
     bindE (elem_eoo e) (\<lambda>eoo.
       if eoo then Inl Verify else bindE (elem_size e) (\<lambda>n. appendArea e n b))"

definition appendAs :: "string \<Rightarrow> string \<Rightarrow> buf_builder \<Rightarrow> buf_builder result" where
  "appendAs e name b =
     bindE (elem_eoo e) (\<lambda>eoo.
       if eoo then Inl Verify
       else bindE (appendChar (hd e) b) (\<lambda>b.
            bindE (appendStr name True b) (\<lambda>b.
            bindE (elem_value e) (\<lambda>v.
            bindE (elem_valuesize e) (\<lambda>n. appendArea v n b)))))"

subsection \<open>Successful appending\<close>

definition extends :: "buf_builder \<Rightarrow> string \<Rightarrow> buf_builder \<Rightarrow> bool" where
  "extends b bs b' \<longleftrightarrow> builder_ok b' \<and> bld_data b' = bld_data b @ bs"

definition fits :: "buf_builder \<Rightarrow> nat \<Rightarrow> bool" where
  "fits b n \<longleftrightarrow> builder_ok b \<and> bld_len b + int n \<le> BufferMaxSize"

lemma appends_extends:
  assumes "appends f bs" "fits b (length bs)"
  shows "\<exists>b'. f b = Inr b' \<and> extends b bs b'"
proof -
  have "length (bld_data b) + length bs \<le> 2 ^ 30" using assms(2) by (simp add: fits_def bld_len_def BufferMaxSize_def)
  then show ?thesis using appendsD(1) [OF assms(1)] assms(2) by (fastforce simp: fits_def extends_def)
qed

lemma extends_fits: "extends b bs b' \<Longrightarrow> fits b (length bs + n) \<Longrightarrow> fits b' n"
  by (simp add: extends_def fits_def bld_len_def)

lemma extends_trans: "extends b xs b' \<Longrightarrow> extends b' ys b'' \<Longrightarrow> extends b (xs @ ys) b''"
  by (simp add: extends_def)

lemma fits_mono: "fits b n \<Longrightarrow> m \<le> n \<Longrightarrow> fits b m"
  by (auto simp: fits_def)

lemma append_element_ok:
  assumes "wf_value v" "nul \<notin> set n" "length (encode_elem (n, v)) < 2 ^ 31" "fits b (length (encode_elem (n, v)))"
  shows "\<exists>b'. append_element (encode_elem (n, v) @ post) b = Inr b' \<and> extends b (encode_elem (n, v)) b'"
  using appends_extends [OF appendBuf_appends assms(4)] elem_size_encoded [OF assms(1-3), of post]
  by (simp add: append_element_def appendArea_def)

lemma appendAs_ok:
  assumes v: "wf_value v" "nul \<notin> set n" "length (encode_elem (n, v)) < 2 ^ 31" and f: "fits b (length (encode_elem (m, v)))"
  shows "\<exists>b'. appendAs (encode_elem (n, v) @ post) m b = Inr b' \<and> extends b (encode_elem (m, v)) b'"
proof -
  have len: "length n + 1 < 2 ^ 31" using v(3) by (simp add: encode_elem_def)
  have size: "elem_valuesize (encode_elem (n, v) @ post) = Inr (int (length (encode_value v)))"
    using elem_size_encoded [OF v, of post] fieldNameSize_encoded [OF v(2) len, of v post]
    by (simp add: elem_valuesize_def) (simp add: encode_elem_def)
  have "appends (\<lambda>b. bindE (appendChar (type_byte (value_type v)) b) (\<lambda>b. bindE (appendStr m True b) (appendBuf (encode_value v))))
      (encode_elem (m, v))"
    using appends_seq [OF appends_basic(1) appends_seq [OF appends_basic(4) appendBuf_appends], of "type_byte (value_type v)" m "encode_value v"]
    by (simp add: encode_elem_def)
  moreover have "hd (encode_elem (n, v) @ post) = type_byte (value_type v)" by (simp add: encode_elem_def)
  ultimately show ?thesis
    using appends_extends [OF _ f] size elem_value_encoded [OF v(2) len, of v post]
    by (simp add: appendAs_def appendArea_def)
qed

text \<open>A sub-builder around what has been written.\<close>

lemma obj_done_ok:
  assumes "extends b (junk @ body) b'" "length junk = 4" "fits b (length (frame body))"
  shows "\<exists>ob b''. obj_done \<lparr>ob_offset = length (bld_data b), ob_doneCalled = False\<rparr> b' = Inr (ob, b'') \<and> extends b (frame body) b''
    \<and> ob_offset ob = length (bld_data b)"
proof -
  have "length (junk @ body) + 1 = length (frame body)" using assms(2) by simp
  then have "fits b' 1" using extends_fits [OF assms(1), of 1] assms(3) by metis
  then obtain b1 where b1: "appendChar nul b' = Inr b1" "extends b' [nul] b1"
    using appends_extends [OF appends_basic(1), of b' nul] by auto
  have data: "bld_data b1 = bld_data b @ junk @ body @ [nul]" "builder_ok b1" using assms(1) b1(2) by (simp_all add: extends_def)
  let ?n = "length body + 5"
  have "store (length (bld_data b)) (le_bytes 4 ?n) (bld_data b1) = bld_data b @ frame body"
    using store_at [of "le_bytes 4 ?n" junk "bld_data b" "body @ [nul]"] assms(2) data(1) by (simp add: frame_def int_bytes_def)
  moreover have "length (bld_data b1) - length (bld_data b) = ?n" using data(1) assms(2) by simp
  moreover have "builder_ok (b1\<lparr>bld_data := bld_data b @ frame body\<rparr>)"
    using data assms(2) by (simp add: builder_ok_def bld_len_def)
  ultimately show ?thesis using b1(1) by (simp add: obj_done_def Let_def extends_def)
qed

end
