(* ===== verification/Mutable_Document.thy ===== *)
theory Mutable_Document
  imports Bson_Append
begin

text \<open>
  \<open>src/mongo/bson/mutable/document.cpp\<close> and \<open>element.cpp\<close>: documents that can be changed in place.

  A document is a vector of element representations that refer to each other by index: a forest whose
  nodes have pointers to their parent, to their left and right siblings and to their first and last
  child. The elements of a document that is given as BSON are made only when they are visited: an index
  is \<open>opaque\<close> as long as what it stands for has only been seen as bytes. The bytes of all values stay in
  the objects where they were found: object 0 is the heap of leaves, a document under construction
  to which new values are appended, object 1 the document the root was made from.

  A handle (\<open>Element\<close>) is an index; the document it belongs to is an argument of each operation. A
  BSON element in memory is, as in \<open>Bson_Element\<close>, the bytes from its address to the end of its object, so its
  offset is what is missing to the length of the object. The two parts of the vector of representations
  (128 of them inside the class) are one list. A scratch string that only avoids copies and the aliasing
  checks of debug builds are not modelled.
\<close>

subsection \<open>Representations\<close>

datatype rep_idx = kInvalidRepIdx | kOpaqueRepIdx | Rep nat

definition kMaxRepIdx :: nat where
  "kMaxRepIdx = 2 ^ 32 - 3"

definition kRootRepIdx :: nat where
  "kRootRepIdx = 0"

definition kFastReps :: nat where
  "kFastReps = 128"

definition kLeafObjIdx :: nat where
  "kLeafObjIdx = 0"

text \<open>\<open>None\<close> is \<open>kInvalidObjIdx\<close>.\<close>

record element_rep =
  er_objIdx :: "nat option"
  er_serialized :: bool
  er_array :: bool
  er_offset :: nat
  er_left :: rep_idx
  er_right :: rep_idx
  er_childLeft :: rep_idx
  er_childRight :: rep_idx
  er_parent :: rep_idx

definition defaultRep :: element_rep where
  "defaultRep = \<lparr>er_objIdx = None, er_serialized = False, er_array = False, er_offset = 0,
     er_left = kInvalidRepIdx, er_right = kInvalidRepIdx, er_childLeft = kInvalidRepIdx,
     er_childRight = kInvalidRepIdx, er_parent = kInvalidRepIdx\<rparr>"

text \<open>\<open>ElementRep()\<close>: all fields zero.\<close>

definition zeroRep :: element_rep where
  "zeroRep = \<lparr>er_objIdx = Some 0, er_serialized = False, er_array = False, er_offset = 0,
     er_left = Rep 0, er_right = Rep 0, er_childLeft = Rep 0, er_childRight = Rep 0, er_parent = Rep 0\<rparr>"

record damage_event =
  de_targetOffset :: nat
  de_sourceOffset :: nat
  de_size :: nat

record document =
  dc_elements :: "element_rep list"
  dc_objects :: "string list"
  dc_fieldNames :: string
  dc_leafBuf :: buf_builder
  dc_leafBuilder :: obj_builder
  dc_damages :: "damage_event list"
  dc_inPlace :: bool

definition IllegalOperation :: error_code where
  "IllegalOperation = OtherCode 20"

definition EmptyArrayOperation :: error_code where
  "EmptyArrayOperation = OtherCode 21"

definition canAttach :: "nat \<Rightarrow> element_rep \<Rightarrow> bool" where
  "canAttach i rep \<longleftrightarrow> i \<noteq> kRootRepIdx \<and> er_left rep = kInvalidRepIdx \<and> er_right rep = kInvalidRepIdx \<and>
     er_parent rep = kInvalidRepIdx"

definition getAttachmentError :: "element_rep \<Rightarrow> status" where
  "getAttachmentError rep =
     (if er_left rep \<noteq> kInvalidRepIdx then Status IllegalOperation ''dangling left sibling'' 0
      else if er_right rep \<noteq> kInvalidRepIdx then Status IllegalOperation ''dangling right sibling'' 0
      else if er_parent rep \<noteq> kInvalidRepIdx then Status IllegalOperation ''dangling parent'' 0
      else Status IllegalOperation ''cannot add the root as a child'' 0)"

subsection \<open>Access\<close>

definition getElementRep :: "nat \<Rightarrow> document \<Rightarrow> element_rep result" where
  "getElementRep i d = (if i < length (dc_elements d) then Inr (dc_elements d ! i) else Inl UndefinedBehaviour)"

definition set_rep :: "nat \<Rightarrow> (element_rep \<Rightarrow> element_rep) \<Rightarrow> document \<Rightarrow> document" where
  "set_rep i f d = d\<lparr>dc_elements := (dc_elements d)[i := f (dc_elements d ! i)]\<rparr>"

text \<open>Following an index: neither an invalid nor an opaque one names a representation.\<close>

definition rep_number :: "rep_idx \<Rightarrow> nat result" where
  "rep_number x = (case x of Rep i \<Rightarrow> Inr i | _ \<Rightarrow> Inl UndefinedBehaviour)"

definition verify_ok :: "rep_idx \<Rightarrow> nat result" where
  "verify_ok x = (case x of Rep i \<Rightarrow> Inr i | _ \<Rightarrow> Inl Verify)"

definition makeNewRep :: "document \<Rightarrow> (nat \<times> document) result" where
  "makeNewRep d =
     (let i = length (dc_elements d)
      in if kFastReps \<le> i \<and> \<not> i \<le> kMaxRepIdx then Inl Verify
         else Inr (i, d\<lparr>dc_elements := dc_elements d @ [defaultRep]\<rparr>))"

definition getObject :: "nat option \<Rightarrow> document \<Rightarrow> string result" where
  "getObject k d =
     (case k of
        None \<Rightarrow> Inl UndefinedBehaviour
      | Some k \<Rightarrow> if k < length (dc_objects d) then Inr (dc_objects d ! k) else Inl UndefinedBehaviour)"

definition insertObject :: "string \<Rightarrow> document \<Rightarrow> (nat \<times> document) result" where
  "insertObject obj d =
     (if \<not> length (dc_objects d) \<le> 2 ^ 16 - 2 then Inl Verify
      else Inr (length (dc_objects d), d\<lparr>dc_objects := dc_objects d @ [obj]\<rparr>))"

definition getSerializedElement :: "element_rep \<Rightarrow> document \<Rightarrow> string result" where
  "getSerializedElement rep d =
     bindE (getObject (er_objIdx rep) d) (\<lambda>obj.
       if length obj < er_offset rep then Inl UndefinedBehaviour else Inr (drop (er_offset rep) obj))"

text \<open>\<open>elt\<close> is a part of \<open>object\<close> that extends to its end.\<close>

definition getElementOffset :: "string \<Rightarrow> string \<Rightarrow> nat result" where
  "getElementOffset object elt =
     (let offset = int (length object) - int (length elt)
      in if offset > 0 \<and> offset \<le> 2 ^ 31 - 1 then Inr (nat offset) else Inl Verify)"

definition insertLeafElement :: "nat \<Rightarrow> document \<Rightarrow> (nat \<times> document) result" where
  "insertLeafElement offset d =
     bindE (makeNewRep d) (\<lambda>(i, d).
     let d = set_rep i (\<lambda>rep. rep\<lparr>er_objIdx := Some kLeafObjIdx, er_serialized := True, er_offset := offset\<rparr>) d
     in bindE (asTempObj (dc_leafBuilder d) (dc_leafBuf d)) (\<lambda>(obj, ob, b).
        bindE (BSONObj_init obj) (\<lambda>obj.
          Inr (i, d\<lparr>dc_leafBuf := b, dc_leafBuilder := ob, dc_objects := (dc_objects d)[kLeafObjIdx := obj]\<rparr>))))"

definition insertFieldName :: "nat \<Rightarrow> string \<Rightarrow> document \<Rightarrow> document" where
  "insertFieldName i name d =
     set_rep i (\<lambda>rep. rep\<lparr>er_offset := length (dc_fieldNames d)\<rparr>) (d\<lparr>dc_fieldNames := dc_fieldNames d @ cstring name\<rparr>)"

text \<open>\<open>root\<close>: whether \<open>rep\<close> is the representation of the root itself, not a copy of it.\<close>

definition rep_fieldName :: "bool \<Rightarrow> element_rep \<Rightarrow> document \<Rightarrow> string result" where
  "rep_fieldName root rep d =
     (if root then Inr []
      else if er_serialized rep \<or> er_objIdx rep \<noteq> None then bindE (getSerializedElement rep d) fieldName
      else if length (dc_fieldNames d) \<le> er_offset rep then Inl UndefinedBehaviour
      else bindE (strlen (drop (er_offset rep) (dc_fieldNames d))) (\<lambda>n.
        Inr (take n (drop (er_offset rep) (dc_fieldNames d)))))"

definition rep_type :: "bool \<Rightarrow> element_rep \<Rightarrow> document \<Rightarrow> int result" where
  "rep_type root rep d =
     (if root then Inr (BSONType_to_int Object)
      else if er_serialized rep \<or> er_objIdx rep \<noteq> None then bindE (getSerializedElement rep d) elem_type
      else Inr (BSONType_to_int (if er_array rep then Array else Object)))"

definition isLeafType :: "int \<Rightarrow> bool" where
  "isLeafType t \<longleftrightarrow> t \<noteq> BSONType_to_int Object \<and> t \<noteq> BSONType_to_int Array"

definition rep_hasValue :: "nat \<Rightarrow> element_rep \<Rightarrow> bool" where
  "rep_hasValue i rep \<longleftrightarrow> i \<noteq> kRootRepIdx \<and> er_serialized rep"

subsection \<open>Opaque elements\<close>

text \<open>The representation of an element found as bytes: its own children are opaque.\<close>

definition found_rep :: "element_rep \<Rightarrow> nat \<Rightarrow> bool \<Rightarrow> rep_idx \<Rightarrow> rep_idx \<Rightarrow> element_rep" where
  "found_rep owner offset leaf left parent =
     defaultRep\<lparr>er_serialized := True, er_objIdx := er_objIdx owner, er_offset := offset, er_parent := parent,
       er_left := left, er_right := kOpaqueRepIdx,
       er_childLeft := (if leaf then kInvalidRepIdx else kOpaqueRepIdx),
       er_childRight := (if leaf then kInvalidRepIdx else kOpaqueRepIdx)\<rparr>"

definition resolveLeftChild :: "nat \<Rightarrow> document \<Rightarrow> (rep_idx \<times> document) result" where
  "resolveLeftChild index d =
     bindE (getElementRep index d) (\<lambda>rep.
       if er_childLeft rep \<noteq> kOpaqueRepIdx then Inr (er_childLeft rep, d)
       else
         bindE (getObject (er_objIdx rep) d) (\<lambda>object.
         bindE (if rep_hasValue index rep then bindE (getSerializedElement rep d) embeddedObject else Inr object) (\<lambda>obj.
         bindE (firstElement obj) (\<lambda>childElt.
         bindE (elem_eoo childElt) (\<lambda>eoo.
           if \<not> eoo then
             bindE (makeNewRep d) (\<lambda>(inserted, d).
             bindE (getElementOffset object childElt) (\<lambda>offset.
             bindE (elem_type childElt) (\<lambda>t.
               Inr (Rep inserted,
                 set_rep index (\<lambda>rep. rep\<lparr>er_childLeft := Rep inserted\<rparr>)
                   (set_rep inserted (\<lambda>_. found_rep rep offset (isLeafType t) kInvalidRepIdx (Rep index)) d)))))
           else
             Inr (kInvalidRepIdx,
               set_rep index (\<lambda>rep. rep\<lparr>er_childLeft := kInvalidRepIdx, er_childRight := kInvalidRepIdx\<rparr>) d))))))"

definition resolveRightSibling :: "nat \<Rightarrow> document \<Rightarrow> (rep_idx \<times> document) result" where
  "resolveRightSibling index d =
     bindE (getElementRep index d) (\<lambda>rep.
       if er_right rep \<noteq> kOpaqueRepIdx then Inr (er_right rep, d)
       else
         bindE (getObject (er_objIdx rep) d) (\<lambda>object.
         bindE (getSerializedElement rep d) (\<lambda>elt.
         bindE (elem_size elt) (\<lambda>size.
         if size < 0 \<or> int (length elt) < size then Inl UndefinedBehaviour
         else
           let rightElt = drop (nat size) elt
           in bindE (elem_eoo rightElt) (\<lambda>eoo.
             if \<not> eoo then
               bindE (makeNewRep d) (\<lambda>(inserted, d).
               bindE (getElementOffset object rightElt) (\<lambda>offset.
               bindE (elem_type rightElt) (\<lambda>t.
                 Inr (Rep inserted,
                   set_rep index (\<lambda>rep. rep\<lparr>er_right := Rep inserted\<rparr>)
                     (set_rep inserted (\<lambda>_. found_rep rep offset (isLeafType t) (Rep index) (er_parent rep)) d)))))
             else
               bindE (rep_number (er_parent rep)) (\<lambda>p.
               bindE (getElementRep p d) (\<lambda>_.
                 Inr (kInvalidRepIdx,
                   set_rep p (\<lambda>rep. rep\<lparr>er_childRight := Rep index\<rparr>)
                     (set_rep index (\<lambda>rep. rep\<lparr>er_right := kInvalidRepIdx\<rparr>) d)))))))))"

text \<open>\<open>None\<close>: the loop does not end.\<close>

partial_function (option) rightmost :: "nat \<Rightarrow> document \<Rightarrow> (rep_idx \<times> document) result option" where
  "rightmost current d =
     (case resolveRightSibling current d of
        Inl e \<Rightarrow> Some (Inl e)
      | Inr r \<Rightarrow>
          (case fst r of
             kInvalidRepIdx \<Rightarrow> Some (Inr (Rep current, snd r))
           | kOpaqueRepIdx \<Rightarrow> Some (Inl UndefinedBehaviour)
           | Rep n \<Rightarrow> rightmost n (snd r)))"

definition resolveRightChild :: "nat \<Rightarrow> document \<Rightarrow> (rep_idx \<times> document) result option" where
  "resolveRightChild index d =
     (case getElementRep index d of
        Inl e \<Rightarrow> Some (Inl e)
      | Inr rep \<Rightarrow>
          if er_childRight rep \<noteq> kOpaqueRepIdx then Some (Inr (er_childRight rep, d))
          else
            (case resolveLeftChild index d of
               Inl e \<Rightarrow> Some (Inl e)
             | Inr r \<Rightarrow>
                 (case fst r of
                    kInvalidRepIdx \<Rightarrow> Some (Inr (kInvalidRepIdx, snd r))
                  | kOpaqueRepIdx \<Rightarrow> Some (Inl UndefinedBehaviour)
                  | Rep n \<Rightarrow> rightmost n (snd r))))"

text \<open>Marking an element and its ancestors as not serialized, up to the first that is so already.\<close>

definition num_serialized :: "document \<Rightarrow> nat" where
  "num_serialized d = length (filter er_serialized (dc_elements d))"

lemma num_serialized_less:
  "i < length (dc_elements d) \<Longrightarrow> er_serialized (dc_elements d ! i) \<Longrightarrow>
   num_serialized (set_rep i (\<lambda>rep. rep\<lparr>er_serialized := False\<rparr>) d) < num_serialized d"
proof -
  have "i < length xs \<Longrightarrow> er_serialized (xs ! i) \<Longrightarrow>
    length (filter er_serialized (xs[i := (xs ! i)\<lparr>er_serialized := False\<rparr>])) < length (filter er_serialized xs)" for xs
  proof (induction xs arbitrary: i)
    case (Cons x xs)
    then show ?case by (cases i) auto
  qed simp
  then show "i < length (dc_elements d) \<Longrightarrow> er_serialized (dc_elements d ! i) \<Longrightarrow>
    num_serialized (set_rep i (\<lambda>rep. rep\<lparr>er_serialized := False\<rparr>) d) < num_serialized d"
    by (simp add: num_serialized_def set_rep_def)
qed

function deserialize :: "rep_idx \<Rightarrow> document \<Rightarrow> document result" where
  "deserialize index d =
     (case index of
        kInvalidRepIdx \<Rightarrow> Inr d
      | kOpaqueRepIdx \<Rightarrow> Inl UndefinedBehaviour
      | Rep i \<Rightarrow>
          if length (dc_elements d) \<le> i then Inl UndefinedBehaviour
          else if \<not> er_serialized (dc_elements d ! i) then Inr d
          else deserialize (er_parent (dc_elements d ! i)) (set_rep i (\<lambda>rep. rep\<lparr>er_serialized := False\<rparr>) d))"
  by pat_completeness auto
termination
  by (relation "measure (\<lambda>(index, d). num_serialized d)") (auto intro: num_serialized_less)

declare deserialize.simps [simp del]

definition disableInPlaceUpdates :: "document \<Rightarrow> document" where
  "disableInPlaceUpdates d = d\<lparr>dc_inPlace := False\<rparr>"

definition recordDamageEvent :: "nat \<Rightarrow> nat \<Rightarrow> nat \<Rightarrow> document \<Rightarrow> document" where
  "recordDamageEvent targetOffset sourceOffset sz d =
     d\<lparr>dc_damages := dc_damages d @ [\<lparr>de_targetOffset = targetOffset, de_sourceOffset = sourceOffset, de_size = sz\<rparr>]\<rparr>"

text \<open>The damages, the bytes they refer to, and the document; \<open>None\<close> when the update is not in place.\<close>

definition getInPlaceUpdates :: "document \<Rightarrow> (damage_event list \<times> string) option \<times> document" where
  "getInPlaceUpdates d =
     (if \<not> dc_inPlace d then (None, d)
      else (Some (dc_damages d, dc_objects d ! kLeafObjIdx), d\<lparr>dc_damages := []\<rparr>))"

definition canUpdateInPlace :: "int \<Rightarrow> bool" where
  "canUpdateInPlace t \<longleftrightarrow> t \<in> BSONType_to_int ` {NumberDouble, String, BinData, jstOID, Bool, Date, NumberInt, Timestamp, NumberLong}"

subsection \<open>Making elements\<close>

definition make_leaf :: "(buf_builder \<Rightarrow> buf_builder result) \<Rightarrow> document \<Rightarrow> (rep_idx \<times> document) result" where
  "make_leaf write d =
     (let leafRef = length (bld_data (dc_leafBuf d))
      in bindE (write (dc_leafBuf d)) (\<lambda>b.
         bindE (insertLeafElement leafRef (d\<lparr>dc_leafBuf := b\<rparr>)) (\<lambda>(i, d). Inr (Rep i, d))))"

definition make_container :: "(buf_builder \<Rightarrow> buf_builder result) \<Rightarrow> document \<Rightarrow> (rep_idx \<times> document) result" where
  "make_container write d =
     bindE (make_leaf write d) (\<lambda>(x, d).
     bindE (rep_number x) (\<lambda>i.
       Inr (x, set_rep i (\<lambda>rep. rep\<lparr>er_childLeft := kOpaqueRepIdx, er_childRight := kOpaqueRepIdx\<rparr>) d)))"

definition makeElementDouble :: "string \<Rightarrow> uint64 \<Rightarrow> document \<Rightarrow> (rep_idx \<times> document) result" where
  "makeElementDouble name value = make_leaf (append_double name value)"

definition makeElementString :: "string \<Rightarrow> string \<Rightarrow> document \<Rightarrow> (rep_idx \<times> document) result" where
  "makeElementString name value = make_leaf (append_StringData name value)"

definition makeElementObject_new :: "string \<Rightarrow> document \<Rightarrow> (rep_idx \<times> document) result" where
  "makeElementObject_new name d =
     bindE (makeNewRep d) (\<lambda>(i, d). Inr (Rep i, insertFieldName i name d))"

definition makeElementObject :: "string \<Rightarrow> string \<Rightarrow> document \<Rightarrow> (rep_idx \<times> document) result" where
  "makeElementObject name value = make_container (append_BSONObj name value)"

definition makeElementArray_new :: "string \<Rightarrow> document \<Rightarrow> (rep_idx \<times> document) result" where
  "makeElementArray_new name d =
     bindE (makeNewRep d) (\<lambda>(i, d).
       Inr (Rep i, insertFieldName i name (set_rep i (\<lambda>rep. rep\<lparr>er_array := True\<rparr>) d)))"

definition makeElementArray :: "string \<Rightarrow> string \<Rightarrow> document \<Rightarrow> (rep_idx \<times> document) result" where
  "makeElementArray name value = make_container (appendArray name value)"

definition makeElementBinary :: "string \<Rightarrow> int32 \<Rightarrow> char \<Rightarrow> string \<Rightarrow> document \<Rightarrow> (rep_idx \<times> document) result" where
  "makeElementBinary name len binType data = make_leaf (appendBinData name len binType data)"

definition makeElementUndefined :: "string \<Rightarrow> document \<Rightarrow> (rep_idx \<times> document) result" where
  "makeElementUndefined name = make_leaf (appendUndefined name)"

definition makeElementOID :: "string \<Rightarrow> string \<Rightarrow> document \<Rightarrow> (rep_idx \<times> document) result" where
  "makeElementOID name value = make_leaf (append_OID name value)"

definition makeElementBool :: "string \<Rightarrow> bool \<Rightarrow> document \<Rightarrow> (rep_idx \<times> document) result" where
  "makeElementBool name value = make_leaf (appendBool name (if value then 1 else 0))"

definition makeElementDate :: "string \<Rightarrow> uint64 \<Rightarrow> document \<Rightarrow> (rep_idx \<times> document) result" where
  "makeElementDate name value = make_leaf (appendDate name value)"

definition makeElementNull :: "string \<Rightarrow> document \<Rightarrow> (rep_idx \<times> document) result" where
  "makeElementNull name = make_leaf (appendNull name)"

definition makeElementRegex :: "string \<Rightarrow> string \<Rightarrow> string \<Rightarrow> document \<Rightarrow> (rep_idx \<times> document) result" where
  "makeElementRegex name re flags = make_leaf (appendRegex name re flags)"

definition makeElementDBRef :: "string \<Rightarrow> string \<Rightarrow> string \<Rightarrow> document \<Rightarrow> (rep_idx \<times> document) result" where
  "makeElementDBRef name ns value = make_leaf (appendDBRef name ns value)"

definition makeElementCode :: "string \<Rightarrow> string \<Rightarrow> document \<Rightarrow> (rep_idx \<times> document) result" where
  "makeElementCode name value = make_leaf (appendCode name value)"

definition makeElementSymbol :: "string \<Rightarrow> string \<Rightarrow> document \<Rightarrow> (rep_idx \<times> document) result" where
  "makeElementSymbol name value = make_leaf (appendSymbol name value)"

definition makeElementCodeWithScope :: "string \<Rightarrow> string \<Rightarrow> string \<Rightarrow> document \<Rightarrow> (rep_idx \<times> document) result" where
  "makeElementCodeWithScope name code scope = make_leaf (appendCodeWScope name code scope)"

definition makeElementInt :: "string \<Rightarrow> int32 \<Rightarrow> document \<Rightarrow> (rep_idx \<times> document) result" where
  "makeElementInt name value = make_leaf (append_int name value)"

definition makeElementTimestamp :: "string \<Rightarrow> uint64 \<Rightarrow> document \<Rightarrow> (rep_idx \<times> document) result" where
  "makeElementTimestamp name value = make_leaf (appendTimestamp name value)"

definition makeElementLong :: "string \<Rightarrow> int64 \<Rightarrow> document \<Rightarrow> (rep_idx \<times> document) result" where
  "makeElementLong name value = make_leaf (append_long name value)"

definition makeElementMinKey :: "string \<Rightarrow> document \<Rightarrow> (rep_idx \<times> document) result" where
  "makeElementMinKey name = make_leaf (appendMinKey name)"

definition makeElementMaxKey :: "string \<Rightarrow> document \<Rightarrow> (rep_idx \<times> document) result" where
  "makeElementMaxKey name = make_leaf (appendMaxKey name)"

definition make_from :: "string \<Rightarrow> string \<Rightarrow> (buf_builder \<Rightarrow> buf_builder result) \<Rightarrow> document \<Rightarrow> (rep_idx \<times> document) result" where
  "make_from name e write d =
     bindE (elem_type e) (\<lambda>t.
       if t = BSONType_to_int EOO then Inr (kInvalidRepIdx, d)
       else if t = BSONType_to_int Object then bindE (embeddedObject e) (\<lambda>obj. makeElementObject name obj d)
       else if t = BSONType_to_int Array then bindE (embeddedObject e) (\<lambda>obj. makeElementArray name obj d)
       else make_leaf write d)"

definition makeElement :: "string \<Rightarrow> document \<Rightarrow> (rep_idx \<times> document) result" where
  "makeElement e d = bindE (fieldName e) (\<lambda>name. make_from name e (append_element e) d)"

definition makeElementWithNewFieldName :: "string \<Rightarrow> string \<Rightarrow> document \<Rightarrow> (rep_idx \<times> document) result" where
  "makeElementWithNewFieldName name e = make_from name e (appendAs e name)"

text \<open>An empty document, and one whose root is backed by \<open>value\<close>; \<open>junk\<close> is what reserved bytes hold.\<close>

definition start_on :: "string \<Rightarrow> bool \<Rightarrow> buf_builder \<Rightarrow> document result" where
  "start_on junk inPlaceMode leafBuf =
     bindE (BSONObjBuilder_sub junk leafBuf) (\<lambda>(ob, b).
     bindE (asTempObj ob b) (\<lambda>(obj, ob, b).
     bindE (BSONObj_init obj) (\<lambda>obj.
       Inr \<lparr>dc_elements = [], dc_objects = [obj], dc_fieldNames = [], dc_leafBuf = b, dc_leafBuilder = ob,
            dc_damages = [], dc_inPlace = inPlaceMode\<rparr>)))"

definition Document_Impl :: "string \<Rightarrow> bool \<Rightarrow> document result" where
  "Document_Impl junk inPlaceMode = start_on junk inPlaceMode (BufBuilder 512)"

text \<open>\<open>Impl::reset\<close> keeps only the memory of the heap of leaves.\<close>

definition Impl_reset :: "string \<Rightarrow> bool \<Rightarrow> document \<Rightarrow> document result" where
  "Impl_reset junk inPlaceMode d = start_on junk inPlaceMode (bld_reset (dc_leafBuf d))"

definition makeRootElement_value :: "string \<Rightarrow> document \<Rightarrow> (rep_idx \<times> document) result" where
  "makeRootElement_value value d =
     bindE (makeNewRep d) (\<lambda>(i, d).
     bindE (insertObject value d) (\<lambda>(k, d).
     bindE (objsize value) (\<lambda>n.
       let d = insertFieldName i [] (set_rep i (\<lambda>rep. rep\<lparr>er_objIdx := Some k\<rparr>) d);
           c = (if n \<le> 5 then kInvalidRepIdx else kOpaqueRepIdx)
       in Inr (Rep i, set_rep i (\<lambda>rep. rep\<lparr>er_serialized := True, er_childLeft := c, er_childRight := c\<rparr>) d))))"

definition Document :: "string \<Rightarrow> document result" where
  "Document junk =
     bindE (Document_Impl junk False) (\<lambda>d. bindE (makeElementObject_new [] d) (\<lambda>(_, d). Inr d))"

definition Document_value :: "string \<Rightarrow> string \<Rightarrow> bool \<Rightarrow> document result" where
  "Document_value junk value inPlaceMode =
     bindE (Document_Impl junk inPlaceMode) (\<lambda>d. bindE (makeRootElement_value value d) (\<lambda>(_, d). Inr d))"

definition Document_reset :: "string \<Rightarrow> document \<Rightarrow> document result" where
  "Document_reset junk d =
     bindE (Impl_reset junk False d) (\<lambda>d. bindE (makeElementObject_new [] d) (\<lambda>(_, d). Inr d))"

definition Document_reset_value :: "string \<Rightarrow> string \<Rightarrow> bool \<Rightarrow> document \<Rightarrow> document result" where
  "Document_reset_value junk value inPlaceMode d =
     bindE (Impl_reset junk inPlaceMode d) (\<lambda>d. bindE (makeRootElement_value value d) (\<lambda>(_, d). Inr d))"

subsection \<open>Moving around\<close>

definition leftChild :: "rep_idx \<Rightarrow> document \<Rightarrow> (rep_idx \<times> document) result" where
  "leftChild this d = bindE (verify_ok this) (\<lambda>i. resolveLeftChild i d)"

definition rightChild :: "rep_idx \<Rightarrow> document \<Rightarrow> (rep_idx \<times> document) result option" where
  "rightChild this d = (case verify_ok this of Inl e \<Rightarrow> Some (Inl e) | Inr i \<Rightarrow> resolveRightChild i d)"

definition hasChildren :: "rep_idx \<Rightarrow> document \<Rightarrow> (bool \<times> document) result" where
  "hasChildren this d =
     bindE (verify_ok this) (\<lambda>i. bindE (resolveLeftChild i d) (\<lambda>(c, d). Inr (c \<noteq> kInvalidRepIdx, d)))"

definition leftSibling :: "rep_idx \<Rightarrow> document \<Rightarrow> rep_idx result" where
  "leftSibling this d = bindE (verify_ok this) (\<lambda>i. bindE (getElementRep i d) (\<lambda>rep. Inr (er_left rep)))"

definition rightSibling :: "rep_idx \<Rightarrow> document \<Rightarrow> (rep_idx \<times> document) result" where
  "rightSibling this d = bindE (verify_ok this) (\<lambda>i. resolveRightSibling i d)"

definition elem_parent :: "rep_idx \<Rightarrow> document \<Rightarrow> rep_idx result" where
  "elem_parent this d = bindE (verify_ok this) (\<lambda>i. bindE (getElementRep i d) (\<lambda>rep. Inr (er_parent rep)))"

definition elem_hasValue :: "rep_idx \<Rightarrow> document \<Rightarrow> bool result" where
  "elem_hasValue this d = bindE (verify_ok this) (\<lambda>i. bindE (getElementRep i d) (\<lambda>rep. Inr (rep_hasValue i rep)))"

definition getType :: "rep_idx \<Rightarrow> document \<Rightarrow> int result" where
  "getType this d = bindE (verify_ok this) (\<lambda>i. bindE (getElementRep i d) (\<lambda>rep. rep_type (i = kRootRepIdx) rep d))"

definition getFieldName :: "rep_idx \<Rightarrow> document \<Rightarrow> string result" where
  "getFieldName this d = bindE (verify_ok this) (\<lambda>i. bindE (getElementRep i d) (\<lambda>rep. rep_fieldName (i = kRootRepIdx) rep d))"

definition getValue :: "rep_idx \<Rightarrow> document \<Rightarrow> string result" where
  "getValue this d =
     bindE (verify_ok this) (\<lambda>i. bindE (getElementRep i d) (\<lambda>rep.
       if rep_hasValue i rep then getSerializedElement rep d else Inr eoo_element))"

subsection \<open>Adding and removing\<close>

definition set_left :: "rep_idx \<Rightarrow> rep_idx \<Rightarrow> document \<Rightarrow> document result" where
  "set_left x y d =
     (if x = kInvalidRepIdx then Inr d
      else bindE (rep_number x) (\<lambda>l. bindE (getElementRep l d) (\<lambda>_. Inr (set_rep l (\<lambda>rep. rep\<lparr>er_left := y\<rparr>) d))))"

definition set_right :: "rep_idx \<Rightarrow> rep_idx \<Rightarrow> document \<Rightarrow> document result" where
  "set_right x y d =
     (if x = kInvalidRepIdx then Inr d
      else bindE (rep_number x) (\<lambda>l. bindE (getElementRep l d) (\<lambda>_. Inr (set_rep l (\<lambda>rep. rep\<lparr>er_right := y\<rparr>) d))))"

definition addSiblingLeft :: "rep_idx \<Rightarrow> rep_idx \<Rightarrow> document \<Rightarrow> (status \<times> document) result" where
  "addSiblingLeft this e d =
     bindE (verify_ok this) (\<lambda>i.
     bindE (verify_ok e) (\<lambda>j.
     bindE (getElementRep j d) (\<lambda>newRep.
       if \<not> canAttach j newRep then Inr (getAttachmentError newRep, d)
       else
         bindE (getElementRep i d) (\<lambda>thisRep.
           if er_parent thisRep = kInvalidRepIdx
           then Inr (Status IllegalOperation ''Attempt to add a sibling to an element without a parent'' 0, d)
           else
             bindE (rep_number (er_parent thisRep)) (\<lambda>p.
             bindE (getElementRep p d) (\<lambda>_.
               let d = set_rep j (\<lambda>rep. rep\<lparr>er_parent := er_parent thisRep, er_right := this, er_left := er_left thisRep\<rparr>)
                         (disableInPlaceUpdates d)
               in bindE (set_right (er_left thisRep) e d) (\<lambda>d.
                    let d = set_rep i (\<lambda>rep. rep\<lparr>er_left := e\<rparr>) d;
                        d = set_rep p (\<lambda>rep. if er_childLeft rep = this then rep\<lparr>er_childLeft := e\<rparr> else rep) d
                    in bindE (deserialize (er_parent thisRep) d) (\<lambda>d. Inr (Status_OK, d)))))))))"

definition addSiblingRight :: "rep_idx \<Rightarrow> rep_idx \<Rightarrow> document \<Rightarrow> (status \<times> document) result" where
  "addSiblingRight this e d =
     bindE (verify_ok this) (\<lambda>i.
     bindE (verify_ok e) (\<lambda>j.
     bindE (getElementRep j d) (\<lambda>newRep.
       if \<not> canAttach j newRep then Inr (getAttachmentError newRep, d)
       else
         bindE (getElementRep i d) (\<lambda>thisRep.
           if er_parent thisRep = kInvalidRepIdx
           then Inr (Status IllegalOperation ''Attempt to add a sibling to an element without a parent'' 0, d)
           else
             bindE (rep_number (er_parent thisRep)) (\<lambda>p.
             bindE (getElementRep p d) (\<lambda>_.
             bindE (resolveRightSibling i (disableInPlaceUpdates d)) (\<lambda>(right, d).
               let d = set_rep j (\<lambda>rep. rep\<lparr>er_parent := er_parent thisRep, er_left := this, er_right := right\<rparr>) d;
                   d = set_rep i (\<lambda>rep. rep\<lparr>er_right := e\<rparr>) d
               in bindE (set_left right e d) (\<lambda>d.
                    let d = set_rep p (\<lambda>rep. if er_childRight rep = this then rep\<lparr>er_childRight := e\<rparr> else rep) d
                    in bindE (deserialize (er_parent thisRep) d) (\<lambda>d. Inr (Status_OK, d))))))))))"

definition elem_remove :: "rep_idx \<Rightarrow> document \<Rightarrow> (status \<times> document) result" where
  "elem_remove this d =
     bindE (verify_ok this) (\<lambda>i.
     bindE (resolveRightSibling i d) (\<lambda>(_, d).
     bindE (getElementRep i d) (\<lambda>thisRep.
       if er_parent thisRep = kInvalidRepIdx
       then Inr (Status IllegalOperation ''trying to remove a parentless element'' 0, d)
       else
         bindE (set_left (er_right thisRep) (er_left thisRep) (disableInPlaceUpdates d)) (\<lambda>d.
         bindE (set_right (er_left thisRep) (er_right thisRep) d) (\<lambda>d.
         bindE (rep_number (er_parent thisRep)) (\<lambda>p.
         bindE (getElementRep p d) (\<lambda>_.
           let d = set_rep p (\<lambda>rep. if er_childRight rep = this then rep\<lparr>er_childRight := er_left thisRep\<rparr> else rep) d;
               d = set_rep p (\<lambda>rep. if er_childLeft rep = this then rep\<lparr>er_childLeft := er_right thisRep\<rparr> else rep) d
           in bindE (deserialize (er_parent thisRep) d) (\<lambda>d.
                Inr (Status_OK, set_rep i (\<lambda>rep. rep\<lparr>er_parent := kInvalidRepIdx, er_left := kInvalidRepIdx,
                       er_right := kInvalidRepIdx\<rparr>) d)))))))))"

text \<open>\<open>None\<close>: the search for the last child does not end.\<close>

definition addChild :: "rep_idx \<Rightarrow> rep_idx \<Rightarrow> bool \<Rightarrow> document \<Rightarrow> (status \<times> document) result option" where
  "addChild this e front d =
     (case (verify_ok this, verify_ok e) of
        (Inr i, Inr j) \<Rightarrow>
          (case (getElementRep j d, getElementRep i d) of
             (Inr newRep, Inr thisRep) \<Rightarrow>
               if \<not> canAttach j newRep then Some (Inr (getAttachmentError newRep, d))
               else
                 (case rep_type (i = kRootRepIdx) thisRep d of
                    Inl err \<Rightarrow> Some (Inl err)
                  | Inr t \<Rightarrow>
                      if isLeafType t
                      then Some (Inr (Status IllegalOperation ''Attempt to add a child element to a non-object element'' 0, d))
                      else
                        (case (if front then Some (leftChild this (disableInPlaceUpdates d)) else rightChild this (disableInPlaceUpdates d)) of
                           None \<Rightarrow> None
                         | Some (Inl err) \<Rightarrow> Some (Inl err)
                         | Some (Inr (c, d)) \<Rightarrow>
                             (case c of
                                Rep _ \<Rightarrow> Some (if front then addSiblingLeft c e d else addSiblingRight c e d)
                              | _ \<Rightarrow>
                                  let d = set_rep i (\<lambda>rep. rep\<lparr>er_childLeft := e, er_childRight := e\<rparr>) d;
                                      d = set_rep j (\<lambda>rep. rep\<lparr>er_parent := this\<rparr>) d
                                  in Some (bindE (deserialize this d) (\<lambda>d. Inr (Status_OK, d))))))
           | (Inl err, _) \<Rightarrow> Some (Inl err)
           | (_, Inl err) \<Rightarrow> Some (Inl err))
      | (Inl err, _) \<Rightarrow> Some (Inl err)
      | (_, Inl err) \<Rightarrow> Some (Inl err))"

definition pushFront :: "rep_idx \<Rightarrow> rep_idx \<Rightarrow> document \<Rightarrow> (status \<times> document) result option" where
  "pushFront this e d = addChild this e True d"

definition pushBack :: "rep_idx \<Rightarrow> rep_idx \<Rightarrow> document \<Rightarrow> (status \<times> document) result option" where
  "pushBack this e d = addChild this e False d"

definition popFront :: "rep_idx \<Rightarrow> document \<Rightarrow> (status \<times> document) result" where
  "popFront this d =
     bindE (leftChild this d) (\<lambda>(c, d).
       case c of
         Rep _ \<Rightarrow> elem_remove c d
       | _ \<Rightarrow> Inr (Status EmptyArrayOperation ''popFront on empty'' 0, d))"

definition popBack :: "rep_idx \<Rightarrow> document \<Rightarrow> (status \<times> document) result option" where
  "popBack this d =
     (case rightChild this d of
        None \<Rightarrow> None
      | Some (Inl err) \<Rightarrow> Some (Inl err)
      | Some (Inr (c, d)) \<Rightarrow>
          (case c of
             Rep _ \<Rightarrow> Some (elem_remove c d)
           | _ \<Rightarrow> Some (Inr (Status EmptyArrayOperation ''popBack on empty'' 0, d))))"

end
