(* ===== verification/Mutable_Element.thy ===== *)
theory Mutable_Element imports Mutable_Document begin

subsection \<open>Changing values\<close>

text \<open>
  Whether the new value fits over the old one; then the events that say which bytes of the original
  document have to be overwritten: the type byte, if it differs, and the value.
\<close>

definition record_in_place :: "element_rep \<Rightarrow> element_rep \<Rightarrow> document \<Rightarrow> (bool \<times> document) result" where
  "record_in_place thisRep valueRep d =
     bindE (getSerializedElement thisRep d) (\<lambda>thisElt.
     bindE (getSerializedElement valueRep d) (\<lambda>valueElt.
     bindE (elem_size thisElt) (\<lambda>thisSize.
     bindE (elem_size valueElt) (\<lambda>valueSize.
       if thisSize \<noteq> valueSize then Inr (False, d)
       else
         bindE (getObject (er_objIdx thisRep) d) (\<lambda>target.
         bindE (getObject (er_objIdx valueRep) d) (\<lambda>source.
         bindE (getElementOffset target thisElt) (\<lambda>targetBase.
         bindE (getElementOffset source valueElt) (\<lambda>sourceBase.
         bindE (elem_type thisElt) (\<lambda>thisType.
         bindE (elem_type valueElt) (\<lambda>valueType.
         bindE (fieldNameSize thisElt) (\<lambda>n.
         bindE (elem_valuesize thisElt) (\<lambda>sz.
           let d = (if thisType \<noteq> valueType then recordDamageEvent targetBase sourceBase 1 d else d)
           in Inr (True, recordDamageEvent (targetBase + nat n + 1) (sourceBase + nat n + 1) (nat sz) d)))))))))))))"

definition setValue :: "nat \<Rightarrow> rep_idx \<Rightarrow> document \<Rightarrow> (status \<times> document) result" where
  "setValue i newValue d =
     (if i = kRootRepIdx then Inr (Status IllegalOperation ''Cannot call setValue on the root object'' 0, d)
      else
        bindE (resolveRightSibling i d) (\<lambda>(_, d).
        bindE (getElementRep i d) (\<lambda>thisRep.
        bindE (rep_number newValue) (\<lambda>j.
        bindE (getElementRep j d) (\<lambda>valueRep.
        bindE (rep_type (j = kRootRepIdx) valueRep d) (\<lambda>t.
        bindE (if canUpdateInPlace t \<and> dc_inPlace d \<and> rep_hasValue i thisRep \<and> er_objIdx thisRep \<noteq> Some kLeafObjIdx
               then record_in_place thisRep valueRep d else Inr (False, d)) (\<lambda>(inPlace, d).
          let d = (if \<not> inPlace then disableInPlaceUpdates d else d);
              valueRep = (if er_parent thisRep \<noteq> kInvalidRepIdx
                          then valueRep\<lparr>er_parent := er_parent thisRep, er_left := er_left thisRep, er_right := er_right thisRep\<rparr>
                          else valueRep);
              d = set_rep j (\<lambda>_. zeroRep) (set_rep i (\<lambda>_. valueRep) d)
          in bindE (deserialize (er_parent valueRep) d) (\<lambda>d. Inr (Status_OK, d)))))))))"

text \<open>
  The typed setters make a new element of the name of this one and put it in its place. \<open>copy\<close>: those for
  doubles, booleans, integers and elements look the name up in a copy of the representation, which is
  never recognised as that of the root.
\<close>

definition set_value_with :: "bool \<Rightarrow> (string \<Rightarrow> document \<Rightarrow> (rep_idx \<times> document) result) \<Rightarrow> rep_idx \<Rightarrow> document \<Rightarrow> (status \<times> document) result" where
  "set_value_with copy mk this d =
     bindE (verify_ok this) (\<lambda>i.
     bindE (getElementRep i d) (\<lambda>rep.
     bindE (rep_fieldName (\<not> copy \<and> i = kRootRepIdx) rep d) (\<lambda>name.
     bindE (mk name d) (\<lambda>(newValue, d). setValue i newValue d))))"

definition setValueDouble :: "uint64 \<Rightarrow> rep_idx \<Rightarrow> document \<Rightarrow> (status \<times> document) result" where
  "setValueDouble value = set_value_with True (\<lambda>name. makeElementDouble name value)"

definition setValueString :: "string \<Rightarrow> rep_idx \<Rightarrow> document \<Rightarrow> (status \<times> document) result" where
  "setValueString value = set_value_with False (\<lambda>name. makeElementString name value)"

definition setValueObject :: "string \<Rightarrow> rep_idx \<Rightarrow> document \<Rightarrow> (status \<times> document) result" where
  "setValueObject value = set_value_with False (\<lambda>name. makeElementObject name value)"

definition setValueArray :: "string \<Rightarrow> rep_idx \<Rightarrow> document \<Rightarrow> (status \<times> document) result" where
  "setValueArray value = set_value_with False (\<lambda>name. makeElementArray name value)"

definition setValueBinary :: "int32 \<Rightarrow> char \<Rightarrow> string \<Rightarrow> rep_idx \<Rightarrow> document \<Rightarrow> (status \<times> document) result" where
  "setValueBinary len binType data = set_value_with False (\<lambda>name. makeElementBinary name len binType data)"

definition setValueUndefined :: "rep_idx \<Rightarrow> document \<Rightarrow> (status \<times> document) result" where
  "setValueUndefined = set_value_with False makeElementUndefined"

definition setValueOID :: "string \<Rightarrow> rep_idx \<Rightarrow> document \<Rightarrow> (status \<times> document) result" where
  "setValueOID value = set_value_with False (\<lambda>name. makeElementOID name value)"

definition setValueBool :: "bool \<Rightarrow> rep_idx \<Rightarrow> document \<Rightarrow> (status \<times> document) result" where
  "setValueBool value = set_value_with True (\<lambda>name. makeElementBool name value)"

definition setValueDate :: "uint64 \<Rightarrow> rep_idx \<Rightarrow> document \<Rightarrow> (status \<times> document) result" where
  "setValueDate value = set_value_with False (\<lambda>name. makeElementDate name value)"

definition setValueNull :: "rep_idx \<Rightarrow> document \<Rightarrow> (status \<times> document) result" where
  "setValueNull = set_value_with False makeElementNull"

definition setValueRegex :: "string \<Rightarrow> string \<Rightarrow> rep_idx \<Rightarrow> document \<Rightarrow> (status \<times> document) result" where
  "setValueRegex re flags = set_value_with False (\<lambda>name. makeElementRegex name re flags)"

definition setValueDBRef :: "string \<Rightarrow> string \<Rightarrow> rep_idx \<Rightarrow> document \<Rightarrow> (status \<times> document) result" where
  "setValueDBRef ns oid = set_value_with False (\<lambda>name. makeElementDBRef name ns oid)"

definition setValueCode :: "string \<Rightarrow> rep_idx \<Rightarrow> document \<Rightarrow> (status \<times> document) result" where
  "setValueCode value = set_value_with False (\<lambda>name. makeElementCode name value)"

definition setValueSymbol :: "string \<Rightarrow> rep_idx \<Rightarrow> document \<Rightarrow> (status \<times> document) result" where
  "setValueSymbol value = set_value_with False (\<lambda>name. makeElementSymbol name value)"

definition setValueCodeWithScope :: "string \<Rightarrow> string \<Rightarrow> rep_idx \<Rightarrow> document \<Rightarrow> (status \<times> document) result" where
  "setValueCodeWithScope code scope = set_value_with False (\<lambda>name. makeElementCodeWithScope name code scope)"

definition setValueInt :: "int32 \<Rightarrow> rep_idx \<Rightarrow> document \<Rightarrow> (status \<times> document) result" where
  "setValueInt value = set_value_with True (\<lambda>name. makeElementInt name value)"

definition setValueTimestamp :: "uint64 \<Rightarrow> rep_idx \<Rightarrow> document \<Rightarrow> (status \<times> document) result" where
  "setValueTimestamp value = set_value_with False (\<lambda>name. makeElementTimestamp name value)"

definition setValueLong :: "int64 \<Rightarrow> rep_idx \<Rightarrow> document \<Rightarrow> (status \<times> document) result" where
  "setValueLong value = set_value_with True (\<lambda>name. makeElementLong name value)"

definition setValueMinKey :: "rep_idx \<Rightarrow> document \<Rightarrow> (status \<times> document) result" where
  "setValueMinKey = set_value_with False makeElementMinKey"

definition setValueMaxKey :: "rep_idx \<Rightarrow> document \<Rightarrow> (status \<times> document) result" where
  "setValueMaxKey = set_value_with False makeElementMaxKey"

definition setValueBSONElement :: "string \<Rightarrow> rep_idx \<Rightarrow> document \<Rightarrow> (status \<times> document) result" where
  "setValueBSONElement value this d =
     bindE (verify_ok this) (\<lambda>_.
     bindE (elem_type value) (\<lambda>t.
       if t = BSONType_to_int EOO then Inr (Status IllegalOperation (''Can'' @ [CHR 0x27] @ ''t set Element value to EOO'') 0, d)
       else set_value_with True (\<lambda>name. makeElementWithNewFieldName name value) this d))"

subsection \<open>Writing\<close>

definition numStr :: "nat \<Rightarrow> string" where
  "numStr i = decimal_digits i"

text \<open>
  \<open>writeElement\<close> and \<open>writeChildren\<close>, which call each other, and the loop of the latter, for the two kinds of
  builder: \<open>arr\<close> is the next index when the elements go into an array. The first argument bounds the depth of the recursion; \<open>None\<close> when it does
  not suffice. Walking over the children may make new representations, so the document is threaded through.
\<close>

datatype write_task = Element "string option" nat | Children nat | From rep_idx

primrec write_out :: "nat \<Rightarrow> string \<Rightarrow> write_task \<Rightarrow> nat option \<Rightarrow> document \<Rightarrow> buf_builder \<Rightarrow> (document \<times> buf_builder) result option" where
  "write_out 0 junk task arr d b = None"
| "write_out (Suc fuel) junk task arr d b =
     (case task of
        Element name i \<Rightarrow>
          bindO (Some (getElementRep i d)) (\<lambda>rep.
            if rep_hasValue i rep then
              Some (bindE (getSerializedElement rep d) (\<lambda>elt.
                    bindE (case arr of
                             Some k \<Rightarrow> appendAs elt (numStr k) b
                           | None \<Rightarrow> (case name of Some n \<Rightarrow> appendAs elt n b | None \<Rightarrow> append_element elt b)) (\<lambda>b.
                      Inr (d, b))))
            else
              bindO (Some (rep_type (i = kRootRepIdx) rep d)) (\<lambda>t.
              bindO (Some (case name of Some n \<Rightarrow> Inr n | None \<Rightarrow> rep_fieldName (i = kRootRepIdx) rep d)) (\<lambda>n.
              let array = (t = BSONType_to_int Array);
                  subName = (case arr of Some k \<Rightarrow> numStr k | None \<Rightarrow> n)
              in bindO (Some (if array then subarrayStart subName b else subobjStart subName b)) (\<lambda>b.
                 bindO (Some (BSONObjBuilder_sub junk b)) (\<lambda>(ob, b).
                 bindO (write_out fuel junk (Children i) (if array then Some 0 else None) d b) (\<lambda>(d, b).
                   Some (bindE (obj_done ob b) (\<lambda>(_, b). Inr (d, b)))))))))
      | Children i \<Rightarrow>
          bindO (Some (resolveLeftChild i d)) (\<lambda>(current, d). write_out fuel junk (From current) arr d b)
      | From current \<Rightarrow>
          (case current of
             Rep i \<Rightarrow>
               bindO (write_out fuel junk (Element None i) arr d b) (\<lambda>(d, b).
               bindO (Some (resolveRightSibling i d)) (\<lambda>(right, d).
                 write_out fuel junk (From right) (map_option Suc arr) d b))
           | _ \<Rightarrow> Some (Inr (d, b))))"

definition writeElement :: "nat \<Rightarrow> string \<Rightarrow> string option \<Rightarrow> nat \<Rightarrow> document \<Rightarrow> buf_builder \<Rightarrow> (document \<times> buf_builder) result option" where
  "writeElement fuel junk name i = write_out fuel junk (Element name i) None"

definition writeChildren :: "nat \<Rightarrow> string \<Rightarrow> nat option \<Rightarrow> nat \<Rightarrow> document \<Rightarrow> buf_builder \<Rightarrow> (document \<times> buf_builder) result option" where
  "writeChildren fuel junk arr i = write_out fuel junk (Children i) arr"

definition writeTo :: "nat \<Rightarrow> string \<Rightarrow> rep_idx \<Rightarrow> document \<Rightarrow> buf_builder \<Rightarrow> (document \<times> buf_builder) result option" where
  "writeTo fuel junk this d b =
     bindO (Some (verify_ok this)) (\<lambda>i.
     bindO (Some (getElementRep i d)) (\<lambda>rep.
     bindO (Some (rep_type (i = kRootRepIdx) rep d)) (\<lambda>t.
       if t \<noteq> BSONType_to_int Object then Some (Inl Verify)
       else if er_parent rep = kInvalidRepIdx \<and> i = kRootRepIdx then writeChildren fuel junk None i d b
       else writeElement fuel junk None i d b)))"

definition writeArrayTo :: "nat \<Rightarrow> string \<Rightarrow> rep_idx \<Rightarrow> document \<Rightarrow> buf_builder \<Rightarrow> (document \<times> buf_builder) result option" where
  "writeArrayTo fuel junk this d b =
     bindO (Some (verify_ok this)) (\<lambda>i.
     bindO (Some (getElementRep i d)) (\<lambda>rep.
     bindO (Some (rep_type (i = kRootRepIdx) rep d)) (\<lambda>t.
       if t \<noteq> BSONType_to_int Array then Some (Inl Verify) else writeChildren fuel junk (Some 0) i d b)))"

definition document_getObject :: "nat \<Rightarrow> string \<Rightarrow> document \<Rightarrow> (string \<times> document) result option" where
  "document_getObject fuel junk d =
     bindO (Some (BSONObjBuilder junk 512)) (\<lambda>(ob, b).
     bindO (writeTo fuel junk (Rep kRootRepIdx) d b) (\<lambda>(d, b).
     bindO (Some (obj_done ob b)) (\<lambda>(ob, b).
       Some (bindE (BSONObj_init (drop (ob_offset ob) (bld_data b))) (\<lambda>obj. Inr (obj, d))))))"

text \<open>
  Copying an element, of this document (\<open>Inl\<close>) or of another one (\<open>Inr\<close>): the first is written to the side and read back in,
  the second is written into the heap of leaves. The other document may get new representations while it is read.
\<close>

definition copy_within :: "nat \<Rightarrow> string \<Rightarrow> string option \<Rightarrow> nat \<Rightarrow> document \<Rightarrow> (rep_idx \<times> document) result option" where
  "copy_within fuel junk name i d =
     bindO (Some (BSONObjBuilder junk 512)) (\<lambda>(ob, b).
     bindO (writeElement fuel junk name i d b) (\<lambda>(d, b).
     bindO (Some (obj_done ob b)) (\<lambda>(ob, b).
     bindO (Some (BSONObj_init (drop (ob_offset ob) (bld_data b)))) (\<lambda>built.
     bindO (Some (firstElement built)) (\<lambda>newElement. Some (makeElement newElement d))))))"

definition copy_from :: "nat \<Rightarrow> string \<Rightarrow> string option \<Rightarrow> nat \<Rightarrow> document \<Rightarrow> document \<Rightarrow> (rep_idx \<times> document \<times> document) result option" where
  "copy_from fuel junk name i other d =
     (let leafRef = length (bld_data (dc_leafBuf d))
      in bindO (writeElement fuel junk name i other (dc_leafBuf d)) (\<lambda>(other, b).
         Some (bindE (insertLeafElement leafRef (d\<lparr>dc_leafBuf := b\<rparr>)) (\<lambda>(n, d). Inr (Rep n, d, other)))))"

definition rename :: "nat \<Rightarrow> string \<Rightarrow> string \<Rightarrow> rep_idx \<Rightarrow> document \<Rightarrow> (status \<times> document) result option" where
  "rename fuel junk newName this d =
     bindO (Some (verify_ok this)) (\<lambda>i.
       if i = kRootRepIdx
       then Some (Inr (Status IllegalOperation ''Invalid attempt to rename the root element of a document'' 0, d))
       else
         let d = disableInPlaceUpdates d
         in bindO (Some (getElementRep i d)) (\<lambda>rep.
            bindO (Some (rep_type False rep d)) (\<lambda>t.
            bindO (Some (if er_objIdx rep \<noteq> None \<and> \<not> isLeafType t then
                     bindE (resolveLeftChild i d) (\<lambda>(_, d).
                     bindE (resolveRightSibling i d) (\<lambda>(_, d).
                     bindE (deserialize this d) (\<lambda>d.
                       Inr (set_rep i (\<lambda>rep. rep\<lparr>er_array := (t = BSONType_to_int Array), er_objIdx := None\<rparr>) d))))
                   else Inr d)) (\<lambda>d.
            bindO (Some (getElementRep i d)) (\<lambda>rep.
              if rep_hasValue i rep then
                bindO (copy_within fuel junk (Some newName) i d) (\<lambda>(replacement, d).
                  Some (bindE (setValue i replacement d) (\<lambda>(_, d). Inr (Status_OK, d))))
              else Some (Inr (Status_OK, insertFieldName i newName d)))))))"

end
