(* ===== verification/Mutable_Algorithm.thy ===== *)
theory Mutable_Algorithm
  imports Mutable_Element
begin

text \<open>
  \<open>src/mongo/bson/mutable/algorithm.h\<close> and the rest of \<open>element.cpp\<close>: searching and counting among the children of
  an element, and appending new elements of each type. A handle that is not \<open>ok()\<close> is one of the two special indices.
  The loops follow the links; \<open>None\<close> means that they do not end. Sorting and removing duplicates, which take
  a comparison as an argument, are not modelled.
\<close>

definition isNumeric :: "rep_idx \<Rightarrow> document \<Rightarrow> bool result" where
  "isNumeric this d = bindE (getType this d) (\<lambda>t. Inr (t \<in> BSONType_to_int ` {NumberLong, NumberInt, NumberDouble}))"

definition isIntegral :: "rep_idx \<Rightarrow> document \<Rightarrow> bool result" where
  "isIntegral this d = bindE (getType this d) (\<lambda>t. Inr (t \<in> BSONType_to_int ` {NumberLong, NumberInt}))"

partial_function (option) findElementNamed :: "string \<Rightarrow> rep_idx \<Rightarrow> document \<Rightarrow> (rep_idx \<times> document) result option" where
  "findElementNamed name first d =
     (case first of
        Rep _ \<Rightarrow>
          (case getFieldName first d of
             Inl e \<Rightarrow> Some (Inl e)
           | Inr n \<Rightarrow>
               if name = n then Some (Inr (first, d))
               else (case rightSibling first d of
                       Inl e \<Rightarrow> Some (Inl e)
                     | Inr r \<Rightarrow> findElementNamed name (fst r) (snd r)))
      | _ \<Rightarrow> Some (Inr (first, d)))"

definition findFirstChildNamed :: "rep_idx \<Rightarrow> string \<Rightarrow> document \<Rightarrow> (rep_idx \<times> document) result option" where
  "findFirstChildNamed parent name d = bindO (Some (leftChild parent d)) (\<lambda>(c, d). findElementNamed name c d)"

primrec getNthLeftSibling :: "nat \<Rightarrow> rep_idx \<Rightarrow> document \<Rightarrow> rep_idx result" where
  "getNthLeftSibling 0 e d = Inr e"
| "getNthLeftSibling (Suc n) e d =
     (case e of Rep _ \<Rightarrow> bindE (leftSibling e d) (\<lambda>e. getNthLeftSibling n e d) | _ \<Rightarrow> Inr e)"

primrec getNthRightSibling :: "nat \<Rightarrow> rep_idx \<Rightarrow> document \<Rightarrow> (rep_idx \<times> document) result" where
  "getNthRightSibling 0 e d = Inr (e, d)"
| "getNthRightSibling (Suc n) e d =
     (case e of Rep _ \<Rightarrow> bindE (rightSibling e d) (\<lambda>(e, d). getNthRightSibling n e d) | _ \<Rightarrow> Inr (e, d))"

text \<open>The argument is an \<open>int\<close>; negating the least one is undefined.\<close>

definition getNthSibling :: "rep_idx \<Rightarrow> int \<Rightarrow> document \<Rightarrow> (rep_idx \<times> document) result" where
  "getNthSibling e n d =
     (if n < 0 then bindE (checked32 (- n)) (\<lambda>m. bindE (getNthLeftSibling (nat m) e d) (\<lambda>e. Inr (e, d)))
      else getNthRightSibling (nat n) e d)"

definition getNthChild :: "rep_idx \<Rightarrow> nat \<Rightarrow> document \<Rightarrow> (rep_idx \<times> document) result" where
  "getNthChild e n d = bindE (leftChild e d) (\<lambda>(c, d). getNthRightSibling n c d)"

partial_function (option) count_right :: "nat \<Rightarrow> rep_idx \<Rightarrow> document \<Rightarrow> (nat \<times> document) result option" where
  "count_right result e d =
     (case e of
        Rep _ \<Rightarrow> (case rightSibling e d of Inl err \<Rightarrow> Some (Inl err) | Inr r \<Rightarrow> count_right (Suc result) (fst r) (snd r))
      | _ \<Rightarrow> Some (Inr (result, d)))"

definition countSiblingsRight :: "rep_idx \<Rightarrow> document \<Rightarrow> (nat \<times> document) result option" where
  "countSiblingsRight e d = bindO (Some (rightSibling e d)) (\<lambda>(e, d). count_right 0 e d)"

partial_function (option) count_left :: "nat \<Rightarrow> rep_idx \<Rightarrow> document \<Rightarrow> nat result option" where
  "count_left result e d =
     (case e of
        Rep _ \<Rightarrow> (case leftSibling e d of Inl err \<Rightarrow> Some (Inl err) | Inr e' \<Rightarrow> count_left (Suc result) e' d)
      | _ \<Rightarrow> Some (Inr result))"

definition countSiblingsLeft :: "rep_idx \<Rightarrow> document \<Rightarrow> nat result option" where
  "countSiblingsLeft e d = bindO (Some (leftSibling e d)) (\<lambda>e. count_left 0 e d)"

definition countChildren :: "rep_idx \<Rightarrow> document \<Rightarrow> (nat \<times> document) result option" where
  "countChildren e d =
     bindO (Some (leftChild e d)) (\<lambda>(c, d).
       case c of
         Rep _ \<Rightarrow> bindO (countSiblingsRight c d) (\<lambda>(n, d). Some (Inr (1 + n, d)))
       | _ \<Rightarrow> Some (Inr (0, d)))"

text \<open>\<open>Element::operator[]\<close>\<close>

definition elem_nth :: "rep_idx \<Rightarrow> nat \<Rightarrow> document \<Rightarrow> (rep_idx \<times> document) result" where
  "elem_nth this n d = getNthChild this n d"

definition elem_named :: "rep_idx \<Rightarrow> string \<Rightarrow> document \<Rightarrow> (rep_idx \<times> document) result option" where
  "elem_named this name d = findFirstChildNamed this name d"

subsection \<open>Appending\<close>

text \<open>\<open>pushBack(getDocument().makeElement...(...))\<close>\<close>

definition push_made :: "(document \<Rightarrow> (rep_idx \<times> document) result) \<Rightarrow> rep_idx \<Rightarrow> document \<Rightarrow> (status \<times> document) result option" where
  "push_made mk this d = bindO (Some (mk d)) (\<lambda>(e, d). pushBack this e d)"

definition elem_appendDouble :: "string \<Rightarrow> uint64 \<Rightarrow> rep_idx \<Rightarrow> document \<Rightarrow> (status \<times> document) result option" where
  "elem_appendDouble name value = push_made (makeElementDouble name value)"

definition elem_appendString :: "string \<Rightarrow> string \<Rightarrow> rep_idx \<Rightarrow> document \<Rightarrow> (status \<times> document) result option" where
  "elem_appendString name value = push_made (makeElementString name value)"

definition elem_appendObject :: "string \<Rightarrow> string \<Rightarrow> rep_idx \<Rightarrow> document \<Rightarrow> (status \<times> document) result option" where
  "elem_appendObject name value = push_made (makeElementObject name value)"

definition elem_appendArray :: "string \<Rightarrow> string \<Rightarrow> rep_idx \<Rightarrow> document \<Rightarrow> (status \<times> document) result option" where
  "elem_appendArray name value = push_made (makeElementArray name value)"

definition elem_appendBinary :: "string \<Rightarrow> int32 \<Rightarrow> char \<Rightarrow> string \<Rightarrow> rep_idx \<Rightarrow> document \<Rightarrow> (status \<times> document) result option" where
  "elem_appendBinary name len binType data = push_made (makeElementBinary name len binType data)"

definition elem_appendUndefined :: "string \<Rightarrow> rep_idx \<Rightarrow> document \<Rightarrow> (status \<times> document) result option" where
  "elem_appendUndefined name = push_made (makeElementUndefined name)"

definition elem_appendOID :: "string \<Rightarrow> string \<Rightarrow> rep_idx \<Rightarrow> document \<Rightarrow> (status \<times> document) result option" where
  "elem_appendOID name value = push_made (makeElementOID name value)"

definition elem_appendBool :: "string \<Rightarrow> bool \<Rightarrow> rep_idx \<Rightarrow> document \<Rightarrow> (status \<times> document) result option" where
  "elem_appendBool name value = push_made (makeElementBool name value)"

definition elem_appendDate :: "string \<Rightarrow> uint64 \<Rightarrow> rep_idx \<Rightarrow> document \<Rightarrow> (status \<times> document) result option" where
  "elem_appendDate name value = push_made (makeElementDate name value)"

definition elem_appendNull :: "string \<Rightarrow> rep_idx \<Rightarrow> document \<Rightarrow> (status \<times> document) result option" where
  "elem_appendNull name = push_made (makeElementNull name)"

definition elem_appendRegex :: "string \<Rightarrow> string \<Rightarrow> string \<Rightarrow> rep_idx \<Rightarrow> document \<Rightarrow> (status \<times> document) result option" where
  "elem_appendRegex name re flags = push_made (makeElementRegex name re flags)"

definition elem_appendDBRef :: "string \<Rightarrow> string \<Rightarrow> string \<Rightarrow> rep_idx \<Rightarrow> document \<Rightarrow> (status \<times> document) result option" where
  "elem_appendDBRef name ns oid = push_made (makeElementDBRef name ns oid)"

definition elem_appendCode :: "string \<Rightarrow> string \<Rightarrow> rep_idx \<Rightarrow> document \<Rightarrow> (status \<times> document) result option" where
  "elem_appendCode name value = push_made (makeElementCode name value)"

definition elem_appendSymbol :: "string \<Rightarrow> string \<Rightarrow> rep_idx \<Rightarrow> document \<Rightarrow> (status \<times> document) result option" where
  "elem_appendSymbol name value = push_made (makeElementSymbol name value)"

definition elem_appendCodeWithScope :: "string \<Rightarrow> string \<Rightarrow> string \<Rightarrow> rep_idx \<Rightarrow> document \<Rightarrow> (status \<times> document) result option" where
  "elem_appendCodeWithScope name code scope = push_made (makeElementCodeWithScope name code scope)"

definition elem_appendInt :: "string \<Rightarrow> int32 \<Rightarrow> rep_idx \<Rightarrow> document \<Rightarrow> (status \<times> document) result option" where
  "elem_appendInt name value = push_made (makeElementInt name value)"

definition elem_appendTimestamp :: "string \<Rightarrow> uint64 \<Rightarrow> rep_idx \<Rightarrow> document \<Rightarrow> (status \<times> document) result option" where
  "elem_appendTimestamp name value = push_made (makeElementTimestamp name value)"

definition elem_appendLong :: "string \<Rightarrow> int64 \<Rightarrow> rep_idx \<Rightarrow> document \<Rightarrow> (status \<times> document) result option" where
  "elem_appendLong name value = push_made (makeElementLong name value)"

definition elem_appendMinKey :: "string \<Rightarrow> rep_idx \<Rightarrow> document \<Rightarrow> (status \<times> document) result option" where
  "elem_appendMinKey name = push_made (makeElementMinKey name)"

definition elem_appendMaxKey :: "string \<Rightarrow> rep_idx \<Rightarrow> document \<Rightarrow> (status \<times> document) result option" where
  "elem_appendMaxKey name = push_made (makeElementMaxKey name)"

definition elem_appendElement :: "string \<Rightarrow> rep_idx \<Rightarrow> document \<Rightarrow> (status \<times> document) result option" where
  "elem_appendElement value = push_made (makeElement value)"

end
