(* ===== verification/Mutable_Tree.thy ===== *)
theory Mutable_Tree
  imports Mutable_Element
begin

text \<open>
  The forest that a mutable document represents, and the invariant that relates the two.

  A node is a handle. Its children are those that have been visited and, as long as the end has not been
  reached, the elements that are still only bytes. A node is whole as long as neither it nor anything below it
  has changed: its bytes are then its value. A handle that is not live is one that a change of value has made meaningless.
\<close>

subsection \<open>Values\<close>

lemma isLeafType_container [simp]: "isLeafType (BSONType_to_int (value_type v)) \<longleftrightarrow> \<not> container v"
  by (cases v) (simp_all add: isLeafType_def container_def BSONType_to_int_def BSONType_table_def)

subsection \<open>Trees\<close>

record tree =
  t_live :: "nat set"
  t_kids :: "nat \<Rightarrow> nat list"
  t_more :: "nat \<Rightarrow> bson_elem list option"
  t_name :: "nat \<Rightarrow> string"
  t_val :: "nat \<Rightarrow> bson_value"
  t_whole :: "nat \<Rightarrow> bool"
  t_reps :: nat
  t_heap :: nat

definition item :: "tree \<Rightarrow> nat \<Rightarrow> bson_elem" where
  "item g c = (t_name g c, t_val g c)"

definition rest_of :: "tree \<Rightarrow> nat \<Rightarrow> bson_elem list" where
  "rest_of g i = (case t_more g i of None \<Rightarrow> [] | Some r \<Rightarrow> r)"

definition child_rel :: "tree \<Rightarrow> (nat \<times> nat) set" where
  "child_rel g = {(c, p). p \<in> t_live g \<and> c \<in> set (t_kids g p)}"

definition detached :: "tree \<Rightarrow> nat \<Rightarrow> bool" where
  "detached g c \<longleftrightarrow> (\<forall>p \<in> t_live g. c \<notin> set (t_kids g p))"

lemma detached_child_rel: "detached g c \<longleftrightarrow> c \<notin> Domain (child_rel g)"
  by (auto simp: detached_def child_rel_def)

definition pending :: "tree \<Rightarrow> nat" where
  "pending g = (\<Sum>i \<in> t_live g. weights (rest_of g i))"

definition node_shape :: "tree \<Rightarrow> nat \<Rightarrow> bool" where
  "node_shape g i \<longleftrightarrow>
     set (t_kids g i) \<subseteq> t_live g \<and> distinct (t_kids g i) \<and> wf_elems (rest_of g i) \<and>
     (\<not> container (t_val g i) \<longrightarrow> t_whole g i \<and> t_kids g i = [] \<and> t_more g i = None) \<and>
     (t_whole g i \<longrightarrow>
        sub_elems (t_val g i) = map (item g) (t_kids g i) @ rest_of g i \<and> (\<forall>c \<in> set (t_kids g i). t_whole g c)) \<and>
     (t_kids g i = [] \<and> t_more g i \<noteq> None \<longrightarrow> t_more g i = Some (sub_elems (t_val g i)))"

definition shape :: "tree \<Rightarrow> bool" where
  "shape g \<longleftrightarrow>
     (\<forall>i \<in> t_live g. node_shape g i) \<and>
     (\<forall>p \<in> t_live g. \<forall>q \<in> t_live g. set (t_kids g p) \<inter> set (t_kids g q) \<noteq> {} \<longrightarrow> p = q) \<and>
     acyclic (child_rel g) \<and> 0 \<in> t_live g \<and> detached g 0"

subsection \<open>Links\<close>

abbreviation node :: "document \<Rightarrow> nat \<Rightarrow> element_rep" where
  "node d i \<equiv> dc_elements d ! i"

definition head_idx :: "nat list \<Rightarrow> rep_idx \<Rightarrow> rep_idx" where
  "head_idx xs r = (case xs of [] \<Rightarrow> r | x # _ \<Rightarrow> Rep x)"

definition last_idx :: "nat list \<Rightarrow> rep_idx \<Rightarrow> rep_idx" where
  "last_idx xs l = (if xs = [] then l else Rep (last xs))"

fun chain :: "document \<Rightarrow> nat \<Rightarrow> rep_idx \<Rightarrow> nat list \<Rightarrow> rep_idx \<Rightarrow> bool" where
  "chain d p l [] r \<longleftrightarrow> True"
| "chain d p l (c # cs) r \<longleftrightarrow>
     er_left (node d c) = l \<and> er_parent (node d c) = Rep p \<and> er_right (node d c) = head_idx cs r \<and> chain d p (Rep c) cs r"

definition end_idx :: "tree \<Rightarrow> nat \<Rightarrow> rep_idx" where
  "end_idx g i = (if t_more g i = None then kInvalidRepIdx else kOpaqueRepIdx)"

definition links :: "document \<Rightarrow> tree \<Rightarrow> nat \<Rightarrow> bool" where
  "links d g i \<longleftrightarrow>
     er_childLeft (node d i) = head_idx (t_kids g i) (end_idx g i) \<and>
     er_childRight (node d i) = (if t_more g i = None then last_idx (t_kids g i) kInvalidRepIdx else kOpaqueRepIdx) \<and>
     chain d i kInvalidRepIdx (t_kids g i) (end_idx g i)"

definition unlinked :: "element_rep \<Rightarrow> bool" where
  "unlinked rep \<longleftrightarrow> er_parent rep = kInvalidRepIdx \<and> er_left rep = kInvalidRepIdx \<and> er_right rep = kInvalidRepIdx"

lemma head_idx_simps [simp]: "head_idx [] r = r" "head_idx (x # xs) r = Rep x"
  by (simp_all add: head_idx_def)

lemma last_idx_simps [simp]: "last_idx [] l = l" "last_idx (xs @ [x]) l = Rep x"
  by (simp_all add: last_idx_def)

lemma last_idx_Cons: "last_idx (x # xs) l = last_idx xs (Rep x)"
  by (simp add: last_idx_def)

lemma head_idx_append: "head_idx (xs @ ys) r = head_idx xs (head_idx ys r)"
  by (cases xs) simp_all

lemma chain_append:
  "chain d p l (xs @ ys) r \<longleftrightarrow> chain d p l xs (head_idx ys r) \<and> chain d p (last_idx xs l) ys r"
  by (induction xs arbitrary: l) (auto simp: last_idx_Cons head_idx_append)

lemma chain_cong:
  "(\<And>c. c \<in> set cs \<Longrightarrow> er_left (node d' c) = er_left (node d c) \<and> er_right (node d' c) = er_right (node d c) \<and>
       er_parent (node d' c) = er_parent (node d c)) \<Longrightarrow>
   chain d' p l cs r \<longleftrightarrow> chain d p l cs r"
  by (induction cs arbitrary: l) auto

lemma chain_end:
  assumes "chain d p l cs r" "distinct cs"
    "\<And>c. c \<in> set cs \<Longrightarrow> er_left (node d' c) = er_left (node d c) \<and> er_parent (node d' c) = er_parent (node d c) \<and>
       er_right (node d' c) = (if c = last cs then r' else er_right (node d c))"
  shows "chain d' p l cs r'"
  using assms
proof (induction cs arbitrary: l)
  case (Cons c cs)
  have "chain d' p (Rep c) cs r'"
  proof (rule Cons.IH)
    show "chain d p (Rep c) cs r" "distinct cs" using Cons.prems by simp_all
    fix x assume "x \<in> set cs"
    then show "er_left (node d' x) = er_left (node d x) \<and> er_parent (node d' x) = er_parent (node d x) \<and>
       er_right (node d' x) = (if x = last cs then r' else er_right (node d x))"
      using Cons.prems(3) [of x] by (auto split: if_splits)
  qed
  moreover have "er_right (node d' c) = head_idx cs r'"
    using Cons.prems by (cases cs) auto
  ultimately show ?case using Cons.prems(1) Cons.prems(3) [of c] by simp
qed simp

lemma chain_parent: "chain d p l cs r \<Longrightarrow> c \<in> set cs \<Longrightarrow> er_parent (node d c) = Rep p"
  by (induction cs arbitrary: l) auto

subsection \<open>Bytes\<close>

definition bytes_at :: "document \<Rightarrow> nat \<Rightarrow> string \<Rightarrow> bool" where
  "bytes_at d i bs \<longleftrightarrow>
     (\<exists>k post. er_objIdx (node d i) = Some k \<and> k < length (dc_objects d) \<and> 4 \<le> er_offset (node d i) \<and>
        drop (er_offset (node d i)) (dc_objects d ! k) = bs @ post \<and> (k = kLeafObjIdx \<longrightarrow> post \<noteq> []))"

definition content :: "document \<Rightarrow> tree \<Rightarrow> nat \<Rightarrow> bool" where
  "content d g i \<longleftrightarrow>
     er_serialized (node d i) = t_whole g i \<and> nul \<notin> set (t_name g i) \<and> wf_value (t_val g i) \<and>
     (i = 0 \<longrightarrow> t_name g i = [] \<and> value_type (t_val g i) = Object) \<and>
     (case er_objIdx (node d i) of
        None \<Rightarrow>
          \<not> t_whole g i \<and> t_val g i = (if er_array (node d i) then VArray [] else VObject []) \<and>
          (\<exists>post. drop (er_offset (node d i)) (dc_fieldNames d) = cstring (t_name g i) @ post)
      | Some k \<Rightarrow>
          if i = 0 then k \<noteq> kLeafObjIdx \<and> k < length (dc_objects d) \<and> dc_objects d ! k = encode (sub_elems (t_val g i))
          else bytes_at d i (encode_elem (item g i)))"

text \<open>Where the bytes of the children are that have not been visited.\<close>

definition tails :: "document \<Rightarrow> tree \<Rightarrow> nat \<Rightarrow> bool" where
  "tails d g i \<longleftrightarrow>
     (\<forall>r. t_more g i = Some r \<longrightarrow>
        (if t_kids g i = [] then (if i = 0 then er_objIdx (node d i) \<noteq> None else t_whole g i)
         else bytes_at d (last (t_kids g i)) (encode_elem (item g (last (t_kids g i))) @ encode_elems r @ [nul])))"

definition heap_ok :: "document \<Rightarrow> bool" where
  "heap_ok d \<longleftrightarrow>
     builder_ok (dc_leafBuf d) \<and> 4 \<le> length (bld_data (dc_leafBuf d)) \<and>
     dc_leafBuilder d = \<lparr>ob_offset = 0, ob_doneCalled = False\<rparr> \<and> dc_objects d \<noteq> [] \<and>
     dc_objects d ! kLeafObjIdx =
       le_bytes 4 (length (bld_data (dc_leafBuf d)) + 1) @ drop 4 (bld_data (dc_leafBuf d)) @ [nul] \<and>
     (\<forall>obj \<in> set (dc_objects d). int (length obj) \<le> BSONObjMaxInternalSize)"

text \<open>Bounds on the number of reps, those of unvisited elements included, and on the size of the heap of leaves.\<close>

definition budget_ok :: "tree \<Rightarrow> document \<Rightarrow> bool" where
  "budget_ok g d \<longleftrightarrow>
     length (dc_elements d) + pending g \<le> t_reps g \<and> t_reps g \<le> kMaxRepIdx \<and> length (bld_data (dc_leafBuf d)) \<le> t_heap g"

definition document_ok :: "tree \<Rightarrow> document \<Rightarrow> bool" where
  "document_ok g d \<longleftrightarrow>
     shape g \<and> (\<forall>i \<in> t_live g. i < length (dc_elements d) \<and> content d g i \<and> links d g i \<and> tails d g i \<and>
       (detached g i \<longrightarrow> unlinked (node d i))) \<and>
     heap_ok d \<and> budget_ok g d"

text \<open>What the invariant says of a node depends on a few fields only.\<close>

definition same_content :: "document \<Rightarrow> document \<Rightarrow> nat \<Rightarrow> bool" where
  "same_content d d' i \<longleftrightarrow>
     er_objIdx (node d' i) = er_objIdx (node d i) \<and> er_offset (node d' i) = er_offset (node d i) \<and>
     er_array (node d' i) = er_array (node d i) \<and> er_serialized (node d' i) = er_serialized (node d i)"

lemma bytes_at_cong:
  "same_content d d' i \<Longrightarrow> dc_objects d' = dc_objects d \<Longrightarrow> bytes_at d' i bs = bytes_at d i bs"
  by (simp add: bytes_at_def same_content_def)

lemma content_cong:
  assumes "same_content d d' i" "dc_objects d' = dc_objects d" "dc_fieldNames d' = dc_fieldNames d"
    "t_name g' i = t_name g i" "t_val g' i = t_val g i" "t_whole g' i = t_whole g i"
  shows "content d' g' i = content d g i"
proof -
  note same = assms(1) [unfolded same_content_def, THEN conjunct1] assms(1) [unfolded same_content_def, THEN conjunct2]
  show ?thesis by (simp only: content_def item_def assms(2-6) same bytes_at_cong [OF assms(1,2)])
qed

lemma tails_cong:
  assumes "same_content d d' i" "\<And>c. c \<in> set (t_kids g i) \<Longrightarrow> same_content d d' c" "dc_objects d' = dc_objects d"
    "t_kids g' i = t_kids g i" "t_more g' i = t_more g i" "t_whole g' i = t_whole g i"
    "\<And>c. c \<in> set (t_kids g i) \<Longrightarrow> item g' c = item g c"
  shows "tails d' g' i = tails d g i"
proof (cases "t_kids g i = []")
  case True
  then show ?thesis using assms(1) by (simp only: tails_def same_content_def assms(4-6)) simp
next
  case False
  then have "last (t_kids g i) \<in> set (t_kids g i)" by simp
  with False show ?thesis
    by (simp only: tails_def assms(4,5) assms(7) bytes_at_cong [OF assms(2) assms(3)] if_False)
qed

lemma heap_ok_cong:
  assumes "dc_objects d' = dc_objects d" "dc_leafBuf d' = dc_leafBuf d" "dc_leafBuilder d' = dc_leafBuilder d"
  shows "heap_ok d' = heap_ok d"
  using assms by (simp add: heap_ok_def)

lemma budget_ok_cong:
  assumes "budget_ok g d" "length (dc_elements d') + pending g' \<le> length (dc_elements d) + pending g"
    "t_reps g' = t_reps g" "t_heap g' = t_heap g" "dc_leafBuf d' = dc_leafBuf d"
  shows "budget_ok g' d'"
  using assms by (simp add: budget_ok_def)

lemma links_cong:
  assumes "er_childLeft (node d' i) = er_childLeft (node d i)" "er_childRight (node d' i) = er_childRight (node d i)"
    "\<And>c. c \<in> set (t_kids g i) \<Longrightarrow> er_left (node d' c) = er_left (node d c) \<and> er_right (node d' c) = er_right (node d c) \<and>
       er_parent (node d' c) = er_parent (node d c)"
    "t_kids g' i = t_kids g i" "t_more g' i = t_more g i"
  shows "links d' g' i = links d g i"
  using assms chain_cong [of "t_kids g i" d' d i kInvalidRepIdx "end_idx g i"] by (simp add: links_def end_idx_def)

subsection \<open>Elementary consequences\<close>

lemma okD:
  assumes "document_ok g d"
  shows "shape g" "i \<in> t_live g \<Longrightarrow> i < length (dc_elements d)" "i \<in> t_live g \<Longrightarrow> content d g i"
    "i \<in> t_live g \<Longrightarrow> links d g i" "i \<in> t_live g \<Longrightarrow> tails d g i"
    "i \<in> t_live g \<Longrightarrow> detached g i \<Longrightarrow> unlinked (node d i)" "heap_ok d"
    "length (dc_elements d) + pending g \<le> kMaxRepIdx" "budget_ok g d"
  using assms by (simp_all add: document_ok_def budget_ok_def)

lemma shapeD:
  assumes "shape g"
  shows "i \<in> t_live g \<Longrightarrow> node_shape g i"
    "p \<in> t_live g \<Longrightarrow> q \<in> t_live g \<Longrightarrow> c \<in> set (t_kids g p) \<Longrightarrow> c \<in> set (t_kids g q) \<Longrightarrow> p = q"
    "acyclic (child_rel g)" "0 \<in> t_live g" "detached g 0"
  using assms by (auto simp: shape_def)

lemma node_shapeD:
  assumes "node_shape g i"
  shows "set (t_kids g i) \<subseteq> t_live g" "distinct (t_kids g i)" "wf_elems (rest_of g i)"
    "\<not> container (t_val g i) \<Longrightarrow> t_whole g i" "\<not> container (t_val g i) \<Longrightarrow> t_kids g i = []"
    "\<not> container (t_val g i) \<Longrightarrow> t_more g i = None"
    "t_whole g i \<Longrightarrow> sub_elems (t_val g i) = map (item g) (t_kids g i) @ rest_of g i"
    "t_whole g i \<Longrightarrow> c \<in> set (t_kids g i) \<Longrightarrow> t_whole g c"
    "t_kids g i = [] \<Longrightarrow> t_more g i = Some r \<Longrightarrow> r = sub_elems (t_val g i)"
  using assms by (auto simp: node_shape_def)

lemma kid_live:
  assumes "document_ok g d" "p \<in> t_live g" "c \<in> set (t_kids g p)"
  shows "c \<in> t_live g"
  using node_shapeD(1) [OF shapeD(1) [OF okD(1) [OF assms(1)] assms(2)]] assms(3) by blast

lemma live_finite: "document_ok g d \<Longrightarrow> finite (t_live g)"
  by (rule finite_subset [of _ "{..<length (dc_elements d)}"]) (auto dest: okD(2))

lemma kid_parent:
  assumes "document_ok g d" "p \<in> t_live g" "c \<in> set (t_kids g p)"
  shows "er_parent (node d c) = Rep p"
  using okD(4) [OF assms(1,2)] assms(3) by (auto simp: links_def dest: chain_parent)

lemma parent_cases:
  assumes "document_ok g d" "c \<in> t_live g"
  obtains "detached g c" "unlinked (node d c)"
    | p where "p \<in> t_live g" "c \<in> set (t_kids g p)" "er_parent (node d c) = Rep p"
  using okD(6) [OF assms] kid_parent [OF assms(1)] by (auto simp: detached_def)

end
