(* ===== verification/Mutable_Resolve.thy ===== *)
theory Mutable_Resolve
  imports Mutable_Tree
begin

text \<open>
  Visiting elements: what \<open>resolveLeftChild\<close>, \<open>resolveRightSibling\<close> and \<open>resolveRightChild\<close> do to the forest. They
  only ever make the next unvisited child of a node into a node of its own, or find that there is none left.
\<close>

subsection \<open>Visiting one element\<close>

definition found :: "nat \<Rightarrow> nat \<Rightarrow> tree \<Rightarrow> tree" where
  "found c i g =
     (case rest_of g i of
        [] \<Rightarrow> g
      | (n, v) # r \<Rightarrow>
          g\<lparr>t_live := insert c (t_live g), t_kids := (t_kids g)(i := t_kids g i @ [c], c := []),
            t_more := (t_more g)(i := Some r, c := if container v then Some (sub_elems v) else None),
            t_name := (t_name g)(c := n), t_val := (t_val g)(c := v), t_whole := (t_whole g)(c := True)\<rparr>)"

definition closed :: "nat \<Rightarrow> tree \<Rightarrow> tree" where
  "closed i g = g\<lparr>t_more := (t_more g)(i := None)\<rparr>"

inductive visits :: "tree \<Rightarrow> tree \<Rightarrow> bool" for g where
  visits_refl: "visits g g"
| visits_found: "visits g g' \<Longrightarrow> i \<in> t_live g' \<Longrightarrow> c \<notin> t_live g' \<Longrightarrow> t_more g' i = Some (e # r) \<Longrightarrow> visits g (found c i g')"
| visits_closed: "visits g g' \<Longrightarrow> i \<in> t_live g' \<Longrightarrow> t_more g' i = Some [] \<Longrightarrow> visits g (closed i g')"

lemma visits_trans: "visits h k \<Longrightarrow> visits g h \<Longrightarrow> visits g k"
  by (induction rule: visits.induct) (auto intro: visits.intros)

lemma visits_budget: "visits g g' \<Longrightarrow> t_reps g' = t_reps g \<and> t_heap g' = t_heap g"
  by (induction rule: visits.induct) (auto simp: found_def closed_def split: list.split)

lemma visits_frame:
  assumes "visits g g'"
  shows "t_live g \<subseteq> t_live g'"
    "i \<in> t_live g \<Longrightarrow> t_name g' i = t_name g i \<and> t_val g' i = t_val g i \<and> t_whole g' i = t_whole g i"
    "i \<in> t_live g \<Longrightarrow> \<exists>new. t_kids g' i = t_kids g i @ new \<and> set new \<inter> t_live g = {}"
    "i \<in> t_live g \<Longrightarrow> t_more g i = None \<Longrightarrow> t_kids g' i = t_kids g i \<and> t_more g' i = None"
proof -
  have all: "t_live g \<subseteq> t_live g' \<and> (\<forall>i \<in> t_live g. t_name g' i = t_name g i \<and> t_val g' i = t_val g i \<and> t_whole g' i = t_whole g i \<and>
    (\<exists>new. t_kids g' i = t_kids g i @ new \<and> set new \<inter> t_live g = {}) \<and> (t_more g i = None \<longrightarrow> t_kids g' i = t_kids g i \<and> t_more g' i = None))"
    using assms
  proof (induction rule: visits.induct)
    case visits_refl
    show ?case by simp
  next
    case (visits_found g' i c e r)
    obtain n v where e: "e = (n, v)" by fastforce
    show ?case
    proof (rule conjI [OF _ ballI])
      show "t_live g \<subseteq> t_live (found c i g')" using visits_found by (auto simp: found_def rest_of_def e)
      fix j assume j: "j \<in> t_live g"
      with visits_found.IH have jc: "j \<in> t_live g'" and jn: "j \<noteq> c" using visits_found.hyps by auto
      from visits_found.IH j obtain new where new: "t_kids g' j = t_kids g j @ new" "set new \<inter> t_live g = {}" by auto
      have cn: "c \<notin> t_live g" using visits_found by auto
      show "t_name (found c i g') j = t_name g j \<and> t_val (found c i g') j = t_val g j \<and> t_whole (found c i g') j = t_whole g j \<and>
        (\<exists>new. t_kids (found c i g') j = t_kids g j @ new \<and> set new \<inter> t_live g = {}) \<and>
        (t_more g j = None \<longrightarrow> t_kids (found c i g') j = t_kids g j \<and> t_more (found c i g') j = None)"
      proof (cases "i = j")
        case True
        with visits_found jn j new cn show ?thesis by (auto simp: found_def rest_of_def e)
      next
        case False
        with visits_found jn j new cn show ?thesis by (auto simp: found_def rest_of_def e)
      qed
    qed
  next
    case (visits_closed g' i)
    then show ?case by (auto simp: closed_def)
  qed
  show "t_live g \<subseteq> t_live g'" using all by blast
  assume i: "i \<in> t_live g"
  show "t_name g' i = t_name g i \<and> t_val g' i = t_val g i \<and> t_whole g' i = t_whole g i" using all i by blast
  show "\<exists>new. t_kids g' i = t_kids g i @ new \<and> set new \<inter> t_live g = {}" using all i by blast
  show "t_more g i = None \<Longrightarrow> t_kids g' i = t_kids g i \<and> t_more g' i = None" using all i by blast
qed

subsection \<open>The forest stays well-formed\<close>

lemma found_simps:
  assumes "t_more g i = Some ((n, v) # r)" "i \<noteq> c"
  shows "t_live (found c i g) = insert c (t_live g)"
    "t_kids (found c i g) = (t_kids g)(i := t_kids g i @ [c], c := [])"
    "t_more (found c i g) = (t_more g)(i := Some r, c := if container v then Some (sub_elems v) else None)"
    "t_name (found c i g) = (t_name g)(c := n)" "t_val (found c i g) = (t_val g)(c := v)"
    "t_whole (found c i g) = (t_whole g)(c := True)"
    "rest_of (found c i g) = (rest_of g)(i := r, c := sub_elems v)"
    "item (found c i g) = (item g)(c := (n, v))"
    "t_reps (found c i g) = t_reps g" "t_heap (found c i g) = t_heap g"
  using assms by (auto simp: found_def rest_of_def item_def fun_eq_iff)

lemma found_child_rel:
  assumes "t_more g i = Some ((n, v) # r)" "i \<noteq> c" "i \<in> t_live g" "c \<notin> t_live g"
  shows "child_rel (found c i g) = insert (c, i) (child_rel g)"
  using assms by (auto simp: child_rel_def found_simps split: if_splits)

lemma detached_found:
  assumes "t_more g i = Some ((n, v) # r)" "i \<noteq> c" "i \<in> t_live g" "c \<notin> t_live g"
  shows "detached (found c i g) j \<longleftrightarrow> j \<noteq> c \<and> detached g j"
  by (auto simp: detached_child_rel found_child_rel [OF assms])

lemma not_reach_dead:
  assumes "shape g" "c \<notin> t_live g" "i \<in> t_live g"
  shows "(i, c) \<notin> (child_rel g)\<^sup>*"
proof
  assume "(i, c) \<in> (child_rel g)\<^sup>*"
  then show False using assms by (cases rule: rtranclE) (auto simp: child_rel_def)
qed

lemma shape_found:
  assumes g: "shape g" and more: "t_more g i = Some ((n, v) # r)" and i: "i \<in> t_live g" and c: "c \<notin> t_live g"
  shows "shape (found c i g)"
proof -
  have ic: "i \<noteq> c" using i c by blast
  note simps = found_simps [OF more ic]
  have kids: "c \<notin> set (t_kids g j)" if "j \<in> t_live g" for j
    using node_shapeD(1) [OF shapeD(1) [OF g that]] c by blast
  have "node_shape (found c i g) j" if j: "j \<in> t_live (found c i g)" for j
  proof (cases "j = c")
    case True
    have wf: "wf_value v" using node_shapeD(3) [OF shapeD(1) [OF g i]] more by (simp add: rest_of_def)
    show ?thesis using True sub_elems_wf [OF wf] by (auto simp: node_shape_def simps)
  next
    case False
    then have j': "j \<in> t_live g" using j by (simp add: simps)
    note nd = shapeD(1) [OF g j']
    have map: "map (item (found c i g)) (t_kids g j) = map (item g) (t_kids g j)"
      using kids [OF j'] by (auto simp: simps)
    show ?thesis
    proof (cases "j = i")
      case True
      have co: "container (t_val g i)" using node_shapeD(6) [OF nd] more True by auto
      then show ?thesis
        using nd True map ic c kids [OF i] more by (auto simp: node_shape_def simps rest_of_def)
    next
      case ji: False
      then show ?thesis
        using nd False map c kids [OF j'] by (auto simp: node_shape_def simps)
    qed
  qed
  moreover have "p = q" if "p \<in> t_live (found c i g)" "q \<in> t_live (found c i g)"
    "set (t_kids (found c i g) p) \<inter> set (t_kids (found c i g) q) \<noteq> {}" for p q
    using that kids shapeD(2) [OF g, of p q] by (auto simp: simps split: if_splits)
  moreover have "acyclic (child_rel (found c i g))"
    using not_reach_dead [OF g c i] shapeD(3) [OF g] by (simp add: found_child_rel [OF more ic i c])
  moreover have "0 \<in> t_live (found c i g)" using shapeD(4) [OF g] by (simp add: simps)
  moreover have "detached (found c i g) 0"
    using shapeD(4,5) [OF g] c by (cases "c = 0") (auto simp: detached_found [OF more ic i c])
  ultimately show ?thesis unfolding shape_def by blast
qed

lemma closed_simps [simp]:
  "t_live (closed i g) = t_live g" "t_kids (closed i g) = t_kids g" "t_more (closed i g) = (t_more g)(i := None)"
  "t_name (closed i g) = t_name g" "t_val (closed i g) = t_val g" "t_whole (closed i g) = t_whole g"
  "t_reps (closed i g) = t_reps g" "t_heap (closed i g) = t_heap g"
  "item (closed i g) = item g" "child_rel (closed i g) = child_rel g" "detached (closed i g) = detached g"
  by (auto simp: closed_def item_def child_rel_def detached_def fun_eq_iff)

lemma rest_of_closed: "t_more g i = Some [] \<Longrightarrow> rest_of (closed i g) = rest_of g"
  by (auto simp: rest_of_def fun_eq_iff)

lemma shape_closed:
  assumes g: "shape g" and more: "t_more g i = Some []" and i: "i \<in> t_live g"
  shows "shape (closed i g)"
proof -
  have "node_shape (closed i g) j" if "j \<in> t_live g" for j
    using shapeD(1) [OF g that] by (simp add: node_shape_def rest_of_closed [OF more])
  then show ?thesis using g by (simp add: shape_def)
qed

lemma pending_found:
  assumes "finite (t_live g)" "t_more g i = Some ((n, v) # r)" "i \<in> t_live g" "c \<notin> t_live g"
  shows "Suc (pending (found c i g)) = pending g"
proof -
  have ic: "i \<noteq> c" using assms by blast
  note simps = found_simps [OF assms(2) ic]
  have "pending (found c i g) = weights (sub_elems v) + (\<Sum>j \<in> t_live g. weights (rest_of (found c i g) j))"
    using assms(1,4) by (simp add: pending_def simps)
  also have "(\<Sum>j \<in> t_live g. weights (rest_of (found c i g) j)) =
      weights r + (\<Sum>j \<in> t_live g - {i}. weights (rest_of (found c i g) j))"
    using assms(1,3) ic by (simp add: sum.remove simps)
  also have "(\<Sum>j \<in> t_live g - {i}. weights (rest_of (found c i g) j)) = (\<Sum>j \<in> t_live g - {i}. weights (rest_of g j))"
    using assms(4) by (intro sum.cong) (auto simp: simps)
  finally show ?thesis
    using sum.remove [OF assms(1,3), of "\<lambda>j. weights (rest_of g j)"] assms(2)
    by (simp add: pending_def weight_sub_elems) (simp add: rest_of_def)
qed

lemma pending_closed: "t_more g i = Some [] \<Longrightarrow> pending (closed i g) = pending g"
  by (simp add: pending_def rest_of_closed)

subsection \<open>One step in the document\<close>

text \<open>What the vector looks like after the next child of \<open>i\<close> has become the node \<open>c\<close>.\<close>

definition linked_found :: "document \<Rightarrow> tree \<Rightarrow> nat \<Rightarrow> element_rep \<Rightarrow> document" where
  "linked_found d g i new =
     (let c = length (dc_elements d); E = dc_elements d @ [new]
      in d\<lparr>dc_elements :=
           (if t_kids g i = [] then E[i := (E ! i)\<lparr>er_childLeft := Rep c\<rparr>]
            else E[last (t_kids g i) := (E ! last (t_kids g i))\<lparr>er_right := Rep c\<rparr>])\<rparr>)"

lemma document_ok_found:
  assumes ok: "document_ok g d" and i: "i \<in> t_live g" and more: "t_more g i = Some ((n, v) # r)"
    and new: "new = found_rep owner off (\<not> container v) (last_idx (t_kids g i) kInvalidRepIdx) (Rep i)"
    and owner: "er_objIdx owner = Some k" "k < length (dc_objects d)" "4 \<le> off"
    and bytes: "drop off (dc_objects d ! k) = encode_elem (n, v) @ encode_elems r @ nul # post" "k = kLeafObjIdx \<longrightarrow> post \<noteq> []"
  defines "c \<equiv> length (dc_elements d)" and "d' \<equiv> linked_found d g i new"
  shows "document_ok (found c i g) d'"
proof -
  note g = okD(1) [OF ok]
  have below: "j < c" if "j \<in> t_live g" for j using okD(2) [OF ok that] by (simp add: c_def)
  then have c: "c \<notin> t_live g" by blast
  have ic: "i \<noteq> c" "i < c" using i c below by blast+
  note simps = found_simps [OF more ic(1)]
  note ni = shapeD(1) [OF g i]
  have kids: "x \<in> t_live g \<and> x < c" if "j \<in> t_live g" "x \<in> set (t_kids g j)" for j x
    using kid_live [OF ok that] below by blast
  have last: "last (t_kids g i) < c" if "t_kids g i \<noteq> []" using kids [OF i] that by simp
  have obj: "dc_objects d' = dc_objects d" "dc_fieldNames d' = dc_fieldNames d" "dc_leafBuf d' = dc_leafBuf d"
    "dc_leafBuilder d' = dc_leafBuilder d" by (simp_all add: d'_def linked_found_def Let_def)
  have len: "length (dc_elements d') = Suc c" by (simp add: d'_def linked_found_def c_def Let_def)
  have nc: "node d' c = new"
    using ic last by (auto simp: d'_def linked_found_def Let_def c_def)
  have nj: "node d' j = (if t_kids g i = [] \<and> j = i then (node d j)\<lparr>er_childLeft := Rep c\<rparr>
      else if t_kids g i \<noteq> [] \<and> j = last (t_kids g i) then (node d j)\<lparr>er_right := Rep c\<rparr> else node d j)" if "j < c" for j
    using that by (auto simp: d'_def linked_found_def Let_def c_def nth_append nth_list_update)
  have same: "same_content d d' j" if "j \<in> t_live g" for j
    using nj [OF below [OF that]] by (simp add: same_content_def)
  have up: "er_parent (node d' j) = er_parent (node d j)" "er_left (node d' j) = er_left (node d j)"
    "er_childRight (node d' j) = er_childRight (node d j)" if "j \<in> t_live g" for j
    using nj [OF below [OF that]] by simp_all
  have content_c: "content d' (found c i g) c"
  proof -
    have "nul \<notin> set n" "wf_value v" using node_shapeD(3) [OF ni] more by (simp_all add: rest_of_def)
    moreover have "c \<noteq> 0" using ic by simp
    moreover have "bytes_at d' c (encode_elem (n, v))"
      using owner bytes by (auto simp: bytes_at_def nc new found_rep_def defaultRep_def obj)
    ultimately show ?thesis using owner(1)
      by (simp add: content_def simps) (simp add: nc new found_rep_def defaultRep_def simps)
  qed
  have links_i: "links d' (found c i g) i"
  proof -
    have li: "links d g i" using okD(4) [OF ok i] .
    have "chain d' i kInvalidRepIdx (t_kids g i) (Rep c)"
    proof (rule chain_end [of d i _ _ kOpaqueRepIdx])
      show "chain d i kInvalidRepIdx (t_kids g i) kOpaqueRepIdx" using li more by (simp add: links_def end_idx_def)
      show "distinct (t_kids g i)" using node_shapeD(2) [OF ni] .
      fix x assume x: "x \<in> set (t_kids g i)"
      then have "t_kids g i \<noteq> []" by auto
      then show "er_left (node d' x) = er_left (node d x) \<and> er_parent (node d' x) = er_parent (node d x) \<and>
          er_right (node d' x) = (if x = last (t_kids g i) then Rep c else er_right (node d x))"
        using nj [of x] kids [OF i x] by simp
    qed
    moreover have "er_childLeft (node d' i) = head_idx (t_kids g i @ [c]) kOpaqueRepIdx"
    proof (cases "t_kids g i")
      case Nil
      then show ?thesis using nj [OF ic(2)] by simp
    next
      case (Cons x xs)
      then show ?thesis using nj [OF ic(2)] li by (auto simp: links_def)
    qed
    ultimately show ?thesis
      using li more up(3) [OF i] ic
      by (simp add: links_def simps end_idx_def chain_append)
         (simp add: nc new found_rep_def defaultRep_def)
  qed
  have links_j: "links d' (found c i g) j" if j: "j \<in> t_live g" "j \<noteq> i" for j
  proof (rule links_cong [of d' j d g, THEN iffD2])
    show "er_childLeft (node d' j) = er_childLeft (node d j)" using nj [OF below [OF j(1)]] j by simp
    show "er_childRight (node d' j) = er_childRight (node d j)" using up j by simp
    show "links d g j" using okD(4) [OF ok j(1)] .
    show "t_kids (found c i g) j = t_kids g j" "t_more (found c i g) j = t_more g j" using j c by (auto simp: simps)
    fix x assume x: "x \<in> set (t_kids g j)"
    have "x \<noteq> last (t_kids g i)" if "t_kids g i \<noteq> []"
      using shapeD(2) [OF g j(1) i x] j that by (metis last_in_set)
    then show "er_left (node d' x) = er_left (node d x) \<and> er_right (node d' x) = er_right (node d x) \<and>
        er_parent (node d' x) = er_parent (node d x)"
      using kids [OF j(1) x] nj [of x] by auto
  qed
  have tails: "tails d' (found c i g) j" if j: "j \<in> t_live g" for j
  proof (cases "j = i")
    case True
    have "bytes_at d' c (encode_elem (n, v) @ encode_elems r @ [nul])"
      using owner bytes by (auto simp: bytes_at_def nc new found_rep_def defaultRep_def obj)
    then show ?thesis using ic by (simp add: True tails_def simps)
  next
    case False
    show ?thesis
    proof (rule tails_cong [of d d' j g, THEN iffD2])
      show "same_content d d' j" "\<And>x. x \<in> set (t_kids g j) \<Longrightarrow> same_content d d' x"
        using same j kids [OF j] by blast+
      show "tails d g j" using okD(5) [OF ok j] .
      show "\<And>x. x \<in> set (t_kids g j) \<Longrightarrow> item (found c i g) x = item g x"
        using kids [OF j] by (fastforce simp: simps)
    qed (use False j c obj in \<open>auto simp: simps\<close>)
  qed
  have node: "j < length (dc_elements d') \<and> content d' (found c i g) j \<and> links d' (found c i g) j \<and>
      tails d' (found c i g) j \<and> (detached (found c i g) j \<longrightarrow> unlinked (node d' j))"
    if j: "j \<in> t_live (found c i g)" for j
  proof (cases "j = c")
    case True
    have "links d' (found c i g) c"
      by (simp add: links_def simps end_idx_def) (simp add: nc new found_rep_def defaultRep_def)
    moreover have "tails d' (found c i g) c" using ic by (simp add: tails_def simps)
    moreover have "\<not> detached (found c i g) c" using i ic by (auto simp: detached_def simps)
    ultimately show ?thesis using content_c len True by simp
  next
    case False
    then have j': "j \<in> t_live g" using j by (simp add: simps)
    have "content d' (found c i g) j"
      using content_cong [OF same [OF j'] obj(1,2), of "found c i g" g] okD(3) [OF ok j'] False by (simp add: simps)
    moreover have "unlinked (node d' j)" if "detached (found c i g) j"
    proof -
      have dj: "detached g j" using that detached_found [OF more ic(1) i c] by simp
      then have "j \<notin> set (t_kids g i)" using i by (simp add: detached_def)
      with dj show ?thesis using okD(6) [OF ok j'] nj [OF below [OF j']] by (auto simp: unlinked_def)
    qed
    ultimately show ?thesis
      using links_i links_j [OF j'] tails [OF j'] below [OF j'] len by (cases "j = i") simp_all
  qed
  have "budget_ok (found c i g) d'"
    by (rule budget_ok_cong [OF okD(9) [OF ok]])
      (use pending_found [OF live_finite [OF ok] more i c] len obj found_simps [OF more ic(1)] in \<open>simp_all add: c_def\<close>)
  then show ?thesis
    using shape_found [OF g more i c] node heap_ok_cong [OF obj(1,3,4)] okD(7) [OF ok]
    unfolding document_ok_def by blast
qed

definition linked_closed :: "document \<Rightarrow> tree \<Rightarrow> nat \<Rightarrow> document" where
  "linked_closed d g i =
     (if t_kids g i = [] then set_rep i (\<lambda>rep. rep\<lparr>er_childLeft := kInvalidRepIdx, er_childRight := kInvalidRepIdx\<rparr>) d
      else set_rep i (\<lambda>rep. rep\<lparr>er_childRight := Rep (last (t_kids g i))\<rparr>)
             (set_rep (last (t_kids g i)) (\<lambda>rep. rep\<lparr>er_right := kInvalidRepIdx\<rparr>) d))"

lemma document_ok_closed:
  assumes ok: "document_ok g d" and i: "i \<in> t_live g" and more: "t_more g i = Some []"
  defines "d' \<equiv> linked_closed d g i"
  shows "document_ok (closed i g) d'"
proof -
  note g = okD(1) [OF ok]
  note ni = shapeD(1) [OF g i]
  have kids: "x < length (dc_elements d)" if "j \<in> t_live g" "x \<in> set (t_kids g j)" for j x
    using okD(2) [OF ok kid_live [OF ok that]] .
  have noself: "i \<notin> set (t_kids g i)"
    using shapeD(3) [OF g] i by (auto simp: acyclic_def child_rel_def)
  then have nolast: "t_kids g i \<noteq> [] \<Longrightarrow> last (t_kids g i) \<noteq> i" by (metis last_in_set)
  have obj: "dc_objects d' = dc_objects d" "dc_fieldNames d' = dc_fieldNames d" "dc_leafBuf d' = dc_leafBuf d"
    "dc_leafBuilder d' = dc_leafBuilder d" "length (dc_elements d') = length (dc_elements d)"
    by (simp_all add: d'_def linked_closed_def set_rep_def)
  have nj: "node d' j =
      (if j = i then
         (if t_kids g i = [] then (node d j)\<lparr>er_childLeft := kInvalidRepIdx, er_childRight := kInvalidRepIdx\<rparr>
          else (node d j)\<lparr>er_childRight := Rep (last (t_kids g i))\<rparr>)
       else if t_kids g i \<noteq> [] \<and> j = last (t_kids g i) then (node d j)\<lparr>er_right := kInvalidRepIdx\<rparr> else node d j)"
    if "j < length (dc_elements d)" for j
    using that nolast by (auto simp: d'_def linked_closed_def set_rep_def nth_list_update)
  have same: "same_content d d' j" if "j \<in> t_live g" for j
    using nj [OF okD(2) [OF ok that]] by (simp add: same_content_def)
  have up: "er_parent (node d' j) = er_parent (node d j)" "er_left (node d' j) = er_left (node d j)" if "j \<in> t_live g" for j
    using nj [OF okD(2) [OF ok that]] by simp_all
  have li: "links d g i" using okD(4) [OF ok i] .
  have links_i: "links d' (closed i g) i"
  proof -
    have "chain d' i kInvalidRepIdx (t_kids g i) kInvalidRepIdx"
    proof (rule chain_end [of d i _ _ kOpaqueRepIdx])
      show "chain d i kInvalidRepIdx (t_kids g i) kOpaqueRepIdx" using li more by (simp add: links_def end_idx_def)
      show "distinct (t_kids g i)" using node_shapeD(2) [OF ni] .
      fix x assume x: "x \<in> set (t_kids g i)"
      then have "t_kids g i \<noteq> []" "x \<noteq> i" using noself by auto
      then show "er_left (node d' x) = er_left (node d x) \<and> er_parent (node d' x) = er_parent (node d x) \<and>
          er_right (node d' x) = (if x = last (t_kids g i) then kInvalidRepIdx else er_right (node d x))"
        using nj [OF kids [OF i x]] by simp
    qed
    then show ?thesis
      using li nj [OF okD(2) [OF ok i]] by (cases "t_kids g i") (simp_all add: links_def end_idx_def last_idx_def)
  qed
  have links_j: "links d' (closed i g) j" if j: "j \<in> t_live g" "j \<noteq> i" for j
  proof (rule links_cong [of d' j d g, THEN iffD2])
    show "er_childLeft (node d' j) = er_childLeft (node d j)" "er_childRight (node d' j) = er_childRight (node d j)"
      using nj [OF okD(2) [OF ok j(1)]] j by simp_all
    show "links d g j" using okD(4) [OF ok j(1)] .
    fix x assume x: "x \<in> set (t_kids g j)"
    have "x \<noteq> last (t_kids g i)" if "t_kids g i \<noteq> []"
      using shapeD(2) [OF g j(1) i x] j that by (metis last_in_set)
    then show "er_left (node d' x) = er_left (node d x) \<and> er_right (node d' x) = er_right (node d x) \<and>
        er_parent (node d' x) = er_parent (node d x)"
      using nj [OF kids [OF j(1) x]] by auto
  qed (use j in simp_all)
  have tails: "tails d' (closed i g) j" if j: "j \<in> t_live g" for j
  proof (cases "j = i")
    case True
    then show ?thesis by (simp add: tails_def)
  next
    case False
    show ?thesis
    proof (rule tails_cong [of d d' j g, THEN iffD2])
      show "same_content d d' j" "\<And>x. x \<in> set (t_kids g j) \<Longrightarrow> same_content d d' x"
        using same j kid_live [OF ok j] by blast+
      show "tails d g j" using okD(5) [OF ok j] .
    qed (use False obj in simp_all)
  qed
  have node: "j < length (dc_elements d') \<and> content d' (closed i g) j \<and> links d' (closed i g) j \<and>
      tails d' (closed i g) j \<and> (detached g j \<longrightarrow> unlinked (node d' j))"
    if j: "j \<in> t_live g" for j
  proof -
    have "content d' (closed i g) j"
      using content_cong [OF same [OF j] obj(1,2), of "closed i g" g] okD(3) [OF ok j] by simp
    moreover have "unlinked (node d' j)" if "detached g j"
    proof -
      have "j \<notin> set (t_kids g i)" using that i by (simp add: detached_def)
      then show ?thesis using okD(6) [OF ok j that] nj [OF okD(2) [OF ok j]] by (auto simp: unlinked_def)
    qed
    ultimately show ?thesis
      using links_i links_j [OF j] tails [OF j] okD(2) [OF ok j] obj(5) by (cases "j = i") simp_all
  qed
  have "budget_ok (closed i g) d'"
    by (rule budget_ok_cong [OF okD(9) [OF ok]]) (use obj in \<open>simp_all add: pending_closed [OF more]\<close>)
  then show ?thesis
    using shape_closed [OF g more i] node heap_ok_cong [OF obj(1,3,4)] okD(7) [OF ok]
    by (simp add: document_ok_def)
qed

subsection \<open>Reading the bytes\<close>

lemma getElementOffset_drop:
  assumes "0 < m" "m \<le> length obj" "length obj < 2 ^ 31"
  shows "getElementOffset obj (drop m obj) = Inr m"
  using assms by (auto simp: getElementOffset_def Let_def)

lemma bytes_atE:
  assumes "bytes_at d i bs" "heap_ok d" "bs \<noteq> []"
  obtains k post where "er_objIdx (node d i) = Some k" "k < length (dc_objects d)" "4 \<le> er_offset (node d i)"
    "drop (er_offset (node d i)) (dc_objects d ! k) = bs @ post" "k = kLeafObjIdx \<longrightarrow> post \<noteq> []"
    "getObject (er_objIdx (node d i)) d = Inr (dc_objects d ! k)"
    "getSerializedElement (node d i) d = Inr (bs @ post)" "length (dc_objects d ! k) < 2 ^ 31"
    "int (length (bs @ post)) \<le> BSONObjMaxInternalSize" "er_offset (node d i) < length (dc_objects d ! k)"
proof -
  from assms(1) obtain k post where k: "er_objIdx (node d i) = Some k" "k < length (dc_objects d)" "4 \<le> er_offset (node d i)"
    "drop (er_offset (node d i)) (dc_objects d ! k) = bs @ post" "k = kLeafObjIdx \<longrightarrow> post \<noteq> []"
    by (auto simp: bytes_at_def)
  have max: "int (length (dc_objects d ! k)) \<le> BSONObjMaxInternalSize" using assms(2) k(2) by (simp add: heap_ok_def)
  have off: "er_offset (node d i) < length (dc_objects d ! k)" using k(4) assms(3) by (metis append_is_Nil_conv drop_all not_le)
  have "getObject (er_objIdx (node d i)) d = Inr (dc_objects d ! k)" using k by (simp add: getObject_def)
  moreover from this have "getSerializedElement (node d i) d = Inr (bs @ post)"
    using k(4) off by (simp add: getSerializedElement_def)
  moreover have "length (bs @ post) \<le> length (dc_objects d ! k)" by (metis diff_le_self k(4) length_drop)
  ultimately show ?thesis using that [OF k] max max_sizes [OF max] off by simp
qed

lemma makeNewRep_ok:
  "length (dc_elements d) \<le> kMaxRepIdx \<Longrightarrow> makeNewRep d = Inr (length (dc_elements d), d\<lparr>dc_elements := dc_elements d @ [defaultRep]\<rparr>)"
  by (simp add: makeNewRep_def Let_def)

definition only_nodes :: "document \<Rightarrow> document \<Rightarrow> bool" where
  "only_nodes d d' \<longleftrightarrow> d' = d\<lparr>dc_elements := dc_elements d'\<rparr>"

lemma only_nodes_refl [simp]: "only_nodes d d"
  by (simp add: only_nodes_def)

lemma only_nodes_trans: "only_nodes d d' \<Longrightarrow> only_nodes d' d'' \<Longrightarrow> only_nodes d d''"
  by (cases d, cases d', cases d'') (simp add: only_nodes_def)

lemma only_nodes_linked [simp]: "only_nodes d (linked_found d g i new)" "only_nodes d (linked_closed d g i)"
  by (simp_all add: only_nodes_def linked_found_def linked_closed_def set_rep_def Let_def)

end
