(* ===== verification/Mutable_Visit.thy ===== *)
theory Mutable_Visit
  imports Mutable_Resolve
begin

text \<open>The operations that visit elements.\<close>

subsection \<open>The first child\<close>

lemma encode_elem_drop:
  "container v \<Longrightarrow> drop (length n + 6) (encode_elem (n, v) @ post) = encode_elems (sub_elems v) @ nul # post"
proof -
  assume v: "container v"
  let ?pre = "type_byte (value_type v) # cstring n @ int_bytes (length (encode_elems (sub_elems v)) + 5)"
  have "encode_elem (n, v) @ post = ?pre @ encode_elems (sub_elems v) @ nul # post"
    using v by (simp add: encode_elem_def encode_container encode_def frame_def)
  moreover have "length n + 6 = length ?pre" by simp
  ultimately show ?thesis by (metis append_eq_conv_conj)
qed

lemma unvisited_bytes:
  assumes ok: "document_ok g d" and i: "i \<in> t_live g" and kids: "t_kids g i = []" and more: "t_more g i = Some es"
  obtains k m post where "er_objIdx (node d i) = Some k" "k < length (dc_objects d)" "4 \<le> m" "m < length (dc_objects d ! k)"
    "drop m (dc_objects d ! k) = encode_elems es @ nul # post" "k = kLeafObjIdx \<longrightarrow> post \<noteq> []"
    "length (dc_objects d ! k) < 2 ^ 31" "getObject (er_objIdx (node d i)) d = Inr (dc_objects d ! k)"
    "bindE (if rep_hasValue i (node d i) then bindE (getSerializedElement (node d i) d) embeddedObject
            else Inr (dc_objects d ! k)) firstElement = Inr (drop m (dc_objects d ! k))"
proof -
  note cont = okD(3) [OF ok i] and heap = okD(7) [OF ok]
  have es: "es = sub_elems (t_val g i)" using node_shapeD(9) [OF shapeD(1) [OF okD(1) [OF ok] i] kids more] .
  have co: "container (t_val g i)" using node_shapeD(6) [OF shapeD(1) [OF okD(1) [OF ok] i]] more by auto
  show ?thesis
  proof (cases "i = 0")
    case True
    obtain k where k: "er_objIdx (node d i) = Some k" using okD(5) [OF ok i] kids more True by (auto simp: tails_def)
    have obj: "k \<noteq> kLeafObjIdx" "k < length (dc_objects d)" "dc_objects d ! k = encode es"
      using cont k True es by (simp_all add: content_def)
    have "length (encode es) < 2 ^ 31" using heap obj by (metis heap_ok_def max_sizes nth_mem)
    then show ?thesis
      using k obj firstElement_encode [of es "[]"]
      by (intro that [of k 4 "[]"])
         (auto simp: True rep_hasValue_def kRootRepIdx_def getObject_def encode_def frame_def)
  next
    case False
    have whole: "t_whole g i" using okD(5) [OF ok i] kids more False by (auto simp: tails_def)
    have bytes: "bytes_at d i (encode_elem (item g i))"
      using cont whole False by (auto simp: content_def split: option.splits)
    have ne: "encode_elem (item g i) \<noteq> []" by (simp add: encode_elem_def)
    from bytes_atE [OF bytes heap ne] obtain k post where k:
      "er_objIdx (node d i) = Some k" "k < length (dc_objects d)" "4 \<le> er_offset (node d i)"
      "drop (er_offset (node d i)) (dc_objects d ! k) = encode_elem (item g i) @ post" "k = kLeafObjIdx \<longrightarrow> post \<noteq> []"
      "getObject (er_objIdx (node d i)) d = Inr (dc_objects d ! k)"
      "getSerializedElement (node d i) d = Inr (encode_elem (item g i) @ post)" "length (dc_objects d ! k) < 2 ^ 31"
      "int (length (encode_elem (item g i) @ post)) \<le> BSONObjMaxInternalSize" by metis
    let ?m = "er_offset (node d i) + (length (t_name g i) + 6)"
    have dr: "drop ?m (dc_objects d ! k) = encode_elems es @ nul # post"
    proof -
      have "drop ?m (dc_objects d ! k) = drop (length (t_name g i) + 6) (encode_elem (item g i) @ post)"
        using arg_cong [OF k(4), of "drop (length (t_name g i) + 6)"] by (simp add: drop_drop add.commute)
      then show ?thesis using encode_elem_drop [OF co] by (simp add: es item_def)
    qed
    have "bindE (if rep_hasValue i (node d i) then bindE (getSerializedElement (node d i) d) embeddedObject
            else Inr (dc_objects d ! k)) firstElement = Inr (encode_elems es @ nul # post)"
    proof -
      have "rep_hasValue i (node d i)" using cont whole False by (simp add: rep_hasValue_def kRootRepIdx_def content_def)
      moreover have "embeddedObject (encode_elem (item g i) @ post) = Inr (encode es @ post)"
        using embeddedObject_encoded [OF co, of "t_name g i" post] cont k(9) by (simp add: es item_def content_def)
      ultimately show ?thesis using k(7) by (simp add: firstElement_encode)
    qed
    moreover have "?m < length (dc_objects d ! k)"
      using dr by (metis append_is_Nil_conv drop_all list.distinct(1) not_le)
    ultimately show ?thesis using k dr by (intro that [of k ?m post]) simp_all
  qed
qed

lemma resolveLeftChild_ok:
  assumes ok: "document_ok g d" and i: "i \<in> t_live g"
  obtains g' d' where "resolveLeftChild i d = Inr (head_idx (t_kids g' i) kInvalidRepIdx, d')"
    "document_ok g' d'" "visits g g'" "only_nodes d d'" "t_kids g' i = [] \<Longrightarrow> t_more g' i = None"
    "t_kids g i \<noteq> [] \<or> t_more g i = None \<Longrightarrow> g' = g \<and> d' = d"
proof -
  have li: "links d g i" and len: "i < length (dc_elements d)" using okD [OF ok] i by blast+
  have get: "getElementRep i d = Inr (node d i)" using len by (simp add: getElementRep_def)
  show ?thesis
  proof (cases "t_kids g i = [] \<and> t_more g i \<noteq> None")
    case False
    then have left: "er_childLeft (node d i) = head_idx (t_kids g i) kInvalidRepIdx"
      using li by (cases "t_kids g i") (auto simp: links_def end_idx_def)
    then have "er_childLeft (node d i) \<noteq> kOpaqueRepIdx" by (cases "t_kids g i") simp_all
    with left False show ?thesis
      by (intro that [of g d]) (auto simp: resolveLeftChild_def get intro: visits_refl ok)
  next
    case True
    then obtain es where kids: "t_kids g i = []" and more: "t_more g i = Some es" by auto
    from unvisited_bytes [OF ok i kids more] obtain k m post where b:
      "er_objIdx (node d i) = Some k" "k < length (dc_objects d)" "4 \<le> m" "m < length (dc_objects d ! k)"
      "drop m (dc_objects d ! k) = encode_elems es @ nul # post" "k = kLeafObjIdx \<longrightarrow> post \<noteq> []"
      "length (dc_objects d ! k) < 2 ^ 31" "getObject (er_objIdx (node d i)) d = Inr (dc_objects d ! k)"
      "bindE (if rep_hasValue i (node d i) then bindE (getSerializedElement (node d i) d) embeddedObject
            else Inr (dc_objects d ! k)) firstElement = Inr (drop m (dc_objects d ! k))" by metis
    have opaque: "er_childLeft (node d i) = kOpaqueRepIdx" using li kids more by (simp add: links_def end_idx_def)
    have b9: "bindE (bindE (if rep_hasValue i (node d i) then bindE (getSerializedElement (node d i) d) embeddedObject
            else Inr (dc_objects d ! k)) firstElement) f = f (drop m (dc_objects d ! k))" for f :: "string \<Rightarrow> (rep_idx \<times> document) result"
      by (simp only: b(9) bindE_Inr)
    note unf = resolveLeftChild_def get opaque b(8) bindE_Inr b9 [unfolded bindE_assoc]
    show ?thesis
    proof (cases es)
      case Nil
      have "resolveLeftChild i d = Inr (kInvalidRepIdx, linked_closed d g i)"
        using b(5) Nil kids by (simp add: unf linked_closed_def)
      moreover have "document_ok (closed i g) (linked_closed d g i)"
        using document_ok_closed [OF ok i] more Nil by simp
      ultimately show ?thesis
        using more Nil kids visits_closed [OF visits_refl i] by (intro that [of "closed i g" "linked_closed d g i"]) simp_all
    next
      case (Cons e r)
      obtain n v where e: "e = (n, v)" by fastforce
      have more': "t_more g i = Some ((n, v) # r)" using more Cons e by simp
      let ?c = "length (dc_elements d)"
      let ?new = "found_rep (node d i) m (\<not> container v) kInvalidRepIdx (Rep i)"
      have dr: "drop m (dc_objects d ! k) = encode_elem (n, v) @ encode_elems r @ nul # post"
        using b(5) Cons e by (simp add: encode_elems_Cons del: encode_elems.simps)
      have "resolveLeftChild i d = Inr (Rep ?c, linked_found d g i ?new)"
        using okD(8) [OF ok] len kids dr getElementOffset_drop [of m "dc_objects d ! k"] b(3,4,7)
        by (simp add: unf makeNewRep_ok) (simp add: linked_found_def set_rep_def Let_def nth_append list_update_append)
      moreover have "document_ok (found ?c i g) (linked_found d g i ?new)"
        using document_ok_found [OF ok i more', of ?new "node d i" m k post] b dr kids by simp
      moreover have "?c \<notin> t_live g" using okD(2) [OF ok] by blast
      moreover have "t_kids (found ?c i g) i = [?c]" using found_simps(2) [OF more'] kids len by simp
      ultimately show ?thesis
        using visits_found [OF visits_refl i _ more'] kids more by (intro that [of "found ?c i g" "linked_found d g i ?new"]) simp_all
    qed
  qed
qed

subsection \<open>The next sibling\<close>

lemma chain_nth:
  assumes "chain d p l (us @ x # vs) r"
  shows "er_left (node d x) = last_idx us l" "er_right (node d x) = head_idx vs r" "er_parent (node d x) = Rep p"
  using assms by (simp_all add: chain_append)

lemma right_of_kid:
  assumes ok: "document_ok g d" and p: "p \<in> t_live g" and kids: "t_kids g p = us @ x # vs"
  shows "er_right (node d x) = head_idx vs (end_idx g p)" "er_left (node d x) = last_idx us kInvalidRepIdx"
  using okD(4) [OF ok p] kids chain_nth [of d p kInvalidRepIdx us x vs "end_idx g p"] by (simp_all add: links_def)

lemma resolveRightSibling_detached:
  assumes ok: "document_ok g d" and x: "x \<in> t_live g" "detached g x"
  shows "resolveRightSibling x d = Inr (kInvalidRepIdx, d)"
  using okD(6) [OF ok x] okD(2) [OF ok x(1)] by (simp add: unlinked_def resolveRightSibling_def getElementRep_def)

lemma resolveRightSibling_ok:
  assumes ok: "document_ok g d" and p: "p \<in> t_live g" and kids: "t_kids g p = us @ x # vs"
  obtains g' d' ws where "resolveRightSibling x d = Inr (head_idx ws kInvalidRepIdx, d')"
    "t_kids g' p = us @ x # ws" "document_ok g' d'" "visits g g'" "only_nodes d d'" "ws = [] \<Longrightarrow> t_more g' p = None"
    "vs \<noteq> [] \<Longrightarrow> ws = vs" "t_more g p = None \<Longrightarrow> g' = g \<and> d' = d"
    "length ws + length (rest_of g' p) = length vs + length (rest_of g p)"
    "\<And>y. y \<in> t_live g \<Longrightarrow> y \<noteq> p \<Longrightarrow> t_kids g' y = t_kids g y \<and> t_more g' y = t_more g y"
proof -
  have x: "x \<in> t_live g" using kid_live [OF ok p, of x] kids by simp
  then have len: "x < length (dc_elements d)" using okD(2) [OF ok] by blast
  have get: "getElementRep x d = Inr (node d x)" using len by (simp add: getElementRep_def)
  note right = right_of_kid [OF ok p kids]
  show ?thesis
  proof (cases "vs = [] \<and> t_more g p \<noteq> None")
    case False
    then have r: "er_right (node d x) = head_idx vs kInvalidRepIdx" "er_right (node d x) \<noteq> kOpaqueRepIdx"
      using right by (cases vs; auto simp: end_idx_def)+
    show ?thesis
      using r False kids by (intro that [of vs d g]) (auto simp: resolveRightSibling_def get intro: visits_refl ok)
  next
    case True
    then obtain es where vs: "vs = []" and more: "t_more g p = Some es" by auto
    have last: "last (t_kids g p) = x" "t_kids g p \<noteq> []" using kids vs by simp_all
    have opaque: "er_right (node d x) = kOpaqueRepIdx" using right vs more by (simp add: end_idx_def)
    have par: "er_parent (node d x) = Rep p" using kid_parent [OF ok p] kids by simp
    have bytes: "bytes_at d x (encode_elem (item g x) @ encode_elems es @ [nul])"
      using okD(5) [OF ok p] more last by (simp add: tails_def)
    have ne: "encode_elem (item g x) @ encode_elems es @ [nul] \<noteq> []" by simp
    from bytes_atE [OF bytes okD(7) [OF ok] ne, unfolded append_assoc append_Cons append_Nil] obtain k post where b:
      "er_objIdx (node d x) = Some k" "k < length (dc_objects d)" "4 \<le> er_offset (node d x)"
      "drop (er_offset (node d x)) (dc_objects d ! k) = encode_elem (item g x) @ encode_elems es @ nul # post" "k = kLeafObjIdx \<longrightarrow> post \<noteq> []"
      "getObject (er_objIdx (node d x)) d = Inr (dc_objects d ! k)"
      "getSerializedElement (node d x) d = Inr (encode_elem (item g x) @ encode_elems es @ nul # post)"
      "length (dc_objects d ! k) < 2 ^ 31"
      "int (length (encode_elem (item g x) @ encode_elems es @ nul # post)) \<le> BSONObjMaxInternalSize"
      by metis
    have wf: "wf_value (t_val g x)" "nul \<notin> set (t_name g x)" using okD(3) [OF ok x] by (simp_all add: content_def)
    have small: "length (encode_elem (item g x)) < 2 ^ 31" using max_sizes [OF b(9)] by simp
    have size: "elem_size (encode_elem (item g x) @ tail) = Inr (int (length (encode_elem (item g x))))" for tail
      using elem_size_encoded [OF wf] small by (simp add: item_def)
    let ?m = "er_offset (node d x) + length (encode_elem (item g x))"
    have dr: "drop ?m (dc_objects d ! k) = encode_elems es @ nul # post"
      using arg_cong [OF b(4), of "drop (length (encode_elem (item g x)))"] by (simp add: drop_drop add.commute)
    then have m: "?m < length (dc_objects d ! k)" by (metis append_is_Nil_conv drop_all list.distinct(1) not_le)
    note unf = resolveRightSibling_def get opaque b(6,7) size
    show ?thesis
    proof (cases es)
      case Nil
      have "resolveRightSibling x d = Inr (kInvalidRepIdx, linked_closed d g p)"
        using Nil last par okD(2) [OF ok p] by (simp add: unf rep_number_def) (simp add: getElementRep_def linked_closed_def)
      moreover have "document_ok (closed p g) (linked_closed d g p)" using document_ok_closed [OF ok p] more Nil by simp
      ultimately show ?thesis
        using more Nil kids vs visits_closed [OF visits_refl p]
        by (intro that [of "[]" "linked_closed d g p" "closed p g"]) (simp_all add: rest_of_closed)
    next
      case (Cons e r)
      obtain n v where e: "e = (n, v)" by fastforce
      have more': "t_more g p = Some ((n, v) # r)" using more Cons e by simp
      let ?c = "length (dc_elements d)"
      let ?new = "found_rep (node d x) ?m (\<not> container v) (Rep x) (Rep p)"
      have dr': "encode_elems es @ nul # post = encode_elem (n, v) @ encode_elems r @ nul # post"
        using Cons e by (simp add: encode_elems_Cons del: encode_elems.simps)
      have off: "getElementOffset (dc_objects d ! k) (encode_elem (n, v) @ encode_elems r @ nul # post) = Inr ?m"
        using getElementOffset_drop [of ?m "dc_objects d ! k"] b(3,8) m dr dr' by simp
      have "resolveRightSibling x d = Inr (Rep ?c, linked_found d g p ?new)"
        using okD(8) [OF ok] len last par off
        by (simp add: unf dr' makeNewRep_ok) (simp add: linked_found_def set_rep_def Let_def nth_append list_update_append)
      moreover have "document_ok (found ?c p g) (linked_found d g p ?new)"
        using document_ok_found [OF ok p more', of ?new "node d x" ?m k post] b dr dr' last by (simp add: last_idx_def)
      moreover have "?c \<notin> t_live g" using okD(2) [OF ok] by blast
      moreover have "t_kids (found ?c p g) p = us @ x # [?c]" using found_simps(2) [OF more'] kids vs okD(2) [OF ok p] by simp
      ultimately show ?thesis
        using visits_found [OF visits_refl p _ more'] vs more' okD(2) [OF ok p] found_simps(2,3,7) [OF more', of ?c]
        by (intro that [of "[?c]" "linked_found d g p ?new" "found ?c p g"]) (simp_all add: rest_of_def, blast)
    qed
  qed
qed

subsection \<open>The last child\<close>

lemma rightmost_ok:
  assumes "document_ok g d" "p \<in> t_live g" "t_kids g p = us @ x # vs"
  shows "\<exists>g' d'. rightmost x d = Some (Inr (Rep (last (t_kids g' p)), d')) \<and> document_ok g' d' \<and> visits g g' \<and>
    only_nodes d d' \<and> t_more g' p = None \<and> t_kids g' p \<noteq> []"
  using assms
proof (induction "length vs + length (rest_of g p)" arbitrary: g d us x vs rule: less_induct)
  case less
  from resolveRightSibling_ok [OF less.prems] obtain g1 d1 ws where
    s: "resolveRightSibling x d = Inr (head_idx ws kInvalidRepIdx, d1)" "t_kids g1 p = us @ x # ws" "document_ok g1 d1"
      "visits g g1" "only_nodes d d1" "ws = [] \<Longrightarrow> t_more g1 p = None"
      "length ws + length (rest_of g1 p) = length vs + length (rest_of g p)" by metis
  have p1: "p \<in> t_live g1" using visits_frame(1) [OF s(4)] less.prems(2) by blast
  show ?case
  proof (cases ws)
    case Nil
    then have "rightmost x d = Some (Inr (Rep x, d1))" using s(1) by (simp add: rightmost.simps)
    with s Nil show ?thesis by (intro exI [of _ g1] exI [of _ d1]) simp
  next
    case (Cons y ys)
    have step: "rightmost x d = rightmost y d1" using s(1) Cons by (subst rightmost.simps) simp
    have "\<exists>g' d'. rightmost y d1 = Some (Inr (Rep (last (t_kids g' p)), d')) \<and> document_ok g' d' \<and> visits g1 g' \<and>
      only_nodes d1 d' \<and> t_more g' p = None \<and> t_kids g' p \<noteq> []"
      using s(2,7) Cons by (intro less.hyps [OF _ s(3) p1, of ys "us @ [x]" y]) simp_all
    with step s(4,5) show ?thesis using visits_trans only_nodes_trans by metis
  qed
qed

lemma resolveRightChild_ok:
  assumes ok: "document_ok g d" and i: "i \<in> t_live g"
  obtains g' d' where "resolveRightChild i d = Some (Inr (last_idx (t_kids g' i) kInvalidRepIdx, d'))"
    "document_ok g' d'" "visits g g'" "only_nodes d d'" "t_more g' i = None"
proof -
  have li: "links d g i" and len: "i < length (dc_elements d)" using okD [OF ok] i by blast+
  have get: "getElementRep i d = Inr (node d i)" using len by (simp add: getElementRep_def)
  show ?thesis
  proof (cases "t_more g i")
    case None
    then have "er_childRight (node d i) = last_idx (t_kids g i) kInvalidRepIdx" using li by (simp add: links_def)
    then show ?thesis using None ok
      by (intro that [of g d]) (auto simp: resolveRightChild_def get last_idx_def intro: visits_refl)
  next
    case (Some r)
    then have opaque: "er_childRight (node d i) = kOpaqueRepIdx" using li by (simp add: links_def)
    from resolveLeftChild_ok [OF ok i] obtain g1 d1 where
      l: "resolveLeftChild i d = Inr (head_idx (t_kids g1 i) kInvalidRepIdx, d1)" "document_ok g1 d1" "visits g g1"
        "only_nodes d d1" "t_kids g1 i = [] \<Longrightarrow> t_more g1 i = None" by metis
    have i1: "i \<in> t_live g1" using visits_frame(1) [OF l(3)] i by blast
    show ?thesis
    proof (cases "t_kids g1 i")
      case Nil
      with l show ?thesis by (intro that [of g1 d1]) (simp_all add: resolveRightChild_def get opaque)
    next
      case (Cons y ys)
      from rightmost_ok [OF l(2) i1, of "[]" y ys] Cons obtain g2 d2 where
        r: "rightmost y d1 = Some (Inr (Rep (last (t_kids g2 i)), d2))" "document_ok g2 d2" "visits g1 g2"
          "only_nodes d1 d2" "t_more g2 i = None" "t_kids g2 i \<noteq> []" by auto
      then have "resolveRightChild i d = Some (Inr (last_idx (t_kids g2 i) kInvalidRepIdx, d2))"
        using l(1) Cons by (simp add: resolveRightChild_def get opaque last_idx_def)
      then show ?thesis
        using r visits_trans [OF r(3) l(3)] only_nodes_trans [OF l(4) r(4)] by (intro that [of g2 d2]) simp_all
    qed
  qed
qed

end
