(* ===== verification/Mutable_Links.thy ===== *)
theory Mutable_Links
  imports Mutable_Visit
begin

text \<open>The two basic changes of the forest, on which all others rest: giving a detached node a parent, and taking it away.\<close>

subsection \<open>Moving a node\<close>

definition attach :: "nat \<Rightarrow> nat list \<Rightarrow> tree \<Rightarrow> tree" where
  "attach p ks g = g\<lparr>t_kids := (t_kids g)(p := ks)\<rparr>"

lemma attach_simps [simp]:
  "t_live (attach p ks g) = t_live g" "t_kids (attach p ks g) = (t_kids g)(p := ks)" "t_more (attach p ks g) = t_more g"
  "t_name (attach p ks g) = t_name g" "t_val (attach p ks g) = t_val g" "t_whole (attach p ks g) = t_whole g"
  "t_reps (attach p ks g) = t_reps g" "t_heap (attach p ks g) = t_heap g" "item (attach p ks g) = item g" "rest_of (attach p ks g) = rest_of g" "end_idx (attach p ks g) = end_idx g"
  "pending (attach p ks g) = pending g"
  by (simp_all add: attach_def item_def rest_of_def pending_def end_idx_def fun_eq_iff)

lemma chain_begin:
  assumes "chain d p l cs r" "distinct cs"
    "\<And>c. c \<in> set cs \<Longrightarrow> er_right (node d' c) = er_right (node d c) \<and> er_parent (node d' c) = er_parent (node d c) \<and>
       er_left (node d' c) = (if c = hd cs then l' else er_left (node d c))"
  shows "chain d' p l' cs r"
proof (cases cs)
  case (Cons c cs')
  have "chain d' p (Rep c) cs' r \<longleftrightarrow> chain d p (Rep c) cs' r"
    by (rule chain_cong) (use assms(2,3) Cons in auto)
  then show ?thesis using assms(1) assms(3) [of c] Cons by simp
qed simp

lemma child_rel_attach:
  assumes "p \<in> t_live g" "t_kids g p = us @ vs"
  shows "child_rel (attach p (us @ j # vs) g) = insert (j, p) (child_rel g)"
  using assms by (auto simp: child_rel_def split: if_splits)

lemma shape_attach:
  assumes g: "shape g" and p: "p \<in> t_live g" "\<not> t_whole g p" "container (t_val g p)" and kids: "t_kids g p = us @ vs" "vs = [] \<longrightarrow> t_more g p = None"
    and j: "j \<in> t_live g" "detached g j" "j \<noteq> 0" "(p, j) \<notin> (child_rel g)\<^sup>*"
  shows "shape (attach p (us @ j # vs) g)"
proof -
  have new: "j \<notin> set (t_kids g q)" if "q \<in> t_live g" for q using j(2) that by (simp add: detached_def)
  note np = shapeD(1) [OF g p(1)]
  have "node_shape (attach p (us @ j # vs) g) i" if "i \<in> t_live g" for i
    using shapeD(1) [OF g that] np p j(1) kids(1) new [OF p(1)] by (auto simp: node_shape_def)
  moreover have "i = q" if "i \<in> t_live g" "q \<in> t_live g"
      "set (t_kids (attach p (us @ j # vs) g) i) \<inter> set (t_kids (attach p (us @ j # vs) g) q) \<noteq> {}" for i q
  proof -
    have "set (t_kids (attach p (us @ j # vs) g) x) = set (t_kids g x) \<union> (if x = p then {j} else {})" for x
      using kids(1) by auto
    then show ?thesis using that new shapeD(2) [OF g, of i q] by (fastforce split: if_splits)
  qed
  moreover have "acyclic (child_rel (attach p (us @ j # vs) g))"
    using shapeD(3) [OF g] j(4) by (simp add: child_rel_attach [OF p(1) kids(1)])
  moreover have "detached (attach p (us @ j # vs) g) 0"
    using shapeD(5) [OF g] j(3) by (simp add: detached_child_rel child_rel_attach [OF p(1) kids(1)])
  ultimately show ?thesis using shapeD(4) [OF g] by (simp add: shape_def)
qed

lemma shape_detach:
  assumes g: "shape g" and p: "p \<in> t_live g" "\<not> t_whole g p" and kids: "t_kids g p = us @ j # vs" "vs = [] \<longrightarrow> t_more g p = None"
  shows "shape (attach p (us @ vs) g)"
proof -
  note np = shapeD(1) [OF g p(1)]
  have sub: "set (t_kids (attach p (us @ vs) g) x) \<subseteq> set (t_kids g x)" for x using kids by auto
  have rel: "child_rel (attach p (us @ vs) g) \<subseteq> child_rel g" using kids by (auto simp: child_rel_def split: if_splits)
  have "node_shape (attach p (us @ vs) g) i" if "i \<in> t_live g" for i
    using shapeD(1) [OF g that] np p kids by (auto simp: node_shape_def)
  moreover have "i = q" if "i \<in> t_live g" "q \<in> t_live g"
      "set (t_kids (attach p (us @ vs) g) i) \<inter> set (t_kids (attach p (us @ vs) g) q) \<noteq> {}" for i q
    using that sub [of i] sub [of q] shapeD(2) [OF g that(1,2)] by blast
  moreover have "acyclic (child_rel (attach p (us @ vs) g))" using acyclic_subset [OF shapeD(3) [OF g] rel] .
  moreover have "detached (attach p (us @ vs) g) 0"
    using shapeD(5) [OF g] rel by (auto simp: detached_child_rel)
  ultimately show ?thesis using shapeD(4) [OF g] by (simp add: shape_def)
qed

subsection \<open>In the document\<close>

text \<open>A change of links only.\<close>

definition same_data :: "document \<Rightarrow> document \<Rightarrow> bool" where
  "same_data d d' \<longleftrightarrow>
     length (dc_elements d') = length (dc_elements d) \<and> (\<forall>i < length (dc_elements d). same_content d d' i) \<and>
     dc_objects d' = dc_objects d \<and> dc_fieldNames d' = dc_fieldNames d \<and> dc_leafBuf d' = dc_leafBuf d \<and>
     dc_leafBuilder d' = dc_leafBuilder d"

lemma document_ok_relink:
  assumes ok: "document_ok g d" and same: "same_data d d'" and p: "p \<in> t_live g" and sh: "shape (attach p ks g)"
    and last: "t_more g p = None \<or> t_kids g p \<noteq> [] \<and> ks \<noteq> [] \<and> last ks = last (t_kids g p)"
    and links: "\<And>i. i \<in> t_live g \<Longrightarrow> links d' (attach p ks g) i"
    and un: "\<And>i. i \<in> t_live g \<Longrightarrow> detached (attach p ks g) i \<Longrightarrow> unlinked (node d' i)"
  shows "document_ok (attach p ks g) d'"
proof -
  have sc: "same_content d d' i" if "i \<in> t_live g" for i using same okD(2) [OF ok that] by (simp add: same_data_def)
  have obj: "dc_objects d' = dc_objects d" "dc_fieldNames d' = dc_fieldNames d" "dc_leafBuf d' = dc_leafBuf d"
     "dc_leafBuilder d' = dc_leafBuilder d" "length (dc_elements d') = length (dc_elements d)"
    using same by (simp_all add: same_data_def)
  have "content d' (attach p ks g) i" if "i \<in> t_live g" for i
    using content_cong [OF sc [OF that] obj(1,2), of "attach p ks g" g] okD(3) [OF ok that] by simp
  moreover have "tails d' (attach p ks g) i" if i: "i \<in> t_live g" for i
  proof (cases "i = p")
    case True
    show ?thesis
    proof (cases "t_more g p")
      case None
      then show ?thesis by (simp add: tails_def True)
    next
      case (Some r)
      then have l: "t_kids g p \<noteq> []" "ks \<noteq> []" "last ks = last (t_kids g p)" using last by simp_all
      have "last ks \<in> t_live g" using l kid_live [OF ok p] by simp
      from bytes_at_cong [OF sc [OF this] obj(1)] show ?thesis
        using okD(5) [OF ok p] l Some by (simp add: tails_def True)
    qed
  next
    case False
    show ?thesis
    proof (rule tails_cong [of d d' i g, THEN iffD2])
      show "same_content d d' i" "\<And>x. x \<in> set (t_kids g i) \<Longrightarrow> same_content d d' x"
        using sc i kid_live [OF ok i] by blast+
      show "tails d g i" using okD(5) [OF ok i] .
    qed (use False obj in simp_all)
  qed
  ultimately show ?thesis
    using sh links un okD(2) [OF ok] budget_ok_cong [OF okD(9) [OF ok], of d' "attach p ks g"] obj(3,5) heap_ok_cong [OF obj(1,3,4)] okD(7) [OF ok]
    by (simp add: document_ok_def)
qed

lemma document_ok_attach:
  assumes ok: "document_ok g d" and same: "same_data d d'"
    and p: "p \<in> t_live g" "\<not> t_whole g p" "container (t_val g p)"
    and kids: "t_kids g p = us @ vs" "vs = [] \<longrightarrow> t_more g p = None"
    and j: "j \<in> t_live g" "detached g j" "j \<noteq> 0" "(p, j) \<notin> (child_rel g)\<^sup>*"
    and par: "\<And>x. x < length (dc_elements d) \<Longrightarrow> er_parent (node d' x) = (if x = j then Rep p else er_parent (node d x))"
    and left: "\<And>x. x < length (dc_elements d) \<Longrightarrow> er_left (node d' x) =
      (if x = j then last_idx us kInvalidRepIdx else if vs \<noteq> [] \<and> x = hd vs then Rep j else er_left (node d x))"
    and right: "\<And>x. x < length (dc_elements d) \<Longrightarrow> er_right (node d' x) =
      (if x = j then head_idx vs kInvalidRepIdx else if us \<noteq> [] \<and> x = last us then Rep j else er_right (node d x))"
    and cl: "\<And>x. x < length (dc_elements d) \<Longrightarrow> er_childLeft (node d' x) = (if x = p \<and> us = [] then Rep j else er_childLeft (node d x))"
    and cr: "\<And>x. x < length (dc_elements d) \<Longrightarrow> er_childRight (node d' x) = (if x = p \<and> vs = [] then Rep j else er_childRight (node d x))"
  shows "document_ok (attach p (us @ j # vs) g) d'"
proof (rule document_ok_relink [OF ok same p(1) shape_attach [OF okD(1) [OF ok] p kids j]])
  note g = okD(1) [OF ok]
  have len: "x < length (dc_elements d)" if "i \<in> t_live g" "x \<in> set (t_kids g i)" for i x
    using okD(2) [OF ok kid_live [OF ok that]] .
  have new: "j \<notin> set (t_kids g q)" if "q \<in> t_live g" for q using j(2) that by (simp add: detached_def)
  have dist: "distinct (us @ vs)" using node_shapeD(2) [OF shapeD(1) [OF g p(1)]] kids by simp
  show "t_more g p = None \<or> t_kids g p \<noteq> [] \<and> us @ j # vs \<noteq> [] \<and> last (us @ j # vs) = last (t_kids g p)"
    using kids by auto
  show "links d' (attach p (us @ j # vs) g) i" if i: "i \<in> t_live g" for i
  proof (cases "i = p")
    case False
    have out: "x \<notin> set (us @ vs)" if "x \<in> set (t_kids g i)" for x
      using shapeD(2) [OF g i p(1) that] kids False by auto
    show ?thesis
    proof (rule links_cong [of d' i d g, THEN iffD2])
      fix x assume x: "x \<in> set (t_kids g i)"
      from out [OF x] have "vs \<noteq> [] \<Longrightarrow> x \<noteq> hd vs" "us \<noteq> [] \<Longrightarrow> x \<noteq> last us" by auto
      moreover have "x \<noteq> j" using x new [OF i] by auto
      ultimately show "er_left (node d' x) = er_left (node d x) \<and> er_right (node d' x) = er_right (node d x) \<and>
          er_parent (node d' x) = er_parent (node d x)"
        using par left right len [OF i x] by auto
    qed (use cl [OF okD(2) [OF ok i]] cr [OF okD(2) [OF ok i]] okD(4) [OF ok i] False in simp_all)
  next
    case True
    have lp: "links d g p" using okD(4) [OF ok p(1)] .
    have l: "x < length (dc_elements d) \<and> x \<noteq> j" if "x \<in> set us \<union> set vs" for x
      using that len [OF p(1)] new [OF p(1)] kids by auto
    have "chain d p kInvalidRepIdx us (head_idx vs (end_idx g p))" "chain d p (last_idx us kInvalidRepIdx) vs (end_idx g p)"
      using lp kids by (simp_all add: links_def chain_append)
    then have "chain d' p kInvalidRepIdx us (Rep j)" "chain d' p (Rep j) vs (end_idx g p)"
    proof -
      show "chain d' p kInvalidRepIdx us (Rep j)" if "chain d p kInvalidRepIdx us (head_idx vs (end_idx g p))"
      proof (rule chain_end [OF that])
        fix x assume x: "x \<in> set us"
        then have "vs \<noteq> [] \<Longrightarrow> x \<noteq> hd vs" "us \<noteq> []" using dist hd_in_set by fastforce+
        then show "er_left (node d' x) = er_left (node d x) \<and> er_parent (node d' x) = er_parent (node d x) \<and>
            er_right (node d' x) = (if x = last us then Rep j else er_right (node d x))"
          using l [of x] x par left right by auto
      qed (use dist in simp)
      show "chain d' p (Rep j) vs (end_idx g p)" if "chain d p (last_idx us kInvalidRepIdx) vs (end_idx g p)"
      proof (rule chain_begin [OF that])
        fix x assume x: "x \<in> set vs"
        then have "us \<noteq> [] \<Longrightarrow> x \<noteq> last us" "vs \<noteq> []" using dist last_in_set by fastforce+
        then show "er_right (node d' x) = er_right (node d x) \<and> er_parent (node d' x) = er_parent (node d x) \<and>
            er_left (node d' x) = (if x = hd vs then Rep j else er_left (node d x))"
          using l [of x] x par left right by auto
      qed (use dist in simp)
    qed
    moreover have "j < length (dc_elements d)" using okD(2) [OF ok j(1)] .
    moreover have "head_idx vs kInvalidRepIdx = head_idx vs (end_idx g p)" using kids(2) by (cases vs) (simp_all add: end_idx_def)
    moreover have "er_childLeft (node d' p) = head_idx (us @ j # vs) (end_idx g p)"
      using cl [OF okD(2) [OF ok p(1)]] lp kids by (cases us) (simp_all add: links_def)
    moreover have "er_childRight (node d' p) = (if t_more g p = None then last_idx (us @ j # vs) kInvalidRepIdx else kOpaqueRepIdx)"
      using cr [OF okD(2) [OF ok p(1)]] lp kids by (auto simp: links_def last_idx_def)
    ultimately show ?thesis
      using par [of j] left [of j] right [of j] by (simp add: True links_def chain_append)
  qed
  show "unlinked (node d' i)" if i: "i \<in> t_live g" "detached (attach p (us @ j # vs) g) i" for i
  proof -
    have "i \<noteq> j" "detached g i" using i(2) by (auto simp: detached_child_rel child_rel_attach [OF p(1) kids(1)])
    moreover from this have "i \<notin> set (us @ vs)" using p(1) kids by (auto simp: detached_def)
    ultimately show ?thesis
      using okD(6) [OF ok i(1)] par left right okD(2) [OF ok i(1)] by (auto simp: unlinked_def)
  qed
qed

lemma detached_detach:
  assumes g: "shape g" and p: "p \<in> t_live g" and kids: "t_kids g p = us @ j # vs"
  shows "detached (attach p (us @ vs) g) i \<longleftrightarrow> i = j \<or> detached g i"
proof -
  have "distinct (us @ j # vs)" using node_shapeD(2) [OF shapeD(1) [OF g p]] kids by simp
  moreover have "j \<notin> set (t_kids g q)" if "q \<in> t_live g" "q \<noteq> p" for q
    using shapeD(2) [OF g that(1) p, of j] kids that(2) by auto
  ultimately show ?thesis using p kids by (auto simp: detached_def)
qed

lemma document_ok_detach:
  assumes ok: "document_ok g d" and same: "same_data d d'"
    and p: "p \<in> t_live g" "\<not> t_whole g p"
    and kids: "t_kids g p = us @ j # vs" "vs = [] \<longrightarrow> t_more g p = None"
    and par: "\<And>x. x < length (dc_elements d) \<Longrightarrow> er_parent (node d' x) = (if x = j then kInvalidRepIdx else er_parent (node d x))"
    and left: "\<And>x. x < length (dc_elements d) \<Longrightarrow> er_left (node d' x) =
      (if x = j then kInvalidRepIdx else if vs \<noteq> [] \<and> x = hd vs then last_idx us kInvalidRepIdx else er_left (node d x))"
    and right: "\<And>x. x < length (dc_elements d) \<Longrightarrow> er_right (node d' x) =
      (if x = j then kInvalidRepIdx else if us \<noteq> [] \<and> x = last us then head_idx vs kInvalidRepIdx else er_right (node d x))"
    and cl: "\<And>x. x < length (dc_elements d) \<Longrightarrow> er_childLeft (node d' x) =
      (if x = p \<and> us = [] then head_idx vs kInvalidRepIdx else er_childLeft (node d x))"
    and cr: "\<And>x. x < length (dc_elements d) \<Longrightarrow> er_childRight (node d' x) =
      (if x = p \<and> vs = [] then last_idx us kInvalidRepIdx else er_childRight (node d x))"
  shows "document_ok (attach p (us @ vs) g) d'"
proof (rule document_ok_relink [OF ok same p(1) shape_detach [OF okD(1) [OF ok] p kids]])
  note g = okD(1) [OF ok]
  have len: "x < length (dc_elements d)" if "i \<in> t_live g" "x \<in> set (t_kids g i)" for i x
    using okD(2) [OF ok kid_live [OF ok that]] .
  have dist: "distinct (us @ j # vs)" using node_shapeD(2) [OF shapeD(1) [OF g p(1)]] kids by simp
  have end': "head_idx vs kInvalidRepIdx = head_idx vs (end_idx g p)" using kids(2) by (cases vs) (simp_all add: end_idx_def)
  show "t_more g p = None \<or> t_kids g p \<noteq> [] \<and> us @ vs \<noteq> [] \<and> last (us @ vs) = last (t_kids g p)"
    using kids by auto
  show "links d' (attach p (us @ vs) g) i" if i: "i \<in> t_live g" for i
  proof (cases "i = p")
    case False
    have out: "x \<notin> set (us @ j # vs)" if "x \<in> set (t_kids g i)" for x
      using shapeD(2) [OF g i p(1) that] kids False by auto
    show ?thesis
    proof (rule links_cong [of d' i d g, THEN iffD2])
      fix x assume x: "x \<in> set (t_kids g i)"
      from out [OF x] have "vs \<noteq> [] \<Longrightarrow> x \<noteq> hd vs" "us \<noteq> [] \<Longrightarrow> x \<noteq> last us" "x \<noteq> j" by auto
      then show "er_left (node d' x) = er_left (node d x) \<and> er_right (node d' x) = er_right (node d x) \<and>
          er_parent (node d' x) = er_parent (node d x)"
        using par left right len [OF i x] by auto
    qed (use cl [OF okD(2) [OF ok i]] cr [OF okD(2) [OF ok i]] okD(4) [OF ok i] False in simp_all)
  next
    case True
    have lp: "links d g p" using okD(4) [OF ok p(1)] .
    have l: "x < length (dc_elements d) \<and> x \<noteq> j" if "x \<in> set us \<union> set vs" for x
      using that len [OF p(1)] dist kids by auto
    have "chain d p kInvalidRepIdx us (Rep j)" "chain d p (Rep j) vs (end_idx g p)"
      using lp kids by (simp_all add: links_def chain_append)
    then have "chain d' p kInvalidRepIdx us (head_idx vs (end_idx g p))" "chain d' p (last_idx us kInvalidRepIdx) vs (end_idx g p)"
    proof -
      show "chain d' p kInvalidRepIdx us (head_idx vs (end_idx g p))" if "chain d p kInvalidRepIdx us (Rep j)"
      proof (rule chain_end [OF that])
        fix x assume x: "x \<in> set us"
        then have "vs \<noteq> [] \<Longrightarrow> x \<noteq> hd vs" "us \<noteq> []" using dist hd_in_set by fastforce+
        then show "er_left (node d' x) = er_left (node d x) \<and> er_parent (node d' x) = er_parent (node d x) \<and>
            er_right (node d' x) = (if x = last us then head_idx vs (end_idx g p) else er_right (node d x))"
          using l [of x] x par left right end' by auto
      qed (use dist in simp)
      show "chain d' p (last_idx us kInvalidRepIdx) vs (end_idx g p)" if "chain d p (Rep j) vs (end_idx g p)"
      proof (rule chain_begin [OF that])
        fix x assume x: "x \<in> set vs"
        then have "us \<noteq> [] \<Longrightarrow> x \<noteq> last us" "vs \<noteq> []" using dist last_in_set by fastforce+
        then show "er_right (node d' x) = er_right (node d x) \<and> er_parent (node d' x) = er_parent (node d x) \<and>
            er_left (node d' x) = (if x = hd vs then last_idx us kInvalidRepIdx else er_left (node d x))"
          using l [of x] x par left right by auto
      qed (use dist in simp)
    qed
    moreover have "er_childLeft (node d' p) = head_idx (us @ vs) (end_idx g p)"
      using cl [OF okD(2) [OF ok p(1)]] lp kids end' by (cases us) (simp_all add: links_def)
    moreover have "er_childRight (node d' p) = (if t_more g p = None then last_idx (us @ vs) kInvalidRepIdx else kOpaqueRepIdx)"
      using cr [OF okD(2) [OF ok p(1)]] lp kids by (auto simp: links_def last_idx_def)
    ultimately show ?thesis by (simp add: True links_def chain_append)
  qed
  show "unlinked (node d' i)" if i: "i \<in> t_live g" "detached (attach p (us @ vs) g) i" for i
  proof (cases "i = j")
    case True
    then show ?thesis using par left right okD(2) [OF ok i(1)] by (simp add: unlinked_def)
  next
    case False
    then have "detached g i" using i(2) detached_detach [OF g p(1) kids(1)] by simp
    moreover from this have "i \<notin> set (us @ j # vs)" using p(1) kids by (auto simp: detached_def)
    ultimately show ?thesis
      using okD(6) [OF ok i(1)] par left right okD(2) [OF ok i(1)] by (auto simp: unlinked_def)
  qed
qed

end
