(* ===== verification/Mutable_Edit.thy ===== *)
theory Mutable_Edit
  imports Mutable_Links
begin

text \<open>The operations that add and remove elements, on the forest.\<close>

subsection \<open>Marking the ancestors\<close>

definition anc :: "tree \<Rightarrow> nat \<Rightarrow> nat set" where
  "anc g p = (child_rel g)\<^sup>* `` {p}"

definition broken :: "nat \<Rightarrow> tree \<Rightarrow> tree" where
  "broken p g = g\<lparr>t_whole := \<lambda>x. t_whole g x \<and> x \<notin> anc g p\<rparr>"

definition mark :: "nat set \<Rightarrow> document \<Rightarrow> document" where
  "mark A d = d\<lparr>dc_elements := map (\<lambda>x. if x \<in> A then (node d x)\<lparr>er_serialized := False\<rparr> else node d x) [0..<length (dc_elements d)]\<rparr>"

lemma mark_simps [simp]:
  "length (dc_elements (mark A d)) = length (dc_elements d)" "dc_objects (mark A d) = dc_objects d"
  "dc_fieldNames (mark A d) = dc_fieldNames d" "dc_leafBuf (mark A d) = dc_leafBuf d" "dc_leafBuilder (mark A d) = dc_leafBuilder d"
  "x < length (dc_elements d) \<Longrightarrow> node (mark A d) x = (if x \<in> A then (node d x)\<lparr>er_serialized := False\<rparr> else node d x)"
  by (simp_all add: mark_def)

lemma broken_simps [simp]:
  "t_live (broken p g) = t_live g" "t_kids (broken p g) = t_kids g" "t_more (broken p g) = t_more g"
  "t_name (broken p g) = t_name g" "t_val (broken p g) = t_val g" "t_whole (broken p g) x \<longleftrightarrow> t_whole g x \<and> x \<notin> anc g p"
  "t_reps (broken p g) = t_reps g" "t_heap (broken p g) = t_heap g"
  "item (broken p g) = item g" "rest_of (broken p g) = rest_of g" "end_idx (broken p g) = end_idx g"
  "pending (broken p g) = pending g" "child_rel (broken p g) = child_rel g" "detached (broken p g) = detached g"
  "anc (broken p g) = anc g"
  by (simp_all add: broken_def item_def rest_of_def pending_def end_idx_def child_rel_def detached_def anc_def fun_eq_iff)

lemma node_eqI: "(\<And>x. x < length (dc_elements d) \<Longrightarrow> node d' x = node d x) \<Longrightarrow> length (dc_elements d') = length (dc_elements d) \<Longrightarrow>
  only_nodes d d' \<Longrightarrow> d' = d"
proof -
  assume a: "\<And>x. x < length (dc_elements d) \<Longrightarrow> node d' x = node d x" "length (dc_elements d') = length (dc_elements d)" "only_nodes d d'"
  then have "dc_elements d' = dc_elements d" by (simp add: list_eq_iff_nth_eq)
  with a(3) show ?thesis by (cases d, cases d') (simp add: only_nodes_def)
qed

lemma anc_self [simp]: "p \<in> anc g p"
  by (simp add: anc_def)

lemma anc_step: "x \<in> anc g p \<Longrightarrow> (x, y) \<in> child_rel g \<Longrightarrow> y \<in> anc g p"
  by (auto simp: anc_def)

lemma anc_parent:
  assumes "shape g" "(x, q) \<in> child_rel g"
  shows "anc g x = insert x (anc g q)"
proof -
  have uniq: "y = q" if "(x, y) \<in> child_rel g" for y
    using that assms shapeD(2) [OF assms(1)] by (auto simp: child_rel_def)
  have "(x, y) \<in> (child_rel g)\<^sup>* \<longleftrightarrow> y = x \<or> (q, y) \<in> (child_rel g)\<^sup>*" for y
  proof
    assume "(x, y) \<in> (child_rel g)\<^sup>*"
    then show "y = x \<or> (q, y) \<in> (child_rel g)\<^sup>*"
    proof (cases rule: converse_rtranclE)
      case (step z)
      then show ?thesis using uniq [OF step(1)] by simp
    qed simp
  next
    assume "y = x \<or> (q, y) \<in> (child_rel g)\<^sup>*"
    then show "(x, y) \<in> (child_rel g)\<^sup>*" using converse_rtrancl_into_rtrancl [OF assms(2)] by auto
  qed
  then show ?thesis by (simp add: anc_def set_eq_iff)
qed

lemma anc_root: "detached g x \<Longrightarrow> anc g x = {x}"
  by (auto simp: anc_def detached_child_rel elim: converse_rtranclE)

lemma anc_acyclic:
  assumes "shape g" "(x, q) \<in> child_rel g"
  shows "x \<notin> anc g q"
  using shapeD(3) [OF assms(1)] assms(2) by (auto simp: anc_def acyclic_def dest: rtrancl_into_trancl2)

lemma anc_cases: "x \<in> anc g p \<Longrightarrow> x = p \<or> t_kids g x \<noteq> [] \<and> x \<in> t_live g"
  by (auto simp: anc_def child_rel_def elim: rtranclE)

text \<open>
  \<open>deserialize\<close> follows the parent pointers while elements are serialized. Only what lies on the way to
  the root matters for it.
\<close>

definition upward :: "tree \<Rightarrow> nat \<Rightarrow> document \<Rightarrow> bool" where
  "upward g p d \<longleftrightarrow>
     (\<forall>x \<in> anc g p. x < length (dc_elements d) \<and>
        (detached g x \<longrightarrow> er_parent (node d x) = kInvalidRepIdx) \<and>
        (\<forall>q. (x, q) \<in> child_rel g \<longrightarrow> er_parent (node d x) = Rep q \<and> (er_serialized (node d q) \<longrightarrow> er_serialized (node d x))))"

lemma upward_unmarked:
  assumes "upward g p d" "\<not> er_serialized (node d p)" "x \<in> anc g p"
  shows "\<not> er_serialized (node d x)"
proof -
  have "(p, x) \<in> (child_rel g)\<^sup>*" using assms(3) by (simp add: anc_def)
  then show ?thesis
  proof (induction rule: rtrancl_induct)
    case base
    show ?case using assms(2) .
  next
    case (step y z)
    then show ?case using assms(1) by (auto simp: upward_def anc_def)
  qed
qed

lemma deserialize_mark:
  assumes g: "shape g" "finite (t_live g)" and up: "upward g p d"
  shows "deserialize (Rep p) d = Inr (mark (anc g p) d)"
proof -
  have "finite (child_rel g)"
  proof (rule finite_subset)
    show "child_rel g \<subseteq> t_live g \<times> t_live g"
      using node_shapeD(1) [OF shapeD(1) [OF g(1)]] by (auto simp: child_rel_def)
  qed (use g(2) in simp)
  then have wf: "wf ((child_rel g)\<inverse>)" using finite_acyclic_wf_converse shapeD(3) [OF g(1)] by blast
  from up show ?thesis
  proof (induction p arbitrary: d rule: wf_induct_rule [OF wf])
    case (1 p)
    have len: "p < length (dc_elements d)" using 1(2) by (simp add: upward_def)
    show ?case
    proof (cases "er_serialized (node d p)")
      case False
      have "mark (anc g p) d = d"
      proof (rule node_eqI)
        fix x assume "x < length (dc_elements d)"
        then show "node (mark (anc g p) d) x = node d x" using upward_unmarked [OF 1(2) False] by auto
      qed (simp_all add: only_nodes_def mark_def)
      then show ?thesis using False len by (simp add: deserialize.simps)
    next
      case True
      let ?d = "set_rep p (\<lambda>rep. rep\<lparr>er_serialized := False\<rparr>) d"
      have nd: "node ?d x = (if x = p then (node d p)\<lparr>er_serialized := False\<rparr> else node d x)" if "x < length (dc_elements d)" for x
        using that by (simp add: set_rep_def)
      have step: "deserialize (Rep p) d = deserialize (er_parent (node d p)) ?d"
        using True len by (subst deserialize.simps) simp
      show ?thesis
      proof (cases "detached g p")
        case True
        have "mark (anc g p) d = ?d"
        proof (rule node_eqI)
          fix x assume "x < length (dc_elements ?d)"
          then show "node (mark (anc g p) d) x = node ?d x" using anc_root [OF True] nd [of x] by (auto simp: set_rep_def)
        qed (simp_all add: only_nodes_def mark_def set_rep_def)
        then show ?thesis using step True 1(2) by (simp add: upward_def deserialize.simps [of kInvalidRepIdx])
      next
        case False
        then obtain q where q: "(p, q) \<in> child_rel g" by (auto simp: detached_child_rel)
        note anc = anc_parent [OF g(1) q] and ac = anc_acyclic [OF g(1) q]
        have "upward g q ?d"
          unfolding upward_def
        proof (intro ballI conjI)
          fix x assume x: "x \<in> anc g q"
          then have x': "x \<in> anc g p" "x \<noteq> p" using anc ac by auto
          have lx: "x < length (dc_elements d)" using 1(2) x' by (simp add: upward_def)
          show "x < length (dc_elements ?d)" using lx by (simp add: set_rep_def)
          show "detached g x \<longrightarrow> er_parent (node ?d x) = kInvalidRepIdx" using 1(2) x' nd [OF lx] by (simp add: upward_def)
          show "\<forall>y. (x, y) \<in> child_rel g \<longrightarrow> er_parent (node ?d x) = Rep y \<and> (er_serialized (node ?d y) \<longrightarrow> er_serialized (node ?d x))"
          proof (intro allI impI)
            fix y assume y: "(x, y) \<in> child_rel g"
            then have "y \<in> anc g q" using anc_step [OF x] by blast
            then have "y \<noteq> p" "y < length (dc_elements d)" using ac anc 1(2) by (auto simp: upward_def)
            then show "er_parent (node ?d x) = Rep y \<and> (er_serialized (node ?d y) \<longrightarrow> er_serialized (node ?d x))"
              using 1(2) x' y nd [OF lx] nd [of y] by (simp add: upward_def)
          qed
        qed
        then have "deserialize (Rep q) ?d = Inr (mark (anc g q) ?d)" using 1(1) [of q] q by simp
        moreover have "mark (anc g q) ?d = mark (anc g p) d"
        proof (rule node_eqI)
          fix x assume "x < length (dc_elements (mark (anc g p) d))"
          then have "x < length (dc_elements d)" "x < length (dc_elements ?d)" by (simp_all add: set_rep_def)
          then show "node (mark (anc g q) ?d) x = node (mark (anc g p) d) x"
            using nd [of x] ac anc by auto
        qed (simp_all add: only_nodes_def mark_def set_rep_def)
        moreover have "er_parent (node d p) = Rep q" using 1(2) q by (simp add: upward_def)
        ultimately show ?thesis using step by simp
      qed
    qed
  qed
qed

lemma mark_fields:
  assumes "x < length (dc_elements d)"
  shows "er_left (node (mark A d) x) = er_left (node d x)" "er_right (node (mark A d) x) = er_right (node d x)"
    "er_parent (node (mark A d) x) = er_parent (node d x)" "er_childLeft (node (mark A d) x) = er_childLeft (node d x)"
    "er_childRight (node (mark A d) x) = er_childRight (node d x)" "er_objIdx (node (mark A d) x) = er_objIdx (node d x)"
    "er_offset (node (mark A d) x) = er_offset (node d x)" "er_array (node (mark A d) x) = er_array (node d x)"
    "er_serialized (node (mark A d) x) \<longleftrightarrow> er_serialized (node d x) \<and> x \<notin> A"
  using assms by auto

lemma upward_ok:
  assumes ok: "document_ok g d" and p: "p \<in> t_live g"
  shows "upward g p d"
proof -
  have live: "x \<in> t_live g" if "x \<in> anc g p" for x using anc_cases [OF that] p by blast
  have "er_serialized (node d x)" if "(x, q) \<in> child_rel g" "er_serialized (node d q)" for x q
  proof -
    have q: "q \<in> t_live g" "x \<in> set (t_kids g q)" using that(1) by (auto simp: child_rel_def)
    have "t_whole g x"
      using node_shapeD(8) [OF shapeD(1) [OF okD(1) [OF ok] q(1)] _ q(2)] that(2) okD(3) [OF ok q(1)] by (simp add: content_def)
    then show ?thesis using okD(3) [OF ok kid_live [OF ok q]] by (simp add: content_def)
  qed
  moreover have "er_parent (node d x) = Rep q" if "(x, q) \<in> child_rel g" for x q
    using that kid_parent [OF ok] by (auto simp: child_rel_def)
  moreover have "er_parent (node d x) = kInvalidRepIdx" if "x \<in> anc g p" "detached g x" for x
    using okD(6) [OF ok live [OF that(1)] that(2)] by (simp add: unlinked_def)
  ultimately show ?thesis using okD(2) [OF ok live] unfolding upward_def by blast
qed

lemma upward_cong:
  assumes "upward g p d" "length (dc_elements d') = length (dc_elements d)"
    "\<And>x. x \<in> anc g p \<Longrightarrow> er_parent (node d' x) = er_parent (node d x) \<and> er_serialized (node d' x) = er_serialized (node d x)"
  shows "upward g p d'"
  unfolding upward_def
proof (intro ballI conjI allI impI)
  fix x assume x: "x \<in> anc g p"
  show "x < length (dc_elements d')" using assms(1,2) x by (simp add: upward_def)
  show "er_parent (node d' x) = kInvalidRepIdx" if "detached g x" using assms(1) assms(3) [OF x] x that by (simp add: upward_def)
  fix q assume q: "(x, q) \<in> child_rel g"
  show "er_parent (node d' x) = Rep q" using assms(1) assms(3) [OF x] x q by (simp add: upward_def)
  show "er_serialized (node d' x)" if "er_serialized (node d' q)"
    using assms(1) assms(3) [OF x] assms(3) [OF anc_step [OF x q]] x q that by (simp add: upward_def)
qed

lemma shape_broken:
  assumes g: "shape g" and p: "container (t_val g p)"
  shows "shape (broken p g)"
proof -
  have "node_shape (broken p g) i" if i: "i \<in> t_live g" for i
  proof -
    note ni = shapeD(1) [OF g i]
    have "i \<notin> anc g p" if "\<not> container (t_val g i)"
      using anc_cases [of i g p] p that node_shapeD(5) [OF ni that] by auto
    moreover have "c \<notin> anc g p" if "i \<notin> anc g p" "c \<in> set (t_kids g i)" for c
      using anc_step [of c g p i] that i by (auto simp: child_rel_def)
    ultimately show ?thesis using ni by (simp add: node_shape_def)
  qed
  then show ?thesis using g by (simp add: shape_def)
qed

lemma document_ok_broken:
  assumes ok: "document_ok g d" and p: "p \<in> t_live g" "container (t_val g p)" "t_kids g p \<noteq> [] \<or> t_more g p = None \<or> p = 0"
  shows "document_ok (broken p g) (mark (anc g p) d)"
proof -
  let ?d = "mark (anc g p) d"
  have node: "content ?d (broken p g) i \<and> links ?d (broken p g) i \<and> tails ?d (broken p g) i \<and>
      (detached g i \<longrightarrow> unlinked (node ?d i))" if i: "i \<in> t_live g" for i
  proof (intro conjI impI)
    note len = okD(2) [OF ok i]
    have bytes: "bytes_at ?d x bs = bytes_at d x bs" if "x < length (dc_elements d)" for x bs
      by (simp only: bytes_at_def mark_fields [OF that] mark_simps)
    show "content ?d (broken p g) i"
      using okD(3) [OF ok i] by (simp add: content_def bytes [OF len] mark_fields [OF len] cong: option.case_cong if_cong) (auto split: option.splits)
    show "links ?d (broken p g) i"
    proof (rule links_cong [of ?d i d g, THEN iffD2])
      fix c assume "c \<in> set (t_kids g i)"
      then have "c < length (dc_elements d)" using okD(2) [OF ok kid_live [OF ok i]] by blast
      then show "er_left (node ?d c) = er_left (node d c) \<and> er_right (node ?d c) = er_right (node d c) \<and> er_parent (node ?d c) = er_parent (node d c)"
        by (simp only: mark_fields)
    qed (use okD(4) [OF ok i] len in \<open>simp_all only: mark_fields broken_simps\<close>)
    show "tails ?d (broken p g) i"
      unfolding tails_def
    proof (intro allI impI)
      fix r assume r: "t_more (broken p g) i = Some r"
      show "if t_kids (broken p g) i = [] then if i = 0 then er_objIdx (node ?d i) \<noteq> None else t_whole (broken p g) i
        else bytes_at ?d (last (t_kids (broken p g) i)) (encode_elem (item (broken p g) (last (t_kids (broken p g) i))) @ encode_elems r @ [nul])"
      proof (cases "t_kids g i = []")
        case True
        then have "i \<noteq> 0 \<Longrightarrow> i \<notin> anc g p" using p(3) r anc_cases [of i g p] by auto
        then show ?thesis using okD(5) [OF ok i] True r mark_fields(6) [OF len, of "anc g p"] by (auto simp: tails_def)
      next
        case False
        then have "last (t_kids g i) < length (dc_elements d)" using okD(2) [OF ok kid_live [OF ok i]] by simp
        then show ?thesis using okD(5) [OF ok i] False r by (simp add: tails_def bytes)
      qed
    qed
    assume "detached g i"
    then show "unlinked (node ?d i)" using okD(6) [OF ok i] by (simp add: unlinked_def mark_fields [OF len])
  qed
  then show ?thesis
    using shape_broken [OF okD(1) [OF ok] p(2)] okD(2,7,9) [OF ok]
    by (simp add: document_ok_def heap_ok_def budget_ok_def)
qed

lemma node_set_rep: "node (set_rep i f d) x = (if x = i \<and> i < length (dc_elements d) then f (node d i) else node d x)"
  by (cases "i < length (dc_elements d)") (auto simp: set_rep_def list_update_beyond)

lemma set_rep_simps [simp]:
  "length (dc_elements (set_rep i f d)) = length (dc_elements d)" "dc_objects (set_rep i f d) = dc_objects d"
  "dc_fieldNames (set_rep i f d) = dc_fieldNames d" "dc_leafBuf (set_rep i f d) = dc_leafBuf d"
  "dc_leafBuilder (set_rep i f d) = dc_leafBuilder d"
  by (simp_all add: set_rep_def)

lemma disable_simps [simp]:
  "dc_elements (disableInPlaceUpdates d) = dc_elements d" "dc_objects (disableInPlaceUpdates d) = dc_objects d"
  "dc_fieldNames (disableInPlaceUpdates d) = dc_fieldNames d" "dc_leafBuf (disableInPlaceUpdates d) = dc_leafBuf d"
  "dc_leafBuilder (disableInPlaceUpdates d) = dc_leafBuilder d"
  by (simp_all add: disableInPlaceUpdates_def)

subsection \<open>Adding\<close>

lemma same_data_mark: "same_data d d' \<Longrightarrow> same_data (mark A d) (mark A d')"
  by (simp add: same_data_def same_content_def mark_fields del: mark_simps(6))

lemma same_dataD:
  assumes "same_data d d'"
  shows "length (dc_elements d') = length (dc_elements d)"
    "x < length (dc_elements d) \<Longrightarrow> er_serialized (node d' x) = er_serialized (node d x)"
  using assms by (simp_all add: same_data_def same_content_def)

lemma attach_deserialize:
  assumes ok: "document_ok g d" and same: "same_data d d'"
    and p: "p \<in> t_live g" "container (t_val g p)" "t_kids g p \<noteq> [] \<or> t_more g p = None \<or> p = 0"
    and kids: "t_kids g p = us @ vs" "vs = [] \<longrightarrow> t_more g p = None"
    and j: "j \<in> t_live g" "detached g j" "j \<noteq> 0" "j \<notin> anc g p"
    and par: "\<And>x. x < length (dc_elements d) \<Longrightarrow> er_parent (node d' x) = (if x = j then Rep p else er_parent (node d x))"
    and left: "\<And>x. x < length (dc_elements d) \<Longrightarrow> er_left (node d' x) =
      (if x = j then last_idx us kInvalidRepIdx else if vs \<noteq> [] \<and> x = hd vs then Rep j else er_left (node d x))"
    and right: "\<And>x. x < length (dc_elements d) \<Longrightarrow> er_right (node d' x) =
      (if x = j then head_idx vs kInvalidRepIdx else if us \<noteq> [] \<and> x = last us then Rep j else er_right (node d x))"
    and cl: "\<And>x. x < length (dc_elements d) \<Longrightarrow> er_childLeft (node d' x) = (if x = p \<and> us = [] then Rep j else er_childLeft (node d x))"
    and cr: "\<And>x. x < length (dc_elements d) \<Longrightarrow> er_childRight (node d' x) = (if x = p \<and> vs = [] then Rep j else er_childRight (node d x))"
  shows "deserialize (Rep p) d' = Inr (mark (anc g p) d')"
    "document_ok (attach p (us @ j # vs) (broken p g)) (mark (anc g p) d')"
proof -
  note ok' = document_ok_broken [OF ok p]
  have live: "x < length (dc_elements d)" if "x \<in> anc g p" for x
    using upward_ok [OF ok p(1)] that by (simp add: upward_def)
  have "upward g p d'"
    using j(4) par live same_dataD [OF same] by (intro upward_cong [OF upward_ok [OF ok p(1)]]) auto
  then show "deserialize (Rep p) d' = Inr (mark (anc g p) d')"
    by (rule deserialize_mark [OF okD(1) [OF ok] live_finite [OF ok]])
  show "document_ok (attach p (us @ j # vs) (broken p g)) (mark (anc g p) d')"
    by (rule document_ok_attach [OF ok' same_data_mark [OF same]])
       (use p kids j par left right cl cr same_dataD(1) [OF same] in \<open>simp_all add: mark_fields anc_def del: mark_simps(6)\<close>)
qed

lemma attachable:
  assumes ok: "document_ok g d" and j: "j \<in> t_live g" "detached g j" "j \<noteq> 0"
  shows "getElementRep j d = Inr (node d j)" "canAttach j (node d j)"
  using okD(2) [OF ok j(1)] okD(6) [OF ok j(1,2)] j(3)
  by (simp_all add: getElementRep_def canAttach_def kRootRepIdx_def unlinked_def)

lemma kid_not_parent:
  assumes "shape g" "p \<in> t_live g" "x \<in> set (t_kids g p)"
  shows "x \<noteq> p"
  using anc_acyclic [OF assms(1), of x p] assms(2,3) by (auto simp: child_rel_def)

lemma addSiblingLeft_ok:
  assumes ok: "document_ok g d" and p: "p \<in> t_live g" and kids: "t_kids g p = us @ i # vs"
    and j: "j \<in> t_live g" "detached g j" "j \<noteq> 0" "j \<notin> anc g p"
  shows "\<exists>d'. addSiblingLeft (Rep i) (Rep j) d = Inr (Status_OK, d') \<and> document_ok (attach p (us @ j # i # vs) (broken p g)) d'"
proof -
  note g = okD(1) [OF ok]
  have ki: "i \<in> set (t_kids g p)" using kids by simp
  have pc: "container (t_val g p)" using node_shapeD(5) [OF shapeD(1) [OF g p]] kids by auto
  have len: "i < length (dc_elements d)" "j < length (dc_elements d)" "p < length (dc_elements d)"
    "us \<noteq> [] \<Longrightarrow> last us < length (dc_elements d)"
    using okD(2) [OF ok] p j(1) kid_live [OF ok p] kids by simp_all
  have get: "getElementRep x d = Inr (node d x)" if "x < length (dc_elements d)" for x using that by (simp add: getElementRep_def)
  have dist: "distinct (us @ i # vs)" using node_shapeD(2) [OF shapeD(1) [OF g p]] kids by simp
  have new: "j \<notin> set (us @ i # vs)" using j(2) p kids by (auto simp: detached_def)
  note left = right_of_kid(2) [OF ok p kids] and par = kid_parent [OF ok p ki]
  have cl: "er_childLeft (node d p) = Rep i \<longleftrightarrow> us = []"
    using okD(4) [OF ok p] kids dist by (cases us) (auto simp: links_def)
  define d1 where "d1 = set_rep j (\<lambda>rep. rep\<lparr>er_parent := Rep p, er_right := Rep i, er_left := last_idx us kInvalidRepIdx\<rparr>) (disableInPlaceUpdates d)"
  define d2 where "d2 = (if us = [] then d1 else set_rep (last us) (\<lambda>rep. rep\<lparr>er_right := Rep j\<rparr>) d1)"
  define d3 where "d3 = set_rep i (\<lambda>rep. rep\<lparr>er_left := Rep j\<rparr>) d2"
  define d4 where "d4 = set_rep p (\<lambda>rep. if er_childLeft rep = Rep i then rep\<lparr>er_childLeft := Rep j\<rparr> else rep) d3"
  have step: "addSiblingLeft (Rep i) (Rep j) d = bindE (deserialize (Rep p) d4) (\<lambda>d. Inr (Status_OK, d))"
  proof -
    have "set_right (last_idx us kInvalidRepIdx) (Rep j) d1 = Inr d2"
      using len by (simp add: set_right_def d2_def last_idx_def rep_number_def getElementRep_def d1_def)
    then show ?thesis
      using len attachable [OF ok j(1-3)] left par
      by (simp add: addSiblingLeft_def verify_ok_def rep_number_def get d1_def d3_def d4_def Let_def)
  qed
  have lens: "length (dc_elements d1) = length (dc_elements d)" "length (dc_elements d2) = length (dc_elements d)"
    "length (dc_elements d3) = length (dc_elements d)" by (simp_all add: d1_def d2_def d3_def)
  have n1: "node d1 x = (if x = j then (node d x)\<lparr>er_parent := Rep p, er_right := Rep i, er_left := last_idx us kInvalidRepIdx\<rparr> else node d x)" for x
    using len(2) by (simp add: d1_def node_set_rep)
  have n2: "node d2 x = (if us \<noteq> [] \<and> x = last us then (node d1 x)\<lparr>er_right := Rep j\<rparr> else node d1 x)" for x
    using len(4) by (auto simp: d2_def node_set_rep lens)
  have n3: "node d3 x = (if x = i then (node d2 x)\<lparr>er_left := Rep j\<rparr> else node d2 x)" for x
    using len(1) by (auto simp: d3_def node_set_rep lens)
  have n4: "node d4 x = (if x = p \<and> us = [] then (node d3 x)\<lparr>er_childLeft := Rep j\<rparr> else node d3 x)" for x
  proof -
    have "er_childLeft (node d3 p) = er_childLeft (node d p)" by (simp add: n3 n2 n1)
    then show ?thesis using len(3) cl by (auto simp: d4_def node_set_rep lens)
  qed
  have dl: "i \<noteq> j" "\<not> (us \<noteq> [] \<and> j = last us)" using new last_in_set [of us] by auto
  have "length (dc_elements d4) = length (dc_elements d)" "dc_objects d4 = dc_objects d" "dc_fieldNames d4 = dc_fieldNames d"
    "dc_leafBuf d4 = dc_leafBuf d" "dc_leafBuilder d4 = dc_leafBuilder d"
    by (simp_all add: d4_def d3_def d2_def d1_def)
  moreover have "er_objIdx (node d4 x) = er_objIdx (node d x)" "er_offset (node d4 x) = er_offset (node d x)"
    "er_array (node d4 x) = er_array (node d x)" "er_serialized (node d4 x) = er_serialized (node d x)" for x
    by (simp_all add: n4 n3 n2 n1)
  ultimately have same: "same_data d d4" by (simp add: same_data_def same_content_def)
  have fields: "er_parent (node d4 x) = (if x = j then Rep p else er_parent (node d x))"
    "er_left (node d4 x) = (if x = j then last_idx us kInvalidRepIdx else if i # vs \<noteq> [] \<and> x = hd (i # vs) then Rep j else er_left (node d x))"
    "er_right (node d4 x) = (if x = j then head_idx (i # vs) kInvalidRepIdx else if us \<noteq> [] \<and> x = last us then Rep j else er_right (node d x))"
    "er_childLeft (node d4 x) = (if x = p \<and> us = [] then Rep j else er_childLeft (node d x))"
    "er_childRight (node d4 x) = (if x = p \<and> i # vs = [] then Rep j else er_childRight (node d x))" for x
  proof -
    show "er_parent (node d4 x) = (if x = j then Rep p else er_parent (node d x))"
      "er_childLeft (node d4 x) = (if x = p \<and> us = [] then Rep j else er_childLeft (node d x))"
      "er_childRight (node d4 x) = (if x = p \<and> i # vs = [] then Rep j else er_childRight (node d x))"
      by (simp_all add: n4 n3 n2 n1)
    have "er_left (node d4 x) = (if x = i then Rep j else er_left (node d1 x))" by (simp add: n4 n3 n2)
    then show "er_left (node d4 x) = (if x = j then last_idx us kInvalidRepIdx else if i # vs \<noteq> [] \<and> x = hd (i # vs) then Rep j else er_left (node d x))"
      using dl(1) by (simp add: n1)
    have "er_right (node d4 x) = (if us \<noteq> [] \<and> x = last us then Rep j else er_right (node d1 x))" by (simp add: n4 n3 n2)
    then show "er_right (node d4 x) = (if x = j then head_idx (i # vs) kInvalidRepIdx else if us \<noteq> [] \<and> x = last us then Rep j else er_right (node d x))"
      using dl(2) by (cases "x = j") (simp_all add: n1)
  qed
  note spec = attach_deserialize [OF ok same p pc _ _ _ j fields]
  have "deserialize (Rep p) d4 = Inr (mark (anc g p) d4)" "document_ok (attach p (us @ j # i # vs) (broken p g)) (mark (anc g p) d4)"
    by (rule spec; use kids in simp)+
  then show ?thesis using step by simp
qed

lemma document_ok_flags:
  assumes ok: "document_ok g d" and same: "dc_elements d' = dc_elements d" "dc_objects d' = dc_objects d"
    "dc_fieldNames d' = dc_fieldNames d" "dc_leafBuf d' = dc_leafBuf d" "dc_leafBuilder d' = dc_leafBuilder d"
  shows "document_ok g d'"
proof -
  have sc: "same_content d d' i" for i by (simp add: same_content_def same(1))
  have "content d' g i" "links d' g i" "tails d' g i" if i: "i \<in> t_live g" for i
    using content_cong [OF sc same(2,3) refl refl refl, of g i] okD(3) [OF ok i]
      links_cong [of d' i d g g] okD(4) [OF ok i] tails_cong [OF sc sc same(2) refl refl refl refl] okD(5) [OF ok i]
    by (simp_all add: same(1))
  then show ?thesis using okD(1,2,6,7) [OF ok] heap_ok_cong [OF same(2,4,5)] budget_ok_cong [OF okD(9) [OF ok], of d' g] same(1,4)
    by (simp add: document_ok_def same(1))
qed

lemma document_ok_disable: "document_ok g d \<Longrightarrow> document_ok g (disableInPlaceUpdates d)"
  by (erule document_ok_flags) simp_all

lemma visits_detached: "visits g g' \<Longrightarrow> j \<in> t_live g \<Longrightarrow> detached g' j \<longleftrightarrow> detached g j"
proof (induction rule: visits.induct)
  case (visits_found g' i c e r)
  then show ?case
    using detached_found [of g' i "fst e" "snd e" r c j] visits_frame(1) [OF visits_found.hyps(1)] by auto
qed simp_all

lemma visits_anc: "visits g g' \<Longrightarrow> p \<in> t_live g \<Longrightarrow> anc g' p = anc g p"
proof (induction rule: visits.induct)
  case (visits_found g' i c e r)
  have p: "p \<in> t_live g'" using visits_frame(1) [OF visits_found.hyps(1)] visits_found.prems by blast
  have rel: "child_rel (found c i g') = insert (c, i) (child_rel g')"
    using found_child_rel [of g' i "fst e" "snd e" r c] visits_found.hyps by auto
  have "c \<notin> anc g' p"
    using anc_cases [of c g' p] p visits_found.hyps(3) by auto
  then have "anc (found c i g') p = anc g' p"
    unfolding anc_def rel using Image_singleton_iff by (auto simp: rtrancl_insert)
  then show ?case using visits_found.IH visits_found.prems by simp
qed (simp_all add: anc_def)

lemma addSiblingRight_ok:
  assumes ok0: "document_ok g0 d0" and p0: "p \<in> t_live g0" and kids0: "t_kids g0 p = us @ i # vs0"
    and j0: "j \<in> t_live g0" "detached g0 j" "j \<noteq> 0" "j \<notin> anc g0 p"
  shows "\<exists>g vs d'. visits g0 g \<and> t_kids g p = us @ i # vs \<and> (vs = [] \<longrightarrow> t_more g p = None) \<and> (vs0 \<noteq> [] \<longrightarrow> vs = vs0) \<and>
    (t_more g0 p = None \<longrightarrow> g = g0) \<and>
    addSiblingRight (Rep i) (Rep j) d0 = Inr (Status_OK, d') \<and> document_ok (attach p (us @ i # j # vs) (broken p g)) d'"
proof -
  from resolveRightSibling_ok [OF document_ok_disable [OF ok0] p0 kids0] obtain g d vs where
    s: "resolveRightSibling i (disableInPlaceUpdates d0) = Inr (head_idx vs kInvalidRepIdx, d)"
      "t_kids g p = us @ i # vs" "document_ok g d" "visits g0 g" "vs = [] \<Longrightarrow> t_more g p = None" "vs0 \<noteq> [] \<Longrightarrow> vs = vs0"
      "t_more g0 p = None \<Longrightarrow> g = g0" by metis
  note ok = s(3) and kids = s(2)
  have p: "p \<in> t_live g" and j: "j \<in> t_live g" "detached g j" "j \<noteq> 0" "j \<notin> anc g p"
    using visits_frame(1) [OF s(4)] visits_detached [OF s(4) j0(1)] visits_anc [OF s(4) p0] p0 j0 by auto
  note g = okD(1) [OF ok]
  have pc: "container (t_val g p)" using node_shapeD(5) [OF shapeD(1) [OF g p]] kids by auto
  have len: "i < length (dc_elements d)" "j < length (dc_elements d)" "p < length (dc_elements d)"
    "vs \<noteq> [] \<Longrightarrow> hd vs < length (dc_elements d)"
    using okD(2) [OF ok] p j(1) kid_live [OF ok p] kids by simp_all
  have dist: "distinct (us @ i # vs)" using node_shapeD(2) [OF shapeD(1) [OF g p]] kids by simp
  have new: "j \<notin> set (us @ i # vs)" using j(2) p kids by (auto simp: detached_def)
  have pn: "p \<noteq> j" using j(4) by auto
  have np: "x \<noteq> p" if "x \<in> set (us @ i # vs)" for x using kid_not_parent [OF g p] that kids by simp
  have cr: "er_childRight (node d p) = Rep i \<longleftrightarrow> vs = []"
    using okD(4) [OF ok p] kids dist s(5) last_in_set [of vs] by (auto simp: links_def last_idx_def)
  have par0: "er_parent (node d0 i) = Rep p" using kid_parent [OF ok0 p0, of i] kids0 by simp
  have get0: "getElementRep x d0 = Inr (node d0 x)" if "x \<in> t_live g0" for x using okD(2) [OF ok0 that] by (simp add: getElementRep_def)
  have i0: "i \<in> t_live g0" using kid_live [OF ok0 p0] kids0 by simp
  define d1 where "d1 = set_rep j (\<lambda>rep. rep\<lparr>er_parent := Rep p, er_left := Rep i, er_right := head_idx vs kInvalidRepIdx\<rparr>) d"
  define d2 where "d2 = set_rep i (\<lambda>rep. rep\<lparr>er_right := Rep j\<rparr>) d1"
  define d3 where "d3 = (if vs = [] then d2 else set_rep (hd vs) (\<lambda>rep. rep\<lparr>er_left := Rep j\<rparr>) d2)"
  define d4 where "d4 = set_rep p (\<lambda>rep. if er_childRight rep = Rep i then rep\<lparr>er_childRight := Rep j\<rparr> else rep) d3"
  have step: "addSiblingRight (Rep i) (Rep j) d0 = bindE (deserialize (Rep p) d4) (\<lambda>d. Inr (Status_OK, d))"
  proof -
    have "set_left (head_idx vs kInvalidRepIdx) (Rep j) d2 = Inr d3"
      using len by (cases vs) (simp_all add: set_left_def d3_def rep_number_def getElementRep_def d1_def d2_def)
    then show ?thesis
      using len attachable [OF ok0 j0(1-3)] par0 get0 [OF i0] get0 [OF p0] s(1)
      by (simp add: addSiblingRight_def verify_ok_def rep_number_def d1_def d2_def d4_def Let_def)
  qed
  have dl: "vs \<noteq> [] \<Longrightarrow> hd vs \<noteq> i" "i \<noteq> j" "vs \<noteq> [] \<Longrightarrow> hd vs \<noteq> j" "i \<noteq> p" "vs \<noteq> [] \<Longrightarrow> hd vs \<noteq> p"
    using new np dist hd_in_set [of vs] by auto
  have n1: "node d1 x = (if x = j then (node d x)\<lparr>er_parent := Rep p, er_left := Rep i, er_right := head_idx vs kInvalidRepIdx\<rparr> else node d x)" for x
    using len by (simp add: d1_def node_set_rep)
  have n2: "node d2 x = (if x = i then (node d x)\<lparr>er_right := Rep j\<rparr> else node d1 x)" for x
    using len dl by (simp add: d2_def node_set_rep n1) (simp add: d1_def)
  have n3: "node d3 x = (if vs \<noteq> [] \<and> x = hd vs then (node d x)\<lparr>er_left := Rep j\<rparr> else node d2 x)" for x
    using len dl by (auto simp add: d3_def node_set_rep n2 n1) (simp_all add: d1_def d2_def)
  have n4: "node d4 x = (if x = p \<and> vs = [] then (node d x)\<lparr>er_childRight := Rep j\<rparr> else node d3 x)" for x
  proof -
    have "node d3 p = node d p" using dl pn by (auto simp: n3 n2 n1)
    moreover have "length (dc_elements d3) = length (dc_elements d)" by (simp add: d3_def d2_def d1_def)
    ultimately show ?thesis using len(3) cr by (auto simp: d4_def node_set_rep)
  qed
  have "length (dc_elements d4) = length (dc_elements d)" "dc_objects d4 = dc_objects d" "dc_fieldNames d4 = dc_fieldNames d"
    "dc_leafBuf d4 = dc_leafBuf d" "dc_leafBuilder d4 = dc_leafBuilder d"
    by (simp_all add: d4_def d3_def d2_def d1_def)
  then have same: "same_data d d4" by (simp add: same_data_def same_content_def n4 n3 n2 n1)
  have fields: "er_parent (node d4 x) = (if x = j then Rep p else er_parent (node d x))"
    "er_left (node d4 x) = (if x = j then last_idx (us @ [i]) kInvalidRepIdx else if vs \<noteq> [] \<and> x = hd vs then Rep j else er_left (node d x))"
    "er_right (node d4 x) = (if x = j then head_idx vs kInvalidRepIdx else if us @ [i] \<noteq> [] \<and> x = last (us @ [i]) then Rep j else er_right (node d x))"
    "er_childLeft (node d4 x) = (if x = p \<and> us @ [i] = [] then Rep j else er_childLeft (node d x))"
    "er_childRight (node d4 x) = (if x = p \<and> vs = [] then Rep j else er_childRight (node d x))" if "x < length (dc_elements d)" for x
    using dl pn by (auto simp: n4 n3 n2 n1)
  note spec = attach_deserialize [OF ok same p pc _ _ _ j fields, simplified]
  have "deserialize (Rep p) d4 = Inr (mark (anc g p) d4)" "document_ok (attach p (us @ i # j # vs) (broken p g)) (mark (anc g p) d4)"
    by (rule spec; use kids s(5) in simp)+
  then show ?thesis using step s by (intro exI [of _ g] exI [of _ vs] exI [of _ "mark (anc g p) d4"]) simp
qed

subsection \<open>Removing\<close>

lemma elem_remove_ok:
  assumes ok0: "document_ok g0 d0" and p0: "p \<in> t_live g0" and kids0: "t_kids g0 p = us @ i # vs0"
  shows "\<exists>g vs d'. visits g0 g \<and> t_kids g p = us @ i # vs \<and> (vs = [] \<longrightarrow> t_more g p = None) \<and> (vs0 \<noteq> [] \<longrightarrow> vs = vs0) \<and>
    elem_remove (Rep i) d0 = Inr (Status_OK, d') \<and> document_ok (attach p (us @ vs) (broken p g)) d'"
proof -
  from resolveRightSibling_ok [OF ok0 p0 kids0] obtain g d vs where
    s: "resolveRightSibling i d0 = Inr (head_idx vs kInvalidRepIdx, d)"
      "t_kids g p = us @ i # vs" "document_ok g d" "visits g0 g" "vs = [] \<Longrightarrow> t_more g p = None" "vs0 \<noteq> [] \<Longrightarrow> vs = vs0" by metis
  note ok = s(3) and kids = s(2)
  have p: "p \<in> t_live g" using visits_frame(1) [OF s(4)] p0 by blast
  note g = okD(1) [OF ok]
  have pc: "container (t_val g p)" using node_shapeD(5) [OF shapeD(1) [OF g p]] kids by auto
  have len: "i < length (dc_elements d)" "p < length (dc_elements d)"
    "vs \<noteq> [] \<Longrightarrow> hd vs < length (dc_elements d)" "us \<noteq> [] \<Longrightarrow> last us < length (dc_elements d)"
    using okD(2) [OF ok] p kid_live [OF ok p] kids by simp_all
  have dist: "distinct (us @ i # vs)" using node_shapeD(2) [OF shapeD(1) [OF g p]] kids by simp
  have links: "er_left (node d i) = last_idx us kInvalidRepIdx" "er_right (node d i) = head_idx vs kInvalidRepIdx" "er_parent (node d i) = Rep p"
  proof -
    show "er_left (node d i) = last_idx us kInvalidRepIdx" by (rule right_of_kid(2) [OF ok p kids])
    show "er_right (node d i) = head_idx vs kInvalidRepIdx"
      using right_of_kid(1) [OF ok p kids] s(5) by (cases vs) (simp_all add: end_idx_def)
    show "er_parent (node d i) = Rep p" using kid_parent [OF ok p, of i] kids by simp
  qed
  have cr: "er_childRight (node d p) = Rep i \<longleftrightarrow> vs = []"
    using okD(4) [OF ok p] kids dist s(5) last_in_set [of vs] by (auto simp: links_def last_idx_def)
  have cl: "er_childLeft (node d p) = Rep i \<longleftrightarrow> us = []"
    using okD(4) [OF ok p] kids dist by (cases us) (auto simp: links_def)
  define d1 where "d1 = (if vs = [] then disableInPlaceUpdates d else set_rep (hd vs) (\<lambda>rep. rep\<lparr>er_left := last_idx us kInvalidRepIdx\<rparr>) (disableInPlaceUpdates d))"
  define d2 where "d2 = (if us = [] then d1 else set_rep (last us) (\<lambda>rep. rep\<lparr>er_right := head_idx vs kInvalidRepIdx\<rparr>) d1)"
  define d3 where "d3 = set_rep p (\<lambda>rep. if er_childRight rep = Rep i then rep\<lparr>er_childRight := last_idx us kInvalidRepIdx\<rparr> else rep) d2"
  define d4 where "d4 = set_rep p (\<lambda>rep. if er_childLeft rep = Rep i then rep\<lparr>er_childLeft := head_idx vs kInvalidRepIdx\<rparr> else rep) d3"
  define d5 where "d5 = set_rep i (\<lambda>rep. rep\<lparr>er_parent := kInvalidRepIdx, er_left := kInvalidRepIdx, er_right := kInvalidRepIdx\<rparr>) (mark (anc g p) d4)"
  have lens: "length (dc_elements d1) = length (dc_elements d)" "length (dc_elements d2) = length (dc_elements d)"
    "length (dc_elements d3) = length (dc_elements d)" "length (dc_elements d4) = length (dc_elements d)"
    by (simp_all add: d1_def d2_def d3_def d4_def)
  have n1: "node d1 x = (if vs \<noteq> [] \<and> x = hd vs then (node d x)\<lparr>er_left := last_idx us kInvalidRepIdx\<rparr> else node d x)" for x
    using len by (auto simp: d1_def node_set_rep)
  have n2: "node d2 x = (if us \<noteq> [] \<and> x = last us then (node d1 x)\<lparr>er_right := head_idx vs kInvalidRepIdx\<rparr> else node d1 x)" for x
    using len(4) by (auto simp: d2_def node_set_rep lens)
  have n3: "node d3 x = (if x = p \<and> vs = [] then (node d2 x)\<lparr>er_childRight := last_idx us kInvalidRepIdx\<rparr> else node d2 x)" for x
  proof -
    have "er_childRight (node d2 p) = er_childRight (node d p)" by (simp add: n2 n1)
    then show ?thesis using len(2) cr by (auto simp: d3_def node_set_rep lens)
  qed
  have n4: "node d4 x = (if x = p \<and> us = [] then (node d3 x)\<lparr>er_childLeft := head_idx vs kInvalidRepIdx\<rparr> else node d3 x)" for x
  proof -
    have "er_childLeft (node d3 p) = er_childLeft (node d p)" by (simp add: n3 n2 n1)
    then show ?thesis using len(2) cl by (auto simp: d4_def node_set_rep lens)
  qed
  have n5: "node d5 x = (if x = i then (node (mark (anc g p) d4) x)\<lparr>er_parent := kInvalidRepIdx, er_left := kInvalidRepIdx, er_right := kInvalidRepIdx\<rparr>
      else node (mark (anc g p) d4) x)" for x
    using len(1) by (simp add: d5_def node_set_rep lens)
  have up: "upward g p d4"
    by (rule upward_cong [OF upward_ok [OF ok p]]) (simp_all add: lens n4 n3 n2 n1)
  have step: "elem_remove (Rep i) d0 = Inr (Status_OK, d5)"
  proof -
    have "set_left (head_idx vs kInvalidRepIdx) (last_idx us kInvalidRepIdx) (disableInPlaceUpdates d) = Inr d1"
      using len by (cases vs) (simp_all add: set_left_def d1_def rep_number_def getElementRep_def)
    moreover have "set_right (last_idx us kInvalidRepIdx) (head_idx vs kInvalidRepIdx) d1 = Inr d2"
      using len by (simp add: set_right_def d2_def rep_number_def getElementRep_def last_idx_def lens)
    moreover have "deserialize (Rep p) d4 = Inr (mark (anc g p) d4)"
      by (rule deserialize_mark [OF g live_finite [OF ok] up])
    moreover have "getElementRep i d = Inr (node d i)" "getElementRep p d2 = Inr (node d2 p)"
      using len by (simp_all add: getElementRep_def lens)
    ultimately show ?thesis
      using s(1) by (simp add: elem_remove_def verify_ok_def rep_number_def d3_def d4_def d5_def links Let_def cong: if_cong)
  qed
  have same: "same_data (mark (anc g p) d) d5"
  proof -
    have "length (dc_elements d5) = length (dc_elements d)" "dc_objects d5 = dc_objects d" "dc_fieldNames d5 = dc_fieldNames d"
      "dc_leafBuf d5 = dc_leafBuf d" "dc_leafBuilder d5 = dc_leafBuilder d"
      by (simp_all add: d5_def d4_def d3_def d2_def d1_def)
    moreover have "er_objIdx (node d4 x) = er_objIdx (node d x)" "er_offset (node d4 x) = er_offset (node d x)"
      "er_array (node d4 x) = er_array (node d x)" "er_serialized (node d4 x) = er_serialized (node d x)" for x
      by (simp_all add: n4 n3 n2 n1)
    ultimately show ?thesis
      by (simp add: same_data_def same_content_def n5 mark_fields lens del: mark_simps(6))
  qed
  have f4: "er_parent (node d4 x) = er_parent (node d x)"
    "er_left (node d4 x) = (if vs \<noteq> [] \<and> x = hd vs then last_idx us kInvalidRepIdx else er_left (node d x))"
    "er_right (node d4 x) = (if us \<noteq> [] \<and> x = last us then head_idx vs kInvalidRepIdx else er_right (node d x))"
    "er_childLeft (node d4 x) = (if x = p \<and> us = [] then head_idx vs kInvalidRepIdx else er_childLeft (node d x))"
    "er_childRight (node d4 x) = (if x = p \<and> vs = [] then last_idx us kInvalidRepIdx else er_childRight (node d x))" for x
    by (simp_all add: n4 n3 n2 n1)
  have fields: "er_parent (node d5 x) = (if x = i then kInvalidRepIdx else er_parent (node d x))"
    "er_left (node d5 x) = (if x = i then kInvalidRepIdx else if vs \<noteq> [] \<and> x = hd vs then last_idx us kInvalidRepIdx else er_left (node d x))"
    "er_right (node d5 x) = (if x = i then kInvalidRepIdx else if us \<noteq> [] \<and> x = last us then head_idx vs kInvalidRepIdx else er_right (node d x))"
    "er_childLeft (node d5 x) = (if x = p \<and> us = [] then head_idx vs kInvalidRepIdx else er_childLeft (node d x))"
    "er_childRight (node d5 x) = (if x = p \<and> vs = [] then last_idx us kInvalidRepIdx else er_childRight (node d x))"
    if "x < length (dc_elements d)" for x
    using that by (simp_all add: n5 mark_fields lens f4 del: mark_simps(6))
  have "document_ok (attach p (us @ vs) (broken p g)) d5"
    by (rule document_ok_detach [OF document_ok_broken [OF ok p pc] same, where us = us and j = i and vs = vs])
       (use kids s(5) p in \<open>simp_all add: fields mark_fields del: mark_simps(6)\<close>)
  then show ?thesis using step s by (intro exI [of _ g] exI [of _ vs] exI [of _ d5]) simp
qed

lemma elem_remove_detached:
  assumes "document_ok g d" "i \<in> t_live g" "detached g i"
  shows "elem_remove (Rep i) d = Inr (Status IllegalOperation ''trying to remove a parentless element'' 0, d)"
  using resolveRightSibling_detached [OF assms] okD(6) [OF assms] okD(2) [OF assms(1,2)]
  by (simp add: elem_remove_def verify_ok_def getElementRep_def unlinked_def)

subsection \<open>Type and name\<close>

lemma own_bytes:
  assumes ok: "document_ok g d" and i: "i \<in> t_live g" "i \<noteq> 0" "er_objIdx (node d i) \<noteq> None"
  obtains post where "getSerializedElement (node d i) d = Inr (encode_elem (item g i) @ post)"
    "int (length (encode_elem (item g i) @ post)) \<le> BSONObjMaxInternalSize"
proof -
  have "bytes_at d i (encode_elem (item g i))" using okD(3) [OF ok i(1)] i(2,3) by (auto simp: content_def)
  moreover have "encode_elem (item g i) \<noteq> []" by (simp add: encode_elem_def)
  ultimately show ?thesis using that bytes_atE [OF _ okD(7) [OF ok]] by metis
qed

lemma rep_type_ok:
  assumes ok: "document_ok g d" and i: "i \<in> t_live g"
  shows "rep_type (i = kRootRepIdx) (node d i) d = Inr (BSONType_to_int (value_type (t_val g i)))"
proof (cases "i = 0")
  case True
  then show ?thesis using okD(3) [OF ok i] by (simp add: rep_type_def kRootRepIdx_def content_def)
next
  case False
  show ?thesis
  proof (cases "er_objIdx (node d i)")
    case None
    then show ?thesis using okD(3) [OF ok i] False by (auto simp: rep_type_def kRootRepIdx_def content_def)
  next
    case (Some k)
    then obtain post where "getSerializedElement (node d i) d = Inr (encode_elem (item g i) @ post)"
      using own_bytes [OF ok i False] by blast
    then show ?thesis using False Some by (simp add: rep_type_def kRootRepIdx_def item_def)
  qed
qed

lemma rep_fieldName_ok:
  assumes ok: "document_ok g d" and i: "i \<in> t_live g"
  shows "rep_fieldName (i = kRootRepIdx) (node d i) d = Inr (t_name g i)"
proof (cases "i = 0")
  case True
  then show ?thesis using okD(3) [OF ok i] by (simp add: rep_fieldName_def kRootRepIdx_def content_def)
next
  case False
  have nul: "nul \<notin> set (t_name g i)" using okD(3) [OF ok i] by (simp add: content_def)
  show ?thesis
  proof (cases "er_objIdx (node d i)")
    case None
    then obtain post where p: "drop (er_offset (node d i)) (dc_fieldNames d) = cstring (t_name g i) @ post"
      "\<not> er_serialized (node d i)" using okD(3) [OF ok i] by (auto simp: content_def)
    then have "\<not> length (dc_fieldNames d) \<le> er_offset (node d i)" by (auto simp: cstring_def)
    then show ?thesis
      using False None p strlen_cstring [OF nul, of post] by (simp add: rep_fieldName_def kRootRepIdx_def) (simp add: cstring_def)
  next
    case (Some k)
    then obtain post where "getSerializedElement (node d i) d = Inr (encode_elem (item g i) @ post)"
      using own_bytes [OF ok i False] by blast
    then show ?thesis using False Some fieldName_encoded [OF nul] by (simp add: rep_fieldName_def kRootRepIdx_def item_def)
  qed
qed

subsection \<open>Children at the ends\<close>

lemma add_only_child_ok:
  assumes ok: "document_ok g d" and p: "p \<in> t_live g" "container (t_val g p)" and kids: "t_kids g p = []" "t_more g p = None"
    and j: "j \<in> t_live g" "detached g j" "j \<noteq> 0" "j \<notin> anc g p"
  shows "\<exists>d'. bindE (deserialize (Rep p) (set_rep j (\<lambda>rep. rep\<lparr>er_parent := Rep p\<rparr>)
      (set_rep p (\<lambda>rep. rep\<lparr>er_childLeft := Rep j, er_childRight := Rep j\<rparr>) d))) (\<lambda>d. Inr (Status_OK, d)) = Inr (Status_OK, d') \<and>
    document_ok (attach p [j] (broken p g)) d'"
proof -
  define d1 where "d1 = set_rep p (\<lambda>rep. rep\<lparr>er_childLeft := Rep j, er_childRight := Rep j\<rparr>) d"
  define d2 where "d2 = set_rep j (\<lambda>rep. rep\<lparr>er_parent := Rep p\<rparr>) d1"
  have len: "p < length (dc_elements d)" "j < length (dc_elements d)" using okD(2) [OF ok] p(1) j(1) by simp_all
  have n1: "node d1 x = (if x = p then (node d x)\<lparr>er_childLeft := Rep j, er_childRight := Rep j\<rparr> else node d x)" for x
    using len(1) by (simp add: d1_def node_set_rep)
  have n2: "node d2 x = (if x = j then (node d1 x)\<lparr>er_parent := Rep p\<rparr> else node d1 x)" for x
    using len(2) by (simp add: d2_def node_set_rep) (simp add: d1_def)
  have un: "er_left (node d j) = kInvalidRepIdx" "er_right (node d j) = kInvalidRepIdx"
    using okD(6) [OF ok j(1,2)] by (simp_all add: unlinked_def)
  have "length (dc_elements d2) = length (dc_elements d)" "dc_objects d2 = dc_objects d" "dc_fieldNames d2 = dc_fieldNames d"
    "dc_leafBuf d2 = dc_leafBuf d" "dc_leafBuilder d2 = dc_leafBuilder d"
    by (simp_all add: d2_def d1_def)
  then have same: "same_data d d2" by (simp add: same_data_def same_content_def n2 n1)
  have fields: "er_parent (node d2 x) = (if x = j then Rep p else er_parent (node d x))"
    "er_left (node d2 x) = (if x = j then last_idx [] kInvalidRepIdx else if ([] :: nat list) \<noteq> [] \<and> x = hd [] then Rep j else er_left (node d x))"
    "er_right (node d2 x) = (if x = j then head_idx [] kInvalidRepIdx else if ([] :: nat list) \<noteq> [] \<and> x = last [] then Rep j else er_right (node d x))"
    "er_childLeft (node d2 x) = (if x = p \<and> ([] :: nat list) = [] then Rep j else er_childLeft (node d x))"
    "er_childRight (node d2 x) = (if x = p \<and> ([] :: nat list) = [] then Rep j else er_childRight (node d x))" for x
    using un by (simp_all add: n2 n1)
  note spec = attach_deserialize [OF ok same p _ _ _ j fields]
  have "deserialize (Rep p) d2 = Inr (mark (anc g p) d2)" "document_ok (attach p ([] @ j # []) (broken p g)) (mark (anc g p) d2)"
    by (rule spec; use kids in simp)+
  then show ?thesis by (simp add: d2_def d1_def)
qed

lemma addChild_start:
  assumes ok: "document_ok g d" and p: "p \<in> t_live g" "container (t_val g p)"
    and j: "j \<in> t_live g" "detached g j" "j \<noteq> 0"
  shows "addChild (Rep p) (Rep j) front d =
    (case (if front then Some (leftChild (Rep p) (disableInPlaceUpdates d)) else rightChild (Rep p) (disableInPlaceUpdates d)) of
       None \<Rightarrow> None
     | Some (Inl err) \<Rightarrow> Some (Inl err)
     | Some (Inr (c, d)) \<Rightarrow>
         (case c of
            Rep _ \<Rightarrow> Some (if front then addSiblingLeft c (Rep j) d else addSiblingRight c (Rep j) d)
          | _ \<Rightarrow> Some (bindE (deserialize (Rep p) (set_rep j (\<lambda>rep. rep\<lparr>er_parent := Rep p\<rparr>)
                (set_rep p (\<lambda>rep. rep\<lparr>er_childLeft := Rep j, er_childRight := Rep j\<rparr>) d))) (\<lambda>d. Inr (Status_OK, d)))))"
proof -
  have "getElementRep p d = Inr (node d p)" using okD(2) [OF ok p(1)] by (simp add: getElementRep_def)
  then show ?thesis
    using attachable [OF ok j] rep_type_ok [OF ok p(1)] p(2)
    unfolding addChild_def Let_def by (simp add: verify_ok_def split del: if_split)
qed

lemma pushFront_ok:
  assumes ok0: "document_ok g0 d0" and p0: "p \<in> t_live g0" "container (t_val g0 p)"
    and j0: "j \<in> t_live g0" "detached g0 j" "j \<noteq> 0" "j \<notin> anc g0 p"
  shows "\<exists>g d'. visits g0 g \<and> pushFront (Rep p) (Rep j) d0 = Some (Inr (Status_OK, d')) \<and>
    (t_kids g p = [] \<longrightarrow> t_more g p = None) \<and> document_ok (attach p (j # t_kids g p) (broken p g)) d'"
proof -
  from resolveLeftChild_ok [OF document_ok_disable [OF ok0] p0(1)] obtain g d where
    s: "resolveLeftChild p (disableInPlaceUpdates d0) = Inr (head_idx (t_kids g p) kInvalidRepIdx, d)" "document_ok g d"
      "visits g0 g" "t_kids g p = [] \<Longrightarrow> t_more g p = None" by metis
  have p: "p \<in> t_live g" "container (t_val g p)" and j: "j \<in> t_live g" "detached g j" "j \<noteq> 0" "j \<notin> anc g p"
    using visits_frame(1,2) [OF s(3)] visits_detached [OF s(3) j0(1)] visits_anc [OF s(3) p0(1)] p0 j0 by auto
  note start = addChild_start [OF ok0 p0 j0(1-3), of True] 
  show ?thesis
  proof (cases "t_kids g p")
    case Nil
    from add_only_child_ok [OF s(2) p Nil s(4) [OF Nil] j] show ?thesis
      using s(1,3,4) Nil by (intro exI [of _ g]) (auto simp: pushFront_def start leftChild_def verify_ok_def)
  next
    case (Cons c cs)
    from addSiblingLeft_ok [OF s(2) p(1), of "[]" c cs j] Cons j obtain d' where
      "addSiblingLeft (Rep c) (Rep j) d = Inr (Status_OK, d')" "document_ok (attach p (j # c # cs) (broken p g)) d'" by auto
    then show ?thesis
      using s(1,3) Cons by (intro exI [of _ g]) (simp add: pushFront_def start leftChild_def verify_ok_def)
  qed
qed

lemma pushBack_ok:
  assumes ok0: "document_ok g0 d0" and p0: "p \<in> t_live g0" "container (t_val g0 p)"
    and j0: "j \<in> t_live g0" "detached g0 j" "j \<noteq> 0" "j \<notin> anc g0 p"
  shows "\<exists>g d'. visits g0 g \<and> t_more g p = None \<and> pushBack (Rep p) (Rep j) d0 = Some (Inr (Status_OK, d')) \<and>
    document_ok (attach p (t_kids g p @ [j]) (broken p g)) d'"
proof -
  from resolveRightChild_ok [OF document_ok_disable [OF ok0] p0(1)] obtain g d where
    s: "resolveRightChild p (disableInPlaceUpdates d0) = Some (Inr (last_idx (t_kids g p) kInvalidRepIdx, d))" "document_ok g d"
      "visits g0 g" "t_more g p = None" by metis
  have p: "p \<in> t_live g" "container (t_val g p)" and j: "j \<in> t_live g" "detached g j" "j \<noteq> 0" "j \<notin> anc g p"
    using visits_frame(1,2) [OF s(3)] visits_detached [OF s(3) j0(1)] visits_anc [OF s(3) p0(1)] p0 j0 by auto
  note start = addChild_start [OF ok0 p0 j0(1-3), of False] 
  show ?thesis
  proof (cases "t_kids g p" rule: rev_cases)
    case Nil
    from add_only_child_ok [OF s(2) p Nil s(4) j] show ?thesis
      using s(1,3,4) Nil by (intro exI [of _ g]) (auto simp: pushBack_def start rightChild_def verify_ok_def)
  next
    case (snoc cs c)
    from addSiblingRight_ok [OF s(2) p(1), of cs c "[]" j] snoc j obtain vs g' d' where
      "t_kids g' p = cs @ c # vs" "t_more g p = None \<longrightarrow> g' = g"
      "addSiblingRight (Rep c) (Rep j) d = Inr (Status_OK, d')" "document_ok (attach p (cs @ c # j # vs) (broken p g')) d'" by auto
    then show ?thesis
      using s(1,3,4) snoc by (intro exI [of _ g]) (simp add: pushBack_def start rightChild_def verify_ok_def)
  qed
qed

lemma popFront_ok:
  assumes ok0: "document_ok g0 d0" and p0: "p \<in> t_live g0"
  shows "\<exists>g d'. visits g0 g \<and>
    (if t_kids g p = [] then t_more g p = None \<and> document_ok g d' \<and>
       popFront (Rep p) d0 = Inr (Status EmptyArrayOperation ''popFront on empty'' 0, d')
     else popFront (Rep p) d0 = Inr (Status_OK, d') \<and> document_ok (attach p (tl (t_kids g p)) (broken p g)) d')"
proof -
  from resolveLeftChild_ok [OF ok0 p0] obtain g d where
    s: "resolveLeftChild p d0 = Inr (head_idx (t_kids g p) kInvalidRepIdx, d)" "document_ok g d"
      "visits g0 g" "t_kids g p = [] \<Longrightarrow> t_more g p = None" by metis
  have p: "p \<in> t_live g" using visits_frame(1) [OF s(3)] p0 by blast
  show ?thesis
  proof (cases "t_kids g p")
    case Nil
    with s show ?thesis by (intro exI [of _ g] exI [of _ d]) (simp add: popFront_def leftChild_def verify_ok_def)
  next
    case (Cons c cs)
    from elem_remove_ok [OF s(2) p, of "[]" c cs] Cons obtain h vs d' where
      r: "visits g h" "t_kids h p = c # vs" "elem_remove (Rep c) d = Inr (Status_OK, d')" "document_ok (attach p vs (broken p h)) d'" by auto
    then show ?thesis
      using s(1) Cons visits_trans [OF r(1) s(3)]
      by (intro exI [of _ h] exI [of _ d']) (simp add: popFront_def leftChild_def verify_ok_def)
  qed
qed

lemma popBack_ok:
  assumes ok0: "document_ok g0 d0" and p0: "p \<in> t_live g0"
  shows "\<exists>g d'. visits g0 g \<and> t_more g p = None \<and>
    (if t_kids g p = [] then document_ok g d' \<and>
       popBack (Rep p) d0 = Some (Inr (Status EmptyArrayOperation ''popBack on empty'' 0, d'))
     else popBack (Rep p) d0 = Some (Inr (Status_OK, d')) \<and> document_ok (attach p (butlast (t_kids g p)) (broken p g)) d')"
proof -
  from resolveRightChild_ok [OF ok0 p0] obtain g d where
    s: "resolveRightChild p d0 = Some (Inr (last_idx (t_kids g p) kInvalidRepIdx, d))" "document_ok g d"
      "visits g0 g" "t_more g p = None" by metis
  have p: "p \<in> t_live g" using visits_frame(1) [OF s(3)] p0 by blast
  show ?thesis
  proof (cases "t_kids g p" rule: rev_cases)
    case Nil
    with s show ?thesis by (intro exI [of _ g] exI [of _ d]) (simp add: popBack_def rightChild_def verify_ok_def)
  next
    case (snoc cs c)
    from elem_remove_ok [OF s(2) p, of cs c "[]"] snoc obtain h vs d' where
      r: "visits g h" "t_kids h p = cs @ c # vs" "elem_remove (Rep c) d = Inr (Status_OK, d')" "document_ok (attach p (cs @ vs) (broken p h)) d'" by auto
    have "t_kids h p = t_kids g p" "t_more h p = None" using visits_frame(4) [OF r(1) p s(4)] by simp_all
    then show ?thesis
      using s(1) snoc r visits_trans [OF r(1) s(3)]
      by (intro exI [of _ h] exI [of _ d']) (simp add: popBack_def rightChild_def verify_ok_def)
  qed
qed

end
