(* ===== verification/Mutable_Make.thy ===== *)
theory Mutable_Make
  imports Mutable_Edit
begin

text \<open>Making elements: a new tree of one node in the forest, whose value is in the heap of leaves.\<close>

subsection \<open>A new node\<close>

definition fresh :: "nat \<Rightarrow> bson_elem \<Rightarrow> bool \<Rightarrow> tree \<Rightarrow> tree" where
  "fresh c e whole g =
     g\<lparr>t_live := insert c (t_live g), t_kids := (t_kids g)(c := []),
       t_more := (t_more g)(c := if whole \<and> container (snd e) then Some (sub_elems (snd e)) else None),
       t_name := (t_name g)(c := fst e), t_val := (t_val g)(c := snd e), t_whole := (t_whole g)(c := whole),
       t_reps := t_reps g + Suc (if whole then weight (snd e) else 0),
       t_heap := t_heap g + (if whole then length (encode_elem e) else 0)\<rparr>"

lemma fresh_simps [simp]:
  "t_live (fresh c e w g) = insert c (t_live g)" "t_kids (fresh c e w g) = (t_kids g)(c := [])"
  "t_more (fresh c e w g) = (t_more g)(c := if w \<and> container (snd e) then Some (sub_elems (snd e)) else None)"
  "t_name (fresh c e w g) = (t_name g)(c := fst e)" "t_val (fresh c e w g) = (t_val g)(c := snd e)"
  "t_whole (fresh c e w g) = (t_whole g)(c := w)" "t_reps (fresh c e w g) = t_reps g + Suc (if w then weight (snd e) else 0)"
  "t_heap (fresh c e w g) = t_heap g + (if w then length (encode_elem e) else 0)" "item (fresh c e w g) = (item g)(c := e)"
  "rest_of (fresh c e w g) = (rest_of g)(c := if w then sub_elems (snd e) else [])"
  by (auto simp: fresh_def item_def rest_of_def fun_eq_iff)

lemma child_rel_fresh: "shape g \<Longrightarrow> c \<notin> t_live g \<Longrightarrow> child_rel (fresh c e w g) = child_rel g"
  by (auto simp: child_rel_def split: if_splits)

lemma shape_fresh:
  assumes g: "shape g" and c: "c \<notin> t_live g" and v: "wf_value (snd e)" "w \<or> container (snd e)"
  shows "shape (fresh c e w g)"
proof -
  have kids: "c \<notin> set (t_kids g j)" if "j \<in> t_live g" for j
    using node_shapeD(1) [OF shapeD(1) [OF g that]] c by blast
  have nodes: "node_shape (fresh c e w g) j" if "j \<in> t_live (fresh c e w g)" for j
  proof (cases "j = c")
    case True
    then show ?thesis using v sub_elems_wf [OF v(1)] by (auto simp: node_shape_def)
  next
    case False
    then have j: "j \<in> t_live g" using that by simp
    have "map (item (fresh c e w g)) (t_kids g j) = map (item g) (t_kids g j)" using kids [OF j] by auto
    moreover have "t_whole (fresh c e w g) x = t_whole g x" if "x \<in> set (t_kids g j)" for x using kids [OF j] that by auto
    ultimately show ?thesis using shapeD(1) [OF g j] False by (auto simp: node_shape_def)
  qed
  have uniq: "p = q" if H: "p \<in> t_live (fresh c e w g)" "q \<in> t_live (fresh c e w g)"
    "set (t_kids (fresh c e w g) p) \<inter> set (t_kids (fresh c e w g) q) \<noteq> {}" for p q
  proof -
    have pq: "p \<noteq> c" "q \<noteq> c" using H(3) by auto
    then obtain x where "x \<in> set (t_kids g p)" "x \<in> set (t_kids g q)" using H(3) by auto
    then show ?thesis using shapeD(2) [OF g] H(1,2) pq by simp
  qed
  show ?thesis
    unfolding shape_def child_rel_fresh [OF g c]
  proof (intro conjI ballI impI)
    show "0 \<in> t_live (fresh c e w g)" using shapeD(4) [OF g] by simp
    show "detached (fresh c e w g) 0" using shapeD(5) [OF g] by (simp add: detached_child_rel child_rel_fresh [OF g c])
  qed (fact nodes uniq shapeD(3) [OF g])+
qed

lemma pending_fresh:
  assumes "finite (t_live g)" "c \<notin> t_live g"
  shows "pending (fresh c e w g) = (if w then weight (snd e) else 0) + pending g"
proof -
  have "(\<Sum>i \<in> t_live g. weights (rest_of (fresh c e w g) i)) = (\<Sum>i \<in> t_live g. weights (rest_of g i))"
    using assms(2) by (intro sum.cong) auto
  then show ?thesis using assms by (simp add: pending_def weight_sub_elems)
qed

lemma document_ok_fresh:
  assumes ok: "document_ok g d" and c: "c = length (dc_elements d)" and len: "length (dc_elements d') = Suc c"
    and old: "\<And>x. x < c \<Longrightarrow> node d' x = node d x"
    and bytes: "\<And>x bs. x < c \<Longrightarrow> bytes_at d x bs \<Longrightarrow> bytes_at d' x bs"
    and objs: "length (dc_objects d') = length (dc_objects d)" "\<And>k. k \<noteq> kLeafObjIdx \<Longrightarrow> dc_objects d' ! k = dc_objects d ! k"
    and names: "dc_fieldNames d' = dc_fieldNames d @ more_names" and heap: "heap_ok d'"
    and e: "wf_value (snd e)" "w \<or> container (snd e)" and cc: "content d' (fresh c e w g) c"
    and un: "unlinked (node d' c)"
      "er_childLeft (node d' c) = (if w \<and> container (snd e) then kOpaqueRepIdx else kInvalidRepIdx)"
      "er_childRight (node d' c) = (if w \<and> container (snd e) then kOpaqueRepIdx else kInvalidRepIdx)"
    and room: "Suc (t_reps g + (if w then weight (snd e) else 0)) \<le> kMaxRepIdx"
      "length (bld_data (dc_leafBuf d')) = length (bld_data (dc_leafBuf d)) + (if w then length (encode_elem e) else 0)"
  shows "document_ok (fresh c e w g) d'"
proof -
  note g = okD(1) [OF ok]
  have below: "j < c" if "j \<in> t_live g" for j using okD(2) [OF ok that] by (simp add: c)
  then have cn: "c \<notin> t_live g" by blast
  have c0: "c \<noteq> 0" using below shapeD(4) [OF g] by blast
  have node: "j < length (dc_elements d') \<and> content d' (fresh c e w g) j \<and> links d' (fresh c e w g) j \<and>
      tails d' (fresh c e w g) j \<and> (detached (fresh c e w g) j \<longrightarrow> unlinked (node d' j))"
    if j: "j \<in> t_live (fresh c e w g)" for j
  proof (cases "j = c")
    case True
    have "links d' (fresh c e w g) c" using un by (simp add: links_def end_idx_def)
    moreover have "tails d' (fresh c e w g) c" using c0 by (simp add: tails_def)
    ultimately show ?thesis using len cc un(1) True by simp
  next
    case False
    then have jl: "j \<in> t_live g" using j by simp
    note jc = below [OF jl]
    have kids: "x < c \<and> x \<in> t_live g" if "x \<in> set (t_kids g j)" for x using kid_live [OF ok jl that] below by blast
    have nj: "node d' j = node d j" using old [OF jc] .
    have cj: "content d g j" using okD(3) [OF ok jl] .
    have "content d' (fresh c e w g) j"
    proof (cases "er_objIdx (node d j)")
      case None
      then obtain post where "drop (er_offset (node d j)) (dc_fieldNames d) = cstring (t_name g j) @ post"
        using cj by (auto simp: content_def)
      moreover from this have "er_offset (node d j) \<le> length (dc_fieldNames d)"
        by (metis append_is_Nil_conv cstring_def drop_all list.distinct(1) nat_le_linear)
      ultimately have "drop (er_offset (node d j)) (dc_fieldNames d') = cstring (t_name g j) @ post @ more_names"
        by (simp add: names)
      then show ?thesis using cj None False nj by (simp add: content_def)
    next
      case (Some k)
      then show ?thesis using cj False nj bytes [OF jc] objs by (auto simp: content_def split: if_splits)
    qed
    moreover have "links d' (fresh c e w g) j"
    proof (rule links_cong [of d' j d g, THEN iffD2])
      show "links d g j" using okD(4) [OF ok jl] .
      show "er_left (node d' x) = er_left (node d x) \<and> er_right (node d' x) = er_right (node d x) \<and> er_parent (node d' x) = er_parent (node d x)"
        if "x \<in> set (t_kids g j)" for x using old kids [OF that] by simp
    qed (use nj False in simp_all)
    moreover have "tails d' (fresh c e w g) j"
    proof -
      have l: "last (t_kids g j) < c" "last (t_kids g j) \<noteq> c" if "t_kids g j \<noteq> []" using kids [OF last_in_set [OF that]] by simp_all
      show ?thesis
        using okD(5) [OF ok jl] False l bytes [OF l(1)] nj by (cases "t_kids g j = []") (auto simp: tails_def)
    qed
    moreover have "unlinked (node d' j)" if "detached (fresh c e w g) j"
      using that okD(6) [OF ok jl] nj by (simp add: detached_child_rel child_rel_fresh [OF g cn])
    ultimately show ?thesis using len jc by simp
  qed
  have "budget_ok (fresh c e w g) d'"
    using okD(9) [OF ok] room len c pending_fresh [OF live_finite [OF ok] cn, of e w] by (simp add: budget_ok_def)
  then show ?thesis
    using shape_fresh [OF g cn e] node heap unfolding document_ok_def by blast
qed

subsection \<open>The heap of leaves\<close>

definition leaf_object :: "string \<Rightarrow> string" where
  "leaf_object data = le_bytes 4 (length data + 1) @ drop 4 data @ [nul]"

lemma heap_ok_leaf:
  "heap_ok d \<longleftrightarrow>
     builder_ok (dc_leafBuf d) \<and> 4 \<le> length (bld_data (dc_leafBuf d)) \<and>
     dc_leafBuilder d = \<lparr>ob_offset = 0, ob_doneCalled = False\<rparr> \<and> dc_objects d \<noteq> [] \<and>
     dc_objects d ! kLeafObjIdx = leaf_object (bld_data (dc_leafBuf d)) \<and>
     (\<forall>obj \<in> set (dc_objects d). int (length obj) \<le> BSONObjMaxInternalSize)"
  by (simp add: heap_ok_def leaf_object_def)

lemma asTempObj_ok:
  assumes b: "builder_ok b" "4 \<le> length (bld_data b)" and max: "int (length (bld_data b)) + 1 \<le> BSONObjMaxInternalSize"
  shows "\<exists>b'. asTempObj \<lparr>ob_offset = 0, ob_doneCalled = False\<rparr> b =
      Inr (leaf_object (bld_data b), \<lparr>ob_offset = 0, ob_doneCalled = False\<rparr>, b') \<and> builder_ok b' \<and>
    length (bld_data b') = length (bld_data b) \<and> drop 4 (bld_data b') = drop 4 (bld_data b)"
proof -
  have lim: "int (length (bld_data b)) + 1 \<le> 2 ^ 30" "int (length (bld_data b)) + 1 \<le> BufferMaxSize"
    using max by (simp_all add: BSONObjMaxInternalSize_def BSONObjMaxUserSize_def BufferMaxSize_def)
  then obtain size where a: "appendChar nul b = Inr \<lparr>bld_data = bld_data b @ [nul], bld_size = size\<rparr>"
    "builder_ok \<lparr>bld_data = bld_data b @ [nul], bld_size = size\<rparr>"
    using appendsD(1) [OF appends_basic(1) b(1), of nul] by (auto simp: bld_len_def)
  let ?x = "le_bytes 4 (Suc (length (bld_data b))) @ drop 4 (bld_data b)"
  have "store 0 (le_bytes 4 (Suc (length (bld_data b)))) (bld_data b @ [nul]) = ?x @ [nul]"
    using b(2) by (simp add: store_def)
  then have "asTempObj \<lparr>ob_offset = 0, ob_doneCalled = False\<rparr> b =
      Inr (leaf_object (bld_data b), \<lparr>ob_offset = 0, ob_doneCalled = False\<rparr>, \<lparr>bld_data = ?x, bld_size = size\<rparr>)"
    using a(1) by (simp add: asTempObj_def obj_done_def Let_def leaf_object_def butlast_append)
  moreover have "builder_ok \<lparr>bld_data = ?x, bld_size = size\<rparr>"
    using a(2) b(2) by (simp add: builder_ok_def bld_len_def)
  ultimately show ?thesis using b(2) by (intro exI [of _ "\<lparr>bld_data = ?x, bld_size = size\<rparr>"]) simp
qed

lemma BSONObj_init_leaf:
  assumes "int (length data) + 1 \<le> BSONObjMaxInternalSize" "4 \<le> length data"
  shows "BSONObj_init (leaf_object data) = Inr (leaf_object data)"
proof -
  have "length data + 1 < 2 ^ 31" using assms(1) by (simp add: BSONObjMaxInternalSize_def BSONObjMaxUserSize_def)
  then have "int_of_bytes (le_bytes 4 (length data + 1)) = int (length data + 1)"
    using int_of_bytes_int_bytes [of "length data + 1"] by (simp add: int_bytes_def)
  with assms show ?thesis by (simp add: BSONObj_init_def objsize_def leaf_object_def)
qed

lemma leaf_object_extends:
  assumes "drop off (leaf_object data) = bs @ post" "4 \<le> off" "post \<noteq> []" "4 \<le> length data"
    and data': "data' = pre @ drop 4 data @ new" "length pre = 4"
  shows "\<exists>post'. drop off (leaf_object data') = bs @ post' \<and> post' \<noteq> []"
proof -
  obtain m where m: "off = 4 + m" using assms(2) le_Suc_ex by blast
  have old: "drop m (drop 4 data @ [nul]) = bs @ post" using assms(1) m by (simp add: leaf_object_def)
  have "m \<le> length (drop 4 data)"
  proof (rule ccontr)
    assume "\<not> m \<le> length (drop 4 data)"
    then have "drop m (drop 4 data @ [nul]) = []" by simp
    with old assms(3) show False by simp
  qed
  then have "drop m (drop 4 data) @ [nul] = bs @ post" using old by simp
  then have split: "drop m (drop 4 data) = bs @ butlast post"
    using assms(3) by (metis butlast_append butlast_snoc)
  have "drop off (leaf_object data') = drop m (drop 4 data @ new @ [nul])"
    using data' m by (simp add: leaf_object_def)
  also have "\<dots> = bs @ butlast post @ new @ [nul]" using split \<open>m \<le> length (drop 4 data)\<close> by simp
  finally show ?thesis by auto
qed

subsection \<open>Leaves\<close>

definition room_for :: "bson_elem \<Rightarrow> tree \<Rightarrow> bool" where
  "room_for e g \<longleftrightarrow>
     int (t_heap g + length (encode_elem e)) + 1 \<le> BSONObjMaxInternalSize \<and> Suc (t_reps g + weight (snd e)) \<le> kMaxRepIdx"

lemma make_leaf_raw:
  assumes ok: "document_ok g d" and wr: "appends write (encode_elem e)" and room: "room_for e g"
  defines "c \<equiv> length (dc_elements d)"
  shows "\<exists>d'. make_leaf write d = Inr (Rep c, d') \<and> length (dc_elements d') = Suc c \<and> (\<forall>x < c. node d' x = node d x) \<and>
    (\<forall>x bs. x < c \<longrightarrow> bytes_at d x bs \<longrightarrow> bytes_at d' x bs) \<and> length (dc_objects d') = length (dc_objects d) \<and>
    (\<forall>k. k \<noteq> kLeafObjIdx \<longrightarrow> dc_objects d' ! k = dc_objects d ! k) \<and> dc_fieldNames d' = dc_fieldNames d \<and> heap_ok d' \<and>
    node d' c = defaultRep\<lparr>er_objIdx := Some kLeafObjIdx, er_serialized := True, er_offset := length (bld_data (dc_leafBuf d))\<rparr> \<and>
    bytes_at d' c (encode_elem e) \<and> length (bld_data (dc_leafBuf d')) = length (bld_data (dc_leafBuf d)) + length (encode_elem e)"
proof -
  let ?b = "dc_leafBuf d" and ?bs = "encode_elem e"
  note heap = okD(7) [OF ok]
  have b: "builder_ok ?b" "4 \<le> length (bld_data ?b)" "dc_leafBuilder d = \<lparr>ob_offset = 0, ob_doneCalled = False\<rparr>"
    "dc_objects d \<noteq> []" "dc_objects d ! kLeafObjIdx = leaf_object (bld_data ?b)"
    "\<forall>obj \<in> set (dc_objects d). int (length obj) \<le> BSONObjMaxInternalSize"
    using heap by (simp_all add: heap_ok_leaf)
  have lim: "int (length (bld_data ?b) + length ?bs) + 1 \<le> BSONObjMaxInternalSize"
    using room okD(9) [OF ok] by (simp add: room_for_def budget_ok_def)
  then have lim': "length (bld_data ?b) + length ?bs \<le> 2 ^ 30" "bld_len ?b + int (length ?bs) \<le> BufferMaxSize"
    by (simp_all add: bld_len_def BSONObjMaxInternalSize_def BSONObjMaxUserSize_def BufferMaxSize_def)
  from appendsD(1) [OF wr b(1) lim'] obtain size where
    w: "write ?b = Inr \<lparr>bld_data = bld_data ?b @ ?bs, bld_size = size\<rparr>" "builder_ok \<lparr>bld_data = bld_data ?b @ ?bs, bld_size = size\<rparr>" by blast
  let ?b1 = "\<lparr>bld_data = bld_data ?b @ ?bs, bld_size = size\<rparr>" and ?obj = "leaf_object (bld_data ?b @ ?bs)"
  from asTempObj_ok [OF w(2)] lim b(2) obtain b' where
    t: "asTempObj \<lparr>ob_offset = 0, ob_doneCalled = False\<rparr> ?b1 = Inr (?obj, \<lparr>ob_offset = 0, ob_doneCalled = False\<rparr>, b')" "builder_ok b'"
      "length (bld_data b') = length (bld_data ?b @ ?bs)" "drop 4 (bld_data b') = drop 4 (bld_data ?b @ ?bs)" by auto
  have init: "BSONObj_init ?obj = Inr ?obj" using BSONObj_init_leaf [of "bld_data ?b @ ?bs"] lim b(2) by simp
  let ?rep = "defaultRep\<lparr>er_objIdx := Some kLeafObjIdx, er_serialized := True, er_offset := length (bld_data ?b)\<rparr>"
  define d' where "d' = d\<lparr>dc_elements := dc_elements d @ [?rep], dc_leafBuf := b', dc_objects := (dc_objects d)[kLeafObjIdx := ?obj]\<rparr>"
  have mk: "make_leaf write d = Inr (Rep c, d')"
  proof -
    have "c \<le> kMaxRepIdx" using okD(8) [OF ok] by (simp add: c_def)
    then show ?thesis
      using w(1) t(1) b(3) init
      by (simp add: make_leaf_def insertLeafElement_def makeNewRep_ok c_def Let_def set_rep_def)
         (simp add: d'_def)
  qed
  have obj0: "dc_objects d' ! kLeafObjIdx = ?obj" "length (dc_objects d') = length (dc_objects d)"
    "k \<noteq> kLeafObjIdx \<Longrightarrow> dc_objects d' ! k = dc_objects d ! k" for k
    using b(4) by (simp_all add: d'_def kLeafObjIdx_def)
  have old: "node d' x = node d x" if "x < c" for x using that by (simp add: d'_def c_def nth_append)
  have new: "node d' c = ?rep" by (simp add: d'_def c_def)
  have "?obj = leaf_object (bld_data b')" using t(3,4) by (simp add: leaf_object_def)
  moreover have "int (length ?obj) \<le> BSONObjMaxInternalSize" using lim b(2) by (simp add: leaf_object_def)
  moreover have "dc_leafBuf d' = b'" "dc_leafBuilder d' = dc_leafBuilder d" "dc_objects d' \<noteq> []" using b(4) by (simp_all add: d'_def)
  moreover have "\<forall>obj \<in> set (dc_objects d'). obj = ?obj \<or> obj \<in> set (dc_objects d)"
    using set_update_subset_insert [of "dc_objects d" kLeafObjIdx ?obj] by (auto simp: d'_def)
  ultimately have heap': "heap_ok d'"
    using t(2,3) b obj0(1) unfolding heap_ok_leaf by auto
  have keep: "bytes_at d' x bs" if "x < c" "bytes_at d x bs" for x bs
  proof -
    from that(2) obtain k post where k: "er_objIdx (node d x) = Some k" "k < length (dc_objects d)" "4 \<le> er_offset (node d x)"
      "drop (er_offset (node d x)) (dc_objects d ! k) = bs @ post" "k = kLeafObjIdx \<longrightarrow> post \<noteq> []" by (auto simp: bytes_at_def)
    show ?thesis
    proof (cases "k = kLeafObjIdx")
      case True
      have "\<exists>post'. drop (er_offset (node d x)) ?obj = bs @ post' \<and> post' \<noteq> []"
        using k True b(2,5) by (intro leaf_object_extends [of _ "bld_data ?b" bs post _ "take 4 (bld_data ?b)" ?bs]) auto
      then show ?thesis using k True old [OF that(1)] obj0 by (auto simp: bytes_at_def)
    next
      case False
      then show ?thesis using k old [OF that(1)] obj0 by (auto simp: bytes_at_def)
    qed
  qed
  have "bytes_at d' c ?bs"
  proof -
    have "drop (length (bld_data ?b)) ?obj = ?bs @ [nul]" using b(2) by (simp add: leaf_object_def)
    then show ?thesis using b(2,4) new obj0 by (auto simp: bytes_at_def kLeafObjIdx_def)
  qed
  then show ?thesis
    using mk old keep obj0 heap' new t(3) by (intro exI [of _ d']) (simp add: d'_def c_def)
qed

lemma document_ok_leaf:
  assumes ok: "document_ok g d" and e: "wf_value (snd e)" "nul \<notin> set (fst e)" and room: "room_for e g"
    and raw: "length (dc_elements d') = Suc (length (dc_elements d))" "\<And>x. x < length (dc_elements d) \<Longrightarrow> node d' x = node d x"
      "\<And>x bs. x < length (dc_elements d) \<Longrightarrow> bytes_at d x bs \<Longrightarrow> bytes_at d' x bs" "length (dc_objects d') = length (dc_objects d)"
      "\<And>k. k \<noteq> kLeafObjIdx \<Longrightarrow> dc_objects d' ! k = dc_objects d ! k" "dc_fieldNames d' = dc_fieldNames d" "heap_ok d'"
      "bytes_at d' (length (dc_elements d)) (encode_elem e)" "length (bld_data (dc_leafBuf d')) = length (bld_data (dc_leafBuf d)) + length (encode_elem e)"
    and new: "node d' (length (dc_elements d)) = defaultRep\<lparr>er_objIdx := Some kLeafObjIdx, er_serialized := True,
        er_offset := off, er_childLeft := x, er_childRight := x\<rparr>" "x = (if container (snd e) then kOpaqueRepIdx else kInvalidRepIdx)"
  shows "document_ok (fresh (length (dc_elements d)) e True g) d'"
proof (rule document_ok_fresh [OF ok refl raw(1,2,3,4,5) _ raw(7) e(1), where more_names = "[]"])
  have "length (dc_elements d) \<noteq> 0" using okD(2) [OF ok shapeD(4) [OF okD(1) [OF ok]]] by simp
  then show "content d' (fresh (length (dc_elements d)) e True g) (length (dc_elements d))"
    using e raw(8) by (simp add: content_def) (simp add: new)
qed (use raw(6,9) room new in \<open>simp_all add: unlinked_def defaultRep_def room_for_def\<close>)

lemma make_leaf_ok:
  assumes ok: "document_ok g d" and wr: "appends write (encode_elem e)" and e: "wf_value (snd e)" "nul \<notin> set (fst e)" "\<not> container (snd e)"
    and room: "room_for e g"
  shows "\<exists>d'. make_leaf write d = Inr (Rep (length (dc_elements d)), d') \<and> document_ok (fresh (length (dc_elements d)) e True g) d'"
proof -
  from make_leaf_raw [OF ok wr room] obtain d' where d': "make_leaf write d = Inr (Rep (length (dc_elements d)), d')"
    "length (dc_elements d') = Suc (length (dc_elements d))" "\<forall>x < length (dc_elements d). node d' x = node d x"
    "\<forall>x bs. x < length (dc_elements d) \<longrightarrow> bytes_at d x bs \<longrightarrow> bytes_at d' x bs" "length (dc_objects d') = length (dc_objects d)"
    "\<forall>k. k \<noteq> kLeafObjIdx \<longrightarrow> dc_objects d' ! k = dc_objects d ! k" "dc_fieldNames d' = dc_fieldNames d" "heap_ok d'"
    "node d' (length (dc_elements d)) = defaultRep\<lparr>er_objIdx := Some kLeafObjIdx, er_serialized := True, er_offset := length (bld_data (dc_leafBuf d))\<rparr>"
    "bytes_at d' (length (dc_elements d)) (encode_elem e)"
    "length (bld_data (dc_leafBuf d')) = length (bld_data (dc_leafBuf d)) + length (encode_elem e)" by blast
  have "document_ok (fresh (length (dc_elements d)) e True g) d'"
    by (rule document_ok_leaf [OF ok e(1,2) room d'(2)]) (use d' e(3) in \<open>simp_all add: defaultRep_def\<close>)
  with d'(1) show ?thesis by blast
qed

lemma make_container_ok:
  assumes ok: "document_ok g d" and wr: "appends write (encode_elem e)" and e: "wf_value (snd e)" "nul \<notin> set (fst e)" "container (snd e)"
    and room: "room_for e g"
  shows "\<exists>d'. make_container write d = Inr (Rep (length (dc_elements d)), d') \<and> document_ok (fresh (length (dc_elements d)) e True g) d'"
proof -
  from make_leaf_raw [OF ok wr room] obtain d1 where d1: "make_leaf write d = Inr (Rep (length (dc_elements d)), d1)"
    "length (dc_elements d1) = Suc (length (dc_elements d))" "\<forall>x < length (dc_elements d). node d1 x = node d x"
    "\<forall>x bs. x < length (dc_elements d) \<longrightarrow> bytes_at d x bs \<longrightarrow> bytes_at d1 x bs" "length (dc_objects d1) = length (dc_objects d)"
    "\<forall>k. k \<noteq> kLeafObjIdx \<longrightarrow> dc_objects d1 ! k = dc_objects d ! k" "dc_fieldNames d1 = dc_fieldNames d" "heap_ok d1"
    "node d1 (length (dc_elements d)) = defaultRep\<lparr>er_objIdx := Some kLeafObjIdx, er_serialized := True, er_offset := length (bld_data (dc_leafBuf d))\<rparr>"
    "bytes_at d1 (length (dc_elements d)) (encode_elem e)"
    "length (bld_data (dc_leafBuf d1)) = length (bld_data (dc_leafBuf d)) + length (encode_elem e)" by blast
  let ?c = "length (dc_elements d)"
  define d' where "d' = set_rep ?c (\<lambda>rep. rep\<lparr>er_childLeft := kOpaqueRepIdx, er_childRight := kOpaqueRepIdx\<rparr>) d1"
  have nd: "node d' x = (if x = ?c then (node d1 x)\<lparr>er_childLeft := kOpaqueRepIdx, er_childRight := kOpaqueRepIdx\<rparr> else node d1 x)" for x
    using d1(2) by (simp add: d'_def node_set_rep)
  have bytes: "bytes_at d' x bs = bytes_at d1 x bs" for x bs
    by (rule bytes_at_cong) (simp_all add: same_content_def nd, simp add: d'_def)
  have "document_ok (fresh ?c e True g) d'"
  proof (rule document_ok_leaf [OF ok e(1,2) room])
    show "heap_ok d'" using heap_ok_cong [of d' d1] d1(8) by (simp add: d'_def)
    show "node d' ?c = defaultRep\<lparr>er_objIdx := Some kLeafObjIdx, er_serialized := True, er_offset := length (bld_data (dc_leafBuf d)),
        er_childLeft := kOpaqueRepIdx, er_childRight := kOpaqueRepIdx\<rparr>" using d1(9) by (simp add: nd)
  qed (use d1 e(3) bytes nd in \<open>simp_all add: d'_def\<close>)
  moreover have "make_container write d = Inr (Rep ?c, d')"
    using d1(1) by (simp add: make_container_def rep_number_def d'_def)
  ultimately show ?thesis by blast
qed

subsection \<open>All kinds of elements\<close>

text \<open>The call that makes an element of a given value.\<close>

fun make_value :: "string \<Rightarrow> bson_value \<Rightarrow> document \<Rightarrow> (rep_idx \<times> document) result" where
  "make_value n (VDouble x) = makeElementDouble n x"
| "make_value n (VString s) = makeElementString n s"
| "make_value n (VObject es) = makeElementObject n (encode es)"
| "make_value n (VArray es) = makeElementArray n (encode es)"
| "make_value n (VBinData t bs) = makeElementBinary n (of_nat (length bs)) t bs"
| "make_value n VUndefined = makeElementUndefined n"
| "make_value n (VOID bs) = makeElementOID n bs"
| "make_value n (VBool x) = makeElementBool n x"
| "make_value n (VDate x) = makeElementDate n x"
| "make_value n VNull = makeElementNull n"
| "make_value n (VRegEx r f) = makeElementRegex n r f"
| "make_value n (VDBRef ns bs) = makeElementDBRef n ns bs"
| "make_value n (VCode s) = makeElementCode n s"
| "make_value n (VSymbol s) = makeElementSymbol n s"
| "make_value n (VCodeWScope c es) = makeElementCodeWithScope n c (encode es)"
| "make_value n (VInt x) = makeElementInt n x"
| "make_value n (VTimestamp x) = makeElementTimestamp n x"
| "make_value n (VLong x) = makeElementLong n x"
| "make_value n VMinKey = makeElementMinKey n"
| "make_value n VMaxKey = makeElementMaxKey n"

lemma append_frame_appends:
  assumes "length (frame bs) < 2 ^ 31"
  shows "appends (\<lambda>b. bindE (append_header t n b) (\<lambda>b. bindE (objsize (frame bs)) (\<lambda>m. appendArea (frame bs) m b))) (type_byte t # cstring n @ frame bs)"
proof -
  have "(\<lambda>b. bindE (objsize (frame bs)) (\<lambda>m. appendArea (frame bs) m b)) = appendBuf (frame bs)"
    using objsize_frame [of bs "[]"] assms appendArea_all [of "frame bs"] by simp
  then show ?thesis using appends_header [OF appendBuf_appends, of t n "frame bs"] by simp
qed

lemma append_bool_same: "appendBool n (if x then 1 else 0) = append_bool n x"
  by (simp add: appendBool_def [abs_def] append_bool_def [abs_def])

lemma make_value_ok:
  assumes ok: "document_ok g d" and e: "wf_value v" "nul \<notin> set n" and room: "room_for (n, v) g"
  shows "\<exists>d'. make_value n v d = Inr (Rep (length (dc_elements d)), d') \<and>
    document_ok (fresh (length (dc_elements d)) (n, v) True g) d'"
proof (cases "container v")
  case True
  have "length (encode_elem (n, v)) < 2 ^ 31" using room by (simp add: room_for_def BSONObjMaxInternalSize_def BSONObjMaxUserSize_def)
  then have small: "length (frame (encode_elems (sub_elems v))) < 2 ^ 31"
    using encode_container [OF True] by (simp add: encode_elem_def encode_def)
  then show ?thesis
    using True append_frame_appends [OF small, of _ n] make_container_ok [OF ok _ _ _ _ room] e
    by (cases v) (simp_all add: container_def encode_elem_def makeElementObject_def makeElementArray_def sub_elems_def encode_def
        append_BSONObj_def [abs_def] appendArray_def [abs_def])
next
  case False
  have wr: "appends (append_value ''junk'' n v) (encode_elem (n, v))" using append_encoding(1) [OF _ e(1)] by simp
  from make_leaf_ok [OF ok wr _ _ _ room] e False show ?thesis
    by (cases v) (simp_all add: container_def makeElementDouble_def makeElementString_def makeElementBinary_def makeElementUndefined_def
        makeElementOID_def makeElementBool_def makeElementDate_def makeElementNull_def makeElementRegex_def makeElementDBRef_def
        makeElementCode_def makeElementSymbol_def makeElementCodeWithScope_def makeElementInt_def makeElementTimestamp_def
        makeElementLong_def makeElementMinKey_def makeElementMaxKey_def append_bool_same)
qed

lemma make_empty_ok:
  assumes ok: "document_ok g d" and n: "nul \<notin> set n" and room: "Suc (t_reps g) \<le> kMaxRepIdx"
  shows "\<exists>d'. makeElementObject_new n d = Inr (Rep (length (dc_elements d)), d') \<and>
      document_ok (fresh (length (dc_elements d)) (n, VObject []) False g) d'"
    "\<exists>d'. makeElementArray_new n d = Inr (Rep (length (dc_elements d)), d') \<and>
      document_ok (fresh (length (dc_elements d)) (n, VArray []) False g) d'"
proof -
  let ?c = "length (dc_elements d)"
  have c0: "?c \<noteq> 0" using okD(2) [OF ok shapeD(4) [OF okD(1) [OF ok]]] by simp
  have new: "document_ok (fresh ?c (n, v) False g) d'"
    if d': "d' = d\<lparr>dc_elements := dc_elements d @ [defaultRep\<lparr>er_array := a, er_offset := length (dc_fieldNames d)\<rparr>],
        dc_fieldNames := dc_fieldNames d @ cstring n\<rparr>" and v: "v = (if a then VArray [] else VObject [])" for d' a v
  proof (rule document_ok_fresh [OF ok refl])
    show "content d' (fresh ?c (n, v) False g) ?c"
      using n c0 v by (simp add: content_def) (simp add: d' defaultRep_def)
    show "heap_ok d'" using okD(7) [OF ok] by (simp add: heap_ok_def d')
    show "bytes_at d' x bs" if "x < ?c" "bytes_at d x bs" for x bs
      using that by (simp add: bytes_at_def d' nth_append)
    show "dc_fieldNames d' = dc_fieldNames d @ cstring n" by (simp add: d')
  qed (use room v in \<open>simp_all add: d' nth_append unlinked_def defaultRep_def container_def\<close>)
  have "?c \<le> kMaxRepIdx" using room okD(9) [OF ok] by (simp add: budget_ok_def)
  then have "makeElementObject_new n d = Inr (Rep ?c, d\<lparr>dc_elements := dc_elements d @ [defaultRep\<lparr>er_array := False, er_offset := length (dc_fieldNames d)\<rparr>],
        dc_fieldNames := dc_fieldNames d @ cstring n\<rparr>)"
    "makeElementArray_new n d = Inr (Rep ?c, d\<lparr>dc_elements := dc_elements d @ [defaultRep\<lparr>er_array := True, er_offset := length (dc_fieldNames d)\<rparr>],
        dc_fieldNames := dc_fieldNames d @ cstring n\<rparr>)"
    by (simp_all add: makeElementObject_new_def makeElementArray_new_def makeNewRep_ok insertFieldName_def set_rep_def defaultRep_def)
  then show "\<exists>d'. makeElementObject_new n d = Inr (Rep ?c, d') \<and> document_ok (fresh ?c (n, VObject []) False g) d'"
    "\<exists>d'. makeElementArray_new n d = Inr (Rep ?c, d') \<and> document_ok (fresh ?c (n, VArray []) False g) d'"
    using new [of _ False] new [of _ True] by auto
qed

end
