(* ===== verification/Mutable_Write.thy ===== *)
theory Mutable_Write
  imports Mutable_Edit
begin

text \<open>
  What a forest denotes, and that writing a document out gives the bytes of what it denotes: visited or not,
  whole or changed, every element is written with its value, and the elements of a changed array are numbered again.
\<close>

subsection \<open>Values of nodes\<close>

fun number :: "nat \<Rightarrow> bson_value list \<Rightarrow> bson_elem list" where
  "number k [] = []"
| "number k (v # vs) = (numStr k, v) # number (Suc k) vs"

definition plain :: "tree \<Rightarrow> nat \<Rightarrow> bool" where
  "plain g i \<longleftrightarrow> t_whole g i \<and> i \<noteq> 0"

inductive denotes :: "tree \<Rightarrow> nat \<Rightarrow> bson_value \<Rightarrow> bool" for g where
  denotes_whole: "plain g i \<Longrightarrow> denotes g i (t_val g i)"
| denotes_object: "\<not> plain g i \<Longrightarrow> value_type (t_val g i) = Object \<Longrightarrow> list_all2 (denotes g) (t_kids g i) vs \<Longrightarrow>
    denotes g i (VObject (zip (map (t_name g) (t_kids g i)) vs @ rest_of g i))"
| denotes_array: "\<not> plain g i \<Longrightarrow> value_type (t_val g i) = Array \<Longrightarrow> list_all2 (denotes g) (t_kids g i) vs \<Longrightarrow>
    denotes g i (VArray (number 0 (vs @ map snd (rest_of g i))))"

definition children :: "tree \<Rightarrow> nat \<Rightarrow> bson_elem list \<Rightarrow> bool" where
  "children g i es \<longleftrightarrow>
     (\<exists>vs. list_all2 (denotes g) (t_kids g i) vs \<and> es = zip (map (t_name g) (t_kids g i)) vs @ rest_of g i)"

lemma children_object: "\<not> plain g i \<Longrightarrow> value_type (t_val g i) = Object \<Longrightarrow> children g i es \<Longrightarrow> denotes g i (VObject es)"
  by (auto simp: children_def intro: denotes_object)

lemma map_snd_zip_names: "length xs = length vs \<Longrightarrow> map snd (zip xs vs @ r) = vs @ map snd r"
  by simp

lemma children_array: "\<not> plain g i \<Longrightarrow> value_type (t_val g i) = Array \<Longrightarrow> children g i es \<Longrightarrow>
  denotes g i (VArray (number 0 (map snd es)))"
  by (auto simp: children_def list_all2_lengthD intro!: denotes_array)

lemma denotes_cases:
  assumes "denotes g i v" "shape g" "i \<in> t_live g"
  obtains "plain g i" "v = t_val g i"
    | es where "\<not> plain g i" "value_type (t_val g i) = Object" "children g i es" "v = VObject es"
    | es where "\<not> plain g i" "value_type (t_val g i) = Array" "children g i es" "v = VArray (number 0 (map snd es))"
  using assms(1)
proof cases
  case denotes_whole
  then show ?thesis using that(1) by blast
next
  case (denotes_object vs)
  then show ?thesis by (intro that(2)) (auto simp: children_def)
next
  case (denotes_array vs)
  have "length (map (t_name g) (t_kids g i)) = length vs" using denotes_array(4) by (simp add: list_all2_lengthD)
  then show ?thesis
    using denotes_array by (intro that(3) [of "zip (map (t_name g) (t_kids g i)) vs @ rest_of g i"]) (auto simp: children_def)
qed

lemma denotes_fun: "denotes g i v \<Longrightarrow> denotes g i w \<Longrightarrow> v = w"
proof (induction arbitrary: w rule: denotes.induct)
  case (denotes_whole i)
  from denotes_whole(2,1) show ?case by (cases rule: denotes.cases) simp_all
next
  case (denotes_object i vs)
  from denotes_object(4) show ?case
  proof (cases rule: denotes.cases)
    case (denotes_object ws)
    have "vs = ws" using \<open>list_all2 _ (t_kids g i) vs\<close> denotes_object(4)
      by (auto simp: list_all2_conv_all_nth list_eq_iff_nth_eq)
    then show ?thesis using denotes_object by simp
  qed (use denotes_object in simp_all)
next
  case (denotes_array i vs)
  from denotes_array(4) show ?case
  proof (cases rule: denotes.cases)
    case (denotes_array ws)
    have "vs = ws" using \<open>list_all2 _ (t_kids g i) vs\<close> denotes_array(4)
      by (auto simp: list_all2_conv_all_nth list_eq_iff_nth_eq)
    then show ?thesis using denotes_array by simp
  qed (use denotes_array in simp_all)
qed

lemma denotes_exists:
  assumes ok: "document_ok g d" and i: "i \<in> t_live g"
  shows "\<exists>v. denotes g i v"
proof -
  note g = okD(1) [OF ok]
  have "finite (child_rel g)"
  proof (rule finite_subset)
    show "child_rel g \<subseteq> t_live g \<times> t_live g"
      using node_shapeD(1) [OF shapeD(1) [OF g]] by (auto simp: child_rel_def)
  qed (use live_finite [OF ok] in simp)
  then have wf: "wf (child_rel g)" using finite_acyclic_wf shapeD(3) [OF g] by blast
  from i show ?thesis
  proof (induction i rule: wf_induct_rule [OF wf])
    case (1 i)
    show ?case
    proof (cases "plain g i")
      case True
      then show ?thesis using denotes_whole by blast
    next
      case False
      have "\<exists>v. denotes g c v" if "c \<in> set (t_kids g i)" for c
        using 1(1) [of c] 1(2) that kid_live [OF ok 1(2) that] by (auto simp: child_rel_def)
      then have kids: "list_all2 (denotes g) (t_kids g i) (map (\<lambda>c. SOME v. denotes g c v) (t_kids g i))"
        by (auto simp: list_all2_conv_all_nth intro: someI_ex)
      have "container (t_val g i)"
        using node_shapeD(4) [OF shapeD(1) [OF g 1(2)]] False okD(3) [OF ok 1(2)]
        by (cases "i = 0") (auto simp: plain_def content_def container_def)
      then show ?thesis
        using denotes_object [OF False _ kids] denotes_array [OF False _ kids] by (auto simp: container_def)
    qed
  qed
qed

subsection \<open>Visiting changes nothing\<close>

lemma visits_shape: "visits g g' \<Longrightarrow> shape g \<Longrightarrow> shape g'"
proof (induction rule: visits.induct)
  case (visits_found g' i c e r)
  then show ?case using shape_found [of g' i "fst e" "snd e" r c] by simp
qed (simp_all add: shape_closed)

lemma found_kids:
  assumes "shape g" "t_more g i = Some ((n, w) # r)" "i \<in> t_live g" "c \<notin> t_live g" "j \<in> t_live g"
    and l: "list_all2 (denotes (found c i g)) (t_kids g j) vs"
  shows "\<exists>us. list_all2 (denotes (found c i g)) (t_kids (found c i g) j) us \<and>
    zip (map (t_name g) (t_kids g j)) vs @ rest_of g j = zip (map (t_name (found c i g)) (t_kids (found c i g) j)) us @ rest_of (found c i g) j"
proof -
  have ic: "i \<noteq> c" using assms by blast
  note simps = found_simps [OF assms(2) ic]
  have nm: "map ((t_name g)(c := n)) (t_kids g j) = map (t_name g) (t_kids g j)"
    using node_shapeD(1) [OF shapeD(1) [OF assms(1,5)]] assms(4) by auto
  show ?thesis
  proof (cases "j = i")
    case True
    have "denotes (found c i g) c w"
      using denotes_whole [of "found c i g" c] assms(4) shapeD(4) [OF assms(1)] by (auto simp: plain_def simps)
    then have "list_all2 (denotes (found c i g)) (t_kids g i @ [c]) (vs @ [w])" using l True by (simp add: list_all2_appendI)
    moreover have "rest_of g i = (n, w) # r" using assms(2) by (simp add: rest_of_def)
    ultimately show ?thesis
      using True ic list_all2_lengthD [OF l] nm [unfolded True]
      by (intro exI [of _ "vs @ [w]"]) (simp add: simps del: map_eq_conv)
  next
    case False
    then show ?thesis using l nm assms(4,5) by (intro exI [of _ vs]) (auto simp: simps simp del: map_eq_conv)
  qed
qed

lemma denotes_found:
  assumes "denotes g j v" "shape g" "t_more g i = Some ((n, w) # r)" "i \<in> t_live g" "c \<notin> t_live g" "j \<in> t_live g"
  shows "denotes (found c i g) j v"
  using assms(1,6)
proof (induction rule: denotes.induct)
  have ic: "i \<noteq> c" using assms by blast
  note simps = found_simps [OF assms(3) ic]
  have step: "\<exists>us. list_all2 (denotes (found c i g)) (t_kids (found c i g) j) us \<and>
      zip (map (t_name g) (t_kids g j)) vs @ rest_of g j = zip (map (t_name (found c i g)) (t_kids (found c i g) j)) us @ rest_of (found c i g) j"
    if j: "j \<in> t_live g" and l: "list_all2 (\<lambda>x y. denotes g x y \<and> (x \<in> t_live g \<longrightarrow> denotes (found c i g) x y)) (t_kids g j) vs" for j vs
  proof -
    have "list_all2 (denotes (found c i g)) (t_kids g j) vs"
      using l node_shapeD(1) [OF shapeD(1) [OF assms(2) j]] by (auto elim!: list.rel_mono_strong)
    then show ?thesis by (rule found_kids [OF assms(2-5) j])
  qed
  {
    case (denotes_whole i')
    then have "i' \<noteq> c" using assms(5) by blast
    then show ?case using denotes.denotes_whole [of "found c i g" i'] denotes_whole by (simp add: plain_def simps)
  next
    case (denotes_object i' vs)
    obtain us where us: "list_all2 (denotes (found c i g)) (t_kids (found c i g) i') us"
      "zip (map (t_name g) (t_kids g i')) vs @ rest_of g i' = zip (map (t_name (found c i g)) (t_kids (found c i g) i')) us @ rest_of (found c i g) i'"
      using step [OF denotes_object(4,3)] by blast
    show ?case unfolding us(2)
      by (rule denotes.denotes_object) (use denotes_object us(1) assms(5) in \<open>auto simp: plain_def simps\<close>)
  next
    case (denotes_array i' vs)
    obtain us where us: "list_all2 (denotes (found c i g)) (t_kids (found c i g) i') us"
      "zip (map (t_name g) (t_kids g i')) vs @ rest_of g i' = zip (map (t_name (found c i g)) (t_kids (found c i g) i')) us @ rest_of (found c i g) i'"
      using step [OF denotes_array(4,3)] by blast
    have eq: "vs @ map snd (rest_of g i') = us @ map snd (rest_of (found c i g) i')"
      using arg_cong [OF us(2), of "map snd"] list_all2_lengthD [OF us(1)] list_all2_lengthD [OF denotes_array(3)] by simp
    show ?case unfolding eq
      by (rule denotes.denotes_array) (use denotes_array us(1) assms(5) in \<open>auto simp: plain_def simps\<close>)
  }
qed

lemma denotes_closed:
  assumes "denotes g j v" "t_more g i = Some []"
  shows "denotes (closed i g) j v"
  using assms(1)
proof (induction rule: denotes.induct)
  case (denotes_whole j)
  then show ?case using denotes.denotes_whole [of "closed i g" j] by (simp add: plain_def)
next
  case (denotes_object j vs)
  then have "list_all2 (denotes (closed i g)) (t_kids (closed i g) j) vs" by (auto elim!: list.rel_mono_strong)
  from denotes.denotes_object [OF _ _ this] denotes_object show ?case by (simp add: plain_def rest_of_closed [OF assms(2)])
next
  case (denotes_array j vs)
  then have "list_all2 (denotes (closed i g)) (t_kids (closed i g) j) vs" by (auto elim!: list.rel_mono_strong)
  from denotes.denotes_array [OF _ _ this] denotes_array show ?case by (simp add: plain_def rest_of_closed [OF assms(2)])
qed

lemma visits_denotes:
  assumes "visits g g'" "shape g"
  shows "j \<in> t_live g \<Longrightarrow> denotes g j v \<Longrightarrow> denotes g' j v"
  using assms
proof (induction rule: visits.induct)
  case (visits_found g' i c e r)
  have "j \<in> t_live g'" using visits_frame(1) [OF visits_found.hyps(1)] visits_found.prems by blast
  then show ?case
    using denotes_found [of g' j v i "fst e" "snd e" r c] visits_found visits_shape by simp
qed (simp_all add: denotes_closed)

lemma children_next:
  assumes "shape g" "i \<in> t_live g" "children g i es" "n < length (t_kids g i)"
  obtains v where "denotes g (t_kids g i ! n) v" "n < length es" "es ! n = (t_name g (t_kids g i ! n), v)"
proof -
  from assms(3) obtain vs where vs: "list_all2 (denotes g) (t_kids g i) vs" "es = zip (map (t_name g) (t_kids g i)) vs @ rest_of g i"
    by (auto simp: children_def)
  then have "length vs = length (t_kids g i)" by (simp add: list_all2_lengthD)
  then show ?thesis using vs assms(4) by (intro that [of "vs ! n"]) (auto simp: list_all2_conv_all_nth nth_append)
qed

lemma children_found:
  assumes "shape g" "t_more g i = Some ((n, w) # r)" "i \<in> t_live g" "c \<notin> t_live g" "j \<in> t_live g" "children g j es"
  shows "children (found c i g) j es"
proof -
  from assms(6) obtain vs where vs: "list_all2 (denotes g) (t_kids g j) vs" "es = zip (map (t_name g) (t_kids g j)) vs @ rest_of g j"
    by (auto simp: children_def)
  have "list_all2 (denotes (found c i g)) (t_kids g j) vs"
    using vs(1) node_shapeD(1) [OF shapeD(1) [OF assms(1,5)]] denotes_found [OF _ assms(1-4)] by (auto elim!: list.rel_mono_strong)
  from found_kids [OF assms(1-5) this] show ?thesis by (simp add: children_def vs(2))
qed

lemma children_closed: "t_more g i = Some [] \<Longrightarrow> children g j es \<Longrightarrow> children (closed i g) j es"
proof -
  assume i: "t_more g i = Some []" "children g j es"
  then obtain vs where vs: "list_all2 (denotes g) (t_kids g j) vs" "es = zip (map (t_name g) (t_kids g j)) vs @ rest_of g j"
    by (auto simp: children_def)
  then have "list_all2 (denotes (closed i g)) (t_kids g j) vs" using denotes_closed [OF _ i(1)] by (auto elim!: list.rel_mono_strong)
  then show ?thesis using vs(2) by (auto simp: children_def rest_of_closed [OF i(1)])
qed

lemma visits_children:
  assumes "visits g g'" "shape g"
  shows "j \<in> t_live g \<Longrightarrow> children g j es \<Longrightarrow> children g' j es"
  using assms
proof (induction rule: visits.induct)
  case (visits_found g' i c e r)
  have "j \<in> t_live g'" using visits_frame(1) [OF visits_found.hyps(1)] visits_found.prems by blast
  then show ?case
    using children_found [of g' i "fst e" "snd e" r c j es] visits_found visits_shape by simp
qed (simp_all add: children_closed)

subsection \<open>Writing\<close>

definition written_name :: "string option \<Rightarrow> nat option \<Rightarrow> string \<Rightarrow> string" where
  "written_name name arr own = (case arr of Some k \<Rightarrow> numStr k | None \<Rightarrow> (case name of Some n \<Rightarrow> n | None \<Rightarrow> own))"

definition written_elems :: "nat option \<Rightarrow> bson_elem list \<Rightarrow> bson_elem list" where
  "written_elems arr es = (case arr of None \<Rightarrow> es | Some k \<Rightarrow> number k (map snd es))"

definition element_writes :: "string \<Rightarrow> bson_value \<Rightarrow> bool" where
  "element_writes junk v \<longleftrightarrow>
     (\<forall>g d i name arr b fuel. document_ok g d \<and> i \<in> t_live g \<and> i \<noteq> 0 \<and> denotes g i v \<and>
        fits b (length (encode_elem (written_name name arr (t_name g i), v))) \<and> 3 * weight v + 3 \<le> fuel \<longrightarrow>
        (\<exists>g' d' b'. write_out fuel junk (Element name i) arr d b = Some (Inr (d', b')) \<and> document_ok g' d' \<and> visits g g' \<and>
           only_nodes d d' \<and> extends b (encode_elem (written_name name arr (t_name g i), v)) b'))"

lemma weights_append [simp]: "weights (xs @ ys) = weights xs + weights ys"
  by (induction xs) auto

lemma number_length [simp]: "length (number k vs) = length vs"
  by (induction vs arbitrary: k) simp_all

lemma weights_number [simp]: "weights (number k (map snd es)) = weights es"
  by (induction es arbitrary: k) auto

lemma written_elems_Cons:
  "written_elems arr ((n, v) # es) = (written_name None arr n, v) # written_elems (map_option Suc arr) es"
  by (cases arr) (simp_all add: written_elems_def written_name_def)

lemma siblings_write:
  assumes "document_ok g d" "p \<in> t_live g" "children g p es" "n \<le> length (t_kids g p)" "n = length (t_kids g p) \<longrightarrow> t_more g p = None"
    and "\<And>e. e \<in> set (drop n es) \<Longrightarrow> element_writes junk (snd e)"
    and "fits b (length (encode_elems (written_elems arr (drop n es))))" "3 * weights (drop n es) + 1 \<le> fuel"
  shows "\<exists>g' d' b'. write_out fuel junk (From (head_idx (drop n (t_kids g p)) kInvalidRepIdx)) arr d b = Some (Inr (d', b')) \<and>
    document_ok g' d' \<and> visits g g' \<and> only_nodes d d' \<and> extends b (encode_elems (written_elems arr (drop n es))) b'"
  using assms
proof (induction "length es - n" arbitrary: g d n b arr fuel)
  case 0
  have "length (t_kids g p) \<le> length es" using 0(4) by (auto simp: children_def list_all2_lengthD)
  then have "n = length (t_kids g p)" "drop n es = []" using 0 by simp_all
  moreover obtain fuel' where "fuel = Suc fuel'" using 0(9) by (cases fuel) simp_all
  ultimately show ?case
    using 0 by (intro exI [of _ g] exI [of _ d] exI [of _ b]) (simp add: written_elems_def visits_refl extends_def fits_def split: option.splits)
next
  case (Suc m)
  note ok = Suc.prems(1) and p = Suc.prems(2)
  have nk: "n < length (t_kids g p)"
  proof (rule ccontr)
    assume "\<not> n < length (t_kids g p)"
    then have n: "n = length (t_kids g p)" using Suc.prems(4) by simp
    then have "rest_of g p = []" using Suc.prems(5) by (simp add: rest_of_def)
    then have "length es = n" using Suc.prems(3) n by (auto simp: children_def list_all2_lengthD)
    then show False using Suc.hyps(2) by simp
  qed
  define c where "c = t_kids g p ! n"
  from children_next [OF okD(1) [OF ok] p Suc.prems(3) nk] obtain v where
    v: "denotes g c v" "n < length es" "es ! n = (t_name g c, v)" unfolding c_def by blast
  have drop: "drop n es = (t_name g c, v) # drop (Suc n) es" "drop n (t_kids g p) = c # drop (Suc n) (t_kids g p)"
    using v(2,3) nk by (simp_all add: Cons_nth_drop_Suc [symmetric] c_def)
  have cl: "c \<in> t_live g" using kid_live [OF ok p] nk by (simp add: c_def)
  have "c \<in> set (t_kids g p)" using nk by (simp add: c_def)
  then have c0: "c \<noteq> 0" using shapeD(5) [OF okD(1) [OF ok]] p by (metis detached_def)
  obtain fuel' where fuel: "fuel = Suc fuel'" "3 * weight v + 3 \<le> fuel'" "3 * weights (drop (Suc n) es) + 1 \<le> fuel'"
    using Suc.prems(8) drop by (cases fuel) auto
  let ?e = "encode_elem (written_name None arr (t_name g c), v)"
  have bytes: "encode_elems (written_elems arr (drop n es)) = ?e @ encode_elems (written_elems (map_option Suc arr) (drop (Suc n) es))"
    by (simp add: drop written_elems_Cons encode_elem_def)
  have "element_writes junk v" using Suc.prems(6) [of "(t_name g c, v)"] drop by simp
  moreover have "fits b (length ?e)" using fits_mono [OF Suc.prems(7)] bytes by simp
  ultimately obtain g1 d1 b1 where
    w: "write_out fuel' junk (Element None c) arr d b = Some (Inr (d1, b1))" "document_ok g1 d1" "visits g g1" "only_nodes d d1" "extends b ?e b1"
    unfolding element_writes_def using ok cl c0 v(1) fuel(2) by blast
  have p1: "p \<in> t_live g1" using visits_frame(1) [OF w(3)] p by blast
  obtain new where k1: "t_kids g1 p = t_kids g p @ new" using visits_frame(3) [OF w(3) p] by blast
  have dec: "t_kids g1 p = take n (t_kids g p) @ c # (drop (Suc n) (t_kids g p) @ new)"
    using k1 nk id_take_nth_drop [of n "t_kids g p"] by (simp add: c_def)
  from resolveRightSibling_ok [OF w(2) p1 dec] obtain g2 d2 ws where
    r: "resolveRightSibling c d1 = Inr (head_idx ws kInvalidRepIdx, d2)" "t_kids g2 p = take n (t_kids g p) @ c # ws" "document_ok g2 d2"
      "visits g1 g2" "only_nodes d1 d2" "ws = [] \<Longrightarrow> t_more g2 p = None" by metis
  have v2: "visits g g2" using visits_trans [OF r(4) w(3)] .
  have p2: "p \<in> t_live g2" using visits_frame(1) [OF v2] p by blast
  have ws: "ws = drop (Suc n) (t_kids g2 p)" "Suc n \<le> length (t_kids g2 p)" using r(2) nk by simp_all
  have "\<exists>g' d' b'. write_out fuel' junk (From (head_idx (drop (Suc n) (t_kids g2 p)) kInvalidRepIdx)) (map_option Suc arr) d2 b1 = Some (Inr (d', b')) \<and>
    document_ok g' d' \<and> visits g2 g' \<and> only_nodes d2 d' \<and> extends b1 (encode_elems (written_elems (map_option Suc arr) (drop (Suc n) es))) b'"
  proof (rule Suc.hyps(1))
    show "m = length es - Suc n" using Suc.hyps(2) by simp
    show "children g2 p es" using visits_children [OF v2 okD(1) [OF ok] p Suc.prems(3)] .
    show "Suc n = length (t_kids g2 p) \<longrightarrow> t_more g2 p = None" using ws r(6) by auto
    show "element_writes junk (snd e)" if "e \<in> set (drop (Suc n) es)" for e using Suc.prems(6) [of e] that drop by simp
    show "fits b1 (length (encode_elems (written_elems (map_option Suc arr) (drop (Suc n) es))))"
      using extends_fits [OF w(5)] Suc.prems(7) bytes by simp
  qed (use r(3) p2 ws fuel(3) in simp_all)
  then obtain g' d' b' where
    f: "write_out fuel' junk (From (head_idx ws kInvalidRepIdx)) (map_option Suc arr) d2 b1 = Some (Inr (d', b'))"
      "document_ok g' d'" "visits g2 g'" "only_nodes d2 d'" "extends b1 (encode_elems (written_elems (map_option Suc arr) (drop (Suc n) es))) b'"
    using ws by auto
  have "write_out fuel junk (From (head_idx (drop n (t_kids g p)) kInvalidRepIdx)) arr d b = Some (Inr (d', b'))"
    using w(1) r(1) f(1) by (simp add: fuel(1) drop)
  moreover have "extends b (encode_elems (written_elems arr (drop n es))) b'" using extends_trans [OF w(5) f(5)] bytes by simp
  ultimately show ?case
    using f(2) visits_trans [OF f(3) v2] only_nodes_trans [OF only_nodes_trans [OF w(4) r(5)] f(4)]
    by (intro exI [of _ g'] exI [of _ d'] exI [of _ b']) simp
qed

lemma children_write:
  assumes ok: "document_ok g d" and p: "p \<in> t_live g" and es: "children g p es"
    and wr: "\<And>e. e \<in> set es \<Longrightarrow> element_writes junk (snd e)"
    and b: "fits b (length (encode_elems (written_elems arr es)))" and fuel: "3 * weights es + 2 \<le> fuel"
  shows "\<exists>g' d' b'. write_out fuel junk (Children p) arr d b = Some (Inr (d', b')) \<and>
    document_ok g' d' \<and> visits g g' \<and> only_nodes d d' \<and> extends b (encode_elems (written_elems arr es)) b'"
proof -
  from resolveLeftChild_ok [OF ok p] obtain g1 d1 where
    l: "resolveLeftChild p d = Inr (head_idx (t_kids g1 p) kInvalidRepIdx, d1)" "document_ok g1 d1" "visits g g1"
      "only_nodes d d1" "t_kids g1 p = [] \<Longrightarrow> t_more g1 p = None" by metis
  have p1: "p \<in> t_live g1" using visits_frame(1) [OF l(3)] p by blast
  obtain fuel' where f: "fuel = Suc fuel'" "3 * weights es + 1 \<le> fuel'" using fuel by (cases fuel) auto
  have "\<exists>g' d' b'. write_out fuel' junk (From (head_idx (drop 0 (t_kids g1 p)) kInvalidRepIdx)) arr d1 b = Some (Inr (d', b')) \<and>
    document_ok g' d' \<and> visits g1 g' \<and> only_nodes d1 d' \<and> extends b (encode_elems (written_elems arr (drop 0 es))) b'"
    by (rule siblings_write [OF l(2) p1 visits_children [OF l(3) okD(1) [OF ok] p es]]) (use wr b f(2) l(5) in auto)
  then obtain g' d' b' where
    "write_out fuel' junk (From (head_idx (t_kids g1 p) kInvalidRepIdx)) arr d1 b = Some (Inr (d', b'))"
    "document_ok g' d'" "visits g1 g'" "only_nodes d1 d'" "extends b (encode_elems (written_elems arr es)) b'" by auto
  then show ?thesis
    using l(1) visits_trans [OF _ l(3)] only_nodes_trans [OF l(4)]
    by (intro exI [of _ g'] exI [of _ d'] exI [of _ b']) (simp add: f(1))
qed

lemma whole_writes:
  assumes ok: "document_ok g d" and i: "i \<in> t_live g" "plain g i"
    and b: "fits b (length (encode_elem (written_name name arr (t_name g i), t_val g i)))"
  shows "\<exists>b'. write_out (Suc fuel) junk (Element name i) arr d b = Some (Inr (d, b')) \<and>
    extends b (encode_elem (written_name name arr (t_name g i), t_val g i)) b'"
proof -
  note c = okD(3) [OF ok i(1)]
  have wf: "wf_value (t_val g i)" "nul \<notin> set (t_name g i)" "er_serialized (node d i)" "er_objIdx (node d i) \<noteq> None"
    using c i(2) by (auto simp: content_def plain_def split: option.splits)
  obtain post where e: "getSerializedElement (node d i) d = Inr (encode_elem (t_name g i, t_val g i) @ post)"
    "int (length (encode_elem (t_name g i, t_val g i) @ post)) \<le> BSONObjMaxInternalSize"
    using own_bytes [OF ok i(1) _ wf(4)] i(2) by (auto simp: plain_def item_def)
  have small: "length (encode_elem (t_name g i, t_val g i)) < 2 ^ 31" using max_sizes [OF e(2)] by simp
  have get: "getElementRep i d = Inr (node d i)" "rep_hasValue i (node d i)"
    using okD(2) [OF ok i(1)] wf(3) i(2) by (simp_all add: getElementRep_def rep_hasValue_def kRootRepIdx_def plain_def)
  let ?elt = "encode_elem (t_name g i, t_val g i) @ post"
  have "\<exists>b'. (case arr of Some k \<Rightarrow> appendAs ?elt (numStr k) b
      | None \<Rightarrow> (case name of Some n \<Rightarrow> appendAs ?elt n b | None \<Rightarrow> append_element ?elt b)) = Inr b' \<and>
    extends b (encode_elem (written_name name arr (t_name g i), t_val g i)) b'"
    using append_element_ok [OF wf(1,2) small, of b post] appendAs_ok [OF wf(1,2) small, of b "written_name name arr (t_name g i)" post] b
    by (cases arr; cases name; simp add: written_name_def)
  then show ?thesis by (auto simp: get e(1))
qed

lemma element_writes_all: "length junk = 4 \<Longrightarrow> element_writes junk v"
proof (induction "weight v" arbitrary: v rule: less_induct)
  case less
  show ?case
    unfolding element_writes_def
  proof (intro allI impI, elim conjE)
    fix g d i name arr b fuel
    assume ok: "document_ok g d" and i: "i \<in> t_live g" "i \<noteq> 0" and v: "denotes g i v"
      and b: "fits b (length (encode_elem (written_name name arr (t_name g i), v)))" and fuel: "3 * weight v + 3 \<le> fuel"
    let ?n = "written_name name arr (t_name g i)"
    obtain fuel' where f: "fuel = Suc fuel'" "3 * weight v + 2 \<le> fuel'" using fuel by (cases fuel) auto
    note sh = okD(1) [OF ok]
    have sub: "\<exists>g' d' b'. write_out fuel junk (Element name i) arr d b = Some (Inr (d', b')) \<and> document_ok g' d' \<and> visits g g' \<and>
           only_nodes d d' \<and> extends b (encode_elem (?n, v)) b'"
      if nw: "\<not> plain g i" and es: "children g i es" "weights es = weight v" and ty: "value_type (t_val g i) = t" "t \<in> {Object, Array}" "value_type v = t"
        and enc: "encode_value v = frame (encode_elems (written_elems (if t = Array then Some 0 else None) es))" for es t
    proof -
      have get: "getElementRep i d = Inr (node d i)" "\<not> rep_hasValue i (node d i)"
        using okD(2) [OF ok i(1)] nw i(2) okD(3) [OF ok i(1)] by (simp_all add: getElementRep_def rep_hasValue_def kRootRepIdx_def plain_def content_def)
      let ?hd = "type_byte t # cstring ?n" and ?body = "encode_elems (written_elems (if t = Array then Some 0 else None) es)"
      have len: "encode_elem (?n, v) = ?hd @ frame ?body" using ty(3) enc by (simp add: encode_elem_def)
      have b0: "fits b (length ?hd + length (frame ?body))" using b unfolding len by simp
      from appends_extends [OF append_header_appends, of b t ?n] fits_mono [OF b0] obtain b1 where
        b1: "append_header t ?n b = Inr b1" "extends b ?hd b1" by auto
      have fb1: "fits b1 (length (frame ?body))" using extends_fits [OF b1(2) b0] .
      have "\<exists>b2. bld_skip junk b1 = Inr b2 \<and> extends b1 junk b2"
        unfolding bld_skip_def using fits_mono [OF fb1] less.prems by (intro appends_extends [OF appendBuf_appends]) simp
      then obtain b2 where b2: "bld_skip junk b1 = Inr b2" "extends b1 junk b2" by blast
      have fb2: "fits b2 (length ?body)"
        using extends_fits [OF b2(2), of "length ?body"] fits_mono [OF fb1, of "4 + length ?body"] less.prems by simp
      have "element_writes junk (snd e)" if "e \<in> set es" for e
        using less.hyps [of "snd e"] weight_member [OF that] es(2) less.prems by simp
      from children_write [OF ok i(1) es(1) this fb2, of fuel'] f(2) es(2) obtain g' d' b3 where
        w: "write_out fuel' junk (Children i) (if t = Array then Some 0 else None) d b2 = Some (Inr (d', b3))"
          "document_ok g' d'" "visits g g'" "only_nodes d d'" "extends b2 ?body b3" by auto
      from obj_done_ok [OF extends_trans [OF b2(2) w(5)] less.prems fb1] obtain ob b4 where
        o4: "obj_done \<lparr>ob_offset = length (bld_data b1), ob_doneCalled = False\<rparr> b3 = Inr (ob, b4)" "extends b1 (frame ?body) b4" by blast
      have st: "(if BSONType_to_int t = BSONType_to_int Array then subarrayStart ?n b else subobjStart ?n b) = Inr b1"
        "(BSONType_to_int t = BSONType_to_int Array) = (t = Array)"
        using b1(1) ty(2) by (auto simp: subarrayStart_def subobjStart_def BSONType_to_int_def BSONType_table_def)
      have nm: "(case name of None \<Rightarrow> rep_fieldName (i = kRootRepIdx) (node d i) d | Some n \<Rightarrow> Inr n) =
          Inr (case name of None \<Rightarrow> t_name g i | Some n \<Rightarrow> n)"
        using rep_fieldName_ok [OF ok i(1)] by (simp split: option.splits)
      have wn: "(case arr of None \<Rightarrow> (case name of None \<Rightarrow> t_name g i | Some n \<Rightarrow> n) | Some k \<Rightarrow> numStr k) = ?n"
        by (simp add: written_name_def split: option.splits)
      have "write_out fuel junk (Element name i) arr d b = Some (Inr (d', b4))"
        using get rep_type_ok [OF ok i(1)] ty(1) b2(1) w(1) o4(1) st nm wn
        by (cases "t = Array") (simp_all add: f(1) BSONObjBuilder_sub_def Let_def)
      moreover have "extends b (encode_elem (?n, v)) b4" using extends_trans [OF b1(2) o4(2)] len by simp
      ultimately show ?thesis using w by (intro exI [of _ g'] exI [of _ d'] exI [of _ b4]) simp
    qed
    from v sh i(1) show "\<exists>g' d' b'. write_out fuel junk (Element name i) arr d b = Some (Inr (d', b')) \<and> document_ok g' d' \<and> visits g g' \<and>
           only_nodes d d' \<and> extends b (encode_elem (?n, v)) b'"
    proof (cases rule: denotes_cases)
      case 1
      then show ?thesis
        using whole_writes [OF ok i(1), of b name arr fuel' junk] b ok by (fastforce simp: f(1) intro: visits_refl)
    next
      case (2 es)
      then show ?thesis by (intro sub [of es Object]) (simp_all add: written_elems_def)
    next
      case (3 es)
      then show ?thesis by (intro sub [of es Array]) (simp_all add: written_elems_def)
    qed
  qed
qed

end
