(* ===== verification/Mutable_Start.thy ===== *)
theory Mutable_Start
  imports Mutable_Make Mutable_Write
begin

text \<open>New documents, and reading a document back.\<close>

subsection \<open>The bytes of a document\<close>

lemma document_getObject_ok:
  assumes ok: "document_ok g d" and junk: "length junk = 4" and es: "children g 0 es"
    and max: "int (length (encode es)) \<le> BSONObjMaxInternalSize" and fuel: "3 * weights es + 2 \<le> fuel"
  shows "\<exists>g' d'. document_getObject fuel junk d = Some (Inr (encode es, d')) \<and> document_ok g' d' \<and> visits g g' \<and> only_nodes d d'"
proof -
  have root: "0 \<in> t_live g" using shapeD(4) [OF okD(1) [OF ok]] .
  have lim: "int (length (encode_elems es)) + 5 \<le> BSONObjMaxInternalSize" using max by (simp add: encode_def)
  let ?b0 = "BufBuilder 516"
  have f0: "fits ?b0 (4 + length (frame (encode_elems es)))"
    using lim by (simp add: fits_def builder_ok_def BufBuilder_def bld_len_def BufferMaxSize_def BSONObjMaxInternalSize_def BSONObjMaxUserSize_def)
  from appends_extends [OF appends_basic(2), of ?b0 0] fits_mono [OF f0] obtain b1 where
    b1: "appendNum_int 0 ?b0 = Inr b1" "extends ?b0 (le_bytes 4 0) b1" by auto
  have fb1: "fits b1 (length (frame (encode_elems es)))" using extends_fits [OF b1(2)] f0 by simp
  have "\<exists>b2. bld_skip junk b1 = Inr b2 \<and> extends b1 junk b2"
    unfolding bld_skip_def using fits_mono [OF fb1] junk by (intro appends_extends [OF appendBuf_appends]) simp
  then obtain b2 where b2: "bld_skip junk b1 = Inr b2" "extends b1 junk b2" by blast
  have fb2: "fits b2 (length (encode_elems (written_elems None es)))"
    using extends_fits [OF b2(2), of "length (encode_elems es)"] fits_mono [OF fb1, of "4 + length (encode_elems es)"] junk
    by (simp add: written_elems_def)
  from children_write [OF ok root es element_writes_all [OF junk] fb2 fuel] obtain g' d' b3 where
    w: "write_out fuel junk (Children 0) None d b2 = Some (Inr (d', b3))" "document_ok g' d'" "visits g g'" "only_nodes d d'"
      "extends b2 (encode_elems es) b3" by (auto simp: written_elems_def)
  have data1: "length (bld_data b1) = 4" using b1(2) by (simp add: extends_def BufBuilder_def)
  from obj_done_ok [OF extends_trans [OF b2(2) w(5)] junk fb1] obtain ob b4 where
    o4: "obj_done \<lparr>ob_offset = 4, ob_doneCalled = False\<rparr> b3 = Inr (ob, b4)" "extends b1 (encode es) b4" "ob_offset ob = 4"
    by (auto simp: data1 encode_def)
  have "drop 4 (bld_data b4) = encode es" using o4(2) data1 by (simp add: extends_def)
  moreover have "BSONObj_init (encode es) = Inr (encode es)" using BSONObj_init_encode [OF max, of "[]"] by simp
  moreover have "writeTo fuel junk (Rep kRootRepIdx) d b2 = Some (Inr (d', b3))"
  proof -
    have "er_parent (node d 0) = kInvalidRepIdx" "value_type (t_val g 0) = Object" "getElementRep 0 d = Inr (node d 0)"
      using okD(6) [OF ok root shapeD(5) [OF okD(1) [OF ok]]] okD(3) [OF ok root] okD(2) [OF ok root]
      by (simp_all add: unlinked_def content_def getElementRep_def)
    then show ?thesis
      using rep_type_ok [OF ok root] w(1) by (simp add: writeTo_def verify_ok_def kRootRepIdx_def writeChildren_def)
  qed
  ultimately show ?thesis
    using b1(1) b2(1) o4(1,3) w by (auto simp: document_getObject_def BSONObjBuilder_def)
qed

subsection \<open>A document made from bytes\<close>

definition start_tree :: "bson_elem list \<Rightarrow> bool \<Rightarrow> tree" where
  "start_tree es whole =
     \<lparr>t_live = {0}, t_kids = \<lambda>_. [], t_more = \<lambda>_. if es = [] then None else Some es, t_name = \<lambda>_. [],
      t_val = \<lambda>_. VObject es, t_whole = \<lambda>_. whole, t_reps = Suc (weights es), t_heap = 4\<rparr>"

lemma children_start: "children (start_tree es whole) 0 es"
  by (simp add: children_def start_tree_def rest_of_def)

lemma shape_start: "wf_elems es \<Longrightarrow> whole \<or> es = [] \<Longrightarrow> shape (start_tree es whole)"
  by (auto simp: shape_def node_shape_def start_tree_def rest_of_def child_rel_def detached_def container_def sub_elems_def acyclic_def)

lemma start_on_ok:
  assumes "length junk = 4" "builder_ok b0" "bld_data b0 = []"
  shows "\<exists>d. start_on junk ip b0 = Inr d \<and> dc_elements d = [] \<and> length (dc_objects d) = 1 \<and> dc_fieldNames d = [] \<and> heap_ok d \<and>
    dc_inPlace d = ip \<and> dc_damages d = [] \<and> length (bld_data (dc_leafBuf d)) = 4"
proof -
  have "fits b0 (length junk)" using assms by (simp add: fits_def builder_ok_def bld_len_def BufferMaxSize_def)
  from appends_extends [OF appendBuf_appends this] obtain b where
    b: "bld_skip junk b0 = Inr b" "builder_ok b" "bld_data b = junk" using assms(3) by (auto simp: bld_skip_def extends_def)
  from asTempObj_ok [OF b(2)] obtain b' where
    t: "asTempObj \<lparr>ob_offset = 0, ob_doneCalled = False\<rparr> b = Inr (leaf_object junk, \<lparr>ob_offset = 0, ob_doneCalled = False\<rparr>, b')" "builder_ok b'"
      "length (bld_data b') = 4" "drop 4 (bld_data b') = drop 4 junk"
    using assms(1) b(3) by (auto simp: BSONObjMaxInternalSize_def BSONObjMaxUserSize_def)
  have "BSONObj_init (leaf_object junk) = Inr (leaf_object junk)"
    using BSONObj_init_leaf [of junk] assms by (simp add: BSONObjMaxInternalSize_def BSONObjMaxUserSize_def)
  moreover have "leaf_object junk = leaf_object (bld_data b')" using t(3,4) assms by (simp add: leaf_object_def)
  moreover have "int (length (leaf_object junk)) \<le> BSONObjMaxInternalSize"
    using assms by (simp add: leaf_object_def BSONObjMaxInternalSize_def BSONObjMaxUserSize_def)
  ultimately show ?thesis
    using b(1) t assms(3) by (simp add: start_on_def BSONObjBuilder_sub_def heap_ok_leaf kLeafObjIdx_def)
qed

lemma weights_length: "weight v \<le> length (encode_value v)" "weights es \<le> length (encode_elems es)"
  by (induction v and es rule: weight_weights.induct) simp_all

lemma start_value_ok:
  assumes b0: "builder_ok b0" "bld_data b0 = []" and junk: "length junk = 4" and es: "wf_elems es" and max: "int (length (encode es)) \<le> BSONObjMaxInternalSize"
  shows "\<exists>d. bindE (start_on junk ip b0) (\<lambda>d. bindE (makeRootElement_value (encode es) d) (\<lambda>(_, d). Inr d)) = Inr d \<and>
    document_ok (start_tree es True) d \<and> length (dc_elements d) = 1 \<and>
    dc_inPlace d = ip \<and> dc_damages d = [] \<and> length (bld_data (dc_leafBuf d)) = 4"
proof -
  from start_on_ok [OF junk b0, of ip] obtain d where
    d: "start_on junk ip b0 = Inr d" "dc_elements d = []" "length (dc_objects d) = 1" "dc_fieldNames d = []" "heap_ok d"
      "dc_inPlace d = ip" "dc_damages d = []" "length (bld_data (dc_leafBuf d)) = 4" by blast
  let ?c = "if es = [] then kInvalidRepIdx else kOpaqueRepIdx"
  let ?rep = "defaultRep\<lparr>er_objIdx := Some 1, er_offset := 0, er_serialized := True, er_childLeft := ?c, er_childRight := ?c\<rparr>"
  define d' where "d' = d\<lparr>dc_elements := [?rep], dc_objects := dc_objects d @ [encode es], dc_fieldNames := [nul]\<rparr>"
  have "objsize (encode es) = Inr (int (length (encode es)))"
    using objsize_frame [of "encode_elems es" "[]"] max_sizes [OF max] by (simp add: encode_def)
  then have mk: "bindE (start_on junk ip b0) (\<lambda>d. bindE (makeRootElement_value (encode es) d) (\<lambda>(_, d). Inr d)) = Inr d'"
    using d encode_short [of es]
    by (simp add: makeRootElement_value_def makeNewRep_def kMaxRepIdx_def kFastReps_def insertObject_def
        insertFieldName_def set_rep_def cstring_def Let_def) (simp add: d'_def)
  have room: "1 + weights es \<le> kMaxRepIdx"
  proof -
    have "weights es \<le> 2 ^ 25"
      using weights_length(2) [of es] max by (simp add: encode_def BSONObjMaxInternalSize_def BSONObjMaxUserSize_def)
    then show ?thesis by (simp add: kMaxRepIdx_def)
  qed
  have "document_ok (start_tree es True) d'"
    unfolding document_ok_def
  proof (intro conjI ballI impI)
    show "shape (start_tree es True)" using shape_start [OF es] by simp
    show "heap_ok d'" using d(3,5) max by (auto simp: heap_ok_leaf d'_def nth_append kLeafObjIdx_def)
    show "budget_ok (start_tree es True) d'"
      using room d(8) by (simp add: budget_ok_def d'_def pending_def start_tree_def rest_of_def)
    fix i assume "i \<in> t_live (start_tree es True)"
    then have i: "i = 0" by (simp add: start_tree_def)
    show "i < length (dc_elements d')" by (simp add: i d'_def)
    show "content d' (start_tree es True) i"
      using es d(3) by (simp add: i content_def start_tree_def) (simp add: d'_def kLeafObjIdx_def sub_elems_def nth_append)
    show "links d' (start_tree es True) i"
      by (simp add: i links_def start_tree_def end_idx_def) (simp add: d'_def)
    show "tails d' (start_tree es True) i"
      by (simp add: i tails_def start_tree_def) (simp add: d'_def)
    show "unlinked (node d' i)" by (simp add: i d'_def unlinked_def defaultRep_def)
  qed
  then show ?thesis using mk d by (simp add: d'_def)
qed

lemma start_empty_ok:
  assumes b0: "builder_ok b0" "bld_data b0 = []" and junk: "length junk = 4"
  shows "\<exists>d. bindE (start_on junk False b0) (\<lambda>d. bindE (makeElementObject_new [] d) (\<lambda>(_, d). Inr d)) = Inr d \<and> document_ok (start_tree [] False) d \<and> length (dc_elements d) = 1 \<and> length (bld_data (dc_leafBuf d)) = 4"
proof -
  from start_on_ok [OF junk b0, of False] obtain d where
    d: "start_on junk False b0 = Inr d" "dc_elements d = []" "length (dc_objects d) = 1" "dc_fieldNames d = []" "heap_ok d"
      "length (bld_data (dc_leafBuf d)) = 4" by blast
  define d' where "d' = d\<lparr>dc_elements := [defaultRep\<lparr>er_offset := 0\<rparr>], dc_fieldNames := [nul]\<rparr>"
  have mk: "bindE (start_on junk False b0) (\<lambda>d. bindE (makeElementObject_new [] d) (\<lambda>(_, d). Inr d)) = Inr d'"
    using d by (simp add: makeElementObject_new_def makeNewRep_def kMaxRepIdx_def kFastReps_def
        insertFieldName_def set_rep_def cstring_def Let_def) (simp add: d'_def)
  have "document_ok (start_tree [] False) d'"
    unfolding document_ok_def
  proof (intro conjI ballI impI)
    show "shape (start_tree [] False)" using shape_start [of "[]"] by simp
    show "heap_ok d'" using d(5) by (simp add: heap_ok_def d'_def)
    show "budget_ok (start_tree [] False) d'"
      using d(6) by (simp add: budget_ok_def d'_def pending_def start_tree_def rest_of_def kMaxRepIdx_def)
    fix i assume "i \<in> t_live (start_tree [] False)"
    then have i: "i = 0" by (simp add: start_tree_def)
    show "i < length (dc_elements d')" by (simp add: i d'_def)
    show "content d' (start_tree [] False) i"
      by (simp add: i content_def start_tree_def) (simp add: d'_def defaultRep_def cstring_def)
    show "links d' (start_tree [] False) i"
      by (simp add: i links_def start_tree_def end_idx_def) (simp add: d'_def defaultRep_def)
    show "tails d' (start_tree [] False) i" by (simp add: i tails_def start_tree_def)
    show "unlinked (node d' i)" by (simp add: i d'_def unlinked_def defaultRep_def)
  qed
  then show ?thesis using mk d by (simp add: d'_def)
qed

text \<open>New documents, and documents that are used again.\<close>

lemma BufBuilder_start: "builder_ok (BufBuilder 512)" "bld_data (BufBuilder 512) = []"
  by (simp_all add: BufBuilder_def builder_ok_def bld_len_def BufferMaxSize_def)

lemmas Document_value_ok = start_value_ok [OF BufBuilder_start, folded Document_Impl_def, folded Document_value_def]

lemmas Document_ok = start_empty_ok [OF BufBuilder_start, folded Document_Impl_def, folded Document_def]

lemma document_reset_ok:
  assumes "document_ok g d" "length junk = 4"
  shows "\<exists>d'. Document_reset junk d = Inr d' \<and> document_ok (start_tree [] False) d'"
    and "wf_elems es \<Longrightarrow> int (length (encode es)) \<le> BSONObjMaxInternalSize \<Longrightarrow>
      \<exists>d'. Document_reset_value junk (encode es) ip d = Inr d' \<and> document_ok (start_tree es True) d' \<and> dc_inPlace d' = ip \<and> dc_damages d' = []"
proof -
  have b: "builder_ok (bld_reset (dc_leafBuf d))" "bld_data (bld_reset (dc_leafBuf d)) = []"
    using okD(7) [OF assms(1)] by (simp_all add: bld_reset_def heap_ok_def builder_ok_def bld_len_def)
  show "\<exists>d'. Document_reset junk d = Inr d' \<and> document_ok (start_tree [] False) d'"
    using start_empty_ok [OF b assms(2)] by (auto simp: Document_reset_def Impl_reset_def)
  show "\<exists>d'. Document_reset_value junk (encode es) ip d = Inr d' \<and> document_ok (start_tree es True) d' \<and> dc_inPlace d' = ip \<and> dc_damages d' = []"
    if "wf_elems es" "int (length (encode es)) \<le> BSONObjMaxInternalSize"
    using start_value_ok [OF b assms(2) that, of ip] by (auto simp: Document_reset_value_def Impl_reset_def)
qed

end
