(* ===== verification/Mutable_Set.thy ===== *)
theory Mutable_Set
  imports Mutable_Start
begin

text \<open>Changing the value of an element: the node keeps its place, and everything that was below it is gone.\<close>

definition below :: "tree \<Rightarrow> nat \<Rightarrow> nat set" where
  "below g i = {x. (x, i) \<in> (child_rel g)\<^sup>+}"

text \<open>The value of the node \<open>j\<close> moves to \<open>i\<close>.\<close>

definition put :: "nat \<Rightarrow> nat \<Rightarrow> tree \<Rightarrow> tree" where
  "put i j g =
     g\<lparr>t_live := t_live g - below g i - {j}, t_kids := (t_kids g)(i := []), t_more := (t_more g)(i := t_more g j),
       t_val := (t_val g)(i := t_val g j), t_whole := (t_whole g)(i := True)\<rparr>"

definition touched :: "nat \<Rightarrow> tree \<Rightarrow> tree" where
  "touched i g = g\<lparr>t_whole := \<lambda>x. t_whole g x \<and> (x = i \<or> x \<notin> anc g i)\<rparr>"

lemma put_simps [simp]:
  "t_live (put i j g) = t_live g - below g i - {j}" "t_kids (put i j g) = (t_kids g)(i := [])"
  "t_more (put i j g) = (t_more g)(i := t_more g j)" "t_name (put i j g) = t_name g" "t_val (put i j g) = (t_val g)(i := t_val g j)"
  "t_whole (put i j g) = (t_whole g)(i := True)" "rest_of (put i j g) = (rest_of g)(i := rest_of g j)"
  "t_reps (put i j g) = t_reps g" "t_heap (put i j g) = t_heap g"
  "item (put i j g) = (item g)(i := (t_name g i, t_val g j))"
  by (auto simp: put_def rest_of_def item_def fun_eq_iff)

text \<open>A tree of one node that has the value of a piece of bytes, as it has just been made.\<close>

definition single :: "tree \<Rightarrow> nat \<Rightarrow> bool" where
  "single g j \<longleftrightarrow> j \<in> t_live g \<and> detached g j \<and> j \<noteq> 0 \<and> t_kids g j = [] \<and> t_whole g j \<and>
     t_more g j = (if container (t_val g j) then Some (sub_elems (t_val g j)) else None)"

lemma below_step:
  assumes "shape g" "x \<in> t_live g" "c \<in> set (t_kids g x)"
  shows "c \<in> below g i \<longleftrightarrow> x = i \<or> x \<in> below g i"
proof -
  have cx: "(c, x) \<in> child_rel g" using assms(2,3) by (simp add: child_rel_def)
  have uniq: "y = x" if "(c, y) \<in> child_rel g" for y
    using that assms shapeD(2) [OF assms(1)] by (auto simp: child_rel_def)
  show ?thesis
  proof
    assume "c \<in> below g i"
    then have "(c, i) \<in> (child_rel g)\<^sup>+" by (simp add: below_def)
    then obtain y where "(c, y) \<in> child_rel g" "(y, i) \<in> (child_rel g)\<^sup>*" by (blast dest: tranclD)
    then show "x = i \<or> x \<in> below g i" using uniq by (auto simp: below_def rtrancl_eq_or_trancl)
  next
    assume "x = i \<or> x \<in> below g i"
    then show "c \<in> below g i" using cx by (auto simp: below_def)
  qed
qed

lemma below_irrefl: "shape g \<Longrightarrow> i \<notin> below g i"
  using shapeD(3) by (auto simp: below_def acyclic_def)

lemma below_detached: "detached g j \<Longrightarrow> j \<notin> below g i"
  by (auto simp: below_def detached_child_rel dest: tranclD)

lemma child_rel_put: "child_rel (put i j g) \<subseteq> child_rel g"
  by (auto simp: child_rel_def split: if_splits)

lemma kids_put:
  assumes g: "shape g" and j: "single g j" and x: "x \<in> t_live (put i j g)" "x \<noteq> i" and c: "c \<in> set (t_kids g x)"
  shows "c \<in> t_live (put i j g)"
proof -
  have xl: "x \<in> t_live g" "x \<notin> below g i" using x by simp_all
  have "c \<in> t_live g" using node_shapeD(1) [OF shapeD(1) [OF g xl(1)]] c by blast
  moreover have "c \<notin> below g i" using below_step [OF g xl(1) c] x(2) xl(2) by simp
  moreover have "c \<noteq> j" using j xl(1) c by (auto simp: single_def detached_def)
  ultimately show ?thesis by simp
qed

lemma detached_put:
  assumes g: "shape g" and j: "single g j" and x: "x \<in> t_live (put i j g)"
  shows "detached (put i j g) x \<longleftrightarrow> detached g x"
proof
  assume "detached g x"
  then show "detached (put i j g) x" using child_rel_put [of i j g] by (auto simp: detached_child_rel)
next
  assume d: "detached (put i j g) x"
  show "detached g x"
    unfolding detached_def
  proof
    fix q assume q: "q \<in> t_live g"
    show "x \<notin> set (t_kids g q)"
    proof
      assume xq: "x \<in> set (t_kids g q)"
      have "q \<noteq> i" "q \<notin> below g i" using below_step [OF g q xq, of i] x by auto
      moreover have "q \<noteq> j" using xq j by (auto simp: single_def)
      ultimately have "q \<in> t_live (put i j g)" using q by simp
      with d have "x \<notin> set (t_kids (put i j g) q)" by (simp add: detached_def)
      with xq \<open>q \<noteq> i\<close> show False by simp
    qed
  qed
qed

lemma shape_put:
  assumes g: "shape g" and i: "i \<in> t_live g" "i \<noteq> 0" "\<And>p. p \<in> t_live g \<Longrightarrow> i \<in> set (t_kids g p) \<Longrightarrow> \<not> t_whole g p" and j: "single g j" "i \<noteq> j"
  shows "shape (put i j g)"
proof -
  have jl: "j \<in> t_live g" using j by (simp add: single_def)
  have root: "0 \<in> t_live (put i j g)"
    using shapeD(4,5) [OF g] below_detached [of g 0 i] j by (simp add: single_def)
  have nodes: "node_shape (put i j g) x" if x: "x \<in> t_live (put i j g)" for x
  proof (cases "x = i")
    case True
    then show ?thesis
      using j node_shapeD(3) [OF shapeD(1) [OF g jl]] by (auto simp: node_shape_def single_def rest_of_def)
  next
    case False
    note nx = shapeD(1) [OF g, of x]
    have xl: "x \<in> t_live g" using x by simp
    have "set (t_kids g x) \<subseteq> t_live (put i j g)" using kids_put [OF g j(1) x False] by blast
    moreover have "i \<notin> set (t_kids g x)" if "t_whole g x" using i(3) [OF xl] that by blast
    moreover from this have "map (item (put i j g)) (t_kids g x) = map (item g) (t_kids g x)" if "t_whole g x" using that by auto
    ultimately show ?thesis using nx [OF xl] False unfolding node_shape_def by auto
  qed
  have uniq: "p = q" if H: "p \<in> t_live (put i j g)" "q \<in> t_live (put i j g)" "set (t_kids (put i j g) p) \<inter> set (t_kids (put i j g) q) \<noteq> {}" for p q
  proof -
    have "p \<noteq> i" "q \<noteq> i" using H(3) by auto
    then obtain c where "c \<in> set (t_kids g p)" "c \<in> set (t_kids g q)" using H(3) by auto
    then show ?thesis using shapeD(2) [OF g] H(1,2) by simp
  qed
  show ?thesis
    unfolding shape_def
  proof (intro conjI ballI impI)
    show "acyclic (child_rel (put i j g))" using acyclic_subset [OF shapeD(3) [OF g] child_rel_put] .
    show "detached (put i j g) 0" using detached_put [OF g j(1) root] shapeD(5) [OF g] by simp
  qed (fact nodes uniq root)+
qed

lemma pending_put:
  assumes "finite (t_live g)" "i \<in> t_live g" "j \<in> t_live g" "i \<noteq> j" "i \<notin> below g i"
  shows "pending (put i j g) \<le> pending g"
proof -
  let ?f = "\<lambda>x. weights (rest_of g x)"
  let ?L = "t_live g - below g i - {j}"
  have fin: "finite ?L" "i \<in> ?L" using assms by simp_all
  have "pending (put i j g) = ?f j + (\<Sum>x \<in> ?L - {i}. weights (rest_of (put i j g) x))"
    using sum.remove [OF fin, of "\<lambda>x. weights (rest_of (put i j g) x)"] by (simp add: pending_def)
  also have "(\<Sum>x \<in> ?L - {i}. weights (rest_of (put i j g) x)) = (\<Sum>x \<in> ?L - {i}. ?f x)" by (intro sum.cong) auto
  also have "(\<Sum>x \<in> ?L - {i}. ?f x) \<le> (\<Sum>x \<in> t_live g - {j}. ?f x)" by (intro sum_mono2) (use assms in auto)
  also have "?f j + (\<Sum>x \<in> t_live g - {j}. ?f x) = pending g" using sum.remove [OF assms(1,3), of ?f] by (simp add: pending_def)
  finally show ?thesis by simp
qed

subsection \<open>In the document\<close>

lemma document_ok_put:
  assumes ok: "document_ok g d" and i: "i \<in> t_live g" "i \<noteq> 0"
    and par: "\<And>p. p \<in> t_live g \<Longrightarrow> i \<in> set (t_kids g p) \<Longrightarrow> \<not> t_whole g p \<and> (last (t_kids g p) = i \<longrightarrow> t_more g p = None)"
    and j: "single g j" "i \<noteq> j" "t_name g j = t_name g i"
    and data: "length (dc_elements d') = length (dc_elements d)" "dc_objects d' = dc_objects d" "dc_fieldNames d' = dc_fieldNames d"
      "dc_leafBuf d' = dc_leafBuf d" "dc_leafBuilder d' = dc_leafBuilder d"
    and other: "\<And>x. x < length (dc_elements d) \<Longrightarrow> x \<noteq> i \<Longrightarrow> x \<noteq> j \<Longrightarrow> node d' x = node d x"
    and new: "node d' i = (node d j)\<lparr>er_parent := er_parent (node d i), er_left := er_left (node d i), er_right := er_right (node d i)\<rparr>"
  shows "document_ok (put i j g) d'"
proof -
  note g = okD(1) [OF ok]
  have jl: "j \<in> t_live g" and jk: "t_kids g j = []" and jw: "t_whole g j" and j0: "j \<noteq> 0" using j by (simp_all add: single_def)
  have bytes: "bytes_at d' x bs = bytes_at d x bs" if "x < length (dc_elements d)" "x \<noteq> i" "x \<noteq> j" for x bs
    by (rule bytes_at_cong) (simp_all add: same_content_def other [OF that] data)
  have keep: "er_left (node d' c) = er_left (node d c) \<and> er_right (node d' c) = er_right (node d c) \<and> er_parent (node d' c) = er_parent (node d c)"
    if "c < length (dc_elements d)" "c \<noteq> j" for c using other [of c] that new by (cases "c = i") simp_all
  have node: "x < length (dc_elements d') \<and> content d' (put i j g) x \<and> links d' (put i j g) x \<and> tails d' (put i j g) x \<and>
      (detached (put i j g) x \<longrightarrow> unlinked (node d' x))" if x: "x \<in> t_live (put i j g)" for x
  proof (intro conjI impI)
    have xl: "x \<in> t_live g" "x \<noteq> j" using x by simp_all
    show "x < length (dc_elements d')" using okD(2) [OF ok xl(1)] data(1) by simp
    have xn: "x < length (dc_elements d)" using okD(2) [OF ok xl(1)] .
    have kn: "c < length (dc_elements d)" if "c \<in> set (t_kids g x)" for c using okD(2) [OF ok kid_live [OF ok xl(1) that]] .
    have kj: "c \<noteq> j" if "c \<in> set (t_kids g x)" for c using kids_put [OF g j(1) x _ that] xl that j jk by (cases "x = i") (auto simp: single_def detached_def)
    show "unlinked (node d' x)" if "detached (put i j g) x"
      using that detached_put [OF g j(1) x] okD(6) [OF ok xl(1)] keep [OF xn xl(2)] by (simp add: unlinked_def)
    show "content d' (put i j g) x"
    proof (cases "x = i")
      case True
      have cj: "content d g j" using okD(3) [OF ok jl] .
      then have "bytes_at d j (encode_elem (item g j))" using jw j0 by (auto simp: content_def split: option.splits)
      then have "bytes_at d' i (encode_elem (t_name g i, t_val g j))"
        using j(3) data(2) by (simp add: bytes_at_def new item_def)
      moreover have "er_objIdx (node d j) \<noteq> None" using cj jw by (auto simp: content_def split: option.splits)
      ultimately show ?thesis
        using cj i(2) jw j(3) True by (auto simp: content_def new)
    next
      case False
      have "same_content d d' x" using other [OF xn False xl(2)] by (simp add: same_content_def)
      from content_cong [OF this data(2,3), of "put i j g" g] okD(3) [OF ok xl(1)] False show ?thesis by simp
    qed
    show "links d' (put i j g) x"
    proof (cases "x = i")
      case True
      have "links d g j" using okD(4) [OF ok jl] .
      then show ?thesis using True jk by (simp add: links_def end_idx_def new)
    next
      case False
      show ?thesis
      proof (rule links_cong [of d' x d g, THEN iffD2])
        show "links d g x" using okD(4) [OF ok xl(1)] .
        show "er_left (node d' c) = er_left (node d c) \<and> er_right (node d' c) = er_right (node d c) \<and> er_parent (node d' c) = er_parent (node d c)"
          if "c \<in> set (t_kids g x)" for c using keep [OF kn kj] that by blast
      qed (use False other [OF xn False xl(2)] in simp_all)
    qed
    show "tails d' (put i j g) x"
    proof (cases "x = i")
      case True
      then show ?thesis using i(2) by (simp add: tails_def)
    next
      case False
      show ?thesis
      proof (cases "t_kids g x = []")
        case True
        then show ?thesis using okD(5) [OF ok xl(1)] False other [OF xn False xl(2)] by (auto simp: tails_def)
      next
        case ne: False
        show ?thesis
        proof (cases "last (t_kids g x) = i")
          case True
          then have "t_more g x = None" using par [OF xl(1)] ne by (metis last_in_set)
          then show ?thesis using False by (simp add: tails_def)
        next
          case li: False
          have "last (t_kids g x) \<noteq> j" "last (t_kids g x) < length (dc_elements d)" using kj kn ne by simp_all
          then show ?thesis using okD(5) [OF ok xl(1)] False ne li bytes [OF _ li] by (simp add: tails_def)
        qed
      qed
    qed
  qed
  have "i \<notin> below g i" using below_irrefl [OF g] .
  then have "budget_ok (put i j g) d'"
    by (intro budget_ok_cong [OF okD(9) [OF ok]])
      (use pending_put [OF live_finite [OF ok] i(1) jl j(2)] data in simp_all)
  moreover have "shape (put i j g)" using shape_put [OF g i] par j by simp
  moreover have "heap_ok d'" using heap_ok_cong [OF data(2,4,5)] okD(7) [OF ok] by simp
  ultimately show ?thesis using node unfolding document_ok_def by blast
qed

lemma touched_parent:
  assumes "shape g" "p \<in> t_live g" "i \<in> set (t_kids g p)"
  shows "touched i g = broken p g"
proof -
  have "(i, p) \<in> child_rel g" using assms(2,3) by (simp add: child_rel_def)
  from anc_parent [OF assms(1) this] anc_acyclic [OF assms(1) this]
  have "(\<lambda>x. t_whole g x \<and> (x = i \<or> x \<notin> anc g i)) = (\<lambda>x. t_whole g x \<and> x \<notin> anc g p)" by (auto simp: fun_eq_iff)
  then show ?thesis by (simp only: touched_def broken_def)
qed

lemma touched_detached: "detached g i \<Longrightarrow> touched i g = g"
  by (simp add: touched_def anc_root)

text \<open>The events that an update in place records, and when it is one.\<close>

definition value_damages :: "element_rep \<Rightarrow> element_rep \<Rightarrow> bson_elem \<Rightarrow> bson_elem \<Rightarrow> damage_event list" where
  "value_damages old new e f =
     (if value_type (snd e) = value_type (snd f) then []
      else [\<lparr>de_targetOffset = er_offset old, de_sourceOffset = er_offset new, de_size = 1\<rparr>]) @
     [\<lparr>de_targetOffset = er_offset old + length (fst e) + 2, de_sourceOffset = er_offset new + length (fst e) + 2,
       de_size = length (encode_value (snd e))\<rparr>]"

lemma BSONType_to_int_inject [simp]: "BSONType_to_int t = BSONType_to_int u \<longleftrightarrow> t = u"
  by (metis BSONType_of_int_to_int option.inject)

lemma plain_bytes:
  assumes ok: "document_ok g d" and i: "i \<in> t_live g" "plain g i"
  obtains k post where "er_objIdx (node d i) = Some k" "getObject (er_objIdx (node d i)) d = Inr (dc_objects d ! k)"
    "getSerializedElement (node d i) d = Inr (encode_elem (item g i) @ post)"
    "getElementOffset (dc_objects d ! k) (encode_elem (item g i) @ post) = Inr (er_offset (node d i))"
    "length (encode_elem (item g i)) < 2 ^ 31" "k < length (dc_objects d)"
    "drop (er_offset (node d i)) (dc_objects d ! k) = encode_elem (item g i) @ post"
proof -
  have "bytes_at d i (encode_elem (item g i))"
    using okD(3) [OF ok i(1)] i(2) by (auto simp: content_def plain_def split: option.splits)
  moreover have "encode_elem (item g i) \<noteq> []" by (simp add: encode_elem_def)
  ultimately obtain k post where k: "er_objIdx (node d i) = Some k" "k < length (dc_objects d)" "4 \<le> er_offset (node d i)"
    "drop (er_offset (node d i)) (dc_objects d ! k) = encode_elem (item g i) @ post"
    "getObject (er_objIdx (node d i)) d = Inr (dc_objects d ! k)"
    "getSerializedElement (node d i) d = Inr (encode_elem (item g i) @ post)" "length (dc_objects d ! k) < 2 ^ 31"
    "int (length (encode_elem (item g i) @ post)) \<le> BSONObjMaxInternalSize" "er_offset (node d i) < length (dc_objects d ! k)"
    using bytes_atE [OF _ okD(7) [OF ok]] by metis
  have "getElementOffset (dc_objects d ! k) (drop (er_offset (node d i)) (dc_objects d ! k)) = Inr (er_offset (node d i))"
    using k by (intro getElementOffset_drop) simp_all
  then show ?thesis using that k max_sizes [OF k(8)] by simp
qed

lemma record_in_place_ok:
  assumes ok: "document_ok g d" and i: "i \<in> t_live g" "plain g i" and j: "j \<in> t_live g" "plain g j"
  shows "record_in_place (node d i) (node d j) d =
    Inr (if length (encode_elem (item g i)) = length (encode_elem (item g j))
         then (True, d\<lparr>dc_damages := dc_damages d @ value_damages (node d i) (node d j) (item g i) (item g j)\<rparr>)
         else (False, d))"
proof -
  have wf: "wf_value (t_val g x)" "nul \<notin> set (t_name g x)" if "x \<in> t_live g" for x
    using okD(3) [OF ok that] by (simp_all add: content_def)
  from plain_bytes [OF ok i] obtain k post where k: "getObject (er_objIdx (node d i)) d = Inr (dc_objects d ! k)"
    "getSerializedElement (node d i) d = Inr (encode_elem (t_name g i, t_val g i) @ post)"
    "getElementOffset (dc_objects d ! k) (encode_elem (t_name g i, t_val g i) @ post) = Inr (er_offset (node d i))"
    "length (encode_elem (t_name g i, t_val g i)) < 2 ^ 31" unfolding item_def by metis
  from plain_bytes [OF ok j] obtain k' post' where k': "getObject (er_objIdx (node d j)) d = Inr (dc_objects d ! k')"
    "getSerializedElement (node d j) d = Inr (encode_elem (t_name g j, t_val g j) @ post')"
    "getElementOffset (dc_objects d ! k') (encode_elem (t_name g j, t_val g j) @ post') = Inr (er_offset (node d j))"
    "length (encode_elem (t_name g j, t_val g j)) < 2 ^ 31" unfolding item_def by metis
  have len: "length (t_name g i) + 1 < 2 ^ 31" using k(4) by (simp add: encode_elem_def)
  have "elem_valuesize (encode_elem (t_name g i, t_val g i) @ post) = Inr (int (length (encode_value (t_val g i))))"
    using elem_size_encoded [OF wf [OF i(1)] k(4)] fieldNameSize_encoded [OF wf(2) [OF i(1)] len]
    by (simp add: elem_valuesize_def) (simp add: encode_elem_def)
  then show ?thesis
    using k k' elem_size_encoded [OF wf [OF i(1)] k(4)] elem_size_encoded [OF wf [OF j(1)] k'(4)]
      fieldNameSize_encoded [OF wf(2) [OF i(1)] len]
    by (simp add: record_in_place_def item_def recordDamageEvent_def value_damages_def Let_def nat_add_distrib)
qed

lemma setValue_ok:
  assumes ok0: "document_ok g0 d0" and i0: "i \<in> t_live g0" "i \<noteq> 0" and j0: "single g0 j" "i \<noteq> j" "t_name g0 j = t_name g0 i"
  shows "\<exists>g d'. visits g0 g \<and> single g j \<and> setValue i (Rep j) d0 = Inr (Status_OK, d') \<and> document_ok (put i j (touched i g)) d'"
proof -
  obtain g d r where s: "visits g0 g" "resolveRightSibling i d0 = Inr (r, d)" "document_ok g d" "t_kids g j = t_kids g0 j" "t_more g j = t_more g0 j"
    "\<And>p. p \<in> t_live g \<Longrightarrow> i \<in> set (t_kids g p) \<Longrightarrow> last (t_kids g p) = i \<Longrightarrow> t_more g p = None"
  proof (cases rule: parent_cases [OF ok0 i0(1)])
    case 1
    then show ?thesis
      using that [OF visits_refl, of _ d0] resolveRightSibling_detached [OF ok0 i0(1) 1(1)] ok0 by (auto simp: detached_def)
  next
    case (2 p)
    then obtain us vs where kids: "t_kids g0 p = us @ i # vs" by (metis split_list)
    from resolveRightSibling_ok [OF ok0 2(1) kids] obtain g d ws where
      r: "resolveRightSibling i d0 = Inr (head_idx ws kInvalidRepIdx, d)" "t_kids g p = us @ i # ws" "document_ok g d" "visits g0 g"
        "ws = [] \<Longrightarrow> t_more g p = None" "\<And>y. y \<in> t_live g0 \<Longrightarrow> y \<noteq> p \<Longrightarrow> t_kids g y = t_kids g0 y \<and> t_more g y = t_more g0 y" by metis
    have p: "p \<in> t_live g" using visits_frame(1) [OF r(4)] 2(1) by blast
    have "p \<noteq> j" using j0(1) kids by (auto simp: single_def)
    then have "t_kids g j = t_kids g0 j" "t_more g j = t_more g0 j" using r(6) [of j] j0(1) by (auto simp: single_def)
    moreover have "t_more g q = None" if q: "q \<in> t_live g" "i \<in> set (t_kids g q)" "last (t_kids g q) = i" for q
    proof -
      have "q = p" using shapeD(2) [OF okD(1) [OF r(3)] q(1) p q(2)] r(2) by simp
      moreover have "distinct (us @ i # ws)" using node_shapeD(2) [OF shapeD(1) [OF okD(1) [OF r(3)] p]] r(2) by simp
      ultimately have "ws = []" using q(3) r(2) by (cases ws rule: rev_cases) auto
      then show ?thesis using r(5) \<open>q = p\<close> by simp
    qed
    ultimately show ?thesis using that [OF r(4,1,3)] by blast
  qed
  have i: "i \<in> t_live g" using visits_frame(1) [OF s(1)] i0(1) by blast
  have j00: "j \<in> t_live g0" "detached g0 j" "j \<noteq> 0" using j0(1) by (simp_all add: single_def)
  have j: "single g j" "t_name g j = t_name g i"
    using visits_frame(1) [OF s(1)] visits_frame(2) [OF s(1) j00(1)] visits_frame(2) [OF s(1) i0(1)]
      visits_detached [OF s(1) j00(1)] j0 s(4,5) by (auto simp: single_def)
  have jl: "j \<in> t_live g" "plain g j" "detached g j" using j(1) by (simp_all add: single_def plain_def)
  have ij: "i < length (dc_elements d)" "j < length (dc_elements d)" using okD(2) [OF s(3)] i jl by simp_all
  note ok = s(3)
  let ?par = "er_parent (node d i)"
  let ?new = "(node d j)\<lparr>er_parent := ?par, er_left := er_left (node d i), er_right := er_right (node d i)\<rparr>"
  have uj: "unlinked (node d j)" using okD(6) [OF ok jl(1,3)] .
  have nr: "(if ?par \<noteq> kInvalidRepIdx then ?new else node d j) = ?new"
  proof (cases rule: parent_cases [OF ok i])
    case 1
    then show ?thesis using uj by (simp add: unlinked_def)
  next
    case (2 p)
    then show ?thesis by simp
  qed
  obtain ip d1 where d1: "(if canUpdateInPlace (BSONType_to_int (value_type (t_val g j))) \<and> dc_inPlace d \<and> rep_hasValue i (node d i) \<and>
        er_objIdx (node d i) \<noteq> Some kLeafObjIdx then record_in_place (node d i) (node d j) d else Inr (False, d)) = Inr (ip, d1)"
    "dc_elements d1 = dc_elements d" "dc_objects d1 = dc_objects d" "dc_fieldNames d1 = dc_fieldNames d" "dc_leafBuf d1 = dc_leafBuf d"
    "dc_leafBuilder d1 = dc_leafBuilder d"
  proof (cases "canUpdateInPlace (BSONType_to_int (value_type (t_val g j))) \<and> dc_inPlace d \<and> rep_hasValue i (node d i) \<and> er_objIdx (node d i) \<noteq> Some kLeafObjIdx")
    case True
    then have "plain g i" using i0(2) okD(3) [OF ok i] by (simp add: plain_def rep_hasValue_def content_def)
    from record_in_place_ok [OF ok i this jl(1,2)] True that show ?thesis by (simp split: if_splits)
  next
    case False
    show ?thesis by (rule that [of False d, OF if_not_P [OF False]]) simp_all
  qed
  let ?d2 = "if \<not> ip then disableInPlaceUpdates d1 else d1"
  let ?d3 = "set_rep j (\<lambda>_. zeroRep) (set_rep i (\<lambda>_. ?new) ?d2)"
  have step: "setValue i (Rep j) d0 = bindE (deserialize ?par ?d3) (\<lambda>d. Inr (Status_OK, d))"
    using i0(2) s(2) ij d1(1) rep_type_ok [OF ok jl(1)] nr
    by (simp add: setValue_def kRootRepIdx_def rep_number_def getElementRep_def Let_def cong: if_cong)
  have data: "length (dc_elements ?d3) = length (dc_elements d)" "dc_objects ?d3 = dc_objects d" "dc_fieldNames ?d3 = dc_fieldNames d"
      "dc_leafBuf ?d3 = dc_leafBuf d" "dc_leafBuilder ?d3 = dc_leafBuilder d" using d1 by simp_all
  have nd: "node ?d3 x = (if x = j then zeroRep else if x = i then ?new else node d x)" for x
    using ij d1(2) by (auto simp: node_set_rep)
  show ?thesis
  proof (cases rule: parent_cases [OF ok i])
    case 1
    have "document_ok (put i j g) ?d3"
      by (rule document_ok_put [OF ok i i0(2) _ j(1) j0(2) j(2) data]) (use 1 nd j0(2) in \<open>auto simp: detached_def\<close>)
    moreover have "deserialize ?par ?d3 = Inr ?d3" using 1 by (simp add: unlinked_def deserialize.simps)
    ultimately show ?thesis
      using step s(1) touched_detached [OF 1(1)] j(1) by (intro exI [of _ g] exI [of _ ?d3]) simp
  next
    case (2 p)
    have ip: "(i, p) \<in> child_rel g" using 2 by (simp add: child_rel_def)
    have pc: "container (t_val g p)" using node_shapeD(5) [OF shapeD(1) [OF okD(1) [OF ok] 2(1)]] 2(2) by (cases "t_kids g p") auto
    have ni: "i \<notin> anc g p" using anc_acyclic [OF okD(1) [OF ok] ip] .
    have pj: "p \<noteq> j" using 2(2) j(1) by (auto simp: single_def)
    have nj: "j \<notin> anc g p" using anc_cases [of j g p] j(1) pj by (auto simp: single_def)
    have up: "upward g p ?d3"
      by (rule upward_cong [OF upward_ok [OF ok 2(1)] data(1)]) (use ni nj in \<open>auto simp: nd\<close>)
    let ?A = "anc g p"
    have ok': "document_ok (broken p g) (mark ?A d)" using document_ok_broken [OF ok 2(1) pc] 2(2) by fastforce
    have j': "single (broken p g) j" using j(1) nj by (simp add: single_def)
    have mk: "node (mark ?A ?d3) x = (if x = j then zeroRep else if x = i then ?new else node (mark ?A d) x)" if "x < length (dc_elements d)" for x
      using that nd [of x] data(1) ni nj by auto
    have "document_ok (put i j (broken p g)) (mark ?A ?d3)"
    proof (rule document_ok_put [OF ok'])
      fix q assume q: "q \<in> t_live (broken p g)" "i \<in> set (t_kids (broken p g) q)"
      then have "q = p" using shapeD(2) [OF okD(1) [OF ok] _ 2(1) _ 2(2)] by simp
      then show "\<not> t_whole (broken p g) q \<and> (last (t_kids (broken p g) q) = i \<longrightarrow> t_more (broken p g) q = None)"
        using s(6) [OF 2(1,2)] by simp
    next
      show "node (mark ?A ?d3) i = (node (mark ?A d) j)\<lparr>er_parent := er_parent (node (mark ?A d) i), er_left := er_left (node (mark ?A d) i),
          er_right := er_right (node (mark ?A d) i)\<rparr>"
        using mk [OF ij(1)] j0(2) ij ni nj by simp
      show "node (mark ?A ?d3) x = node (mark ?A d) x" if "x < length (dc_elements (mark ?A d))" "x \<noteq> i" "x \<noteq> j" for x
        using mk [of x] that by simp
    qed (use i i0(2) j0(2) j j' data in simp_all)
    moreover have "deserialize ?par ?d3 = Inr (mark ?A ?d3)"
      using deserialize_mark [OF okD(1) [OF ok] live_finite [OF ok] up] 2(3) by simp
    ultimately show ?thesis
      using step s(1) touched_parent [OF okD(1) [OF ok] 2(1,2)] j(1) by (intro exI [of _ g] exI [of _ "mark ?A ?d3"]) simp
  qed
qed

end
