(* ===== verification/Mutable_Refine.thy ===== *)
theory Mutable_Refine
  imports Mutable_Set
begin

text \<open>
  What the operations do to the values that a document denotes: they edit the value at the end of a path. The
  specification is on BSON values alone; whether elements have been visited, and where their bytes are, does not matter.
\<close>

subsection \<open>Editing a value at a path\<close>

definition with_elems :: "bson_value \<Rightarrow> bson_elem list \<Rightarrow> bson_value" where
  "with_elems v es = (if value_type v = Array then VArray (number 0 (map snd es)) else VObject es)"

fun update_at :: "nat list \<Rightarrow> (bson_value \<Rightarrow> bson_value) \<Rightarrow> bson_value \<Rightarrow> bson_value" where
  "update_at [] f v = f v"
| "update_at (k # ks) f v =
     with_elems v ((sub_elems v)[k := (fst (sub_elems v ! k), update_at ks f (snd (sub_elems v ! k)))])"

fun path :: "tree \<Rightarrow> nat list \<Rightarrow> nat \<Rightarrow> nat \<Rightarrow> bool" where
  "path g [] q p \<longleftrightarrow> q = p"
| "path g (k # ks) q p \<longleftrightarrow> k < length (t_kids g q) \<and> path g ks (t_kids g q ! k) p"

lemma map_snd_number [simp]: "map snd (number k vs) = vs"
  by (induction vs arbitrary: k) simp_all

lemma value_type_with [simp]: "value_type (with_elems v es) = (if value_type v = Array then Array else Object)"
  by (simp add: with_elems_def)

lemma visits_path: "visits g g' \<Longrightarrow> shape g \<Longrightarrow> q \<in> t_live g \<Longrightarrow> path g ks q p \<Longrightarrow> path g' ks q p"
proof (induction ks arbitrary: q)
  case (Cons k ks)
  obtain new where new: "t_kids g' q = t_kids g q @ new" using visits_frame(3) [OF Cons.prems(1,3)] by blast
  have "t_kids g q ! k \<in> t_live g" using node_shapeD(1) [OF shapeD(1) [OF Cons.prems(2,3)]] Cons.prems(4) by auto
  then show ?case using Cons new by (simp add: nth_append)
qed simp

lemma path_anc: "shape g \<Longrightarrow> q \<in> t_live g \<Longrightarrow> path g ks q p \<Longrightarrow> q \<in> anc g p \<and> p \<in> t_live g"
proof (induction ks arbitrary: q)
  case (Cons k ks)
  let ?c = "t_kids g q ! k"
  have c: "?c \<in> set (t_kids g q)" using Cons.prems(3) by simp
  then have "?c \<in> t_live g" using node_shapeD(1) [OF shapeD(1) [OF Cons.prems(1,2)]] by blast
  with Cons have "?c \<in> anc g p \<and> p \<in> t_live g" by simp
  moreover have "(?c, q) \<in> child_rel g" using c Cons.prems(2) by (simp add: child_rel_def)
  ultimately show ?case using anc_step by blast
qed simp

subsection \<open>The children of what a node denotes\<close>

lemma children_plain:
  assumes g: "shape g" and q: "q \<in> t_live g" "plain g q"
  shows "children g q (sub_elems (t_val g q))"
proof -
  note nq = shapeD(1) [OF g q(1)]
  have "t_whole g q" using q(2) by (simp add: plain_def)
  note whole = node_shapeD(7) [OF nq this] node_shapeD(8) [OF nq this]
  have "denotes g c (t_val g c)" if "c \<in> set (t_kids g q)" for c
  proof -
    have "c \<noteq> 0" using shapeD(5) [OF g] q(1) that by (metis detached_def)
    then show ?thesis using whole(2) [OF that] by (intro denotes_whole) (simp add: plain_def)
  qed
  then have "list_all2 (denotes g) (t_kids g q) (map (t_val g) (t_kids g q))"
    by (simp add: list_all2_conv_all_nth)
  moreover have "map (item g) (t_kids g q) = zip (map (t_name g) (t_kids g q)) (map (t_val g) (t_kids g q))"
    by (simp add: zip_map_map item_def zip_same_conv_map)
  ultimately show ?thesis using whole(1) by (auto simp: children_def)
qed

lemma denotes_children:
  assumes g: "shape g" and q: "q \<in> t_live g" "denotes g q V" "container (t_val g q)"
  obtains es where "children g q es" "map snd es = map snd (sub_elems V)" "value_type V = Object \<longrightarrow> es = sub_elems V"
    "value_type V = value_type (t_val g q)"
  using q(2) g q(1)
proof (cases rule: denotes_cases)
  case 1
  show ?thesis by (rule that [OF children_plain [OF g q(1) 1(1)]]) (simp_all add: 1(2))
next
  case (2 es)
  show ?thesis by (rule that [OF 2(3)]) (simp_all add: 2 sub_elems_def)
next
  case (3 es)
  show ?thesis by (rule that [OF 3(3)]) (simp_all add: 3 sub_elems_def)
qed

lemma children_denotes:
  assumes "\<not> plain g q" "container (t_val g q)" "children g q es" "value_type V = value_type (t_val g q)"
  shows "denotes g q (with_elems V es)"
  using assms children_object [OF assms(1) _ assms(3)] children_array [OF assms(1) _ assms(3)]
  by (auto simp: with_elems_def container_def)

text \<open>
  A change below \<open>p\<close>: the nodes outside of the way from \<open>p\<close> up denote what they did, the nodes on the way
  keep their children, but are no longer whole.
\<close>

text \<open>The cost of a document: how long its names are, how many reps it needs and how large its heap of leaves is.\<close>

fun short_value :: "nat \<Rightarrow> bson_value \<Rightarrow> bool" and short_names :: "nat \<Rightarrow> bson_elem list \<Rightarrow> bool" where
  "short_value n (VObject es) = short_names n es"
| "short_value n (VArray es) = short_names n es"
| "short_value n v = True"
| "short_names n [] = True"
| "short_names n ((m, v) # es) = (length m \<le> n \<and> short_value n v \<and> short_names n es)"

lemma short_names_sub: "short_names n (sub_elems v) = short_value n v"
  by (cases v) (simp_all add: sub_elems_def)

definition within :: "nat \<Rightarrow> nat \<Rightarrow> nat \<Rightarrow> tree \<Rightarrow> bool" where
  "within n reps heap g \<longleftrightarrow>
     (\<forall>i \<in> t_live g. length (t_name g i) \<le> n \<and> short_names n (rest_of g i)) \<and> t_reps g \<le> reps \<and> t_heap g \<le> heap"

lemma within_visits: "visits g g' \<Longrightarrow> within n reps heap g \<Longrightarrow> within n reps heap g'"
proof (induction rule: visits.induct)
  case (visits_found g' i c e r)
  obtain m v where e: "e = (m, v)" by fastforce
  have ic: "i \<noteq> c" using visits_found.hyps by auto
  have w: "within n reps heap g'" using visits_found by simp
  then have "short_names n (e # r)" using visits_found.hyps by (force simp: within_def rest_of_def)
  then show ?case using w visits_found.hyps found_simps [OF visits_found.hyps(4) [unfolded e] ic] by (simp add: within_def e short_names_sub)
next
  case (visits_closed g' i)
  then show ?case by (simp add: within_def rest_of_closed)
qed

lemma within_fresh:
  "within n reps heap g \<Longrightarrow> length (fst e) \<le> n \<Longrightarrow> short_value n (snd e) \<Longrightarrow>
   within n (reps + Suc (if w then weight (snd e) else 0)) (heap + (if w then length (encode_elem e) else 0)) (fresh c e w g)"
  by (auto simp: within_def short_names_sub)

definition edits :: "tree \<Rightarrow> nat \<Rightarrow> tree \<Rightarrow> bool" where
  "edits g p g' \<longleftrightarrow>
     (\<forall>x v. x \<in> t_live g' \<and> x \<notin> anc g p \<longrightarrow> denotes g x v \<longrightarrow> denotes g' x v) \<and>
     (\<forall>q \<in> anc g p. q \<noteq> p \<longrightarrow> q \<in> t_live g' \<and> \<not> plain g' q \<and> t_kids g' q = t_kids g q \<and> set (t_kids g q) \<subseteq> t_live g' \<and>
        rest_of g' q = rest_of g q \<and> value_type (t_val g' q) = value_type (t_val g q) \<and>
        (\<forall>c \<in> set (t_kids g q). t_name g' c = t_name g c)) \<and>
     (\<forall>n reps heap. within n reps heap g \<longrightarrow> within n reps heap g')"

lemma anc_one_kid:
  assumes g: "shape g" and q: "q \<in> t_live g" and x: "x \<in> set (t_kids g q)" "x \<in> anc g p" and y: "y \<in> set (t_kids g q)" "y \<in> anc g p"
  shows "x = y"
proof (rule ccontr)
  assume "x \<noteq> y"
  have up: "(z, w) \<in> (child_rel g)\<^sup>* \<Longrightarrow> z \<in> set (t_kids g q) \<Longrightarrow> w \<in> set (t_kids g q) \<Longrightarrow> z = w" for z w
  proof (rule ccontr)
    assume zw: "(z, w) \<in> (child_rel g)\<^sup>*" "z \<in> set (t_kids g q)" "w \<in> set (t_kids g q)" "z \<noteq> w"
    have rel: "(z, q) \<in> child_rel g" "(w, q) \<in> child_rel g" using zw q by (simp_all add: child_rel_def)
    have "w \<in> anc g z" using zw(1) by (simp add: anc_def)
    then have "w \<in> anc g q" using anc_parent [OF g rel(1)] zw(4) by simp
    then show False using anc_acyclic [OF g rel(2)] by blast
  qed
  have "single_valued (child_rel g)" using shapeD(2) [OF g] by (auto simp: single_valued_def child_rel_def)
  moreover have "(p, x) \<in> (child_rel g)\<^sup>*" "(p, y) \<in> (child_rel g)\<^sup>*" using x y by (simp_all add: anc_def)
  ultimately have "(x, y) \<in> (child_rel g)\<^sup>* \<or> (y, x) \<in> (child_rel g)\<^sup>*" by (rule single_valued_confluent)
  then show False using up [of x y] up [of y x] x(1) y(1) \<open>x \<noteq> y\<close> by blast
qed

lemma update_denotes:
  assumes g: "shape g" and ed: "edits g p g'" and p: "denotes g p V" "denotes g' p (f V)"
  shows "q \<in> t_live g \<Longrightarrow> path g ks q p \<Longrightarrow> denotes g q W \<Longrightarrow> denotes g' q (update_at ks f W)"
proof (induction ks arbitrary: q W)
  case Nil
  then have "W = V" using p(1) denotes_fun by auto
  then show ?case using Nil p(2) by simp
next
  case (Cons k ks)
  have k: "k < length (t_kids g q)" and pk: "path g ks (t_kids g q ! k) p" using Cons.prems(2) by simp_all
  let ?c = "t_kids g q ! k"
  have c: "?c \<in> set (t_kids g q)" using k by simp
  have cl: "?c \<in> t_live g" using node_shapeD(1) [OF shapeD(1) [OF g Cons.prems(1)]] c by blast
  have cq: "(?c, q) \<in> child_rel g" using c Cons.prems(1) by (simp add: child_rel_def)
  have ca: "?c \<in> anc g p" using path_anc [OF g cl pk] by blast
  then have qa: "q \<in> anc g p" using anc_step [OF _ cq] by blast
  have qp: "q \<noteq> p"
  proof
    assume "q = p"
    then show False using anc_acyclic [OF g cq] ca by simp
  qed
  have q': "q \<in> t_live g'" "\<not> plain g' q" "t_kids g' q = t_kids g q" "set (t_kids g q) \<subseteq> t_live g'" "rest_of g' q = rest_of g q"
    "value_type (t_val g' q) = value_type (t_val g q)" "\<forall>x \<in> set (t_kids g q). t_name g' x = t_name g x"
    using ed qa qp by (auto simp: edits_def)
  have co: "container (t_val g q)" using node_shapeD(5) [OF shapeD(1) [OF g Cons.prems(1)]] k by (cases "t_kids g q") auto
  from denotes_children [OF g Cons.prems(1,3) co] obtain es where
    es: "children g q es" "map snd es = map snd (sub_elems W)" "value_type W = Object \<longrightarrow> es = sub_elems W" "value_type W = value_type (t_val g q)" .
  from es(1) obtain vs where vs: "list_all2 (denotes g) (t_kids g q) vs" "es = zip (map (t_name g) (t_kids g q)) vs @ rest_of g q"
    by (auto simp: children_def)
  have len: "length vs = length (t_kids g q)" using list_all2_lengthD [OF vs(1)] by simp
  have ck: "denotes g ?c (vs ! k)" using vs(1) k by (simp add: list_all2_conv_all_nth)
  let ?w = "update_at ks f (vs ! k)"
  have new: "denotes g' ?c ?w" using Cons.IH [OF cl pk ck] .
  have dist: "distinct (t_kids g q)" using node_shapeD(2) [OF shapeD(1) [OF g Cons.prems(1)]] .
  have other: "denotes g' (t_kids g q ! n) (vs ! n)" if n: "n < length (t_kids g q)" "n \<noteq> k" for n
  proof -
    let ?x = "t_kids g q ! n"
    have x: "?x \<in> set (t_kids g q)" "?x \<noteq> ?c" using n k dist by (simp_all add: nth_eq_iff_index_eq)
    have "?x \<notin> anc g p" using anc_one_kid [OF g Cons.prems(1) x(1) _ c ca] x(2) by blast
    moreover have "denotes g ?x (vs ! n)" using vs(1) n by (simp add: list_all2_conv_all_nth)
    moreover have "?x \<in> t_live g'" using q'(4) x(1) by blast
    ultimately show ?thesis using ed by (auto simp: edits_def)
  qed
  have "list_all2 (denotes g') (t_kids g' q) (vs[k := ?w])"
    using new other len q'(3) k by (auto simp: list_all2_conv_all_nth nth_list_update)
  moreover have "map (t_name g') (t_kids g q) = map (t_name g) (t_kids g q)" using q'(7) by simp
  moreover have "zip (map (t_name g) (t_kids g q)) (vs[k := ?w]) @ rest_of g q = es[k := (t_name g ?c, ?w)]"
  proof -
    have "(map (t_name g) (t_kids g q))[k := t_name g ?c] = map (t_name g) (t_kids g q)" using k by (metis list_update_id nth_map)
    then show ?thesis using vs(2) k len by (simp add: list_update_append zip_update [symmetric])
  qed
  ultimately have ch: "children g' q (es[k := (t_name g ?c, ?w)])"
    unfolding children_def q'(3,5) by (intro exI [of _ "vs[k := ?w]"]) (simp del: map_eq_conv)
  have ek: "es ! k = (t_name g ?c, vs ! k)" "k < length es" using vs(2) k len by (simp_all add: nth_append)
  have sk: "snd (sub_elems W ! k) = vs ! k"
    using ek arg_cong [OF es(2), of "\<lambda>xs. xs ! k"] arg_cong [OF es(2), of length] by simp
  have "denotes g' q (with_elems W (es[k := (t_name g ?c, ?w)]))"
    using children_denotes [OF q'(2) _ ch] q'(6) es(4) co by (simp add: container_def)
  moreover have "with_elems W (es[k := (t_name g ?c, ?w)]) = update_at (k # ks) f W"
  proof (cases "value_type W = Array")
    case True
    have "map snd (es[k := (t_name g ?c, ?w)]) = (map snd (sub_elems W))[k := ?w]" by (simp add: map_update es(2))
    then show ?thesis using True sk by (simp add: with_elems_def map_update)
  next
    case False
    then have "es = sub_elems W" using es(3,4) co by (auto simp: container_def)
    then show ?thesis using False ek sk by (simp add: with_elems_def)
  qed
  ultimately show ?case by simp
qed

subsection \<open>Adding and removing edit the children\<close>

lemma denotes_frame:
  assumes "denotes g x v" "x \<in> S"
    and same: "\<And>x. x \<in> S \<Longrightarrow> t_kids g' x = t_kids g x \<and> rest_of g' x = rest_of g x \<and> t_val g' x = t_val g x \<and> plain g' x = plain g x"
      "\<And>x c. x \<in> S \<Longrightarrow> c \<in> set (t_kids g x) \<Longrightarrow> c \<in> S \<and> t_name g' c = t_name g c"
  shows "denotes g' x v"
  using assms(1,2)
proof (induction rule: denotes.induct)
  have kids: "list_all2 (denotes g') (t_kids g' x) vs" "map (t_name g') (t_kids g' x) = map (t_name g) (t_kids g x)"
    if "list_all2 (\<lambda>x y. denotes g x y \<and> (x \<in> S \<longrightarrow> denotes g' x y)) (t_kids g x) vs" "x \<in> S" for x vs
    using that same(1) [OF that(2)] same(2) [OF that(2)] by (auto elim!: list.rel_mono_strong)
  {
    case (denotes_whole x)
    then show ?case using denotes.denotes_whole [of g' x] same(1) [of x] by simp
  next
    case (denotes_object x vs)
    have "denotes g' x (VObject (zip (map (t_name g') (t_kids g' x)) vs @ rest_of g' x))"
      by (rule denotes.denotes_object [OF _ _ kids(1) [OF denotes_object(3,4)]]) (use denotes_object same(1) [of x] in simp_all)
    then show ?case unfolding kids(2) [OF denotes_object(3,4)] using same(1) [OF denotes_object(4)] by simp
  next
    case (denotes_array x vs)
    have "denotes g' x (VArray (number 0 (vs @ map snd (rest_of g' x))))"
      by (rule denotes.denotes_array [OF _ _ kids(1) [OF denotes_array(3,4)]]) (use denotes_array same(1) [of x] in simp_all)
    then show ?case using same(1) [OF denotes_array(4)] by simp
  }
qed

lemma denotes_attach:
  assumes "denotes g x v" "shape g" "p \<in> t_live g" "x \<in> t_live g" "x \<notin> anc g p"
  shows "denotes (attach p ks (broken p g)) x v"
proof (rule denotes_frame [OF assms(1), of "t_live g - anc g p"])
  fix y assume y: "y \<in> t_live g - anc g p"
  then have "y \<noteq> p" by auto
  with y show "t_kids (attach p ks (broken p g)) y = t_kids g y \<and> rest_of (attach p ks (broken p g)) y = rest_of g y \<and>
      t_val (attach p ks (broken p g)) y = t_val g y \<and> plain (attach p ks (broken p g)) y = plain g y" by (simp add: plain_def)
  fix c assume c: "c \<in> set (t_kids g y)"
  show "c \<in> t_live g - anc g p \<and> t_name (attach p ks (broken p g)) c = t_name g c"
    using anc_step [of c g p y] node_shapeD(1) [OF shapeD(1) [OF assms(2), of y]] y c by (auto simp: child_rel_def)
qed (use assms in simp)

lemma denotes_fresh:
  assumes "denotes g x v" "shape g" "c \<notin> t_live g" "x \<in> t_live g"
  shows "denotes (fresh c e w g) x v"
proof (rule denotes_frame [OF assms(1,4)])
  fix y assume y: "y \<in> t_live g"
  then have "y \<noteq> c" using assms(3) by blast
  then show "t_kids (fresh c e w g) y = t_kids g y \<and> rest_of (fresh c e w g) y = rest_of g y \<and> t_val (fresh c e w g) y = t_val g y \<and>
      plain (fresh c e w g) y = plain g y" by (simp add: plain_def)
  fix z assume "z \<in> set (t_kids g y)"
  then have "z \<in> t_live g" using node_shapeD(1) [OF shapeD(1) [OF assms(2) y]] by blast
  then show "z \<in> t_live g \<and> t_name (fresh c e w g) z = t_name g z" using assms(3) by auto
qed

lemma edits_attach:
  assumes "shape g" "p \<in> t_live g"
  shows "edits g p (attach p ks (broken p g))"
proof -
  have "q \<in> t_live g \<and> set (t_kids g q) \<subseteq> t_live g" if "q \<in> anc g p" for q
    using anc_cases [OF that] assms node_shapeD(1) [OF shapeD(1) [OF assms(1)]] by blast
  then show ?thesis using denotes_attach [OF _ assms] by (auto simp: edits_def plain_def within_def)
qed

lemma attach_denotes:
  assumes "shape g" "p \<in> t_live g" "container (t_val g p)" "set ks \<subseteq> t_live g - anc g p" "list_all2 (denotes g) ks vs"
    "value_type V = value_type (t_val g p)"
  shows "denotes (attach p ks (broken p g)) p (with_elems V (zip (map (t_name g) ks) vs @ rest_of g p))"
proof (rule children_denotes)
  show "children (attach p ks (broken p g)) p (zip (map (t_name g) ks) vs @ rest_of g p)"
    using assms(4,5) denotes_attach [OF _ assms(1,2)] by (auto simp: children_def intro!: exI [of _ vs] elim!: list.rel_mono_strong)
qed (use assms in \<open>simp_all add: plain_def\<close>)

lemma kids_not_anc:
  assumes "shape g" "p \<in> t_live g"
  shows "set (t_kids g p) \<subseteq> t_live g - anc g p"
  using node_shapeD(1) [OF shapeD(1) [OF assms]] anc_acyclic [OF assms(1)] assms(2) by (auto simp: child_rel_def)

definition insert_field :: "nat \<Rightarrow> bson_elem \<Rightarrow> bson_value \<Rightarrow> bson_value" where
  "insert_field k e v = with_elems v (take k (sub_elems v) @ e # drop k (sub_elems v))"

definition delete_field :: "nat \<Rightarrow> bson_value \<Rightarrow> bson_value" where
  "delete_field k v = with_elems v (take k (sub_elems v) @ drop (Suc k) (sub_elems v))"

lemma with_elems_cong:
  "(value_type v = Array \<longrightarrow> map snd es = map snd fs) \<Longrightarrow> (value_type v \<noteq> Array \<longrightarrow> es = fs) \<Longrightarrow> with_elems v es = with_elems v fs"
  by (simp add: with_elems_def)

text \<open>The children of a node as a list, in terms of what the node denotes.\<close>

lemma container_elems:
  assumes g: "shape g" and p: "p \<in> t_live g" "container (t_val g p)" "denotes g p V"
  obtains vs es where "list_all2 (denotes g) (t_kids g p) vs" "length vs = length (t_kids g p)" "value_type V = value_type (t_val g p)"
    "es = zip (map (t_name g) (t_kids g p)) vs @ rest_of g p" "map snd es = map snd (sub_elems V)" "value_type V \<noteq> Array \<longrightarrow> es = sub_elems V"
proof -
  from denotes_children [OF g p(1,3,2)] obtain es where
    es: "children g p es" "map snd es = map snd (sub_elems V)" "value_type V = Object \<longrightarrow> es = sub_elems V" "value_type V = value_type (t_val g p)" .
  then obtain vs where vs: "list_all2 (denotes g) (t_kids g p) vs" "es = zip (map (t_name g) (t_kids g p)) vs @ rest_of g p"
    by (auto simp: children_def)
  show ?thesis
    by (rule that [OF vs(1) _ es(4) vs(2) es(2)]) (use list_all2_lengthD [OF vs(1)] es(3,4) p(2) in \<open>auto simp: container_def\<close>)
qed

text \<open>Any place among the children that have been visited will do, and the end when all have been.\<close>

lemma insert_denotes:
  assumes g: "shape g" and p: "p \<in> t_live g" "container (t_val g p)" "denotes g p V"
    and j: "j \<in> t_live g" "j \<notin> anc g p" "denotes g j w" and kids: "t_kids g p = us @ vs" "vs = [] \<longrightarrow> t_more g p = None"
  shows "denotes (attach p (us @ j # vs) (broken p g)) p (insert_field (length us) (t_name g j, w) V)"
    "vs = [] \<Longrightarrow> length us = length (sub_elems V)"
proof -
  from container_elems [OF g p] obtain ws es where
    c: "list_all2 (denotes g) (t_kids g p) ws" "length ws = length (t_kids g p)" "value_type V = value_type (t_val g p)"
      "es = zip (map (t_name g) (t_kids g p)) ws @ rest_of g p" "map snd es = map snd (sub_elems V)" "value_type V \<noteq> Array \<longrightarrow> es = sub_elems V" .
  let ?k = "length us" and ?ws = "take (length us) ws @ w # drop (length us) ws"
  have l: "list_all2 (denotes g) (us @ j # vs) ?ws"
    using list_all2_takeI [OF c(1), of ?k] list_all2_dropI [OF c(1), of ?k] j(3) kids by (simp add: list_all2_appendI)
  have sub: "set (us @ j # vs) \<subseteq> t_live g - anc g p" using kids_not_anc [OF g p(1)] j kids by auto
  have "zip (map (t_name g) (us @ j # vs)) ?ws @ rest_of g p = take ?k es @ (t_name g j, w) # drop ?k es"
    using c(2,4) kids by (auto simp: take_zip drop_zip take_map drop_map rest_of_def)
  with attach_denotes [OF g p(1,2) sub l c(3)]
  have "denotes (attach p (us @ j # vs) (broken p g)) p (with_elems V (take ?k es @ (t_name g j, w) # drop ?k es))" by simp
  moreover have "with_elems V (take ?k es @ (t_name g j, w) # drop ?k es) = insert_field ?k (t_name g j, w) V"
    unfolding insert_field_def by (rule with_elems_cong) (use c(5,6) in \<open>simp_all add: take_map [symmetric] drop_map [symmetric]\<close>)
  ultimately show "denotes (attach p (us @ j # vs) (broken p g)) p (insert_field (length us) (t_name g j, w) V)" by simp
  show "length us = length (sub_elems V)" if "vs = []"
    using that kids c(2,4) arg_cong [OF c(5), of length] by (simp add: rest_of_def)
qed

lemma delete_denotes:
  assumes g: "shape g" and p: "p \<in> t_live g" "denotes g p V" and kids: "t_kids g p = us @ i # vs"
  shows "denotes (attach p (us @ vs) (broken p g)) p (delete_field (length us) V)"
    "t_more g p = None \<Longrightarrow> length (t_kids g p) = length (sub_elems V)"
proof -
  have pc: "container (t_val g p)" using node_shapeD(5) [OF shapeD(1) [OF g p(1)]] kids by auto
  from container_elems [OF g p(1) pc p(2)] obtain ws es where
    c: "list_all2 (denotes g) (t_kids g p) ws" "length ws = length (t_kids g p)" "value_type V = value_type (t_val g p)"
      "es = zip (map (t_name g) (t_kids g p)) ws @ rest_of g p" "map snd es = map snd (sub_elems V)" "value_type V \<noteq> Array \<longrightarrow> es = sub_elems V" .
  let ?k = "length us" and ?ws = "take (length us) ws @ drop (Suc (length us)) ws"
  have l: "list_all2 (denotes g) (us @ vs) ?ws"
    using list_all2_takeI [OF c(1), of ?k] list_all2_dropI [OF c(1), of "Suc ?k"] kids by (simp add: list_all2_appendI)
  have sub: "set (us @ vs) \<subseteq> t_live g - anc g p" using kids_not_anc [OF g p(1)] kids by auto
  have "zip (map (t_name g) (us @ vs)) ?ws @ rest_of g p = take ?k es @ drop (Suc ?k) es"
    using c(2,4) kids by (auto simp: take_zip drop_zip take_map drop_map)
  with attach_denotes [OF g p(1) pc sub l c(3)]
  have "denotes (attach p (us @ vs) (broken p g)) p (with_elems V (take ?k es @ drop (Suc ?k) es))" by simp
  moreover have "with_elems V (take ?k es @ drop (Suc ?k) es) = delete_field ?k V"
    unfolding delete_field_def by (rule with_elems_cong) (use c(5,6) in \<open>simp_all add: take_map [symmetric] drop_map [symmetric]\<close>)
  ultimately show "denotes (attach p (us @ vs) (broken p g)) p (delete_field (length us) V)" by simp
  show "length (t_kids g p) = length (sub_elems V)" if "t_more g p = None"
    using that c(2,4) arg_cong [OF c(5), of length] by (simp add: rest_of_def)
qed

subsection \<open>Changing a value\<close>

text \<open>The setter that gives an element a given value.\<close>

fun set_value :: "bson_value \<Rightarrow> rep_idx \<Rightarrow> document \<Rightarrow> (status \<times> document) result" where
  "set_value (VDouble x) = setValueDouble x"
| "set_value (VString s) = setValueString s"
| "set_value (VObject es) = setValueObject (encode es)"
| "set_value (VArray es) = setValueArray (encode es)"
| "set_value (VBinData t bs) = setValueBinary (of_nat (length bs)) t bs"
| "set_value VUndefined = setValueUndefined"
| "set_value (VOID bs) = setValueOID bs"
| "set_value (VBool x) = setValueBool x"
| "set_value (VDate x) = setValueDate x"
| "set_value VNull = setValueNull"
| "set_value (VRegEx r f) = setValueRegex r f"
| "set_value (VDBRef ns bs) = setValueDBRef ns bs"
| "set_value (VCode s) = setValueCode s"
| "set_value (VSymbol s) = setValueSymbol s"
| "set_value (VCodeWScope c es) = setValueCodeWithScope c (encode es)"
| "set_value (VInt x) = setValueInt x"
| "set_value (VTimestamp x) = setValueTimestamp x"
| "set_value (VLong x) = setValueLong x"
| "set_value VMinKey = setValueMinKey"
| "set_value VMaxKey = setValueMaxKey"

lemma set_value_eq: "\<exists>copy. set_value v = set_value_with copy (\<lambda>n. make_value n v)"
proof -
  have "set_value v = set_value_with False (\<lambda>n. make_value n v) \<or> set_value v = set_value_with True (\<lambda>n. make_value n v)"
    by (cases v) (simp_all add: setValueDouble_def setValueString_def setValueObject_def setValueArray_def setValueBinary_def
        setValueUndefined_def setValueOID_def setValueBool_def setValueDate_def setValueNull_def setValueRegex_def setValueDBRef_def
        setValueCode_def setValueSymbol_def setValueCodeWithScope_def setValueInt_def setValueTimestamp_def setValueLong_def
        setValueMinKey_def setValueMaxKey_def)
  then show ?thesis by blast
qed

lemma set_value_ok:
  assumes ok: "document_ok g d" and i: "i \<in> t_live g" "i \<noteq> 0" and v: "wf_value v" "room_for (t_name g i, v) g"
  defines "c \<equiv> length (dc_elements d)"
  shows "\<exists>h d'. visits (fresh c (t_name g i, v) True g) h \<and> single h c \<and> set_value v (Rep i) d = Inr (Status_OK, d') \<and>
    document_ok (put i c (touched i h)) d'"
proof -
  let ?f = "fresh c (t_name g i, v) True g"
  have len: "i < length (dc_elements d)" using okD(2) [OF ok i(1)] .
  have nul: "nul \<notin> set (t_name g i)" using okD(3) [OF ok i(1)] by (simp add: content_def)
  from make_value_ok [OF ok v(1) nul v(2)] obtain d1 where
    m: "make_value (t_name g i) v d = Inr (Rep c, d1)" "document_ok ?f d1" by (auto simp: c_def)
  have cn: "c \<notin> t_live g" using okD(2) [OF ok] by (auto simp: c_def)
  have "detached ?f c"
    using cn node_shapeD(1) [OF shapeD(1) [OF okD(1) [OF ok]]] by (auto simp: detached_def)
  then have "single ?f c" using len by (auto simp: single_def c_def)
  from setValue_ok [OF m(2) _ i(2) this] i(1) len obtain h d' where
    s: "visits ?f h" "single h c" "setValue i (Rep c) d1 = Inr (Status_OK, d')" "document_ok (put i c (touched i h)) d'"
    by (auto simp: c_def)
  obtain copy where "set_value v = set_value_with copy (\<lambda>n. make_value n v)" using set_value_eq by blast
  moreover have "rep_fieldName (\<not> copy \<and> i = kRootRepIdx) (node d i) d = Inr (t_name g i)"
    using rep_fieldName_ok [OF ok i(1)] i(2) by (simp add: kRootRepIdx_def)
  ultimately show ?thesis
    using m(1) s len by (auto simp: set_value_with_def verify_ok_def getElementRep_def)
qed

lemma touched_simps [simp]:
  "t_live (touched i g) = t_live g" "t_kids (touched i g) = t_kids g" "t_more (touched i g) = t_more g" "t_name (touched i g) = t_name g"
  "t_val (touched i g) = t_val g" "t_reps (touched i g) = t_reps g" "t_heap (touched i g) = t_heap g" "below (touched i g) = below g" "rest_of (touched i g) = rest_of g"
  "t_whole (touched i g) x \<longleftrightarrow> t_whole g x \<and> (x = i \<or> x \<notin> anc g i)"
  by (simp_all add: touched_def below_def child_rel_def rest_of_def fun_eq_iff)

lemma denotes_put:
  assumes "denotes g x v" "shape g" "single g j" "i \<in> t_live g" "x \<in> t_live (put i j (touched i g))" "x \<notin> anc g i"
  shows "denotes (put i j (touched i g)) x v"
proof (rule denotes_frame [OF assms(1), of "t_live (put i j g) - anc g i"])
  fix y assume y: "y \<in> t_live (put i j g) - anc g i"
  then have yi: "y \<noteq> i" by auto
  with y show "t_kids (put i j (touched i g)) y = t_kids g y \<and> rest_of (put i j (touched i g)) y = rest_of g y \<and>
      t_val (put i j (touched i g)) y = t_val g y \<and> plain (put i j (touched i g)) y = plain g y" by (simp add: plain_def)
  fix c assume c: "c \<in> set (t_kids g y)"
  show "c \<in> t_live (put i j g) - anc g i \<and> t_name (put i j (touched i g)) c = t_name g c"
    using kids_put [OF assms(2,3) _ yi c] anc_step [of c g i y] y c by (auto simp: child_rel_def)
qed (use assms in simp)

lemma below_anc: "shape g \<Longrightarrow> q \<in> anc g i \<Longrightarrow> q \<notin> below g i"
  using shapeD(3) [of g] by (auto simp: below_def anc_def acyclic_def dest: rtrancl_trancl_trancl)

lemma edits_put:
  assumes g: "shape g" and j: "single g j" and i: "i \<in> t_live g" "i \<noteq> j" "i \<noteq> 0"
  shows "edits g i (put i j (touched i g))" "denotes (put i j (touched i g)) i (t_val g j)"
proof -
  let ?t = "touched i g"
  show "denotes (put i j ?t) i (t_val g j)"
    using denotes_whole [of "put i j ?t" i] i(3) by (simp add: plain_def)
  have "q \<in> t_live (put i j g) \<and> set (t_kids g q) \<subseteq> t_live (put i j g) \<and> \<not> plain (put i j ?t) q" if q: "q \<in> anc g i" "q \<noteq> i" for q
  proof -
    have ql: "q \<in> t_live g" "t_kids g q \<noteq> []" using anc_cases [OF q(1)] q(2) by auto
    then have "q \<noteq> j" using j by (auto simp: single_def)
    then have qp: "q \<in> t_live (put i j g)" using below_anc [OF g q(1)] ql by simp
    moreover have "set (t_kids g q) \<subseteq> t_live (put i j g)" using kids_put [OF g j qp q(2)] by blast
    moreover have "\<not> plain (put i j ?t) q" using q by (simp add: plain_def)
    ultimately show ?thesis by blast
  qed
  moreover have "within n reps heap (put i j ?t)" if "within n reps heap g" for n reps heap
    using that j by (auto simp: within_def single_def)
  ultimately show "edits g i (put i j ?t)"
    using denotes_put [OF _ g j i(1)] by (auto simp: edits_def)
qed

end
