(* ===== verification/Mutable_Walk.thy ===== *)
theory Mutable_Walk
  imports Mutable_Algorithm Mutable_Refine
begin

text \<open>Finding elements by position and by name: what the searches return, and that they end.\<close>

subsection \<open>Children by position\<close>

lemma children_length: "children g p es \<Longrightarrow> length es = length (t_kids g p) + length (rest_of g p)"
  by (auto simp: children_def list_all2_lengthD)

lemma getNthRightSibling_ok:
  assumes "document_ok g d" "p \<in> t_live g" "children g p es" "m < length (t_kids g p)" "m + n < length es"
  shows "\<exists>g' d'. getNthRightSibling n (Rep (t_kids g p ! m)) d = Inr (Rep (t_kids g' p ! (m + n)), d') \<and> m + n < length (t_kids g' p) \<and>
    document_ok g' d' \<and> visits g g' \<and> only_nodes d d'"
  using assms
proof (induction n arbitrary: g d m)
  case 0
  then show ?case using visits_refl by auto
next
  case (Suc n)
  note ok = Suc.prems(1) and p = Suc.prems(2)
  have kids: "t_kids g p = take m (t_kids g p) @ t_kids g p ! m # drop (Suc m) (t_kids g p)"
    using id_take_nth_drop [OF Suc.prems(4)] .
  from resolveRightSibling_ok [OF ok p kids] obtain g1 d1 ws where
    r: "resolveRightSibling (t_kids g p ! m) d = Inr (head_idx ws kInvalidRepIdx, d1)" "t_kids g1 p = take m (t_kids g p) @ t_kids g p ! m # ws"
      "document_ok g1 d1" "visits g g1" "only_nodes d d1" "ws = [] \<Longrightarrow> t_more g1 p = None" by metis
  have p1: "p \<in> t_live g1" and c1: "children g1 p es"
    using visits_frame(1) [OF r(4)] visits_children [OF r(4) okD(1) [OF ok] p Suc.prems(3)] p by auto
  have ws: "ws \<noteq> []"
  proof
    assume "ws = []"
    then have "length es = length (t_kids g1 p)" using children_length [OF c1] r(6) by (simp add: rest_of_def)
    then show False using r(2) Suc.prems(4,5) \<open>ws = []\<close> by simp
  qed
  have len: "length (take m (t_kids g p)) = m" using Suc.prems(4) by simp
  have m1: "Suc m < length (t_kids g1 p)" "t_kids g1 p ! Suc m = hd ws"
    using ws r(2) len by (cases ws; simp add: nth_append)+
  from Suc.IH [OF r(3) p1 c1 m1(1)] Suc.prems(5) m1(2) obtain g' d' where
    n: "getNthRightSibling n (Rep (hd ws)) d1 = Inr (Rep (t_kids g' p ! (Suc m + n)), d')" "Suc m + n < length (t_kids g' p)"
      "document_ok g' d'" "visits g1 g'" "only_nodes d1 d'" by auto
  then show ?case
    using ws r(1) visits_trans [OF n(4) r(4)] only_nodes_trans [OF r(5) n(5)]
    by (intro exI [of _ g'] exI [of _ d']) (cases ws; simp add: rightSibling_def verify_ok_def)
qed

lemma getNthChild_ok:
  assumes ok: "document_ok g d" and p: "p \<in> t_live g" "denotes g p V" and k: "k < length (sub_elems V)"
  obtains g' d' where "getNthChild (Rep p) k d = Inr (Rep (t_kids g' p ! k), d')" "k < length (t_kids g' p)"
    "document_ok g' d'" "visits g g'" "only_nodes d d'"
proof -
  note g = okD(1) [OF ok]
  have pc: "container (t_val g p)"
  proof (rule ccontr)
    assume "\<not> container (t_val g p)"
    moreover have "value_type V = value_type (t_val g p)" using p(2) by (cases rule: denotes_cases [OF p(2) g p(1)]) auto
    ultimately have "\<not> container V" by (simp add: container_def)
    then show False using k by simp
  qed
  from denotes_children [OF g p pc] obtain es where es: "children g p es" "map snd es = map snd (sub_elems V)" .
  have k': "k < length es" using k arg_cong [OF es(2), of length] by simp
  from resolveLeftChild_ok [OF ok p(1)] obtain g1 d1 where
    l: "resolveLeftChild p d = Inr (head_idx (t_kids g1 p) kInvalidRepIdx, d1)" "document_ok g1 d1" "visits g g1"
      "only_nodes d d1" "t_kids g1 p = [] \<Longrightarrow> t_more g1 p = None" by metis
  have p1: "p \<in> t_live g1" "children g1 p es" using visits_frame(1) [OF l(3)] visits_children [OF l(3) g p(1) es(1)] p by auto
  have ne: "t_kids g1 p \<noteq> []" using l(5) children_length [OF p1(2)] k' by (auto simp: rest_of_def)
  then have h: "head_idx (t_kids g1 p) kInvalidRepIdx = Rep (t_kids g1 p ! 0)" by (cases "t_kids g1 p") simp_all
  from getNthRightSibling_ok [OF l(2) p1, of 0 k] ne k' obtain g' d' where
    "getNthRightSibling k (Rep (t_kids g1 p ! 0)) d1 = Inr (Rep (t_kids g' p ! k), d')" "k < length (t_kids g' p)"
      "document_ok g' d'" "visits g1 g'" "only_nodes d1 d'" by auto
  then show ?thesis
    using l(1) visits_trans [OF _ l(3)] only_nodes_trans [OF l(4)] h
    by (intro that [of g' d']) (simp_all add: getNthChild_def leftChild_def verify_ok_def)
qed

subsection \<open>Children by name\<close>

definition field_pos :: "string \<Rightarrow> bson_elem list \<Rightarrow> nat" where
  "field_pos name es = length (takeWhile (\<lambda>e. fst e \<noteq> name) es)"

lemma field_pos_Cons: "field_pos name (e # es) = (if fst e = name then 0 else Suc (field_pos name es))"
  by (simp add: field_pos_def)

lemma findElementNamed_ok:
  assumes "document_ok g d" "p \<in> t_live g" "children g p es" "n \<le> length (t_kids g p)" "n = length (t_kids g p) \<longrightarrow> t_more g p = None"
  shows "\<exists>g' d' r. findElementNamed name (head_idx (drop n (t_kids g p)) kInvalidRepIdx) d = Some (Inr (r, d')) \<and>
    document_ok g' d' \<and> visits g g' \<and> only_nodes d d' \<and>
    (if n + field_pos name (drop n es) < length es
     then n + field_pos name (drop n es) < length (t_kids g' p) \<and> r = Rep (t_kids g' p ! (n + field_pos name (drop n es)))
     else r = kInvalidRepIdx)"
  using assms
proof (induction "length es - n" arbitrary: g d n)
  case 0
  have "n = length (t_kids g p)" "length es \<le> n" using 0 children_length [OF 0(4)] by simp_all
  then show ?case
    using 0 by (intro exI [of _ g] exI [of _ d] exI [of _ kInvalidRepIdx]) (simp add: findElementNamed.simps visits_refl)
next
  case (Suc m)
  note ok = Suc.prems(1) and p = Suc.prems(2)
  have nk: "n < length (t_kids g p)"
    using Suc children_length [OF Suc.prems(3)] by (cases "n = length (t_kids g p)") (auto simp: rest_of_def)
  define c where "c = t_kids g p ! n"
  from children_next [OF okD(1) [OF ok] p Suc.prems(3) nk] obtain v where
    v: "n < length es" "es ! n = (t_name g c, v)" unfolding c_def by blast
  have drop: "drop n es = (t_name g c, v) # drop (Suc n) es" "drop n (t_kids g p) = c # drop (Suc n) (t_kids g p)"
    using v nk by (simp_all add: Cons_nth_drop_Suc [symmetric] c_def)
  have cl: "c \<in> t_live g" using kid_live [OF ok p] nk by (simp add: c_def)
  have name: "getFieldName (Rep c) d = Inr (t_name g c)"
    using rep_fieldName_ok [OF ok cl] okD(2) [OF ok cl] by (simp add: getFieldName_def verify_ok_def getElementRep_def)
  show ?case
  proof (cases "t_name g c = name")
    case True
    then have "findElementNamed name (Rep c) d = Some (Inr (Rep c, d))" using name by (simp add: findElementNamed.simps)
    then show ?thesis
      using True ok v(1) nk by (intro exI [of _ g] exI [of _ d] exI [of _ "Rep c"]) (simp add: drop field_pos_Cons visits_refl c_def)
  next
    case False
    have dec: "t_kids g p = take n (t_kids g p) @ c # drop (Suc n) (t_kids g p)"
      using nk id_take_nth_drop [of n "t_kids g p"] by (simp add: c_def)
    from resolveRightSibling_ok [OF ok p dec] obtain g2 d2 ws where
      r: "resolveRightSibling c d = Inr (head_idx ws kInvalidRepIdx, d2)" "t_kids g2 p = take n (t_kids g p) @ c # ws" "document_ok g2 d2"
        "visits g g2" "only_nodes d d2" "ws = [] \<Longrightarrow> t_more g2 p = None" by metis
    have p2: "p \<in> t_live g2" using visits_frame(1) [OF r(4)] p by blast
    have ws: "ws = drop (Suc n) (t_kids g2 p)" "Suc n \<le> length (t_kids g2 p)" using r(2) nk by simp_all
    have "\<exists>g' d' r. findElementNamed name (head_idx (drop (Suc n) (t_kids g2 p)) kInvalidRepIdx) d2 = Some (Inr (r, d')) \<and>
      document_ok g' d' \<and> visits g2 g' \<and> only_nodes d2 d' \<and>
      (if Suc n + field_pos name (drop (Suc n) es) < length es
       then Suc n + field_pos name (drop (Suc n) es) < length (t_kids g' p) \<and> r = Rep (t_kids g' p ! (Suc n + field_pos name (drop (Suc n) es)))
       else r = kInvalidRepIdx)"
    proof (rule Suc.hyps(1))
      show "m = length es - Suc n" using Suc.hyps(2) by simp
      show "children g2 p es" using visits_children [OF r(4) okD(1) [OF ok] p Suc.prems(3)] .
      show "Suc n = length (t_kids g2 p) \<longrightarrow> t_more g2 p = None" using ws r(6) by auto
    qed (use r(3) p2 ws in simp_all)
    then obtain g' d' x where
      f: "findElementNamed name (head_idx ws kInvalidRepIdx) d2 = Some (Inr (x, d'))" "document_ok g' d'" "visits g2 g'" "only_nodes d2 d'"
        "if Suc n + field_pos name (drop (Suc n) es) < length es
         then Suc n + field_pos name (drop (Suc n) es) < length (t_kids g' p) \<and> x = Rep (t_kids g' p ! (Suc n + field_pos name (drop (Suc n) es)))
         else x = kInvalidRepIdx" using ws by metis
    have "findElementNamed name (Rep c) d = Some (Inr (x, d'))"
      using name False r(1) f(1) by (subst findElementNamed.simps) (simp add: rightSibling_def verify_ok_def)
    moreover have "n + field_pos name (drop n es) = Suc n + field_pos name (drop (Suc n) es)" using False by (simp add: drop field_pos_Cons)
    ultimately show ?thesis
      unfolding drop(2) using f visits_trans [OF f(3) r(4)] only_nodes_trans [OF r(5) f(4)]
      by (intro exI [of _ g'] exI [of _ d'] exI [of _ x]) auto
  qed
qed

lemma findFirstChildNamed_ok:
  assumes ok: "document_ok g d" and p: "p \<in> t_live g" "children g p es"
  shows "\<exists>g' d' r. findFirstChildNamed (Rep p) name d = Some (Inr (r, d')) \<and> document_ok g' d' \<and> visits g g' \<and> only_nodes d d' \<and>
    (if field_pos name es < length es
     then field_pos name es < length (t_kids g' p) \<and> r = Rep (t_kids g' p ! field_pos name es) else r = kInvalidRepIdx)"
proof -
  from resolveLeftChild_ok [OF ok p(1)] obtain g1 d1 where
    l: "resolveLeftChild p d = Inr (head_idx (t_kids g1 p) kInvalidRepIdx, d1)" "document_ok g1 d1" "visits g g1"
      "only_nodes d d1" "t_kids g1 p = [] \<Longrightarrow> t_more g1 p = None" by metis
  have p1: "p \<in> t_live g1" "children g1 p es" using visits_frame(1) [OF l(3)] visits_children [OF l(3) okD(1) [OF ok] p] p by auto
  from findElementNamed_ok [OF l(2) p1, of 0 name, unfolded drop_0 add_0] l(5) obtain g' d' r where
    "findElementNamed name (head_idx (t_kids g1 p) kInvalidRepIdx) d1 = Some (Inr (r, d'))" "document_ok g' d'" "visits g1 g'" "only_nodes d1 d'"
    "if field_pos name es < length es then field_pos name es < length (t_kids g' p) \<and> r = Rep (t_kids g' p ! field_pos name es) else r = kInvalidRepIdx"
    by auto
  then show ?thesis
    using l(1) visits_trans [OF _ l(3)] only_nodes_trans [OF l(4)]
    by (intro exI [of _ g'] exI [of _ d'] exI [of _ r]) (simp add: findFirstChildNamed_def leftChild_def verify_ok_def)
qed

end
