(* ===== verification/Mutable_Script.thy ===== *)
theory Mutable_Script
  imports Mutable_Walk
begin

text \<open>
  Sequences of changes to a document, and what they do to the value that it denotes. A change is made to an object or
  array that is reached by position from the root; new elements are made by the call for the type of their value.
\<close>

subsection \<open>Changes\<close>

datatype change =
    Push_Front string bson_value
  | Push_Back string bson_value
  | Add_Left nat string bson_value
  | Add_Right nat string bson_value
  | Pop_Front
  | Pop_Back
  | Remove nat
  | Set_Value nat bson_value

fun change_document :: "change \<Rightarrow> rep_idx \<Rightarrow> document \<Rightarrow> (status \<times> document) result option" where
  "change_document (Push_Front n v) p d = bindO (Some (make_value n v d)) (\<lambda>(e, d). pushFront p e d)"
| "change_document (Push_Back n v) p d = push_made (make_value n v) p d"
| "change_document (Add_Left k n v) p d =
     bindO (Some (getNthChild p k d)) (\<lambda>(c, d). bindO (Some (make_value n v d)) (\<lambda>(e, d). Some (addSiblingLeft c e d)))"
| "change_document (Add_Right k n v) p d =
     bindO (Some (getNthChild p k d)) (\<lambda>(c, d). bindO (Some (make_value n v d)) (\<lambda>(e, d). Some (addSiblingRight c e d)))"
| "change_document Pop_Front p d = Some (popFront p d)"
| "change_document Pop_Back p d = popBack p d"
| "change_document (Remove k) p d = bindO (Some (getNthChild p k d)) (\<lambda>(c, d). Some (elem_remove c d))"
| "change_document (Set_Value k v) p d = bindO (Some (getNthChild p k d)) (\<lambda>(c, d). Some (set_value v c d))"

fun walk :: "nat list \<Rightarrow> rep_idx \<Rightarrow> document \<Rightarrow> (rep_idx \<times> document) result" where
  "walk [] e d = Inr (e, d)"
| "walk (k # ks) e d = bindE (getNthChild e k d) (\<lambda>(c, d). walk ks c d)"

definition change_at :: "nat list \<times> change \<Rightarrow> document \<Rightarrow> (status \<times> document) result option" where
  "change_at = (\<lambda>(ks, ch) d. bindO (Some (walk ks (Rep kRootRepIdx) d)) (\<lambda>(p, d). change_document ch p d))"

text \<open>A sequence stops at the first failure.\<close>

fun run_all :: "('e \<Rightarrow> 'd \<Rightarrow> (status \<times> 'd) result option) \<Rightarrow> 'e list \<Rightarrow> 'd \<Rightarrow> (status \<times> 'd) result option" where
  "run_all edit [] d = Some (Inr (Status_OK, d))"
| "run_all edit (x # xs) d = bindO (edit x d) (\<lambda>(s, d). if s = Status_OK then run_all edit xs d else Some (Inr (s, d)))"

fun spec_all :: "('e \<Rightarrow> 'v \<Rightarrow> 'v option) \<Rightarrow> 'e list \<Rightarrow> 'v \<Rightarrow> 'v option" where
  "spec_all spec [] v = Some v"
| "spec_all spec (x # xs) v = (case spec x v of None \<Rightarrow> None | Some w \<Rightarrow> spec_all spec xs w)"

subsection \<open>Their effect on values\<close>

fun value_at :: "nat list \<Rightarrow> bson_value \<Rightarrow> bson_value option" where
  "value_at [] v = Some v"
| "value_at (k # ks) v = (if k < length (sub_elems v) then value_at ks (snd (sub_elems v ! k)) else None)"

fun change_value :: "change \<Rightarrow> bson_value \<Rightarrow> bson_value option" where
  "change_value (Push_Front n w) v = (if container v then Some (insert_field 0 (n, w) v) else None)"
| "change_value (Push_Back n w) v = (if container v then Some (insert_field (length (sub_elems v)) (n, w) v) else None)"
| "change_value (Add_Left k n w) v = (if k < length (sub_elems v) then Some (insert_field k (n, w) v) else None)"
| "change_value (Add_Right k n w) v = (if k < length (sub_elems v) then Some (insert_field (Suc k) (n, w) v) else None)"
| "change_value Pop_Front v = (if sub_elems v \<noteq> [] then Some (delete_field 0 v) else None)"
| "change_value Pop_Back v = (if sub_elems v \<noteq> [] then Some (delete_field (length (sub_elems v) - 1) v) else None)"
| "change_value (Remove k) v = (if k < length (sub_elems v) then Some (delete_field k v) else None)"
| "change_value (Set_Value k w) v = (if k < length (sub_elems v) then Some (update_at [k] (\<lambda>_. w) v) else None)"

definition value_change :: "nat list \<times> change \<Rightarrow> bson_value \<Rightarrow> bson_value option" where
  "value_change = (\<lambda>(ks, ch) v.
     case value_at ks v of
       None \<Rightarrow> None
     | Some u \<Rightarrow> (case change_value ch u of None \<Rightarrow> None | Some u' \<Rightarrow> Some (update_at ks (\<lambda>_. u') v)))"

text \<open>What the new elements are, and what they cost when no name is longer than \<open>n\<close>.\<close>

fun added :: "change \<Rightarrow> (string \<times> bson_value) option" where
  "added (Push_Front n v) = Some (n, v)"
| "added (Push_Back n v) = Some (n, v)"
| "added (Add_Left _ n v) = Some (n, v)"
| "added (Add_Right _ n v) = Some (n, v)"
| "added (Set_Value _ v) = Some ([], v)"
| "added _ = None"

definition change_ok :: "nat \<Rightarrow> change \<Rightarrow> bool" where
  "change_ok n ch \<longleftrightarrow>
     (case added ch of None \<Rightarrow> True | Some (m, v) \<Rightarrow> wf_value v \<and> short_value n v \<and> nul \<notin> set m \<and> length m \<le> n)"

definition change_reps :: "change \<Rightarrow> nat" where
  "change_reps ch = (case added ch of None \<Rightarrow> 0 | Some (_, v) \<Rightarrow> Suc (weight v))"

definition change_heap :: "nat \<Rightarrow> change \<Rightarrow> nat" where
  "change_heap n ch = (case added ch of None \<Rightarrow> 0 | Some (_, v) \<Rightarrow> 2 + n + length (encode_value v))"

subsection \<open>Reaching an element\<close>

lemma update_at_const: "value_at ks w = Some v \<Longrightarrow> update_at ks f w = update_at ks (\<lambda>_. f v) w"
  by (induction ks arbitrary: w) (simp_all split: if_splits)

lemma update_at_snoc: "update_at (ks @ [k]) f w = update_at ks (update_at [k] f) w"
  by (induction ks arbitrary: w) simp_all

lemma value_at_snoc: "value_at ks w = Some v \<Longrightarrow> value_at (ks @ [k]) w = (if k < length (sub_elems v) then Some (snd (sub_elems v ! k)) else None)"
  by (induction ks arbitrary: w) (auto split: if_splits)

lemma path_snoc: "path g (ks @ [k]) q i \<longleftrightarrow> (\<exists>p. path g ks q p \<and> k < length (t_kids g p) \<and> t_kids g p ! k = i)"
  by (induction ks arbitrary: q) auto

lemma value_type_update: "value_type (update_at (k # ks) f v) = (if value_type v = Array then Array else Object)"
  by simp

lemma denotes_kid:
  assumes g: "shape g" and q: "q \<in> t_live g" "denotes g q W" and k: "k < length (t_kids g q)"
  shows "denotes g (t_kids g q ! k) (snd (sub_elems W ! k))" "k < length (sub_elems W)"
proof -
  have "container (t_val g q)" using node_shapeD(5) [OF shapeD(1) [OF g q(1)]] k by (cases "t_kids g q") auto
  from container_elems [OF g q(1) this q(2)] obtain vs es where
    c: "list_all2 (denotes g) (t_kids g q) vs" "length vs = length (t_kids g q)"
      "es = zip (map (t_name g) (t_kids g q)) vs @ rest_of g q" "map snd es = map snd (sub_elems W)" .
  have "snd (es ! k) = vs ! k" "k < length es" using c(2,3) k by (simp_all add: nth_append)
  then have "snd (sub_elems W ! k) = vs ! k" and len: "k < length (sub_elems W)"
    using arg_cong [OF c(4), of "\<lambda>xs. xs ! k"] arg_cong [OF c(4), of length] by simp_all
  then show "denotes g (t_kids g q ! k) (snd (sub_elems W ! k))" using c(1) k by (simp add: list_all2_conv_all_nth)
  show "k < length (sub_elems W)" using len .
qed

lemma walk_ok:
  assumes "document_ok g d" "q \<in> t_live g" "denotes g q W" "value_at ks W = Some V"
  shows "\<exists>g' d' p. walk ks (Rep q) d = Inr (Rep p, d') \<and> document_ok g' d' \<and> visits g g' \<and> only_nodes d d' \<and> path g' ks q p \<and> denotes g' p V"
  using assms
proof (induction ks arbitrary: g d q W)
  case Nil
  then show ?case using visits_refl by auto
next
  case (Cons k ks)
  note ok = Cons.prems(1) and q = Cons.prems(2,3)
  have k: "k < length (sub_elems W)" and V: "value_at ks (snd (sub_elems W ! k)) = Some V" using Cons.prems(4) by (simp_all split: if_splits)
  from getNthChild_ok [OF ok q k] obtain g1 d1 where
    c: "getNthChild (Rep q) k d = Inr (Rep (t_kids g1 q ! k), d1)" "k < length (t_kids g1 q)" "document_ok g1 d1" "visits g g1" "only_nodes d d1" .
  have q1: "q \<in> t_live g1" "denotes g1 q W" using visits_frame(1) [OF c(4)] visits_denotes [OF c(4) okD(1) [OF ok] q] q by auto
  let ?c = "t_kids g1 q ! k"
  have cl: "?c \<in> t_live g1" using kid_live [OF c(3) q1(1)] c(2) by simp
  have dc: "denotes g1 ?c (snd (sub_elems W ! k))" using denotes_kid(1) [OF okD(1) [OF c(3)] q1 c(2)] .
  from Cons.IH [OF c(3) cl dc V] obtain g' d' p where
    w: "walk ks (Rep ?c) d1 = Inr (Rep p, d')" "document_ok g' d'" "visits g1 g'" "only_nodes d1 d'" "path g' ks ?c p" "denotes g' p V" by blast
  obtain new where "t_kids g' q = t_kids g1 q @ new" using visits_frame(3) [OF w(3) q1(1)] by blast
  then have "path g' (k # ks) q p" using w(5) c(2) by (simp add: nth_append)
  then show ?case
    using w c(1) visits_trans [OF w(3) c(4)] only_nodes_trans [OF c(5) w(4)] by (intro exI [of _ g'] exI [of _ d'] exI [of _ p]) simp
qed

subsection \<open>One change\<close>

definition reaches :: "tree \<Rightarrow> nat list \<Rightarrow> nat \<Rightarrow> bson_value \<Rightarrow> bson_value \<Rightarrow> bool" where
  "reaches g ks p V W \<longleftrightarrow> path g ks 0 p \<and> denotes g 0 W \<and> denotes g p V \<and> value_at ks W = Some V"

lemma reaches_live: "shape g \<Longrightarrow> reaches g ks p V W \<Longrightarrow> p \<in> t_live g"
  using path_anc [of g 0 ks p] shapeD(4) [of g] by (simp add: reaches_def)

lemma reaches_visits: "shape g \<Longrightarrow> reaches g ks p V W \<Longrightarrow> visits g g' \<Longrightarrow> reaches g' ks p V W"
  using visits_path [of g g' 0 ks p] visits_denotes [of g g'] shapeD(4) [of g] reaches_live [of g ks p V W] by (auto simp: reaches_def)

lemma path_fresh: "shape g \<Longrightarrow> c \<notin> t_live g \<Longrightarrow> q \<in> t_live g \<Longrightarrow> path g ks q p \<Longrightarrow> path (fresh c e w g) ks q p"
proof (induction ks arbitrary: q)
  case (Cons k ks)
  have "t_kids g q ! k \<in> t_live g" using node_shapeD(1) [OF shapeD(1) [OF Cons.prems(1,3)]] Cons.prems(4) by auto
  moreover have "q \<noteq> c" using Cons.prems by blast
  ultimately show ?case using Cons by simp
qed simp

lemma reaches_fresh: "shape g \<Longrightarrow> reaches g ks p V W \<Longrightarrow> c \<notin> t_live g \<Longrightarrow> reaches (fresh c e w g) ks p V W"
  using path_fresh [of g c 0 ks p] denotes_fresh [of g _ _ c] shapeD(4) [of g] reaches_live [of g ks p V W] by (auto simp: reaches_def)

lemma reaches_edits:
  assumes "shape g" "reaches g ks p V W" "edits g p g'" "denotes g' p V'"
  shows "denotes g' 0 (update_at ks (\<lambda>_. V') W)"
  using update_denotes [OF assms(1,3), of V "\<lambda>_. V'" 0 ks W] assms(2,4) shapeD(4) [OF assms(1)] by (simp add: reaches_def)

definition newborn :: "tree \<Rightarrow> nat \<Rightarrow> nat \<Rightarrow> bson_elem \<Rightarrow> bool" where
  "newborn g j p e \<longleftrightarrow> j \<in> t_live g \<and> detached g j \<and> j \<noteq> 0 \<and> j \<notin> anc g p \<and> t_name g j = fst e \<and> denotes g j (snd e)"

lemma newborn_visits:
  assumes "newborn g j p e" "visits g g'" "shape g" "p \<in> t_live g"
  shows "newborn g' j p e"
  using assms(1) visits_frame(1,2) [OF assms(2)] visits_detached [OF assms(2)] visits_anc [OF assms(2,4)] visits_denotes [OF assms(2,3)]
  by (auto simp: newborn_def)

lemma insert_reaches:
  assumes g: "shape g" and r: "reaches g ks p V W" and j: "newborn g j p e" and kids: "t_kids g p = us @ vs" "vs = [] \<longrightarrow> t_more g p = None"
    and p: "container (t_val g p)" and w: "within n reps heap g"
  defines "g' \<equiv> attach p (us @ j # vs) (broken p g)"
  shows "denotes g' 0 (update_at ks (\<lambda>_. insert_field (length us) e V) W)" "within n reps heap g'" "vs = [] \<Longrightarrow> length us = length (sub_elems V)"
proof -
  note pl = reaches_live [OF g r] and ed = edits_attach [OF g reaches_live [OF g r], of "us @ j # vs"]
  have V: "denotes g p V" using r by (simp add: reaches_def)
  have j': "j \<in> t_live g" "j \<notin> anc g p" "denotes g j (snd e)" "t_name g j = fst e" using j by (simp_all add: newborn_def)
  note ins = insert_denotes [OF g pl p V j'(1-3) kids, unfolded j'(4) prod.collapse]
  show "denotes g' 0 (update_at ks (\<lambda>_. insert_field (length us) e V) W)" using reaches_edits [OF g r ed ins(1)] by (simp add: g'_def)
  show "within n reps heap g'" using ed w by (simp add: edits_def g'_def)
  show "vs = [] \<Longrightarrow> length us = length (sub_elems V)" by (rule ins(2))
qed

lemma delete_reaches:
  assumes g: "shape g" and r: "reaches g ks p V W" and kids: "t_kids g p = us @ i # vs" and w: "within n reps heap g"
  defines "g' \<equiv> attach p (us @ vs) (broken p g)"
  shows "denotes g' 0 (update_at ks (\<lambda>_. delete_field (length us) V) W)" "within n reps heap g'"
    "t_more g p = None \<Longrightarrow> length (t_kids g p) = length (sub_elems V)"
proof -
  note pl = reaches_live [OF g r] and ed = edits_attach [OF g reaches_live [OF g r], of "us @ vs"]
  have V: "denotes g p V" using r by (simp add: reaches_def)
  note del = delete_denotes [OF g pl V kids]
  show "denotes g' 0 (update_at ks (\<lambda>_. delete_field (length us) V) W)" using reaches_edits [OF g r ed del(1)] by (simp add: g'_def)
  show "within n reps heap g'" using ed w by (simp add: edits_def g'_def)
  show "t_more g p = None \<Longrightarrow> length (t_kids g p) = length (sub_elems V)" by (rule del(2))
qed

definition fits_budget :: "nat \<Rightarrow> nat \<Rightarrow> bool" where
  "fits_budget reps heap \<longleftrightarrow> reps \<le> kMaxRepIdx \<and> int heap + 1 \<le> BSONObjMaxInternalSize"

lemma make_reaches:
  assumes ok: "document_ok g d" and r: "reaches g ks p V W" and e: "wf_value v" "nul \<notin> set m" "length m \<le> n" "short_value n v"
    and w: "within n reps heap g" and room: "fits_budget (reps + Suc (weight v)) (heap + (2 + n + length (encode_value v)))"
  obtains j d' where "make_value m v d = Inr (Rep j, d')" "document_ok (fresh j (m, v) True g) d'" "reaches (fresh j (m, v) True g) ks p V W"
    "newborn (fresh j (m, v) True g) j p (m, v)" "within n (reps + Suc (weight v)) (heap + (2 + n + length (encode_value v))) (fresh j (m, v) True g)"
    "j \<notin> t_live g"
proof -
  let ?j = "length (dc_elements d)"
  note g = okD(1) [OF ok]
  have len: "length (encode_elem (m, v)) \<le> 2 + n + length (encode_value v)" using e(3) by (simp add: encode_elem_def)
  then have "room_for (m, v) g" using room w by (simp add: room_for_def within_def fits_budget_def)
  from make_value_ok [OF ok e(1,2) this] obtain d' where
    mk: "make_value m v d = Inr (Rep ?j, d')" "document_ok (fresh ?j (m, v) True g) d'" by blast
  have jn: "?j \<notin> t_live g" using okD(2) [OF ok] by auto
  have pl: "p \<in> t_live g" using reaches_live [OF g r] .
  have "?j \<noteq> 0" using jn shapeD(4) [OF g] by metis
  moreover have "detached (fresh ?j (m, v) True g) ?j"
    using jn node_shapeD(1) [OF shapeD(1) [OF g]] by (auto simp: detached_def)
  moreover have "?j \<notin> anc (fresh ?j (m, v) True g) p"
    using anc_cases [of ?j g p] jn pl by (auto simp: anc_def child_rel_fresh [OF g jn])
  moreover have "denotes (fresh ?j (m, v) True g) ?j v"
    using denotes_whole [of "fresh ?j (m, v) True g" ?j] \<open>?j \<noteq> 0\<close> by (simp add: plain_def)
  ultimately have "newborn (fresh ?j (m, v) True g) ?j p (m, v)" by (simp add: newborn_def)
  moreover have "within n (reps + Suc (weight v)) (heap + (2 + n + length (encode_value v))) (fresh ?j (m, v) True g)"
    using within_fresh [OF w, of "(m, v)" True ?j] e(3,4) len by (auto simp: within_def)
  ultimately show ?thesis using that [OF mk reaches_fresh [OF g r jn]] jn by blast
qed

lemma denotes_type: "shape g \<Longrightarrow> p \<in> t_live g \<Longrightarrow> denotes g p V \<Longrightarrow> value_type (t_val g p) = value_type V"
  by (erule denotes_cases) auto

lemma reaches_container: "shape g \<Longrightarrow> reaches g ks p V W \<Longrightarrow> container (t_val g p) = container V"
  using denotes_type [of g p V] reaches_live by (simp add: reaches_def container_def)

definition holds :: "nat \<Rightarrow> nat \<Rightarrow> nat \<Rightarrow> bson_value \<Rightarrow> document \<Rightarrow> bool" where
  "holds n reps heap W d \<longleftrightarrow> (\<exists>g. document_ok g d \<and> denotes g 0 W \<and> within n reps heap g)"

definition performs :: "nat \<Rightarrow> nat \<Rightarrow> nat \<Rightarrow> bson_value \<Rightarrow> (status \<times> document) result option \<Rightarrow> bool" where
  "performs n reps heap W res \<longleftrightarrow>
     (\<exists>d. res = Some (Inr (Status_OK, d)) \<and> holds n reps heap W d)"

lemma push_performs:
  assumes ok: "document_ok g d" and r: "reaches g ks p V W" and V: "container V" and e: "wf_value v" "nul \<notin> set m" "length m \<le> n" "short_value n v"
    and w: "within n reps heap g" and room: "fits_budget (reps + Suc (weight v)) (heap + (2 + n + length (encode_value v)))"
  shows "performs n (reps + Suc (weight v)) (heap + (2 + n + length (encode_value v)))
      (update_at ks (\<lambda>_. insert_field (length (sub_elems V)) (m, v) V) W) (push_made (make_value m v) (Rep p) d)"
    "performs n (reps + Suc (weight v)) (heap + (2 + n + length (encode_value v)))
      (update_at ks (\<lambda>_. insert_field 0 (m, v) V) W) (bindO (Some (make_value m v d)) (\<lambda>(e, d). pushFront (Rep p) e d))"
proof -
  from make_reaches [OF ok r e w room] obtain j d1 where
    mk: "make_value m v d = Inr (Rep j, d1)" "document_ok (fresh j (m, v) True g) d1" "reaches (fresh j (m, v) True g) ks p V W"
      "newborn (fresh j (m, v) True g) j p (m, v)" "within n (reps + Suc (weight v)) (heap + (2 + n + length (encode_value v))) (fresh j (m, v) True g)" .
  let ?h = "fresh j (m, v) True g"
  note h = okD(1) [OF mk(2)]
  have p: "p \<in> t_live ?h" "container (t_val ?h p)" using reaches_live [OF h mk(3)] reaches_container [OF h mk(3)] V by auto
  have j: "j \<in> t_live ?h" "detached ?h j" "j \<noteq> 0" "j \<notin> anc ?h p" using mk(4) by (simp_all add: newborn_def)
  have c: "container (t_val g' p)" if "visits ?h g'" for g' using visits_frame(2) [OF that p(1)] p(2) by simp
  note keep = visits_shape [OF _ h] reaches_visits [OF h mk(3)] newborn_visits [OF mk(4) _ h p(1)] within_visits [OF _ mk(5)]
  from pushBack_ok [OF mk(2) p j] obtain g1 d' where
    b: "visits ?h g1" "t_more g1 p = None" "pushBack (Rep p) (Rep j) d1 = Some (Inr (Status_OK, d'))"
      "document_ok (attach p (t_kids g1 p @ [j]) (broken p g1)) d'" by blast
  note ins = insert_reaches [OF keep(1,2,3) [OF b(1)], of "t_kids g1 p" "[]", OF _ _ c [OF b(1)] keep(4) [OF b(1)]]
  show "performs n (reps + Suc (weight v)) (heap + (2 + n + length (encode_value v)))
      (update_at ks (\<lambda>_. insert_field (length (sub_elems V)) (m, v) V) W) (push_made (make_value m v) (Rep p) d)"
    using ins b mk(1) by (auto simp: performs_def holds_def push_made_def)
  from pushFront_ok [OF mk(2) p j] obtain g2 d'' where
    f: "visits ?h g2" "pushFront (Rep p) (Rep j) d1 = Some (Inr (Status_OK, d''))" "t_kids g2 p = [] \<longrightarrow> t_more g2 p = None"
      "document_ok (attach p (j # t_kids g2 p) (broken p g2)) d''" by blast
  note ins = insert_reaches [OF keep(1,2,3) [OF f(1)], of "[]" "t_kids g2 p", OF _ _ c [OF f(1)] keep(4) [OF f(1)]]
  show "performs n (reps + Suc (weight v)) (heap + (2 + n + length (encode_value v)))
      (update_at ks (\<lambda>_. insert_field 0 (m, v) V) W) (bindO (Some (make_value m v d)) (\<lambda>(e, d). pushFront (Rep p) e d))"
    using ins f mk(1) by (auto simp: performs_def holds_def)
qed

lemma child_reaches:
  assumes ok: "document_ok g d" and r: "reaches g ks p V W" and k: "k < length (sub_elems V)" and w: "within n reps heap g"
  obtains g' d' us i vs where "getNthChild (Rep p) k d = Inr (Rep i, d')" "t_kids g' p = us @ i # vs" "length us = k"
    "document_ok g' d'" "reaches g' ks p V W" "within n reps heap g'"
proof -
  note g = okD(1) [OF ok]
  from getNthChild_ok [OF ok reaches_live [OF g r] _ k] r obtain g' d' where
    c: "getNthChild (Rep p) k d = Inr (Rep (t_kids g' p ! k), d')" "k < length (t_kids g' p)" "document_ok g' d'" "visits g g'"
    by (metis reaches_def)
  show ?thesis
    by (rule that [OF c(1) id_take_nth_drop [OF c(2)] _ c(3) reaches_visits [OF g r c(4)] within_visits [OF c(4) w]]) (use c(2) in simp)
qed

lemma add_performs:
  assumes ok: "document_ok g d" and r: "reaches g ks p V W" and k: "k < length (sub_elems V)"
    and e: "wf_value v" "nul \<notin> set m" "length m \<le> n" "short_value n v"
    and w: "within n reps heap g" and room: "fits_budget (reps + Suc (weight v)) (heap + (2 + n + length (encode_value v)))"
  shows "performs n (reps + Suc (weight v)) (heap + (2 + n + length (encode_value v)))
      (update_at ks (\<lambda>_. insert_field k (m, v) V) W) (change_document (Add_Left k m v) (Rep p) d)"
    "performs n (reps + Suc (weight v)) (heap + (2 + n + length (encode_value v)))
      (update_at ks (\<lambda>_. insert_field (Suc k) (m, v) V) W) (change_document (Add_Right k m v) (Rep p) d)"
proof -
  from child_reaches [OF ok r k w] obtain g0 d0 us i vs where
    c: "getNthChild (Rep p) k d = Inr (Rep i, d0)" "t_kids g0 p = us @ i # vs" "length us = k"
      "document_ok g0 d0" "reaches g0 ks p V W" "within n reps heap g0" .
  from make_reaches [OF c(4,5) e c(6) room] obtain j d1 where
    mk: "make_value m v d0 = Inr (Rep j, d1)" "document_ok (fresh j (m, v) True g0) d1" "reaches (fresh j (m, v) True g0) ks p V W"
      "newborn (fresh j (m, v) True g0) j p (m, v)" "within n (reps + Suc (weight v)) (heap + (2 + n + length (encode_value v))) (fresh j (m, v) True g0)"
      "j \<notin> t_live g0" .
  let ?h = "fresh j (m, v) True g0"
  note h = okD(1) [OF mk(2)]
  have p: "p \<in> t_live ?h" using reaches_live [OF h mk(3)] .
  have kids: "t_kids ?h p = us @ i # vs" using c(2) mk(6) reaches_live [OF okD(1) [OF c(4)] c(5)] by auto
  have co: "container (t_val ?h p)" using node_shapeD(5) [OF shapeD(1) [OF h p]] kids by (metis append_is_Nil_conv list.distinct(1))
  have j: "j \<in> t_live ?h" "detached ?h j" "j \<noteq> 0" "j \<notin> anc ?h p" using mk(4) by (simp_all add: newborn_def)
  from addSiblingLeft_ok [OF mk(2) p kids j] obtain d' where
    l: "addSiblingLeft (Rep i) (Rep j) d1 = Inr (Status_OK, d')" "document_ok (attach p (us @ j # i # vs) (broken p ?h)) d'" by blast
  from insert_reaches [OF h mk(3,4) kids _ co mk(5)] l mk(1) c(1,3)
  show "performs n (reps + Suc (weight v)) (heap + (2 + n + length (encode_value v)))
      (update_at ks (\<lambda>_. insert_field k (m, v) V) W) (change_document (Add_Left k m v) (Rep p) d)"
    by (auto simp: performs_def holds_def)
  from addSiblingRight_ok [OF mk(2) p kids j] obtain g2 vs' d'' where
    f: "visits ?h g2" "t_kids g2 p = us @ i # vs'" "vs' = [] \<longrightarrow> t_more g2 p = None" "addSiblingRight (Rep i) (Rep j) d1 = Inr (Status_OK, d'')"
      "document_ok (attach p (us @ i # j # vs') (broken p g2)) d''" by blast
  have co2: "container (t_val g2 p)" using visits_frame(2) [OF f(1) p] co by simp
  have kids2: "t_kids g2 p = (us @ [i]) @ vs'" using f(2) by simp
  from insert_reaches [OF visits_shape [OF f(1) h] reaches_visits [OF h mk(3) f(1)] newborn_visits [OF mk(4) f(1) h p] kids2 f(3) co2
      within_visits [OF f(1) mk(5)]] f mk(1) c(1,3)
  show "performs n (reps + Suc (weight v)) (heap + (2 + n + length (encode_value v)))
      (update_at ks (\<lambda>_. insert_field (Suc k) (m, v) V) W) (change_document (Add_Right k m v) (Rep p) d)"
    by (auto simp: performs_def holds_def)
qed

lemma remove_performs:
  assumes ok: "document_ok g d" and r: "reaches g ks p V W" and k: "k < length (sub_elems V)" and w: "within n reps heap g"
  shows "performs n reps heap (update_at ks (\<lambda>_. delete_field k V) W) (change_document (Remove k) (Rep p) d)"
proof -
  from child_reaches [OF ok r k w] obtain g0 d0 us i vs where
    c: "getNthChild (Rep p) k d = Inr (Rep i, d0)" "t_kids g0 p = us @ i # vs" "length us = k"
      "document_ok g0 d0" "reaches g0 ks p V W" "within n reps heap g0" .
  note g0 = okD(1) [OF c(4)]
  from elem_remove_ok [OF c(4) reaches_live [OF g0 c(5)] c(2)] obtain g1 ws d' where
    s: "visits g0 g1" "t_kids g1 p = us @ i # ws" "elem_remove (Rep i) d0 = Inr (Status_OK, d')"
      "document_ok (attach p (us @ ws) (broken p g1)) d'" by blast
  from delete_reaches [OF visits_shape [OF s(1) g0] reaches_visits [OF g0 c(5) s(1)] s(2) within_visits [OF s(1) c(6)]] s c(1,3)
  show ?thesis by (auto simp: performs_def holds_def)
qed

lemma pop_performs:
  assumes ok: "document_ok g d" and r: "reaches g ks p V W" and V: "sub_elems V \<noteq> []" and w: "within n reps heap g"
  shows "performs n reps heap (update_at ks (\<lambda>_. delete_field 0 V) W) (change_document Pop_Front (Rep p) d)"
    "performs n reps heap (update_at ks (\<lambda>_. delete_field (length (sub_elems V) - 1) V) W) (change_document Pop_Back (Rep p) d)"
proof -
  note g = okD(1) [OF ok]
  note p = reaches_live [OF g r]
  have co: "container (t_val g p)" using reaches_container [OF g r] V by auto
  have none: "t_kids h p \<noteq> [] \<or> t_more h p \<noteq> None" if h: "visits g h" for h
  proof (rule ccontr)
    assume e: "\<not> (t_kids h p \<noteq> [] \<or> t_more h p \<noteq> None)"
    note hs = visits_shape [OF h g] and hr = reaches_visits [OF g r h]
    have "denotes h p V" using hr by (simp add: reaches_def)
    from container_elems [OF hs reaches_live [OF hs hr] _ this] reaches_container [OF hs hr] reaches_container [OF g r] co
    obtain vs es where "length vs = length (t_kids h p)" "es = zip (map (t_name h) (t_kids h p)) vs @ rest_of h p"
      "map snd es = map snd (sub_elems V)" by metis
    then show False using e V by (simp add: rest_of_def)
  qed
  note keep = visits_shape [OF _ g] reaches_visits [OF g r] within_visits [OF _ w]
  from popFront_ok [OF ok p] obtain g1 d1 where
    s: "visits g g1" "if t_kids g1 p = [] then t_more g1 p = None \<and> document_ok g1 d1 \<and>
       popFront (Rep p) d = Inr (Status EmptyArrayOperation ''popFront on empty'' 0, d1)
     else popFront (Rep p) d = Inr (Status_OK, d1) \<and> document_ok (attach p (tl (t_kids g1 p)) (broken p g1)) d1" by blast
  obtain i vs where k1: "t_kids g1 p = i # vs" using none [OF s(1)] s(2) by (cases "t_kids g1 p") auto
  from delete_reaches [OF keep(1,2) [OF s(1)], of "[]" i vs, OF _ keep(3) [OF s(1)]] k1 s(2)
  show "performs n reps heap (update_at ks (\<lambda>_. delete_field 0 V) W) (change_document Pop_Front (Rep p) d)"
    by (auto simp: performs_def holds_def)
  from popBack_ok [OF ok p] obtain g2 d2 where
    b: "visits g g2" "t_more g2 p = None" "if t_kids g2 p = [] then document_ok g2 d2 \<and>
       popBack (Rep p) d = Some (Inr (Status EmptyArrayOperation ''popBack on empty'' 0, d2))
     else popBack (Rep p) d = Some (Inr (Status_OK, d2)) \<and> document_ok (attach p (butlast (t_kids g2 p)) (broken p g2)) d2" by blast
  obtain i' us where k2: "t_kids g2 p = us @ [i']" using none [OF b(1)] b(2) by (cases "t_kids g2 p" rule: rev_cases) auto
  note del = delete_reaches [OF keep(1,2) [OF b(1)] k2 keep(3) [OF b(1)]]
  have "length us = length (sub_elems V) - 1" using del(3) [OF b(2)] k2 by simp
  then show "performs n reps heap (update_at ks (\<lambda>_. delete_field (length (sub_elems V) - 1) V) W) (change_document Pop_Back (Rep p) d)"
    using del(1,2) k2 b(3) by (auto simp: performs_def holds_def)
qed

lemma set_performs:
  assumes ok: "document_ok g d" and r: "reaches g ks p V W" and k: "k < length (sub_elems V)" and v: "wf_value v" "short_value n v"
    and w: "within n reps heap g" and room: "fits_budget (reps + Suc (weight v)) (heap + (2 + n + length (encode_value v)))"
  shows "performs n (reps + Suc (weight v)) (heap + (2 + n + length (encode_value v)))
      (update_at ks (\<lambda>_. update_at [k] (\<lambda>_. v) V) W) (change_document (Set_Value k v) (Rep p) d)"
proof -
  from child_reaches [OF ok r k w] obtain g0 d0 us i vs where
    c: "getNthChild (Rep p) k d = Inr (Rep i, d0)" "t_kids g0 p = us @ i # vs" "length us = k"
      "document_ok g0 d0" "reaches g0 ks p V W" "within n reps heap g0" .
  note g0 = okD(1) [OF c(4)]
  note p = reaches_live [OF g0 c(5)]
  have i: "i \<in> t_live g0" "i \<noteq> 0"
    using kid_live [OF c(4) p] c(2) shapeD(5) [OF g0] p by (auto simp: detached_def)
  have len: "length (t_name g0 i) \<le> n" using c(6) i(1) by (simp add: within_def)
  then have el: "length (encode_elem (t_name g0 i, v)) \<le> 2 + n + length (encode_value v)" by (simp add: encode_elem_def)
  then have "room_for (t_name g0 i, v) g0" using room c(6) by (simp add: room_for_def within_def fits_budget_def)
  from set_value_ok [OF c(4) i v(1) this] obtain h d' where
    s: "visits (fresh (length (dc_elements d0)) (t_name g0 i, v) True g0) h" "single h (length (dc_elements d0))"
      "set_value v (Rep i) d0 = Inr (Status_OK, d')" "document_ok (put i (length (dc_elements d0)) (touched i h)) d'" by blast
  let ?j = "length (dc_elements d0)"
  let ?f = "fresh ?j (t_name g0 i, v) True g0"
  have jn: "?j \<notin> t_live g0" using okD(2) [OF c(4)] by auto
  have fs: "shape ?f" using shape_fresh [OF g0 jn, of "(t_name g0 i, v)" True] v(1) by simp
  note hs = visits_shape [OF s(1) fs]
  have rh: "reaches h ks p V W" using reaches_visits [OF fs reaches_fresh [OF g0 c(5) jn] s(1)] .
  have wh: "within n (reps + Suc (weight v)) (heap + (2 + n + length (encode_value v))) h"
    using within_visits [OF s(1) within_fresh [OF c(6)]] len v(2) el by (fastforce simp: within_def)
  have ih: "i \<in> t_live h" "i \<noteq> ?j" using visits_frame(1) [OF s(1)] i jn by auto
  have vh: "t_val h ?j = v" using visits_frame(2) [OF s(1), of ?j] by simp
  note ed = edits_put [OF hs s(2) ih i(2), unfolded vh]
  have pf: "p \<in> t_live ?f" using p by simp
  obtain new where new: "t_kids h p = t_kids ?f p @ new" using visits_frame(3) [OF s(1) pf] by blast
  have "t_kids ?f p = us @ i # vs" using c(2) p jn by auto
  then have ki: "k < length (t_kids h p)" "t_kids h p ! k = i" using new c(3) by (simp_all add: nth_append)
  have "path h (ks @ [k]) 0 i" using rh ki by (auto simp: reaches_def path_snoc)
  moreover have "value_at (ks @ [k]) W = Some (snd (sub_elems V ! k))" using rh k by (simp add: reaches_def value_at_snoc)
  moreover have "denotes h i (snd (sub_elems V ! k))"
    using denotes_kid(1) [OF hs reaches_live [OF hs rh] _ ki(1)] rh ki(2) by (simp add: reaches_def)
  ultimately have "reaches h (ks @ [k]) i (snd (sub_elems V ! k)) W" using rh by (simp add: reaches_def)
  from reaches_edits [OF hs this ed] have "denotes (put i ?j (touched i h)) 0 (update_at ks (\<lambda>_. update_at [k] (\<lambda>_. v) V) W)"
    using rh by (simp add: update_at_snoc reaches_def update_at_const [of ks W V "update_at [k] (\<lambda>_. v)"] del: update_at.simps)
  moreover have "within n (reps + Suc (weight v)) (heap + (2 + n + length (encode_value v))) (put i ?j (touched i h))"
    using ed(1) wh by (simp add: edits_def)
  ultimately show ?thesis using s(3,4) c(1) unfolding performs_def holds_def by auto
qed

lemma change_performs:
  assumes "document_ok g d" "reaches g ks p V W" "change_ok n ch" "change_value ch V = Some V'" "within n reps heap g"
    "fits_budget (reps + change_reps ch) (heap + change_heap n ch)"
  shows "performs n (reps + change_reps ch) (heap + change_heap n ch) (update_at ks (\<lambda>_. V') W) (change_document ch (Rep p) d)"
  using assms push_performs [OF assms(1,2)] add_performs [OF assms(1,2)] set_performs [OF assms(1,2)] remove_performs [OF assms(1,2)]
    pop_performs [OF assms(1,2)]
  by (cases ch) (auto simp: change_ok_def change_reps_def change_heap_def split: if_splits)

subsection \<open>Sequences of changes\<close>

text \<open>
  What a client may rely on: a change whose specification is defined and for which there is room succeeds, and leads
  from a document that holds one value to a document that holds the changed one.
\<close>

locale editor =
  fixes edit :: "'e \<Rightarrow> 'd \<Rightarrow> (status \<times> 'd) result option" and spec :: "'e \<Rightarrow> 'v \<Rightarrow> 'v option"
    and stands :: "nat \<Rightarrow> nat \<Rightarrow> 'v \<Rightarrow> 'd \<Rightarrow> bool" and proper :: "'e \<Rightarrow> bool" and reps :: "'e \<Rightarrow> nat" and heap :: "'e \<Rightarrow> nat"
  assumes edit_stands: "\<lbrakk>stands r h v d; proper e; spec e v = Some w; fits_budget (r + reps e) (h + heap e)\<rbrakk> \<Longrightarrow>
    \<exists>d'. edit e d = Some (Inr (Status_OK, d')) \<and> stands (r + reps e) (h + heap e) w d'"
begin

lemma run_all_stands:
  assumes "stands r h v d" "list_all proper es" "spec_all spec es v = Some w"
    "fits_budget (r + sum_list (map reps es)) (h + sum_list (map heap es))"
  shows "\<exists>d'. run_all edit es d = Some (Inr (Status_OK, d')) \<and> stands (r + sum_list (map reps es)) (h + sum_list (map heap es)) w d'"
  using assms
proof (induction es arbitrary: r h v d)
  case Nil
  then show ?case by simp
next
  case (Cons e es)
  then obtain u where u: "spec e v = Some u" "spec_all spec es u = Some w" by (auto split: option.splits)
  have "fits_budget (r + reps e) (h + heap e)" using Cons.prems(4) by (simp add: fits_budget_def)
  from edit_stands [OF Cons.prems(1) _ u(1) this] Cons.prems(2) obtain d' where
    d': "edit e d = Some (Inr (Status_OK, d'))" "stands (r + reps e) (h + heap e) u d'" by auto
  from Cons.IH [OF d'(2) _ u(2)] Cons.prems(2,4) d'(1) show ?case by (simp add: add.assoc)
qed

end

lemma change_at_holds:
  assumes "holds n r h W d" "change_ok n (snd x)" "value_change x W = Some W'"
    "fits_budget (r + change_reps (snd x)) (h + change_heap n (snd x))"
  shows "\<exists>d'. change_at x d = Some (Inr (Status_OK, d')) \<and> holds n (r + change_reps (snd x)) (h + change_heap n (snd x)) W' d'"
proof -
  obtain ks ch where x: "x = (ks, ch)" by fastforce
  from assms(1) obtain g where ok: "document_ok g d" and W: "denotes g 0 W" and w: "within n r h g" by (auto simp: holds_def)
  note root = shapeD(4) [OF okD(1) [OF ok]]
  from assms(3) obtain V V' where V: "value_at ks W = Some V" "change_value ch V = Some V'" "W' = update_at ks (\<lambda>_. V') W"
    by (auto simp: x value_change_def split: option.splits)
  from walk_ok [OF ok root W V(1)] obtain g1 d1 p where
    s: "walk ks (Rep 0) d = Inr (Rep p, d1)" "document_ok g1 d1" "visits g g1" "path g1 ks 0 p" "denotes g1 p V" by blast
  have r: "reaches g1 ks p V W" using s(4,5) V(1) visits_denotes [OF s(3) okD(1) [OF ok] root W] by (simp add: reaches_def)
  from change_performs [OF s(2) r _ V(2) within_visits [OF s(3) w]] assms(2,4)
  show ?thesis using s(1) by (simp add: x V(3) performs_def change_at_def kRootRepIdx_def)
qed

interpretation changes: editor change_at value_change "holds n" "\<lambda>x. change_ok n (snd x)" "\<lambda>x. change_reps (snd x)" "\<lambda>x. change_heap n (snd x)" for n
  by unfold_locales (rule change_at_holds)

end
