(* ===== verification/Mutable_Spec.thy ===== *)
theory Mutable_Spec
  imports Mutable_Script
begin

text \<open>The theorems on mutable documents.\<close>

subsection \<open>Sequences of changes\<close>

abbreviation all_reps :: "(nat list \<times> change) list \<Rightarrow> nat" where
  "all_reps chs \<equiv> sum_list (map (\<lambda>x. change_reps (snd x)) chs)"

abbreviation all_heap :: "nat \<Rightarrow> (nat list \<times> change) list \<Rightarrow> nat" where
  "all_heap n chs \<equiv> sum_list (map (\<lambda>x. change_heap n (snd x)) chs)"

lemma start_denotes: "denotes (start_tree es True) 0 (VObject es)"
proof -
  have "denotes (start_tree es True) 0 (with_elems (VObject es) es)"
    by (rule children_denotes [OF _ _ children_start]) (simp_all add: plain_def start_tree_def container_def)
  then show ?thesis by (simp add: with_elems_def)
qed

lemma start_within: "short_names n es \<Longrightarrow> within n (Suc (weights es)) 4 (start_tree es True)"
  by (simp add: within_def start_tree_def rest_of_def)

lemma holds_getObject:
  assumes "holds n reps heap (VObject es) d" "length junk = 4" "int (length (encode es)) \<le> BSONObjMaxInternalSize"
    "3 * weights es + 2 \<le> fuel"
  obtains d' where "document_getObject fuel junk d = Some (Inr (encode es, d'))"
proof -
  from assms(1) obtain g where r: "document_ok g d" "denotes g 0 (VObject es)" by (auto simp: holds_def)
  note g = okD(1) [OF r(1)]
  have "container (t_val g 0)" using okD(3) [OF r(1) shapeD(4) [OF g]] by (simp add: content_def container_def)
  from denotes_children [OF g shapeD(4) [OF g] r(2) this] have "children g 0 es" by (auto simp: sub_elems_def)
  from document_getObject_ok [OF r(1) assms(2) this assms(3,4)] show ?thesis using that by blast
qed

text \<open>
  (C15) Any sequence of insertions, removals and changes of values, at any depth, made to a document that was parsed
  lazily from the bytes of an object, and then written out, gives exactly the bytes of the object in which those changes
  have been made to the value. Every search and every loop ends, nothing fails, as long as the pieces of new
  values fit into the heap of leaves and the number of elements into its 32-bit index.
\<close>

theorem changes_refine:
  assumes "length junk = 4" "wf_elems es" "short_names n es" "int (length (encode es)) \<le> BSONObjMaxInternalSize"
    and "list_all (\<lambda>x. change_ok n (snd x)) chs" "spec_all value_change chs (VObject es) = Some (VObject es')"
    and "fits_budget (Suc (weights es) + all_reps chs) (4 + all_heap n chs)"
    and "int (length (encode es')) \<le> BSONObjMaxInternalSize" "3 * weights es' + 2 \<le> fuel"
  shows "\<exists>d d' d''. Document_value junk (encode es) ip = Inr d \<and> run_all change_at chs d = Some (Inr (Status_OK, d')) \<and>
    document_getObject fuel junk d' = Some (Inr (encode es', d''))"
proof -
  from Document_value_ok [OF assms(1,2,4)] obtain d where d: "Document_value junk (encode es) ip = Inr d" "document_ok (start_tree es True) d"
    by blast
  have "holds n (Suc (weights es)) 4 (VObject es) d"
    unfolding holds_def using d(2) start_denotes start_within [OF assms(3)] by blast
  from changes.run_all_stands [OF this assms(5-7)] obtain d' where
    d': "run_all change_at chs d = Some (Inr (Status_OK, d'))" "holds n (Suc (weights es) + all_reps chs) (4 + all_heap n chs) (VObject es') d'" by blast
  obtain d'' where "document_getObject fuel junk d' = Some (Inr (encode es', d''))" by (rule holds_getObject [OF d'(2) assms(1,8,9)])
  then show ?thesis using d(1) d'(1) by blast
qed

theorem changes_refine_witness:
  "\<exists>d d' d''. Document_value ''junk'' (encode [(''a'', VInt 1), (''b'', VObject [(''x'', VBool True), (''y'', VArray [(''0'', VNull)])])]) True = Inr d \<and>
    run_all change_at [([1], Remove 0), ([1, 0], Push_Front ''z'' (VInt 7)), ([], Set_Value 0 (VString ''s'')), ([1], Add_Right 0 ''w'' VMinKey)] d =
      Some (Inr (Status_OK, d')) \<and>
    document_getObject 50 ''junk'' d' =
      Some (Inr (encode [(''a'', VString ''s''), (''b'', VObject [(''y'', VArray [(''0'', VInt 7), (''1'', VNull)]), (''w'', VMinKey)])], d''))"
  by (rule changes_refine [where n = 1])
    (simp_all add: fits_budget_def value_change_def change_reps_def change_heap_def change_ok_def kMaxRepIdx_def BSONObjMaxInternalSize_def BSONObjMaxUserSize_def
      container_def insert_field_def delete_field_def with_elems_def sub_elems_def encode_def numStr_def nul_def decimal_digits.simps char_of_def bit_0)

subsection \<open>Searching\<close>

text \<open>
  Searching the children of an element by name returns the first one of that name, as looking the name up in the
  list of fields does, or an element that is not \<open>ok()\<close> when there is none. The search ends, and only visits elements: what
  the document denotes stays the same.
\<close>

theorem findFirstChildNamed_looks_up:
  assumes ok: "document_ok g d" and p: "p \<in> t_live g" "denotes g p (VObject es)"
  shows "\<exists>g' d' r. findFirstChildNamed (Rep p) name d = Some (Inr (r, d')) \<and> document_ok g' d' \<and> denotes g' p (VObject es) \<and>
    (case map_of es name of None \<Rightarrow> r = kInvalidRepIdx | Some v \<Rightarrow> (\<exists>i. r = Rep i \<and> denotes g' i v))"
proof -
  note g = okD(1) [OF ok]
  have "container (t_val g p)" using denotes_type [OF g p] by (simp add: container_def)
  from denotes_children [OF g p this] obtain es' where "children g p es'" "value_type (VObject es) = Object \<longrightarrow> es' = sub_elems (VObject es)" by metis
  then have es: "children g p es" by (simp add: sub_elems_def)
  from findFirstChildNamed_ok [OF ok p(1) es, of name] obtain g' d' r where
    f: "findFirstChildNamed (Rep p) name d = Some (Inr (r, d'))" "document_ok g' d'" "visits g g'"
      "if field_pos name es < length es then field_pos name es < length (t_kids g' p) \<and> r = Rep (t_kids g' p ! field_pos name es)
       else r = kInvalidRepIdx" by blast
  have p': "p \<in> t_live g'" "denotes g' p (VObject es)" using visits_frame(1) [OF f(3)] visits_denotes [OF f(3) g p] p by auto
  have found: "if field_pos name es < length es then map_of es name = Some (snd (es ! field_pos name es)) else map_of es name = None"
    by (induction es) (auto simp: field_pos_Cons)
  show ?thesis
  proof (cases "field_pos name es < length es")
    case True
    then have r: "r = Rep (t_kids g' p ! field_pos name es)" "field_pos name es < length (t_kids g' p)" using f(4) by simp_all
    have "denotes g' (t_kids g' p ! field_pos name es) (snd (es ! field_pos name es))"
      using denotes_kid(1) [OF okD(1) [OF f(2)] p' r(2)] by (simp add: sub_elems_def)
    then show ?thesis using f(1,2) p' r found True by auto
  next
    case False
    then show ?thesis using f p' found by auto
  qed
qed

theorem findFirstChildNamed_looks_up_witness:
  "\<exists>d d' g' i. Document_value ''junk'' (encode [(''a'', VInt 1), (''b'', VObject []), (''b'', VNull)]) False = Inr d \<and>
    findFirstChildNamed (Rep 0) ''b'' d = Some (Inr (Rep i, d')) \<and> denotes g' i (VObject [])"
proof -
  let ?es = "[(''a'', VInt 1), (''b'', VObject []), (''b'', VNull)]"
  have "wf_elems ?es" "int (length (encode ?es)) \<le> BSONObjMaxInternalSize"
    by (simp_all add: nul_def encode_def BSONObjMaxInternalSize_def BSONObjMaxUserSize_def)
  from Document_value_ok [OF _ this, of "''junk''" False] obtain d where
    d: "Document_value ''junk'' (encode ?es) False = Inr d" "document_ok (start_tree ?es True) d" by auto
  from findFirstChildNamed_looks_up [OF d(2) _ start_denotes, of "''b''"] d(1) show ?thesis by (auto simp: start_tree_def)
qed

subsection \<open>Copying\<close>

text \<open>
  (C16) Copying an element of another document gives an element with the right bytes, but one that claims to have no
  children, even if its value is an object with fields: the new representation is made by \<open>insertLeafElement\<close>, and its
  children are not marked as opaque. Adding a field to the copy then loses the fields that it had.
\<close>

theorem copied_element_childless:
  assumes junk: "length junk = 4" and from_: "document_ok g other" "i \<in> t_live g" "i \<noteq> 0" "denotes g i v" "3 * weight v + 3 \<le> fuel"
    and into: "document_ok h d" "room_for (t_name g i, v) h"
  shows "\<exists>n d' other' rest. copy_from fuel junk None i other d = Some (Inr (Rep n, d', other')) \<and>
    getValue (Rep n) d' = Inr (encode_elem (t_name g i, v) @ rest) \<and> hasChildren (Rep n) d' = Inr (False, d')"
proof -
  let ?e = "(t_name g i, v)" and ?b = "dc_leafBuf d"
  have room: "int (length (bld_data ?b) + length (encode_elem ?e)) + 1 \<le> BSONObjMaxInternalSize"
    using into(2) okD(9) [OF into(1)] by (simp add: room_for_def budget_ok_def)
  have "fits ?b (length (encode_elem ?e))"
    using room okD(7) [OF into(1)] by (simp add: fits_def heap_ok_def bld_len_def BSONObjMaxInternalSize_def BSONObjMaxUserSize_def BufferMaxSize_def)
  with element_writes_all [OF junk, of v, unfolded element_writes_def, rule_format, where g = g and d = other and i = i and name = None and arr = None and b = ?b and fuel = fuel] from_ obtain other' b' where
    w: "write_out fuel junk (Element None i) None other ?b = Some (Inr (other', b'))" "extends ?b (encode_elem ?e) b'"
    by (auto simp: written_name_def)
  let ?wr = "\<lambda>b. if b = ?b then Inr b' else appendBuf (encode_elem ?e) b"
  have "appends ?wr (encode_elem ?e)"
    using appendBuf_appends [of "encode_elem ?e"] w(2) okD(7) [OF into(1)] room
    by (cases b') (auto simp: appends_def extends_def heap_ok_def bld_len_def BSONObjMaxInternalSize_def BSONObjMaxUserSize_def BufferMaxSize_def)
  from make_leaf_raw [OF into(1) this into(2)] obtain d' where
    m: "make_leaf ?wr d = Inr (Rep (length (dc_elements d)), d')" "length (dc_elements d') = Suc (length (dc_elements d))" "heap_ok d'"
      "node d' (length (dc_elements d)) = defaultRep\<lparr>er_objIdx := Some kLeafObjIdx, er_serialized := True, er_offset := length (bld_data ?b)\<rparr>"
      "bytes_at d' (length (dc_elements d)) (encode_elem ?e)" by blast
  let ?n = "length (dc_elements d)"
  have "?n \<noteq> 0" using okD(2) [OF into(1) shapeD(4) [OF okD(1) [OF into(1)]]] by simp
  moreover have "encode_elem ?e \<noteq> []" by (simp add: encode_elem_def)
  from bytes_atE [OF m(5,3) this] obtain rest where "getSerializedElement (node d' ?n) d' = Inr (encode_elem ?e @ rest)" by metis
  moreover have "copy_from fuel junk None i other d = Some (Inr (Rep ?n, d', other'))"
    using m(1) w(1) by (auto simp: copy_from_def make_leaf_def writeElement_def Let_def bindE_def split: sum.splits)
  ultimately show ?thesis
    using m(2,4)
    by (intro exI [of _ ?n] exI [of _ d'] exI [of _ other'] exI [of _ rest])
      (simp add: getValue_def hasChildren_def verify_ok_def getElementRep_def rep_hasValue_def kRootRepIdx_def resolveLeftChild_def defaultRep_def)
qed

theorem copied_element_childless_witness:
  "\<exists>other0 other i d n d' other' rest. Document_value ''junk'' (encode [(''a'', VObject [(''x'', VNull)])]) False = Inr other0 \<and>
    getNthChild (Rep 0) 0 other0 = Inr (Rep i, other) \<and> Document ''junk'' = Inr d \<and>
    copy_from 6 ''junk'' None i other d = Some (Inr (Rep n, d', other')) \<and>
    getValue (Rep n) d' = Inr (encode_elem (''a'', VObject [(''x'', VNull)]) @ rest) \<and> hasChildren (Rep n) d' = Inr (False, d')"
proof -
  let ?es = "[(''a'', VObject [(''x'', VNull)])]"
  have "wf_elems ?es" "int (length (encode ?es)) \<le> BSONObjMaxInternalSize"
    by (simp_all add: nul_def encode_def BSONObjMaxInternalSize_def BSONObjMaxUserSize_def)
  from Document_value_ok [OF _ this, of "''junk''" False] obtain other0 where
    o: "Document_value ''junk'' (encode ?es) False = Inr other0" "document_ok (start_tree ?es True) other0" by auto
  note sh = okD(1) [OF o(2)]
  have "0 < length (sub_elems (VObject ?es))" by (simp add: sub_elems_def)
  from getNthChild_ok [OF o(2) shapeD(4) [OF sh] start_denotes this] obtain g other where
    c: "getNthChild (Rep 0) 0 other0 = Inr (Rep (t_kids g 0 ! 0), other)" "0 < length (t_kids g 0)" "document_ok g other" "visits (start_tree ?es True) g" by blast
  let ?i = "t_kids g 0 ! 0"
  note g = okD(1) [OF c(3)]
  have root: "0 \<in> t_live g" "denotes g 0 (VObject ?es)"
    using shapeD(4) [OF g] visits_denotes [OF c(4) sh shapeD(4) [OF sh] start_denotes] by simp_all
  have "container (t_val g 0)" using denotes_type [OF g root] by (simp add: container_def)
  from denotes_children [OF g root this] obtain es where "children g 0 es" "value_type (VObject ?es) = Object \<longrightarrow> es = sub_elems (VObject ?es)" by metis
  then have "children g 0 ?es" by (simp add: sub_elems_def)
  from children_next [OF g root(1) this c(2)] obtain w where "?es ! 0 = (t_name g ?i, w)" by metis
  then have i: "t_name g ?i = ''a''" by simp
  have v: "denotes g ?i (VObject [(''x'', VNull)])" using denotes_kid(1) [OF g root c(2)] by (simp add: sub_elems_def)
  have "?i \<in> set (t_kids g 0)" using c(2) by simp
  then have il: "?i \<in> t_live g" "?i \<noteq> 0" using kid_live [OF c(3) root(1)] shapeD(5) [OF g] root(1) by (metis detached_def)+
  from Document_ok [of "''junk''"] obtain d where d: "Document ''junk'' = Inr d" "document_ok (start_tree [] False) d" by auto
  have "room_for (t_name g ?i, VObject [(''x'', VNull)]) (start_tree [] False)"
    by (simp add: i room_for_def start_tree_def encode_elem_def BSONObjMaxInternalSize_def BSONObjMaxUserSize_def kMaxRepIdx_def)
  from copied_element_childless [OF _ c(3) il v _ d(2) this, of "''junk''" 6] o(1) c(1) d(1) show ?thesis unfolding i by auto
qed

end
