(* ===== verification/Bson_Double.thy ===== *)
theory Bson_Double
  imports Bson_Types
begin

text \<open>
  Numbers of type \<open>double\<close>, as far as comparison needs them: the 64 bits of the IEEE 754 format, the order of the
  numbers they stand for, and the conversion of an integer, which rounds to nearest, ties to even.
\<close>

definition double_magnitude :: "uint64 \<Rightarrow> int" where
  "double_magnitude d = uint d mod 2 ^ 63"

definition isNaN :: "uint64 \<Rightarrow> bool" where
  "isNaN d \<longleftrightarrow> 2047 * 2 ^ 52 < double_magnitude d"

text \<open>Numbers that are not NaN are ordered like their magnitude, an integer, with the sign of the highest bit.\<close>

definition double_key :: "uint64 \<Rightarrow> int" where
  "double_key d = (if uint d < 2 ^ 63 then double_magnitude d else - double_magnitude d)"

definition double_less :: "uint64 \<Rightarrow> uint64 \<Rightarrow> bool" where
  "double_less a b \<longleftrightarrow> \<not> isNaN a \<and> \<not> isNaN b \<and> double_key a < double_key b"

definition double_eq :: "uint64 \<Rightarrow> uint64 \<Rightarrow> bool" where
  "double_eq a b \<longleftrightarrow> \<not> isNaN a \<and> \<not> isNaN b \<and> double_key a = double_key b"

text \<open>The position of the highest bit.\<close>

fun high_bit :: "nat \<Rightarrow> nat" where
  "high_bit n = (if n < 2 then 0 else Suc (high_bit (n div 2)))"

declare high_bit.simps [simp del]

definition round_shift :: "nat \<Rightarrow> nat \<Rightarrow> nat" where
  "round_shift m s =
     (let q = m div 2 ^ s; r = m mod 2 ^ s; half = 2 ^ (s - 1)
      in if half < r \<or> r = half \<and> odd q then q + 1 else q)"

text \<open>The exponent is biased by 1023; the highest bit of the fraction is implicit, so it adds one to the exponent.\<close>

definition nat_magnitude :: "nat \<Rightarrow> nat" where
  "nat_magnitude m =
     (if m = 0 then 0
      else let e = high_bit m in (e + 1022) * 2 ^ 52 + (if e \<le> 52 then m * 2 ^ (52 - e) else round_shift m (e - 52)))"

definition double_of_int :: "int \<Rightarrow> uint64" where
  "double_of_int n = word_of_int (int (nat_magnitude (nat \<bar>n\<bar>)) + (if n < 0 then 2 ^ 63 else 0))"

subsection \<open>Integers that a double represents exactly\<close>

lemma high_bit_bounds: "0 < n \<Longrightarrow> 2 ^ high_bit n \<le> n \<and> n < 2 ^ Suc (high_bit n)"
proof (induction n rule: high_bit.induct)
  case (1 n)
  show ?case
  proof (cases "n < 2")
    case True
    then show ?thesis using 1 by (simp add: high_bit.simps [of n])
  next
    case False
    then have "2 ^ high_bit (n div 2) \<le> n div 2" "n div 2 < 2 ^ Suc (high_bit (n div 2))" using 1 by simp_all
    moreover have "high_bit n = Suc (high_bit (n div 2))" using False by (simp add: high_bit.simps [of n])
    moreover have "n = 2 * (n div 2) + n mod 2" "n mod 2 < 2" by simp_all
    ultimately have "2 * 2 ^ high_bit (n div 2) \<le> n" "n < 2 * (2 * 2 ^ high_bit (n div 2))" unfolding power_Suc by linarith+
    then show ?thesis using \<open>high_bit n = _\<close> by simp
  qed
qed

lemma high_bit_unique: "2 ^ e \<le> n \<Longrightarrow> n < 2 ^ Suc e \<Longrightarrow> high_bit n = e"
proof -
  assume a: "2 ^ e \<le> n" "n < 2 ^ Suc e"
  then have n: "0 < n" using zero_less_power [of "2::nat" e] by linarith
  have "2 ^ high_bit n < (2::nat) ^ Suc e" "(2::nat) ^ e < 2 ^ Suc (high_bit n)" using high_bit_bounds [OF n] a by linarith+
  then have "high_bit n < Suc e" "e < Suc (high_bit n)" by (simp_all only: power_strict_increasing_iff one_less_numeral_iff semiring_norm)
  then show ?thesis by simp
qed

lemma nat_magnitude_exact:
  assumes "0 < m" "m < 2 ^ 53"
  shows "nat_magnitude m = (high_bit m + 1022) * 2 ^ 52 + m * 2 ^ (52 - high_bit m)" "high_bit m \<le> 52"
    "2 ^ 52 \<le> m * 2 ^ (52 - high_bit m)" "m * 2 ^ (52 - high_bit m) < 2 ^ 53"
proof -
  note b = high_bit_bounds [OF assms(1)]
  have "(2::nat) ^ high_bit m < 2 ^ 53" using b assms(2) by linarith
  then have e: "high_bit m < 53" by (simp only: power_strict_increasing_iff one_less_numeral_iff semiring_norm)
  then show "high_bit m \<le> 52" by simp
  then show "nat_magnitude m = (high_bit m + 1022) * 2 ^ 52 + m * 2 ^ (52 - high_bit m)" using assms by (simp add: nat_magnitude_def Let_def)
  have p: "(2::nat) ^ high_bit m * 2 ^ (52 - high_bit m) = 2 ^ 52" "(2::nat) ^ Suc (high_bit m) * 2 ^ (52 - high_bit m) = 2 ^ 53"
    using e by (simp_all add: power_add [symmetric] del: power_Suc)
  show "2 ^ 52 \<le> m * 2 ^ (52 - high_bit m)" unfolding p(1) [symmetric] using b by simp
  show "m * 2 ^ (52 - high_bit m) < 2 ^ 53" unfolding p(2) [symmetric] using b by simp
qed

lemma nat_magnitude_strict:
  assumes "m < n" "n \<le> 2 ^ 53"
  shows "nat_magnitude m < nat_magnitude n" "nat_magnitude n < 2047 * 2 ^ 52"
proof -
  have top: "nat_magnitude (2 ^ 53) = 1076 * 2 ^ 52"
  proof -
    have "high_bit (2 ^ 53) = 53" by (rule high_bit_unique) simp_all
    then have "nat_magnitude (2 ^ 53) = (53 + 1022) * 2 ^ 52 + round_shift (2 ^ 53) 1"
      unfolding nat_magnitude_def Let_def by (simp only: if_False) simp
    then show ?thesis by (simp add: round_shift_def Let_def)
  qed
  have small: "nat_magnitude k < 1076 * 2 ^ 52" if "k < 2 ^ 53" for k
  proof (cases "k = 0")
    case True
    then show ?thesis by (simp add: nat_magnitude_def)
  next
    case False
    note x = nat_magnitude_exact [OF _ that] 
    have "(high_bit k + 1022) * 2 ^ 52 \<le> 1074 * (2::nat) ^ 52" using x(2) False by simp
    then show ?thesis using x(1,4) False by simp
  qed
  show "nat_magnitude n < 2047 * 2 ^ 52" using small [of n] top assms(2) by (cases "n = 2 ^ 53") auto
  show "nat_magnitude m < nat_magnitude n"
  proof (cases "n = 2 ^ 53")
    case True
    then show ?thesis using small [of m] top assms by simp
  next
    case False
    then have n: "0 < n" "n < 2 ^ 53" using assms by simp_all
    note xn = nat_magnitude_exact [OF n]
    show ?thesis
    proof (cases "m = 0")
      case True
      then show ?thesis using xn(1,3) by (simp add: nat_magnitude_def)
    next
      case m0: False
      then have m: "0 < m" "m < 2 ^ 53" using assms n by simp_all
      note xm = nat_magnitude_exact [OF m]
      have "(2::nat) ^ high_bit m < 2 ^ Suc (high_bit n)" using high_bit_bounds [OF m(1)] high_bit_bounds [OF n(1)] assms(1) by linarith
      then have "high_bit m < Suc (high_bit n)" by (simp only: power_strict_increasing_iff one_less_numeral_iff semiring_norm)
      then consider "high_bit m = high_bit n" | "Suc (high_bit m) \<le> high_bit n" by linarith
      then show ?thesis
      proof cases
        case 1
        then have "m * 2 ^ (52 - high_bit m) < n * 2 ^ (52 - high_bit n)" using assms(1) by simp
        then show ?thesis using xm(1) xn(1) 1 by simp
      next
        case 2
        then have "(high_bit m + 1022) * 2 ^ 52 + 2 ^ 52 \<le> (high_bit n + 1022) * (2::nat) ^ 52" by simp
        then show ?thesis unfolding xm(1) xn(1) using xm(4) xn(3) power_Suc [of "2::nat" 52] by simp
      qed
    qed
  qed
qed

lemma double_key_int:
  assumes "\<bar>n\<bar> \<le> 2 ^ 53"
  shows "double_key (double_of_int n) = (if n < 0 then - int (nat_magnitude (nat \<bar>n\<bar>)) else int (nat_magnitude (nat \<bar>n\<bar>)))"
    "\<not> isNaN (double_of_int n)"
proof -
  have b: "nat_magnitude (nat \<bar>n\<bar>) < 2047 * 2 ^ 52"
  proof (cases "n = 0")
    case True
    then show ?thesis by (simp add: nat_magnitude_def)
  next
    case False
    then show ?thesis using nat_magnitude_strict(2) [of 0 "nat \<bar>n\<bar>"] assms by simp
  qed
  have u: "uint (double_of_int n) = int (nat_magnitude (nat \<bar>n\<bar>)) + (if n < 0 then 2 ^ 63 else 0)"
  proof -
    have "uint (word_of_int (int x + (if c then 2 ^ 63 else 0)) :: uint64) = int x + (if c then 2 ^ 63 else 0)"
      if "x < 2047 * 2 ^ 52" for x c
      using that unfolding uint_word_of_int by (subst mod_pos_pos_trivial) simp_all
    then show ?thesis using b unfolding double_of_int_def by blast
  qed
  have "double_key d = (if c then - int x else int x) \<and> \<not> isNaN d"
    if "uint d = int x + (if c then 2 ^ 63 else 0)" "x < 2047 * 2 ^ 52" for d :: uint64 and x c
    using that by (cases c) (simp_all add: double_key_def isNaN_def double_magnitude_def)
  from this [OF u b]
  show "double_key (double_of_int n) = (if n < 0 then - int (nat_magnitude (nat \<bar>n\<bar>)) else int (nat_magnitude (nat \<bar>n\<bar>)))"
    "\<not> isNaN (double_of_int n)" by blast+
qed

lemma double_key_mono:
  assumes "\<bar>m\<bar> \<le> 2 ^ 53" "\<bar>n\<bar> \<le> 2 ^ 53"
  shows "double_key (double_of_int m) < double_key (double_of_int n) \<longleftrightarrow> m < n"
proof -
  have less: "double_key (double_of_int a) < double_key (double_of_int b)" if "a < b" "\<bar>a\<bar> \<le> 2 ^ 53" "\<bar>b\<bar> \<le> 2 ^ 53" for a b
  proof -
    consider "0 \<le> a" | "a < 0" "0 \<le> b" | "b < 0" by linarith
    then show ?thesis
    proof cases
      case 1
      then show ?thesis using nat_magnitude_strict(1) [of "nat \<bar>a\<bar>" "nat \<bar>b\<bar>"] that by (simp add: double_key_int)
    next
      case 2
      then have "0 < nat_magnitude (nat \<bar>a\<bar>)" using nat_magnitude_strict(1) [of 0 "nat \<bar>a\<bar>"] that by (simp add: nat_le_iff)
      then show ?thesis using 2 that by (simp add: double_key_int)
    next
      case 3
      then show ?thesis using nat_magnitude_strict(1) [of "nat \<bar>b\<bar>" "nat \<bar>a\<bar>"] that by (simp add: double_key_int)
    qed
  qed
  show ?thesis using less [of m n] less [of n m] assms by (cases m n rule: linorder_cases) auto
qed

end
