(* ===== verification/Bson_Compare.thy ===== *)
theory Bson_Compare
  imports Bson_Double Bson_Object String_Data
begin

unbundle bit_operations_syntax

text \<open>
  The order of BSON values: \<open>compareElementValues\<close> and \<open>BSONElement::woCompare\<close> of \<open>bson-inl.h\<close>, \<open>BSONObj::woCompare\<close> of
  \<open>jsobj.cpp\<close>, \<open>Ordering\<close> of \<open>ordering.h\<close>. All of them work on the bytes of two elements or objects. Comparing objects inside
  objects recurses; the argument \<open>fuel\<close> bounds the number of calls, and the result is \<open>None\<close> when it does not suffice.
\<close>

subsection \<open>Memory\<close>

definition read_word :: "string \<Rightarrow> uint64 result" where
  "read_word p = (if length p < 8 then Inl UndefinedBehaviour else Inr (of_nat (le_value (take 8 p))))"

fun strcmp :: "string \<Rightarrow> string \<Rightarrow> int result" where
  "strcmp (x # xs) (y # ys) =
     (if x \<noteq> y then Inr (if x < y then -1 else 1) else if x = nul then Inr 0 else strcmp xs ys)"
| "strcmp _ _ = Inl UndefinedBehaviour"

text \<open>A negative length is a huge one after conversion to \<open>size_t\<close>.\<close>

definition memcmp_at :: "string \<Rightarrow> string \<Rightarrow> int \<Rightarrow> int result" where
  "memcmp_at p q n =
     (if n < 0 \<or> int (length p) < n \<or> int (length q) < n then Inl UndefinedBehaviour
      else Inr (memcmp (take (nat n) p) (take (nat n) q)))"

definition three :: "'a::linorder \<Rightarrow> 'a \<Rightarrow> int" where
  "three a b = (if a < b then -1 else if a = b then 0 else 1)"

subsection \<open>Parts of an element\<close>

definition elem_canonicalType :: "string \<Rightarrow> int result" where
  "elem_canonicalType e =
     bindE (elem_type e) (\<lambda>t. case BSONType_of_int t of None \<Rightarrow> Inl Verify | Some t \<Rightarrow> Inr (canonicalizeBSONType t))"

definition elem_isNumber :: "string \<Rightarrow> bool result" where
  "elem_isNumber e = bindE (elem_type e) (\<lambda>t. Inr (t \<in> BSONType_to_int ` {NumberLong, NumberDouble, NumberInt}))"

definition numberDouble :: "string \<Rightarrow> uint64 result" where
  "numberDouble e =
     bindE (elem_type e) (\<lambda>t.
       case BSONType_of_int t of
         Some NumberDouble \<Rightarrow> bindE (elem_value e) read_word
       | Some NumberInt \<Rightarrow> bindE (elem_value e) (\<lambda>p. bindE (read_int p) (\<lambda>n. Inr (double_of_int n)))
       | Some NumberLong \<Rightarrow> bindE (elem_value e) (\<lambda>p. bindE (read_word p) (\<lambda>w. Inr (double_of_int (sint w))))
       | _ \<Rightarrow> Inr 0)"

definition elem_regex :: "string \<Rightarrow> string result" where
  "elem_regex e = bindE (elem_type e) (\<lambda>t. if t \<noteq> BSONType_to_int RegEx then Inl Verify else elem_value e)"

definition regexFlags :: "string \<Rightarrow> string result" where
  "regexFlags e = bindE (elem_regex e) (\<lambda>p. bindE (strlen p) (\<lambda>n. Inr (drop (n + 1) p)))"

definition codeWScopeCode :: "string \<Rightarrow> string result" where
  "codeWScopeCode e =
     bindE (elem_type e) (\<lambda>t.
       if t \<noteq> BSONType_to_int CodeWScope then Inl (UAssert 16177) else bindE (elem_value e) (\<lambda>p. Inr (drop 8 p)))"

definition codeWScopeScopeDataUnsafe :: "string \<Rightarrow> string result" where
  "codeWScopeScopeDataUnsafe e = bindE (codeWScopeCode e) (\<lambda>p. bindE (strlen p) (\<lambda>n. Inr (drop (n + 1) p)))"

text \<open>\<open>Date()\<close> checks the type, \<open>date()\<close> does not.\<close>

definition elem_Date :: "string \<Rightarrow> uint64 result" where
  "elem_Date e =
     bindE (elem_type e) (\<lambda>t. if t \<noteq> BSONType_to_int Date then Inl (UAssert 13111) else bindE (elem_value e) read_word)"

subsection \<open>Values without elements inside\<close>

definition compare_doubles :: "uint64 \<Rightarrow> uint64 \<Rightarrow> int" where
  "compare_doubles left right =
     (if double_less left right then -1
      else if double_eq left right then 0
      else if isNaN left then (if isNaN right then 0 else -1)
      else 1)"

definition compare_numbers :: "BSONType \<Rightarrow> string \<Rightarrow> string \<Rightarrow> int result" where
  "compare_numbers t l r =
     bindE (elem_type r) (\<lambda>rt.
       if t = NumberLong \<and> rt = BSONType_to_int NumberLong then
         bindE (elem_value l) (\<lambda>p. bindE (read_word p) (\<lambda>a. bindE (elem_value r) (\<lambda>q. bindE (read_word q) (\<lambda>b.
           Inr (three (sint a) (sint b))))))
       else if t = NumberInt \<and> rt = BSONType_to_int NumberInt then
         bindE (elem_value l) (\<lambda>p. bindE (read_int p) (\<lambda>a. bindE (elem_value r) (\<lambda>q. bindE (read_int q) (\<lambda>b.
           Inr (three a b)))))
       else bindE (numberDouble l) (\<lambda>a. bindE (numberDouble r) (\<lambda>b. Inr (compare_doubles a b))))"

definition compare_strings :: "string \<Rightarrow> string \<Rightarrow> int result" where
  "compare_strings p q =
     bindE (read_int p) (\<lambda>lsz. bindE (read_int q) (\<lambda>rsz.
     bindE (memcmp_at (drop 4 p) (drop 4 q) (min lsz rsz)) (\<lambda>res.
       if res \<noteq> 0 then Inr res else checked32 (lsz - rsz))))"

definition compare_sized :: "int \<Rightarrow> int \<Rightarrow> string \<Rightarrow> string \<Rightarrow> int result \<Rightarrow> int result" where
  "compare_sized lsz rsz p q n =
     bindE (checked32 (lsz - rsz)) (\<lambda>diff. if diff \<noteq> 0 then Inr diff else bindE n (memcmp_at p q))"

definition compare_leaf :: "BSONType \<Rightarrow> string \<Rightarrow> string \<Rightarrow> int result" where
  "compare_leaf t l r =
     (if t \<in> {EOO, Undefined, jstNULL, MaxKey, MinKey} then
        bindE (elem_canonicalType l) (\<lambda>a. bindE (elem_canonicalType r) (\<lambda>b. Inr (three (a - b) 0)))
      else if t \<in> {NumberLong, NumberInt, NumberDouble} then compare_numbers t l r
      else if t = Date then
        bindE (elem_Date l) (\<lambda>a. bindE (elem_Date r) (\<lambda>b. Inr (three (sint a) (sint b))))
      else if t = RegEx then
        bindE (elem_regex l) (\<lambda>p. bindE (elem_regex r) (\<lambda>q. bindE (strcmp p q) (\<lambda>c.
          if c \<noteq> 0 then Inr c
          else bindE (regexFlags l) (\<lambda>p. bindE (regexFlags r) (\<lambda>q. strcmp p q)))))
      else if t = CodeWScope then
        bindE (elem_canonicalType l) (\<lambda>a. bindE (elem_canonicalType r) (\<lambda>b.
          if a - b \<noteq> 0 then Inr (a - b)
          else
            bindE (codeWScopeCode l) (\<lambda>p. bindE (codeWScopeCode r) (\<lambda>q. bindE (strcmp p q) (\<lambda>c.
              if c \<noteq> 0 then Inr c
              else bindE (codeWScopeScopeDataUnsafe l) (\<lambda>p. bindE (codeWScopeScopeDataUnsafe r) (\<lambda>q. strcmp p q)))))))
      else
        bindE (elem_value l) (\<lambda>p. bindE (elem_value r) (\<lambda>q.
          if t = Bool then
            (case (p, q) of (c # _, d # _) \<Rightarrow> Inr (signed_char c - signed_char d) | _ \<Rightarrow> Inl UndefinedBehaviour)
          else if t = Timestamp then bindE (read_word p) (\<lambda>a. bindE (read_word q) (\<lambda>b. Inr (three (uint a) (uint b))))
          else if t = jstOID then memcmp_at p q 12
          else if t \<in> {Code, Symbol, String} then compare_strings p q
          else if t = DBRef then
            bindE (elem_valuesize l) (\<lambda>lsz. bindE (elem_valuesize r) (\<lambda>rsz. compare_sized lsz rsz p q (Inr lsz)))
          else if t = BinData then
            bindE (read_int p) (\<lambda>lsz. bindE (read_int q) (\<lambda>rsz.
              compare_sized lsz rsz (drop 4 p) (drop 4 q) (checked32 (lsz + 1))))
          else Inl Verify)))"

subsection \<open>Objects\<close>

text \<open>Which of the fields are compared in descending order: given by the bits of an \<open>Ordering\<close>, or by the fields of a key pattern.\<close>

datatype direction = Ascending | By_Bits "32 word" "32 word" | By_Key bson_iter

definition next_direction :: "direction \<Rightarrow> ((bool result) \<times> direction) result" where
  "next_direction dir =
     (case dir of
        Ascending \<Rightarrow> Inr (Inr False, Ascending)
      | By_Bits bits bit_mask \<Rightarrow> Inr (Inr ((bits AND bit_mask) \<noteq> 0), By_Bits bits (push_bit 1 bit_mask))
      | By_Key k \<Rightarrow> bindE (iter_next k) (\<lambda>(o1, k). Inr (bindE (numberDouble o1) (\<lambda>x. Inr (double_less x 0)), By_Key k)))"

datatype compare_task = Values string string | Fields bson_iter bson_iter direction bool

definition isEmpty :: "string \<Rightarrow> bool result" where
  "isEmpty obj = bindE (objsize obj) (\<lambda>n. Inr (n \<le> 5))"

definition start_fields :: "(compare_task \<Rightarrow> int result option) \<Rightarrow> string \<Rightarrow> string \<Rightarrow> direction result \<Rightarrow> bool \<Rightarrow> int result option" where
  "start_fields rec l r dir considerFieldName =
     bindO (Some (isEmpty l)) (\<lambda>le. bindO (Some (isEmpty r)) (\<lambda>re.
       if le then Some (Inr (if re then 0 else -1))
       else if re then Some (Inr 1)
       else
         bindO (Some (BSONObjIterator l)) (\<lambda>i. bindO (Some (BSONObjIterator r)) (\<lambda>j. bindO (Some dir) (\<lambda>dir.
           rec (Fields i j dir considerFieldName))))))"

definition compare_elements :: "(compare_task \<Rightarrow> int result option) \<Rightarrow> string \<Rightarrow> string \<Rightarrow> bool \<Rightarrow> int result option" where
  "compare_elements rec l r considerFieldName =
     bindO (Some (elem_canonicalType l)) (\<lambda>lt. bindO (Some (elem_canonicalType r)) (\<lambda>rt.
     bindO (Some (elem_isNumber l)) (\<lambda>ln. bindO (Some (elem_isNumber r)) (\<lambda>rn.
       let x = lt - rt
       in if x \<noteq> 0 \<and> (\<not> ln \<or> \<not> rn) then Some (Inr x)
          else
            bindO (Some (if considerFieldName
                then bindE (elem_eoo l) (\<lambda>le. bindE (elem_eoo r) (\<lambda>re.
                  strcmp (if le then [nul] else tl l) (if re then [nul] else tl r)))
                else Inr 0)) (\<lambda>x.
              if x \<noteq> 0 then Some (Inr x) else rec (Values l r))))))"

primrec compare_run :: "nat \<Rightarrow> compare_task \<Rightarrow> int result option" where
  "compare_run 0 task = None"
| "compare_run (Suc fuel) task =
     (case task of
        Values l r \<Rightarrow>
          bindO (Some (elem_type l)) (\<lambda>t.
            case BSONType_of_int t of
              None \<Rightarrow> Some (Inl Verify)
            | Some t \<Rightarrow>
                if t \<in> {Object, Array} then
                  bindO (Some (embeddedObject l)) (\<lambda>p. bindO (Some (embeddedObject r)) (\<lambda>q.
                    start_fields (compare_run fuel) p q (Inr Ascending) True))
                else Some (compare_leaf t l r))
      | Fields i j dir considerFieldName \<Rightarrow>
          bindO (Some (iter_next i)) (\<lambda>(l, i). bindO (Some (iter_next j)) (\<lambda>(r, j).
          bindO (Some (next_direction dir)) (\<lambda>(descending, dir).
          bindO (Some (elem_eoo l)) (\<lambda>le. bindO (Some (elem_eoo r)) (\<lambda>re.
            if le then Some (Inr (if re then 0 else -1))
            else if re then Some (Inr 1)
            else
              bindO (compare_elements (compare_run fuel) l r considerFieldName) (\<lambda>x.
              bindO (Some descending) (\<lambda>neg.
              bindO (Some (if neg then checked32 (- x) else Inr x)) (\<lambda>x.
                if x \<noteq> 0 then Some (Inr x) else compare_run fuel (Fields i j dir considerFieldName))))))))))"

definition elem_woCompare :: "nat \<Rightarrow> string \<Rightarrow> string \<Rightarrow> bool \<Rightarrow> int result option" where
  "elem_woCompare fuel l r considerFieldName = compare_elements (compare_run fuel) l r considerFieldName"

definition woCompare_key :: "nat \<Rightarrow> string \<Rightarrow> string \<Rightarrow> string \<Rightarrow> bool \<Rightarrow> int result option" where
  "woCompare_key fuel l r idxKey considerFieldName =
     start_fields (compare_run fuel) l r
       (bindE (isEmpty idxKey) (\<lambda>e. if e then Inr Ascending else bindE (BSONObjIterator idxKey) (\<lambda>k. Inr (By_Key k)))) considerFieldName"

definition woCompare :: "nat \<Rightarrow> string \<Rightarrow> string \<Rightarrow> int result option" where
  "woCompare fuel l r = woCompare_key fuel l r empty_object True"

text \<open>\<open>Ordering\<close>\<close>

primrec Ordering_loop :: "nat \<Rightarrow> 32 word \<Rightarrow> nat \<Rightarrow> bson_iter \<Rightarrow> 32 word result option" where
  "Ordering_loop 0 b n k = None"
| "Ordering_loop (Suc fuel) b n k =
     bindO (Some (iter_next k)) (\<lambda>(e, k). bindO (Some (elem_eoo e)) (\<lambda>eoo.
       if eoo then Some (Inr b)
       else if \<not> n \<le> 31 then Some (Inl (UAssert 13103))
       else bindO (Some (numberDouble e)) (\<lambda>x.
         Ordering_loop fuel (if double_less x 0 then b OR push_bit n 1 else b) (Suc n) k)))"

definition Ordering_make :: "nat \<Rightarrow> string \<Rightarrow> 32 word result option" where
  "Ordering_make fuel obj = bindO (Some (BSONObjIterator obj)) (Ordering_loop fuel 0 0)"

definition woCompare_ordering :: "nat \<Rightarrow> string \<Rightarrow> string \<Rightarrow> 32 word \<Rightarrow> bool \<Rightarrow> int result option" where
  "woCompare_ordering fuel l r bits considerFieldName = start_fields (compare_run fuel) l r (Inr (By_Bits bits 1)) considerFieldName"

text \<open>Deep equality: the loop ends at the first field that differs.\<close>

primrec equal_loop :: "nat \<Rightarrow> nat \<Rightarrow> bson_iter \<Rightarrow> bson_iter \<Rightarrow> bool result option" where
  "equal_loop 0 depth i j = None"
| "equal_loop (Suc fuel) depth i j =
     bindO (Some (iter_next i)) (\<lambda>(l, i). bindO (Some (iter_next j)) (\<lambda>(r, j).
     bindO (Some (elem_eoo l)) (\<lambda>le.
       if le then bindO (Some (elem_eoo r)) (\<lambda>re. Some (Inr re))
       else bindO (elem_woCompare depth l r True) (\<lambda>x. if x = 0 then equal_loop fuel depth i j else Some (Inr False)))))"

definition BSONObj_equal :: "nat \<Rightarrow> string \<Rightarrow> string \<Rightarrow> bool result option" where
  "BSONObj_equal fuel l r =
     bindO (Some (BSONObjIterator l)) (\<lambda>i. bindO (Some (BSONObjIterator r)) (\<lambda>j. equal_loop fuel fuel i j))"

text \<open>\<open>isPrefixOf\<close>\<close>

primrec isPrefixOf_loop :: "nat \<Rightarrow> nat \<Rightarrow> bson_iter \<Rightarrow> bson_iter \<Rightarrow> bool result option" where
  "isPrefixOf_loop 0 depth a b = None"
| "isPrefixOf_loop (Suc fuel) depth a b =
     (if iter_more a \<and> iter_more b then
        bindO (Some (iter_next a)) (\<lambda>(x, a). bindO (Some (iter_next b)) (\<lambda>(y, b).
        bindO (elem_woCompare depth x y True) (\<lambda>c. if c \<noteq> 0 then Some (Inr False) else isPrefixOf_loop fuel depth a b)))
      else Some (Inr (\<not> iter_more a)))"

definition isPrefixOf :: "nat \<Rightarrow> string \<Rightarrow> string \<Rightarrow> bool result option" where
  "isPrefixOf fuel obj otherObj =
     bindO (Some (BSONObjIterator obj)) (\<lambda>a. bindO (Some (BSONObjIterator otherObj)) (\<lambda>b. isPrefixOf_loop fuel fuel a b))"

text \<open>\<open>woSortOrder\<close> compares the values of the fields that a sort key names; a missing field counts as null.\<close>

definition static_null :: string where
  "static_null = encode_elem ([], VNull) @ [nul]"

definition or_static_null :: "string \<Rightarrow> string result" where
  "or_static_null e = bindE (elem_eoo e) (\<lambda>eoo. Inr (if eoo then static_null else e))"

primrec woSortOrder_loop :: "nat \<Rightarrow> nat \<Rightarrow> string \<Rightarrow> string \<Rightarrow> bool \<Rightarrow> bson_iter \<Rightarrow> int result option" where
  "woSortOrder_loop 0 depth obj other useDotted i = None"
| "woSortOrder_loop (Suc fuel) depth obj other useDotted i =
     bindO (Some (iter_next i)) (\<lambda>(f, i). bindO (Some (elem_eoo f)) (\<lambda>eoo.
       if eoo then Some (Inr 0)
       else
         bindO (Some (fieldName f)) (\<lambda>name.
         bindO (if useDotted then getFieldDotted obj name else getField obj name) (\<lambda>l. bindO (Some (or_static_null l)) (\<lambda>l.
         bindO (if useDotted then getFieldDotted other name else getField other name) (\<lambda>r. bindO (Some (or_static_null r)) (\<lambda>r.
         bindO (elem_woCompare depth l r False) (\<lambda>x.
         bindO (Some (numberDouble f)) (\<lambda>d.
         bindO (Some (if double_less d 0 then checked32 (- x) else Inr x)) (\<lambda>x.
           if x \<noteq> 0 then Some (Inr x) else woSortOrder_loop fuel depth obj other useDotted i))))))))))"

definition woSortOrder :: "nat \<Rightarrow> string \<Rightarrow> string \<Rightarrow> string \<Rightarrow> bool \<Rightarrow> int result option" where
  "woSortOrder fuel obj other sortKey useDotted =
     bindO (Some (isEmpty obj)) (\<lambda>le. bindO (Some (isEmpty other)) (\<lambda>re.
       if le then Some (Inr (if re then 0 else -1))
       else if re then Some (Inr 1)
       else
         bindO (Some (isEmpty sortKey)) (\<lambda>ke.
           if ke then Some (Inl (UAssert 10060))
           else bindO (Some (BSONObjIterator sortKey)) (woSortOrder_loop fuel fuel obj other useDotted))))"

end
