(* ===== verification/Bson_Order.thy ===== *)
theory Bson_Order
  imports Bson_Compare
begin

text \<open>
  What the comparison means: a document has a sort key, a list of integers, and comparing two documents compares
  their sort keys lexicographically.
\<close>

subsection \<open>Lists that are equal or differ at a position\<close>

text \<open>Only such lists can be compared part by part.\<close>

fun sep :: "int list \<Rightarrow> int list \<Rightarrow> bool" where
  "sep [] [] \<longleftrightarrow> True"
| "sep (x # xs) (y # ys) \<longleftrightarrow> (x = y \<longrightarrow> sep xs ys)"
| "sep _ _ \<longleftrightarrow> False"

lemma three_cases: "three a b = -1 \<or> three a b = 0 \<or> three a b = 1"
  by (simp add: three_def)

lemma sgn_three [simp]: "sgn (three a b) = three a b"
  by (simp add: three_def)

lemma three_zero [simp]: "three a b = 0 \<longleftrightarrow> a = b"
  by (simp add: three_def)

lemma three_Cons: "three (x # xs) (y # ys) = (if x = y then three xs ys else three x y)"
  by (auto simp: three_def)

lemma three_minus [simp]: "three (- a) (- b) = - three a (b::int)"
  by (auto simp: three_def)

lemma three_same [simp]: "three a a = 0"
  by (simp add: three_def)

lemma three_range [simp]: "\<bar>three a b\<bar> < 2147483648"
  by (simp add: three_def)

lemma three_add [simp]: "three (a + c) (b + c) = three a (b::int)"
  by (simp add: three_def)

lemma three_int_diff: "three (a::int) b = sgn (a - b)"
  by (simp add: three_def)

lemma sep_append: "sep a b \<Longrightarrow> (a = b \<Longrightarrow> sep c d) \<Longrightarrow> sep (a @ c) (b @ d)"
  by (induction a b rule: sep.induct) auto

lemma three_append: "sep a b \<Longrightarrow> three (a @ c) (b @ d) = (if a = b then three c d else three a b)"
  by (induction a b rule: sep.induct) (auto simp: three_Cons)

lemma sep_length: "length a = length b \<Longrightarrow> sep a b"
  by (induction a b rule: sep.induct) auto

lemma sep_minus: "sep a b \<Longrightarrow> sep (map uminus a) (map uminus b) \<and> three (map uminus a) (map uminus b) = - three a b"
  by (induction a b rule: sep.induct) (auto simp: three_Cons) 

subsection \<open>Sort keys\<close>

definition code :: "char \<Rightarrow> int" where
  "code c = int (of_char c)"

definition number_key :: "uint64 \<Rightarrow> int" where
  "number_key d = (if isNaN d then - (2 ^ 64) else double_key d)"

definition string_key :: "string \<Rightarrow> int list" where
  "string_key s = map (\<lambda>c. code c + 1) s @ [0]"

definition cstring_key :: "string \<Rightarrow> int list" where
  "cstring_key s = map code (takeWhile (\<lambda>c. c \<noteq> nul) s) @ [0]"

definition canonical :: "bson_value \<Rightarrow> int" where
  "canonical v = canonicalizeBSONType (value_type v)"

lemma canonical_simps [simp]:
  "canonical (VDouble d) = 10" "canonical (VInt n) = 10" "canonical (VLong l) = 10" "canonical (VString s) = 15"
  "canonical (VSymbol s) = 15" "canonical (VObject es) = 20" "canonical (VArray es) = 25" "canonical (VBinData t s) = 30"
  "canonical (VOID s) = 35" "canonical (VBool x) = 40" "canonical (VDate d) = 45" "canonical (VTimestamp d) = 45"
  "canonical (VRegEx s t') = 50" "canonical (VDBRef s t') = 55" "canonical (VCode s) = 60" "canonical (VCodeWScope s es) = 65"
  "canonical VUndefined = 0" "canonical VNull = 5" "canonical VMinKey = -1" "canonical VMaxKey = 127"
  by (simp_all add: canonical_def canonicalizeBSONType_def BSONType_to_int_def BSONType_table_def)

text \<open>The key of a field begins with 0, the end of the fields is -1.\<close>

fun value_key :: "bson_value \<Rightarrow> int list" and fields_key :: "bson_elem list \<Rightarrow> int list" where
  "value_key (VDouble d) = [number_key d]"
| "value_key (VInt n) = [number_key (double_of_int (sint n))]"
| "value_key (VLong n) = [number_key (double_of_int (sint n))]"
| "value_key (VString s) = string_key s"
| "value_key (VSymbol s) = string_key s"
| "value_key (VCode s) = string_key s"
| "value_key (VObject es) = fields_key es"
| "value_key (VArray es) = fields_key es"
| "value_key (VBinData t bs) = int (length bs) # map code (t # bs)"
| "value_key (VOID bs) = map code bs"
| "value_key (VBool b) = [of_bool b]"
| "value_key (VDate d) = [sint d]"
| "value_key (VTimestamp d) = [uint d]"
| "value_key (VRegEx r f) = cstring_key r @ cstring_key f"
| "value_key (VDBRef ns bs) = int (length (encode_value (VDBRef ns bs))) # map code (encode_value (VDBRef ns bs))"
| "value_key (VCodeWScope c es) = cstring_key c @ cstring_key (encode es)"
| "value_key v = []"
| "fields_key [] = [-1]"
| "fields_key ((n, v) # es) = 0 # canonical v # cstring_key n @ value_key v @ fields_key es"

text \<open>
  The order is one only where integers are exact as numbers of type \<open>double\<close>, and only when dates and timestamps
  are not mixed: \<open>stamps\<close> says which of the two there are. The code of a function with a scope has no NUL inside.
\<close>

fun sortable :: "bool \<Rightarrow> bson_value \<Rightarrow> bool" and sortables :: "bool \<Rightarrow> bson_elem list \<Rightarrow> bool" where
  "sortable stamps (VLong n) \<longleftrightarrow> \<bar>sint n\<bar> \<le> 2 ^ 53"
| "sortable stamps (VDate d) \<longleftrightarrow> \<not> stamps"
| "sortable stamps (VTimestamp d) \<longleftrightarrow> stamps"
| "sortable stamps (VCodeWScope c es) \<longleftrightarrow> nul \<notin> set c"
| "sortable stamps (VObject es) \<longleftrightarrow> sortables stamps es"
| "sortable stamps (VArray es) \<longleftrightarrow> sortables stamps es"
| "sortable stamps v \<longleftrightarrow> True"
| "sortables stamps [] \<longleftrightarrow> True"
| "sortables stamps ((n, v) # es) \<longleftrightarrow> sortable stamps v \<and> sortables stamps es"

lemma value_key_container: "container v \<Longrightarrow> value_key v = fields_key (sub_elems v)"
  by (cases v) (simp_all add: container_def sub_elems_def)

lemma sortable_sub_elems: "sortable stamps v \<Longrightarrow> sortables stamps (sub_elems v)"
  by (cases v) (simp_all add: sub_elems_def)

subsection \<open>Bytes\<close>

lemma code_less [simp]: "code x < code y \<longleftrightarrow> x < y" "code x = code y \<longleftrightarrow> x = y"
  by (simp_all add: code_def less_char_def)

lemma code_bounds: "0 \<le> code c" "code c < 256" "code c = 0 \<longleftrightarrow> c = nul" "code nul = 0"
proof -
  show "0 \<le> code c" "code c < 256" by (simp_all add: code_def)
  show n: "code nul = 0" by (simp add: code_def nul_def)
  show "code c = 0 \<longleftrightarrow> c = nul" using code_less(2) [of c nul] by (simp add: n)
qed

lemma nul_least [simp]: "nul < c \<longleftrightarrow> c \<noteq> nul" "\<not> c < nul"
  using code_less(1) [of nul c] code_less(1) [of c nul] code_bounds(1-3) [of c] code_bounds(4) by auto

lemma three_code_char [simp]: "three (code x) (code y) = three x y"
  by (simp add: three_def)

lemma three_code: "three (map code a) (map code b) = three a b"
proof -
  have "map code a < map code b \<longleftrightarrow> a < b" "map code a = map code b \<longleftrightarrow> a = b"
    by (induction a b rule: list_induct2') auto
  then show ?thesis by (simp add: three_def)
qed

lemma memcmp_key:
  assumes "length a = length b"
  shows "memcmp a b = three (map code a) (map code b)" "sep (map code a) (map code b)"
  using assms by (induction a b rule: list_induct2) (auto simp: three_Cons three_def)

lemma strcmp_key:
  assumes "nul \<in> set p" "nul \<in> set q"
  shows "strcmp p q = Inr (three (cstring_key p) (cstring_key q)) \<and> sep (cstring_key p) (cstring_key q)"
  using assms
proof (induction p q rule: strcmp.induct)
  case (1 x xs y ys)
  have b: "0 \<le> code x" "0 \<le> code y" "code x = 0 \<longleftrightarrow> x = nul" "code y = 0 \<longleftrightarrow> y = nul" by (rule code_bounds)+
  have neq: "x \<noteq> y \<Longrightarrow> code x \<noteq> code y" by simp
  show ?case
  proof (cases "x = y")
    case True
    then show ?thesis using 1 by (auto simp: cstring_key_def three_Cons)
  next
    case False
    then show ?thesis using b neq by (auto simp: cstring_key_def three_Cons) (auto simp: three_def)
  qed
qed auto

subsection \<open>Values without elements\<close>

text \<open>A comparison returns a number of the type \<open>int\<close> with the sign of the comparison of keys that can be compared in parts.\<close>

definition decides :: "int result \<Rightarrow> int list \<Rightarrow> int list \<Rightarrow> bool" where
  "decides r a b \<longleftrightarrow> (\<exists>x. r = Inr x \<and> \<bar>x\<bar> < 2 ^ 31 \<and> sgn x = three a b) \<and> sep a b"

lemma decides_three: "sep a b \<Longrightarrow> decides (Inr (three a b)) a b"
  by (auto simp: decides_def three_def)

lemma decides_one [simp]: "decides (Inr (three x y)) [x] [y]"
  by (simp add: decides_def three_Cons)

lemma compare_strings_key:
  assumes "length (sized_string s) < 2 ^ 31" "length (sized_string t) < 2 ^ 31"
  shows "decides (compare_strings (sized_string s @ p) (sized_string t @ q)) (string_key s) (string_key t)"
proof -
  let ?a = "cstring s" and ?b = "cstring t"
  let ?m = "min (length ?a) (length ?b)"
  let ?res = "memcmp (take ?m ?a) (take ?m ?b)"
  have key: "sgn (if ?res \<noteq> 0 then ?res else int (length ?a) - int (length ?b)) = three (string_key s) (string_key t) \<and>
      sep (string_key s) (string_key t)"
  proof (induction s t rule: list_induct2')
    case 1
    then show ?case by (simp add: string_key_def cstring_def)
  next
    case (2 x xs)
    then show ?case using code_bounds(1) [of x] by (auto simp: string_key_def cstring_def three_Cons) (auto simp: three_def)
  next
    case (3 y ys)
    then show ?case using code_bounds(1) [of y] by (auto simp: string_key_def cstring_def three_Cons) (auto simp: three_def)
  next
    case (4 x xs y ys)
    show ?case
    proof (cases "x = y")
      case True
      then show ?thesis using 4 by (auto simp: string_key_def cstring_def three_Cons split: if_splits)
    next
      case False
      then have "three x y = (if x < y then -1 else 1)" by (simp add: three_def)
      then show ?thesis using False by (simp add: string_key_def cstring_def three_Cons)
    qed
  qed
  have m: "min (int (length ?a)) (int (length ?b)) = int ?m" by simp
  have "memcmp_at (?a @ p) (?b @ q) (int ?m) = Inr ?res"
    unfolding memcmp_at_def nat_int by (auto simp: min_def)
  then have "compare_strings (sized_string s @ p) (sized_string t @ q) =
      Inr (if ?res \<noteq> 0 then ?res else int (length ?a) - int (length ?b))"
    using assms m by (simp add: compare_strings_def sized_string_def read_int_bytes checked32_def)
  then show ?thesis using key memcmp_cases [of "take ?m ?a" "take ?m ?b"] assms by (auto simp: decides_def)
qed

lemma compare_sized_key:
  assumes "length a = length b \<Longrightarrow> n = Inr (int (length a)) \<and> p = a @ p' \<and> q = b @ q'" "int (length a) = lsz + k" "int (length b) = rsz + k"
    "0 \<le> lsz" "0 \<le> rsz" "lsz < 2 ^ 31" "rsz < 2 ^ 31"
  shows "decides (compare_sized lsz rsz p q n) (lsz # map code a) (rsz # map code b)"
proof (cases "lsz = rsz")
  case True
  then have len: "length a = length b" using assms(2,3) by simp
  then show ?thesis using assms(1) True memcmp_cases [of a b] memcmp_key [OF len]
    by (auto simp: compare_sized_def memcmp_at_def checked32_def decides_def three_Cons)
next
  case False
  then show ?thesis using assms(4-7) by (auto simp: compare_sized_def checked32_def decides_def three_Cons three_int_diff)
qed

lemma double_magnitude_bounds: "0 \<le> double_magnitude d" "double_magnitude d < 2 ^ 63"
  unfolding double_magnitude_def by (rule pos_mod_sign pos_mod_bound; simp)+

lemma double_key_bound: "- (2 ^ 64) < double_key d"
  using double_magnitude_bounds [of d] by (simp add: double_key_def)

lemma compare_doubles_key: "compare_doubles a b = three (number_key a) (number_key b)"
  using double_key_bound [of a] double_key_bound [of b]
  by (cases "isNaN a"; cases "isNaN b")
     (simp_all add: compare_doubles_def number_key_def three_def double_less_def double_eq_def)

definition numeric :: "bson_value \<Rightarrow> bool" where
  "numeric v \<longleftrightarrow> value_type v \<in> {NumberLong, NumberDouble, NumberInt}"

fun double_value :: "bson_value \<Rightarrow> uint64" where
  "double_value (VDouble d) = d"
| "double_value (VInt n) = double_of_int (sint n)"
| "double_value (VLong n) = double_of_int (sint n)"
| "double_value v = 0"

lemma numeric_canonical: "numeric v \<longleftrightarrow> canonical v = 10"
  by (cases v) (simp_all add: numeric_def)

lemma numeric_key: "numeric v \<Longrightarrow> value_key v = [number_key (double_value v)]"
  by (cases v) (simp_all add: numeric_def)

lemma read_word_bytes: "read_word (le_bytes 8 (unat d) @ p) = Inr d"
  using unsigned_less [of d, where 'a = nat] by (simp add: read_word_def)

lemma int_of_bytes_word: "int_of_bytes (int_bytes (unat n)) = sint (n :: int32)"
proof -
  have arith: "s = (if u < 2 ^ 31 then u else u - 2 ^ 32)" if "u = s mod 2 ^ 32" "- (2 ^ 31) \<le> s" "s < 2 ^ 31" for s u :: int
  proof (cases "0 \<le> s")
    case False
    then have "s mod 2 ^ 32 = s + 2 ^ 32" using that mod_pos_pos_trivial [of "s + 2 ^ 32" "2 ^ 32"] by simp
    then show ?thesis using False that by simp
  qed (use that in simp)
  have u: "unat n < 2 ^ 32" "int (unat n) = uint n" using unsigned_less [of n, where 'a = nat] by simp_all
  have "uint n = sint n mod 2 ^ 32" "- (2 ^ 31) \<le> sint n" "sint n < 2 ^ 31"
    using uint_sint [of n] sint_ge [of n] sint_lt [of n] by (simp_all add: take_bit_eq_mod)
  from arith [OF this] have "sint n = (if unat n < 2 ^ 31 then int (unat n) else int (unat n) - 2 ^ 32)"
    using of_nat_less_iff [of "unat n" "2 ^ 31", where 'a = int] u(2) by simp
  then show ?thesis using u(1) by (simp add: int_of_bytes_def Let_def)
qed

lemma read_int_word: "read_int (int_bytes (unat n) @ p) = Inr (sint (n :: int32))"
  by (simp add: read_int_def int_of_bytes_word)

lemma numberDouble_encoded:
  assumes "nul \<notin> set n" "length n + 1 < 2 ^ 31"
  shows "numberDouble (encode_elem (n, v) @ p) = Inr (double_value v)"
  using elem_value_encoded [OF assms]
  by (cases v) (simp_all add: numberDouble_def read_word_bytes read_int_word)

lemma compare_numbers_key:
  assumes "numeric v" "numeric w" "nul \<notin> set n" "length n + 1 < 2 ^ 31" "nul \<notin> set m" "length m + 1 < 2 ^ 31"
    "sortable b v" "sortable b w"
  shows "decides (compare_numbers (value_type v) (encode_elem (n, v) @ p) (encode_elem (m, w) @ q)) (value_key v) (value_key w)"
proof -
  have exact: "three (number_key (double_of_int a)) (number_key (double_of_int b)) = three a b"
    if "\<bar>a\<bar> \<le> 9007199254740992" "\<bar>b\<bar> \<le> 9007199254740992" for a b
  proof -
    have n: "\<bar>a\<bar> \<le> 2 ^ 53" "\<bar>b\<bar> \<le> 2 ^ 53" using that by simp_all
    then have "\<not> isNaN (double_of_int a)" "\<not> isNaN (double_of_int b)" using double_key_int(2) [of a] double_key_int(2) [of b] by blast+
    then show ?thesis using double_key_mono [OF n] double_key_mono [OF n(2) n(1)]
      by (auto simp: number_key_def three_def)
  qed
  have small: "\<bar>sint (x :: int32)\<bar> \<le> 9007199254740992" for x
    using sint_ge [of x] sint_lt [of x] by simp
  note e = elem_value_encoded [OF assms(3,4)] elem_value_encoded [OF assms(5,6)]
    numberDouble_encoded [OF assms(3,4)] numberDouble_encoded [OF assms(5,6)]
  have "compare_numbers (value_type v) (encode_elem (n, v) @ p) (encode_elem (m, w) @ q) =
      Inr (three (number_key (double_value v)) (number_key (double_value w)))"
    using assms(1,2,7,8) 
    by (cases v; cases w)
       (simp_all add: numeric_def compare_numbers_def e read_word_bytes read_int_word compare_doubles_key exact small)
  then show ?thesis using assms(1,2) by (simp add: numeric_key)
qed

lemma codeWScope_encoded:
  assumes "nul \<notin> set n" "length n + 1 < 2 ^ 31" "nul \<notin> set c"
  shows "codeWScopeCode (encode_elem (n, VCodeWScope c es) @ p) = Inr (cstring c @ encode es @ p)"
    "codeWScopeScopeDataUnsafe (encode_elem (n, VCodeWScope c es) @ p) = Inr (encode es @ p)"
proof -
  show code: "codeWScopeCode (encode_elem (n, VCodeWScope c es) @ p) = Inr (cstring c @ encode es @ p)"
    using elem_value_encoded [OF assms(1,2), of "VCodeWScope c es"]
    by (simp add: codeWScopeCode_def sized_string_def encode_def)
  show "codeWScopeScopeDataUnsafe (encode_elem (n, VCodeWScope c es) @ p) = Inr (encode es @ p)"
    using strlen_cstring [OF assms(3)] by (simp add: codeWScopeScopeDataUnsafe_def code)
qed

lemma regex_encoded:
  assumes "nul \<notin> set n" "length n + 1 < 2 ^ 31" "nul \<notin> set r"
  shows "elem_regex (encode_elem (n, VRegEx r f) @ p) = Inr (cstring r @ cstring f @ p)"
    "regexFlags (encode_elem (n, VRegEx r f) @ p) = Inr (cstring f @ p)"
proof -
  show regex: "elem_regex (encode_elem (n, VRegEx r f) @ p) = Inr (cstring r @ cstring f @ p)"
    using elem_value_encoded [OF assms(1,2), of "VRegEx r f"] by (simp add: elem_regex_def)
  show "regexFlags (encode_elem (n, VRegEx r f) @ p) = Inr (cstring f @ p)"
    using strlen_cstring [OF assms(3)] by (simp add: regexFlags_def regex)
qed

lemma nul_in_cstring [simp]: "nul \<in> set (cstring s)" "nul \<in> set (encode es)"
  by (simp_all add: cstring_def encode_def frame_def)

lemma cstring_key_append: "nul \<in> set s \<Longrightarrow> cstring_key (s @ p) = cstring_key s"
  using takeWhile_append1 [of nul s "\<lambda>c. c \<noteq> nul" p] by (simp add: cstring_key_def)

lemma cstring_key_cstring: "nul \<notin> set s \<Longrightarrow> cstring_key (cstring s @ p) = cstring_key s"
  by (induction s) (auto simp: cstring_key_def cstring_def)

text \<open>One comparison with \<open>strcmp\<close> after the other.\<close>

lemma strcmp_then:
  assumes "nul \<in> set p" "nul \<in> set q" "decides c x y"
  shows "decides (bindE (strcmp p q) (\<lambda>d. if d \<noteq> 0 then Inr d else c)) (cstring_key p @ x) (cstring_key q @ y)"
  using strcmp_key [OF assms(1,2)] assms(3) by (auto simp: decides_def three_append sep_append)

lemma strcmp_decides: "nul \<in> set p \<Longrightarrow> nul \<in> set q \<Longrightarrow> decides (strcmp p q) (cstring_key p) (cstring_key q)"
  using strcmp_key decides_three by simp

lemma decides_Nil [simp]: "decides (Inr 0) [] []"
  by (simp add: decides_def)


lemma elem_canonicalType_encoded [simp]: "elem_canonicalType (encode_elem (n, v) @ p) = Inr (canonical v)"
  by (simp add: elem_canonicalType_def canonical_def)

lemma elem_isNumber_encoded [simp]: "elem_isNumber (encode_elem (n, v) @ p) = Inr (canonical v = 10)"
  by (auto simp: elem_isNumber_def numeric_canonical [symmetric] numeric_def)

lemma BSONType_of_int_0 [simp]: "BSONType_of_int 0 = Some EOO"
  using BSONType_of_int_to_int [of EOO] by simp

lemma elem_canonicalType_nul [simp]: "elem_canonicalType (nul # p) = Inr 0"
  by (simp add: elem_canonicalType_def canonicalizeBSONType_def)

lemma elem_isNumber_nul [simp]: "elem_isNumber (nul # p) = Inr False"
  by (auto simp: elem_isNumber_def dest: sym)

lemma compare_leaf_key:
  assumes "canonical v = canonical w" "\<not> container v" "wf_value v" "wf_value w" "sortable b v" "sortable b w"
    "nul \<notin> set n" "length n + 1 < 2 ^ 31" "nul \<notin> set m" "length m + 1 < 2 ^ 31"
    "length (encode_value v) < 2 ^ 31 - 4" "length (encode_value w) < 2 ^ 31 - 4"
    "length (encode_elem (n, v)) < 2 ^ 31" "length (encode_elem (m, w)) < 2 ^ 31"
  shows "decides (compare_leaf (value_type v) (encode_elem (n, v) @ p) (encode_elem (m, w) @ q)) (value_key v) (value_key w)"
proof -
  note e = elem_value_encoded [OF assms(7,8)] elem_value_encoded [OF assms(9,10)]
  have vs: "elem_valuesize (encode_elem (n, v) @ p) = Inr (int (length (encode_value v)))"
    if "wf_value v" "nul \<notin> set n" "length n + 1 < 2 ^ 31" "length (encode_elem (n, v)) < 2 ^ 31" for n v p
    using elem_size_encoded [OF that(1,2,4)] fieldNameSize_encoded [OF that(2,3)]
    by (simp add: elem_valuesize_def encode_elem_def)
  show ?thesis
  proof (cases v)
    case (VDouble d)
    then have "numeric v" "numeric w" using assms(1)
      by (simp_all add: numeric_canonical)
    from compare_numbers_key [OF this assms(7-10,5,6)] show ?thesis using VDouble by (simp add: compare_leaf_def)
  next
    case (VInt d)
    then have "numeric v" "numeric w" using assms(1)
      by (simp_all add: numeric_canonical)
    from compare_numbers_key [OF this assms(7-10,5,6)] show ?thesis using VInt by (simp add: compare_leaf_def)
  next
    case (VLong d)
    then have "numeric v" "numeric w" using assms(1)
      by (simp_all add: numeric_canonical)
    from compare_numbers_key [OF this assms(7-10,5,6)] show ?thesis using VLong by (simp add: compare_leaf_def)
  next
    case (VString s)
    then obtain t where w: "w = VString t \<or> w = VSymbol t" using assms(1)
      by (cases w) simp_all
    then show ?thesis using VString compare_strings_key [of s t p q] assms(11,12) e by (auto simp: compare_leaf_def)
  next
    case (VSymbol s)
    then obtain t where w: "w = VString t \<or> w = VSymbol t" using assms(1)
      by (cases w) simp_all
    then show ?thesis using VSymbol compare_strings_key [of s t p q] assms(11,12) e by (auto simp: compare_leaf_def)
  next
    case (VCode s)
    then obtain t where w: "w = VCode t" using assms(1)
      by (cases w) simp_all
    then show ?thesis using VCode compare_strings_key [of s t p q] assms(11,12) e by (auto simp: compare_leaf_def)
  next
    case (VBinData t bs)
    then obtain u cs where w: "w = VBinData u cs" using assms(1)
      by (cases w) simp_all
    then show ?thesis
      using VBinData compare_sized_key [of "t # bs" "u # cs" "checked32 (int (length bs) + 1)" "t # bs @ p" p "u # cs @ q" q "int (length bs)" 1 "int (length cs)"]
        assms(11,12) e by (simp add: compare_leaf_def read_int_bytes)
  next
    case (VDBRef ns bs)
    then obtain ms cs where w: "w = VDBRef ms cs" using assms(1)
      by (cases w) simp_all
    then show ?thesis
      using VDBRef compare_sized_key [of "encode_value v" "encode_value w" "Inr (int (length (encode_value v)))" "encode_value v @ p" p
          "encode_value w @ q" q "int (length (encode_value v))" 0 "int (length (encode_value w))"]
        assms(11,12) e vs [OF assms(3,7,8,13)] vs [OF assms(4,9,10,14)] by (simp add: compare_leaf_def)
  next
    case (VOID bs)
    then obtain cs where w: "w = VOID cs" using assms(1)
      by (cases w) simp_all
    have "decides (Inr (memcmp bs cs)) (map code bs) (map code cs)"
      using memcmp_key [of bs cs] decides_three assms(3,4) VOID w by simp
    then show ?thesis using VOID w assms(3,4) e by (simp add: compare_leaf_def memcmp_at_def)
  next
    case (VBool x)
    then obtain y where w: "w = VBool y" using assms(1)
      by (cases w) simp_all
    then show ?thesis using VBool e
      by (cases x; cases y; simp add: compare_leaf_def decides_def three_def nul_def signed_char_def)
  next
    case (VDate d)
    then obtain f where w: "w = VDate f" using assms(1,5,6)
      by (cases w) simp_all
    then show ?thesis using VDate e by (simp add: compare_leaf_def elem_Date_def read_word_bytes)
  next
    case (VTimestamp d)
    then obtain f where w: "w = VTimestamp f" using assms(1,5,6)
      by (cases w) simp_all
    then show ?thesis using VTimestamp e by (simp add: compare_leaf_def read_word_bytes)
  next
    case (VRegEx r f)
    then obtain s g where w: "w = VRegEx s g" using assms(1)
      by (cases w) simp_all
    have "decides (strcmp (cstring f @ p) (cstring g @ q)) (cstring_key f) (cstring_key g)"
      using strcmp_decides [of "cstring f @ p" "cstring g @ q"] VRegEx w assms(3,4) by (simp add: cstring_key_cstring)
    from strcmp_then [OF _ _ this, of "cstring r @ cstring f @ p" "cstring s @ cstring g @ q"]
    show ?thesis using VRegEx w assms(3,4)
      by (simp add: compare_leaf_def regex_encoded [OF assms(7,8)] regex_encoded [OF assms(9,10)] cstring_key_cstring cong: if_cong)
  next
    case (VCodeWScope r f)
    then obtain s g where w: "w = VCodeWScope s g" using assms(1)
      by (cases w) simp_all
    have "decides (strcmp (encode f @ p) (encode g @ q)) (cstring_key (encode f)) (cstring_key (encode g))"
      using strcmp_decides [of "encode f @ p" "encode g @ q"] by (simp add: cstring_key_append)
    from strcmp_then [OF _ _ this, of "cstring r @ encode f @ p" "cstring s @ encode g @ q"]
    show ?thesis using VCodeWScope w assms(1,5,6)
      by (simp add: compare_leaf_def codeWScope_encoded [OF assms(7,8)] codeWScope_encoded [OF assms(9,10)] cstring_key_cstring cong: if_cong)
  next
    case VUndefined
    then show ?thesis using assms(1) by (cases w) (simp_all add: compare_leaf_def)
  next
    case VNull
    then show ?thesis using assms(1) by (cases w) (simp_all add: compare_leaf_def)
  next
    case VMinKey
    then show ?thesis using assms(1) by (cases w) (simp_all add: compare_leaf_def)
  next
    case VMaxKey
    then show ?thesis using assms(1) by (cases w) (simp_all add: compare_leaf_def)
  qed (use assms(2) in \<open>simp_all add: container_def\<close>)
qed

end
