(* ===== verification/Bson_Order_Run.thy ===== *)
theory Bson_Order_Run
  imports Bson_Order
begin

text \<open>The comparison of objects follows their sort keys, in any direction of the fields, and ends.\<close>

subsection \<open>Keys with directions\<close>

text \<open>A field in descending order has the negated key.\<close>

definition elem_key :: "bool \<Rightarrow> bson_elem \<Rightarrow> int list" where
  "elem_key named e = canonical (snd e) # (if named then cstring_key (fst e) else []) @ value_key (snd e)"

definition turn :: "bool \<Rightarrow> int list \<Rightarrow> int list" where
  "turn descending k = (if descending then map uminus k else k)"

fun directed_key :: "(nat \<Rightarrow> bool) \<Rightarrow> bool \<Rightarrow> nat \<Rightarrow> bson_elem list \<Rightarrow> int list" where
  "directed_key desc named i [] = [-1]"
| "directed_key desc named i (e # es) = 0 # turn (desc i) (elem_key named e) @ directed_key desc named (Suc i) es"

lemma fields_key_directed: "fields_key es = directed_key (\<lambda>_. False) True i es"
  by (induction es arbitrary: i) (auto simp: turn_def elem_key_def)

fun directs :: "direction \<Rightarrow> (nat \<Rightarrow> bool) \<Rightarrow> nat \<Rightarrow> nat \<Rightarrow> bool" where
  "directs dir desc i 0 \<longleftrightarrow> (\<exists>neg dir'. next_direction dir = Inr (neg, dir'))"
| "directs dir desc i (Suc k) \<longleftrightarrow>
     (\<exists>dir'. next_direction dir = Inr (Inr (desc i), dir') \<and> directs dir' desc (Suc i) k)"

lemma directs_ascending: "directs Ascending (\<lambda>_. False) i k"
  by (induction k arbitrary: i) (simp_all add: next_direction_def)

subsection \<open>Results\<close>

definition decided :: "int result option \<Rightarrow> int list \<Rightarrow> int list \<Rightarrow> bool" where
  "decided r a b \<longleftrightarrow> (\<exists>x. r = Some x \<and> decides x a b)"

lemma decided_Inr: "\<bar>x\<bar> < 2 ^ 31 \<Longrightarrow> sgn x = three a b \<Longrightarrow> sep a b \<Longrightarrow> decided (Some (Inr x)) a b"
  by (auto simp: decided_def decides_def)

lemma decidedD: "decided r a b \<Longrightarrow> \<exists>x. r = Some (Inr x) \<and> \<bar>x\<bar> < 2 ^ 31 \<and> sgn x = three a b"
  by (auto simp: decided_def decides_def)

lemma decided_sep: "decided r a b \<Longrightarrow> sep a b"
  by (auto simp: decided_def decides_def)

lemma decided_turn:
  assumes "decided r a b"
  shows "decided (bindO r (\<lambda>x. Some (if neg then checked32 (- x) else Inr x))) (turn neg a) (turn neg b)"
proof -
  obtain x where x: "r = Some (Inr x)" "\<bar>x\<bar> < 2 ^ 31" "sgn x = three a b" "sep a b" using assms by (auto simp: decided_def decides_def)
  then show ?thesis using sep_minus [of a b] by (auto simp: decided_def decides_def turn_def sgn_minus)
qed

lemma decided_then:
  assumes "decided r a b" "decided s c d"
  shows "decided (bindO r (\<lambda>x. if x \<noteq> 0 then Some (Inr x) else s)) (a @ c) (b @ d)"
proof -
  obtain x y where "r = Some (Inr x)" "\<bar>x\<bar> < 2 ^ 31" "sgn x = three a b" "sep a b"
    "s = Some (Inr y)" "\<bar>y\<bar> < 2 ^ 31" "sgn y = three c d" "sep c d"
    using assms by (auto simp: decided_def decides_def)
  then show ?thesis by (auto simp: decided_def decides_def three_append sep_append sgn_eq_0_iff)
qed

subsection \<open>Elements\<close>

definition comparable :: "bool \<Rightarrow> bson_elem \<Rightarrow> string \<Rightarrow> bool" where
  "comparable b e p \<longleftrightarrow>
     nul \<notin> set (fst e) \<and> wf_value (snd e) \<and> sortable b (snd e) \<and>
     int (length (encode_elem e)) \<le> BSONObjMaxInternalSize \<and> length (encode_elem e @ p) < 2 ^ 31"

lemma comparable_bounds:
  assumes "comparable b (n, v) p"
  shows "nul \<notin> set n" "length n + 1 < 2 ^ 31" "length (encode_value v) < 2 ^ 31 - 4" "length (encode_elem (n, v)) < 2 ^ 31"
    "wf_value v" "sortable b v"
  using assms by (simp_all add: comparable_def encode_elem_def BSONObjMaxInternalSize_def BSONObjMaxUserSize_def)

lemma compare_elements_key:
  assumes "comparable b (n, v) p" "comparable b (m, w) q"
    and rec: "canonical v = canonical w \<Longrightarrow>
      decided (rec (Values (encode_elem (n, v) @ p) (encode_elem (m, w) @ q))) (value_key v) (value_key w)"
  shows "decided (compare_elements rec (encode_elem (n, v) @ p) (encode_elem (m, w) @ q) named) (elem_key named (n, v)) (elem_key named (m, w))"
proof -
  have range: "-1 \<le> canonical v \<and> canonical v \<le> 127" for v by (cases v) simp_all
  show ?thesis
  proof (cases "canonical v = canonical w")
    case False
    then have "decided (Some (Inr (canonical v - canonical w))) (elem_key named (n, v)) (elem_key named (m, w))"
      using range [of v] range [of w] by (intro decided_Inr) (auto simp: elem_key_def three_Cons three_int_diff)
    then show ?thesis using False by (auto simp: compare_elements_def Let_def)
  next
    case True
    let ?l = "encode_elem (n, v) @ p" and ?r = "encode_elem (m, w) @ q"
    have name: "decided (Some (if named then strcmp (tl ?l) (tl ?r) else Inr 0))
        (if named then cstring_key n else []) (if named then cstring_key m else [])"
      using strcmp_key [of "tl ?l" "tl ?r"] comparable_bounds(1) [OF assms(1)] comparable_bounds(1) [OF assms(2)]
      by (auto simp: decided_def encode_elem_def cstring_key_cstring decides_three)
    have "compare_elements rec ?l ?r named =
        bindO (Some (if named then strcmp (tl ?l) (tl ?r) else Inr 0)) (\<lambda>x. if x \<noteq> 0 then Some (Inr x) else rec (Values ?l ?r))"
      using True by (simp add: compare_elements_def Let_def)
    then have "decided (compare_elements rec ?l ?r named)
        ((if named then cstring_key n else []) @ value_key v) ((if named then cstring_key m else []) @ value_key w)"
      using decided_then [OF name rec [OF True]] by simp
    then show ?thesis using True by (auto simp: decided_def decides_def elem_key_def three_Cons)
  qed
qed

subsection \<open>Objects\<close>

definition comparables :: "bool \<Rightarrow> bson_elem list \<Rightarrow> bson_elem list \<Rightarrow> string \<Rightarrow> bool" where
  "comparables b us es p \<longleftrightarrow> held us es p \<and> sortables b es"

lemma comparables_elem:
  assumes "comparables b us ((n, v) # es) p"
  shows "comparable b (n, v) (encode_elems es @ nul # p)" "comparables b (us @ [(n, v)]) es p"
  using assms held_elem [of us n v es p] by (simp_all add: comparables_def comparable_def)

lemma comparable_sub:
  assumes "comparable b (n, v) p" "container v"
  shows "comparables b [] (sub_elems v) p"
  using assms held_sub [of v n p] sortable_sub_elems [of b v] by (simp add: comparable_def comparables_def)

lemma iter_next_comparables:
  assumes "comparables b us es p"
  shows "\<exists>it. iter_next (iter_at us es p) = Inr (encode_elems es @ nul # p, it) \<and>
    (\<forall>e es'. es = e # es' \<longrightarrow> it = iter_at (us @ [e]) es' p)"
  using iter_next_held assms by (simp add: comparables_def)

lemma isEmpty_encoded: "comparables b [] es p \<Longrightarrow> isEmpty (encode es @ p) = Inr (es = [])"
  using encode_short [of es] int_of_bytes_int_bytes [of "length (encode_elems es) + 5"]
  by (simp add: isEmpty_def comparables_def held_def objsize_def encode_def frame_def)

lemma start_fields_key:
  assumes "comparables b [] es p" "comparables b [] fs q"
    and rec: "es \<noteq> [] \<Longrightarrow> fs \<noteq> [] \<Longrightarrow>
      decided (rec (Fields (iter_at [] es p) (iter_at [] fs q) dir named)) (directed_key desc named 0 es) (directed_key desc named 0 fs)"
  shows "decided (start_fields rec (encode es @ p) (encode fs @ q) (Inr dir) named)
    (directed_key desc named 0 es) (directed_key desc named 0 fs)"
proof -
  have i: "BSONObjIterator (encode es @ p) = Inr (iter_at [] es p)" "BSONObjIterator (encode fs @ q) = Inr (iter_at [] fs q)"
    using assms(1,2) by (simp_all add: comparables_def held_start)
  note e = isEmpty_encoded [OF assms(1)] isEmpty_encoded [OF assms(2)]
  show ?thesis
  proof (cases "es = [] \<or> fs = []")
    case True
    then show ?thesis using e
      by (cases es; cases fs) (auto simp: start_fields_def three_Cons intro!: decided_Inr, auto simp: three_def)
  next
    case False
    then show ?thesis using e i rec by (simp add: start_fields_def)
  qed
qed

lemma fields_step_key:
  assumes es: "comparables b us es p" and fs: "comparables b ws fs q"
    and dir: "directs dir desc i (min (length es) (length fs))"
    and elem: "\<And>n v es' m w fs'. es = (n, v) # es' \<Longrightarrow> fs = (m, w) # fs' \<Longrightarrow>
      decided (compare_elements (compare_run fuel) (encode_elem (n, v) @ encode_elems es' @ nul # p)
        (encode_elem (m, w) @ encode_elems fs' @ nul # q) named) (elem_key named (n, v)) (elem_key named (m, w))"
    and rest: "\<And>e es' f fs' dir'. es = e # es' \<Longrightarrow> fs = f # fs' \<Longrightarrow> directs dir' desc (Suc i) (min (length es') (length fs')) \<Longrightarrow>
      decided (compare_run fuel (Fields (iter_at (us @ [e]) es' p) (iter_at (ws @ [f]) fs' q) dir' named))
        (directed_key desc named (Suc i) es') (directed_key desc named (Suc i) fs')"
  shows "decided (compare_run (Suc fuel) (Fields (iter_at us es p) (iter_at ws fs q) dir named))
    (directed_key desc named i es) (directed_key desc named i fs)"
proof -
  obtain it where it: "iter_next (iter_at us es p) = Inr (encode_elems es @ nul # p, it)"
    "\<forall>e es'. es = e # es' \<longrightarrow> it = iter_at (us @ [e]) es' p" using iter_next_comparables [OF es] by blast
  obtain jt where jt: "iter_next (iter_at ws fs q) = Inr (encode_elems fs @ nul # q, jt)"
    "\<forall>e es'. fs = e # es' \<longrightarrow> jt = iter_at (ws @ [e]) es' q" using iter_next_comparables [OF fs] by blast
  obtain neg dir' where d: "next_direction dir = Inr (neg, dir')"
    "\<forall>k. min (length es) (length fs) = Suc k \<longrightarrow> neg = Inr (desc i) \<and> directs dir' desc (Suc i) k"
    using dir by (cases "min (length es) (length fs)") auto
  show ?thesis
  proof (cases "es = [] \<or> fs = []")
    case True
    then have "compare_run (Suc fuel) (Fields (iter_at us es p) (iter_at ws fs q) dir named) =
        Some (Inr (if es = [] then if fs = [] then 0 else -1 else 1))"
      by (auto simp: it(1) jt(1) d(1) encode_elems_eoo)
    moreover have "sgn (if es = [] then if fs = [] then 0 else -1 else 1 :: int) = three (directed_key desc named i es) (directed_key desc named i fs)"
      "sep (directed_key desc named i es) (directed_key desc named i fs)"
      using True by (cases es; cases fs; simp add: three_Cons; simp add: three_def)+
    ultimately show ?thesis by (simp add: decided_Inr)
  next
    case False
    then obtain n v es' m w fs' where c: "es = (n, v) # es'" "fs = (m, w) # fs'" by (metis neq_Nil_conv surj_pair)
    then have neg: "neg = Inr (desc i)" "directs dir' desc (Suc i) (min (length es') (length fs'))" using d(2) by auto
    have "compare_run (Suc fuel) (Fields (iter_at us es p) (iter_at ws fs q) dir named) =
        bindO (bindO (compare_elements (compare_run fuel) (encode_elem (n, v) @ encode_elems es' @ nul # p)
            (encode_elem (m, w) @ encode_elems fs' @ nul # q) named) (\<lambda>x. Some (if desc i then checked32 (- x) else Inr x)))
          (\<lambda>x. if x \<noteq> 0 then Some (Inr x)
            else compare_run fuel (Fields (iter_at (us @ [(n, v)]) es' p) (iter_at (ws @ [(m, w)]) fs' q) dir' named))"
      using c it jt d(1) neg(1) by (simp add: encode_elems_Cons bindO_def split: option.splits sum.splits)
    then have "decided (compare_run (Suc fuel) (Fields (iter_at us es p) (iter_at ws fs q) dir named))
        (turn (desc i) (elem_key named (n, v)) @ directed_key desc named (Suc i) es')
        (turn (desc i) (elem_key named (m, w)) @ directed_key desc named (Suc i) fs')"
      using decided_then [OF decided_turn [OF elem [OF c]] rest [OF c neg(2)]] by simp
    then show ?thesis using c by (auto simp: decided_def decides_def three_Cons)
  qed
qed

subsection \<open>Enough fuel\<close>

lemma container_canonical: "container v \<longleftrightarrow> canonical v \<in> {20, 25}"
  by (cases v) (simp_all add: container_def)

lemma Values_step_key:
  assumes v: "comparable b (n, v) p" and w: "comparable b (m, w) q" and c: "canonical v = canonical w"
    and sub: "container v \<Longrightarrow> container w \<Longrightarrow> comparables b [] (sub_elems v) p \<Longrightarrow> comparables b [] (sub_elems w) q \<Longrightarrow>
      decided (compare_run fuel (Fields (iter_at [] (sub_elems v) p) (iter_at [] (sub_elems w) q) Ascending True))
        (fields_key (sub_elems v)) (fields_key (sub_elems w))"
  shows "decided (compare_run (Suc fuel) (Values (encode_elem (n, v) @ p) (encode_elem (m, w) @ q))) (value_key v) (value_key w)"
proof (cases "container v")
  case True
  then have cw: "container w" using c by (simp add: container_canonical)
  have "embeddedObject (encode_elem (n, v) @ p) = Inr (encode (sub_elems v) @ p)"
    "embeddedObject (encode_elem (m, w) @ q) = Inr (encode (sub_elems w) @ q)"
    using embeddedObject_encoded [OF True] embeddedObject_encoded [OF cw] v w by (simp_all add: comparable_def)
  moreover have "value_type v \<in> {Object, Array}" using True by (simp add: container_def)
  ultimately have "compare_run (Suc fuel) (Values (encode_elem (n, v) @ p) (encode_elem (m, w) @ q)) =
      start_fields (compare_run fuel) (encode (sub_elems v) @ p) (encode (sub_elems w) @ q) (Inr Ascending) True"
    by simp
  then show ?thesis
    using start_fields_key [OF comparable_sub [OF v True] comparable_sub [OF w cw], of "compare_run fuel" Ascending True "\<lambda>_. False"]
      sub [OF True cw comparable_sub [OF v True] comparable_sub [OF w cw]]
    by (simp add: value_key_container [OF True] value_key_container [OF cw] fields_key_directed [of _ 0])
next
  case False
  note bv = comparable_bounds [OF v] and bw = comparable_bounds [OF w]
  have "decides (compare_leaf (value_type v) (encode_elem (n, v) @ p) (encode_elem (m, w) @ q)) (value_key v) (value_key w)"
    by (rule compare_leaf_key) (rule c False bv bw)+
  moreover have "value_type v \<notin> {Object, Array}" using False by (simp add: container_def)
  ultimately show ?thesis by (simp add: decided_def)
qed

lemma compare_run_key:
  shows "\<lbrakk>comparable b (n, v) p; comparable b (m, w) q; canonical v = canonical w; 2 * weight v + 2 \<le> fuel\<rbrakk> \<Longrightarrow>
      decided (compare_run fuel (Values (encode_elem (n, v) @ p) (encode_elem (m, w) @ q))) (value_key v) (value_key w)"
    and "\<lbrakk>comparables b us es r; comparables b ws fs s; directs dir desc i (min (length es) (length fs)); 2 * weights es + 1 \<le> fuel\<rbrakk> \<Longrightarrow>
      decided (compare_run fuel (Fields (iter_at us es r) (iter_at ws fs s) dir named))
        (directed_key desc named i es) (directed_key desc named i fs)"
proof (induction fuel arbitrary: n v m w p q us es ws fs r s dir desc i named)
  case 0
  { case 1 then show ?case by simp } { case 2 then show ?case by simp }
next
  case (Suc fuel)
  { case 1
    show ?case
    proof (rule Values_step_key [OF 1(1-3)])
      assume sub: "comparables b [] (sub_elems v) p" "comparables b [] (sub_elems w) q"
      have "2 * weights (sub_elems v) + 1 \<le> fuel" using 1(4) by (simp add: weight_sub_elems)
      from Suc.IH(2) [OF sub directs_ascending this]
      show "decided (compare_run fuel (Fields (iter_at [] (sub_elems v) p) (iter_at [] (sub_elems w) q) Ascending True))
        (fields_key (sub_elems v)) (fields_key (sub_elems w))" by (simp add: fields_key_directed [of _ 0])
    qed
  next
    case 2
    show ?case
    proof (rule fields_step_key [OF 2(1-3)])
      fix n v es' m w fs' assume c: "es = (n, v) # es'" "fs = (m, w) # fs'"
      have f: "2 * weight v + 2 \<le> fuel" using 2(4) c by simp
      have e: "comparable b (n, v) (encode_elems es' @ nul # r)" "comparable b (m, w) (encode_elems fs' @ nul # s)"
        using comparables_elem(1) 2(1,2) c by blast+
      show "decided (compare_elements (compare_run fuel) (encode_elem (n, v) @ encode_elems es' @ nul # r)
          (encode_elem (m, w) @ encode_elems fs' @ nul # s) named) (elem_key named (n, v)) (elem_key named (m, w))"
        using compare_elements_key [OF e] Suc.IH(1) [OF e _ f] by simp
    next
      fix e es' f fs' dir' assume c: "es = e # es'" "fs = f # fs'" and d: "directs dir' desc (Suc i) (min (length es') (length fs'))"
      have k: "comparables b (us @ [e]) es' r" "comparables b (ws @ [f]) fs' s"
        using comparables_elem(2) [of b us "fst e" "snd e" es' r] comparables_elem(2) [of b ws "fst f" "snd f" fs' s] 2(1,2) c by simp_all
      have "2 * weights es' + 1 \<le> fuel" using 2(4) c by (cases e) simp
      from Suc.IH(2) [OF k d this]
      show "decided (compare_run fuel (Fields (iter_at (us @ [e]) es' r) (iter_at (ws @ [f]) fs' s) dir' named))
        (directed_key desc named (Suc i) es') (directed_key desc named (Suc i) fs')" .
    qed }
qed

end
