(* ===== verification/Bson_Compare_Spec.thy ===== *)
theory Bson_Compare_Spec
  imports Bson_Order_Run
begin

text \<open>The theorems on the order of BSON objects.\<close>

subsection \<open>Objects in their own buffers\<close>

definition sortable_document :: "bool \<Rightarrow> bson_elem list \<Rightarrow> bool" where
  "sortable_document b es \<longleftrightarrow> wf_elems es \<and> sortables b es \<and> int (length (encode es)) \<le> BSONObjMaxInternalSize"

lemma sortable_document_comparables: "sortable_document b es \<Longrightarrow> comparables b [] es []"
  using max_sizes by (auto simp: sortable_document_def comparables_def held_def)

lemma woCompare_decided:
  assumes "sortable_document b es" "sortable_document b fs" "2 * weights es + 1 \<le> fuel"
  shows "decided (woCompare fuel (encode es) (encode fs)) (fields_key es) (fields_key fs)"
proof -
  note k = sortable_document_comparables [OF assms(1)] sortable_document_comparables [OF assms(2)]
  have "isEmpty empty_object = Inr True"
    by (simp add: isEmpty_def objsize_def empty_object_def int_of_bytes_def)
  then show ?thesis
    using start_fields_key [OF k, of "compare_run fuel" Ascending True "\<lambda>_. False"]
      compare_run_key(2) [OF k directs_ascending assms(3), of True]
    by (simp add: woCompare_def woCompare_key_def fields_key_directed [of _ 0])
qed

subsection \<open>Directions\<close>

definition descends :: "bson_elem list \<Rightarrow> nat \<Rightarrow> bool" where
  "descends ks i \<longleftrightarrow> i < length ks \<and> double_less (double_value (snd (ks ! i))) 0"

lemma numberDouble_nul: "numberDouble (nul # p) = Inr 0"
  by (simp add: numberDouble_def)

lemma directs_By_Key:
  assumes "wf_elems (us @ ks)" "length (encode (us @ ks) @ p) < 2 ^ 31" "k \<le> length ks"
  shows "directs (By_Key (iter_at us ks p)) (descends (us @ ks)) (length us) k"
  using assms
proof (induction k arbitrary: us ks)
  case 0
  show ?case
  proof (cases ks)
    case Nil
    then show ?thesis by (simp add: next_direction_def iter_next_end)
  next
    case (Cons e ks')
    then show ?thesis using iter_next_at [of us "fst e" "snd e" ks' p] 0 by (simp add: next_direction_def)
  qed
next
  case (Suc k)
  then obtain n v ks' where ks: "ks = (n, v) # ks'" by (cases ks) auto
  then have n: "nul \<notin> set n" "length n + 1 < 2 ^ 31" using Suc.prems by (simp_all add: encode_def encode_elems_Cons encode_elem_def)
  have "descends (us @ ks) (length us) = double_less (double_value v) 0" by (simp add: descends_def ks)
  moreover have "directs (By_Key (iter_at (us @ [(n, v)]) ks' p)) (descends ((us @ [(n, v)]) @ ks')) (length (us @ [(n, v)])) k"
    using Suc.IH [of "us @ [(n, v)]" ks'] Suc.prems ks by simp
  ultimately show ?case
    using iter_next_at [of us n v ks' p] Suc.prems(1,2) numberDouble_encoded [OF n] ks
    by (simp add: next_direction_def)
qed



subsection \<open>Key patterns\<close>

definition pattern :: "bson_elem list \<Rightarrow> bool" where
  "pattern ks \<longleftrightarrow> wf_elems ks \<and> length (encode ks) < 2 ^ 31"




lemma woCompare_key_decided:
  assumes "sortable_document b es" "sortable_document b fs" "pattern ks" "min (length es) (length fs) \<le> length ks \<or> ks = []"
    "2 * weights es + 1 \<le> fuel"
  shows "decided (woCompare_key fuel (encode es) (encode fs) (encode ks) named)
    (directed_key (descends ks) named 0 es) (directed_key (descends ks) named 0 fs)"
proof -
  note k = sortable_document_comparables [OF assms(1)] sortable_document_comparables [OF assms(2)]
  have e: "isEmpty (encode ks) = Inr (ks = [])"
    using encode_short [of ks] int_of_bytes_int_bytes [of "length (encode_elems ks) + 5"] assms(3)
    by (simp add: isEmpty_def pattern_def objsize_def encode_def frame_def)
  define dir where "dir = (if ks = [] then Ascending else By_Key (iter_at [] ks []))"
  have dir: "directs dir (descends ks) 0 (min (length es) (length fs))"
  proof (cases "ks = []")
    case True
    then have "descends ks = (\<lambda>_. False)" by (auto simp: descends_def)
    with True directs_ascending show ?thesis by (simp add: dir_def)
  next
    case False
    with directs_By_Key [of "[]" ks "[]"] assms(3,4) show ?thesis by (simp add: dir_def pattern_def)
  qed
  have "woCompare_key fuel (encode es) (encode fs) (encode ks) named =
      start_fields (compare_run fuel) (encode es) (encode fs) (Inr dir) named"
    using iter_start [of ks "[]"] assms(3) by (auto simp: woCompare_key_def e dir_def pattern_def)
  then show ?thesis
    using start_fields_key [OF k, of "compare_run fuel" dir named "descends ks"] compare_run_key(2) [OF k dir assms(5), of named] by simp
qed

subsection \<open>Objects longer than the key pattern\<close>

lemma elem_woCompare_decided:
  assumes "comparable b (n, v) p" "comparable b (m, w) q" "2 * weight v + 2 \<le> depth"
  shows "decided (elem_woCompare depth (encode_elem (n, v) @ p) (encode_elem (m, w) @ q) named) (elem_key named (n, v)) (elem_key named (m, w))"
  unfolding elem_woCompare_def
  by (rule compare_elements_key [OF assms(1,2)], rule compare_run_key(1) [OF assms(1,2) _ assms(3)])

lemma decided_zero:
  assumes "decided r k l"
  obtains x where "r = Some (Inr x)" "x = 0 \<longleftrightarrow> k = l" "sep k l"
  using assms by (auto simp: decided_def decides_def) (metis sgn_eq_0_iff three_zero)

lemma turn_eq: "turn neg a = turn neg b \<longleftrightarrow> a = b"
  by (simp add: turn_def inj_map_eq_map [OF injI])

text \<open>One field of each object.\<close>

lemma fields_step_run:
  assumes "comparables b us ((n, v) # es) p" "comparables b ws ((m, w) # fs) q" "next_direction dir = Inr (Inr neg, dir')"
    "2 * weights ((n, v) # es) + 1 \<le> Suc fuel"
  obtains x where "(x = 0) = (elem_key named (n, v) = elem_key named (m, w))" "sgn x = three (turn neg (elem_key named (n, v))) (turn neg (elem_key named (m, w)))"
    "sep (turn neg (elem_key named (n, v))) (turn neg (elem_key named (m, w)))"
    "compare_run (Suc fuel) (Fields (iter_at us ((n, v) # es) p) (iter_at ws ((m, w) # fs) q) dir named) =
      (if x \<noteq> 0 then Some (Inr x) else compare_run fuel (Fields (iter_at (us @ [(n, v)]) es p) (iter_at (ws @ [(m, w)]) fs q) dir' named))"
proof -
  have k: "comparable b (n, v) (encode_elems es @ nul # p)" "comparable b (m, w) (encode_elems fs @ nul # q)"
    using comparables_elem(1) assms(1,2) by blast+
  have next': "iter_next (iter_at us ((n, v) # es) p) = Inr (encode_elem (n, v) @ encode_elems es @ nul # p, iter_at (us @ [(n, v)]) es p)"
    "iter_next (iter_at ws ((m, w) # fs) q) = Inr (encode_elem (m, w) @ encode_elems fs @ nul # q, iter_at (ws @ [(m, w)]) fs q)"
    using iter_next_comparables [OF assms(1)] iter_next_comparables [OF assms(2)] by (auto simp: encode_elems_Cons)
  have d: "2 * weight v + 2 \<le> fuel" using assms(4) by simp
  let ?cmp = "compare_elements (compare_run fuel) (encode_elem (n, v) @ encode_elems es @ nul # p) (encode_elem (m, w) @ encode_elems fs @ nul # q) named"
  note e = elem_woCompare_decided [OF k d, of named, unfolded elem_woCompare_def]
  obtain x where x:
    "bindO ?cmp (\<lambda>x. Some (if neg then checked32 (- x) else Inr x)) = Some (Inr x)"
    "x = 0 \<longleftrightarrow> turn neg (elem_key named (n, v)) = turn neg (elem_key named (m, w))"
    "sep (turn neg (elem_key named (n, v))) (turn neg (elem_key named (m, w)))"
    by (rule decided_zero [OF decided_turn [OF e, of neg]])
  have sgn: "sgn x = three (turn neg (elem_key named (n, v))) (turn neg (elem_key named (m, w)))"
    using decidedD [OF decided_turn [OF e, of neg]] x(1) by auto
  have "compare_run (Suc fuel) (Fields (iter_at us ((n, v) # es) p) (iter_at ws ((m, w) # fs) q) dir named) =
      bindO (bindO ?cmp (\<lambda>x. Some (if neg then checked32 (- x) else Inr x)))
        (\<lambda>x. if x \<noteq> 0 then Some (Inr x) else compare_run fuel (Fields (iter_at (us @ [(n, v)]) es p) (iter_at (ws @ [(m, w)]) fs q) dir' named))"
    using next' assms(3) by (simp add: bindO_def split: option.splits sum.splits)
  then have run: "compare_run (Suc fuel) (Fields (iter_at us ((n, v) # es) p) (iter_at ws ((m, w) # fs) q) dir named) =
      (if x \<noteq> 0 then Some (Inr x) else compare_run fuel (Fields (iter_at (us @ [(n, v)]) es p) (iter_at (ws @ [(m, w)]) fs q) dir' named))"
    unfolding x(1) by simp
  have "(x = 0) = (elem_key named (n, v) = elem_key named (m, w))" using x(2) unfolding turn_eq .
  from that [OF this sgn x(3) run] show ?thesis .
qed

text \<open>
  The pattern has run out when both objects have more fields than it. One more field of each is compared, in ascending
  order; when all have been equal the iterator over the pattern is asked for an element behind its end.
\<close>

definition overruns :: "bool \<Rightarrow> nat \<Rightarrow> bson_elem list \<Rightarrow> bson_elem list \<Rightarrow> bool" where
  "overruns named k es fs \<longleftrightarrow> k < length es \<and> k < length fs \<and>
     map (elem_key named) (take (Suc k) es) = map (elem_key named) (take (Suc k) fs)"

lemma directed_key_step:
  assumes "sep (turn (desc i) (elem_key named e)) (turn (desc i) (elem_key named f))"
  shows "three (directed_key desc named i (e # es)) (directed_key desc named i (f # fs)) =
    (if elem_key named e = elem_key named f then three (directed_key desc named (Suc i) es) (directed_key desc named (Suc i) fs)
     else three (turn (desc i) (elem_key named e)) (turn (desc i) (elem_key named f)))"
  using three_append [OF assms] by (auto simp: three_Cons turn_def)

lemma iter_behind: "next_direction (By_Key ((iter_at us [] p)\<lparr>it_pos := it_end (iter_at us [] p) + 1\<rparr>)) = Inl Verify"
  by (simp add: next_direction_def iter_next_def)

lemma compare_run_overrun:
  assumes "wf_elems (gs @ ks)" "length (encode (gs @ ks) @ o') < 2 ^ 31" "comparables b us es p" "comparables b ws fs q"
    "2 * weights es + 1 \<le> fuel" "length ks < length es" "length ks < length fs"
  shows "if overruns named (length ks) es fs
    then compare_run fuel (Fields (iter_at us es p) (iter_at ws fs q) (By_Key (iter_at gs ks o')) named) = Some (Inl Verify)
    else \<exists>y. compare_run fuel (Fields (iter_at us es p) (iter_at ws fs q) (By_Key (iter_at gs ks o')) named) = Some (Inr y) \<and>
      sgn y = three (directed_key (descends (gs @ ks)) named (length gs) es) (directed_key (descends (gs @ ks)) named (length gs) fs)"
  using assms
proof (induction ks arbitrary: gs us es ws fs fuel)
  case Nil
  then obtain n v es' m w fs' where c: "es = (n, v) # es'" "fs = (m, w) # fs'" by (metis length_greater_0_conv list.size(3) neq_Nil_conv surj_pair)
  obtain fuel' where f: "fuel = Suc (Suc fuel')"
    using Nil.prems(5) c by (cases fuel; cases "fuel - 1") auto
  let ?behind = "By_Key ((iter_at gs [] o')\<lparr>it_pos := it_end (iter_at gs [] o') + 1\<rparr>)"
  have d: "next_direction (By_Key (iter_at gs [] o')) = Inr (Inr False, ?behind)"
    by (simp add: next_direction_def iter_next_end numberDouble_nul double_less_def)
  have asc: "descends gs (length gs) = False" by (simp add: descends_def)
  have w: "2 * weights ((n, v) # es') + 1 \<le> Suc (Suc fuel')" using Nil.prems(5) c f by simp
  from fields_step_run [OF Nil.prems(3,4) [unfolded c] d w] obtain x where x:
    "(x = 0) = (elem_key named (n, v) = elem_key named (m, w))" "sgn x = three (turn False (elem_key named (n, v))) (turn False (elem_key named (m, w)))"
    "sep (turn False (elem_key named (n, v))) (turn False (elem_key named (m, w)))"
    "compare_run fuel (Fields (iter_at us es p) (iter_at ws fs q) (By_Key (iter_at gs [] o')) named) =
      (if x \<noteq> 0 then Some (Inr x) else compare_run (Suc fuel') (Fields (iter_at (us @ [(n, v)]) es' p) (iter_at (ws @ [(m, w)]) fs' q) ?behind named))"
    unfolding c f by metis
  have rest: "compare_run (Suc fuel') (Fields (iter_at (us @ [(n, v)]) es' p) (iter_at (ws @ [(m, w)]) fs' q) ?behind named) = Some (Inl Verify)"
    using iter_next_comparables [OF comparables_elem(2) [OF Nil.prems(3) [unfolded c]]]
      iter_next_comparables [OF comparables_elem(2) [OF Nil.prems(4) [unfolded c]]] iter_behind [of gs o'] by auto
  have "overruns named 0 es fs \<longleftrightarrow> x = 0" by (simp add: overruns_def c x(1))
  with x rest directed_key_step [of "descends gs" "length gs" named "(n, v)" "(m, w)" es' fs'] asc show ?case by (cases "x = 0") (simp_all add: c cong: if_cong)
next
  case (Cons k ks)
  obtain a d where k: "k = (a, d)" by fastforce
  from Cons.prems(6,7) obtain n v es' m w fs' where c: "es = (n, v) # es'" "fs = (m, w) # fs'" by (metis list.size(3) neq_Nil_conv not_less_zero surj_pair)
  obtain fuel' where f: "fuel = Suc fuel'" using Cons.prems(5) by (cases fuel) auto
  let ?desc = "descends (gs @ k # ks)"
  have nk: "nul \<notin> set a" "length a + 1 < 2 ^ 31" using Cons.prems(1,2) k by (simp_all add: encode_def encode_elems_Cons encode_elem_def)
  have "?desc (length gs) = double_less (double_value d) 0" by (simp add: descends_def k)
  then have dir: "next_direction (By_Key (iter_at gs (k # ks) o')) = Inr (Inr (?desc (length gs)), By_Key (iter_at (gs @ [k]) ks o'))"
    using iter_next_at [of gs a d ks o'] Cons.prems(1,2) numberDouble_encoded [OF nk] by (simp add: next_direction_def k)
  have w: "2 * weights ((n, v) # es') + 1 \<le> Suc fuel'" using Cons.prems(5) c f by simp
  from fields_step_run [OF Cons.prems(3,4) [unfolded c] dir w] obtain x where x:
    "(x = 0) = (elem_key named (n, v) = elem_key named (m, w))"
    "sgn x = three (turn (?desc (length gs)) (elem_key named (n, v))) (turn (?desc (length gs)) (elem_key named (m, w)))"
    "sep (turn (?desc (length gs)) (elem_key named (n, v))) (turn (?desc (length gs)) (elem_key named (m, w)))"
    "compare_run fuel (Fields (iter_at us es p) (iter_at ws fs q) (By_Key (iter_at gs (k # ks) o')) named) =
      (if x \<noteq> 0 then Some (Inr x) else compare_run fuel' (Fields (iter_at (us @ [(n, v)]) es' p) (iter_at (ws @ [(m, w)]) fs' q) (By_Key (iter_at (gs @ [k]) ks o')) named))"
    unfolding c f by metis
  have ih: "if overruns named (length ks) es' fs'
    then compare_run fuel' (Fields (iter_at (us @ [(n, v)]) es' p) (iter_at (ws @ [(m, w)]) fs' q) (By_Key (iter_at (gs @ [k]) ks o')) named) = Some (Inl Verify)
    else \<exists>y. compare_run fuel' (Fields (iter_at (us @ [(n, v)]) es' p) (iter_at (ws @ [(m, w)]) fs' q) (By_Key (iter_at (gs @ [k]) ks o')) named) = Some (Inr y) \<and>
      sgn y = three (directed_key (descends ((gs @ [k]) @ ks)) named (length (gs @ [k])) es') (directed_key (descends ((gs @ [k]) @ ks)) named (length (gs @ [k])) fs')"
    using Cons.prems(1,2,5-7) c f
    by (intro Cons.IH comparables_elem(2) [OF Cons.prems(3) [unfolded c]] comparables_elem(2) [OF Cons.prems(4) [unfolded c]]) auto
  have over: "overruns named (length (k # ks)) es fs \<longleftrightarrow> x = 0 \<and> overruns named (length ks) es' fs'" by (auto simp: overruns_def c x(1))
  note step = directed_key_step [of ?desc "length gs" named "(n, v)" "(m, w)" es' fs', OF x(3)]
  show ?case
  proof (cases "x = 0")
    case True
    with ih x(1,4) over step show ?thesis by (simp add: c cong: if_cong)
  next
    case False
    with x over step show ?thesis by (simp add: c cong: if_cong)
  qed
qed

lemma woCompare_key_cases:
  assumes "sortable_document b es" "sortable_document b fs" "pattern ks" "2 * weights es + 1 \<le> fuel"
  shows "if ks \<noteq> [] \<and> overruns named (length ks) es fs
    then woCompare_key fuel (encode es) (encode fs) (encode ks) named = Some (Inl Verify)
    else \<exists>y. woCompare_key fuel (encode es) (encode fs) (encode ks) named = Some (Inr y) \<and>
      sgn y = three (directed_key (descends ks) named 0 es) (directed_key (descends ks) named 0 fs)"
proof (cases "min (length es) (length fs) \<le> length ks \<or> ks = []")
  case True
  have "\<not> (ks \<noteq> [] \<and> overruns named (length ks) es fs)" using True by (auto simp: overruns_def)
  with decidedD [OF woCompare_key_decided [OF assms(1-3) True assms(4), of named]] show ?thesis by auto
next
  case False
  then have ks: "ks \<noteq> []" "length ks < length es" "length ks < length fs" by auto
  note k = sortable_document_comparables [OF assms(1)] sortable_document_comparables [OF assms(2)]
  have "isEmpty (encode ks) = Inr False"
    using encode_short [of ks] int_of_bytes_int_bytes [of "length (encode_elems ks) + 5"] assms(3) ks(1)
    by (simp add: isEmpty_def pattern_def objsize_def encode_def frame_def)
  moreover have "isEmpty (encode es) = Inr False" "isEmpty (encode fs) = Inr False"
    using isEmpty_encoded [OF k(1)] isEmpty_encoded [OF k(2)] ks by auto
  moreover have "BSONObjIterator (encode es) = Inr (iter_at [] es [])" "BSONObjIterator (encode fs) = Inr (iter_at [] fs [])"
    using held_start [of es "[]"] held_start [of fs "[]"] k by (simp_all add: comparables_def)
  ultimately have "woCompare_key fuel (encode es) (encode fs) (encode ks) named =
      compare_run fuel (Fields (iter_at [] es []) (iter_at [] fs []) (By_Key (iter_at [] ks [])) named)"
    using iter_start [of ks "[]"] assms(3) by (simp add: woCompare_key_def start_fields_def pattern_def)
  with compare_run_overrun [of "[]" ks "[]" b "[]" es "[]" "[]" fs "[]" fuel named] k assms(3,4) ks show ?thesis
    by (simp add: pattern_def cong: if_cong)
qed


subsection \<open>The order\<close>



subsection \<open>Objects with one field\<close>

lemma woCompare_single:
  assumes "canonical v = canonical w" "\<not> container v" "nul \<notin> set n" "wf_value v" "wf_value w"
    "length n + length (encode_value v) < 2 ^ 31 - 7" "length n + length (encode_value w) < 2 ^ 31 - 7"
  shows "woCompare (Suc (Suc (Suc fuel))) (encode [(n, v)]) (encode [(n, w)]) =
    Some (compare_leaf (value_type v) (encode_elem (n, v) @ [nul]) (encode_elem (n, w) @ [nul]))"
proof -
  have e: "isEmpty empty_object = Inr True"
    by (simp add: isEmpty_def objsize_def empty_object_def int_of_bytes_def)
  have ne: "isEmpty (encode [(n, v)]) = Inr False" "BSONObjIterator (encode [(n, v)]) = Inr (iter_at [] [(n, v)] [])"
    "iter_next (iter_at [] [(n, v)] []) = Inr (encode_elem (n, v) @ [nul], iter_at [(n, v)] [] [])"
    if "length n + length (encode_value v) < 2 ^ 31 - 7" "wf_value v" for v
    using that iter_start [of "[(n, v)]" "[]"] iter_next_at [of "[]" n v "[]" "[]"] assms(3)
      int_of_bytes_int_bytes [of "length (encode_elems [(n, v)]) + 5"]
    by (simp_all add: isEmpty_def objsize_def encode_def frame_def encode_elems_Cons encode_elem_def)
  have name: "strcmp (tl (encode_elem (n, v) @ p)) (tl (encode_elem (n, w) @ q)) = Inr 0" for p q
    using strcmp_key [of "tl (encode_elem (n, v) @ p)" "tl (encode_elem (n, w) @ q)"] assms(3)
    by (simp add: encode_elem_def cstring_key_cstring)
  have "value_type v \<notin> {Object, Array}" using assms(2) by (simp add: container_def)
  then show ?thesis
    using assms(1) ne [OF assms(6,4)] ne [OF assms(7,5)]
    by (cases "compare_leaf (value_type v) (encode_elem (n, v) @ [nul]) (encode_elem (n, w) @ [nul])")
       (simp_all add: woCompare_def woCompare_key_def e start_fields_def next_direction_def compare_elements_def name iter_next_end)
qed

subsection \<open>Where it is no order\<close>

text \<open>
  (C9) A date compared with a timestamp throws 13111, a timestamp compared with a date returns a result, although both have
  the same canonical type.
\<close>

theorem woCompare_date_timestamp:
  assumes "nul \<notin> set n" "length n < 2 ^ 31 - 16" "3 \<le> fuel"
  shows "woCompare fuel (encode [(n, VDate d)]) (encode [(n, VTimestamp t)]) = Some (Inl (UAssert 13111)) \<and>
    woCompare fuel (encode [(n, VTimestamp t)]) (encode [(n, VDate d)]) = Some (Inr (three (uint t) (uint d)))"
proof -
  obtain f where f: "fuel = Suc (Suc (Suc f))" using assms(3) by (metis Suc_le_D numeral_3_eq_3 Suc_le_mono)
  have n: "length n + 1 < 2 ^ 31" using assms(2) by simp
  show ?thesis
    using assms woCompare_single [of "VDate d" "VTimestamp t" n f] woCompare_single [of "VTimestamp t" "VDate d" n f]
      elem_value_encoded [OF assms(1) n] 
    by (simp add: f container_def compare_leaf_def elem_Date_def read_word_bytes)
qed

text \<open>
  (C10) Two different 64 bit integers that round to the same \<open>double\<close> both compare equal to it, but not to each other: beyond
  \<open>2 ^ 53\<close> the order is not transitive.
\<close>

theorem woCompare_equality_intransitive:
  assumes "double_of_int (sint a) = d" "double_of_int (sint b) = d" "\<not> isNaN d" "a \<noteq> b"
    "nul \<notin> set n" "length n < 2 ^ 31 - 16" "3 \<le> fuel"
  shows "woCompare fuel (encode [(n, VLong a)]) (encode [(n, VDouble d)]) = Some (Inr 0) \<and>
    woCompare fuel (encode [(n, VDouble d)]) (encode [(n, VLong b)]) = Some (Inr 0) \<and>
    woCompare fuel (encode [(n, VLong a)]) (encode [(n, VLong b)]) = Some (Inr (if sint a < sint b then -1 else 1))"
proof -
  obtain f where f: "fuel = Suc (Suc (Suc f))" using assms(7) by (metis Suc_le_D numeral_3_eq_3 Suc_le_mono)
  have n: "length n + 1 < 2 ^ 31" using assms(6) by simp
  have "sint a \<noteq> sint b" using assms(4) by (auto dest: signed_word_eqI)
  then show ?thesis
    using assms woCompare_single [of "VLong a" "VDouble d" n f] woCompare_single [of "VDouble d" "VLong b" n f]
      woCompare_single [of "VLong a" "VLong b" n f] elem_value_encoded [OF assms(5) n] numberDouble_encoded [OF assms(5) n]
    by (simp add: f container_def compare_leaf_def compare_numbers_def compare_doubles_key read_word_bytes three_def)
qed

text \<open>Of the scopes of two functions only the bytes before the first NUL are compared, which are bytes of the size.\<close>

lemma cstring_key_short: "length (encode es) < 256 \<Longrightarrow> cstring_key (encode es) = [int (length (encode es)), 0]"
proof -
  assume a: "length (encode es) < 256"
  have z: "char_of (0::nat) = nul" by (simp add: nul_def char_of_def)
  obtain bs where b: "encode es = char_of (length (encode es)) # nul # bs"
    using a by (simp add: encode_def frame_def int_bytes_def le_bytes_4 z)
  have "code (char_of (length (encode es))) = int (length (encode es))" using a by (simp add: code_def)
  moreover have "char_of (length (encode es)) \<noteq> nul" using calculation code_bounds(4) by (force simp: encode_def)
  ultimately show ?thesis by (subst b) (simp add: cstring_key_def)
qed

lemma woCompare_scope_ignored:
  assumes "nul \<notin> set n" "nul \<notin> set c" "wf_elems es" "wf_elems fs" "length (encode es) = length (encode fs)" "length (encode es) < 256"
    "length n + length c < 16777216" "3 \<le> fuel"
  shows "woCompare fuel (encode [(n, VCodeWScope c es)]) (encode [(n, VCodeWScope c fs)]) = Some (Inr 0)"
proof -
  have "sortable_document False [(n, VCodeWScope c es)]" "sortable_document False [(n, VCodeWScope c fs)]"
    using assms by (auto simp: sortable_document_def encode_def encode_elems_Cons encode_elem_def BSONObjMaxInternalSize_def BSONObjMaxUserSize_def)
  from decidedD [OF woCompare_decided [OF this, of fuel]] show ?thesis
    using assms cstring_key_short [of es] cstring_key_short [of fs] by (auto simp: sgn_eq_0_iff)
qed

subsection \<open>Deep equality\<close>





text \<open>An undefined value without a name is equal to the end of an object; the loop then goes on behind the end.\<close>

lemma BSONObj_equal_undefined: "BSONObj_equal (Suc (Suc fuel)) (encode [([], VUndefined)]) (encode []) = Some (Inl Verify)"
proof -
  let ?es = "[([], VUndefined)]" and ?l = "encode_elem ([], VUndefined) @ [nul]"
  have short: "wf_elems ([] @ ([], VUndefined) # [])" "length (encode ([] @ ([], VUndefined) # []) @ []) < 2 ^ 31"
    by (simp_all add: encode_def)
  have start: "BSONObjIterator (encode ?es) = Inr (iter_at [] ?es [])" "BSONObjIterator (encode []) = Inr (iter_at [] [] [])"
    using iter_start [of ?es "[]"] iter_start [of "[]" "[]"] short(2) by (simp_all add: encode_def)
  have i: "iter_next (iter_at [] ?es []) = Inr (?l, iter_at ?es [] [])" using iter_next_at [OF short] by simp
  have behind: "iter_next ((iter_at [] [] [])\<lparr>it_pos := it_end (iter_at [] [] []) + 1\<rparr>) = Inl Verify" by (simp add: iter_next_def)
  have "strcmp (tl ?l) [nul] = Inr 0" by (simp add: encode_elem_def cstring_def)
  then have "elem_woCompare (Suc k) ?l [nul] True = Some (Inr 0)" for k
    by (simp add: elem_woCompare_def compare_elements_def compare_leaf_def)
  then show ?thesis
    by (simp add: BSONObj_equal_def start i iter_next_end behind)
qed

subsection \<open>Prefixes\<close>

lemma isPrefixOf_loop_key:
  assumes "comparables b us es p" "comparables b ws fs q" "length es < fuel" "2 * weights es + 1 \<le> depth"
  shows "isPrefixOf_loop fuel depth (iter_at us es p) (iter_at ws fs q) =
    Some (Inr (length es \<le> length fs \<and> map (elem_key True) es = map (elem_key True) (take (length es) fs)))"
  using assms
proof (induction fuel arbitrary: us es ws fs)
  case (Suc fuel)
  show ?case
  proof (cases "es = [] \<or> fs = []")
    case True
    then show ?thesis by (cases es) auto
  next
    case False
    then obtain n v es' m w fs' where es: "es = (n, v) # es'" and fs: "fs = (m, w) # fs'" by (metis neq_Nil_conv surj_pair)
    have k: "comparable b (n, v) (encode_elems es' @ nul # p)" "comparables b (us @ [(n, v)]) es' p"
      "comparable b (m, w) (encode_elems fs' @ nul # q)" "comparables b (ws @ [(m, w)]) fs' q"
      using comparables_elem Suc.prems(1,2) es fs by blast+
    have next': "iter_next (iter_at us es p) = Inr (encode_elem (n, v) @ encode_elems es' @ nul # p, iter_at (us @ [(n, v)]) es' p)"
      "iter_next (iter_at ws fs q) = Inr (encode_elem (m, w) @ encode_elems fs' @ nul # q, iter_at (ws @ [(m, w)]) fs' q)"
      using iter_next_at [of us n v es' p] iter_next_at [of ws m w fs' q] Suc.prems(1,2) es fs by (simp_all add: comparables_def held_def)
    have d: "2 * weight v + 2 \<le> depth" using Suc.prems(4) es by simp
    obtain x where x: "elem_woCompare depth (encode_elem (n, v) @ encode_elems es' @ nul # p)
        (encode_elem (m, w) @ encode_elems fs' @ nul # q) True = Some (Inr x)" "x = 0 \<longleftrightarrow> elem_key True (n, v) = elem_key True (m, w)"
      using decided_zero [OF elem_woCompare_decided [OF k(1,3) d]] by metis
    have "isPrefixOf_loop fuel depth (iter_at (us @ [(n, v)]) es' p) (iter_at (ws @ [(m, w)]) fs' q) =
        Some (Inr (length es' \<le> length fs' \<and> map (elem_key True) es' = map (elem_key True) (take (length es') fs')))"
      using Suc.prems(3,4) es by (intro Suc.IH k(2,4)) auto
    then show ?thesis using next' x es fs by simp
  qed
qed simp

lemma isPrefixOf_keys:
  assumes "sortable_document b es" "sortable_document b fs" "2 * weights es + 1 \<le> fuel"
  shows "isPrefixOf fuel (encode es) (encode fs) =
    Some (Inr (length es \<le> length fs \<and> map (elem_key True) es = map (elem_key True) (take (length es) fs)))"
proof -
  note k = sortable_document_comparables [OF assms(1)] sortable_document_comparables [OF assms(2)]
  have "length es < fuel" using length_le_weights [of es] assms(3) by linarith
  from isPrefixOf_loop_key [OF k this assms(3)] show ?thesis
    using iter_start [of es "[]"] iter_start [of fs "[]"] k by (simp add: isPrefixOf_def comparables_def held_def)
qed

subsection \<open>Sort keys\<close>









subsection \<open>Examples\<close>



text \<open>\<open>{a: null, b: null}\<close> compared with itself by the pattern \<open>{a: 1}\<close>.\<close>

lemma woCompare_key_overrun_example:
  "woCompare_key 5 (encode [(''a'', VNull), (''b'', VNull)]) (encode [(''a'', VNull), (''b'', VNull)]) (encode [(''a'', VInt 1)]) True = Some (Inl Verify)"
proof -
  let ?es = "[(''a'', VNull), (''b'', VNull)]" and ?ks = "[(''a'', VInt 1)]"
  have "sortable_document False ?es" "pattern ?ks"
    by (simp_all add: sortable_document_def pattern_def encode_def BSONObjMaxInternalSize_def BSONObjMaxUserSize_def nul_def)
  from woCompare_key_cases [OF this(1,1,2), of 5 True] show ?thesis by (simp add: overruns_def)
qed

lemma woCompare_date_timestamp_witness:
  "woCompare 3 (encode [(''t'', VDate 1)]) (encode [(''t'', VTimestamp 2)]) = Some (Inl (UAssert 13111)) \<and>
    woCompare 3 (encode [(''t'', VTimestamp 2)]) (encode [(''t'', VDate 1)]) = Some (Inr 1)"
  using woCompare_date_timestamp [of "''t''" 3 1 2] by (simp add: nul_def three_def)

lemma woCompare_equality_intransitive_witness:
  "woCompare 3 (encode [(''n'', VLong 9007199254740992)]) (encode [(''n'', VDouble (double_of_int 9007199254740992))]) = Some (Inr 0) \<and>
    woCompare 3 (encode [(''n'', VDouble (double_of_int 9007199254740992))]) (encode [(''n'', VLong 9007199254740993)]) = Some (Inr 0) \<and>
    woCompare 3 (encode [(''n'', VLong 9007199254740992)]) (encode [(''n'', VLong 9007199254740993)]) = Some (Inr (-1))"
proof -
  have "high_bit (2 ^ 53) = 53" "high_bit (2 ^ 53 + 1) = 53" by (rule high_bit_unique; simp)+
  then have "double_of_int (2 ^ 53 + 1) = double_of_int (2 ^ 53)"
    by (simp add: double_of_int_def nat_magnitude_def round_shift_def)
  moreover have "\<not> isNaN (double_of_int (2 ^ 53))" by (rule double_key_int(2)) simp
  ultimately show ?thesis
    using woCompare_equality_intransitive [of 9007199254740992 "double_of_int 9007199254740992" 9007199254740993 "''n''" 3] by (simp add: nul_def)
qed



end
