(* ===== verification/Bson_Storage.thy ===== *)
theory Bson_Storage
  imports Bson_Object Status "HOL-Library.Sublist"
begin

text \<open>
  \<open>BSONObj::_okForStorage\<close> of \<open>src/mongo/db/jsobj.cpp\<close>: which documents may be stored in a collection. Names of fields
  may neither contain a dot nor begin with a dollar sign, except in a database reference. The argument \<open>fuel\<close> bounds
  the number of iterations, those in objects inside included.
\<close>

subsection \<open>The code\<close>

definition typeName :: "BSONType \<Rightarrow> string" where
  "typeName t =
     (case t of
        MinKey \<Rightarrow> ''MinKey'' | EOO \<Rightarrow> ''EOO'' | NumberDouble \<Rightarrow> ''NumberDouble'' | String \<Rightarrow> ''String'' | Object \<Rightarrow> ''Object''
      | Array \<Rightarrow> ''Array'' | BinData \<Rightarrow> ''BinaryData'' | Undefined \<Rightarrow> ''Undefined'' | jstOID \<Rightarrow> ''OID'' | Bool \<Rightarrow> ''Bool''
      | Date \<Rightarrow> ''Date'' | jstNULL \<Rightarrow> ''NULL'' | RegEx \<Rightarrow> ''RegEx'' | DBRef \<Rightarrow> ''DBRef'' | Code \<Rightarrow> ''Code'' | Symbol \<Rightarrow> ''Symbol''
      | CodeWScope \<Rightarrow> ''CodeWScope'' | NumberInt \<Rightarrow> ''NumberInt32'' | Timestamp \<Rightarrow> ''Timestamp'' | NumberLong \<Rightarrow> ''NumberLong64''
      | MaxKey \<Rightarrow> ''MaxKey'')"

definition DollarPrefixedFieldName :: error_code where
  "DollarPrefixedFieldName = OtherCode 52"

definition InvalidIdField :: error_code where
  "InvalidIdField = OtherCode 53"

definition DottedFieldName :: error_code where
  "DottedFieldName = OtherCode 57"

definition mayEncapsulate :: "int \<Rightarrow> bool" where
  "mayEncapsulate t \<longleftrightarrow> t \<in> BSONType_to_int ` {Object, Array, CodeWScope}"

definition codeWScopeObject :: "string \<Rightarrow> string result" where
  "codeWScopeObject e =
     bindE (elem_type e) (\<lambda>t.
       if t \<noteq> BSONType_to_int CodeWScope then Inl Verify
       else
         bindE (elem_value e) (\<lambda>p. bindE (read_int (drop 4 p)) (\<lambda>strSizeWNull.
           if 8 + strSizeWNull < 0 then Inl UndefinedBehaviour else BSONObj_init (drop (nat (8 + strSizeWNull)) p))))"

abbreviation starts_with_dollar :: "string \<Rightarrow> bool" where
  "starts_with_dollar name \<equiv> take 1 name = ''$''"

definition not_valid :: "error_code \<Rightarrow> string \<Rightarrow> status" where
  "not_valid c name = Status c (name @ '' is not valid for storage.'') 0"

text \<open>
  What the checks at the beginning of the loop decide: to return, to go on with the next iteration, or to check an
  element, which is the one after the reference when the loop has found a database reference.
\<close>

datatype dollar_check = Return_Status status | Continue_With bson_iter | Check_Element string string bson_iter

definition check_dollar :: "bool \<Rightarrow> string \<Rightarrow> string \<Rightarrow> bson_iter \<Rightarrow> dollar_check result" where
  "check_dollar first e name i =
     (if starts_with_dollar name then
        bindE (elem_type e) (\<lambda>t.
        bindE (if first \<and> name = ''$ref'' \<and> t = BSONType_to_int String
               then bindE (iter_next i) (\<lambda>(e2, i). bindE (fieldName e2) (\<lambda>name2. Inr (name2 = ''$id'', i)))
               else Inr (False, i)) (\<lambda>(dbref, i).
          if \<not> dbref then Inr (Return_Status (not_valid DollarPrefixedFieldName name))
          else
            bindE (iter_next i) (\<lambda>(e, i). bindE (fieldName e) (\<lambda>name. bindE (elem_type e) (\<lambda>t.
              if name = ''$db'' \<and> t = BSONType_to_int String then Inr (Continue_With i)
              else if starts_with_dollar name then Inr (Return_Status (not_valid DollarPrefixedFieldName name))
              else Inr (Check_Element e name i))))))
      else Inr (Check_Element e name i))"

definition check_name :: "bool \<Rightarrow> string \<Rightarrow> string \<Rightarrow> status option result" where
  "check_name root e name =
     (if CHR ''.'' \<in> set name then Inr (Some (not_valid DottedFieldName name))
      else
        bindE (elem_type e) (\<lambda>t.
          if root \<and> t \<in> BSONType_to_int ` {RegEx, Array, Undefined} \<and> name = ''_id''
          then Inr (Some (Status InvalidIdField
            (name @ '' is not valid for storage because it is of type '' @
              (case BSONType_of_int t of Some t \<Rightarrow> typeName t | None \<Rightarrow> ''Invalid'')) 0))
          else Inr None))"

definition storage_child :: "string \<Rightarrow> string result" where
  "storage_child e = bindE (elem_type e) (\<lambda>t. if isABSONObj t then embeddedObject e else codeWScopeObject e)"

definition storage_element :: "(bson_iter \<Rightarrow> status result option) \<Rightarrow> bool \<Rightarrow> bool \<Rightarrow> string \<Rightarrow> string \<Rightarrow> status result option" where
  "storage_element rec root deep e name =
     bindO (Some (check_name root e name)) (\<lambda>s.
       case s of
         Some s \<Rightarrow> Some (Inr s)
       | None \<Rightarrow>
           bindO (Some (elem_type e)) (\<lambda>t.
             if deep \<and> mayEncapsulate t
             then bindO (Some (storage_child e)) (\<lambda>obj. bindO (Some (BSONObjIterator obj)) rec)
             else Some (Inr Status_OK)))"

primrec okForStorage_loop :: "nat \<Rightarrow> bool \<Rightarrow> bool \<Rightarrow> bool \<Rightarrow> bson_iter \<Rightarrow> status result option" where
  "okForStorage_loop 0 root deep first i = None"
| "okForStorage_loop (Suc fuel) root deep first i =
     (if \<not> iter_more i then Some (Inr Status_OK)
      else
        bindO (Some (iter_next i)) (\<lambda>(e, i). bindO (Some (fieldName e)) (\<lambda>name.
        bindO (Some (check_dollar first e name i)) (\<lambda>c.
          case c of
            Return_Status s \<Rightarrow> Some (Inr s)
          | Continue_With i \<Rightarrow> okForStorage_loop fuel root deep False i
          | Check_Element e name i \<Rightarrow>
              bindO (storage_element (okForStorage_loop fuel False True True) root deep e name) (\<lambda>s.
                if \<not> isOK s then Some (Inr s) else okForStorage_loop fuel root deep False i)))))"

definition storageValidOf :: "nat \<Rightarrow> bool \<Rightarrow> bool \<Rightarrow> string \<Rightarrow> status result option" where
  "storageValidOf fuel root deep obj = bindO (Some (BSONObjIterator obj)) (okForStorage_loop fuel root deep True)"

definition okForStorage :: "nat \<Rightarrow> string \<Rightarrow> bool result option" where
  "okForStorage fuel obj = bindO (storageValidOf fuel False True obj) (\<lambda>s. Some (Inr (isOK s)))"

definition okForStorageAsRoot :: "nat \<Rightarrow> string \<Rightarrow> bool result option" where
  "okForStorageAsRoot fuel obj = bindO (storageValidOf fuel True True obj) (\<lambda>s. Some (Inr (isOK s)))"

definition storageValidEmbedded :: "nat \<Rightarrow> bool \<Rightarrow> string \<Rightarrow> status result option" where
  "storageValidEmbedded fuel deep obj = storageValidOf fuel False deep obj"

definition storageValid :: "nat \<Rightarrow> bool \<Rightarrow> string \<Rightarrow> status result option" where
  "storageValid fuel deep obj = storageValidOf fuel True deep obj"

subsection \<open>What may be stored\<close>

text \<open>The fields at the beginning of a database reference are not looked at, whatever \<open>$id\<close> contains.\<close>

fun after_reference :: "bson_elem list \<Rightarrow> bson_elem list" where
  "after_reference ((r, VString s) # (i, v) # es) =
     (if r = ''$ref'' \<and> i = ''$id''
      then (case es of (d, VString t) # fs \<Rightarrow> if d = ''$db'' then fs else es | _ \<Rightarrow> es)
      else (r, VString s) # (i, v) # es)"
| "after_reference es = es"

lemma size_after_reference: "size_list f (after_reference es) \<le> size_list f es"
  by (cases es rule: after_reference.cases) (auto split: list.splits bson_value.splits)

definition plain_name :: "string \<Rightarrow> bool" where
  "plain_name n \<longleftrightarrow> \<not> starts_with_dollar n \<and> CHR ''.'' \<notin> set n"

function storable_value :: "bson_value \<Rightarrow> bool" and storable_fields :: "bson_elem list \<Rightarrow> bool" where
  "storable_value v =
     (case v of
        VObject es \<Rightarrow> storable_fields (after_reference es)
      | VArray es \<Rightarrow> storable_fields (after_reference es)
      | VCodeWScope c es \<Rightarrow> storable_fields (after_reference es)
      | _ \<Rightarrow> True)"
| "storable_fields [] = True"
| "storable_fields ((n, v) # es) \<longleftrightarrow> plain_name n \<and> storable_value v \<and> storable_fields es"
  by pat_completeness auto
termination
  by (relation "measure (\<lambda>x. case x of Inl v \<Rightarrow> size v | Inr es \<Rightarrow> size_list (size_prod (\<lambda>_. 0) size) es)")
     (auto simp: le_imp_less_Suc size_after_reference)

declare storable_value.simps [simp del]

definition id_type_allowed :: "bool \<Rightarrow> bson_elem \<Rightarrow> bool" where
  "id_type_allowed root e \<longleftrightarrow> \<not> (root \<and> fst e = ''_id'' \<and> value_type (snd e) \<in> {RegEx, Array, Undefined})"

definition storable :: "bool \<Rightarrow> bool \<Rightarrow> bson_elem list \<Rightarrow> bool" where
  "storable root deep es \<longleftrightarrow>
     (\<forall>(n, v) \<in> set (after_reference es). plain_name n \<and> id_type_allowed root (n, v) \<and> (deep \<longrightarrow> storable_value v))"

fun nodes :: "bson_value \<Rightarrow> nat" and nodes_list :: "bson_elem list \<Rightarrow> nat" where
  "nodes (VObject es) = nodes_list es"
| "nodes (VArray es) = nodes_list es"
| "nodes (VCodeWScope c es) = nodes_list es"
| "nodes v = 0"
| "nodes_list [] = 0"
| "nodes_list ((n, v) # es) = Suc (nodes v + nodes_list es)"

subsection \<open>One element\<close>

definition inner :: "bson_value \<Rightarrow> bson_elem list" where
  "inner v = (case v of VObject es \<Rightarrow> es | VArray es \<Rightarrow> es | VCodeWScope c es \<Rightarrow> es | _ \<Rightarrow> [])"

definition encloses :: "bson_value \<Rightarrow> bool" where
  "encloses v \<longleftrightarrow> value_type v \<in> {Object, Array, CodeWScope}"

definition verdict :: "status result option \<Rightarrow> bool \<Rightarrow> bool" where
  "verdict r b \<longleftrightarrow>
     (\<exists>s. r = Some (Inr s) \<and> (isOK s \<longleftrightarrow> b) \<and>
       (isOK s \<or> status_code s \<in> {DollarPrefixedFieldName, DottedFieldName, InvalidIdField}))"

lemma verdict_OK [simp]: "verdict (Some (Inr Status_OK)) b \<longleftrightarrow> b"
  by (simp add: verdict_def Status_OK_def isOK_def status_code_def)

lemma verdict_not_valid [simp]: "c \<in> {DollarPrefixedFieldName, DottedFieldName} \<Longrightarrow> verdict (Some (Inr (not_valid c n))) b \<longleftrightarrow> \<not> b"
  by (auto simp: verdict_def not_valid_def isOK_def DollarPrefixedFieldName_def DottedFieldName_def)

lemma verdict_id [simp]: "verdict (Some (Inr (Status InvalidIdField r l))) b \<longleftrightarrow> \<not> b"
  by (auto simp: verdict_def isOK_def InvalidIdField_def)

lemma verdict_then:
  assumes "verdict r b" "b \<Longrightarrow> verdict t c"
  shows "verdict (bindO r (\<lambda>s. if \<not> isOK s then Some (Inr s) else t)) (b \<and> c)"
  using assms by (auto simp: verdict_def)

lemma storable_fields_all: "storable_fields es \<longleftrightarrow> (\<forall>(n, v) \<in> set es. plain_name n \<and> storable_value v)"
  by (induction es) auto

lemma storable_inner: "storable_value v \<longleftrightarrow> (encloses v \<longrightarrow> storable False True (inner v))"
  by (cases v) (auto simp: storable_value.simps encloses_def inner_def storable_def id_type_allowed_def storable_fields_all)

lemma nodes_inner: "nodes_list (inner v) = nodes v"
  by (cases v) (simp_all add: inner_def)

lemma mayEncapsulate_encloses [simp]: "mayEncapsulate (BSONType_to_int (value_type v)) \<longleftrightarrow> encloses v"
  by (cases v) (simp_all add: mayEncapsulate_def encloses_def BSONType_to_int_def BSONType_table_def)

lemma storage_child_encoded:
  assumes "encloses v" "nul \<notin> set n" "wf_value v" "int (length (encode_elem (n, v))) \<le> BSONObjMaxInternalSize"
    "length (encode_elem (n, v) @ q) < 2 ^ 31"
  shows "storage_child (encode_elem (n, v) @ q) = Inr (encode (inner v) @ q)" "held [] (inner v) q"
proof -
  have n: "length n + 1 < 2 ^ 31" using assms(5) by (simp add: encode_elem_def)
  show "held [] (inner v) q"
    using assms(1,3-5) by (cases v) (auto simp: held_def inner_def encode_elem_def encode_def encloses_def)
  show "storage_child (encode_elem (n, v) @ q) = Inr (encode (inner v) @ q)"
  proof (cases "container v")
    case True
    then have "inner v = sub_elems v" by (cases v) (simp_all add: inner_def sub_elems_def container_def)
    then show ?thesis using embeddedObject_encoded [OF True assms(2,4)] True by (simp add: storage_child_def)
  next
    case False
    then obtain c es where v: "v = VCodeWScope c es" using assms(1) by (cases v) (auto simp: encloses_def container_def)
    have "length c + 1 < 2 ^ 31" using assms(5) by (simp add: v encode_elem_def)
    then have "read_int (drop 4 (encode_value v @ q)) = Inr (int (length c + 1))"
      using read_int_bytes [of "length c + 1"] by (simp add: v sized_string_def)
    moreover have "drop (nat (8 + int (length c + 1))) (encode_value v @ q) = encode es @ q"
    proof -
      have "nat (8 + int (length c + 1)) = length c + 9" by simp
      then show ?thesis by (simp add: v sized_string_def encode_def)
    qed
    moreover have "BSONObj_init (encode es @ q) = Inr (encode es @ q)"
      using assms(4) by (intro BSONObj_init_encode) (simp add: v encode_elem_def encode_def)
    moreover have "\<not> isABSONObj (BSONType_to_int (value_type v))" using False by simp
    ultimately show ?thesis
      using elem_value_encoded [OF assms(2) n, of v q] by (simp add: storage_child_def codeWScopeObject_def inner_def v)
  qed
qed

lemma storage_element_verdict:
  assumes "nul \<notin> set n" "wf_value v" "int (length (encode_elem (n, v))) \<le> BSONObjMaxInternalSize" "length (encode_elem (n, v) @ q) < 2 ^ 31"
    and rec: "encloses v \<Longrightarrow> held [] (inner v) q \<Longrightarrow> verdict (rec (iter_at [] (inner v) q)) (storable False True (inner v))"
  shows "verdict (storage_element rec root deep (encode_elem (n, v) @ q) n)
    (CHR ''.'' \<notin> set n \<and> id_type_allowed root (n, v) \<and> (deep \<longrightarrow> storable_value v))"
proof -
  have t: "BSONType_to_int (value_type v) \<in> BSONType_to_int ` {RegEx, Array, Undefined} \<longleftrightarrow> value_type v \<in> {RegEx, Array, Undefined}"
    by auto
  show ?thesis
  proof (cases "CHR ''.'' \<in> set n \<or> \<not> id_type_allowed root (n, v)")
    case True
    then show ?thesis
      by (cases "CHR ''.'' \<in> set n") (auto simp: storage_element_def check_name_def id_type_allowed_def t)
  next
    case False
    then have "check_name root (encode_elem (n, v) @ q) n = Inr None" by (auto simp: check_name_def id_type_allowed_def t)
    then show ?thesis
      using False storage_child_encoded [OF _ assms(1-4)] held_start rec
      by (cases "deep \<and> encloses v") (auto simp: storage_element_def storable_inner)
  qed
qed

subsection \<open>The loop\<close>

definition fine :: "bool \<Rightarrow> bool \<Rightarrow> bson_elem \<Rightarrow> bool" where
  "fine root deep e \<longleftrightarrow> plain_name (fst e) \<and> id_type_allowed root e \<and> (deep \<longrightarrow> storable_value (snd e))"

lemma storable_fine: "storable root deep es \<longleftrightarrow> (\<forall>e \<in> set (after_reference es). fine root deep e)"
  by (auto simp: storable_def fine_def)

lemma loop_end: "okForStorage_loop (Suc fuel) root deep first ((iter_at us [] p)\<lparr>it_pos := it_end (iter_at us [] p) + 1\<rparr>) = Some (Inr Status_OK)"
  by (simp add: iter_more_def)

text \<open>The part of the loop after the check for references.\<close>

lemma loop_body:
  assumes h: "held us ((n, v) # es) p"
    and sub: "\<And>q. encloses v \<Longrightarrow> held [] (inner v) q \<Longrightarrow> verdict (okForStorage_loop fuel False True True (iter_at [] (inner v) q)) (storable False True (inner v))"
    and rest: "verdict (okForStorage_loop fuel root deep False (iter_at (us @ [(n, v)]) es p)) (\<forall>e \<in> set es. fine root deep e)"
    and dollar: "\<not> starts_with_dollar n"
  shows "verdict (bindO (storage_element (okForStorage_loop fuel False True True) root deep (encode_elem (n, v) @ encode_elems es @ nul # p) n)
      (\<lambda>s. if \<not> isOK s then Some (Inr s) else okForStorage_loop fuel root deep False (iter_at (us @ [(n, v)]) es p)))
    (\<forall>e \<in> set ((n, v) # es). fine root deep e)"
proof -
  have "verdict (storage_element (okForStorage_loop fuel False True True) root deep (encode_elem (n, v) @ encode_elems es @ nul # p) n)
    (CHR ''.'' \<notin> set n \<and> id_type_allowed root (n, v) \<and> (deep \<longrightarrow> storable_value v))"
    by (rule storage_element_verdict) (use held_elem [OF h] sub in auto)
  from verdict_then [OF this rest] show ?thesis using dollar by (simp add: fine_def plain_name_def conj_assoc)
qed

lemma iter_next_element:
  assumes "held us ((n, v) # es) p"
  shows "iter_next (iter_at us ((n, v) # es) p) = Inr (encode_elem (n, v) @ encode_elems es @ nul # p, iter_at (us @ [(n, v)]) es p)"
    "fieldName (encode_elem (n, v) @ encode_elems es @ nul # p) = Inr n"
  using iter_next_held [OF assms] fieldName_encoded [OF held_elem(1) [OF assms]] by (auto simp: encode_elems_Cons)

text \<open>An element that is not the beginning of a reference.\<close>

lemma loop_element:
  assumes h: "held us ((n, v) # es) p"
    and first: "first \<Longrightarrow> n \<noteq> ''$ref'' \<or> value_type v \<noteq> String"
    and sub: "\<And>q. encloses v \<Longrightarrow> held [] (inner v) q \<Longrightarrow> verdict (okForStorage_loop fuel False True True (iter_at [] (inner v) q)) (storable False True (inner v))"
    and rest: "verdict (okForStorage_loop fuel root deep False (iter_at (us @ [(n, v)]) es p)) (\<forall>e \<in> set es. fine root deep e)"
  shows "verdict (okForStorage_loop (Suc fuel) root deep first (iter_at us ((n, v) # es) p)) (\<forall>e \<in> set ((n, v) # es). fine root deep e)"
proof (cases "starts_with_dollar n")
  case True
  then have "check_dollar first (encode_elem (n, v) @ encode_elems es @ nul # p) n (iter_at (us @ [(n, v)]) es p) =
      Inr (Return_Status (not_valid DollarPrefixedFieldName n))"
    using first by (auto simp: check_dollar_def)
  then show ?thesis using True iter_next_element [OF h] by (simp add: fine_def plain_name_def)
next
  case False
  then show ?thesis using loop_body [OF h sub rest False] iter_next_element [OF h] by (simp add: check_dollar_def)
qed

lemma fieldName_nul: "fieldName (nul # p) = Inr []"
  by (simp add: fieldName_def)

lemma isOK_OK: "isOK Status_OK"
  by (simp add: Status_OK_def isOK_def status_code_def)

text \<open>A string \<open>$ref\<close> as the first field.\<close>

lemma loop_reference:
  assumes h: "held us ((''$ref'', VString s) # es) p"
    and sub: "\<And>n v q. (n, v) \<in> set es \<Longrightarrow> encloses v \<Longrightarrow> held [] (inner v) q \<Longrightarrow>
      verdict (okForStorage_loop fuel False True True (iter_at [] (inner v) q)) (storable False True (inner v))"
    and rest: "\<And>ws fs. held ws fs p \<Longrightarrow> suffix fs es \<Longrightarrow>
      verdict (okForStorage_loop fuel root deep False (iter_at ws fs p)) (\<forall>e \<in> set fs. fine root deep e)"
    and fuel: "es \<noteq> [] \<Longrightarrow> fuel \<noteq> 0"
  shows "verdict (okForStorage_loop (Suc fuel) root deep True (iter_at us ((''$ref'', VString s) # es) p)) (storable root deep ((''$ref'', VString s) # es))"
proof (cases "\<exists>x es'. es = (''$id'', x) # es'")
  case False
  then have "\<not> fine root deep (''$ref'', VString s)" "after_reference ((''$ref'', VString s) # es) = (''$ref'', VString s) # es"
    by (simp add: fine_def plain_name_def, cases es, auto)
  then have no: "\<not> storable root deep ((''$ref'', VString s) # es)" by (simp add: storable_fine)
  have "check_dollar True (encode_elem (''$ref'', VString s) @ encode_elems es @ nul # p) ''$ref'' (iter_at (us @ [(''$ref'', VString s)]) es p) =
      Inr (Return_Status (not_valid DollarPrefixedFieldName ''$ref''))"
  proof (cases es)
    case Nil
    then show ?thesis by (simp add: check_dollar_def iter_next_end fieldName_nul)
  next
    case (Cons e es')
    then obtain n v where es: "es = (n, v) # es'" "n \<noteq> ''$id''" using False by (cases e) auto
    from iter_next_element [of "us @ [(''$ref'', VString s)]" n v es' p] held_elem(5) [OF h] es show ?thesis
      by (simp add: check_dollar_def)
  qed
  then show ?thesis using iter_next_element [OF h] no by simp
next
  case True
  then obtain x es' where es: "es = (''$id'', x) # es'" by blast
  let ?us = "us @ [(''$ref'', VString s), (''$id'', x)]"
  have h2: "held (us @ [(''$ref'', VString s)]) ((''$id'', x) # es') p" using held_elem(5) [OF h] es by simp
  have h3: "held ?us es' p" using held_elem(5) [OF h2] by simp
  note n = iter_next_element [OF h, unfolded es] iter_next_element [OF h2]
  obtain f where f: "fuel = Suc f" using fuel es by (cases fuel) auto
  show ?thesis
  proof (cases es')
    case Nil
    have "\<not> mayEncapsulate 0" by (auto simp: mayEncapsulate_def dest: sym)
    then have "storage_element r root deep (nul # p) [] = Some (Inr Status_OK)" for r
      by (simp add: storage_element_def check_name_def)
    then show ?thesis
      using n loop_end [of f root deep False ?us p] by (simp add: es Nil f check_dollar_def iter_next_end fieldName_nul storable_def isOK_OK)
  next
    case (Cons e fs)
    obtain m w where e: "e = (m, w)" by fastforce
    note n3 = iter_next_element [OF h3 [unfolded Cons e]]
    show ?thesis
    proof (cases "m = ''$db'' \<and> value_type w = String")
      case True
      then obtain t where w: "w = VString t" by (cases w) auto
      have "verdict (okForStorage_loop fuel root deep False (iter_at (?us @ [(m, w)]) fs p)) (\<forall>e \<in> set fs. fine root deep e)"
        using rest [of "?us @ [(m, w)]" fs] held_elem(5) [OF h3 [unfolded Cons e]] by (simp add: es Cons suffix_ConsI)
      then show ?thesis using n n3 True by (simp add: es Cons e w check_dollar_def storable_fine)
    next
      case False
      then have after: "after_reference ((''$ref'', VString s) # es) = es'" by (cases w) (auto simp: es Cons e)
      show ?thesis
      proof (cases "starts_with_dollar m")
        case True
        then have "\<not> storable root deep ((''$ref'', VString s) # es)" unfolding storable_fine after by (simp add: Cons e fine_def plain_name_def)
        then show ?thesis using n n3 True False by (auto simp: es Cons e check_dollar_def)
      next
        case plain: False
        have "verdict (okForStorage_loop fuel root deep False (iter_at (?us @ [(m, w)]) fs p)) (\<forall>e \<in> set fs. fine root deep e)"
          using rest [of "?us @ [(m, w)]" fs] held_elem(5) [OF h3 [unfolded Cons e]] by (simp add: es Cons suffix_ConsI)
        have sub': "\<And>q. encloses w \<Longrightarrow> held [] (inner w) q \<Longrightarrow>
            verdict (okForStorage_loop fuel False True True (iter_at [] (inner w) q)) (storable False True (inner w))"
          using sub [of m w] by (simp add: es Cons e)
        note body = loop_body [OF h3 [unfolded Cons e] sub' \<open>verdict _ _\<close> plain]
        have "okForStorage_loop (Suc fuel) root deep True (iter_at us ((''$ref'', VString s) # es) p) =
            bindO (storage_element (okForStorage_loop fuel False True True) root deep (encode_elem (m, w) @ encode_elems fs @ nul # p) m)
              (\<lambda>s. if \<not> isOK s then Some (Inr s) else okForStorage_loop fuel root deep False (iter_at (?us @ [(m, w)]) fs p))"
          using n n3 False plain by (auto simp: es Cons e check_dollar_def cong: if_cong)
        then show ?thesis unfolding storable_fine after using body by (simp add: Cons e)
      qed
    qed
  qed
qed

lemma nodes_mem: "(n, v) \<in> set es \<Longrightarrow> nodes v < nodes_list es"
  by (induction es) auto

lemma nodes_list_suffix: "suffix fs es \<Longrightarrow> nodes_list fs \<le> nodes_list es"
  by (induction es) (auto simp: suffix_Cons)

lemma after_reference_other:
  "\<not> (\<exists>s es'. es = (''$ref'', VString s) # es') \<Longrightarrow> after_reference es = es"
  by (cases es rule: after_reference.cases) auto

lemma loop_verdict:
  assumes "held us es p" "nodes_list es < fuel"
  shows "verdict (okForStorage_loop fuel root deep first (iter_at us es p)) (if first then storable root deep es else \<forall>e \<in> set es. fine root deep e)"
  using assms
proof (induction fuel arbitrary: us es p root deep first)
  case (Suc fuel)
  have sub: "verdict (okForStorage_loop fuel False True True (iter_at [] (inner v) q)) (storable False True (inner v))"
    if "(n, v) \<in> set es" "held [] (inner v) q" for n v q
    using Suc.IH [OF that(2), of False True True] nodes_mem [OF that(1)] Suc.prems(2) by (simp add: nodes_inner)
  show ?case
  proof (cases es)
    case Nil
    then show ?thesis by (simp add: storable_def)
  next
    case (Cons e es')
    obtain n v where e: "e = (n, v)" by fastforce
    note h = Suc.prems(1) [unfolded Cons e]
    show ?thesis
    proof (cases "first \<and> n = ''$ref'' \<and> value_type v = String")
      case True
      then obtain s where v: "v = VString s" by (cases v) auto
      have es: "es = (''$ref'', VString s) # es'" using True Cons e v by simp
      have "verdict (okForStorage_loop (Suc fuel) root deep True (iter_at us ((''$ref'', VString s) # es') p)) (storable root deep ((''$ref'', VString s) # es'))"
      proof (rule loop_reference)
        show "held us ((''$ref'', VString s) # es') p" using Suc.prems(1) es by simp
        show "verdict (okForStorage_loop fuel False True True (iter_at [] (inner w) q)) (storable False True (inner w))"
          if "(m, w) \<in> set es'" "held [] (inner w) q" for m w q
          using sub [of m w q] that es by simp
        show "verdict (okForStorage_loop fuel root deep False (iter_at ws fs p)) (\<forall>e \<in> set fs. fine root deep e)"
          if "held ws fs p" "suffix fs es'" for ws fs
          using Suc.IH [OF that(1), of root deep False] nodes_list_suffix [OF that(2)] Suc.prems(2) es by simp
        show "es' \<noteq> [] \<Longrightarrow> fuel \<noteq> 0" using Suc.prems(2) es by (cases es') auto
      qed
      then show ?thesis using True es by simp
    next
      case False
      have rest: "verdict (okForStorage_loop fuel root deep False (iter_at (us @ [(n, v)]) es' p)) (\<forall>e \<in> set es'. fine root deep e)"
        using Suc.IH [OF held_elem(5) [OF h], of root deep False] Suc.prems(2) Cons e by simp
      have sub': "verdict (okForStorage_loop fuel False True True (iter_at [] (inner v) q)) (storable False True (inner v))"
        if "held [] (inner v) q" for q using sub [of n v q] that Cons e by simp
      have "verdict (okForStorage_loop (Suc fuel) root deep first (iter_at us ((n, v) # es') p)) (\<forall>e \<in> set ((n, v) # es'). fine root deep e)"
        using False by (intro loop_element [OF h _ sub' rest]) auto
      moreover have "first \<Longrightarrow> after_reference es = es" using False Cons e by (intro after_reference_other) auto
      ultimately show ?thesis using Cons e by (cases first) (simp_all add: storable_fine del: okForStorage_loop.simps)
    qed
  qed
qed simp

lemma storageValidOf_verdict:
  assumes "wf_elems es" "int (length (encode es)) \<le> BSONObjMaxInternalSize" "nodes_list es < fuel"
  shows "verdict (storageValidOf fuel root deep (encode es)) (storable root deep es)"
proof -
  have h: "held [] es []" using assms(1,2) max_sizes by (auto simp: held_def)
  have "verdict (okForStorage_loop fuel root deep True (iter_at [] es [])) (storable root deep es)"
    using loop_verdict [OF h assms(3), of root deep True] by simp
  then show ?thesis using held_start [OF h] by (simp add: storageValidOf_def)
qed

subsection \<open>What the header promises\<close>

text \<open>
  The comments of \<open>bsonobj.h\<close>: no field name of the document or, when the check is deep, of an object inside it has a dot or
  a leading dollar sign, apart from the names of a database reference; what a field \<open>$id\<close> contains is no exception. The type of \<open>_id\<close>
  is that of the code, which also refuses undefined values.
\<close>

definition names_allowed :: "bson_elem list \<Rightarrow> bool" where
  "names_allowed es \<longleftrightarrow> (\<forall>e \<in> set (after_reference es). plain_name (fst e))"

fun documented_value :: "bson_value \<Rightarrow> bool" and documented_fields :: "bson_elem list \<Rightarrow> bool" where
  "documented_value (VObject es) \<longleftrightarrow> names_allowed es \<and> documented_fields es"
| "documented_value (VArray es) \<longleftrightarrow> names_allowed es \<and> documented_fields es"
| "documented_value (VCodeWScope c es) \<longleftrightarrow> names_allowed es \<and> documented_fields es"
| "documented_value v \<longleftrightarrow> True"
| "documented_fields [] \<longleftrightarrow> True"
| "documented_fields ((n, v) # es) \<longleftrightarrow> documented_value v \<and> documented_fields es"

definition documented :: "bool \<Rightarrow> bool \<Rightarrow> bson_elem list \<Rightarrow> bool" where
  "documented root deep es \<longleftrightarrow> names_allowed es \<and> (\<forall>e \<in> set es. id_type_allowed root e) \<and> (deep \<longrightarrow> documented_fields es)"

text \<open>No database reference, at any depth, has an object, an array or code with a scope as its \<open>$id\<close>.\<close>

fun plain_id :: "bson_elem list \<Rightarrow> bool" where
  "plain_id ((r, VString s) # (i, v) # es) \<longleftrightarrow> (r = ''$ref'' \<and> i = ''$id'' \<longrightarrow> \<not> encloses v)"
| "plain_id es \<longleftrightarrow> True"

fun plain_ids_value :: "bson_value \<Rightarrow> bool" and plain_ids_fields :: "bson_elem list \<Rightarrow> bool" where
  "plain_ids_value (VObject es) \<longleftrightarrow> plain_id es \<and> plain_ids_fields es"
| "plain_ids_value (VArray es) \<longleftrightarrow> plain_id es \<and> plain_ids_fields es"
| "plain_ids_value (VCodeWScope c es) \<longleftrightarrow> plain_id es \<and> plain_ids_fields es"
| "plain_ids_value v \<longleftrightarrow> True"
| "plain_ids_fields [] \<longleftrightarrow> True"
| "plain_ids_fields ((n, v) # es) \<longleftrightarrow> plain_ids_value v \<and> plain_ids_fields es"

lemma documented_fields_all: "documented_fields es \<longleftrightarrow> (\<forall>e \<in> set es. documented_value (snd e))"
  by (induction es) auto

lemma plain_ids_fields_all: "plain_ids_fields es \<longleftrightarrow> (\<forall>e \<in> set es. plain_ids_value (snd e))"
  by (induction es) auto

lemma documented_inner: "documented_value v \<longleftrightarrow> names_allowed (inner v) \<and> documented_fields (inner v)"
  by (cases v) (simp_all add: inner_def names_allowed_def)

lemma plain_ids_inner: "plain_ids_value v \<longleftrightarrow> plain_id (inner v) \<and> plain_ids_fields (inner v)"
  by (cases v) (simp_all add: inner_def)

lemma not_enclosing: "\<not> encloses v \<Longrightarrow> documented_value v"
  by (cases v) (simp_all add: encloses_def)

text \<open>The fields that are not looked at are those of a reference: strings and the value of \<open>$id\<close>.\<close>

lemma after_reference_split:
  "after_reference es = es \<or>
   (\<exists>s v us. es = (''$ref'', VString s) # (''$id'', v) # us @ after_reference es \<and> (us = [] \<or> (\<exists>t. us = [(''$db'', VString t)])))"
proof (cases "\<exists>s v fs. es = (''$ref'', VString s) # (''$id'', v) # fs")
  case True
  then obtain s v fs where es: "es = (''$ref'', VString s) # (''$id'', v) # fs" by blast
  show ?thesis
  proof (cases "\<exists>t gs. fs = (''$db'', VString t) # gs")
    case True
    then show ?thesis by (auto simp: es)
  next
    case False
    then have "after_reference es = fs" by (auto simp: es split: list.split bson_value.split)
    then show ?thesis by (simp add: es)
  qed
next
  case False
  then show ?thesis by (cases es rule: after_reference.cases) auto
qed

lemma reference_fields:
  assumes "e \<in> set es" "e \<notin> set (after_reference es)"
  shows "fst e \<noteq> ''_id'' \<and> (plain_id es \<longrightarrow> \<not> encloses (snd e))"
proof -
  from assms have "after_reference es \<noteq> es" by metis
  with after_reference_split [of es] obtain s v us where es: "es = (''$ref'', VString s) # (''$id'', v) # us @ after_reference es"
    "us = [] \<or> (\<exists>t. us = [(''$db'', VString t)])" by blast
  from assms es have "e = (''$ref'', VString s) \<or> e = (''$id'', v) \<or> e \<in> set us"
    by (metis (no_types) Un_iff set_ConsD set_append)
  moreover have "plain_id es \<longrightarrow> \<not> encloses v" by (subst es(1)) simp
  ultimately show ?thesis using es(2) by (auto simp: encloses_def)
qed

lemma after_reference_subset: "set (after_reference es) \<subseteq> set es"
  by (cases es rule: after_reference.cases) (auto split: list.splits bson_value.splits)

lemma storable_iff:
  "storable root deep es \<longleftrightarrow> names_allowed es \<and> (\<forall>e \<in> set es. id_type_allowed root e) \<and>
     (deep \<longrightarrow> (\<forall>e \<in> set (after_reference es). storable_value (snd e)))"
proof -
  have "id_type_allowed root e" if "e \<in> set es" "e \<notin> set (after_reference es)" for e
    using reference_fields [OF that] by (simp add: id_type_allowed_def)
  then have "(\<forall>e \<in> set es. id_type_allowed root e) \<longleftrightarrow> (\<forall>e \<in> set (after_reference es). id_type_allowed root e)"
    using after_reference_subset [of es] by blast
  moreover have "storable root deep es \<longleftrightarrow> (\<forall>e \<in> set (after_reference es). plain_name (fst e) \<and> id_type_allowed root e \<and>
      (deep \<longrightarrow> storable_value (snd e)))" by (simp add: storable_def case_prod_unfold)
  ultimately show ?thesis unfolding names_allowed_def by blast
qed

lemma documented_storable_value: "nodes v < k \<Longrightarrow> documented_value v \<Longrightarrow> storable_value v"
proof (induction k arbitrary: v)
  case (Suc k)
  have "storable_value (snd e)" if "e \<in> set (after_reference (inner v))" for e
  proof -
    have e: "e \<in> set (inner v)" using that after_reference_subset by blast
    have "nodes (snd e) < nodes v" using nodes_mem [of "fst e" "snd e" "inner v"] e by (simp add: nodes_inner)
    moreover have "documented_value (snd e)" using Suc.prems(2) e unfolding documented_inner [of v] documented_fields_all by blast
    ultimately show ?thesis using Suc.IH [of "snd e"] Suc.prems(1) by simp
  qed
  moreover have "names_allowed (inner v)" using Suc.prems(2) documented_inner by blast
  ultimately show ?case unfolding storable_inner [of v] storable_iff by (simp add: id_type_allowed_def)
qed simp

lemma storable_documented_value: "nodes v < k \<Longrightarrow> storable_value v \<Longrightarrow> plain_ids_value v \<Longrightarrow> documented_value v"
proof (induction k arbitrary: v)
  case (Suc k)
  show ?case
  proof (cases "encloses v")
    case True
    then have s: "names_allowed (inner v)" "\<forall>e \<in> set (after_reference (inner v)). storable_value (snd e)"
      using Suc.prems(2) unfolding storable_inner [of v] storable_iff by simp_all
    have "documented_value (snd e)" if e: "e \<in> set (inner v)" for e
    proof (cases "e \<in> set (after_reference (inner v))")
      case True
      have "nodes (snd e) < nodes v" using nodes_mem [of "fst e" "snd e" "inner v"] e by (simp add: nodes_inner)
      moreover have "plain_ids_value (snd e)" using Suc.prems(3) e unfolding plain_ids_inner [of v] plain_ids_fields_all by blast
      ultimately show ?thesis using Suc.IH [of "snd e"] Suc.prems(1) s(2) True by simp
    next
      case False
      with reference_fields [OF e False] Suc.prems(3) not_enclosing show ?thesis unfolding plain_ids_inner [of v] by blast
    qed
    with s(1) show ?thesis unfolding documented_inner [of v] documented_fields_all by blast
  next
    case False
    then show ?thesis by (rule not_enclosing)
  qed
qed simp

lemma documented_storable: "documented root deep es \<Longrightarrow> storable root deep es"
  using documented_storable_value after_reference_subset [of es] unfolding documented_def storable_iff documented_fields_all by blast

lemma storable_documented:
  assumes "storable root deep es" "deep \<longrightarrow> plain_id es \<and> plain_ids_fields es"
  shows "documented root deep es"
proof -
  have "documented_value (snd e)" if "deep" "e \<in> set es" for e
    using storable_documented_value reference_fields [OF that(2)] not_enclosing assms that
    unfolding storable_iff plain_ids_fields_all by blast
  with assms(1) show ?thesis unfolding documented_def storable_iff documented_fields_all by blast
qed

text \<open>
  (C11) Whether a document may be stored: the check always returns when the fuel covers the number of fields, the ones
  inside objects included. It accepts every document that the comments of the header allow: no field, at any depth, has a name with a dot or a leading
  dollar sign, apart from the two or three fields a database reference begins with, and \<open>_id\<close> at the root is no regular
  expression, array or undefined value. What it accepts is allowed in that sense if no database reference has an object, an array or code with a scope as its
  \<open>$id\<close>: what is inside an \<open>$id\<close> is not checked. Otherwise it fails with one of the three error codes for this.
\<close>

theorem storageValid_decides:
  assumes "wf_elems es" "int (length (encode es)) \<le> BSONObjMaxInternalSize" "nodes_list es < fuel"
  shows "\<exists>s. storageValidOf fuel root deep (encode es) = Some (Inr s) \<and>
    (documented root deep es \<longrightarrow> isOK s) \<and>
    (isOK s \<and> (deep \<longrightarrow> plain_id es \<and> plain_ids_fields es) \<longrightarrow> documented root deep es) \<and>
    (isOK s \<or> status_code s \<in> {DollarPrefixedFieldName, DottedFieldName, InvalidIdField})"
proof -
  from storageValidOf_verdict [OF assms, of root deep] obtain s where s: "storageValidOf fuel root deep (encode es) = Some (Inr s)"
    "isOK s \<longleftrightarrow> storable root deep es" "isOK s \<or> status_code s \<in> {DollarPrefixedFieldName, DottedFieldName, InvalidIdField}"
    unfolding verdict_def by blast
  show ?thesis
    by (rule exI [of _ s]) (use s documented_storable [of root deep es] storable_documented [of root deep es] in blast)
qed

lemma storageValid_decides_witness:
  "\<exists>s. storageValidOf 9 True True (encode [(''_id'', VInt 1), (''a'', VObject [(''$ref'', VString ''c''), (''$id'', VInt 2), (''x'', VNull)])]) =
    Some (Inr s) \<and> isOK s"
proof -
  let ?es = "[(''_id'', VInt 1), (''a'', VObject [(''$ref'', VString ''c''), (''$id'', VInt 2), (''x'', VNull)])]"
  have "documented True True ?es"
    by (simp add: documented_def names_allowed_def plain_name_def id_type_allowed_def)
  then show ?thesis
    using storageValid_decides [of ?es 9 True True]
    by (auto simp: nul_def encode_def BSONObjMaxInternalSize_def BSONObjMaxUserSize_def)
qed

text \<open>A document that the check accepts although a name inside an \<open>$id\<close> has a dot.\<close>

lemma storageValid_reference_gap:
  "\<not> documented True True [(''a'', VObject [(''$ref'', VString ''c''), (''$id'', VObject [(''x.y'', VNull)])])] \<and>
    (\<exists>s. storageValidOf 9 True True (encode [(''a'', VObject [(''$ref'', VString ''c''), (''$id'', VObject [(''x.y'', VNull)])])]) =
      Some (Inr s) \<and> isOK s)"
proof
  let ?es = "[(''a'', VObject [(''$ref'', VString ''c''), (''$id'', VObject [(''x.y'', VNull)])])]"
  show "\<not> documented True True ?es" by (simp add: documented_def names_allowed_def plain_name_def)
  have "storable True True ?es" by (simp add: storable_def plain_name_def id_type_allowed_def storable_value.simps)
  then show "\<exists>s. storageValidOf 9 True True (encode ?es) = Some (Inr s) \<and> isOK s"
    using storageValidOf_verdict [of ?es 9 True True]
    by (auto simp: verdict_def nul_def encode_def BSONObjMaxInternalSize_def BSONObjMaxUserSize_def)
qed

end
