(* ===== verification/Bson_Fields.thy ===== *)
theory Bson_Fields
  imports Bson_Append
begin

text \<open>
  Functions of \<open>src/mongo/db/jsobj.cpp\<close> and \<open>bson-inl.h\<close> that make objects from objects: taking fields out, filtering,
  renaming, flattening. Loops over the fields of an object have fuel for the number of fields.
\<close>

subsection \<open>Loops\<close>

text \<open>
  \<open>while (i.moreWithEOO()) { BSONElement e = i.next(); if (e.eoo()) break; ... }\<close>; the body returns whether to leave
  the loop, and a state.
\<close>

primrec each_field :: "nat \<Rightarrow> (string \<Rightarrow> 's \<Rightarrow> (bool \<times> 's) result option) \<Rightarrow> bson_iter \<Rightarrow> 's \<Rightarrow> 's result option" where
  "each_field 0 body i s = None"
| "each_field (Suc fuel) body i s =
     (if \<not> iter_moreWithEOO i then Some (Inr s)
      else
        bindO (Some (iter_next i)) (\<lambda>(e, i). bindO (Some (elem_eoo e)) (\<lambda>eoo.
          if eoo then Some (Inr s)
          else bindO (body e s) (\<lambda>(leave, s). if leave then Some (Inr s) else each_field fuel body i s))))"

text \<open>\<open>while (i.more()) { BSONElement e = i.next(); ... }\<close>\<close>

primrec more_fields :: "nat \<Rightarrow> (string \<Rightarrow> 's \<Rightarrow> (bool \<times> 's) result option) \<Rightarrow> bson_iter \<Rightarrow> 's \<Rightarrow> 's result option" where
  "more_fields 0 body i s = None"
| "more_fields (Suc fuel) body i s =
     (if \<not> iter_more i then Some (Inr s)
      else
        bindO (Some (iter_next i)) (\<lambda>(e, i).
        bindO (body e s) (\<lambda>(leave, s). if leave then Some (Inr s) else more_fields fuel body i s)))"

definition stay :: "'s result \<Rightarrow> (bool \<times> 's) result option" where
  "stay r = Some (bindE r (\<lambda>s. Inr (False, s)))"

text \<open>\<open>BSONObjBuilder b(initsize); ...; return b.obj();\<close>\<close>

definition build_object :: "string \<Rightarrow> int \<Rightarrow> (buf_builder \<Rightarrow> buf_builder result option) \<Rightarrow> string result option" where
  "build_object junk initsize body =
     bindO (Some (BSONObjBuilder junk initsize)) (\<lambda>(ob, b).
     bindO (body b) (\<lambda>b.
     bindO (Some (obj_done ob b)) (\<lambda>(ob, b). Some (BSONObj_init (drop (ob_offset ob) (bld_data b))))))"

subsection \<open>Reading\<close>

primrec isFieldNamePrefixOf_loop :: "nat \<Rightarrow> bson_iter \<Rightarrow> bson_iter \<Rightarrow> bool result option" where
  "isFieldNamePrefixOf_loop 0 a b = None"
| "isFieldNamePrefixOf_loop (Suc fuel) a b =
     (if iter_more a \<and> iter_more b then
        bindO (Some (iter_next a)) (\<lambda>(x, a). bindO (Some (iter_next b)) (\<lambda>(y, b).
        bindO (Some (fieldName x)) (\<lambda>n. bindO (Some (fieldName y)) (\<lambda>m.
          if n \<noteq> m then Some (Inr False) else isFieldNamePrefixOf_loop fuel a b))))
      else Some (Inr (\<not> iter_more a)))"

definition isFieldNamePrefixOf :: "nat \<Rightarrow> string \<Rightarrow> string \<Rightarrow> bool result option" where
  "isFieldNamePrefixOf fuel obj otherObj =
     bindO (Some (BSONObjIterator obj)) (\<lambda>a. bindO (Some (BSONObjIterator otherObj)) (isFieldNamePrefixOf_loop fuel a))"

text \<open>The name is passed by reference; the result is the element and the rest of the name.\<close>

function getFieldDottedOrArray :: "string \<Rightarrow> string \<Rightarrow> (string \<times> string) result option" where
  "getFieldDottedOrArray obj name =
     (let p = memchr name CHR ''.'';
          rest = (case p of Some k \<Rightarrow> drop (k + 1) name | None \<Rightarrow> [])
      in bindO (getField obj (case p of Some k \<Rightarrow> take k name | None \<Rightarrow> name)) (\<lambda>sub.
         bindO (Some (elem_type sub)) (\<lambda>t.
           if t = BSONType_to_int EOO then Some (Inr (eoo_element, rest))
           else if t = BSONType_to_int Array \<or> rest = [] then Some (Inr (sub, rest))
           else if t = BSONType_to_int Object then
             bindO (Some (embeddedObject sub)) (\<lambda>o'. getFieldDottedOrArray o' rest)
           else Some (Inr (eoo_element, rest)))))"
  by pat_completeness auto
termination
  by (relation "measure (\<lambda>(obj, name). length name)") (auto simp: memchr_Some_iff split: option.splits)

declare getFieldDottedOrArray.simps [simp del]

text \<open>All elements that a dotted path reaches, inserted into a collection with \<open>put\<close>.\<close>

definition all_digits :: "string \<Rightarrow> bool" where
  "all_digits next =
     (next \<noteq> [] \<and> hd next \<in> set ''0123456789'' \<and>
       (let rest = dropWhile (\<lambda>c. c \<in> set ''0123456789'') next in rest = [] \<or> hd rest = CHR ''.''))"

primrec getFieldsDotted :: "nat \<Rightarrow> (string \<Rightarrow> 'c \<Rightarrow> 'c) \<Rightarrow> bool \<Rightarrow> string \<Rightarrow> string \<Rightarrow> 'c \<Rightarrow> 'c result option" where
  "getFieldsDotted 0 put expandLastArray obj name ret = None"
| "getFieldsDotted (Suc fuel) put expandLastArray obj name ret =
     bindO (getField obj name) (\<lambda>e. bindO (Some (elem_type e)) (\<lambda>t.
       if t = BSONType_to_int EOO then
         (case memchr name CHR ''.'' of
            None \<Rightarrow> Some (Inr ret)
          | Some idx \<Rightarrow>
              (let next = drop (idx + 1) name
               in bindO (getField obj (take idx name)) (\<lambda>e. bindO (Some (elem_type e)) (\<lambda>t.
                 if t = BSONType_to_int Object then
                   bindO (Some (embeddedObject e)) (\<lambda>o'. getFieldsDotted fuel put expandLastArray o' next ret)
                 else if t = BSONType_to_int Array then
                   if all_digits next then
                     bindO (Some (embeddedObject e)) (\<lambda>o'. getFieldsDotted fuel put expandLastArray o' next ret)
                   else
                     bindO (Some (embeddedObject e)) (\<lambda>o'. bindO (Some (BSONObjIterator o')) (\<lambda>i.
                       more_fields fuel (\<lambda>e2 ret. bindO (Some (elem_type e2)) (\<lambda>t.
                         bindO (if t = BSONType_to_int Object \<or> t = BSONType_to_int Array
                                then bindO (Some (embeddedObject e2)) (\<lambda>o'. getFieldsDotted fuel put expandLastArray o' next ret)
                                else Some (Inr ret)) (\<lambda>ret. Some (Inr (False, ret))))) i ret))
                 else Some (Inr ret)))))
       else if t = BSONType_to_int Array \<and> expandLastArray then
         bindO (Some (embeddedObject e)) (\<lambda>o'. bindO (Some (BSONObjIterator o')) (\<lambda>i.
           more_fields fuel (\<lambda>e ret. Some (Inr (False, put e ret))) i ret))
       else Some (Inr (put e ret))))"

definition getFieldNames :: "nat \<Rightarrow> string \<Rightarrow> string set \<Rightarrow> (int \<times> string set) result option" where
  "getFieldNames fuel obj found =
     bindO (Some (BSONObjIterator obj)) (\<lambda>i.
       each_field fuel (\<lambda>e (n, found). stay (bindE (fieldName e) (\<lambda>name. Inr (n + 1, insert name found)))) i (0, found))"

definition couldBeArray :: "nat \<Rightarrow> string \<Rightarrow> bool result option" where
  "couldBeArray fuel obj =
     bindO (Some (BSONObjIterator obj)) (\<lambda>i.
     bindO (each_field fuel (\<lambda>e (could, index). bindO (Some (fieldName e)) (\<lambda>name.
       if name \<noteq> decimal_digits index then Some (Inr (True, (False, index)))
       else Some (Inr (False, (could, index + 1))))) i (True, 0)) (\<lambda>(could, index). Some (Inr could)))"

text \<open>The value of the field whose position \<open>fieldName\<close> has in the index key.\<close>

definition getFieldUsingIndexNames :: "nat \<Rightarrow> string \<Rightarrow> string \<Rightarrow> string \<Rightarrow> string result option" where
  "getFieldUsingIndexNames fuel obj name indexKey =
     bindO (Some (BSONObjIterator indexKey)) (\<lambda>i.
     bindO (each_field fuel (\<lambda>f (found, j). bindO (Some (fieldName f)) (\<lambda>n.
       if n = name then Some (Inr (True, (True, j))) else Some (Inr (False, (found, j + 1 :: nat))))) i (False, 0)) (\<lambda>(found, j).
       if \<not> found then Some (Inr eoo_element)
       else
         bindO (Some (BSONObjIterator obj)) (\<lambda>k.
         bindO (each_field fuel (\<lambda>g (r, j). if j = 0 then Some (Inr (True, (Some g, j))) else Some (Inr (False, (r, j - 1 :: nat)))) k (None, j))
           (\<lambda>(r, j). Some (Inr (case r of Some g \<Rightarrow> g | None \<Rightarrow> eoo_element))))))"

subsection \<open>Making objects\<close>

definition extractFieldsUnDotted :: "nat \<Rightarrow> string \<Rightarrow> string \<Rightarrow> string \<Rightarrow> string result option" where
  "extractFieldsUnDotted fuel junk obj pattern =
     build_object junk 512 (\<lambda>b. bindO (Some (BSONObjIterator pattern)) (\<lambda>i.
       each_field fuel (\<lambda>e b. bindO (Some (fieldName e)) (\<lambda>name. bindO (getField obj name) (\<lambda>x. bindO (Some (elem_eoo x)) (\<lambda>eoo.
         stay (if \<not> eoo then appendAs x [] b else Inr b))))) i b))"

definition extractFields :: "nat \<Rightarrow> string \<Rightarrow> string \<Rightarrow> string \<Rightarrow> bool \<Rightarrow> string result option" where
  "extractFields fuel junk obj pattern fillWithNull =
     build_object junk 32 (\<lambda>b. bindO (Some (BSONObjIterator pattern)) (\<lambda>i.
       each_field fuel (\<lambda>e b. bindO (Some (fieldName e)) (\<lambda>name. bindO (getFieldDotted obj name) (\<lambda>x. bindO (Some (elem_eoo x)) (\<lambda>eoo.
         stay (if \<not> eoo then appendAs x name b else if fillWithNull then appendNull name b else Inr b))))) i b))"

definition filterFieldsUndotted :: "nat \<Rightarrow> string \<Rightarrow> string \<Rightarrow> string \<Rightarrow> bool \<Rightarrow> string result option" where
  "filterFieldsUndotted fuel junk obj filter' inFilter =
     build_object junk 512 (\<lambda>b. bindO (Some (BSONObjIterator obj)) (\<lambda>i.
       each_field fuel (\<lambda>e b. bindO (Some (fieldName e)) (\<lambda>name. bindO (getField filter' name) (\<lambda>x. bindO (Some (elem_eoo x)) (\<lambda>eoo.
         stay (if eoo \<and> \<not> inFilter \<or> \<not> eoo \<and> inFilter then append_element e b else Inr b))))) i b))"

definition clientReadable :: "nat \<Rightarrow> string \<Rightarrow> string \<Rightarrow> string result option" where
  "clientReadable fuel junk obj =
     (let special = (\<lambda>name key b. bindO (build_object junk 512 (\<lambda>m. Some (append_int key 1 m))) (\<lambda>m. stay (append_BSONObj name m b)))
      in build_object junk 512 (\<lambda>b. bindO (Some (BSONObjIterator obj)) (\<lambda>i.
           each_field fuel (\<lambda>e b. bindO (Some (elem_type e)) (\<lambda>t. bindO (Some (fieldName e)) (\<lambda>name.
             if t = BSONType_to_int MinKey then special name ''$minElement'' b
             else if t = BSONType_to_int MaxKey then special name ''$maxElement'' b
             else stay (append_element e b)))) i b)))"

text \<open>The state of the loop is the builder, the iterator over the names and the current name.\<close>

definition replaceFieldNames :: "nat \<Rightarrow> string \<Rightarrow> string \<Rightarrow> string \<Rightarrow> string result option" where
  "replaceFieldNames fuel junk obj names =
     build_object junk 512 (\<lambda>b. bindO (Some (BSONObjIterator obj)) (\<lambda>i. bindO (Some (BSONObjIterator names)) (\<lambda>j.
       bindO (Some (if iter_moreWithEOO j then iter_next j else Inr (eoo_element, j))) (\<lambda>(f, j).
       bindO (each_field fuel (\<lambda>e (b, f, j). bindO (Some (elem_eoo f)) (\<lambda>eoo.
           stay (if \<not> eoo
                 then bindE (fieldName f) (\<lambda>n. bindE (appendAs e n b) (\<lambda>b. bindE (iter_next j) (\<lambda>(f, j). Inr (b, f, j))))
                 else bindE (append_element e b) (\<lambda>b. Inr (b, f, j))))) i (b, f, j)) (\<lambda>(b, f, j). Some (Inr b))))))"

text \<open>The loop of \<open>addFields\<close> does not leave at EOO.\<close>

primrec addFields_loop :: "nat \<Rightarrow> string list \<Rightarrow> bson_iter \<Rightarrow> nat \<times> bool \<times> buf_builder \<Rightarrow> (nat \<times> bool \<times> buf_builder) result option" where
  "addFields_loop 0 wanted i s = None"
| "addFields_loop (Suc fuel) wanted i s =
     (if \<not> iter_moreWithEOO i then Some (Inr s)
      else
        bindO (Some (iter_next i)) (\<lambda>(e, i). bindO (Some (fieldName e)) (\<lambda>fname.
          case s of (n, gotId, b) \<Rightarrow>
            if fname \<in> set wanted then
              bindO (Some (append_element e b)) (\<lambda>b.
                let n = n + 1; gotId = (gotId \<or> fname = ''_id'')
                in if n = length wanted \<and> gotId then Some (Inr (n, gotId, b)) else addFields_loop fuel wanted i (n, gotId, b))
            else if fname = ''_id'' then
              bindO (Some (append_element e b)) (\<lambda>b.
                if n = length wanted then Some (Inr (n, True, b)) else addFields_loop fuel wanted i (n, True, b))
            else addFields_loop fuel wanted i (n, gotId, b))))"

text \<open>\<open>wanted\<close> is a set, a list without duplicates; the result is the number of fields found and the new object.\<close>

definition addFields :: "nat \<Rightarrow> string \<Rightarrow> bool \<Rightarrow> string \<Rightarrow> string \<Rightarrow> string list \<Rightarrow> (nat \<times> string) result option" where
  "addFields fuel junk owned obj from' wanted =
     bindO (Some (objsize obj)) (\<lambda>sz.
       if \<not> (sz \<le> 5 \<and> \<not> owned) then Some (Inl Verify)
       else
         bindO (Some (BSONObjBuilder junk 512)) (\<lambda>(ob, b). bindO (Some (BSONObjIterator from')) (\<lambda>i.
         bindO (addFields_loop fuel wanted i (0, False, b)) (\<lambda>(n, gotId, b).
           if n = 0 then Some (Inr (0, obj))
           else
             bindO (Some (obj_done ob b)) (\<lambda>(ob, b).
             bindO (Some (BSONObj_init (drop (ob_offset ob) (bld_data b)))) (\<lambda>o'. Some (Inr (n, o'))))))))"

primrec nested2dotted :: "nat \<Rightarrow> string \<Rightarrow> string \<Rightarrow> buf_builder \<Rightarrow> buf_builder result option" where
  "nested2dotted 0 obj base b = None"
| "nested2dotted (Suc fuel) obj base b =
     bindO (Some (BSONObjIterator obj)) (\<lambda>it.
       more_fields fuel (\<lambda>e b. bindO (Some (elem_type e)) (\<lambda>t. bindO (Some (fieldName e)) (\<lambda>name.
         if t = BSONType_to_int Object then
           bindO (Some (embeddedObject e)) (\<lambda>o'. bindO (nested2dotted fuel o' (base @ name @ ''.'') b) (\<lambda>b. Some (Inr (False, b))))
         else stay (appendAs e (base @ name) b)))) it b)"

definition appendElements :: "string \<Rightarrow> buf_builder \<Rightarrow> buf_builder result" where
  "appendElements x b =
     bindE (objsize x) (\<lambda>n.
       if n \<le> 5 then Inr b else bindE (checked32 (n - 5)) (\<lambda>k. appendArea (drop 4 x) k b))"

text \<open>The fields that the unfinished builder holds already: from its offset to the end of the buffer.\<close>

definition builder_iterator :: "obj_builder \<Rightarrow> buf_builder \<Rightarrow> bson_iter" where
  "builder_iterator ob b =
     (let self = drop (ob_offset ob) (bld_data b)
      in \<lparr>it_mem = self, it_pos = 4, it_end = int (length self) - 1\<rparr>)"

definition appendElementsUnique :: "nat \<Rightarrow> string \<Rightarrow> obj_builder \<Rightarrow> buf_builder \<Rightarrow> buf_builder result option" where
  "appendElementsUnique fuel x ob b =
     bindO (more_fields fuel (\<lambda>e names. stay (bindE (fieldName e) (\<lambda>n. Inr (n # names)))) (builder_iterator ob b) []) (\<lambda>names.
     bindO (Some (BSONObjIterator x)) (\<lambda>it.
       more_fields fuel (\<lambda>e b. stay (bindE (fieldName e) (\<lambda>n. if n \<in> set names then Inr b else append_element e b))) it b))"

end
