(* ===== verification/Bson_Fields_Spec.thy ===== *)
theory Bson_Fields_Spec
  imports Bson_Fields "HOL-Library.Sublist"
begin

text \<open>What the functions that make objects from objects compute on encoded documents.\<close>

subsection \<open>Building\<close>

lemma build_object_ok:
  assumes junk: "length junk = 4" and size: "0 < initsize" "initsize \<le> 512"
    and body: "\<And>b. fits b (length bytes) \<Longrightarrow> \<exists>b'. body b = Some (Inr b') \<and> extends b bytes b'"
    and max: "int (length (frame bytes)) \<le> BSONObjMaxInternalSize"
  shows "build_object junk initsize body = Some (Inr (frame bytes))"
proof -
  let ?b0 = "BufBuilder (initsize + 4)"
  have "fits ?b0 (4 + length (frame bytes))"
    using size max by (simp add: fits_def builder_ok_def BufBuilder_def bld_len_def BufferMaxSize_def BSONObjMaxInternalSize_def BSONObjMaxUserSize_def)
  then have f0: "fits ?b0 (length (le_bytes 4 (unat (0 :: int32))) + length (frame bytes))" by simp
  obtain b1 where b1: "appendNum_int 0 ?b0 = Inr b1" "extends ?b0 (le_bytes 4 (unat (0 :: int32))) b1"
    using appends_extends [OF appends_basic(2) [of 0] fits_mono [OF f0]] by auto
  have f1: "fits b1 (length (frame bytes))" by (rule extends_fits [OF b1(2) f0])
  then have f1': "fits b1 (length junk + (length bytes + 1))" using junk by (simp add: add.commute)
  obtain b2 where b2: "bld_skip junk b1 = Inr b2" "extends b1 junk b2"
    using appends_extends [OF appendBuf_appends [of junk] fits_mono [OF f1']] by (auto simp: bld_skip_def)
  have "fits b2 (length bytes)" using extends_fits [OF b2(2) f1'] fits_mono by (metis le_add1)
  then obtain b3 where b3: "body b2 = Some (Inr b3)" "extends b2 bytes b3" using body by blast
  have len: "length (bld_data b1) = 4" using b1(2) by (simp add: extends_def BufBuilder_def)
  obtain ob b4 where b4: "obj_done \<lparr>ob_offset = 4, ob_doneCalled = False\<rparr> b3 = Inr (ob, b4)" "extends b1 (frame bytes) b4" "ob_offset ob = 4"
    using obj_done_ok [OF extends_trans [OF b2(2) b3(2)] junk f1] len by auto
  have "drop 4 (bld_data b4) = frame bytes" using b4(2) len by (simp add: extends_def)
  moreover have "BSONObj_init (frame bytes) = Inr (frame bytes)"
  proof -
    have "length bytes + 5 < 2 ^ 31" using max_sizes [OF max] by simp
    then show ?thesis using objsize_frame [of bytes "[]"] max by (simp add: BSONObj_init_def)
  qed
  ultimately show ?thesis using b1(1) b2(1) b3(1) b4(1,3) by (simp add: build_object_def BSONObjBuilder_def)
qed

lemma build_encoding:
  assumes "length junk = 4" "0 < initsize" "initsize \<le> 512" "int (length (encode es)) \<le> BSONObjMaxInternalSize"
    "\<And>b. fits b (length (encode_elems es)) \<Longrightarrow> \<exists>b'. body b = Some (Inr b') \<and> extends b (encode_elems es) b'"
  shows "build_object junk initsize body = Some (Inr (encode es))"
  using build_object_ok [OF assms(1-3,5)] assms(4) by (simp add: encode_def)

subsection \<open>Loops\<close>

text \<open>An element in memory.\<close>

definition elem_held :: "bson_elem \<Rightarrow> string \<Rightarrow> bool" where
  "elem_held e q \<longleftrightarrow>
     nul \<notin> set (fst e) \<and> wf_value (snd e) \<and> int (length (encode_elem e)) \<le> BSONObjMaxInternalSize \<and> length (encode_elem e @ q) < 2 ^ 31"

lemma held_elem_held:
  assumes "held us (e # es) p"
  shows "elem_held e (encode_elems es @ nul # p)" "held (us @ [e]) es p"
    "iter_next (iter_at us (e # es) p) = Inr (encode_elem e @ encode_elems es @ nul # p, iter_at (us @ [e]) es p)"
  using held_elem [of us "fst e" "snd e" es p] iter_next_held [OF assms] assms by (auto simp: elem_held_def encode_elems_Cons)

lemma elem_eoo_elem [simp]: "elem_eoo (encode_elem e @ p) = Inr False"
  using elem_eoo_encoded [of "fst e" "snd e" p] by simp

lemma fieldName_elem: "elem_held e q \<Longrightarrow> fieldName (encode_elem e @ q) = Inr (fst e)"
  using fieldName_encoded [of "fst e" "snd e" q] by (simp add: elem_held_def)

lemma elem_type_elem [simp]: "elem_type (encode_elem e @ q) = Inr (BSONType_to_int (value_type (snd e)))"
  using elem_type_encoded [of "fst e" "snd e" q] by simp

lemma iter_moreWithEOO_at [simp]: "iter_moreWithEOO (iter_at us es p)"
  by (simp add: iter_moreWithEOO_def iter_at_def encode_def)

text \<open>A loop that keeps a relation between what it has seen and its state.\<close>

lemma each_field_relates:
  assumes "held us es p" "length es < fuel" "R us s"
    and "\<And>vs e q s. \<exists>ws. us @ es = vs @ e # ws \<Longrightarrow> elem_held e q \<Longrightarrow> R vs s \<Longrightarrow> \<exists>s'. body (encode_elem e @ q) s = Some (Inr (False, s')) \<and> R (vs @ [e]) s'"
  shows "\<exists>s'. each_field fuel body (iter_at us es p) s = Some (Inr s') \<and> R (us @ es) s'"
  using assms
proof (induction fuel arbitrary: us es s)
  case (Suc fuel)
  show ?case
  proof (cases es)
    case Nil
    then show ?thesis using Suc.prems(3) by (simp add: iter_next_end)
  next
    case (Cons e es')
    note h = held_elem_held [OF Suc.prems(1) [unfolded Cons]]
    obtain s' where s: "body (encode_elem e @ encode_elems es' @ nul # p) s = Some (Inr (False, s'))" "R (us @ [e]) s'"
      using Suc.prems(4) [OF _ h(1) Suc.prems(3)] Cons by blast
    have "\<exists>s''. each_field fuel body (iter_at (us @ [e]) es' p) s' = Some (Inr s'') \<and> R ((us @ [e]) @ es') s''"
      using Suc.prems(2,4) Cons by (intro Suc.IH [OF h(2) _ s(2)]) auto
    then show ?thesis using s(1) h(3) Cons by simp
  qed
qed simp

lemma more_fields_relates:
  assumes "held us es p" "length es < fuel" "R us s"
    and "\<And>vs e q s. \<exists>ws. us @ es = vs @ e # ws \<Longrightarrow> elem_held e q \<Longrightarrow> R vs s \<Longrightarrow> \<exists>s'. body (encode_elem e @ q) s = Some (Inr (False, s')) \<and> R (vs @ [e]) s'"
  shows "\<exists>s'. more_fields fuel body (iter_at us es p) s = Some (Inr s') \<and> R (us @ es) s'"
  using assms
proof (induction fuel arbitrary: us es s)
  case (Suc fuel)
  show ?case
  proof (cases es)
    case Nil
    then show ?thesis using Suc.prems(3) by simp
  next
    case (Cons e es')
    note h = held_elem_held [OF Suc.prems(1) [unfolded Cons]]
    obtain s' where s: "body (encode_elem e @ encode_elems es' @ nul # p) s = Some (Inr (False, s'))" "R (us @ [e]) s'"
      using Suc.prems(4) [OF _ h(1) Suc.prems(3)] Cons by blast
    have "\<exists>s''. more_fields fuel body (iter_at (us @ [e]) es' p) s' = Some (Inr s'') \<and> R ((us @ [e]) @ es') s''"
      using Suc.prems(2,4) Cons by (intro Suc.IH [OF h(2) _ s(2)]) auto
    then show ?thesis using s(1) h(3) Cons by simp
  qed
qed simp

text \<open>The output of a loop that only writes.\<close>

definition has_written :: "buf_builder \<Rightarrow> nat \<Rightarrow> (bson_elem \<Rightarrow> bson_elem list) \<Rightarrow> bson_elem list \<Rightarrow> buf_builder \<Rightarrow> bool" where
  "has_written b n out es b' \<longleftrightarrow> extends b (encode_elems (concat (map out es))) b' \<and> fits b n"

definition outputs :: "(string \<Rightarrow> buf_builder \<Rightarrow> (bool \<times> buf_builder) result option) \<Rightarrow> (bson_elem \<Rightarrow> bson_elem list) \<Rightarrow> bson_elem \<Rightarrow> bool" where
  "outputs body out e \<longleftrightarrow>
     (\<forall>q b. elem_held e q \<and> fits b (length (encode_elems (out e))) \<longrightarrow>
       (\<exists>b'. body (encode_elem e @ q) b = Some (Inr (False, b')) \<and> extends b (encode_elems (out e)) b'))"

lemma outputs_has_written:
  assumes "outputs body out e" "elem_held e q" "has_written b n out vs c" "length (encode_elems (concat (map out (vs @ e # ws)))) \<le> n"
  shows "\<exists>c'. body (encode_elem e @ q) c = Some (Inr (False, c')) \<and> has_written b n out (vs @ [e]) c'"
proof -
  have f: "fits b n" "extends b (encode_elems (concat (map out vs))) c" using assms(3) by (simp_all add: has_written_def)
  have "fits b (length (encode_elems (concat (map out vs))) + length (encode_elems (out e)))"
    using fits_mono [OF f(1)] assms(4) by simp
  then have "fits c (length (encode_elems (out e)))" by (rule extends_fits [OF f(2)])
  then obtain c' where "body (encode_elem e @ q) c = Some (Inr (False, c'))" "extends c (encode_elems (out e)) c'"
    using assms(1,2) by (auto simp: outputs_def)
  then show ?thesis using extends_trans [OF f(2)] f(1) by (auto simp: has_written_def)
qed

lemma loops_write:
  assumes h: "held [] es p" "length es < fuel" and o': "\<And>e. e \<in> set es \<Longrightarrow> outputs body out e"
    and f: "fits b (length (encode_elems (concat (map out es))))"
  shows "\<exists>b'. each_field fuel body (iter_at [] es p) b = Some (Inr b') \<and> extends b (encode_elems (concat (map out es))) b'"
    "\<exists>b'. more_fields fuel body (iter_at [] es p) b = Some (Inr b') \<and> extends b (encode_elems (concat (map out es))) b'"
proof -
  let ?n = "length (encode_elems (concat (map out es)))"
  have start: "has_written b ?n out [] b" using f by (simp add: has_written_def extends_def fits_def)
  have step: "\<exists>c'. body (encode_elem e @ q) c = Some (Inr (False, c')) \<and> has_written b ?n out (vs @ [e]) c'"
    if w: "\<exists>ws. [] @ es = vs @ e # ws" and "elem_held e q" "has_written b ?n out vs c" for vs e q c
  proof -
    obtain ws where ws: "es = vs @ e # ws" using w by auto
    have le: "length (encode_elems (concat (map out (vs @ e # ws)))) \<le> ?n" by (simp add: ws)
    show ?thesis using outputs_has_written [OF o' that(2,3) le] ws by simp
  qed
  show "\<exists>b'. each_field fuel body (iter_at [] es p) b = Some (Inr b') \<and> extends b (encode_elems (concat (map out es))) b'"
    using each_field_relates [where R = "has_written b ?n out" and body = body, OF h start step] unfolding has_written_def by auto
  show "\<exists>b'. more_fields fuel body (iter_at [] es p) b = Some (Inr b') \<and> extends b (encode_elems (concat (map out es))) b'"
    using more_fields_relates [where R = "has_written b ?n out" and body = body, OF h start step] unfolding has_written_def by auto
qed

subsection \<open>Copying elements\<close>

lemma elem_held_bounds: "elem_held e q \<Longrightarrow> wf_value (snd e) \<and> nul \<notin> set (fst e) \<and> length (encode_elem e) < 2 ^ 31"
  using max_sizes by (auto simp: elem_held_def)

lemma append_elem:
  assumes "elem_held e q" "fits b (length (encode_elem e))"
  shows "\<exists>b'. append_element (encode_elem e @ q) b = Inr b' \<and> extends b (encode_elem e) b'"
  using append_element_ok [of "snd e" "fst e" b q] elem_held_bounds [OF assms(1)] assms(2) by simp

lemma append_elem_as:
  assumes "elem_held e q" "fits b (length (encode_elem (n, snd e)))"
  shows "\<exists>b'. appendAs (encode_elem e @ q) n b = Inr b' \<and> extends b (encode_elem (n, snd e)) b'"
  using appendAs_ok [of "snd e" "fst e" b n q] elem_held_bounds [OF assms(1)] assms(2) by simp

lemma append_null:
  assumes "fits b (length (encode_elem (n, VNull)))"
  shows "\<exists>b'. appendNull n b = Inr b' \<and> extends b (encode_elem (n, VNull)) b'"
  using appends_extends [OF append_header_appends [of jstNULL n]] assms by (simp add: appendNull_def [abs_def] encode_elem_def)

lemma extends_self: "fits b n \<Longrightarrow> extends b [] b"
  by (simp add: extends_def fits_def)

lemma encode_elems_single: "encode_elems [e] = encode_elem e"
  by (simp add: encode_elems_Cons)

lemma stay_simps [simp]: "stay (Inr s) = Some (Inr (False, s))"
  by (simp add: stay_def)

text \<open>A document in its own buffer.\<close>

definition document :: "bson_elem list \<Rightarrow> bool" where
  "document es \<longleftrightarrow> wf_elems es \<and> int (length (encode es)) \<le> BSONObjMaxInternalSize"

lemma document_held: "document es \<Longrightarrow> held [] es []"
  using max_sizes by (auto simp: document_def held_def)

lemma document_start: "document es \<Longrightarrow> BSONObjIterator (encode es) = Inr (iter_at [] es [])"
  using held_start [OF document_held] by simp

lemma getField_cases:
  assumes "document es"
  shows "find (\<lambda>e. fst e = name) es = None \<and> getField (encode es) name = Some (Inr eoo_element) \<or>
    (\<exists>e q. find (\<lambda>e. fst e = name) es = Some e \<and> getField (encode es) name = Some (Inr (encode_elem e @ q)) \<and> elem_held e q)"
proof (cases "find (\<lambda>e. fst e = name) es")
  case None
  then show ?thesis using getField_encoded [of es "[]" name] document_held [OF assms] by (simp add: held_def)
next
  case (Some e)
  then show ?thesis
    using getField_encoded [of es "[]" name] document_held [OF assms] wf_find [of es _ "fst e" "snd e"] elem_in_document [OF find_in_set [OF Some]]
    by (auto simp: held_def elem_held_def)
qed

lemma getFieldDotted_document:
  assumes "document es"
  shows "lookup_dotted es name = None \<and> getFieldDotted (encode es) name = Some (Inr eoo_element) \<or>
    (\<exists>e q. lookup_dotted es name = Some e \<and> getFieldDotted (encode es) name = Some (Inr (encode_elem e @ q)) \<and> elem_held e q)"
  using getFieldDotted_cases [of es "[]" name] document_held [OF assms] by (auto simp: held_def elem_held_def split: option.splits)

subsection \<open>Extracting fields\<close>

definition extracted :: "bool \<Rightarrow> bson_elem list \<Rightarrow> bson_elem \<Rightarrow> bson_elem list" where
  "extracted fillWithNull es k =
     (case lookup_dotted es (fst k) of Some e \<Rightarrow> [(fst k, snd e)] | None \<Rightarrow> if fillWithNull then [(fst k, VNull)] else [])"

lemma extractFields_outputs:
  assumes "document es"
  shows "outputs (\<lambda>e b. bindO (Some (fieldName e)) (\<lambda>name. bindO (getFieldDotted (encode es) name) (\<lambda>x. bindO (Some (elem_eoo x)) (\<lambda>eoo.
      stay (if \<not> eoo then appendAs x name b else if fillWithNull then appendNull name b else Inr b))))) (extracted fillWithNull es) k"
proof -
  have "\<exists>b'. bindO (getFieldDotted (encode es) (fst k)) (\<lambda>x. bindO (Some (elem_eoo x)) (\<lambda>eoo.
      stay (if \<not> eoo then appendAs x (fst k) b else if fillWithNull then appendNull (fst k) b else Inr b))) = Some (Inr (False, b')) \<and>
    extends b (encode_elems (extracted fillWithNull es k)) b'"
    if f: "fits b (length (encode_elems (extracted fillWithNull es k)))" for b
    using getFieldDotted_document [OF assms, of "fst k"]
  proof (elim disjE exE conjE)
    assume "lookup_dotted es (fst k) = None" "getFieldDotted (encode es) (fst k) = Some (Inr eoo_element)"
    then show ?thesis using f append_null [of b "fst k"] extends_self [of b]
      by (cases fillWithNull) (auto simp: extracted_def encode_elems_single)
  next
    fix e q assume e: "lookup_dotted es (fst k) = Some e" "getFieldDotted (encode es) (fst k) = Some (Inr (encode_elem e @ q))" "elem_held e q"
    then show ?thesis using f append_elem_as [OF e(3), of b "fst k"] by (auto simp: extracted_def encode_elems_single)
  qed
  then show ?thesis by (simp add: outputs_def fieldName_elem)
qed

text \<open>
  (C13) Extracting by a pattern: for every field of the pattern, in its order, the element its name denotes as a path,
  under that name, or null when there is none and nulls are asked for. The result is encoded in an object of its own; the
  fuel is enough when it exceeds the number of fields of the pattern.
\<close>

theorem extractFields_encodes:
  assumes "document es" "document ks" "length ks < fuel" "length junk = 4"
    "int (length (encode (concat (map (extracted fillWithNull es) ks)))) \<le> BSONObjMaxInternalSize"
  shows "extractFields fuel junk (encode es) (encode ks) fillWithNull = Some (Inr (encode (concat (map (extracted fillWithNull es) ks))))"
proof -
  note l = loops_write(1) [OF document_held [OF assms(2)] assms(3) extractFields_outputs [OF assms(1), of fillWithNull]]
  show ?thesis unfolding extractFields_def
    by (rule build_encoding) (use assms(4,5) l document_start [OF assms(2)] in auto)
qed

subsection \<open>Filtering and renaming\<close>

definition named :: "bson_elem list \<Rightarrow> string \<Rightarrow> bool" where
  "named fs n \<longleftrightarrow> n \<in> fst ` set fs"

lemma find_named: "find (\<lambda>e. fst e = n) fs = None \<longleftrightarrow> \<not> named fs n"
  by (force simp: named_def find_None_iff)

lemma filter_outputs:
  assumes "document fs"
  shows "outputs (\<lambda>e b. bindO (Some (fieldName e)) (\<lambda>name. bindO (getField (encode fs) name) (\<lambda>x. bindO (Some (elem_eoo x)) (\<lambda>eoo.
      stay (if eoo \<and> \<not> inFilter \<or> \<not> eoo \<and> inFilter then append_element e b else Inr b)))))
    (\<lambda>e. if named fs (fst e) = inFilter then [e] else []) e"
proof -
  have "\<exists>b'. bindO (getField (encode fs) (fst e)) (\<lambda>x. bindO (Some (elem_eoo x)) (\<lambda>eoo.
      stay (if eoo \<and> \<not> inFilter \<or> \<not> eoo \<and> inFilter then append_element (encode_elem e @ q) b else Inr b))) = Some (Inr (False, b')) \<and>
    extends b (encode_elems (if named fs (fst e) = inFilter then [e] else [])) b'"
    if "elem_held e q" and f: "fits b (length (encode_elems (if named fs (fst e) = inFilter then [e] else [])))" for q b
  proof -
    obtain z where g: "bindO (getField (encode fs) (fst e)) (\<lambda>x. Some (elem_eoo x)) = Some (Inr z)" "z \<longleftrightarrow> \<not> named fs (fst e)"
      using getField_cases [OF assms, of "fst e"] find_named [of "fst e" fs] by (auto simp: eoo_element_def)
    have "bindO (getField (encode fs) (fst e)) (\<lambda>x. bindO (Some (elem_eoo x)) F) = F z" for F :: "bool \<Rightarrow> (bool \<times> buf_builder) result option"
      using g(1) by (auto simp: bindO_def split: option.splits sum.splits)
    then show ?thesis
      using g(2) f append_elem [OF \<open>elem_held e q\<close>, of b] extends_self [of b]
      by (cases "named fs (fst e) = inFilter") (auto simp: encode_elems_single)
  qed
  then show ?thesis by (simp add: outputs_def fieldName_elem)
qed

lemma concat_filter: "concat (map (\<lambda>e. if P e then [e] else []) es) = filter P es"
  by (induction es) auto

lemma filter_short: "length (encode_elems (filter P es)) \<le> length (encode_elems es)"
  by (induction es) (auto simp: encode_elems_Cons)

theorem filterFieldsUndotted_encodes:
  assumes "document es" "document fs" "length es < fuel" "length junk = 4"
  shows "filterFieldsUndotted fuel junk (encode es) (encode fs) inFilter = Some (Inr (encode (filter (\<lambda>e. named fs (fst e) = inFilter) es)))"
proof -
  note l = loops_write(1) [OF document_held [OF assms(1)] assms(3) filter_outputs [OF assms(2), of inFilter], unfolded concat_filter]
  have "int (length (encode (filter (\<lambda>e. named fs (fst e) = inFilter) es))) \<le> BSONObjMaxInternalSize"
    using filter_short [of "\<lambda>e. named fs (fst e) = inFilter" es] assms(1) by (simp add: document_def encode_def)
  then show ?thesis unfolding filterFieldsUndotted_def
    by (intro build_encoding) (use assms(4) l document_start [OF assms(1)] in auto)
qed

lemma extractUnDotted_outputs:
  assumes "document es"
  shows "outputs (\<lambda>e b. bindO (Some (fieldName e)) (\<lambda>name. bindO (getField (encode es) name) (\<lambda>x. bindO (Some (elem_eoo x)) (\<lambda>eoo.
      stay (if \<not> eoo then appendAs x [] b else Inr b)))))
    (\<lambda>k. case find (\<lambda>e. fst e = fst k) es of Some e \<Rightarrow> [([], snd e)] | None \<Rightarrow> []) k"
proof -
  have "\<exists>b'. bindO (getField (encode es) (fst k)) (\<lambda>x. bindO (Some (elem_eoo x)) (\<lambda>eoo. stay (if \<not> eoo then appendAs x [] b else Inr b))) =
      Some (Inr (False, b')) \<and> extends b (encode_elems (case find (\<lambda>e. fst e = fst k) es of Some e \<Rightarrow> [([], snd e)] | None \<Rightarrow> [])) b'"
    if f: "fits b (length (encode_elems (case find (\<lambda>e. fst e = fst k) es of Some e \<Rightarrow> [([], snd e)] | None \<Rightarrow> [])))" for b
    using getField_cases [OF assms, of "fst k"]
  proof (elim disjE exE conjE)
    assume "find (\<lambda>e. fst e = fst k) es = None" "getField (encode es) (fst k) = Some (Inr eoo_element)"
    then show ?thesis using f extends_self [of b] by auto
  next
    fix e q assume e: "find (\<lambda>e. fst e = fst k) es = Some e" "getField (encode es) (fst k) = Some (Inr (encode_elem e @ q))" "elem_held e q"
    then show ?thesis using f append_elem_as [OF e(3), of b "[]"] by (auto simp: encode_elems_single)
  qed
  then show ?thesis by (simp add: outputs_def fieldName_elem)
qed

lemma extractFieldsUnDotted_encodes:
  assumes "document es" "document ks" "length ks < fuel" "length junk = 4"
    "int (length (encode (concat (map (\<lambda>k. case find (\<lambda>e. fst e = fst k) es of Some e \<Rightarrow> [([], snd e)] | None \<Rightarrow> []) ks)))) \<le> BSONObjMaxInternalSize"
  shows "extractFieldsUnDotted fuel junk (encode es) (encode ks) =
    Some (Inr (encode (concat (map (\<lambda>k. case find (\<lambda>e. fst e = fst k) es of Some e \<Rightarrow> [([], snd e)] | None \<Rightarrow> []) ks))))"
proof -
  note l = loops_write(1) [OF document_held [OF assms(2)] assms(3) extractUnDotted_outputs [OF assms(1)]]
  show ?thesis unfolding extractFieldsUnDotted_def
    by (rule build_encoding) (use assms(4,5) l document_start [OF assms(2)] in auto)
qed

text \<open>Renaming goes on with the old names when the new ones are used up.\<close>

definition renamed :: "bson_elem list \<Rightarrow> bson_elem list \<Rightarrow> bson_elem list" where
  "renamed ks es = map2 (\<lambda>k e. (fst k, snd e)) (take (length es) ks) (take (length ks) es) @ drop (length ks) es"

lemma renamed_snoc:
  "renamed ks (es @ [e]) = renamed ks es @ [if length es < length ks then (fst (ks ! length es), snd e) else e]"
proof (cases "length es < length ks")
  case True
  then have "take (Suc (length es)) ks = take (length es) ks @ [ks ! length es]" by (simp add: take_Suc_conv_app_nth)
  then show ?thesis using True by (simp add: renamed_def)
qed (simp add: renamed_def)

lemma renamed_prefix: "\<exists>r. renamed ks (xs @ ys) = renamed ks xs @ r"
proof (induction ys rule: rev_induct)
  case (snoc y ys)
  then show ?case using renamed_snoc [of ks "xs @ ys" y] by auto
qed simp

lemma replaceFieldNames_encodes:
  assumes es: "document es" and ks: "document ks" and "length es < fuel" "length junk = 4"
    and max: "int (length (encode (renamed ks es))) \<le> BSONObjMaxInternalSize"
  shows "replaceFieldNames fuel junk (encode es) (encode ks) = Some (Inr (encode (renamed ks es)))"
proof -
  let ?body = "\<lambda>e (b, f, j). bindO (Some (elem_eoo f)) (\<lambda>eoo.
      stay (if \<not> eoo
            then bindE (fieldName f) (\<lambda>n. bindE (appendAs e n b) (\<lambda>b. bindE (iter_next j) (\<lambda>(f, j). Inr (b, f, j))))
            else bindE (append_element e b) (\<lambda>b. Inr (b, f, j))))"
  let ?R = "\<lambda>b vs (c, f, j). fits b (length (encode_elems (renamed ks es))) \<and> extends b (encode_elems (renamed ks vs)) c \<and>
      (if length vs < length ks
       then f = encode_elem (ks ! length vs) @ encode_elems (drop (Suc (length vs)) ks) @ [nul] \<and>
            j = iter_at (take (Suc (length vs)) ks) (drop (Suc (length vs)) ks) []
       else \<exists>q. f = nul # q)"
  have held: "held (take i ks) (drop i ks) []" for i
    using document_held [OF ks] by (simp add: held_def)
  have next': "iter_next (iter_at (take i ks) (drop i ks) []) = Inr (encode_elem (ks ! i) @ encode_elems (drop (Suc i) ks) @ [nul],
      iter_at (take (Suc i) ks) (drop (Suc i) ks) [])" if "i < length ks" for i
    using held_elem_held(3) [of "take i ks" "ks ! i" "drop (Suc i) ks" "[]"] held [of i] that
    by (simp add: Cons_nth_drop_Suc [symmetric] take_Suc_conv_app_nth)
  have at_end: "\<exists>j. iter_next (iter_at (take i ks) (drop i ks) []) = Inr ([nul], j)" if "\<not> i < length ks" for i
    using iter_next_end [of ks "[]"] that by auto
  have step: "\<exists>s'. ?body (encode_elem e @ q) s = Some (Inr (False, s')) \<and> ?R b (vs @ [e]) s'"
    if w: "\<exists>ws. [] @ es = vs @ e # ws" and e: "elem_held e q" and R: "?R b vs s" for b vs e q s
  proof -
    obtain ws where ws: "es = (vs @ [e]) @ ws" using w by auto
    obtain c f j where s: "s = (c, f, j)" by (cases s) auto
    let ?e = "if length vs < length ks then (fst (ks ! length vs), snd e) else e"
    have c: "fits b (length (encode_elems (renamed ks es)))" "extends b (encode_elems (renamed ks vs)) c" using R by (simp_all add: s)
    have "length (encode_elems (renamed ks vs)) + length (encode_elem ?e) \<le> length (encode_elems (renamed ks es))"
      using renamed_prefix [of ks "vs @ [e]" ws] by (auto simp: ws renamed_snoc encode_elems_Cons)
    from extends_fits [OF c(2) fits_mono [OF c(1) this]] have fit: "fits c (length (encode_elem ?e))" .
    show ?thesis
    proof (cases "length vs < length ks")
      case True
      then have f: "f = encode_elem (ks ! length vs) @ encode_elems (drop (Suc (length vs)) ks) @ [nul]"
        "j = iter_at (take (Suc (length vs)) ks) (drop (Suc (length vs)) ks) []" using R by (simp_all add: s)
      have "elem_held (ks ! length vs) (encode_elems (drop (Suc (length vs)) ks) @ nul # [])"
        using held_elem_held(1) [of "take (length vs) ks" "ks ! length vs" "drop (Suc (length vs)) ks" "[]"] held [of "length vs"] True
        by (simp add: Cons_nth_drop_Suc)
      then have name: "fieldName f = Inr (fst (ks ! length vs))" using fieldName_elem f(1) by simp
      obtain c' where c': "appendAs (encode_elem e @ q) (fst (ks ! length vs)) c = Inr c'" "extends c (encode_elem ?e) c'"
        using append_elem_as [OF e, of c "fst (ks ! length vs)"] fit True by auto
      obtain f' j' where n: "iter_next j = Inr (f', j')" "?R b (vs @ [e]) (c', f', j')"
      proof (cases "Suc (length vs) < length ks")
        case more: True
        then show ?thesis using that next' [OF more] c(1) extends_trans [OF c(2) c'(2)] f(2) True
          by (auto simp: renamed_snoc encode_elems_single)
      next
        case False
        then obtain j' where "iter_next j = Inr ([nul], j')" using at_end [OF False] f(2) by auto
        then show ?thesis using that False c(1) extends_trans [OF c(2) c'(2)] True
          by (auto simp: renamed_snoc encode_elems_single)
      qed
      then show ?thesis using name c'(1) f(1) by (auto simp: s)
    next
      case False
      then obtain r where f: "f = nul # r" using R by (auto simp: s)
      obtain c' where c': "append_element (encode_elem e @ q) c = Inr c'" "extends c (encode_elem e) c'"
        using append_elem [OF e, of c] fit False by auto
      have "?R b (vs @ [e]) (c', f, j)" using False c(1) extends_trans [OF c(2) c'(2)] f by (auto simp: renamed_snoc encode_elems_single)
      then show ?thesis using c'(1) f by (auto simp: s)
    qed
  qed
  show ?thesis unfolding replaceFieldNames_def
  proof (rule build_encoding [OF \<open>length junk = 4\<close> _ _ max])
    fix b assume f: "fits b (length (encode_elems (renamed ks es)))"
    obtain f0 j0 where start: "iter_next (iter_at [] ks []) = Inr (f0, j0)" "?R b [] (b, f0, j0)"
    proof (cases "ks = []")
      case True
      then show ?thesis using that at_end [of 0] f extends_self [OF f] by (auto simp: renamed_def)
    next
      case False
      then show ?thesis using that next' [of 0] f extends_self [OF f] by (auto simp: renamed_def)
    qed
    obtain s' where s': "each_field fuel ?body (iter_at [] es []) (b, f0, j0) = Some (Inr s')" "?R b ([] @ es) s'"
      using each_field_relates [where R = "?R b" and body = ?body, OF document_held [OF es] \<open>length es < fuel\<close> start(2) step] by blast
    then show "\<exists>b'. bindO (Some (BSONObjIterator (encode es))) (\<lambda>i. bindO (Some (BSONObjIterator (encode ks))) (\<lambda>j.
        bindO (Some (if iter_moreWithEOO j then iter_next j else Inr (eoo_element, j))) (\<lambda>(f, j).
        bindO (each_field fuel ?body i (b, f, j)) (\<lambda>(b, f, j). Some (Inr b))))) = Some (Inr b') \<and> extends b (encode_elems (renamed ks es)) b'"
      using start(1) document_start [OF es] document_start [OF ks] by (cases s') auto
  qed simp_all
qed

subsection \<open>Extreme keys for clients\<close>

definition readable :: "bson_elem \<Rightarrow> bson_elem" where
  "readable e =
     (case snd e of
        VMinKey \<Rightarrow> (fst e, VObject [(''$minElement'', VInt 1)])
      | VMaxKey \<Rightarrow> (fst e, VObject [(''$maxElement'', VInt 1)])
      | _ \<Rightarrow> e)"

lemma append_object:
  assumes "fits b (length (encode_elem (n, VObject es)))" "length (encode es) < 2 ^ 31"
  shows "\<exists>b'. append_BSONObj n (encode es) b = Inr b' \<and> extends b (encode_elem (n, VObject es)) b'"
proof -
  have e: "encode_elem (n, VObject es) = (type_byte Object # cstring n) @ encode es" by (simp add: encode_elem_def encode_def)
  have f: "fits b (length (type_byte Object # cstring n) + length (encode es))" using assms(1) by (simp add: e)
  obtain b1 where b1: "append_header Object n b = Inr b1" "extends b (type_byte Object # cstring n) b1"
    using appends_extends [OF append_header_appends [of Object n] fits_mono [OF f]] by auto
  have "objsize (encode es) = Inr (int (length (encode es)))"
    using objsize_frame [of "encode_elems es" "[]"] assms(2) by (simp add: encode_def)
  then show ?thesis
    using b1 appends_extends [OF appendBuf_appends extends_fits [OF b1(2) f]] extends_trans [OF b1(2)]
    by (auto simp: append_BSONObj_def appendArea_def e)
qed

lemma special_key:
  assumes "length junk = 4" "length key < 1024" "fits b (length (encode_elem (n, VObject [(key, VInt 1)])))"
  shows "\<exists>b'. bindO (build_object junk 512 (\<lambda>m. Some (append_int key 1 m))) (\<lambda>m. stay (append_BSONObj n m b)) = Some (Inr (False, b')) \<and>
    extends b (encode_elem (n, VObject [(key, VInt 1)])) b'"
proof -
  have "append_int key 1 m = append_value junk key (VInt 1) m" for m by simp
  then have "appends (append_int key 1) (encode_elem (key, VInt 1))"
    using append_encoding(1) [OF assms(1), of "VInt 1" key] by simp
  from appends_extends [OF this]
  have "build_object junk 512 (\<lambda>m. Some (append_int key 1 m)) = Some (Inr (encode [(key, VInt 1)]))"
    using assms(1,2) by (intro build_encoding) (auto simp: encode_elems_single encode_def encode_elem_def BSONObjMaxInternalSize_def BSONObjMaxUserSize_def)
  then show ?thesis using append_object [OF assms(3)] assms(2) by (auto simp: encode_def)
qed

lemma clientReadable_encodes:
  assumes "document es" "length es < fuel" "length junk = 4" "int (length (encode (map readable es))) \<le> BSONObjMaxInternalSize"
  shows "clientReadable fuel junk (encode es) = Some (Inr (encode (map readable es)))"
proof -
  let ?special = "\<lambda>name key b. bindO (build_object junk 512 (\<lambda>m. Some (append_int key 1 m))) (\<lambda>m. stay (append_BSONObj name m b))"
  let ?body = "\<lambda>e b. bindO (Some (elem_type e)) (\<lambda>t. bindO (Some (fieldName e)) (\<lambda>name.
      if t = BSONType_to_int MinKey then ?special name ''$minElement'' b
      else if t = BSONType_to_int MaxKey then ?special name ''$maxElement'' b
      else stay (append_element e b)))"
  have out: "outputs ?body (\<lambda>e. [readable e]) e" for e
    unfolding outputs_def
  proof (intro allI impI, elim conjE)
    fix q b assume e: "elem_held e q" and f: "fits b (length (encode_elems [readable e]))"
    show "\<exists>b'. ?body (encode_elem e @ q) b = Some (Inr (False, b')) \<and> extends b (encode_elems [readable e]) b'"
    proof (cases "snd e \<in> {VMinKey, VMaxKey}")
      case True
      then show ?thesis using f fieldName_elem [OF e] special_key [OF assms(3), of _ b "fst e"]
        by (auto simp: readable_def encode_elems_single)
    next
      case False
      then have "value_type (snd e) \<notin> {MinKey, MaxKey}" "readable e = e" by (cases "snd e"; simp add: readable_def)+
      then show ?thesis using f fieldName_elem [OF e] append_elem [OF e, of b] by (auto simp: encode_elems_single)
    qed
  qed
  have "concat (map (\<lambda>e. [readable e]) es) = map readable es" by (induction es) auto
  note l = loops_write(1) [where body = ?body and out = "\<lambda>e. [readable e]", OF document_held [OF assms(1)] assms(2) out, unfolded this]
  show ?thesis unfolding clientReadable_def Let_def
    by (rule build_encoding) (use assms(3,4) l document_start [OF assms(1)] in auto)
qed

subsection \<open>Names\<close>

lemma getFieldNames_reads:
  assumes "document es" "length es < fuel"
  shows "getFieldNames fuel (encode es) names = Some (Inr (int (length es), names \<union> fst ` set es))"
proof -
  let ?body = "\<lambda>e (n, found). stay (bindE (fieldName e) (\<lambda>name. Inr (n + 1, insert name found)))"
  let ?R = "\<lambda>vs (n, found). n = int (length vs) \<and> found = names \<union> fst ` set vs"
  have "\<exists>s. each_field fuel ?body (iter_at [] es []) (0, names) = Some (Inr s) \<and> ?R ([] @ es) s"
    by (rule each_field_relates [OF document_held [OF assms(1)] assms(2)]) (auto simp: fieldName_elem)
  then show ?thesis using document_start [OF assms(1)] by (auto simp: getFieldNames_def)
qed

lemma isFieldNamePrefixOf_loop_names:
  assumes "held us es p" "held ws fs q" "length es < fuel"
  shows "isFieldNamePrefixOf_loop fuel (iter_at us es p) (iter_at ws fs q) = Some (Inr (prefix (map fst es) (map fst fs)))"
  using assms
proof (induction fuel arbitrary: us es ws fs)
  case (Suc fuel)
  show ?case
  proof (cases "es = [] \<or> fs = []")
    case True
    then show ?thesis by (cases es) auto
  next
    case False
    then obtain e es' f fs' where c: "es = e # es'" "fs = f # fs'" by (metis neq_Nil_conv)
    note h = held_elem_held [OF Suc.prems(1) [unfolded c]] held_elem_held [OF Suc.prems(2) [unfolded c]]
    show ?thesis using Suc.IH [OF h(2) h(5)] Suc.prems(3) h fieldName_elem [OF h(1)] fieldName_elem [OF h(4)] c by auto
  qed
qed simp

lemma isFieldNamePrefixOf_names:
  assumes "document es" "document fs" "length es < fuel"
  shows "isFieldNamePrefixOf fuel (encode es) (encode fs) = Some (Inr (prefix (map fst es) (map fst fs)))"
  using isFieldNamePrefixOf_loop_names [OF document_held [OF assms(1)] document_held [OF assms(2)] assms(3)]
    document_start [OF assms(1)] document_start [OF assms(2)] by (simp add: isFieldNamePrefixOf_def)

lemma couldBeArray_loop:
  assumes "held us es p" "length es < fuel"
  shows "\<exists>i. each_field fuel (\<lambda>e (could, index). bindO (Some (fieldName e)) (\<lambda>name.
       if name \<noteq> decimal_digits index then Some (Inr (True, (False, index)))
       else Some (Inr (False, (could, index + 1))))) (iter_at us es p) (True, k) =
    Some (Inr (map fst es = map decimal_digits [k..<k + length es], i))"
  using assms
proof (induction fuel arbitrary: us es k)
  case (Suc fuel)
  show ?case
  proof (cases es)
    case Nil
    then show ?thesis by (simp add: iter_next_end)
  next
    case (Cons e es')
    note h = held_elem_held [OF Suc.prems(1) [unfolded Cons]]
    have "map fst es = map decimal_digits [k..<k + length es] \<longleftrightarrow>
        fst e = decimal_digits k \<and> map fst es' = map decimal_digits [Suc k..<Suc k + length es']"
      by (simp add: Cons upt_conv_Cons del: upt_Suc)
    then show ?thesis using Suc.IH [OF h(2), of "Suc k"] Suc.prems(2) h fieldName_elem [OF h(1)] Cons by auto
  qed
qed simp

lemma couldBeArray_names:
  assumes "document es" "length es < fuel"
  shows "couldBeArray fuel (encode es) = Some (Inr (map fst es = map decimal_digits [0..<length es]))"
  using couldBeArray_loop [OF document_held [OF assms(1)] assms(2), of 0] document_start [OF assms(1)] by (auto simp: couldBeArray_def)

subsection \<open>Flattening\<close>

fun flattened :: "string \<Rightarrow> bson_elem list \<Rightarrow> bson_elem list" where
  "flattened base [] = []"
| "flattened base ((n, v) # es) =
     (case v of VObject fs \<Rightarrow> flattened (base @ n @ ''.'') fs | _ \<Rightarrow> [(base @ n, v)]) @ flattened base es"

lemma flattened_concat: "concat (map (\<lambda>e. flattened base [e]) es) = flattened base es"
  by (induction es) auto

lemma nested2dotted_writes:
  assumes "held [] es p" "weights es + 2 \<le> fuel" "fits b (length (encode_elems (flattened base es)))"
  shows "\<exists>b'. nested2dotted fuel (encode es @ p) base b = Some (Inr b') \<and> extends b (encode_elems (flattened base es)) b'"
  using assms
proof (induction fuel arbitrary: es p base b)
  case (Suc fuel)
  let ?body = "\<lambda>e b. bindO (Some (elem_type e)) (\<lambda>t. bindO (Some (fieldName e)) (\<lambda>name.
      if t = BSONType_to_int Object then
        bindO (Some (embeddedObject e)) (\<lambda>o'. bindO (nested2dotted fuel o' (base @ name @ ''.'') b) (\<lambda>b. Some (Inr (False, b))))
      else stay (appendAs e (base @ name) b)))"
  have out: "outputs ?body (\<lambda>e. flattened base [e]) e" if e: "e \<in> set es" for e
    unfolding outputs_def
  proof (intro allI impI, elim conjE)
    fix q c assume h: "elem_held e q" and f: "fits c (length (encode_elems (flattened base [e])))"
    show "\<exists>b'. ?body (encode_elem e @ q) c = Some (Inr (False, b')) \<and> extends c (encode_elems (flattened base [e])) b'"
    proof (cases "value_type (snd e) = Object")
      case True
      then obtain fs where v: "snd e = VObject fs" by (cases "snd e") auto
      have c: "container (snd e)" "sub_elems (snd e) = fs" by (simp_all add: v container_def sub_elems_def)
      have "embeddedObject (encode_elem e @ q) = Inr (encode fs @ q)"
        using embeddedObject_encoded [OF c(1), of "fst e" q] h c(2) by (simp add: elem_held_def)
      moreover have "held [] fs q" using held_sub [of "snd e" "fst e" q] h c by (simp add: elem_held_def)
      moreover have "weights fs + 2 \<le> fuel"
      proof -
        have "weight (snd e) < weights es" using e by (rule weight_member)
        then show ?thesis using Suc.prems(2) by (simp add: v)
      qed
      moreover have flat: "flattened base [e] = flattened (base @ fst e @ ''.'') fs" by (cases e) (use v in simp)
      ultimately obtain b' where "nested2dotted fuel (encode fs @ q) (base @ fst e @ ''.'') c = Some (Inr b')" "extends c (encode_elems (flattened base [e])) b'"
        using Suc.IH [of fs q c "base @ fst e @ ''.''"] f by auto
      then show ?thesis using fieldName_elem [OF h] \<open>embeddedObject _ = _\<close> True by simp
    next
      case False
      then have flat: "flattened base [e] = [(base @ fst e, snd e)]" by (cases e; cases "snd e") auto
      then show ?thesis using append_elem_as [OF h, of c "base @ fst e"] f fieldName_elem [OF h] False by (auto simp: encode_elems_single)
    qed
  qed
  have "length es \<le> weights es" by (rule length_le_weights)
  then have "length es < fuel" using Suc.prems(2) by simp
  from loops_write(2) [where body = ?body and out = "\<lambda>e. flattened base [e]", OF Suc.prems(1) this out, unfolded flattened_concat, OF _ Suc.prems(3)]
  show ?case using held_start [OF Suc.prems(1)] by simp
qed simp

text \<open>No object is left at the end of a dotted path.\<close>

lemma flattened_flat: "(n, v) \<in> set (flattened base es) \<Longrightarrow> value_type v \<noteq> Object"
  by (induction base es rule: flattened.induct) (auto split: bson_value.splits)

subsection \<open>Dotted names and arrays\<close>

function lookup_or_array :: "bson_elem list \<Rightarrow> string \<Rightarrow> bson_elem option \<times> string" where
  "lookup_or_array es name =
     (let p = memchr name CHR ''.'';
          rest = (case p of Some k \<Rightarrow> drop (k + 1) name | None \<Rightarrow> [])
      in case find (\<lambda>e. fst e = (case p of Some k \<Rightarrow> take k name | None \<Rightarrow> name)) es of
           None \<Rightarrow> (None, rest)
         | Some e \<Rightarrow>
             if value_type (snd e) = Array \<or> rest = [] then (Some e, rest)
             else if value_type (snd e) = Object then lookup_or_array (sub_elems (snd e)) rest
             else (None, rest))"
  by pat_completeness auto
termination
  by (relation "measure (\<lambda>(es, name). length name)") (auto simp: memchr_Some_iff split: option.splits)

declare lookup_or_array.simps [simp del]

lemma getField_held:
  assumes "held [] es p"
  shows "find (\<lambda>e. fst e = name) es = None \<and> getField (encode es @ p) name = Some (Inr eoo_element) \<or>
    (\<exists>e q. find (\<lambda>e. fst e = name) es = Some e \<and> getField (encode es @ p) name = Some (Inr (encode_elem e @ q)) \<and> elem_held e q)"
proof (cases "find (\<lambda>e. fst e = name) es")
  case None
  then show ?thesis using getField_encoded [of es p name] assms by (simp add: held_def)
next
  case (Some e)
  then show ?thesis
    using getField_encoded [of es p name] assms wf_find [of es _ "fst e" "snd e"] elem_in_document [OF find_in_set [OF Some]]
    by (auto simp: held_def elem_held_def)
qed

lemma elem_type_eoo_element [simp]: "elem_type eoo_element = Inr 0"
  by (simp add: elem_type_def eoo_element_def nul_def)

lemma getFieldDottedOrArray_held:
  assumes "held [] es p"
  shows "case lookup_or_array es name of
      (None, rest) \<Rightarrow> getFieldDottedOrArray (encode es @ p) name = Some (Inr (eoo_element, rest))
    | (Some e, rest) \<Rightarrow> \<exists>q. getFieldDottedOrArray (encode es @ p) name = Some (Inr (encode_elem e @ q, rest)) \<and> elem_held e q"
  using assms
proof (induction es name arbitrary: p rule: lookup_or_array.induct)
  case (1 es name)
  define k where "k = memchr name CHR ''.''"
  define rest where "rest = (case k of Some i \<Rightarrow> drop (i + 1) name | None \<Rightarrow> [])"
  define first where "first = (case k of Some i \<Rightarrow> take i name | None \<Rightarrow> name)"
  note unf = lookup_or_array.simps [of es name] getFieldDottedOrArray.simps [of "encode es @ p" name]
  note unf' = unf [unfolded Let_def, folded k_def, folded rest_def first_def]
  show ?case
    using getField_held [OF 1(2), of first]
  proof (elim disjE exE conjE)
    assume "find (\<lambda>e. fst e = first) es = None" "getField (encode es @ p) first = Some (Inr eoo_element)"
    then show ?thesis by (simp add: unf')
  next
    fix e q assume e: "find (\<lambda>e. fst e = first) es = Some e" "getField (encode es @ p) first = Some (Inr (encode_elem e @ q))" "elem_held e q"
    show ?thesis
    proof (cases "value_type (snd e) = Object \<and> rest \<noteq> []")
      case False
      then show ?thesis using e by (auto simp: unf')
    next
      case True
      have c: "container (snd e)" using True by (simp add: container_def)
      have sub: "embeddedObject (encode_elem e @ q) = Inr (encode (sub_elems (snd e)) @ q)" "held [] (sub_elems (snd e)) q"
        using embeddedObject_encoded [OF c, of "fst e" q] held_sub [of "snd e" "fst e" q] e(3) c by (simp_all add: elem_held_def)
      have "case lookup_or_array (sub_elems (snd e)) rest of
          (None, r) \<Rightarrow> getFieldDottedOrArray (encode (sub_elems (snd e)) @ q) rest = Some (Inr (eoo_element, r))
        | (Some e', r) \<Rightarrow> \<exists>q'. getFieldDottedOrArray (encode (sub_elems (snd e)) @ q) rest = Some (Inr (encode_elem e' @ q', r)) \<and> elem_held e' q'"
        using 1(1) [OF k_def rest_def [unfolded k_def, folded k_def] e(1) [unfolded first_def] _ _ sub(2)] True by simp
      moreover have "lookup_or_array es name = lookup_or_array (sub_elems (snd e)) rest"
        "getFieldDottedOrArray (encode es @ p) name = getFieldDottedOrArray (encode (sub_elems (snd e)) @ q) rest"
        using True e sub(1) by (simp_all add: unf')
      ultimately show ?thesis by (auto split: prod.splits option.splits)
    qed
  qed
qed

subsection \<open>Adding all fields of an object\<close>

lemma appendElements_writes:
  assumes "document es" "fits b (length (encode_elems es))"
  shows "\<exists>b'. appendElements (encode es) b = Inr b' \<and> extends b (encode_elems es) b'"
proof (cases "es = []")
  case True
  then show ?thesis using extends_self [OF assms(2)] objsize_frame [of "[]" "[]"]
    by (simp add: appendElements_def encode_def)
next
  case False
  have max: "length (encode es) < 2 ^ 31" using max_sizes assms(1) by (simp add: document_def)
  then have "objsize (encode es) = Inr (int (length (encode_elems es)) + 5)"
    using objsize_frame [of "encode_elems es" "[]"] by (simp add: encode_def)
  moreover have "\<not> int (length (encode_elems es)) + 5 \<le> 5" using encode_short [of es] False by (simp add: encode_def)
  moreover have "appendArea (drop 4 (encode es)) (int (length (encode_elems es))) b = appendBuf (encode_elems es) b"
    by (simp add: appendArea_def encode_def frame_def)
  ultimately show ?thesis using appends_extends [OF appendBuf_appends assms(2)] max
    by (simp add: appendElements_def checked32_def encode_def)
qed

text \<open>The iterator over a builder stops at the end of what has been written.\<close>

definition builder_at :: "string \<Rightarrow> bson_elem list \<Rightarrow> bson_elem list \<Rightarrow> bson_iter" where
  "builder_at junk us es =
     \<lparr>it_mem = junk @ encode_elems (us @ es), it_pos = 4 + int (length (encode_elems us)), it_end = int (length (junk @ encode_elems (us @ es))) - 1\<rparr>"

lemma builder_next:
  assumes "length junk = 4" "wf_elems (us @ e # es)" "length (encode_elems (us @ e # es)) < 2 ^ 31"
  shows "iter_more (builder_at junk us (e # es))"
    "iter_next (builder_at junk us (e # es)) = Inr (encode_elem e @ encode_elems es, builder_at junk (us @ [e]) es)"
proof -
  obtain n v where e: "e = (n, v)" by fastforce
  show "iter_more (builder_at junk us (e # es))"
    using assms(1) by (simp add: iter_more_def builder_at_def encode_elems_Cons e encode_elem_def)
  have "nat (4 + int (length (encode_elems us))) = length (junk @ encode_elems us)" using assms(1) by simp
  then have d: "drop (nat (4 + int (length (encode_elems us)))) (junk @ encode_elems (us @ e # es)) = encode_elem e @ encode_elems es"
    by (simp add: encode_elems_Cons)
  have "elem_size (encode_elem e @ encode_elems es) = Inr (int (length (encode_elem e)))"
    using elem_size_encoded [of v n "encode_elems es"] assms(2,3) e by (simp add: encode_elems_Cons)
  then show "iter_next (builder_at junk us (e # es)) = Inr (encode_elem e @ encode_elems es, builder_at junk (us @ [e]) es)"
    using d assms(1) by (simp add: iter_next_def builder_at_def Let_def encode_elems_Cons) (simp add: encode_elem_def)
qed

lemma builder_names:
  assumes "length junk = 4" "wf_elems (us @ es)" "length (encode_elems (us @ es)) < 2 ^ 31" "length es < fuel"
  shows "\<exists>ns. more_fields fuel (\<lambda>e names. stay (bindE (fieldName e) (\<lambda>n. Inr (n # names)))) (builder_at junk us es) names = Some (Inr ns) \<and>
    set ns = set names \<union> fst ` set es"
  using assms
proof (induction fuel arbitrary: us es names)
  case (Suc fuel)
  show ?case
  proof (cases es)
    case Nil
    have "\<not> iter_more (builder_at junk us [])" using Suc.prems(1) by (simp add: iter_more_def builder_at_def)
    then show ?thesis using Nil by simp
  next
    case (Cons e es')
    have "fieldName (encode_elem e @ encode_elems es') = Inr (fst e)"
      using fieldName_encoded [of "fst e" "snd e"] Suc.prems(2) Cons by (cases e) simp
    then show ?thesis
      using builder_next [of junk us e es'] Suc.prems Cons Suc.IH [of "us @ [e]" es' "fst e # names"] by auto
  qed
qed simp

theorem appendElementsUnique_adds_missing:
  assumes "document xs" "length junk = 4" "wf_elems es" "extends b0 (junk @ encode_elems es) b" "ob_offset ob = length (bld_data b0)"
    "length es < fuel" "length xs < fuel"
    and f: "fits b (length (encode_elems (filter (\<lambda>e. \<not> named es (fst e)) xs)))"
  shows "\<exists>b'. appendElementsUnique fuel (encode xs) ob b = Some (Inr b') \<and>
    extends b (encode_elems (filter (\<lambda>e. \<not> named es (fst e)) xs)) b'"
proof -
  have "length (bld_data b) < 2 ^ 31" using f by (simp add: fits_def bld_len_def BufferMaxSize_def)
  then have len: "length (encode_elems ([] @ es)) < 2 ^ 31" using assms(4) by (simp add: extends_def)
  have it: "builder_iterator ob b = builder_at junk [] es"
    using assms(4,5) by (simp add: builder_iterator_def builder_at_def extends_def)
  obtain ns where ns: "more_fields fuel (\<lambda>e names. stay (bindE (fieldName e) (\<lambda>n. Inr (n # names)))) (builder_iterator ob b) [] = Some (Inr ns)"
    "set ns = fst ` set es"
    using builder_names [OF assms(2) _ len assms(6), of "[]"] assms(3) by (auto simp: it)
  let ?body = "\<lambda>e b. stay (bindE (fieldName e) (\<lambda>n. if n \<in> set ns then Inr b else append_element e b))"
  have out: "outputs ?body (\<lambda>e. if \<not> named es (fst e) then [e] else []) e" for e
    unfolding outputs_def
  proof (intro allI impI, elim conjE)
    fix q c assume h: "elem_held e q" and g: "fits c (length (encode_elems (if \<not> named es (fst e) then [e] else [])))"
    show "\<exists>b'. ?body (encode_elem e @ q) c = Some (Inr (False, b')) \<and> extends c (encode_elems (if \<not> named es (fst e) then [e] else [])) b'"
      using g fieldName_elem [OF h] append_elem [OF h, of c] extends_self [of c] ns(2)
      by (cases "named es (fst e)") (auto simp: named_def encode_elems_single)
  qed
  from loops_write(2) [where body = ?body, OF document_held [OF assms(1)] assms(7) out, unfolded concat_filter, OF f]
  show ?thesis using ns(1) document_start [OF assms(1)] by (simp add: appendElementsUnique_def)
qed

subsection \<open>Positions in an index key\<close>

lemma find_position:
  assumes "held us ks p" "length ks < fuel"
  shows "each_field fuel (\<lambda>f (found, j). bindO (Some (fieldName f)) (\<lambda>n.
       if n = name then Some (Inr (True, (True, j))) else Some (Inr (False, (found, j + 1 :: nat))))) (iter_at us ks p) (False, j) =
    Some (Inr (named ks name, j + length (takeWhile (\<lambda>k. fst k \<noteq> name) ks)))"
  using assms
proof (induction fuel arbitrary: us ks j)
  case (Suc fuel)
  show ?case
  proof (cases ks)
    case Nil
    then show ?thesis by (simp add: iter_next_end named_def)
  next
    case (Cons k ks')
    note h = held_elem_held [OF Suc.prems(1) [unfolded Cons]]
    show ?thesis using Suc.IH [OF h(2), of "Suc j"] Suc.prems(2) h fieldName_elem [OF h(1)] Cons by (auto simp: named_def)
  qed
qed simp

lemma field_at_position:
  assumes "held us es p" "length es < fuel"
  shows "\<exists>r i. each_field fuel (\<lambda>g (r, j). if j = 0 then Some (Inr (True, (Some g, j))) else Some (Inr (False, (r, j - 1 :: nat))))
      (iter_at us es p) (None, j) = Some (Inr (r, i)) \<and>
    (if j < length es then \<exists>q. r = Some (encode_elem (es ! j) @ q) else r = None)"
  using assms
proof (induction fuel arbitrary: us es j)
  case (Suc fuel)
  show ?case
  proof (cases es)
    case Nil
    then show ?thesis by (simp add: iter_next_end)
  next
    case (Cons e es')
    note h = held_elem_held [OF Suc.prems(1) [unfolded Cons]]
    show ?thesis using Suc.IH [OF h(2), of "j - 1"] Suc.prems(2) h Cons by (cases j) auto
  qed
qed simp

lemma getFieldUsingIndexNames_finds:
  assumes "document es" "document ks" "length es < fuel" "length ks < fuel" "j = length (takeWhile (\<lambda>k. fst k \<noteq> name) ks)"
  shows "if named ks name \<and> j < length es
    then \<exists>q. getFieldUsingIndexNames fuel (encode es) name (encode ks) = Some (Inr (encode_elem (es ! j) @ q))
    else getFieldUsingIndexNames fuel (encode es) name (encode ks) = Some (Inr eoo_element)"
  using find_position [OF document_held [OF assms(2)] assms(4), of name 0] field_at_position [OF document_held [OF assms(1)] assms(3), of j]
    document_start [OF assms(1)] document_start [OF assms(2)]
  by (auto simp: getFieldUsingIndexNames_def assms(5) split: if_splits)

subsection \<open>All elements at the end of a path\<close>

function reached :: "bool \<Rightarrow> bson_elem list \<Rightarrow> string \<Rightarrow> bson_elem list" where
  "reached expandLastArray es name =
     (case find (\<lambda>e. fst e = name) es of
        Some e \<Rightarrow> if value_type (snd e) = Array \<and> expandLastArray then sub_elems (snd e) else [e]
      | None \<Rightarrow>
          (case memchr name CHR ''.'' of
             None \<Rightarrow> []
           | Some idx \<Rightarrow>
               (case find (\<lambda>e. fst e = take idx name) es of
                  None \<Rightarrow> []
                | Some e \<Rightarrow>
                    if value_type (snd e) = Object \<or> value_type (snd e) = Array \<and> all_digits (drop (idx + 1) name)
                    then reached expandLastArray (sub_elems (snd e)) (drop (idx + 1) name)
                    else if value_type (snd e) = Array
                    then concat (map (\<lambda>e2. if container (snd e2)
                      then reached expandLastArray (sub_elems (snd e2)) (drop (idx + 1) name) else []) (sub_elems (snd e)))
                    else [])))"
  by pat_completeness auto
termination
  by (relation "measure (\<lambda>(x, es, name). length name)") (auto simp: memchr_Some_iff)

declare reached.simps [simp del]

text \<open>\<open>put\<close> sees each element once, in order; the bytes behind an element do not matter.\<close>

definition collects :: "(string \<Rightarrow> 'c \<Rightarrow> 'c) \<Rightarrow> bson_elem list \<Rightarrow> 'c \<Rightarrow> 'c result option \<Rightarrow> bool" where
  "collects put es c r \<longleftrightarrow>
     (\<exists>bs. list_all2 (\<lambda>x e. \<exists>q. x = encode_elem e @ q) bs es \<and> r = Some (Inr (fold put bs c)))"

lemma collects_Nil [simp]: "collects put [] c (Some (Inr c))"
  by (simp add: collects_def)

lemma collects_one [simp]: "collects put [e] c (Some (Inr (put (encode_elem e @ q) c)))"
  by (auto simp: collects_def intro!: exI [of _ "[encode_elem e @ q]"])

lemma collects_then:
  assumes "collects put es c r" "\<And>d. collects put fs d (g d)"
  shows "collects put (es @ fs) c (bindO r g)"
proof -
  obtain bs where bs: "list_all2 (\<lambda>x e. \<exists>q. x = encode_elem e @ q) bs es" "r = Some (Inr (fold put bs c))"
    using assms(1) by (auto simp: collects_def)
  obtain cs where "list_all2 (\<lambda>x e. \<exists>q. x = encode_elem e @ q) cs fs" "g (fold put bs c) = Some (Inr (fold put cs (fold put bs c)))"
    using assms(2) [of "fold put bs c"] by (auto simp: collects_def)
  then show ?thesis using bs by (auto simp: collects_def list_all2_appendI intro!: exI [of _ "bs @ cs"])
qed

lemma more_fields_collects:
  assumes "held us es p" "length es < fuel"
    and "\<And>e q c. e \<in> set es \<Longrightarrow> elem_held e q \<Longrightarrow> collects put (out e) c (f (encode_elem e @ q) c)"
  shows "collects put (concat (map out es)) c (more_fields fuel (\<lambda>e c. bindO (f e c) (\<lambda>c. Some (Inr (False, c)))) (iter_at us es p) c)"
  using assms
proof (induction fuel arbitrary: us es c)
  case (Suc fuel)
  show ?case
  proof (cases es)
    case Nil
    then show ?thesis by simp
  next
    case (Cons e es')
    note h = held_elem_held [OF Suc.prems(1) [unfolded Cons]]
    let ?go = "more_fields fuel (\<lambda>e c. bindO (f e c) (\<lambda>c. Some (Inr (False, c)))) (iter_at (us @ [e]) es' p)"
    have first: "collects put (out e) c (f (encode_elem e @ encode_elems es' @ nul # p) c)" using Suc.prems(3) [OF _ h(1)] Cons by simp
    have rest: "collects put (concat (map out es')) d (?go d)" for d
      using Suc.prems(2,3) Cons by (intro Suc.IH [OF h(2)]) auto
    have "bindO (bindO r (\<lambda>c. Some (Inr (False, c)))) (\<lambda>(leave, c). if leave then Some (Inr c) else ?go c) = bindO r ?go" for r
      by (auto simp: bindO_def split: option.splits sum.splits)
    then show ?thesis using collects_then [OF first rest] h(3) Cons by simp
  qed
qed simp

lemma embedded_held:
  assumes "elem_held e q" "container (snd e)"
  shows "embeddedObject (encode_elem e @ q) = Inr (encode (sub_elems (snd e)) @ q)" "held [] (sub_elems (snd e)) q"
  using embeddedObject_encoded [OF assms(2), of "fst e" q] held_sub [of "snd e" "fst e" q] assms by (simp_all add: elem_held_def)

lemma bindO_assoc: "bindO (bindO x f) g = bindO x (\<lambda>y. bindO (f y) g)"
  by (simp add: bindO_def split: option.split sum.split)

lemma isABSONObj_types: "BSONType_to_int (value_type v) = BSONType_to_int Object \<or> BSONType_to_int (value_type v) = BSONType_to_int Array \<longleftrightarrow> container v"
  by (auto simp: container_def)

text \<open>The objects among the elements of an array, each searched for the rest of the path.\<close>

lemma array_collects:
  assumes "held [] es p" "length es < fuel"
    and deeper: "\<And>fs r d. held [] fs r \<Longrightarrow> weights fs < weights es \<Longrightarrow> collects put (out fs) d (search (encode fs @ r) d)"
  shows "collects put (concat (map (\<lambda>e. if container (snd e) then out (sub_elems (snd e)) else []) es)) c
    (more_fields fuel (\<lambda>e c. bindO (Some (elem_type e)) (\<lambda>t. bindO
        (if t = BSONType_to_int Object \<or> t = BSONType_to_int Array
         then bindO (Some (embeddedObject e)) (\<lambda>o'. search o' c) else Some (Inr c))
        (\<lambda>c. Some (Inr (False, c))))) (iter_at [] es p) c)"
proof -
  let ?f = "\<lambda>e c. bindO (Some (elem_type e)) (\<lambda>t. if t = BSONType_to_int Object \<or> t = BSONType_to_int Array
    then bindO (Some (embeddedObject e)) (\<lambda>o'. search o' c) else Some (Inr c))"
  have each: "collects put (if container (snd e) then out (sub_elems (snd e)) else []) d (?f (encode_elem e @ r) d)"
    if e: "e \<in> set es" "elem_held e r" for e r d
  proof (cases "container (snd e)")
    case True
    note sub = embedded_held [OF e(2) True]
    have "weights (sub_elems (snd e)) < weights es" using weight_member [OF e(1)] True by (simp add: weight_sub_elems)
    then show ?thesis using deeper [OF sub(2), of d] True isABSONObj_types [of "snd e"] sub(1) by simp
  qed (use isABSONObj_types [of "snd e"] in simp)
  show ?thesis
    using more_fields_collects [where f = ?f, OF assms(1,2) each] by (simp add: bindO_assoc cong: if_cong)
qed

text \<open>
  (C12) All elements of a path: \<open>getFieldsDotted\<close> ends and inserts exactly the elements that \<open>reached\<close> lists, in order. A
  path goes into objects, into the element of an array that a number names, and otherwise into every object or array
  in an array. Fuel for the weight of the document and the length of the path is enough.
\<close>

theorem getFieldsDotted_collects:
  assumes "held [] es p" "weights es + length name < fuel"
  shows "collects put (reached expandLastArray es name) c (getFieldsDotted fuel put expandLastArray (encode es @ p) name c)"
  using assms
proof (induction fuel arbitrary: es p name c)
  case (Suc fuel)
  have small: "weights (sub_elems (snd e)) < weights es" if "find P es = Some e" for P e
    using weight_member [OF find_in_set [OF that]] by (simp add: weight_sub_elems)
  note len = length_le_weights
  note reached_simp = reached.simps [of _ es name]
  show ?case
    using getField_held [OF Suc.prems(1), of name]
  proof (elim disjE exE conjE)
    fix e q assume e: "find (\<lambda>e. fst e = name) es = Some e" "getField (encode es @ p) name = Some (Inr (encode_elem e @ q))" "elem_held e q"
    show ?thesis
    proof (cases "value_type (snd e) = Array \<and> expandLastArray")
      case False
      then show ?thesis using e by (auto simp: reached_simp)
    next
      case True
      then have c: "container (snd e)" by (simp add: container_def)
      note sub = embedded_held [OF e(3) c]
      have "length (sub_elems (snd e)) < fuel" using small [OF e(1)] len [of "sub_elems (snd e)"] Suc.prems(2) by linarith
      from more_fields_collects [where put = put and out = "\<lambda>e. [e]" and f = "\<lambda>e c. Some (Inr (put e c))", OF sub(2) this]
      show ?thesis using True e sub(1) held_start [OF sub(2)] by (simp add: reached_simp)
    qed
  next
    assume none: "find (\<lambda>e. fst e = name) es = None" "getField (encode es @ p) name = Some (Inr eoo_element)"
    show ?thesis
    proof (cases "memchr name CHR ''.''")
      case None
      then show ?thesis using none by (simp add: reached_simp)
    next
      case (Some idx)
      let ?next = "drop (idx + 1) name"
      have shorter: "length ?next < length name" using Some by (auto simp: memchr_Some_iff)
      show ?thesis
        using getField_held [OF Suc.prems(1), of "take idx name"]
      proof (elim disjE exE conjE)
        assume "find (\<lambda>e. fst e = take idx name) es = None" "getField (encode es @ p) (take idx name) = Some (Inr eoo_element)"
        then show ?thesis using none Some by (simp add: reached_simp Let_def)
      next
        fix e q assume e: "find (\<lambda>e. fst e = take idx name) es = Some e" "getField (encode es @ p) (take idx name) = Some (Inr (encode_elem e @ q))" "elem_held e q"
        note less = small [OF e(1)]
        show ?thesis
        proof (cases "container (snd e)")
          case False
          then show ?thesis using none Some e by (auto simp: reached_simp Let_def container_def)
        next
          case True
          note sub = embedded_held [OF e(3) True]
          show ?thesis
          proof (cases "value_type (snd e) = Object \<or> all_digits ?next")
            case obj: True
            have "collects put (reached expandLastArray (sub_elems (snd e)) ?next) c (getFieldsDotted fuel put expandLastArray (encode (sub_elems (snd e)) @ q) ?next c)"
              using less shorter Suc.prems(2) by (intro Suc.IH [OF sub(2)]) linarith
            then show ?thesis using True obj none Some e sub(1) by (auto simp: reached_simp Let_def container_def)
          next
            case False
            then have arr: "value_type (snd e) = Array" using True by (simp add: container_def)
            let ?search = "\<lambda>o' ret. getFieldsDotted fuel put expandLastArray o' ?next ret"
            have "length (sub_elems (snd e)) < fuel" using less len [of "sub_elems (snd e)"] Suc.prems(2) by linarith
            moreover have "collects put (reached expandLastArray fs ?next) d (?search (encode fs @ r) d)"
              if "held [] fs r" "weights fs < weights (sub_elems (snd e))" for fs r d
              using less shorter Suc.prems(2) that(2) by (intro Suc.IH [OF that(1)]) linarith
            ultimately show ?thesis
              using array_collects [where search = ?search and out = "\<lambda>fs. reached expandLastArray fs ?next", OF sub(2)]
                False arr none Some e(1,2) sub(1) held_start [OF sub(2)] by (simp add: reached_simp Let_def cong: if_cong)
          qed
        qed
      qed
    qed
  qed
qed simp

subsection \<open>Adding wanted fields\<close>

definition wanted_or_id :: "string list \<Rightarrow> bson_elem \<Rightarrow> bool" where
  "wanted_or_id wanted e \<longleftrightarrow> fst e \<in> set wanted \<or> fst e = ''_id''"

definition wanted_in :: "string list \<Rightarrow> bson_elem list \<Rightarrow> nat" where
  "wanted_in wanted es = length (filter (\<lambda>e. fst e \<in> set wanted) es)"

lemma wanted_in_simps [simp]:
  "wanted_in wanted [] = 0"
  "wanted_in wanted (e # es) = (if fst e \<in> set wanted then Suc (wanted_in wanted es) else wanted_in wanted es)"
  "wanted_in wanted (es @ fs) = wanted_in wanted es + wanted_in wanted fs"
  by (simp_all add: wanted_in_def)

text \<open>Field names that differ: once all wanted fields and \<open>_id\<close> are there, no later field is wanted.\<close>

lemma wanted_exhausted:
  assumes "distinct (map fst (us @ es))" "distinct wanted" "wanted_in wanted us = length wanted" "named us ''_id''"
  shows "wanted_in wanted es = 0" "filter (wanted_or_id wanted) es = []"
proof -
  let ?found = "map fst (filter (\<lambda>e. fst e \<in> set wanted) us)"
  have d: "distinct ?found" using assms(1) by (simp add: distinct_map_filter)
  have "card (set ?found) = card (set wanted)"
    using distinct_card [OF d] distinct_card [OF assms(2)] assms(3) by (simp add: wanted_in_def)
  moreover have "set ?found \<subseteq> set wanted" by auto
  ultimately have "set ?found = set wanted" by (simp add: card_subset_eq)
  then have "set wanted \<subseteq> fst ` set us" by auto
  moreover have "fst e \<notin> fst ` set us" if "e \<in> set es" for e
    using that assms(1) by auto
  ultimately have none: "fst e \<notin> set wanted \<and> fst e \<noteq> ''_id''" if "e \<in> set es" for e
    using that assms(4) unfolding named_def by (metis subsetD)
  then show "wanted_in wanted es = 0" by (simp add: wanted_in_def filter_empty_conv)
  show "filter (wanted_or_id wanted) es = []" using none by (simp add: wanted_or_id_def filter_empty_conv)
qed

lemma named_snoc [simp]: "named (us @ [e]) n \<longleftrightarrow> named us n \<or> fst e = n"
  by (auto simp: named_def)

lemma addFields_loop_picks:
  assumes "held us es p" "length es + 1 < fuel" "distinct (map fst (us @ es))" "distinct wanted" "[] \<notin> set wanted"
    "fits b (length (encode_elems (filter (wanted_or_id wanted) es)))"
  shows "\<exists>g b'. addFields_loop fuel wanted (iter_at us es p) (wanted_in wanted us, named us ''_id'', b) =
      Some (Inr (wanted_in wanted (us @ es), g, b')) \<and> extends b (encode_elems (filter (wanted_or_id wanted) es)) b'"
  using assms
proof (induction fuel arbitrary: us es b)
  case (Suc fuel)
  show ?case
  proof (cases es)
    case Nil
    have "\<not> iter_moreWithEOO ((iter_at us [] p)\<lparr>it_pos := it_end (iter_at us [] p) + 1\<rparr>)" by (simp add: iter_moreWithEOO_def)
    moreover obtain fuel' where "fuel = Suc fuel'" using Suc.prems(2) by (cases fuel) auto
    moreover have "fieldName (nul # p) = Inr []" by (simp add: fieldName_def elem_eoo_def elem_type_def nul_def)
    ultimately show ?thesis using Nil Suc.prems(5,6) extends_self [of b] by (simp add: iter_next_end)
  next
    case (Cons e es')
    note h = held_elem_held [OF Suc.prems(1) [unfolded Cons]]
    let ?x = "encode_elem e @ encode_elems es' @ nul # p"
    let ?P = "wanted_or_id wanted"
    have continue: "\<exists>g b'. addFields_loop fuel wanted (iter_at (us @ [e]) es' p) (wanted_in wanted (us @ [e]), named (us @ [e]) ''_id'', c) =
        Some (Inr (wanted_in wanted (us @ es), g, b')) \<and> extends b (encode_elems (filter ?P es)) b'"
      if "extends b (encode_elems (filter ?P [e])) c" for c
    proof -
      have "fits c (length (encode_elems (filter ?P es')))"
        using extends_fits [OF that] Suc.prems(6) Cons by (cases "?P e") (simp_all add: encode_elems_Cons)
      then have "\<exists>g b'. addFields_loop fuel wanted (iter_at (us @ [e]) es' p) (wanted_in wanted (us @ [e]), named (us @ [e]) ''_id'', c) =
        Some (Inr (wanted_in wanted ((us @ [e]) @ es'), g, b')) \<and> extends c (encode_elems (filter ?P es')) b'"
        using Suc.prems Cons by (intro Suc.IH [OF h(2)]) auto
      then show ?thesis using extends_trans [OF that] Cons by (cases "?P e") (fastforce simp: encode_elems_Cons)+
    qed
    have stop: "\<exists>g b'. Some (Inr (wanted_in wanted (us @ [e]), True, c)) = Some (Inr (wanted_in wanted (us @ es), g, b')) \<and>
        extends b (encode_elems (filter ?P es)) b'"
      if "extends b (encode_elems (filter ?P [e])) c" "wanted_in wanted (us @ [e]) = length wanted" "named (us @ [e]) ''_id''" for c
      using wanted_exhausted [of "us @ [e]" es' wanted] Suc.prems(3,4) Cons that by (cases "?P e") (auto simp: encode_elems_Cons)
    show ?thesis
    proof (cases "?P e")
      case False
      then have "fst e \<notin> set wanted" "fst e \<noteq> ''_id''" "''_id'' \<noteq> fst e" by (auto simp: wanted_or_id_def)
      then show ?thesis using False continue [of b] extends_self [OF Suc.prems(6)] h(3) fieldName_elem [OF h(1)] Cons
        by (simp add: named_def)
    next
      case True
      then have "fits b (length (encode_elem e))" using Suc.prems(6) Cons fits_mono by (simp add: encode_elems_Cons)
      then obtain c where c: "append_element ?x b = Inr c" "extends b (encode_elems (filter ?P [e])) c"
        using append_elem [OF h(1)] True by (auto simp: encode_elems_single)
      have step: "addFields_loop (Suc fuel) wanted (iter_at us es p) (wanted_in wanted us, named us ''_id'', b) =
        (if wanted_in wanted (us @ [e]) = length wanted \<and> named (us @ [e]) ''_id''
         then Some (Inr (wanted_in wanted (us @ [e]), True, c))
         else addFields_loop fuel wanted (iter_at (us @ [e]) es' p) (wanted_in wanted (us @ [e]), named (us @ [e]) ''_id'', c))"
        using True c(1) h(3) fieldName_elem [OF h(1)] Cons by (auto simp: wanted_or_id_def Let_def)
      show ?thesis
        using continue [OF c(2)] stop [OF c(2)] step
        by (cases "wanted_in wanted (us @ [e]) = length wanted \<and> named (us @ [e]) ''_id''") (simp_all only: if_True if_False simp_thms, auto)
    qed
  qed
qed simp

text \<open>
  \<open>addFields\<close> on an object that is empty and not owned, with wanted names among which the empty name is not: the wanted
  fields and \<open>_id\<close>, in the order of the source object, or nothing when no wanted field is there.
\<close>

theorem addFields_picks:
  assumes "document es" "distinct (map fst es)" "distinct wanted" "[] \<notin> set wanted" "length es + 1 < fuel" "length junk = 4"
    "objsize obj = Inr sz" "sz \<le> 5"
  shows "addFields fuel junk False obj (encode es) wanted =
    (if wanted_in wanted es = 0 then Some (Inr (0, obj))
     else Some (Inr (wanted_in wanted es, encode (filter (wanted_or_id wanted) es))))"
proof -
  let ?picked = "filter (wanted_or_id wanted) es"
  let ?body = "\<lambda>b. bindO (addFields_loop fuel wanted (iter_at [] es []) (0, False, b))
    (\<lambda>(n, g, b). if n = wanted_in wanted es then Some (Inr b) else None)"
  have loop: "\<exists>g b'. addFields_loop fuel wanted (iter_at [] es []) (0, False, b) = Some (Inr (wanted_in wanted es, g, b')) \<and> extends b (encode_elems ?picked) b'"
    if "fits b (length (encode_elems ?picked))" for b
    using addFields_loop_picks [OF document_held [OF assms(1)] assms(5), of wanted b] assms(2-4) that by (simp add: named_def)
  have max: "int (length (encode ?picked)) \<le> BSONObjMaxInternalSize"
    using filter_short [of "wanted_or_id wanted" es] assms(1) by (simp add: document_def encode_def)
  have "\<exists>b'. ?body b = Some (Inr b') \<and> extends b (encode_elems ?picked) b'" if "fits b (length (encode_elems ?picked))" for b
    using loop [OF that] by auto
  then have "build_object junk 512 ?body = Some (Inr (encode ?picked))"
    using build_encoding [OF assms(6) _ _ max] by simp
  then show ?thesis
    using assms(7,8) document_start [OF assms(1)]
    by (auto simp: addFields_def build_object_def bindO_def split: option.splits sum.splits if_splits prod.splits)
qed

lemma extractFields_encodes_witness:
  "extractFields 9 ''....'' (encode [(''x'', VNull), (''a'', VObject [(''b'', VInt 7)])]) (encode [(''a.b'', VInt 1), (''c'', VInt 1)]) True =
    Some (Inr (encode [(''a.b'', VInt 7), (''c'', VNull)]))"
proof -
  let ?es = "[(''x'', VNull), (''a'', VObject [(''b'', VInt 7)])]"
  let ?ks = "[(''a.b'', VInt 1), (''c'', VInt 1)]"
  have "lookup_dotted ?es ''a.b'' = Some (''b'', VInt 7)" "lookup_dotted ?es ''c'' = None"
    by (simp_all add: lookup_dotted.simps sub_elems_def)
  then have e: "concat (map (extracted True ?es) ?ks) = [(''a.b'', VInt 7), (''c'', VNull)]"
    by (simp add: extracted_def)
  have "document ?es" "document ?ks"
    by (simp_all add: document_def nul_def encode_def BSONObjMaxInternalSize_def BSONObjMaxUserSize_def)
  moreover have "int (length (encode [(''a.b'', VInt 7), (''c'', VNull)])) \<le> BSONObjMaxInternalSize"
    by (simp add: encode_def BSONObjMaxInternalSize_def BSONObjMaxUserSize_def)
  ultimately show ?thesis using extractFields_encodes [of ?es ?ks 9 "''....''" True, unfolded e] by simp
qed

lemma getFieldsDotted_collects_witness:
  "\<exists>q r. getFieldsDotted 99 Cons True (encode [(''a'', VArray [(''0'', VObject [(''b'', VInt 7)]), (''1'', VNull), (''2'', VObject [(''b'', VArray [(''0'', VNull)])])])] @ []) ''a.b'' [] =
    Some (Inr [encode_elem (''0'', VNull) @ r, encode_elem (''b'', VInt 7) @ q])"
proof -
  let ?es = "[(''a'', VArray [(''0'', VObject [(''b'', VInt 7)]), (''1'', VNull), (''2'', VObject [(''b'', VArray [(''0'', VNull)])])])]"
  have "reached True ?es ''a.b'' = [(''b'', VInt 7), (''0'', VNull)]"
    by (simp add: reached.simps sub_elems_def container_def all_digits_def)
  moreover have "held [] ?es []"
    by (simp add: held_def nul_def encode_def BSONObjMaxInternalSize_def BSONObjMaxUserSize_def)
  ultimately show ?thesis
    using getFieldsDotted_collects [of ?es "[]" "''a.b''" 99 Cons True "[]"]
    by (auto simp: collects_def list_all2_Cons2)
qed

end
