(* ===== verification/Spec2Isabelle.thy ===== *)
theory Spec2Isabelle
  imports Parse_Number Init_Graph Bson_Safety Bson_Element Role_Graph_Recompute Q_Lock_Progress Authz_World
    Mutable_Spec Bson_Compare_Spec Bson_Storage Bson_Fields_Spec
begin

text \<open>
  A verification library for the core of the MongoDB C++ code base (\<open>src/src/mongo\<close>): the base
  library, the BSON format, mutable documents, the authorization model and the global lock. Paths below are relative to
  \<open>src/src/mongo\<close>.

  \<^bold>\<open>Parts and how they interact.\<close> Everything the server receives or stores is a BSON document. Bytes
  from the network go through the validator (\<open>bson_validate.cpp\<close>) before the unchecked readers
  (\<open>BSONElement\<close>, \<open>BSONObjIterator\<close>, \<open>BSONObj\<close>) walk over them; documents are written with
  \<open>BSONObjBuilder\<close> on top of \<open>_BufBuilder\<close> and changed in place as a mutable document, which reads the
  elements it was given only when they are visited and writes them back with the builder. Fallible operations return \<open>Status\<close>, a handle on a
  reference counted object. Start-up code is ordered by the initializer dependency graph. Who may do
  what is decided by privileges (an action set on a resource pattern), which roles grant; the role
  graph keeps the roles, what they contain and what they grant in total. The authorization manager keeps
  the users it has fetched in a cache that all threads share; a client session holds references to the
  users that have logged in and decides from their privileges what it may do. Threads synchronise on the
  global quad lock \<open>QLock\<close>.

  \<^bold>\<open>Theories, in the order of their dependencies.\<close>

  \<^item> \<open>Mongo_Prelude\<close>: the type \<open>'a result\<close> of an operation that may abort (\<open>Inl\<close>: an exception with its
    code, a failed \<open>fassert\<close>, undefined behaviour of the language) or return (\<open>Inr\<close>); sequencing with
    \<open>bindE\<close> and \<open>foldE\<close>; vectors; the locale \<open>simulation\<close> (a concrete step function that may fail
    simulates a specification along every run) and the locale \<open>three_way\<close> (what a comparison function
    with three outcomes promises, and the order that follows).
  \<^item> \<open>Status\<close>: \<open>base/status.{h,cpp}\<close>, \<open>status-inl.h\<close>. Values, and separately a heap of reference
    counted \<open>ErrorInfo\<close> objects with handles. The interpretation of \<open>simulation\<close> shows that programs
    over the handles behave as programs over independent values: no use after free, no leak.
  \<^item> \<open>String_Data\<close>: \<open>base/string_data.h\<close>, \<open>string_data-inl.h\<close>; interprets \<open>three_way\<close> on \<open>compare\<close>.
  \<^item> \<open>Parse_Number\<close>: \<open>base/parse_number.cpp\<close> for any width and signedness; exactness of the overflow
    tests and the round trip with printing.
  \<^item> \<open>Init_Graph\<close>: \<open>base/initializer_dependency_graph.cpp\<close>, \<open>initializer.cpp\<close>; the recursion of
    \<open>recursiveTopSort\<close> carries fuel, and the theorems show that fuel for every node is enough.
  \<^item> \<open>Bson_Types\<close>, \<open>Bson_Validate\<close>, \<open>Bson_Valid\<close>, \<open>Bson_Safety\<close>: \<open>bson/bsontypes.h\<close> and
    \<open>bson/bson_validate.cpp\<close>. Positions are 64-bit words, as in the code, so that wrap-around is
    real; a read outside the buffer and signed overflow are errors of the model. The documents of the
    format and their encoding are the reference definition.
  \<^item> \<open>Buf_Builder\<close>, \<open>Bson_Builder\<close>: \<open>bson/util/builder.h\<close> and \<open>bson/bsonobjbuilder.h\<close>; what the builder
    writes is the encoding of the document, unless the size check of \<open>BSONObj\<close> or the 64 MB limit of the buffer
    refuses it.
  \<^item> \<open>Bson_Element\<close>, \<open>Bson_Object\<close>: \<open>bson/bsonelement.h\<close>, \<open>bsonobjiterator.h\<close>, \<open>bsonobj.h\<close> and the
    readers of \<open>bson-inl.h\<close>, on raw bytes; on encoded documents they find exactly the elements.
  \<^item> \<open>Bson_Append\<close>, \<open>Bson_Fields\<close>, \<open>Bson_Fields_Spec\<close>: the functions of \<open>db/jsobj.cpp\<close> and \<open>bson-inl.h\<close> that
    take fields out of objects, filter, rename, flatten and merge them; each ends and produces the
    encoding of what the same function on lists of elements gives. \<open>Bson_Storage\<close>: \<open>okForStorage\<close> of
    \<open>jsobj.cpp\<close> against what the header documents, as a recursive predicate on documents.
  \<^item> \<open>Bson_Double\<close>, \<open>Bson_Compare\<close>, \<open>Bson_Order\<close>, \<open>Bson_Order_Run\<close>, \<open>Bson_Compare_Spec\<close>: the comparison of
    elements and objects (\<open>compareElementValues\<close>, \<open>woCompare\<close> with key patterns and \<open>Ordering\<close>,
    \<open>woSortOrder\<close>, deep equality, prefixes). Every value has a sort key, in a linear order of keys;
    comparing objects computes the lexicographic order of the keys, for objects whose 64 bit integers are exact as
    doubles and that do not mix dates and timestamps. Doubles are their 64 bits.
  \<^item> \<open>Mutable_Document\<close>, \<open>Mutable_Element\<close>, \<open>Mutable_Algorithm\<close>: \<open>bson/mutable/document.cpp\<close>,
    \<open>element.cpp\<close> and \<open>algorithm.h\<close>. The state is the vector of element representations with their
    five links, the objects that hold the bytes of values and the damage events of in-place mode.
  \<^item> \<open>Mutable_Tree\<close>: the forest a document stands for (children that have been visited, elements that
    are still bytes, what has changed since) and the invariant \<open>document_ok\<close> that ties the links and
    the bytes to it. \<open>Mutable_Resolve\<close>, \<open>Mutable_Visit\<close>, \<open>Mutable_Links\<close>, \<open>Mutable_Edit\<close>,
    \<open>Mutable_Make\<close>, \<open>Mutable_Set\<close>: each operation keeps the invariant and does its step on the
    forest. \<open>Mutable_Write\<close>, \<open>Mutable_Start\<close>: writing a document out gives the bytes of what the forest
    denotes. \<open>Mutable_Refine\<close>: what the operations do to the denoted value, by paths.
    \<open>Mutable_Walk\<close>, \<open>Mutable_Script\<close>, \<open>Mutable_Spec\<close>: searches, sequences of changes (the locale
    \<open>editor\<close>, interpreted on the operations of the code) and the properties.
  \<^item> \<open>String_Utils\<close>, \<open>Namespace_String\<close>: \<open>util/stringutils.cpp\<close>, \<open>db/namespace_string.h\<close> and
    \<open>namespace_string-inl.h\<close>.
  \<^item> \<open>Action_Set\<close>, \<open>Privilege\<close>, \<open>Builtin_Roles\<close>: the action types and sets, resource patterns,
    privileges, role names and builtin roles of \<open>db/auth\<close>.
  \<^item> \<open>Role_Graph\<close>, \<open>Role_Graph_Invariant\<close>, \<open>Role_Graph_Effects\<close>, \<open>Role_Graph_Recompute\<close>:
    \<open>db/auth/role_graph.{h,cpp}\<close>. The state is the record of the maps and the set the class has; the
    invariant ties them together and makes every operation total; the effect of each operation is
    stated on the relation of roles to subordinates and on the granted actions; the recomputation is a
    depth-first search whose fuel is proved to be enough, and its result is reachability.
  \<^item> \<open>Auth_User\<close>, \<open>Authz_Session\<close>: \<open>db/auth/user.cpp\<close>, \<open>user_set.cpp\<close>, \<open>authorization_session.cpp\<close>: users
    with the privileges and roles granted to them, the set of authenticated users, logging in and out
    and every decision of a session. The manager that owns the users is a locale.
  \<^item> \<open>Authz_References\<close>, \<open>Authz_Cache\<close>, \<open>Authz_Cache_Invariant\<close>, \<open>Authz_Cache_Safety\<close>: the user cache of
    \<open>db/auth/authorization_manager.cpp\<close>. User objects live in a heap, so that a use after free is visible;
    the threads that fetch, wait, release and invalidate are interleaved at their waits and at the fetch
    phase; the condition variable is the list of the threads asleep on it, which only a notification or a spurious wake-up
    takes them from. \<open>Authz_World\<close>: the cache provides what the sessions rely on; a session among other threads that use the cache
    between its calls, and invalidate users during its fetches.
  \<^item> \<open>Q_Lock\<close>, \<open>Q_Lock_Safety\<close>, \<open>Q_Lock_Progress\<close>: \<open>util/concurrency/qlock.h\<close>. Every operation is a
    function on the counters up to its next wait, the system an inductive relation over all
    interleavings, notifications and spurious wake-ups. The invariant says what each counter counts
    among the threads. Progress holds as long as no \<open>lock_W_try\<close> gives up while it waits.

  \<^bold>\<open>What the properties show.\<close> Memory safety and acceptance of the validator; builder and readers
  against the encoding; comparison of objects against an order of keys, which documents may be stored, what
  the functions on fields return; mutable documents against an editor of values: any sequence of
  changes, followed by writing the document out, gives the changed value; exactness of number parsing; value semantics of \<open>Status\<close>; the order of
  initializers; the invariant, the effects and the termination of the role graph; containment and
  reach of the builtin roles; what logging in, logging out and an invalidation change in a session, no use
  after free in the user cache; mutual exclusion, assertions and progress of the quad lock. Where the
  code does not do what it means to, the property states the concrete behaviour: inputs on which the
  validator does not end or overflows, a key pattern shorter than the objects it compares, dates and timestamps that cannot be compared one way round, an equality
  of numbers that is not transitive, a default namespace that reads behind its string, role names
  that collide, a copied element that has lost its children, a reference to a user that is never released, a wake-up that gets lost.

  \<^bold>\<open>Bounds and fuel.\<close> Loops over bytes and lists are structural or have a measure. Fuel occurs in
  \<open>recursiveTopSort\<close>, in \<open>validateBSON\<close> (which may really loop forever on crafted input), in the
  iteration over elements, in the loops over links of a mutable document (\<open>3 * weights es + 2\<close> is enough
  to write out a document of the elements \<open>es\<close>), in the comparison of objects and in the functions on fields (the
  number of fields, those inside fields included, or twice that is enough) and in \<open>recomputePrivilegeData\<close>; each has a theorem that names the fuel
  that is enough, or that none is. Lists stand for C++ vectors and strings; their lengths are not
  limited by memory. The theorems on mutable documents assume that the number of representations stays below
  \<open>kMaxRepIdx\<close> and the heap of leaves below the largest size of an object; the code asserts both. The
  counters of the quad lock are unbounded integers. The reference counts of users and of \<open>Status\<close> have 32 bits and wrap around; the
  theorems on them are about states with fewer than \<open>2 ^ 32\<close> references to an object, those on invalidations about
  fewer than \<open>2 ^ 64\<close> of them during one fetch.

  \<^bold>\<open>Not modelled.\<close> Code that only passes data to the operating system or to libraries (sockets, files,
  clocks, the JavaScript engines, the shell, the tools, everything in \<open>third_party\<close>); storage
  (memory mapped files, journal, extents, btree), query execution and the matcher, replication and
  sharding, which work on memory and disk layouts and cluster state of their own; in BSON
  JSON and string output, and \<open>dotted2nested\<close>; of mutable documents comparison, sorting and the arithmetic of \<open>SafeNum\<close>; in
  \<open>db/auth\<close> the parsing of privilege and user documents, the upgrade of the schema and the replay of
  role changes from the oplog. Streaming output operators and floating point text are left out
  everywhere. They are listed with reasons in the manifest of the development.
\<close>

end
